(* ===== verification/Prelude.thy ===== *)
theory Prelude
  imports Main "HOL-Library.Word" "HOL-Library.Sublist"
begin

text \<open>
  Shared vocabulary of the development: the C integer types as words, \<open>size_t\<close> arithmetic with its
  wrap-around written out, copies into a buffer (\<open>memcpy\<close> and \<open>memmove\<close> at an offset), the
  fallible state-passing operations every parser of the library is built from, and the contract
  (a locale) that all byte consumers share.
\<close>

unbundle bit_operations_syntax

section \<open>Types\<close>

type_synonym byte = "8 word"
type_synonym u16 = "16 word"
type_synonym u32 = "32 word"
type_synonym u64 = "64 word"

text \<open>A \<open>size_t\<close> is 64 bits wide; the model keeps it as a natural number and reduces every sum whose
  overflow the code checks.\<close>

type_synonym size_t = nat

definition size_wrap :: "nat \<Rightarrow> size_t" where
  "size_wrap n = n mod 2 ^ 64"

definition SIZE_MAX :: size_t where
  "SIZE_MAX = 2 ^ 64 - 1"

definition INT_MAX :: nat where
  "INT_MAX = 2 ^ 31 - 1"

lemma size_wrap_small [simp]: "n < 2 ^ 64 \<Longrightarrow> size_wrap n = n"
  by (simp add: size_wrap_def)

lemma size_wrap_less [simp]: "size_wrap n < 2 ^ 64"
  by (simp add: size_wrap_def)

text \<open>The overflow test \<open>a + b < a\<close> of the code is exact.\<close>

lemma size_wrap_overflow:
  assumes "a < 2 ^ 64" and "b < 2 ^ 64"
  shows "size_wrap (a + b) < a \<longleftrightarrow> 2 ^ 64 \<le> a + b"
proof (cases "a + b < 2 ^ 64")
  case True
  then show ?thesis by simp
next
  case False
  then have "size_wrap (a + b) = a + b - 2 ^ 64"
    using assms by (simp add: size_wrap_def mod_if)
  then show ?thesis using False assms by auto
qed

section \<open>Bits of bytes and words\<close>

lemma and_7F: "(w :: 'a::len word) AND 0x7F = take_bit 7 w"
  by (simp add: take_bit_eq_mask mask_numeral)

lemma and_FF: "(w :: 'a::len word) AND 0xFF = take_bit 8 w"
  by (simp add: take_bit_eq_mask mask_numeral)

lemma and_80: "(b :: byte) AND 0x80 = 0 \<longleftrightarrow> \<not> bit b 7"
  by (simp add: bit_iff_and_push_bit_not_eq_0)

lemma small_bits: "drop_bit k (v :: 'a::len word) = 0 \<Longrightarrow> k \<le> n \<Longrightarrow> \<not> bit v n"
  by (metis bit_drop_bit_eq bit_0_eq bot_apply bot_bool_def comp_apply le_add_diff_inverse)

lemma small_bitD: "drop_bit k (v :: 'a::len word) = 0 \<Longrightarrow> bit v n \<Longrightarrow> n < k"
  using small_bits not_le by blast

lemma u64_le_7F: "(v :: u64) \<le> 0x7F \<longleftrightarrow> drop_bit 7 v = 0"
  unfolding drop_bit_eq_div unat_eq_zero [symmetric]
  by (simp add: unat_div word_le_nat_alt div_eq_0_iff) arith

text \<open>A value is its low \<open>k\<close> bits and the rest.\<close>

lemma split_low:
  "push_bit n (take_bit k v) OR push_bit (n + k) (drop_bit k v) = push_bit n (v :: 'a::len word)"
proof (rule bit_word_eqI)
  fix m assume "m < LENGTH('a)"
  show "bit (push_bit n (take_bit k v) OR push_bit (n + k) (drop_bit k v)) m = bit (push_bit n v) m"
  proof (cases "n + k \<le> m")
    case True
    then have "k + (m - (n + k)) = m - n" by simp
    then show ?thesis using True by (auto simp: bit_simps)
  qed (auto simp: bit_simps)
qed

lemma ucast_byte_take [simp]:
  "8 \<le> LENGTH('b) \<Longrightarrow> (ucast (ucast (take_bit 8 (v :: 'a::len word)) :: byte) :: 'b::len word) = ucast (take_bit 8 v)"
  by (rule bit_word_eqI) (auto simp: bit_simps)

lemma ucast_id [simp]: "(ucast (v :: 'a::len word) :: 'a word) = v"
  by (rule bit_word_eqI) (auto simp: bit_simps)

lemma drop_all_bits:
  "LENGTH('a) \<le> k + n \<Longrightarrow> take_bit n (drop_bit k (v :: 'a::len word)) = drop_bit k v"
  by (rule bit_word_eqI) (auto simp: bit_simps dest: bit_imp_le_length)

lemma ucast_top_byte:
  "LENGTH('a) \<le> k + 8 \<Longrightarrow> 8 \<le> LENGTH('a) \<Longrightarrow>
   (ucast (ucast (drop_bit k (v :: 'a::len word)) :: byte) :: 'a word) = drop_bit k v"
  using ucast_byte_take [of "drop_bit k v", where 'b = 'a] by (simp add: drop_all_bits)

text \<open>Shifting left and back loses nothing when the top bits are those of the sign.\<close>

lemma drop_push:
  "(\<And>n. bit v n \<Longrightarrow> n + k < LENGTH('a)) \<Longrightarrow> drop_bit k (push_bit k (v :: 'a::len word)) = v"
  by (rule bit_word_eqI) (auto simp: bit_simps add.commute)

lemma not_drop_push:
  "(\<And>n. \<not> bit v n \<Longrightarrow> n < LENGTH('a) \<Longrightarrow> n + k < LENGTH('a)) \<Longrightarrow>
   NOT (drop_bit k (NOT (push_bit k (v :: 'a::len word)))) = v"
  by (rule bit_word_eqI) (auto simp: bit_simps add.commute)

lemma and_1: "(x :: 'a::len word) AND 1 = 0 \<longleftrightarrow> \<not> bit x 0"
  by (simp add: bit_iff_and_push_bit_not_eq_0)

lemma negative_bit: "(v :: 'a::len word) <s 0 \<longleftrightarrow> bit v (LENGTH('a) - 1)"
  by (simp add: word_sless_alt bit_last_iff)

text \<open>The low seven bits carried in a byte with and without the continuation bit.\<close>

lemma byte_more: "bit (ucast (take_bit 7 v) OR 0x80 :: byte) 7"
  by (simp add: bit_simps)

lemma byte_more_low: "take_bit 7 (ucast (take_bit 7 v) OR 0x80 :: byte) = ucast (take_bit 7 v)"
  by (rule bit_word_eqI) (auto simp: bit_simps)

lemma byte_low7_low [simp]: "take_bit 7 (ucast (take_bit 7 v) :: byte) = ucast (take_bit 7 v)"
  by (rule bit_word_eqI) (auto simp: bit_simps)

lemma byte_last: "drop_bit 7 (v :: 'a::len word) = 0 \<Longrightarrow> \<not> bit (ucast v :: byte) 7"
  by (simp add: bit_simps small_bits)

lemma byte_last_low: "drop_bit 7 (v :: 'a::len word) = 0 \<Longrightarrow> take_bit 7 (ucast v :: byte) = ucast v"
  by (rule bit_word_eqI) (auto simp: bit_simps dest: small_bitD)

lemma ucast_byte_low7 [simp]:
  "8 \<le> LENGTH('b) \<Longrightarrow> (ucast (ucast (take_bit 7 (v :: 'a::len word)) :: byte) :: 'b::len word) = ucast (take_bit 7 v)"
  by (rule bit_word_eqI) (auto simp: bit_simps)

lemma ucast_byte_small:
  "drop_bit 7 (v :: 'a::len word) = 0 \<Longrightarrow> (ucast (ucast v :: byte) :: 'a word) = v"
  by (rule bit_word_eqI) (auto simp: bit_simps dest: small_bitD)

text \<open>Shifting and merging as arithmetic.\<close>

lemma unat_push_bit: "unat (u :: 'a::len word) * 2 ^ k < 2 ^ LENGTH('a) \<Longrightarrow> unat (push_bit k u) = unat u * 2 ^ k"
  unfolding unsigned_push_bit_eq by (simp add: push_bit_eq_mult take_bit_nat_eq_self)

lemma unat_bit_less: "unat (w :: 'a::len word) < 2 ^ k \<Longrightarrow> bit w n \<Longrightarrow> n < k"
proof -
  assume w: "unat w < 2 ^ k" and b: "bit w n"
  then have "bit (unat w) n" by (simp add: bit_unsigned_iff)
  with w have "bit (take_bit k (unat w)) n" by (simp add: take_bit_nat_eq_self)
  then show ?thesis by (simp add: bit_take_bit_iff)
qed

lemma nat_bit_less: "(m :: nat) < 2 ^ k \<Longrightarrow> bit m n \<Longrightarrow> n < k"
proof -
  assume m: "m < 2 ^ k" and b: "bit m n"
  with m have "bit (take_bit k m) n" by (simp add: take_bit_nat_eq_self)
  then show ?thesis by (simp add: bit_take_bit_iff)
qed

lemma unat_push_or:
  fixes u w :: "'a::len word"
  assumes u: "unat u * 2 ^ k < 2 ^ LENGTH('a)" and w: "unat w < 2 ^ k"
  shows "unat (push_bit k u OR w) = unat u * 2 ^ k + unat w"
proof -
  have "unat (push_bit k u OR w) = (push_bit k (unat u)) OR (unat w)"
    using unat_push_bit [OF u] by (simp add: unsigned_or_eq push_bit_eq_mult)
  also have "\<dots> = push_bit k (unat u) + unat w"
  proof (rule disjunctive_add_eq_or [symmetric])
    show "push_bit k (unat u) AND unat w = 0"
      by (rule bit_eqI) (auto simp: bit_simps dest: unat_bit_less [OF w])
  qed
  finally show ?thesis by (simp add: push_bit_eq_mult)
qed

lemma drop_bit_0_iff: "drop_bit k (w :: 'a::len word) = 0 \<longleftrightarrow> unat w < 2 ^ k"
proof -
  have "drop_bit k w = 0 \<longleftrightarrow> unat (drop_bit k w) = 0" by (simp only: unat_eq_zero)
  also have "unat (drop_bit k w) = drop_bit k (unat w)" by (rule unat_drop_bit_eq)
  finally show ?thesis by (simp add: drop_bit_eq_div div_eq_0_iff)
qed

lemma unat_take_bit: "unat (take_bit k (w :: 'a::len word)) = unat w mod 2 ^ k"
  by (simp only: unsigned_take_bit_eq) (simp add: take_bit_eq_mod)

lemma unat_ucast_byte [simp]: "8 \<le> LENGTH('a) \<Longrightarrow> unat (ucast (b :: byte) :: 'a::len word) = unat b"
proof -
  assume "8 \<le> LENGTH('a)"
  then have "(2 :: nat) ^ 8 \<le> 2 ^ LENGTH('a)" by (rule power_increasing) simp
  moreover have "unat b < 2 ^ 8" using unsigned_less [of b, where 'a = nat] by simp
  ultimately have "unat b < 2 ^ LENGTH('a)" by simp
  then show ?thesis by (simp add: unsigned_ucast_eq take_bit_nat_eq_self_iff)
qed

lemma unat_byte_of_nat: "unat (of_nat n :: byte) = n mod 256"
  by (simp add: unat_of_nat)

lemma byte_of_unat [simp]: "of_nat (unat (b :: byte)) = b"
  by simp

lemma of_nat_unat_eq: "unat w = n \<Longrightarrow> w = of_nat n"
  by auto

text \<open>A byte is its top bit and seven others.\<close>

lemma drop_bit_7_less: "v \<noteq> (0 :: u64) \<Longrightarrow> unat (drop_bit 7 v) < unat v"
  by (simp add: drop_bit_eq_div unat_div unat_gt_0)

lemma byte_split: "unat (b :: byte) = (if bit b 7 then 128 else 0) + unat b mod 128"
proof -
  have "unat b < 256" using unsigned_less [of b, where 'a = nat] by simp
  then have "unat b div 128 = 0 \<and> unat b < 128 \<or> unat b div 128 = 1 \<and> unat b = 128 + unat b mod 128"
  proof (cases "unat b < 128")
    case False
    with \<open>unat b < 256\<close> have "unat b div 128 = 1" by (intro div_nat_eqI) simp_all
    with mult_div_mod_eq [of 128 "unat b"] show ?thesis by simp
  qed simp
  moreover have "bit b 7 \<longleftrightarrow> odd (unat b div 128)"
    using bit_iff_odd [of "unat b" 7] by (simp add: bit_unsigned_iff)
  ultimately show ?thesis by auto
qed

lemma byte_top: "bit (b :: byte) 7 \<longleftrightarrow> 128 \<le> unat b"
proof -
  have "unat b mod 128 < 128" by simp
  with byte_split [of b] show ?thesis by (cases "bit b 7") (simp_all only: if_True if_False, simp_all)
qed

section \<open>Writing into a buffer\<close>

text \<open>\<open>splice off src dst\<close> is \<open>memcpy(dst + off, src, length src)\<close>.\<close>

definition splice :: "nat \<Rightarrow> 'a list \<Rightarrow> 'a list \<Rightarrow> 'a list" where
  "splice off src dst = take off dst @ src @ drop (off + length src) dst"

lemma splice_Nil [simp]: "splice off [] dst = dst"
  by (simp add: splice_def)

lemma length_splice [simp]:
  "off + length src \<le> length dst \<Longrightarrow> length (splice off src dst) = length dst"
  by (simp add: splice_def)

lemma take_splice_before [simp]:
  "n \<le> off \<Longrightarrow> off \<le> length dst \<Longrightarrow> take n (splice off src dst) = take n dst"
  by (simp add: splice_def min_def)

lemma take_splice_end:
  "off \<le> length dst \<Longrightarrow> take (off + length src) (splice off src dst) = take off dst @ src"
  by (simp add: splice_def)

lemma drop_splice_after:
  "off + length src \<le> length dst \<Longrightarrow> off + length src \<le> n \<Longrightarrow>
   drop n (splice off src dst) = drop n dst"
  by (simp add: splice_def)

lemma splice_splice:
  "off + length a + length b \<le> length dst \<Longrightarrow>
   splice (off + length a) b (splice off a dst) = splice off (a @ b) dst"
  by (simp add: splice_def ac_simps)

section \<open>Fallible operations on a state\<close>

text \<open>
  A C function that returns 0 or false on failure may already have changed the object it works on.
  An operation therefore returns its result (\<open>None\<close> for failure) together with the state it
  leaves, on both paths.
\<close>

type_synonym ('s, 'a) op = "'s \<Rightarrow> 'a option \<times> 's"

definition ret :: "'a \<Rightarrow> ('s, 'a) op" where
  "ret x s = (Some x, s)"

definition fail :: "('s, 'a) op" where
  "fail s = (None, s)"

text \<open>\<open>if (!m(s)) return 0; ...\<close>: stop at the first failure, with the state it left.\<close>

definition andthen :: "('s, 'a) op \<Rightarrow> ('a \<Rightarrow> ('s, 'b) op) \<Rightarrow> ('s, 'b) op" where
  "andthen m k s = (case m s of (None, s') \<Rightarrow> (None, s') | (Some x, s') \<Rightarrow> k x s')"

lemma andthen_cong [fundef_cong]:
  assumes "m s = m' s'" and "\<And>x t. m' s' = (Some x, t) \<Longrightarrow> k x t = k' x t"
  shows "andthen m k s = andthen m' k' s'"
  using assms by (auto simp: andthen_def split: prod.splits option.splits)

lemma andthen_Some:
  "andthen m k s = (Some y, t) \<longleftrightarrow> (\<exists>x s'. m s = (Some x, s') \<and> k x s' = (Some y, t))"
  by (auto simp: andthen_def split: prod.splits option.splits)

lemma andthen_step: "m s = (Some x, s') \<Longrightarrow> andthen m k s = k x s'"
  by (simp add: andthen_def)

lemma andthen_stop: "m s = (None, s') \<Longrightarrow> andthen m k s = (None, s')"
  by (simp add: andthen_def)

lemma ret_eq [simp]: "ret x s = (Some y, t) \<longleftrightarrow> x = y \<and> s = t" "ret x s = (None, t) \<longleftrightarrow> False"
  by (auto simp: ret_def)

lemma fail_eq [simp]: "fail s = (Some y, t) \<longleftrightarrow> False" "fail s = (None, t) \<longleftrightarrow> s = t"
  by (auto simp: fail_def)

section \<open>The contract of a byte consumer\<close>

text \<open>
  A consumer works on a state that shows a sequence of unread bytes (\<open>view\<close>) and has a
  well-formedness condition (\<open>ok\<close>). Whether it succeeds or fails, it keeps the condition and
  only ever drops bytes from the front of the view.
\<close>

locale consuming =
  fixes view :: "'s \<Rightarrow> byte list"
    and ok :: "'s \<Rightarrow> bool"
    and rd :: "'s \<Rightarrow> 'a option \<times> 's"
  assumes keeps_ok: "ok s \<Longrightarrow> ok (snd (rd s))"
    and drops: "ok s \<Longrightarrow> suffix (view (snd (rd s))) (view s)"
begin

lemma consumed:
  assumes "ok s" and "rd s = (r, s')"
  obtains p where "view s = p @ view s'" and "ok s'"
  using keeps_ok [OF assms(1)] drops [OF assms(1)] assms(2) by (auto simp: suffix_def)

lemma view_length: "ok s \<Longrightarrow> rd s = (r, s') \<Longrightarrow> length (view s') \<le> length (view s)"
  by (auto elim: consumed)

lemma ok_after: "ok s \<Longrightarrow> rd s = (r, s') \<Longrightarrow> ok s'"
  by (auto elim: consumed)

end

text \<open>A strict consumer takes at least one byte when it succeeds, so a loop of them stops.\<close>

locale strictly_consuming = consuming +
  assumes progress: "ok s \<Longrightarrow> rd s = (Some x, s') \<Longrightarrow> length (view s') < length (view s)"

lemma consuming_ret: "consuming view ok (ret x)"
  by unfold_locales (auto simp: ret_def)

lemma consuming_fail: "consuming view ok fail"
  by unfold_locales (auto simp: fail_def)

lemma consuming_andthen:
  assumes m: "consuming view ok m" and k: "\<And>x. consuming view ok (k x)"
  shows "consuming view ok (andthen m k)"
proof
  fix s assume s: "ok s"
  obtain r s' where ms: "m s = (r, s')"
    by (cases "m s")
  have 1: "ok s'" "suffix (view s') (view s)"
    using consuming.keeps_ok [OF m s] consuming.drops [OF m s] ms by auto
  show "ok (snd (andthen m k s))"
    using 1 ms consuming.keeps_ok [OF k 1(1)] by (cases r) (auto simp: andthen_def)
  have "suffix (view (snd (k x s'))) (view s)" for x
    by (rule suffix_order.trans [OF consuming.drops [OF k 1(1)] 1(2)])
  then show "suffix (view (snd (andthen m k s))) (view s)"
    using 1 ms by (cases r) (auto simp: andthen_def)
qed

lemma consuming_if:
  assumes "b \<Longrightarrow> consuming view ok m" and "\<not> b \<Longrightarrow> consuming view ok m'"
  shows "consuming view ok (if b then m else m')"
  using assms by simp

lemmas consuming_intros = consuming_ret consuming_fail consuming_andthen consuming_if

lemma strictly_consuming_andthen:
  assumes m: "strictly_consuming view ok m" and k: "\<And>x. consuming view ok (k x)"
  shows "strictly_consuming view ok (andthen m k)"
proof -
  have c: "consuming view ok m"
    using m by (rule strictly_consuming.axioms)
  show ?thesis
  proof (intro strictly_consuming.intro consuming_andthen [OF c k] strictly_consuming_axioms.intro)
    fix s y t assume s: "ok s" and "andthen m k s = (Some y, t)"
    then obtain x s' where m1: "m s = (Some x, s')" and k1: "k x s' = (Some y, t)"
      by (auto simp: andthen_Some)
    have "length (view t) \<le> length (view s')"
      using consuming.view_length [OF k consuming.ok_after [OF c s m1] k1] .
    with strictly_consuming.progress [OF m s m1] show "length (view t) < length (view s)"
      by simp
  qed
qed

end
