(* ===== verification/Mem.thy ===== *)
theory Mem
  imports Prelude
begin

text \<open>
  The memory helpers of BoringSSL (\<open>crypto/mem.c\<close>): allocation with a size prefix, the constant
  time comparison, the FNV-1a hash and the string helpers. The C library's \<open>malloc\<close> is a
  parameter: \<open>malloc n\<close> is the fresh block it returns, or \<open>None\<close>.
\<close>

section \<open>Allocation\<close>

text \<open>A block is the eight bytes of prefix in front of the pointer handed out, and the bytes from that
  pointer on.\<close>

type_synonym block = "byte list \<times> byte list"

abbreviation payload :: "block \<Rightarrow> byte list" where
  "payload \<equiv> snd"

text \<open>What the C library promises: a block of the size asked for, and no object larger than
  \<open>PTRDIFF_MAX\<close>.\<close>

definition allocator :: "(nat \<Rightarrow> byte list option) \<Rightarrow> bool" where
  "allocator malloc \<longleftrightarrow> (\<forall>n b. malloc n = Some b \<longrightarrow> length b = n \<and> n < 2 ^ 63)"

text \<open>An allocator that keeps the promise.\<close>

definition zero_alloc :: "nat \<Rightarrow> byte list option" where
  "zero_alloc n = (if n < 2 ^ 63 then Some (replicate n 0) else None)"

lemma allocator_zero_alloc [simp]: "allocator zero_alloc"
  by (simp add: allocator_def zero_alloc_def)

text \<open>An allocator that serves every request up to \<open>PTRDIFF_MAX\<close>.\<close>

definition serves :: "(nat \<Rightarrow> byte list option) \<Rightarrow> bool" where
  "serves malloc \<longleftrightarrow> allocator malloc \<and> (\<forall>n < 2 ^ 63. \<exists>b. malloc n = Some b)"

lemma serves_zero_alloc [simp]: "serves zero_alloc"
  by (simp add: serves_def) (simp add: zero_alloc_def)

lemma serves_allocator: "serves malloc \<Longrightarrow> allocator malloc"
  by (simp add: serves_def)

definition OPENSSL_MALLOC_PREFIX :: nat where
  "OPENSSL_MALLOC_PREFIX = 8"

text \<open>A \<open>size_t\<close> in memory, least significant byte first, and back.\<close>

definition size_bytes :: "size_t \<Rightarrow> byte list" where
  "size_bytes n = map (\<lambda>k. of_nat (n div 256 ^ k)) [0, 1, 2, 3, 4, 5, 6, 7]"

definition size_of_bytes :: "byte list \<Rightarrow> size_t" where
  "size_of_bytes bs = foldr (\<lambda>b n. unat b + 256 * n) bs 0"

definition OPENSSL_malloc :: "(nat \<Rightarrow> byte list option) \<Rightarrow> size_t \<Rightarrow> block option" where
  "OPENSSL_malloc malloc sz =
     (case malloc (size_wrap (sz + OPENSSL_MALLOC_PREFIX)) of
        None \<Rightarrow> None
      | Some raw \<Rightarrow>
          (let ptr = splice 0 (size_bytes sz) raw
           in Some (take OPENSSL_MALLOC_PREFIX ptr, drop OPENSSL_MALLOC_PREFIX ptr)))"

text \<open>\<open>OPENSSL_free\<close> cleans the block, prefix included, before it hands it back; the value is what
  the C library's \<open>free\<close> receives.\<close>

definition OPENSSL_cleanse :: "byte list \<Rightarrow> nat \<Rightarrow> byte list" where
  "OPENSSL_cleanse ptr len = splice 0 (replicate len 0) ptr"

definition OPENSSL_free :: "block option \<Rightarrow> byte list option" where
  "OPENSSL_free orig =
     (case orig of
        None \<Rightarrow> None
      | Some (hdr, bytes) \<Rightarrow>
          (let sz = size_of_bytes hdr
           in Some (OPENSSL_cleanse (hdr @ bytes) (size_wrap (sz + OPENSSL_MALLOC_PREFIX)))))"

text \<open>\<open>OPENSSL_realloc\<close> with the block it returns and what the C library's \<open>free\<close> receives meanwhile: the old
  block once its contents are copied, and nothing when there is no old block or no new one.\<close>

definition realloc_free ::
  "(nat \<Rightarrow> byte list option) \<Rightarrow> block option \<Rightarrow> size_t \<Rightarrow> block option \<times> byte list option" where
  "realloc_free malloc orig new_size =
     (case orig of
        None \<Rightarrow> (OPENSSL_malloc malloc new_size, None)
      | Some (hdr, bytes) \<Rightarrow>
          (let old_size = size_of_bytes hdr
           in case OPENSSL_malloc malloc new_size of
                None \<Rightarrow> (None, None)
              | Some (hdr', fresh) \<Rightarrow>
                  (let to_copy = (if old_size < new_size then old_size else new_size)
                   in (Some (hdr', splice 0 (take to_copy bytes) fresh), OPENSSL_free orig))))"

definition OPENSSL_realloc ::
  "(nat \<Rightarrow> byte list option) \<Rightarrow> block option \<Rightarrow> size_t \<Rightarrow> block option" where
  "OPENSSL_realloc malloc orig new_size = fst (realloc_free malloc orig new_size)"

lemma realloc_cases:
  "OPENSSL_realloc malloc orig new_size =
     (case orig of
        None \<Rightarrow> OPENSSL_malloc malloc new_size
      | Some (hdr, bytes) \<Rightarrow> (case OPENSSL_malloc malloc new_size of None \<Rightarrow> None
          | Some (hdr', fresh) \<Rightarrow>
              Some (hdr', splice 0 (take (if size_of_bytes hdr < new_size then size_of_bytes hdr else new_size) bytes) fresh)))"
  by (simp add: OPENSSL_realloc_def realloc_free_def Let_def split: option.split prod.split)

subsection \<open>Blocks remember their size\<close>

lemma length_size_bytes [simp]: "length (size_bytes n) = 8"
  by (simp add: size_bytes_def)

lemma size_of_bytes_Cons [simp]:
  "size_of_bytes [] = 0" "size_of_bytes (b # bs) = unat b + 256 * size_of_bytes bs"
  by (simp_all add: size_of_bytes_def)

lemma size_of_digits:
  "size_of_bytes (map (\<lambda>k. of_nat (n div 256 ^ k)) [i ..< i + k]) = n div 256 ^ i mod 256 ^ k"
proof (induction k arbitrary: i)
  case (Suc k)
  have e: "[i ..< i + Suc k] = i # [Suc i ..< Suc i + k]"
    by (simp only: add_Suc_right add_Suc) (simp add: upt_conv_Cons del: upt_Suc)
  have d: "n div 256 ^ Suc i = n div 256 ^ i div 256"
    by (simp add: div_mult2_eq [symmetric] mult.commute)
  show ?case
    unfolding e list.map size_of_bytes_Cons Suc.IH unat_byte_of_nat d
    unfolding power_Suc mod_mult2_eq
    by (rule add.commute)
qed simp

lemma size_of_size_bytes [simp]: "n < 2 ^ 64 \<Longrightarrow> size_of_bytes (size_bytes n) = n"
proof -
  assume n: "n < 2 ^ 64"
  have "size_bytes n = map (\<lambda>k. of_nat (n div 256 ^ k)) [0 ..< 0 + 8]"
    by (simp add: size_bytes_def upt_rec)
  then have "size_of_bytes (size_bytes n) = n mod 256 ^ 8"
    using size_of_digits [of n 0 8] by simp
  with n show ?thesis by simp
qed

text \<open>The invariant of a live block: the prefix holds the number of bytes behind it.\<close>

definition block_ok :: "block \<Rightarrow> bool" where
  "block_ok b \<longleftrightarrow> fst b = size_bytes (length (payload b)) \<and> length (payload b) + 8 < 2 ^ 64"

lemma malloc_block:
  assumes a: "allocator malloc" and sz: "sz + 8 < 2 ^ 64" and m: "OPENSSL_malloc malloc sz = Some b"
  shows "block_ok b" and "length (payload b) = sz" and "sz + 8 < 2 ^ 63"
proof -
  from sz have w: "size_wrap (sz + 8) = sz + 8" by (rule size_wrap_small)
  with m obtain raw where raw: "malloc (sz + 8) = Some raw"
    and b: "b = (take 8 (splice 0 (size_bytes sz) raw), drop 8 (splice 0 (size_bytes sz) raw))"
    unfolding OPENSSL_malloc_def OPENSSL_MALLOC_PREFIX_def Let_def
    by (cases "malloc (sz + 8)") simp_all
  from a raw have "length raw = sz + 8" and "sz + 8 < 2 ^ 63" by (simp_all only: allocator_def)
  with b sz show "block_ok b" and "length (payload b) = sz" and "sz + 8 < 2 ^ 63"
    by (simp_all add: block_ok_def splice_def)
qed

lemma malloc_serves:
  assumes "serves malloc" and "sz + 8 < 2 ^ 63"
  shows "\<exists>b. OPENSSL_malloc malloc sz = Some b"
proof -
  have "size_wrap (sz + 8) = sz + 8" using assms(2) by simp
  moreover obtain raw where "malloc (sz + 8) = Some raw" using assms unfolding serves_def by blast
  ultimately show ?thesis by (simp add: OPENSSL_malloc_def OPENSSL_MALLOC_PREFIX_def Let_def)
qed

lemma realloc_serves:
  assumes "serves malloc" and "sz + 8 < 2 ^ 63"
  shows "\<exists>b. OPENSSL_realloc malloc old sz = Some b"
  using malloc_serves [OF assms] by (cases old) (auto simp: realloc_cases)

lemma realloc_block:
  assumes a: "allocator malloc" and sz: "new + 8 < 2 ^ 64"
    and old: "pred_option block_ok old"
    and re: "OPENSSL_realloc malloc old new = Some b"
  shows "block_ok b" and "length (payload b) = new"
    and "\<And>b0. old = Some b0 \<Longrightarrow>
       take (min (length (payload b0)) new) (payload b) = take new (payload b0)"
    and "new + 8 < 2 ^ 63"
proof -
  have "block_ok b \<and> length (payload b) = new \<and> new + 8 < 2 ^ 63 \<and>
    (\<forall>b0. old = Some b0 \<longrightarrow> take (min (length (payload b0)) new) (payload b) = take new (payload b0))"
  proof (cases old)
    case None
    with re malloc_block [OF a sz] show ?thesis by (simp add: realloc_cases)
  next
    case (Some b0)
    obtain p bytes where b0: "b0 = (p, bytes)" by (cases b0)
    with old Some have p: "size_of_bytes p = length bytes" by (simp add: block_ok_def)
    let ?n = "min (length bytes) new"
    from re Some b0 p obtain p' fresh where m: "OPENSSL_malloc malloc new = Some (p', fresh)"
      and b: "b = (p', splice 0 (take ?n bytes) fresh)"
      by (auto simp: realloc_cases min_def split: option.splits if_splits prod.splits)
    from malloc_block [OF a sz m] b show ?thesis
      using Some b0 by (auto simp: block_ok_def splice_def min_def)
  qed
  then show "block_ok b" and "length (payload b) = new"
    and "\<And>b0. old = Some b0 \<Longrightarrow>
       take (min (length (payload b0)) new) (payload b) = take new (payload b0)"
    and "new + 8 < 2 ^ 63"
    by auto
qed

lemma free_cleanses:
  "block_ok b \<Longrightarrow> OPENSSL_free (Some b) = Some (replicate (8 + length (payload b)) 0)"
  by (cases b) (simp add: OPENSSL_free_def block_ok_def OPENSSL_MALLOC_PREFIX_def OPENSSL_cleanse_def
      splice_def Let_def add.commute)

section \<open>Comparison and hashing\<close>

text \<open>The accumulator of \<open>CRYPTO_memcmp\<close>.\<close>

fun memcmp_acc :: "byte \<Rightarrow> byte list \<Rightarrow> byte list \<Rightarrow> nat \<Rightarrow> byte" where
  "memcmp_acc x a b 0 = x"
| "memcmp_acc x a b (Suc len) = memcmp_acc (x OR (hd a XOR hd b)) (tl a) (tl b) len"

definition CRYPTO_memcmp :: "byte list \<Rightarrow> byte list \<Rightarrow> nat \<Rightarrow> byte" where
  "CRYPTO_memcmp in_a in_b len = memcmp_acc 0 in_a in_b len"

lemma xor_eq_0: "(a :: 'a::len word) XOR b = 0 \<longleftrightarrow> a = b"
  by (metis xor.assoc xor.right_neutral xor_self_eq)

lemma or_eq_0: "(a :: 'a::len word) OR b = 0 \<longleftrightarrow> a = 0 \<and> b = 0"
  by (auto simp: bit_eq_iff bit_simps)

lemma memcmp_acc_eq:
  "len \<le> length a \<Longrightarrow> len \<le> length b \<Longrightarrow>
   memcmp_acc x a b len = 0 \<longleftrightarrow> x = 0 \<and> take len a = take len b"
proof (induction len arbitrary: x a b)
  case (Suc len)
  then obtain a1 as b1 bs where "a = a1 # as" "b = b1 # bs"
    by (cases a; cases b) auto
  with Suc show ?case by (auto simp: or_eq_0 xor_eq_0)
qed simp

lemma CRYPTO_memcmp_eq:
  "len \<le> length a \<Longrightarrow> len \<le> length b \<Longrightarrow> CRYPTO_memcmp a b len = 0 \<longleftrightarrow> take len a = take len b"
  by (simp add: CRYPTO_memcmp_def memcmp_acc_eq)

definition OPENSSL_hash32 :: "byte list \<Rightarrow> nat \<Rightarrow> u32" where
  "OPENSSL_hash32 ptr len =
     fold (\<lambda>b h. (h XOR ucast b) * 16777619) (take len ptr) 2166136261"

section \<open>Strings\<close>

text \<open>A C string is the list of bytes from the pointer on; it has a terminator if the list has a 0.\<close>

fun strlen :: "byte list \<Rightarrow> nat" where
  "strlen [] = 0"
| "strlen (c # cs) = (if c = 0 then 0 else Suc (strlen cs))"

fun OPENSSL_strnlen :: "byte list \<Rightarrow> nat \<Rightarrow> nat" where
  "OPENSSL_strnlen s 0 = 0"
| "OPENSSL_strnlen s (Suc len) = (if hd s = 0 then 0 else Suc (OPENSSL_strnlen (tl s) len))"

definition OPENSSL_strdup :: "(nat \<Rightarrow> byte list option) \<Rightarrow> byte list \<Rightarrow> block option" where
  "OPENSSL_strdup malloc s =
     (let len = strlen s + 1
      in case OPENSSL_malloc malloc len of
           None \<Rightarrow> None
         | Some (p, fresh) \<Rightarrow> Some (p, splice 0 (take len s) fresh))"

definition OPENSSL_tolower :: "int \<Rightarrow> int" where
  "OPENSSL_tolower c = (if 65 \<le> c \<and> c \<le> 90 then c + (97 - 65) else c)"

text \<open>The characters are signed.\<close>

function OPENSSL_strcasecmp :: "byte list \<Rightarrow> byte list \<Rightarrow> int" where
  "OPENSSL_strcasecmp a b =
     (if a = [] \<or> b = [] then 0
      else
        (let aa = OPENSSL_tolower (sint (hd a)); bb = OPENSSL_tolower (sint (hd b))
         in if aa < bb then - 1 else if bb < aa then 1 else if aa = 0 then 0
            else OPENSSL_strcasecmp (tl a) (tl b)))"
  by pat_completeness auto
termination
  by (relation "measure (\<lambda>(a, b). length a)") auto

declare OPENSSL_strcasecmp.simps [simp del]

fun OPENSSL_strncasecmp :: "byte list \<Rightarrow> byte list \<Rightarrow> nat \<Rightarrow> int" where
  "OPENSSL_strncasecmp a b 0 = 0"
| "OPENSSL_strncasecmp a b (Suc n) =
     (let aa = OPENSSL_tolower (sint (hd a)); bb = OPENSSL_tolower (sint (hd b))
      in if aa < bb then - 1 else if bb < aa then 1 else if aa = 0 then 0
         else OPENSSL_strncasecmp (tl a) (tl b) n)"

lemma strlen_nth: "0 \<in> set s \<Longrightarrow> strlen s < length s \<and> s ! strlen s = 0"
  by (induction s) auto

lemma strlen_le: "strlen s \<le> length s"
  by (induction s) auto

lemma strlen_append: "0 \<notin> set s \<Longrightarrow> strlen (s @ t) = length s + strlen t"
  by (induction s) auto

lemma strlen_take: "0 \<notin> set (take (strlen s) s)"
  by (induction s) auto

lemma strnlen_min: "n \<le> length s \<Longrightarrow> OPENSSL_strnlen s n = min n (strlen s)"
proof (induction n arbitrary: s)
  case (Suc n)
  then show ?case by (cases s) auto
qed simp

lemma strdup_copies:
  assumes a: "allocator malloc" and s: "0 \<in> set s" "length s + 8 < 2 ^ 64"
    and d: "OPENSSL_strdup malloc s = Some b"
  shows "payload b = take (strlen s) s @ [0]"
proof -
  have len: "strlen s < length s" "s ! strlen s = 0" using strlen_nth [OF s(1)] by auto
  from d obtain p fresh where m: "OPENSSL_malloc malloc (strlen s + 1) = Some (p, fresh)"
    and b: "b = (p, splice 0 (take (strlen s + 1) s) fresh)"
    by (auto simp: OPENSSL_strdup_def Let_def split: option.splits)
  from malloc_block(2) [OF a _ m] len(1) s(2) have "length fresh = strlen s + 1" by simp
  with b len show ?thesis by (simp add: splice_def take_Suc_conv_app_nth)
qed

section \<open>Properties\<close>

text \<open>C35: Reallocation keeps the contents: the new block has exactly the size asked for, remembers it, and
  starts with as much of the old contents as fits. It fails exactly when the C library's \<open>malloc\<close> fails for
  the size and the prefix, so never when the allocator serves; then the old block is left alone, and
  otherwise it is handed back with prefix and contents cleansed, as \<open>OPENSSL_free\<close> does.\<close>

theorem realloc_keeps_contents:
  assumes "allocator malloc" and "new + 8 < 2 ^ 64" and "block_ok old"
  shows "(case OPENSSL_realloc malloc (Some old) new of None \<Rightarrow> malloc (new + 8) = None
      | Some b \<Rightarrow> malloc (new + 8) \<noteq> None \<and> block_ok b \<and> length (payload b) = new \<and>
          take (min (length (payload old)) new) (payload b) = take new (payload old)) \<and>
    (serves malloc \<and> new + 8 < 2 ^ 63 \<longrightarrow> OPENSSL_realloc malloc (Some old) new \<noteq> None) \<and>
    snd (realloc_free malloc (Some old) new) =
      (if malloc (new + 8) = None then None else Some (replicate (8 + length (payload old)) 0)) \<and>
    OPENSSL_free (Some old) = Some (replicate (8 + length (payload old)) 0)"
proof -
  have w: "size_wrap (new + 8) = new + 8" using assms(2) by (rule size_wrap_small)
  obtain hdr bytes where old: "old = (hdr, bytes)" by (cases old)
  have m: "OPENSSL_malloc malloc new = None \<longleftrightarrow> malloc (new + 8) = None"
    unfolding OPENSSL_malloc_def OPENSSL_MALLOC_PREFIX_def w Let_def by (cases "malloc (new + 8)") simp_all
  have r: "OPENSSL_realloc malloc (Some old) new = None \<longleftrightarrow> malloc (new + 8) = None"
    unfolding m [symmetric] old by (simp add: realloc_cases split: option.split)
  have f: "snd (realloc_free malloc (Some old) new) = (if malloc (new + 8) = None then None else OPENSSL_free (Some old))"
    unfolding m [symmetric] old by (simp add: realloc_free_def Let_def split: option.split)
  show ?thesis
    using realloc_block(1-3) [OF assms(1,2), of "Some old"] realloc_serves [of malloc new "Some old"] assms(3) r
    unfolding f free_cleanses [OF assms(3)] by (cases "OPENSSL_realloc malloc (Some old) new") auto
qed

theorem realloc_keeps_contents_witness:
  "\<exists>b. OPENSSL_realloc zero_alloc (Some (size_bytes 3, [1, 2, 3])) 5 = Some b \<and> length (payload b) = 5 \<and>
     take 3 (payload b) = [1, 2, 3] \<and> snd (realloc_free zero_alloc (Some (size_bytes 3, [1, 2, 3])) 5) = Some (replicate 11 0)"
proof -
  have ok: "block_ok (size_bytes 3, [1, 2, 3])" by (simp add: block_ok_def numeral_3_eq_3)
  have z: "zero_alloc (5 + 8) \<noteq> None" by (simp add: zero_alloc_def)
  note T = realloc_keeps_contents [OF allocator_zero_alloc _ ok, of 5]
  obtain b where b: "OPENSSL_realloc zero_alloc (Some (size_bytes 3, [1, 2, 3])) 5 = Some b" using T z by auto
  have "length (payload b) = 5" "take (min 3 5) (payload b) = take 5 [1, 2, 3]"
    "snd (realloc_free zero_alloc (Some (size_bytes 3, [1, 2, 3])) 5) = Some (replicate 11 0)"
    using T z unfolding b by (simp_all add: numeral_3_eq_3)
  then show ?thesis using b by simp
qed

text \<open>The size prefix is added without an overflow check. A request in the last eight values of
  \<open>size_t\<close> asks the C library for fewer bytes than the prefix takes, and the prefix is written
  beyond the end of the block that comes back.\<close>

theorem malloc_prefix_overflow:
  assumes "allocator malloc" and "k < 8" and "OPENSSL_malloc malloc (2 ^ 64 - 8 + k) = Some b"
  shows "\<exists>raw. malloc k = Some raw \<and> length raw < length (size_bytes (2 ^ 64 - 8 + k)) \<and>
     fst b = size_bytes (2 ^ 64 - 8 + k)"
proof -
  have "size_wrap (2 ^ 64 - 8 + k + 8) = k" using assms(2) by (simp add: size_wrap_def)
  with assms(3) obtain raw where "malloc k = Some raw" and
    "b = (take 8 (splice 0 (size_bytes (2 ^ 64 - 8 + k)) raw), drop 8 (splice 0 (size_bytes (2 ^ 64 - 8 + k)) raw))"
    unfolding OPENSSL_malloc_def OPENSSL_MALLOC_PREFIX_def Let_def by (cases "malloc k") simp_all
  moreover from this assms(1,2) have "length raw < 8" by (auto simp: allocator_def)
  ultimately show ?thesis by (simp add: splice_def)
qed

theorem malloc_prefix_overflow_witness:
  "\<exists>raw. zero_alloc 4 = Some raw \<and> length raw < length (size_bytes (2 ^ 64 - 8 + 4))"
proof -
  have "\<exists>b. OPENSSL_malloc zero_alloc (2 ^ 64 - 8 + 4) = Some b"
    by (simp add: OPENSSL_malloc_def Let_def zero_alloc_def OPENSSL_MALLOC_PREFIX_def size_wrap_def)
  with malloc_prefix_overflow [of zero_alloc 4] show ?thesis by auto
qed

end
