(* ===== verification/Buf.thy ===== *)
theory Buf
  imports Mem
begin

text \<open>
  The growable buffer and the bounded string functions of BoringSSL (\<open>crypto/buf/buf.c\<close>).
  \<open>BUF_MEM\<close> is a record of the C structure; its operations return whether they succeeded and the
  structure they leave.
\<close>

section \<open>The buffer\<close>

text \<open>\<open>bm_length\<close>, \<open>bm_data\<close> and \<open>bm_max\<close> are the fields of \<open>buf_mem_st\<close>.\<close>

record buf_mem =
  bm_length :: size_t
  bm_data :: "block option"
  bm_max :: size_t

definition BUF_MEM_new :: "(nat \<Rightarrow> byte list option) \<Rightarrow> buf_mem option" where
  "BUF_MEM_new malloc =
     (case OPENSSL_malloc malloc 24 of
        None \<Rightarrow> None
      | Some b \<Rightarrow> Some \<lparr>bm_length = 0, bm_data = None, bm_max = 0\<rparr>)"

text \<open>What is handed back to the C library.\<close>

definition BUF_MEM_free :: "buf_mem option \<Rightarrow> byte list option" where
  "BUF_MEM_free buf = (case buf of None \<Rightarrow> None | Some b \<Rightarrow> OPENSSL_free (bm_data b))"

definition BUF_MEM_reserve :: "(nat \<Rightarrow> byte list option) \<Rightarrow> buf_mem \<Rightarrow> size_t \<Rightarrow> bool \<times> buf_mem" where
  "BUF_MEM_reserve malloc buf cap =
     (if cap \<le> bm_max buf then (True, buf)
      else
        (let n = size_wrap (cap + 3)
         in if n < cap then (False, buf)
            else
              (let n = n div 3; alloc_size = size_wrap (n * 4)
               in if alloc_size div 4 \<noteq> n then (False, buf)
                  else
                    (case OPENSSL_realloc malloc (bm_data buf) alloc_size of
                       None \<Rightarrow> (False, buf)
                     | Some new_buf \<Rightarrow>
                         (True, buf\<lparr>bm_data := Some new_buf, bm_max := alloc_size\<rparr>)))))"

text \<open>Writing through \<open>buf->data\<close>; a NULL pointer is never written to when there are bytes.\<close>

definition poke :: "nat \<Rightarrow> byte list \<Rightarrow> block option \<Rightarrow> block option" where
  "poke off bs p = (case p of None \<Rightarrow> None | Some (hdr, mem) \<Rightarrow> Some (hdr, splice off bs mem))"

definition BUF_MEM_grow :: "(nat \<Rightarrow> byte list option) \<Rightarrow> buf_mem \<Rightarrow> size_t \<Rightarrow> size_t \<times> buf_mem" where
  "BUF_MEM_grow malloc buf len =
     (case BUF_MEM_reserve malloc buf len of
        (False, buf') \<Rightarrow> (0, buf')
      | (True, buf') \<Rightarrow>
          (let data' = (if bm_length buf' < len
                        then poke (bm_length buf') (replicate (len - bm_length buf') 0) (bm_data buf')
                        else bm_data buf')
           in (len, buf'\<lparr>bm_data := data', bm_length := len\<rparr>)))"

definition BUF_MEM_grow_clean :: "(nat \<Rightarrow> byte list option) \<Rightarrow> buf_mem \<Rightarrow> size_t \<Rightarrow> size_t \<times> buf_mem" where
  "BUF_MEM_grow_clean malloc buf len = BUF_MEM_grow malloc buf len"

definition BUF_MEM_append ::
  "(nat \<Rightarrow> byte list option) \<Rightarrow> buf_mem \<Rightarrow> byte list \<Rightarrow> size_t \<Rightarrow> bool \<times> buf_mem" where
  "BUF_MEM_append malloc buf bs len =
     (let new_len = size_wrap (bm_length buf + len)
      in if new_len < len then (False, buf)
         else
           (case BUF_MEM_reserve malloc buf new_len of
              (False, buf') \<Rightarrow> (False, buf')
            | (True, buf') \<Rightarrow>
                (True, buf'\<lparr>bm_data := poke (bm_length buf') (take len bs) (bm_data buf'),
                            bm_length := new_len\<rparr>)))"

section \<open>Strings\<close>

fun BUF_strnlen :: "byte list \<Rightarrow> nat \<Rightarrow> nat" where
  "BUF_strnlen str 0 = 0"
| "BUF_strnlen str (Suc max_len) = (if hd str = 0 then 0 else Suc (BUF_strnlen (tl str) max_len))"

definition BUF_strndup ::
  "(nat \<Rightarrow> byte list option) \<Rightarrow> byte list option \<Rightarrow> size_t \<Rightarrow> block option" where
  "BUF_strndup malloc str sz =
     (case str of
        None \<Rightarrow> None
      | Some s \<Rightarrow>
          (let sz = BUF_strnlen s sz; alloc_size = size_wrap (sz + 1)
           in if alloc_size < sz then None
              else
                (case OPENSSL_malloc malloc alloc_size of
                   None \<Rightarrow> None
                 | Some (hdr, mem) \<Rightarrow> Some (hdr, splice sz [0] (splice 0 (take sz s) mem)))))"

definition BUF_strdup :: "(nat \<Rightarrow> byte list option) \<Rightarrow> byte list option \<Rightarrow> block option" where
  "BUF_strdup malloc str =
     (case str of None \<Rightarrow> None | Some s \<Rightarrow> BUF_strndup malloc (Some s) (strlen s))"

text \<open>The loop of \<open>BUF_strlcpy\<close> moves both pointers; \<open>copy_loop\<close> returns the bytes copied, the
  rest of the source, and the destination size left.\<close>

fun copy_loop :: "byte list \<Rightarrow> nat \<Rightarrow> byte list \<times> byte list \<times> nat" where
  "copy_loop [] dst_size = ([], [], dst_size)"
| "copy_loop (c # src) dst_size =
     (if 1 < dst_size \<and> c \<noteq> 0
      then (case copy_loop src (dst_size - 1) of (cs, rest, n) \<Rightarrow> (c # cs, rest, n))
      else ([], c # src, dst_size))"

text \<open>The destination it leaves, and the return value.\<close>

definition BUF_strlcpy :: "byte list \<Rightarrow> byte list \<Rightarrow> size_t \<Rightarrow> byte list \<times> size_t" where
  "BUF_strlcpy dst src dst_size =
     (case copy_loop src dst_size of
        (cs, rest, n) \<Rightarrow>
          ((let dst' = splice 0 cs dst in if n \<noteq> 0 then dst'[length cs := 0] else dst'),
           length cs + strlen rest))"

fun scan_loop :: "byte list \<Rightarrow> nat \<Rightarrow> nat" where
  "scan_loop [] dst_size = 0"
| "scan_loop (c # dst) dst_size = (if 0 < dst_size \<and> c \<noteq> 0 then Suc (scan_loop dst (dst_size - 1)) else 0)"

definition BUF_strlcat :: "byte list \<Rightarrow> byte list \<Rightarrow> size_t \<Rightarrow> byte list \<times> size_t" where
  "BUF_strlcat dst src dst_size =
     (let l = scan_loop dst dst_size
      in case BUF_strlcpy (drop l dst) src (dst_size - l) of
           (dst', n) \<Rightarrow> (take l dst @ dst', l + n))"

definition BUF_memdup :: "(nat \<Rightarrow> byte list option) \<Rightarrow> byte list \<Rightarrow> size_t \<Rightarrow> block option" where
  "BUF_memdup malloc bs sz =
     (if sz = 0 then None
      else
        (case OPENSSL_malloc malloc sz of
           None \<Rightarrow> None
         | Some (hdr, mem) \<Rightarrow> Some (hdr, splice 0 (take sz bs) mem)))"

section \<open>The buffer as a byte sequence\<close>

text \<open>The invariant of a buffer: its block has \<open>max\<close> bytes and holds the \<open>length\<close> live ones.\<close>

definition buf_mem_ok :: "buf_mem \<Rightarrow> bool" where
  "buf_mem_ok buf \<longleftrightarrow>
     bm_length buf \<le> bm_max buf \<and> bm_max buf + 8 < 2 ^ 64 \<and>
     (case bm_data buf of None \<Rightarrow> bm_max buf = 0
      | Some b \<Rightarrow> block_ok b \<and> length (payload b) = bm_max buf)"

definition buf_bytes :: "buf_mem \<Rightarrow> byte list" where
  "buf_bytes buf = (case bm_data buf of None \<Rightarrow> [] | Some b \<Rightarrow> take (bm_length buf) (payload b))"

lemma length_buf_bytes: "buf_mem_ok buf \<Longrightarrow> length (buf_bytes buf) = bm_length buf"
  by (auto simp: buf_mem_ok_def buf_bytes_def split: option.splits)

text \<open>The growth factor of 4/3 always gives enough.\<close>

lemma grown_enough: "cap \<le> (cap + 3) div 3 * (4 :: nat)"
  by linarith

lemma reserve_ok:
  assumes a: "allocator malloc" and ok: "buf_mem_ok buf" and cap: "cap < 2 ^ 62"
    and r: "BUF_MEM_reserve malloc buf cap = (True, buf')"
  shows "buf_mem_ok buf'" and "buf_bytes buf' = buf_bytes buf" and "bm_length buf' = bm_length buf"
    and "cap \<le> bm_max buf'"
proof -
  let ?n = "(cap + 3) div 3 * 4"
  have small: "?n + 8 < 2 ^ 64" using cap by simp
  have "buf_mem_ok buf' \<and> buf_bytes buf' = buf_bytes buf \<and> bm_length buf' = bm_length buf \<and> cap \<le> bm_max buf'"
  proof (cases "cap \<le> bm_max buf")
    case True
    with r ok show ?thesis by (simp add: BUF_MEM_reserve_def)
  next
    case False
    have "size_wrap (cap + 3) = cap + 3" "size_wrap ?n = ?n" using cap small by simp_all
    with False r cap obtain b where re: "OPENSSL_realloc malloc (bm_data buf) ?n = Some b"
      and b': "buf' = buf\<lparr>bm_data := Some b, bm_max := ?n\<rparr>"
      by (auto simp: BUF_MEM_reserve_def Let_def split: option.splits if_splits)
    have old: "pred_option block_ok (bm_data buf)"
      using ok by (simp add: buf_mem_ok_def split: option.splits)
    note new = realloc_block [OF a small old re]
    have "cap \<le> ?n" by (rule grown_enough)
    have "take (bm_length buf) (payload b) = take (bm_length buf) (payload b0)"
      if "bm_data buf = Some b0" for b0
    proof -
      let ?m = "min (length (payload b0)) ?n"
      have m: "bm_length buf \<le> ?m"
        using ok that False \<open>cap \<le> ?n\<close> by (simp add: buf_mem_ok_def)
      have "take (bm_length buf) (take ?m (payload b)) = take (bm_length buf) (take ?n (payload b0))"
        using new(3) [OF that] by (rule arg_cong)
      with m show ?thesis by (simp only: take_take min.absorb1 min.bounded_iff)
    qed
    with ok new(1,2) small \<open>cap \<le> ?n\<close> False b' show ?thesis
      by (auto simp: buf_mem_ok_def buf_bytes_def split: option.splits)
  qed
  then show "buf_mem_ok buf'" and "buf_bytes buf' = buf_bytes buf" and "bm_length buf' = bm_length buf"
    and "cap \<le> bm_max buf'"
    by auto
qed

lemma reserve_fail: "BUF_MEM_reserve malloc buf cap = (False, buf') \<Longrightarrow> buf' = buf"
  by (auto simp only: BUF_MEM_reserve_def Let_def prod.inject split: if_split_asm option.split_asm)

text \<open>Writing behind the live bytes and making them live.\<close>

lemma poke_data:
  assumes ok: "buf_mem_ok buf" and fits: "bm_length buf + length bs \<le> bm_max buf"
    and Some: "bm_data buf = Some (hdr, mem)"
  defines "mem' \<equiv> splice (bm_length buf) bs mem"
  shows "length mem' = bm_max buf" and "block_ok (hdr, mem')"
    and "take (bm_length buf + length bs) mem' = take (bm_length buf) mem @ bs"
proof -
  have mem: "length mem = bm_max buf" "block_ok (hdr, mem)"
    using ok Some unfolding buf_mem_ok_def by simp_all
  then show l: "length mem' = bm_max buf" using fits unfolding mem'_def by (subst length_splice) simp_all
  show "block_ok (hdr, mem')" using mem l unfolding block_ok_def by simp
  show "take (bm_length buf + length bs) mem' = take (bm_length buf) mem @ bs"
    unfolding mem'_def by (rule take_splice_end) (use mem fits in simp)
qed

lemma poke_extends:
  assumes ok: "buf_mem_ok buf" and fits: "bm_length buf + length bs \<le> bm_max buf"
  shows "buf_mem_ok (buf\<lparr>bm_data := poke (bm_length buf) bs (bm_data buf),
           bm_length := bm_length buf + length bs\<rparr>)"
    and "buf_bytes (buf\<lparr>bm_data := poke (bm_length buf) bs (bm_data buf),
           bm_length := bm_length buf + length bs\<rparr>) = buf_bytes buf @ bs"
proof -
  let ?buf = "buf\<lparr>bm_data := poke (bm_length buf) bs (bm_data buf), bm_length := bm_length buf + length bs\<rparr>"
  have "buf_mem_ok ?buf \<and> buf_bytes ?buf = buf_bytes buf @ bs"
  proof (cases "bm_data buf")
    case None
    with assms show ?thesis by (simp add: buf_mem_ok_def buf_bytes_def poke_def)
  next
    case (Some b)
    obtain hdr mem where b: "bm_data buf = Some (hdr, mem)" using Some by (cases b) simp
    have "bm_max buf + 8 < 2 ^ 64" using ok by (simp only: buf_mem_ok_def)
    with poke_data [OF ok fits b] fits b show ?thesis
      by (simp add: buf_mem_ok_def buf_bytes_def poke_def)
  qed
  then show "buf_mem_ok ?buf" and "buf_bytes ?buf = buf_bytes buf @ bs" by simp_all
qed

text \<open>\<open>BUF_MEM_append\<close> on a well-formed buffer either appends exactly the given bytes, or
  fails because the sum of the lengths overflows or memory runs out and leaves the buffer as it was; the
  buffer is well-formed on every path.\<close>

theorem append_extends:
  assumes a: "allocator malloc" and ok: "buf_mem_ok buf" and len: "len \<le> length bs"
    and small: "bm_length buf + len < 2 ^ 62"
    and r: "BUF_MEM_append malloc buf bs len = (res, buf')"
  shows "buf_mem_ok buf' \<and> buf_bytes buf' = (if res then buf_bytes buf @ take len bs else buf_bytes buf)"
proof -
  have w: "size_wrap (bm_length buf + len) = bm_length buf + len" using small by simp
  obtain res1 buf1 where re: "BUF_MEM_reserve malloc buf (bm_length buf + len) = (res1, buf1)"
    by (cases "BUF_MEM_reserve malloc buf (bm_length buf + len)")
  show ?thesis
  proof (cases res1)
    case False
    with re reserve_fail [of malloc buf "bm_length buf + len"] r w ok show ?thesis
      by (auto simp: BUF_MEM_append_def Let_def)
  next
    case True
    with re have "BUF_MEM_reserve malloc buf (bm_length buf + len) = (True, buf1)" by simp
    note rs = reserve_ok [OF a ok small this]
    have "res" and "buf' = buf1\<lparr>bm_data := poke (bm_length buf1) (take len bs) (bm_data buf1),
        bm_length := bm_length buf1 + length (take len bs)\<rparr>"
      using True re r w len rs(3) by (simp_all add: BUF_MEM_append_def Let_def min_absorb2)
    with poke_extends [OF rs(1), of "take len bs"] rs len show ?thesis by (simp add: min_absorb2)
  qed
qed

theorem append_extends_witness:
  "\<exists>buf'. BUF_MEM_append zero_alloc \<lparr>bm_length = 0, bm_data = None, bm_max = 0\<rparr> [1, 2, 3] 3
     = (True, buf') \<and> buf_mem_ok buf' \<and> buf_bytes buf' = [1, 2, 3]"
proof -
  let ?buf = "\<lparr>bm_length = 0, bm_data = None, bm_max = 0\<rparr>"
  have "\<exists>buf'. BUF_MEM_append zero_alloc ?buf [1, 2, 3] 3 = (True, buf')"
    by (simp add: BUF_MEM_append_def BUF_MEM_reserve_def realloc_cases OPENSSL_malloc_def Let_def
        zero_alloc_def OPENSSL_MALLOC_PREFIX_def)
  with append_extends [of zero_alloc ?buf 3 "[1, 2, 3]" True] show ?thesis
    by (auto simp: buf_mem_ok_def buf_bytes_def)
qed

text \<open>\<open>BUF_MEM_grow\<close> zero-extends or truncates the live bytes to the length it returns.\<close>

lemma grow_spec:
  assumes a: "allocator malloc" and ok: "buf_mem_ok buf" and small: "len < 2 ^ 62"
    and re: "BUF_MEM_reserve malloc buf len = (True, buf1)"
  shows "buf_mem_ok (snd (BUF_MEM_grow malloc buf len))"
    and "buf_bytes (snd (BUF_MEM_grow malloc buf len)) =
      take len (buf_bytes buf) @ replicate (len - length (buf_bytes buf)) 0"
proof -
  note rs = reserve_ok [OF a ok small re]
  let ?buf' = "snd (BUF_MEM_grow malloc buf len)"
  have bl: "length (buf_bytes buf) = bm_length buf" by (rule length_buf_bytes [OF ok])
  have "buf_mem_ok ?buf' \<and> buf_bytes ?buf' = take len (buf_bytes buf) @ replicate (len - bm_length buf) 0"
  proof (cases "bm_length buf < len")
    case True
    let ?z = "replicate (len - bm_length buf1) (0 :: byte)"
    have "?buf' = buf1\<lparr>bm_data := poke (bm_length buf1) ?z (bm_data buf1), bm_length := bm_length buf1 + length ?z\<rparr>"
      using True re rs(3) by (simp add: BUF_MEM_grow_def Let_def)
    with poke_extends [OF rs(1), of ?z] rs True bl show ?thesis by simp
  next
    case False
    then have "?buf' = buf1\<lparr>bm_length := len\<rparr>"
      using re rs(3) by (simp add: BUF_MEM_grow_def Let_def)
    moreover have "buf_bytes (buf1\<lparr>bm_length := len\<rparr>) = take len (buf_bytes buf1)"
      using False rs(3) by (simp add: buf_bytes_def min_absorb1 split: option.splits)
    ultimately show ?thesis using False rs by (auto simp: buf_mem_ok_def split: option.splits)
  qed
  with bl show "buf_mem_ok ?buf'"
    and "buf_bytes ?buf' = take len (buf_bytes buf) @ replicate (len - length (buf_bytes buf)) 0"
    by simp_all
qed

section \<open>The bounded string functions\<close>

lemma BUF_strnlen_eq [simp]: "BUF_strnlen = OPENSSL_strnlen"
proof (intro ext)
  fix s n show "BUF_strnlen s n = OPENSSL_strnlen s n" by (induction s n rule: BUF_strnlen.induct) simp_all
qed

lemma copy_loop_spec:
  "copy_loop src n = (take m src, drop m src, n - m)" if "m = min (strlen src) (n - 1)"
  using that
proof (induction src arbitrary: n m)
  case (Cons c src)
  then show ?case by (cases n; cases "n - 1") (auto simp: min_def split: prod.splits)
qed simp

lemma strlen_drop: "m \<le> strlen s \<Longrightarrow> m + strlen (drop m s) = strlen s"
proof (induction m arbitrary: s)
  case (Suc m)
  then show ?case by (cases s) (auto split: if_splits)
qed simp

lemma splice_then_update:
  "length xs < length dst \<Longrightarrow> (splice 0 xs dst)[length xs := x] = splice 0 (xs @ [x]) dst"
  by (simp add: splice_def list_update_append Cons_nth_drop_Suc [symmetric])

lemma strlcpy_spec:
  assumes "n \<le> length dst"
  shows "BUF_strlcpy dst src n =
     (if n = 0 then dst else splice 0 (take (n - 1) (take (strlen src) src) @ [0]) dst, strlen src)"
proof -
  define m where "m = min (strlen src) (n - 1)"
  have cl: "copy_loop src n = (take m src, drop m src, n - m)" by (rule copy_loop_spec) (rule m_def)
  have le: "m \<le> strlen src" "m \<le> n - 1" by (simp_all add: m_def)
  then have len: "length (take m src) = m" using strlen_le [of src] by simp
  have ret: "m + strlen (drop m src) = strlen src" using le by (simp add: strlen_drop)
  have t: "take (n - 1) (take (strlen src) src) = take m src" by (simp add: m_def min.commute)
  show ?thesis
  proof (cases "n = 0")
    case True
    with le show ?thesis unfolding BUF_strlcpy_def cl prod.case len ret t Let_def by simp
  next
    case False
    with le have "n - m \<noteq> 0" by simp
    moreover have "(splice 0 (take m src) dst)[m := 0] = splice 0 (take m src @ [0]) dst"
      using splice_then_update [of "take m src" dst 0] len False le assms by simp
    ultimately show ?thesis using False unfolding BUF_strlcpy_def cl prod.case len ret t Let_def by simp
  qed
qed

lemma scan_loop_min: "n \<le> length dst \<Longrightarrow> scan_loop dst n = min n (strlen dst)"
proof (induction dst arbitrary: n)
  case (Cons c dst)
  then show ?case by (cases n) auto
qed simp

text \<open>\<open>BUF_strlcpy\<close> writes the longest prefix of the source string that fits together with
  its terminator, touches nothing behind it, and returns the length of the source; with a size of zero
  it writes nothing.\<close>

theorem strlcpy_truncates:
  assumes "n \<le> length dst" and "0 \<in> set src" and "BUF_strlcpy dst src n = (dst', r)"
  shows "r = strlen src \<and> length dst' = length dst \<and> drop n dst' = drop n dst \<and>
     (0 < n \<longrightarrow> take (strlen dst') dst' = take (n - 1) (take (strlen src) src) \<and> strlen dst' < n)"
proof -
  define s where "s = take (n - 1) (take (strlen src) src)"
  note spec = strlcpy_spec [OF assms(1), of src, unfolded assms(3), folded s_def]
  show ?thesis unfolding s_def [symmetric]
  proof (cases "n = 0")
    case True
    with spec show "r = strlen src \<and> length dst' = length dst \<and> drop n dst' = drop n dst \<and>
       (0 < n \<longrightarrow> take (strlen dst') dst' = s \<and> strlen dst' < n)" by simp
  next
    case False
    with spec have d: "dst' = splice 0 (s @ [0]) dst" "r = strlen src" by simp_all
    have "0 \<notin> set s" using strlen_take [of src] unfolding s_def by (meson in_set_takeD)
    then have "strlen dst' = length s" unfolding d(1) splice_def by (simp add: strlen_append)
    moreover have "length s < n" using False by (simp add: s_def)
    moreover have "take (length s) dst' = s" by (simp add: d splice_def)
    ultimately show "r = strlen src \<and> length dst' = length dst \<and> drop n dst' = drop n dst \<and>
       (0 < n \<longrightarrow> take (strlen dst') dst' = s \<and> strlen dst' < n)"
      using d assms(1) by (simp add: drop_splice_after)
  qed
qed

theorem strlcpy_truncates_witness:
  "\<exists>dst' r. BUF_strlcpy [9, 9, 9, 9] [65, 66, 67, 0] 3 = (dst', r) \<and> r = 3 \<and>
     take (strlen dst') dst' = [65, 66] \<and> drop 3 dst' = [9]"
  using strlcpy_truncates [of 3 "[9, 9, 9, 9]" "[65, 66, 67, 0]"]
  by (cases "BUF_strlcpy [9, 9, 9, 9] [65, 66, 67, 0] 3") (simp add: numeral_3_eq_3)

text \<open>\<open>BUF_strlcat\<close> appends to the string in the destination under the same bound.\<close>

lemma strlcat_spec:
  assumes "n \<le> length dst"
  shows "BUF_strlcat dst src n =
     (let l = min n (strlen dst)
      in (take l dst @ (if n = l then drop l dst
            else splice 0 (take (n - l - 1) (take (strlen src) src) @ [0]) (drop l dst)),
          l + strlen src))"
  using assms strlcpy_spec [of "n - min n (strlen dst)" "drop (min n (strlen dst)) dst" src]
  by (simp add: BUF_strlcat_def scan_loop_min Let_def diff_le_mono)

text \<open>Duplicating a prefix of a string.\<close>

lemma strndup_spec:
  assumes a: "allocator malloc" and n: "n \<le> length s" "n < 2 ^ 63"
    and d: "BUF_strndup malloc (Some s) n = Some b"
  shows "payload b = take n (take (strlen s) s) @ [0]"
proof -
  let ?n = "min n (strlen s)"
  have sz: "BUF_strnlen s n = ?n" using n by (simp add: strnlen_min)
  have w: "size_wrap (?n + 1) = ?n + 1" using n(2) by simp
  obtain hdr mem where m: "OPENSSL_malloc malloc (?n + 1) = Some (hdr, mem)"
    and b: "b = (hdr, splice ?n [0] (splice 0 (take ?n s) mem))"
    using d unfolding BUF_strndup_def option.case sz Let_def w
    by (cases "OPENSSL_malloc malloc (?n + 1)") (auto split: if_splits)
  have len: "length mem = ?n + 1" using malloc_block(2) [OF a _ m] n(2) by simp
  have "length (take ?n s) = ?n" using n(1) by simp
  with len have "payload b = take ?n s @ [0]" unfolding b by (simp add: splice_def)
  then show ?thesis by simp
qed

lemma memdup_spec:
  assumes a: "allocator malloc" and n: "n \<le> length bs" "n < 2 ^ 63"
    and d: "BUF_memdup malloc bs n = Some b"
  shows "payload b = take n bs"
proof -
  from d obtain hdr mem where m: "OPENSSL_malloc malloc n = Some (hdr, mem)"
    and b: "b = (hdr, splice 0 (take n bs) mem)"
    by (auto simp: BUF_memdup_def split: option.splits if_splits)
  from malloc_block(2) [OF a _ m] n have "length mem = n" by simp
  with b n show ?thesis by (simp add: splice_def)
qed

end
