(* ===== verification/Cbs.thy ===== *)
theory Cbs
  imports Buf
begin

text \<open>
  The DER parser of BoringSSL (\<open>crypto/bytestring/cbs.c\<close>). A \<open>CBS\<close> is a pointer and a
  length; the pointer is the list of bytes from it on. Every \<open>CBS_get_\<close> function is an operation on
  the \<open>CBS\<close>: it returns its output (\<open>None\<close> for the return value 0) and the \<open>CBS\<close> it
  leaves. Out-parameters are meaningful on success only.
\<close>

section \<open>Byte strings\<close>

record cbs =
  cbs_data :: "byte list"
  cbs_len :: size_t

definition CBS_init :: "byte list \<Rightarrow> size_t \<Rightarrow> cbs" where
  "CBS_init data len = \<lparr>cbs_data = data, cbs_len = len\<rparr>"

text \<open>The pointer to the bytes taken.\<close>

definition cbs_get :: "size_t \<Rightarrow> (cbs, byte list) op" where
  "cbs_get n cbs =
     (if cbs_len cbs < n then (None, cbs)
      else (Some (cbs_data cbs), cbs\<lparr>cbs_data := drop n (cbs_data cbs), cbs_len := cbs_len cbs - n\<rparr>))"

definition CBS_skip :: "size_t \<Rightarrow> (cbs, unit) op" where
  "CBS_skip len = andthen (cbs_get len) (\<lambda>dummy. ret ())"

text \<open>\<open>CBS_stow\<close>: the return value, \<open>*out_ptr\<close>, and \<open>*out_len\<close>.\<close>

definition CBS_stow :: "(nat \<Rightarrow> byte list option) \<Rightarrow> cbs \<Rightarrow> bool \<times> block option \<times> size_t" where
  "CBS_stow malloc cbs =
     (if cbs_len cbs = 0 then (True, None, 0)
      else
        (case BUF_memdup malloc (cbs_data cbs) (cbs_len cbs) of
           None \<Rightarrow> (False, None, 0)
         | Some p \<Rightarrow> (True, Some p, cbs_len cbs)))"

definition CBS_strdup :: "(nat \<Rightarrow> byte list option) \<Rightarrow> cbs \<Rightarrow> bool \<times> block option" where
  "CBS_strdup malloc cbs =
     (let out_ptr = BUF_strndup malloc (Some (cbs_data cbs)) (cbs_len cbs) in (out_ptr \<noteq> None, out_ptr))"

definition CBS_contains_zero_byte :: "cbs \<Rightarrow> bool" where
  "CBS_contains_zero_byte cbs \<longleftrightarrow> 0 \<in> set (take (cbs_len cbs) (cbs_data cbs))"

definition CBS_mem_equal :: "cbs \<Rightarrow> byte list \<Rightarrow> size_t \<Rightarrow> bool" where
  "CBS_mem_equal cbs data len \<longleftrightarrow> len = cbs_len cbs \<and> CRYPTO_memcmp (cbs_data cbs) data len = 0"

text \<open>The accumulator loop of \<open>cbs_get_u\<close>.\<close>

definition be_word :: "byte list \<Rightarrow> u32" where
  "be_word bs = fold (\<lambda>b result. push_bit 8 result OR ucast b) bs 0"

definition cbs_get_u :: "size_t \<Rightarrow> (cbs, u32) op" where
  "cbs_get_u len = andthen (cbs_get len) (\<lambda>data. ret (be_word (take len data)))"

definition CBS_get_u8 :: "(cbs, byte) op" where
  "CBS_get_u8 = andthen (cbs_get 1) (\<lambda>v. ret (hd v))"

definition CBS_get_u16 :: "(cbs, u16) op" where
  "CBS_get_u16 = andthen (cbs_get_u 2) (\<lambda>v. ret (ucast v))"

definition CBS_get_u24 :: "(cbs, u32) op" where
  "CBS_get_u24 = cbs_get_u 3"

definition CBS_get_u32 :: "(cbs, u32) op" where
  "CBS_get_u32 = cbs_get_u 4"

definition CBS_get_last_u8 :: "(cbs, byte) op" where
  "CBS_get_last_u8 cbs =
     (if cbs_len cbs = 0 then (None, cbs)
      else (Some (cbs_data cbs ! (cbs_len cbs - 1)), cbs\<lparr>cbs_len := cbs_len cbs - 1\<rparr>))"

definition CBS_get_bytes :: "size_t \<Rightarrow> (cbs, cbs) op" where
  "CBS_get_bytes len = andthen (cbs_get len) (\<lambda>v. ret (CBS_init v len))"

definition CBS_copy_bytes :: "size_t \<Rightarrow> byte list \<Rightarrow> (cbs, byte list) op" where
  "CBS_copy_bytes len out = andthen (cbs_get len) (\<lambda>v. ret (splice 0 (take len v) out))"

definition cbs_get_length_prefixed :: "size_t \<Rightarrow> (cbs, cbs) op" where
  "cbs_get_length_prefixed len_len = andthen (cbs_get_u len_len) (\<lambda>len. CBS_get_bytes (unat len))"

definition CBS_get_u8_length_prefixed :: "(cbs, cbs) op" where
  "CBS_get_u8_length_prefixed = cbs_get_length_prefixed 1"

definition CBS_get_u16_length_prefixed :: "(cbs, cbs) op" where
  "CBS_get_u16_length_prefixed = cbs_get_length_prefixed 2"

definition CBS_get_u24_length_prefixed :: "(cbs, cbs) op" where
  "CBS_get_u24_length_prefixed = cbs_get_length_prefixed 3"

section \<open>ASN.1\<close>

definition CBS_ASN1_BOOLEAN :: u32 where "CBS_ASN1_BOOLEAN = 0x1"
definition CBS_ASN1_INTEGER :: u32 where "CBS_ASN1_INTEGER = 0x2"
definition CBS_ASN1_OCTETSTRING :: u32 where "CBS_ASN1_OCTETSTRING = 0x4"
definition CBS_ASN1_TAG_SHIFT :: nat where "CBS_ASN1_TAG_SHIFT = 24"
definition CBS_ASN1_CONSTRUCTED :: u32 where "CBS_ASN1_CONSTRUCTED = push_bit CBS_ASN1_TAG_SHIFT 0x20"
definition CBS_ASN1_SEQUENCE :: u32 where "CBS_ASN1_SEQUENCE = 0x10 OR CBS_ASN1_CONSTRUCTED"
definition CBS_ASN1_TAG_NUMBER_MASK :: u32 where
  "CBS_ASN1_TAG_NUMBER_MASK = push_bit (5 + CBS_ASN1_TAG_SHIFT) 1 - 1"

text \<open>The loop of \<open>parse_base128_integer\<close>.\<close>

lemma cbs_get_u8_less: "CBS_get_u8 cbs = (Some b, cbs') \<Longrightarrow> cbs_len cbs' < cbs_len cbs"
  by (auto simp: CBS_get_u8_def andthen_Some cbs_get_def split: if_splits)

function base128_loop :: "u64 \<Rightarrow> cbs \<Rightarrow> u64 option \<times> cbs" where
  "base128_loop v cbs =
     (case CBS_get_u8 cbs of
        (None, cbs') \<Rightarrow> (None, cbs')
      | (Some b, cbs') \<Rightarrow>
          if drop_bit (64 - 7) v \<noteq> 0 then (None, cbs')
          else if v = 0 \<and> b = 0x80 then (None, cbs')
          else
            (let v' = push_bit 7 v OR ucast (b AND 0x7F)
             in if b AND 0x80 \<noteq> 0 then base128_loop v' cbs' else (Some v', cbs')))"
  by pat_completeness auto

termination
  by (relation "measure (\<lambda>(v, cbs). cbs_len cbs)") (auto dest!: cbs_get_u8_less [OF sym])

declare base128_loop.simps [simp del]

definition parse_base128_integer :: "(cbs, u64) op" where
  "parse_base128_integer = base128_loop 0"

definition parse_asn1_tag :: "(cbs, u32) op" where
  "parse_asn1_tag =
     andthen CBS_get_u8
       (\<lambda>tag_byte.
          let tag = push_bit CBS_ASN1_TAG_SHIFT (ucast tag_byte AND 0xE0);
              tag_number = ucast (tag_byte AND 0x1F)
          in if tag_number = 0x1F
             then andthen parse_base128_integer
                    (\<lambda>v. if ucast CBS_ASN1_TAG_NUMBER_MASK < v \<or> v < 0x1F then fail
                         else ret (tag OR ucast v))
             else ret (tag OR tag_number))"

text \<open>The header is parsed on a copy; the outputs are \<open>*out\<close>, \<open>*out_tag\<close> and
  \<open>*out_header_len\<close>.\<close>

definition cbs_get_any_asn1_element :: "bool \<Rightarrow> (cbs, cbs \<times> u32 \<times> size_t) op" where
  "cbs_get_any_asn1_element ber_ok cbs =
     (case andthen parse_asn1_tag (\<lambda>tag. andthen CBS_get_u8 (\<lambda>b. ret (tag, b))) cbs of
        (None, header) \<Rightarrow> (None, cbs)
      | (Some (tag, length_byte), header) \<Rightarrow>
          (let header_len = cbs_len cbs - cbs_len header
           in if length_byte AND 0x80 = 0
              then andthen (CBS_get_bytes (unat length_byte + header_len))
                     (\<lambda>out. ret (out, tag, header_len)) cbs
              else
                (let num_bytes = unat (length_byte AND 0x7F)
                 in if ber_ok \<and> tag AND CBS_ASN1_CONSTRUCTED \<noteq> 0 \<and> num_bytes = 0
                    then andthen (CBS_get_bytes header_len) (\<lambda>out. ret (out, tag, header_len)) cbs
                    else if num_bytes = 0 \<or> 4 < num_bytes then (None, cbs)
                    else
                      (case cbs_get_u num_bytes header of
                         (None, header') \<Rightarrow> (None, cbs)
                       | (Some len32, header') \<Rightarrow>
                           if len32 < 128 then (None, cbs)
                           else if drop_bit ((num_bytes - 1) * 8) len32 = 0 then (None, cbs)
                           else
                             (let len = unat len32
                              in if size_wrap (len + header_len + num_bytes) < len then (None, cbs)
                                 else andthen (CBS_get_bytes (len + (header_len + num_bytes)))
                                        (\<lambda>out. ret (out, tag, header_len + num_bytes)) cbs)))))"

definition CBS_get_any_asn1_element :: "(cbs, cbs \<times> u32 \<times> size_t) op" where
  "CBS_get_any_asn1_element = cbs_get_any_asn1_element False"

definition CBS_get_any_ber_asn1_element :: "(cbs, cbs \<times> u32 \<times> size_t) op" where
  "CBS_get_any_ber_asn1_element = cbs_get_any_asn1_element True"

text \<open>\<open>CBS_skip(out, n)\<close> on an output of a call.\<close>

definition skip_out :: "size_t \<Rightarrow> cbs \<Rightarrow> (cbs, cbs) op" where
  "skip_out n out cbs = (case CBS_skip n out of (None, out') \<Rightarrow> (None, cbs) | (Some _, out') \<Rightarrow> (Some out', cbs))"

definition CBS_get_any_asn1 :: "(cbs, cbs \<times> u32) op" where
  "CBS_get_any_asn1 =
     andthen CBS_get_any_asn1_element
       (\<lambda>(out, tag, header_len). andthen (skip_out header_len out) (\<lambda>out'. ret (out', tag)))"

text \<open>A mismatching tag fails after the element has been consumed.\<close>

definition cbs_get_asn1 :: "u32 \<Rightarrow> bool \<Rightarrow> (cbs, cbs) op" where
  "cbs_get_asn1 tag_value skip_header =
     andthen CBS_get_any_asn1_element
       (\<lambda>(out, tag, header_len).
          if tag \<noteq> tag_value then fail
          else if skip_header then skip_out header_len out else ret out)"

definition CBS_get_asn1 :: "u32 \<Rightarrow> (cbs, cbs) op" where
  "CBS_get_asn1 tag_value = cbs_get_asn1 tag_value True"

definition CBS_get_asn1_element :: "u32 \<Rightarrow> (cbs, cbs) op" where
  "CBS_get_asn1_element tag_value = cbs_get_asn1 tag_value False"

definition CBS_peek_asn1_tag :: "cbs \<Rightarrow> u32 \<Rightarrow> bool" where
  "CBS_peek_asn1_tag cbs tag_value \<longleftrightarrow>
     \<not> cbs_len cbs < 1 \<and> fst (parse_asn1_tag cbs) = Some tag_value"

text \<open>The accumulation loop of \<open>CBS_get_asn1_uint64\<close>.\<close>

fun uint64_loop :: "u64 \<Rightarrow> byte list \<Rightarrow> u64 option" where
  "uint64_loop out [] = Some out"
| "uint64_loop out (b # bs) =
     (if drop_bit 56 out \<noteq> 0 then None else uint64_loop (push_bit 8 out OR ucast b) bs)"

definition CBS_get_asn1_uint64 :: "(cbs, u64) op" where
  "CBS_get_asn1_uint64 =
     andthen (CBS_get_asn1 CBS_ASN1_INTEGER)
       (\<lambda>bytes cbs.
          let data = cbs_data bytes; len = cbs_len bytes
          in if len = 0 then (None, cbs)
             else if data ! 0 AND 0x80 \<noteq> 0 then (None, cbs)
             else if data ! 0 = 0 \<and> 1 < len \<and> data ! 1 AND 0x80 = 0 then (None, cbs)
             else (uint64_loop 0 (take len data), cbs))"

definition CBS_get_asn1_bool :: "(cbs, bool) op" where
  "CBS_get_asn1_bool =
     andthen (CBS_get_asn1 CBS_ASN1_BOOLEAN)
       (\<lambda>bytes. if cbs_len bytes \<noteq> 1 then fail
          else
            (let v = hd (cbs_data bytes)
             in if v \<noteq> 0 \<and> v \<noteq> 0xFF then fail else ret (v \<noteq> 0)))"

text \<open>\<open>None\<close> inside the result: the element is not present.\<close>

definition CBS_get_optional_asn1 :: "u32 \<Rightarrow> (cbs, cbs option) op" where
  "CBS_get_optional_asn1 tag cbs =
     (if CBS_peek_asn1_tag cbs tag then andthen (CBS_get_asn1 tag) (\<lambda>out. ret (Some out)) cbs
      else (Some None, cbs))"

definition CBS_get_optional_asn1_octet_string :: "u32 \<Rightarrow> (cbs, cbs \<times> bool) op" where
  "CBS_get_optional_asn1_octet_string tag =
     andthen (CBS_get_optional_asn1 tag)
       (\<lambda>child. case child of
          None \<Rightarrow> ret (CBS_init [] 0, False)
        | Some child \<Rightarrow>
            (case CBS_get_asn1 CBS_ASN1_OCTETSTRING child of
               (None, child') \<Rightarrow> fail
             | (Some out, child') \<Rightarrow> if cbs_len child' \<noteq> 0 then fail else ret (out, True)))"

definition CBS_get_optional_asn1_uint64 :: "u32 \<Rightarrow> u64 \<Rightarrow> (cbs, u64) op" where
  "CBS_get_optional_asn1_uint64 tag default_value =
     andthen (CBS_get_optional_asn1 tag)
       (\<lambda>child. case child of
          None \<Rightarrow> ret default_value
        | Some child \<Rightarrow>
            (case CBS_get_asn1_uint64 child of
               (None, child') \<Rightarrow> fail
             | (Some out, child') \<Rightarrow> if cbs_len child' \<noteq> 0 then fail else ret out))"

definition CBS_get_optional_asn1_bool :: "u32 \<Rightarrow> int \<Rightarrow> (cbs, int) op" where
  "CBS_get_optional_asn1_bool tag default_value =
     andthen (CBS_get_optional_asn1 tag)
       (\<lambda>child. case child of
          None \<Rightarrow> ret default_value
        | Some child \<Rightarrow>
            (case CBS_get_asn1 CBS_ASN1_BOOLEAN child of
               (None, child') \<Rightarrow> fail
             | (Some child2, child') \<Rightarrow>
                 if cbs_len child2 \<noteq> 1 \<or> cbs_len child' \<noteq> 0 then fail
                 else
                   (let boolean = cbs_data child2 ! 0
                    in if boolean = 0 then ret 0 else if boolean = 0xFF then ret 1 else fail)))"

definition CBS_is_valid_asn1_bitstring :: "cbs \<Rightarrow> bool" where
  "CBS_is_valid_asn1_bitstring cbs =
     (case CBS_get_u8 cbs of
        (None, ins) \<Rightarrow> False
      | (Some num_unused_bits, ins) \<Rightarrow>
          if 7 < num_unused_bits then False
          else if num_unused_bits = 0 then True
          else
            (case CBS_get_last_u8 ins of
               (None, ins') \<Rightarrow> False
             | (Some lastb, ins') \<Rightarrow> lastb AND (push_bit (unat num_unused_bits) 1 - 1) = 0))"

definition CBS_asn1_bitstring_has_bit :: "cbs \<Rightarrow> u32 \<Rightarrow> bool" where
  "CBS_asn1_bitstring_has_bit cbs n \<longleftrightarrow>
     CBS_is_valid_asn1_bitstring cbs \<and>
     (let byte_num = unat (drop_bit 3 n) + 1; bit_num = 7 - unat (n AND 7)
      in byte_num < cbs_len cbs \<and> cbs_data cbs ! byte_num AND push_bit bit_num 1 \<noteq> 0)"

section \<open>The contract of the parser\<close>

definition cbs_view :: "cbs \<Rightarrow> byte list" where
  "cbs_view cbs = take (cbs_len cbs) (cbs_data cbs)"

definition cbs_ok :: "cbs \<Rightarrow> bool" where
  "cbs_ok cbs \<longleftrightarrow> cbs_len cbs \<le> length (cbs_data cbs) \<and> cbs_len cbs < 2 ^ 63"

lemma length_cbs_view: "cbs_ok cbs \<Longrightarrow> length (cbs_view cbs) = cbs_len cbs"
  by (simp add: cbs_ok_def cbs_view_def)

lemma cbs_init_ok [simp]:
  "n \<le> length p \<Longrightarrow> n < 2 ^ 63 \<Longrightarrow> cbs_ok (CBS_init p n)"
  "cbs_view (CBS_init p n) = take n p"
  "cbs_len (CBS_init p n) = n" "cbs_data (CBS_init p n) = p"
  by (simp_all add: CBS_init_def cbs_ok_def cbs_view_def)

text \<open>The string after \<open>n\<close> bytes have been taken.\<close>

definition cbs_drop :: "nat \<Rightarrow> cbs \<Rightarrow> cbs" where
  "cbs_drop n cbs = \<lparr>cbs_data = drop n (cbs_data cbs), cbs_len = cbs_len cbs - n\<rparr>"

lemma cbs_drop_simps [simp]:
  "cbs_ok cbs \<Longrightarrow> n \<le> cbs_len cbs \<Longrightarrow> cbs_ok (cbs_drop n cbs)"
  "cbs_view (cbs_drop n cbs) = drop n (cbs_view cbs)"
  "cbs_len (cbs_drop n cbs) = cbs_len cbs - n"
  "cbs_drop m (cbs_drop n cbs) = cbs_drop (n + m) cbs"
  "cbs_drop 0 cbs = cbs"
  by (auto simp: cbs_drop_def cbs_ok_def cbs_view_def drop_take add.commute)

lemma cbs_get_view:
  "cbs_get n cbs = (if cbs_len cbs < n then (None, cbs) else (Some (cbs_data cbs), cbs_drop n cbs))"
  by (cases cbs) (simp add: cbs_get_def cbs_drop_def)

lemma cbs_get_u8_view:
  "cbs_ok cbs \<Longrightarrow> CBS_get_u8 cbs =
     (case cbs_view cbs of [] \<Rightarrow> (None, cbs) | b # bs \<Rightarrow> (Some b, cbs_drop 1 cbs))"
  by (cases "cbs_data cbs"; cases "cbs_len cbs")
     (auto simp: CBS_get_u8_def andthen_def cbs_get_view cbs_view_def ret_def cbs_ok_def)

lemma cbs_get_u_view:
  "cbs_ok cbs \<Longrightarrow> cbs_get_u n cbs =
     (if cbs_len cbs < n then (None, cbs) else (Some (be_word (take n (cbs_view cbs))), cbs_drop n cbs))"
  by (simp add: cbs_get_u_def andthen_def cbs_get_view ret_def cbs_view_def min_absorb1)

lemma cbs_get_bytes_view:
  "CBS_get_bytes n cbs =
     (if cbs_len cbs < n then (None, cbs) else (Some (CBS_init (cbs_data cbs) n), cbs_drop n cbs))"
  by (simp add: CBS_get_bytes_def andthen_def cbs_get_view ret_def)

text \<open>Every reader is a byte consumer: it keeps the invariant and only drops bytes from the front.\<close>

lemma consuming_drop:
  assumes "\<And>cbs. cbs_ok cbs \<Longrightarrow> \<exists>n \<le> cbs_len cbs. snd (rd cbs) = cbs_drop n cbs"
  shows "consuming cbs_view cbs_ok rd"
proof
  fix cbs assume ok: "cbs_ok cbs"
  then obtain n where "n \<le> cbs_len cbs" "snd (rd cbs) = cbs_drop n cbs" using assms by blast
  with ok show "cbs_ok (snd (rd cbs))" and "suffix (cbs_view (snd (rd cbs))) (cbs_view cbs)"
    by (simp_all add: suffix_drop)
qed

interpretation cbs_get: consuming cbs_view cbs_ok "cbs_get n"
proof (rule consuming_drop)
  fix cbs show "\<exists>k \<le> cbs_len cbs. snd (cbs_get n cbs) = cbs_drop k cbs"
    by (cases "cbs_len cbs < n") (auto simp: cbs_get_view intro: exI [of _ 0] exI [of _ n])
qed

text \<open>Cutting a reader's result out of a longer computation that leaves the string alone on failure.\<close>

lemma consuming_get_u8: "\<exists>n \<le> cbs_len cbs. snd (CBS_get_u8 cbs) = cbs_drop n cbs"
  by (cases "cbs_len cbs < 1")
     (auto simp: CBS_get_u8_def andthen_def cbs_get_view ret_def intro: exI [of _ 0] exI [of _ 1])

lemma consuming_get_u: "\<exists>k \<le> cbs_len cbs. snd (cbs_get_u n cbs) = cbs_drop k cbs"
  by (cases "cbs_len cbs < n")
     (auto simp: cbs_get_u_def andthen_def cbs_get_view ret_def intro: exI [of _ 0] exI [of _ n])

lemma consuming_get_bytes: "\<exists>k \<le> cbs_len cbs. snd (CBS_get_bytes n cbs) = cbs_drop k cbs"
  by (cases "cbs_len cbs < n") (auto simp: cbs_get_bytes_view intro: exI [of _ 0] exI [of _ n])

interpretation get_u8: strictly_consuming cbs_view cbs_ok CBS_get_u8
proof (intro strictly_consuming.intro strictly_consuming_axioms.intro consuming_drop consuming_get_u8)
  fix cbs b cbs' assume ok: "cbs_ok cbs" and g: "CBS_get_u8 cbs = (Some b, cbs')"
  then show "length (cbs_view cbs') < length (cbs_view cbs)"
    by (cases "cbs_view cbs") (auto simp: cbs_get_u8_view)
qed

interpretation get_u: consuming cbs_view cbs_ok "cbs_get_u n"
  by (rule consuming_drop) (rule consuming_get_u)

interpretation get_bytes: consuming cbs_view cbs_ok "CBS_get_bytes n"
  by (rule consuming_drop) (rule consuming_get_bytes)

interpretation get_length_prefixed: consuming cbs_view cbs_ok "cbs_get_length_prefixed n"
  unfolding cbs_get_length_prefixed_def
  by (intro consuming_intros get_u.consuming_axioms get_bytes.consuming_axioms)

section \<open>Base 128\<close>

text \<open>The minimal big-endian base-128 encoding of X.690: the leading digits carry the continuation bit.\<close>

fun base128_hi :: "nat \<Rightarrow> byte list" where
  "base128_hi v = (if v = 0 then [] else base128_hi (v div 128) @ [of_nat (v mod 128 + 128)])"

declare base128_hi.simps [simp del]

definition base128 :: "nat \<Rightarrow> byte list" where
  "base128 v = base128_hi (v div 128) @ [of_nat (v mod 128)]"

lemma base128_hi_0 [simp]: "base128_hi 0 = []"
  by (simp add: base128_hi.simps)

lemma base128_not_Nil [simp]: "base128 v \<noteq> []"
  by (simp add: base128_def)

lemma base128_hi_digit: "0 < 128 * v + d \<Longrightarrow> d < 128 \<Longrightarrow>
   base128_hi (128 * v + d) = base128_hi v @ [of_nat (d + 128)]"
  by (subst base128_hi.simps) simp

lemma base128_digit: "d < 128 \<Longrightarrow> base128 (128 * v + d) = base128_hi v @ [of_nat d]"
  by (simp add: base128_def)

text \<open>One step of the loop on the value.\<close>

lemma base128_shift:
  assumes "unat (v :: u64) < 2 ^ 57"
  shows "unat (push_bit 7 v OR ucast (b AND 0x7F :: byte)) = 128 * unat v + unat b mod 128"
proof -
  have w: "unat (ucast (b AND 0x7F :: byte) :: u64) = unat b mod 128"
    by (simp add: and_7F unat_take_bit)
  show ?thesis
    by (subst unat_push_or) (use assms w in simp_all)
qed

lemma base128_loop_step:
  assumes ok: "cbs_ok cbs" and view: "cbs_view cbs = b # bs"
    and v: "unat v < 2 ^ 57" and minimal: "\<not> (v = 0 \<and> b = 0x80)"
  defines "v' \<equiv> push_bit 7 v OR ucast (b AND 0x7F)"
  shows "base128_loop v cbs = (if bit b 7 then base128_loop v' (cbs_drop 1 cbs) else (Some v', cbs_drop 1 cbs))"
proof -
  have "drop_bit 57 v = 0" using v by (simp add: drop_bit_0_iff)
  then have "drop_bit (64 - 7) v = 0" by simp
  with minimal show ?thesis
    unfolding v'_def by (subst base128_loop.simps) (auto simp: cbs_get_u8_view [OF ok] view and_80 Let_def)
qed

text \<open>Soundness: what the loop accepts, together with the digits it has already read, is the encoding
  of the value it returns.\<close>

lemma base128_loop_sound:
  "base128_loop v cbs = (Some r, cbs') \<Longrightarrow> cbs_ok cbs \<Longrightarrow>
   \<exists>p. p \<noteq> [] \<and> length p \<le> cbs_len cbs \<and> cbs_view cbs = p @ cbs_view cbs' \<and>
     cbs' = cbs_drop (length p) cbs \<and> base128_hi (unat v) @ p = base128 (unat r)"
proof (induction v cbs arbitrary: r cbs' rule: base128_loop.induct)
  case (1 v cbs)
  obtain b bs where view: "cbs_view cbs = b # bs"
    using "1.prems" by (cases "cbs_view cbs") (auto simp: base128_loop.simps [of v] cbs_get_u8_view)
  have rd: "CBS_get_u8 cbs = (Some b, cbs_drop 1 cbs)" using "1.prems"(2) view by (simp add: cbs_get_u8_view)
  have len: "1 \<le> cbs_len cbs" using length_cbs_view [OF "1.prems"(2)] view by simp
  have ok: "cbs_ok (cbs_drop 1 cbs)" using "1.prems"(2) len by simp
  have g: "\<not> drop_bit (64 - 7) v \<noteq> 0" "\<not> (v = 0 \<and> b = 0x80)"
    using "1.prems"(1) rd by (auto simp: base128_loop.simps [of v] split: if_splits)
  then have v: "unat v < 2 ^ 57" by (simp add: drop_bit_0_iff)
  let ?v' = "push_bit 7 v OR ucast (b AND 0x7F) :: u64"
  note step = base128_loop_step [OF "1.prems"(2) view v g(2)] and sh = base128_shift [OF v, of b]
  show ?case
  proof (cases "bit b 7")
    case True
    with step "1.prems"(1) have lp: "base128_loop ?v' (cbs_drop 1 cbs) = (Some r, cbs')" by simp
    have cont: "b AND 0x80 \<noteq> 0" using True by (simp add: and_80)
    from "1.IH" [OF rd [symmetric] refl g refl cont lp ok] obtain p where p: "p \<noteq> []"
        "length p \<le> cbs_len cbs - 1" "cbs_view (cbs_drop 1 cbs) = p @ cbs_view cbs'"
        "cbs' = cbs_drop (length p) (cbs_drop 1 cbs)" "base128_hi (unat ?v') @ p = base128 (unat r)"
      by auto
    have b: "of_nat (unat b mod 128 + 128) = b"
      using byte_split [of b] True by (metis add.commute byte_of_unat)
    have "0 < 128 * unat v + unat b mod 128"
    proof (rule ccontr)
      assume "\<not> ?thesis"
      then have "unat v = 0" "unat b mod 128 = 0" by simp_all
      with b have "v = 0 \<and> b = 0x80" by (metis add_0 of_nat_numeral unat_eq_zero)
      with g(2) show False by simp
    qed
    then have "base128_hi (unat ?v') = base128_hi (unat v) @ [b]"
      using base128_hi_digit [of "unat v" "unat b mod 128"] b sh by simp
    with p len view show ?thesis by (intro exI [of _ "b # p"]) simp
  next
    case False
    with step "1.prems"(1) have r: "r = ?v'" "cbs' = cbs_drop 1 cbs" by simp_all
    have "of_nat (unat b mod 128) = b"
      using byte_split [of b] False by (metis add_0 byte_of_unat)
    then have "base128 (unat r) = base128_hi (unat v) @ [b]"
      using base128_digit [of "unat b mod 128" "unat v"] r sh by simp
    with r len view show ?thesis by (intro exI [of _ "[b]"]) simp
  qed
qed

text \<open>Completeness: the encoding of every 64-bit value is accepted.\<close>

lemma base128_loop_digits:
  "cbs_ok cbs \<Longrightarrow> cbs_view cbs = base128_hi h @ rest \<Longrightarrow> h < 2 ^ 57 \<Longrightarrow>
   base128_loop 0 cbs = base128_loop (of_nat h) (cbs_drop (length (base128_hi h)) cbs)"
proof (induction h arbitrary: rest rule: base128_hi.induct)
  case (1 h)
  show ?case
  proof (cases "h = 0")
    case False
    let ?q = "h div 128" and ?b = "of_nat (h mod 128 + 128) :: byte"
    have hi: "base128_hi h = base128_hi ?q @ [?b]" using False by (simp add: base128_hi.simps [of h])
    let ?cbs = "cbs_drop (length (base128_hi ?q)) cbs"
    have q: "?q < 2 ^ 57" using "1.prems"(3) by (meson div_le_dividend le_less_trans)
    have lp: "base128_loop 0 cbs = base128_loop (of_nat ?q) ?cbs"
      by (rule "1.IH" [OF False "1.prems"(1) _ q, of "[?b] @ rest"]) (use "1.prems"(2) hi in simp)
    have len: "length (base128_hi ?q) \<le> cbs_len cbs"
      using length_cbs_view [OF "1.prems"(1)] "1.prems"(2) hi by simp
    have ok: "cbs_ok ?cbs" and view: "cbs_view ?cbs = ?b # rest"
      using "1.prems"(1,2) len hi by simp_all
    have ub: "unat ?b = h mod 128 + 128" by (subst unat_byte_of_nat) simp
    have uq: "unat (of_nat ?q :: u64) = ?q" using q by (simp add: unat_of_nat)
    have "bit ?b 7" using ub by (simp add: byte_top)
    moreover have "\<not> ((of_nat ?q :: u64) = 0 \<and> ?b = 0x80)"
    proof
      assume "(of_nat ?q :: u64) = 0 \<and> ?b = 0x80"
      then have "unat (of_nat ?q :: u64) = unat (0 :: u64)" "unat ?b = unat (0x80 :: byte)" by simp_all
      with uq ub have "?q = 0" "h mod 128 = 0" by simp_all
      with mult_div_mod_eq [of 128 h] False show False by simp
    qed
    moreover have "push_bit 7 (of_nat ?q :: u64) OR ucast (?b AND 0x7F) = of_nat h"
    proof -
      have "unat (push_bit 7 (of_nat ?q :: u64) OR ucast (?b AND 0x7F)) = h"
        using base128_shift [of "of_nat ?q" ?b] uq ub q by simp
      then show ?thesis by (rule of_nat_unat_eq)
    qed
    ultimately show ?thesis
      using base128_loop_step [OF ok view, of "of_nat ?q"] uq q lp hi by simp
  qed simp
qed

lemma parse_base128_complete:
  assumes ok: "cbs_ok cbs" and view: "cbs_view cbs = base128 r @ rest" and r: "r < 2 ^ 64"
  shows "parse_base128_integer cbs = (Some (of_nat r), cbs_drop (length (base128 r)) cbs)"
proof -
  let ?q = "r div 128" and ?b = "of_nat (r mod 128) :: byte"
  let ?cbs = "cbs_drop (length (base128_hi ?q)) cbs"
  have q: "?q < 2 ^ 57" using r by (simp add: less_mult_imp_div_less)
  have view': "cbs_view cbs = base128_hi ?q @ ?b # rest" using view by (simp add: base128_def)
  have lp: "base128_loop 0 cbs = base128_loop (of_nat ?q) ?cbs"
    by (rule base128_loop_digits [OF ok view' q])
  have "length (base128_hi ?q) \<le> cbs_len cbs" using length_cbs_view [OF ok] view' by simp
  then have ok': "cbs_ok ?cbs" and v: "cbs_view ?cbs = ?b # rest" using ok view' by simp_all
  have ub: "unat ?b = r mod 128" by (subst unat_byte_of_nat) (simp add: mod_less)
  have uq: "unat (of_nat ?q :: u64) = ?q" using q by (simp add: unat_of_nat)
  have b7: "\<not> bit ?b 7" using ub by (simp add: byte_top)
  then have m: "\<not> ((of_nat ?q :: u64) = 0 \<and> ?b = 0x80)" using ub by (auto simp: byte_top)
  have "unat (push_bit 7 (of_nat ?q :: u64) OR ucast (?b AND 0x7F)) = r"
    using base128_shift [of "of_nat ?q" ?b] uq ub q by simp
  then have "push_bit 7 (of_nat ?q :: u64) OR ucast (?b AND 0x7F) = of_nat r" by (rule of_nat_unat_eq)
  with base128_loop_step [OF ok' v, of "of_nat ?q"] uq q b7 m lp show ?thesis
    by (simp add: parse_base128_integer_def base128_def)
qed

lemma parse_base128_sound:
  assumes "parse_base128_integer cbs = (Some r, cbs')" and "cbs_ok cbs"
  shows "cbs_view cbs = base128 (unat r) @ cbs_view cbs'" and "cbs' = cbs_drop (length (base128 (unat r))) cbs"
    and "length (base128 (unat r)) \<le> cbs_len cbs"
proof -
  obtain p where p: "length p \<le> cbs_len cbs" "cbs_view cbs = p @ cbs_view cbs'"
      "cbs' = cbs_drop (length p) cbs" "base128_hi (unat (0 :: u64)) @ p = base128 (unat r)"
    using base128_loop_sound [OF assms [unfolded parse_base128_integer_def]] by blast
  then have "p = base128 (unat r)" by simp
  with p show "cbs_view cbs = base128 (unat r) @ cbs_view cbs'"
    and "cbs' = cbs_drop (length (base128 (unat r))) cbs" and "length (base128 (unat r)) \<le> cbs_len cbs"
    by simp_all
qed

section \<open>Tags\<close>

lemma and_1F: "(w :: 'a::len word) AND 0x1F = take_bit 5 w"
  by (simp add: take_bit_eq_mask mask_numeral)

lemma and_E0: "(w :: 'a::len word) AND 0xE0 = push_bit 5 (take_bit 3 (drop_bit 5 w))"
proof -
  have "(0xE0 :: 'a word) = push_bit 5 (mask 3)" by (simp add: mask_numeral push_bit_eq_mult)
  then have "w AND 0xE0 = w AND push_bit 5 (mask 3)" by (simp only:)
  also have "\<dots> = push_bit 5 (take_bit 3 (drop_bit 5 w))"
    by (rule bit_word_eqI) (auto simp: bit_simps)
  finally show ?thesis .
qed

lemma tag_number_mask: "CBS_ASN1_TAG_NUMBER_MASK = mask 29"
  by (simp add: CBS_ASN1_TAG_NUMBER_MASK_def CBS_ASN1_TAG_SHIFT_def mask_eq_exp_minus_1 push_bit_eq_mult)

text \<open>The identifier octets of X.690, 8.1.2: class and constructed bits with the number, or with 31 and
  the number in base 128.\<close>

definition tag_number :: "u32 \<Rightarrow> nat" where
  "tag_number tag = unat (tag AND CBS_ASN1_TAG_NUMBER_MASK)"

definition tag_bits :: "u32 \<Rightarrow> byte" where
  "tag_bits tag = ucast (drop_bit CBS_ASN1_TAG_SHIFT tag) AND 0xE0"

definition der_tag :: "u32 \<Rightarrow> byte list" where
  "der_tag tag =
     (if tag_number tag < 31 then [tag_bits tag OR of_nat (tag_number tag)]
      else (tag_bits tag OR 0x1F) # base128 (tag_number tag))"

text \<open>A tag is its class bits and its number.\<close>

definition make_tag :: "byte \<Rightarrow> u32 \<Rightarrow> u32" where
  "make_tag b n = push_bit CBS_ASN1_TAG_SHIFT (ucast b AND 0xE0) OR n"

lemma make_tag_number: "unat n < 2 ^ 29 \<Longrightarrow> tag_number (make_tag b n) = unat n"
proof -
  assume n: "unat n < 2 ^ 29"
  have "make_tag b n AND mask 29 = n"
    by (rule bit_word_eqI)
       (auto simp: make_tag_def CBS_ASN1_TAG_SHIFT_def and_E0 bit_simps dest: unat_bit_less [OF n])
  then show ?thesis by (simp add: tag_number_def tag_number_mask)
qed

lemma make_tag_bits: "unat n < 2 ^ 29 \<Longrightarrow> tag_bits (make_tag b n) = b AND 0xE0"
proof -
  assume n: "unat n < 2 ^ 29"
  show ?thesis
    by (rule bit_word_eqI)
       (auto simp: tag_bits_def make_tag_def CBS_ASN1_TAG_SHIFT_def and_E0 bit_simps
          dest: unat_bit_less [OF n])
qed

lemma make_tag_eq: "make_tag (tag_bits tag OR b) (of_nat (tag_number tag)) = tag" if "drop_bit 5 b = 0"
proof -
  have n: "(of_nat (tag_number tag) :: u32) = take_bit 29 tag"
    by (simp add: tag_number_def tag_number_mask take_bit_eq_mask)
  have "\<not> bit b 5" "\<not> bit b 6" "\<not> bit b 7" using small_bits [OF that] by simp_all
  then have "\<And>n. 5 \<le> n \<Longrightarrow> \<not> bit b n" using small_bits [OF that] by simp
  then show ?thesis unfolding n
    by (intro bit_word_eqI)
       (auto simp: make_tag_def tag_bits_def CBS_ASN1_TAG_SHIFT_def and_E0 bit_simps)
qed

lemma byte_tag_split: "(b AND 0xE0) OR (b AND 0x1F) = (b :: byte)"
  by (rule bit_word_eqI) (auto simp: and_E0 and_1F bit_simps)

lemma tag_number_less: "tag_number tag < 2 ^ 29"
  by (simp add: tag_number_def tag_number_mask take_bit_eq_mask [symmetric] unat_take_bit)

lemma parse_asn1_tag_step:
  assumes ok: "cbs_ok cbs" and view: "cbs_view cbs = b # bs"
  shows "parse_asn1_tag cbs =
     (if b AND 0x1F = 0x1F
      then andthen parse_base128_integer
             (\<lambda>v. if 2 ^ 29 \<le> unat v \<or> unat v < 31 then fail else ret (make_tag b (ucast v))) (cbs_drop 1 cbs)
      else (Some (make_tag b (ucast (b AND 0x1F))), cbs_drop 1 cbs))"
proof -
  have eq: "ucast (b AND 0x1F) = (0x1F :: u32) \<longleftrightarrow> b AND 0x1F = 0x1F"
    by (simp add: word_unat_eq_iff)
  have lim: "(ucast CBS_ASN1_TAG_NUMBER_MASK :: u64) < v \<longleftrightarrow> 2 ^ 29 \<le> unat v" for v
    by (simp add: tag_number_mask mask_numeral word_less_nat_alt) arith
  have low: "(v :: u64) < 0x1F \<longleftrightarrow> unat v < 31" for v by (simp add: word_less_nat_alt)
  show ?thesis
    unfolding parse_asn1_tag_def Let_def make_tag_def [symmetric]
    by (simp add: andthen_def cbs_get_u8_view [OF ok] view eq lim low ret_def)
qed

lemma parse_asn1_tag_sound:
  assumes ok: "cbs_ok cbs" and p: "parse_asn1_tag cbs = (Some tag, cbs')"
  shows "cbs_view cbs = der_tag tag @ cbs_view cbs'" and "cbs' = cbs_drop (length (der_tag tag)) cbs"
    and "length (der_tag tag) \<le> cbs_len cbs"
proof -
  obtain b bs where view: "cbs_view cbs = b # bs"
    using p ok by (cases "cbs_view cbs") (simp_all add: parse_asn1_tag_def andthen_def cbs_get_u8_view)
  have len: "1 \<le> cbs_len cbs" using length_cbs_view [OF ok] view by simp
  have "cbs_view cbs = der_tag tag @ cbs_view cbs' \<and> cbs' = cbs_drop (length (der_tag tag)) cbs \<and>
      length (der_tag tag) \<le> cbs_len cbs"
  proof (cases "b AND 0x1F = 0x1F")
    case True
    with p parse_asn1_tag_step [OF ok view] obtain v where
      pb: "parse_base128_integer (cbs_drop 1 cbs) = (Some v, cbs')"
      and v: "unat v < 2 ^ 29" "31 \<le> unat v" and tag: "tag = make_tag b (ucast v)"
      by (auto simp: andthen_Some split: if_splits)
    have "cbs_ok (cbs_drop 1 cbs)" using ok len by simp
    note s = parse_base128_sound [OF pb this]
    have u: "unat (ucast v :: u32) = unat v"
      using v by (simp add: unsigned_ucast_eq take_bit_nat_eq_self)
    then have n: "tag_number tag = unat v" "tag_bits tag = b AND 0xE0"
      using v make_tag_number [of "ucast v" b] make_tag_bits [of "ucast v" b] tag by simp_all
    have "der_tag tag = b # base128 (unat v)"
      using v n byte_tag_split [of b] True by (simp add: der_tag_def)
    with s view len show ?thesis by simp
  next
    case False
    with p parse_asn1_tag_step [OF ok view] have tag: "tag = make_tag b (ucast (b AND 0x1F))"
      and c: "cbs' = cbs_drop 1 cbs" by simp_all
    have u: "unat (ucast (b AND 0x1F) :: u32) = unat (b AND 0x1F)" by simp
    have "unat (b AND 0x1F) < 32" by (simp add: and_1F unat_take_bit)
    moreover have "unat (b AND 0x1F) \<noteq> 31" using False by (simp add: word_unat_eq_iff)
    ultimately have "unat (b AND 0x1F) < 31" by simp
    then have n: "tag_number tag = unat (b AND 0x1F)" "tag_bits tag = b AND 0xE0"
      using make_tag_number [of "ucast (b AND 0x1F)" b] make_tag_bits [of "ucast (b AND 0x1F)" b] tag u
      by simp_all
    have "der_tag tag = [b]"
      using n \<open>unat (b AND 0x1F) < 31\<close> byte_tag_split [of b] by (simp add: der_tag_def)
    with c view len show ?thesis by simp
  qed
  then show "cbs_view cbs = der_tag tag @ cbs_view cbs'" and "cbs' = cbs_drop (length (der_tag tag)) cbs"
    and "length (der_tag tag) \<le> cbs_len cbs" by blast+
qed

lemma parse_asn1_tag_complete:
  assumes ok: "cbs_ok cbs" and view: "cbs_view cbs = der_tag tag @ rest"
  shows "parse_asn1_tag cbs = (Some tag, cbs_drop (length (der_tag tag)) cbs)"
proof (cases "tag_number tag < 31")
  case True
  let ?n = "tag_number tag" and ?b = "tag_bits tag OR of_nat (tag_number tag)"
  have v: "cbs_view cbs = ?b # rest" and d: "der_tag tag = [?b]" using view True by (simp_all add: der_tag_def)
  have un: "unat (of_nat ?n :: byte) = ?n" using True by (simp add: unat_byte_of_nat)
  then have small: "drop_bit 5 (of_nat ?n :: byte) = 0" using True by (simp add: drop_bit_0_iff)
  have n5: "?n < 32" using True by simp
  have "?b AND 0x1F = of_nat ?n"
    by (rule bit_word_eqI)
       (auto simp: and_1F tag_bits_def and_E0 bit_simps dest: nat_bit_less [of _ 5, simplified, OF n5])
  moreover from this have "?b AND 0x1F \<noteq> 0x1F" using un True by (auto simp: word_unat_eq_iff)
  moreover have "ucast (of_nat ?n :: byte) = (of_nat ?n :: u32)"
    using un by (intro of_nat_unat_eq) simp
  ultimately show ?thesis
    using parse_asn1_tag_step [OF ok v] d make_tag_eq [OF small, of tag] by simp
next
  case False
  let ?n = "tag_number tag" and ?b = "tag_bits tag OR 0x1F"
  have v: "cbs_view cbs = ?b # base128 ?n @ rest" and d: "der_tag tag = ?b # base128 ?n"
    using view False by (simp_all add: der_tag_def)
  have small: "drop_bit 5 (0x1F :: byte) = 0" by (simp add: drop_bit_0_iff)
  have f: "?b AND 0x1F = 0x1F"
    by (rule bit_word_eqI) (auto simp: and_1F tag_bits_def and_E0 bit_simps dest: small_bitD [OF small])
  have len: "1 \<le> cbs_len cbs" using length_cbs_view [OF ok] v by simp
  have n: "?n < 2 ^ 29" by (rule tag_number_less)
  then have un: "unat (of_nat ?n :: u64) = ?n" by (simp add: unat_of_nat)
  then have "unat (ucast (of_nat ?n :: u64) :: u32) = ?n"
    using n by (simp add: unsigned_ucast_eq take_bit_nat_eq_self)
  then have uc: "(ucast (of_nat ?n :: u64) :: u32) = of_nat ?n" by (rule of_nat_unat_eq)
  have "parse_base128_integer (cbs_drop 1 cbs) = (Some (of_nat ?n), cbs_drop (length (base128 ?n)) (cbs_drop 1 cbs))"
    by (rule parse_base128_complete [of _ _ rest]) (use ok v len n in simp_all)
  then show ?thesis
    using parse_asn1_tag_step [OF ok v] f n un False uc make_tag_eq [OF small, of tag] d
    by (simp add: andthen_def ret_def)
qed

section \<open>Lengths\<close>

text \<open>Big-endian bytes of a number and back.\<close>

fun be_bytes :: "nat \<Rightarrow> nat \<Rightarrow> byte list" where
  "be_bytes 0 n = []"
| "be_bytes (Suc k) n = be_bytes k (n div 256) @ [of_nat n]"

definition be_val :: "byte list \<Rightarrow> nat" where
  "be_val bs = fold (\<lambda>b n. 256 * n + unat b) bs 0"

lemma be_val_snoc [simp]: "be_val [] = 0" "be_val (bs @ [b]) = 256 * be_val bs + unat b"
  by (simp_all add: be_val_def)

lemma length_be_bytes [simp]: "length (be_bytes k n) = k"
  by (induction k arbitrary: n) simp_all

lemma be_val_bound: "be_val bs < 256 ^ length bs"
proof (induction bs rule: rev_induct)
  case (snoc b bs)
  have u: "unat b < 256" using unsigned_less [of b, where 'a = nat] by simp
  have "256 * Suc (be_val bs) \<le> 256 * 256 ^ length bs" using snoc by (intro mult_le_mono2) simp
  then have "256 * be_val bs + 256 \<le> 256 * 256 ^ length bs" by (simp only: mult_Suc_right add.commute)
  with u have "256 * be_val bs + unat b < 256 * 256 ^ length bs" by linarith
  then show ?case by simp
qed simp

lemma be_val_be_bytes: "be_val (be_bytes k n) = n mod 256 ^ k"
  by (induction k arbitrary: n) (simp_all add: unat_byte_of_nat mod_mult2_eq)

lemma be_bytes_be_val: "be_bytes (length bs) (be_val bs) = bs"
proof (induction bs rule: rev_induct)
  case (snoc b bs)
  have u: "unat b < 256" using unsigned_less [of b, where 'a = nat] by simp
  then have "(256 * be_val bs + unat b) div 256 = be_val bs" by simp
  moreover have "unat (of_nat (256 * be_val bs + unat b) :: byte) = unat b"
    by (subst unat_byte_of_nat) (simp add: u)
  then have "(of_nat (256 * be_val bs + unat b) :: byte) = b" by (simp only: word_unat_eq_iff)
  moreover have "length (bs @ [b]) = Suc (length bs)" by simp
  ultimately show ?case using snoc.IH by (simp only: be_val_snoc be_bytes.simps)
qed simp

lemma be_word_val: "length bs \<le> 4 \<Longrightarrow> unat (be_word bs) = be_val bs"
proof (induction bs rule: rev_induct)
  case (snoc b bs)
  have IH: "unat (be_word bs) = be_val bs" using snoc by simp
  have "length bs \<le> 3" using snoc by simp
  then have "(256 :: nat) ^ length bs \<le> 256 ^ 3" by (rule power_increasing) simp
  with be_val_bound [of bs] have "be_val bs < 256 ^ 3" by simp
  moreover have "unat b < 256" using unsigned_less [of b, where 'a = nat] by simp
  ultimately have "unat (push_bit 8 (be_word bs) OR ucast b) = unat (be_word bs) * 2 ^ 8 + unat b"
    using IH by (subst unat_push_or) simp_all
  with IH show ?case by (simp add: be_word_def)
qed (simp add: be_word_def)

text \<open>The number of bytes a number needs.\<close>

fun byte_count :: "nat \<Rightarrow> nat" where
  "byte_count n = (if n = 0 then 0 else Suc (byte_count (n div 256)))"

declare byte_count.simps [simp del]

lemma byte_count_iff: "0 < k \<Longrightarrow> byte_count n = k \<longleftrightarrow> 256 ^ (k - 1) \<le> n \<and> n < 256 ^ k"
proof (induction k arbitrary: n)
  case (Suc k)
  show ?case
  proof (cases "k = 0")
    case True
    have "byte_count (n div 256) = 0 \<longleftrightarrow> n < 256" by (subst byte_count.simps) (simp add: div_eq_0_iff)
    with True show ?thesis by (subst byte_count.simps) auto
  next
    case False
    then obtain j where j: "k = Suc j" by (cases k) auto
    have "byte_count n = Suc k \<longleftrightarrow> n \<noteq> 0 \<and> byte_count (n div 256) = k" by (subst byte_count.simps) simp
    also have "\<dots> \<longleftrightarrow> n \<noteq> 0 \<and> 256 ^ (k - 1) \<le> n div 256 \<and> n div 256 < 256 ^ k"
      using Suc.IH [of "n div 256"] False by simp
    also have "n div 256 < 256 ^ k \<longleftrightarrow> n < 256 ^ Suc k"
      using div_less_iff_less_mult [of 256 n "256 ^ k"] by (simp add: mult.commute)
    also have "256 ^ (k - 1) \<le> n div 256 \<longleftrightarrow> 256 ^ k \<le> n"
      using less_eq_div_iff_mult_less_eq [of 256 "256 ^ j" n] by (simp add: j mult.commute)
    also have "n \<noteq> 0 \<and> 256 ^ k \<le> n \<and> n < 256 ^ Suc k \<longleftrightarrow> 256 ^ (Suc k - 1) \<le> n \<and> n < 256 ^ Suc k"
      by auto
    finally show ?thesis .
  qed
qed simp

text \<open>The length octets of X.690, 10.1, for lengths below \<open>2 ^ 32\<close>.\<close>

definition der_len :: "nat \<Rightarrow> byte list" where
  "der_len n =
     (if n < 128 then [of_nat n] else of_nat (128 + byte_count n) # be_bytes (byte_count n) n)"

lemma der_len_short: "n < 128 \<Longrightarrow> der_len n = [of_nat n]"
  by (simp add: der_len_def)

lemma der_len_long:
  "128 \<le> n \<Longrightarrow> 0 < k \<Longrightarrow> 256 ^ (k - 1) \<le> n \<Longrightarrow> n < 256 ^ k \<Longrightarrow> der_len n = of_nat (128 + k) # be_bytes k n"
  using byte_count_iff [of k n] by (simp add: der_len_def)

lemma byte_count_4: "0 < n \<Longrightarrow> n < 2 ^ 32 \<Longrightarrow> 0 < byte_count n \<and> byte_count n \<le> 4"
proof -
  assume n: "0 < n" "n < 2 ^ 32"
  have pos: "0 < byte_count n" using n by (subst byte_count.simps) simp
  have "\<not> 5 \<le> byte_count n"
  proof
    assume "5 \<le> byte_count n"
    then have "(256 :: nat) ^ 4 \<le> 256 ^ (byte_count n - 1)" by (intro power_increasing) simp_all
    also have "\<dots> \<le> n" using byte_count_iff [OF pos, of n] by simp
    finally show False using n by simp
  qed
  with pos show ?thesis by simp
qed

section \<open>Elements\<close>

text \<open>What a successful parse of the header has established.\<close>

definition der_header :: "u32 \<Rightarrow> nat \<Rightarrow> byte list" where
  "der_header tag n = der_tag tag @ der_len n"

definition der_element :: "u32 \<Rightarrow> byte list \<Rightarrow> byte list" where
  "der_element tag body = der_header tag (length body) @ body"

lemma length_der_tag: "0 < length (der_tag tag)"
  by (simp add: der_tag_def)

text \<open>The header parse as it appears in \<open>cbs_get_any_asn1_element\<close>.\<close>

lemma header_parse:
  assumes ok: "cbs_ok cbs"
  shows "andthen parse_asn1_tag (\<lambda>tag. andthen CBS_get_u8 (\<lambda>b. ret (tag, b))) cbs = (Some (tag, b), header) \<longleftrightarrow>
     (\<exists>rest. cbs_view cbs = der_tag tag @ b # rest \<and> header = cbs_drop (length (der_tag tag) + 1) cbs)"
    (is "?L \<longleftrightarrow> ?R")
proof
  assume ?L
  then obtain cbs1 where p: "parse_asn1_tag cbs = (Some tag, cbs1)" and g: "CBS_get_u8 cbs1 = (Some b, header)"
    by (auto simp: andthen_Some)
  note s = parse_asn1_tag_sound [OF ok p]
  have ok1: "cbs_ok cbs1" unfolding s(2) by (rule cbs_drop_simps(1) [OF ok s(3)])
  obtain rest where "cbs_view cbs1 = b # rest" and h: "header = cbs_drop 1 cbs1"
    using g cbs_get_u8_view [OF ok1] by (cases "cbs_view cbs1") auto
  with s(1) show ?R unfolding h s(2) by simp
next
  assume ?R
  then obtain rest where view: "cbs_view cbs = der_tag tag @ b # rest"
    and h: "header = cbs_drop (length (der_tag tag) + 1) cbs" by blast
  have len: "length (der_tag tag) \<le> cbs_len cbs" using length_cbs_view [OF ok] view by simp
  have "parse_asn1_tag cbs = (Some tag, cbs_drop (length (der_tag tag)) cbs)"
    by (rule parse_asn1_tag_complete [OF ok view])
  moreover have "CBS_get_u8 (cbs_drop (length (der_tag tag)) cbs) = (Some b, header)"
    using view len ok by (simp add: cbs_get_u8_view h)
  ultimately show ?L by (simp add: andthen_def ret_def)
qed

lemma take_bit_7_byte: "unat ((b :: byte) AND 0x7F) = unat b mod 128"
  by (simp add: and_7F unat_take_bit)

lemma be_word_head:
  assumes k: "0 < k" "k \<le> 4" and len: "length bs = k"
  shows "drop_bit ((k - 1) * 8) (be_word bs) = 0 \<longleftrightarrow> be_val bs < 256 ^ (k - 1)"
proof -
  have "(2 :: nat) ^ ((k - 1) * 8) = 256 ^ (k - 1)"
    using power_mult [of "2 :: nat" 8 "k - 1"] by (simp add: mult.commute)
  then show ?thesis using k len by (simp add: drop_bit_0_iff be_word_val)
qed

text \<open>The long form, after the first length octet.\<close>

lemma element_long:
  assumes ok: "cbs_ok cbs" and view: "cbs_view cbs = der_tag tag @ b # rest" and long: "bit b 7"
    and k: "k = unat b mod 128" "0 < k" "k \<le> 4"
  defines "hl \<equiv> length (der_tag tag) + 1"
  shows "cbs_get_any_asn1_element ber_ok cbs =
     (if k \<le> length rest \<and> 128 \<le> be_val (take k rest) \<and> 256 ^ (k - 1) \<le> be_val (take k rest) \<and>
         hl + k + be_val (take k rest) \<le> cbs_len cbs
      then (Some (CBS_init (cbs_data cbs) (be_val (take k rest) + (hl + k)), tag, hl + k),
            cbs_drop (be_val (take k rest) + (hl + k)) cbs)
      else (None, cbs))"
proof -
  have clen: "cbs_len cbs = hl + length rest" using length_cbs_view [OF ok] view by (simp add: hl_def)
  have hp: "andthen parse_asn1_tag (\<lambda>tag. andthen CBS_get_u8 (\<lambda>b. ret (tag, b))) cbs = (Some (tag, b), cbs_drop hl cbs)"
    using header_parse [OF ok, of tag b] view hl_def by blast
  have hl: "cbs_len cbs - cbs_len (cbs_drop hl cbs) = hl" using clen by simp
  have okh: "cbs_ok (cbs_drop hl cbs)" and vh: "cbs_view (cbs_drop hl cbs) = rest"
    using ok clen view by (simp_all add: hl_def)
  have nb: "unat (b AND 0x7F) = k" using k by (simp add: take_bit_7_byte)
  have top: "\<not> b AND 0x80 = 0" using long by (simp add: and_80)
  show ?thesis
  proof (cases "k \<le> length rest")
    case False
    then have "cbs_get_u k (cbs_drop hl cbs) = (None, cbs_drop hl cbs)"
      using clen by (simp add: cbs_get_u_view [OF okh])
    with False k show ?thesis
      by (simp add: cbs_get_any_asn1_element_def hp hl nb top Let_def)
  next
    case True
    let ?w = "be_word (take k rest)" and ?n = "be_val (take k rest)"
    have gu: "cbs_get_u k (cbs_drop hl cbs) = (Some ?w, cbs_drop (hl + k) cbs)"
      using True clen vh by (simp add: cbs_get_u_view [OF okh])
    have lk: "length (take k rest) = k" using True by simp
    have w: "unat ?w = ?n" by (rule be_word_val) (use lk k in simp)
    have small: "?w < 128 \<longleftrightarrow> ?n < 128" using w by (simp add: word_less_nat_alt)
    have short: "drop_bit ((k - 1) * 8) ?w = 0 \<longleftrightarrow> ?n < 256 ^ (k - 1)"
      by (rule be_word_head [OF k(2,3) lk])
    have "?n < 2 ^ 32" using w unsigned_less [of ?w, where 'a = nat] by simp
    moreover have "hl \<le> cbs_len cbs" "cbs_len cbs < 2 ^ 63" using clen ok by (simp_all add: cbs_ok_def)
    ultimately have "size_wrap (?n + hl + k) = ?n + hl + k" using k(3) by simp
    then have nowrap: "\<not> size_wrap (?n + hl + k) < ?n" by simp
    show ?thesis
      unfolding cbs_get_any_asn1_element_def hp prod.case option.case hl Let_def nb gu small short w
      using True k top nowrap by (auto simp: cbs_get_bytes_view andthen_def ret_def add_ac)
  qed
qed

text \<open>The short form.\<close>

lemma element_short:
  assumes ok: "cbs_ok cbs" and view: "cbs_view cbs = der_tag tag @ b # rest" and short: "\<not> bit b 7"
  defines "hl \<equiv> length (der_tag tag) + 1"
  shows "cbs_get_any_asn1_element ber_ok cbs =
     (if hl + unat b \<le> cbs_len cbs
      then (Some (CBS_init (cbs_data cbs) (unat b + hl), tag, hl), cbs_drop (unat b + hl) cbs)
      else (None, cbs))"
proof -
  have clen: "cbs_len cbs = hl + length rest" using length_cbs_view [OF ok] view by (simp add: hl_def)
  have hp: "andthen parse_asn1_tag (\<lambda>tag. andthen CBS_get_u8 (\<lambda>b. ret (tag, b))) cbs = (Some (tag, b), cbs_drop hl cbs)"
    using header_parse [OF ok, of tag b] view hl_def by blast
  have hl: "cbs_len cbs - cbs_len (cbs_drop hl cbs) = hl" using clen by simp
  show ?thesis
    unfolding cbs_get_any_asn1_element_def hp prod.case option.case hl Let_def
    using short by (auto simp: and_80 cbs_get_bytes_view andthen_def ret_def)
qed

lemma element_indefinite:
  assumes ok: "cbs_ok cbs" and view: "cbs_view cbs = der_tag tag @ b # rest" and b: "bit b 7" "unat b mod 128 = 0"
  defines "hl \<equiv> length (der_tag tag) + 1"
  shows "cbs_get_any_asn1_element ber_ok cbs =
     (if ber_ok \<and> tag AND CBS_ASN1_CONSTRUCTED \<noteq> 0
      then (Some (CBS_init (cbs_data cbs) hl, tag, hl), cbs_drop hl cbs) else (None, cbs))"
proof -
  have clen: "cbs_len cbs = hl + length rest" using length_cbs_view [OF ok] view by (simp add: hl_def)
  have hp: "andthen parse_asn1_tag (\<lambda>tag. andthen CBS_get_u8 (\<lambda>b. ret (tag, b))) cbs = (Some (tag, b), cbs_drop hl cbs)"
    using header_parse [OF ok, of tag b] view hl_def by blast
  have hl: "cbs_len cbs - cbs_len (cbs_drop hl cbs) = hl" using clen by simp
  show ?thesis
    unfolding cbs_get_any_asn1_element_def hp prod.case option.case hl Let_def take_bit_7_byte b(2)
    using b(1) clen by (auto simp: and_80 cbs_get_bytes_view andthen_def ret_def)
qed

lemma element_too_long:
  assumes ok: "cbs_ok cbs" and view: "cbs_view cbs = der_tag tag @ b # rest" and b: "bit b 7" "4 < unat b mod 128"
  shows "cbs_get_any_asn1_element ber_ok cbs = (None, cbs)"
proof -
  have hp: "andthen parse_asn1_tag (\<lambda>tag. andthen CBS_get_u8 (\<lambda>b. ret (tag, b))) cbs =
      (Some (tag, b), cbs_drop (length (der_tag tag) + 1) cbs)"
    using header_parse [OF ok, of tag b] view by blast
  show ?thesis
    unfolding cbs_get_any_asn1_element_def hp prod.case option.case Let_def take_bit_7_byte
    using b by (auto simp: and_80)
qed

lemma element_no_header:
  assumes ok: "cbs_ok cbs" and no: "\<nexists>tag b rest. cbs_view cbs = der_tag tag @ b # rest"
  shows "cbs_get_any_asn1_element ber_ok cbs = (None, cbs)"
proof -
  obtain r header where hp: "andthen parse_asn1_tag (\<lambda>tag. andthen CBS_get_u8 (\<lambda>b. ret (tag, b))) cbs = (r, header)"
    by (cases "andthen parse_asn1_tag (\<lambda>tag. andthen CBS_get_u8 (\<lambda>b. ret (tag, b))) cbs")
  have "r = None"
  proof (cases r)
    case (Some tb)
    obtain tag b where "r = Some (tag, b)" using Some by (cases tb) simp
    with hp header_parse [OF ok, of tag b header] no show ?thesis by simp
  qed
  with hp show ?thesis by (simp add: cbs_get_any_asn1_element_def)
qed

text \<open>A successful DER parse has seen an element in its only encoding.\<close>

lemma element_sound:
  assumes ok: "cbs_ok cbs" and g: "CBS_get_any_asn1_element cbs = (Some (out, tag, hl), cbs')"
  shows "\<exists>body. cbs_view cbs = der_header tag (length body) @ body @ cbs_view cbs' \<and>
     length body < 2 ^ 32 \<and> hl = length (der_header tag (length body)) \<and>
     hl + length body \<le> cbs_len cbs \<and>
     out = CBS_init (cbs_data cbs) (length body + hl) \<and> cbs' = cbs_drop (length body + hl) cbs"
proof -
  have g: "cbs_get_any_asn1_element False cbs = (Some (out, tag, hl), cbs')"
    using g by (simp add: CBS_get_any_asn1_element_def)
  then obtain tag' b rest where view: "cbs_view cbs = der_tag tag' @ b # rest"
    using element_no_header [OF ok] by fastforce
  let ?hl = "length (der_tag tag') + 1"
  have clen: "cbs_len cbs = ?hl + length rest" using length_cbs_view [OF ok] view by simp
  consider (short) "\<not> bit b 7" | (indef) "bit b 7" "unat b mod 128 = 0"
    | (long) "bit b 7" "0 < unat b mod 128" "unat b mod 128 \<le> 4" | (big) "bit b 7" "4 < unat b mod 128"
    by linarith
  then show ?thesis
  proof cases
    case short
    from g element_short [OF ok view short, of False] have r: "tag = tag'" "hl = ?hl"
        "out = CBS_init (cbs_data cbs) (unat b + hl)" "cbs' = cbs_drop (unat b + hl) cbs"
        "hl + unat b \<le> cbs_len cbs"
      by (auto split: if_splits)
    let ?body = "take (unat b) rest"
    have n: "length ?body = unat b" using r(2,5) clen by simp
    have "unat b < 128" using short by (simp add: byte_top)
    then have d: "der_header tag (length ?body) = der_tag tag' @ [b]" using n r(1) by (simp add: der_header_def der_len_short)
    have "cbs_view cbs' = drop (unat b) rest" unfolding r(2,4) using view by simp
    then have "cbs_view cbs = der_header tag (length ?body) @ ?body @ cbs_view cbs'"
      using view d by simp
    moreover have "unat b < 2 ^ 32" using \<open>unat b < 128\<close> by simp
    ultimately show ?thesis using n d r by (intro exI [of _ ?body]) (simp add: add.commute)
  next
    case long
    let ?k = "unat b mod 128" and ?n = "be_val (take (unat b mod 128) rest)"
    from g element_long [OF ok view long(1) refl long(2,3), of False] have
      c: "?k \<le> length rest" "128 \<le> ?n" "256 ^ (?k - 1) \<le> ?n" "?hl + ?k + ?n \<le> cbs_len cbs" and
      r: "tag = tag'" "hl = ?hl + ?k" "out = CBS_init (cbs_data cbs) (?n + hl)" "cbs' = cbs_drop (?n + hl) cbs"
      by (auto split: if_splits)
    let ?body = "take ?n (drop ?k rest)"
    have n: "length ?body = ?n" using c(1,4) clen by simp
    have lk: "length (take ?k rest) = ?k" using c(1) by simp
    have "?n < 256 ^ ?k" using be_val_bound [of "take ?k rest"] lk by simp
    moreover have "be_bytes ?k ?n = take ?k rest" using be_bytes_be_val [of "take ?k rest"] lk by simp
    moreover have "of_nat (128 + ?k) = b"
      using byte_split [of b] long(1) by (metis byte_of_unat)
    ultimately have d: "der_header tag (length ?body) = der_tag tag' @ b # take ?k rest"
      using der_len_long [OF c(2) long(2) c(3)] n r(1) by (simp add: der_header_def)
    have "unat (be_word (take ?k rest)) = ?n" by (rule be_word_val) (use lk long(3) in simp)
    then have "?n < 2 ^ 32" using unsigned_less [of "be_word (take ?k rest)", where 'a = nat] by simp
    moreover have "cbs_view cbs' = drop ?n (drop ?k rest)" unfolding r(2,4) using view by (simp add: add.commute)
    then have "cbs_view cbs = der_header tag (length ?body) @ ?body @ cbs_view cbs'"
      using view d by (metis append.assoc append_Cons append_take_drop_id)
    moreover have "length (der_header tag (length ?body)) = hl" unfolding d r(2) using lk by simp
    ultimately show ?thesis using n c(4) r by (intro exI [of _ ?body]) simp
  next
    case indef
    with g element_indefinite [OF ok view indef, of False] show ?thesis by simp
  next
    case big
    with g element_too_long [OF ok view big, of False] show ?thesis by simp
  qed
qed

lemma element_complete:
  assumes ok: "cbs_ok cbs" and view: "cbs_view cbs = der_header tag (length body) @ body @ rest"
    and small: "length body < 2 ^ 32"
  defines "hl \<equiv> length (der_header tag (length body))"
  shows "cbs_get_any_asn1_element ber_ok cbs =
     (Some (CBS_init (cbs_data cbs) (length body + hl), tag, hl), cbs_drop (length body + hl) cbs)"
proof (cases "length body < 128")
  case True
  let ?b = "of_nat (length body) :: byte"
  have v: "cbs_view cbs = der_tag tag @ ?b # body @ rest"
    using view True by (simp add: der_header_def der_len_short)
  have u: "unat ?b = length body" using True by (simp add: unat_byte_of_nat)
  have hl: "hl = length (der_tag tag) + 1" using True by (simp add: hl_def der_header_def der_len_short)
  have "cbs_len cbs = hl + length body + length rest" using length_cbs_view [OF ok] v hl by simp
  moreover have "\<not> bit ?b 7" using u True by (simp add: byte_top)
  ultimately show ?thesis using element_short [OF ok v, of ber_ok] u hl by simp
next
  case False
  let ?n = "length body" and ?k = "byte_count (length body)"
  let ?b = "of_nat (128 + ?k) :: byte"
  have pos: "0 < ?n" using False by linarith
  then have k: "0 < ?k" "?k \<le> 4" using byte_count_4 [OF pos small] by blast+
  have bc: "256 ^ (?k - 1) \<le> ?n" "?n < 256 ^ ?k" using byte_count_iff [OF k(1), of ?n] by simp_all
  have v: "cbs_view cbs = der_tag tag @ ?b # be_bytes ?k ?n @ body @ rest"
    using view False by (simp add: der_header_def der_len_def)
  have u: "unat ?b = 128 + ?k" using k by (subst unat_byte_of_nat) simp
  then have b: "bit ?b 7" "?k = unat ?b mod 128" using k by (simp_all add: byte_top)
  have hl: "hl = length (der_tag tag) + 1 + ?k" using False by (simp add: hl_def der_header_def der_len_def)
  have "be_val (take ?k (be_bytes ?k ?n @ body @ rest)) = ?n"
    using bc(2) by (simp add: be_val_be_bytes)
  moreover have "cbs_len cbs = hl + length body + length rest" using length_cbs_view [OF ok] v hl by simp
  ultimately show ?thesis using element_long [OF ok v b k, of ber_ok] False bc(1) hl by simp
qed

text \<open>A failing element parse leaves the string where it was.\<close>

lemma element_fails: "cbs_ok cbs \<Longrightarrow> cbs_get_any_asn1_element ber_ok cbs = (None, cbs') \<Longrightarrow> cbs' = cbs"
proof -
  assume ok: "cbs_ok cbs" and g: "cbs_get_any_asn1_element ber_ok cbs = (None, cbs')"
  show ?thesis
  proof (cases "\<exists>tag b rest. cbs_view cbs = der_tag tag @ b # rest")
    case False
    with g element_no_header [OF ok, of ber_ok] show ?thesis by simp
  next
    case True
    then obtain tag b rest where view: "cbs_view cbs = der_tag tag @ b # rest" by blast
    consider "\<not> bit b 7" | "bit b 7" "unat b mod 128 = 0"
      | "bit b 7" "0 < unat b mod 128" "unat b mod 128 \<le> 4" | "bit b 7" "4 < unat b mod 128"
      by linarith
    then show ?thesis
      using g element_short [OF ok view, of ber_ok] element_indefinite [OF ok view, of ber_ok]
        element_long [OF ok view, of _ ber_ok] element_too_long [OF ok view, of ber_ok]
      by cases (auto split: if_splits)
  qed
qed

interpretation any_element: consuming cbs_view cbs_ok CBS_get_any_asn1_element
proof (rule consuming_drop)
  fix cbs assume ok: "cbs_ok cbs"
  show "\<exists>n \<le> cbs_len cbs. snd (CBS_get_any_asn1_element cbs) = cbs_drop n cbs"
  proof (cases "CBS_get_any_asn1_element cbs")
    case (Pair r cbs')
    show ?thesis
    proof (cases r)
      case None
      with Pair element_fails [OF ok, of False cbs'] show ?thesis
        by (intro exI [of _ 0]) (simp add: CBS_get_any_asn1_element_def)
    next
      case (Some x)
      obtain out tag hl where "x = (out, tag, hl)" by (cases x)
      with Pair Some element_sound [OF ok, of out tag hl cbs'] show ?thesis
        by (auto simp: add.commute)
    qed
  qed
qed

section \<open>Typed elements\<close>

lemma skip_out_view:
  "skip_out n out cbs = (if cbs_len out < n then (None, cbs) else (Some (cbs_drop n out), cbs))"
  by (simp add: skip_out_def CBS_skip_def andthen_def cbs_get_view ret_def)

text \<open>What a caller of \<open>CBS_get_asn1\<close> sees: the body in its own string, and the rest.\<close>

lemma get_asn1_complete:
  assumes ok: "cbs_ok cbs" and view: "cbs_view cbs = der_element tag body @ rest"
    and small: "length body < 2 ^ 32"
  shows "\<exists>out. CBS_get_asn1 tag cbs = (Some out, cbs_drop (length (der_element tag body)) cbs) \<and>
     cbs_ok out \<and> cbs_view out = body"
proof -
  let ?hl = "length (der_header tag (length body))"
  have v: "cbs_view cbs = der_header tag (length body) @ body @ rest" using view by (simp add: der_element_def)
  have len: "?hl + length body \<le> cbs_len cbs" using length_cbs_view [OF ok] v by simp
  then have n: "length body + ?hl \<le> length (cbs_data cbs)" "length body + ?hl < 2 ^ 63"
    using ok by (auto simp: cbs_ok_def)
  let ?out = "CBS_init (cbs_data cbs) (length body + ?hl)"
  have o: "cbs_ok ?out" by (rule cbs_init_ok(1) [OF n])
  have "take (length body + ?hl) (cbs_view cbs) = take (length body + ?hl) (cbs_data cbs)"
    using len by (simp add: cbs_view_def min_absorb1)
  then have vo: "cbs_view ?out = der_header tag (length body) @ body"
    using v by simp
  have "CBS_get_asn1 tag cbs = (Some (cbs_drop ?hl ?out), cbs_drop (length (der_element tag body)) cbs)"
    using element_complete [OF ok v small, of False]
    by (simp add: CBS_get_asn1_def cbs_get_asn1_def CBS_get_any_asn1_element_def andthen_def skip_out_view
        der_element_def add.commute)
  moreover have "cbs_ok (cbs_drop ?hl ?out)" using o by simp
  moreover have "cbs_view (cbs_drop ?hl ?out) = body" using vo by simp
  ultimately show ?thesis by blast
qed

lemma get_asn1_sound:
  assumes ok: "cbs_ok cbs" and g: "CBS_get_asn1 tag cbs = (Some out, cbs')"
  shows "cbs_view cbs = der_element tag (cbs_view out) @ cbs_view cbs'" and "cbs_ok out"
    and "length (cbs_view out) < 2 ^ 32" and "cbs' = cbs_drop (length (der_element tag (cbs_view out))) cbs"
proof -
  from g obtain out1 hl cbs1 where e: "CBS_get_any_asn1_element cbs = (Some (out1, tag, hl), cbs1)"
    and s: "skip_out hl out1 cbs1 = (Some out, cbs')"
    by (auto simp: CBS_get_asn1_def cbs_get_asn1_def andthen_Some split: if_splits)
  from element_sound [OF ok e] obtain body where b: "cbs_view cbs = der_header tag (length body) @ body @ cbs_view cbs1"
    "length body < 2 ^ 32" "hl = length (der_header tag (length body))"
    "hl + length body \<le> cbs_len cbs" "out1 = CBS_init (cbs_data cbs) (length body + hl)"
    "cbs1 = cbs_drop (length body + hl) cbs" by blast
  have out: "out = cbs_drop hl out1" "cbs' = cbs1" using s by (auto simp: skip_out_view split: if_splits)
  have v: "cbs_view cbs = der_element tag body @ cbs_view cbs1" using b(1) by (simp add: der_element_def)
  from get_asn1_complete [OF ok v b(2)] g have "cbs_view out = body" "cbs_ok out"
      "cbs' = cbs_drop (length (der_element tag body)) cbs" by auto
  with v b(2) out(2) show "cbs_view cbs = der_element tag (cbs_view out) @ cbs_view cbs'" and "cbs_ok out"
    and "length (cbs_view out) < 2 ^ 32" and "cbs' = cbs_drop (length (der_element tag (cbs_view out))) cbs"
    by blast+
qed

lemma der_element_le: "cbs_ok cbs \<Longrightarrow> cbs_view cbs = der_element tag body @ rest \<Longrightarrow>
   length (der_element tag body) \<le> cbs_len cbs"
  using length_cbs_view [of cbs] by simp

section \<open>Integers\<close>

lemma be_val_Cons: "be_val (b # bs) = unat b * 256 ^ length bs + be_val bs"
proof (induction bs rule: rev_induct)
  case (snoc c bs)
  have "be_val ((b # bs) @ [c]) = 256 * be_val (b # bs) + unat c" by (rule be_val_snoc)
  with snoc show ?case by (simp add: algebra_simps)
qed (simp add: be_val_def)

lemma uint64_loop_val:
  "uint64_loop acc bs =
     (if unat acc * 256 ^ length bs + be_val bs < 2 ^ 64
      then Some (of_nat (unat acc * 256 ^ length bs + be_val bs)) else None)"
proof (induction bs arbitrary: acc)
  case Nil
  have "unat acc < 2 ^ 64" using unsigned_less [of acc, where 'a = nat] by simp
  then show ?case by simp
next
  case (Cons b bs)
  have b: "unat b < 256" using unsigned_less [of b, where 'a = nat] by simp
  show ?case
  proof (cases "drop_bit 56 acc = 0")
    case True
    then have acc: "unat acc < 2 ^ 56" by (simp add: drop_bit_0_iff)
    have "unat (push_bit 8 acc OR ucast b) = unat acc * 2 ^ 8 + unat b"
      by (subst unat_push_or) (use acc b in simp_all)
    then have "unat (push_bit 8 acc OR ucast b) * 256 ^ length bs + be_val bs =
        unat acc * 256 ^ length (b # bs) + be_val (b # bs)"
      by (simp only: be_val_Cons list.size) (simp add: algebra_simps)
    then show ?thesis using Cons.IH [of "push_bit 8 acc OR ucast b"] True by simp
  next
    case False
    then have "2 ^ 56 \<le> unat acc" by (simp add: drop_bit_0_iff)
    moreover have "(1 :: nat) \<le> 256 ^ length bs" by simp
    ultimately have "(2 ^ 56 * 256) * 1 \<le> (unat acc * 256) * 256 ^ length bs" by (intro mult_le_mono) simp_all
    then have "\<not> unat acc * 256 ^ length (b # bs) + be_val (b # bs) < 2 ^ 64" by simp
    with False show ?thesis by simp
  qed
qed

text \<open>The contents of a non-negative INTEGER: minimal, with a zero octet in front when the sign bit
  would be set.\<close>

definition uint_body :: "nat \<Rightarrow> byte list" where
  "uint_body n =
     (let bs = be_bytes (max 1 (byte_count n)) n in if bit (hd bs) 7 then 0 # bs else bs)"

definition uint_minimal :: "byte list \<Rightarrow> bool" where
  "uint_minimal bs \<longleftrightarrow>
     bs \<noteq> [] \<and> bs ! 0 AND 0x80 = 0 \<and> \<not> (bs ! 0 = 0 \<and> 1 < length bs \<and> bs ! 1 AND 0x80 = 0)"

lemma byte_count_0 [simp]: "byte_count 0 = 0"
  by (simp add: byte_count.simps)

lemma be_bytes_count:
  assumes "bs \<noteq> []" and "hd bs \<noteq> 0 \<or> length bs = 1"
  shows "be_bytes (max 1 (byte_count (be_val bs))) (be_val bs) = bs"
proof -
  obtain b bs' where bs: "bs = b # bs'" using assms(1) by (cases bs) auto
  have "max 1 (byte_count (be_val bs)) = length bs"
  proof (cases "b = 0")
    case True
    with assms(2) bs have "bs = [0]" by simp
    then have "be_val bs = 0" by (simp add: be_val_def)
    with \<open>bs = [0]\<close> show ?thesis by simp
  next
    case False
    then have "1 \<le> unat b" by (simp add: unat_gt_0 Suc_le_eq)
    then have "1 * 256 ^ length bs' \<le> unat b * 256 ^ length bs'" by (rule mult_le_mono1)
    then have "256 ^ length bs' \<le> be_val bs" unfolding bs be_val_Cons by linarith
    then have "256 ^ (length bs - 1) \<le> be_val bs" by (simp add: bs)
    moreover have "be_val bs < 256 ^ length bs" by (rule be_val_bound)
    ultimately have "byte_count (be_val bs) = length bs" using byte_count_iff [of "length bs"] bs by simp
    with bs show ?thesis by simp
  qed
  with be_bytes_be_val [of bs] show ?thesis by simp
qed

lemma uint_minimal_iff: "uint_minimal bs \<Longrightarrow> uint_body (be_val bs) = bs"
proof -
  assume m: "uint_minimal bs"
  then obtain b bs' where bs: "bs = b # bs'" by (cases bs) (auto simp: uint_minimal_def)
  show ?thesis
  proof (cases "b = 0 \<and> bs' \<noteq> []")
    case True
    then obtain c bs'' where bs': "bs' = c # bs''" by (cases bs') auto
    from m True have c: "bit c 7" by (auto simp: uint_minimal_def bs bs' and_80)
    then have "hd bs' \<noteq> 0" by (auto simp: bs' byte_top)
    with be_bytes_count [of bs'] True have "be_bytes (max 1 (byte_count (be_val bs'))) (be_val bs') = bs'" by simp
    moreover have "be_val bs = be_val bs'" using True by (simp add: bs be_val_Cons)
    ultimately show ?thesis using c True by (simp add: uint_body_def bs bs')
  next
    case False
    then have "hd bs \<noteq> 0 \<or> length bs = 1" by (auto simp: bs)
    with be_bytes_count [of bs] have "be_bytes (max 1 (byte_count (be_val bs))) (be_val bs) = bs" by (simp add: bs)
    with m show ?thesis by (simp add: uint_body_def uint_minimal_def bs and_80)
  qed
qed

lemma be_bytes_hd: "be_bytes (Suc k) n ! 0 = of_nat (n div 256 ^ k)"
proof (induction k arbitrary: n)
  case (Suc k)
  have "be_bytes (Suc (Suc k)) n ! 0 = be_bytes (Suc k) (n div 256) ! 0"
    by (subst be_bytes.simps) (simp only: nth_append length_be_bytes zero_less_Suc if_True)
  also have "\<dots> = of_nat (n div 256 div 256 ^ k)" by (rule Suc.IH)
  also have "n div 256 div 256 ^ k = n div 256 ^ Suc k" by (simp add: div_mult2_eq [symmetric])
  finally show ?case .
qed simp

lemma uint_body_val: "be_val (uint_body n) = n"
proof -
  let ?k = "max 1 (byte_count n)"
  have "n < 256 ^ ?k"
    using byte_count_iff [of "byte_count n" n] by (cases "byte_count n = 0") (auto simp: byte_count.simps [of n] split: if_splits)
  then have v: "be_val (be_bytes ?k n) = n" by (simp add: be_val_be_bytes)
  then have "be_val (0 # be_bytes ?k n) = n" by (simp add: be_val_Cons)
  with v show ?thesis by (simp add: uint_body_def Let_def)
qed

lemma uint_body_minimal: "uint_minimal (uint_body n)"
proof -
  let ?k = "max 1 (byte_count n)"
  obtain k where k: "?k = Suc k" by (cases "?k") auto
  let ?bs = "be_bytes ?k n"
  have ne: "?bs \<noteq> []" and hd: "hd ?bs = ?bs ! 0" and len: "length ?bs = Suc k"
    using k length_be_bytes [of ?k n] by (auto simp: hd_conv_nth simp del: length_be_bytes)
  have nz: "?bs ! 0 \<noteq> 0 \<or> k = 0"
  proof (cases "k = 0")
    case False
    then have "byte_count n = Suc k" using k by simp
    then have r: "256 ^ k \<le> n" "n < 256 ^ Suc k" using byte_count_iff [of "Suc k" n] by simp_all
    have "1 \<le> n div 256 ^ k" using r(1) by (simp add: Suc_le_eq div_greater_zero_iff)
    moreover have "n div 256 ^ k < 256" using r(2) by (simp add: less_mult_imp_div_less)
    moreover have "unat (?bs ! 0) = n div 256 ^ k mod 256"
      unfolding k be_bytes_hd by (rule unat_byte_of_nat)
    ultimately have "unat (?bs ! 0) \<noteq> unat (0 :: byte)" by simp
    then show ?thesis by auto
  qed simp
  show ?thesis
  proof (cases "bit (hd ?bs) 7")
    case True
    then have "uint_body n = 0 # ?bs" by (simp add: uint_body_def Let_def)
    with True ne hd show ?thesis by (simp add: uint_minimal_def and_80)
  next
    case False
    then have "uint_body n = ?bs" by (simp add: uint_body_def Let_def)
    with False ne hd nz len show ?thesis by (simp add: uint_minimal_def and_80)
  qed
qed

text \<open>What the parser makes of the contents.\<close>

definition uint_value :: "byte list \<Rightarrow> u64 option" where
  "uint_value bs = (if uint_minimal bs \<and> be_val bs < 2 ^ 64 then Some (of_nat (be_val bs)) else None)"

lemma get_uint64_eq:
  assumes a: "CBS_get_asn1 CBS_ASN1_INTEGER cbs = (Some out, cbs')" and ok: "cbs_ok out"
  shows "CBS_get_asn1_uint64 cbs = (uint_value (cbs_view out), cbs')"
proof (cases "cbs_len out = 0")
  case True
  then show ?thesis
    by (simp add: CBS_get_asn1_uint64_def andthen_def a uint_value_def uint_minimal_def cbs_view_def)
next
  case False
  then have v: "cbs_view out ! 0 = cbs_data out ! 0" "1 < cbs_len out \<Longrightarrow> cbs_view out ! 1 = cbs_data out ! 1"
    by (simp_all add: cbs_view_def)
  have "uint64_loop 0 bs = (if be_val bs < 2 ^ 64 then Some (of_nat (be_val bs)) else None)" for bs
    using uint64_loop_val [of 0 bs] by simp
  then show ?thesis
    using False v length_cbs_view [OF ok]
    by (auto simp: CBS_get_asn1_uint64_def andthen_def a Let_def uint_value_def uint_minimal_def
        cbs_view_def [symmetric])
qed

lemma uint_value_body: "uint_value bs = Some v \<longleftrightarrow> bs = uint_body (unat v)"
proof
  assume "uint_value bs = Some v"
  then have m: "uint_minimal bs" "be_val bs < 2 ^ 64" "v = of_nat (be_val bs)"
    by (auto simp: uint_value_def split: if_splits)
  then have "unat v = be_val bs" by (simp add: unat_of_nat)
  with uint_minimal_iff [OF m(1)] show "bs = uint_body (unat v)" by simp
next
  assume "bs = uint_body (unat v)"
  moreover have "unat v < 2 ^ 64" using unsigned_less [of v, where 'a = nat] by simp
  ultimately show "uint_value bs = Some v"
    by (simp add: uint_value_def uint_body_minimal uint_body_val)
qed

lemma uint_body_length: "unat (v :: u64) = n \<Longrightarrow> length (uint_body n) \<le> 9"
proof -
  assume "unat v = n"
  then have n: "n < 256 ^ 8" using unsigned_less [of v, where 'a = nat] by simp
  have "\<not> 9 \<le> byte_count n"
  proof
    assume k: "9 \<le> byte_count n"
    then have "(256 :: nat) ^ 8 \<le> 256 ^ (byte_count n - 1)" by (intro power_increasing) simp_all
    with byte_count_iff [of "byte_count n" n] k n show False by simp
  qed
  then show ?thesis by (simp add: uint_body_def Let_def)
qed

lemma get_uint64_sound:
  assumes ok: "cbs_ok cbs" and g: "CBS_get_asn1_uint64 cbs = (Some v, cbs')"
  shows "cbs_view cbs = der_element CBS_ASN1_INTEGER (uint_body (unat v)) @ cbs_view cbs'"
proof -
  from g obtain out where a: "CBS_get_asn1 CBS_ASN1_INTEGER cbs = (Some out, cbs')"
    by (auto simp: CBS_get_asn1_uint64_def andthen_Some Let_def split: if_splits)
  note s = get_asn1_sound [OF ok a]
  have "uint_value (cbs_view out) = Some v" using g get_uint64_eq [OF a s(2)] by simp
  then have "cbs_view out = uint_body (unat v)" by (simp only: uint_value_body)
  with s(1) show ?thesis by (simp only:)
qed

lemma get_uint64_complete:
  assumes ok: "cbs_ok cbs" and view: "cbs_view cbs = der_element CBS_ASN1_INTEGER (uint_body (unat v)) @ rest"
  shows "CBS_get_asn1_uint64 cbs =
      (Some v, cbs_drop (length (der_element CBS_ASN1_INTEGER (uint_body (unat v)))) cbs)"
    and "cbs_view (cbs_drop (length (der_element CBS_ASN1_INTEGER (uint_body (unat v)))) cbs) = rest"
proof -
  have "length (uint_body (unat v)) < 2 ^ 32" using uint_body_length [of v] by simp
  from get_asn1_complete [OF ok view this] obtain out where
    "CBS_get_asn1 CBS_ASN1_INTEGER cbs =
       (Some out, cbs_drop (length (der_element CBS_ASN1_INTEGER (uint_body (unat v)))) cbs)"
    "cbs_ok out" "cbs_view out = uint_body (unat v)" by blast
  moreover have "uint_value (uint_body (unat v)) = Some v" by (simp add: uint_value_body)
  ultimately show "CBS_get_asn1_uint64 cbs =
      (Some v, cbs_drop (length (der_element CBS_ASN1_INTEGER (uint_body (unat v)))) cbs)"
    by (simp add: get_uint64_eq)
  show "cbs_view (cbs_drop (length (der_element CBS_ASN1_INTEGER (uint_body (unat v)))) cbs) = rest"
    using view by simp
qed

section \<open>Properties\<close>

text \<open>The base-128 parser accepts exactly the minimal encodings of 64-bit values: no leading
  zero digit, no value that overflows, and every encoding of a value that fits.\<close>

theorem base128_exact:
  assumes "cbs_ok cbs"
  shows "(\<exists>cbs'. parse_base128_integer cbs = (Some r, cbs') \<and> cbs_view cbs' = rest) \<longleftrightarrow>
     cbs_view cbs = base128 (unat r) @ rest"
proof
  assume "\<exists>cbs'. parse_base128_integer cbs = (Some r, cbs') \<and> cbs_view cbs' = rest"
  with parse_base128_sound(1) [OF _ assms] show "cbs_view cbs = base128 (unat r) @ rest" by blast
next
  assume v: "cbs_view cbs = base128 (unat r) @ rest"
  have "unat r < 2 ^ 64" using unsigned_less [of r, where 'a = nat] by simp
  from parse_base128_complete [OF assms v this] v
  show "\<exists>cbs'. parse_base128_integer cbs = (Some r, cbs') \<and> cbs_view cbs' = rest" by simp
qed

theorem base128_exact_witness:
  "\<exists>cbs'. parse_base128_integer (CBS_init [0x86, 0x8D, 0x20, 7] 4) = (Some 0x186A0, cbs') \<and> cbs_view cbs' = [7]"
proof -
  have "base128 (unat (0x186A0 :: u64)) = [0x86, 0x8D] @ [0x20]"
    by (simp add: base128_def base128_hi.simps)
  with base128_exact [of "CBS_init [0x86, 0x8D, 0x20, 7] 4" "0x186A0" "[7]"] show ?thesis by simp
qed

text \<open>C11: \<open>CBS_get_asn1\<close> accepts exactly the distinguished encoding of an element with the given
  tag and a body shorter than \<open>2 ^ 32\<close>: the output is its body, and the string is left behind it.\<close>

theorem get_asn1_exact:
  assumes "cbs_ok cbs"
  shows "(\<exists>out cbs'. CBS_get_asn1 tag cbs = (Some out, cbs') \<and> cbs_ok out \<and> cbs_view out = body \<and>
       cbs_ok cbs' \<and> cbs_view cbs' = rest) \<longleftrightarrow>
     cbs_view cbs = der_element tag body @ rest \<and> length body < 2 ^ 32"
proof
  assume "\<exists>out cbs'. CBS_get_asn1 tag cbs = (Some out, cbs') \<and> cbs_ok out \<and> cbs_view out = body \<and>
       cbs_ok cbs' \<and> cbs_view cbs' = rest"
  with get_asn1_sound(1,3) [OF assms] show "cbs_view cbs = der_element tag body @ rest \<and> length body < 2 ^ 32"
    by metis
next
  assume v: "cbs_view cbs = der_element tag body @ rest \<and> length body < 2 ^ 32"
  with get_asn1_complete [OF assms, of tag body rest] der_element_le [OF assms, of tag body rest] assms
  show "\<exists>out cbs'. CBS_get_asn1 tag cbs = (Some out, cbs') \<and> cbs_ok out \<and> cbs_view out = body \<and>
       cbs_ok cbs' \<and> cbs_view cbs' = rest"
    by fastforce
qed

theorem get_asn1_exact_witness:
  "\<exists>out cbs'. CBS_get_asn1 CBS_ASN1_OCTETSTRING (CBS_init [4, 2, 65, 66, 5] 5) = (Some out, cbs') \<and> cbs_ok out \<and>
     cbs_view out = [65, 66] \<and> cbs_ok cbs' \<and> cbs_view cbs' = [5]"
proof -
  have "der_element CBS_ASN1_OCTETSTRING [65, 66] = [4, 2, 65, 66]"
    by (simp add: der_element_def der_header_def der_tag_def der_len_def tag_number_def tag_bits_def
        CBS_ASN1_OCTETSTRING_def CBS_ASN1_TAG_NUMBER_MASK_def CBS_ASN1_TAG_SHIFT_def)
  with get_asn1_exact [of "CBS_init [4, 2, 65, 66, 5] 5" CBS_ASN1_OCTETSTRING "[65, 66]" "[5]"]
  show ?thesis by simp
qed

text \<open>C21: \<open>CBS_get_asn1_uint64\<close> returns \<open>v\<close> exactly on the INTEGER element whose contents
  are the minimal non-negative encoding of \<open>v\<close>.\<close>

theorem get_uint64_exact:
  assumes "cbs_ok cbs"
  shows "(\<exists>cbs'. CBS_get_asn1_uint64 cbs = (Some v, cbs') \<and> cbs_view cbs' = rest) \<longleftrightarrow>
     cbs_view cbs = der_element CBS_ASN1_INTEGER (uint_body (unat v)) @ rest"
  using get_uint64_sound [OF assms] get_uint64_complete [OF assms] by auto

theorem get_uint64_exact_witness:
  "\<exists>cbs'. CBS_get_asn1_uint64 (CBS_init [2, 2, 0, 0x80] 4) = (Some 0x80, cbs') \<and> cbs_view cbs' = []"
proof -
  have "uint_body (unat (0x80 :: u64)) = [0, 0x80]"
    by (simp add: uint_body_def byte_count.simps numeral_eq_Suc [of num.One] byte_top)
  then have "der_element CBS_ASN1_INTEGER (uint_body (unat (0x80 :: u64))) = [2, 2, 0, 0x80]"
    by (simp add: der_element_def der_header_def der_tag_def der_len_def tag_number_def tag_bits_def
        CBS_ASN1_INTEGER_def CBS_ASN1_TAG_NUMBER_MASK_def CBS_ASN1_TAG_SHIFT_def)
  with get_uint64_exact [of "CBS_init [2, 2, 0, 0x80] 4" "0x80" "[]"] show ?thesis by simp
qed

end
