(* ===== verification/CbsFields.thy ===== *)
theory CbsFields
  imports Cbs
begin

text \<open>
  Properties of the typed and optional fields of the DER parser: booleans, optional elements, bit
  strings, length-prefixed strings, and the header length of BER elements.
\<close>

section \<open>Fixed-width integers and prefixes\<close>

lemma get_uint_bytes:
  assumes ok: "cbs_ok cbs" and view: "cbs_view cbs = be_bytes k n @ rest" and k: "k \<le> 4" and n: "n < 256 ^ k"
  shows "cbs_get_u k cbs = (Some (of_nat n), cbs_drop k cbs)"
proof -
  have "k \<le> cbs_len cbs" using length_cbs_view [OF ok] view by simp
  moreover have "unat (be_word (be_bytes k n)) = n"
    using k n by (subst be_word_val) (simp_all add: be_val_be_bytes)
  ultimately show ?thesis
    using view by (simp add: cbs_get_u_view [OF ok] of_nat_unat_eq)
qed

text \<open>A string behind a big-endian length of \<open>k\<close> bytes is returned whole, the input is left
  behind it, and an input that is shorter than its prefix says is refused.\<close>

theorem length_prefixed_exact:
  assumes ok: "cbs_ok cbs" and k: "0 < k" "k \<le> 4" and view: "cbs_view cbs = be_bytes k n @ rest" and n: "n < 256 ^ k"
  shows "if n \<le> length rest
     then \<exists>out cbs'. cbs_get_length_prefixed k cbs = (Some out, cbs') \<and> cbs_ok out \<and>
            cbs_view out = take n rest \<and> cbs_ok cbs' \<and> cbs_view cbs' = drop n rest
     else fst (cbs_get_length_prefixed k cbs) = None"
proof -
  have len: "cbs_len cbs = k + length rest" using length_cbs_view [OF ok] view by simp
  have "n < 256 ^ 4"
    using n power_increasing [of k 4 "256 :: nat"] k by (simp add: order_less_le_trans)
  then have u: "unat (of_nat n :: u32) = n" by (simp add: unat_of_nat)
  have lp: "cbs_get_length_prefixed k cbs = CBS_get_bytes n (cbs_drop k cbs)"
    using get_uint_bytes [OF ok view k(2) n] u by (simp add: cbs_get_length_prefixed_def andthen_def)
  show ?thesis
  proof (cases "n \<le> length rest")
    case True
    have okk: "cbs_ok (cbs_drop k cbs)" using ok len by simp
    then have n': "n \<le> length (cbs_data (cbs_drop k cbs))" "n < 2 ^ 63"
      using True len by (auto simp: cbs_ok_def)
    let ?out = "CBS_init (cbs_data (cbs_drop k cbs)) n"
    have "take n (cbs_view (cbs_drop k cbs)) = take n (cbs_data (cbs_drop k cbs))"
      using True len by (simp add: cbs_view_def min_absorb1)
    then have "cbs_view ?out = take n rest" using view by simp
    moreover have "cbs_ok ?out" by (rule cbs_init_ok(1) [OF n'])
    moreover have "CBS_get_bytes n (cbs_drop k cbs) = (Some ?out, cbs_drop (k + n) cbs)"
      using True len by (simp add: cbs_get_bytes_view)
    moreover have "cbs_ok (cbs_drop (k + n) cbs)" "cbs_view (cbs_drop (k + n) cbs) = drop n rest"
      using ok len True view by simp_all
    ultimately show ?thesis using True lp by simp
  next
    case False
    with lp len show ?thesis by (simp add: cbs_get_bytes_view)
  qed
qed

theorem length_prefixed_exact_witness:
  "\<exists>out cbs'. cbs_get_length_prefixed 2 (CBS_init [0, 3, 1, 2, 3, 4] 6) = (Some out, cbs') \<and> cbs_ok out \<and>
     cbs_view out = [1, 2, 3] \<and> cbs_ok cbs' \<and> cbs_view cbs' = [4]"
proof -
  have "be_bytes 2 3 = [0, 3]" by (simp add: numeral_2_eq_2)
  moreover have "take 3 [1, 2, 3, 4 :: byte] = [1, 2, 3]" "drop 3 [1, 2, 3, 4 :: byte] = [4]" by simp_all
  ultimately show ?thesis
    using length_prefixed_exact [of "CBS_init [0, 3, 1, 2, 3, 4] 6" 2 3 "[1, 2, 3, 4]"] by simp
qed

section \<open>Booleans\<close>

definition bool_body :: "bool \<Rightarrow> byte list" where
  "bool_body b = [if b then 0xFF else 0]"

lemma get_bool_eq:
  assumes a: "CBS_get_asn1 CBS_ASN1_BOOLEAN cbs = (Some out, cbs')" and ok: "cbs_ok out"
  shows "CBS_get_asn1_bool cbs = (Some b, cbs'') \<longleftrightarrow> cbs_view out = bool_body b \<and> cbs'' = cbs'"
proof (cases "cbs_view out")
  case Nil
  then have "cbs_len out = 0" using length_cbs_view [OF ok] by simp
  with Nil show ?thesis by (simp add: CBS_get_asn1_bool_def andthen_def a bool_body_def fail_def)
next
  case (Cons x xs)
  then have "cbs_len out = Suc (length xs)" "hd (cbs_data out) = x"
    using length_cbs_view [OF ok] by (simp_all add: cbs_view_def) (metis hd_take list.sel(1) take_eq_Nil2
        list.distinct(1) zero_less_Suc)
  with Cons show ?thesis
    by (auto simp: CBS_get_asn1_bool_def andthen_def a bool_body_def fail_def ret_def Let_def)
qed

text \<open>\<open>CBS_get_asn1_bool\<close> accepts exactly the two distinguished encodings of a BOOLEAN.\<close>

theorem get_bool_exact:
  assumes "cbs_ok cbs"
  shows "(\<exists>cbs'. CBS_get_asn1_bool cbs = (Some b, cbs') \<and> cbs_view cbs' = rest) \<longleftrightarrow>
     cbs_view cbs = der_element CBS_ASN1_BOOLEAN (bool_body b) @ rest"
proof
  assume "\<exists>cbs'. CBS_get_asn1_bool cbs = (Some b, cbs') \<and> cbs_view cbs' = rest"
  then obtain cbs' where g: "CBS_get_asn1_bool cbs = (Some b, cbs')" "cbs_view cbs' = rest" by blast
  then obtain out cbs1 where a: "CBS_get_asn1 CBS_ASN1_BOOLEAN cbs = (Some out, cbs1)"
    by (auto simp: CBS_get_asn1_bool_def andthen_Some)
  note s = get_asn1_sound [OF assms a]
  from g(1) get_bool_eq [OF a s(2), of b cbs'] have "cbs_view out = bool_body b" "cbs' = cbs1" by simp_all
  with s(1) g(2) show "cbs_view cbs = der_element CBS_ASN1_BOOLEAN (bool_body b) @ rest" by simp
next
  assume view: "cbs_view cbs = der_element CBS_ASN1_BOOLEAN (bool_body b) @ rest"
  have "length (bool_body b) < 2 ^ 32" by (simp add: bool_body_def)
  from get_asn1_complete [OF assms view this] obtain out where
    a: "CBS_get_asn1 CBS_ASN1_BOOLEAN cbs =
       (Some out, cbs_drop (length (der_element CBS_ASN1_BOOLEAN (bool_body b))) cbs)"
    and o: "cbs_ok out" "cbs_view out = bool_body b" by blast
  from get_bool_eq [OF a o(1)] o(2) view
  show "\<exists>cbs'. CBS_get_asn1_bool cbs = (Some b, cbs') \<and> cbs_view cbs' = rest" by simp
qed

lemmas der_defs = der_element_def der_header_def der_tag_def der_len_def tag_number_def tag_bits_def
  CBS_ASN1_TAG_NUMBER_MASK_def CBS_ASN1_TAG_SHIFT_def

theorem get_bool_exact_witness:
  "\<exists>cbs'. CBS_get_asn1_bool (CBS_init [1, 1, 0xFF, 9] 4) = (Some True, cbs') \<and> cbs_view cbs' = [9]"
proof -
  have "der_element CBS_ASN1_BOOLEAN (bool_body True) = [1, 1, 0xFF]"
    by (simp add: der_defs CBS_ASN1_BOOLEAN_def bool_body_def)
  with get_bool_exact [of "CBS_init [1, 1, 0xFF, 9] 4" True "[9]"] show ?thesis by simp
qed

section \<open>Optional elements\<close>

lemma peek_tag_element:
  assumes ok: "cbs_ok cbs" and view: "cbs_view cbs = der_element tag' body @ rest"
  shows "CBS_peek_asn1_tag cbs tag \<longleftrightarrow> tag = tag'"
proof -
  have v: "cbs_view cbs = der_tag tag' @ (der_len (length body) @ body @ rest)"
    using view by (simp add: der_element_def der_header_def)
  have "0 < length (cbs_view cbs)" unfolding v using length_der_tag [of tag'] by simp
  then have "\<not> cbs_len cbs < 1" using length_cbs_view [OF ok] by simp
  with parse_asn1_tag_complete [OF ok v] show ?thesis by (auto simp: CBS_peek_asn1_tag_def)
qed

text \<open>An optional element is taken exactly when the next element has its tag; otherwise the
  string is left alone and the caller's default is used.\<close>

theorem optional_uint64:
  assumes ok: "cbs_ok cbs" and view: "cbs_view cbs = der_element tag' body @ rest" and small: "length body < 2 ^ 32"
  shows "if tag \<noteq> tag' then CBS_get_optional_asn1_uint64 tag d cbs = (Some d, cbs)
     else \<forall>v cbs'. CBS_get_optional_asn1_uint64 tag d cbs = (Some v, cbs') \<longleftrightarrow>
       body = der_element CBS_ASN1_INTEGER (uint_body (unat v)) \<and>
       cbs' = cbs_drop (length (der_element tag body)) cbs"
proof (cases "tag = tag'")
  case False
  then show ?thesis
    using peek_tag_element [OF ok view, of tag]
    by (simp add: CBS_get_optional_asn1_uint64_def CBS_get_optional_asn1_def andthen_def ret_def)
next
  case True
  then obtain child where a: "CBS_get_asn1 tag cbs = (Some child, cbs_drop (length (der_element tag body)) cbs)"
    and c: "cbs_ok child" "cbs_view child = body"
    using get_asn1_complete [OF ok view small] by blast
  let ?cbs' = "cbs_drop (length (der_element tag body)) cbs"
  have o: "CBS_get_optional_asn1_uint64 tag d cbs =
      (case CBS_get_asn1_uint64 child of
         (None, child') \<Rightarrow> (None, ?cbs')
       | (Some out, child') \<Rightarrow> (if cbs_len child' \<noteq> 0 then None else Some out, ?cbs'))"
    using True peek_tag_element [OF ok view, of tag] a
    by (simp add: CBS_get_optional_asn1_uint64_def CBS_get_optional_asn1_def andthen_def ret_def fail_def
        split: prod.split option.split)
  have "CBS_get_optional_asn1_uint64 tag d cbs = (Some v, cbs') \<longleftrightarrow>
      (\<exists>child'. CBS_get_asn1_uint64 child = (Some v, child') \<and> cbs_len child' = 0) \<and> cbs' = ?cbs'" for v cbs'
    unfolding o by (auto split: prod.split option.split)
  moreover have "(\<exists>child'. CBS_get_asn1_uint64 child = (Some v, child') \<and> cbs_len child' = 0) \<longleftrightarrow>
      body = der_element CBS_ASN1_INTEGER (uint_body (unat v))" for v
  proof
    assume "\<exists>child'. CBS_get_asn1_uint64 child = (Some v, child') \<and> cbs_len child' = 0"
    then obtain child' where g: "CBS_get_asn1_uint64 child = (Some v, child')" "cbs_len child' = 0" by blast
    from g(2) have "cbs_view child' = []" by (simp add: cbs_view_def)
    with g(1) get_uint64_sound [OF c(1), of v child'] c(2)
    show "body = der_element CBS_ASN1_INTEGER (uint_body (unat v))" by simp
  next
    assume "body = der_element CBS_ASN1_INTEGER (uint_body (unat v))"
    then have "cbs_view child = der_element CBS_ASN1_INTEGER (uint_body (unat v)) @ []" using c(2) by simp
    from get_uint64_complete [OF c(1) this] length_cbs_view [OF c(1)] c(2) this
    show "\<exists>child'. CBS_get_asn1_uint64 child = (Some v, child') \<and> cbs_len child' = 0" by simp
  qed
  ultimately show ?thesis using True by simp
qed

theorem optional_uint64_witness:
  "CBS_get_optional_asn1_uint64 0xA0000000 7 (CBS_init [0xA0, 3, 2, 1, 5, 9] 6) =
     (Some 5, cbs_drop 5 (CBS_init [0xA0, 3, 2, 1, 5, 9] 6))"
proof -
  let ?cbs = "CBS_init [0xA0, 3, 2, 1, 5, 9] 6"
  have e: "der_element 0xA0000000 [2, 1, 5] = [0xA0, 3, 2, 1, 5]"
    by (simp add: der_defs der_element_def der_header_def der_tag_def tag_number_def tag_bits_def
        CBS_ASN1_TAG_NUMBER_MASK_def CBS_ASN1_TAG_SHIFT_def)
  have "uint_body (unat (5 :: u64)) = [5]"
    by (simp add: uint_body_def byte_count.simps byte_top)
  then have i: "der_element CBS_ASN1_INTEGER (uint_body (unat (5 :: u64))) = [2, 1, 5]"
    by (simp add: der_defs CBS_ASN1_INTEGER_def)
  have five: "Suc (Suc (Suc (Suc (Suc 0)))) = 5" by simp
  from optional_uint64 [of ?cbs "0xA0000000" "[2, 1, 5]" "[9]" "0xA0000000" 7] e
  have "\<forall>v cbs'. CBS_get_optional_asn1_uint64 0xA0000000 7 ?cbs = (Some v, cbs') \<longleftrightarrow>
     [2, 1, 5] = der_element CBS_ASN1_INTEGER (uint_body (unat v)) \<and> cbs' = cbs_drop 5 ?cbs"
    by (simp add: five)
  with i show ?thesis by simp
qed

section \<open>Bit strings\<close>

text \<open>The bits of a BIT STRING, most significant bit of the first octet first.\<close>

definition bits_of :: "byte list \<Rightarrow> bool list" where
  "bits_of bs = concat (map (\<lambda>b. map (bit b) [7, 6, 5, 4, 3, 2, 1, 0]) bs)"

lemma length_bits_of [simp]: "length (bits_of bs) = 8 * length bs"
  by (induction bs) (simp_all add: bits_of_def)

lemma bits_of_Cons: "bits_of (b # bs) = map (bit b) [7, 6, 5, 4, 3, 2, 1, 0] @ bits_of bs"
  by (simp add: bits_of_def)

lemma nth_eight: "n < 8 \<Longrightarrow> map f [7, 6, 5, 4, 3, 2, 1, 0] ! n = f (7 - n :: nat)"
  by (auto simp: less_Suc_eq numeral_eq_Suc)

lemma nth_bits_of: "n < 8 * length bs \<Longrightarrow> bits_of bs ! n = bit (bs ! (n div 8)) (7 - n mod 8)"
proof (induction bs arbitrary: n)
  case (Cons b bs)
  show ?case
  proof (cases "n < 8")
    case True
    then have "bits_of (b # bs) ! n = map (bit b) [7, 6, 5, 4, 3, 2, 1, 0] ! n"
      unfolding bits_of_Cons by (subst nth_append_left) simp_all
    with True show ?thesis by (simp only: nth_eight) simp
  next
    case False
    then obtain m where m: "n = m + 8" by (metis add.commute le_add_diff_inverse not_less)
    have "bits_of (b # bs) ! n = bits_of bs ! m"
      unfolding bits_of_Cons m using nth_append_length_plus [of "map (bit b) [7, 6, 5, 4, 3, 2, 1, 0]" "bits_of bs" m]
      by (simp add: add.commute)
    moreover have "(m + 8) div 8 = Suc (m div 8)" "(m + 8) mod 8 = m mod 8" by simp_all
    moreover have "m < 8 * length bs" using Cons.prems by (simp add: m)
    ultimately show ?thesis using Cons.IH [of m] by (simp add: m)
  qed
qed simp

lemma and_single_bit [simp]: "(b :: byte) AND 2 ^ k = 0 \<longleftrightarrow> \<not> bit b k"
  using bit_iff_and_push_bit_not_eq_0 [of b k] by (simp add: push_bit_eq_mult)

text \<open>X.690, 8.6: the first octet counts the unused bits of the last one, and they are zero.\<close>

definition bitstring_ok :: "byte list \<Rightarrow> bool" where
  "bitstring_ok bs \<longleftrightarrow>
     bs \<noteq> [] \<and> hd bs \<le> 7 \<and>
     (hd bs \<noteq> 0 \<longrightarrow> tl bs \<noteq> [] \<and> take_bit (unat (hd bs)) (last bs) = 0)"

lemma valid_bitstring: "cbs_ok cbs \<Longrightarrow> CBS_is_valid_asn1_bitstring cbs \<longleftrightarrow> bitstring_ok (cbs_view cbs)"
proof (cases "cbs_view cbs")
  case Nil
  moreover assume "cbs_ok cbs"
  ultimately show ?thesis by (simp add: CBS_is_valid_asn1_bitstring_def cbs_get_u8_view bitstring_ok_def)
next
  case (Cons b bs)
  assume ok: "cbs_ok cbs"
  have len: "cbs_len cbs = Suc (length bs)" using length_cbs_view [OF ok] Cons by simp
  have g: "CBS_get_u8 cbs = (Some b, cbs_drop 1 cbs)" using ok Cons by (simp add: cbs_get_u8_view)
  have mask: "push_bit k (1 :: byte) - 1 = mask k" for k by (simp add: mask_eq_exp_minus_1 push_bit_eq_mult)
  have l: "CBS_get_last_u8 (cbs_drop 1 cbs) =
      (if bs = [] then (None, cbs_drop 1 cbs)
       else (Some (last bs), (cbs_drop 1 cbs)\<lparr>cbs_len := length bs - 1\<rparr>))"
  proof (cases "bs = []")
    case False
    have "cbs_data (cbs_drop 1 cbs) ! (length bs - 1) = cbs_view (cbs_drop 1 cbs) ! (length bs - 1)"
      using len False by (simp add: cbs_view_def)
    also have "\<dots> = last bs" using Cons False by (simp add: last_conv_nth)
    finally show ?thesis using len False by (simp add: CBS_get_last_u8_def)
  qed (simp add: CBS_get_last_u8_def len)
  show ?thesis
    using Cons unfolding CBS_is_valid_asn1_bitstring_def g prod.case option.case l mask
    by (simp add: bitstring_ok_def take_bit_eq_mask not_less)
qed

text \<open>\<open>CBS_asn1_bitstring_has_bit\<close> holds exactly for the bits that are set in a well-formed
  bit string; bits beyond its end count as unset.\<close>

theorem bitstring_has_bit:
  assumes "cbs_ok cbs"
  shows "CBS_asn1_bitstring_has_bit cbs n \<longleftrightarrow>
     bitstring_ok (cbs_view cbs) \<and> unat n < length (bits_of (tl (cbs_view cbs))) \<and>
     bits_of (tl (cbs_view cbs)) ! unat n"
proof (cases "bitstring_ok (cbs_view cbs)")
  case False
  with valid_bitstring [OF assms] show ?thesis by (simp add: CBS_asn1_bitstring_has_bit_def)
next
  case True
  then obtain b bs where v: "cbs_view cbs = b # bs" by (cases "cbs_view cbs") (auto simp: bitstring_ok_def)
  have len: "cbs_len cbs = Suc (length bs)" using length_cbs_view [OF assms] v by simp
  let ?i = "unat n div 8"
  have "unat (drop_bit 3 n) = ?i" by (simp only: unat_drop_bit_eq) (simp add: drop_bit_eq_div)
  moreover have "unat (n AND 7) = unat n mod 8"
    using take_bit_eq_mask [of 3 n] unat_take_bit [of 3 n] by (simp add: mask_numeral)
  ultimately have n: "unat (drop_bit 3 n) = ?i" "unat (n AND 7) = unat n mod 8" by simp_all
  have d: "cbs_data cbs ! (?i + 1) = bs ! ?i" if "?i < length bs"
  proof -
    have "cbs_data cbs ! (?i + 1) = cbs_view cbs ! (?i + 1)" using that len by (simp add: cbs_view_def)
    with v show ?thesis by simp
  qed
  have "?i < length bs \<longleftrightarrow> unat n < 8 * length bs" by (simp add: div_less_iff_less_mult mult.commute)
  then show ?thesis
    using True valid_bitstring [OF assms] v len d nth_bits_of [of "unat n" bs]
    by (auto simp: CBS_asn1_bitstring_has_bit_def n Let_def)
qed

theorem bitstring_has_bit_witness:
  "CBS_asn1_bitstring_has_bit (CBS_init [5, 0x80, 0x20] 3) 10"
proof -
  have "bitstring_ok [5, 0x80, 0x20]"
    by code_simp
  moreover have "bits_of [0x80, 0x20] ! 10" by code_simp
  moreover have "length (bits_of [0x80, 0x20]) = 16" by simp
  moreover have "cbs_ok (CBS_init [5, 0x80, 0x20] 3)" "cbs_view (CBS_init [5, 0x80, 0x20] 3) = [5, 0x80, 0x20]"
    by simp_all
  moreover have "unat (10 :: u32) = 10" by simp
  ultimately show ?thesis
    using bitstring_has_bit [of "CBS_init [5, 0x80, 0x20] 3" 10] by (simp only: list.sel) simp
qed

section \<open>BER elements\<close>

text \<open>An indefinite-length element comes back as its header alone. The header is two bytes long
  only for tag numbers below 31; a tag in the long form makes it longer, and \<open>*out_header_len\<close>
  and the length of the output say so.\<close>

theorem ber_indefinite_header:
  assumes ok: "cbs_ok cbs" and view: "cbs_view cbs = der_tag tag @ 0x80 # rest"
    and constructed: "tag AND CBS_ASN1_CONSTRUCTED \<noteq> 0"
  shows "\<exists>out cbs' hl. CBS_get_any_ber_asn1_element cbs = (Some (out, tag, hl), cbs') \<and>
     hl = length (der_tag tag) + 1 \<and> cbs_view out = der_tag tag @ [0x80] \<and> cbs_view cbs' = rest \<and>
     (hl = 2 \<longleftrightarrow> tag_number tag < 31)"
proof -
  let ?hl = "length (der_tag tag) + 1"
  have b: "bit (0x80 :: byte) 7" "unat (0x80 :: byte) mod 128 = 0" by (simp_all add: byte_top)
  have len: "?hl \<le> cbs_len cbs" using length_cbs_view [OF ok] view by simp
  have g: "CBS_get_any_ber_asn1_element cbs = (Some (CBS_init (cbs_data cbs) ?hl, tag, ?hl), cbs_drop ?hl cbs)"
    using element_indefinite [OF ok view b, of True] constructed by (simp add: CBS_get_any_ber_asn1_element_def)
  have "take ?hl (cbs_view cbs) = take ?hl (cbs_data cbs)" using len by (simp add: cbs_view_def min_absorb1)
  then have "cbs_view (CBS_init (cbs_data cbs) ?hl) = der_tag tag @ [0x80]" using view by simp
  moreover have "?hl = 2 \<longleftrightarrow> tag_number tag < 31" by (simp add: der_tag_def)
  moreover have "cbs_view (cbs_drop ?hl cbs) = rest" using view by simp
  ultimately show ?thesis using g by blast
qed

theorem ber_indefinite_header_witness:
  "\<exists>out cbs' hl. CBS_get_any_ber_asn1_element (CBS_init [0x3F, 0x1F, 0x80, 0, 0] 5) = (Some (out, 0x2000001F, hl), cbs') \<and>
     hl = 3 \<and> cbs_view out = [0x3F, 0x1F, 0x80] \<and> cbs_view cbs' = [0, 0]"
proof -
  have t: "der_tag 0x2000001F = [0x3F, 0x1F]"
    by (simp add: der_tag_def tag_number_def tag_bits_def CBS_ASN1_TAG_NUMBER_MASK_def
        CBS_ASN1_TAG_SHIFT_def base128_def drop_bit_eq_div word_div_def)
  have "(0x2000001F :: u32) AND CBS_ASN1_CONSTRUCTED \<noteq> 0"
    by (simp add: CBS_ASN1_CONSTRUCTED_def CBS_ASN1_TAG_SHIFT_def)
  with ber_indefinite_header [of "CBS_init [0x3F, 0x1F, 0x80, 0, 0] 5" "0x2000001F" "[0, 0]"] t
  show ?thesis by auto
qed

end
