(* ===== verification/Cbb.thy ===== *)
theory Cbb
  imports CbsFields
begin

text \<open>
  The DER builder of BoringSSL (\<open>crypto/bytestring/cbb.c\<close>, \<open>asn1_compat.c\<close>). The
  \<open>CBB\<close>s over one buffer form a chain: the top-level one, its pending child, that one's child, and
  so on. The state of the model is the shared \<open>cbb_buffer_st\<close> with that chain; an operation takes the
  depth of the \<open>CBB\<close> it is called on. A \<open>CBB\<close> that is no longer in the chain is one whose
  \<open>base\<close> pointer has been cleared.
\<close>

section \<open>State\<close>

text \<open>\<open>struct cbb_buffer_st\<close>. A caller's fixed buffer is a block without a size prefix.\<close>

record cbb_buffer =
  cb_buf :: "block option"
  cb_len :: size_t
  cb_cap :: size_t
  cb_can_resize :: bool
  cb_error :: bool

text \<open>\<open>struct cbb_st\<close> without its two pointers.\<close>

record cbb_frame =
  fr_offset :: size_t
  fr_pending_len_len :: nat
  fr_pending_is_asn1 :: bool
  fr_is_top_level :: bool

record cbb =
  cbb_base :: "cbb_buffer option"
  cbb_chain :: "cbb_frame list"

type_synonym malloc = "nat \<Rightarrow> byte list option"

definition cbb_zero_frame :: cbb_frame where
  "cbb_zero_frame =
     \<lparr>fr_offset = 0, fr_pending_len_len = 0, fr_pending_is_asn1 = False, fr_is_top_level = False\<rparr>"

definition CBB_zero :: cbb where
  "CBB_zero = \<lparr>cbb_base = None, cbb_chain = [cbb_zero_frame]\<rparr>"

definition cbb_init :: "malloc \<Rightarrow> block option \<Rightarrow> size_t \<Rightarrow> (cbb, unit) op" where
  "cbb_init malloc buf cap cbb =
     (case OPENSSL_malloc malloc 32 of
        None \<Rightarrow> (None, cbb)
      | Some base \<Rightarrow>
          (Some (),
           \<lparr>cbb_base = Some \<lparr>cb_buf = buf, cb_len = 0, cb_cap = cap, cb_can_resize = True, cb_error = False\<rparr>,
            cbb_chain = [cbb_zero_frame\<lparr>fr_is_top_level := True\<rparr>]\<rparr>))"

definition CBB_init :: "malloc \<Rightarrow> size_t \<Rightarrow> unit option \<times> cbb" where
  "CBB_init malloc initial_capacity =
     (let buf = OPENSSL_malloc malloc initial_capacity
      in if 0 < initial_capacity \<and> buf = None then (None, CBB_zero)
         else cbb_init malloc buf initial_capacity CBB_zero)"

definition CBB_init_fixed :: "malloc \<Rightarrow> byte list \<Rightarrow> size_t \<Rightarrow> unit option \<times> cbb" where
  "CBB_init_fixed malloc buf len =
     (case cbb_init malloc (Some ([], buf)) len CBB_zero of
        (None, cbb) \<Rightarrow> (None, cbb)
      | (Some _, cbb) \<Rightarrow>
          (Some (), cbb\<lparr>cbb_base := map_option (\<lambda>base. base\<lparr>cb_can_resize := False\<rparr>) (cbb_base cbb)\<rparr>))"

definition CBB_cleanup :: "cbb \<Rightarrow> cbb" where
  "CBB_cleanup cbb = cbb\<lparr>cbb_base := None\<rparr>"

section \<open>The buffer\<close>

text \<open>\<open>*out\<close> is the offset \<open>base->len\<close> into the buffer.\<close>

definition cbb_buffer_reserve :: "malloc \<Rightarrow> size_t \<Rightarrow> (cbb_buffer, size_t) op" where
  "cbb_buffer_reserve malloc len base =
     (let newlen = size_wrap (cb_len base + len)
      in if newlen < cb_len base then (None, base\<lparr>cb_error := True\<rparr>)
         else if cb_cap base < newlen then
           (if \<not> cb_can_resize base then (None, base\<lparr>cb_error := True\<rparr>)
            else
              (let newcap = size_wrap (cb_cap base * 2);
                   newcap = (if newcap < cb_cap base \<or> newcap < newlen then newlen else newcap)
               in case OPENSSL_realloc malloc (cb_buf base) newcap of
                    None \<Rightarrow> (None, base\<lparr>cb_error := True\<rparr>)
                  | Some newbuf \<Rightarrow> (Some (cb_len base), base\<lparr>cb_buf := Some newbuf, cb_cap := newcap\<rparr>)))
         else (Some (cb_len base), base))"

definition cbb_buffer_add :: "malloc \<Rightarrow> size_t \<Rightarrow> (cbb_buffer, size_t) op" where
  "cbb_buffer_add malloc len =
     andthen (cbb_buffer_reserve malloc len)
       (\<lambda>out base. (Some out, base\<lparr>cb_len := cb_len base + len\<rparr>))"

text \<open>Writes through a pointer into the buffer.\<close>

definition cb_write :: "nat \<Rightarrow> byte list \<Rightarrow> cbb_buffer \<Rightarrow> cbb_buffer" where
  "cb_write off bs base = base\<lparr>cb_buf := poke off bs (cb_buf base)\<rparr>"

text \<open>The loops that store a number backwards: the buffer after \<open>k\<close> bytes, and what is left of
  the number.\<close>

fun put_be :: "nat \<Rightarrow> nat \<Rightarrow> nat \<Rightarrow> cbb_buffer \<Rightarrow> cbb_buffer \<times> nat" where
  "put_be 0 off v base = (base, v)"
| "put_be (Suc i) off v base = put_be i off (v div 256) (cb_write (off + i) [of_nat v] base)"

definition cbb_buffer_add_u :: "malloc \<Rightarrow> u32 \<Rightarrow> size_t \<Rightarrow> (cbb_buffer, unit) op" where
  "cbb_buffer_add_u malloc v len_len =
     (if len_len = 0 then ret ()
      else
        andthen (cbb_buffer_add malloc len_len)
          (\<lambda>buf base. case put_be len_len buf (unat v) base of
             (base', v') \<Rightarrow> if v' \<noteq> 0 then (None, base'\<lparr>cb_error := True\<rparr>) else (Some (), base')))"

section \<open>Flushing\<close>

text \<open>The number of length octets and the first of them.\<close>

definition asn1_len_len :: "nat \<Rightarrow> (nat \<times> byte) option" where
  "asn1_len_len len =
     (if 0xFFFFFFFE < len then None
      else if 0xFFFFFF < len then Some (5, 0x80 OR 4)
      else if 0xFFFF < len then Some (4, 0x80 OR 3)
      else if 0xFF < len then Some (3, 0x80 OR 2)
      else if 0x7F < len then Some (2, 0x80 OR 1)
      else Some (1, of_nat len))"

text \<open>\<open>memmove(buf + to, buf + from, n)\<close>.\<close>

definition cb_move :: "nat \<Rightarrow> nat \<Rightarrow> nat \<Rightarrow> cbb_buffer \<Rightarrow> cbb_buffer" where
  "cb_move to from n base =
     (case cb_buf base of
        None \<Rightarrow> base
      | Some (hdr, mem) \<Rightarrow> base\<lparr>cb_buf := Some (hdr, splice to (take n (drop from mem)) mem)\<rparr>)"

text \<open>Writing out the pending prefix of the child. \<open>None\<close> is \<open>goto err\<close>.\<close>

definition flush_prefix :: "malloc \<Rightarrow> cbb_frame \<Rightarrow> nat \<Rightarrow> (cbb_buffer, unit) op" where
  "flush_prefix malloc child child_start base =
     (let len = cb_len base - child_start
      in if fr_pending_is_asn1 child
         then
           (case asn1_len_len len of
              None \<Rightarrow> (None, base)
            | Some (len_len, initial_length_byte) \<Rightarrow>
                (let len' = (if len_len = 1 then 0 else len);
                     extra_bytes = len_len - 1
                 in andthen
                      (if len_len \<noteq> 1
                       then andthen (cbb_buffer_add malloc extra_bytes)
                              (\<lambda>_ base. (Some (), cb_move (child_start + extra_bytes) child_start len' base))
                       else ret ())
                      (\<lambda>_ base.
                         let base = cb_write (fr_offset child) [initial_length_byte] base
                         in case put_be extra_bytes (fr_offset child + 1) len' base of
                              (base', l) \<Rightarrow> if l \<noteq> 0 then (None, base') else (Some (), base'))
                      base))
         else
           (case put_be (fr_pending_len_len child) (fr_offset child) len base of
              (base', l) \<Rightarrow> if l \<noteq> 0 then (None, base') else (Some (), base')))"

text \<open>\<open>CBB_flush\<close> on a \<open>CBB\<close> with the given descendants, innermost last.\<close>

fun flush_chain :: "malloc \<Rightarrow> cbb_frame list \<Rightarrow> cbb_buffer \<Rightarrow> bool \<times> cbb_frame list \<times> cbb_buffer" where
  "flush_chain malloc [] base = (\<not> cb_error base, [], base)"
| "flush_chain malloc (child # rest) base =
     (if cb_error base then (False, child # rest, base)
      else if fr_pending_len_len child = 0 then (True, child # rest, base)
      else
        (let child_start = size_wrap (fr_offset child + fr_pending_len_len child)
         in case flush_chain malloc rest base of
              (ok, rest', base') \<Rightarrow>
                if \<not> ok \<or> child_start < fr_offset child \<or> cb_len base' < child_start
                then (False, child # rest', base'\<lparr>cb_error := True\<rparr>)
                else
                  (case flush_prefix malloc child child_start base' of
                     (None, base'') \<Rightarrow> (False, child # rest', base''\<lparr>cb_error := True\<rparr>)
                   | (Some _, base'') \<Rightarrow> (True, [], base''))))"

definition CBB_flush :: "malloc \<Rightarrow> nat \<Rightarrow> (cbb, unit) op" where
  "CBB_flush malloc d cbb =
     (case cbb_base cbb of
        None \<Rightarrow> (None, cbb)
      | Some base \<Rightarrow>
          if length (cbb_chain cbb) \<le> d then (None, cbb)
          else
            (case flush_chain malloc (drop (Suc d) (cbb_chain cbb)) base of
               (ok, rest', base') \<Rightarrow>
                 (if ok then Some () else None,
                  \<lparr>cbb_base = Some base', cbb_chain = take (Suc d) (cbb_chain cbb) @ rest'\<rparr>)))"

text \<open>An operation on \<open>cbb->base\<close>.\<close>

definition on_base :: "(cbb_buffer, 'a) op \<Rightarrow> (cbb, 'a) op" where
  "on_base m cbb =
     (case cbb_base cbb of
        None \<Rightarrow> (None, cbb)
      | Some base \<Rightarrow> (case m base of (r, base') \<Rightarrow> (r, cbb\<lparr>cbb_base := Some base'\<rparr>)))"

definition CBB_finish :: "malloc \<Rightarrow> bool \<Rightarrow> bool \<Rightarrow> nat \<Rightarrow> (cbb, block option \<times> size_t) op" where
  "CBB_finish malloc out_data_null out_len_null d cbb =
     (if length (cbb_chain cbb) \<le> d \<or> \<not> fr_is_top_level (cbb_chain cbb ! d) then (None, cbb)
      else
        andthen (CBB_flush malloc d)
          (\<lambda>_ cbb. case cbb_base cbb of
             None \<Rightarrow> (None, cbb)
           | Some base \<Rightarrow>
               if cb_can_resize base \<and> (out_data_null \<or> out_len_null) then (None, cbb)
               else (Some (cb_buf base, cb_len base), CBB_cleanup cbb)) cbb)"

text \<open>\<open>CBB_data\<close> and \<open>CBB_len\<close> of a flushed \<open>CBB\<close>.\<close>

definition CBB_data :: "nat \<Rightarrow> cbb \<Rightarrow> byte list" where
  "CBB_data d cbb =
     (case cbb_base cbb of
        None \<Rightarrow> []
      | Some base \<Rightarrow>
          (case cb_buf base of
             None \<Rightarrow> []
           | Some b \<Rightarrow> drop (fr_offset (cbb_chain cbb ! d) + fr_pending_len_len (cbb_chain cbb ! d)) (payload b)))"

definition CBB_len :: "nat \<Rightarrow> cbb \<Rightarrow> size_t" where
  "CBB_len d cbb =
     (case cbb_base cbb of
        None \<Rightarrow> 0
      | Some base \<Rightarrow> cb_len base - fr_offset (cbb_chain cbb ! d) - fr_pending_len_len (cbb_chain cbb ! d))"

section \<open>Adding data\<close>

definition CBB_add_bytes :: "malloc \<Rightarrow> nat \<Rightarrow> byte list \<Rightarrow> size_t \<Rightarrow> (cbb, unit) op" where
  "CBB_add_bytes malloc d data len =
     andthen (CBB_flush malloc d)
       (\<lambda>_. on_base (andthen (cbb_buffer_add malloc len)
          (\<lambda>dest base. (Some (), cb_write dest (take len data) base))))"

text \<open>The offset at which the caller may write.\<close>

definition CBB_add_space :: "malloc \<Rightarrow> nat \<Rightarrow> size_t \<Rightarrow> (cbb, size_t) op" where
  "CBB_add_space malloc d len = andthen (CBB_flush malloc d) (\<lambda>_. on_base (cbb_buffer_add malloc len))"

definition CBB_reserve :: "malloc \<Rightarrow> nat \<Rightarrow> size_t \<Rightarrow> (cbb, size_t) op" where
  "CBB_reserve malloc d len = andthen (CBB_flush malloc d) (\<lambda>_. on_base (cbb_buffer_reserve malloc len))"

definition CBB_did_write :: "nat \<Rightarrow> size_t \<Rightarrow> (cbb, unit) op" where
  "CBB_did_write d len cbb =
     (case cbb_base cbb of
        None \<Rightarrow> (None, cbb)
      | Some base \<Rightarrow>
          (let newlen = size_wrap (cb_len base + len)
           in if Suc d < length (cbb_chain cbb) \<or> newlen < cb_len base \<or> cb_cap base < newlen then (None, cbb)
              else (Some (), cbb\<lparr>cbb_base := Some (base\<lparr>cb_len := newlen\<rparr>)\<rparr>)))"

definition cbb_add_u :: "malloc \<Rightarrow> nat \<Rightarrow> u32 \<Rightarrow> nat \<Rightarrow> (cbb, unit) op" where
  "cbb_add_u malloc d v k = andthen (CBB_flush malloc d) (\<lambda>_. on_base (cbb_buffer_add_u malloc v k))"

definition CBB_add_u8 :: "malloc \<Rightarrow> nat \<Rightarrow> byte \<Rightarrow> (cbb, unit) op" where
  "CBB_add_u8 malloc d v = cbb_add_u malloc d (ucast v) 1"

definition CBB_add_u16 :: "malloc \<Rightarrow> nat \<Rightarrow> u16 \<Rightarrow> (cbb, unit) op" where
  "CBB_add_u16 malloc d v = cbb_add_u malloc d (ucast v) 2"

definition CBB_add_u24 :: "malloc \<Rightarrow> nat \<Rightarrow> u32 \<Rightarrow> (cbb, unit) op" where
  "CBB_add_u24 malloc d v = cbb_add_u malloc d v 3"

definition CBB_add_u32 :: "malloc \<Rightarrow> nat \<Rightarrow> u32 \<Rightarrow> (cbb, unit) op" where
  "CBB_add_u32 malloc d v = cbb_add_u malloc d v 4"

text \<open>The child of the \<open>CBB\<close> at depth \<open>d\<close>; its descendants have been flushed.\<close>

definition add_child :: "nat \<Rightarrow> cbb_frame \<Rightarrow> cbb \<Rightarrow> cbb" where
  "add_child d child cbb = cbb\<lparr>cbb_chain := take (Suc d) (cbb_chain cbb) @ [child]\<rparr>"

definition cbb_add_length_prefixed :: "malloc \<Rightarrow> nat \<Rightarrow> nat \<Rightarrow> (cbb, unit) op" where
  "cbb_add_length_prefixed malloc d len_len =
     andthen (CBB_flush malloc d)
       (\<lambda>_. andthen
          (on_base (andthen (cbb_buffer_add malloc len_len)
             (\<lambda>off base. (Some off, cb_write off (replicate len_len 0) base))))
          (\<lambda>off cbb. (Some (), add_child d
             (cbb_zero_frame\<lparr>fr_offset := off, fr_pending_len_len := len_len\<rparr>) cbb)))"

definition CBB_add_u8_length_prefixed :: "malloc \<Rightarrow> nat \<Rightarrow> (cbb, unit) op" where
  "CBB_add_u8_length_prefixed malloc d = cbb_add_length_prefixed malloc d 1"

definition CBB_add_u16_length_prefixed :: "malloc \<Rightarrow> nat \<Rightarrow> (cbb, unit) op" where
  "CBB_add_u16_length_prefixed malloc d = cbb_add_length_prefixed malloc d 2"

definition CBB_add_u24_length_prefixed :: "malloc \<Rightarrow> nat \<Rightarrow> (cbb, unit) op" where
  "CBB_add_u24_length_prefixed malloc d = cbb_add_length_prefixed malloc d 3"

text \<open>\<open>add_base128_integer\<close>: the digit count and the loop over the digits.\<close>

function digit_count :: "u64 \<Rightarrow> nat" where
  "digit_count copy = (if copy = 0 then 0 else Suc (digit_count (drop_bit 7 copy)))"
  by pat_completeness auto

termination
  by (relation "measure unat") (auto intro: drop_bit_7_less)

declare digit_count.simps [simp del]

fun base128_digits :: "malloc \<Rightarrow> nat \<Rightarrow> u64 \<Rightarrow> nat \<Rightarrow> (cbb, unit) op" where
  "base128_digits malloc d v 0 = ret ()"
| "base128_digits malloc d v (Suc i) =
     (let byt = ucast (drop_bit (7 * i) v) AND 0x7F;
          byt = (if i \<noteq> 0 then byt OR 0x80 else byt)
      in andthen (CBB_add_u8 malloc d byt) (\<lambda>_. base128_digits malloc d v i))"

definition add_base128_integer :: "malloc \<Rightarrow> nat \<Rightarrow> u64 \<Rightarrow> (cbb, unit) op" where
  "add_base128_integer malloc d v =
     (let len_len = digit_count v; len_len = (if len_len = 0 then 1 else len_len)
      in base128_digits malloc d v len_len)"

definition CBB_add_asn1 :: "malloc \<Rightarrow> nat \<Rightarrow> u32 \<Rightarrow> (cbb, unit) op" where
  "CBB_add_asn1 malloc d tag =
     andthen (CBB_flush malloc d)
       (\<lambda>_. let tag_bits = ucast (drop_bit CBS_ASN1_TAG_SHIFT tag) AND 0xE0;
               tag_number = tag AND CBS_ASN1_TAG_NUMBER_MASK
           in andthen
                (if 0x1F \<le> tag_number
                 then andthen (CBB_add_u8 malloc d (tag_bits OR 0x1F))
                        (\<lambda>_. add_base128_integer malloc d (ucast tag_number))
                 else CBB_add_u8 malloc d (tag_bits OR ucast tag_number))
                (\<lambda>_. andthen (on_base (\<lambda>base. (Some (cb_len base), base)))
                   (\<lambda>offset. andthen (CBB_add_u8 malloc d 0)
                      (\<lambda>_ cbb. (Some (), add_child d
                         (cbb_zero_frame\<lparr>fr_offset := offset, fr_pending_len_len := 1,
                            fr_pending_is_asn1 := True\<rparr>) cbb)))))"

definition CBB_discard_child :: "nat \<Rightarrow> cbb \<Rightarrow> cbb" where
  "CBB_discard_child d cbb =
     (if length (cbb_chain cbb) \<le> Suc d then cbb
      else
        cbb\<lparr>cbb_base := map_option (\<lambda>base. base\<lparr>cb_len := fr_offset (cbb_chain cbb ! Suc d)\<rparr>) (cbb_base cbb),
            cbb_chain := take (Suc d) (cbb_chain cbb)\<rparr>)"

section \<open>Typed elements\<close>

text \<open>The loop of \<open>CBB_add_asn1_uint64\<close> over the eight bytes of the value; the flag is
  \<open>started\<close>.\<close>

fun uint64_bytes_loop :: "malloc \<Rightarrow> nat \<Rightarrow> byte list \<Rightarrow> bool \<Rightarrow> (cbb, bool) op" where
  "uint64_bytes_loop malloc d [] started = ret started"
| "uint64_bytes_loop malloc d (b # bs) started =
     (if \<not> started \<and> b = 0 then uint64_bytes_loop malloc d bs started
      else
        andthen (if \<not> started \<and> b AND 0x80 \<noteq> 0 then CBB_add_u8 malloc d 0 else ret ())
          (\<lambda>_. andthen (CBB_add_u8 malloc d b) (\<lambda>_. uint64_bytes_loop malloc d bs True)))"

definition CBB_add_asn1_uint64 :: "malloc \<Rightarrow> nat \<Rightarrow> u64 \<Rightarrow> (cbb, unit) op" where
  "CBB_add_asn1_uint64 malloc d v =
     andthen (CBB_add_asn1 malloc d CBS_ASN1_INTEGER)
       (\<lambda>_. andthen
          (uint64_bytes_loop malloc (Suc d) (map (\<lambda>i. ucast (drop_bit (8 * (7 - i)) v)) [0 ..< 8]) False)
          (\<lambda>started. andthen (if \<not> started then CBB_add_u8 malloc (Suc d) 0 else ret ())
             (\<lambda>_. CBB_flush malloc d)))"

definition CBB_add_asn1_octet_string :: "malloc \<Rightarrow> nat \<Rightarrow> byte list \<Rightarrow> size_t \<Rightarrow> (cbb, unit) op" where
  "CBB_add_asn1_octet_string malloc d data data_len =
     andthen (CBB_add_asn1 malloc d CBS_ASN1_OCTETSTRING)
       (\<lambda>_. andthen (CBB_add_bytes malloc (Suc d) data data_len) (\<lambda>_. CBB_flush malloc d))"

definition CBB_add_asn1_bool :: "malloc \<Rightarrow> nat \<Rightarrow> int \<Rightarrow> (cbb, unit) op" where
  "CBB_add_asn1_bool malloc d v =
     andthen (CBB_add_asn1 malloc d CBS_ASN1_BOOLEAN)
       (\<lambda>_. andthen (CBB_add_u8 malloc (Suc d) (if v \<noteq> 0 then 0xFF else 0)) (\<lambda>_. CBB_flush malloc d))"

end
