(* ===== verification/CbbSpec.thy ===== *)
theory CbbSpec
  imports Cbb
begin

text \<open>
  What the DER builder promises. The bytes of the buffer with the pending prefixes of the open
  children filled in (\<open>view\<close>) are the abstraction of a chain of \<open>CBB\<close>s; flushing does not
  change it, and every successful operation appends its encoding to it.
\<close>

section \<open>The buffer\<close>

definition cb_ok :: "cbb_buffer \<Rightarrow> bool" where
  "cb_ok base \<longleftrightarrow>
     cb_len base \<le> cb_cap base \<and> cb_cap base + 8 < 2 ^ 63 \<and>
     (case cb_buf base of
        None \<Rightarrow> cb_cap base = 0
      | Some b \<Rightarrow> cb_cap base \<le> length (payload b) \<and>
          (cb_can_resize base \<longrightarrow> block_ok b \<and> length (payload b) = cb_cap base))"

definition cb_bytes :: "cbb_buffer \<Rightarrow> byte list" where
  "cb_bytes base = (case cb_buf base of None \<Rightarrow> [] | Some b \<Rightarrow> take (cb_len base) (payload b))"

lemma length_cb_bytes: "cb_ok base \<Longrightarrow> length (cb_bytes base) = cb_len base"
  by (cases "cb_buf base") (auto simp: cb_ok_def cb_bytes_def)

lemma cb_ok_small: "cb_ok base \<Longrightarrow> cb_len base < 2 ^ 63"
  by (auto simp: cb_ok_def)

lemma reserve_grows:
  assumes a: "allocator malloc" and ok: "cb_ok base" and n: "n < 2 ^ 62"
    and r: "cbb_buffer_reserve malloc n base = (Some off, base')"
  shows "cb_ok base'" and "cb_bytes base' = cb_bytes base" and "cb_len base' = cb_len base"
    and "off = cb_len base" and "cb_len base + n \<le> cb_cap base'" and "cb_error base' = cb_error base"
proof -
  have len: "cb_len base < 2 ^ 63" by (rule cb_ok_small [OF ok])
  then have w: "size_wrap (cb_len base + n) = cb_len base + n" using n by simp
  have "cb_ok base' \<and> cb_bytes base' = cb_bytes base \<and> cb_len base' = cb_len base \<and> off = cb_len base \<and>
      cb_len base + n \<le> cb_cap base' \<and> cb_error base' = cb_error base"
  proof (cases "cb_cap base < cb_len base + n")
    case False
    with r ok w show ?thesis by (auto simp: cbb_buffer_reserve_def)
  next
    case True
    define newcap where "newcap =
      (if size_wrap (cb_cap base * 2) < cb_cap base \<or> size_wrap (cb_cap base * 2) < cb_len base + n
       then cb_len base + n else size_wrap (cb_cap base * 2))"
    have res: "cb_can_resize base" and re0: "OPENSSL_realloc malloc (cb_buf base) newcap \<noteq> None"
      using r True w by (auto simp: cbb_buffer_reserve_def Let_def newcap_def split: if_splits option.splits)
    then obtain b where re: "OPENSSL_realloc malloc (cb_buf base) newcap = Some b" by blast
    with r True w res have o: "off = cb_len base" "base' = base\<lparr>cb_buf := Some b, cb_cap := newcap\<rparr>"
      by (auto simp: cbb_buffer_reserve_def Let_def newcap_def)
    have cap: "cb_cap base + 8 < 2 ^ 63" using ok by (simp add: cb_ok_def)
    have ge: "cb_len base + n \<le> newcap" by (auto simp: newcap_def)
    have "newcap \<le> cb_len base + n \<or> newcap \<le> cb_cap base * 2"
      by (auto simp: newcap_def size_wrap_def)
    with cap len n have small: "newcap + 8 < 2 ^ 64" by auto
    have old: "pred_option block_ok (cb_buf base)"
      using ok res by (auto simp: cb_ok_def split: option.splits)
    note new = realloc_block [OF a small old re]
    have "take (cb_len base) (payload b) = take (cb_len base) (payload b0)" if "cb_buf base = Some b0" for b0
    proof -
      let ?m = "min (length (payload b0)) newcap"
      have m: "cb_len base \<le> ?m" using ok that ge by (simp add: cb_ok_def)
      have "take (cb_len base) (take ?m (payload b)) = take (cb_len base) (take newcap (payload b0))"
        using new(3) [OF that] by (rule arg_cong)
      with m show ?thesis by (simp only: take_take min.absorb1 min.bounded_iff)
    qed
    moreover have "cb_buf base = None \<Longrightarrow> cb_len base = 0" using ok by (simp add: cb_ok_def)
    ultimately have "cb_bytes base' = cb_bytes base"
      using o by (cases "cb_buf base") (simp_all add: cb_bytes_def)
    moreover have "cb_ok base'" using o new(1,2,4) ge by (simp add: cb_ok_def)
    ultimately show ?thesis using o ge by simp
  qed
  then show "cb_ok base'" and "cb_bytes base' = cb_bytes base" and "cb_len base' = cb_len base"
    and "off = cb_len base" and "cb_len base + n \<le> cb_cap base'" and "cb_error base' = cb_error base"
    by auto
qed

lemma add_grows:
  assumes a: "allocator malloc" and ok: "cb_ok base" and n: "n < 2 ^ 62"
    and r: "cbb_buffer_add malloc n base = (Some off, base')"
  shows "cb_ok base'" and "take (cb_len base) (cb_bytes base') = cb_bytes base"
    and "cb_len base' = cb_len base + n" and "off = cb_len base" and "cb_error base' = cb_error base"
proof -
  from r obtain base1 where re: "cbb_buffer_reserve malloc n base = (Some off, base1)"
    and b: "base' = base1\<lparr>cb_len := cb_len base1 + n\<rparr>"
    by (auto simp: cbb_buffer_add_def andthen_Some)
  note g = reserve_grows [OF a ok n re]
  show "cb_ok base'" using g by (cases "cb_buf base1") (auto simp: cb_ok_def b)
  have "take (cb_len base) (cb_bytes base') = cb_bytes base1"
    using g(3) by (simp add: b cb_bytes_def split: option.split)
  with g(2) show "take (cb_len base) (cb_bytes base') = cb_bytes base" by simp
  show "cb_len base' = cb_len base + n" and "off = cb_len base" and "cb_error base' = cb_error base"
    using g by (simp_all add: b)
qed

lemma write_inside:
  assumes ok: "cb_ok base" and fits: "off + length bs \<le> cb_len base"
  shows "cb_ok (cb_write off bs base)" and "cb_bytes (cb_write off bs base) = splice off bs (cb_bytes base)"
    and "cb_len (cb_write off bs base) = cb_len base" and "cb_error (cb_write off bs base) = cb_error base"
proof -
  have "cb_ok (cb_write off bs base) \<and> cb_bytes (cb_write off bs base) = splice off bs (cb_bytes base)"
  proof (cases "cb_buf base")
    case None
    with ok have "cb_len base = 0" by (simp add: cb_ok_def)
    with fits None ok show ?thesis by (simp add: cb_write_def poke_def cb_ok_def cb_bytes_def)
  next
    case (Some b)
    obtain hdr mem where b: "cb_buf base = Some (hdr, mem)" using Some by (cases b) simp
    with ok have "cb_len base \<le> length mem" by (simp add: cb_ok_def)
    with fits have l: "length (splice off bs mem) = length mem" by simp
    have "cb_ok (cb_write off bs base)"
      using ok b l by (simp add: cb_ok_def cb_write_def poke_def block_ok_def)
    moreover have "take (cb_len base) (splice off bs mem) = splice off bs (take (cb_len base) mem)"
      using fits \<open>cb_len base \<le> length mem\<close> by (simp add: splice_def take_drop add.commute)
    ultimately show ?thesis using b by (simp add: cb_write_def poke_def cb_bytes_def)
  qed
  then show "cb_ok (cb_write off bs base)" and "cb_bytes (cb_write off bs base) = splice off bs (cb_bytes base)"
    by simp_all
qed (simp_all add: cb_write_def)

lemma put_be_inside:
  "cb_ok base \<Longrightarrow> off + k \<le> cb_len base \<Longrightarrow> put_be k off v base = (base', v') \<Longrightarrow>
   v' = v div 256 ^ k \<and> cb_ok base' \<and> cb_bytes base' = splice off (be_bytes k v) (cb_bytes base) \<and>
   cb_len base' = cb_len base \<and> cb_error base' = cb_error base"
proof (induction k arbitrary: v base)
  case (Suc k)
  let ?base = "cb_write (off + k) [of_nat v] base"
  have w: "off + k + length [of_nat v :: byte] \<le> cb_len base" using Suc.prems(2) by simp
  note wi = write_inside [OF Suc.prems(1) w]
  have put: "put_be k off (v div 256) ?base = (base', v')" using Suc.prems(3) by simp
  have "off + k \<le> cb_len ?base" using wi(3) Suc.prems(2) by simp
  from Suc.IH [OF wi(1) this put] have r: "v' = v div 256 div 256 ^ k" "cb_ok base'"
    "cb_bytes base' = splice off (be_bytes k (v div 256)) (cb_bytes ?base)" "cb_len base' = cb_len ?base"
    "cb_error base' = cb_error ?base" by simp_all
  have len: "length (cb_bytes base) = cb_len base" by (rule length_cb_bytes [OF Suc.prems(1)])
  have "splice off (be_bytes k (v div 256)) (splice (off + k) [of_nat v] (cb_bytes base)) =
      splice off (be_bytes (Suc k) v) (cb_bytes base)"
    using len Suc.prems(2) by (simp add: splice_def take_drop)
  with r wi show ?case by (simp add: div_mult2_eq [symmetric])
qed simp

lemma add_u_steps:
  assumes "cbb_buffer_add_u malloc v k base = (Some x, base')" and "0 < k"
  obtains off base1 where "cbb_buffer_add malloc k base = (Some off, base1)"
    and "put_be k off (unat v) base1 = (base', 0)"
proof -
  from assms obtain off base1 where add: "cbb_buffer_add malloc k base = (Some off, base1)"
    and put: "(case put_be k off (unat v) base1 of
             (base', v') \<Rightarrow> if v' \<noteq> 0 then (None, base'\<lparr>cb_error := True\<rparr>) else (Some (), base')) = (Some x, base')"
    by (auto simp: cbb_buffer_add_u_def andthen_Some)
  obtain base2 v' where p: "put_be k off (unat v) base1 = (base2, v')"
    by (cases "put_be k off (unat v) base1")
  with put have "v' = 0" "base2 = base'" by (auto split: if_splits)
  with add p that show ?thesis by simp
qed

lemma add_u_appends:
  assumes a: "allocator malloc" and ok: "cb_ok base" and k: "k \<le> 4"
    and r: "cbb_buffer_add_u malloc v k base = (Some x, base')"
  shows "cb_ok base'" and "cb_bytes base' = cb_bytes base @ be_bytes k (unat v)"
    and "cb_len base' = cb_len base + k" and "cb_error base' = cb_error base"
proof -
  have "cb_ok base' \<and> cb_bytes base' = cb_bytes base @ be_bytes k (unat v) \<and>
    cb_len base' = cb_len base + k \<and> cb_error base' = cb_error base"
  proof (cases "k = 0")
    case True
    with r ok show ?thesis by (simp add: cbb_buffer_add_u_def)
  next
    case False
    then have "0 < k" by simp
    from add_u_steps [OF r this] obtain off base1 where add: "cbb_buffer_add malloc k base = (Some off, base1)"
      and put: "put_be k off (unat v) base1 = (base', 0)" .
    have "k < 2 ^ 62" using k by simp
    note g = add_grows [OF a ok this add]
    have "off + k \<le> cb_len base1" using g(3,4) by simp
    note p = put_be_inside [OF g(1) this put]
    have len: "length (cb_bytes base) = cb_len base" by (rule length_cb_bytes [OF ok])
    have len1: "length (cb_bytes base1) = cb_len base + k" using length_cb_bytes [OF g(1)] g(3) by simp
    have "splice off (be_bytes k (unat v)) (cb_bytes base1) = cb_bytes base @ be_bytes k (unat v)"
      using g(2,4) len1 by (simp add: splice_def)
    with p g show ?thesis by simp
  qed
  then show "cb_ok base'" and "cb_bytes base' = cb_bytes base @ be_bytes k (unat v)"
    and "cb_len base' = cb_len base + k" and "cb_error base' = cb_error base"
    by simp_all
qed

lemma add_u_fits:
  assumes "cbb_buffer_add_u malloc v k base = (Some x, base')" and "0 < k" and "allocator malloc"
    and "cb_ok base" and "k \<le> 4"
  shows "unat v < 256 ^ k"
proof -
  from add_u_steps [OF assms(1,2)] obtain off base1 where
    add: "cbb_buffer_add malloc k base = (Some off, base1)"
    and put: "put_be k off (unat v) base1 = (base', 0)" .
  have k: "k < 2 ^ 62" using assms(5) by simp
  note g = add_grows [OF assms(3,4) k add]
  have "off + k \<le> cb_len base1" using g(3,4) by simp
  from put_be_inside [OF g(1) this put] have "0 = unat v div 256 ^ k" by simp
  then show ?thesis by (simp add: div_eq_0_iff)
qed

section \<open>Closing a child\<close>

text \<open>What the pending prefix of a child stands for, and the bytes once it is filled in.\<close>

definition prefix_bytes :: "cbb_frame \<Rightarrow> nat \<Rightarrow> byte list" where
  "prefix_bytes c n = (if fr_pending_is_asn1 c then der_len n else be_bytes (fr_pending_len_len c) n)"

definition frame_start :: "cbb_frame \<Rightarrow> nat" where
  "frame_start c = fr_offset c + fr_pending_len_len c"

definition close_frame :: "cbb_frame \<Rightarrow> byte list \<Rightarrow> byte list" where
  "close_frame c bs =
     take (fr_offset c) bs @ prefix_bytes c (length bs - frame_start c) @ drop (frame_start c) bs"

definition frame_ok :: "cbb_frame \<Rightarrow> bool" where
  "frame_ok c \<longleftrightarrow>
     0 < fr_pending_len_len c \<and> fr_pending_len_len c \<le> 4 \<and>
     (fr_pending_is_asn1 c \<longrightarrow> fr_pending_len_len c = 1)"

text \<open>The children of a chain start behind each other's prefixes, the last one inside the buffer.\<close>

fun chain_ok :: "nat \<Rightarrow> cbb_frame list \<Rightarrow> nat \<Rightarrow> bool" where
  "chain_ok pos [] len \<longleftrightarrow> pos \<le> len"
| "chain_ok pos (c # cs) len \<longleftrightarrow> pos \<le> fr_offset c \<and> frame_ok c \<and> chain_ok (frame_start c) cs len"

definition closed :: "cbb_frame list \<Rightarrow> byte list \<Rightarrow> byte list" where
  "closed cs bs = foldr close_frame cs bs"

lemma closed_simps [simp]: "closed [] bs = bs" "closed (c # cs) bs = close_frame c (closed cs bs)"
  by (simp_all add: closed_def)

lemma closed_append: "closed (cs @ ds) bs = closed cs (closed ds bs)"
  by (simp add: closed_def)

lemma frame_start_ge: "fr_offset c \<le> frame_start c"
  by (simp add: frame_start_def)

lemma chain_ok_pos: "chain_ok pos cs len \<Longrightarrow> pos \<le> len"
proof (induction cs arbitrary: pos)
  case (Cons c cs)
  with frame_start_ge [of c] show ?case by (auto intro: order_trans)
qed simp

text \<open>Filling in the prefixes leaves what is in front of them alone.\<close>

lemma closed_before:
  "chain_ok pos cs (length bs) \<Longrightarrow> take pos (closed cs bs) = take pos bs \<and> pos \<le> length (closed cs bs)"
proof (induction cs arbitrary: pos)
  case (Cons c cs)
  then have c: "pos \<le> fr_offset c" and IH: "take (frame_start c) (closed cs bs) = take (frame_start c) bs"
      "frame_start c \<le> length (closed cs bs)"
    by auto
  have le: "pos \<le> frame_start c" using c frame_start_ge [of c] by simp
  have "take pos (take (frame_start c) (closed cs bs)) = take pos (take (frame_start c) bs)"
    using IH(1) by simp
  then have t: "take pos (closed cs bs) = take pos bs" using le by (simp add: min_absorb1)
  have "pos \<le> length (closed cs bs)" using IH(2) le by simp
  then have "take pos (close_frame c (closed cs bs)) = take pos (closed cs bs)"
    using c frame_start_ge [of c] IH(2) by (simp add: close_frame_def min_absorb1)
  moreover have "pos \<le> length (close_frame c (closed cs bs))"
    using c frame_start_ge [of c] IH(2) by (simp add: close_frame_def)
  ultimately show ?case using t by simp
qed simp

subsection \<open>The length octets\<close>

lemma asn1_len_len_spec:
  assumes "asn1_len_len n = Some (k, b)"
  shows "n < 2 ^ 32" and "der_len n = b # be_bytes (k - 1) (if k = 1 then 0 else n)" and "0 < k" and "k \<le> 5"
    and "(if k = 1 then 0 else n) div 256 ^ (k - 1) = 0"
proof -
  have o: "(0x80 :: byte) OR 4 = of_nat (128 + 4)" "(0x80 :: byte) OR 3 = of_nat (128 + 3)"
    "(0x80 :: byte) OR 2 = of_nat (128 + 2)" "(0x80 :: byte) OR 1 = of_nat (128 + 1)"
    by simp_all
  consider "n \<le> 0x7F" "k = 1" "b = of_nat n"
    | "0x7F < n" "n \<le> 0xFF" "k = 2" "b = of_nat (128 + 1)"
    | "0xFF < n" "n \<le> 0xFFFF" "k = 3" "b = of_nat (128 + 2)"
    | "0xFFFF < n" "n \<le> 0xFFFFFF" "k = 4" "b = of_nat (128 + 3)"
    | "0xFFFFFF < n" "n \<le> 0xFFFFFFFE" "k = 5" "b = of_nat (128 + 4)"
    using assms o by (auto simp: asn1_len_len_def split: if_splits)
  then have "n < 2 ^ 32 \<and> der_len n = b # be_bytes (k - 1) (if k = 1 then 0 else n) \<and> 0 < k \<and> k \<le> 5 \<and>
    (if k = 1 then 0 else n) div 256 ^ (k - 1) = 0"
  proof cases
    case 1
    then show ?thesis by (simp add: der_len_short)
  next
    case 2
    then have "der_len n = of_nat (128 + 1) # be_bytes 1 n" by (intro der_len_long) simp_all
    with 2 show ?thesis by simp
  next
    case 3
    then have "der_len n = of_nat (128 + 2) # be_bytes 2 n" by (intro der_len_long) simp_all
    with 3 show ?thesis by simp
  next
    case 4
    then have "der_len n = of_nat (128 + 3) # be_bytes 3 n" by (intro der_len_long) simp_all
    with 4 show ?thesis by simp
  next
    case 5
    then have "der_len n = of_nat (128 + 4) # be_bytes 4 n" by (intro der_len_long) simp_all
    with 5 show ?thesis by simp
  qed
  then show "n < 2 ^ 32" and "der_len n = b # be_bytes (k - 1) (if k = 1 then 0 else n)" and "0 < k" and "k \<le> 5"
    and "(if k = 1 then 0 else n) div 256 ^ (k - 1) = 0"
    by simp_all
qed

lemma move_inside:
  assumes ok: "cb_ok base" and fits: "to + n \<le> cb_len base" "from + n \<le> cb_len base"
  shows "cb_ok (cb_move to from n base)"
    and "cb_bytes (cb_move to from n base) = splice to (take n (drop from (cb_bytes base))) (cb_bytes base)"
    and "cb_len (cb_move to from n base) = cb_len base" and "cb_error (cb_move to from n base) = cb_error base"
proof -
  have "cb_move to from n base = cb_write to (take n (drop from (cb_bytes base))) base"
  proof (cases "cb_buf base")
    case (Some b)
    obtain hdr mem where b: "cb_buf base = Some (hdr, mem)" using Some by (cases b) simp
    have "take n (drop from (take (cb_len base) mem)) = take n (drop from mem)"
      using fits(2) by (simp add: drop_take min_absorb1)
    with b show ?thesis by (simp add: cb_move_def cb_write_def poke_def cb_bytes_def)
  qed (simp add: cb_move_def cb_write_def poke_def)
  moreover have "to + length (take n (drop from (cb_bytes base))) \<le> cb_len base" using fits by simp
  note w = write_inside [OF ok this]
  ultimately show "cb_ok (cb_move to from n base)"
    and "cb_bytes (cb_move to from n base) = splice to (take n (drop from (cb_bytes base))) (cb_bytes base)"
    and "cb_len (cb_move to from n base) = cb_len base" and "cb_error (cb_move to from n base) = cb_error base"
    by simp_all
qed

text \<open>The moving case, on the bytes.\<close>

lemma open_gap:
  assumes len: "length bs1 = length bs + extra" "take (length bs) bs1 = bs" and start: "Suc off \<le> length bs"
    and X: "length X = extra"
  defines "n \<equiv> length bs - Suc off"
  shows "splice (Suc off) X (splice off [b] (splice (Suc off + extra) (take n (drop (Suc off) bs1)) bs1)) =
     take off bs @ (b # X) @ drop (Suc off) bs"
proof -
  have body: "take n (drop (Suc off) bs1) = drop (Suc off) bs"
    unfolding n_def using start by (simp only: drop_take [symmetric] len(2))
  let ?bs2 = "splice (Suc off + extra) (drop (Suc off) bs) bs1"
  have l2: "length ?bs2 = length bs + extra" using len start by simp
  have "splice (Suc off) X (splice off [b] ?bs2) = splice off (b # X) ?bs2"
    using splice_splice [of off "[b]" X ?bs2] l2 start X by simp
  also have "\<dots> = take off ?bs2 @ (b # X) @ drop (off + Suc extra) ?bs2" using X by (simp add: splice_def)
  also have "take off ?bs2 = take off bs"
  proof -
    have "take off ?bs2 = take off bs1" using len(1) start by (intro take_splice_before) simp_all
    also have "\<dots> = take off (take (length bs) bs1)" using start by (simp add: min_absorb1)
    finally show ?thesis by (simp only: len(2))
  qed
  also have "drop (off + Suc extra) ?bs2 = drop (Suc off) bs"
    using len start by (simp add: splice_def)
  finally show ?thesis unfolding body .
qed

lemma flush_prefix_closes:
  assumes a: "allocator malloc" and ok: "cb_ok base" and c: "frame_ok c" and start: "frame_start c \<le> cb_len base"
    and f: "flush_prefix malloc c (frame_start c) base = (Some u, base')"
  shows "cb_ok base' \<and> cb_bytes base' = close_frame c (cb_bytes base) \<and> cb_error base' = cb_error base"
proof -
  have len: "length (cb_bytes base) = cb_len base" by (rule length_cb_bytes [OF ok])
  let ?off = "fr_offset c" and ?n = "cb_len base - frame_start c"
  show ?thesis
  proof (cases "fr_pending_is_asn1 c")
    case False
    let ?p = "fr_pending_len_len c"
    obtain base1 l where put: "put_be ?p ?off ?n base = (base1, l)" by (cases "put_be ?p ?off ?n base")
    with f False have b: "base' = base1" by (simp add: flush_prefix_def Let_def split: if_splits)
    have "?off + ?p \<le> cb_len base" using start by (simp add: frame_start_def)
    from put_be_inside [OF ok this put] b len False show ?thesis
      by (simp add: close_frame_def prefix_bytes_def splice_def frame_start_def)
  next
    case True
    with c have s: "frame_start c = Suc ?off" by (simp add: frame_ok_def frame_start_def)
    obtain k b where kb: "asn1_len_len ?n = Some (k, b)"
      using f True by (cases "asn1_len_len ?n") (auto simp: flush_prefix_def Let_def)
    note ll = asn1_len_len_spec [OF kb]
    define n' where "n' = (if k = 1 then 0 else ?n)"
    have goal: "close_frame c (cb_bytes base) =
        take ?off (cb_bytes base) @ (b # be_bytes (k - 1) n') @ drop (Suc ?off) (cb_bytes base)"
      using True len s ll(2) by (simp add: close_frame_def prefix_bytes_def n'_def)
    show ?thesis
    proof (cases "k = 1")
      case True
      have "base' = cb_write ?off [b] base"
        using f \<open>fr_pending_is_asn1 c\<close> kb True by (simp add: flush_prefix_def Let_def andthen_def ret_def)
      with write_inside [OF ok, of ?off "[b]"] start s goal True show ?thesis by (simp add: splice_def)
    next
      case False
      obtain ra base1 where add': "cbb_buffer_add malloc (k - 1) base = (ra, base1)"
        by (cases "cbb_buffer_add malloc (k - 1) base")
      have r: "ra \<noteq> None \<and> (let base = cb_write ?off [b] (cb_move (frame_start c + (k - 1)) (frame_start c) ?n base1)
              in case put_be (k - 1) (?off + 1) ?n base of
                   (base', l) \<Rightarrow> if l \<noteq> 0 then (None, base') else (Some (), base')) = (Some u, base')"
        using f \<open>fr_pending_is_asn1 c\<close> kb False add'
        by (cases ra) (simp_all add: flush_prefix_def Let_def andthen_def)
      then obtain o1 where add: "cbb_buffer_add malloc (k - 1) base = (Some o1, base1)" using add' by auto
      have small: "k - 1 < 2 ^ 62" using ll(4) by simp
      note g = add_grows [OF a ok small add]
      let ?base2 = "cb_move (frame_start c + (k - 1)) (frame_start c) ?n base1"
      have m1: "frame_start c + (k - 1) + ?n \<le> cb_len base1" "frame_start c + ?n \<le> cb_len base1"
        using g(3) start by simp_all
      note m = move_inside [OF g(1) m1]
      have w1: "?off + length [b] \<le> cb_len ?base2" using m(3) g(3) start s by simp
      note w = write_inside [OF m(1) w1]
      let ?base3 = "cb_write ?off [b] ?base2"
      have p1: "?off + 1 + (k - 1) \<le> cb_len ?base3" using w(3) m(3) g(3) start s by simp
      obtain base4 l where put: "put_be (k - 1) (?off + 1) ?n ?base3 = (base4, l)"
        by (cases "put_be (k - 1) (?off + 1) ?n ?base3")
      with r have b': "base' = base4" by (simp add: Let_def split: if_splits)
      note p = put_be_inside [OF w(1) p1 put]
      have len1: "length (cb_bytes base1) = length (cb_bytes base) + (k - 1)"
        using length_cb_bytes [OF g(1)] g(3) len by simp
      have t1: "take (length (cb_bytes base)) (cb_bytes base1) = cb_bytes base" using g(2) len by simp
      have "cb_bytes base4 = take ?off (cb_bytes base) @ (b # be_bytes (k - 1) ?n) @ drop (Suc ?off) (cb_bytes base)"
        using open_gap [OF len1 t1, of ?off "be_bytes (k - 1) ?n" b] p w m start s len by simp
      with p w m g b' goal False show ?thesis by (simp add: n'_def)
    qed
  qed
qed

lemma flush_chain_closes:
  "allocator malloc \<Longrightarrow> cb_ok base \<Longrightarrow> chain_ok pos cs (cb_len base) \<Longrightarrow>
   flush_chain malloc cs base = (True, cs', base') \<Longrightarrow>
   cs' = [] \<and> cb_ok base' \<and> cb_bytes base' = closed cs (cb_bytes base) \<and> \<not> cb_error base \<and> \<not> cb_error base'"
proof (induction cs arbitrary: pos base cs' base')
  case (Cons c cs)
  have c: "frame_ok c" "chain_ok (frame_start c) cs (cb_len base)" using Cons.prems(3) by simp_all
  have "frame_start c \<le> cb_len base" by (rule chain_ok_pos [OF c(2)])
  then have w: "size_wrap (fr_offset c + fr_pending_len_len c) = frame_start c"
    using cb_ok_small [OF Cons.prems(2)] by (simp add: frame_start_def)
  obtain ok1 cs1 base1 where rec: "flush_chain malloc cs base = (ok1, cs1, base1)"
    by (cases "flush_chain malloc cs base")
  obtain x base2 where fp: "flush_prefix malloc c (frame_start c) base1 = (x, base2)"
    by (cases "flush_prefix malloc c (frame_start c) base1")
  from Cons.prems(4) c(1) w rec fp have ok1: "ok1" and x: "x \<noteq> None" and r: "cs' = []" "base' = base2"
      and start: "frame_start c \<le> cb_len base1" and e: "\<not> cb_error base"
    by (auto simp: frame_ok_def Let_def split: if_splits option.splits)
  from Cons.IH [OF Cons.prems(1,2) c(2), of cs1 base1] rec ok1
  have IH: "cb_ok base1" "cb_bytes base1 = closed cs (cb_bytes base)" "\<not> cb_error base1" by simp_all
  from x obtain u where "x = Some u" by auto
  with flush_prefix_closes [OF Cons.prems(1) IH(1) c(1) start] fp
  have "cb_ok base2 \<and> cb_bytes base2 = close_frame c (cb_bytes base1) \<and> cb_error base2 = cb_error base1" by simp
  with IH r e show ?case by simp
qed simp

section \<open>A chain of builders\<close>

definition cbb_ok :: "cbb \<Rightarrow> bool" where
  "cbb_ok cbb \<longleftrightarrow>
     (case cbb_base cbb of
        None \<Rightarrow> False
      | Some base \<Rightarrow> cb_ok base \<and> cbb_chain cbb \<noteq> [] \<and> chain_ok 0 (tl (cbb_chain cbb)) (cb_len base))"

definition base_bytes :: "cbb \<Rightarrow> byte list" where
  "base_bytes cbb = (case cbb_base cbb of None \<Rightarrow> [] | Some base \<Rightarrow> cb_bytes base)"

text \<open>The bytes up to and including the \<open>CBB\<close> at depth \<open>d\<close>, its descendants closed.\<close>

definition view :: "nat \<Rightarrow> cbb \<Rightarrow> byte list" where
  "view d cbb = closed (drop (Suc d) (cbb_chain cbb)) (base_bytes cbb)"

lemma view_child:
  "Suc d < length (cbb_chain cbb) \<Longrightarrow> view d cbb = close_frame (cbb_chain cbb ! Suc d) (view (Suc d) cbb)"
  by (simp add: view_def Cons_nth_drop_Suc [symmetric])

lemma chain_ok_drop:
  "chain_ok pos cs len \<Longrightarrow> \<exists>pos'. chain_ok pos' (drop k cs) len"
proof (induction cs arbitrary: pos k)
  case (Cons c cs)
  show ?case
  proof (cases k)
    case 0
    with Cons.prems show ?thesis by auto
  next
    case (Suc j)
    with Cons.IH [of "frame_start c" j] Cons.prems show ?thesis by simp
  qed
qed auto

text \<open>Cutting a chain after \<open>k\<close> children, with the rest closed.\<close>

lemma chain_ok_take:
  "chain_ok pos cs (length bs) \<Longrightarrow> chain_ok pos (take k cs) (length (closed (drop k cs) bs))"
proof (induction cs arbitrary: pos k)
  case (Cons c cs)
  show ?case
  proof (cases k)
    case 0
    have "pos \<le> length (closed (c # cs) bs)" using closed_before [OF Cons.prems] by simp
    with 0 show ?thesis by simp
  next
    case (Suc j)
    with Cons.IH [of "frame_start c" j] Cons.prems show ?thesis by simp
  qed
qed simp

lemma flush_spec:
  assumes a: "allocator malloc" and ok: "cbb_ok cbb" and d: "d < length (cbb_chain cbb)"
    and f: "CBB_flush malloc d cbb = (Some u, cbb')"
  shows "cbb_ok cbb'" and "cbb_chain cbb' = take (Suc d) (cbb_chain cbb)" and "base_bytes cbb' = view d cbb"
    and "view d cbb' = view d cbb"
proof -
  from ok obtain base where b: "cbb_base cbb = Some base" "cb_ok base"
      "chain_ok 0 (tl (cbb_chain cbb)) (cb_len base)"
    by (auto simp: cbb_ok_def split: option.splits)
  obtain c0 cs where ch: "cbb_chain cbb = c0 # cs" using d by (cases "cbb_chain cbb") auto
  obtain okf cs' base' where fc: "flush_chain malloc (drop d cs) base = (okf, cs', base')"
    by (cases "flush_chain malloc (drop d cs) base")
  with f b(1) d ch have okf: "okf" and r: "cbb' = \<lparr>cbb_base = Some base', cbb_chain = take (Suc d) (cbb_chain cbb) @ cs'\<rparr>"
    by (auto simp: CBB_flush_def split: if_splits)
  obtain pos where "chain_ok pos (drop d cs) (cb_len base)" using chain_ok_drop [of 0 cs] b(3) ch by auto
  from flush_chain_closes [OF a b(2) this, of cs' base'] fc okf
  have fl: "cs' = []" "cb_ok base'" "cb_bytes base' = closed (drop d cs) (cb_bytes base)" by simp_all
  have "chain_ok 0 (take d cs) (length (closed (drop d cs) (cb_bytes base)))"
    by (rule chain_ok_take) (use b(3) ch length_cb_bytes [OF b(2)] in simp)
  then have "chain_ok 0 (take d cs) (cb_len base')" using fl(3) length_cb_bytes [OF fl(2)] by simp
  then show "cbb_ok cbb'" using fl r ch by (simp add: cbb_ok_def)
  show "cbb_chain cbb' = take (Suc d) (cbb_chain cbb)" using r fl(1) by simp
  show "base_bytes cbb' = view d cbb" using r fl(3) b(1) ch by (simp add: base_bytes_def view_def)
  then show "view d cbb' = view d cbb" using r fl(1) by (simp add: view_def)
qed

text \<open>A successful operation on the base after a flush: it may append bytes, never touch those in front.\<close>

lemma on_base_appends:
  assumes ok: "cbb_ok cbb" and d: "length (cbb_chain cbb) = Suc d"
    and r: "on_base m cbb = (Some x, cbb')"
    and m: "\<And>base base'. cb_ok base \<Longrightarrow> m base = (Some x, base') \<Longrightarrow> cb_ok base' \<and> cb_bytes base' = cb_bytes base @ out"
  shows "cbb_ok cbb'" and "cbb_chain cbb' = cbb_chain cbb" and "view d cbb' = view d cbb @ out"
proof -
  from ok obtain base where b: "cbb_base cbb = Some base" "cb_ok base" "cbb_chain cbb \<noteq> []"
      "chain_ok 0 (tl (cbb_chain cbb)) (cb_len base)"
    by (auto simp: cbb_ok_def split: option.splits)
  from r b(1) obtain base' where mb: "m base = (Some x, base')" and c: "cbb' = cbb\<lparr>cbb_base := Some base'\<rparr>"
    by (auto simp: on_base_def split: prod.splits)
  from m [OF b(2) mb] have b': "cb_ok base'" "cb_bytes base' = cb_bytes base @ out" by simp_all
  have "cb_len base \<le> cb_len base'" using length_cb_bytes [OF b(2)] length_cb_bytes [OF b'(1)] b'(2) by simp
  moreover have "chain_ok p cs n \<Longrightarrow> n \<le> m \<Longrightarrow> chain_ok p cs m" for p cs n m
    by (induction cs arbitrary: p) auto
  ultimately show "cbb_ok cbb'" using b b'(1) c by (auto simp: cbb_ok_def)
  show "cbb_chain cbb' = cbb_chain cbb" using c by simp
  show "view d cbb' = view d cbb @ out" using c d b(1) b'(2) by (simp add: view_def base_bytes_def)
qed

section \<open>The contract of an appending operation\<close>

text \<open>
  The operations of the builder share one contract: on success they have appended exactly
  \<open>out\<close> to the \<open>CBB\<close> they were called on and left that \<open>CBB\<close> and its ancestors
  in place. The allocator is an argument, so the contract holds for every one that keeps its promise.
\<close>

definition extends :: "nat \<Rightarrow> cbb \<Rightarrow> cbb \<Rightarrow> byte list \<Rightarrow> bool" where
  "extends d cbb cbb' out \<longleftrightarrow>
     cbb_ok cbb' \<and> d < length (cbb_chain cbb') \<and>
     take (Suc d) (cbb_chain cbb') = take (Suc d) (cbb_chain cbb) \<and> view d cbb' = view d cbb @ out \<and>
     (length (cbb_chain cbb) = Suc d \<longrightarrow> length (cbb_chain cbb') = Suc d)"

locale cbb_appender =
  fixes d :: nat and w :: "malloc \<Rightarrow> (cbb, 'a) op" and out :: "byte list"
  assumes appends: "allocator malloc \<Longrightarrow> cbb_ok cbb \<Longrightarrow> d < length (cbb_chain cbb) \<Longrightarrow>
     w malloc cbb = (Some x, cbb') \<Longrightarrow> extends d cbb cbb' out"
begin

lemma appended:
  assumes "allocator malloc" and "cbb_ok cbb" and "d < length (cbb_chain cbb)"
    and "w malloc cbb = (Some x, cbb')"
  shows "cbb_ok cbb'" and "d < length (cbb_chain cbb')"
    and "take (Suc d) (cbb_chain cbb') = take (Suc d) (cbb_chain cbb)" and "view d cbb' = view d cbb @ out"
    and "length (cbb_chain cbb) = Suc d \<Longrightarrow> length (cbb_chain cbb') = Suc d"
  using appends [OF assms] by (simp_all add: extends_def)

end

lemma extends_trans: "extends d cbb cbb1 out \<Longrightarrow> extends d cbb1 cbb2 out' \<Longrightarrow> extends d cbb cbb2 (out @ out')"
  by (simp add: extends_def)

lemma appender_then:
  assumes m: "cbb_appender d m out" and k: "\<And>x. cbb_appender d (k x) out'"
  shows "cbb_appender d (\<lambda>a. andthen (m a) (\<lambda>x. k x a)) (out @ out')"
proof
  fix malloc cbb x cbb'
  assume a: "allocator malloc" and ok: "cbb_ok cbb" and d: "d < length (cbb_chain cbb)"
    and r: "andthen (m malloc) (\<lambda>x. k x malloc) cbb = (Some x, cbb')"
  from r obtain y cbb1 where 1: "m malloc cbb = (Some y, cbb1)" and 2: "k y malloc cbb1 = (Some x, cbb')"
    by (auto simp: andthen_Some)
  note s1 = cbb_appender.appended [OF m a ok d 1]
  show "extends d cbb cbb' (out @ out')"
    by (rule extends_trans [OF cbb_appender.appends [OF m a ok d 1] cbb_appender.appends [OF k a s1(1,2) 2]])
qed

lemma appender_ret: "cbb_appender d (\<lambda>a. ret x) []"
  by unfold_locales (simp add: extends_def)

lemma appender_if: "(b \<Longrightarrow> cbb_appender d m out) \<Longrightarrow> (\<not> b \<Longrightarrow> cbb_appender d m' out) \<Longrightarrow>
   cbb_appender d (\<lambda>a. if b then m a else m' a) out"
  by (cases b) simp_all

lemma appender_flush: "cbb_appender d (\<lambda>a. CBB_flush a d) []"
proof
  fix malloc cbb x cbb'
  assume "allocator malloc" and "cbb_ok cbb" and d: "d < length (cbb_chain cbb)"
    and "CBB_flush malloc d cbb = (Some x, cbb')"
  from flush_spec [OF this] d show "extends d cbb cbb' []" by (simp add: extends_def)
qed

text \<open>Most operations flush and then work on the buffer.\<close>

lemma appender_base:
  assumes m: "\<And>malloc base x base'. allocator malloc \<Longrightarrow> cb_ok base \<Longrightarrow> m malloc base = (Some x, base') \<Longrightarrow>
      cb_ok base' \<and> cb_bytes base' = cb_bytes base @ out"
  shows "cbb_appender d (\<lambda>a. andthen (CBB_flush a d) (\<lambda>_. on_base (m a))) out"
proof
  fix malloc cbb x cbb'
  assume a: "allocator malloc" and ok: "cbb_ok cbb" and d: "d < length (cbb_chain cbb)"
    and r: "andthen (CBB_flush malloc d) (\<lambda>_. on_base (m malloc)) cbb = (Some x, cbb')"
  from r obtain u cbb1 where 1: "CBB_flush malloc d cbb = (Some u, cbb1)"
    and 2: "on_base (m malloc) cbb1 = (Some x, cbb')"
    by (auto simp: andthen_Some)
  note s = flush_spec [OF a ok d 1]
  have "length (cbb_chain cbb1) = Suc d" using s(2) d by simp
  note o = on_base_appends [OF s(1) this 2 m [OF a]]
  show "extends d cbb cbb' out" unfolding extends_def using o s d by simp
qed

section \<open>The operations\<close>

lemma add_u_contract:
  assumes "k \<le> 4"
  shows "cbb_appender d (\<lambda>a. cbb_add_u a d v k) (be_bytes k (unat v))"
  unfolding cbb_add_u_def
  by (rule appender_base) (use add_u_appends assms in blast)

interpretation add_u8: cbb_appender d "\<lambda>a. CBB_add_u8 a d b" "[b]"
  using add_u_contract [of 1 d "ucast b"] by (simp add: CBB_add_u8_def)

interpretation add_u16: cbb_appender d "\<lambda>a. CBB_add_u16 a d v" "be_bytes 2 (unat v)"
proof -
  have "unat (ucast v :: u32) = unat v"
    using unsigned_less [of v, where 'a = nat] by (simp add: unsigned_ucast_eq take_bit_nat_eq_self)
  then show "cbb_appender d (\<lambda>a. CBB_add_u16 a d v) (be_bytes 2 (unat v))"
    using add_u_contract [of 2 d "ucast v"] by (simp add: CBB_add_u16_def)
qed

interpretation add_u24: cbb_appender d "\<lambda>a. CBB_add_u24 a d v" "be_bytes 3 (unat v)"
  using add_u_contract [of 3 d v] by (simp add: CBB_add_u24_def)

interpretation add_u32: cbb_appender d "\<lambda>a. CBB_add_u32 a d v" "be_bytes 4 (unat v)"
  using add_u_contract [of 4 d v] by (simp add: CBB_add_u32_def)

lemma add_bytes_contract:
  assumes len: "n \<le> length data" "n < 2 ^ 62"
  shows "cbb_appender d (\<lambda>a. CBB_add_bytes a d data n) (take n data)"
  unfolding CBB_add_bytes_def
proof (rule appender_base)
  fix malloc base x base'
  assume a: "allocator malloc" and ok: "cb_ok base"
    and r: "andthen (cbb_buffer_add malloc n) (\<lambda>dest base. (Some (), cb_write dest (take n data) base)) base = (Some x, base')"
  from r obtain off base1 where add: "cbb_buffer_add malloc n base = (Some off, base1)"
    and b: "base' = cb_write off (take n data) base1" by (auto simp: andthen_Some)
  note g = add_grows [OF a ok len(2) add]
  have fits: "off + length (take n data) \<le> cb_len base1" using g len(1) by simp
  note w = write_inside [OF g(1) fits]
  have "length (cb_bytes base1) = cb_len base + n" using length_cb_bytes [OF g(1)] g(3) by simp
  then have "splice off (take n data) (cb_bytes base1) = cb_bytes base @ take n data"
    using g(2,4) len(1) by (simp add: splice_def)
  with w b show "cb_ok base' \<and> cb_bytes base' = cb_bytes base @ take n data" by simp
qed

subsection \<open>Base 128\<close>

fun digits7 :: "nat \<Rightarrow> nat" where
  "digits7 n = (if n = 0 then 0 else Suc (digits7 (n div 128)))"

declare digits7.simps [simp del]

lemma digit_count_eq: "digit_count v = digits7 (unat v)"
proof (induction v rule: digit_count.induct)
  case (1 v)
  have "unat (drop_bit 7 v) = unat v div 128"
    by (simp only: unat_drop_bit_eq) (simp add: drop_bit_eq_div)
  with 1 show ?case by (auto simp: digit_count.simps [of v] digits7.simps [of "unat v"] unat_gt_0)
qed

lemma rev_upt_Suc: "rev [0 ..< Suc k] = map Suc (rev [0 ..< k]) @ [0]"
  by (simp add: upt_conv_Cons map_Suc_upt [symmetric] rev_map del: upt_Suc)

lemma base128_hi_digits:
  "base128_hi m = map (\<lambda>j. of_nat (m div 128 ^ j mod 128 + 128)) (rev [0 ..< digits7 m])"
proof (induction m rule: base128_hi.induct)
  case (1 m)
  show ?case
  proof (cases "m = 0")
    case False
    have s: "m div 128 ^ Suc j = m div 128 div 128 ^ j" for j by (simp add: div_mult2_eq [symmetric])
    have "base128_hi m = base128_hi (m div 128) @ [of_nat (m mod 128 + 128)]"
      using False by (simp add: base128_hi.simps [of m])
    also have "\<dots> = map (\<lambda>j. of_nat (m div 128 ^ j mod 128 + 128)) (rev [0 ..< Suc (digits7 (m div 128))])"
      unfolding 1 [OF False] rev_upt_Suc by (simp add: s del: power_Suc)
    also have "Suc (digits7 (m div 128)) = digits7 m" using False by (simp add: digits7.simps [of m])
    finally show ?thesis .
  qed (simp add: digits7.simps)
qed

text \<open>The digit the loop writes at position \<open>i\<close>.\<close>

definition digit_byte :: "u64 \<Rightarrow> nat \<Rightarrow> byte" where
  "digit_byte v i =
     (let byt = ucast (drop_bit (7 * i) v) AND 0x7F in if i \<noteq> 0 then byt OR 0x80 else byt)"

lemma digit_byte_eq: "digit_byte v i = of_nat (unat v div 128 ^ i mod 128 + (if i \<noteq> 0 then 128 else 0))"
  (is "_ = of_nat ?n")
proof -
  have p: "(2 :: nat) ^ (7 * i) = 128 ^ i" by (simp add: power_mult)
  have lo: "unat ((ucast (drop_bit (7 * i) v) :: byte) AND 0x7F) = unat v div 128 ^ i mod 128"
  proof -
    have "unat ((ucast (drop_bit (7 * i) v) :: byte) AND 0x7F) = unat (ucast (drop_bit (7 * i) v) :: byte) mod 128"
      by (rule take_bit_7_byte)
    also have "unat (ucast (drop_bit (7 * i) v) :: byte) = unat (drop_bit (7 * i) v) mod 256"
      by (simp only: unsigned_ucast_eq) (simp add: take_bit_eq_mod)
    also have "unat (drop_bit (7 * i) v) = unat v div 128 ^ i"
      by (simp only: unat_drop_bit_eq) (simp add: drop_bit_eq_div p)
    finally show ?thesis by (simp add: mod_mod_cancel)
  qed
  then have small: "unat ((ucast (drop_bit (7 * i) v) :: byte) AND 0x7F) < 2 ^ 7" by simp
  have "unat (push_bit 7 (1 :: byte) OR (ucast (drop_bit (7 * i) v) AND 0x7F)) =
      unat (1 :: byte) * 2 ^ 7 + unat ((ucast (drop_bit (7 * i) v) :: byte) AND 0x7F)"
    by (rule unat_push_or [OF _ small]) simp
  then have hi: "unat ((ucast (drop_bit (7 * i) v) :: byte) AND 0x7F OR 0x80) = unat v div 128 ^ i mod 128 + 128"
    using lo by (simp add: or.commute)
  have "unat (digit_byte v i) = ?n"
    using lo hi by (cases "i = 0") (simp_all add: digit_byte_def Let_def)
  then show ?thesis by (rule of_nat_unat_eq)
qed

lemma base128_digits_contract: "cbb_appender d (\<lambda>a. base128_digits a d v k) (map (digit_byte v) (rev [0 ..< k]))"
proof (induction k)
  case 0
  then show ?case using appender_ret [of d "()"] by simp
next
  case (Suc i)
  have "cbb_appender d (\<lambda>a. andthen (CBB_add_u8 a d (digit_byte v i)) (\<lambda>_. base128_digits a d v i))
      ([digit_byte v i] @ map (digit_byte v) (rev [0 ..< i]))"
    by (rule appender_then [OF add_u8.cbb_appender_axioms Suc])
  moreover have "base128_digits a d v (Suc i) =
      andthen (CBB_add_u8 a d (digit_byte v i)) (\<lambda>_. base128_digits a d v i)" for a
    by (simp only: base128_digits.simps digit_byte_def Let_def)
  ultimately show ?case by simp
qed

lemma base128_written:
  "map (digit_byte v) (rev [0 ..< (if digit_count v = 0 then 1 else digit_count v)]) = base128 (unat v)"
proof -
  let ?n = "unat v"
  define k where "k = digits7 (?n div 128)"
  have len: "(if digit_count v = 0 then 1 else digit_count v) = Suc k"
    by (simp add: digit_count_eq digits7.simps [of "unat v"] k_def) (simp add: digits7.simps)
  have s: "?n div 128 ^ Suc j = ?n div 128 div 128 ^ j" for j by (simp add: div_mult2_eq [symmetric])
  show ?thesis
    unfolding len rev_upt_Suc base128_def base128_hi_digits k_def [symmetric]
    by (simp add: digit_byte_eq s del: power_Suc)
qed

interpretation base128_integer: cbb_appender d "\<lambda>a. add_base128_integer a d v" "base128 (unat v)"
proof -
  have "\<And>a. add_base128_integer a d v =
      base128_digits a d v (if digit_count v = 0 then 1 else digit_count v)"
    by (simp add: add_base128_integer_def Let_def)
  then show "cbb_appender d (\<lambda>a. add_base128_integer a d v) (base128 (unat v))"
    using base128_digits_contract [of d v "if digit_count v = 0 then 1 else digit_count v"]
    by (simp only: base128_written)
qed

subsection \<open>Children\<close>

text \<open>The open child of an ASN.1 element or of a length-prefixed string.\<close>

lemma close_child:
  assumes "length bs = frame_start c"
  shows "close_frame c (bs @ body) = take (fr_offset c) bs @ prefix_bytes c (length body) @ body"
  using assms frame_start_ge [of c] by (simp add: close_frame_def)

definition opens :: "nat \<Rightarrow> cbb \<Rightarrow> cbb \<Rightarrow> cbb_frame \<Rightarrow> byte list \<Rightarrow> bool" where
  "opens d cbb cbb' c bs \<longleftrightarrow>
     cbb_ok cbb' \<and> cbb_chain cbb' = take (Suc d) (cbb_chain cbb) @ [c] \<and> base_bytes cbb' = view d cbb @ bs \<and>
     frame_start c = length (view d cbb @ bs)"

lemma opens_view: "d < length (cbb_chain cbb) \<Longrightarrow> opens d cbb cbb' c bs \<Longrightarrow> view (Suc d) cbb' = view d cbb @ bs"
  by (simp add: opens_def view_def)

text \<open>Whatever has been appended to the child, its parent shows it behind the child's prefix once it is
  flushed.\<close>

lemma opens_extends:
  assumes a: "allocator malloc" and d: "d < length (cbb_chain cbb)" and o: "opens d cbb cbb1 c bs"
    and off: "length (view d cbb) \<le> fr_offset c" and e: "extends (Suc d) cbb1 cbb2 body"
    and f: "CBB_flush malloc d cbb2 = (Some u, cbb3)"
  shows "extends d cbb cbb3 (take (fr_offset c - length (view d cbb)) bs @ prefix_bytes c (length body) @ body)"
proof -
  let ?v = "view d cbb"
  have ch: "cbb_chain cbb1 = take (Suc d) (cbb_chain cbb) @ [c]" using o by (simp add: opens_def)
  with e have t: "take (Suc (Suc d)) (cbb_chain cbb2) = take (Suc d) (cbb_chain cbb) @ [c]"
    and l: "Suc d < length (cbb_chain cbb2)" using d by (simp_all add: extends_def)
  have "cbb_chain cbb2 ! Suc d = take (Suc (Suc d)) (cbb_chain cbb2) ! Suc d" by simp
  then have c: "cbb_chain cbb2 ! Suc d = c" unfolding t using d by (simp add: nth_append)
  have "take (Suc d) (take (Suc (Suc d)) (cbb_chain cbb2)) = take (Suc d) (cbb_chain cbb)" unfolding t using d by simp
  then have t': "take (Suc d) (cbb_chain cbb2) = take (Suc d) (cbb_chain cbb)" by simp
  have "view d cbb2 = close_frame c (view (Suc d) cbb2)" using view_child [OF l] c by simp
  also have "view (Suc d) cbb2 = (?v @ bs) @ body" using e opens_view [OF d o] by (simp add: extends_def)
  also have "close_frame c ((?v @ bs) @ body) = take (fr_offset c) (?v @ bs) @ prefix_bytes c (length body) @ body"
    by (rule close_child) (use o in \<open>simp add: opens_def\<close>)
  finally have v: "view d cbb2 = ?v @ take (fr_offset c - length ?v) bs @ prefix_bytes c (length body) @ body"
    using off by simp
  have ok2: "cbb_ok cbb2" and d2: "d < length (cbb_chain cbb2)" using e l by (simp_all add: extends_def)
  from flush_spec [OF a ok2 d2 f] t' v d2 d show ?thesis by (simp add: extends_def)
qed

lemma add_child_opens:
  assumes ok: "cbb_ok cbb1" and ch: "cbb_chain cbb1 = take (Suc d) (cbb_chain cbb)" and d: "d < length (cbb_chain cbb)"
    and v: "base_bytes cbb1 = view d cbb @ bs" and c: "frame_ok c" "frame_start c = length (view d cbb @ bs)"
    and inside: "chain_ok 0 (tl (cbb_chain cbb1)) (fr_offset c)"
  shows "opens d cbb (add_child d c cbb1) c bs"
proof -
  from ok obtain base where b: "cbb_base cbb1 = Some base" "cb_ok base" by (auto simp: cbb_ok_def split: option.splits)
  have len: "cb_len base = length (view d cbb @ bs)" using v b length_cb_bytes [OF b(2)] by (simp add: base_bytes_def)
  have "chain_ok p cs n \<Longrightarrow> n \<le> fr_offset c \<Longrightarrow> chain_ok p (cs @ [c]) (frame_start c)" for p cs n
  proof (induction cs arbitrary: p)
    case Nil
    then show ?case using c(1) frame_start_ge [of c] by simp
  qed simp
  then have "chain_ok 0 (tl (cbb_chain cbb1) @ [c]) (cb_len base)" using inside len c(2) by simp
  moreover have "cbb_chain cbb1 \<noteq> []" using ch d by auto
  ultimately show ?thesis
    using b v c ch d by (simp add: opens_def cbb_ok_def add_child_def base_bytes_def)
qed

lemma cut_view: "length (cbb_chain cbb) = Suc d \<Longrightarrow> base_bytes cbb = view d cbb"
  by (simp add: view_def)

lemma der_tag_high:
  assumes "0x1F \<le> tag AND CBS_ASN1_TAG_NUMBER_MASK"
  shows "der_tag tag = [ucast (drop_bit CBS_ASN1_TAG_SHIFT tag) AND 0xE0 OR 0x1F] @
     base128 (unat (ucast (tag AND CBS_ASN1_TAG_NUMBER_MASK) :: u64))"
proof -
  let ?n = "tag AND CBS_ASN1_TAG_NUMBER_MASK"
  have "\<not> tag_number tag < 31" using assms by (simp add: tag_number_def word_le_nat_alt)
  moreover have "unat (ucast ?n :: u64) = tag_number tag"
    using unsigned_less [of ?n, where 'a = nat]
    by (simp add: tag_number_def unsigned_ucast_eq take_bit_nat_eq_self)
  ultimately show ?thesis by (simp add: der_tag_def tag_bits_def)
qed

lemma der_tag_low:
  assumes "\<not> 0x1F \<le> tag AND CBS_ASN1_TAG_NUMBER_MASK"
  shows "der_tag tag = [ucast (drop_bit CBS_ASN1_TAG_SHIFT tag) AND 0xE0 OR ucast (tag AND CBS_ASN1_TAG_NUMBER_MASK)]"
proof -
  let ?n = "tag AND CBS_ASN1_TAG_NUMBER_MASK"
  have "tag_number tag < 31" using assms by (simp add: tag_number_def word_le_nat_alt)
  moreover have "(ucast ?n :: byte) = of_nat (tag_number tag)" by (simp add: tag_number_def)
  ultimately show ?thesis by (simp add: der_tag_def tag_bits_def)
qed

lemma tag_contract:
  "cbb_appender d
     (\<lambda>a. if 0x1F \<le> tag AND CBS_ASN1_TAG_NUMBER_MASK
          then andthen (CBB_add_u8 a d (ucast (drop_bit CBS_ASN1_TAG_SHIFT tag) AND 0xE0 OR 0x1F))
                 (\<lambda>_. add_base128_integer a d (ucast (tag AND CBS_ASN1_TAG_NUMBER_MASK)))
          else CBB_add_u8 a d (ucast (drop_bit CBS_ASN1_TAG_SHIFT tag) AND 0xE0 OR ucast (tag AND CBS_ASN1_TAG_NUMBER_MASK)))
     (der_tag tag)"
proof (rule appender_if)
  let ?n = "tag AND CBS_ASN1_TAG_NUMBER_MASK"
  assume "0x1F \<le> ?n"
  then show "cbb_appender d
     (\<lambda>a. andthen (CBB_add_u8 a d (ucast (drop_bit CBS_ASN1_TAG_SHIFT tag) AND 0xE0 OR 0x1F))
        (\<lambda>_. add_base128_integer a d (ucast ?n))) (der_tag tag)"
    using appender_then [OF add_u8.cbb_appender_axioms base128_integer.cbb_appender_axioms]
    by (simp add: der_tag_high)
next
  let ?n = "tag AND CBS_ASN1_TAG_NUMBER_MASK"
  assume "\<not> 0x1F \<le> ?n"
  then show "cbb_appender d
     (\<lambda>a. CBB_add_u8 a d (ucast (drop_bit CBS_ASN1_TAG_SHIFT tag) AND 0xE0 OR ucast ?n)) (der_tag tag)"
    using add_u8.cbb_appender_axioms by (simp add: der_tag_low)
qed

text \<open>\<open>CBB_add_asn1\<close> opens a child behind the tag.\<close>

lemma add_asn1_opens:
  assumes a: "allocator malloc" and ok: "cbb_ok cbb" and d: "d < length (cbb_chain cbb)"
    and r: "CBB_add_asn1 malloc d tag cbb = (Some u, cbb')"
  shows "\<exists>c. opens d cbb cbb' c (der_tag tag @ [0]) \<and> fr_pending_is_asn1 c \<and>
     fr_offset c = length (view d cbb @ der_tag tag)"
proof -
  let ?tagw = "\<lambda>a. if 0x1F \<le> tag AND CBS_ASN1_TAG_NUMBER_MASK
          then andthen (CBB_add_u8 a d (ucast (drop_bit CBS_ASN1_TAG_SHIFT tag) AND 0xE0 OR 0x1F))
                 (\<lambda>_. add_base128_integer a d (ucast (tag AND CBS_ASN1_TAG_NUMBER_MASK)))
          else CBB_add_u8 a d (ucast (drop_bit CBS_ASN1_TAG_SHIFT tag) AND 0xE0 OR ucast (tag AND CBS_ASN1_TAG_NUMBER_MASK))"
  from r obtain cbb0 cbb1 cbb2 cbb3 off u0 u1 u2
    where f: "CBB_flush malloc d cbb = (Some u0, cbb0)" and t: "?tagw malloc cbb0 = (Some u1, cbb1)"
      and p: "on_base (\<lambda>base. (Some (cb_len base), base)) cbb1 = (Some off, cbb2)"
      and z: "CBB_add_u8 malloc d 0 cbb2 = (Some u2, cbb3)"
      and c': "cbb' = add_child d (cbb_zero_frame\<lparr>fr_offset := off, fr_pending_len_len := 1, fr_pending_is_asn1 := True\<rparr>) cbb3"
    unfolding CBB_add_asn1_def Let_def andthen_Some by auto
  let ?c = "cbb_zero_frame\<lparr>fr_offset := off, fr_pending_len_len := 1, fr_pending_is_asn1 := True\<rparr>"
  note s0 = flush_spec [OF a ok d f]
  have d0: "length (cbb_chain cbb0) = Suc d" using s0(2) d by simp
  then have d0': "d < length (cbb_chain cbb0)" by simp
  note s1 = cbb_appender.appended [OF tag_contract a s0(1) d0' t]
  have p': "cbb2 = cbb1" and off: "off = length (base_bytes cbb1)"
  proof -
    from s1(1) obtain base where b: "cbb_base cbb1 = Some base" "cb_ok base"
      by (auto simp: cbb_ok_def split: option.splits)
    with p show "cbb2 = cbb1" and "off = length (base_bytes cbb1)"
      by (cases cbb1; auto simp: on_base_def base_bytes_def length_cb_bytes)+
  qed
  have b1: "base_bytes cbb1 = view d cbb @ der_tag tag" using cut_view [OF s1(5) [OF d0]] s1(4) s0(4) by simp
  note s3 = add_u8.appended [OF a s1(1,2) z [unfolded p']]
  have l3: "length (cbb_chain cbb3) = Suc d" by (rule s3(5) [OF s1(5) [OF d0]])
  have ch1: "cbb_chain cbb1 = take (Suc d) (cbb_chain cbb)"
    using s1(3) s0(2) s1(5) [OF d0] d0 by simp
  then have ch3: "cbb_chain cbb3 = take (Suc d) (cbb_chain cbb)" using s3(3) l3 s1(5) [OF d0] by simp
  have b3: "base_bytes cbb3 = view d cbb @ der_tag tag @ [0]"
    using cut_view [OF l3] s3(4) s1(4) s0(4) by simp
  have inside: "chain_ok 0 (tl (cbb_chain cbb3)) (fr_offset ?c)"
  proof -
    from s1(1) obtain base where "cbb_base cbb1 = Some base" "cb_ok base" "chain_ok 0 (tl (cbb_chain cbb1)) (cb_len base)"
      by (auto simp: cbb_ok_def split: option.splits)
    with off ch1 ch3 show ?thesis by (simp add: base_bytes_def length_cb_bytes)
  qed
  have "frame_ok ?c" by (simp add: frame_ok_def)
  moreover have "frame_start ?c = length (view d cbb @ der_tag tag @ [0])"
    using off b1 by (simp add: frame_start_def)
  ultimately have "opens d cbb cbb' ?c (der_tag tag @ [0])"
    unfolding c' using add_child_opens [OF s3(1) ch3 d b3 _ _ inside] by blast
  with off b1 show ?thesis by (intro exI [of _ ?c]) simp
qed

text \<open>A whole element: open it, fill it, flush.\<close>

lemma element_contract:
  assumes w: "cbb_appender (Suc d) w body"
  shows "cbb_appender d (\<lambda>a. andthen (CBB_add_asn1 a d tag) (\<lambda>_. andthen (w a) (\<lambda>_. CBB_flush a d)))
     (der_element tag body)"
proof
  fix malloc cbb x cbb'
  assume a: "allocator malloc" and ok: "cbb_ok cbb" and d: "d < length (cbb_chain cbb)"
    and r: "andthen (CBB_add_asn1 malloc d tag) (\<lambda>_. andthen (w malloc) (\<lambda>_. CBB_flush malloc d)) cbb = (Some x, cbb')"
  from r obtain u cbb1 y cbb2 where 1: "CBB_add_asn1 malloc d tag cbb = (Some u, cbb1)"
    and 2: "w malloc cbb1 = (Some y, cbb2)" and 3: "CBB_flush malloc d cbb2 = (Some x, cbb')"
    by (auto simp: andthen_Some)
  from add_asn1_opens [OF a ok d 1] obtain c where o: "opens d cbb cbb1 c (der_tag tag @ [0])"
    and c: "fr_pending_is_asn1 c" "fr_offset c = length (view d cbb @ der_tag tag)" by blast
  have ok1: "cbb_ok cbb1" "Suc d < length (cbb_chain cbb1)" using o d by (simp_all add: opens_def)
  have "length (view d cbb) \<le> fr_offset c" using c(2) by simp
  from opens_extends [OF a d o this cbb_appender.appends [OF w a ok1 2] 3]
  show "extends d cbb cbb' (der_element tag body)"
    using c by (simp add: der_element_def der_header_def prefix_bytes_def)
qed

subsection \<open>Integers, booleans and octet strings\<close>

lemma be_bytes_map: "be_bytes k n = map (\<lambda>i. of_nat (n div 256 ^ (k - 1 - i))) [0 ..< k]"
proof (induction k arbitrary: n)
  case (Suc k)
  have "n div 256 div 256 ^ (k - 1 - i) = n div 256 ^ (Suc k - 1 - i)" if "i < k" for i
  proof -
    have "Suc k - 1 - i = Suc (k - 1 - i)" using that by simp
    then show ?thesis by (simp only: div_mult2_eq [symmetric] power_Suc)
  qed
  then show ?case using Suc [of "n div 256"] by simp
qed simp

lemma value_bytes: "map (\<lambda>i. ucast (drop_bit (8 * (7 - i)) (v :: u64))) [0 ..< 8] = be_bytes 8 (unat v)"
proof -
  have "(ucast (drop_bit (8 * j) v) :: byte) = of_nat (unat v div 256 ^ j)" for j
  proof -
    have p: "(2 :: nat) ^ (8 * j) = 256 ^ j" by (simp add: power_mult)
    have "unat (drop_bit (8 * j) v) = unat v div 256 ^ j"
      by (simp only: unat_drop_bit_eq) (simp add: drop_bit_eq_div p)
    then have "(of_nat (unat (drop_bit (8 * j) v)) :: byte) = of_nat (unat v div 256 ^ j)" by simp
    then show ?thesis by simp
  qed
  then show ?thesis by (simp only: be_bytes_map) (simp add: upt_rec)
qed

definition skip_zeros :: "byte list \<Rightarrow> byte list" where
  "skip_zeros bs = dropWhile (\<lambda>b. b = 0) bs"

lemma be_val_skip_zeros: "be_val (skip_zeros bs) = be_val bs"
  by (induction bs) (simp_all add: skip_zeros_def be_val_Cons)

lemma uint_body_skip_zeros:
  assumes "n < 256 ^ 8"
  shows "uint_body n =
     (let bs = skip_zeros (be_bytes 8 n)
      in if bs = [] then [0] else (if bit (hd bs) 7 then [0] else []) @ bs)"
proof -
  let ?bs = "skip_zeros (be_bytes 8 n)"
  have v: "be_val ?bs = n" using assms by (simp add: be_val_skip_zeros be_val_be_bytes)
  show ?thesis
  proof (cases "?bs = []")
    case True
    with v have "n = 0" by simp
    with True show ?thesis by (simp add: uint_body_def)
  next
    case False
    then have "hd ?bs \<noteq> 0" unfolding skip_zeros_def by (metis (mono_tags) hd_dropWhile)
    with False be_bytes_count [of ?bs] v have "be_bytes (max 1 (byte_count n)) n = ?bs" by simp
    with False show ?thesis by (simp add: uint_body_def Let_def)
  qed
qed

lemma uint64_loop_started: "cbb_appender d (\<lambda>a. uint64_bytes_loop a d bs True) bs"
proof (induction bs)
  case Nil
  then show ?case using appender_ret [of d True] by simp
next
  case (Cons b bs)
  have e: "uint64_bytes_loop a d (b # bs) True = andthen (CBB_add_u8 a d b) (\<lambda>_. uint64_bytes_loop a d bs True)" for a
    by (rule ext) (simp add: andthen_def ret_def)
  show ?case using appender_then [OF add_u8.cbb_appender_axioms Cons] by (simp only: e append_Cons append_Nil)
qed

lemma uint64_loop_zeros: "uint64_bytes_loop a d bs False = uint64_bytes_loop a d (skip_zeros bs) False"
  by (induction bs) (simp_all add: skip_zeros_def)

lemma uint64_loop_true: "uint64_bytes_loop a d bs True cbb = (Some r, cbb') \<Longrightarrow> r"
  by (induction bs arbitrary: cbb) (auto simp: andthen_Some)

text \<open>The two shapes of the body: all bytes zero, or not.\<close>

lemma uint64_body_zero:
  assumes "skip_zeros (be_bytes 8 (unat v)) = []"
  shows "andthen (uint64_bytes_loop a d (be_bytes 8 (unat (v :: u64))) False)
      (\<lambda>started. if \<not> started then CBB_add_u8 a d 0 else ret ()) = CBB_add_u8 a d 0"
  by (rule ext) (simp add: uint64_loop_zeros [of a d "be_bytes 8 (unat v)"] assms andthen_def ret_def)

lemma uint64_body_nonzero:
  assumes Cons: "skip_zeros (be_bytes 8 (unat v)) = b # bs"
  shows "andthen (uint64_bytes_loop a d (be_bytes 8 (unat (v :: u64))) False)
      (\<lambda>started. if \<not> started then CBB_add_u8 a d 0 else ret ()) =
    andthen (if bit b 7 then CBB_add_u8 a d 0 else ret ())
      (\<lambda>_. andthen (CBB_add_u8 a d b) (\<lambda>_. andthen (uint64_bytes_loop a d bs True) (\<lambda>_. ret ())))"
proof -
  have "b \<noteq> 0" using Cons unfolding skip_zeros_def by (metis (mono_tags) hd_dropWhile list.discI list.sel(1))
  then show ?thesis
    by (intro ext)
       (auto simp: uint64_loop_zeros [of a d "be_bytes 8 (unat v)"] Cons andthen_def and_80 ret_def
         split: prod.splits option.splits dest: uint64_loop_true)
qed

lemma value_bound: "unat (v :: u64) < 256 ^ 8"
  using unsigned_less [of v, where 'a = nat] by simp

lemma uint_body_zero: "skip_zeros (be_bytes 8 (unat (v :: u64))) = [] \<Longrightarrow> uint_body (unat v) = [0]"
  by (simp add: uint_body_skip_zeros [OF value_bound] Let_def)

lemma uint_body_nonzero: "skip_zeros (be_bytes 8 (unat (v :: u64))) = b # bs \<Longrightarrow>
   uint_body (unat v) = (if bit b 7 then [0] else []) @ [b] @ bs @ []"
  by (simp add: uint_body_skip_zeros [OF value_bound] Let_def)

lemma uint64_body_contract:
  "cbb_appender d (\<lambda>a. andthen (uint64_bytes_loop a d (be_bytes 8 (unat v)) False)
      (\<lambda>started. if \<not> started then CBB_add_u8 a d 0 else ret ())) (uint_body (unat (v :: u64)))"
proof (cases "skip_zeros (be_bytes 8 (unat v))")
  case Nil
  show ?thesis
    unfolding uint64_body_zero [OF Nil] uint_body_zero [OF Nil] by (rule add_u8.cbb_appender_axioms)
next
  case (Cons b bs)
  have 1: "cbb_appender d (\<lambda>a. if bit b 7 then CBB_add_u8 a d 0 else ret ()) (if bit b 7 then [0] else [])"
    using add_u8.cbb_appender_axioms [of d 0] appender_ret [of d "()"] by simp
  have 2: "cbb_appender d (\<lambda>a. andthen (uint64_bytes_loop a d bs True) (\<lambda>_. ret ())) (bs @ [])"
    by (rule appender_then [OF uint64_loop_started appender_ret])
  show ?thesis
    using appender_then [OF 1 appender_then [OF add_u8.cbb_appender_axioms 2]]
    unfolding uint64_body_nonzero [OF Cons] uint_body_nonzero [OF Cons] by simp
qed

end
