(* ===== verification/DerRoundtrip.thy ===== *)
theory DerRoundtrip
  imports CbbSpec
begin

text \<open>
  The builder against the parser: the typed elements the builder appends, length-prefixed children,
  building a whole message, and reading it back.
\<close>

section \<open>Typed elements\<close>

lemma add_asn1_uint64_eq:
  "CBB_add_asn1_uint64 a d v =
     andthen (CBB_add_asn1 a d CBS_ASN1_INTEGER)
       (\<lambda>_. andthen (andthen (uint64_bytes_loop a (Suc d) (be_bytes 8 (unat v)) False)
            (\<lambda>started. if \<not> started then CBB_add_u8 a (Suc d) 0 else ret ()))
          (\<lambda>_. CBB_flush a d))"
  unfolding CBB_add_asn1_uint64_def value_bytes
  by (rule ext) (simp add: andthen_def split: prod.split option.split)

interpretation asn1_uint64: cbb_appender d "\<lambda>a. CBB_add_asn1_uint64 a d v"
    "der_element CBS_ASN1_INTEGER (uint_body (unat v))"
  unfolding add_asn1_uint64_eq by (rule element_contract [OF uint64_body_contract])

interpretation asn1_bool: cbb_appender d "\<lambda>a. CBB_add_asn1_bool a d v"
    "der_element CBS_ASN1_BOOLEAN (bool_body (v \<noteq> 0))"
  unfolding CBB_add_asn1_bool_def bool_body_def by (rule element_contract [OF add_u8.cbb_appender_axioms])

lemma octet_string_contract:
  "n \<le> length data \<Longrightarrow> n < 2 ^ 62 \<Longrightarrow>
   cbb_appender d (\<lambda>a. CBB_add_asn1_octet_string a d data n) (der_element CBS_ASN1_OCTETSTRING (take n data))"
  unfolding CBB_add_asn1_octet_string_def by (rule element_contract [OF add_bytes_contract])

text \<open>A length-prefixed child.\<close>

lemma add_length_prefixed_opens:
  assumes a: "allocator malloc" and ok: "cbb_ok cbb" and d: "d < length (cbb_chain cbb)" and k: "0 < k" "k \<le> 4"
    and r: "cbb_add_length_prefixed malloc d k cbb = (Some u, cbb')"
  shows "\<exists>c. opens d cbb cbb' c (replicate k 0) \<and> \<not> fr_pending_is_asn1 c \<and> fr_pending_len_len c = k \<and>
     fr_offset c = length (view d cbb)"
proof -
  let ?m = "andthen (cbb_buffer_add malloc k) (\<lambda>off base. (Some off, cb_write off (replicate k 0) base))"
  from r obtain u0 cbb0 off cbb1 where f: "CBB_flush malloc d cbb = (Some u0, cbb0)"
    and b: "on_base ?m cbb0 = (Some off, cbb1)"
    and c': "cbb' = add_child d (cbb_zero_frame\<lparr>fr_offset := off, fr_pending_len_len := k\<rparr>) cbb1"
    by (auto simp: cbb_add_length_prefixed_def andthen_Some)
  let ?c = "cbb_zero_frame\<lparr>fr_offset := off, fr_pending_len_len := k\<rparr>"
  note s0 = flush_spec [OF a ok d f]
  have d0: "length (cbb_chain cbb0) = Suc d" using s0(2) d by simp
  have step: "cb_ok base' \<and> cb_bytes base' = cb_bytes base @ replicate k 0 \<and> o1 = cb_len base"
    if "cb_ok base" and "?m base = (Some o1, base')" for base base' o1
  proof -
    from that(2) obtain base1 where add: "cbb_buffer_add malloc k base = (Some o1, base1)"
      and w: "base' = cb_write o1 (replicate k 0) base1" by (auto simp: andthen_Some)
    have "k < 2 ^ 62" using k by simp
    note g = add_grows [OF a that(1) this add]
    have "o1 + length (replicate k (0 :: byte)) \<le> cb_len base1" using g(3,4) by simp
    note wi = write_inside [OF g(1) this]
    have "length (cb_bytes base1) = cb_len base + k" using length_cb_bytes [OF g(1)] g(3) by simp
    with g(2,4) wi(2) w have "cb_bytes base' = cb_bytes base @ replicate k 0" by (simp add: splice_def)
    with wi(1) w g(4) show ?thesis by simp
  qed
  have app: "cb_ok base' \<and> cb_bytes base' = cb_bytes base @ replicate k 0"
    if "cb_ok base" and "?m base = (Some off, base')" for base base'
    using step [OF that] by simp
  note o = on_base_appends [OF s0(1) d0 b app]
  from s0(1) obtain base where base: "cbb_base cbb0 = Some base" "cb_ok base"
      "chain_ok 0 (tl (cbb_chain cbb0)) (cb_len base)"
    by (auto simp: cbb_ok_def split: option.splits)
  obtain base' where mb: "?m base = (Some off, base')"
    using b base(1) by (cases "?m base") (auto simp: on_base_def)
  have off: "off = length (view d cbb)"
    using step [OF base(2) mb] length_cb_bytes [OF base(2)] s0(3) base(1) by (simp add: base_bytes_def)
  have l1: "length (cbb_chain cbb1) = Suc d" using o(2) d0 by simp
  have v1: "base_bytes cbb1 = view d cbb @ replicate k 0" using cut_view [OF l1] o(3) s0(4) by simp
  have "chain_ok 0 (tl (cbb_chain cbb1)) (fr_offset ?c)"
    using base(3) o(2) step [OF base(2) mb] by simp
  moreover have "frame_ok ?c" using k by (simp add: frame_ok_def cbb_zero_frame_def)
  moreover have "frame_start ?c = length (view d cbb @ replicate k 0)" using off by (simp add: frame_start_def)
  moreover have "cbb_chain cbb1 = take (Suc d) (cbb_chain cbb)" using o(2) s0(2) by simp
  ultimately have "opens d cbb cbb' ?c (replicate k 0)"
    unfolding c' using add_child_opens [OF o(1) _ d v1] by blast
  with off show ?thesis by (intro exI [of _ ?c]) (simp add: cbb_zero_frame_def)
qed

lemma length_prefixed_contract:
  assumes w: "cbb_appender (Suc d) w body" and k: "0 < k" "k \<le> 4"
  shows "cbb_appender d (\<lambda>a. andthen (cbb_add_length_prefixed a d k) (\<lambda>_. andthen (w a) (\<lambda>_. CBB_flush a d)))
     (be_bytes k (length body) @ body)"
proof
  fix malloc cbb x cbb'
  assume a: "allocator malloc" and ok: "cbb_ok cbb" and d: "d < length (cbb_chain cbb)"
    and r: "andthen (cbb_add_length_prefixed malloc d k) (\<lambda>_. andthen (w malloc) (\<lambda>_. CBB_flush malloc d)) cbb = (Some x, cbb')"
  from r obtain u cbb1 y cbb2 where 1: "cbb_add_length_prefixed malloc d k cbb = (Some u, cbb1)"
    and 2: "w malloc cbb1 = (Some y, cbb2)" and 3: "CBB_flush malloc d cbb2 = (Some x, cbb')"
    by (auto simp: andthen_Some)
  from add_length_prefixed_opens [OF a ok d k 1] obtain c where o: "opens d cbb cbb1 c (replicate k 0)"
    and c: "\<not> fr_pending_is_asn1 c" "fr_pending_len_len c = k" "fr_offset c = length (view d cbb)" by blast
  have ok1: "cbb_ok cbb1" "Suc d < length (cbb_chain cbb1)" using o d by (simp_all add: opens_def)
  have "length (view d cbb) \<le> fr_offset c" using c(3) by simp
  from opens_extends [OF a d o this cbb_appender.appends [OF w a ok1 2] 3]
  show "extends d cbb cbb' (be_bytes k (length body) @ body)" using c by (simp add: prefix_bytes_def)
qed


section \<open>Whole messages\<close>

lemma cbb_init_ok:
  assumes a: "allocator malloc" and cap: "cap < 2 ^ 62" and i: "CBB_init malloc cap = (Some u, cbb)"
  shows "cbb_ok cbb" and "length (cbb_chain cbb) = 1" and "view 0 cbb = []"
proof -
  obtain b where m: "OPENSSL_malloc malloc cap = b" by simp
  with i have c: "cbb = \<lparr>cbb_base = Some \<lparr>cb_buf = b, cb_len = 0, cb_cap = cap, cb_can_resize = True, cb_error = False\<rparr>,
      cbb_chain = [cbb_zero_frame\<lparr>fr_is_top_level := True\<rparr>]\<rparr>" and nb: "0 < cap \<Longrightarrow> b \<noteq> None"
    by (auto simp: CBB_init_def cbb_init_def Let_def split: if_splits option.splits)
  have "cap + 8 < 2 ^ 64" using cap by simp
  with m malloc_block [OF a] cap have "\<And>x. b = Some x \<Longrightarrow> block_ok x \<and> length (payload x) = cap" by blast
  with cap nb show "cbb_ok cbb" by (cases b) (auto simp: c cbb_ok_def cb_ok_def)
  show "length (cbb_chain cbb) = 1" "view 0 cbb = []"
    by (cases b; simp add: c view_def base_bytes_def cb_bytes_def)+
qed

text \<open>What \<open>CBB_finish\<close> hands out.\<close>

lemma finish_bytes:
  assumes a: "allocator malloc" and ok: "cbb_ok cbb" and f: "CBB_finish malloc p q 0 cbb = (Some (out, n), cbb')"
  shows "n = length (view 0 cbb)" and "n < 2 ^ 63"
    and "case out of None \<Rightarrow> view 0 cbb = [] | Some b \<Rightarrow> n \<le> length (payload b) \<and> take n (payload b) = view 0 cbb"
proof -
  have d: "0 < length (cbb_chain cbb)" using ok by (auto simp: cbb_ok_def split: option.splits)
  from f obtain u cbb1 base where fl: "CBB_flush malloc 0 cbb = (Some u, cbb1)" and b: "cbb_base cbb1 = Some base"
    and r: "out = cb_buf base" "n = cb_len base"
    by (auto simp: CBB_finish_def andthen_Some split: if_splits option.splits)
  note s = flush_spec [OF a ok d fl]
  have okb: "cb_ok base" using s(1) b by (simp add: cbb_ok_def)
  have v: "cb_bytes base = view 0 cbb" using s(3) b by (simp add: base_bytes_def)
  show "n = length (view 0 cbb)" using length_cb_bytes [OF okb] v r by simp
  show "n < 2 ^ 63" using cb_ok_small [OF okb] r by simp
  show "case out of None \<Rightarrow> view 0 cbb = [] | Some b \<Rightarrow> n \<le> length (payload b) \<and> take n (payload b) = view 0 cbb"
    using okb v r by (auto simp: cb_bytes_def cb_ok_def split: option.split)
qed

text \<open>Building: initialise, run a writer, finish.\<close>

definition build :: "malloc \<Rightarrow> size_t \<Rightarrow> (cbb, 'a) op \<Rightarrow> (block option \<times> size_t) option" where
  "build malloc cap w =
     (case CBB_init malloc cap of
        (None, cbb) \<Rightarrow> None
      | (Some _, cbb) \<Rightarrow> fst (andthen w (\<lambda>_. CBB_finish malloc False False 0) cbb))"

text \<open>The string a caller makes from the output.\<close>

definition reparse :: "block option \<Rightarrow> size_t \<Rightarrow> cbs" where
  "reparse out n = CBS_init (case out of None \<Rightarrow> [] | Some b \<Rightarrow> payload b) n"

lemma build_bytes:
  assumes a: "allocator malloc" and cap: "cap < 2 ^ 62" and w: "cbb_appender 0 w bytes"
    and b: "build malloc cap (w malloc) = Some (out, n)"
  shows "cbs_ok (reparse out n)" and "cbs_view (reparse out n) = bytes"
proof -
  from b obtain u cbb where i: "CBB_init malloc cap = (Some u, cbb)"
    and w0: "fst (andthen (w malloc) (\<lambda>_. CBB_finish malloc False False 0) cbb) = Some (out, n)"
    by (auto simp: build_def split: prod.splits option.splits)
  then obtain x cbb1 cbb2 where 1: "w malloc cbb = (Some x, cbb1)"
    and 2: "CBB_finish malloc False False 0 cbb1 = (Some (out, n), cbb2)"
    by (cases "andthen (w malloc) (\<lambda>_. CBB_finish malloc False False 0) cbb") (auto simp: andthen_Some)
  note i0 = cbb_init_ok [OF a cap i]
  have d: "0 < length (cbb_chain cbb)" using i0(2) by simp
  note s1 = cbb_appender.appended [OF w a i0(1) d 1]
  note f = finish_bytes [OF a s1(1) 2]
  have v: "view 0 cbb1 = bytes" using s1(4) i0(3) by simp
  show "cbs_ok (reparse out n)" using f v by (cases out) (simp_all add: reparse_def)
  show "cbs_view (reparse out n) = bytes" using f v by (cases out) (simp_all add: reparse_def)
qed

end
