(* ===== verification/CbbTotal.thy ===== *)
theory CbbTotal
  imports DerRoundtrip
begin

text \<open>
  When the builder succeeds: with an allocator that serves every request up to \<open>PTRDIFF_MAX\<close>, an
  operation whose result stays below four gigabytes never fails. The contract of
  \<open>CbbSpec\<close> is extended by this promise, and building a message becomes a total function.
\<close>

section \<open>Buffers that can grow\<close>

definition roomy :: "cbb_buffer \<Rightarrow> bool" where
  "roomy base \<longleftrightarrow> cb_ok base \<and> cb_can_resize base \<and> \<not> cb_error base \<and> cb_cap base \<le> 2 ^ 40"

lemma reserve_serves:
  assumes m: "serves malloc" and ok: "roomy base" and n: "cb_len base + n \<le> 2 ^ 39"
  shows "\<exists>base'. cbb_buffer_reserve malloc n base = (Some (cb_len base), base') \<and> cb_can_resize base' \<and>
     cb_cap base' \<le> 2 ^ 40"
proof -
  have w: "size_wrap (cb_len base + n) = cb_len base + n" using n by simp
  show ?thesis
  proof (cases "cb_cap base < cb_len base + n")
    case False
    with w ok show ?thesis by (simp add: cbb_buffer_reserve_def roomy_def)
  next
    case True
    define newcap where "newcap = (if cb_cap base * 2 < cb_cap base \<or> cb_cap base * 2 < cb_len base + n
       then cb_len base + n else cb_cap base * 2)"
    have wc: "size_wrap (cb_cap base * 2) = cb_cap base * 2" using True n by simp
    have small: "newcap \<le> 2 ^ 40" using True n by (auto simp: newcap_def)
    then have "newcap + 8 < 2 ^ 63" by simp
    from realloc_serves [OF m this, of "cb_buf base"] obtain b
      where "OPENSSL_realloc malloc (cb_buf base) newcap = Some b" by blast
    then have "cbb_buffer_reserve malloc n base =
        (Some (cb_len base), base\<lparr>cb_buf := Some b, cb_cap := newcap\<rparr>)"
      using True ok unfolding cbb_buffer_reserve_def w wc Let_def newcap_def by (simp add: roomy_def)
    with small ok show ?thesis by (simp add: roomy_def)
  qed
qed

lemma add_serves:
  assumes m: "serves malloc" and ok: "roomy base" and n: "cb_len base + n \<le> 2 ^ 39"
  shows "\<exists>off base'. cbb_buffer_add malloc n base = (Some off, base') \<and> roomy base'"
proof -
  from reserve_serves [OF assms] obtain base' where
    r: "cbb_buffer_reserve malloc n base = (Some (cb_len base), base')" "cb_can_resize base'" "cb_cap base' \<le> 2 ^ 40"
    by blast
  have a: "cbb_buffer_add malloc n base = (Some (cb_len base), base'\<lparr>cb_len := cb_len base' + n\<rparr>)"
    using r(1) by (simp add: cbb_buffer_add_def andthen_def)
  have "n < 2 ^ 62" using n by simp
  moreover have "cb_ok base" using ok by (simp add: roomy_def)
  ultimately have "cb_ok (base'\<lparr>cb_len := cb_len base' + n\<rparr>)" "\<not> cb_error (base'\<lparr>cb_len := cb_len base' + n\<rparr>)"
    using add_grows [OF serves_allocator [OF m] _ _ a] ok by (simp_all add: roomy_def)
  with a r show ?thesis by (simp add: roomy_def)
qed

lemma cb_write_fields [simp]:
  "cb_can_resize (cb_write off bs base) = cb_can_resize base" "cb_cap (cb_write off bs base) = cb_cap base"
  by (simp_all add: cb_write_def)

lemma cb_move_fields [simp]:
  "cb_can_resize (cb_move t f n base) = cb_can_resize base" "cb_cap (cb_move t f n base) = cb_cap base"
  by (simp_all add: cb_move_def split: option.split)

lemma put_be_fields:
  "put_be k off v base = (base', v') \<Longrightarrow> cb_can_resize base' = cb_can_resize base \<and> cb_cap base' = cb_cap base"
proof (induction k arbitrary: v base)
  case (Suc k)
  then have "put_be k off (v div 256) (cb_write (off + k) [of_nat v] base) = (base', v')" by simp
  from Suc.IH [OF this] show ?case by simp
qed simp

text \<open>Writing inside a roomy buffer keeps it roomy.\<close>

lemma write_roomy: "roomy base \<Longrightarrow> off + length bs \<le> cb_len base \<Longrightarrow> roomy (cb_write off bs base)"
  using write_inside [of base off bs] by (simp add: roomy_def)

lemma put_be_roomy:
  "roomy base \<Longrightarrow> off + k \<le> cb_len base \<Longrightarrow> put_be k off v base = (base', v') \<Longrightarrow> roomy base'"
  using put_be_inside [of base off k v base' v'] put_be_fields [of k off v base base' v']
  by (simp add: roomy_def)

lemma add_u_serves:
  assumes m: "serves malloc" and ok: "roomy base" and k: "k \<le> 4" "unat v < 256 ^ k"
    and n: "cb_len base + k \<le> 2 ^ 39"
  shows "\<exists>x base'. cbb_buffer_add_u malloc v k base = (Some x, base') \<and> roomy base'"
proof (cases "k = 0")
  case True
  with ok show ?thesis by (simp add: cbb_buffer_add_u_def ret_def)
next
  case False
  from add_serves [OF m ok n] obtain off base1 where
    add: "cbb_buffer_add malloc k base = (Some off, base1)" "roomy base1" by blast
  have "k < 2 ^ 62" using k by simp
  moreover have "cb_ok base" using ok by (simp add: roomy_def)
  ultimately have g: "cb_len base1 = cb_len base + k" "off = cb_len base" "cb_ok base1"
    using add_grows [OF serves_allocator [OF m] _ _ add(1)] by simp_all
  obtain base2 v' where put: "put_be k off (unat v) base1 = (base2, v')" by (cases "put_be k off (unat v) base1")
  have fits: "off + k \<le> cb_len base1" using g by simp
  from put_be_inside [OF g(3) fits put] k(2) have "v' = 0" by simp
  with put_be_roomy [OF add(2) fits put] put add(1) False show ?thesis
    by (simp add: cbb_buffer_add_u_def andthen_def)
qed

section \<open>Flushing\<close>

text \<open>A child can be closed when its body fits its prefix.\<close>

fun closable :: "cbb_frame list \<Rightarrow> byte list \<Rightarrow> bool" where
  "closable [] bs \<longleftrightarrow> True"
| "closable (c # cs) bs \<longleftrightarrow>
     closable cs bs \<and>
     (let n = length (closed cs bs) - frame_start c
      in if fr_pending_is_asn1 c then n \<le> 0xFFFFFFFE else n < 256 ^ fr_pending_len_len c)"

lemma asn1_len_len_Some: "n \<le> 0xFFFFFFFE \<Longrightarrow> \<exists>k b. asn1_len_len n = Some (k, b)"
  by (simp add: asn1_len_len_def)

lemma flush_prefix_serves:
  assumes m: "serves malloc" and ok: "roomy base" and c: "frame_ok c" and start: "frame_start c \<le> cb_len base"
    and n: "if fr_pending_is_asn1 c then cb_len base - frame_start c \<le> 0xFFFFFFFE
            else cb_len base - frame_start c < 256 ^ fr_pending_len_len c"
    and len: "cb_len base + 4 \<le> 2 ^ 39"
  shows "\<exists>x base'. flush_prefix malloc c (frame_start c) base = (Some x, base') \<and> roomy base'"
proof -
  let ?off = "fr_offset c" and ?n = "cb_len base - frame_start c"
  have okb: "cb_ok base" using ok by (simp add: roomy_def)
  show ?thesis
  proof (cases "fr_pending_is_asn1 c")
    case False
    let ?p = "fr_pending_len_len c"
    obtain base1 l where put: "put_be ?p ?off ?n base = (base1, l)" by (cases "put_be ?p ?off ?n base")
    have fits: "?off + ?p \<le> cb_len base" using start by (simp add: frame_start_def)
    from put_be_inside [OF okb fits put] n False have "l = 0" by simp
    with put_be_roomy [OF ok fits put] put False show ?thesis by (simp add: flush_prefix_def Let_def)
  next
    case True
    with c have s: "frame_start c = Suc ?off" by (simp add: frame_ok_def frame_start_def)
    from True n asn1_len_len_Some [of ?n] obtain k b where kb: "asn1_len_len ?n = Some (k, b)" by auto
    note ll = asn1_len_len_spec [OF kb]
    have kn: "k \<noteq> 1 \<Longrightarrow> ?n div 256 ^ (k - 1) = 0" using ll(5) by simp
    show ?thesis
    proof (cases "k = 1")
      case True
      have "roomy (cb_write ?off [b] base)" by (rule write_roomy [OF ok]) (use start s in simp)
      with \<open>fr_pending_is_asn1 c\<close> kb True show ?thesis
        by (simp add: flush_prefix_def Let_def andthen_def ret_def)
    next
      case False
      have e: "cb_len base + (k - 1) \<le> 2 ^ 39" using len ll(4) by simp
      from add_serves [OF m ok e] obtain o1 base1 where
        add: "cbb_buffer_add malloc (k - 1) base = (Some o1, base1)" "roomy base1" by blast
      have "k - 1 < 2 ^ 62" using ll(4) by simp
      note g = add_grows [OF serves_allocator [OF m] okb this add(1)]
      let ?base2 = "cb_move (frame_start c + (k - 1)) (frame_start c) ?n base1"
      have m1: "frame_start c + (k - 1) + ?n \<le> cb_len base1" "frame_start c + ?n \<le> cb_len base1"
        using g(3) start by simp_all
      note mv = move_inside [OF g(1) m1]
      have "roomy ?base2" using add(2) mv by (simp add: roomy_def)
      moreover have w1: "?off + length [b] \<le> cb_len ?base2" using mv(3) g(3) start s by simp
      ultimately have r3: "roomy (cb_write ?off [b] ?base2)" by (rule write_roomy)
      note w = write_inside [OF mv(1) w1]
      have p1: "?off + 1 + (k - 1) \<le> cb_len (cb_write ?off [b] ?base2)" using w(3) mv(3) g(3) start s by simp
      obtain base4 l where put: "put_be (k - 1) (?off + 1) ?n (cb_write ?off [b] ?base2) = (base4, l)"
        by (cases "put_be (k - 1) (?off + 1) ?n (cb_write ?off [b] ?base2)")
      from put_be_inside [OF w(1) p1 put] kn [OF False] have "l = 0" by simp
      with put_be_roomy [OF r3 p1 put] put add(1) \<open>fr_pending_is_asn1 c\<close> kb False show ?thesis
        by (simp add: flush_prefix_def Let_def andthen_def)
    qed
  qed
qed

text \<open>Closing children never makes the bytes shorter.\<close>

lemma closed_grows: "chain_ok pos cs (length bs) \<Longrightarrow> length bs \<le> length (closed cs bs)"
proof (induction cs arbitrary: pos)
  case (Cons c cs)
  then have c: "frame_ok c" "chain_ok (frame_start c) cs (length bs)" by simp_all
  have IH: "length bs \<le> length (closed cs bs)" by (rule Cons.IH [OF c(2)])
  have s: "frame_start c \<le> length (closed cs bs)" using closed_before [OF c(2)] by simp
  let ?n = "length (closed cs bs) - frame_start c"
  have "fr_pending_len_len c \<le> length (prefix_bytes c ?n)"
    using c(1) by (auto simp: prefix_bytes_def frame_ok_def der_len_def)
  then have "length (closed cs bs) \<le> length (close_frame c (closed cs bs))"
    using s by (simp add: close_frame_def frame_start_def)
  with IH show ?case by simp
qed simp

lemma flush_chain_serves:
  "serves malloc \<Longrightarrow> roomy base \<Longrightarrow> chain_ok pos cs (cb_len base) \<Longrightarrow> closable cs (cb_bytes base) \<Longrightarrow>
   length (closed cs (cb_bytes base)) + 4 \<le> 2 ^ 39 \<Longrightarrow>
   \<exists>base'. flush_chain malloc cs base = (True, [], base') \<and> roomy base'"
proof (induction cs arbitrary: pos)
  case Nil
  then show ?case by (simp add: roomy_def)
next
  case (Cons c cs)
  have okb: "cb_ok base" using Cons.prems(2) by (simp add: roomy_def)
  have lb: "length (cb_bytes base) = cb_len base" by (rule length_cb_bytes [OF okb])
  have c: "frame_ok c" "chain_ok (frame_start c) cs (cb_len base)" using Cons.prems(3) by simp_all
  have cl: "closable cs (cb_bytes base)" using Cons.prems(4) by simp
  have "frame_start c \<le> cb_len base" by (rule chain_ok_pos [OF c(2)])
  then have w: "size_wrap (fr_offset c + fr_pending_len_len c) = frame_start c"
    using cb_ok_small [OF okb] by (simp add: frame_start_def)
  have "length (closed cs (cb_bytes base)) \<le> length (closed (c # cs) (cb_bytes base))"
  proof -
    have s: "frame_start c \<le> length (closed cs (cb_bytes base))" using closed_before [of "frame_start c" cs "cb_bytes base"] c(2) lb by simp
    have "chain_ok 0 [c] (length (closed cs (cb_bytes base)))" using c(1) s by simp
    from closed_grows [OF this] show ?thesis by simp
  qed
  with Cons.prems(5) have len: "length (closed cs (cb_bytes base)) + 4 \<le> 2 ^ 39" by simp
  from Cons.IH [OF Cons.prems(1,2) c(2) cl len] obtain base1 where
    fc: "flush_chain malloc cs base = (True, [], base1)" "roomy base1" by blast
  note f1 = flush_chain_closes [OF serves_allocator [OF Cons.prems(1)] okb c(2) fc(1)]
  have len1: "cb_len base1 = length (closed cs (cb_bytes base))" using f1 length_cb_bytes [of base1] by simp
  have start: "frame_start c \<le> cb_len base1"
    using closed_before [of "frame_start c" cs "cb_bytes base"] c(2) lb len1 by simp
  have n: "if fr_pending_is_asn1 c then cb_len base1 - frame_start c \<le> 0xFFFFFFFE
            else cb_len base1 - frame_start c < 256 ^ fr_pending_len_len c"
    using Cons.prems(4) len1 by (simp add: Let_def)
  from flush_prefix_serves [OF Cons.prems(1) fc(2) c(1) start n] len len1 obtain x base2 where
    "flush_prefix malloc c (frame_start c) base1 = (Some x, base2)" "roomy base2" by auto
  moreover have "fr_pending_len_len c \<noteq> 0" using c(1) by (simp add: frame_ok_def)
  moreover have "\<not> frame_start c < fr_offset c" using frame_start_ge [of c] by simp
  moreover have "\<not> cb_error base" using Cons.prems(2) by (simp add: roomy_def)
  ultimately show ?case using w fc start by (simp add: Let_def)
qed

section \<open>The total contract\<close>

definition live :: "nat \<Rightarrow> cbb \<Rightarrow> bool" where
  "live d cbb \<longleftrightarrow>
     cbb_ok cbb \<and> d < length (cbb_chain cbb) \<and> pred_option roomy (cbb_base cbb) \<and>
     closable (drop (Suc d) (cbb_chain cbb)) (base_bytes cbb)"

lemma flush_serves:
  assumes m: "serves malloc" and l: "live d cbb" and len: "length (view d cbb) + 4 \<le> 2 ^ 39"
  shows "\<exists>cbb'. CBB_flush malloc d cbb = (Some (), cbb') \<and> live d cbb'"
proof -
  from l obtain base where b: "cbb_base cbb = Some base" "cb_ok base" "roomy base"
      "chain_ok 0 (tl (cbb_chain cbb)) (cb_len base)" and ok: "cbb_ok cbb" and d: "d < length (cbb_chain cbb)"
      and cl: "closable (drop (Suc d) (cbb_chain cbb)) (cb_bytes base)"
    by (auto simp: live_def cbb_ok_def base_bytes_def split: option.splits)
  obtain c0 cs where ch: "cbb_chain cbb = c0 # cs" using d by (cases "cbb_chain cbb") auto
  obtain pos where co: "chain_ok pos (drop d cs) (cb_len base)" using chain_ok_drop [of 0 cs] b(4) ch by auto
  have "length (closed (drop d cs) (cb_bytes base)) + 4 \<le> 2 ^ 39"
    using len ch b(1) by (simp add: view_def base_bytes_def)
  with flush_chain_serves [OF m b(3) co] cl ch obtain base' where
    "flush_chain malloc (drop d cs) base = (True, [], base')" "roomy base'" by auto
  then have f: "CBB_flush malloc d cbb = (Some (), \<lparr>cbb_base = Some base', cbb_chain = take (Suc d) (cbb_chain cbb)\<rparr>)"
    using b(1) d ch by (simp add: CBB_flush_def)
  from flush_spec [OF serves_allocator [OF m] ok d f] f \<open>roomy base'\<close> d show ?thesis
    by (simp add: live_def)
qed

text \<open>The limit keeps every body below the largest length the builder writes.\<close>

definition CBB_LIMIT :: nat where
  "CBB_LIMIT = 0xFFFFFFFE"

locale cbb_total = cbb_appender +
  assumes serves: "serves malloc \<Longrightarrow> live d cbb \<Longrightarrow> length (view d cbb @ out) \<le> CBB_LIMIT \<Longrightarrow>
    \<exists>x cbb'. w malloc cbb = (Some x, cbb') \<and> live d cbb'"

lemma total_then:
  assumes m: "cbb_total d m out" and k: "\<And>x. cbb_total d (k x) out'"
  shows "cbb_total d (\<lambda>a. andthen (m a) (\<lambda>x. k x a)) (out @ out')"
proof (intro cbb_total.intro cbb_total_axioms.intro)
  note am = cbb_total.axioms(1) [OF m] and ak = cbb_total.axioms(1) [OF k]
  show "cbb_appender d (\<lambda>a. andthen (m a) (\<lambda>x. k x a)) (out @ out')" by (rule appender_then [OF am ak])
  fix malloc cbb assume s: "serves malloc" and l: "live d cbb" and len: "length (view d cbb @ out @ out') \<le> CBB_LIMIT"
  have "length (view d cbb @ out) \<le> CBB_LIMIT" using len by simp
  from cbb_total.serves [OF m s l this] obtain x cbb1 where 1: "m malloc cbb = (Some x, cbb1)" "live d cbb1" by blast
  have ok: "cbb_ok cbb" "d < length (cbb_chain cbb)" using l by (simp_all add: live_def)
  have "view d cbb1 = view d cbb @ out"
    using cbb_appender.appended(4) [OF am serves_allocator [OF s] ok 1(1)] .
  then have "length (view d cbb1 @ out') \<le> CBB_LIMIT" using len by simp
  from cbb_total.serves [OF k s 1(2) this] 1(1)
  show "\<exists>x cbb'. andthen (m malloc) (\<lambda>x. k x malloc) cbb = (Some x, cbb') \<and> live d cbb'"
    by (simp add: andthen_def)
qed

lemma total_ret: "cbb_total d (\<lambda>a. ret x) []"
  by (intro cbb_total.intro cbb_total_axioms.intro appender_ret) (simp add: ret_def)

lemma total_flush: "cbb_total d (\<lambda>a. CBB_flush a d) []"
proof (intro cbb_total.intro cbb_total_axioms.intro appender_flush)
  fix malloc cbb assume "serves malloc" "live d cbb" "length (view d cbb @ []) \<le> CBB_LIMIT"
  with flush_serves [of malloc d cbb] show "\<exists>x cbb'. CBB_flush malloc d cbb = (Some x, cbb') \<and> live d cbb'"
    by (simp add: CBB_LIMIT_def)
qed

lemma total_base:
  assumes ap: "cbb_appender d (\<lambda>a. andthen (CBB_flush a d) (\<lambda>_. on_base (m a))) out"
    and m: "\<And>malloc base. serves malloc \<Longrightarrow> roomy base \<Longrightarrow> cb_len base + length out \<le> CBB_LIMIT \<Longrightarrow>
      \<exists>x base'. m malloc base = (Some x, base') \<and> roomy base'"
  shows "cbb_total d (\<lambda>a. andthen (CBB_flush a d) (\<lambda>_. on_base (m a))) out"
proof (intro cbb_total.intro cbb_total_axioms.intro ap)
  fix malloc cbb
  assume s: "serves malloc" and l: "live d cbb" and len: "length (view d cbb @ out) \<le> CBB_LIMIT"
  have "length (view d cbb) + 4 \<le> 2 ^ 39" using len by (simp add: CBB_LIMIT_def)
  from flush_serves [OF s l this] obtain cbb1 where f: "CBB_flush malloc d cbb = (Some (), cbb1)" "live d cbb1" by blast
  have ok: "cbb_ok cbb" "d < length (cbb_chain cbb)" using l by (simp_all add: live_def)
  note fs = flush_spec [OF serves_allocator [OF s] ok f(1)]
  from f(2) obtain base where b: "cbb_base cbb1 = Some base" "roomy base" "cb_ok base"
    by (auto simp: live_def cbb_ok_def split: option.splits)
  have "cb_len base = length (view d cbb)" using fs(3) b length_cb_bytes [OF b(3)] by (simp add: base_bytes_def)
  with len have "cb_len base + length out \<le> CBB_LIMIT" by simp
  from m [OF s b(2) this] obtain x base' where mb: "m malloc base = (Some x, base')" "roomy base'" by blast
  let ?cbb' = "cbb1\<lparr>cbb_base := Some base'\<rparr>"
  have r: "andthen (CBB_flush malloc d) (\<lambda>_. on_base (m malloc)) cbb = (Some x, ?cbb')"
    using f(1) b(1) mb(1) by (simp add: andthen_def on_base_def)
  have l1: "length (cbb_chain cbb1) = Suc d" using fs(2) ok(2) by simp
  from cbb_appender.appended(1,2) [OF ap serves_allocator [OF s] ok r] mb(2) l1
  have "live d ?cbb'" by (simp add: live_def)
  with r show "\<exists>x cbb'. andthen (CBB_flush malloc d) (\<lambda>_. on_base (m malloc)) cbb = (Some x, cbb') \<and> live d cbb'"
    by blast
qed

section \<open>The operations are total\<close>

lemma add_u_total:
  assumes k: "k \<le> 4" and v: "unat v < 256 ^ k"
  shows "cbb_total d (\<lambda>a. cbb_add_u a d v k) (be_bytes k (unat v))"
  unfolding cbb_add_u_def
proof (rule total_base)
  show "cbb_appender d (\<lambda>a. andthen (CBB_flush a d) (\<lambda>_. on_base (cbb_buffer_add_u a v k))) (be_bytes k (unat v))"
    using add_u_contract [OF k, of d v] by (simp add: cbb_add_u_def)
  fix malloc base
  assume "serves malloc" "roomy base" "cb_len base + length (be_bytes k (unat v)) \<le> CBB_LIMIT"
  with add_u_serves [of malloc base k v] k v
  show "\<exists>x base'. cbb_buffer_add_u malloc v k base = (Some x, base') \<and> roomy base'"
    by (simp add: CBB_LIMIT_def)
qed

interpretation total_u8: cbb_total d "\<lambda>a. CBB_add_u8 a d b" "[b]"
proof -
  have "unat (ucast b :: u32) < 256 ^ 1" using unsigned_less [of b, where 'a = nat] by simp
  from add_u_total [OF _ this, of d] show "cbb_total d (\<lambda>a. CBB_add_u8 a d b) [b]"
    by (simp add: CBB_add_u8_def)
qed

interpretation total_u16: cbb_total d "\<lambda>a. CBB_add_u16 a d v" "be_bytes 2 (unat v)"
proof -
  have b: "unat v < 2 ^ 16" using unsigned_less [of v, where 'a = nat] by simp
  have "unat (ucast v :: u32) = unat v" using b by (simp add: unsigned_ucast_eq take_bit_nat_eq_self)
  with add_u_total [of 2 "ucast v" d] b show "cbb_total d (\<lambda>a. CBB_add_u16 a d v) (be_bytes 2 (unat v))"
    by (simp add: CBB_add_u16_def)
qed

interpretation total_u32: cbb_total d "\<lambda>a. CBB_add_u32 a d v" "be_bytes 4 (unat v)"
  using add_u_total [of 4 v d] unsigned_less [of v, where 'a = nat] by (simp add: CBB_add_u32_def)

text \<open>\<open>CBB_add_u24\<close> refuses a value of more than 24 bits.\<close>

lemma add_u24_total: "unat v < 2 ^ 24 \<Longrightarrow> cbb_total d (\<lambda>a. CBB_add_u24 a d v) (be_bytes 3 (unat v))"
  using add_u_total [of 3 v d] by (simp add: CBB_add_u24_def)

lemma add_bytes_total:
  assumes len: "n \<le> length data" "n < 2 ^ 62"
  shows "cbb_total d (\<lambda>a. CBB_add_bytes a d data n) (take n data)"
  unfolding CBB_add_bytes_def
proof (rule total_base)
  let ?m = "\<lambda>a. andthen (cbb_buffer_add a n) (\<lambda>dest base. (Some (), cb_write dest (take n data) base))"
  show "cbb_appender d (\<lambda>a. andthen (CBB_flush a d) (\<lambda>_. on_base (?m a))) (take n data)"
    using add_bytes_contract [OF len, of d] by (simp add: CBB_add_bytes_def)
  fix malloc base
  assume s: "serves malloc" and r: "roomy base" and l: "cb_len base + length (take n data) \<le> CBB_LIMIT"
  have "cb_len base + n \<le> 2 ^ 39" using l len(1) by (simp add: CBB_LIMIT_def)
  from add_serves [OF s r this] obtain off base1 where
    a: "cbb_buffer_add malloc n base = (Some off, base1)" "roomy base1" by blast
  have "cb_ok base" using r by (simp add: roomy_def)
  from add_grows(3,4) [OF serves_allocator [OF s] this len(2) a(1)]
  have "roomy (cb_write off (take n data) base1)" using len(1) by (intro write_roomy [OF a(2)]) simp
  with a(1) show "\<exists>x base'. ?m malloc base = (Some x, base') \<and> roomy base'" by (simp add: andthen_def)
qed

lemma total_if: "(b \<Longrightarrow> cbb_total d m out) \<Longrightarrow> (\<not> b \<Longrightarrow> cbb_total d m' out) \<Longrightarrow>
   cbb_total d (\<lambda>a. if b then m a else m' a) out"
  by (cases b) simp_all

lemma base128_digits_total: "cbb_total d (\<lambda>a. base128_digits a d v k) (map (digit_byte v) (rev [0 ..< k]))"
proof (induction k)
  case 0
  then show ?case using total_ret [of d "()"] by simp
next
  case (Suc i)
  have "cbb_total d (\<lambda>a. andthen (CBB_add_u8 a d (digit_byte v i)) (\<lambda>_. base128_digits a d v i))
      ([digit_byte v i] @ map (digit_byte v) (rev [0 ..< i]))"
    by (rule total_then [OF total_u8.cbb_total_axioms Suc])
  moreover have "base128_digits a d v (Suc i) =
      andthen (CBB_add_u8 a d (digit_byte v i)) (\<lambda>_. base128_digits a d v i)" for a
    by (simp only: base128_digits.simps digit_byte_def Let_def)
  ultimately show ?case by simp
qed

interpretation total_base128: cbb_total d "\<lambda>a. add_base128_integer a d v" "base128 (unat v)"
proof -
  have "\<And>a. add_base128_integer a d v =
      base128_digits a d v (if digit_count v = 0 then 1 else digit_count v)"
    by (simp add: add_base128_integer_def Let_def)
  then show "cbb_total d (\<lambda>a. add_base128_integer a d v) (base128 (unat v))"
    using base128_digits_total [of d v "if digit_count v = 0 then 1 else digit_count v"]
    by (simp only: base128_written)
qed

lemma tag_total:
  "cbb_total d
     (\<lambda>a. if 0x1F \<le> tag AND CBS_ASN1_TAG_NUMBER_MASK
          then andthen (CBB_add_u8 a d (ucast (drop_bit CBS_ASN1_TAG_SHIFT tag) AND 0xE0 OR 0x1F))
                 (\<lambda>_. add_base128_integer a d (ucast (tag AND CBS_ASN1_TAG_NUMBER_MASK)))
          else CBB_add_u8 a d (ucast (drop_bit CBS_ASN1_TAG_SHIFT tag) AND 0xE0 OR ucast (tag AND CBS_ASN1_TAG_NUMBER_MASK)))
     (der_tag tag)"
proof (rule total_if)
  let ?n = "tag AND CBS_ASN1_TAG_NUMBER_MASK"
  assume "0x1F \<le> ?n"
  then show "cbb_total d
     (\<lambda>a. andthen (CBB_add_u8 a d (ucast (drop_bit CBS_ASN1_TAG_SHIFT tag) AND 0xE0 OR 0x1F))
        (\<lambda>_. add_base128_integer a d (ucast ?n))) (der_tag tag)"
    using total_then [OF total_u8.cbb_total_axioms total_base128.cbb_total_axioms] by (simp add: der_tag_high)
next
  let ?n = "tag AND CBS_ASN1_TAG_NUMBER_MASK"
  assume "\<not> 0x1F \<le> ?n"
  then show "cbb_total d
     (\<lambda>a. CBB_add_u8 a d (ucast (drop_bit CBS_ASN1_TAG_SHIFT tag) AND 0xE0 OR ucast ?n)) (der_tag tag)"
    using total_u8.cbb_total_axioms by (simp add: der_tag_low)
qed

lemma add_asn1_serves:
  assumes s: "serves malloc" and l: "live d cbb" and len: "length (view d cbb @ der_tag tag @ [0]) \<le> CBB_LIMIT"
  shows "\<exists>cbb'. CBB_add_asn1 malloc d tag cbb = (Some (), cbb') \<and> live (Suc d) cbb'"
proof -
  let ?tagw = "\<lambda>a. if 0x1F \<le> tag AND CBS_ASN1_TAG_NUMBER_MASK
          then andthen (CBB_add_u8 a d (ucast (drop_bit CBS_ASN1_TAG_SHIFT tag) AND 0xE0 OR 0x1F))
                 (\<lambda>_. add_base128_integer a d (ucast (tag AND CBS_ASN1_TAG_NUMBER_MASK)))
          else CBB_add_u8 a d (ucast (drop_bit CBS_ASN1_TAG_SHIFT tag) AND 0xE0 OR ucast (tag AND CBS_ASN1_TAG_NUMBER_MASK))"
  note a = serves_allocator [OF s]
  have l0: "length (view d cbb) + 4 \<le> 2 ^ 39" using len by (simp add: CBB_LIMIT_def)
  from flush_serves [OF s l l0] obtain cbb0 where f: "CBB_flush malloc d cbb = (Some (), cbb0)" "live d cbb0" by blast
  have ok: "cbb_ok cbb" "d < length (cbb_chain cbb)" using l by (simp_all add: live_def)
  note fs = flush_spec [OF a ok f(1)]
  have len0: "length (view d cbb0 @ der_tag tag) \<le> CBB_LIMIT" using len fs(4) by simp
  from cbb_total.serves [OF tag_total s f(2) len0] obtain u1 cbb1 where t: "?tagw malloc cbb0 = (Some u1, cbb1)" "live d cbb1"
    by blast
  have ok0: "cbb_ok cbb0" "d < length (cbb_chain cbb0)" using f(2) by (simp_all add: live_def)
  note s1 = cbb_appender.appended [OF tag_contract a ok0 t(1)]
  have len1: "length (view d cbb1 @ [0]) \<le> CBB_LIMIT" using len fs(4) s1(4) by simp
  from total_u8.serves [OF s t(2) len1] obtain u2 cbb3 where z: "CBB_add_u8 malloc d 0 cbb1 = (Some u2, cbb3)" "live d cbb3"
    by blast
  obtain base where b: "cbb_base cbb1 = Some base" using t(2) by (auto simp: live_def cbb_ok_def split: option.splits)
  let ?cbb' = "add_child d (cbb_zero_frame\<lparr>fr_offset := cb_len base, fr_pending_len_len := 1, fr_pending_is_asn1 := True\<rparr>) cbb3"
  have "on_base (\<lambda>base. (Some (cb_len base), base)) cbb1 = (Some (cb_len base), cbb1)"
    using b by (cases cbb1) (simp add: on_base_def)
  with f(1) t(1) z(1) have r: "CBB_add_asn1 malloc d tag cbb = (Some (), ?cbb')"
    unfolding CBB_add_asn1_def Let_def by (simp add: andthen_def)
  from add_asn1_opens [OF a ok r] obtain c where "opens d cbb ?cbb' c (der_tag tag @ [0])" by blast
  then have "cbb_ok ?cbb'" "length (cbb_chain ?cbb') = Suc (Suc d)" using ok(2) by (simp_all add: opens_def)
  moreover have "pred_option roomy (cbb_base ?cbb')" using z(2) by (simp add: live_def add_child_def)
  ultimately have "live (Suc d) ?cbb'" by (simp add: live_def)
  with r show ?thesis by blast
qed

lemma element_total:
  assumes w: "cbb_total (Suc d) w body"
  shows "cbb_total d (\<lambda>a. andthen (CBB_add_asn1 a d tag) (\<lambda>_. andthen (w a) (\<lambda>_. CBB_flush a d)))
     (der_element tag body)"
proof (intro cbb_total.intro cbb_total_axioms.intro element_contract [OF cbb_total.axioms(1) [OF w]])
  fix malloc cbb
  assume s: "serves malloc" and l: "live d cbb" and len: "length (view d cbb @ der_element tag body) \<le> CBB_LIMIT"
  note a = serves_allocator [OF s] and aw = cbb_total.axioms(1) [OF w]
  have ok: "cbb_ok cbb" "d < length (cbb_chain cbb)" using l by (simp_all add: live_def)
  have dl: "1 \<le> length (der_len (length body))" by (simp add: der_len_def)
  then have "length (view d cbb @ der_tag tag @ [0]) \<le> CBB_LIMIT"
    using len by (simp add: der_element_def der_header_def)
  from add_asn1_serves [OF s l this] obtain cbb1 where 1: "CBB_add_asn1 malloc d tag cbb = (Some (), cbb1)" "live (Suc d) cbb1"
    by blast
  from add_asn1_opens [OF a ok 1(1)] obtain c where o: "opens d cbb cbb1 c (der_tag tag @ [0])"
    and c: "fr_pending_is_asn1 c" by blast
  have v1: "view (Suc d) cbb1 = view d cbb @ der_tag tag @ [0]" by (rule opens_view [OF ok(2) o])
  have len1: "length (view (Suc d) cbb1 @ body) \<le> CBB_LIMIT"
    using len dl v1 by (simp add: der_element_def der_header_def)
  from cbb_total.serves [OF w s 1(2) this] obtain y cbb2 where 2: "w malloc cbb1 = (Some y, cbb2)" "live (Suc d) cbb2" by blast
  have ok1: "cbb_ok cbb1" "Suc d < length (cbb_chain cbb1)" using 1(2) by (simp_all add: live_def)
  note e2 = cbb_appender.appended [OF aw a ok1 2(1)]
  have "cbb_chain cbb2 ! Suc d = take (Suc (Suc d)) (cbb_chain cbb2) ! Suc d" by simp
  also have "\<dots> = c" unfolding e2(3) using o ok(2) by (simp add: opens_def nth_append)
  finally have c2: "cbb_chain cbb2 ! Suc d = c" .
  have dr: "drop (Suc d) (cbb_chain cbb2) = c # drop (Suc (Suc d)) (cbb_chain cbb2)"
    using e2(2) c2 by (simp add: Cons_nth_drop_Suc [symmetric])
  have "length (view (Suc d) cbb2) - frame_start c \<le> 0xFFFFFFFE"
    using len1 e2(4) v1 by (simp add: CBB_LIMIT_def)
  then have l2: "live d cbb2" using 2(2) dr c by (simp add: live_def view_def Let_def)
  have "view d cbb2 = close_frame c (view (Suc d) cbb2)" using view_child [OF e2(2)] c2 by simp
  also have "\<dots> = take (fr_offset c) (view d cbb @ der_tag tag @ [0]) @ prefix_bytes c (length body) @ body"
    unfolding e2(4) v1 by (rule close_child) (use o in \<open>simp add: opens_def\<close>)
  finally have "length (view d cbb2) \<le> length (view d cbb @ der_tag tag @ [0]) + length (der_len (length body) @ body)"
    using c by (simp add: prefix_bytes_def)
  then have "length (view d cbb2) + 4 \<le> 2 ^ 39"
    using len by (simp add: CBB_LIMIT_def der_element_def der_header_def)
  from flush_serves [OF s l2 this] 1(1) 2(1)
  show "\<exists>x cbb'. andthen (CBB_add_asn1 malloc d tag) (\<lambda>_. andthen (w malloc) (\<lambda>_. CBB_flush malloc d)) cbb = (Some x, cbb') \<and> live d cbb'"
    by (auto simp: andthen_def)
qed

section \<open>Typed elements and whole messages\<close>

lemma uint64_loop_started_total: "cbb_total d (\<lambda>a. uint64_bytes_loop a d bs True) bs"
proof (induction bs)
  case Nil
  then show ?case using total_ret [of d True] by simp
next
  case (Cons b bs)
  have e: "uint64_bytes_loop a d (b # bs) True = andthen (CBB_add_u8 a d b) (\<lambda>_. uint64_bytes_loop a d bs True)" for a
    by (rule ext) (simp add: andthen_def ret_def)
  show ?case using total_then [OF total_u8.cbb_total_axioms Cons] by (simp only: e append_Cons append_Nil)
qed

lemma uint64_body_total:
  "cbb_total d (\<lambda>a. andthen (uint64_bytes_loop a d (be_bytes 8 (unat v)) False)
      (\<lambda>started. if \<not> started then CBB_add_u8 a d 0 else ret ())) (uint_body (unat (v :: u64)))"
proof (cases "skip_zeros (be_bytes 8 (unat v))")
  case Nil
  show ?thesis
    unfolding uint64_body_zero [OF Nil] uint_body_zero [OF Nil] by (rule total_u8.cbb_total_axioms)
next
  case (Cons b bs)
  have 1: "cbb_total d (\<lambda>a. if bit b 7 then CBB_add_u8 a d 0 else ret ()) (if bit b 7 then [0] else [])"
    using total_u8.cbb_total_axioms [of d 0] total_ret [of d "()"] by simp
  have 2: "cbb_total d (\<lambda>a. andthen (uint64_bytes_loop a d bs True) (\<lambda>_. ret ())) (bs @ [])"
    by (rule total_then [OF uint64_loop_started_total total_ret])
  show ?thesis
    using total_then [OF 1 total_then [OF total_u8.cbb_total_axioms 2]]
    unfolding uint64_body_nonzero [OF Cons] uint_body_nonzero [OF Cons] by simp
qed

interpretation total_uint64: cbb_total d "\<lambda>a. CBB_add_asn1_uint64 a d v"
    "der_element CBS_ASN1_INTEGER (uint_body (unat v))"
  unfolding add_asn1_uint64_eq by (rule element_total [OF uint64_body_total])

interpretation total_bool: cbb_total d "\<lambda>a. CBB_add_asn1_bool a d v"
    "der_element CBS_ASN1_BOOLEAN (bool_body (v \<noteq> 0))"
  unfolding CBB_add_asn1_bool_def bool_body_def by (rule element_total [OF total_u8.cbb_total_axioms])

lemma octet_string_total:
  "n \<le> length data \<Longrightarrow> n < 2 ^ 62 \<Longrightarrow>
   cbb_total d (\<lambda>a. CBB_add_asn1_octet_string a d data n) (der_element CBS_ASN1_OCTETSTRING (take n data))"
  unfolding CBB_add_asn1_octet_string_def by (rule element_total [OF add_bytes_total])

lemma cbb_init_serves:
  assumes s: "serves malloc" and cap: "cap \<le> 2 ^ 40"
  shows "\<exists>cbb. CBB_init malloc cap = (Some (), cbb) \<and> live 0 cbb"
proof -
  have "cap + 8 < 2 ^ 63" "(32 :: nat) + 8 < 2 ^ 63" using cap by simp_all
  then obtain b base where m: "OPENSSL_malloc malloc cap = Some b" "OPENSSL_malloc malloc 32 = Some base"
    using malloc_serves [OF s] by blast
  let ?cbb = "\<lparr>cbb_base = Some \<lparr>cb_buf = Some b, cb_len = 0, cb_cap = cap, cb_can_resize = True, cb_error = False\<rparr>,
      cbb_chain = [cbb_zero_frame\<lparr>fr_is_top_level := True\<rparr>]\<rparr>"
  have i: "CBB_init malloc cap = (Some (), ?cbb)" using m by (simp add: CBB_init_def cbb_init_def Let_def)
  have "cap < 2 ^ 62" using cap by simp
  from cbb_init_ok(1) [OF serves_allocator [OF s] this i] cap have "live 0 ?cbb"
    by (simp add: live_def roomy_def cbb_ok_def)
  with i show ?thesis by blast
qed

text \<open>The top-level \<open>CBB\<close> stays the first of the chain.\<close>

lemma build_serves:
  assumes s: "serves malloc" and cap: "cap \<le> 2 ^ 40" and w: "cbb_total 0 w bytes" and len: "length bytes \<le> CBB_LIMIT"
  shows "\<exists>out n. build malloc cap (w malloc) = Some (out, n)"
proof -
  note a = serves_allocator [OF s] and aw = cbb_total.axioms(1) [OF w]
  from cbb_init_serves [OF s cap] obtain cbb where i: "CBB_init malloc cap = (Some (), cbb)" "live 0 cbb" by blast
  have "cap < 2 ^ 62" using cap by simp
  note i0 = cbb_init_ok [OF a this i(1)]
  have top: "fr_is_top_level (hd (cbb_chain cbb))"
    using i(1) by (auto simp: CBB_init_def cbb_init_def Let_def split: if_splits option.splits)
  have "length (view 0 cbb @ bytes) \<le> CBB_LIMIT" using len i0(3) by simp
  from cbb_total.serves [OF w s i(2) this] obtain x cbb1 where 1: "w malloc cbb = (Some x, cbb1)" "live 0 cbb1" by blast
  have d0: "0 < length (cbb_chain cbb)" using i0(2) by simp
  note s1 = cbb_appender.appended [OF aw a i0(1) d0 1(1)]
  have "hd (cbb_chain cbb1) = hd (cbb_chain cbb)"
    using s1(2,3) d0 by (metis hd_take length_greater_0_conv zero_less_Suc)
  with top s1(2) have top1: "fr_is_top_level (cbb_chain cbb1 ! 0)" by (simp add: hd_conv_nth)
  have "length (view 0 cbb1) + 4 \<le> 2 ^ 39" using s1(4) i0(3) len by (simp add: CBB_LIMIT_def)
  from flush_serves [OF s 1(2) this] obtain cbb2 where f: "CBB_flush malloc 0 cbb1 = (Some (), cbb2)" "live 0 cbb2" by blast
  from f(2) obtain base where b: "cbb_base cbb2 = Some base" by (auto simp: live_def cbb_ok_def split: option.splits)
  have "CBB_finish malloc False False 0 cbb1 = (Some (cb_buf base, cb_len base), CBB_cleanup cbb2)"
    using s1(2) top1 f(1) b by (simp add: CBB_finish_def andthen_def)
  with i(1) 1(1) have "build malloc cap (w malloc) = Some (cb_buf base, cb_len base)"
    by (simp add: build_def andthen_def)
  then show ?thesis by blast
qed

lemma der_len_bound: "n < 2 ^ 32 \<Longrightarrow> length (der_len n) \<le> 5"
proof (cases "n < 128")
  case False
  then have "0 < n" by linarith
  moreover assume "n < 2 ^ 32"
  ultimately show ?thesis using byte_count_4 [of n] by (simp add: der_len_def)
qed (simp add: der_len_def)

lemma element_length:
  assumes "length body \<le> k" and "k < 2 ^ 32" and "length (der_tag tag) \<le> t"
  shows "length (der_element tag body) \<le> t + 5 + k"
  using assms der_len_bound [of "length body"] by (simp add: der_element_def der_header_def)

lemma low_tags:
  "length (der_tag CBS_ASN1_INTEGER) = 1" "length (der_tag CBS_ASN1_OCTETSTRING) = 1"
  "length (der_tag CBS_ASN1_BOOLEAN) = 1" "length (der_tag CBS_ASN1_SEQUENCE) = 1"
  by (simp_all add: der_tag_def tag_number_def CBS_ASN1_INTEGER_def CBS_ASN1_OCTETSTRING_def
      CBS_ASN1_BOOLEAN_def CBS_ASN1_SEQUENCE_def CBS_ASN1_CONSTRUCTED_def CBS_ASN1_TAG_NUMBER_MASK_def
      CBS_ASN1_TAG_SHIFT_def)

section \<open>Properties\<close>

text \<open>C20: Building an INTEGER from any 64-bit value succeeds when the allocator serves, and the parser
  reads the same value back from the output and uses all of it.\<close>

theorem der_uint64_roundtrip:
  assumes "serves malloc" and "cap \<le> 2 ^ 40"
  shows "\<exists>out n cbs'. build malloc cap (CBB_add_asn1_uint64 malloc 0 v) = Some (out, n) \<and>
     CBS_get_asn1_uint64 (reparse out n) = (Some v, cbs') \<and> cbs_view cbs' = []"
proof -
  have "length (uint_body (unat v)) \<le> 9" by (rule uint_body_length [OF refl])
  from element_length [OF this, of CBS_ASN1_INTEGER 1] low_tags(1)
  have "length (der_element CBS_ASN1_INTEGER (uint_body (unat v))) \<le> CBB_LIMIT" by (simp add: CBB_LIMIT_def)
  from build_serves [OF assms total_uint64.cbb_total_axioms this] obtain out n
    where b: "build malloc cap (CBB_add_asn1_uint64 malloc 0 v) = Some (out, n)" by blast
  have "cap < 2 ^ 62" using assms(2) by simp
  note bb = build_bytes [OF serves_allocator [OF assms(1)] this asn1_uint64.cbb_appender_axioms b]
  from get_uint64_complete [OF bb(1), of v "[]"] bb(2) b show ?thesis by simp
qed

theorem der_uint64_roundtrip_witness:
  "\<exists>out n cbs'. build zero_alloc 32 (CBB_add_asn1_uint64 zero_alloc 0 300) = Some (out, n) \<and>
     CBS_get_asn1_uint64 (reparse out n) = (Some 300, cbs') \<and> cbs_view cbs' = []"
  by (rule der_uint64_roundtrip) simp_all

text \<open>The writer of a record: a SEQUENCE of an INTEGER and an OCTET STRING.\<close>

definition write_record :: "u64 \<Rightarrow> byte list \<Rightarrow> malloc \<Rightarrow> (cbb, unit) op" where
  "write_record v s malloc =
     andthen (CBB_add_asn1 malloc 0 CBS_ASN1_SEQUENCE)
       (\<lambda>_. andthen
          (andthen (CBB_add_asn1_uint64 malloc 1 v)
             (\<lambda>_. CBB_add_asn1_octet_string malloc 1 s (length s)))
          (\<lambda>_. CBB_flush malloc 0))"

lemma write_record_total:
  assumes "length s < 2 ^ 62"
  shows "cbb_total 0 (write_record v s)
     (der_element CBS_ASN1_SEQUENCE (der_element CBS_ASN1_INTEGER (uint_body (unat v)) @ der_element CBS_ASN1_OCTETSTRING s))"
proof -
  have "cbb_total (Suc 0) (\<lambda>a. CBB_add_asn1_octet_string a (Suc 0) s (length s)) (der_element CBS_ASN1_OCTETSTRING s)"
    using octet_string_total [of "length s" s "Suc 0"] assms by simp
  from element_total [OF total_then [OF total_uint64.cbb_total_axioms this], of CBS_ASN1_SEQUENCE v]
  show ?thesis unfolding write_record_def [abs_def] by simp
qed

text \<open>C1: A nested message survives the trip: a SEQUENCE of an INTEGER and an OCTET STRING of up to two
  gigabytes is built, whatever lengths its prefixes need, and parsing it returns both parts and
  nothing else.\<close>

theorem der_record_roundtrip:
  assumes "serves malloc" and "cap \<le> 2 ^ 40" and "length s \<le> 2 ^ 31"
  shows "\<exists>out n seq rest int_rest str str_rest.
     build malloc cap (write_record v s malloc) = Some (out, n) \<and>
     CBS_get_asn1 CBS_ASN1_SEQUENCE (reparse out n) = (Some seq, rest) \<and> cbs_view rest = [] \<and>
     CBS_get_asn1_uint64 seq = (Some v, int_rest) \<and>
     CBS_get_asn1 CBS_ASN1_OCTETSTRING int_rest = (Some str, str_rest) \<and>
     cbs_view str = s \<and> cbs_view str_rest = []"
proof -
  let ?int = "der_element CBS_ASN1_INTEGER (uint_body (unat v))" and ?str = "der_element CBS_ASN1_OCTETSTRING s"
  have s62: "length s < 2 ^ 62" using assms(3) by simp
  have "length (uint_body (unat v)) \<le> 9" by (rule uint_body_length [OF refl])
  from element_length [OF this, of CBS_ASN1_INTEGER 1] low_tags(1) have li: "length ?int \<le> 15" by simp
  from element_length [OF assms(3), of CBS_ASN1_OCTETSTRING 1] low_tags(2) have ls: "length ?str \<le> 2 ^ 31 + 6" by simp
  have lb: "length (?int @ ?str) \<le> 2 ^ 31 + 21" using li ls by simp
  from element_length [OF lb, of CBS_ASN1_SEQUENCE 1] low_tags(4)
  have len: "length (der_element CBS_ASN1_SEQUENCE (?int @ ?str)) \<le> CBB_LIMIT" by (simp add: CBB_LIMIT_def)
  note w = write_record_total [OF s62, of v]
  from build_serves [OF assms(1,2) w len] obtain out n where b: "build malloc cap (write_record v s malloc) = Some (out, n)"
    by blast
  have "cap < 2 ^ 62" using assms(2) by simp
  note bb = build_bytes [OF serves_allocator [OF assms(1)] this cbb_total.axioms(1) [OF w] b]
  have vw: "cbs_view (reparse out n) = der_element CBS_ASN1_SEQUENCE (?int @ ?str) @ []" using bb(2) by simp
  have "length (?int @ ?str) < 2 ^ 32" using lb by simp
  from get_asn1_complete [OF bb(1) vw this] obtain seq where
    q: "CBS_get_asn1 CBS_ASN1_SEQUENCE (reparse out n) =
          (Some seq, cbs_drop (length (der_element CBS_ASN1_SEQUENCE (?int @ ?str))) (reparse out n))"
      "cbs_ok seq" "cbs_view seq = ?int @ ?str" by blast
  note i = get_uint64_complete [OF q(2,3)]
  have oki: "cbs_ok (cbs_drop (length ?int) seq)"
    using der_element_le [OF q(2,3)] q(2) by simp
  have "length s < 2 ^ 32" using assms(3) by simp
  moreover have "cbs_view (cbs_drop (length ?int) seq) = ?str @ []" using i(2) by simp
  ultimately obtain str where
    t: "CBS_get_asn1 CBS_ASN1_OCTETSTRING (cbs_drop (length ?int) seq) =
          (Some str, cbs_drop (length ?str) (cbs_drop (length ?int) seq))" "cbs_view str = s"
    using get_asn1_complete [OF oki] by blast
  have "cbs_view (cbs_drop (length ?str) (cbs_drop (length ?int) seq)) = []"
    using q(3) by simp
  with b q(1) i(1) t vw show ?thesis by auto
qed

theorem der_record_roundtrip_witness:
  "\<exists>out n seq rest int_rest str str_rest.
     build zero_alloc 2 (write_record 7 [65, 66] zero_alloc) = Some (out, n) \<and>
     CBS_get_asn1 CBS_ASN1_SEQUENCE (reparse out n) = (Some seq, rest) \<and> cbs_view rest = [] \<and>
     CBS_get_asn1_uint64 seq = (Some 7, int_rest) \<and>
     CBS_get_asn1 CBS_ASN1_OCTETSTRING int_rest = (Some str, str_rest) \<and>
     cbs_view str = [65, 66] \<and> cbs_view str_rest = []"
  by (rule der_record_roundtrip) simp_all

end
