(* ===== verification/PbStream.thy ===== *)
theory PbStream
  imports Prelude
begin

text \<open>
  The stream layer of nanopb (\<open>Pods/nanopb/pb_encode.c\<close> and \<open>pb_decode.c\<close>): output streams
  (\<open>pb_ostream_t\<close>, \<open>buf_write\<close>, \<open>pb_write\<close>) and input streams (\<open>pb_istream_t\<close>,
  \<open>buf_read\<close>, \<open>pb_read\<close>, \<open>pb_readbyte\<close>). A user callback is a parameter of the
  model: it works on its own state and tells whether it succeeded.
\<close>

section \<open>Output streams\<close>

text \<open>\<open>ocallback = None\<close> is the NULL callback of a sizing stream.\<close>

record 's ostream =
  ocallback :: "('s \<Rightarrow> byte list \<Rightarrow> bool \<times> 's) option"
  ostate :: 's
  max_size :: size_t
  bytes_written :: size_t
  oerrmsg :: "string option"

text \<open>\<open>PB_RETURN_ERROR\<close>: the first message set is kept.\<close>

definition o_error :: "'s ostream \<Rightarrow> string \<Rightarrow> bool \<times> 's ostream" where
  "o_error st msg =
     (False, st\<lparr>oerrmsg := (case oerrmsg st of None \<Rightarrow> Some msg | Some m \<Rightarrow> Some m)\<rparr>)"

text \<open>The state of a memory sink: the buffer object and the position of \<open>stream->state\<close> in it.\<close>

type_synonym membuf = "byte list \<times> nat"

fun buf_write :: "membuf \<Rightarrow> byte list \<Rightarrow> bool \<times> membuf" where
  "buf_write (mem, pos) bs = (True, (splice pos bs mem, pos + length bs))"

definition pb_ostream_from_buffer :: "byte list \<Rightarrow> size_t \<Rightarrow> membuf ostream" where
  "pb_ostream_from_buffer buf bufsize =
     \<lparr>ocallback = Some buf_write, ostate = (buf, 0), max_size = bufsize, bytes_written = 0,
      oerrmsg = None\<rparr>"

definition PB_OSTREAM_SIZING :: "unit ostream" where
  "PB_OSTREAM_SIZING =
     \<lparr>ocallback = None, ostate = (), max_size = 0, bytes_written = 0, oerrmsg = None\<rparr>"

definition pb_write :: "'s ostream \<Rightarrow> byte list \<Rightarrow> size_t \<Rightarrow> bool \<times> 's ostream" where
  "pb_write st buf count =
     (case ocallback st of
        None \<Rightarrow> (True, st\<lparr>bytes_written := size_wrap (bytes_written st + count)\<rparr>)
      | Some cb \<Rightarrow>
          if max_size st < size_wrap (bytes_written st + count) then o_error st ''stream full''
          else
            (case cb (ostate st) (take count buf) of
               (False, s') \<Rightarrow> o_error (st\<lparr>ostate := s'\<rparr>) ''io error''
             | (True, s') \<Rightarrow>
                 (True, st\<lparr>ostate := s', bytes_written := size_wrap (bytes_written st + count)\<rparr>)))"

subsection \<open>What an output callback promises\<close>

text \<open>
  The interface between the encoders and a sink: \<open>out s\<close> is what the sink has collected and
  \<open>room s n\<close> says it can take \<open>n\<close> more bytes. Inside the promise, a successful call
  appends exactly the bytes it is given.
\<close>

locale byte_sink =
  fixes cb :: "'s \<Rightarrow> byte list \<Rightarrow> bool \<times> 's"
    and out :: "'s \<Rightarrow> byte list"
    and room :: "'s \<Rightarrow> nat \<Rightarrow> bool"
  assumes appends: "room s n \<Longrightarrow> length bs \<le> n \<Longrightarrow> cb s bs = (True, s') \<Longrightarrow> out s' = out s @ bs"
    and room_left: "room s n \<Longrightarrow> length bs \<le> n \<Longrightarrow> cb s bs = (True, s') \<Longrightarrow> room s' (n - length bs)"
begin

text \<open>The invariant of a stream over the sink: the sink has room for all the stream may still write.\<close>

definition stream_ok :: "'s ostream \<Rightarrow> bool" where
  "stream_ok st \<longleftrightarrow>
     ocallback st = Some cb \<and> bytes_written st \<le> max_size st \<and> max_size st < 2 ^ 63 \<and>
     room (ostate st) (max_size st - bytes_written st)"

text \<open>\<open>emits st r bs\<close>: if the call with result \<open>r\<close> succeeded, it has written exactly \<open>bs\<close>.\<close>

definition emits :: "'s ostream \<Rightarrow> bool \<times> 's ostream \<Rightarrow> byte list \<Rightarrow> bool" where
  "emits st r bs \<longleftrightarrow>
     (fst r \<longrightarrow> stream_ok (snd r) \<and> out (ostate (snd r)) = out (ostate st) @ bs \<and>
        bytes_written (snd r) = bytes_written st + length bs \<and> max_size (snd r) = max_size st)"

lemma emits_write:
  assumes st: "stream_ok st" and n: "n \<le> length buf" "n < 2 ^ 63"
  shows "emits st (pb_write st buf n) (take n buf)"
proof -
  have lt: "bytes_written st + n < 2 ^ 64"
    using st n by (simp add: stream_ok_def)
  show ?thesis
  proof (cases "max_size st < bytes_written st + n")
    case True
    with st lt show ?thesis by (simp add: emits_def pb_write_def o_error_def stream_ok_def)
  next
    case False
    obtain ok s' where cb: "cb (ostate st) (take n buf) = (ok, s')"
      by (cases "cb (ostate st) (take n buf)")
    have len: "length (take n buf) \<le> max_size st - bytes_written st"
      using False n by simp
    show ?thesis
    proof (cases ok)
      case True
      with cb have cb': "cb (ostate st) (take n buf) = (True, s')" by simp
      have room: "room (ostate st) (max_size st - bytes_written st)"
        using st by (simp add: stream_ok_def)
      from appends [OF room len cb'] room_left [OF room len cb'] show ?thesis
        using st n lt False cb' by (simp add: emits_def pb_write_def stream_ok_def min_absorb2)
    next
      case False
      with st lt cb \<open>\<not> max_size st < bytes_written st + n\<close> show ?thesis
        by (simp add: emits_def pb_write_def o_error_def stream_ok_def)
    qed
  qed
qed

lemma emits_then:
  assumes "emits st (ok, st') bs" and "ok \<Longrightarrow> stream_ok st' \<Longrightarrow> emits st' r cs"
  shows "emits st (if ok then r else (False, st')) (bs @ cs)"
  using assms by (auto simp: emits_def)

end

text \<open>The memory sink keeps the promise as long as the buffer object is large enough, and it never
  refuses a write.\<close>

definition membuf_out :: "membuf \<Rightarrow> byte list" where
  "membuf_out s = take (snd s) (fst s)"

definition membuf_room :: "membuf \<Rightarrow> nat \<Rightarrow> bool" where
  "membuf_room s n \<longleftrightarrow> snd s + n \<le> length (fst s)"

interpretation membuf: byte_sink buf_write membuf_out membuf_room
proof
  fix s :: membuf and n bs s'
  assume room: "membuf_room s n" and len: "length bs \<le> n" and cb: "buf_write s bs = (True, s')"
  obtain mem pos where s: "s = (mem, pos)" by (cases s)
  show "membuf_out s' = membuf_out s @ bs"
    using room len cb by (auto simp: s membuf_out_def membuf_room_def take_splice_end)
  show "membuf_room s' (n - length bs)"
    using room len cb by (auto simp: s membuf_room_def)
qed

text \<open>Bytes of the buffer outside the written window are never touched.\<close>

lemma buf_write_frame:
  assumes "membuf_room (mem, pos) n" and "length bs \<le> n" and "buf_write (mem, pos) bs = (True, (mem', pos'))"
  shows "length mem' = length mem" and "take pos mem' = take pos mem" and "drop pos' mem' = drop pos' mem"
  using assms by (auto simp: membuf_room_def drop_splice_after)

lemma membuf_stream_ok:
  "bufsize \<le> length buf \<Longrightarrow> bufsize < 2 ^ 63 \<Longrightarrow> membuf.stream_ok (pb_ostream_from_buffer buf bufsize)"
  by (simp add: membuf.stream_ok_def pb_ostream_from_buffer_def membuf_room_def)

section \<open>Input streams\<close>

text \<open>
  \<open>Buf_read p\<close>: the callback is \<open>buf_read\<close> and \<open>stream->state\<close> points at the bytes
  \<open>p\<close>. \<open>Callback f s\<close>: a user callback \<open>f\<close> with its state \<open>s\<close>; \<open>f s n\<close>
  returns the \<open>n\<close> bytes it put into the buffer, or \<open>None\<close> for failure.
\<close>

datatype 's source =
    Buf_read "byte list"
  | Callback "'s \<Rightarrow> nat \<Rightarrow> byte list option \<times> 's" 's

record 's istream =
  source :: "'s source"
  bytes_left :: size_t
  ierrmsg :: "string option"

definition i_error :: "'s istream \<Rightarrow> string \<Rightarrow> 'a option \<times> 's istream" where
  "i_error st msg =
     (None, st\<lparr>ierrmsg := (case ierrmsg st of None \<Rightarrow> Some msg | Some m \<Rightarrow> Some m)\<rparr>)"

definition buf_read :: "byte list \<Rightarrow> nat \<Rightarrow> byte list option \<times> byte list" where
  "buf_read p count = (Some (take count p), drop count p)"

definition pb_istream_from_buffer :: "byte list \<Rightarrow> size_t \<Rightarrow> 's istream" where
  "pb_istream_from_buffer buf bufsize =
     \<lparr>source = Buf_read buf, bytes_left = bufsize, ierrmsg = None\<rparr>"

text \<open>\<open>stream->callback(stream, buf, count)\<close>.\<close>

fun run_source :: "'s source \<Rightarrow> nat \<Rightarrow> byte list option \<times> 's source" where
  "run_source (Buf_read p) n = (case buf_read p n of (r, p') \<Rightarrow> (r, Buf_read p'))"
| "run_source (Callback f s) n = (case f s n of (r, s') \<Rightarrow> (r, Callback f s'))"

text \<open>\<open>pb_read\<close> with a buffer to fill.\<close>

definition pb_read :: "'s istream \<Rightarrow> size_t \<Rightarrow> byte list option \<times> 's istream" where
  "pb_read st count =
     (if bytes_left st < count then i_error st ''end-of-stream''
      else
        (case run_source (source st) count of
           (None, src') \<Rightarrow> i_error (st\<lparr>source := src'\<rparr>) ''io error''
         | (Some bs, src') \<Rightarrow>
             (Some bs, st\<lparr>source := src', bytes_left := bytes_left st - count\<rparr>)))"

text \<open>\<open>pb_read\<close> with \<open>buf == NULL\<close> on a stream with a user callback: the bytes are skipped
  through a 16-byte scratch buffer.\<close>

function pb_skip_chunks :: "'s istream \<Rightarrow> size_t \<Rightarrow> unit option \<times> 's istream" where
  "pb_skip_chunks st count =
     (if 16 < count
      then (case pb_read st 16 of
              (None, st') \<Rightarrow> (None, st')
            | (Some tmp, st') \<Rightarrow> pb_skip_chunks st' (count - 16))
      else (case pb_read st count of
              (None, st') \<Rightarrow> (None, st')
            | (Some tmp, st') \<Rightarrow> (Some (), st')))"
  by pat_completeness auto
termination
  by (relation "measure (\<lambda>(st, count). count)") auto

declare pb_skip_chunks.simps [simp del]

definition pb_read_null :: "'s istream \<Rightarrow> size_t \<Rightarrow> unit option \<times> 's istream" where
  "pb_read_null st count =
     (case source st of
        Callback f s \<Rightarrow> pb_skip_chunks st count
      | Buf_read p \<Rightarrow>
          (case pb_read st count of
             (None, st') \<Rightarrow> (None, st')
           | (Some bs, st') \<Rightarrow> (Some (), st')))"

definition pb_readbyte :: "'s istream \<Rightarrow> byte option \<times> 's istream" where
  "pb_readbyte st =
     (if bytes_left st = 0 then i_error st ''end-of-stream''
      else
        (case run_source (source st) 1 of
           (None, src') \<Rightarrow> i_error (st\<lparr>source := src'\<rparr>) ''io error''
         | (Some bs, src') \<Rightarrow>
             (Some (hd bs), st\<lparr>source := src', bytes_left := bytes_left st - 1\<rparr>)))"

lemma pb_readbyte_less [termination_simp]:
  "pb_readbyte st = (Some b, st') \<Longrightarrow> bytes_left st' < bytes_left st"
  by (auto simp: pb_readbyte_def i_error_def split: if_splits prod.splits option.splits)

subsection \<open>Reading from memory\<close>

text \<open>The unread bytes of a memory stream, and its invariant: \<open>bytes_left\<close> stays inside the buffer.\<close>

definition pb_view :: "'s istream \<Rightarrow> byte list" where
  "pb_view st = (case source st of Buf_read p \<Rightarrow> take (bytes_left st) p | Callback f s \<Rightarrow> [])"

definition pb_ok :: "'s istream \<Rightarrow> bool" where
  "pb_ok st \<longleftrightarrow>
     (case source st of Buf_read p \<Rightarrow> bytes_left st \<le> length p | Callback f s \<Rightarrow> False)"

text \<open>The stream after \<open>n\<close> bytes of memory have been taken.\<close>

definition advance :: "nat \<Rightarrow> 's istream \<Rightarrow> 's istream" where
  "advance n st =
     (case source st of
        Buf_read p \<Rightarrow> st\<lparr>source := Buf_read (drop n p), bytes_left := bytes_left st - n\<rparr>
      | Callback f s \<Rightarrow> st)"

lemma pb_okE:
  assumes "pb_ok st"
  obtains p where "source st = Buf_read p" and "bytes_left st \<le> length p"
    and "pb_view st = take (bytes_left st) p"
  using assms by (auto simp: pb_ok_def pb_view_def split: source.splits)

lemma length_pb_view: "pb_ok st \<Longrightarrow> length (pb_view st) = bytes_left st"
  by (auto elim!: pb_okE)

lemma pb_ok_from_buffer [simp]:
  "n \<le> length buf \<Longrightarrow> pb_ok (pb_istream_from_buffer buf n)"
  "pb_view (pb_istream_from_buffer buf n) = take n buf"
  by (simp_all add: pb_ok_def pb_view_def pb_istream_from_buffer_def)

lemma i_error_view [simp]:
  "fst (i_error st m) = None"
  "pb_view (snd (i_error st m)) = pb_view st"
  "pb_ok (snd (i_error st m)) = pb_ok st"
  "bytes_left (snd (i_error st m)) = bytes_left st"
  by (simp_all add: i_error_def pb_view_def pb_ok_def split: source.splits)

lemma i_error_simps [simp]:
  "i_error st m = (Some x, st') \<longleftrightarrow> False"
  by (simp add: i_error_def)

lemma advance_simps [simp]:
  assumes "pb_ok st" and "n \<le> length (pb_view st)"
  shows "pb_ok (advance n st)" and "pb_view (advance n st) = drop n (pb_view st)"
    and "bytes_left (advance n st) = bytes_left st - n"
    and "ierrmsg (advance n st) = ierrmsg st"
  using assms by (cases "source st"; simp add: advance_def pb_ok_def pb_view_def drop_take)+

lemma advance_0 [simp]: "pb_ok st \<Longrightarrow> advance 0 st = st"
  by (auto elim!: pb_okE simp: advance_def)

lemma advance_advance:
  "pb_ok st \<Longrightarrow> advance m (advance n st) = advance (n + m) st"
  by (auto elim!: pb_okE simp: advance_def add.commute)

text \<open>A read of a memory stream returns the next bytes of its view, or fails and leaves the view alone.\<close>

lemma pb_read_view:
  "pb_ok st \<Longrightarrow> pb_read st n =
     (if length (pb_view st) < n then i_error st ''end-of-stream''
      else (Some (take n (pb_view st)), advance n st))"
  by (auto elim!: pb_okE simp: pb_read_def buf_read_def advance_def min_absorb2)

lemma pb_read_null_view:
  "pb_ok st \<Longrightarrow> pb_read_null st n =
     (if length (pb_view st) < n then i_error st ''end-of-stream'' else (Some (), advance n st))"
  by (frule pb_read_view [of st n]) (auto elim!: pb_okE simp: pb_read_null_def i_error_def)

lemma pb_readbyte_view:
  assumes "pb_ok st"
  shows "pb_readbyte st =
     (case pb_view st of [] \<Rightarrow> i_error st ''end-of-stream'' | b # _ \<Rightarrow> (Some b, advance 1 st))"
proof -
  from assms obtain p where p: "source st = Buf_read p" "bytes_left st \<le> length p"
      "pb_view st = take (bytes_left st) p"
    by (rule pb_okE)
  then show ?thesis
    by (cases p; cases "bytes_left st") (auto simp: pb_readbyte_def buf_read_def advance_def)
qed

lemma pb_readbyte_Cons [simp]:
  "pb_ok st \<Longrightarrow> pb_view st = b # bs \<Longrightarrow> pb_readbyte st = (Some b, advance 1 st)"
  by (simp add: pb_readbyte_view)

lemma pb_read_append [simp]:
  "pb_ok st \<Longrightarrow> pb_view st = xs @ rest \<Longrightarrow> n = length xs \<Longrightarrow>
   pb_read st n = (Some xs, advance n st)"
  by (simp add: pb_read_view)

subsection \<open>The contract of a reader\<close>

text \<open>
  A reader of a memory stream moves the stream forward: the position advances by as many bytes as it
  takes off \<open>bytes_left\<close>. The substream mechanism depends on this, because closing a substream
  copies its position back into the parent.
\<close>

definition moved :: "'s istream \<Rightarrow> 's istream \<Rightarrow> bool" where
  "moved st st' \<longleftrightarrow>
     (\<exists>k \<le> length (pb_view st).
        source st' = source (advance k st) \<and> bytes_left st' = bytes_left st - k)"

lemma moved_view:
  assumes "pb_ok st" and "moved st st'"
  shows "pb_ok st'" and "suffix (pb_view st') (pb_view st)"
proof -
  from assms(2) obtain k where k: "k \<le> length (pb_view st)" "source st' = source (advance k st)"
      "bytes_left st' = bytes_left (advance k st)"
    using assms(1) by (auto simp: moved_def)
  then have "pb_ok st' = pb_ok (advance k st)" and "pb_view st' = pb_view (advance k st)"
    by (simp_all add: pb_ok_def pb_view_def split: source.splits)
  with k assms(1) show "pb_ok st'" and "suffix (pb_view st') (pb_view st)"
    by (simp_all add: suffix_drop)
qed

lemma moved_refl [simp]: "pb_ok st \<Longrightarrow> moved st st"
  unfolding moved_def by (rule exI [of _ 0]) simp

lemma moved_advance [simp]: "pb_ok st \<Longrightarrow> k \<le> length (pb_view st) \<Longrightarrow> moved st (advance k st)"
  by (auto simp: moved_def)

lemma moved_error [simp]: "pb_ok st \<Longrightarrow> moved st (snd (i_error st m))"
  unfolding moved_def by (rule exI [of _ 0]) (simp add: i_error_def)

lemma moved_trans:
  assumes ok: "pb_ok st" and 1: "moved st st'" and 2: "moved st' st''"
  shows "moved st st''"
proof -
  from 1 obtain k where k: "k \<le> length (pb_view st)" "source st' = source (advance k st)"
      "bytes_left st' = bytes_left st - k"
    by (auto simp: moved_def)
  have ok': "pb_ok st'" by (rule moved_view [OF ok 1])
  from 2 obtain m where m: "m \<le> length (pb_view st')" "source st'' = source (advance m st')"
      "bytes_left st'' = bytes_left st' - m"
    by (auto simp: moved_def)
  have len: "length (pb_view st') = length (pb_view st) - k"
    using k by (simp add: length_pb_view [OF ok] length_pb_view [OF ok'])
  have "source (advance m st') = source (advance (k + m) st)"
    using k ok by (auto elim!: pb_okE simp: advance_def add.commute)
  then show ?thesis
    unfolding moved_def using k m len by (intro exI [of _ "k + m"]) simp
qed

locale pb_reader =
  fixes rd :: "'s istream \<Rightarrow> 'a option \<times> 's istream"
  assumes moves: "pb_ok st \<Longrightarrow> moved st (snd (rd st))"

sublocale pb_reader \<subseteq> consuming pb_view pb_ok rd
  by unfold_locales (blast dest: moves intro: moved_view)+

locale pb_strict_reader = pb_reader +
  assumes takes_a_byte: "pb_ok st \<Longrightarrow> rd st = (Some x, st') \<Longrightarrow> length (pb_view st') < length (pb_view st)"

sublocale pb_strict_reader \<subseteq> strictly_consuming pb_view pb_ok rd
  by unfold_locales (rule takes_a_byte)

lemma pb_reader_ret: "pb_reader (ret x)"
  by unfold_locales (simp add: ret_def)

lemma pb_reader_error: "pb_reader (\<lambda>st. i_error st m)"
  by unfold_locales simp

lemma pb_reader_andthen:
  assumes m: "pb_reader m" and k: "\<And>x. pb_reader (k x)"
  shows "pb_reader (andthen m k)"
proof
  fix st :: "'a istream" assume ok: "pb_ok st"
  obtain r st' where ms: "m st = (r, st')" by (cases "m st")
  have mv: "moved st st'" using pb_reader.moves [OF m ok] ms by simp
  have "moved st (snd (k x st'))" for x
    by (rule moved_trans [OF ok mv pb_reader.moves [OF k moved_view(1) [OF ok mv]]])
  with ms mv show "moved st (snd (andthen m k st))"
    by (cases r) (simp_all add: andthen_def)
qed

lemmas pb_reader_intros = pb_reader_ret pb_reader_error pb_reader_andthen

interpretation readbyte: pb_strict_reader pb_readbyte
proof
  fix st :: "'s istream" assume ok: "pb_ok st"
  then show "moved st (snd (pb_readbyte st))"
    by (cases "pb_view st") (simp_all add: pb_readbyte_view)
next
  fix st :: "'s istream" and b st'
  assume "pb_ok st" and "pb_readbyte st = (Some b, st')"
  then show "length (pb_view st') < length (pb_view st)"
    by (cases "pb_view st") (auto simp: pb_readbyte_view)
qed

interpretation read: pb_reader "\<lambda>st. pb_read st n"
  by unfold_locales (simp add: pb_read_view)

interpretation read_null: pb_reader "\<lambda>st. pb_read_null st n"
  by unfold_locales (simp add: pb_read_null_view)

text \<open>Skipping in chunks of a user callback reads \<open>count\<close> bytes in all.\<close>

lemma pb_skip_chunks_count:
  "pb_skip_chunks st count = (Some (), st') \<Longrightarrow> bytes_left st' + count = bytes_left st"
proof (induction st count arbitrary: st' rule: pb_skip_chunks.induct)
  case (1 st count)
  have rd: "\<And>n r s. pb_read st n = (Some r, s) \<Longrightarrow> bytes_left s + n = bytes_left st"
    by (auto simp: pb_read_def i_error_def split: if_splits prod.splits option.splits)
  show ?case
  proof (cases "16 < count")
    case True
    with "1.prems" obtain tmp s where r: "pb_read st 16 = (Some tmp, s)"
        and rest: "pb_skip_chunks s (count - 16) = (Some (), st')"
      by (auto simp: pb_skip_chunks.simps [of st count] split: prod.splits option.splits)
    from "1.IH" [OF True r [symmetric] refl rest] rd [OF r] True show ?thesis by simp
  next
    case False
    with "1.prems" obtain tmp where "pb_read st count = (Some tmp, st')"
      by (auto simp: pb_skip_chunks.simps [of st count] split: prod.splits option.splits)
    then show ?thesis by (rule rd)
  qed
qed

end
