(* ===== verification/PbWire.thy ===== *)
theory PbWire
  imports PbStream
begin

text \<open>
  The wire primitives of nanopb: varints, zigzag integers, fixed-width integers, field tags, strings,
  skipping and length-delimited substreams (\<open>pb_encode_varint\<close> to \<open>pb_encode_string\<close> in
  \<open>pb_encode.c\<close>, \<open>pb_decode_varint32_eof\<close> to \<open>pb_close_string_substream\<close> and the
  \<open>pb_decode_\<close> helpers in \<open>pb_decode.c\<close>), with the round trips between the two sides.
\<close>

section \<open>Wire types\<close>

definition PB_WT_VARINT :: nat where "PB_WT_VARINT = 0"
definition PB_WT_64BIT :: nat where "PB_WT_64BIT = 1"
definition PB_WT_STRING :: nat where "PB_WT_STRING = 2"
definition PB_WT_32BIT :: nat where "PB_WT_32BIT = 5"

lemmas wire_type_defs = PB_WT_VARINT_def PB_WT_64BIT_def PB_WT_STRING_def PB_WT_32BIT_def

section \<open>Encoding\<close>

text \<open>The loop of \<open>pb_encode_varint\<close>: seven bits at a time, each with the continuation bit.\<close>

function varint_groups :: "u64 \<Rightarrow> byte list" where
  "varint_groups value =
     (if value = 0 then []
      else (ucast (value AND 0x7F) OR 0x80) # varint_groups (drop_bit 7 value))"
  by pat_completeness auto

termination
  by (relation "measure unat") (auto intro: drop_bit_7_less)

declare varint_groups.simps [simp del]

definition pb_encode_varint :: "'s ostream \<Rightarrow> u64 \<Rightarrow> bool \<times> 's ostream" where
  "pb_encode_varint st value =
     (if value \<le> 0x7F then pb_write st [ucast value] 1
      else
        (let buffer = varint_groups value;
             i = length buffer
         in pb_write st (buffer[i - 1 := (buffer ! (i - 1)) AND 0x7F]) i))"

definition pb_encode_svarint :: "'s ostream \<Rightarrow> u64 \<Rightarrow> bool \<times> 's ostream" where
  "pb_encode_svarint st value =
     (let zigzagged = (if value <s 0 then NOT (push_bit 1 value) else push_bit 1 value)
      in pb_encode_varint st zigzagged)"

definition pb_encode_fixed32 :: "'s ostream \<Rightarrow> u32 \<Rightarrow> bool \<times> 's ostream" where
  "pb_encode_fixed32 st val =
     pb_write st
       [ucast (val AND 0xFF), ucast (drop_bit 8 val AND 0xFF), ucast (drop_bit 16 val AND 0xFF),
        ucast (drop_bit 24 val AND 0xFF)] 4"

definition pb_encode_fixed64 :: "'s ostream \<Rightarrow> u64 \<Rightarrow> bool \<times> 's ostream" where
  "pb_encode_fixed64 st val =
     pb_write st
       [ucast (val AND 0xFF), ucast (drop_bit 8 val AND 0xFF), ucast (drop_bit 16 val AND 0xFF),
        ucast (drop_bit 24 val AND 0xFF), ucast (drop_bit 32 val AND 0xFF),
        ucast (drop_bit 40 val AND 0xFF), ucast (drop_bit 48 val AND 0xFF),
        ucast (drop_bit 56 val AND 0xFF)] 8"

definition pb_encode_tag :: "'s ostream \<Rightarrow> nat \<Rightarrow> u32 \<Rightarrow> bool \<times> 's ostream" where
  "pb_encode_tag st wiretype field_number =
     pb_encode_varint st (push_bit 3 (ucast field_number) OR of_nat wiretype)"

definition pb_encode_string :: "'s ostream \<Rightarrow> byte list \<Rightarrow> size_t \<Rightarrow> bool \<times> 's ostream" where
  "pb_encode_string st buffer sz =
     (case pb_encode_varint st (of_nat sz) of
        (False, st') \<Rightarrow> (False, st')
      | (True, st') \<Rightarrow> pb_write st' buffer sz)"

section \<open>Decoding\<close>

text \<open>
  The loop of \<open>pb_decode_varint32_eof\<close>; \<open>bitpos\<close> is a \<open>uint_fast8_t\<close>, eight bits
  wide on the platforms of the app, so it wraps at 256. The result holds the value, the final
  \<open>bitpos\<close> and the last byte.
\<close>

function varint32_loop :: "'s istream \<Rightarrow> nat \<Rightarrow> u32 \<Rightarrow> (u32 \<times> nat \<times> byte) option \<times> 's istream" where
  "varint32_loop st bitpos result =
     (case pb_readbyte st of
        (None, st') \<Rightarrow> (None, st')
      | (Some byt, st') \<Rightarrow>
          if 32 \<le> bitpos \<and>
             (let sign_extension = (if bitpos < 63 then 0xFF else 0x01)
              in byt AND 0x7F \<noteq> 0 \<and> (drop_bit 31 result = 0 \<or> byt \<noteq> sign_extension))
          then i_error st' ''varint overflow''
          else
            (let result' = (if 32 \<le> bitpos then result
                            else result OR push_bit bitpos (ucast (byt AND 0x7F)));
                 bitpos' = (bitpos + 7) mod 256
             in if byt AND 0x80 \<noteq> 0 then varint32_loop st' bitpos' result'
                else (Some (result', bitpos', byt), st')))"
  by pat_completeness auto
termination
  by (relation "measure (\<lambda>(st, bitpos, result). bytes_left st)") (auto dest!: pb_readbyte_less [OF sym])

declare varint32_loop.simps [simp del]

text \<open>The second component of the result is \<open>*eof\<close>, as set by this call.\<close>

definition pb_decode_varint32_eof :: "'s istream \<Rightarrow> (u32 option \<times> bool) \<times> 's istream" where
  "pb_decode_varint32_eof st =
     (case pb_readbyte st of
        (None, st') \<Rightarrow> ((None, bytes_left st' = 0), st')
      | (Some byt, st') \<Rightarrow>
          if byt AND 0x80 = 0 then ((Some (ucast byt), False), st')
          else
            (case varint32_loop st' 7 (ucast (byt AND 0x7F)) of
               (None, st'') \<Rightarrow> ((None, False), st'')
             | (Some (result, bitpos, lastb), st'') \<Rightarrow>
                 if bitpos = 35 \<and> lastb AND 0x70 \<noteq> 0
                 then (case i_error st'' ''varint overflow'' of (r, s) \<Rightarrow> ((r, False), s))
                 else ((Some result, False), st'')))"

definition pb_decode_varint32 :: "'s istream \<Rightarrow> u32 option \<times> 's istream" where
  "pb_decode_varint32 st = (case pb_decode_varint32_eof st of ((r, _), st') \<Rightarrow> (r, st'))"

function varint_loop :: "'s istream \<Rightarrow> nat \<Rightarrow> u64 \<Rightarrow> u64 option \<times> 's istream" where
  "varint_loop st bitpos result =
     (if 64 \<le> bitpos then i_error st ''varint overflow''
      else
        (case pb_readbyte st of
           (None, st') \<Rightarrow> (None, st')
         | (Some byt, st') \<Rightarrow>
             (let result' = result OR push_bit bitpos (ucast (byt AND 0x7F));
                  bitpos' = (bitpos + 7) mod 256
              in if byt AND 0x80 \<noteq> 0 then varint_loop st' bitpos' result'
                 else (Some result', st'))))"
  by pat_completeness auto
termination
  by (relation "measure (\<lambda>(st, bitpos, result). bytes_left st)") (auto dest!: pb_readbyte_less [OF sym])

declare varint_loop.simps [simp del]

definition pb_decode_varint :: "'s istream \<Rightarrow> u64 option \<times> 's istream" where
  "pb_decode_varint st = varint_loop st 0 0"

lemma pb_read_less:
  "pb_read st n = (Some b, st') \<Longrightarrow> 0 < n \<Longrightarrow> bytes_left st' < bytes_left st"
  by (auto simp: pb_read_def split: if_splits prod.splits option.splits)

function pb_skip_varint :: "'s istream \<Rightarrow> unit option \<times> 's istream" where
  "pb_skip_varint st =
     (case pb_read st 1 of
        (None, st') \<Rightarrow> (None, st')
      | (Some bs, st') \<Rightarrow> if hd bs AND 0x80 \<noteq> 0 then pb_skip_varint st' else (Some (), st'))"
  by pat_completeness auto
termination
  by (relation "measure bytes_left") (auto dest!: pb_read_less [OF sym])

declare pb_skip_varint.simps [simp del]

definition pb_skip_string :: "'s istream \<Rightarrow> unit option \<times> 's istream" where
  "pb_skip_string = andthen pb_decode_varint32 (\<lambda>len st. pb_read_null st (unat len))"

text \<open>\<open>*tag\<close> and \<open>*wire_type\<close> on success; \<open>*eof\<close> on either path.\<close>

definition pb_decode_tag :: "'s istream \<Rightarrow> ((u32 \<times> nat) option \<times> bool) \<times> 's istream" where
  "pb_decode_tag st =
     (case pb_decode_varint32_eof st of
        ((None, eof), st') \<Rightarrow> ((None, eof), st')
      | ((Some temp, eof), st') \<Rightarrow>
          if temp = 0 then ((None, True), st')
          else ((Some (drop_bit 3 temp, unat (temp AND 7)), eof), st'))"

definition pb_skip_field :: "'s istream \<Rightarrow> nat \<Rightarrow> unit option \<times> 's istream" where
  "pb_skip_field st wire_type =
     (if wire_type = PB_WT_VARINT then pb_skip_varint st
      else if wire_type = PB_WT_64BIT then pb_read_null st 8
      else if wire_type = PB_WT_STRING then pb_skip_string st
      else if wire_type = PB_WT_32BIT then pb_read_null st 4
      else i_error st ''invalid wire_type'')"

text \<open>\<open>read_raw_value\<close>: the bytes put into the buffer; the varint loop stops when the next byte would
  not fit in \<open>max_size\<close>.\<close>

function raw_varint :: "nat \<Rightarrow> byte list \<Rightarrow> 's istream \<Rightarrow> byte list option \<times> 's istream" where
  "raw_varint max_sz acc st =
     (if max_sz < length acc + 1 then (None, st)
      else
        (case pb_read st 1 of
           (None, st') \<Rightarrow> (None, st')
         | (Some bs, st') \<Rightarrow>
             if hd bs AND 0x80 \<noteq> 0 then raw_varint max_sz (acc @ [hd bs]) st'
             else (Some (acc @ [hd bs]), st')))"
  by pat_completeness auto
termination
  by (relation "measure (\<lambda>(m, acc, st). bytes_left st)") (auto dest!: pb_read_less [OF sym])

declare raw_varint.simps [simp del]

definition read_raw_value :: "'s istream \<Rightarrow> nat \<Rightarrow> nat \<Rightarrow> byte list option \<times> 's istream" where
  "read_raw_value st wire_type max_sz =
     (if wire_type = PB_WT_VARINT then raw_varint max_sz [] st
      else if wire_type = PB_WT_64BIT then pb_read st 8
      else if wire_type = PB_WT_32BIT then pb_read st 4
      else i_error st ''invalid wire_type'')"

text \<open>The substream shares the position of its parent; the parent's budget shrinks at once.\<close>

definition pb_make_string_substream :: "'s istream \<Rightarrow> 's istream option \<times> 's istream" where
  "pb_make_string_substream =
     andthen pb_decode_varint32
       (\<lambda>sz st.
          if bytes_left st < unat sz then i_error st ''parent stream too short''
          else (Some (st\<lparr>bytes_left := unat sz\<rparr>),
                st\<lparr>bytes_left := bytes_left st - unat sz\<rparr>))"

definition pb_close_string_substream :: "'s istream \<Rightarrow> 's istream \<Rightarrow> unit option \<times> 's istream" where
  "pb_close_string_substream st sub =
     (if bytes_left sub \<noteq> 0
      then (case pb_read_null sub (bytes_left sub) of
              (None, sub') \<Rightarrow> (None, st)
            | (Some _, sub') \<Rightarrow> (Some (), st\<lparr>source := source sub', ierrmsg := ierrmsg sub'\<rparr>))
      else (Some (), st\<lparr>source := source sub, ierrmsg := ierrmsg sub\<rparr>))"

definition pb_decode_svarint :: "'s istream \<Rightarrow> u64 option \<times> 's istream" where
  "pb_decode_svarint =
     andthen pb_decode_varint
       (\<lambda>value. ret (if value AND 1 \<noteq> 0 then NOT (drop_bit 1 value) else drop_bit 1 value))"

definition pb_decode_fixed32 :: "'s istream \<Rightarrow> u32 option \<times> 's istream" where
  "pb_decode_fixed32 =
     andthen (\<lambda>st. pb_read st 4)
       (\<lambda>bytes. ret (push_bit 0 (ucast (bytes ! 0)) OR push_bit 8 (ucast (bytes ! 1)) OR
          push_bit 16 (ucast (bytes ! 2)) OR push_bit 24 (ucast (bytes ! 3))))"

definition pb_decode_fixed64 :: "'s istream \<Rightarrow> u64 option \<times> 's istream" where
  "pb_decode_fixed64 =
     andthen (\<lambda>st. pb_read st 8)
       (\<lambda>bytes. ret (push_bit 0 (ucast (bytes ! 0)) OR push_bit 8 (ucast (bytes ! 1)) OR
          push_bit 16 (ucast (bytes ! 2)) OR push_bit 24 (ucast (bytes ! 3)) OR
          push_bit 32 (ucast (bytes ! 4)) OR push_bit 40 (ucast (bytes ! 5)) OR
          push_bit 48 (ucast (bytes ! 6)) OR push_bit 56 (ucast (bytes ! 7))))"

section \<open>The bytes of a varint\<close>

text \<open>The specification of both sides: seven bits per byte, least significant first.\<close>

function varint_bytes :: "u64 \<Rightarrow> byte list" where
  "varint_bytes v =
     (if v \<le> 0x7F then [ucast v]
      else (ucast (v AND 0x7F) OR 0x80) # varint_bytes (drop_bit 7 v))"
  by pat_completeness auto
termination
  by (relation "measure unat") (auto intro!: drop_bit_7_less)

declare varint_bytes.simps [simp del]

lemma varint_bytes_small: "drop_bit 7 v = 0 \<Longrightarrow> varint_bytes v = [ucast v]"
  by (simp add: varint_bytes.simps u64_le_7F)

lemma varint_bytes_big:
  "drop_bit 7 v \<noteq> 0 \<Longrightarrow>
   varint_bytes v = (ucast (take_bit 7 v) OR 0x80) # varint_bytes (drop_bit 7 v)"
  by (simp add: varint_bytes.simps [of v] u64_le_7F and_7F)

lemma varint_bytes_induct [case_names small big]:
  assumes "\<And>v. drop_bit 7 v = 0 \<Longrightarrow> P v"
    and "\<And>v. drop_bit 7 v \<noteq> 0 \<Longrightarrow> P (drop_bit 7 v) \<Longrightarrow> P v"
  shows "P (v :: u64)"
  by (induction v rule: varint_bytes.induct) (metis assms u64_le_7F)

lemma varint_bytes_not_Nil [simp]: "varint_bytes v \<noteq> []"
  by (simp add: varint_bytes.simps [of v])

lemma unat_drop_bit_7: "unat (drop_bit 7 v) = unat (v :: u64) div 128"
  by (simp add: drop_bit_eq_div unat_div)

lemma drop_bit_7_nonzero: "drop_bit 7 v \<noteq> 0 \<longleftrightarrow> 128 \<le> unat (v :: u64)"
  using unat_drop_bit_7 [of v] by (auto simp: unat_eq_zero [symmetric] simp del: unat_eq_zero)

lemma length_varint_bytes:
  "unat v < 2 ^ (7 * n) \<Longrightarrow> 0 < n \<Longrightarrow> length (varint_bytes v) \<le> n"
proof (induction v arbitrary: n rule: varint_bytes_induct)
  case (small v)
  then show ?case by (simp add: varint_bytes_small)
next
  case (big v)
  from big.hyps have "128 \<le> unat v" by (simp add: drop_bit_7_nonzero)
  with big.prems obtain m where n: "n = Suc m" and m: "0 < m"
    by (cases n; cases "n - 1") auto
  have "unat (drop_bit 7 v) < 2 ^ (7 * m)"
    using big.prems(1) by (simp add: unat_drop_bit_7 n power_add less_mult_imp_div_less)
  from big.IH [OF this m] big.hyps show ?case by (simp add: varint_bytes_big n)
qed

lemma length_varint_bytes_10: "length (varint_bytes v) \<le> 10"
proof (rule length_varint_bytes)
  have "unat v < 2 ^ 64" using unsigned_less [of v] by simp
  then show "unat v < 2 ^ (7 * 10)" by simp
qed simp

text \<open>The loop of the encoder, with its last byte fixed up, produces them.\<close>

lemma varint_groups_fixed:
  "v \<noteq> 0 \<Longrightarrow> varint_groups v \<noteq> [] \<and>
     butlast (varint_groups v) @ [last (varint_groups v) AND 0x7F] = varint_bytes v"
proof (induction v rule: varint_bytes_induct)
  case (small v)
  then show ?case
    by (simp add: varint_groups.simps [of v] varint_groups.simps [of 0] varint_bytes_small and_7F
        byte_more_low byte_last_low take_bit_eq_self_iff_drop_bit_eq_0 [THEN iffD2])
next
  case (big v)
  then show ?case by (auto simp: varint_groups.simps [of v] varint_bytes_big and_7F)
qed

lemma list_update_last: "xs \<noteq> [] \<Longrightarrow> xs[length xs - 1 := f (xs ! (length xs - 1))] = butlast xs @ [f (last xs)]"
  by (induction xs rule: rev_induct) (auto simp: nth_append list_update_append)

lemma pb_encode_varint_eq:
  "pb_encode_varint st v = pb_write st (varint_bytes v) (length (varint_bytes v))"
proof (cases "drop_bit 7 v = 0")
  case True
  then show ?thesis by (simp add: pb_encode_varint_def varint_bytes_small u64_le_7F)
next
  case False
  then have "v \<noteq> 0" by auto
  from varint_groups_fixed [OF this]
  have "varint_groups v \<noteq> []" and
    fixed: "butlast (varint_groups v) @ [last (varint_groups v) AND 0x7F] = varint_bytes v" by auto
  then have "(varint_groups v)[length (varint_groups v) - 1 :=
      (varint_groups v ! (length (varint_groups v) - 1)) AND 0x7F] = varint_bytes v"
    using list_update_last [of "varint_groups v" "\<lambda>b. b AND 0x7F"] by simp
  moreover from this have "length (varint_bytes v) = length (varint_groups v)"
    by (metis length_list_update)
  ultimately show ?thesis
    using False by (simp add: pb_encode_varint_def u64_le_7F Let_def)
qed

text \<open>The decoder's loop reads them back, at any bit position they still fit at.\<close>

lemma varint_loop_bytes:
  assumes "pb_ok st" and "pb_view st = varint_bytes v @ rest"
    and "bitpos < 64" and "unat v < 2 ^ (64 - bitpos)"
  shows "varint_loop st bitpos r =
           (Some (r OR push_bit bitpos v), advance (length (varint_bytes v)) st)"
  using assms
proof (induction v arbitrary: st bitpos r rule: varint_bytes_induct)
  case (small v)
  then show ?case
    by (simp add: varint_loop.simps [of st] varint_bytes_small and_80 byte_last and_7F byte_last_low
        ucast_byte_small)
next
  case (big v)
  let ?b = "ucast (take_bit 7 v) OR 0x80 :: byte"
  have view: "pb_view st = ?b # varint_bytes (drop_bit 7 v) @ rest"
    using big.prems(2) by (simp add: varint_bytes_big [OF big.hyps])
  have "128 \<le> unat v" using big.hyps by (simp add: drop_bit_7_nonzero)
  with big.prems(4) have "(2 :: nat) ^ 7 < 2 ^ (64 - bitpos)" by simp
  then have pos: "bitpos + 7 < 64" by (simp only: power_strict_increasing_iff)
  have bound: "unat (drop_bit 7 v) < 2 ^ (64 - (bitpos + 7))"
  proof -
    have "(2 :: nat) ^ (64 - bitpos) = 2 ^ (64 - (bitpos + 7)) * 128"
    proof -
      have "64 - bitpos = (64 - (bitpos + 7)) + 7" using pos by simp
      then show ?thesis by (simp only: power_add) simp
    qed
    with big.prems(4) show ?thesis by (simp add: unat_drop_bit_7 less_mult_imp_div_less)
  qed
  have "varint_loop (advance 1 st) (bitpos + 7) (r OR push_bit bitpos (take_bit 7 v)) =
      (Some ((r OR push_bit bitpos (take_bit 7 v)) OR push_bit (bitpos + 7) (drop_bit 7 v)),
       advance (length (varint_bytes (drop_bit 7 v))) (advance 1 st))"
    by (rule big.IH) (use big.prems(1) view pos bound in auto)
  moreover have "?b AND 0x80 \<noteq> 0" by (simp add: and_80 byte_more)
  ultimately show ?case
    using big.prems view pos
    by (simp add: varint_loop.simps [of st] and_7F byte_more_low varint_bytes_big [OF big.hyps]
        advance_advance or.assoc split_low)
qed

lemma pb_decode_varint_bytes:
  assumes "pb_ok st" and "pb_view st = varint_bytes v @ rest"
  shows "pb_decode_varint st = (Some v, advance (length (varint_bytes v)) st)"
  using varint_loop_bytes [OF assms, of 0 0] unsigned_less [of v] by (simp add: pb_decode_varint_def)

section \<open>Every decoder is a reader\<close>

lemma moved_varint_loop: "pb_ok st \<Longrightarrow> moved st (snd (varint_loop st bitpos r))"
proof (induction st bitpos r rule: varint_loop.induct)
  case (1 st bitpos r)
  obtain x st' where rd: "pb_readbyte st = (x, st')" by (cases "pb_readbyte st")
  have mv: "moved st st'" using readbyte.moves [OF "1.prems"] rd by simp
  show ?case
  proof (cases x)
    case None
    with rd mv "1.prems" show ?thesis by (simp add: varint_loop.simps [of st])
  next
    case (Some b)
    have "moved st' (snd (varint_loop st' ((bitpos + 7) mod 256) (r OR push_bit bitpos (ucast (b AND 0x7F)))))"
      if "\<not> 64 \<le> bitpos" and "b AND 0x80 \<noteq> 0"
      using "1.IH" [OF that(1) rd [symmetric] Some refl refl that(2)] moved_view(1) [OF "1.prems" mv]
      by simp
    with rd Some mv "1.prems" show ?thesis
      by (auto simp: varint_loop.simps [of st] Let_def intro: moved_trans)
  qed
qed

lemma moved_varint32_loop: "pb_ok st \<Longrightarrow> moved st (snd (varint32_loop st bitpos r))"
proof (induction st bitpos r rule: varint32_loop.induct)
  case (1 st bitpos r)
  obtain x st' where rd: "pb_readbyte st = (x, st')" by (cases "pb_readbyte st")
  have mv: "moved st st'" using readbyte.moves [OF "1.prems"] rd by simp
  have ok: "pb_ok st'" by (rule moved_view [OF "1.prems" mv])
  show ?case
  proof (cases x)
    case None
    with rd mv show ?thesis by (simp add: varint32_loop.simps [of st])
  next
    case (Some b)
    let ?bad = "32 \<le> bitpos \<and> (let sign_extension = (if bitpos < 63 then 0xFF else 0x01)
       in b AND 0x7F \<noteq> 0 \<and> (drop_bit 31 r = 0 \<or> b \<noteq> sign_extension))"
    let ?r = "if 32 \<le> bitpos then r else r OR push_bit bitpos (ucast (b AND 0x7F))"
    have IH: "moved st' (snd (varint32_loop st' ((bitpos + 7) mod 256) ?r))"
      if "\<not> ?bad" and "b AND 0x80 \<noteq> 0"
      using "1.IH" [OF rd [symmetric] Some that(1) refl refl that(2)] ok by simp
    have err: "moved st (snd (i_error st' m))" for m
      by (rule moved_trans [OF "1.prems" mv moved_error [OF ok]])
    show ?thesis
    proof (cases ?bad)
      case True
      with rd Some err show ?thesis by (simp add: varint32_loop.simps [of st])
    next
      case False
      then have "varint32_loop st bitpos r =
          (if b AND 0x80 \<noteq> 0 then varint32_loop st' ((bitpos + 7) mod 256) ?r
           else (Some (?r, (bitpos + 7) mod 256, b), st'))"
        using rd Some by (subst varint32_loop.simps) (simp only: prod.case option.case if_False Let_def)
      with IH [OF False] mv "1.prems" show ?thesis by (auto intro: moved_trans)
    qed
  qed
qed

lemma moved_skip_varint: "pb_ok st \<Longrightarrow> moved st (snd (pb_skip_varint st))"
proof (induction st rule: pb_skip_varint.induct)
  case (1 st)
  obtain x st' where rd: "pb_read st 1 = (x, st')" by (cases "pb_read st 1")
  have mv: "moved st st'" using read.moves [OF "1.prems", of 1] rd by simp
  have ok: "pb_ok st'" by (rule moved_view [OF "1.prems" mv])
  show ?case
  proof (cases x)
    case None
    with rd mv show ?thesis by (simp add: pb_skip_varint.simps [of st])
  next
    case (Some bs)
    have "moved st' (snd (pb_skip_varint st'))" if "hd bs AND 0x80 \<noteq> 0"
      using "1.IH" [OF rd [symmetric] Some that ok] .
    with rd Some mv "1.prems" show ?thesis
      by (auto simp: pb_skip_varint.simps [of st] intro: moved_trans)
  qed
qed

interpretation decode_varint: pb_reader pb_decode_varint
  by unfold_locales (simp add: pb_decode_varint_def moved_varint_loop)

lemma moved_varint32_eof:
  assumes ok: "pb_ok st"
  shows "moved st (snd (pb_decode_varint32_eof st))"
proof -
  obtain x st' where rd: "pb_readbyte st = (x, st')" by (cases "pb_readbyte st")
  have mv: "moved st st'" using readbyte.moves [OF ok] rd by simp
  have ok': "pb_ok st'" by (rule moved_view [OF ok mv])
  show ?thesis
  proof (cases x)
    case None
    with rd mv show ?thesis by (simp add: pb_decode_varint32_eof_def)
  next
    case (Some b)
    obtain y st'' where lp: "varint32_loop st' 7 (ucast (b AND 0x7F)) = (y, st'')"
      by (cases "varint32_loop st' 7 (ucast (b AND 0x7F))")
    have mv': "moved st st''"
      using moved_trans [OF ok mv moved_varint32_loop [OF ok', of 7 "ucast (b AND 0x7F)"]] lp by simp
    have "moved st (snd (i_error st'' m))" for m
      by (rule moved_trans [OF ok mv' moved_error [OF moved_view(1) [OF ok mv']]])
    with rd Some mv mv' lp show ?thesis
      by (auto simp: pb_decode_varint32_eof_def i_error_def split: option.splits prod.splits)
  qed
qed

lemma snd_decode_varint32: "snd (pb_decode_varint32 st) = snd (pb_decode_varint32_eof st)"
  by (simp add: pb_decode_varint32_def split: prod.splits)

interpretation decode_varint32: pb_reader pb_decode_varint32
  by unfold_locales (simp add: snd_decode_varint32 moved_varint32_eof)

interpretation skip_varint: pb_reader pb_skip_varint
  by unfold_locales (rule moved_skip_varint)

interpretation skip_string: pb_reader pb_skip_string
  unfolding pb_skip_string_def
  by (intro pb_reader_intros decode_varint32.pb_reader_axioms read_null.pb_reader_axioms)

interpretation skip_field: pb_reader "\<lambda>st. pb_skip_field st wt"
proof
  fix st :: "'s istream" assume "pb_ok st"
  then show "moved st (snd (pb_skip_field st wt))"
    by (simp add: pb_skip_field_def skip_varint.moves skip_string.moves read_null.moves)
qed

interpretation decode_svarint: pb_reader pb_decode_svarint
  unfolding pb_decode_svarint_def
  by (intro pb_reader_intros decode_varint.pb_reader_axioms)

interpretation decode_fixed32: pb_reader pb_decode_fixed32
  unfolding pb_decode_fixed32_def by (intro pb_reader_intros read.pb_reader_axioms)

interpretation decode_fixed64: pb_reader pb_decode_fixed64
  unfolding pb_decode_fixed64_def by (intro pb_reader_intros read.pb_reader_axioms)

section \<open>Round trips\<close>

subsection \<open>What the encoders write\<close>

definition zigzag :: "u64 \<Rightarrow> u64" where
  "zigzag v = (if v <s 0 then NOT (push_bit 1 v) else push_bit 1 v)"

definition unzigzag :: "u64 \<Rightarrow> u64" where
  "unzigzag v = (if v AND 1 \<noteq> 0 then NOT (drop_bit 1 v) else drop_bit 1 v)"

lemma unzigzag_zigzag [simp]: "unzigzag (zigzag v) = v"
proof (cases "bit v 63")
  case True
  have "NOT (drop_bit 1 (NOT (push_bit 1 v))) = v"
  proof (rule not_drop_push)
    fix n assume "\<not> bit v n" "n < LENGTH(64)"
    with True show "n + 1 < LENGTH(64)" by (cases "n = 63") auto
  qed
  moreover have "bit (NOT (push_bit 1 v)) 0" by (simp only: bit_simps) simp
  ultimately show ?thesis
    using True by (simp add: zigzag_def unzigzag_def negative_bit and_1 del: push_bit_Suc)
next
  case False
  have "drop_bit 1 (push_bit 1 v) = v"
  proof (rule drop_push)
    fix n assume b: "bit v n"
    then have "n < LENGTH(64)" by (rule bit_imp_le_length)
    with b False show "n + 1 < LENGTH(64)" by (cases "n = 63") auto
  qed
  moreover have "\<not> bit (push_bit 1 v) 0" by (simp only: bit_simps) simp
  ultimately show ?thesis using False by (simp add: zigzag_def unzigzag_def negative_bit and_1)
qed

definition le32_bytes :: "u32 \<Rightarrow> byte list" where
  "le32_bytes v = map (\<lambda>k. ucast (drop_bit (8 * k) v AND 0xFF)) [0, 1, 2, 3]"

definition le64_bytes :: "u64 \<Rightarrow> byte list" where
  "le64_bytes v = map (\<lambda>k. ucast (drop_bit (8 * k) v AND 0xFF)) [0, 1, 2, 3, 4, 5, 6, 7]"

lemma length_le_bytes [simp]: "length (le32_bytes v) = 4" "length (le64_bytes w) = 8"
  by (simp_all add: le32_bytes_def le64_bytes_def)

lemma pb_encode_fixed32_eq: "pb_encode_fixed32 st v = pb_write st (le32_bytes v) 4"
  by (simp add: pb_encode_fixed32_def le32_bytes_def)

lemma pb_encode_fixed64_eq: "pb_encode_fixed64 st v = pb_write st (le64_bytes v) 8"
  by (simp add: pb_encode_fixed64_def le64_bytes_def)

lemma pb_encode_svarint_eq: "pb_encode_svarint st v = pb_encode_varint st (zigzag v)"
  by (simp add: pb_encode_svarint_def zigzag_def Let_def)

definition tag_word :: "nat \<Rightarrow> u32 \<Rightarrow> u64" where
  "tag_word wiretype field_number = push_bit 3 (ucast field_number) OR of_nat wiretype"

lemma pb_encode_tag_eq: "pb_encode_tag st wt fn = pb_encode_varint st (tag_word wt fn)"
  by (simp add: pb_encode_tag_def tag_word_def)

context byte_sink begin

lemma emits_varint: "stream_ok st \<Longrightarrow> emits st (pb_encode_varint st v) (varint_bytes v)"
  using emits_write [of st "length (varint_bytes v)" "varint_bytes v"] length_varint_bytes_10 [of v]
  by (simp add: pb_encode_varint_eq)

lemma emits_svarint: "stream_ok st \<Longrightarrow> emits st (pb_encode_svarint st v) (varint_bytes (zigzag v))"
  by (simp add: pb_encode_svarint_eq emits_varint)

lemma emits_tag: "stream_ok st \<Longrightarrow> emits st (pb_encode_tag st wt fn) (varint_bytes (tag_word wt fn))"
  by (simp add: pb_encode_tag_eq emits_varint)

lemma emits_fixed32: "stream_ok st \<Longrightarrow> emits st (pb_encode_fixed32 st v) (le32_bytes v)"
  using emits_write [of st 4 "le32_bytes v"] by (simp add: pb_encode_fixed32_eq)

lemma emits_fixed64: "stream_ok st \<Longrightarrow> emits st (pb_encode_fixed64 st v) (le64_bytes v)"
  using emits_write [of st 8 "le64_bytes v"] by (simp add: pb_encode_fixed64_eq)

lemma emits_string:
  assumes "stream_ok st" and "n \<le> length bs" and "n < 2 ^ 63"
  shows "emits st (pb_encode_string st bs n) (varint_bytes (of_nat n) @ take n bs)"
proof -
  obtain ok st' where e: "pb_encode_varint st (of_nat n) = (ok, st')"
    by (cases "pb_encode_varint st (of_nat n)")
  have "emits st (if ok then pb_write st' bs n else (False, st')) (varint_bytes (of_nat n) @ take n bs)"
    using emits_then [OF emits_varint [OF assms(1), of "of_nat n", unfolded e] emits_write] assms(2,3)
    by blast
  with e show ?thesis by (cases ok) (simp_all add: pb_encode_string_def)
qed

end

text \<open>On a memory buffer that is large enough the writers succeed.\<close>

lemma membuf_write_fits:
  assumes "membuf.stream_ok st" and "bytes_written st + n \<le> max_size st"
  shows "fst (pb_write st bs n)"
proof -
  obtain mem pos where "ostate st = (mem, pos)" by (cases "ostate st")
  with assms show ?thesis by (simp add: pb_write_def membuf.stream_ok_def)
qed

lemma membuf_emitted:
  assumes "n \<le> length buf" and "membuf.emits (pb_ostream_from_buffer buf n) (True, st) bs"
  shows "membuf_out (ostate st) = bs" and "bytes_written st = length bs"
  using assms(2) by (simp_all add: membuf.emits_def pb_ostream_from_buffer_def membuf_out_def)

subsection \<open>What the decoders read\<close>

lemma drop_4_and_70: "drop_bit 4 (b :: byte) = 0 \<Longrightarrow> b AND 0x70 = 0"
proof -
  assume d: "drop_bit 4 b = 0"
  have e: "(0x70 :: byte) = push_bit 4 (mask 3)" by (simp add: mask_numeral push_bit_eq_mult)
  show ?thesis unfolding e
    by (rule bit_word_eqI) (auto simp: bit_simps dest: small_bitD [OF d])
qed

lemma byte_below_16: "unat (v :: u64) < 16 \<Longrightarrow> (ucast v :: byte) AND 0x70 = 0"
proof (rule drop_4_and_70)
  assume "unat v < 16"
  then have "drop_bit 4 v = 0"
    by (simp add: drop_bit_eq_div unat_eq_zero [symmetric] unat_div del: unat_eq_zero)
  then show "drop_bit 4 (ucast v :: byte) = 0"
    by (intro bit_word_eqI) (auto simp: bit_simps small_bits [of 4 v])
qed

lemma varint32_loop_bytes:
  assumes "pb_ok st" and "pb_view st = varint_bytes v @ rest"
    and "bitpos < 32" and "unat v < 2 ^ (32 - bitpos)"
  shows "\<exists>bp b. varint32_loop st bitpos r =
           (Some (r OR push_bit bitpos (ucast v), bp, b), advance (length (varint_bytes v)) st) \<and>
           (bp = 35 \<longrightarrow> b AND 0x70 = 0)"
  using assms
proof (induction v arbitrary: st bitpos r rule: varint_bytes_induct)
  case (small v)
  then have "bitpos = 28 \<Longrightarrow> (ucast v :: byte) AND 0x70 = 0" by (simp add: byte_below_16)
  moreover have "(ucast (ucast v :: byte) :: u32) = ucast v"
    using small.hyps by (intro bit_word_eqI) (auto simp: bit_simps dest: small_bitD)
  ultimately show ?case
    using small by (simp add: varint32_loop.simps [of st] varint_bytes_small and_80 byte_last and_7F
        byte_last_low)
next
  case (big v)
  let ?b = "ucast (take_bit 7 v) OR 0x80 :: byte"
  have view: "pb_view st = ?b # varint_bytes (drop_bit 7 v) @ rest"
    using big.prems(2) by (simp add: varint_bytes_big [OF big.hyps])
  have "128 \<le> unat v" using big.hyps by (simp add: drop_bit_7_nonzero)
  with big.prems(4) have "(2 :: nat) ^ 7 < 2 ^ (32 - bitpos)" by simp
  then have pos: "bitpos + 7 < 32" by (simp only: power_strict_increasing_iff)
  have "32 - bitpos = (32 - (bitpos + 7)) + 7" using pos by simp
  then have "(2 :: nat) ^ (32 - bitpos) = 2 ^ (32 - (bitpos + 7)) * 128"
    by (simp only: power_add) simp
  with big.prems(4) have bound: "unat (drop_bit 7 v) < 2 ^ (32 - (bitpos + 7))"
    by (simp add: unat_drop_bit_7 less_mult_imp_div_less)
  have "\<exists>bp b. varint32_loop (advance 1 st) (bitpos + 7) (r OR push_bit bitpos (ucast (take_bit 7 v))) =
      (Some ((r OR push_bit bitpos (ucast (take_bit 7 v))) OR push_bit (bitpos + 7) (ucast (drop_bit 7 v)), bp, b),
       advance (length (varint_bytes (drop_bit 7 v))) (advance 1 st)) \<and> (bp = 35 \<longrightarrow> b AND 0x70 = 0)"
    by (rule big.IH) (use big.prems(1) view pos bound in auto)
  moreover have "?b AND 0x80 \<noteq> 0" by (simp add: and_80 byte_more)
  moreover have "push_bit bitpos (ucast (take_bit 7 v)) OR push_bit (bitpos + 7) (ucast (drop_bit 7 v)) =
      (push_bit bitpos (ucast v) :: u32)"
  proof -
    have "(ucast (take_bit 7 v) :: u32) = take_bit 7 (ucast v)"
      by (rule bit_word_eqI) (auto simp: bit_simps)
    moreover have "(push_bit (bitpos + 7) (ucast (drop_bit 7 v)) :: u32) = push_bit (bitpos + 7) (drop_bit 7 (ucast v))"
      using pos by (intro bit_word_eqI) (auto simp: bit_simps)
    ultimately show ?thesis by (simp add: split_low)
  qed
  ultimately show ?case
    using big.prems view pos
    by (simp add: varint32_loop.simps [of st] and_7F byte_more_low varint_bytes_big [OF big.hyps]
        advance_advance or.assoc)
qed

lemma pb_decode_varint32_eof_bytes:
  assumes "pb_ok st" and "pb_view st = varint_bytes v @ rest" and "unat v < 2 ^ 32"
  shows "pb_decode_varint32_eof st = ((Some (ucast v), False), advance (length (varint_bytes v)) st)"
proof (cases "drop_bit 7 v = 0")
  case True
  have "(ucast (ucast v :: byte) :: u32) = ucast v"
    using True by (intro bit_word_eqI) (auto simp: bit_simps dest: small_bitD)
  with assms True show ?thesis
    by (simp add: pb_decode_varint32_eof_def varint_bytes_small and_80 byte_last)
next
  case False
  let ?b = "ucast (take_bit 7 v) OR 0x80 :: byte"
  have view: "pb_view st = ?b # varint_bytes (drop_bit 7 v) @ rest"
    using assms(2) by (simp add: varint_bytes_big [OF False])
  have "unat (drop_bit 7 v) < 2 ^ (32 - 7)"
    using assms(3) by (simp add: unat_drop_bit_7 less_mult_imp_div_less)
  then obtain bp b where lp: "varint32_loop (advance 1 st) 7 (ucast (take_bit 7 v)) =
      (Some (ucast (take_bit 7 v) OR push_bit 7 (ucast (drop_bit 7 v)), bp, b),
       advance (length (varint_bytes (drop_bit 7 v))) (advance 1 st))" and b: "bp = 35 \<longrightarrow> b AND 0x70 = 0"
    using varint32_loop_bytes [of "advance 1 st" "drop_bit 7 v" rest 7 "ucast (take_bit 7 v)"]
      assms(1) view by auto
  have "(ucast (take_bit 7 v) OR push_bit 7 (ucast (drop_bit 7 v)) :: u32) = ucast v"
  proof -
    have "(ucast (take_bit 7 v) :: u32) = take_bit 7 (ucast v)"
      by (rule bit_word_eqI) (auto simp: bit_simps)
    moreover have "(push_bit 7 (ucast (drop_bit 7 v)) :: u32) = push_bit 7 (drop_bit 7 (ucast v))"
      by (intro bit_word_eqI) (auto simp: bit_simps)
    ultimately show ?thesis using split_low [of 0 7 "ucast v :: u32"] by simp
  qed
  with lp b view assms(1) show ?thesis
    by (auto simp: pb_decode_varint32_eof_def and_80 byte_more and_7F byte_more_low
        varint_bytes_big [OF False] advance_advance)
qed

lemma pb_decode_varint32_bytes:
  assumes "pb_ok st" and "pb_view st = varint_bytes v @ rest" and "unat v < 2 ^ 32"
  shows "pb_decode_varint32 st = (Some (ucast v), advance (length (varint_bytes v)) st)"
  by (simp add: pb_decode_varint32_def pb_decode_varint32_eof_bytes [OF assms])

subsection \<open>Tags, fixed-width integers and skipped fields\<close>

lemma le32_decode:
  "push_bit 0 (ucast (le32_bytes v ! 0)) OR push_bit 8 (ucast (le32_bytes v ! 1)) OR
   push_bit 16 (ucast (le32_bytes v ! 2)) OR push_bit 24 (ucast (le32_bytes v ! 3)) = v"
  using split_low [of 0 8 v] split_low [of 8 8 "drop_bit 8 v"] split_low [of 16 8 "drop_bit 16 v"]
  by (simp add: le32_bytes_def and_FF drop_all_bits ucast_top_byte)

lemma le64_decode:
  "push_bit 0 (ucast (le64_bytes v ! 0)) OR push_bit 8 (ucast (le64_bytes v ! 1)) OR
   push_bit 16 (ucast (le64_bytes v ! 2)) OR push_bit 24 (ucast (le64_bytes v ! 3)) OR
   push_bit 32 (ucast (le64_bytes v ! 4)) OR push_bit 40 (ucast (le64_bytes v ! 5)) OR
   push_bit 48 (ucast (le64_bytes v ! 6)) OR push_bit 56 (ucast (le64_bytes v ! 7)) = v"
  using split_low [of 0 8 v] split_low [of 8 8 "drop_bit 8 v"] split_low [of 16 8 "drop_bit 16 v"]
    split_low [of 24 8 "drop_bit 24 v"] split_low [of 32 8 "drop_bit 32 v"]
    split_low [of 40 8 "drop_bit 40 v"] split_low [of 48 8 "drop_bit 48 v"]
  by (simp add: le64_bytes_def and_FF drop_all_bits ucast_top_byte)

lemma pb_decode_fixed32_bytes:
  "pb_ok st \<Longrightarrow> pb_view st = le32_bytes v @ rest \<Longrightarrow> pb_decode_fixed32 st = (Some v, advance 4 st)"
  using le32_decode [of v] by (simp add: pb_decode_fixed32_def andthen_def ret_def del: One_nat_def)

lemma pb_decode_fixed64_bytes:
  "pb_ok st \<Longrightarrow> pb_view st = le64_bytes v @ rest \<Longrightarrow> pb_decode_fixed64 st = (Some v, advance 8 st)"
  using le64_decode [of v] by (simp add: pb_decode_fixed64_def andthen_def ret_def del: One_nat_def)

lemma wire_type_bits_nat: "wt < 8 \<Longrightarrow> bit (wt :: nat) n \<Longrightarrow> n < 3"
proof -
  assume wt: "wt < 8" and "bit wt n"
  then have "2 ^ n \<le> wt"
    by (metis bit_nat_iff bit_take_bit_iff linorder_not_less take_bit_nat_eq_self less_irrefl)
  with wt have "(2::nat) ^ n < 2 ^ 3" by simp
  then show ?thesis by (simp only: power_strict_increasing_iff)
qed

lemma wire_type_bits: "wt < 8 \<Longrightarrow> bit (of_nat wt :: 'a::len word) n \<Longrightarrow> n < 3"
  by (auto simp: bit_of_nat_iff dest: wire_type_bits_nat)

lemma tag_word_type: "wt < 8 \<Longrightarrow> take_bit 3 (ucast (tag_word wt fn)) = (of_nat wt :: u32)"
  by (rule bit_word_eqI) (auto simp: tag_word_def bit_simps dest: wire_type_bits wire_type_bits_nat)

lemma tag_word_number:
  "wt < 8 \<Longrightarrow> drop_bit 29 fn = 0 \<Longrightarrow> drop_bit 3 (ucast (tag_word wt fn)) = (fn :: u32)"
  by (rule bit_word_eqI)
     (auto simp: tag_word_def bit_simps dest: wire_type_bits wire_type_bits_nat small_bitD)

lemma tag_word_bound:
  assumes "wt < 8" and "drop_bit 29 fn = 0"
  shows "unat (tag_word wt fn) < 2 ^ 32"
proof -
  have "drop_bit 32 (tag_word wt fn) = 0"
    using assms
    by (intro bit_word_eqI)
       (auto simp: tag_word_def bit_simps dest: wire_type_bits wire_type_bits_nat small_bitD)
  then have "unat (tag_word wt fn) div 2 ^ 32 = 0"
    by (metis drop_bit_eq_div unat_drop_bit_eq unsigned_0)
  then show ?thesis by (simp add: div_eq_0_iff)
qed

lemma and_7: "(w :: 'a::len word) AND 7 = take_bit 3 w"
  by (simp add: take_bit_eq_mask mask_numeral)

lemma pb_decode_tag_bytes:
  assumes ok: "pb_ok st" and view: "pb_view st = varint_bytes (tag_word wt fn) @ rest"
    and wt: "wt < 8" and fn: "drop_bit 29 fn = 0" "fn \<noteq> 0"
  shows "pb_decode_tag st =
     ((Some (fn, wt), False), advance (length (varint_bytes (tag_word wt fn))) st)"
proof -
  let ?w = "ucast (tag_word wt fn) :: u32"
  have dec: "pb_decode_varint32_eof st =
      ((Some ?w, False), advance (length (varint_bytes (tag_word wt fn))) st)"
    by (rule pb_decode_varint32_eof_bytes [OF ok view tag_word_bound [OF wt fn(1)]])
  have w: "drop_bit 3 ?w = fn" by (rule tag_word_number [OF wt fn(1)])
  with fn(2) have "?w \<noteq> 0" by auto
  moreover have "unat (of_nat wt :: u32) = wt" using wt by (simp add: unat_of_nat)
  ultimately show ?thesis
    using dec w by (simp add: pb_decode_tag_def and_7 tag_word_type [OF wt])
qed

lemma pb_skip_varint_bytes:
  "pb_ok st \<Longrightarrow> pb_view st = varint_bytes v @ rest \<Longrightarrow>
   pb_skip_varint st = (Some (), advance (length (varint_bytes v)) st)"
proof (induction v arbitrary: st rule: varint_bytes_induct)
  case (small v)
  then show ?case
    by (simp add: pb_skip_varint.simps [of st] pb_read_append [of st "[ucast v]" rest]
        varint_bytes_small and_80 byte_last)
next
  case (big v)
  let ?b = "ucast (take_bit 7 v) OR 0x80 :: byte"
  have view: "pb_view st = [?b] @ varint_bytes (drop_bit 7 v) @ rest"
    using big.prems(2) by (simp add: varint_bytes_big [OF big.hyps])
  have "pb_skip_varint (advance 1 st) =
      (Some (), advance (length (varint_bytes (drop_bit 7 v))) (advance 1 st))"
    by (rule big.IH) (use big.prems(1) view in auto)
  then show ?case
    using big.prems(1)
    by (simp add: pb_skip_varint.simps [of st] pb_read_append [OF big.prems(1) view] and_80 byte_more
        varint_bytes_big [OF big.hyps] advance_advance)
qed

text \<open>The payloads of the wire types.\<close>

inductive wire_payload :: "nat \<Rightarrow> byte list \<Rightarrow> bool" where
  varint: "wire_payload PB_WT_VARINT (varint_bytes v)"
| fixed64: "length bs = 8 \<Longrightarrow> wire_payload PB_WT_64BIT bs"
| delimited: "length bs < 2 ^ 32 \<Longrightarrow> wire_payload PB_WT_STRING (varint_bytes (of_nat (length bs)) @ bs)"
| fixed32: "length bs = 4 \<Longrightarrow> wire_payload PB_WT_32BIT bs"

lemma skip_string_bytes:
  assumes ok: "pb_ok st" and len: "length bs < 2 ^ 32"
    and view: "pb_view st = varint_bytes (of_nat (length bs)) @ bs @ rest"
  shows "pb_skip_string st =
     (Some (), advance (length (varint_bytes (of_nat (length bs)) @ bs)) st)"
proof -
  have u: "unat (of_nat (length bs) :: u64) < 2 ^ 32" "unat (ucast (of_nat (length bs) :: u64) :: u32) = length bs"
    using len by (simp_all add: unat_of_nat unsigned_ucast_eq take_bit_eq_mod)
  let ?n = "length (varint_bytes (of_nat (length bs)))"
  have "pb_decode_varint32 st = (Some (ucast (of_nat (length bs) :: u64)), advance ?n st)"
    by (rule pb_decode_varint32_bytes [OF ok view u(1)])
  moreover have "pb_ok (advance ?n st)" "pb_view (advance ?n st) = bs @ rest"
    using ok view by simp_all
  ultimately show ?thesis
    using ok u(2) by (simp add: pb_skip_string_def andthen_def pb_read_null_view advance_advance)
qed

lemma skip_payload:
  assumes "wire_payload wt p" and ok: "pb_ok st" and view: "pb_view st = p @ rest"
  shows "pb_skip_field st wt = (Some (), advance (length p) st)"
  using assms(1) view
proof cases
  case (varint v)
  with view ok show ?thesis by (simp add: pb_skip_field_def pb_skip_varint_bytes)
next
  case (delimited bs)
  with view ok show ?thesis
    using skip_string_bytes [OF ok delimited(3), of rest] by (simp add: pb_skip_field_def wire_type_defs)
qed (use view ok in \<open>simp_all add: pb_skip_field_def wire_type_defs pb_read_null_view\<close>)

section \<open>The properties of the wire layer\<close>

text \<open>What a successful encoder left in the buffer is what an input stream over it shows.\<close>

definition reread :: "membuf ostream \<Rightarrow> unit istream" where
  "reread st = pb_istream_from_buffer (fst (ostate st)) (bytes_written st)"

lemma reread_view:
  assumes n: "n \<le> length buf" and e: "membuf.emits (pb_ostream_from_buffer buf n) (True, st) bs"
  shows "pb_ok (reread st)" and "pb_view (reread st) = bs"
proof -
  have len: "snd (ostate st) \<le> length (fst (ostate st))"
    using e by (simp add: membuf.emits_def membuf.stream_ok_def membuf_room_def)
  with membuf_emitted [OF n e] have "snd (ostate st) = bytes_written st"
    by (metis length_take membuf_out_def min.absorb2)
  with len membuf_emitted [OF n e] show "pb_ok (reread st)" and "pb_view (reread st) = bs"
    by (simp_all add: reread_def membuf_out_def)
qed

lemma encoded_view:
  assumes n: "n \<le> length buf" "n < 2 ^ 63" and fits: "length bs \<le> n"
    and wr: "enc = pb_write (pb_ostream_from_buffer buf n) bs (length bs)"
  shows "\<exists>st. enc = (True, st) \<and> pb_ok (reread st) \<and> pb_view (reread st) = bs"
proof -
  let ?st = "pb_ostream_from_buffer buf n"
  have ok: "membuf.stream_ok ?st" by (rule membuf_stream_ok [OF n])
  have "fst enc"
    unfolding wr by (rule membuf_write_fits [OF ok]) (use fits in \<open>simp add: pb_ostream_from_buffer_def\<close>)
  then obtain st where enc: "enc = (True, st)" by (cases enc) auto
  moreover have "membuf.emits ?st (True, st) bs"
    using membuf.emits_write [OF ok, of "length bs" bs] fits n enc wr by simp
  ultimately show ?thesis using reread_view [OF n(1)] by blast
qed

lemma advance_all [simp]: "pb_ok st \<Longrightarrow> n = bytes_left st \<Longrightarrow> bytes_left (advance n st) = 0"
  by (simp add: length_pb_view)

lemma varint_encoded:
  assumes "10 \<le> n" and "n \<le> length buf" and "n < 2 ^ 63"
  shows "\<exists>st. pb_encode_varint (pb_ostream_from_buffer buf n) v = (True, st) \<and>
     pb_ok (reread st) \<and> pb_view (reread st) = varint_bytes v"
  by (rule encoded_view) (use assms length_varint_bytes_10 [of v] in \<open>simp_all add: pb_encode_varint_eq\<close>)

lemma decode_varint_whole:
  "pb_ok st \<Longrightarrow> pb_view st = varint_bytes v \<Longrightarrow>
   pb_decode_varint st = (Some v, advance (bytes_left st) st)"
  using pb_decode_varint_bytes [of st v "[]"] length_pb_view [of st] by simp

text \<open>C31: Encoding any 64-bit value as a varint into a buffer of at least ten bytes succeeds, and
  decoding the written bytes returns the value and uses all of them.\<close>

theorem varint_roundtrip:
  assumes "10 \<le> n" and "n \<le> length buf" and "n < 2 ^ 63"
  shows "\<exists>st ist. pb_encode_varint (pb_ostream_from_buffer buf n) v = (True, st) \<and>
     bytes_written st \<le> 10 \<and>
     pb_decode_varint (reread st) = (Some v, ist) \<and> bytes_left ist = 0"
proof -
  from varint_encoded [OF assms] obtain st
    where "pb_encode_varint (pb_ostream_from_buffer buf n) v = (True, st)"
      and rd: "pb_ok (reread st)" "pb_view (reread st) = varint_bytes v"
    by blast
  moreover have "bytes_written st = length (varint_bytes v)"
    using length_pb_view [OF rd(1)] rd(2) by (simp add: reread_def pb_istream_from_buffer_def)
  ultimately show ?thesis
    using decode_varint_whole [OF rd] length_varint_bytes_10 [of v] by auto
qed

theorem varint_roundtrip_witness:
  "\<exists>st ist. pb_encode_varint (pb_ostream_from_buffer (replicate 12 0) 10) 300 = (True, st) \<and>
     bytes_written st \<le> 10 \<and>
     pb_decode_varint (reread st) = (Some 300, ist) \<and> bytes_left ist = 0"
  by (rule varint_roundtrip) simp_all

text \<open>Signed values survive the zigzag transformation and the varint encoding.\<close>

theorem svarint_roundtrip:
  assumes "10 \<le> n" and "n \<le> length buf" and "n < 2 ^ 63"
  shows "\<exists>st ist. pb_encode_svarint (pb_ostream_from_buffer buf n) v = (True, st) \<and>
     pb_decode_svarint (reread st) = (Some v, ist) \<and> bytes_left ist = 0"
proof -
  from varint_encoded [OF assms] obtain st
    where "pb_encode_varint (pb_ostream_from_buffer buf n) (zigzag v) = (True, st)"
      and rd: "pb_ok (reread st)" "pb_view (reread st) = varint_bytes (zigzag v)"
    by blast
  moreover have "pb_decode_svarint (reread st) = (Some v, advance (bytes_left (reread st)) (reread st))"
    using decode_varint_whole [OF rd] unzigzag_zigzag [of v]
    by (simp add: pb_decode_svarint_def andthen_def ret_def unzigzag_def)
  ultimately show ?thesis using rd by (auto simp: pb_encode_svarint_eq)
qed

theorem svarint_roundtrip_witness:
  "\<exists>st ist. pb_encode_svarint (pb_ostream_from_buffer (replicate 10 7) 10) (- 5) = (True, st) \<and>
     pb_decode_svarint (reread st) = (Some (- 5), ist) \<and> bytes_left ist = 0"
  by (rule svarint_roundtrip) simp_all

text \<open>A field key written by \<open>pb_encode_tag\<close> is read back by \<open>pb_decode_tag\<close> as the same
  field number and wire type, for every field number of 29 bits other than 0.\<close>

theorem tag_roundtrip:
  assumes "10 \<le> n" and "n \<le> length buf" and "n < 2 ^ 63"
    and "wt < 8" and "drop_bit 29 fn = 0" and "fn \<noteq> 0"
  shows "\<exists>st ist. pb_encode_tag (pb_ostream_from_buffer buf n) wt fn = (True, st) \<and>
     pb_decode_tag (reread st) = ((Some (fn, wt), False), ist) \<and> bytes_left ist = 0"
proof -
  from varint_encoded [OF assms(1-3)] obtain st
    where "pb_encode_varint (pb_ostream_from_buffer buf n) (tag_word wt fn) = (True, st)"
      and rd: "pb_ok (reread st)" "pb_view (reread st) = varint_bytes (tag_word wt fn)"
    by blast
  moreover have "length (varint_bytes (tag_word wt fn)) = bytes_left (reread st)"
    using rd length_pb_view [OF rd(1)] by simp
  ultimately show ?thesis
    using pb_decode_tag_bytes [of "reread st" wt fn "[]"] assms(4-6) by (auto simp: pb_encode_tag_eq)
qed

theorem tag_roundtrip_witness:
  "\<exists>st ist. pb_encode_tag (pb_ostream_from_buffer (replicate 10 0) 10) PB_WT_STRING 536870911 = (True, st) \<and>
     pb_decode_tag (reread st) = ((Some (536870911, PB_WT_STRING), False), ist) \<and> bytes_left ist = 0"
proof (rule tag_roundtrip)
  show "drop_bit 29 (536870911 :: u32) = 0" by code_simp
qed (simp_all add: PB_WT_STRING_def)

text \<open>The eight bytes \<open>pb_encode_fixed64\<close> writes are read back as the same value; seven
  bytes of room are refused.\<close>

theorem fixed64_roundtrip:
  assumes "n \<le> length buf" and "n < 2 ^ 63"
  shows "if 8 \<le> n
     then \<exists>st ist. pb_encode_fixed64 (pb_ostream_from_buffer buf n) v = (True, st) \<and>
            pb_decode_fixed64 (reread st) = (Some v, ist) \<and> bytes_left ist = 0
     else fst (pb_encode_fixed64 (pb_ostream_from_buffer buf n) v) = False"
proof (cases "8 \<le> n")
  case True
  with encoded_view [OF assms, of "le64_bytes v"] obtain st
    where enc: "pb_encode_fixed64 (pb_ostream_from_buffer buf n) v = (True, st)"
      and rd: "pb_ok (reread st)" "pb_view (reread st) = le64_bytes v"
    by (auto simp: pb_encode_fixed64_eq)
  from rd have "bytes_left (reread st) = 8" using length_pb_view [OF rd(1)] by simp
  with True enc pb_decode_fixed64_bytes [of "reread st" v "[]"] rd show ?thesis by auto
next
  case False
  then show ?thesis
    by (simp add: pb_encode_fixed64_eq pb_write_def pb_ostream_from_buffer_def o_error_def)
qed

theorem fixed64_roundtrip_witness:
  "if (8 :: nat) \<le> 8
   then \<exists>st ist. pb_encode_fixed64 (pb_ostream_from_buffer (replicate 9 0) 8) 0x1122334455667788 = (True, st) \<and>
          pb_decode_fixed64 (reread st) = (Some 0x1122334455667788, ist) \<and> bytes_left ist = 0
   else fst (pb_encode_fixed64 (pb_ostream_from_buffer (replicate 9 0) 8) 0x1122334455667788) = False"
  by (rule fixed64_roundtrip) simp_all

text \<open>C30: \<open>pb_skip_field\<close> on the payload of any of the four wire types consumes exactly that
  payload and leaves the stream at the next field; an unknown wire type is refused without reading.\<close>

theorem skip_field_exact:
  assumes "pb_ok st" and "pb_view st = p @ rest"
  shows "(wire_payload wt p \<longrightarrow>
       (\<exists>st'. pb_skip_field st wt = (Some (), st') \<and> pb_ok st' \<and> pb_view st' = rest \<and>
          ierrmsg st' = ierrmsg st)) \<and>
     (wt \<notin> {PB_WT_VARINT, PB_WT_64BIT, PB_WT_STRING, PB_WT_32BIT} \<longrightarrow>
       (\<exists>st'. pb_skip_field st wt = (None, st') \<and> pb_view st' = pb_view st))"
proof (intro conjI impI)
  assume "wire_payload wt p"
  from skip_payload [OF this assms] assms
  show "\<exists>st'. pb_skip_field st wt = (Some (), st') \<and> pb_ok st' \<and> pb_view st' = rest \<and>
          ierrmsg st' = ierrmsg st"
    by simp
next
  assume "wt \<notin> {PB_WT_VARINT, PB_WT_64BIT, PB_WT_STRING, PB_WT_32BIT}"
  then have "pb_skip_field st wt = i_error st ''invalid wire_type''"
    by (simp add: pb_skip_field_def)
  then show "\<exists>st'. pb_skip_field st wt = (None, st') \<and> pb_view st' = pb_view st"
    by (metis i_error_view(1,2) prod.collapse)
qed

theorem skip_field_exact_witness:
  "\<exists>st'. pb_skip_field (pb_istream_from_buffer [2, 65, 66, 8] 4 :: unit istream) PB_WT_STRING = (Some (), st') \<and>
     pb_ok st' \<and> pb_view st' = [8]"
proof -
  have "varint_bytes (of_nat (length [65, 66 :: byte])) = [2]"
    by (simp add: varint_bytes.simps)
  with wire_payload.delimited [of "[65, 66]"] have "wire_payload PB_WT_STRING [2, 65, 66]"
    by simp
  with skip_field_exact [of "pb_istream_from_buffer [2, 65, 66, 8] 4 :: unit istream" "[2, 65, 66]" "[8]" PB_WT_STRING]
  show ?thesis by auto
qed

text \<open>The readers that a field decoder may run on a substream.\<close>

lemma substream_bytes:
  assumes ok: "pb_ok st" and len: "length body < 2 ^ 32"
    and view: "pb_view st = varint_bytes (of_nat (length body)) @ body @ rest"
  defines "st1 \<equiv> advance (length (varint_bytes (of_nat (length body)))) st"
  shows "pb_make_string_substream st =
     (Some (st1\<lparr>bytes_left := length body\<rparr>), st1\<lparr>bytes_left := length rest\<rparr>)"
    and "pb_ok (st1\<lparr>bytes_left := length body\<rparr>)"
    and "pb_view (st1\<lparr>bytes_left := length body\<rparr>) = body"
proof -
  have u: "unat (of_nat (length body) :: u64) < 2 ^ 32"
    "unat (ucast (of_nat (length body) :: u64) :: u32) = length body"
    using len by (simp_all add: unat_of_nat unsigned_ucast_eq take_bit_eq_mod)
  have ok1: "pb_ok st1" and view1: "pb_view st1 = body @ rest"
    using ok view by (simp_all add: st1_def)
  then obtain p where p: "source st1 = Buf_read p" "bytes_left st1 \<le> length p"
      "take (bytes_left st1) p = body @ rest"
    by (metis pb_okE)
  then have left: "bytes_left st1 = length body + length rest"
    by (metis length_append length_take min.absorb2)
  from p left show "pb_ok (st1\<lparr>bytes_left := length body\<rparr>)"
    by (simp add: pb_ok_def)
  from p left show "pb_view (st1\<lparr>bytes_left := length body\<rparr>) = body"
    by (metis (no_types, lifting) append_eq_conv_conj istream.ext_inject istream.surjective
        istream.update_convs(2) le_add1 min.absorb1 pb_view_def source.simps(5) take_take)
  have "pb_decode_varint32 st = (Some (ucast (of_nat (length body) :: u64)), st1)"
    unfolding st1_def by (rule pb_decode_varint32_bytes [OF ok view u(1)])
  with u(2) left show "pb_make_string_substream st =
     (Some (st1\<lparr>bytes_left := length body\<rparr>), st1\<lparr>bytes_left := length rest\<rparr>)"
    by (simp add: pb_make_string_substream_def andthen_def)
qed

lemma moved_into:
  assumes ok: "pb_ok sub" and src: "source sub = Buf_read p" and mv: "moved sub sub'"
  shows "\<exists>k \<le> bytes_left sub. source sub' = Buf_read (drop k p) \<and> bytes_left sub' = bytes_left sub - k"
  using mv src length_pb_view [OF ok] by (auto simp: moved_def advance_def)

text \<open>Wherever a reader stopped inside the substream, closing it moves the parent behind the body.\<close>

lemma close_after_reader:
  assumes ok: "pb_ok sub" and src: "source sub = Buf_read p" and mv: "moved sub sub'"
  shows "\<exists>st'. pb_close_string_substream par sub' = (Some (), st') \<and>
     source st' = Buf_read (drop (bytes_left sub) p) \<and> bytes_left st' = bytes_left par"
proof -
  from moved_into [OF assms] obtain k where k: "k \<le> bytes_left sub"
    and sub': "source sub' = Buf_read (drop k p)" "bytes_left sub' = bytes_left sub - k" by blast
  have ok': "pb_ok sub'" by (rule moved_view [OF ok mv])
  show ?thesis
    using sub' k
    by (cases "bytes_left sub' = 0")
       (auto simp: pb_close_string_substream_def pb_read_null_view [OF ok'] length_pb_view [OF ok']
          advance_def)
qed

lemma substream_run:
  assumes ok: "pb_ok st" and len: "length body < 2 ^ 32"
    and view: "pb_view st = varint_bytes (of_nat (length body)) @ body @ rest"
    and rd: "pb_reader rd"
  shows "\<exists>sub par st'. pb_make_string_substream st = (Some sub, par) \<and> pb_view sub = body \<and>
     pb_close_string_substream par (snd (rd sub)) = (Some (), st') \<and>
     pb_ok st' \<and> pb_view st' = rest"
proof -
  let ?st1 = "advance (length (varint_bytes (of_nat (length body)))) st"
  let ?sub = "?st1\<lparr>bytes_left := length body\<rparr>"
  let ?par = "?st1\<lparr>bytes_left := length rest\<rparr>"
  note sub = substream_bytes [OF ok len view]
  have "pb_ok ?st1" and v1: "pb_view ?st1 = body @ rest" using ok view by simp_all
  then obtain p where p: "source ?st1 = Buf_read p" "take (bytes_left ?st1) p = body @ rest"
      "bytes_left ?st1 \<le> length p"
    by (metis pb_okE)
  then have left: "bytes_left ?st1 = length body + length rest"
    by (metis length_append length_take min.absorb2)
  have "moved ?sub (snd (rd ?sub))" by (rule pb_reader.moves [OF rd sub(2)])
  from close_after_reader [OF sub(2) _ this, of p ?par] p(1) obtain st'
    where c: "pb_close_string_substream ?par (snd (rd ?sub)) = (Some (), st')"
      "source st' = Buf_read (drop (length body) p)" "bytes_left st' = length rest"
    by auto
  have "p = body @ rest @ drop (bytes_left ?st1) p"
    using p(2) by (metis append.assoc append_take_drop_id)
  then have "take (length rest) (drop (length body) p) = rest"
    by (metis append_eq_conv_conj)
  with c p(3) left have "pb_ok st'" "pb_view st' = rest"
    by (simp_all add: pb_ok_def pb_view_def)
  with sub(1,3) c(1) show ?thesis by blast
qed

text \<open>C16: A length-delimited field confines its reader. Whatever reader runs on the substream, and
  whether it succeeds, fails or stops early, it sees only the body, and closing the substream leaves
  the parent stream exactly behind the body.\<close>

theorem substream_confined:
  assumes ok: "pb_ok st" and len: "length body < 2 ^ 32"
    and view: "pb_view st = varint_bytes (of_nat (length body)) @ body @ rest"
    and rd: "pb_reader rd"
  shows "\<exists>sub par st'. pb_make_string_substream st = (Some sub, par) \<and> pb_view sub = body \<and>
     pb_close_string_substream par (snd (rd sub)) = (Some (), st') \<and>
     pb_ok st' \<and> pb_view st' = rest"
  by (rule substream_run [OF assms])

theorem substream_confined_witness:
  "\<exists>sub par st'. pb_make_string_substream (pb_istream_from_buffer [2, 1, 0x96, 8] 4 :: unit istream) = (Some sub, par) \<and>
     pb_view sub = [1, 0x96] \<and>
     pb_close_string_substream par (snd (pb_decode_varint sub)) = (Some (), st') \<and>
     pb_ok st' \<and> pb_view st' = [8]"
proof (rule substream_confined)
  have "varint_bytes (of_nat (length [1, 0x96 :: byte])) = [2]"
    by (simp add: varint_bytes.simps)
  then show "pb_view (pb_istream_from_buffer [2, 1, 0x96, 8] 4 :: unit istream) =
      varint_bytes (of_nat (length [1, 0x96 :: byte])) @ [1, 0x96] @ [8]"
    by simp
qed (simp_all add: decode_varint.pb_reader_axioms)

text \<open>A string written by \<open>pb_encode_string\<close> is read back through a substream: the
  substream shows exactly the bytes of the string, and after reading and closing it nothing is left.\<close>

theorem string_roundtrip:
  assumes n: "n \<le> length buf" "n < 2 ^ 63" and len: "length s < 2 ^ 32" and fits: "length s + 5 \<le> n"
  shows "\<exists>st sub par sub' ist. pb_encode_string (pb_ostream_from_buffer buf n) s (length s) = (True, st) \<and>
     pb_make_string_substream (reread st) = (Some sub, par) \<and>
     pb_read sub (length s) = (Some s, sub') \<and>
     pb_close_string_substream par sub' = (Some (), ist) \<and> pb_view ist = []"
proof -
  let ?st = "pb_ostream_from_buffer buf n" and ?h = "varint_bytes (of_nat (length s))"
  have ok: "membuf.stream_ok ?st" by (rule membuf_stream_ok [OF n])
  have h: "length ?h \<le> 5"
    by (rule length_varint_bytes) (use len in \<open>simp_all add: unat_of_nat\<close>)
  have "fst (pb_encode_varint ?st (of_nat (length s)))"
    unfolding pb_encode_varint_eq
    by (rule membuf_write_fits [OF ok]) (use h fits in \<open>simp add: pb_ostream_from_buffer_def\<close>)
  then obtain st1 where e1: "pb_encode_varint ?st (of_nat (length s)) = (True, st1)"
    by (cases "pb_encode_varint ?st (of_nat (length s))") auto
  have em: "membuf.emits ?st (True, st1) ?h" using membuf.emits_varint [OF ok, of "of_nat (length s)"] e1 by simp
  then have ok1: "membuf.stream_ok st1" and w1: "bytes_written st1 = length ?h" "max_size st1 = n"
    by (simp_all add: membuf.emits_def pb_ostream_from_buffer_def)
  have "fst (pb_write st1 s (length s))"
    by (rule membuf_write_fits [OF ok1]) (use w1 h fits in simp)
  with e1 obtain st where e: "pb_encode_string ?st s (length s) = (True, st)"
    by (cases "pb_write st1 s (length s)") (auto simp: pb_encode_string_def)
  have "membuf.emits ?st (True, st) (?h @ s)"
    using membuf.emits_string [OF ok, of "length s" s] e len by simp
  from reread_view [OF n(1) this] have rd: "pb_ok (reread st)" "pb_view (reread st) = ?h @ s @ []"
    by simp_all
  have rdr: "pb_reader (\<lambda>st. pb_read st (length s))" by (rule read.pb_reader_axioms)
  from substream_run [OF rd(1) len rd(2) rdr] obtain sub par ist
    where m: "pb_make_string_substream (reread st) = (Some sub, par)" and v: "pb_view sub = s"
      and c: "pb_close_string_substream par (snd (pb_read sub (length s))) = (Some (), ist)"
        "pb_view ist = []" by blast
  moreover have "pb_ok sub" using substream_bytes [OF rd(1) len rd(2)] m by simp
  ultimately show ?thesis using e pb_read_append [of sub s "[]"] by fastforce
qed

theorem string_roundtrip_witness:
  "\<exists>st sub par sub' ist. pb_encode_string (pb_ostream_from_buffer (replicate 9 0) 8) [65, 66, 67] (length [65, 66, 67 :: byte]) = (True, st) \<and>
     pb_make_string_substream (reread st) = (Some sub, par) \<and>
     pb_read sub (length [65, 66, 67 :: byte]) = (Some [65, 66, 67], sub') \<and>
     pb_close_string_substream par sub' = (Some (), ist) \<and> pb_view ist = []"
  by (rule string_roundtrip) simp_all

text \<open>A sequence of writes, as an encoder issues them, going on after failures.\<close>

fun pb_writes :: "'s ostream \<Rightarrow> byte list list \<Rightarrow> 's ostream" where
  "pb_writes st [] = st"
| "pb_writes st (b # bs) = pb_writes (snd (pb_write st b (length b))) bs"

definition within :: "byte list \<Rightarrow> nat \<Rightarrow> membuf ostream \<Rightarrow> bool" where
  "within buf n st \<longleftrightarrow>
     membuf.stream_ok st \<and> max_size st = n \<and> length (fst (ostate st)) = length buf \<and>
     drop n (fst (ostate st)) = drop n buf \<and> snd (ostate st) = bytes_written st"

lemma within_write:
  assumes w: "within buf n st" and b: "length b < 2 ^ 63"
  shows "within buf n (snd (pb_write st b (length b)))"
proof -
  obtain mem pos where s: "ostate st = (mem, pos)" by (cases "ostate st")
  have lt: "bytes_written st + length b < 2 ^ 64"
    using w b by (simp add: within_def membuf.stream_ok_def)
  show ?thesis
  proof (cases "n < bytes_written st + length b")
    case True
    with w lt show ?thesis
      by (auto simp: within_def pb_write_def o_error_def membuf.stream_ok_def)
  next
    case False
    with w lt s have "membuf.stream_ok (snd (pb_write st b (length b)))"
      using membuf.emits_write [of st "length b" b] b
      by (auto simp: within_def membuf.emits_def membuf.stream_ok_def pb_write_def)
    with False w lt s show ?thesis
      by (auto simp: within_def pb_write_def membuf.stream_ok_def membuf_room_def drop_splice_after)
  qed
qed

text \<open>C34: Whatever sequence of writes is issued to a stream over a buffer, and however many of them
  fail, the buffer object keeps its length, nothing at or beyond \<open>bufsize\<close> is touched, and
  \<open>bytes_written\<close> never exceeds \<open>bufsize\<close>.\<close>

theorem ostream_confined:
  assumes "n \<le> length buf" and "n < 2 ^ 63" and "\<forall>b \<in> set bs. length b < 2 ^ 63"
  shows "bytes_written (pb_writes (pb_ostream_from_buffer buf n) bs) \<le> n \<and>
     length (fst (ostate (pb_writes (pb_ostream_from_buffer buf n) bs))) = length buf \<and>
     drop n (fst (ostate (pb_writes (pb_ostream_from_buffer buf n) bs))) = drop n buf"
proof -
  have "within buf n st \<Longrightarrow> within buf n (pb_writes st bs)" for st
    using assms(3) by (induction bs arbitrary: st) (simp_all add: within_write)
  moreover have "within buf n (pb_ostream_from_buffer buf n)"
    using assms(1,2) membuf_stream_ok [of n buf]
    by (simp add: within_def) (simp add: pb_ostream_from_buffer_def)
  ultimately have "within buf n (pb_writes (pb_ostream_from_buffer buf n) bs)" by blast
  then show ?thesis by (simp add: within_def membuf.stream_ok_def)
qed

theorem ostream_confined_witness:
  "bytes_written (pb_writes (pb_ostream_from_buffer [9, 9, 9, 9] 3) [[1, 2], [3, 4], [5]]) \<le> 3 \<and>
   drop 3 (fst (ostate (pb_writes (pb_ostream_from_buffer [9, 9, 9, 9] 3) [[1, 2], [3, 4], [5]]))) = [9]"
  using ostream_confined [of 3 "[9, 9, 9, 9]" "[[1, 2], [3, 4], [5]]"] by simp

text \<open>A varint read by the 64-bit decoder spans at most ten bytes.\<close>

lemma varint_loop_short:
  "varint_loop st bitpos r = (x, st') \<Longrightarrow> bitpos mod 7 = 0 \<Longrightarrow> pb_ok st \<Longrightarrow> bitpos \<le> 70 \<Longrightarrow>
   7 * (bytes_left st - bytes_left st') \<le> 70 - bitpos"
proof (induction st bitpos r rule: varint_loop.induct)
  case (1 st bitpos result)
  show ?case
  proof (cases "64 \<le> bitpos \<or> pb_view st = []")
    case True
    with "1.prems" show ?thesis
      by (auto simp: varint_loop.simps [of st] pb_readbyte_view i_error_def split: if_splits)
  next
    case False
    then obtain b bs where v: "pb_view st = b # bs" by (cases "pb_view st") auto
    have small: "bitpos \<le> 63" using False by simp
    from "1.prems"(2) have "7 dvd bitpos" by presburger
    with small have b7: "bitpos + 7 \<le> 70" by presburger
    have rd: "pb_readbyte st = (Some b, advance 1 st)" and ok: "pb_ok (advance 1 st)"
      using v "1.prems"(3) by simp_all
    have left: "bytes_left (advance 1 st) = bytes_left st - 1" using v "1.prems"(3) by simp
    show ?thesis
    proof (cases "b AND 0x80 \<noteq> 0")
      case True
      have "varint_loop (advance 1 st) (bitpos + 7) (result OR push_bit bitpos (ucast (b AND 0x7F))) = (x, st')"
        using "1.prems"(1) False True rd b7 by (simp add: varint_loop.simps [of st] Let_def)
      moreover have "(bitpos + 7) mod 256 = bitpos + 7" using b7 by simp
      ultimately have "7 * (bytes_left (advance 1 st) - bytes_left st') \<le> 70 - (bitpos + 7)"
        using "1.IH" [OF _ rd [symmetric] refl refl refl True] False ok b7 "1.prems"(2) by simp
      with left b7 show ?thesis by simp
    next
      case False
      with "1.prems"(1) \<open>\<not> (64 \<le> bitpos \<or> pb_view st = [])\<close> rd have "st' = advance 1 st"
        by (simp add: varint_loop.simps [of st] Let_def)
      with left b7 show ?thesis by simp
    qed
  qed
qed

text \<open>C39: \<open>pb_decode_varint\<close> reads at most ten bytes, whatever the input and whether it
  succeeds or fails.\<close>

theorem decode_varint_reads_ten:
  assumes "pb_ok st"
  shows "bytes_left st \<le> bytes_left (snd (pb_decode_varint st)) + 10"
proof -
  have "varint_loop st 0 0 = (fst (pb_decode_varint st), snd (pb_decode_varint st))"
    by (simp add: pb_decode_varint_def)
  from varint_loop_short [OF this] assms show ?thesis by simp
qed

theorem decode_varint_reads_ten_witness:
  "bytes_left (pb_istream_from_buffer (replicate 12 0xFF) 12 :: unit istream) \<le>
   bytes_left (snd (pb_decode_varint (pb_istream_from_buffer (replicate 12 0xFF) 12 :: unit istream))) + 10"
  by (rule decode_varint_reads_ten) simp

text \<open>The 32-bit decoder has no such bound. Its \<open>bitpos\<close> is an eight-bit counter: after
  thirty-six bytes it wraps to 3 and a thirty-eighth byte is merged into the result again, so the
  over-long encoding of 0 below decodes to 8, where \<open>pb_decode_varint\<close> reports an overflow.\<close>

theorem varint32_overlong:
  "fst (pb_decode_varint32 (pb_istream_from_buffer (replicate 37 0x80 @ [1]) 38 :: unit istream)) = Some 8 \<and>
   fst (pb_decode_varint (pb_istream_from_buffer (replicate 37 0x80 @ [1]) 38 :: unit istream)) = None"
  by code_simp

end
