(* ===== verification/ConstTime.thy ===== *)
theory ConstTime
  imports Prelude
begin

text \<open>
  The branch-free comparisons of \<open>crypto/internal.h\<close>. The definitions compute masks with the same
  word operations as the code; the lemmas say which comparison each mask stands for, and the mask
  lemmas are collected in \<open>ct_masks\<close> for the components that use them.
\<close>

named_theorems ct_masks

section \<open>The masks\<close>

definition CONSTTIME_TRUE_W :: u64 where "CONSTTIME_TRUE_W = NOT 0"
definition CONSTTIME_FALSE_W :: u64 where "CONSTTIME_FALSE_W = 0"
definition CONSTTIME_TRUE_8 :: byte where "CONSTTIME_TRUE_8 = 0xFF"
definition CONSTTIME_FALSE_8 :: byte where "CONSTTIME_FALSE_8 = 0"

definition constant_time_msb_w :: "u64 \<Rightarrow> u64" where
  "constant_time_msb_w a = 0 - drop_bit (8 * 8 - 1) a"

definition constant_time_lt_w :: "u64 \<Rightarrow> u64 \<Rightarrow> u64" where
  "constant_time_lt_w a b = constant_time_msb_w (a XOR ((a XOR b) OR ((a - b) XOR a)))"

definition constant_time_lt_8 :: "u64 \<Rightarrow> u64 \<Rightarrow> byte" where
  "constant_time_lt_8 a b = ucast (constant_time_lt_w a b)"

definition constant_time_ge_w :: "u64 \<Rightarrow> u64 \<Rightarrow> u64" where
  "constant_time_ge_w a b = NOT (constant_time_lt_w a b)"

definition constant_time_ge_8 :: "u64 \<Rightarrow> u64 \<Rightarrow> byte" where
  "constant_time_ge_8 a b = ucast (constant_time_ge_w a b)"

definition constant_time_is_zero_w :: "u64 \<Rightarrow> u64" where
  "constant_time_is_zero_w a = constant_time_msb_w (NOT a AND (a - 1))"

definition constant_time_is_zero_8 :: "u64 \<Rightarrow> byte" where
  "constant_time_is_zero_8 a = ucast (constant_time_is_zero_w a)"

definition constant_time_eq_w :: "u64 \<Rightarrow> u64 \<Rightarrow> u64" where
  "constant_time_eq_w a b = constant_time_is_zero_w (a XOR b)"

definition constant_time_eq_8 :: "u64 \<Rightarrow> u64 \<Rightarrow> byte" where
  "constant_time_eq_8 a b = ucast (constant_time_eq_w a b)"

text \<open>The conversion of an \<open>int\<close> to a word sign-extends.\<close>

definition constant_time_eq_int :: "32 word \<Rightarrow> 32 word \<Rightarrow> u64" where
  "constant_time_eq_int a b = constant_time_eq_w (scast a) (scast b)"

definition constant_time_eq_int_8 :: "32 word \<Rightarrow> 32 word \<Rightarrow> byte" where
  "constant_time_eq_int_8 a b = constant_time_eq_8 (scast a) (scast b)"

definition constant_time_select_w :: "u64 \<Rightarrow> u64 \<Rightarrow> u64 \<Rightarrow> u64" where
  "constant_time_select_w msk a b = (msk AND a) OR (NOT msk AND b)"

definition constant_time_select_8 :: "byte \<Rightarrow> byte \<Rightarrow> byte \<Rightarrow> byte" where
  "constant_time_select_8 msk a b = ucast (constant_time_select_w (ucast msk) (ucast a) (ucast b))"

definition constant_time_select_int :: "u64 \<Rightarrow> 32 word \<Rightarrow> 32 word \<Rightarrow> 32 word" where
  "constant_time_select_int msk a b = ucast (constant_time_select_w msk (scast a) (scast b))"

section \<open>What the masks say\<close>

lemma drop_63: "drop_bit 63 (a :: u64) = (if bit a 63 then 1 else 0)"
proof (rule bit_eqI)
  fix n
  show "bit (drop_bit 63 a) n = bit (if bit a 63 then 1 else 0 :: u64) n"
  proof (cases n)
    case (Suc m)
    have "\<not> bit a (63 + n)"
    proof
      assume "bit a (63 + n)"
      from bit_imp_le_length [OF this] Suc show False by simp
    qed
    with Suc show ?thesis by (simp add: bit_drop_bit_eq bit_1_iff)
  qed (simp add: bit_drop_bit_eq)
qed

lemma msb_w_mask: "constant_time_msb_w a = (if bit a 63 then NOT 0 else 0)"
  by (simp add: constant_time_msb_w_def drop_63)

lemma top_bit: "bit (a :: u64) 63 \<longleftrightarrow> 2 ^ 63 \<le> unat a"
proof -
  have "drop_bit 63 a = 0 \<longleftrightarrow> \<not> bit a 63" by (simp add: drop_63)
  with drop_bit_0_iff [of 63 a] show ?thesis by auto
qed

lemma lt_w_mask [ct_masks]: "constant_time_lt_w a b = (if a < b then NOT 0 else 0)"
proof -
  have "bit (a XOR ((a XOR b) OR ((a - b) XOR a))) 63 \<longleftrightarrow>
      (if bit a 63 = bit b 63 then bit (a - b) 63 else bit b 63)"
    by (auto simp: bit_xor_iff bit_or_iff)
  also have "\<dots> \<longleftrightarrow> a < b"
  proof -
    have "unat a < 2 ^ 64" "unat b < 2 ^ 64" using unsigned_less [of a, where 'a = nat] unsigned_less [of b, where 'a = nat] by simp_all
    moreover have "unat (a - b) = (if unat b \<le> unat a then unat a - unat b else unat a + 2 ^ 64 - unat b)"
      by (simp add: unat_sub_if_size size_word_def word_le_nat_alt)
    ultimately show ?thesis unfolding top_bit word_less_nat_alt by (auto split: if_splits)
  qed
  finally show ?thesis by (simp add: constant_time_lt_w_def msb_w_mask)
qed

lemma ge_w_mask [ct_masks]: "constant_time_ge_w a b = (if b \<le> a then NOT 0 else 0)"
  by (auto simp: constant_time_ge_w_def lt_w_mask not_less)

lemma is_zero_w_mask [ct_masks]: "constant_time_is_zero_w a = (if a = 0 then NOT 0 else 0)"
proof -
  have "bit (NOT a AND (a - 1)) 63 \<longleftrightarrow> a = 0"
  proof (cases "a = 0")
    case False
    then have "unat (a - 1) = unat a - 1" by (simp add: unat_minus_one)
    moreover have "bit (NOT a AND (a - 1)) 63 \<longleftrightarrow> \<not> bit a 63 \<and> bit (a - 1) 63"
      by (simp add: bit_and_iff bit_not_iff)
    ultimately show ?thesis using False unfolding top_bit [of a] top_bit [of "a - 1"] by auto
  qed (simp add: bit_and_iff bit_not_iff)
  then show ?thesis by (simp add: constant_time_is_zero_w_def msb_w_mask)
qed

lemma eq_w_mask [ct_masks]: "constant_time_eq_w a b = (if a = b then NOT 0 else 0)"
proof -
  have "a XOR b = 0 \<longleftrightarrow> a = b" by (auto simp: bit_eq_iff bit_xor_iff)
  then show ?thesis by (simp add: constant_time_eq_w_def is_zero_w_mask)
qed

lemma ucast_ones: "(ucast (NOT 0 :: u64) :: byte) = 0xFF"
proof -
  have "(0xFF :: byte) = NOT 0" by simp
  then show ?thesis by (simp only:) (rule bit_eqI, simp add: bit_simps)
qed

lemma mask_8 [ct_masks]:
  "constant_time_lt_8 a b = (if a < b then 0xFF else 0)"
  "constant_time_ge_8 a b = (if b \<le> a then 0xFF else 0)"
  "constant_time_is_zero_8 a = (if a = 0 then 0xFF else 0)"
  "constant_time_eq_8 a b = (if a = b then 0xFF else 0)"
  unfolding constant_time_lt_8_def constant_time_ge_8_def constant_time_is_zero_8_def
    constant_time_eq_8_def lt_w_mask ge_w_mask is_zero_w_mask eq_w_mask
  by (simp_all only: if_distrib [of ucast] ucast_ones unsigned_0)

lemma ucast_scast_int: "(ucast (scast (a :: 32 word) :: u64) :: 32 word) = a"
  by (rule bit_eqI) (auto simp: bit_simps)

lemma scast_int_eq: "(scast (a :: 32 word) :: u64) = scast b \<longleftrightarrow> a = b"
  by (metis ucast_scast_int)

lemma eq_int_mask [ct_masks]:
  "constant_time_eq_int a b = (if a = b then NOT 0 else 0)"
  "constant_time_eq_int_8 a b = (if a = b then 0xFF else 0)"
  by (simp_all add: constant_time_eq_int_def constant_time_eq_int_8_def ct_masks scast_int_eq)

lemma select_w_mask [ct_masks]: "constant_time_select_w (if c then NOT 0 else 0) a b = (if c then a else b)"
  by (simp add: constant_time_select_w_def)

lemma select_8_mask [ct_masks]: "constant_time_select_8 (if c then 0xFF else 0) a b = (if c then a else b)"
proof -
  have "(0xFF :: byte) = NOT 0" by simp
  then have "constant_time_select_8 0xFF a b = constant_time_select_8 (NOT 0) a b" by (simp only:)
  also have "\<dots> = a"
    unfolding constant_time_select_8_def constant_time_select_w_def
    by (rule bit_eqI) (simp add: bit_simps)
  finally have "constant_time_select_8 0xFF a b = a" .
  moreover have "constant_time_select_8 0 a b = b"
    unfolding constant_time_select_8_def constant_time_select_w_def
    by (rule bit_eqI) (simp add: bit_simps)
  ultimately show ?thesis by simp
qed

lemma select_int_mask [ct_masks]:
  "constant_time_select_int (if c then NOT 0 else 0) a b = (if c then a else b)"
  by (simp add: constant_time_select_int_def select_w_mask ucast_scast_int)

section \<open>Property\<close>

text \<open>Selecting with a constant-time comparison is the conditional on that comparison, for every
  comparison and every width the library uses.\<close>

theorem constant_time_selects:
  "constant_time_select_w (constant_time_lt_w a b) x y = (if a < b then x else y) \<and>
   constant_time_select_w (constant_time_ge_w a b) x y = (if b \<le> a then x else y) \<and>
   constant_time_select_w (constant_time_eq_w a b) x y = (if a = b then x else y) \<and>
   constant_time_select_w (constant_time_is_zero_w a) x y = (if a = 0 then x else y) \<and>
   constant_time_select_8 (constant_time_lt_8 a b) u v = (if a < b then u else v) \<and>
   constant_time_select_8 (constant_time_eq_8 a b) u v = (if a = b then u else v) \<and>
   constant_time_select_int (constant_time_eq_int i j) k l = (if i = j then k else l)"
  by (simp only: ct_masks simp_thms)

end
