(* ===== verification/Blocks.thy ===== *)
theory Blocks
  imports Prelude
begin

text \<open>
  Streams that are processed in blocks. The streaming interfaces of the library (the base64 encoder,
  the hash functions) share one shape: a context keeps a chaining state and fewer than one block of
  pending input, and an update hands every full block to a block function. \<open>absorb\<close> is the
  reference: it feeds a whole byte string block by block. The locale states what an update promises;
  inside it, processing a message in any pieces is shown equal to absorbing it whole.
\<close>

section \<open>Feeding blocks\<close>

function absorb :: "nat \<Rightarrow> (byte list \<Rightarrow> 's \<Rightarrow> 's) \<Rightarrow> 's \<Rightarrow> byte list \<Rightarrow> 's \<times> byte list" where
  "absorb n f s bs = (if n = 0 \<or> length bs < n then (s, bs) else absorb n f (f (take n bs) s) (drop n bs))"
  by pat_completeness auto
termination
  by (relation "measure (\<lambda>(n, f, s, bs). length bs)") auto

declare absorb.simps [simp del]

lemma absorb_short [simp]: "length bs < n \<Longrightarrow> absorb n f s bs = (s, bs)"
  by (simp add: absorb.simps)

lemma absorb_block: "length b = n \<Longrightarrow> 0 < n \<Longrightarrow> absorb n f s (b @ bs) = absorb n f (f b s) bs"
  by (simp add: absorb.simps [of n f s "b @ bs"])

lemma absorb_step: "0 < n \<Longrightarrow> n \<le> length bs \<Longrightarrow> absorb n f s bs = absorb n f (f (take n bs) s) (drop n bs)"
  by (simp add: absorb.simps [of n f s bs])

text \<open>What is left over is the tail of the input, shorter than a block.\<close>

lemma absorb_rest:
  "0 < n \<Longrightarrow> snd (absorb n f s bs) = drop (n * (length bs div n)) bs"
proof (induction n f s bs rule: absorb.induct)
  case (1 n f s bs)
  show ?case
  proof (cases "length bs < n")
    case False
    then have "length bs div n = Suc ((length bs - n) div n)"
      using 1(2) by (simp add: le_div_geq)
    then have e: "n * (length bs div n) = n * ((length bs - n) div n) + n" by simp
    show ?thesis
      using 1 False by (simp add: absorb_step e)
  qed (simp add: absorb_short)
qed

lemma absorb_rest_short: "0 < n \<Longrightarrow> length (snd (absorb n f s bs)) < n"
proof -
  assume n: "0 < n"
  have "n * (length bs div n) + length bs mod n = length bs" by simp
  moreover have "length bs mod n < n" using n by simp
  ultimately have "length bs < n + n * (length bs div n)" by linarith
  with n show ?thesis by (simp add: absorb_rest)
qed

lemma absorb_append:
  assumes "0 < n"
  shows "absorb n f s (bs @ cs) = (case absorb n f s bs of (s', p) \<Rightarrow> absorb n f s' (p @ cs))"
  using assms
proof (induction n f s bs rule: absorb.induct)
  case (1 n f s bs)
  show ?case
  proof (cases "length bs < n")
    case False
    then have "absorb n f s (bs @ cs) = absorb n f (f (take n bs) s) (drop n bs @ cs)"
      using 1(2) by (simp add: absorb_step)
    also have "\<dots> = (case absorb n f (f (take n bs) s) (drop n bs) of (s', p) \<Rightarrow> absorb n f s' (p @ cs))"
      using 1 False by simp
    also have "absorb n f (f (take n bs) s) (drop n bs) = absorb n f s bs"
      using 1(2) False by (simp add: absorb_step [of n bs])
    finally show ?thesis .
  qed simp
qed

text \<open>All the full blocks at once, as a loop that is told their number.\<close>

lemma absorb_multiple:
  assumes "0 < n" and "length bs = n * k"
  shows "absorb n f s bs = (fst (absorb n f s bs), [])"
  using absorb_rest [OF assms(1), of f s bs] assms by (intro prod_eqI) simp_all

lemma absorb_whole:
  assumes "0 < n"
  shows "absorb n f s bs =
    (fst (absorb n f s (take (n * (length bs div n)) bs)), drop (n * (length bs div n)) bs)"
proof -
  let ?k = "n * (length bs div n)"
  have "?k \<le> length bs" by simp
  then have "length (take ?k bs) = n * (length bs div n)" by simp
  from absorb_multiple [OF assms this] obtain t where a: "absorb n f s (take ?k bs) = (t, [])" by metis
  have "length bs - ?k < n" using assms by (simp add: minus_mult_div_eq_mod)
  then have "length (drop ?k bs) < n" by simp
  then have "absorb n f t ([] @ drop ?k bs) = (t, drop ?k bs)" by simp
  with absorb_append [OF assms, of f s "take ?k bs" "drop ?k bs"] show ?thesis
    unfolding a by simp
qed

text \<open>Two block functions that agree on the states that occur.\<close>

lemma absorb_agree:
  assumes "0 < n" and "P s" and "\<And>b s. P s \<Longrightarrow> length b = n \<Longrightarrow> f b s = g b s \<and> P (g b s)"
  shows "absorb n f s bs = absorb n g s bs \<and> P (fst (absorb n g s bs))"
  using assms(2)
proof (induction "length bs" arbitrary: s bs rule: less_induct)
  case less
  show ?case
  proof (cases "length bs < n")
    case False
    have "f (take n bs) s = g (take n bs) s \<and> P (g (take n bs) s)"
      using assms(3) [OF less.prems, of "take n bs"] False by simp
    then show ?thesis
      using less.hyps [of "drop n bs" "g (take n bs) s"] assms(1) False by (simp add: absorb_step)
  qed (use less.prems in simp)
qed

section \<open>The contract of an update\<close>

locale block_stream =
  fixes n :: nat
    and f :: "byte list \<Rightarrow> 's \<Rightarrow> 's"
    and core :: "'c \<Rightarrow> 's"
    and pend :: "'c \<Rightarrow> byte list"
    and well :: "'c \<Rightarrow> bool"
    and fits :: "byte list \<Rightarrow> bool"
    and upd :: "byte list \<Rightarrow> 'c \<Rightarrow> 'c"
  assumes block_pos: "0 < n"
    and upd_well: "well c \<Longrightarrow> fits bs \<Longrightarrow> well (upd bs c)"
    and upd_absorbs: "well c \<Longrightarrow> fits bs \<Longrightarrow>
      (core (upd bs c), pend (upd bs c)) = absorb n f (core c) (pend c @ bs)"
begin

lemma updates_absorb:
  assumes "well c" and "list_all fits bss" and "length (pend c) < n"
  shows "well (fold upd bss c) \<and>
    (core (fold upd bss c), pend (fold upd bss c)) = absorb n f (core c) (pend c @ concat bss)"
  using assms
proof (induction bss arbitrary: c)
  case (Cons bs bss)
  have w: "well (upd bs c)" using upd_well Cons.prems by simp
  have a: "(core (upd bs c), pend (upd bs c)) = absorb n f (core c) (pend c @ bs)"
    using upd_absorbs Cons.prems by simp
  have "length (pend (upd bs c)) < n"
    using absorb_rest_short [OF block_pos, of f "core c" "pend c @ bs"] arg_cong [OF a, of snd] by simp
  from Cons.IH [OF w _ this] Cons.prems
  have IH: "well (fold upd bss (upd bs c))"
    "(core (fold upd bss (upd bs c)), pend (fold upd bss (upd bs c))) =
      absorb n f (core (upd bs c)) (pend (upd bs c) @ concat bss)"
    by simp_all
  have "absorb n f (core c) (pend c @ concat (bs # bss)) =
      absorb n f (core (upd bs c)) (pend (upd bs c) @ concat bss)"
    using absorb_append [OF block_pos, of f "core c" "pend c @ bs" "concat bss"]
    by (simp add: a [symmetric])
  with IH show ?case by simp
qed simp

lemma any_pieces:
  assumes "well c" and "length (pend c) < n" and "list_all fits bss" and "list_all fits bss'"
    and "concat bss = concat bss'"
  shows "core (fold upd bss c) = core (fold upd bss' c)" "pend (fold upd bss c) = pend (fold upd bss' c)"
  using updates_absorb [OF assms(1,3,2)] updates_absorb [OF assms(1,4,2)] assms(5)
  by (metis prod.inject)+

end

end
