(* ===== verification/Base64.thy ===== *)
theory Base64
  imports ConstTime Blocks
begin

text \<open>
  Base64 (\<open>crypto/base64/base64.c\<close>): the constant-time character conversions, the one-shot and the
  streaming encoder, and the quad decoder behind \<open>EVP_DecodeBase64\<close>, \<open>EVP_DecodeUpdate\<close> and
  \<open>EVP_DecodeBlock\<close>. A routine that writes through a pointer \<open>out\<close> returns the bytes it leaves
  there, from \<open>out\<close> on.
\<close>

section \<open>Characters\<close>

definition constant_time_lt_args_8 :: "byte \<Rightarrow> byte \<Rightarrow> byte" where
  "constant_time_lt_args_8 a b =
     (let aw = ucast a; bw = ucast b in ucast (constant_time_msb_w (aw - bw)))"

definition constant_time_in_range_8 :: "byte \<Rightarrow> byte \<Rightarrow> byte \<Rightarrow> byte" where
  "constant_time_in_range_8 a min' max' =
     (let a' = a - min' in constant_time_lt_args_8 a' (max' - min' + 1))"

text \<open>Character constants: plus 43, slash 47, zero 48, equals 61, A 65, a 97.\<close>

definition conv_bin2ascii :: "byte \<Rightarrow> byte" where
  "conv_bin2ascii a0 =
     (let a = a0 AND 0x3F;
          r = constant_time_select_8 (constant_time_eq_8 (ucast a) 62) 43 47;
          r = constant_time_select_8 (constant_time_lt_args_8 a 62) (a - 52 + 48) r;
          r = constant_time_select_8 (constant_time_lt_args_8 a 52) (a - 26 + 97) r;
          r = constant_time_select_8 (constant_time_lt_args_8 a 26) (a + 65) r
      in r)"

definition base64_ascii_to_bin :: "byte \<Rightarrow> byte" where
  "base64_ascii_to_bin a =
     (let is_upper = constant_time_in_range_8 a 65 90;
          is_lower = constant_time_in_range_8 a 97 122;
          is_digit = constant_time_in_range_8 a 48 57;
          is_plus = constant_time_eq_8 (ucast a) 43;
          is_slash = constant_time_eq_8 (ucast a) 47;
          is_equals = constant_time_eq_8 (ucast a) 61;
          r = 0xFF;
          r = constant_time_select_8 is_upper (a - 65) r;
          r = constant_time_select_8 is_lower (a - 97 + 26) r;
          r = constant_time_select_8 is_digit (a - 48 + 52) r;
          r = constant_time_select_8 is_plus 62 r;
          r = constant_time_select_8 is_slash 63 r;
          r = constant_time_select_8 is_equals 0 r
      in r)"

section \<open>Encoding\<close>

definition EVP_EncodedLength :: "size_t \<Rightarrow> size_t option" where
  "EVP_EncodedLength len =
     (if size_wrap (len + 2) < len then None
      else
        (let l = size_wrap (len + 2) div 3
         in if size_wrap (l * 4) div 4 \<noteq> l then None
            else
              (let l4 = size_wrap (l * 4)
               in if size_wrap (l4 + 1) < l4 then None else Some (size_wrap (l4 + 1)))))"

fun encode_block_loop :: "byte list \<Rightarrow> nat \<Rightarrow> byte list \<times> size_t" where
  "encode_block_loop src remaining =
     (if remaining = 0 then ([], 0)
      else if 3 \<le> remaining
      then
        (let l = push_bit 16 (ucast (src ! 0)) OR push_bit 8 (ucast (src ! 1)) OR ucast (src ! 2) :: u32;
             rest = encode_block_loop (drop 3 src) (remaining - 3)
         in ([conv_bin2ascii (ucast (drop_bit 18 l)), conv_bin2ascii (ucast (drop_bit 12 l)),
              conv_bin2ascii (ucast (drop_bit 6 l)), conv_bin2ascii (ucast l)] @ fst rest, 4 + snd rest))
      else
        (let l = push_bit 16 (ucast (src ! 0)) :: u32;
             l = (if remaining = 2 then l OR push_bit 8 (ucast (src ! 1)) else l)
         in ([conv_bin2ascii (ucast (drop_bit 18 l)), conv_bin2ascii (ucast (drop_bit 12 l)),
              (if remaining = 1 then 61 else conv_bin2ascii (ucast (drop_bit 6 l))), 61], 4)))"

declare encode_block_loop.simps [simp del]

definition EVP_EncodeBlock :: "byte list \<Rightarrow> size_t \<Rightarrow> byte list \<times> size_t" where
  "EVP_EncodeBlock src src_len =
     (case encode_block_loop src src_len of (dst, n) \<Rightarrow> (dst @ [0], n))"

record EVP_ENCODE_CTX =
  data_used :: nat
  ctx_data :: "byte list"
  eof_seen :: bool
  error_encountered :: bool

definition EVP_EncodeInit :: EVP_ENCODE_CTX where
  "EVP_EncodeInit = \<lparr>data_used = 0, ctx_data = replicate 48 0, eof_seen = False, error_encountered = False\<rparr>"

text \<open>Writing at a cursor: everything the routine wrote behind the cursor is overwritten.\<close>

definition put_at :: "nat \<Rightarrow> byte list \<Rightarrow> byte list \<Rightarrow> byte list" where
  "put_at n bs out = take n out @ bs"

text \<open>One line: the encoded block, a newline in place of its terminator, and a new terminator. The
  result is the memory from \<open>out\<close>, the cursor and the number of characters encoded.\<close>

definition encode_line :: "byte list \<Rightarrow> nat \<Rightarrow> byte list \<Rightarrow> nat \<Rightarrow> byte list \<times> nat \<times> size_t" where
  "encode_line out cur src n =
     (case EVP_EncodeBlock src n of
        (blk, encoded) \<Rightarrow>
          (put_at (cur + encoded + 1) [0] (put_at (cur + encoded) [10] (put_at cur blk out)),
           cur + encoded + 1, encoded))"

text \<open>The loop over whole 48-byte blocks; the flag is false when the count of characters overflows.\<close>

fun encode_lines :: "byte list \<Rightarrow> nat \<Rightarrow> byte list \<Rightarrow> size_t \<Rightarrow> size_t \<Rightarrow>
    bool \<times> byte list \<times> byte list \<times> size_t \<times> size_t" where
  "encode_lines out cur inp in_len tot =
     (if 48 \<le> in_len
      then
        (case encode_line out cur inp 48 of
           (out', cur', encoded) \<Rightarrow>
             if size_wrap (tot + encoded + 1) < tot
             then (False, out', drop 48 inp, in_len - 48, tot)
             else encode_lines out' cur' (drop 48 inp) (in_len - 48) (size_wrap (tot + encoded + 1)))
      else (True, out, inp, in_len, tot))"

declare encode_lines.simps [simp del]

definition EVP_EncodeUpdate ::
  "EVP_ENCODE_CTX \<Rightarrow> byte list \<Rightarrow> size_t \<Rightarrow> EVP_ENCODE_CTX \<times> byte list \<times> nat" where
  "EVP_EncodeUpdate ctx inp in_len =
     (if in_len = 0 then (ctx, [], 0)
      else if in_len < 48 - data_used ctx
      then (ctx\<lparr>ctx_data := splice (data_used ctx) (take in_len inp) (ctx_data ctx),
                data_used := data_used ctx + in_len\<rparr>, [], 0)
      else
        (let todo = 48 - data_used ctx;
             (ctx, out, cur, tot, inp, in_len) =
               (if data_used ctx \<noteq> 0
                then
                  (let data = splice (data_used ctx) (take todo inp) (ctx_data ctx)
                   in case encode_line [] 0 data 48 of
                        (out, cur, encoded) \<Rightarrow>
                          (ctx\<lparr>ctx_data := data, data_used := 0\<rparr>, out, cur, encoded + 1,
                           drop todo inp, in_len - todo))
                else (ctx, [], 0, 0, inp, in_len))
         in case encode_lines out cur inp in_len tot of
              (False, out, _, _, _) \<Rightarrow> (ctx, out, 0)
            | (True, out, inp, in_len, tot) \<Rightarrow>
                (ctx\<lparr>ctx_data := (if in_len \<noteq> 0 then splice 0 (take in_len inp) (ctx_data ctx) else ctx_data ctx),
                     data_used := in_len\<rparr>,
                 out, if INT_MAX < tot then 0 else tot)))"

definition EVP_EncodeFinal :: "EVP_ENCODE_CTX \<Rightarrow> EVP_ENCODE_CTX \<times> byte list \<times> nat" where
  "EVP_EncodeFinal ctx =
     (if data_used ctx = 0 then (ctx, [], 0)
      else
        (case encode_line [] 0 (ctx_data ctx) (data_used ctx) of
           (out, cur, encoded) \<Rightarrow> (ctx\<lparr>data_used := 0\<rparr>, out, encoded + 1)))"

section \<open>Decoding\<close>

definition EVP_DecodedLength :: "size_t \<Rightarrow> size_t option" where
  "EVP_DecodedLength len = (if len mod 4 \<noteq> 0 then None else Some (len div 4 * 3))"

definition EVP_DecodeInit :: EVP_ENCODE_CTX where
  "EVP_DecodeInit = \<lparr>data_used = 0, ctx_data = replicate 48 0, eof_seen = False, error_encountered = False\<rparr>"

text \<open>The bytes of one quad; their number is \<open>*out_num_bytes\<close>.\<close>

definition base64_decode_quad :: "byte list \<Rightarrow> byte list option" where
  "base64_decode_quad inp =
     (let a = base64_ascii_to_bin (inp ! 0);
          b = base64_ascii_to_bin (inp ! 1);
          c = base64_ascii_to_bin (inp ! 2);
          d = base64_ascii_to_bin (inp ! 3)
      in if a = 0xFF \<or> b = 0xFF \<or> c = 0xFF \<or> d = 0xFF then None
         else
           (let v = push_bit 18 (ucast a) OR push_bit 12 (ucast b) OR push_bit 6 (ucast c) OR ucast d :: u32;
                padding_pattern = (if inp ! 0 = 61 then 8 else 0) + (if inp ! 1 = 61 then 4 else 0) +
                  (if inp ! 2 = 61 then 2 else 0) + (if inp ! 3 = 61 then 1 else 0 :: nat)
            in if padding_pattern = 0
               then Some [ucast (drop_bit 16 v), ucast (drop_bit 8 v), ucast v]
               else if padding_pattern = 1 then Some [ucast (drop_bit 16 v), ucast (drop_bit 8 v)]
               else if padding_pattern = 3 then Some [ucast (drop_bit 16 v)]
               else None))"

text \<open>Space, tab, carriage return, newline.\<close>

definition is_blank :: "byte \<Rightarrow> bool" where
  "is_blank c \<longleftrightarrow> c = 32 \<or> c = 9 \<or> c = 13 \<or> c = 10"

fun decode_loop :: "byte list \<Rightarrow> byte list \<Rightarrow> EVP_ENCODE_CTX \<Rightarrow> bool \<times> byte list \<times> EVP_ENCODE_CTX" where
  "decode_loop [] out ctx = (True, out, ctx)"
| "decode_loop (c # cs) out ctx =
     (if is_blank c then decode_loop cs out ctx
      else if eof_seen ctx then (False, out, ctx\<lparr>error_encountered := True\<rparr>)
      else
        (let ctx = ctx\<lparr>ctx_data := (ctx_data ctx)[data_used ctx := c], data_used := data_used ctx + 1\<rparr>
         in if data_used ctx = 4
            then
              (case base64_decode_quad (ctx_data ctx) of
                 None \<Rightarrow> (False, out, ctx\<lparr>error_encountered := True\<rparr>)
               | Some bs \<Rightarrow>
                   decode_loop cs (out @ bs)
                     (ctx\<lparr>data_used := 0, eof_seen := (if length bs < 3 then True else eof_seen ctx)\<rparr>))
            else decode_loop cs out ctx))"

definition EVP_DecodeUpdate ::
  "EVP_ENCODE_CTX \<Rightarrow> byte list \<Rightarrow> size_t \<Rightarrow> int \<times> EVP_ENCODE_CTX \<times> byte list \<times> nat" where
  "EVP_DecodeUpdate ctx inp in_len =
     (if error_encountered ctx then (-1, ctx, [], 0)
      else
        (case decode_loop (take in_len inp) [] ctx of
           (False, out, ctx) \<Rightarrow> (-1, ctx, out, 0)
         | (True, out, ctx) \<Rightarrow>
             if INT_MAX < length out then (-1, ctx\<lparr>error_encountered := True\<rparr>, out, 0)
             else (if eof_seen ctx then 0 else 1, ctx, out, length out)))"

definition EVP_DecodeFinal :: "EVP_ENCODE_CTX \<Rightarrow> int \<times> nat" where
  "EVP_DecodeFinal ctx = (if error_encountered ctx \<or> data_used ctx \<noteq> 0 then (-1, 0) else (1, 0))"

text \<open>The loop of \<open>EVP_DecodeBase64\<close> with the bytes written so far.\<close>

fun decode_quads :: "byte list \<Rightarrow> nat \<Rightarrow> byte list \<Rightarrow> bool \<times> byte list" where
  "decode_quads inp remaining out =
     (if remaining = 0 then (True, out)
      else
        (case base64_decode_quad inp of
           None \<Rightarrow> (False, out)
         | Some bs \<Rightarrow>
             if length bs \<noteq> 3 \<and> remaining \<noteq> 4 then (False, out @ bs)
             else decode_quads (drop 4 inp) (remaining - 4) (out @ bs)))"

declare decode_quads.simps [simp del]

text \<open>The result, the bytes written to \<open>out\<close>, and \<open>*out_len\<close>.\<close>

definition EVP_DecodeBase64 :: "size_t \<Rightarrow> byte list \<Rightarrow> size_t \<Rightarrow> bool \<times> byte list \<times> size_t" where
  "EVP_DecodeBase64 max_out inp in_len =
     (if in_len mod 4 \<noteq> 0 then (False, [], 0)
      else
        (case EVP_DecodedLength in_len of
           None \<Rightarrow> (False, [], 0)
         | Some max_len \<Rightarrow>
             if max_out < max_len then (False, [], 0)
             else
               (case decode_quads inp in_len [] of
                  (False, out) \<Rightarrow> (False, out, 0)
                | (True, out) \<Rightarrow> (True, out, length out))))"

fun trim_left :: "byte list \<Rightarrow> byte list" where
  "trim_left [] = []"
| "trim_left (c # cs) = (if c = 32 \<or> c = 9 then trim_left cs else c # cs)"

definition trim_right :: "byte list \<Rightarrow> byte list" where
  "trim_right cs = rev (dropWhile is_blank (rev cs))"

definition EVP_DecodeBlock :: "byte list \<Rightarrow> size_t \<Rightarrow> int \<times> byte list" where
  "EVP_DecodeBlock src src_len =
     (let inp = trim_right (trim_left (take src_len src))
      in case EVP_DecodedLength (length inp) of
           None \<Rightarrow> (-1, [])
         | Some dst_len \<Rightarrow>
             if INT_MAX < dst_len then (-1, [])
             else
               (case EVP_DecodeBase64 dst_len inp (length inp) of
                  (False, out, _) \<Rightarrow> (-1, out)
                | (True, out, n) \<Rightarrow>
                    (let padded = out @ replicate ((3 - n mod 3) mod 3) 0
                     in (int (length padded), padded))))"

section \<open>The character tables\<close>

lemma lt_args_mask [ct_masks]: "constant_time_lt_args_8 a b = (if a < b then 0xFF else 0)"
proof -
  have "unat a < 256" "unat b < 256"
    using unsigned_less [of a, where 'a = nat] unsigned_less [of b, where 'a = nat] by simp_all
  moreover have "unat (ucast a - ucast b :: u64) = (if unat b \<le> unat a then unat a - unat b else unat a + 2 ^ 64 - unat b)"
    by (simp add: unat_sub_if_size size_word_def word_le_nat_alt)
  ultimately have "bit (ucast a - ucast b :: u64) 63 \<longleftrightarrow> a < b"
    unfolding top_bit word_less_nat_alt by (auto split: if_splits)
  then show ?thesis
    by (simp only: constant_time_lt_args_8_def Let_def msb_w_mask if_distrib [of ucast] ucast_ones unsigned_0)
qed

lemma in_range_mask [ct_masks]:
  assumes "unat lo \<le> unat hi" and "unat hi < 255"
  shows "constant_time_in_range_8 a lo hi = (if lo \<le> a \<and> a \<le> hi then 0xFF else 0)"
proof -
  have a: "unat a < 256" using unsigned_less [of a, where 'a = nat] by simp
  have "unat (a - lo) = (if unat lo \<le> unat a then unat a - unat lo else unat a + 256 - unat lo)"
    by (simp add: unat_sub_if_size size_word_def word_le_nat_alt)
  moreover have "unat (hi - lo) = unat hi - unat lo"
    using assms by (simp add: unat_sub_if_size word_le_nat_alt)
  then have "unat (hi - lo + 1) = unat hi - unat lo + 1"
    using assms by (simp add: unat_plus_if_size size_word_def)
  ultimately have "a - lo < hi - lo + 1 \<longleftrightarrow> lo \<le> a \<and> a \<le> hi"
    unfolding word_less_nat_alt word_le_nat_alt using assms a by (auto split: if_splits)
  then show ?thesis
    by (simp add: constant_time_in_range_8_def lt_args_mask)
qed

text \<open>The code's masks as the tables of RFC 4648.\<close>

definition b64_char :: "nat \<Rightarrow> byte" where
  "b64_char i =
     (if i < 26 then of_nat (65 + i) else if i < 52 then of_nat (97 + (i - 26))
      else if i < 62 then of_nat (48 + (i - 52)) else if i = 62 then 43 else 47)"

definition b64_value :: "byte \<Rightarrow> nat option" where
  "b64_value c =
     (let n = unat c
      in if 65 \<le> n \<and> n \<le> 90 then Some (n - 65) else if 97 \<le> n \<and> n \<le> 122 then Some (n - 71)
         else if 48 \<le> n \<and> n \<le> 57 then Some (n + 4) else if n = 43 then Some 62
         else if n = 47 then Some 63 else None)"

lemma b64_value_char: "i < 64 \<Longrightarrow> b64_value (b64_char i) = Some i"
proof -
  assume i: "i < 64"
  have v: "b64_value (of_nat m) = Some i" if "m < 256"
    and "65 \<le> m \<and> m \<le> 90 \<and> i + 65 = m \<or> 97 \<le> m \<and> m \<le> 122 \<and> i + 71 = m \<or>
      48 \<le> m \<and> m \<le> 57 \<and> i = m + 4 \<or> m = 43 \<and> i = 62 \<or> m = 47 \<and> i = 63" for m
    using that unfolding b64_value_def Let_def unat_byte_of_nat by auto
  consider "i < 26" | "26 \<le> i" "i < 52" | "52 \<le> i" "i < 62" | "i = 62" | "i = 63"
    using i by linarith
  then show ?thesis
  proof cases
    case 1
    then show ?thesis using v [of "65 + i"] by (simp add: b64_char_def)
  next
    case 2
    then obtain j where "i = 26 + j" "j < 26" using le_Suc_ex [of 26 i] by auto
    then show ?thesis using v [of "97 + j"] by (simp add: b64_char_def)
  next
    case 3
    then obtain j where "i = 52 + j" "j < 10" using le_Suc_ex [of 52 i] by auto
    then show ?thesis using v [of "48 + j"] by (simp add: b64_char_def)
  next
    case 4
    then show ?thesis using v [of 43] by (simp add: b64_char_def)
  next
    case 5
    then show ?thesis using v [of 47] by (simp add: b64_char_def)
  qed
qed

lemma b64_value_Some: "b64_value c = Some i \<Longrightarrow> i < 64 \<and> c = b64_char i"
proof -
  assume v: "b64_value c = Some i"
  define n where "n = unat c"
  have c: "c = of_nat n" by (simp add: n_def)
  have "b64_char (n - 65) = of_nat n" if "65 \<le> n" "n \<le> 90"
    using that by (auto simp: b64_char_def simp flip: of_nat_add)
  moreover have "b64_char (n - 71) = of_nat n" if "97 \<le> n" "n \<le> 122"
  proof -
    have "97 + (n - 71 - 26) = n" "\<not> n - 71 < 26" "n - 71 < 52" using that by simp_all
    then show ?thesis by (simp only: b64_char_def if_True if_False)
  qed
  moreover have "b64_char (n + 4) = of_nat n" if "48 \<le> n" "n \<le> 57"
    using that by (simp add: b64_char_def)
  moreover have "b64_char 62 = of_nat 43" "b64_char 63 = of_nat 47"
    by (simp_all add: b64_char_def)
  ultimately have "i < 64 \<and> b64_char i = of_nat n"
    using v unfolding b64_value_def Let_def n_def [symmetric]
    by (auto simp only: option.inject option.distinct split: if_splits)
  then show ?thesis using c by simp
qed

lemma conv_bin2ascii_char: "conv_bin2ascii a = b64_char (unat a mod 64)"
proof -
  let ?i = "a AND 0x3F"
  define n where "n = unat a mod 64"
  have "?i = take_bit 6 a" by (simp add: take_bit_eq_mask mask_numeral)
  then have "unat ?i = n" by (simp add: unat_take_bit n_def)
  then have i: "?i = of_nat n" by (rule of_nat_unat_eq)
  have n: "n < 64" by (simp add: n_def)
  have c: "conv_bin2ascii a = (if ?i < 26 then ?i + 65 else if ?i < 52 then ?i - 26 + 97
      else if ?i < 62 then ?i - 52 + 48 else if ucast ?i = (62 :: u64) then 43 else 47)"
    unfolding conv_bin2ascii_def Let_def by (simp only: ct_masks)
  have lt: "?i < 26 \<longleftrightarrow> n < 26" "?i < 52 \<longleftrightarrow> n < 52" "?i < 62 \<longleftrightarrow> n < 62"
    using n unfolding i word_less_nat_alt unat_byte_of_nat by simp_all
  have eq: "ucast ?i = (62 :: u64) \<longleftrightarrow> n = 62"
    using n unfolding i word_unat_eq_iff by (subst unat_ucast_byte) (simp_all add: unat_byte_of_nat)
  have "n < 26 \<Longrightarrow> ?i + 65 = of_nat (65 + n)" unfolding i by simp
  moreover have "26 \<le> n \<Longrightarrow> ?i - 26 + 97 = of_nat (97 + (n - 26))" unfolding i by (simp add: of_nat_diff)
  moreover have "52 \<le> n \<Longrightarrow> ?i - 52 + 48 = of_nat (48 + (n - 52))" unfolding i by (simp add: of_nat_diff)
  ultimately show ?thesis
    unfolding c lt eq b64_char_def n_def [symmetric] by auto
qed

text \<open>Decoding a character: its value, zero for the padding character, \<open>0xFF\<close> for any other.\<close>

lemma ascii_to_bin_value:
  "base64_ascii_to_bin c =
     (if c = 61 then 0 else case b64_value c of None \<Rightarrow> 0xFF | Some i \<Rightarrow> of_nat i)"
proof -
  define n where "n = unat c"
  have n: "n < 256" unfolding n_def using unsigned_less [of c, where 'a = nat] by simp
  have c: "c = of_nat n" by (simp add: n_def)
  have e: "base64_ascii_to_bin c = (if c = 61 then 0 else if c = 47 then 63 else if c = 43 then 62
     else if 48 \<le> c \<and> c \<le> 57 then c - 48 + 52 else if 97 \<le> c \<and> c \<le> 122 then c - 97 + 26
     else if 65 \<le> c \<and> c \<le> 90 then c - 65 else 0xFF)"
  proof -
    have u: "ucast c = (43 :: u64) \<longleftrightarrow> c = 43" "ucast c = (47 :: u64) \<longleftrightarrow> c = 47"
      "ucast c = (61 :: u64) \<longleftrightarrow> c = 61"
      unfolding word_unat_eq_iff by simp_all
    have r: "constant_time_in_range_8 c 65 90 = (if 65 \<le> c \<and> c \<le> 90 then 0xFF else 0)"
      "constant_time_in_range_8 c 97 122 = (if 97 \<le> c \<and> c \<le> 122 then 0xFF else 0)"
      "constant_time_in_range_8 c 48 57 = (if 48 \<le> c \<and> c \<le> 57 then 0xFF else 0)"
      by (rule in_range_mask; simp)+
    show ?thesis
      unfolding base64_ascii_to_bin_def Let_def r mask_8 u select_8_mask ..
  qed
  have le: "(k :: byte) \<le> c \<longleftrightarrow> unat k \<le> n" "c \<le> k \<longleftrightarrow> n \<le> unat k" "c = k \<longleftrightarrow> n = unat k" for k
    by (simp_all add: n_def word_le_nat_alt word_unat_eq_iff)
  have "65 \<le> n \<Longrightarrow> c - 65 = of_nat (n - 65)" unfolding c by (simp add: of_nat_diff)
  moreover have "97 \<le> n \<Longrightarrow> c - 97 + 26 = of_nat (n - 71)" unfolding c by (simp add: of_nat_diff)
  moreover have "48 \<le> n \<Longrightarrow> c - 48 + 52 = of_nat (n + 4)" unfolding c by simp
  ultimately show ?thesis
    unfolding e le b64_value_def n_def [symmetric] Let_def by simp
qed

section \<open>Quads\<close>

text \<open>The 24-bit number of three bytes, its four characters, and the text of a byte string.\<close>

definition val3 :: "byte \<Rightarrow> byte \<Rightarrow> byte \<Rightarrow> nat" where
  "val3 x y z = unat x * 65536 + unat y * 256 + unat z"

definition sextet :: "nat \<Rightarrow> nat \<Rightarrow> byte" where
  "sextet k n = b64_char (n div 2 ^ k mod 64)"

fun b64 :: "byte list \<Rightarrow> byte list" where
  "b64 (x # y # z # bs) =
     [sextet 18 (val3 x y z), sextet 12 (val3 x y z), sextet 6 (val3 x y z), sextet 0 (val3 x y z)] @ b64 bs"
| "b64 [x, y] = [sextet 18 (val3 x y 0), sextet 12 (val3 x y 0), sextet 6 (val3 x y 0), 61]"
| "b64 [x] = [sextet 18 (val3 x 0 0), sextet 12 (val3 x 0 0), 61, 61]"
| "b64 [] = []"

lemma b64_simps3: "b64 (x # y # z # bs) =
     [sextet 18 (val3 x y z), sextet 12 (val3 x y z), sextet 6 (val3 x y z), sextet 0 (val3 x y z)] @ b64 bs"
  by simp

lemma length_b64: "length (b64 bs) = 4 * ((length bs + 2) div 3)"
proof (induction bs rule: b64.induct)
  case (1 x y z bs)
  have "(length (x # y # z # bs) + 2) div 3 = Suc ((length bs + 2) div 3)"
    by (simp add: div_add_self1 [of 3 "2 + length bs", symmetric] del: div_add_self1)
  with 1 show ?case by simp
qed simp_all

lemma unat_byte: "unat (b :: byte) < 256"
  using unsigned_less [of b, where 'a = nat] by simp

lemma val3_less: "val3 x y z < 2 ^ 24"
  using unat_byte [of x] unat_byte [of y] unat_byte [of z] by (simp add: val3_def)

lemma unat_pack:
  "unat (push_bit 16 (ucast (x :: byte)) OR push_bit 8 (ucast (y :: byte)) OR ucast (z :: byte) :: u32) = val3 x y z"
  "unat (push_bit 16 (ucast (x :: byte)) OR push_bit 8 (ucast (y :: byte)) :: u32) = val3 x y 0"
  "unat (push_bit 16 (ucast (x :: byte)) :: u32) = val3 x 0 0"
proof -
  note b = unat_byte [of x] unat_byte [of y] unat_byte [of z]
  have 1: "unat (push_bit 8 (ucast y) OR ucast z :: u32) = unat y * 2 ^ 8 + unat z"
    using b by (subst unat_push_or) simp_all
  have 2: "unat (push_bit 8 (ucast y) :: u32) = unat y * 2 ^ 8"
    using b by (subst unat_push_bit) simp_all
  show "unat (push_bit 16 (ucast x) OR push_bit 8 (ucast y) OR ucast z :: u32) = val3 x y z"
    using b 1 unfolding or.assoc by (subst unat_push_or) (simp_all add: val3_def)
  show "unat (push_bit 16 (ucast x) OR push_bit 8 (ucast y) :: u32) = val3 x y 0"
    using b 2 by (subst unat_push_or) (simp_all add: val3_def)
  show "unat (push_bit 16 (ucast x) :: u32) = val3 x 0 0"
    using b by (subst unat_push_bit) (simp_all add: val3_def)
qed

lemma conv_sextet: "conv_bin2ascii (ucast (drop_bit k (l :: u32))) = sextet k (unat l)"
proof -
  have "unat (ucast (drop_bit k l) :: byte) = unat l div 2 ^ k mod 2 ^ 8"
    unfolding unsigned_ucast_eq unat_drop_bit_eq
    by (simp add: take_bit_eq_mod drop_bit_eq_div)
  moreover have "m mod 2 ^ 8 mod 64 = m mod 64" for m :: nat
    by (rule mod_mod_cancel) (simp add: dvd_def)
  ultimately show ?thesis by (simp only: conv_bin2ascii_char sextet_def)
qed

lemma conv_quad:
  assumes "unat (l :: u32) = n"
  shows "conv_bin2ascii (ucast (drop_bit 18 l)) = sextet 18 n" "conv_bin2ascii (ucast (drop_bit 12 l)) = sextet 12 n"
    "conv_bin2ascii (ucast (drop_bit 6 l)) = sextet 6 n" "conv_bin2ascii (ucast l) = sextet 0 n"
  using assms conv_sextet [of 0 l] by (simp_all add: conv_sextet)

text \<open>The encoder's loop computes the text.\<close>

lemma encode_block_loop_b64:
  "encode_block_loop (src @ extra) (length src) = (b64 src, length (b64 src))"
proof (induction src rule: b64.induct)
  case (1 x y z bs)
  then show ?case
    by (subst encode_block_loop.simps)
      (simp add: Let_def conv_quad [OF unat_pack(1)] del: drop_bit_or)
next
  case (2 x y)
  then show ?case
    by (subst encode_block_loop.simps)
      (simp add: Let_def conv_quad [OF unat_pack(2)] del: drop_bit_or)
next
  case (3 x)
  then show ?case
    by (subst encode_block_loop.simps)
      (simp add: Let_def conv_quad [OF unat_pack(3)] del: drop_bit_or)
next
  case 4
  then show ?case by (simp add: encode_block_loop.simps)
qed

lemma EVP_EncodeBlock_b64:
  "n \<le> length src \<Longrightarrow> EVP_EncodeBlock src n = (b64 (take n src) @ [0], length (b64 (take n src)))"
  using encode_block_loop_b64 [of "take n src" "drop n src"]
  by (simp add: EVP_EncodeBlock_def min_absorb2)

section \<open>The texts the decoder accepts\<close>

text \<open>\<open>b64_text cs bs\<close>: the characters \<open>cs\<close> are quads of the alphabet for the bytes \<open>bs\<close>, the last
  one possibly padded. The bits of a padded quad that carry no byte are free.\<close>

definition val4 :: "nat \<Rightarrow> nat \<Rightarrow> nat \<Rightarrow> nat \<Rightarrow> nat" where
  "val4 a b c d = a * 2 ^ 18 + b * 2 ^ 12 + c * 2 ^ 6 + d"

definition byte3 :: "nat \<Rightarrow> nat \<Rightarrow> byte" where
  "byte3 k n = of_nat (n div 2 ^ k)"

inductive b64_text :: "byte list \<Rightarrow> byte list \<Rightarrow> bool" where
  nil: "b64_text [] []"
| quad: "b64_value c0 = Some a \<Longrightarrow> b64_value c1 = Some b \<Longrightarrow> b64_value c2 = Some c \<Longrightarrow>
    b64_value c3 = Some d \<Longrightarrow> n = val4 a b c d \<Longrightarrow> b64_text cs bs \<Longrightarrow>
    b64_text (c0 # c1 # c2 # c3 # cs) (byte3 16 n # byte3 8 n # byte3 0 n # bs)"
| pad1: "b64_value c0 = Some a \<Longrightarrow> b64_value c1 = Some b \<Longrightarrow> b64_value c2 = Some c \<Longrightarrow>
    n = val4 a b c 0 \<Longrightarrow> b64_text [c0, c1, c2, 61] [byte3 16 n, byte3 8 n]"
| pad2: "b64_value c0 = Some a \<Longrightarrow> b64_value c1 = Some b \<Longrightarrow> n = val4 a b 0 0 \<Longrightarrow>
    b64_text [c0, c1, 61, 61] [byte3 16 n]"

inductive_cases b64_text_NilE: "b64_text [] bs"

lemma b64_value_pad [simp]: "b64_value 61 = None"
  by (simp add: b64_value_def)

lemma unat_merge4:
  fixes wa wb wc wd :: u32
  assumes "unat wa < 64" "unat wb < 64" "unat wc < 64" "unat wd < 64"
  shows "unat (push_bit 18 wa OR push_bit 12 wb OR push_bit 6 wc OR wd) = val4 (unat wa) (unat wb) (unat wc) (unat wd)"
proof -
  have 1: "unat (push_bit 6 wc OR wd) = unat wc * 2 ^ 6 + unat wd"
    using assms by (subst unat_push_or) simp_all
  have 2: "unat (push_bit 12 wb OR (push_bit 6 wc OR wd)) = unat wb * 2 ^ 12 + (unat wc * 2 ^ 6 + unat wd)"
    using assms 1 by (subst unat_push_or) simp_all
  show ?thesis
    using assms 2 unfolding or.assoc by (subst unat_push_or) (simp_all add: val4_def)
qed

lemma unat_pack4:
  assumes "a < 64" "b < 64" "c < 64" "d < 64"
  shows "unat (push_bit 18 (ucast (of_nat a :: byte)) OR push_bit 12 (ucast (of_nat b :: byte)) OR
    push_bit 6 (ucast (of_nat c :: byte)) OR ucast (of_nat d :: byte) :: u32) = val4 a b c d"
proof -
  have u: "unat (ucast (of_nat m :: byte) :: u32) = m" if "m < 64" for m
    using that unat_ucast_byte [where 'a = 32, of "of_nat m"] by (simp only: unat_byte_of_nat) simp
  note v = u [OF assms(1)] u [OF assms(2)] u [OF assms(3)] u [OF assms(4)]
  show ?thesis by (subst unat_merge4; (simp only: v assms)?)
qed

lemma ucast_byte3: "ucast (drop_bit k (v :: u32)) = byte3 k (unat v)"
proof -
  have "unat (ucast (drop_bit k v) :: byte) = (unat v div 2 ^ k) mod 256"
    unfolding unsigned_ucast_eq unat_drop_bit_eq by (simp add: take_bit_eq_mod drop_bit_eq_div)
  then show ?thesis by (simp add: word_unat_eq_iff byte3_def unat_byte_of_nat)
qed

lemma bytes_quad:
  assumes "unat (v :: u32) = n"
  shows "ucast (drop_bit 16 v) = byte3 16 n" "ucast (drop_bit 8 v) = byte3 8 n" "ucast v = byte3 0 n"
  using assms ucast_byte3 [of 0 v] by (simp_all add: ucast_byte3)

lemma of_nat_small_ne: "i < 64 \<Longrightarrow> (of_nat i :: byte) \<noteq> 0xFF"
  by (simp add: word_unat_eq_iff unat_byte_of_nat)

text \<open>One quad, exactly.\<close>

lemma decode_quad_full:
  assumes "b64_value c0 = Some a" "b64_value c1 = Some b" "b64_value c2 = Some c" "b64_value c3 = Some d"
  shows "base64_decode_quad (c0 # c1 # c2 # c3 # cs) =
    Some [byte3 16 (val4 a b c d), byte3 8 (val4 a b c d), byte3 0 (val4 a b c d)]"
proof -
  have lt: "a < 64" "b < 64" "c < 64" "d < 64" using assms b64_value_Some by blast+
  have ne: "c0 \<noteq> 61" "c1 \<noteq> 61" "c2 \<noteq> 61" "c3 \<noteq> 61" using assms by auto
  show ?thesis
    using assms ne lt
    by (simp add: base64_decode_quad_def ascii_to_bin_value Let_def of_nat_small_ne
        bytes_quad [OF unat_pack4 [OF lt]] del: drop_bit_or)
qed

lemma decode_quad_pad1:
  assumes "b64_value c0 = Some a" "b64_value c1 = Some b" "b64_value c2 = Some c"
  shows "base64_decode_quad (c0 # c1 # c2 # 61 # cs) = Some [byte3 16 (val4 a b c 0), byte3 8 (val4 a b c 0)]"
proof -
  have lt: "a < 64" "b < 64" "c < 64" using assms b64_value_Some by blast+
  have ne: "c0 \<noteq> 61" "c1 \<noteq> 61" "c2 \<noteq> 61" using assms by auto
  show ?thesis
    using assms ne lt bytes_quad [OF unat_pack4 [OF lt, of 0]]
    by (simp add: base64_decode_quad_def ascii_to_bin_value Let_def of_nat_small_ne del: drop_bit_or)
qed

lemma decode_quad_pad2:
  assumes "b64_value c0 = Some a" "b64_value c1 = Some b"
  shows "base64_decode_quad (c0 # c1 # 61 # 61 # cs) = Some [byte3 16 (val4 a b 0 0)]"
proof -
  have lt: "a < 64" "b < 64" using assms b64_value_Some by blast+
  have ne: "c0 \<noteq> 61" "c1 \<noteq> 61" using assms by auto
  show ?thesis
    using assms ne lt bytes_quad [OF unat_pack4 [OF lt, of 0 0]]
    by (simp add: base64_decode_quad_def ascii_to_bin_value Let_def of_nat_small_ne del: drop_bit_or)
qed

lemma decode_quad_cases:
  assumes "base64_decode_quad (c0 # c1 # c2 # c3 # cs) = Some bs"
  obtains (full) a b c d where "b64_value c0 = Some a" "b64_value c1 = Some b" "b64_value c2 = Some c"
      "b64_value c3 = Some d" "bs = [byte3 16 (val4 a b c d), byte3 8 (val4 a b c d), byte3 0 (val4 a b c d)]"
  | (pad1) a b c where "b64_value c0 = Some a" "b64_value c1 = Some b" "b64_value c2 = Some c" "c3 = 61"
      "bs = [byte3 16 (val4 a b c 0), byte3 8 (val4 a b c 0)]"
  | (pad2) a b where "b64_value c0 = Some a" "b64_value c1 = Some b" "c2 = 61" "c3 = 61"
      "bs = [byte3 16 (val4 a b 0 0)]"
proof -
  have ok: "c = 61 \<or> (\<exists>a. b64_value c = Some a)" if "base64_ascii_to_bin c \<noteq> 0xFF" for c
    using that by (auto simp: ascii_to_bin_value split: if_splits option.splits)
  have bin: "base64_ascii_to_bin c0 \<noteq> 0xFF" "base64_ascii_to_bin c1 \<noteq> 0xFF"
    "base64_ascii_to_bin c2 \<noteq> 0xFF" "base64_ascii_to_bin c3 \<noteq> 0xFF"
    using assms unfolding base64_decode_quad_def Let_def
    by (auto split: if_splits)
  have pat: "c0 \<noteq> 61 \<and> c1 \<noteq> 61 \<and> (c2 = 61 \<longrightarrow> c3 = 61)"
    using assms unfolding base64_decode_quad_def Let_def
    by (auto split: if_splits)
  from pat ok [OF bin(1)] ok [OF bin(2)] obtain a b where ab: "b64_value c0 = Some a" "b64_value c1 = Some b"
    by blast
  show thesis
  proof (cases "c2 = 61")
    case True
    with pat assms decode_quad_pad2 [OF ab, of cs] ab show thesis by (intro pad2) auto
  next
    case False
    with ok [OF bin(3)] obtain c where c: "b64_value c2 = Some c" by blast
    show thesis
    proof (cases "c3 = 61")
      case True
      with assms decode_quad_pad1 [OF ab c, of cs] ab c show thesis by (intro pad1) auto
    next
      case False
      with ok [OF bin(4)] obtain d where d: "b64_value c3 = Some d" by blast
      with assms decode_quad_full [OF ab c d, of cs] ab c show thesis by (intro full) auto
    qed
  qed
qed

section \<open>Decoding accepts exactly the texts\<close>

lemma b64_text_length: "b64_text cs bs \<Longrightarrow> length cs mod 4 = 0 \<and> length bs \<le> length cs div 4 * 3"
proof (induction rule: b64_text.induct)
  case (quad c0 a c1 b c2 c c3 d n cs bs)
  have "length (c0 # c1 # c2 # c3 # cs) = length cs + 4" by simp
  then have "length (c0 # c1 # c2 # c3 # cs) div 4 = length cs div 4 + 1"
    "length (c0 # c1 # c2 # c3 # cs) mod 4 = length cs mod 4"
    by simp_all
  with quad.IH show ?case by simp
qed simp_all

lemma decode_quads_complete:
  "b64_text cs bs \<Longrightarrow> decode_quads (cs @ extra) (length cs) out = (True, out @ bs)"
proof (induction arbitrary: out rule: b64_text.induct)
  case (quad c0 a c1 b c2 c c3 d n cs bs)
  then show ?case by (simp add: decode_quads.simps [of "c0 # _"] decode_quad_full)
qed (simp_all add: decode_quads.simps decode_quad_pad1 decode_quad_pad2)

lemma decode_quads_sound:
  "decode_quads cs (length cs) out = (True, r) \<Longrightarrow> length cs mod 4 = 0 \<Longrightarrow> \<exists>bs. b64_text cs bs \<and> r = out @ bs"
proof (induction "length cs" arbitrary: cs out rule: less_induct)
  case less
  show ?case
  proof (cases "cs = []")
    case True
    with less.prems show ?thesis by (auto simp: decode_quads.simps intro: b64_text.intros)
  next
    case False
    with less.prems(2) have "4 \<le> length cs"
      by (metis length_0_conv linorder_not_le mod_less)
    then obtain c0 c1 c2 c3 cs' where cs: "cs = c0 # c1 # c2 # c3 # cs'"
      by (auto simp: numeral_eq_Suc Suc_le_length_iff)
    have m: "length cs' mod 4 = 0" using less.prems(2) mod_add_self2 [of "length cs'" 4] unfolding cs by simp
    from less.prems(1) obtain bs where q: "base64_decode_quad cs = Some bs"
      and n: "length bs = 3 \<or> cs' = []" and rest: "decode_quads cs' (length cs') (out @ bs) = (True, r)"
      unfolding cs by (subst (asm) decode_quads.simps) (auto split: option.splits if_splits)
    from less.hyps [OF _ rest m] obtain bs' where t: "b64_text cs' bs'" and r: "r = (out @ bs) @ bs'"
      unfolding cs by auto
    from q n t r show ?thesis
      unfolding cs by (elim decode_quad_cases) (auto intro: b64_text.intros elim: b64_text_NilE)
  qed
qed

lemma decode_base64_eq:
  assumes "length inp div 4 * 3 \<le> max_out"
  shows "EVP_DecodeBase64 max_out inp (length inp) = (True, bs, n) \<longleftrightarrow> b64_text inp bs \<and> n = length bs"
proof
  assume d: "EVP_DecodeBase64 max_out inp (length inp) = (True, bs, n)"
  then have m: "length inp mod 4 = 0" by (auto simp: EVP_DecodeBase64_def split: if_splits)
  with d assms have "decode_quads inp (length inp) [] = (True, bs)" "n = length bs"
    by (auto simp: EVP_DecodeBase64_def EVP_DecodedLength_def split: prod.splits bool.splits if_splits)
  with decode_quads_sound [OF this(1) m] show "b64_text inp bs \<and> n = length bs" by auto
next
  assume t: "b64_text inp bs \<and> n = length bs"
  with b64_text_length [of inp bs] decode_quads_complete [of inp bs "[]" "[]"] assms
  show "EVP_DecodeBase64 max_out inp (length inp) = (True, bs, n)"
    by (simp add: EVP_DecodeBase64_def EVP_DecodedLength_def)
qed

text \<open>The encoder's text is one of them.\<close>

lemma value_sextet: "b64_value (sextet k n) = Some (n div 2 ^ k mod 64)"
  by (simp add: sextet_def b64_value_char)

lemma val4_sextets: "n < 2 ^ 24 \<Longrightarrow>
  val4 (n div 2 ^ 18 mod 64) (n div 2 ^ 12 mod 64) (n div 2 ^ 6 mod 64) (n div 2 ^ 0 mod 64) = n"
proof -
  assume n: "n < 2 ^ 24"
  have 1: "n = n div 64 * 64 + n mod 64" by simp
  have 2: "n div 64 = n div 4096 * 64 + n div 64 mod 64"
    using div_mult_mod_eq [of "n div 64" 64] by (simp add: div_mult2_eq [symmetric])
  have 3: "n div 4096 = n div 262144 * 64 + n div 4096 mod 64"
    using div_mult_mod_eq [of "n div 4096" 64] by (simp add: div_mult2_eq [symmetric])
  have "n div 262144 mod 64 = n div 262144" using n by simp
  then have "val4 (n div 2 ^ 18 mod 64) (n div 2 ^ 12 mod 64) (n div 2 ^ 6 mod 64) (n div 2 ^ 0 mod 64) =
      n div 262144 * 262144 + n div 4096 mod 64 * 4096 + n div 64 mod 64 * 64 + n mod 64"
    by (simp add: val4_def)
  with 1 2 3 show ?thesis by linarith
qed

lemma byte3_val3: "byte3 16 (val3 x y z) = x" "byte3 8 (val3 x y z) = y" "byte3 0 (val3 x y z) = z"
proof -
  note b = unat_byte [of x] unat_byte [of y] unat_byte [of z]
  have "val3 x y z div 65536 = unat x" using b unfolding val3_def by simp
  then show "byte3 16 (val3 x y z) = x" by (simp add: byte3_def)
  have "val3 x y z div 256 = unat y + unat x * 256" using b unfolding val3_def by simp
  moreover have "val3 x y z = unat z + (unat x * 256 + unat y) * 256" by (simp add: val3_def)
  then have "val3 x y z mod 256 = unat z" using b by (simp only: mod_mult_self1) simp
  ultimately have "unat (byte3 8 (val3 x y z)) = unat y" "unat (byte3 0 (val3 x y z)) = unat z"
    using b unfolding byte3_def unat_byte_of_nat by simp_all
  then show "byte3 8 (val3 x y z) = y" "byte3 0 (val3 x y z) = z" by (simp_all only: word_unat_eq_iff)
qed

lemma low_sextets: "val3 x y 0 div 2 ^ 0 mod 64 = 0" "val3 x 0 0 div 2 ^ 6 mod 64 = 0" "val3 x 0 0 div 2 ^ 0 mod 64 = 0"
  by (simp_all add: val3_def)

lemma b64_text_b64: "b64_text (b64 bs) bs"
proof (induction bs rule: b64.induct)
  case (1 x y z bs)
  from b64_text.quad [OF value_sextet value_sextet value_sextet value_sextet refl 1,
      of 18 "val3 x y z" 12 "val3 x y z" 6 "val3 x y z" 0 "val3 x y z"]
  show ?case by (simp only: val4_sextets val3_less byte3_val3 b64.simps append.simps)
next
  case (2 x y)
  have "val4 (val3 x y 0 div 2 ^ 18 mod 64) (val3 x y 0 div 2 ^ 12 mod 64) (val3 x y 0 div 2 ^ 6 mod 64) 0 = val3 x y 0"
    using val4_sextets [OF val3_less, of x y 0] by (simp only: low_sextets)
  with b64_text.pad1 [OF value_sextet value_sextet value_sextet refl,
      of 18 "val3 x y 0" 12 "val3 x y 0" 6 "val3 x y 0"]
  show ?case by (simp only: byte3_val3 b64.simps append.simps)
next
  case (3 x)
  have "val4 (val3 x 0 0 div 2 ^ 18 mod 64) (val3 x 0 0 div 2 ^ 12 mod 64) 0 0 = val3 x 0 0"
    using val4_sextets [OF val3_less, of x 0 0] by (simp only: low_sextets)
  with b64_text.pad2 [OF value_sextet value_sextet refl, of 18 "val3 x 0 0" 12 "val3 x 0 0"]
  show ?case by (simp only: byte3_val3 b64.simps append.simps)
qed (simp add: b64_text.nil)

section \<open>Streaming encoder\<close>

text \<open>The text of a block is a line. The encoder's contract: the context keeps fewer than 48 bytes,
  and an update writes one line per full block, followed by a terminator.\<close>

definition line :: "byte list \<Rightarrow> byte list" where
  "line b = b64 b @ [10]"

definition emit_line :: "byte list \<Rightarrow> byte list \<Rightarrow> byte list" where
  "emit_line b text' = text' @ line b"

definition enc_ok :: "EVP_ENCODE_CTX \<Rightarrow> bool" where
  "enc_ok ctx \<longleftrightarrow> length (ctx_data ctx) = 48 \<and> data_used ctx < 48"

definition enc_pending :: "EVP_ENCODE_CTX \<Rightarrow> byte list" where
  "enc_pending ctx = take (data_used ctx) (ctx_data ctx)"

text \<open>What the output memory holds after writing a text: the text and a terminator.\<close>

definition terminated :: "byte list \<Rightarrow> byte list" where
  "terminated t = (if t = [] then [] else t @ [0])"

lemma length_line48: "length b = 48 \<Longrightarrow> length (line b) = 65"
  by (simp add: line_def length_b64)

lemma encode_line_eq:
  assumes "n \<le> length src" and "0 < n"
  shows "encode_line (terminated t) (length t) src n =
    (terminated (t @ line (take n src)), length (t @ line (take n src)), length (b64 (take n src)))"
proof -
  have "take (length t) (terminated t) = t" by (simp add: terminated_def)
  then show ?thesis
    using assms by (simp add: encode_line_def EVP_EncodeBlock_b64 put_at_def terminated_def line_def)
qed

lemma encode_lines_absorb:
  assumes "length inp = in_len" and "length t = tot" and "tot + 65 * (in_len div 48) < 2 ^ 64"
  shows "\<exists>t' r. absorb 48 emit_line t inp = (t', r) \<and> length t' = tot + 65 * (in_len div 48) \<and>
    encode_lines (terminated t) (length t) inp in_len tot = (True, terminated t', r, length r, length t')"
  using assms
proof (induction in_len arbitrary: t inp tot rule: less_induct)
  case (less in_len)
  show ?case
  proof (cases "48 \<le> in_len")
    case True
    let ?t = "t @ line (take 48 inp)"
    have l: "length ?t = tot + 65" using less.prems True by (simp add: length_line48)
    have b: "length (b64 (take 48 inp)) = 64" using less.prems True by (simp add: length_b64)
    have d: "in_len div 48 = Suc ((in_len - 48) div 48)" using True by (simp add: le_div_geq)
    have small: "tot + 65 < 2 ^ 64" and small': "tot + 65 + 65 * ((in_len - 48) div 48) < 2 ^ 64"
      using less.prems(3) unfolding d by simp_all
    have "absorb 48 emit_line t inp = absorb 48 emit_line ?t (drop 48 inp)"
      using less.prems True by (simp add: absorb_step emit_line_def)
    moreover have "encode_line (terminated t) (length t) inp 48 = (terminated ?t, tot + 65, 64)"
      using less.prems True b l by (subst encode_line_eq) simp_all
    then have "encode_lines (terminated t) (length t) inp in_len tot =
        encode_lines (terminated ?t) (length ?t) (drop 48 inp) (in_len - 48) (tot + 65)"
      using True small l by (subst encode_lines.simps) (simp add: add.commute)
    moreover have "length (drop 48 inp) = in_len - 48" "in_len - 48 < in_len" using less.prems True by simp_all
    ultimately show ?thesis using less.IH [of "in_len - 48" "drop 48 inp" ?t "tot + 65"] l small' d
      by (simp add: add.assoc)
  next
    case False
    then show ?thesis using less.prems by (simp add: encode_lines.simps)
  qed
qed

text \<open>The caller appends the \<open>*out_len\<close> characters of each update to its output. Updates stay
  below the size the code can report in an \<open>int\<close>.\<close>

definition encode_piece :: "byte list \<Rightarrow> EVP_ENCODE_CTX \<times> byte list \<Rightarrow> EVP_ENCODE_CTX \<times> byte list" where
  "encode_piece bs s =
     (case s of (ctx, text') \<Rightarrow>
        (case EVP_EncodeUpdate ctx bs (length bs) of (ctx', out, n) \<Rightarrow> (ctx', text' @ take n out)))"

definition enc_fits :: "byte list \<Rightarrow> bool" where
  "enc_fits bs \<longleftrightarrow> 65 * (length bs div 48 + 1) \<le> INT_MAX"

lemma take_terminated [simp]: "take (length t) (terminated t) = t"
  by (simp add: terminated_def)

lemma splice_pending:
  assumes "enc_ok ctx" and "length bs \<le> 48 - data_used ctx"
  shows "take (data_used ctx + length bs) (splice (data_used ctx) bs (ctx_data ctx)) = enc_pending ctx @ bs"
  using assms unfolding enc_ok_def enc_pending_def by (intro take_splice_end) simp

lemma absorb_emit_shift:
  "absorb 48 emit_line (t @ u) bs = (t @ fst (absorb 48 emit_line u bs), snd (absorb 48 emit_line u bs))"
proof (induction "length bs" arbitrary: u bs rule: less_induct)
  case less
  then show ?case
  proof (cases "length bs < 48")
    case False
    then have "absorb 48 emit_line (t @ u) bs = absorb 48 emit_line (t @ (u @ line (take 48 bs))) (drop 48 bs)"
      "absorb 48 emit_line u bs = absorb 48 emit_line (u @ line (take 48 bs)) (drop 48 bs)"
      by (simp_all add: absorb_step [of 48 bs] emit_line_def)
    with less [of "drop 48 bs" "u @ line (take 48 bs)"] False show ?thesis by simp
  qed simp
qed

lemma EVP_EncodeUpdate_spec:
  assumes ok: "enc_ok ctx" and small: "65 * (length bs div 48 + 1) \<le> INT_MAX"
  shows "\<exists>ctx' t. EVP_EncodeUpdate ctx bs (length bs) = (ctx', terminated t, length t) \<and> enc_ok ctx' \<and>
    absorb 48 emit_line [] (enc_pending ctx @ bs) = (t, enc_pending ctx')"
proof (cases "length bs < 48 - data_used ctx")
  case True
  let ?ctx = "ctx\<lparr>ctx_data := splice (data_used ctx) bs (ctx_data ctx), data_used := data_used ctx + length bs\<rparr>"
  have l: "data_used ctx + length bs < 48" using True by simp
  have "enc_ok ?ctx" using ok l by (simp add: enc_ok_def)
  moreover have "enc_pending ?ctx = enc_pending ctx @ bs"
    using splice_pending [OF ok, of bs] True by (simp add: enc_pending_def)
  moreover have "length (enc_pending ctx @ bs) < 48" using ok l by (simp add: enc_pending_def enc_ok_def)
  moreover have "EVP_EncodeUpdate ctx bs (length bs) = (if bs = [] then ctx else ?ctx, [], 0)"
    using True by (simp add: EVP_EncodeUpdate_def)
  ultimately show ?thesis using ok by (auto simp: terminated_def)
next
  case False
  then have nz: "bs \<noteq> []" using ok by (auto simp: enc_ok_def)
  define todo where "todo = (if data_used ctx = 0 then 0 else 48 - data_used ctx)"
  define rest where "rest = drop todo bs"
  define first where "first = enc_pending ctx @ take todo bs"
  define t0 where "t0 = (if data_used ctx = 0 then [] else line first)"
  have todo: "todo \<le> length bs" using False by (simp add: todo_def)
  have lt0: "length t0 = (if data_used ctx = 0 then 0 else 65)"
    using ok False by (auto simp: t0_def first_def todo_def enc_pending_def enc_ok_def intro!: length_line48)
  have a0: "absorb 48 emit_line [] (enc_pending ctx @ bs) = absorb 48 emit_line t0 rest"
  proof (cases "data_used ctx = 0")
    case True
    then show ?thesis by (simp add: t0_def rest_def todo_def enc_pending_def)
  next
    case c: False
    have "enc_pending ctx @ bs = first @ rest" by (simp add: first_def rest_def)
    moreover have "length first = 48" using ok c False by (simp add: first_def todo_def enc_pending_def enc_ok_def)
    ultimately show ?thesis using c by (simp add: absorb_block emit_line_def t0_def)
  qed
  define ctx1 where "ctx1 = (if data_used ctx = 0 then ctx
     else ctx\<lparr>ctx_data := splice (data_used ctx) (take todo bs) (ctx_data ctx), data_used := 0\<rparr>)"
  have l1: "length (ctx_data ctx1) = 48" using ok False by (auto simp: ctx1_def enc_ok_def todo_def)
  have d: "data_used ctx \<noteq> 0 \<Longrightarrow> splice (data_used ctx) (take todo bs) (ctx_data ctx) = first"
    using splice_pending [OF ok, of "take todo bs"] ok False
    by (simp add: first_def todo_def enc_ok_def)
  have start: "(if data_used ctx \<noteq> 0
      then (let data = splice (data_used ctx) (take (48 - data_used ctx) bs) (ctx_data ctx)
            in case encode_line [] 0 data 48 of
                 (out, cur, encoded) \<Rightarrow>
                   (ctx\<lparr>ctx_data := data, data_used := 0\<rparr>, out, cur, encoded + 1,
                    drop (48 - data_used ctx) bs, length bs - (48 - data_used ctx)))
      else (ctx, [], 0, 0, bs, length bs)) = (ctx1, terminated t0, length t0, length t0, rest, length rest)"
  proof (cases "data_used ctx = 0")
    case True
    then show ?thesis by (simp add: ctx1_def t0_def terminated_def rest_def todo_def)
  next
    case c: False
    have lf: "length first = 48" using ok c False by (simp add: first_def todo_def enc_pending_def enc_ok_def)
    have "encode_line [] 0 first 48 = (terminated (line first), length (line first), length (b64 first))"
      using encode_line_eq [of 48 first "[]"] lf by (simp add: terminated_def)
    with c d lf show ?thesis
      by (simp add: ctx1_def t0_def rest_def todo_def line_def)
  qed
  have r: "length rest div 48 \<le> length bs div 48" by (simp add: rest_def div_le_mono)
  have "length t0 + 65 * (length rest div 48) < 2 ^ 64"
    using small r lt0 by (auto simp: INT_MAX_def split: if_splits)
  from encode_lines_absorb [OF refl refl this]
  obtain t' p where a: "absorb 48 emit_line t0 rest = (t', p)"
    and lt': "length t' = length t0 + 65 * (length rest div 48)"
    and e: "encode_lines (terminated t0) (length t0) rest (length rest) (length t0) =
      (True, terminated t', p, length p, length t')" by auto
  have p: "length p < 48" using absorb_rest_short [of 48 emit_line t0 rest] a by simp
  define ctx2 where "ctx2 = ctx1\<lparr>ctx_data := (if p \<noteq> [] then splice 0 p (ctx_data ctx1) else ctx_data ctx1), data_used := length p\<rparr>"
  have "length t' \<le> INT_MAX" using small r lt0 lt' by (auto split: if_splits)
  then have "EVP_EncodeUpdate ctx bs (length bs) = (ctx2, terminated t', length t')"
    using False nz start e by (simp add: EVP_EncodeUpdate_def ctx2_def Let_def)
  moreover have "enc_ok ctx2" using l1 p by (simp add: enc_ok_def ctx2_def)
  moreover have "enc_pending ctx2 = p" using l1 p by (simp add: enc_pending_def ctx2_def splice_def)
  ultimately show ?thesis using a a0 by auto
qed

lemma encode_piece_absorbs:
  assumes "enc_ok (fst s)" and "enc_fits bs"
  shows "enc_ok (fst (encode_piece bs s)) \<and>
    (snd (encode_piece bs s), enc_pending (fst (encode_piece bs s))) =
      absorb 48 emit_line (snd s) (enc_pending (fst s) @ bs)"
proof -
  from EVP_EncodeUpdate_spec [OF assms(1) assms(2) [unfolded enc_fits_def]]
  obtain ctx' t where "EVP_EncodeUpdate (fst s) bs (length bs) = (ctx', terminated t, length t)" "enc_ok ctx'"
    "absorb 48 emit_line [] (enc_pending (fst s) @ bs) = (t, enc_pending ctx')" by auto
  then show ?thesis
    using absorb_emit_shift [of "snd s" "[]" "enc_pending (fst s) @ bs"]
    by (simp add: encode_piece_def split_beta)
qed

interpretation encoder: block_stream 48 emit_line snd "\<lambda>s. enc_pending (fst s)" "\<lambda>s. enc_ok (fst s)"
    enc_fits encode_piece
  by unfold_locales (simp_all add: encode_piece_absorbs)

definition encode_stream :: "byte list list \<Rightarrow> byte list" where
  "encode_stream pieces =
     (case fold encode_piece pieces (EVP_EncodeInit, []) of
        (ctx, text') \<Rightarrow> (case EVP_EncodeFinal ctx of (ctx', out, n) \<Rightarrow> text' @ take n out))"

text \<open>The reference: lines of 48 bytes, the last one shorter.\<close>

definition b64_lines :: "byte list \<Rightarrow> byte list" where
  "b64_lines bs = (case absorb 48 emit_line [] bs of (t, r) \<Rightarrow> t @ (if r = [] then [] else line r))"

lemma encode_stream_lines:
  assumes "list_all enc_fits pieces"
  shows "encode_stream pieces = b64_lines (concat pieces)"
proof -
  let ?s = "(EVP_EncodeInit, [])"
  obtain ctx t where f: "fold encode_piece pieces ?s = (ctx, t)" by (cases "fold encode_piece pieces ?s")
  have ok: "enc_ok (fst ?s)" "enc_pending (fst ?s) = []"
    by (simp_all add: EVP_EncodeInit_def enc_ok_def enc_pending_def)
  have "enc_ok (fst ?s)" "length (enc_pending (fst ?s)) < 48" using ok by simp_all
  from encoder.updates_absorb [OF this(1) assms this(2)]
  have a: "enc_ok ctx" "absorb 48 emit_line [] (concat pieces) = (t, enc_pending ctx)"
    using f ok by simp_all
  have "EVP_EncodeFinal ctx = (if data_used ctx = 0 then (ctx, [], 0)
      else (ctx\<lparr>data_used := 0\<rparr>, terminated (line (enc_pending ctx)), length (line (enc_pending ctx))))"
    using encode_line_eq [of "data_used ctx" "ctx_data ctx" "[]"] a(1)
    by (simp add: EVP_EncodeFinal_def terminated_def enc_ok_def enc_pending_def line_def)
  moreover have "enc_pending ctx = [] \<longleftrightarrow> data_used ctx = 0"
    using a(1) by (auto simp: enc_pending_def enc_ok_def)
  ultimately show ?thesis
    using a(2) f by (simp add: encode_stream_def b64_lines_def)
qed

section \<open>Streaming decoder\<close>

lemma decode_loop_append:
  "decode_loop (cs @ ds) out ctx =
     (case decode_loop cs out ctx of (ok, out', ctx') \<Rightarrow>
        if ok then decode_loop ds out' ctx' else (False, out', ctx'))"
  by (induction cs out ctx rule: decode_loop.induct) (auto simp: Let_def split: option.splits)

lemma decode_loop_out:
  "decode_loop cs (t @ out) ctx = (case decode_loop cs out ctx of (ok, out', ctx') \<Rightarrow> (ok, t @ out', ctx'))"
proof (induction cs out ctx rule: decode_loop.induct)
  case (2 c cs out ctx)
  then show ?case by (simp add: Let_def split: option.splits)
qed simp

lemma decode_loop_filter: "decode_loop cs out ctx = decode_loop (filter (\<lambda>c. \<not> is_blank c) cs) out ctx"
  by (induction cs out ctx rule: decode_loop.induct) (auto simp: Let_def split: option.splits)

lemma decode_loop_bound:
  assumes "decode_loop cs out ctx = (ok, out', ctx')" and "data_used ctx < 4"
  shows "length out' \<le> length out + length cs + data_used ctx \<and> (ok \<longrightarrow> data_used ctx' < 4 \<and>
    length out' + data_used ctx' \<le> length out + length cs + data_used ctx \<and>
    error_encountered ctx' = error_encountered ctx)"
  using assms
proof (induction cs out ctx rule: decode_loop.induct)
  case (2 c cs out ctx)
  have q: "length bs \<le> 3" if "base64_decode_quad inp = Some bs" for inp bs
    using that unfolding base64_decode_quad_def Let_def by (auto split: if_splits)
  show ?case
    using 2 by (fastforce simp: Let_def dest: q split: if_splits option.splits)
qed simp

lemma nonblank_char: "b64_value c = Some a \<Longrightarrow> \<not> is_blank c"
  by (auto simp: b64_value_def is_blank_def Let_def)

lemma nonblank_pad [simp]: "\<not> is_blank 61"
  by (simp add: is_blank_def)

lemma decode_loop_quad:
  assumes "data_used ctx = 0" "\<not> eof_seen ctx" "4 \<le> length (ctx_data ctx)"
    and "\<not> is_blank c0" "\<not> is_blank c1" "\<not> is_blank c2" "\<not> is_blank c3"
    and "\<And>ds. base64_decode_quad (c0 # c1 # c2 # c3 # ds) = Some bs"
  shows "\<exists>ctx'. decode_loop (c0 # c1 # c2 # c3 # cs) out ctx = decode_loop cs (out @ bs) ctx' \<and>
    data_used ctx' = 0 \<and> (length bs = 3 \<longrightarrow> \<not> eof_seen ctx') \<and>
    length (ctx_data ctx') = length (ctx_data ctx) \<and> error_encountered ctx' = error_encountered ctx"
proof -
  obtain d0 d1 d2 d3 ds where d: "ctx_data ctx = d0 # d1 # d2 # d3 # ds"
    using assms(3) by (auto simp: numeral_eq_Suc Suc_le_length_iff)
  let ?ctx = "ctx\<lparr>ctx_data := c0 # c1 # c2 # c3 # ds, data_used := 0, eof_seen := length bs < 3\<rparr>"
  have "decode_loop (c0 # c1 # c2 # c3 # cs) out ctx = decode_loop cs (out @ bs) ?ctx"
    using assms(1,2,4-8) d by (simp add: Let_def numeral_2_eq_2 numeral_3_eq_3)
  then show ?thesis using d by (intro exI [of _ ?ctx]) simp
qed

lemma decode_loop_text:
  assumes "b64_text cs bs" and "data_used ctx = 0" "\<not> eof_seen ctx" "4 \<le> length (ctx_data ctx)"
  shows "\<exists>ctx'. decode_loop cs out ctx = (True, out @ bs, ctx') \<and> data_used ctx' = 0 \<and>
    error_encountered ctx' = error_encountered ctx"
  using assms
proof (induction arbitrary: out ctx rule: b64_text.induct)
  case (quad c0 a c1 b c2 c c3 d n cs bs)
  note nb = quad.hyps(1-4) [THEN nonblank_char]
  obtain ctx' where 1: "decode_loop (c0 # c1 # c2 # c3 # cs) out ctx =
      decode_loop cs (out @ [byte3 16 n, byte3 8 n, byte3 0 n]) ctx'"
    and c: "data_used ctx' = 0" "\<not> eof_seen ctx'" "length (ctx_data ctx') = length (ctx_data ctx)"
      "error_encountered ctx' = error_encountered ctx"
    using decode_loop_quad [OF quad.prems nb, of "[byte3 16 n, byte3 8 n, byte3 0 n]" cs out]
      decode_quad_full [OF quad.hyps(1-4)] quad.hyps(5) by auto
  from quad.IH [OF c(1,2), of "out @ [byte3 16 n, byte3 8 n, byte3 0 n]"] c quad.prems(3)
  show ?case unfolding 1 by simp
next
  case (pad1 c0 a c1 b c2 c n)
  note nb = pad1.hyps(1-3) [THEN nonblank_char]
  obtain ctx' where "decode_loop [c0, c1, c2, 61] out ctx = decode_loop [] (out @ [byte3 16 n, byte3 8 n]) ctx'"
    "data_used ctx' = 0" "error_encountered ctx' = error_encountered ctx"
    using decode_loop_quad [OF pad1.prems nb nonblank_pad, of "[byte3 16 n, byte3 8 n]" "[]" out]
      decode_quad_pad1 [OF pad1.hyps(1-3)] pad1.hyps(4) by blast
  then show ?case by (simp only: decode_loop.simps(1)) blast
next
  case (pad2 c0 a c1 b n)
  note nb = pad2.hyps(1,2) [THEN nonblank_char]
  obtain ctx' where "decode_loop [c0, c1, 61, 61] out ctx = decode_loop [] (out @ [byte3 16 n]) ctx'"
    "data_used ctx' = 0" "error_encountered ctx' = error_encountered ctx"
    using decode_loop_quad [OF pad2.prems nb nonblank_pad nonblank_pad, of "[byte3 16 n]" "[]" out]
      decode_quad_pad2 [OF pad2.hyps(1,2)] pad2.hyps(3) by blast
  then show ?case by (simp only: decode_loop.simps(1)) blast
qed simp

text \<open>A caller that feeds pieces to the decoder and finishes it.\<close>

fun decode_pieces :: "byte list list \<Rightarrow> EVP_ENCODE_CTX \<Rightarrow> byte list \<Rightarrow> (EVP_ENCODE_CTX \<times> byte list) option" where
  "decode_pieces [] ctx out = Some (ctx, out)"
| "decode_pieces (p # ps) ctx out =
     (case EVP_DecodeUpdate ctx p (length p) of
        (r, ctx', o', n) \<Rightarrow> if r = -1 then None else decode_pieces ps ctx' (out @ take n o'))"

definition decode_stream :: "byte list list \<Rightarrow> byte list option" where
  "decode_stream pieces =
     (case decode_pieces pieces EVP_DecodeInit [] of
        None \<Rightarrow> None
      | Some (ctx, out) \<Rightarrow> if fst (EVP_DecodeFinal ctx) = -1 then None else Some out)"

definition dec_fits :: "byte list \<Rightarrow> bool" where
  "dec_fits p \<longleftrightarrow> length p + 3 \<le> INT_MAX"

lemma decode_pieces_loop:
  assumes "list_all dec_fits ps" and "\<not> error_encountered ctx" and "data_used ctx < 4"
    and "decode_loop (concat ps) out ctx = (True, out', ctx')"
  shows "decode_pieces ps ctx out = Some (ctx', out')"
  using assms
proof (induction ps arbitrary: ctx out)
  case (Cons p ps)
  obtain ok o1 c1 where l: "decode_loop p [] ctx = (ok, o1, c1)" by (cases "decode_loop p [] ctx")
  have "decode_loop p (out @ []) ctx = (ok, out @ o1, c1)" unfolding decode_loop_out l by simp
  then have d: "decode_loop p out ctx = (ok, out @ o1, c1)" by simp
  with Cons.prems(4) have ok: ok and r: "decode_loop (concat ps) (out @ o1) c1 = (True, out', ctx')"
    by (auto simp: decode_loop_append split: if_splits)
  from decode_loop_bound [OF l Cons.prems(3)] ok Cons.prems(1-3)
  have b: "length o1 \<le> INT_MAX" "data_used c1 < 4" "\<not> error_encountered c1" by (auto simp: dec_fits_def)
  with l ok Cons.prems(2) have "EVP_DecodeUpdate ctx p (length p) = (if eof_seen c1 then 0 else 1, c1, o1, length o1)"
    by (simp add: EVP_DecodeUpdate_def)
  then show ?case using Cons.IH [OF _ b(3,2) r] Cons.prems(1) by simp
qed simp

lemma decode_stream_text:
  assumes "list_all dec_fits pieces" and "b64_text (filter (\<lambda>c. \<not> is_blank c) (concat pieces)) bs"
  shows "decode_stream pieces = Some bs"
proof -
  have i: "data_used EVP_DecodeInit = 0" "\<not> eof_seen EVP_DecodeInit" "4 \<le> length (ctx_data EVP_DecodeInit)"
    "\<not> error_encountered EVP_DecodeInit"
    by (simp_all add: EVP_DecodeInit_def)
  obtain ctx' where d: "decode_loop (concat pieces) [] EVP_DecodeInit = (True, bs, ctx')"
    "data_used ctx' = 0" "\<not> error_encountered ctx'"
    using decode_loop_text [OF assms(2) i(1-3), of "[]"] i(4)
    unfolding decode_loop_filter [of "concat pieces", symmetric] by auto
  have "data_used EVP_DecodeInit < 4" using i by simp
  from decode_pieces_loop [OF assms(1) i(4) this d(1)] d show ?thesis
    by (simp add: decode_stream_def EVP_DecodeFinal_def)
qed

text \<open>Without its newlines the encoder's output is the text of the whole input.\<close>

lemma b64_char_nonblank: "i < 64 \<Longrightarrow> \<not> is_blank (b64_char i)"
  by (rule nonblank_char) (rule b64_value_char)

lemma filter_b64: "filter (\<lambda>c. \<not> is_blank c) (b64 bs) = b64 bs"
  by (induction bs rule: b64.induct) (simp_all add: sextet_def b64_char_nonblank)

lemma b64_append: "length xs mod 3 = 0 \<Longrightarrow> b64 (xs @ ys) = b64 xs @ b64 ys"
proof (induction xs rule: b64.induct)
  case (1 x y z bs)
  have "length bs mod 3 = 0" using 1(2) mod_add_self2 [of "length bs" 3] by simp
  with 1(1) show ?case by simp
qed simp_all

lemma filter_line: "filter (\<lambda>c. \<not> is_blank c) (line b) = b64 b"
  by (simp add: line_def filter_b64) (simp add: is_blank_def)

lemma filter_absorb:
  assumes "absorb 48 emit_line t bs = (t', r)"
  shows "filter (\<lambda>c. \<not> is_blank c) t' @ b64 r = filter (\<lambda>c. \<not> is_blank c) t @ b64 bs"
  using assms
proof (induction "length bs" arbitrary: t bs rule: less_induct)
  case less
  show ?case
  proof (cases "length bs < 48")
    case False
    then have "absorb 48 emit_line (t @ line (take 48 bs)) (drop 48 bs) = (t', r)"
      using less.prems by (simp add: absorb_step [of 48 bs] emit_line_def)
    from less.hyps [OF _ this] False
    have "filter (\<lambda>c. \<not> is_blank c) t' @ b64 r = filter (\<lambda>c. \<not> is_blank c) t @ b64 (take 48 bs) @ b64 (drop 48 bs)"
      by (simp add: filter_line)
    also have "b64 (take 48 bs) @ b64 (drop 48 bs) = b64 bs"
      using False b64_append [of "take 48 bs" "drop 48 bs"] by simp
    finally show ?thesis .
  qed (use less.prems in simp)
qed

lemma filter_b64_lines: "filter (\<lambda>c. \<not> is_blank c) (b64_lines bs) = b64 bs"
  using filter_absorb [of "[]" bs] by (auto simp: b64_lines_def filter_line split: prod.split)

section \<open>Properties\<close>

lemma encoded_length:
  assumes "4 * ((len + 2) div 3) + 1 < 2 ^ 64" and "len + 2 < 2 ^ 64"
  shows "EVP_EncodedLength len = Some (4 * ((len + 2) div 3) + 1)"
  using assms by (simp add: EVP_EncodedLength_def Let_def mult.commute)

text \<open>C32: \<open>EVP_DecodeBase64\<close> with enough room accepts exactly the base64 texts: quads of alphabet
  characters of which only the last may be padded, by one or two padding characters.\<close>

theorem base64_decode_exact:
  assumes "length inp div 4 * 3 \<le> max_out"
  shows "EVP_DecodeBase64 max_out inp (length inp) = (True, bs, n) \<longleftrightarrow> b64_text inp bs \<and> n = length bs"
  using decode_base64_eq [OF assms] .

theorem base64_decode_exact_witness:
  "EVP_DecodeBase64 3 [84, 87, 69, 61] 4 = (True, [77, 97], 2)"
proof -
  have v: "b64_value 84 = Some 19" "b64_value 87 = Some 22" "b64_value 69 = Some 4"
    by (simp_all add: b64_value_def)
  have "b64_text [84, 87, 69, 61] [byte3 16 (val4 19 22 4 0), byte3 8 (val4 19 22 4 0)]"
    by (rule b64_text.pad1 [OF v refl])
  moreover have "byte3 16 (val4 19 22 4 0) = 77" "byte3 8 (val4 19 22 4 0) = 97"
    by (simp_all add: byte3_def val4_def)
  ultimately have "b64_text [84, 87, 69, 61] [77, 97]" by simp
  moreover have l: "length [84, 87, 69, 61 :: byte] = 4" by simp
  ultimately show ?thesis using base64_decode_exact [of "[84, 87, 69, 61]" 3 "[77, 97]" 2, unfolded l] by simp
qed

text \<open>C33: \<open>EVP_EncodeBlock\<close> fills exactly the room \<open>EVP_EncodedLength\<close> computes, terminator
  included, and decoding the characters gives the input back.\<close>

theorem base64_roundtrip:
  assumes "4 * ((length bs + 2) div 3) + 1 < 2 ^ 64" and "length bs + 2 < 2 ^ 64"
  shows "\<exists>out k. EVP_EncodeBlock bs (length bs) = (out @ [0], k) \<and>
    EVP_EncodedLength (length bs) = Some (length (out @ [0])) \<and> k = length out \<and>
    EVP_DecodeBase64 (k div 4 * 3) out k = (True, bs, length bs)"
  using encoded_length [OF assms] decode_base64_eq [of "b64 bs" _ bs "length bs"] b64_text_b64 [of bs]
  by (intro exI [of _ "b64 bs"]) (simp add: EVP_EncodeBlock_b64 length_b64)

theorem base64_roundtrip_witness:
  "\<exists>out k. EVP_EncodeBlock [1, 2, 3, 4] 4 = (out @ [0], k) \<and> EVP_EncodedLength 4 = Some 9 \<and>
    EVP_DecodeBase64 (k div 4 * 3) out k = (True, [1, 2, 3, 4], 4)"
proof -
  have l: "length [1, 2, 3, 4 :: byte] = 4" by simp
  have "EVP_EncodedLength 4 = Some 9" using encoded_length [of 4] by simp
  with base64_roundtrip [of "[1, 2, 3, 4]", unfolded l] show ?thesis by auto
qed

text \<open>C13: The streaming encoder writes lines of 48 encoded bytes however the input is cut into
  updates, and the streaming decoder returns the input however that output is cut into updates.\<close>

theorem base64_stream:
  assumes "list_all enc_fits pieces" and "list_all dec_fits pieces'"
    and "concat pieces' = encode_stream pieces"
  shows "encode_stream pieces = b64_lines (concat pieces) \<and> decode_stream pieces' = Some (concat pieces)"
  using encode_stream_lines [OF assms(1)] decode_stream_text [OF assms(2), of "concat pieces"] assms(3)
    b64_text_b64 [of "concat pieces"]
  by (simp add: filter_b64_lines)

theorem base64_stream_witness:
  "encode_stream [[77], [97, 110, 77]] = [84, 87, 70, 117, 84, 81, 61, 61, 10] \<and>
   decode_stream [[84, 87, 70, 117, 84], [81, 61, 61, 10]] = Some [77, 97, 110, 77]"
proof -
  have f: "list_all enc_fits [[77], [97, 110, 77]]" "list_all dec_fits [[84, 87, 70, 117, 84], [81, 61, 61, 10]]"
    by (simp_all add: enc_fits_def dec_fits_def INT_MAX_def)
  have "b64_lines [77, 97, 110, 77] = [84, 87, 70, 117, 84, 81, 61, 61, 10]"
    by (simp add: b64_lines_def line_def sextet_def val3_def b64_char_def)
  with base64_stream [OF f] encode_stream_lines [OF f(1)] show ?thesis by simp
qed

end
