(* ===== verification/Standards.thy ===== *)
theory Standards
  imports Prelude Complex_Main
begin

text \<open>
  What the published hash standards share, stated from the standards alone: byte strings as numbers
  of either byte order, the padding of a message, rotations, and the constants as the standards
  define them, the bits of roots of primes (FIPS 180-4) and of sines (RFC 1321). The lemmas
  reduce each constant to an inequality of integers, so that a table of the code can be compared
  with its definition.
\<close>

unbundle bit_operations_syntax

section \<open>Bytes and words\<close>

definition std_number :: "bool \<Rightarrow> byte list \<Rightarrow> nat" where
  "std_number big bs = foldl (\<lambda>n b. 256 * n + unat b) 0 (if big then bs else rev bs)"

definition std_digits :: "bool \<Rightarrow> nat \<Rightarrow> nat \<Rightarrow> byte list" where
  "std_digits big k n = (if big then rev else (\<lambda>ds. ds)) (map (\<lambda>i. of_nat (n div 256 ^ i)) [0 ..< k])"

text \<open>A block as sixteen words of \<open>k\<close> bytes, and words as bytes.\<close>

definition std_words :: "bool \<Rightarrow> nat \<Rightarrow> byte list \<Rightarrow> 'a::len word list" where
  "std_words big k block = map (\<lambda>i. of_nat (std_number big (take k (drop (k * i) block)))) [0 ..< 16]"

definition std_bytes :: "bool \<Rightarrow> nat \<Rightarrow> 'a::len word list \<Rightarrow> byte list" where
  "std_bytes big k ws = concat (map (\<lambda>w. std_digits big k (unat w)) ws)"

text \<open>A one bit, zeroes, and the length in bits in \<open>k\<close> bytes at the end of a block of \<open>n\<close> bytes.\<close>

definition std_padded :: "bool \<Rightarrow> nat \<Rightarrow> nat \<Rightarrow> byte list \<Rightarrow> byte list" where
  "std_padded big n k msg =
     msg @ 0x80 # replicate ((2 * n - 1 - k - length msg mod n) mod n) 0 @ std_digits big k (8 * length msg)"

section \<open>Bits of roots of primes\<close>

definition first_primes :: "nat list" where
  "first_primes = [2, 3, 5, 7, 11, 13, 17, 19, 23, 29, 31, 37, 41, 43, 47, 53, 59, 61, 67, 71, 73, 79, 83, 89, 97, 101, 103, 107, 109,
     113, 127, 131, 137, 139, 149, 151, 157, 163, 167, 173, 179, 181, 191, 193, 197, 199, 211, 223, 227, 229, 233, 239, 241, 251, 257,
     263, 269, 271, 277, 281, 283, 293, 307, 311, 313, 317, 331, 337, 347, 349, 353, 359, 367, 373, 379, 383, 389, 397, 401, 409]"

text \<open>The first \<open>w\<close> bits of the fractional part of the \<open>k\<close>th root of \<open>p\<close>.\<close>

definition root_fraction :: "nat \<Rightarrow> nat \<Rightarrow> nat \<Rightarrow> nat" where
  "root_fraction k w p = nat \<lfloor>root k (real p) * 2 ^ w\<rfloor> mod 2 ^ w"

lemma root_floor:
  assumes k: "0 < k" and lo: "n ^ k \<le> p * (2 ^ w) ^ k" and hi: "p * (2 ^ w) ^ k < (n + 1) ^ k"
  shows "nat \<lfloor>root k (real p) * 2 ^ w\<rfloor> = n"
proof -
  have r: "root k (real (m ^ k)) = real m" for m using k by (simp add: real_root_power_cancel)
  have e: "root k (real (p * (2 ^ w) ^ k)) = root k (real p) * 2 ^ w"
    using r [of "2 ^ w"] by (simp add: real_root_mult)
  have "root k (real (n ^ k)) \<le> root k (real (p * (2 ^ w) ^ k))" using k lo by (simp only: real_root_le_iff of_nat_le_iff)
  moreover have "root k (real (p * (2 ^ w) ^ k)) < root k (real ((n + 1) ^ k))" using k hi by (simp only: real_root_less_iff of_nat_less_iff)
  ultimately have "real n \<le> root k (real p) * 2 ^ w" "root k (real p) * 2 ^ w < real n + 1" unfolding r e by simp_all
  then have "\<lfloor>root k (real p) * 2 ^ w\<rfloor> = int n" by (intro floor_unique) simp_all
  then show ?thesis by simp
qed

lemma root_fraction_eq:
  assumes "0 < k" "f < 2 ^ w" "(c * 2 ^ w + f) ^ k \<le> p * (2 ^ w) ^ k" "p * (2 ^ w) ^ k < (c * 2 ^ w + f + 1) ^ k"
  shows "root_fraction k w p = f"
  unfolding root_fraction_def root_floor [OF assms(1,3,4)] using assms(2) by simp

text \<open>The test that \<open>fs\<close> are these bits, given the integer parts \<open>cs\<close> of the roots.\<close>

fun are_fractions :: "nat \<Rightarrow> nat \<Rightarrow> nat list \<Rightarrow> nat list \<Rightarrow> nat list \<Rightarrow> bool" where
  "are_fractions k w (p # ps) (c # cs) (f # fs) \<longleftrightarrow>
     f < 2 ^ w \<and> (c * 2 ^ w + f) ^ k \<le> p * (2 ^ w) ^ k \<and> p * (2 ^ w) ^ k < (c * 2 ^ w + f + 1) ^ k \<and> are_fractions k w ps cs fs"
| "are_fractions k w [] [] [] \<longleftrightarrow> True"
| "are_fractions k w _ _ _ \<longleftrightarrow> False"

lemma root_fractions: "0 < k \<Longrightarrow> are_fractions k w ps cs fs \<Longrightarrow> map (root_fraction k w) ps = fs"
  by (induction k w ps cs fs rule: are_fractions.induct) (auto intro: root_fraction_eq)

text \<open>A table of words whose numbers pass the test is a table of such bits.\<close>

lemma root_table:
  fixes ws :: "'a::len word list"
  assumes "0 < k" "are_fractions k w ps cs (map unat ws)"
  shows "ws = map (\<lambda>p. of_nat (root_fraction k w p)) ps"
proof -
  have "map of_nat (map (root_fraction k w) ps) = (map of_nat (map unat ws) :: 'a word list)"
    by (rule arg_cong [OF root_fractions [OF assms]])
  then show ?thesis by (simp add: comp_def)
qed

section \<open>Rotations\<close>

lemma rotl_bits:
  assumes n: "n < LENGTH('a)"
  shows "push_bit n x OR drop_bit (LENGTH('a) - n) (x :: 'a::len word) = word_rotl n x"
proof (rule bit_word_eqI)
  fix m assume m: "m < LENGTH('a)"
  have "(m + (LENGTH('a) - n)) mod LENGTH('a) = (if m < n then m + (LENGTH('a) - n) else m - n)"
    using n m by (simp add: mod_if)
  then show "bit (push_bit n x OR drop_bit (LENGTH('a) - n) x) m = bit (word_rotl n x) m"
    using n m by (auto simp: bit_simps add.commute dest: bit_imp_le_length)
qed

lemma rotr_bits:
  assumes n: "n < LENGTH('a)"
  shows "drop_bit n x OR push_bit (LENGTH('a) - n) (x :: 'a::len word) = word_rotr n x"
proof (rule bit_word_eqI)
  fix m assume m: "m < LENGTH('a)"
  have "(m + n) mod LENGTH('a) = (if m + n < LENGTH('a) then m + n else m - (LENGTH('a) - n))"
    using n m by (auto simp: mod_if)
  then show "bit (drop_bit n x OR push_bit (LENGTH('a) - n) x) m = bit (word_rotr n x) m"
    using n m by (auto simp: bit_simps add.commute dest: bit_imp_le_length)
qed

section \<open>Bits of sines\<close>

text \<open>The table of RFC 1321: the integer part of \<open>2 ^ 32\<close> times the absolute value of the sine of
  \<open>i\<close> radians.\<close>

definition sine_bits :: "nat \<Rightarrow> nat" where
  "sine_bits i = nat \<lfloor>2 ^ 32 * \<bar>sin (real i)\<bar>\<rfloor>"

text \<open>Sines in units of \<open>2 ^ -112\<close>: Taylor polynomials at one radian, and from there the recurrence
  \<open>sin (i + 1) = 2 cos 1 sin i - sin (i - 1)\<close>. A state is the sines of \<open>i + 1\<close> and of \<open>i\<close>.\<close>

definition sin_1 :: int where
  "sin_1 = 0xd76aa47848677020c6e9e909c50f"

definition cos_1 :: int where
  "cos_1 = 0x8a51407da8345c91c2466d976871"

fun next_angle :: "int \<times> int \<Rightarrow> int \<times> int" where
  "next_angle (s, r) = (drop_bit 111 (s * cos_1) - r, s)"

lemma halves_close:
  fixes x y z :: real
  assumes "\<bar>y - z\<bar> \<le> 1 / 2 ^ 111" "\<bar>x - y\<bar> \<le> 1 / 2 ^ 111" shows "\<bar>x - z\<bar> \<le> 1 / 2 ^ 110"
proof -
  have "\<bar>x - z\<bar> \<le> 1 / 2 ^ 111 + 1 / 2 ^ 111" using assms by linarith
  then show ?thesis by simp
qed

lemma sin_1_close: "\<bar>sin 1 - real_of_int sin_1 / 2 ^ 112\<bar> \<le> 1 / 2 ^ 110"
proof -
  have "\<bar>(\<Sum>m<32. sin_coeff m * (1 :: real) ^ m) - real_of_int sin_1 / 2 ^ 112\<bar> \<le> 1 / 2 ^ 111"
    by (simp add: sin_coeff_def sin_1_def lessThan_nat_numeral lessThan_Suc fact_numeral)
  moreover have "\<bar>sin 1 - (\<Sum>m<32. sin_coeff m * 1 ^ m)\<bar> \<le> 1 / (2 :: real) ^ 111"
    using Maclaurin_sin_bound [of 1 32] by (rule order_trans) (simp add: fact_numeral)
  ultimately show ?thesis by (rule halves_close)
qed

lemma cos_1_close: "\<bar>cos 1 - real_of_int cos_1 / 2 ^ 112\<bar> \<le> 1 / 2 ^ 110"
proof -
  have "\<bar>(\<Sum>m<32. cos_coeff m * (1 :: real) ^ m) - real_of_int cos_1 / 2 ^ 112\<bar> \<le> 1 / 2 ^ 111"
    by (simp add: cos_coeff_def cos_1_def lessThan_nat_numeral lessThan_Suc fact_numeral)
  moreover have "\<bar>cos 1 - (\<Sum>m<32. cos_coeff m * 1 ^ m)\<bar> \<le> 1 / (2 :: real) ^ 111"
  proof -
    obtain t where t: "cos 1 = (\<Sum>m<32. cos_coeff m * 1 ^ m) + cos (t + 1 / 2 * real 32 * pi) / fact 32 * 1 ^ 32"
      using Maclaurin_cos_expansion [of 1 32] by blast
    have "\<bar>cos (t + 1 / 2 * real 32 * pi) / fact 32\<bar> \<le> 1 / fact 32"
      using abs_cos_le_one [of "t + 1 / 2 * real 32 * pi"] by (simp add: abs_divide divide_right_mono)
    also have "\<dots> \<le> 1 / (2 :: real) ^ 111" by (simp add: fact_numeral)
    finally show ?thesis using t by simp
  qed
  ultimately show ?thesis by (rule halves_close)
qed

text \<open>The error less than doubles with each step.\<close>

definition angle_close :: "nat \<Rightarrow> int \<times> int \<Rightarrow> bool" where
  "angle_close i p \<longleftrightarrow>
     \<bar>sin (real (i + 1)) - real_of_int (fst p) / 2 ^ 112\<bar> \<le> 2 ^ (i + 1) / 2 ^ 107 \<and> \<bar>sin (real i) - real_of_int (snd p) / 2 ^ 112\<bar> \<le> 2 ^ i / 2 ^ 107"

lemma scaled_drop: "\<bar>2 * (real_of_int x / 2 ^ 112 / 2 ^ 112) - real_of_int (drop_bit 111 x) / 2 ^ 112\<bar> \<le> 1 / 2 ^ 112"
proof -
  have "real_of_int (x div 2 ^ 111) = of_int \<lfloor>real_of_int x / 2 ^ 111\<rfloor>"
    using floor_divide_of_int_eq [of x "2 ^ 111", where 'a = real] by simp
  moreover have "2 * (real_of_int x / 2 ^ 112 / 2 ^ 112) = real_of_int x / 2 ^ 111 / 2 ^ 112" by simp
  ultimately show ?thesis by (simp add: drop_bit_eq_div diff_divide_distrib [symmetric] abs_le_iff divide_right_mono)
qed

lemma angle_close_0: "angle_close 0 (sin_1, 0)"
  using sin_1_close by (simp add: angle_close_def)

lemma next_angle_close:
  assumes "angle_close i p" shows "angle_close (Suc i) (next_angle p)"
proof -
  let ?r = "\<lambda>x. real_of_int x / 2 ^ 112"
  obtain s r where p: "p = (s, r)" by (cases p)
  define e where "e = (2 :: real) ^ i / 2 ^ 107"
  have e: "\<bar>sin (real (i + 1)) - ?r s\<bar> \<le> 2 * e" "\<bar>sin (real i) - ?r r\<bar> \<le> e" "1 / 2 ^ 107 \<le> e"
    using assms by (simp_all add: angle_close_def p e_def divide_right_mono)
  have "cos 1 * sin (real (i + 1)) - ?r cos_1 * ?r s = (cos 1 - ?r cos_1) * sin (real (i + 1)) + ?r cos_1 * (sin (real (i + 1)) - ?r s)"
    by (simp add: algebra_simps)
  then have "\<bar>cos 1 * sin (real (i + 1)) - ?r cos_1 * ?r s\<bar> \<le> \<bar>cos 1 - ?r cos_1\<bar> * \<bar>sin (real (i + 1))\<bar> + \<bar>?r cos_1\<bar> * \<bar>sin (real (i + 1)) - ?r s\<bar>"
    by (simp only: abs_mult [symmetric] abs_triangle_ineq)
  also have "\<dots> \<le> 1 / 2 ^ 110 * 1 + 55 / 100 * (2 * e)"
    by (intro add_mono mult_mono cos_1_close e(1) abs_sin_le_one) (simp_all add: cos_1_def)
  finally have d: "\<bar>cos 1 * sin (real (i + 1)) - ?r cos_1 * ?r s\<bar> \<le> 1 / 2 ^ 110 + 11 / 10 * e" by simp
  have f: "\<bar>2 * (?r cos_1 * ?r s) - ?r (drop_bit 111 (s * cos_1))\<bar> \<le> 1 / 2 ^ 112"
    using scaled_drop [of "s * cos_1"] by (simp add: mult.commute)
  have a: "sin (real (Suc i + 1)) = 2 * (cos 1 * sin (real (i + 1))) - sin (real i)"
  proof -
    have n: "real (Suc i + 1) = real (i + 1) + 1" "real i = real (i + 1) - 1" by simp_all
    show ?thesis unfolding n(1) unfolding n(2) sin_add sin_diff by simp
  qed
  have "(2 :: real) * (1 / 2 ^ 110) + 1 / 2 ^ 112 \<le> 1 / 2 * (1 / 2 ^ 107)" by simp
  then have "2 * (1 / 2 ^ 110) + 1 / 2 ^ 112 \<le> 1 / 2 * e" using e(3) by linarith
  then have "\<bar>sin (real (Suc i + 1)) - (?r (drop_bit 111 (s * cos_1)) - ?r r)\<bar> \<le> 4 * e"
    using d e(2) f unfolding a by linarith
  then show ?thesis using e(1) by (simp add: angle_close_def p e_def diff_divide_distrib)
qed

text \<open>The test of a table of sines from the angle \<open>i + 1\<close> on.\<close>

fun are_sines :: "int \<times> int \<Rightarrow> nat list \<Rightarrow> bool" where
  "are_sines (s, r) [] \<longleftrightarrow> True"
| "are_sines (s, r) (f # fs) \<longleftrightarrow>
     int f * 2 ^ 80 + 2 ^ 69 \<le> \<bar>s\<bar> \<and> \<bar>s\<bar> + 2 ^ 69 < (int f + 1) * 2 ^ 80 \<and> are_sines (next_angle (s, r)) fs"

lemma sine_bits_eq:
  assumes c: "angle_close i p" "i < 64" and lo: "int f * 2 ^ 80 + 2 ^ 69 \<le> \<bar>fst p\<bar>" and hi: "\<bar>fst p\<bar> + 2 ^ 69 < (int f + 1) * 2 ^ 80"
  shows "sine_bits (i + 1) = f"
proof -
  have "(2 :: real) ^ (i + 1) \<le> 2 ^ 64" using c(2) by (intro power_increasing) simp_all
  then have "(2 :: real) ^ (i + 1) / 2 ^ 107 \<le> 2 ^ 64 / 2 ^ 107" by (rule divide_right_mono) simp
  then have e: "\<bar>sin (real (i + 1)) - real_of_int (fst p) / 2 ^ 112\<bar> \<le> 1 / 2 ^ 43"
    using c(1) unfolding angle_close_def by simp
  have "\<bar>\<bar>sin (real (i + 1))\<bar> - \<bar>real_of_int (fst p) / 2 ^ 112\<bar>\<bar> \<le> 1 / 2 ^ 43" using e by linarith
  then have d: "\<bar>\<bar>sin (real (i + 1))\<bar> - real_of_int \<bar>fst p\<bar> / 2 ^ 112\<bar> \<le> 1 / 2 ^ 43" by (simp only: abs_divide of_int_abs) simp
  have "real_of_int (int f * 2 ^ 80 + 2 ^ 69) \<le> real_of_int \<bar>fst p\<bar>" using lo by (simp only: of_int_le_iff)
  then have l: "real f / 2 ^ 32 + 1 / 2 ^ 43 \<le> real_of_int \<bar>fst p\<bar> / 2 ^ 112" by (simp add: field_simps)
  have "real_of_int (\<bar>fst p\<bar> + 2 ^ 69) < real_of_int ((int f + 1) * 2 ^ 80)" using hi by (simp only: of_int_less_iff)
  then have h: "real_of_int \<bar>fst p\<bar> / 2 ^ 112 + 1 / 2 ^ 43 < (real f + 1) / 2 ^ 32" by (simp add: field_simps)
  have "real f / 2 ^ 32 \<le> \<bar>sin (real (i + 1))\<bar>" "\<bar>sin (real (i + 1))\<bar> < (real f + 1) / 2 ^ 32" using d l h by linarith+
  then have "real f \<le> 2 ^ 32 * \<bar>sin (real (i + 1))\<bar>" "2 ^ 32 * \<bar>sin (real (i + 1))\<bar> < real f + 1" by (simp_all add: field_simps)
  then have "\<lfloor>2 ^ 32 * \<bar>sin (real (i + 1))\<bar>\<rfloor> = int f" by (intro floor_unique) simp_all
  then show ?thesis by (simp add: sine_bits_def)
qed

lemma sine_table:
  assumes "angle_close i p" "i + length fs \<le> 64" "are_sines p fs"
  shows "map (\<lambda>j. sine_bits (i + j + 1)) [0 ..< length fs] = fs"
  using assms
proof (induction fs arbitrary: i p)
  case (Cons f fs)
  obtain s r where p: "p = (s, r)" by (cases p)
  have f: "sine_bits (i + 1) = f"
    by (rule sine_bits_eq [OF Cons.prems(1)]) (use Cons.prems in \<open>simp_all add: p\<close>)
  have "map (\<lambda>j. sine_bits (Suc i + j + 1)) [0 ..< length fs] = fs"
    by (rule Cons.IH [OF next_angle_close [OF Cons.prems(1)]]) (use Cons.prems in \<open>simp_all add: p\<close>)
  then show ?case using f by (simp add: upt_conv_Cons map_Suc_upt [symmetric] comp_def del: upt_Suc)
qed simp

section \<open>The reading and writing of words\<close>

lemma digit_byte_of: "of_nat (unat (w :: 'a::len word) div 256 ^ i) = (ucast (drop_bit (8 * i) w) :: byte)"
proof -
  have "unat w div 256 ^ i = unat (drop_bit (8 * i) w)"
    by (simp only: unat_drop_bit_eq) (simp add: drop_bit_eq_div power_mult)
  then show ?thesis by (simp add: unsigned_ucast_eq)
qed

lemma std_digits_4:
  "std_digits True 4 (unat (w :: 'a::len word)) = [ucast (drop_bit 24 w), ucast (drop_bit 16 w), ucast (drop_bit 8 w), ucast w]"
  "std_digits False 4 (unat w) = [ucast w, ucast (drop_bit 8 w), ucast (drop_bit 16 w), ucast (drop_bit 24 w)]"
  using digit_byte_of [of w 0] digit_byte_of [of w 1] digit_byte_of [of w 2] digit_byte_of [of w 3]
  by (simp_all add: std_digits_def upt_rec)

lemma std_digits_8:
  "std_digits True 8 (unat (w :: 'a::len word)) = [ucast (drop_bit 56 w), ucast (drop_bit 48 w), ucast (drop_bit 40 w), ucast (drop_bit 32 w),
     ucast (drop_bit 24 w), ucast (drop_bit 16 w), ucast (drop_bit 8 w), ucast w]"
  using digit_byte_of [of w 0] digit_byte_of [of w 1] digit_byte_of [of w 2] digit_byte_of [of w 3]
    digit_byte_of [of w 4] digit_byte_of [of w 5] digit_byte_of [of w 6] digit_byte_of [of w 7]
  by (simp add: std_digits_def upt_rec)

text \<open>One step of reading a number is a shift and an or, at every width.\<close>

lemma std_step: "(of_nat (256 * n + unat (b :: byte)) :: 'a::len word) = push_bit 8 (of_nat n) OR ucast b"
proof -
  have "push_bit 8 (of_nat n) AND ucast b = (0 :: 'a word)"
    by (rule bit_word_eqI) (auto simp: bit_simps dest: bit_imp_le_length [of b])
  then have "push_bit 8 (of_nat n) OR ucast b = push_bit 8 (of_nat n) + (ucast b :: 'a word)"
    by (rule disjunctive_add_eq_or [symmetric])
  then show ?thesis by (simp add: push_bit_eq_mult)
qed

lemma std_number_4:
  "of_nat (std_number True [a, b, c, d]) = (push_bit 24 (ucast a) OR push_bit 16 (ucast b) OR push_bit 8 (ucast c) OR ucast d :: u32)"
  by (simp only: std_number_def if_True foldl.simps std_step push_bit_or push_bit_push_bit or.assoc) simp

lemma std_number_8:
  "of_nat (std_number True [a, b, c, d, e, f, g, h]) =
    (push_bit 56 (ucast a) OR push_bit 48 (ucast b) OR push_bit 40 (ucast c) OR push_bit 32 (ucast d) OR
     push_bit 24 (ucast e) OR push_bit 16 (ucast f) OR push_bit 8 (ucast g) OR ucast h :: u64)"
  by (simp only: std_number_def if_True foldl.simps std_step push_bit_or push_bit_push_bit or.assoc) simp

lemma std_number_rev: "std_number False bs = std_number True (rev bs)"
  by (simp add: std_number_def)

lemma length_std_digits [simp]: "length (std_digits big k n) = k"
  by (simp add: std_digits_def)

lemma length_std_words [simp]: "length (std_words big k block) = 16"
  by (simp add: std_words_def)

lemma length_std_bytes [simp]: "length (std_bytes big k ws) = k * length ws"
  by (induction ws) (simp_all add: std_bytes_def)

lemma std_digits_mod:
  assumes "k \<le> m" shows "std_digits big k (n mod 256 ^ m) = std_digits big k n"
proof -
  have "(of_nat (n mod 256 ^ m div 256 ^ i) :: byte) = of_nat (n div 256 ^ i)" if i: "i < k" for i
  proof -
    have e: "(256 :: nat) ^ m = 256 ^ i * 256 ^ (m - i)" using i assms by (simp add: power_add [symmetric])
    have d: "(256 :: nat) dvd 256 ^ (m - i)" using i assms by (intro dvd_power) simp
    have "n mod 256 ^ m div 256 ^ i = n div 256 ^ i mod 256 ^ (m - i)" unfolding e by (simp add: mod_mult2_eq)
    then have "n mod 256 ^ m div 256 ^ i mod 256 = n div 256 ^ i mod 256" using d by (simp add: mod_mod_cancel)
    then show ?thesis by (metis unat_byte_of_nat of_nat_unat_eq byte_of_unat)
  qed
  then have "map (\<lambda>i. of_nat (n mod 256 ^ m div 256 ^ i) :: byte) [0 ..< k] = map (\<lambda>i. of_nat (n div 256 ^ i)) [0 ..< k]" by simp
  then show ?thesis by (simp only: std_digits_def)
qed

lemma std_digits_split:
  "std_digits True (j + k) n = std_digits True k (n div 256 ^ j) @ std_digits True j n"
  "std_digits False (j + k) n = std_digits False j n @ std_digits False k (n div 256 ^ j)"
proof -
  have u: "[0 ..< j + k] = [0 ..< j] @ map ((+) j) [0 ..< k]" by (rule nth_equalityI) (auto simp: nth_append)
  have e: "map (\<lambda>i. of_nat (n div 256 ^ i) :: byte) [0 ..< j + k] =
      map (\<lambda>i. of_nat (n div 256 ^ i)) [0 ..< j] @ map (\<lambda>i. of_nat (n div 256 ^ j div 256 ^ i)) [0 ..< k]"
    unfolding u map_append map_map comp_def by (simp add: power_add div_mult2_eq)
  show "std_digits True (j + k) n = std_digits True k (n div 256 ^ j) @ std_digits True j n"
    "std_digits False (j + k) n = std_digits False j n @ std_digits False k (n div 256 ^ j)"
    unfolding std_digits_def e by simp_all
qed

end
