(* ===== verification/Md32.thy ===== *)
theory Md32
  imports Blocks Standards
begin

text \<open>
  The template of the Merkle-Damgard hash functions with 64-byte blocks
  (\<open>crypto/fipsmodule/digest/md32_common.h\<close>). The macros a hash function defines before including
  the template are the parameters of the definitions here: \<open>blk\<close> is \<open>HASH_BLOCK_DATA_ORDER\<close>, \<open>big\<close>
  says which \<open>DATA_ORDER\<close> is defined, and \<open>mk\<close> is \<open>HASH_MAKE_STRING\<close> (which may fail). The locale
  \<open>md_hash\<close> states what a block function promises; inside it the streaming interface is shown to
  compute the padded message's chaining value.
\<close>

section \<open>The template\<close>

record HASH_CTX =
  hash_h :: "u32 list"
  Nl :: u32
  Nh :: u32
  hash_data :: "byte list"
  num :: nat
  md_len :: nat

definition HOST_c2l :: "bool \<Rightarrow> byte list \<Rightarrow> u32" where
  "HOST_c2l big c =
     (if big
      then push_bit 24 (ucast (c ! 0)) OR push_bit 16 (ucast (c ! 1)) OR push_bit 8 (ucast (c ! 2)) OR ucast (c ! 3)
      else ucast (c ! 0) OR push_bit 8 (ucast (c ! 1)) OR push_bit 16 (ucast (c ! 2)) OR push_bit 24 (ucast (c ! 3)))"

definition HOST_l2c :: "bool \<Rightarrow> u32 \<Rightarrow> byte list" where
  "HOST_l2c big l =
     (if big
      then [ucast (drop_bit 24 l AND 0xFF), ucast (drop_bit 16 l AND 0xFF), ucast (drop_bit 8 l AND 0xFF), ucast (l AND 0xFF)]
      else [ucast (l AND 0xFF), ucast (drop_bit 8 l AND 0xFF), ucast (drop_bit 16 l AND 0xFF), ucast (drop_bit 24 l AND 0xFF)])"

text \<open>The counter of message bits is advanced before the bytes are looked at.\<close>

definition count_bits :: "size_t \<Rightarrow> 'a HASH_CTX_scheme \<Rightarrow> 'a HASH_CTX_scheme" where
  "count_bits len c =
     (let l = Nl c + push_bit 3 (of_nat len);
          c = (if l < Nl c then c\<lparr>Nh := Nh c + 1\<rparr> else c)
      in c\<lparr>Nh := Nh c + of_nat (len div 2 ^ 29), Nl := l\<rparr>)"

text \<open>The second half of an update: the full blocks of the input, and what is left over.\<close>

definition update_rest ::
  "(u32 list \<Rightarrow> byte list \<Rightarrow> nat \<Rightarrow> u32 list) \<Rightarrow> HASH_CTX \<Rightarrow> byte list \<Rightarrow> size_t \<Rightarrow> HASH_CTX" where
  "update_rest blk c data len =
     (let n = len div 64;
          (c, data, len) =
            (if 0 < n
             then (c\<lparr>hash_h := blk (hash_h c) data n\<rparr>, drop (n * 64) data, len - n * 64)
             else (c, data, len))
      in if len \<noteq> 0 then c\<lparr>num := len, hash_data := splice 0 (take len data) (hash_data c)\<rparr> else c)"

definition HASH_UPDATE ::
  "(u32 list \<Rightarrow> byte list \<Rightarrow> nat \<Rightarrow> u32 list) \<Rightarrow> HASH_CTX \<Rightarrow> byte list \<Rightarrow> size_t \<Rightarrow> HASH_CTX" where
  "HASH_UPDATE blk c data len =
     (if len = 0 then c
      else
        (let c = count_bits len c; n = num c
         in if n \<noteq> 0 \<and> \<not> (64 \<le> len \<or> 64 \<le> size_wrap (len + n))
            then c\<lparr>hash_data := splice n (take len data) (hash_data c), num := num c + len\<rparr>
            else
              (if n \<noteq> 0
               then update_rest blk
                      (c\<lparr>hash_h := blk (hash_h c) (splice n (take (64 - n) data) (hash_data c)) 1,
                         num := 0, hash_data := replicate 64 0\<rparr>)
                      (drop (64 - n) data) (len - (64 - n))
               else update_rest blk c data len)))"

definition HASH_FINAL ::
  "bool \<Rightarrow> (u32 list \<Rightarrow> byte list \<Rightarrow> nat \<Rightarrow> u32 list) \<Rightarrow> (HASH_CTX \<Rightarrow> byte list option) \<Rightarrow>
   HASH_CTX \<Rightarrow> byte list option \<times> HASH_CTX" where
  "HASH_FINAL big blk mk c =
     (let n = num c;
          d = (hash_data c)[n := 0x80];
          n = n + 1;
          (n, h, d) =
            (if 64 - 8 < n
             then (let d = splice n (replicate (64 - n) 0) d in (0, blk (hash_h c) d 1, d))
             else (n, hash_h c, d));
          d = splice n (replicate (64 - 8 - n) 0) d;
          d = splice (64 - 8)
                (if big then HOST_l2c big (Nh c) @ HOST_l2c big (Nl c)
                 else HOST_l2c big (Nl c) @ HOST_l2c big (Nh c)) d;
          c = c\<lparr>hash_h := blk h d 1, num := 0, hash_data := replicate 64 0\<rparr>
      in (mk c, c))"

section \<open>Counting bits\<close>

definition bit_count :: "HASH_CTX \<Rightarrow> nat" where
  "bit_count c = unat (Nh c) * 2 ^ 32 + unat (Nl c)"

lemma bit_count_less: "bit_count c < 2 ^ 64"
  using unsigned_less [of "Nh c", where 'a = nat] unsigned_less [of "Nl c", where 'a = nat]
  by (simp add: bit_count_def)

lemma count_bits_sum: "bit_count (count_bits len c) = (bit_count c + 8 * len) mod 2 ^ 64"
proof -
  define a where "a = unat (Nl c)"
  define m where "m = (len * 8) mod 2 ^ 32"
  have am: "a < 2 ^ 32" "m < 2 ^ 32"
    using unsigned_less [of "Nl c", where 'a = nat] by (simp_all add: a_def m_def)
  have "(push_bit 3 (of_nat len) :: u32) = of_nat (len * 8)" by (simp add: push_bit_eq_mult)
  then have l: "unat (Nl c + push_bit 3 (of_nat len)) = (a + m) mod 2 ^ 32"
    by (simp add: unat_word_ariths unat_of_nat a_def m_def mod_simps)
  have carry: "Nl c + push_bit 3 (of_nat len) < Nl c \<longleftrightarrow> 2 ^ 32 \<le> a + m"
    unfolding word_less_nat_alt l using am by (auto simp: a_def [symmetric] mod_if)
  have split: "len * 8 = (len div 2 ^ 29) * 2 ^ 32 + m"
  proof -
    have "len * 8 = (len * 8) div 2 ^ 32 * 2 ^ 32 + (len * 8) mod 2 ^ 32" by (rule div_mult_mod_eq [symmetric])
    moreover have "(len * 8) div 2 ^ 32 = len div 2 ^ 29"
      using div_mult_mult1 [of 8 len "2 ^ 29"] by (simp add: mult.commute)
    ultimately show ?thesis by (simp add: m_def)
  qed
  have nh: "unat (Nh (count_bits len c)) = (unat (Nh c) + (if 2 ^ 32 \<le> a + m then 1 else 0) + len div 2 ^ 29) mod 2 ^ 32"
    by (simp add: count_bits_def Let_def carry unat_word_ariths unat_of_nat mod_simps)
  have nl: "unat (Nl (count_bits len c)) = (a + m) - (if 2 ^ 32 \<le> a + m then 2 ^ 32 else 0)"
    using am by (simp add: count_bits_def Let_def l mod_if)
  define x where "x = unat (Nh c) + (if 2 ^ 32 \<le> a + m then 1 else 0) + len div 2 ^ 29"
  define r where "r = (a + m) - (if 2 ^ 32 \<le> a + m then 2 ^ 32 else 0)"
  have r: "r < 2 ^ 32" using am by (auto simp: r_def)
  have s: "bit_count c + 8 * len = r + 2 ^ 32 * x"
    using split by (simp add: bit_count_def a_def [symmetric] x_def r_def algebra_simps)
  have "(r + 2 ^ 32 * x) mod (2 ^ 32 * 2 ^ 32) = 2 ^ 32 * ((r + 2 ^ 32 * x) div 2 ^ 32 mod 2 ^ 32) + (r + 2 ^ 32 * x) mod 2 ^ 32"
    by (rule mod_mult2_eq)
  also have "(r + 2 ^ 32 * x) div 2 ^ 32 = x" using r by simp
  also have "(r + 2 ^ 32 * x) mod 2 ^ 32 = r" using r by simp
  finally have "(r + 2 ^ 32 * x) mod 2 ^ 64 = 2 ^ 32 * (x mod 2 ^ 32) + r" by simp
  then show ?thesis
    unfolding s bit_count_def [of "count_bits len c"] nh nl x_def [symmetric] r_def [symmetric] by (simp only: mult.commute)
qed

section \<open>The contract of a block function\<close>

definition hash_ok :: "HASH_CTX \<Rightarrow> bool" where
  "hash_ok c \<longleftrightarrow> length (hash_data c) = 64 \<and> num c < 64"

definition hash_pending :: "HASH_CTX \<Rightarrow> byte list" where
  "hash_pending c = take (num c) (hash_data c)"

text \<open>The bytes appended to a message: a one bit, zeroes up to eight bytes before a block boundary,
  and the message length in bits modulo \<open>2 ^ 64\<close>.\<close>

definition length_bytes :: "bool \<Rightarrow> nat \<Rightarrow> byte list" where
  "length_bytes big bits =
     (let hi = of_nat (bits div 2 ^ 32); lo = of_nat bits
      in if big then HOST_l2c big hi @ HOST_l2c big lo else HOST_l2c big lo @ HOST_l2c big hi)"

definition padded :: "bool \<Rightarrow> byte list \<Rightarrow> byte list" where
  "padded big msg =
     msg @ 0x80 # replicate ((119 - length msg mod 64) mod 64) 0 @ length_bytes big (8 * length msg mod 2 ^ 64)"

lemma length_HOST_l2c [simp]: "length (HOST_l2c big l) = 4"
  by (simp add: HOST_l2c_def)

lemma length_length_bytes [simp]: "length (length_bytes big n) = 8"
  by (simp add: length_bytes_def Let_def)

lemma count_bits_fields [simp]:
  "hash_h (count_bits len c) = hash_h c" "hash_data (count_bits len c) = hash_data c"
  "num (count_bits len c) = num c" "md_len (count_bits len c) = md_len c"
  by (simp_all add: count_bits_def Let_def)

locale md_hash =
  fixes blk :: "u32 list \<Rightarrow> byte list \<Rightarrow> nat \<Rightarrow> u32 list"
    and one :: "byte list \<Rightarrow> u32 list \<Rightarrow> u32 list"
  assumes blk_blocks: "0 < n \<Longrightarrow> 64 * n \<le> length data \<Longrightarrow> blk h data n = fst (absorb 64 one h (take (64 * n) data))"
begin

lemma blk_1: "length d = 64 \<Longrightarrow> blk h d 1 = one d h"
  using blk_blocks [of 1 d h] by (simp add: absorb_step)

text \<open>The loop over full blocks and the copy of the rest.\<close>

lemma update_rest_absorbs:
  fixes data :: "byte list" and c :: HASH_CTX
  assumes "length (hash_data c) = 64" and "num c = 0"
  defines "c' \<equiv> update_rest blk c data (length data)"
  shows "hash_ok c'" "(hash_h c', hash_pending c') = absorb 64 one (hash_h c) data"
    "bit_count c' = bit_count c" "md_len c' = md_len c"
proof -
  define n where "n = length data div 64"
  define rest where "rest = drop (n * 64) data"
  define hh where "hh = fst (absorb 64 one (hash_h c) (take (64 * n) data))"
  have lr: "length rest < 64" "length data - n * 64 = length rest"
    by (simp_all add: rest_def n_def minus_div_mult_eq_mod)
  have a: "absorb 64 one (hash_h c) data = (hh, rest)"
    using absorb_whole [of 64 one "hash_h c" data] by (simp add: hh_def rest_def n_def mult.commute)
  have "64 * n \<le> length data" by (simp add: n_def)
  then have b: "0 < n \<Longrightarrow> blk (hash_h c) data n = hh" using blk_blocks by (simp add: hh_def)
  have z: "n = 0 \<Longrightarrow> hh = hash_h c \<and> rest = data" by (simp add: hh_def rest_def)
  have c': "c' = (if rest \<noteq> []
      then c\<lparr>hash_h := hh, num := length rest, hash_data := splice 0 rest (hash_data c)\<rparr>
      else c\<lparr>hash_h := hh\<rparr>)"
  proof (cases "n = 0")
    case True
    then show ?thesis using z lr(1) by (simp add: c'_def update_rest_def n_def [symmetric])
  next
    case False
    then show ?thesis
      by (simp add: c'_def update_rest_def n_def [symmetric] b rest_def [symmetric] lr(2))
  qed
  show "hash_ok c'" using assms(1,2) lr(1) by (simp add: c' hash_ok_def)
  show "(hash_h c', hash_pending c') = absorb 64 one (hash_h c) data"
    using assms(1,2) by (simp add: c' a hash_pending_def splice_def)
  show "bit_count c' = bit_count c" "md_len c' = md_len c" by (simp_all add: c' bit_count_def)
qed

lemma update_absorbs:
  fixes data :: "byte list" and c :: HASH_CTX
  assumes ok: "hash_ok c"
  defines "c' \<equiv> HASH_UPDATE blk c data (length data)"
  shows "hash_ok c'" "(hash_h c', hash_pending c') = absorb 64 one (hash_h c) (hash_pending c @ data)"
    "bit_count c' = (bit_count c + 8 * length data) mod 2 ^ 64" "md_len c' = md_len c"
proof -
  let ?n = "num c" and ?c = "count_bits (length data) c"
  note bits = count_bits_sum [of "length data" c]
  have n: "?n < 64" "length (hash_data c) = 64" using ok by (simp_all add: hash_ok_def)
  have wrap: "64 \<le> length data \<or> 64 \<le> size_wrap (length data + ?n) \<longleftrightarrow> 64 \<le> length data + ?n"
    using n by (cases "64 \<le> length data") simp_all
  have "hash_ok c' \<and> (hash_h c', hash_pending c') = absorb 64 one (hash_h c) (hash_pending c @ data) \<and>
    bit_count c' = (bit_count c + 8 * length data) mod 2 ^ 64 \<and> md_len c' = md_len c"
  proof (cases "data = []")
    case True
    then show ?thesis
      using n ok bit_count_less [of c] by (simp add: c'_def HASH_UPDATE_def hash_pending_def)
  next
    case ne: False
    show ?thesis
    proof (cases "?n \<noteq> 0 \<and> length data + ?n < 64")
      case True
      then have c': "c' = ?c\<lparr>hash_data := splice ?n data (hash_data c), num := ?n + length data\<rparr>"
        using ne wrap by (simp add: c'_def HASH_UPDATE_def Let_def)
      have "take (?n + length data) (splice ?n data (hash_data c)) = hash_pending c @ data"
        using n by (simp add: take_splice_end hash_pending_def)
      then show ?thesis
        using True n bits by (simp add: c' hash_ok_def hash_pending_def bit_count_def)
    next
      case full: False
      show ?thesis
      proof (cases "?n = 0")
        case True
        then have "c' = update_rest blk ?c data (length data)"
          using ne by (simp add: c'_def HASH_UPDATE_def Let_def)
        with update_rest_absorbs [of ?c data] n True bits show ?thesis
          by (simp add: hash_pending_def)
      next
        case False
        let ?b = "splice ?n (take (64 - ?n) data) (hash_data c)"
        let ?c1 = "?c\<lparr>hash_h := blk (hash_h c) ?b 1, num := 0, hash_data := replicate 64 0\<rparr>"
        have c': "c' = update_rest blk ?c1 (drop (64 - ?n) data) (length (drop (64 - ?n) data))"
          using False full ne wrap by (auto simp: c'_def HASH_UPDATE_def Let_def)
        have l: "64 - ?n \<le> length data" using False full by simp
        then have b: "?b = hash_pending c @ take (64 - ?n) data"
          using n by (simp add: splice_def hash_pending_def)
        then have "length ?b = 64" using l n by (simp add: hash_pending_def)
        then have "hash_h ?c1 = one ?b (hash_h c)" using blk_1 by simp
        moreover have "absorb 64 one (hash_h c) (hash_pending c @ data) =
            absorb 64 one (one ?b (hash_h c)) (drop (64 - ?n) data)"
          using absorb_block [OF \<open>length ?b = 64\<close>, of one "hash_h c" "drop (64 - ?n) data"] by (simp add: b)
        ultimately show ?thesis
          using update_rest_absorbs [of ?c1 "drop (64 - ?n) data"] bits unfolding c' [symmetric]
          by (simp add: bit_count_def)
      qed
    qed
  qed
  then show "hash_ok c'" "(hash_h c', hash_pending c') = absorb 64 one (hash_h c) (hash_pending c @ data)"
    "bit_count c' = (bit_count c + 8 * length data) mod 2 ^ 64" "md_len c' = md_len c" by simp_all
qed

text \<open>The last blocks: whatever the fill of the buffer, the padded message has been absorbed.\<close>

lemma final_blocks:
  fixes d lb :: "byte list"
  assumes "length d = 64" "n < 64" "length lb = 8"
  defines "d1 \<equiv> d[n := 0x80]"
  shows "n \<le> 55 \<Longrightarrow> splice 56 lb (splice (n + 1) (replicate (55 - n) 0) d1) = take n d @ 0x80 # replicate (55 - n) 0 @ lb"
    "splice (n + 1) (replicate (63 - n) 0) d1 = take n d @ 0x80 # replicate (63 - n) 0"
    "length d2 = 64 \<Longrightarrow> splice 56 lb (splice 0 (replicate 56 0) d2) = replicate 56 0 @ lb"
proof -
  have t: "take (Suc n) d1 = take n d @ [0x80]"
    using assms by (simp add: take_Suc_conv_app_nth)
  show "splice 56 lb (splice (n + 1) (replicate (55 - n) 0) d1) = take n d @ 0x80 # replicate (55 - n) 0 @ lb" if "n \<le> 55"
  proof -
    have "length d1 = 64" using assms by simp
    moreover have "56 - n = Suc (55 - n)" using that by simp
    ultimately show ?thesis using that assms(1,3) t by (simp add: splice_def)
  qed
  show "splice (n + 1) (replicate (63 - n) 0) d1 = take n d @ 0x80 # replicate (63 - n) 0"
    using assms(1,2) t by (simp add: splice_def d1_def)
  show "splice 56 lb (splice 0 (replicate 56 0) d2) = replicate 56 0 @ lb" if "length d2 = 64"
    using that assms(3) by (simp add: splice_def)
qed

lemma final_absorbs:
  assumes ok: "hash_ok c"
    and msg: "absorb 64 one h0 msg = (hash_h c, hash_pending c)"
    and bits: "bit_count c = 8 * length msg mod 2 ^ 64"
  shows "HASH_FINAL big blk mk c =
    (let c' = c\<lparr>hash_h := fst (absorb 64 one h0 (padded big msg)), num := 0, hash_data := replicate 64 0\<rparr> in (mk c', c'))"
proof -
  define n where "n = num c"
  define p where "p = hash_pending c"
  define lb where "lb = length_bytes big (8 * length msg mod 2 ^ 64)"
  have n: "n < 64" "length (hash_data c) = 64" "length p = n"
    using ok by (simp_all add: hash_ok_def n_def p_def hash_pending_def)
  have lb: "length lb = 8" by (simp add: lb_def)
  have lm: "length msg mod 64 = n"
    using absorb_rest [of 64 one h0 msg] n(3) msg
    by (simp add: p_def minus_mult_div_eq_mod)
  have words: "(if big then HOST_l2c big (Nh c) @ HOST_l2c big (Nl c) else HOST_l2c big (Nl c) @ HOST_l2c big (Nh c)) = lb"
  proof -
    have "(4294967296 :: u32) = 0" by simp
    then have "w * 4294967296 = 0" for w :: u32 by (simp only: mult_zero_right)
    then have "Nh c = of_nat (bit_count c div 2 ^ 32)" "Nl c = of_nat (bit_count c)"
      using unsigned_less [of "Nl c", where 'a = nat] by (simp_all add: bit_count_def)
    then show ?thesis by (simp only: lb_def length_bytes_def bits Let_def)
  qed
  define z where "z = (119 - n) mod 64"
  have "absorb 64 one h0 (padded big msg) = absorb 64 one (hash_h c) (p @ 0x80 # replicate z 0 @ lb)"
    using absorb_append [of 64 one h0 msg "0x80 # replicate z 0 @ lb"] msg
    by (simp add: padded_def lb_def z_def lm p_def)
  moreover have "HASH_FINAL big blk mk c = (let c' = c\<lparr>hash_h := fst (absorb 64 one (hash_h c) (p @ 0x80 # replicate z 0 @ lb)),
      num := 0, hash_data := replicate 64 0\<rparr> in (mk c', c'))"
  proof (cases "n \<le> 55")
    case True
    have "119 - n = (55 - n) + 64" using True by simp
    then have z: "z = 55 - n" unfolding z_def by (simp only: mod_add_self2) simp
    let ?d = "p @ 0x80 # replicate z 0 @ lb"
    have l: "length ?d = 64" using n(3) lb True by (simp add: z)
    have "splice 56 lb (splice (n + 1) (replicate (55 - n) 0) ((hash_data c)[n := 0x80])) = ?d"
      using final_blocks(1) [OF n(2,1) lb True] by (simp add: p_def hash_pending_def n_def z)
    then have "HASH_FINAL big blk mk c = (let c' = c\<lparr>hash_h := blk (hash_h c) ?d 1,
      num := 0, hash_data := replicate 64 0\<rparr> in (mk c', c'))"
      unfolding HASH_FINAL_def Let_def words n_def [symmetric] using True by simp
    moreover have "absorb 64 one (hash_h c) ?d = (one ?d (hash_h c), [])"
      using absorb_block [OF l, of one "hash_h c" "[]"] by simp
    ultimately show ?thesis using blk_1 [OF l] by simp
  next
    case False
    have z: "z = (63 - n) + 56" unfolding z_def using False n(1) by simp
    let ?d1 = "p @ 0x80 # replicate (63 - n) 0" and ?d2 = "replicate 56 0 @ lb"
    have l: "length ?d1 = 64" "length ?d2 = 64" using n(3,1) lb by simp_all
    have 1: "splice (n + 1) (replicate (63 - n) 0) ((hash_data c)[n := 0x80]) = ?d1"
      using final_blocks(2) [OF n(2,1) lb] by (simp add: p_def hash_pending_def n_def)
    have 2: "splice 56 lb (splice 0 (replicate 56 0) ?d1) = ?d2"
      using final_blocks(3) [OF n(2,1) lb l(1)] .
    have "64 - (n + 1) = 63 - n" by simp
    then have "HASH_FINAL big blk mk c = (let c' = c\<lparr>hash_h := blk (blk (hash_h c) ?d1 1) ?d2 1,
      num := 0, hash_data := replicate 64 0\<rparr> in (mk c', c'))"
      unfolding HASH_FINAL_def Let_def words n_def [symmetric] using False 1 2 by simp
    moreover have cat: "p @ 0x80 # replicate z 0 @ lb = ?d1 @ ?d2" unfolding z replicate_add by simp
    have "absorb 64 one (hash_h c) (p @ 0x80 # replicate z 0 @ lb) = (one ?d2 (one ?d1 (hash_h c)), [])"
      using absorb_block [OF l(1), of one "hash_h c" ?d2] absorb_block [OF l(2), of one "one ?d1 (hash_h c)" "[]"]
      unfolding cat by simp
    ultimately show ?thesis using blk_1 [OF l(1)] blk_1 [OF l(2)] by simp
  qed
  ultimately show ?thesis by simp
qed

end

text \<open>Every block function gives a stream processor.\<close>

sublocale md_hash \<subseteq> block_stream 64 one hash_h hash_pending hash_ok "\<lambda>_. True"
    "\<lambda>bs c. HASH_UPDATE blk c bs (length bs)"
  by unfold_locales (use update_absorbs in simp_all)

context md_hash begin

lemma count_updates:
  assumes "hash_ok c"
  shows "bit_count (fold (\<lambda>bs c. HASH_UPDATE blk c bs (length bs)) pieces c) =
    (bit_count c + 8 * length (concat pieces)) mod 2 ^ 64 \<and>
    md_len (fold (\<lambda>bs c. HASH_UPDATE blk c bs (length bs)) pieces c) = md_len c"
  using assms
proof (induction pieces arbitrary: c)
  case Nil
  then show ?case using bit_count_less [of c] by simp
next
  case (Cons p pieces)
  from Cons.IH [of "HASH_UPDATE blk c p (length p)"] update_absorbs [OF Cons.prems, of p]
  show ?case by (simp add: mod_simps algebra_simps)
qed

text \<open>A message fed in any pieces to a fresh context ends as its padded blocks.\<close>

lemma digest:
  fixes pieces :: "byte list list" and c0 :: HASH_CTX
  assumes fresh: "hash_ok c0" "num c0 = 0" "bit_count c0 = 0"
  defines "c \<equiv> fold (\<lambda>bs c. HASH_UPDATE blk c bs (length bs)) pieces c0"
  shows "\<exists>c'. HASH_FINAL big blk mk c = (mk c', c') \<and> md_len c' = md_len c0 \<and>
    hash_h c' = fst (absorb 64 one (hash_h c0) (padded big (concat pieces)))"
proof -
  have p0: "hash_pending c0 = []" "length (hash_pending c0) < 64" using fresh(2) by (simp_all add: hash_pending_def)
  have "list_all (\<lambda>_. True) pieces" by (simp add: list_all_iff)
  from updates_absorb [OF fresh(1) this p0(2)]
  have a: "hash_ok c" "absorb 64 one (hash_h c0) (concat pieces) = (hash_h c, hash_pending c)"
    by (simp_all add: c_def p0(1))
  have b: "bit_count c = 8 * length (concat pieces) mod 2 ^ 64" "md_len c = md_len c0"
    using count_updates [OF fresh(1), of pieces] fresh(3) by (simp_all add: c_def)
  from final_absorbs [OF a b(1), of big mk] b(2) show ?thesis by (simp add: Let_def)
qed

end

text \<open>The block functions of the library are loops over single blocks that read only 64 bytes.\<close>

lemma md_hash_loop:
  assumes blk: "\<And>h data. blk h data 0 = h" "\<And>h data n. blk h data (Suc n) = blk (one data h) (drop 64 data) n"
    and reads: "\<And>data h. 64 \<le> length data \<Longrightarrow> one (take 64 data) h = one data h"
  shows "md_hash blk one"
proof
  fix n :: nat and data :: "byte list" and h :: "u32 list"
  assume "64 * n \<le> length data"
  then show "blk h data n = fst (absorb 64 one h (take (64 * n) data))"
  proof (induction n arbitrary: h data)
    case 0
    then show ?case by (simp add: blk(1))
  next
    case (Suc n)
    let ?b = "take 64 data"
    have l: "length ?b = 64" "64 * n \<le> length (drop 64 data)" using Suc.prems by simp_all
    have "take (64 * Suc n) data = ?b @ take (64 * n) (drop 64 data)"
      using take_add [of 64 "64 * n" data] by simp
    then have "absorb 64 one h (take (64 * Suc n) data) = absorb 64 one (one data h) (take (64 * n) (drop 64 data))"
      using absorb_block [OF l(1), of one h] reads [of data h] Suc.prems by simp
    then show ?case using Suc.IH [OF l(2)] by (simp add: blk(2))
  qed
qed

lemma HOST_c2l_take: "i + 4 \<le> n \<Longrightarrow> HOST_c2l big (drop i (take n data)) = HOST_c2l big (drop i data)"
  by (simp add: HOST_c2l_def drop_take nth_append)

section \<open>Rings of sixteen words\<close>

text \<open>The unrolled block functions rotate with this macro, and keep the last sixteen words of the
  message schedule in a ring.\<close>

definition ROTATE :: "u32 \<Rightarrow> nat \<Rightarrow> u32" where
  "ROTATE a n = push_bit n a OR drop_bit (32 - n) a"

definition block_words :: "bool \<Rightarrow> byte list \<Rightarrow> u32 list" where
  "block_words big data = map (\<lambda>i. HOST_c2l big (drop (4 * i) data)) [0 ..< 16]"

lemma block_words_nth: "i < 16 \<Longrightarrow> block_words big data ! i = HOST_c2l big (drop (4 * i) data)"
  by (simp add: block_words_def)

lemma block_words_take: "64 \<le> length data \<Longrightarrow> block_words big (take 64 data) = block_words big data"
  by (simp add: block_words_def HOST_c2l_take)

text \<open>The byte order and the padding are those of the standards.\<close>

lemma HOST_l2c_std: "HOST_l2c big l = std_digits big 4 (unat l)"
proof -
  have "(ucast (take_bit 8 w) :: byte) = ucast w" for w :: u32 by (rule bit_word_eqI) (simp add: bit_simps)
  then show ?thesis by (simp add: HOST_l2c_def std_digits_4 and_FF)
qed

lemma HOST_c2l_std: "4 \<le> length c \<Longrightarrow> HOST_c2l big c = of_nat (std_number big (take 4 c))"
proof -
  assume "4 \<le> length c"
  then have "take 4 c = [c ! 0, c ! 1, c ! 2, c ! 3]" by (intro nth_equalityI) (auto simp: less_Suc_eq numeral_eq_Suc)
  then show ?thesis
    by (cases big) (simp_all only: HOST_c2l_def std_number_rev rev.simps append.simps std_number_4 if_True if_False or.assoc or.commute or.left_commute)
qed

lemma block_words_std: "length b = 64 \<Longrightarrow> block_words big b = std_words big 4 b"
  unfolding block_words_def std_words_def by (rule map_cong [OF refl]) (simp add: HOST_c2l_std)

lemma HOST_words_std: "concat (map (HOST_l2c big) ws) = std_bytes big 4 ws"
  by (simp add: std_bytes_def HOST_l2c_std [abs_def] fun_eq_iff cong: map_cong)

lemma length_bytes_std: "length_bytes big (n mod 2 ^ 64) = std_digits big 8 n"
proof -
  let ?n = "n mod 256 ^ 8"
  have "unat (of_nat (?n div 2 ^ 32) :: u32) = ?n div 256 ^ 4 mod 256 ^ 4" "unat (of_nat ?n :: u32) = ?n mod 256 ^ 4"
    by (simp_all add: unat_of_nat)
  then have "length_bytes big ?n = (if big then std_digits big 4 (?n div 256 ^ 4) @ std_digits big 4 ?n else std_digits big 4 ?n @ std_digits big 4 (?n div 256 ^ 4))"
    by (simp only: length_bytes_def Let_def HOST_l2c_std std_digits_mod order_refl)
  also have "\<dots> = std_digits big (4 + 4) ?n" by (cases big) (simp_all only: std_digits_split if_True if_False)
  also have "\<dots> = std_digits big 8 n" by (simp only: std_digits_mod order_refl) simp
  finally show ?thesis by simp
qed

lemma padded_std: "padded big msg = std_padded big 64 8 msg"
  unfolding padded_def std_padded_def length_bytes_std by simp

lemma ROTATE_std: "n < 32 \<Longrightarrow> ROTATE x n = word_rotl n x"
  using rotl_bits [of n x] by (simp add: ROTATE_def)

definition ring_ok :: "(nat \<Rightarrow> 'a) \<Rightarrow> nat \<Rightarrow> 'a list \<Rightarrow> bool" where
  "ring_ok W t X \<longleftrightarrow> length X = 16 \<and> (\<forall>u<t. t \<le> u + 16 \<longrightarrow> X ! (u mod 16) = W u)"

lemma ring_start: "length X = 16 \<Longrightarrow> ring_ok W 0 X"
  by (simp add: ring_ok_def)

lemma ring_step:
  assumes "ring_ok W t X"
  shows "ring_ok W (Suc t) (X[t mod 16 := W t])"
proof -
  have "X[t mod 16 := W t] ! (u mod 16) = W u" if "u < Suc t" "Suc t \<le> u + 16" for u
  proof (cases "u = t")
    case True
    then show ?thesis using assms by (simp add: ring_ok_def)
  next
    case False
    then have "u < t" "t \<le> u + 16" using that by simp_all
    moreover have "u mod 16 \<noteq> t mod 16"
    proof
      assume "u mod 16 = t mod 16"
      then have "(t - u) mod 16 = 0" using \<open>u < t\<close> by (metis mod_eq_dvd_iff_nat less_imp_le dvd_eq_mod_eq_0)
      moreover have "0 < t - u" "t - u < 16" using \<open>u < t\<close> that by simp_all
      ultimately show False by simp
    qed
    ultimately show ?thesis using assms by (simp add: ring_ok_def)
  qed
  with assms show ?thesis by (simp add: ring_ok_def)
qed

lemma ring_ago: "ring_ok W t X \<Longrightarrow> 16 \<le> t \<Longrightarrow> k < 16 \<Longrightarrow> X ! ((t + k) mod 16) = W (t + k - 16)"
  by (simp add: ring_ok_def le_mod_geq [of 16 "t + k"])

lemma and_15: "(n :: nat) AND 0x0F = n mod 16"
proof -
  have "mask 4 = (15 :: nat)" by (simp add: mask_eq_exp_minus_1)
  then have "n AND 0x0F = take_bit 4 n" by (simp add: take_bit_eq_mask)
  then show ?thesis by (simp add: take_bit_eq_mod)
qed

lemma rotate_step: "length v = m \<Longrightarrow> rotate (Suc (t mod m)) v = rotate (Suc t) v"
  using rotate_conv_mod [of "Suc (t mod m)" v] rotate_conv_mod [of "Suc t" v] by (simp add: mod_Suc_eq)

lemma map_nth_take: "n \<le> length xs \<Longrightarrow> map (\<lambda>i. f (xs ! i)) [0 ..< n] = map f (take n xs)"
  by (intro nth_equalityI) simp_all

end
