(* ===== verification/Sha1.thy ===== *)
theory Sha1
  imports Md32
begin

text \<open>
  SHA-1 (\<open>crypto/fipsmodule/sha/sha1.c\<close>, the portable block function). Five working variables live
  in six registers \<open>A\<close> to \<open>E\<close> and \<open>T\<close>; every macro call writes the new variable into the free one, so
  the arguments rotate with period six. The reference is the compression function of FIPS 180-4.
\<close>

section \<open>The code\<close>

definition K_00_19 :: u32 where "K_00_19 = 0x5a827999"
definition K_20_39 :: u32 where "K_20_39 = 0x6ed9eba1"
definition K_40_59 :: u32 where "K_40_59 = 0x8f1bbcdc"
definition K_60_79 :: u32 where "K_60_79 = 0xca62c1d6"

definition F_00_19 :: "u32 \<Rightarrow> u32 \<Rightarrow> u32 \<Rightarrow> u32" where
  "F_00_19 b c d = ((c XOR d) AND b) XOR d"

definition F_20_39 :: "u32 \<Rightarrow> u32 \<Rightarrow> u32 \<Rightarrow> u32" where
  "F_20_39 b c d = b XOR c XOR d"

definition F_40_59 :: "u32 \<Rightarrow> u32 \<Rightarrow> u32 \<Rightarrow> u32" where
  "F_40_59 b c d = (b AND c) OR ((b OR c) AND d)"

definition F_60_79 :: "u32 \<Rightarrow> u32 \<Rightarrow> u32 \<Rightarrow> u32" where
  "F_60_79 b c d = F_20_39 b c d"

text \<open>The argument lists of the calls, as indices of \<open>A\<close>, \<open>B\<close>, \<open>C\<close>, \<open>D\<close>, \<open>E\<close>, \<open>T\<close>.\<close>

definition body_args :: "nat list list" where
  "body_args = [
    [0, 1, 2, 3, 4, 5],
    [5, 0, 1, 2, 3, 4],
    [4, 5, 0, 1, 2, 3],
    [3, 4, 5, 0, 1, 2],
    [2, 3, 4, 5, 0, 1],
    [1, 2, 3, 4, 5, 0]]"

text \<open>The registers and the message words \<open>XX0\<close> to \<open>XX15\<close>.\<close>

type_synonym sha1_vars = "u32 list \<times> u32 list"

definition Xupdate :: "nat \<Rightarrow> nat \<Rightarrow> nat \<Rightarrow> nat \<Rightarrow> nat \<Rightarrow> nat \<Rightarrow> sha1_vars \<Rightarrow> sha1_vars" where
  "Xupdate a ix ia ib ic id' s =
     (case s of (r, X) \<Rightarrow>
        (let v = ROTATE (X ! ia XOR X ! ib XOR X ! ic XOR X ! id') 1 in (r[a := v], X[ix := v])))"

fun BODY_00_15 :: "nat list \<Rightarrow> nat \<Rightarrow> sha1_vars \<Rightarrow> sha1_vars" where
  "BODY_00_15 [a, b, c, d, e, f] xi (r, X) =
     (let r = r[f := X ! xi + r ! e + K_00_19 + ROTATE (r ! a) 5 + F_00_19 (r ! b) (r ! c) (r ! d)]
      in (r[b := ROTATE (r ! b) 30], X))"
| "BODY_00_15 _ xi s = s"

text \<open>The common tail of the later macros: \<open>f += e + K + ROTATE(a, 5) + F(b, c, d)\<close> and the rotation
  of \<open>b\<close>.\<close>

fun body_add :: "u32 \<Rightarrow> (u32 \<Rightarrow> u32 \<Rightarrow> u32 \<Rightarrow> u32) \<Rightarrow> nat list \<Rightarrow> sha1_vars \<Rightarrow> sha1_vars" where
  "body_add K F [a, b, c, d, e, f] (r, X) =
     (let r = r[f := r ! f + (r ! e + K + ROTATE (r ! a) 5 + F (r ! b) (r ! c) (r ! d))]
      in (r[b := ROTATE (r ! b) 30], X))"
| "body_add K F _ s = s"

definition BODY_16_19 :: "nat list \<Rightarrow> nat \<Rightarrow> nat \<Rightarrow> nat \<Rightarrow> nat \<Rightarrow> nat \<Rightarrow> sha1_vars \<Rightarrow> sha1_vars" where
  "BODY_16_19 args xi xa xb xc xd s = body_add K_00_19 F_00_19 args (Xupdate (args ! 5) xi xa xb xc xd s)"

definition BODY_20_31 :: "nat list \<Rightarrow> nat \<Rightarrow> nat \<Rightarrow> nat \<Rightarrow> nat \<Rightarrow> nat \<Rightarrow> sha1_vars \<Rightarrow> sha1_vars" where
  "BODY_20_31 args xi xa xb xc xd s = body_add K_20_39 F_20_39 args (Xupdate (args ! 5) xi xa xb xc xd s)"

definition BODY_32_39 :: "nat list \<Rightarrow> nat \<Rightarrow> nat \<Rightarrow> nat \<Rightarrow> nat \<Rightarrow> sha1_vars \<Rightarrow> sha1_vars" where
  "BODY_32_39 args xa xb xc xd s = body_add K_20_39 F_20_39 args (Xupdate (args ! 5) xa xa xb xc xd s)"

definition BODY_40_59 :: "nat list \<Rightarrow> nat \<Rightarrow> nat \<Rightarrow> nat \<Rightarrow> nat \<Rightarrow> sha1_vars \<Rightarrow> sha1_vars" where
  "BODY_40_59 args xa xb xc xd s = body_add K_40_59 F_40_59 args (Xupdate (args ! 5) xa xa xb xc xd s)"

text \<open>The last macro adds to the message word instead of the register it was copied to.\<close>

fun BODY_60_79 :: "nat list \<Rightarrow> nat \<Rightarrow> nat \<Rightarrow> nat \<Rightarrow> nat \<Rightarrow> sha1_vars \<Rightarrow> sha1_vars" where
  "BODY_60_79 [a, b, c, d, e, f] xa xb xc xd s =
     (case Xupdate f xa xa xb xc xd s of
        (r, X) \<Rightarrow>
          (let r = r[f := X ! xa + r ! e + K_60_79 + ROTATE (r ! a) 5 + F_60_79 (r ! b) (r ! c) (r ! d)]
           in (r[b := ROTATE (r ! b) 30], X)))"
| "BODY_60_79 _ xa xb xc xd s = s"

text \<open>Call number \<open>i\<close> of the unrolled body. The message indices of consecutive calls go up by one
  modulo sixteen.\<close>

definition sha1_call :: "nat \<Rightarrow> sha1_vars \<Rightarrow> sha1_vars" where
  "sha1_call i =
     (let args = body_args ! (i mod 6); x0 = i mod 16; x2 = (i + 2) mod 16; x8 = (i + 8) mod 16; x13 = (i + 13) mod 16
      in if i < 16 then BODY_00_15 args i
         else if i < 20 then BODY_16_19 args x0 x0 x2 x8 x13
         else if i < 32 then BODY_20_31 args x0 x0 x2 x8 x13
         else if i < 40 then BODY_32_39 args x0 x2 x8 x13
         else if i < 60 then BODY_40_59 args x0 x2 x8 x13
         else BODY_60_79 args x0 x2 x8 x13)"

text \<open>One turn of the loop; the words are loaded ahead of the calls that use them, and the final
  sums take the registers as the eighty rotations left them. The first call writes \<open>T\<close> before any
  call reads it; zero stands for what it held.\<close>

definition sha1_block :: "byte list \<Rightarrow> u32 list \<Rightarrow> u32 list" where
  "sha1_block data state =
     (case fold sha1_call [0 ..< 80] (take 5 state @ [0], block_words True data) of
        (r, X) \<Rightarrow>
          [(state ! 0 + r ! 4) AND 0xffffffff, (state ! 1 + r ! 5) AND 0xffffffff,
           (state ! 2 + r ! 0) AND 0xffffffff, (state ! 3 + r ! 1) AND 0xffffffff,
           (state ! 4 + r ! 2) AND 0xffffffff])"

fun sha1_loop :: "u32 list \<Rightarrow> byte list \<Rightarrow> nat \<Rightarrow> u32 list" where
  "sha1_loop state data 0 = state"
| "sha1_loop state data (Suc n) = sha1_loop (sha1_block data state) (drop 64 data) n"

text \<open>The loop tests \<open>--num == 0\<close> at its end, so a count of zero would run \<open>2 ^ 64\<close> times.\<close>

definition sha1_block_data_order :: "u32 list \<Rightarrow> byte list \<Rightarrow> nat \<Rightarrow> u32 list" where
  "sha1_block_data_order state data n = sha1_loop state data (if n = 0 then 2 ^ 64 else n)"

definition sha1_make_string :: "HASH_CTX \<Rightarrow> byte list option" where
  "sha1_make_string c =
     Some (HOST_l2c True (hash_h c ! 0) @ HOST_l2c True (hash_h c ! 1) @ HOST_l2c True (hash_h c ! 2) @
       HOST_l2c True (hash_h c ! 3) @ HOST_l2c True (hash_h c ! 4))"

definition SHA1_Init :: HASH_CTX where
  "SHA1_Init = \<lparr>hash_h = [0x67452301, 0xefcdab89, 0x98badcfe, 0x10325476, 0xc3d2e1f0],
     Nl = 0, Nh = 0, hash_data = replicate 64 0, num = 0, md_len = 0\<rparr>"

definition SHA1_Update :: "HASH_CTX \<Rightarrow> byte list \<Rightarrow> size_t \<Rightarrow> HASH_CTX" where
  "SHA1_Update = HASH_UPDATE sha1_block_data_order"

definition SHA1_Transform :: "HASH_CTX \<Rightarrow> byte list \<Rightarrow> HASH_CTX" where
  "SHA1_Transform c data = c\<lparr>hash_h := sha1_block_data_order (hash_h c) data 1\<rparr>"

definition SHA1_Final :: "HASH_CTX \<Rightarrow> byte list option \<times> HASH_CTX" where
  "SHA1_Final = HASH_FINAL True sha1_block_data_order sha1_make_string"

definition SHA1 :: "byte list \<Rightarrow> size_t \<Rightarrow> byte list option" where
  "SHA1 data len = fst (SHA1_Final (SHA1_Update SHA1_Init data len))"

section \<open>The compression function of FIPS 180-4\<close>

definition sha1_f :: "nat \<Rightarrow> u32 \<Rightarrow> u32 \<Rightarrow> u32 \<Rightarrow> u32" where
  "sha1_f t x y z =
     (if t < 20 then (x AND y) XOR (NOT x AND z)
      else if t < 40 then x XOR y XOR z
      else if t < 60 then (x AND y) XOR (x AND z) XOR (y AND z)
      else x XOR y XOR z)"

definition sha1_K :: "nat \<Rightarrow> u32" where
  "sha1_K t = (if t < 20 then 0x5a827999 else if t < 40 then 0x6ed9eba1 else if t < 60 then 0x8f1bbcdc else 0xca62c1d6)"

definition fips1_H0 :: "u32 list" where
  "fips1_H0 = [0x67452301, 0xefcdab89, 0x98badcfe, 0x10325476, 0xc3d2e1f0]"

fun sha1_schedule :: "u32 list \<Rightarrow> nat \<Rightarrow> u32" where
  "sha1_schedule M t =
     (if t < 16 then M ! t
      else word_rotl 1 (sha1_schedule M (t - 3) XOR sha1_schedule M (t - 8) XOR sha1_schedule M (t - 14) XOR
        sha1_schedule M (t - 16)))"

declare sha1_schedule.simps [simp del]

fun sha1_round :: "nat \<Rightarrow> u32 \<Rightarrow> u32 list \<Rightarrow> u32 list" where
  "sha1_round t W [a, b, c, d, e] =
     [word_rotl 5 a + sha1_f t b c d + e + sha1_K t + W, a, word_rotl 30 b, c, d]"
| "sha1_round t W _ = []"

definition sha1_compress :: "u32 list \<Rightarrow> u32 list \<Rightarrow> u32 list" where
  "sha1_compress M H = map2 (+) H (fold (\<lambda>t. sha1_round t (sha1_schedule M t)) [0 ..< 80] H)"

section \<open>The code computes it\<close>

lemma sha1_functions:
  "F_00_19 b c d = (b AND c) XOR (NOT b AND d)" "F_20_39 b c d = b XOR c XOR d"
  "F_40_59 b c d = (b AND c) XOR (b AND d) XOR (c AND d)"
  unfolding F_00_19_def F_20_39_def F_40_59_def
  by (rule bit_eqI, auto simp: bit_simps)+

text \<open>One step on six registers: the old \<open>e\<close> becomes the free one.\<close>

fun six_round :: "nat \<Rightarrow> u32 \<Rightarrow> u32 list \<Rightarrow> u32 list" where
  "six_round t W [a, b, c, d, e, x] =
     [ROTATE a 5 + sha1_f t b c d + e + sha1_K t + W, a, ROTATE b 30, c, d, e]"
| "six_round t W _ = []"

lemma length_6E:
  assumes "length v = 6"
  obtains a b c d e x where "v = [a, b, c, d, e, x]"
  using assms by (auto simp: numeral_eq_Suc length_Suc_conv)

lemma length_six_round [simp]: "length v = 6 \<Longrightarrow> length (six_round t w v) = 6"
  by (erule length_6E) simp

lemma take_six_round: "length v = 6 \<Longrightarrow> take 5 (six_round t w v) = sha1_round t w (take 5 v)"
  by (erule length_6E) (simp add: ROTATE_std)

lemma six_cases: "j < 6 \<Longrightarrow> j = 0 \<or> j = 1 \<or> j = 2 \<or> j = 3 \<or> j = 4 \<or> j = (5 :: nat)"
  by linarith

lemma body_add_rotates:
  assumes "j < 6" and "length v = 6" and "K = sha1_K t" and "F = sha1_f t"
  shows "body_add K F (body_args ! j) ((rotate j v)[body_args ! j ! 5 := w], X) = (rotate (Suc j) (six_round t w v), X)"
proof -
  obtain a b c d e x where v: "v = [a, b, c, d, e, x]" using assms(2) by (rule length_6E)
  show ?thesis
    using six_cases [OF assms(1)] unfolding v assms(3,4)
    by (elim disjE) (simp_all add: body_args_def Let_def numeral_eq_Suc ac_simps)
qed

lemma body_00_15_rotates:
  assumes "j < 6" and "length v = 6" and "t < 20"
  shows "BODY_00_15 (body_args ! j) xi (rotate j v, X) = (rotate (Suc j) (six_round t (X ! xi) v), X)"
proof -
  obtain a b c d e x where v: "v = [a, b, c, d, e, x]" using assms(2) by (rule length_6E)
  have k: "K_00_19 = sha1_K t" "F_00_19 = sha1_f t"
    using assms(3) by (auto simp: K_00_19_def sha1_K_def sha1_f_def sha1_functions fun_eq_iff)
  show ?thesis
    using six_cases [OF assms(1)] unfolding v
    by (elim disjE) (simp_all add: body_args_def Let_def numeral_eq_Suc k ac_simps)
qed

lemma body_60_79_rotates:
  assumes "j < 6" and "length v = 6" and "60 \<le> t" and "xa < length X"
    and "w = ROTATE (X ! xa XOR X ! xb XOR X ! xc XOR X ! xd) 1"
  shows "BODY_60_79 (body_args ! j) xa xb xc xd (rotate j v, X) = (rotate (Suc j) (six_round t w v), X[xa := w])"
proof -
  obtain a b c d e x where v: "v = [a, b, c, d, e, x]" using assms(2) by (rule length_6E)
  have k: "K_60_79 = sha1_K t" "F_60_79 = sha1_f t"
    using assms(3) by (auto simp: K_60_79_def sha1_K_def sha1_f_def sha1_functions F_60_79_def fun_eq_iff)
  show ?thesis
    using six_cases [OF assms(1)] assms(4) unfolding v
    by (elim disjE)
      (simp_all add: body_args_def Let_def numeral_eq_Suc k Xupdate_def assms(5) ac_simps)
qed

definition six_rounds :: "u32 list \<Rightarrow> nat \<Rightarrow> u32 list \<Rightarrow> u32 list" where
  "six_rounds M t v = fold (\<lambda>t. six_round t (sha1_schedule M t)) [0 ..< t] v"

lemma six_rounds_step [simp]: "six_rounds M 0 v = v"
  "six_rounds M (Suc t) v = six_round t (sha1_schedule M t) (six_rounds M t v)"
  by (simp_all add: six_rounds_def)

lemma length_six_rounds [simp]: "length v = 6 \<Longrightarrow> length (six_rounds M t v) = 6"
  by (induction t) simp_all

lemma take_six_rounds:
  "length v = 6 \<Longrightarrow> take 5 (six_rounds M t v) = fold (\<lambda>t. sha1_round t (sha1_schedule M t)) [0 ..< t] (take 5 v)"
proof (induction t)
  case (Suc t)
  then show ?case using take_six_round [of "six_rounds M t v" t "sha1_schedule M t"] by simp
qed simp

lemma call_early:
  assumes "t < 16" and "length v = 6"
  shows "sha1_call t (rotate t v, block_words True data) =
    (rotate (Suc t) (six_round t (sha1_schedule (block_words True data) t) v), block_words True data)"
proof -
  have "sha1_schedule (block_words True data) t = block_words True data ! t"
    using assms(1) by (simp add: sha1_schedule.simps)
  then show ?thesis
    using assms body_00_15_rotates [of "t mod 6" v t t "block_words True data"]
      rotate_conv_mod [of t v] rotate_step [of "six_round t (block_words True data ! t) v" 6 t]
    by (simp add: sha1_call_def Let_def)
qed

lemma call_late:
  assumes t: "16 \<le> t" "t < 80" and v: "length v = 6" and ring: "ring_ok (sha1_schedule M) t X"
  shows "sha1_call t (rotate t v, X) =
    (rotate (Suc t) (six_round t (sha1_schedule M t) v), X[t mod 16 := sha1_schedule M t])"
proof -
  let ?W = "sha1_schedule M t" and ?j = "t mod 6"
  have X: "length X = 16" using ring by (simp add: ring_ok_def)
  have "X ! (t mod 16) = sha1_schedule M (t - 16)" "X ! ((t + 2) mod 16) = sha1_schedule M (t - 14)"
    "X ! ((t + 8) mod 16) = sha1_schedule M (t - 8)" "X ! ((t + 13) mod 16) = sha1_schedule M (t - 3)"
    using ring_ago [OF ring t(1), of 0] ring_ago [OF ring t(1), of 2] ring_ago [OF ring t(1), of 8]
      ring_ago [OF ring t(1), of 13] by simp_all
  then have w: "ROTATE (X ! (t mod 16) XOR X ! ((t + 2) mod 16) XOR X ! ((t + 8) mod 16) XOR X ! ((t + 13) mod 16)) 1 = ?W"
    using t(1) by (simp add: sha1_schedule.simps [of M t] ROTATE_std ac_simps)
  have up: "Xupdate a (t mod 16) (t mod 16) ((t + 2) mod 16) ((t + 8) mod 16) ((t + 13) mod 16) (r, X) =
      (r[a := ?W], X[t mod 16 := ?W])" for a r
    by (simp only: Xupdate_def w Let_def prod.case)
  have j: "?j < 6" by simp
  have r: "rotate t v = rotate ?j v" using rotate_conv_mod [of t v] v by simp
  have s: "rotate (Suc ?j) (six_round t ?W v) = rotate (Suc t) (six_round t ?W v)"
    using rotate_step [of "six_round t ?W v" 6 t] v by simp
  have add: "body_add K F (body_args ! ?j) ((rotate ?j v)[body_args ! ?j ! 5 := ?W], Y) = (rotate (Suc t) (six_round t ?W v), Y)"
    if "K = sha1_K t" "F = sha1_f t" for K F Y
    using body_add_rotates [OF j v that, of ?W Y] s by simp
  consider "t < 20" | "20 \<le> t" "t < 32" | "32 \<le> t" "t < 40" | "40 \<le> t" "t < 60" | "60 \<le> t" by linarith
  then show ?thesis
  proof cases
    case 1
    then have "K_00_19 = sha1_K t" "F_00_19 = sha1_f t"
      by (auto simp: K_00_19_def sha1_K_def sha1_f_def sha1_functions fun_eq_iff)
    note k = this
    have "sha1_call t = BODY_16_19 (body_args ! ?j) (t mod 16) (t mod 16) ((t + 2) mod 16) ((t + 8) mod 16) ((t + 13) mod 16)"
      using 1 t(1) by (simp add: sha1_call_def Let_def)
    then show ?thesis unfolding r by (simp only: BODY_16_19_def up add [OF k])
  next
    case 2
    then have "K_20_39 = sha1_K t" "F_20_39 = sha1_f t"
      by (auto simp: K_20_39_def sha1_K_def sha1_f_def sha1_functions fun_eq_iff)
    note k = this
    have "sha1_call t = BODY_20_31 (body_args ! ?j) (t mod 16) (t mod 16) ((t + 2) mod 16) ((t + 8) mod 16) ((t + 13) mod 16)"
      using 2 by (simp add: sha1_call_def Let_def)
    then show ?thesis unfolding r by (simp only: BODY_20_31_def up add [OF k])
  next
    case 3
    then have "K_20_39 = sha1_K t" "F_20_39 = sha1_f t"
      by (auto simp: K_20_39_def sha1_K_def sha1_f_def sha1_functions fun_eq_iff)
    note k = this
    have "sha1_call t = BODY_32_39 (body_args ! ?j) (t mod 16) ((t + 2) mod 16) ((t + 8) mod 16) ((t + 13) mod 16)"
      using 3 by (simp add: sha1_call_def Let_def)
    then show ?thesis unfolding r by (simp only: BODY_32_39_def up add [OF k])
  next
    case 4
    then have "K_40_59 = sha1_K t" "F_40_59 = sha1_f t"
      by (auto simp: K_40_59_def sha1_K_def sha1_f_def sha1_functions fun_eq_iff)
    note k = this
    have "sha1_call t = BODY_40_59 (body_args ! ?j) (t mod 16) ((t + 2) mod 16) ((t + 8) mod 16) ((t + 13) mod 16)"
      using 4 by (simp add: sha1_call_def Let_def)
    then show ?thesis unfolding r by (simp only: BODY_40_59_def up add [OF k])
  next
    case 5
    with X body_60_79_rotates [OF j v 5, of "t mod 16" X ?W] s w
    show ?thesis unfolding r by (simp add: sha1_call_def Let_def)
  qed
qed

lemma sha1_calls:
  fixes data :: "byte list"
  assumes v: "length v = 6"
  defines "M \<equiv> block_words True data"
  shows "t \<le> 16 \<Longrightarrow> fold sha1_call [0 ..< t] (v, M) = (rotate t (six_rounds M t v), M)"
    and "16 \<le> t \<Longrightarrow> t \<le> 80 \<Longrightarrow>
      \<exists>X. fold sha1_call [0 ..< t] (v, M) = (rotate t (six_rounds M t v), X) \<and> ring_ok (sha1_schedule M) t X"
proof -
  show early: "t \<le> 16 \<Longrightarrow> fold sha1_call [0 ..< t] (v, M) = (rotate t (six_rounds M t v), M)" for t
  proof (induction t)
    case (Suc t)
    then show ?case
      using call_early [of t "six_rounds M t v" data] v by (simp add: M_def del: rotate_Suc)
  qed simp
  show "16 \<le> t \<Longrightarrow> t \<le> 80 \<Longrightarrow>
      \<exists>X. fold sha1_call [0 ..< t] (v, M) = (rotate t (six_rounds M t v), X) \<and> ring_ok (sha1_schedule M) t X" for t
  proof (induction t rule: dec_induct)
    case base
    have "ring_ok (sha1_schedule M) 16 M"
      by (simp add: ring_ok_def M_def block_words_def sha1_schedule.simps)
    then show ?case using early [of 16] by simp
  next
    case (step t)
    then obtain X where f: "fold sha1_call [0 ..< t] (v, M) = (rotate t (six_rounds M t v), X)"
      and ring: "ring_ok (sha1_schedule M) t X" by auto
    have "sha1_call t (rotate t (six_rounds M t v), X) =
        (rotate (Suc t) (six_rounds M (Suc t) v), X[t mod 16 := sha1_schedule M t])"
      using call_late [OF step(1) _ _ ring, of "six_rounds M t v"] step(2,4) v by simp
    with f ring_step [OF ring] show ?case by simp
  qed
qed

lemma length_5E:
  assumes "length v = 5"
  obtains a b c d e where "v = [a, b, c, d, e]"
  using assms by (auto simp: numeral_eq_Suc length_Suc_conv)

lemma length_sha1_round [simp]: "length v = 5 \<Longrightarrow> length (sha1_round t w v) = 5"
  by (erule length_5E) simp

lemma length_sha1_compress [simp]: "length H = 5 \<Longrightarrow> length (sha1_compress M H) = 5"
proof -
  assume "length H = 5"
  then have "length (fold (\<lambda>t. sha1_round t (sha1_schedule M t)) [0 ..< t] H) = 5" for t
    by (induction t) simp_all
  with \<open>length H = 5\<close> show ?thesis by (simp add: sha1_compress_def)
qed

lemma sha1_block_fips:
  assumes "length state = 5"
  shows "sha1_block data state = sha1_compress (block_words True data) state"
proof -
  let ?M = "block_words True data" and ?v = "state @ [0]"
  have v: "length ?v = 6" using assms by simp
  obtain X where f: "fold sha1_call [0 ..< 80] (?v, ?M) = (rotate 80 (six_rounds ?M 80 ?v), X)"
    using sha1_calls(2) [OF v, of 80 data] by auto
  have "length (six_rounds ?M 80 ?v) = 6" using v by simp
  then obtain a b c d e x where s: "six_rounds ?M 80 ?v = [a, b, c, d, e, x]" by (rule length_6E)
  have r: "rotate 80 [a, b, c, d, e, x] = [c, d, e, x, a, b]"
    using rotate_conv_mod [of 80 "[a, b, c, d, e, x]"] by (simp add: numeral_2_eq_2)
  have five: "fold (\<lambda>t. sha1_round t (sha1_schedule ?M t)) [0 ..< 80] state = [a, b, c, d, e]"
    using take_six_rounds [OF v, of ?M 80] s assms by simp
  have ones: "(0xffffffff :: u32) = NOT 0" by simp
  obtain h0 h1 h2 h3 h4 where st: "state = [h0, h1, h2, h3, h4]" using assms by (rule length_5E)
  show ?thesis
    using f s r five unfolding sha1_block_def sha1_compress_def ones st by simp
qed

section \<open>The digest\<close>

lemma sha1_loop_hash: "md_hash sha1_loop sha1_block"
  by (rule md_hash_loop) (simp_all add: sha1_block_def block_words_take)

interpretation sha1: md_hash sha1_block_data_order sha1_block
proof
  fix n :: nat and data :: "byte list" and h :: "u32 list"
  assume "0 < n" and "64 * n \<le> length data"
  then show "sha1_block_data_order h data n = fst (absorb 64 sha1_block h (take (64 * n) data))"
    using md_hash.blk_blocks [OF sha1_loop_hash] by (simp add: sha1_block_data_order_def)
qed

definition fips_sha1 :: "byte list \<Rightarrow> byte list" where
  "fips_sha1 msg = std_bytes True 4 (fst (absorb 64 (\<lambda>b. sha1_compress (std_words True 4 b)) fips1_H0 (std_padded True 64 8 msg)))"

lemma sha1_any_pieces:
  "fst (SHA1_Final (fold (\<lambda>p c. SHA1_Update c p (length p)) pieces SHA1_Init)) = Some (fips_sha1 (concat pieces))"
proof -
  let ?H = "hash_h SHA1_Init" and ?p = "padded True (concat pieces)"
  have c0: "hash_ok SHA1_Init" "num SHA1_Init = 0" "bit_count SHA1_Init = 0" "length ?H = 5"
    by (simp_all add: SHA1_Init_def hash_ok_def bit_count_def)
  from sha1.digest [OF c0(1-3), of True sha1_make_string pieces]
  obtain c' where c': "SHA1_Final (fold (\<lambda>p c. SHA1_Update c p (length p)) pieces SHA1_Init) = (sha1_make_string c', c')"
    "hash_h c' = fst (absorb 64 sha1_block ?H ?p)"
    unfolding SHA1_Final_def SHA1_Update_def by blast
  have "absorb 64 sha1_block ?H ?p = absorb 64 (\<lambda>b. sha1_compress (std_words True 4 b)) ?H ?p \<and>
      length (fst (absorb 64 (\<lambda>b. sha1_compress (std_words True 4 b)) ?H ?p)) = 5"
    by (rule absorb_agree [where P = "\<lambda>s. length s = 5"]) (simp_all add: c0(4) sha1_block_fips block_words_std)
  with c'(2) have h: "hash_h c' = fst (absorb 64 (\<lambda>b. sha1_compress (std_words True 4 b)) ?H ?p)"
    and l: "length (hash_h c') = 5" by simp_all
  obtain a b c d e where "hash_h c' = [a, b, c, d, e]" using l by (rule length_5E)
  then have "sha1_make_string c' = Some (concat (map (HOST_l2c True) (hash_h c')))"
    by (simp add: sha1_make_string_def)
  then show ?thesis using c'(1) h by (simp add: fips_sha1_def HOST_words_std padded_std SHA1_Init_def fips1_H0_def)
qed

text \<open>C18: \<open>SHA1_Update\<close> and \<open>SHA1_Final\<close> compute the SHA-1 of FIPS 180-4, however the message is
  cut into updates.\<close>

theorem sha1_fips:
  "fst (SHA1_Final (fold (\<lambda>p c. SHA1_Update c p (length p)) pieces SHA1_Init)) = Some (fips_sha1 (concat pieces)) \<and>
   SHA1 data (length data) = Some (fips_sha1 data)"
  using sha1_any_pieces [of pieces] sha1_any_pieces [of "[data]"] by (simp add: SHA1_def)

end
