(* ===== verification/Sha256.thy ===== *)
theory Sha256
  imports Md32
begin

text \<open>
  SHA-224 and SHA-256 (\<open>crypto/fipsmodule/sha/sha256.c\<close>, the portable block function). The unrolled
  code passes the eight working variables to its round macros in rotating order and keeps the
  message schedule in a ring of sixteen words; here the variables are a list of registers and a
  macro's arguments are indices into it. The reference is FIPS 180-4, with its own constants, byte
  order and padding.
\<close>

section \<open>The code\<close>

definition K256 :: "u32 list" where
  "K256 = concat [
    [0x428a2f98, 0x71374491, 0xb5c0fbcf, 0xe9b5dba5, 0x3956c25b],
    [0x59f111f1, 0x923f82a4, 0xab1c5ed5, 0xd807aa98, 0x12835b01],
    [0x243185be, 0x550c7dc3, 0x72be5d74, 0x80deb1fe, 0x9bdc06a7],
    [0xc19bf174, 0xe49b69c1, 0xefbe4786, 0x0fc19dc6, 0x240ca1cc],
    [0x2de92c6f, 0x4a7484aa, 0x5cb0a9dc, 0x76f988da, 0x983e5152],
    [0xa831c66d, 0xb00327c8, 0xbf597fc7, 0xc6e00bf3, 0xd5a79147],
    [0x06ca6351, 0x14292967, 0x27b70a85, 0x2e1b2138, 0x4d2c6dfc],
    [0x53380d13, 0x650a7354, 0x766a0abb, 0x81c2c92e, 0x92722c85],
    [0xa2bfe8a1, 0xa81a664b, 0xc24b8b70, 0xc76c51a3, 0xd192e819],
    [0xd6990624, 0xf40e3585, 0x106aa070, 0x19a4c116, 0x1e376c08],
    [0x2748774c, 0x34b0bcb5, 0x391c0cb3, 0x4ed8aa4a, 0x5b9cca4f],
    [0x682e6ff3, 0x748f82ee, 0x78a5636f, 0x84c87814, 0x8cc70208],
    [0x90befffa, 0xa4506ceb, 0xbef9a3f7, 0xc67178f2]]"

definition Sigma0 :: "u32 \<Rightarrow> u32" where
  "Sigma0 x = ROTATE x 30 XOR ROTATE x 19 XOR ROTATE x 10"

definition Sigma1 :: "u32 \<Rightarrow> u32" where
  "Sigma1 x = ROTATE x 26 XOR ROTATE x 21 XOR ROTATE x 7"

definition sigma0 :: "u32 \<Rightarrow> u32" where
  "sigma0 x = ROTATE x 25 XOR ROTATE x 14 XOR drop_bit 3 x"

definition sigma1 :: "u32 \<Rightarrow> u32" where
  "sigma1 x = ROTATE x 15 XOR ROTATE x 13 XOR drop_bit 10 x"

definition Ch :: "u32 \<Rightarrow> u32 \<Rightarrow> u32 \<Rightarrow> u32" where
  "Ch x y z = (x AND y) XOR (NOT x AND z)"

definition Maj :: "u32 \<Rightarrow> u32 \<Rightarrow> u32 \<Rightarrow> u32" where
  "Maj x y z = (x AND y) XOR (x AND z) XOR (y AND z)"

text \<open>The argument lists of the unrolled macro calls, as indices of the registers \<open>a\<close> to \<open>h\<close>.\<close>

definition round_args :: "nat list list" where
  "round_args = [
    [0, 1, 2, 3, 4, 5, 6, 7],
    [7, 0, 1, 2, 3, 4, 5, 6],
    [6, 7, 0, 1, 2, 3, 4, 5],
    [5, 6, 7, 0, 1, 2, 3, 4],
    [4, 5, 6, 7, 0, 1, 2, 3],
    [3, 4, 5, 6, 7, 0, 1, 2],
    [2, 3, 4, 5, 6, 7, 0, 1],
    [1, 2, 3, 4, 5, 6, 7, 0]]"

fun ROUND_00_15 :: "nat \<Rightarrow> nat list \<Rightarrow> u32 \<Rightarrow> u32 list \<Rightarrow> u32 list" where
  "ROUND_00_15 i [a, b, c, d, e, f, g, h] T1 r =
     (let T1 = T1 + (r ! h + Sigma1 (r ! e) + Ch (r ! e) (r ! f) (r ! g) + K256 ! i);
          r = r[h := Sigma0 (r ! a) + Maj (r ! a) (r ! b) (r ! c)];
          r = r[d := r ! d + T1]
      in r[h := r ! h + T1])"
| "ROUND_00_15 i _ T1 r = r"

definition ROUND_16_63 :: "nat \<Rightarrow> nat list \<Rightarrow> u32 list \<times> u32 list \<Rightarrow> u32 list \<times> u32 list" where
  "ROUND_16_63 i args s =
     (case s of (r, X) \<Rightarrow>
        (let s0 = sigma0 (X ! ((i + 1) AND 0x0F));
             s1 = sigma1 (X ! ((i + 14) AND 0x0F));
             T1 = X ! (i AND 0x0F) + (s0 + s1 + X ! ((i + 9) AND 0x0F))
         in (ROUND_00_15 i args T1 r, X[i AND 0x0F := T1])))"

text \<open>One of the first sixteen rounds loads its message word.\<close>

definition load_round :: "byte list \<Rightarrow> nat \<Rightarrow> u32 list \<times> u32 list \<Rightarrow> u32 list \<times> u32 list" where
  "load_round data i s =
     (case s of (r, X) \<Rightarrow>
        (let l = HOST_c2l True (drop (4 * i) data)
         in (ROUND_00_15 i (round_args ! (i mod 8)) l r, X[i := l])))"

text \<open>The body of the loop over \<open>i = 16, 24, ..., 56\<close>.\<close>

definition eight_rounds :: "nat \<Rightarrow> u32 list \<times> u32 list \<Rightarrow> u32 list \<times> u32 list" where
  "eight_rounds i = fold (\<lambda>k. ROUND_16_63 (i + k) (round_args ! k)) [0 ..< 8]"

definition sha256_block :: "byte list \<Rightarrow> u32 list \<Rightarrow> u32 list" where
  "sha256_block data state =
     (case fold eight_rounds [16, 24, 32, 40, 48, 56]
             (fold (load_round data) [0 ..< 16] (take 8 state, replicate 16 0)) of
        (r, X) \<Rightarrow> map (\<lambda>k. state ! k + r ! k) [0 ..< 8])"

fun sha256_block_data_order :: "u32 list \<Rightarrow> byte list \<Rightarrow> nat \<Rightarrow> u32 list" where
  "sha256_block_data_order state data 0 = state"
| "sha256_block_data_order state data (Suc n) =
     sha256_block_data_order (sha256_block data state) (drop 64 data) n"

text \<open>\<open>HASH_MAKE_STRING\<close>: the digest lengths in words of four bytes.\<close>

definition sha256_make_string :: "HASH_CTX \<Rightarrow> byte list option" where
  "sha256_make_string c =
     (if md_len c = 28 then Some (concat (map (\<lambda>nn. HOST_l2c True (hash_h c ! nn)) [0 ..< 28 div 4]))
      else if md_len c = 32 then Some (concat (map (\<lambda>nn. HOST_l2c True (hash_h c ! nn)) [0 ..< 32 div 4]))
      else if 32 < md_len c then None
      else Some (concat (map (\<lambda>nn. HOST_l2c True (hash_h c ! nn)) [0 ..< md_len c div 4])))"

definition SHA224_Init :: HASH_CTX where
  "SHA224_Init = \<lparr>hash_h = [0xc1059ed8, 0x367cd507, 0x3070dd17, 0xf70e5939, 0xffc00b31, 0x68581511, 0x64f98fa7, 0xbefa4fa4],
     Nl = 0, Nh = 0, hash_data = replicate 64 0, num = 0, md_len = 28\<rparr>"

definition SHA256_Init :: HASH_CTX where
  "SHA256_Init = \<lparr>hash_h = [0x6a09e667, 0xbb67ae85, 0x3c6ef372, 0xa54ff53a, 0x510e527f, 0x9b05688c, 0x1f83d9ab, 0x5be0cd19],
     Nl = 0, Nh = 0, hash_data = replicate 64 0, num = 0, md_len = 32\<rparr>"

definition SHA256_Update :: "HASH_CTX \<Rightarrow> byte list \<Rightarrow> size_t \<Rightarrow> HASH_CTX" where
  "SHA256_Update = HASH_UPDATE sha256_block_data_order"

definition SHA256_Final :: "HASH_CTX \<Rightarrow> byte list option \<times> HASH_CTX" where
  "SHA256_Final = HASH_FINAL True sha256_block_data_order sha256_make_string"

definition SHA256_Transform :: "HASH_CTX \<Rightarrow> byte list \<Rightarrow> HASH_CTX" where
  "SHA256_Transform c data = c\<lparr>hash_h := sha256_block_data_order (hash_h c) data 1\<rparr>"

definition SHA224_Update :: "HASH_CTX \<Rightarrow> byte list \<Rightarrow> size_t \<Rightarrow> HASH_CTX" where
  "SHA224_Update = SHA256_Update"

definition SHA224_Final :: "HASH_CTX \<Rightarrow> byte list option \<times> HASH_CTX" where
  "SHA224_Final = SHA256_Final"

text \<open>The one-shot functions ignore the result of the final call; the digest buffer is what it wrote.\<close>

definition SHA224 :: "byte list \<Rightarrow> size_t \<Rightarrow> byte list option" where
  "SHA224 data len = fst (SHA224_Final (SHA224_Update SHA224_Init data len))"

definition SHA256 :: "byte list \<Rightarrow> size_t \<Rightarrow> byte list option" where
  "SHA256 data len = fst (SHA256_Final (SHA256_Update SHA256_Init data len))"

section \<open>The compression function of FIPS 180-4\<close>

definition rotr :: "nat \<Rightarrow> u32 \<Rightarrow> u32" where
  "rotr n x = drop_bit n x OR push_bit (32 - n) x"

fun schedule :: "u32 list \<Rightarrow> nat \<Rightarrow> u32" where
  "schedule M t =
     (if t < 16 then M ! t
      else
        (rotr 17 (schedule M (t - 2)) XOR rotr 19 (schedule M (t - 2)) XOR drop_bit 10 (schedule M (t - 2))) +
        schedule M (t - 7) +
        (rotr 7 (schedule M (t - 15)) XOR rotr 18 (schedule M (t - 15)) XOR drop_bit 3 (schedule M (t - 15))) +
        schedule M (t - 16))"

declare schedule.simps [simp del]

text \<open>The round constants are bits of the cube roots of the first 64 primes, the initial hash values bits
  of the square roots of the first sixteen.\<close>

definition fips_K256 :: "nat \<Rightarrow> u32" where
  "fips_K256 t = of_nat (root_fraction 3 32 (first_primes ! t))"

definition fips256_H0 :: "u32 list" where
  "fips256_H0 = map (\<lambda>p. of_nat (root_fraction 2 32 p)) (take 8 first_primes)"

definition fips224_H0 :: "u32 list" where
  "fips224_H0 = map (\<lambda>p. of_nat (root_fraction 2 64 p mod 2 ^ 32)) (take 8 (drop 8 first_primes))"

fun fips_round :: "nat \<Rightarrow> u32 \<Rightarrow> u32 list \<Rightarrow> u32 list" where
  "fips_round t W [a, b, c, d, e, f, g, h] =
     (let T1 = h + (rotr 6 e XOR rotr 11 e XOR rotr 25 e) + ((e AND f) XOR (NOT e AND g)) + fips_K256 t + W;
          T2 = (rotr 2 a XOR rotr 13 a XOR rotr 22 a) + ((a AND b) XOR (a AND c) XOR (b AND c))
      in [T1 + T2, a, b, c, d + T1, e, f, g])"
| "fips_round t W _ = []"

definition fips_compress :: "u32 list \<Rightarrow> u32 list \<Rightarrow> u32 list" where
  "fips_compress M H = map2 (+) H (fold (\<lambda>t. fips_round t (schedule M t)) [0 ..< 64] H)"

section \<open>The code computes it\<close>

lemma ROTATE_rotr: "n \<le> 32 \<Longrightarrow> ROTATE x n = rotr (32 - n) x"
  by (simp add: ROTATE_def rotr_def or.commute)

lemma sigmas:
  "Sigma0 x = rotr 2 x XOR rotr 13 x XOR rotr 22 x"
  "Sigma1 x = rotr 6 x XOR rotr 11 x XOR rotr 25 x"
  "sigma0 x = rotr 7 x XOR rotr 18 x XOR drop_bit 3 x"
  "sigma1 x = rotr 17 x XOR rotr 19 x XOR drop_bit 10 x"
  by (simp_all add: Sigma0_def Sigma1_def sigma0_def sigma1_def ROTATE_rotr)

lemma K256_fips:
  assumes "t < 64" shows "K256 ! t = fips_K256 t"
proof -
  have "are_fractions 3 32 (take 64 first_primes) [1, 1, 1, 1, 2, 2, 2, 2, 2, 3, 3, 3, 3, 3, 3, 3, 3, 3, 4, 4, 4, 4, 4, 4, 4, 4, 4, 4, 4, 4, 5, 5, 5, 5, 5, 5, 5, 5, 5, 5, 5, 5, 5, 5, 5, 5, 5, 6, 6, 6, 6, 6, 6, 6, 6, 6, 6, 6, 6, 6, 6, 6, 6, 6] (map unat K256)"
    by (simp add: first_primes_def K256_def)
  then have "K256 = map (\<lambda>p. of_nat (root_fraction 3 32 p)) (take 64 first_primes)" by (rule root_table [rotated]) simp
  then have "K256 ! t = map (\<lambda>p. of_nat (root_fraction 3 32 p)) (take 64 first_primes) ! t" by (rule arg_cong)
  moreover have "t < length (take 64 first_primes)" using assms by (simp add: first_primes_def)
  ultimately show ?thesis by (simp add: fips_K256_def)
qed

lemma init_fips: "hash_h SHA256_Init = fips256_H0" "hash_h SHA224_Init = fips224_H0"
proof -
  have "are_fractions 2 32 (take 8 first_primes) [1, 1, 2, 2, 3, 3, 4, 4] (map unat (hash_h SHA256_Init))" by (simp add: first_primes_def SHA256_Init_def)
  then show "hash_h SHA256_Init = fips256_H0" unfolding fips256_H0_def by (rule root_table [rotated]) simp
  let ?fs = "[0xcbbb9d5dc1059ed8, 0x629a292a367cd507, 0x9159015a3070dd17, 0x152fecd8f70e5939, 0x67332667ffc00b31, 0x8eb44a8768581511, 0xdb0c2e0d64f98fa7, 0x47b5481dbefa4fa4] :: nat list"
  have "are_fractions 2 64 (take 8 (drop 8 first_primes)) [4, 5, 5, 6, 6, 6, 6, 7] ?fs" by (simp add: first_primes_def)
  then have "map (root_fraction 2 64) (take 8 (drop 8 first_primes)) = ?fs" by (rule root_fractions [rotated]) simp
  from arg_cong [OF this, of "map (\<lambda>f. of_nat (f mod 2 ^ 32) :: u32)"]
  have "fips224_H0 = map (\<lambda>f. of_nat (f mod 2 ^ 32)) ?fs" unfolding fips224_H0_def map_map comp_def .
  then show "hash_h SHA224_Init = fips224_H0" by (simp add: SHA224_Init_def)
qed

lemma length_8E:
  assumes "length v = 8"
  obtains a b c d e f g h where "v = [a, b, c, d, e, f, g, h]"
  using assms by (auto simp: numeral_eq_Suc length_Suc_conv)

lemma length_fips_round [simp]: "length v = 8 \<Longrightarrow> length (fips_round t w v) = 8"
  by (erule length_8E) (simp add: Let_def)

text \<open>A macro call with the arguments of row \<open>j\<close> is a round on registers rotated by \<open>j\<close>.\<close>

lemma round_rotates:
  assumes "j < 8" and "length v = 8" and "i < 64"
  shows "ROUND_00_15 i (round_args ! j) w (rotate j v) = rotate (Suc j) (fips_round i w v)"
proof -
  obtain a b c d e f g h where v: "v = [a, b, c, d, e, f, g, h]" using assms(2) by (rule length_8E)
  have "j = 0 \<or> j = 1 \<or> j = 2 \<or> j = 3 \<or> j = 4 \<or> j = 5 \<or> j = 6 \<or> j = 7" using assms(1) by linarith
  then show ?thesis
    unfolding v
    by (elim disjE) (simp_all add: K256_fips [OF assms(3)] round_args_def Let_def sigmas Ch_def Maj_def numeral_eq_Suc ac_simps)
qed

text \<open>After \<open>t\<close> rounds the registers hold the reference's variables rotated by \<open>t\<close>, and the ring
  the last sixteen words of the schedule.\<close>

definition fips_rounds :: "u32 list \<Rightarrow> nat \<Rightarrow> u32 list \<Rightarrow> u32 list" where
  "fips_rounds M t H = fold (\<lambda>t. fips_round t (schedule M t)) [0 ..< t] H"

definition round_inv :: "u32 list \<Rightarrow> u32 list \<Rightarrow> nat \<Rightarrow> u32 list \<times> u32 list \<Rightarrow> bool" where
  "round_inv M H t s \<longleftrightarrow>
     (case s of (r, X) \<Rightarrow> r = rotate t (fips_rounds M t H) \<and> ring_ok (schedule M) t X)"

lemma length_fips_rounds [simp]: "length H = 8 \<Longrightarrow> length (fips_rounds M t H) = 8"
  by (induction t) (simp_all add: fips_rounds_def)

lemma round_inv_step:
  assumes inv: "round_inv M H t (r, X)" and H: "length H = 8" and t: "t < 64"
  shows "round_inv M H (Suc t) (ROUND_00_15 t (round_args ! (t mod 8)) (schedule M t) r, X[t mod 16 := schedule M t])"
proof -
  let ?v = "fips_rounds M t H"
  have l: "length ?v = 8" using H by simp
  have r: "r = rotate (t mod 8) ?v"
    using inv rotate_conv_mod [of t ?v] by (simp add: round_inv_def l)
  have "ROUND_00_15 t (round_args ! (t mod 8)) (schedule M t) r = rotate (Suc (t mod 8)) (fips_round t (schedule M t) ?v)"
    unfolding r using round_rotates [OF _ l t] by simp
  also have "\<dots> = rotate (Suc t) (fips_rounds M (Suc t) H)"
    using rotate_step [of "fips_round t (schedule M t) ?v" 8 t] l by (simp add: fips_rounds_def)
  finally show ?thesis using inv ring_step [of "schedule M" t X] by (simp add: round_inv_def)
qed

lemma load_round_inv:
  assumes "round_inv (block_words True data) H t s" and "length H = 8" and "t < 16"
  shows "round_inv (block_words True data) H (Suc t) (load_round data t s)"
proof -
  obtain r X where s: "s = (r, X)" by (cases s)
  have "schedule (block_words True data) t = HOST_c2l True (drop (4 * t) data)"
    using assms(3) by (simp add: schedule.simps block_words_nth)
  with round_inv_step [OF assms(1) [unfolded s] assms(2)] assms(3)
  show ?thesis by (simp add: load_round_def s Let_def)
qed

lemma ring_round_inv:
  assumes inv: "round_inv M H t s" and "length H = 8" and "16 \<le> t" and "t < 64"
  shows "round_inv M H (Suc t) (ROUND_16_63 t (round_args ! (t mod 8)) s)"
proof -
  obtain r X where s: "s = (r, X)" by (cases s)
  have ago: "X ! ((t + k) mod 16) = schedule M (t + k - 16)" if "k < 16" for k
    using inv assms(3) that ring_ago [of "schedule M" t X k] by (simp add: round_inv_def s)
  have "X ! ((t + 1) AND 0x0F) = schedule M (t - 15)" "X ! ((t + 14) AND 0x0F) = schedule M (t - 2)"
    "X ! ((t + 9) AND 0x0F) = schedule M (t - 7)" "X ! (t AND 0x0F) = schedule M (t - 16)"
    using ago [of 1] ago [of 14] ago [of 9] ago [of 0] unfolding and_15 by simp_all
  then have "X ! (t AND 0x0F) + (sigma0 (X ! ((t + 1) AND 0x0F)) + sigma1 (X ! ((t + 14) AND 0x0F)) + X ! ((t + 9) AND 0x0F)) =
      schedule M t"
    using assms(3) by (simp add: schedule.simps [of M t] sigmas add_ac)
  then have "ROUND_16_63 t (round_args ! (t mod 8)) s =
      (ROUND_00_15 t (round_args ! (t mod 8)) (schedule M t) r, X[t mod 16 := schedule M t])"
    by (simp add: ROUND_16_63_def s Let_def and_15)
  with round_inv_step [OF inv [unfolded s] assms(2,4)] show ?thesis by simp
qed

lemma eight_rounds_inv:
  assumes "round_inv M H i s" and "length H = 8" and "16 \<le> i" and "i mod 8 = 0" and "i + 8 \<le> 64"
  shows "round_inv M H (i + 8) (eight_rounds i s)"
proof -
  have "k \<le> 8 \<Longrightarrow> round_inv M H (i + k) (fold (\<lambda>k. ROUND_16_63 (i + k) (round_args ! k)) [0 ..< k] s)" for k
  proof (induction k)
    case (Suc k)
    have "(i + k) mod 8 = k" using mod_add_left_eq [of i 8 k] assms(4) Suc.prems by simp
    with ring_round_inv [OF Suc.IH assms(2)] Suc.prems assms(3,5) show ?case by simp
  qed (use assms(1) in simp)
  then show ?thesis by (simp add: eight_rounds_def)
qed

lemma sha256_block_fips:
  assumes "length state = 8"
  shows "sha256_block data state = fips_compress (block_words True data) state"
proof -
  let ?M = "block_words True data"
  have "k \<le> 16 \<Longrightarrow> round_inv ?M state k (fold (load_round data) [0 ..< k] (state, replicate 16 0))" for k
  proof (induction k)
    case (Suc k)
    with load_round_inv [of data state k] assms show ?case by simp
  qed (simp add: round_inv_def fips_rounds_def ring_start)
  then have 16: "round_inv ?M state 16 (fold (load_round data) [0 ..< 16] (state, replicate 16 0))" by simp
  note e = eight_rounds_inv [OF _ assms]
  have "round_inv ?M state 64 (fold eight_rounds [16, 24, 32, 40, 48, 56]
      (fold (load_round data) [0 ..< 16] (state, replicate 16 0)))"
    using e [OF e [OF e [OF e [OF e [OF e [OF 16]]]]]] by simp
  then obtain r X where f: "fold eight_rounds [16, 24, 32, 40, 48, 56]
      (fold (load_round data) [0 ..< 16] (state, replicate 16 0)) = (r, X)"
    and r: "r = rotate 64 (fips_rounds ?M 64 state)"
    by (auto simp: round_inv_def split: prod.splits)
  have "r = fips_rounds ?M 64 state"
    using r rotate_conv_mod [of 64 "fips_rounds ?M 64 state"] assms by simp
  moreover have "length (fips_rounds ?M 64 state) = 8" using assms by simp
  ultimately have "map (\<lambda>k. state ! k + r ! k) [0 ..< 8] = map2 (+) state (fips_rounds ?M 64 state)"
    using assms by (intro nth_equalityI) simp_all
  then show ?thesis using f assms by (simp add: sha256_block_def fips_compress_def fips_rounds_def)
qed

section \<open>The digest\<close>

lemma sha256_block_take: "64 \<le> length data \<Longrightarrow> sha256_block (take 64 data) h = sha256_block data h"
proof -
  have "fold (load_round (take 64 data)) [0 ..< 16] s = fold (load_round data) [0 ..< 16] s" for s
    by (rule fold_cong) (auto simp: load_round_def HOST_c2l_take)
  then show ?thesis by (simp add: sha256_block_def)
qed

interpretation sha256: md_hash sha256_block_data_order sha256_block
  by (rule md_hash_loop) (simp_all add: sha256_block_take)

text \<open>The hash of FIPS 180-4: pad the message, run the compression function over its blocks, write
  the words of the state in big-endian order.\<close>

definition fips_hash :: "u32 list \<Rightarrow> byte list \<Rightarrow> u32 list" where
  "fips_hash H msg = fst (absorb 64 (\<lambda>b. fips_compress (std_words True 4 b)) H (std_padded True 64 8 msg))"

definition fips_sha256 :: "byte list \<Rightarrow> byte list" where
  "fips_sha256 msg = std_bytes True 4 (fips_hash fips256_H0 msg)"

definition fips_sha224 :: "byte list \<Rightarrow> byte list" where
  "fips_sha224 msg = std_bytes True 4 (take 7 (fips_hash fips224_H0 msg))"

lemma blocks_fips:
  assumes "length H = 8"
  shows "absorb 64 sha256_block H bs = absorb 64 (\<lambda>b. fips_compress (std_words True 4 b)) H bs \<and>
    length (fst (absorb 64 (\<lambda>b. fips_compress (std_words True 4 b)) H bs)) = 8"
  by (rule absorb_agree [where P = "\<lambda>s. length s = 8"])
    (simp_all add: assms sha256_block_fips block_words_std fips_compress_def fips_rounds_def [symmetric])

lemma sha256_any_pieces:
  assumes fresh: "c0 = SHA256_Init \<or> c0 = SHA224_Init"
  shows "fst (SHA256_Final (fold (\<lambda>p c. SHA256_Update c p (length p)) pieces c0)) =
    Some (concat (map (HOST_l2c True) (take (md_len c0 div 4) (fips_hash (hash_h c0) (concat pieces)))))"
proof -
  have c0: "hash_ok c0" "num c0 = 0" "bit_count c0 = 0" "length (hash_h c0) = 8" "md_len c0 = 28 \<or> md_len c0 = 32"
    using fresh by (auto simp: SHA256_Init_def SHA224_Init_def hash_ok_def bit_count_def)
  from sha256.digest [OF c0(1-3), of True sha256_make_string pieces]
  obtain c' where c': "SHA256_Final (fold (\<lambda>p c. SHA256_Update c p (length p)) pieces c0) = (sha256_make_string c', c')"
    "md_len c' = md_len c0" "hash_h c' = fst (absorb 64 sha256_block (hash_h c0) (padded True (concat pieces)))"
    unfolding SHA256_Final_def SHA256_Update_def by blast
  with blocks_fips [OF c0(4), of "padded True (concat pieces)", unfolded padded_std]
  have h: "hash_h c' = fips_hash (hash_h c0) (concat pieces)" "length (hash_h c') = 8"
    by (simp_all add: fips_hash_def padded_std)
  have "sha256_make_string c' = Some (concat (map (HOST_l2c True) (take (md_len c0 div 4) (hash_h c'))))"
    using c0(5) c'(2) h(2) by (auto simp: sha256_make_string_def map_nth_take)
  with c'(1) h(1) show ?thesis by simp
qed

lemma length_fips_hash: "length H = 8 \<Longrightarrow> length (fips_hash H msg) = 8"
  using blocks_fips [of H "std_padded True 64 8 msg"] by (simp add: fips_hash_def)

lemma sha2_pieces:
  "fst (SHA256_Final (fold (\<lambda>p c. SHA256_Update c p (length p)) pieces SHA256_Init)) = Some (fips_sha256 (concat pieces))"
  "fst (SHA224_Final (fold (\<lambda>p c. SHA224_Update c p (length p)) pieces SHA224_Init)) = Some (fips_sha224 (concat pieces))"
proof -
  have l: "md_len SHA256_Init div 4 = 8" "md_len SHA224_Init div 4 = 7"
    "length (hash_h SHA256_Init) = 8" by (simp_all add: SHA256_Init_def SHA224_Init_def)
  have "take 8 (fips_hash (hash_h SHA256_Init) msg) = fips_hash (hash_h SHA256_Init) msg" for msg
    using length_fips_hash [OF l(3), of msg] by simp
  then show "fst (SHA256_Final (fold (\<lambda>p c. SHA256_Update c p (length p)) pieces SHA256_Init)) = Some (fips_sha256 (concat pieces))"
    "fst (SHA224_Final (fold (\<lambda>p c. SHA224_Update c p (length p)) pieces SHA224_Init)) = Some (fips_sha224 (concat pieces))"
    using sha256_any_pieces [of SHA256_Init pieces] sha256_any_pieces [of SHA224_Init pieces]
    by (simp_all add: l fips_sha256_def fips_sha224_def HOST_words_std init_fips SHA224_Final_def SHA224_Update_def)
qed

text \<open>C12: \<open>SHA256_Update\<close> and \<open>SHA256_Final\<close> compute the SHA-256 and SHA-224 of FIPS 180-4,
  however the message is cut into updates.\<close>

theorem sha256_fips:
  "fst (SHA256_Final (fold (\<lambda>p c. SHA256_Update c p (length p)) pieces SHA256_Init)) = Some (fips_sha256 (concat pieces)) \<and>
   fst (SHA224_Final (fold (\<lambda>p c. SHA224_Update c p (length p)) pieces SHA224_Init)) = Some (fips_sha224 (concat pieces)) \<and>
   SHA256 data (length data) = Some (fips_sha256 data) \<and> SHA224 data (length data) = Some (fips_sha224 data)"
  using sha2_pieces [of pieces] sha2_pieces [of "[data]"] by (simp add: SHA256_def SHA224_def)

end
