(* ===== verification/Sha512.thy ===== *)
theory Sha512
  imports Sha256
begin

text \<open>
  SHA-384 and SHA-512 (\<open>crypto/fipsmodule/sha/sha512.c\<close>, the portable block function). This file does
  not use the 32-bit template: it has its own collector for blocks of 128 bytes and counts bits in
  two 64-bit words. The reference is FIPS 180-4 again.
\<close>

section \<open>The code\<close>

record SHA512_CTX =
  s5_h :: "u64 list"
  s5_Nl :: u64
  s5_Nh :: u64
  s5_p :: "byte list"
  s5_num :: nat
  s5_md_len :: nat

definition K512 :: "u64 list" where
  "K512 = concat [
    [0x428a2f98d728ae22, 0x7137449123ef65cd],
    [0xb5c0fbcfec4d3b2f, 0xe9b5dba58189dbbc],
    [0x3956c25bf348b538, 0x59f111f1b605d019],
    [0x923f82a4af194f9b, 0xab1c5ed5da6d8118],
    [0xd807aa98a3030242, 0x12835b0145706fbe],
    [0x243185be4ee4b28c, 0x550c7dc3d5ffb4e2],
    [0x72be5d74f27b896f, 0x80deb1fe3b1696b1],
    [0x9bdc06a725c71235, 0xc19bf174cf692694],
    [0xe49b69c19ef14ad2, 0xefbe4786384f25e3],
    [0x0fc19dc68b8cd5b5, 0x240ca1cc77ac9c65],
    [0x2de92c6f592b0275, 0x4a7484aa6ea6e483],
    [0x5cb0a9dcbd41fbd4, 0x76f988da831153b5],
    [0x983e5152ee66dfab, 0xa831c66d2db43210],
    [0xb00327c898fb213f, 0xbf597fc7beef0ee4],
    [0xc6e00bf33da88fc2, 0xd5a79147930aa725],
    [0x06ca6351e003826f, 0x142929670a0e6e70],
    [0x27b70a8546d22ffc, 0x2e1b21385c26c926],
    [0x4d2c6dfc5ac42aed, 0x53380d139d95b3df],
    [0x650a73548baf63de, 0x766a0abb3c77b2a8],
    [0x81c2c92e47edaee6, 0x92722c851482353b],
    [0xa2bfe8a14cf10364, 0xa81a664bbc423001],
    [0xc24b8b70d0f89791, 0xc76c51a30654be30],
    [0xd192e819d6ef5218, 0xd69906245565a910],
    [0xf40e35855771202a, 0x106aa07032bbd1b8],
    [0x19a4c116b8d2d0c8, 0x1e376c085141ab53],
    [0x2748774cdf8eeb99, 0x34b0bcb5e19b48a8],
    [0x391c0cb3c5c95a63, 0x4ed8aa4ae3418acb],
    [0x5b9cca4f7763e373, 0x682e6ff3d6b2b8a3],
    [0x748f82ee5defb2fc, 0x78a5636f43172f60],
    [0x84c87814a1f0ab72, 0x8cc702081a6439ec],
    [0x90befffa23631e28, 0xa4506cebde82bde9],
    [0xbef9a3f7b2c67915, 0xc67178f2e372532b],
    [0xca273eceea26619c, 0xd186b8c721c0c207],
    [0xeada7dd6cde0eb1e, 0xf57d4f7fee6ed178],
    [0x06f067aa72176fba, 0x0a637dc5a2c898a6],
    [0x113f9804bef90dae, 0x1b710b35131c471b],
    [0x28db77f523047d84, 0x32caab7b40c72493],
    [0x3c9ebe0a15c9bebc, 0x431d67c49c100d4c],
    [0x4cc5d4becb3e42b6, 0x597f299cfc657e2a],
    [0x5fcb6fab3ad6faec, 0x6c44198c4a475817]]"

definition sha512_ROTR :: "u64 \<Rightarrow> nat \<Rightarrow> u64" where
  "sha512_ROTR x s = drop_bit s x OR push_bit (64 - s) x"

definition PULL64 :: "byte list \<Rightarrow> u64" where
  "PULL64 x =
     (let B = (\<lambda>j. push_bit ((7 - j) * 8) (ucast (x ! j)) :: u64)
      in B 0 OR B 1 OR B 2 OR B 3 OR B 4 OR B 5 OR B 6 OR B 7)"

definition sha512_Sigma0 :: "u64 \<Rightarrow> u64" where
  "sha512_Sigma0 x = sha512_ROTR x 28 XOR sha512_ROTR x 34 XOR sha512_ROTR x 39"

definition sha512_Sigma1 :: "u64 \<Rightarrow> u64" where
  "sha512_Sigma1 x = sha512_ROTR x 14 XOR sha512_ROTR x 18 XOR sha512_ROTR x 41"

definition sha512_sigma0 :: "u64 \<Rightarrow> u64" where
  "sha512_sigma0 x = sha512_ROTR x 1 XOR sha512_ROTR x 8 XOR drop_bit 7 x"

definition sha512_sigma1 :: "u64 \<Rightarrow> u64" where
  "sha512_sigma1 x = sha512_ROTR x 19 XOR sha512_ROTR x 61 XOR drop_bit 6 x"

definition sha512_Ch :: "u64 \<Rightarrow> u64 \<Rightarrow> u64 \<Rightarrow> u64" where
  "sha512_Ch x y z = (x AND y) XOR (NOT x AND z)"

definition sha512_Maj :: "u64 \<Rightarrow> u64 \<Rightarrow> u64 \<Rightarrow> u64" where
  "sha512_Maj x y z = (x AND y) XOR (x AND z) XOR (y AND z)"

fun sha512_ROUND_00_15 :: "nat \<Rightarrow> nat list \<Rightarrow> u64 \<Rightarrow> u64 list \<Rightarrow> u64 list" where
  "sha512_ROUND_00_15 i [a, b, c, d, e, f, g, h] T1 r =
     (let T1 = T1 + (r ! h + sha512_Sigma1 (r ! e) + sha512_Ch (r ! e) (r ! f) (r ! g) + K512 ! i);
          r = r[h := sha512_Sigma0 (r ! a) + sha512_Maj (r ! a) (r ! b) (r ! c)];
          r = r[d := r ! d + T1]
      in r[h := r ! h + T1])"
| "sha512_ROUND_00_15 i _ T1 r = r"

definition sha512_ROUND_16_80 :: "nat \<Rightarrow> nat \<Rightarrow> nat list \<Rightarrow> u64 list \<times> u64 list \<Rightarrow> u64 list \<times> u64 list" where
  "sha512_ROUND_16_80 i j args s =
     (case s of (r, X) \<Rightarrow>
        (let s0 = sha512_sigma0 (X ! ((j + 1) AND 0x0F));
             s1 = sha512_sigma1 (X ! ((j + 14) AND 0x0F));
             T1 = X ! (j AND 0x0F) + (s0 + s1 + X ! ((j + 9) AND 0x0F))
         in (sha512_ROUND_00_15 (i + j) args T1 r, X[j AND 0x0F := T1])))"

definition sha512_load_round :: "byte list \<Rightarrow> nat \<Rightarrow> u64 list \<times> u64 list \<Rightarrow> u64 list \<times> u64 list" where
  "sha512_load_round W i s =
     (case s of (r, X) \<Rightarrow>
        (let l = PULL64 (drop (8 * i) W)
         in (sha512_ROUND_00_15 i (round_args ! (i mod 8)) l r, X[i := l])))"

text \<open>The body of the loop over \<open>i = 16, 32, 48, 64\<close>.\<close>

definition sixteen_rounds :: "nat \<Rightarrow> u64 list \<times> u64 list \<Rightarrow> u64 list \<times> u64 list" where
  "sixteen_rounds i = fold (\<lambda>j. sha512_ROUND_16_80 i j (round_args ! (j mod 8))) [0 ..< 16]"

definition sha512_block :: "byte list \<Rightarrow> u64 list \<Rightarrow> u64 list" where
  "sha512_block W state =
     (case fold sixteen_rounds [16, 32, 48, 64]
             (fold (sha512_load_round W) [0 ..< 16] (take 8 state, replicate 16 0)) of
        (r, X) \<Rightarrow> map (\<lambda>k. state ! k + r ! k) [0 ..< 8])"

fun sha512_block_data_order :: "u64 list \<Rightarrow> byte list \<Rightarrow> nat \<Rightarrow> u64 list" where
  "sha512_block_data_order state W 0 = state"
| "sha512_block_data_order state W (Suc n) = sha512_block_data_order (sha512_block W state) (drop 128 W) n"

text \<open>The initialisers leave the block buffer as it is; its former contents are a parameter.\<close>

definition SHA384_Init :: "byte list \<Rightarrow> SHA512_CTX" where
  "SHA384_Init junk = \<lparr>s5_h = [0xcbbb9d5dc1059ed8, 0x629a292a367cd507, 0x9159015a3070dd17, 0x152fecd8f70e5939,
     0x67332667ffc00b31, 0x8eb44a8768581511, 0xdb0c2e0d64f98fa7, 0x47b5481dbefa4fa4],
     s5_Nl = 0, s5_Nh = 0, s5_p = junk, s5_num = 0, s5_md_len = 48\<rparr>"

definition SHA512_Init :: "byte list \<Rightarrow> SHA512_CTX" where
  "SHA512_Init junk = \<lparr>s5_h = [0x6a09e667f3bcc908, 0xbb67ae8584caa73b, 0x3c6ef372fe94f82b, 0xa54ff53a5f1d36f1,
     0x510e527fade682d1, 0x9b05688c2b3e6c1f, 0x1f83d9abfb41bd6b, 0x5be0cd19137e2179],
     s5_Nl = 0, s5_Nh = 0, s5_p = junk, s5_num = 0, s5_md_len = 64\<rparr>"

definition sha512_count :: "size_t \<Rightarrow> SHA512_CTX \<Rightarrow> SHA512_CTX" where
  "sha512_count len c =
     (let l = s5_Nl c + push_bit 3 (of_nat len);
          c = (if l < s5_Nl c then c\<lparr>s5_Nh := s5_Nh c + 1\<rparr> else c)
      in c\<lparr>s5_Nh := s5_Nh c + of_nat (len div 2 ^ 61), s5_Nl := l\<rparr>)"

definition sha512_update_rest :: "SHA512_CTX \<Rightarrow> byte list \<Rightarrow> size_t \<Rightarrow> SHA512_CTX" where
  "sha512_update_rest c data len =
     (let (c, data, len) =
            (if 128 \<le> len
             then (c\<lparr>s5_h := sha512_block_data_order (s5_h c) data (len div 128)\<rparr>, drop (len - len mod 128) data, len mod 128)
             else (c, data, len))
      in if len \<noteq> 0 then c\<lparr>s5_p := splice 0 (take len data) (s5_p c), s5_num := len\<rparr> else c)"

text \<open>Where words must be read from aligned addresses, whole blocks at an unaligned address are copied to the
  block buffer one by one. \<open>copied_blocks_same\<close> shows that this gives the state, the rest of the data and
  the rest of the length of the branch above, which is the one the digests below are stated for.\<close>

function sha512_copied_blocks :: "SHA512_CTX \<Rightarrow> byte list \<Rightarrow> size_t \<Rightarrow> SHA512_CTX \<times> byte list \<times> size_t" where
  "sha512_copied_blocks c data len =
     (if len < 128 then (c, data, len)
      else (let p = splice 0 (take 128 data) (s5_p c)
            in sha512_copied_blocks (c\<lparr>s5_p := p, s5_h := sha512_block_data_order (s5_h c) p 1\<rparr>) (drop 128 data) (len - 128)))"
  by pat_completeness auto
termination
  by (relation "measure (\<lambda>(c, data, len). len)") auto

declare sha512_copied_blocks.simps [simp del]

definition SHA512_Update :: "SHA512_CTX \<Rightarrow> byte list \<Rightarrow> size_t \<Rightarrow> SHA512_CTX" where
  "SHA512_Update c data len =
     (if len = 0 then c
      else
        (let c = sha512_count len c
         in if s5_num c \<noteq> 0
            then
              (let n = 128 - s5_num c
               in if len < n
                  then c\<lparr>s5_p := splice (s5_num c) (take len data) (s5_p c), s5_num := s5_num c + len\<rparr>
                  else
                    (let p = splice (s5_num c) (take n data) (s5_p c)
                     in sha512_update_rest
                          (c\<lparr>s5_p := p, s5_num := 0, s5_h := sha512_block_data_order (s5_h c) p 1\<rparr>)
                          (drop n data) (len - n)))
            else sha512_update_rest c data len))"

definition sha512_word_bytes :: "u64 \<Rightarrow> byte list" where
  "sha512_word_bytes t = [ucast (drop_bit 56 t), ucast (drop_bit 48 t), ucast (drop_bit 40 t), ucast (drop_bit 32 t),
     ucast (drop_bit 24 t), ucast (drop_bit 16 t), ucast (drop_bit 8 t), ucast t]"

text \<open>\<open>None\<close> is the result 0: no output buffer, or a digest length that is neither of the two.\<close>

definition SHA512_Final :: "bool \<Rightarrow> SHA512_CTX \<Rightarrow> byte list option \<times> SHA512_CTX" where
  "SHA512_Final md_null sha =
     (let n = s5_num sha;
          p = (s5_p sha)[n := 0x80];
          n = n + 1;
          (n, h, p) =
            (if 128 - 16 < n
             then (let p = splice n (replicate (128 - n) 0) p in (0, sha512_block_data_order (s5_h sha) p 1, p))
             else (n, s5_h sha, p));
          p = splice n (replicate (128 - 16 - n) 0) p;
          p = splice (128 - 16) (sha512_word_bytes (s5_Nh sha) @ sha512_word_bytes (s5_Nl sha)) p;
          h = sha512_block_data_order h p 1;
          sha = sha\<lparr>s5_h := h, s5_p := p\<rparr>
      in (if md_null then None
          else if s5_md_len sha = 48 then Some (concat (map (\<lambda>n. sha512_word_bytes (h ! n)) [0 ..< 48 div 8]))
          else if s5_md_len sha = 64 then Some (concat (map (\<lambda>n. sha512_word_bytes (h ! n)) [0 ..< 64 div 8]))
          else None, sha))"

definition SHA512_Transform :: "SHA512_CTX \<Rightarrow> byte list \<Rightarrow> SHA512_CTX" where
  "SHA512_Transform c block = c\<lparr>s5_h := sha512_block_data_order (s5_h c) block 1\<rparr>"

definition SHA384_Update :: "SHA512_CTX \<Rightarrow> byte list \<Rightarrow> size_t \<Rightarrow> SHA512_CTX" where
  "SHA384_Update = SHA512_Update"

definition SHA384_Final :: "bool \<Rightarrow> SHA512_CTX \<Rightarrow> byte list option \<times> SHA512_CTX" where
  "SHA384_Final = SHA512_Final"

definition SHA384 :: "byte list \<Rightarrow> byte list \<Rightarrow> size_t \<Rightarrow> byte list option" where
  "SHA384 junk data len = fst (SHA384_Final False (SHA384_Update (SHA384_Init junk) data len))"

definition SHA512 :: "byte list \<Rightarrow> byte list \<Rightarrow> size_t \<Rightarrow> byte list option" where
  "SHA512 junk data len = fst (SHA512_Final False (SHA512_Update (SHA512_Init junk) data len))"

section \<open>The compression function of FIPS 180-4\<close>

fun sha512_schedule :: "u64 list \<Rightarrow> nat \<Rightarrow> u64" where
  "sha512_schedule M t =
     (if t < 16 then M ! t
      else
        (word_rotr 19 (sha512_schedule M (t - 2)) XOR word_rotr 61 (sha512_schedule M (t - 2)) XOR
           drop_bit 6 (sha512_schedule M (t - 2))) +
        sha512_schedule M (t - 7) +
        (word_rotr 1 (sha512_schedule M (t - 15)) XOR word_rotr 8 (sha512_schedule M (t - 15)) XOR
           drop_bit 7 (sha512_schedule M (t - 15))) +
        sha512_schedule M (t - 16))"

declare sha512_schedule.simps [simp del]

text \<open>Bits of the cube roots of the first eighty primes and of the square roots of the first sixteen.\<close>

definition fips_K512 :: "nat \<Rightarrow> u64" where
  "fips_K512 t = of_nat (root_fraction 3 64 (first_primes ! t))"

definition fips512_H0 :: "u64 list" where
  "fips512_H0 = map (\<lambda>p. of_nat (root_fraction 2 64 p)) (take 8 first_primes)"

definition fips384_H0 :: "u64 list" where
  "fips384_H0 = map (\<lambda>p. of_nat (root_fraction 2 64 p)) (take 8 (drop 8 first_primes))"

fun fips512_round :: "nat \<Rightarrow> u64 \<Rightarrow> u64 list \<Rightarrow> u64 list" where
  "fips512_round t W [a, b, c, d, e, f, g, h] =
     (let T1 = h + (word_rotr 14 e XOR word_rotr 18 e XOR word_rotr 41 e) + ((e AND f) XOR (NOT e AND g)) + fips_K512 t + W;
          T2 = (word_rotr 28 a XOR word_rotr 34 a XOR word_rotr 39 a) + ((a AND b) XOR (a AND c) XOR (b AND c))
      in [T1 + T2, a, b, c, d + T1, e, f, g])"
| "fips512_round t W _ = []"

definition fips512_rounds :: "u64 list \<Rightarrow> nat \<Rightarrow> u64 list \<Rightarrow> u64 list" where
  "fips512_rounds M t H = fold (\<lambda>t. fips512_round t (sha512_schedule M t)) [0 ..< t] H"

definition fips512_compress :: "u64 list \<Rightarrow> u64 list \<Rightarrow> u64 list" where
  "fips512_compress M H = map2 (+) H (fips512_rounds M 80 H)"

definition block_words64 :: "byte list \<Rightarrow> u64 list" where
  "block_words64 data = map (\<lambda>i. PULL64 (drop (8 * i) data)) [0 ..< 16]"

section \<open>The code computes it\<close>

lemma sha512_ROTR_std: "n < 64 \<Longrightarrow> sha512_ROTR x n = word_rotr n x"
  using rotr_bits [of n x] by (simp add: sha512_ROTR_def)

lemma K512_fips:
  assumes "t < 80" shows "K512 ! t = fips_K512 t"
proof -
  have "are_fractions 3 64 first_primes [1, 1, 1, 1, 2, 2, 2, 2, 2, 3, 3, 3, 3, 3, 3, 3, 3, 3, 4, 4, 4, 4, 4, 4, 4, 4, 4, 4, 4, 4, 5, 5, 5, 5, 5, 5, 5, 5, 5, 5, 5, 5, 5, 5, 5, 5, 5, 6, 6, 6, 6, 6, 6, 6, 6, 6, 6, 6, 6, 6, 6, 6, 6, 6, 6, 6, 6, 6, 7, 7, 7, 7, 7, 7, 7, 7, 7, 7, 7, 7] (map unat K512)"
    by (simp add: first_primes_def K512_def)
  then have "K512 = map (\<lambda>p. of_nat (root_fraction 3 64 p)) first_primes" by (rule root_table [rotated]) simp
  then have "K512 ! t = map (\<lambda>p. of_nat (root_fraction 3 64 p)) first_primes ! t" by (rule arg_cong)
  moreover have "t < length first_primes" using assms by (simp add: first_primes_def)
  ultimately show ?thesis by (simp add: fips_K512_def)
qed

lemma init512_fips: "s5_h (SHA512_Init junk) = fips512_H0" "s5_h (SHA384_Init junk) = fips384_H0"
proof -
  have "are_fractions 2 64 (take 8 first_primes) [1, 1, 2, 2, 3, 3, 4, 4] (map unat (s5_h (SHA512_Init junk)))"
    by (simp add: first_primes_def SHA512_Init_def)
  then show "s5_h (SHA512_Init junk) = fips512_H0" unfolding fips512_H0_def by (rule root_table [rotated]) simp
  have "are_fractions 2 64 (take 8 (drop 8 first_primes)) [4, 5, 5, 6, 6, 6, 6, 7] (map unat (s5_h (SHA384_Init junk)))"
    by (simp add: first_primes_def SHA384_Init_def)
  then show "s5_h (SHA384_Init junk) = fips384_H0" unfolding fips384_H0_def by (rule root_table [rotated]) simp
qed

lemma PULL64_std: "8 \<le> length c \<Longrightarrow> PULL64 c = of_nat (std_number True (take 8 c))"
proof -
  assume "8 \<le> length c"
  then have "take 8 c = [c ! 0, c ! 1, c ! 2, c ! 3, c ! 4, c ! 5, c ! 6, c ! 7]"
    by (intro nth_equalityI) (auto simp: less_Suc_eq numeral_eq_Suc)
  then show ?thesis by (simp add: PULL64_def std_number_8 or.assoc)
qed

lemma block_words64_std: "length b = 128 \<Longrightarrow> block_words64 b = std_words True 8 b"
  unfolding block_words64_def std_words_def by (rule map_cong [OF refl]) (simp add: PULL64_std)

lemma word_bytes_std: "sha512_word_bytes w = std_digits True 8 (unat w)"
  by (simp add: sha512_word_bytes_def std_digits_8)

lemma words_bytes_std: "concat (map sha512_word_bytes ws) = std_bytes True 8 ws"
  by (simp add: std_bytes_def word_bytes_std [abs_def] fun_eq_iff cong: map_cong)

lemma length_fips512_round [simp]: "length v = 8 \<Longrightarrow> length (fips512_round t w v) = 8"
  by (erule length_8E) (simp add: Let_def)

lemma fips512_rounds_step [simp]: "fips512_rounds M 0 H = H"
  "fips512_rounds M (Suc t) H = fips512_round t (sha512_schedule M t) (fips512_rounds M t H)"
  by (simp_all add: fips512_rounds_def)

lemma length_fips512_rounds [simp]: "length H = 8 \<Longrightarrow> length (fips512_rounds M t H) = 8"
  by (induction t) simp_all

lemma round512_rotates:
  assumes "j < 8" and "length v = 8" and "i < 80"
  shows "sha512_ROUND_00_15 i (round_args ! j) w (rotate j v) = rotate (Suc j) (fips512_round i w v)"
proof -
  obtain a b c d e f g h where v: "v = [a, b, c, d, e, f, g, h]" using assms(2) by (rule length_8E)
  have "j = 0 \<or> j = 1 \<or> j = 2 \<or> j = 3 \<or> j = 4 \<or> j = 5 \<or> j = 6 \<or> j = 7" using assms(1) by linarith
  then show ?thesis
    unfolding v
    by (elim disjE) (simp_all add: K512_fips [OF assms(3)] round_args_def Let_def sha512_Sigma0_def sha512_Sigma1_def sha512_Ch_def
        sha512_Maj_def sha512_ROTR_std numeral_eq_Suc ac_simps)
qed

definition round512_inv :: "u64 list \<Rightarrow> u64 list \<Rightarrow> nat \<Rightarrow> u64 list \<times> u64 list \<Rightarrow> bool" where
  "round512_inv M H t s \<longleftrightarrow>
     (case s of (r, X) \<Rightarrow> r = rotate t (fips512_rounds M t H) \<and> ring_ok (sha512_schedule M) t X)"

lemma round512_inv_step:
  assumes inv: "round512_inv M H t (r, X)" and H: "length H = 8" and t: "t < 80"
  shows "round512_inv M H (Suc t)
    (sha512_ROUND_00_15 t (round_args ! (t mod 8)) (sha512_schedule M t) r, X[t mod 16 := sha512_schedule M t])"
proof -
  let ?v = "fips512_rounds M t H"
  have l: "length ?v = 8" using H by simp
  have r: "r = rotate (t mod 8) ?v"
    using inv rotate_conv_mod [of t ?v] by (simp add: round512_inv_def l)
  have "sha512_ROUND_00_15 t (round_args ! (t mod 8)) (sha512_schedule M t) r =
      rotate (Suc (t mod 8)) (fips512_round t (sha512_schedule M t) ?v)"
    unfolding r using round512_rotates [OF _ l t] by simp
  also have "\<dots> = rotate (Suc t) (fips512_rounds M (Suc t) H)"
    using rotate_step [of "fips512_round t (sha512_schedule M t) ?v" 8 t] l by simp
  finally show ?thesis using inv ring_step [of "sha512_schedule M" t X] by (simp add: round512_inv_def)
qed

lemma load512_round_inv:
  assumes "round512_inv (block_words64 data) H t s" and "length H = 8" and "t < 16"
  shows "round512_inv (block_words64 data) H (Suc t) (sha512_load_round data t s)"
proof -
  obtain r X where s: "s = (r, X)" by (cases s)
  have "sha512_schedule (block_words64 data) t = PULL64 (drop (8 * t) data)"
    using assms(3) by (simp add: sha512_schedule.simps block_words64_def)
  with round512_inv_step [OF assms(1) [unfolded s] assms(2)] assms(3)
  show ?thesis by (simp add: sha512_load_round_def s Let_def)
qed

lemma ring512_round_inv:
  assumes inv: "round512_inv M H t s" and "length H = 8" and "16 \<le> t" and j: "t = i + j" "i mod 16 = 0" "j < 16" and t: "t < 80"
  shows "round512_inv M H (Suc t) (sha512_ROUND_16_80 i j (round_args ! (j mod 8)) s)"
proof -
  obtain r X where s: "s = (r, X)" by (cases s)
  have tj: "(t + k) mod 16 = (j + k) mod 16" for k
    using mod_add_left_eq [of i 16 "j + k"] j(1,2) by (simp add: add.assoc)
  have t8: "t mod 8 = j mod 8"
  proof -
    have "i mod 8 = 0" using j(2) by (metis mod_mod_cancel mod_0 dvd_triv_right num_double numeral_times_numeral)
    then show ?thesis using mod_add_left_eq [of i 8 j] j(1) by simp
  qed
  have ago: "X ! ((j + k) mod 16) = sha512_schedule M (t + k - 16)" if "k < 16" for k
    using inv assms(3) that ring_ago [of "sha512_schedule M" t X k] tj [of k] by (simp add: round512_inv_def s)
  have "X ! ((j + 1) AND 0x0F) = sha512_schedule M (t - 15)" "X ! ((j + 14) AND 0x0F) = sha512_schedule M (t - 2)"
    "X ! ((j + 9) AND 0x0F) = sha512_schedule M (t - 7)" "X ! (j AND 0x0F) = sha512_schedule M (t - 16)"
    using ago [of 1] ago [of 14] ago [of 9] ago [of 0] unfolding and_15 by simp_all
  then have "X ! (j AND 0x0F) + (sha512_sigma0 (X ! ((j + 1) AND 0x0F)) + sha512_sigma1 (X ! ((j + 14) AND 0x0F)) +
      X ! ((j + 9) AND 0x0F)) = sha512_schedule M t"
    using assms(3) by (simp add: sha512_schedule.simps [of M t] sha512_sigma0_def sha512_sigma1_def sha512_ROTR_std add_ac)
  moreover have "j AND 0x0F = t mod 16" using tj [of 0] unfolding and_15 by simp
  ultimately have "sha512_ROUND_16_80 i j (round_args ! (j mod 8)) s =
      (sha512_ROUND_00_15 t (round_args ! (t mod 8)) (sha512_schedule M t) r, X[t mod 16 := sha512_schedule M t])"
    using j(1) t8 by (simp add: sha512_ROUND_16_80_def s Let_def)
  with round512_inv_step [OF inv [unfolded s] assms(2) t] show ?thesis by simp
qed

lemma sixteen_rounds_inv:
  assumes "round512_inv M H i s" and "length H = 8" and "16 \<le> i" and "i mod 16 = 0" and "i + 16 \<le> 80"
  shows "round512_inv M H (i + 16) (sixteen_rounds i s)"
proof -
  have "k \<le> 16 \<Longrightarrow>
      round512_inv M H (i + k) (fold (\<lambda>j. sha512_ROUND_16_80 i j (round_args ! (j mod 8))) [0 ..< k] s)" for k
  proof (induction k)
    case (Suc k)
    then show ?case using ring512_round_inv [OF Suc.IH assms(2), of i k] assms(3,4,5) by simp
  qed (use assms(1) in simp)
  then show ?thesis by (simp add: sixteen_rounds_def)
qed

lemma sha512_block_fips:
  assumes "length state = 8"
  shows "sha512_block data state = fips512_compress (block_words64 data) state"
proof -
  let ?M = "block_words64 data"
  have "k \<le> 16 \<Longrightarrow> round512_inv ?M state k (fold (sha512_load_round data) [0 ..< k] (state, replicate 16 0))" for k
  proof (induction k)
    case (Suc k)
    with load512_round_inv [of data state k] assms show ?case by simp
  qed (simp add: round512_inv_def ring_start)
  then have 16: "round512_inv ?M state 16 (fold (sha512_load_round data) [0 ..< 16] (state, replicate 16 0))" by simp
  note e = sixteen_rounds_inv [OF _ assms]
  have "round512_inv ?M state 80 (fold sixteen_rounds [16, 32, 48, 64]
      (fold (sha512_load_round data) [0 ..< 16] (state, replicate 16 0)))"
    using e [OF e [OF e [OF e [OF 16]]]] by simp
  then obtain r X where f: "fold sixteen_rounds [16, 32, 48, 64]
      (fold (sha512_load_round data) [0 ..< 16] (state, replicate 16 0)) = (r, X)"
    and r: "r = rotate 80 (fips512_rounds ?M 80 state)"
    by (auto simp: round512_inv_def split: prod.splits)
  have "r = fips512_rounds ?M 80 state"
    using r rotate_conv_mod [of 80 "fips512_rounds ?M 80 state"] assms by simp
  moreover have "length (fips512_rounds ?M 80 state) = 8" using assms by simp
  ultimately have "map (\<lambda>k. state ! k + r ! k) [0 ..< 8] = map2 (+) state (fips512_rounds ?M 80 state)"
    using assms by (intro nth_equalityI) simp_all
  then show ?thesis using f assms by (simp add: sha512_block_def fips512_compress_def)
qed

section \<open>The collector\<close>

definition bit_count128 :: "SHA512_CTX \<Rightarrow> nat" where
  "bit_count128 c = unat (s5_Nh c) * 2 ^ 64 + unat (s5_Nl c)"

lemma bit_count128_less: "bit_count128 c < 2 ^ 128"
  using unsigned_less [of "s5_Nh c", where 'a = nat] unsigned_less [of "s5_Nl c", where 'a = nat]
  by (simp add: bit_count128_def)

lemma sha512_count_sum: "bit_count128 (sha512_count len c) = (bit_count128 c + 8 * len) mod 2 ^ 128"
proof -
  define a where "a = unat (s5_Nl c)"
  define m where "m = (len * 8) mod 2 ^ 64"
  have am: "a < 2 ^ 64" "m < 2 ^ 64"
    using unsigned_less [of "s5_Nl c", where 'a = nat] by (simp_all add: a_def m_def)
  have "(push_bit 3 (of_nat len) :: u64) = of_nat (len * 8)" by (simp add: push_bit_eq_mult)
  then have l: "unat (s5_Nl c + push_bit 3 (of_nat len)) = (a + m) mod 2 ^ 64"
    by (simp add: unat_word_ariths unat_of_nat a_def m_def mod_simps)
  have carry: "s5_Nl c + push_bit 3 (of_nat len) < s5_Nl c \<longleftrightarrow> 2 ^ 64 \<le> a + m"
    unfolding word_less_nat_alt l using am by (auto simp: a_def [symmetric] mod_if)
  have split: "len * 8 = (len div 2 ^ 61) * 2 ^ 64 + m"
  proof -
    have "len * 8 = (len * 8) div 2 ^ 64 * 2 ^ 64 + (len * 8) mod 2 ^ 64" by (rule div_mult_mod_eq [symmetric])
    moreover have "(len * 8) div 2 ^ 64 = len div 2 ^ 61"
      using div_mult_mult1 [of 8 len "2 ^ 61"] by (simp add: mult.commute)
    ultimately show ?thesis by (simp add: m_def)
  qed
  have nh: "unat (s5_Nh (sha512_count len c)) =
      (unat (s5_Nh c) + (if 2 ^ 64 \<le> a + m then 1 else 0) + len div 2 ^ 61) mod 2 ^ 64"
    by (simp add: sha512_count_def Let_def carry unat_word_ariths unat_of_nat mod_simps)
  have nl: "unat (s5_Nl (sha512_count len c)) = (a + m) - (if 2 ^ 64 \<le> a + m then 2 ^ 64 else 0)"
    using am by (simp add: sha512_count_def Let_def l mod_if)
  define x where "x = unat (s5_Nh c) + (if 2 ^ 64 \<le> a + m then 1 else 0) + len div 2 ^ 61"
  define r where "r = (a + m) - (if 2 ^ 64 \<le> a + m then 2 ^ 64 else 0)"
  have r: "r < 2 ^ 64" using am by (auto simp: r_def)
  have s: "bit_count128 c + 8 * len = r + 2 ^ 64 * x"
    using split by (simp add: bit_count128_def a_def [symmetric] x_def r_def algebra_simps)
  have "(r + 2 ^ 64 * x) mod (2 ^ 64 * 2 ^ 64) = 2 ^ 64 * ((r + 2 ^ 64 * x) div 2 ^ 64 mod 2 ^ 64) + (r + 2 ^ 64 * x) mod 2 ^ 64"
    by (rule mod_mult2_eq)
  also have "(r + 2 ^ 64 * x) div 2 ^ 64 = x" using r by simp
  also have "(r + 2 ^ 64 * x) mod 2 ^ 64 = r" using r by simp
  finally have "(r + 2 ^ 64 * x) mod 2 ^ 128 = 2 ^ 64 * (x mod 2 ^ 64) + r" by simp
  then show ?thesis
    unfolding s bit_count128_def [of "sha512_count len c"] nh nl x_def [symmetric] r_def [symmetric] by (simp only: mult.commute)
qed

definition s5_ok :: "SHA512_CTX \<Rightarrow> bool" where
  "s5_ok c \<longleftrightarrow> length (s5_p c) = 128 \<and> s5_num c < 128"

definition s5_pending :: "SHA512_CTX \<Rightarrow> byte list" where
  "s5_pending c = take (s5_num c) (s5_p c)"

definition padded128 :: "byte list \<Rightarrow> byte list" where
  "padded128 msg =
     (let bits = 8 * length msg mod 2 ^ 128
      in msg @ 0x80 # replicate ((239 - length msg mod 128) mod 128) 0 @
         sha512_word_bytes (of_nat (bits div 2 ^ 64)) @ sha512_word_bytes (of_nat bits))"

lemma sha512_count_fields [simp]:
  "s5_h (sha512_count len c) = s5_h c" "s5_p (sha512_count len c) = s5_p c"
  "s5_num (sha512_count len c) = s5_num c" "s5_md_len (sha512_count len c) = s5_md_len c"
  by (simp_all add: sha512_count_def Let_def)

lemma PULL64_take: "i + 8 \<le> n \<Longrightarrow> PULL64 (drop i (take n data)) = PULL64 (drop i data)"
  by (simp add: PULL64_def drop_take nth_append)

lemma sha512_block_take: "128 \<le> length data \<Longrightarrow> sha512_block (take 128 data) h = sha512_block data h"
proof -
  have "fold (sha512_load_round (take 128 data)) [0 ..< 16] s = fold (sha512_load_round data) [0 ..< 16] s" for s
    by (rule fold_cong) (auto simp: sha512_load_round_def PULL64_take)
  then show ?thesis by (simp add: sha512_block_def)
qed

lemma sha512_blocks: "128 * n \<le> length data \<Longrightarrow>
  sha512_block_data_order h data n = fst (absorb 128 sha512_block h (take (128 * n) data))"
proof (induction n arbitrary: h data)
  case (Suc n)
  let ?b = "take 128 data"
  have l: "length ?b = 128" "128 * n \<le> length (drop 128 data)" using Suc.prems by simp_all
  have "take (128 * Suc n) data = ?b @ take (128 * n) (drop 128 data)"
    using take_add [of 128 "128 * n" data] by simp
  then have "absorb 128 sha512_block h (take (128 * Suc n) data) =
      absorb 128 sha512_block (sha512_block data h) (take (128 * n) (drop 128 data))"
    using absorb_block [OF l(1), of sha512_block h] sha512_block_take [of data h] Suc.prems by simp
  then show ?case using Suc.IH [OF l(2)] by simp
qed simp

lemma sha512_one: "length d = 128 \<Longrightarrow> sha512_block_data_order h d 1 = sha512_block d h"
  by simp

lemma copied_blocks_same:
  "length (s5_p c) = 128 \<Longrightarrow> len \<le> length data \<Longrightarrow>
   \<exists>p. length p = 128 \<and> sha512_copied_blocks c data len =
     (c\<lparr>s5_p := p, s5_h := sha512_block_data_order (s5_h c) data (len div 128)\<rparr>, drop (len - len mod 128) data, len mod 128)"
proof (induction c data len rule: sha512_copied_blocks.induct)
  case (1 c data len)
  show ?case
  proof (cases "len < 128")
    case True
    then show ?thesis using 1(2) by (simp add: sha512_copied_blocks.simps [of c data len] exI [of _ "s5_p c"])
  next
    case False
    let ?p = "take 128 data"
    have g: "128 \<le> length data" using 1(3) False by simp
    have p: "splice 0 ?p (s5_p c) = ?p" "length ?p = 128" using 1(2,3) False by (simp_all add: splice_def)
    have h: "sha512_block_data_order (s5_h c) ?p 1 = sha512_block data (s5_h c)"
      using sha512_one [of ?p "s5_h c"] sha512_block_take [of data "s5_h c"] 1(3) False by simp
    have n: "len div 128 = Suc ((len - 128) div 128)" "len mod 128 = (len - 128) mod 128" "128 + (len - 128 - (len - 128) mod 128) = len - (len - 128) mod 128"
      using False by (simp_all add: le_div_geq le_mod_geq)
    obtain q where "length q = 128" "sha512_copied_blocks (c\<lparr>s5_p := ?p, s5_h := sha512_block data (s5_h c)\<rparr>) (drop 128 data) (len - 128) =
        (c\<lparr>s5_p := q, s5_h := sha512_block_data_order (sha512_block data (s5_h c)) (drop 128 data) ((len - 128) div 128)\<rparr>,
         drop (len - 128 - (len - 128) mod 128) (drop 128 data), (len - 128) mod 128)"
      using 1(1) [OF False refl] diff_le_mono [OF 1(3), of 128] unfolding p(1) h by (auto simp: min_absorb2 g)
    then show ?thesis using False p(1) h n by (simp add: sha512_copied_blocks.simps [of c data len] Let_def exI [of _ q])
  qed
qed

lemma sha512_update_rest_absorbs:
  fixes data :: "byte list" and c :: SHA512_CTX
  assumes "length (s5_p c) = 128" and "s5_num c = 0"
  defines "c' \<equiv> sha512_update_rest c data (length data)"
  shows "s5_ok c'" "(s5_h c', s5_pending c') = absorb 128 sha512_block (s5_h c) data"
    "bit_count128 c' = bit_count128 c" "s5_md_len c' = s5_md_len c"
proof -
  define n where "n = length data div 128"
  define rest where "rest = drop (n * 128) data"
  define hh where "hh = fst (absorb 128 sha512_block (s5_h c) (take (128 * n) data))"
  have lr: "length rest < 128" "length data mod 128 = length rest"
    by (simp_all add: rest_def n_def minus_div_mult_eq_mod)
  have "length data - length data mod 128 = n * 128" by (simp add: n_def minus_mod_eq_div_mult)
  then have cut: "drop (length data - length rest) data = rest" by (simp only: lr(2)) (simp add: rest_def)
  have a: "absorb 128 sha512_block (s5_h c) data = (hh, rest)"
    using absorb_whole [of 128 sha512_block "s5_h c" data] by (simp add: hh_def rest_def n_def mult.commute)
  have b: "sha512_block_data_order (s5_h c) data n = hh"
    using sha512_blocks [of n data "s5_h c"] by (simp add: hh_def n_def)
  have z: "length data < 128 \<Longrightarrow> hh = s5_h c \<and> rest = data" by (simp add: hh_def rest_def n_def)
  have c': "c' = (if rest \<noteq> []
      then c\<lparr>s5_h := hh, s5_p := splice 0 rest (s5_p c), s5_num := length rest\<rparr>
      else c\<lparr>s5_h := hh\<rparr>)"
  proof (cases "length data < 128")
    case True
    then show ?thesis using z by (simp add: c'_def sha512_update_rest_def)
  next
    case False
    then show ?thesis
      by (simp add: c'_def sha512_update_rest_def n_def [symmetric] b cut lr(2))
  qed
  show "s5_ok c'" using assms(1,2) lr(1) by (simp add: c' s5_ok_def)
  show "(s5_h c', s5_pending c') = absorb 128 sha512_block (s5_h c) data"
    using assms(1,2) by (simp add: c' a s5_pending_def splice_def)
  show "bit_count128 c' = bit_count128 c" "s5_md_len c' = s5_md_len c" by (simp_all add: c' bit_count128_def)
qed

lemma sha512_update_absorbs:
  fixes data :: "byte list" and c :: SHA512_CTX
  assumes ok: "s5_ok c"
  defines "c' \<equiv> SHA512_Update c data (length data)"
  shows "s5_ok c' \<and> (s5_h c', s5_pending c') = absorb 128 sha512_block (s5_h c) (s5_pending c @ data) \<and>
    bit_count128 c' = (bit_count128 c + 8 * length data) mod 2 ^ 128 \<and> s5_md_len c' = s5_md_len c"
proof -
  let ?n = "s5_num c" and ?c = "sha512_count (length data) c"
  note bits = sha512_count_sum [of "length data" c]
  have n: "?n < 128" "length (s5_p c) = 128" using ok by (simp_all add: s5_ok_def)
  show ?thesis
  proof (cases "data = []")
    case True
    then show ?thesis
      using n ok bit_count128_less [of c] by (simp add: c'_def SHA512_Update_def s5_pending_def)
  next
    case ne: False
    show ?thesis
    proof (cases "?n = 0")
      case True
      then have "c' = sha512_update_rest ?c data (length data)"
        using ne by (simp add: c'_def SHA512_Update_def Let_def)
      with sha512_update_rest_absorbs [of ?c data] n True bits show ?thesis
        by (simp add: s5_pending_def)
    next
      case nz: False
      show ?thesis
      proof (cases "length data < 128 - ?n")
        case True
        then have c': "c' = ?c\<lparr>s5_p := splice ?n data (s5_p c), s5_num := ?n + length data\<rparr>"
          using ne nz by (simp add: c'_def SHA512_Update_def Let_def)
        have "take (?n + length data) (splice ?n data (s5_p c)) = s5_pending c @ data"
          using n by (simp add: take_splice_end s5_pending_def)
        then show ?thesis
          using True n bits by (simp add: c' s5_ok_def s5_pending_def bit_count128_def)
      next
        case False
        let ?b = "splice ?n (take (128 - ?n) data) (s5_p c)"
        let ?c1 = "?c\<lparr>s5_p := ?b, s5_num := 0, s5_h := sha512_block_data_order (s5_h c) ?b 1\<rparr>"
        have c': "c' = sha512_update_rest ?c1 (drop (128 - ?n) data) (length (drop (128 - ?n) data))"
          using False nz ne by (simp add: c'_def SHA512_Update_def Let_def)
        have l: "128 - ?n \<le> length data" using False by simp
        then have b: "?b = s5_pending c @ take (128 - ?n) data"
          using n by (simp add: splice_def s5_pending_def)
        then have lb: "length ?b = 128" using l n by (simp add: s5_pending_def)
        then have "s5_h ?c1 = sha512_block ?b (s5_h c)" by simp
        moreover have "absorb 128 sha512_block (s5_h c) (s5_pending c @ data) =
            absorb 128 sha512_block (sha512_block ?b (s5_h c)) (drop (128 - ?n) data)"
          using absorb_block [OF lb, of sha512_block "s5_h c" "drop (128 - ?n) data"] by (simp add: b)
        ultimately show ?thesis
          using sha512_update_rest_absorbs [of ?c1 "drop (128 - ?n) data"] bits lb unfolding c' [symmetric]
          by (simp add: bit_count128_def)
      qed
    qed
  qed
qed

interpretation sha512: block_stream 128 sha512_block s5_h s5_pending s5_ok "\<lambda>_. True"
    "\<lambda>bs c. SHA512_Update c bs (length bs)"
  by unfold_locales (use sha512_update_absorbs in simp_all)

section \<open>The digest\<close>

lemma length_sha512_word_bytes [simp]: "length (sha512_word_bytes t) = 8"
  by (simp add: sha512_word_bytes_def)

lemma final_blocks128:
  fixes d lb :: "byte list"
  assumes "length d = 128" "n < 128" "length lb = 16"
  defines "d1 \<equiv> d[n := 0x80]"
  shows "n \<le> 111 \<Longrightarrow> splice 112 lb (splice (n + 1) (replicate (111 - n) 0) d1) = take n d @ 0x80 # replicate (111 - n) 0 @ lb"
    "splice (n + 1) (replicate (127 - n) 0) d1 = take n d @ 0x80 # replicate (127 - n) 0"
    "length d2 = 128 \<Longrightarrow> splice 112 lb (splice 0 (replicate 112 0) d2) = replicate 112 0 @ lb"
proof -
  have t: "take (Suc n) d1 = take n d @ [0x80]"
    using assms by (simp add: take_Suc_conv_app_nth)
  show "splice 112 lb (splice (n + 1) (replicate (111 - n) 0) d1) = take n d @ 0x80 # replicate (111 - n) 0 @ lb" if "n \<le> 111"
  proof -
    have "length d1 = 128" using assms by simp
    moreover have "112 - n = Suc (111 - n)" using that by simp
    ultimately show ?thesis using that assms(1,3) t by (simp add: splice_def)
  qed
  show "splice (n + 1) (replicate (127 - n) 0) d1 = take n d @ 0x80 # replicate (127 - n) 0"
    using assms(1,2) t by (simp add: splice_def d1_def)
  show "splice 112 lb (splice 0 (replicate 112 0) d2) = replicate 112 0 @ lb" if "length d2 = 128"
    using that assms(3) by (simp add: splice_def)
qed

definition sha512_output :: "bool \<Rightarrow> nat \<Rightarrow> u64 list \<Rightarrow> byte list option" where
  "sha512_output md_null dlen h =
     (if md_null then None
      else if dlen = 48 then Some (concat (map (\<lambda>n. sha512_word_bytes (h ! n)) [0 ..< 6]))
      else if dlen = 64 then Some (concat (map (\<lambda>n. sha512_word_bytes (h ! n)) [0 ..< 8]))
      else None)"

lemma sha512_final_absorbs:
  assumes ok: "s5_ok c"
    and msg: "absorb 128 sha512_block h0 msg = (s5_h c, s5_pending c)"
    and bits: "bit_count128 c = 8 * length msg mod 2 ^ 128"
  shows "fst (SHA512_Final md_null c) = sha512_output md_null (s5_md_len c) (fst (absorb 128 sha512_block h0 (padded128 msg)))"
proof -
  define n where "n = s5_num c"
  define p where "p = s5_pending c"
  define lb where "lb = sha512_word_bytes (s5_Nh c) @ sha512_word_bytes (s5_Nl c)"
  have n: "n < 128" "length (s5_p c) = 128" "length p = n"
    using ok by (simp_all add: s5_ok_def n_def p_def s5_pending_def)
  have lb: "length lb = 16" by (simp add: lb_def)
  have lm: "length msg mod 128 = n"
    using absorb_rest [of 128 sha512_block h0 msg] n(3) msg
    by (simp add: p_def minus_mult_div_eq_mod)
  have words: "sha512_word_bytes (of_nat (8 * length msg mod 2 ^ 128 div 2 ^ 64)) @
      sha512_word_bytes (of_nat (8 * length msg mod 2 ^ 128)) = lb"
  proof -
    have "(18446744073709551616 :: u64) = 0" by simp
    then have "w * 18446744073709551616 = 0" for w :: u64 by (simp only: mult_zero_right)
    then have "s5_Nh c = of_nat (bit_count128 c div 2 ^ 64)" "s5_Nl c = of_nat (bit_count128 c)"
      using unsigned_less [of "s5_Nl c", where 'a = nat] by (simp_all add: bit_count128_def)
    then show ?thesis by (simp only: lb_def bits)
  qed
  define z where "z = (239 - n) mod 128"
  have pad: "absorb 128 sha512_block h0 (padded128 msg) = absorb 128 sha512_block (s5_h c) (p @ 0x80 # replicate z 0 @ lb)"
    using absorb_append [of 128 sha512_block h0 msg "0x80 # replicate z 0 @ lb"] msg
    unfolding padded128_def Let_def words lm z_def [symmetric] p_def [symmetric] by simp
  show ?thesis
  proof (cases "n \<le> 111")
    case True
    have "239 - n = (111 - n) + 128" using True by simp
    then have z: "z = 111 - n" unfolding z_def by (simp only: mod_add_self2) simp
    let ?d = "p @ 0x80 # replicate z 0 @ lb"
    have l: "length ?d = 128" using n(3) lb True by (simp add: z)
    have "splice 112 lb (splice (n + 1) (replicate (111 - n) 0) ((s5_p c)[n := 0x80])) = ?d"
      using final_blocks128(1) [OF n(2,1) lb True] by (simp add: p_def s5_pending_def n_def z)
    then have "fst (SHA512_Final md_null c) = sha512_output md_null (s5_md_len c) (sha512_block_data_order (s5_h c) ?d 1)"
      unfolding SHA512_Final_def Let_def n_def [symmetric] lb_def [symmetric] sha512_output_def using True by simp
    moreover have "absorb 128 sha512_block (s5_h c) ?d = (sha512_block ?d (s5_h c), [])"
      using absorb_block [OF l, of sha512_block "s5_h c" "[]"] by simp
    ultimately show ?thesis using sha512_one [OF l] pad by simp
  next
    case False
    have z: "z = (127 - n) + 112" unfolding z_def using False n(1) by simp
    let ?d1 = "p @ 0x80 # replicate (127 - n) 0" and ?d2 = "replicate 112 0 @ lb"
    have l: "length ?d1 = 128" "length ?d2 = 128" using n(3,1) lb by simp_all
    have 1: "splice (n + 1) (replicate (127 - n) 0) ((s5_p c)[n := 0x80]) = ?d1"
      using final_blocks128(2) [OF n(2,1) lb] by (simp add: p_def s5_pending_def n_def)
    have 2: "splice 112 lb (splice 0 (replicate 112 0) ?d1) = ?d2"
      using final_blocks128(3) [OF n(2,1) lb l(1)] .
    have "128 - (n + 1) = 127 - n" by simp
    then have "fst (SHA512_Final md_null c) = sha512_output md_null (s5_md_len c)
        (sha512_block_data_order (sha512_block_data_order (s5_h c) ?d1 1) ?d2 1)"
      unfolding SHA512_Final_def Let_def n_def [symmetric] lb_def [symmetric] sha512_output_def using False 1 2
      by simp
    moreover have cat: "p @ 0x80 # replicate z 0 @ lb = ?d1 @ ?d2" unfolding z replicate_add by simp
    have "absorb 128 sha512_block (s5_h c) (p @ 0x80 # replicate z 0 @ lb) = (sha512_block ?d2 (sha512_block ?d1 (s5_h c)), [])"
      using absorb_block [OF l(1), of sha512_block "s5_h c" ?d2]
        absorb_block [OF l(2), of sha512_block "sha512_block ?d1 (s5_h c)" "[]"]
      unfolding cat by simp
    ultimately show ?thesis using sha512_one [OF l(1)] sha512_one [OF l(2)] pad by simp
  qed
qed

definition fips512_hash :: "u64 list \<Rightarrow> byte list \<Rightarrow> u64 list" where
  "fips512_hash H msg = fst (absorb 128 (\<lambda>b. fips512_compress (std_words True 8 b)) H (std_padded True 128 16 msg))"

definition fips_sha512 :: "byte list \<Rightarrow> byte list" where
  "fips_sha512 msg = std_bytes True 8 (fips512_hash fips512_H0 msg)"

definition fips_sha384 :: "byte list \<Rightarrow> byte list" where
  "fips_sha384 msg = std_bytes True 8 (take 6 (fips512_hash fips384_H0 msg))"

lemma padded128_std: "padded128 msg = std_padded True 128 16 msg"
proof -
  let ?n = "8 * length msg mod 256 ^ 16"
  have "unat (of_nat (?n div 2 ^ 64) :: u64) = ?n div 256 ^ 8 mod 256 ^ 8" "unat (of_nat ?n :: u64) = ?n mod 256 ^ 8"
    by (simp_all add: unat_of_nat)
  then have "sha512_word_bytes (of_nat (?n div 2 ^ 64)) @ sha512_word_bytes (of_nat ?n) = std_digits True 8 (?n div 256 ^ 8) @ std_digits True 8 ?n"
    by (simp only: word_bytes_std std_digits_mod order_refl)
  also have "\<dots> = std_digits True (8 + 8) ?n" by (simp only: std_digits_split)
  also have "\<dots> = std_digits True 16 (8 * length msg)" by (simp only: std_digits_mod order_refl) simp
  finally show ?thesis by (simp add: padded128_def std_padded_def Let_def)
qed

lemma sha512_count_updates:
  assumes "s5_ok c"
  shows "bit_count128 (fold (\<lambda>p c. SHA512_Update c p (length p)) pieces c) =
    (bit_count128 c + 8 * length (concat pieces)) mod 2 ^ 128 \<and>
    s5_md_len (fold (\<lambda>p c. SHA512_Update c p (length p)) pieces c) = s5_md_len c"
  using assms
proof (induction pieces arbitrary: c)
  case Nil
  then show ?case using bit_count128_less [of c] by simp
next
  case (Cons p pieces)
  from Cons.IH [of "SHA512_Update c p (length p)"] sha512_update_absorbs [OF Cons.prems, of p]
  show ?case by (simp add: mod_simps algebra_simps)
qed

lemma sha512_any_pieces:
  assumes fresh: "s5_ok c0" "s5_num c0 = 0" "bit_count128 c0 = 0" "length (s5_h c0) = 8" "s5_md_len c0 = 48 \<or> s5_md_len c0 = 64"
  shows "fst (SHA512_Final False (fold (\<lambda>p c. SHA512_Update c p (length p)) pieces c0)) =
    Some (concat (map sha512_word_bytes (take (s5_md_len c0 div 8) (fips512_hash (s5_h c0) (concat pieces)))))"
proof -
  let ?c = "fold (\<lambda>p c. SHA512_Update c p (length p)) pieces c0" and ?p = "padded128 (concat pieces)"
  have p0: "s5_pending c0 = []" "length (s5_pending c0) < 128" using fresh(2) by (simp_all add: s5_pending_def)
  have "list_all (\<lambda>_. True) pieces" by (simp add: list_all_iff)
  from sha512.updates_absorb [OF fresh(1) this p0(2)]
  have a: "s5_ok ?c" "absorb 128 sha512_block (s5_h c0) (concat pieces) = (s5_h ?c, s5_pending ?c)"
    by (simp_all add: p0(1))
  have b: "bit_count128 ?c = 8 * length (concat pieces) mod 2 ^ 128" "s5_md_len ?c = s5_md_len c0"
    using sha512_count_updates [OF fresh(1), of pieces] fresh(3) by simp_all
  have "absorb 128 sha512_block (s5_h c0) ?p = absorb 128 (\<lambda>b. fips512_compress (std_words True 8 b)) (s5_h c0) ?p \<and>
      length (fst (absorb 128 (\<lambda>b. fips512_compress (std_words True 8 b)) (s5_h c0) ?p)) = 8"
    by (rule absorb_agree [where P = "\<lambda>s. length s = 8"]) (simp_all add: fresh(4) sha512_block_fips block_words64_std fips512_compress_def)
  with sha512_final_absorbs [OF a b(1), of False] b(2) fresh(5) show ?thesis
    by (auto simp: sha512_output_def fips512_hash_def padded128_std map_nth_take)
qed

lemma sha5_pieces:
  assumes "length junk = 128"
  shows "fst (SHA512_Final False (fold (\<lambda>p c. SHA512_Update c p (length p)) pieces (SHA512_Init junk))) =
      Some (fips_sha512 (concat pieces))"
    "fst (SHA384_Final False (fold (\<lambda>p c. SHA384_Update c p (length p)) pieces (SHA384_Init junk))) =
      Some (fips_sha384 (concat pieces))"
proof -
  have l: "s5_ok (SHA512_Init junk)" "s5_ok (SHA384_Init junk)" "s5_num (SHA512_Init junk) = 0" "s5_num (SHA384_Init junk) = 0"
    "bit_count128 (SHA512_Init junk) = 0" "bit_count128 (SHA384_Init junk) = 0"
    "length (s5_h (SHA512_Init junk)) = 8" "length (s5_h (SHA384_Init junk)) = 8"
    "s5_md_len (SHA512_Init junk) = 64" "s5_md_len (SHA384_Init junk) = 48"
    using assms by (simp_all add: SHA512_Init_def SHA384_Init_def s5_ok_def bit_count128_def)
  have "absorb 128 (\<lambda>b. fips512_compress (std_words True 8 b)) H p = absorb 128 (\<lambda>b. fips512_compress (std_words True 8 b)) H p \<and>
      length (fst (absorb 128 (\<lambda>b. fips512_compress (std_words True 8 b)) H p)) = 8" if "length H = 8" for H p
    by (rule absorb_agree [where P = "\<lambda>s. length s = 8"]) (simp_all add: that fips512_compress_def)
  then have "take 8 (fips512_hash (s5_h (SHA512_Init junk)) msg) = fips512_hash (s5_h (SHA512_Init junk)) msg" for msg
    using l(7) by (simp add: fips512_hash_def)
  then show "fst (SHA512_Final False (fold (\<lambda>p c. SHA512_Update c p (length p)) pieces (SHA512_Init junk))) =
      Some (fips_sha512 (concat pieces))"
    "fst (SHA384_Final False (fold (\<lambda>p c. SHA384_Update c p (length p)) pieces (SHA384_Init junk))) =
      Some (fips_sha384 (concat pieces))"
    using sha512_any_pieces [OF l(1,3,5,7), of pieces] sha512_any_pieces [OF l(2,4,6,8), of pieces]
    by (simp_all add: l(9,10) fips_sha512_def fips_sha384_def words_bytes_std init512_fips SHA384_Final_def SHA384_Update_def)
qed

lemma fips_sha5_lengths: "length (fips_sha512 msg) = 64" "length (fips_sha384 msg) = 48"
proof -
  have "length (fips512_hash H msg) = 8" if "length H = 8" for H
    using absorb_agree [of 128 "\<lambda>h. length h = 8" H "\<lambda>b. fips512_compress (std_words True 8 b)"
      "\<lambda>b. fips512_compress (std_words True 8 b)" "std_padded True 128 16 msg"] that
    by (simp add: fips512_hash_def fips512_compress_def)
  then show "length (fips_sha512 msg) = 64" "length (fips_sha384 msg) = 48"
    by (simp_all add: fips_sha512_def fips_sha384_def fips512_H0_def fips384_H0_def first_primes_def)
qed

text \<open>C17: \<open>SHA512_Update\<close> and \<open>SHA512_Final\<close> compute the SHA-512 and SHA-384 of FIPS 180-4,
  however the message is cut into updates and whatever the uninitialised block buffer held.\<close>

theorem sha512_fips:
  assumes "length junk = 128"
  shows "fst (SHA512_Final False (fold (\<lambda>p c. SHA512_Update c p (length p)) pieces (SHA512_Init junk))) =
      Some (fips_sha512 (concat pieces)) \<and>
    fst (SHA384_Final False (fold (\<lambda>p c. SHA384_Update c p (length p)) pieces (SHA384_Init junk))) =
      Some (fips_sha384 (concat pieces)) \<and>
    SHA512 junk data (length data) = Some (fips_sha512 data) \<and> SHA384 junk data (length data) = Some (fips_sha384 data)"
  using sha5_pieces [OF assms, of pieces] sha5_pieces [OF assms, of "[data]"] by (simp add: SHA512_def SHA384_def)

theorem sha512_fips_witness:
  "fst (SHA512_Final False (fold (\<lambda>p c. SHA512_Update c p (length p)) [[97], [], [98, 99]] (SHA512_Init (replicate 128 7)))) =
    Some (fips_sha512 [97, 98, 99])"
  using sha512_fips [of "replicate 128 7" "[[97], [], [98, 99]]" "[]"] by simp

end
