(* ===== verification/Md45.thy ===== *)
theory Md45
  imports Md32
begin

text \<open>
  MD4 and MD5 (\<open>crypto/fipsmodule/md4/md4.c\<close>, \<open>crypto/fipsmodule/md5/md5.c\<close>, the portable block
  functions). Each macro call updates one of the four registers \<open>A\<close> to \<open>D\<close> in place; the call
  lists are tables of message index, rotation and constant. The references are RFC 1320 and RFC 1321.
\<close>

section \<open>The code of MD5\<close>

definition md5_F :: "u32 \<Rightarrow> u32 \<Rightarrow> u32 \<Rightarrow> u32" where
  "md5_F b c d = ((c XOR d) AND b) XOR d"

definition md5_G :: "u32 \<Rightarrow> u32 \<Rightarrow> u32 \<Rightarrow> u32" where
  "md5_G b c d = ((b XOR c) AND d) XOR c"

definition md5_H :: "u32 \<Rightarrow> u32 \<Rightarrow> u32 \<Rightarrow> u32" where
  "md5_H b c d = b XOR c XOR d"

definition md5_I :: "u32 \<Rightarrow> u32 \<Rightarrow> u32 \<Rightarrow> u32" where
  "md5_I b c d = (NOT d OR b) XOR c"

text \<open>The argument lists of consecutive calls, as indices of \<open>A\<close>, \<open>B\<close>, \<open>C\<close>, \<open>D\<close>.\<close>

definition four_args :: "nat list list" where
  "four_args = [[0, 1, 2, 3], [3, 0, 1, 2], [2, 3, 0, 1], [1, 2, 3, 0]]"

text \<open>The macros \<open>R0\<close> to \<open>R3\<close> differ in the function only.\<close>

fun md5_R :: "(u32 \<Rightarrow> u32 \<Rightarrow> u32 \<Rightarrow> u32) \<Rightarrow> nat list \<Rightarrow> u32 \<Rightarrow> nat \<Rightarrow> u32 \<Rightarrow> u32 list \<Rightarrow> u32 list" where
  "md5_R F [a, b, c, d] k s t r =
     (let r = r[a := r ! a + (k + t + F (r ! b) (r ! c) (r ! d))];
          r = r[a := ROTATE (r ! a) s]
      in r[a := r ! a + r ! b])"
| "md5_R F _ k s t r = r"

definition md5_calls :: "(nat \<times> nat \<times> u32) list" where
  "md5_calls = [
    (0, 7, 0xd76aa478), (1, 12, 0xe8c7b756), (2, 17, 0x242070db), (3, 22, 0xc1bdceee),
    (4, 7, 0xf57c0faf), (5, 12, 0x4787c62a), (6, 17, 0xa8304613), (7, 22, 0xfd469501),
    (8, 7, 0x698098d8), (9, 12, 0x8b44f7af), (10, 17, 0xffff5bb1), (11, 22, 0x895cd7be),
    (12, 7, 0x6b901122), (13, 12, 0xfd987193), (14, 17, 0xa679438e), (15, 22, 0x49b40821),
    (1, 5, 0xf61e2562), (6, 9, 0xc040b340), (11, 14, 0x265e5a51), (0, 20, 0xe9b6c7aa),
    (5, 5, 0xd62f105d), (10, 9, 0x02441453), (15, 14, 0xd8a1e681), (4, 20, 0xe7d3fbc8),
    (9, 5, 0x21e1cde6), (14, 9, 0xc33707d6), (3, 14, 0xf4d50d87), (8, 20, 0x455a14ed),
    (13, 5, 0xa9e3e905), (2, 9, 0xfcefa3f8), (7, 14, 0x676f02d9), (12, 20, 0x8d2a4c8a),
    (5, 4, 0xfffa3942), (8, 11, 0x8771f681), (11, 16, 0x6d9d6122), (14, 23, 0xfde5380c),
    (1, 4, 0xa4beea44), (4, 11, 0x4bdecfa9), (7, 16, 0xf6bb4b60), (10, 23, 0xbebfbc70),
    (13, 4, 0x289b7ec6), (0, 11, 0xeaa127fa), (3, 16, 0xd4ef3085), (6, 23, 0x04881d05),
    (9, 4, 0xd9d4d039), (12, 11, 0xe6db99e5), (15, 16, 0x1fa27cf8), (2, 23, 0xc4ac5665),
    (0, 6, 0xf4292244), (7, 10, 0x432aff97), (14, 15, 0xab9423a7), (5, 21, 0xfc93a039),
    (12, 6, 0x655b59c3), (3, 10, 0x8f0ccc92), (10, 15, 0xffeff47d), (1, 21, 0x85845dd1),
    (8, 6, 0x6fa87e4f), (15, 10, 0xfe2ce6e0), (6, 15, 0xa3014314), (13, 21, 0x4e0811a1),
    (4, 6, 0xf7537e82), (11, 10, 0xbd3af235), (2, 15, 0x2ad7d2bb), (9, 21, 0xeb86d391)]"

definition md5_call :: "u32 list \<Rightarrow> nat \<Rightarrow> u32 list \<Rightarrow> u32 list" where
  "md5_call X i =
     (case md5_calls ! i of (k, s, t) \<Rightarrow>
        md5_R (if i < 16 then md5_F else if i < 32 then md5_G else if i < 48 then md5_H else md5_I)
          (four_args ! (i mod 4)) (X ! k) s t)"

definition md5_block :: "byte list \<Rightarrow> u32 list \<Rightarrow> u32 list" where
  "md5_block data state =
     (let r = fold (md5_call (block_words False data)) [0 ..< 64] (take 4 state)
      in [state ! 0 + r ! 0, state ! 1 + r ! 1, state ! 2 + r ! 2, state ! 3 + r ! 3])"

fun md5_block_data_order :: "u32 list \<Rightarrow> byte list \<Rightarrow> nat \<Rightarrow> u32 list" where
  "md5_block_data_order state data 0 = state"
| "md5_block_data_order state data (Suc n) = md5_block_data_order (md5_block data state) (drop 64 data) n"

definition md5_make_string :: "HASH_CTX \<Rightarrow> byte list option" where
  "md5_make_string c =
     Some (HOST_l2c False (hash_h c ! 0) @ HOST_l2c False (hash_h c ! 1) @ HOST_l2c False (hash_h c ! 2) @
       HOST_l2c False (hash_h c ! 3))"

definition MD5_Init :: HASH_CTX where
  "MD5_Init = \<lparr>hash_h = [0x67452301, 0xefcdab89, 0x98badcfe, 0x10325476],
     Nl = 0, Nh = 0, hash_data = replicate 64 0, num = 0, md_len = 0\<rparr>"

definition MD5_Update :: "HASH_CTX \<Rightarrow> byte list \<Rightarrow> size_t \<Rightarrow> HASH_CTX" where
  "MD5_Update = HASH_UPDATE md5_block_data_order"

definition MD5_Final :: "HASH_CTX \<Rightarrow> byte list option \<times> HASH_CTX" where
  "MD5_Final = HASH_FINAL False md5_block_data_order md5_make_string"

definition MD5 :: "byte list \<Rightarrow> size_t \<Rightarrow> byte list option" where
  "MD5 data len = fst (MD5_Final (MD5_Update MD5_Init data len))"

section \<open>The code of MD4\<close>

definition md4_G :: "u32 \<Rightarrow> u32 \<Rightarrow> u32 \<Rightarrow> u32" where
  "md4_G b c d = (b AND c) OR (b AND d) OR (c AND d)"

fun md4_R :: "(u32 \<Rightarrow> u32 \<Rightarrow> u32 \<Rightarrow> u32) \<Rightarrow> nat list \<Rightarrow> u32 \<Rightarrow> nat \<Rightarrow> u32 \<Rightarrow> u32 list \<Rightarrow> u32 list" where
  "md4_R F [a, b, c, d] k s t r =
     (let r = r[a := r ! a + (k + t + F (r ! b) (r ! c) (r ! d))]
      in r[a := ROTATE (r ! a) s])"
| "md4_R F _ k s t r = r"

definition md4_calls :: "(nat \<times> nat \<times> u32) list" where
  "md4_calls = [
    (0, 3, 0), (1, 7, 0), (2, 11, 0), (3, 19, 0),
    (4, 3, 0), (5, 7, 0), (6, 11, 0), (7, 19, 0),
    (8, 3, 0), (9, 7, 0), (10, 11, 0), (11, 19, 0),
    (12, 3, 0), (13, 7, 0), (14, 11, 0), (15, 19, 0),
    (0, 3, 0x5A827999), (4, 5, 0x5A827999), (8, 9, 0x5A827999), (12, 13, 0x5A827999),
    (1, 3, 0x5A827999), (5, 5, 0x5A827999), (9, 9, 0x5A827999), (13, 13, 0x5A827999),
    (2, 3, 0x5A827999), (6, 5, 0x5A827999), (10, 9, 0x5A827999), (14, 13, 0x5A827999),
    (3, 3, 0x5A827999), (7, 5, 0x5A827999), (11, 9, 0x5A827999), (15, 13, 0x5A827999),
    (0, 3, 0x6ED9EBA1), (8, 9, 0x6ED9EBA1), (4, 11, 0x6ED9EBA1), (12, 15, 0x6ED9EBA1),
    (2, 3, 0x6ED9EBA1), (10, 9, 0x6ED9EBA1), (6, 11, 0x6ED9EBA1), (14, 15, 0x6ED9EBA1),
    (1, 3, 0x6ED9EBA1), (9, 9, 0x6ED9EBA1), (5, 11, 0x6ED9EBA1), (13, 15, 0x6ED9EBA1),
    (3, 3, 0x6ED9EBA1), (11, 9, 0x6ED9EBA1), (7, 11, 0x6ED9EBA1), (15, 15, 0x6ED9EBA1)]"

text \<open>The functions \<open>F\<close> and \<open>H\<close> of MD4 are those of MD5.\<close>

definition md4_call :: "u32 list \<Rightarrow> nat \<Rightarrow> u32 list \<Rightarrow> u32 list" where
  "md4_call X i =
     (case md4_calls ! i of (k, s, t) \<Rightarrow>
        md4_R (if i < 16 then md5_F else if i < 32 then md4_G else md5_H)
          (four_args ! (i mod 4)) (X ! k) s t)"

definition md4_block :: "byte list \<Rightarrow> u32 list \<Rightarrow> u32 list" where
  "md4_block data state =
     (let r = fold (md4_call (block_words False data)) [0 ..< 48] (take 4 state)
      in [state ! 0 + r ! 0, state ! 1 + r ! 1, state ! 2 + r ! 2, state ! 3 + r ! 3])"

fun md4_block_data_order :: "u32 list \<Rightarrow> byte list \<Rightarrow> nat \<Rightarrow> u32 list" where
  "md4_block_data_order state data 0 = state"
| "md4_block_data_order state data (Suc n) = md4_block_data_order (md4_block data state) (drop 64 data) n"

definition md4_make_string :: "HASH_CTX \<Rightarrow> byte list option" where
  "md4_make_string c =
     Some (HOST_l2c False (hash_h c ! 0) @ HOST_l2c False (hash_h c ! 1) @ HOST_l2c False (hash_h c ! 2) @
       HOST_l2c False (hash_h c ! 3))"

definition MD4_Init :: HASH_CTX where
  "MD4_Init = \<lparr>hash_h = [0x67452301, 0xefcdab89, 0x98badcfe, 0x10325476],
     Nl = 0, Nh = 0, hash_data = replicate 64 0, num = 0, md_len = 0\<rparr>"

definition MD4_Update :: "HASH_CTX \<Rightarrow> byte list \<Rightarrow> size_t \<Rightarrow> HASH_CTX" where
  "MD4_Update = HASH_UPDATE md4_block_data_order"

definition MD4_Final :: "HASH_CTX \<Rightarrow> byte list option \<times> HASH_CTX" where
  "MD4_Final = HASH_FINAL False md4_block_data_order md4_make_string"

definition MD4 :: "byte list \<Rightarrow> size_t \<Rightarrow> byte list option" where
  "MD4 data len = fst (MD4_Final (MD4_Update MD4_Init data len))"

section \<open>The references\<close>

definition rfc1321_f :: "nat \<Rightarrow> u32 \<Rightarrow> u32 \<Rightarrow> u32 \<Rightarrow> u32" where
  "rfc1321_f i x y z =
     (if i < 16 then (x AND y) OR (NOT x AND z)
      else if i < 32 then (x AND z) OR (y AND NOT z)
      else if i < 48 then x XOR y XOR z
      else y XOR (x OR NOT z))"

definition rfc1321_k :: "nat \<Rightarrow> nat" where
  "rfc1321_k i =
     (if i < 16 then i else if i < 32 then (5 * i + 1) mod 16 else if i < 48 then (3 * i + 5) mod 16 else 7 * i mod 16)"

definition rfc1321_s :: "nat \<Rightarrow> nat" where
  "rfc1321_s i =
     (if i < 16 then [7, 12, 17, 22] else if i < 32 then [5, 9, 14, 20] else if i < 48 then [4, 11, 16, 23]
      else [6, 10, 15, 21]) ! (i mod 4)"

text \<open>The additive constants are the table of sines, and the initial state is given as bytes, the least
  significant first.\<close>

definition rfc1321_T :: "nat \<Rightarrow> u32" where
  "rfc1321_T i = of_nat (sine_bits (i + 1))"

definition rfc1321_H0 :: "u32 list" where
  "rfc1321_H0 = map (\<lambda>bs. of_nat (std_number False bs))
     [[0x01, 0x23, 0x45, 0x67], [0x89, 0xab, 0xcd, 0xef], [0xfe, 0xdc, 0xba, 0x98], [0x76, 0x54, 0x32, 0x10]]"

fun rfc1321_step :: "u32 list \<Rightarrow> nat \<Rightarrow> u32 list \<Rightarrow> u32 list" where
  "rfc1321_step X i [a, b, c, d] =
     [d, b + word_rotl (rfc1321_s i) (a + rfc1321_f i b c d + X ! rfc1321_k i + rfc1321_T i), b, c]"
| "rfc1321_step X i _ = []"

definition rfc1321_compress :: "u32 list \<Rightarrow> u32 list \<Rightarrow> u32 list" where
  "rfc1321_compress X H = map2 (+) H (fold (rfc1321_step X) [0 ..< 64] H)"

definition rfc1320_f :: "nat \<Rightarrow> u32 \<Rightarrow> u32 \<Rightarrow> u32 \<Rightarrow> u32" where
  "rfc1320_f i x y z =
     (if i < 16 then (x AND y) OR (NOT x AND z)
      else if i < 32 then (x AND y) OR (x AND z) OR (y AND z)
      else x XOR y XOR z)"

definition rfc1320_k :: "nat \<Rightarrow> nat" where
  "rfc1320_k i =
     (if i < 16 then i else if i < 32 then 4 * (i mod 4) + (i - 16) div 4
      else [0, 8, 4, 12] ! (i mod 4) + [0, 2, 1, 3] ! ((i - 32) div 4))"

definition rfc1320_s :: "nat \<Rightarrow> nat" where
  "rfc1320_s i =
     (if i < 16 then [3, 7, 11, 19] else if i < 32 then [3, 5, 9, 13] else [3, 9, 11, 15]) ! (i mod 4)"

definition rfc1320_T :: "nat \<Rightarrow> u32" where
  "rfc1320_T i = (if i < 16 then 0 else if i < 32 then 0x5A827999 else 0x6ED9EBA1)"

fun rfc1320_step :: "u32 list \<Rightarrow> nat \<Rightarrow> u32 list \<Rightarrow> u32 list" where
  "rfc1320_step X i [a, b, c, d] =
     [d, word_rotl (rfc1320_s i) (a + rfc1320_f i b c d + X ! rfc1320_k i + rfc1320_T i), b, c]"
| "rfc1320_step X i _ = []"

definition rfc1320_compress :: "u32 list \<Rightarrow> u32 list \<Rightarrow> u32 list" where
  "rfc1320_compress X H = map2 (+) H (fold (rfc1320_step X) [0 ..< 48] H)"

section \<open>The code computes them\<close>

lemma md5_functions:
  "md5_F x y z = (x AND y) OR (NOT x AND z)" "md5_G x y z = (x AND z) OR (y AND NOT z)"
  "md5_I x y z = y XOR (x OR NOT z)"
  unfolding md5_F_def md5_G_def md5_I_def
  by (rule bit_eqI, auto simp: bit_simps)+

lemma md5_table: "\<forall>i\<in>set [0 ..< 64]. fst (md5_calls ! i) = rfc1321_k i \<and> fst (snd (md5_calls ! i)) = rfc1321_s i"
  by code_simp

lemma md4_table: "\<forall>i\<in>set [0 ..< 48]. md4_calls ! i = (rfc1320_k i, rfc1320_s i, rfc1320_T i)"
  by code_simp

lemma shifts_small: "rfc1321_s i < 32" "rfc1320_s i < 32"
proof -
  have "i mod 4 = 0 \<or> i mod 4 = 1 \<or> i mod 4 = 2 \<or> i mod 4 = 3" by presburger
  then show "rfc1321_s i < 32" "rfc1320_s i < 32" by (auto simp: rfc1321_s_def rfc1320_s_def)
qed

lemma md5_sines: "i < 64 \<Longrightarrow> snd (snd (md5_calls ! i)) = rfc1321_T i"
proof -
  assume i: "i < 64"
  have l: "length md5_calls = 64" by (simp add: md5_calls_def)
  have "are_sines (sin_1, 0) (map (\<lambda>(k, s, t). unat t) md5_calls)"
    by (simp add: md5_calls_def sin_1_def cos_1_def)
  from sine_table [OF angle_close_0 _ this]
  have "map (\<lambda>j. sine_bits (j + 1)) [0 ..< 64] = map (\<lambda>(k, s, t). unat t) md5_calls" by (simp add: l)
  then have "map (\<lambda>j. sine_bits (j + 1)) [0 ..< 64] ! i = map (\<lambda>(k, s, t). unat t) md5_calls ! i" by (rule arg_cong)
  then have "sine_bits (i + 1) = unat (snd (snd (md5_calls ! i)))" using i by (simp add: l case_prod_beta)
  then show ?thesis by (simp add: rfc1321_T_def)
qed

lemma md_init: "hash_h MD5_Init = rfc1321_H0" "hash_h MD4_Init = rfc1321_H0"
  by (simp_all add: MD5_Init_def MD4_Init_def rfc1321_H0_def std_number_def)

lemma length_4E:
  assumes "length v = 4"
  obtains a b c d where "v = [a, b, c, d]"
  using assms by (auto simp: numeral_eq_Suc length_Suc_conv)

lemma four_cases: "j < 4 \<Longrightarrow> j = 0 \<or> j = 1 \<or> j = 2 \<or> j = (3 :: nat)"
  by linarith

lemma md5_R_rotates:
  assumes "j < 4"
  shows "md5_R F (four_args ! j) k s t (rotate j [a, b, c, d]) =
    rotate (Suc j) [d, b + ROTATE (a + F b c d + k + t) s, b, c]"
  using four_cases [OF assms]
  by (elim disjE) (simp_all add: four_args_def Let_def numeral_eq_Suc ac_simps)

lemma md4_R_rotates:
  assumes "j < 4"
  shows "md4_R F (four_args ! j) k s t (rotate j [a, b, c, d]) =
    rotate (Suc j) [d, ROTATE (a + F b c d + k + t) s, b, c]"
  using four_cases [OF assms]
  by (elim disjE) (simp_all add: four_args_def Let_def numeral_eq_Suc ac_simps)

lemma md5_call_step:
  assumes i: "i < 64" and v: "length v = 4"
  shows "md5_call X i (rotate i v) = rotate (Suc i) (rfc1321_step X i v)"
proof -
  obtain a b c d where v4: "v = [a, b, c, d]" using v by (rule length_4E)
  have "i \<in> set [0 ..< 64]" using i by simp
  then have "md5_calls ! i = (rfc1321_k i, rfc1321_s i, rfc1321_T i)"
    using md5_table md5_sines [OF i] by (intro prod_eqI) simp_all
  moreover have "(if i < 16 then md5_F else if i < 32 then md5_G else if i < 48 then md5_H else md5_I) = rfc1321_f i"
    by (auto simp: fun_eq_iff rfc1321_f_def md5_functions md5_H_def)
  ultimately have "md5_call X i (rotate (i mod 4) v) = rotate (Suc (i mod 4)) (rfc1321_step X i v)"
    unfolding md5_call_def v4 by (simp add: md5_R_rotates ROTATE_std shifts_small del: rotate_Suc)
  then show ?thesis
    using rotate_conv_mod [of i v] rotate_step [of "rfc1321_step X i v" 4 i] v v4 by simp
qed

lemma md4_call_step:
  assumes i: "i < 48" and v: "length v = 4"
  shows "md4_call X i (rotate i v) = rotate (Suc i) (rfc1320_step X i v)"
proof -
  obtain a b c d where v4: "v = [a, b, c, d]" using v by (rule length_4E)
  have "i \<in> set [0 ..< 48]" using i by simp
  then have "md4_calls ! i = (rfc1320_k i, rfc1320_s i, rfc1320_T i)"
    using md4_table by blast
  moreover have "(if i < 16 then md5_F else if i < 32 then md4_G else md5_H) = rfc1320_f i"
    by (auto simp: fun_eq_iff rfc1320_f_def md5_functions md5_H_def md4_G_def)
  ultimately have "md4_call X i (rotate (i mod 4) v) = rotate (Suc (i mod 4)) (rfc1320_step X i v)"
    unfolding md4_call_def v4 by (simp add: md4_R_rotates ROTATE_std shifts_small del: rotate_Suc)
  then show ?thesis
    using rotate_conv_mod [of i v] rotate_step [of "rfc1320_step X i v" 4 i] v v4 by simp
qed

text \<open>A sequence of calls that each rotate the registers once.\<close>

lemma calls_rotate:
  assumes "\<And>i v. i < n \<Longrightarrow> length v = 4 \<Longrightarrow> call i (rotate i v) = rotate (Suc i) (ref i v)"
    and "\<And>i v. length v = 4 \<Longrightarrow> length (ref i v) = (4 :: nat)" and "length v = 4" and "m \<le> n"
  shows "fold call [0 ..< m] v = rotate m (fold ref [0 ..< m] v) \<and> length (fold ref [0 ..< m] v) = 4"
  using assms(4)
proof (induction m)
  case (Suc m)
  then show ?case using assms(1) [of m "fold ref [0 ..< m] v"] assms(2) by simp
qed (use assms(3) in simp)

lemma four_sums:
  assumes "length state = 4" and "length r = 4"
  shows "[state ! 0 + r ! 0, state ! 1 + r ! 1, state ! 2 + r ! 2, state ! 3 + r ! 3] = map2 (+) state (r :: u32 list)"
proof -
  obtain a b c d where "state = [a, b, c, d]" using assms(1) by (rule length_4E)
  moreover obtain w x y z where "r = [w, x, y, z]" using assms(2) by (rule length_4E)
  ultimately show ?thesis by simp
qed

lemma length_rfc_steps: "length v = 4 \<Longrightarrow> length (rfc1321_step X i v) = 4" "length v = 4 \<Longrightarrow> length (rfc1320_step X i v) = 4"
  by (erule length_4E, simp)+

lemma md5_block_rfc:
  assumes "length state = 4"
  shows "md5_block data state = rfc1321_compress (block_words False data) state \<and>
    length (rfc1321_compress (block_words False data) state) = 4"
proof -
  let ?X = "block_words False data"
  have "fold (md5_call ?X) [0 ..< 64] state = rotate 64 (fold (rfc1321_step ?X) [0 ..< 64] state) \<and>
      length (fold (rfc1321_step ?X) [0 ..< 64] state) = 4"
    by (rule calls_rotate [where n = 64])
      (simp_all add: md5_call_step length_rfc_steps assms del: rotate_Suc)
  then show ?thesis
    using rotate_conv_mod [of 64 "fold (rfc1321_step ?X) [0 ..< 64] state"] assms four_sums [OF assms]
    by (simp add: md5_block_def rfc1321_compress_def Let_def del: One_nat_def)
qed

lemma md4_block_rfc:
  assumes "length state = 4"
  shows "md4_block data state = rfc1320_compress (block_words False data) state \<and>
    length (rfc1320_compress (block_words False data) state) = 4"
proof -
  let ?X = "block_words False data"
  have "fold (md4_call ?X) [0 ..< 48] state = rotate 48 (fold (rfc1320_step ?X) [0 ..< 48] state) \<and>
      length (fold (rfc1320_step ?X) [0 ..< 48] state) = 4"
    by (rule calls_rotate [where n = 48])
      (simp_all add: md4_call_step length_rfc_steps assms del: rotate_Suc)
  then show ?thesis
    using rotate_conv_mod [of 48 "fold (rfc1320_step ?X) [0 ..< 48] state"] assms four_sums [OF assms]
    by (simp add: md4_block_def rfc1320_compress_def Let_def del: One_nat_def)
qed

lemma md5_block_std:
  "length state = 4 \<Longrightarrow> length b = 64 \<Longrightarrow>
    md5_block b state = rfc1321_compress (std_words False 4 b) state \<and> length (rfc1321_compress (std_words False 4 b) state) = 4"
  using md5_block_rfc [of state b] by (simp add: block_words_std)

lemma md4_block_std:
  "length state = 4 \<Longrightarrow> length b = 64 \<Longrightarrow>
    md4_block b state = rfc1320_compress (std_words False 4 b) state \<and> length (rfc1320_compress (std_words False 4 b) state) = 4"
  using md4_block_rfc [of state b] by (simp add: block_words_std)

section \<open>The digests\<close>

interpretation md5: md_hash md5_block_data_order md5_block
  by (rule md_hash_loop) (simp_all add: md5_block_def block_words_take)

interpretation md4: md_hash md4_block_data_order md4_block
  by (rule md_hash_loop) (simp_all add: md4_block_def block_words_take)

definition rfc1321_md5 :: "byte list \<Rightarrow> byte list" where
  "rfc1321_md5 msg =
     std_bytes False 4 (fst (absorb 64 (\<lambda>b. rfc1321_compress (std_words False 4 b)) rfc1321_H0 (std_padded False 64 8 msg)))"

definition rfc1320_md4 :: "byte list \<Rightarrow> byte list" where
  "rfc1320_md4 msg =
     std_bytes False 4 (fst (absorb 64 (\<lambda>b. rfc1320_compress (std_words False 4 b)) rfc1321_H0 (std_padded False 64 8 msg)))"

lemma four_words: "length h = 4 \<Longrightarrow> HOST_l2c False (h ! 0) @ HOST_l2c False (h ! 1) @ HOST_l2c False (h ! 2) @
    HOST_l2c False (h ! 3) = concat (map (HOST_l2c False) h)"
  by (erule length_4E) simp

lemma md5_any_pieces:
  "fst (MD5_Final (fold (\<lambda>p c. MD5_Update c p (length p)) pieces MD5_Init)) = Some (rfc1321_md5 (concat pieces))"
proof -
  let ?H = "hash_h MD5_Init" and ?p = "padded False (concat pieces)"
  have c0: "hash_ok MD5_Init" "num MD5_Init = 0" "bit_count MD5_Init = 0" "length ?H = 4"
    by (simp_all add: MD5_Init_def hash_ok_def bit_count_def)
  from md5.digest [OF c0(1-3), of False md5_make_string pieces]
  obtain c' where c': "MD5_Final (fold (\<lambda>p c. MD5_Update c p (length p)) pieces MD5_Init) = (md5_make_string c', c')"
    "hash_h c' = fst (absorb 64 md5_block ?H ?p)"
    unfolding MD5_Final_def MD5_Update_def by blast
  have "absorb 64 md5_block ?H ?p = absorb 64 (\<lambda>b. rfc1321_compress (std_words False 4 b)) ?H ?p \<and>
      length (fst (absorb 64 (\<lambda>b. rfc1321_compress (std_words False 4 b)) ?H ?p)) = 4"
    by (rule absorb_agree [where P = "\<lambda>s. length s = 4"]) (simp_all add: c0(4) md5_block_std)
  with c' show ?thesis by (simp add: md5_make_string_def four_words [unfolded One_nat_def] rfc1321_md5_def HOST_words_std padded_std md_init)
qed

lemma md4_any_pieces:
  "fst (MD4_Final (fold (\<lambda>p c. MD4_Update c p (length p)) pieces MD4_Init)) = Some (rfc1320_md4 (concat pieces))"
proof -
  let ?H = "hash_h MD4_Init" and ?p = "padded False (concat pieces)"
  have c0: "hash_ok MD4_Init" "num MD4_Init = 0" "bit_count MD4_Init = 0" "length ?H = 4"
    by (simp_all add: MD4_Init_def hash_ok_def bit_count_def)
  from md4.digest [OF c0(1-3), of False md4_make_string pieces]
  obtain c' where c': "MD4_Final (fold (\<lambda>p c. MD4_Update c p (length p)) pieces MD4_Init) = (md4_make_string c', c')"
    "hash_h c' = fst (absorb 64 md4_block ?H ?p)"
    unfolding MD4_Final_def MD4_Update_def by blast
  have "absorb 64 md4_block ?H ?p = absorb 64 (\<lambda>b. rfc1320_compress (std_words False 4 b)) ?H ?p \<and>
      length (fst (absorb 64 (\<lambda>b. rfc1320_compress (std_words False 4 b)) ?H ?p)) = 4"
    by (rule absorb_agree [where P = "\<lambda>s. length s = 4"]) (simp_all add: c0(4) md4_block_std)
  with c' show ?thesis by (simp add: md4_make_string_def four_words [unfolded One_nat_def] rfc1320_md4_def HOST_words_std padded_std md_init)
qed

text \<open>C19: The MD5 and MD4 code computes the digests of RFC 1321 and RFC 1320, however the message is
  cut into updates.\<close>

theorem md5_md4_rfc:
  "fst (MD5_Final (fold (\<lambda>p c. MD5_Update c p (length p)) pieces MD5_Init)) = Some (rfc1321_md5 (concat pieces)) \<and>
   fst (MD4_Final (fold (\<lambda>p c. MD4_Update c p (length p)) pieces MD4_Init)) = Some (rfc1320_md4 (concat pieces)) \<and>
   MD5 data (length data) = Some (rfc1321_md5 data) \<and> MD4 data (length data) = Some (rfc1320_md4 data)"
  using md5_any_pieces [of pieces] md5_any_pieces [of "[data]"] md4_any_pieces [of pieces] md4_any_pieces [of "[data]"]
  by (simp add: MD5_def MD4_def)

end
