(* ===== verification/Digest.thy ===== *)
theory Digest
  imports Sha1 Sha512 Md45
begin

text \<open>
  The uniform interface to the hash functions (\<open>crypto/fipsmodule/digest/digest.c\<close> and
  \<open>digests.c\<close>). An \<open>EVP_MD\<close> is a record of the methods of one hash function; an \<open>EVP_MD_CTX\<close> holds the
  function in use and its allocated context. Every \<open>EVP_MD\<close> is a static object with a NID of its own,
  so pointers to them are compared by NID. The locale \<open>digest_method\<close> is the contract the methods keep;
  every hash function of the library interprets it.
\<close>

section \<open>The methods\<close>

text \<open>The memory behind \<open>md_data\<close> holds the context type of the hash function in use.\<close>

datatype md_state = MD32 HASH_CTX | MD64 SHA512_CTX | MD5_SHA1_CTX HASH_CTX HASH_CTX

fun on_md32 :: "(HASH_CTX \<Rightarrow> HASH_CTX) \<Rightarrow> md_state \<Rightarrow> md_state" where
  "on_md32 f (MD32 c) = MD32 (f c)"
| "on_md32 f s = s"

fun on_md64 :: "(SHA512_CTX \<Rightarrow> SHA512_CTX) \<Rightarrow> md_state \<Rightarrow> md_state" where
  "on_md64 f (MD64 c) = MD64 (f c)"
| "on_md64 f s = s"

fun final_md32 :: "(HASH_CTX \<Rightarrow> byte list option \<times> HASH_CTX) \<Rightarrow> md_state \<Rightarrow> byte list option \<times> md_state" where
  "final_md32 f (MD32 c) = (fst (f c), MD32 (snd (f c)))"
| "final_md32 f s = (None, s)"

fun final_md64 :: "(SHA512_CTX \<Rightarrow> byte list option \<times> SHA512_CTX) \<Rightarrow> md_state \<Rightarrow> byte list option \<times> md_state" where
  "final_md64 f (MD64 c) = (fst (f c), MD64 (snd (f c)))"
| "final_md64 f s = (None, s)"

record EVP_MD =
  md_type :: nat
  md_size :: nat
  md_flags :: nat
  md_init :: "md_state \<Rightarrow> md_state"
  md_update :: "byte list \<Rightarrow> md_state \<Rightarrow> md_state"
  md_final :: "md_state \<Rightarrow> byte list option \<times> md_state"
  md_block_size :: nat
  md_ctx_size :: nat

definition md4_init :: "md_state \<Rightarrow> md_state" where
  "md4_init s = MD32 MD4_Init"

definition md4_update :: "byte list \<Rightarrow> md_state \<Rightarrow> md_state" where
  "md4_update data = on_md32 (\<lambda>c. MD4_Update c data (length data))"

definition md4_final :: "md_state \<Rightarrow> byte list option \<times> md_state" where
  "md4_final = final_md32 MD4_Final"

definition EVP_md4 :: EVP_MD where
  "EVP_md4 = \<lparr>md_type = 257, md_size = 16, md_flags = 0, md_init = md4_init, md_update = md4_update,
     md_final = md4_final, md_block_size = 64, md_ctx_size = 92\<rparr>"

definition md5_init :: "md_state \<Rightarrow> md_state" where
  "md5_init s = MD32 MD5_Init"

definition md5_update :: "byte list \<Rightarrow> md_state \<Rightarrow> md_state" where
  "md5_update data = on_md32 (\<lambda>c. MD5_Update c data (length data))"

definition md5_final :: "md_state \<Rightarrow> byte list option \<times> md_state" where
  "md5_final = final_md32 MD5_Final"

definition EVP_md5 :: EVP_MD where
  "EVP_md5 = \<lparr>md_type = 4, md_size = 16, md_flags = 0, md_init = md5_init, md_update = md5_update,
     md_final = md5_final, md_block_size = 64, md_ctx_size = 92\<rparr>"

definition sha1_init :: "md_state \<Rightarrow> md_state" where
  "sha1_init s = MD32 SHA1_Init"

definition sha1_update :: "byte list \<Rightarrow> md_state \<Rightarrow> md_state" where
  "sha1_update data = on_md32 (\<lambda>c. SHA1_Update c data (length data))"

definition sha1_final :: "md_state \<Rightarrow> byte list option \<times> md_state" where
  "sha1_final = final_md32 SHA1_Final"

definition EVP_sha1 :: EVP_MD where
  "EVP_sha1 = \<lparr>md_type = 64, md_size = 20, md_flags = 0, md_init = sha1_init, md_update = sha1_update,
     md_final = sha1_final, md_block_size = 64, md_ctx_size = 96\<rparr>"

definition sha224_init :: "md_state \<Rightarrow> md_state" where
  "sha224_init s = MD32 SHA224_Init"

definition sha224_update :: "byte list \<Rightarrow> md_state \<Rightarrow> md_state" where
  "sha224_update data = on_md32 (\<lambda>c. SHA224_Update c data (length data))"

definition sha224_final :: "md_state \<Rightarrow> byte list option \<times> md_state" where
  "sha224_final = final_md32 SHA224_Final"

definition EVP_sha224 :: EVP_MD where
  "EVP_sha224 = \<lparr>md_type = 675, md_size = 28, md_flags = 0, md_init = sha224_init, md_update = sha224_update,
     md_final = sha224_final, md_block_size = 64, md_ctx_size = 112\<rparr>"

definition sha256_init :: "md_state \<Rightarrow> md_state" where
  "sha256_init s = MD32 SHA256_Init"

definition sha256_update :: "byte list \<Rightarrow> md_state \<Rightarrow> md_state" where
  "sha256_update data = on_md32 (\<lambda>c. SHA256_Update c data (length data))"

definition sha256_final :: "md_state \<Rightarrow> byte list option \<times> md_state" where
  "sha256_final = final_md32 SHA256_Final"

definition EVP_sha256 :: EVP_MD where
  "EVP_sha256 = \<lparr>md_type = 672, md_size = 32, md_flags = 0, md_init = sha256_init, md_update = sha256_update,
     md_final = sha256_final, md_block_size = 64, md_ctx_size = 112\<rparr>"

text \<open>The initialisers of the 64-bit hashes leave the block buffer of the context as it is.\<close>

definition sha384_init :: "md_state \<Rightarrow> md_state" where
  "sha384_init = on_md64 (\<lambda>c. SHA384_Init (s5_p c))"

definition sha384_update :: "byte list \<Rightarrow> md_state \<Rightarrow> md_state" where
  "sha384_update data = on_md64 (\<lambda>c. SHA384_Update c data (length data))"

definition sha384_final :: "md_state \<Rightarrow> byte list option \<times> md_state" where
  "sha384_final = final_md64 (SHA384_Final False)"

definition EVP_sha384 :: EVP_MD where
  "EVP_sha384 = \<lparr>md_type = 673, md_size = 48, md_flags = 0, md_init = sha384_init, md_update = sha384_update,
     md_final = sha384_final, md_block_size = 128, md_ctx_size = 216\<rparr>"

definition sha512_init :: "md_state \<Rightarrow> md_state" where
  "sha512_init = on_md64 (\<lambda>c. SHA512_Init (s5_p c))"

definition sha512_update :: "byte list \<Rightarrow> md_state \<Rightarrow> md_state" where
  "sha512_update data = on_md64 (\<lambda>c. SHA512_Update c data (length data))"

definition sha512_final :: "md_state \<Rightarrow> byte list option \<times> md_state" where
  "sha512_final = final_md64 (SHA512_Final False)"

definition EVP_sha512 :: EVP_MD where
  "EVP_sha512 = \<lparr>md_type = 674, md_size = 64, md_flags = 0, md_init = sha512_init, md_update = sha512_update,
     md_final = sha512_final, md_block_size = 128, md_ctx_size = 216\<rparr>"

definition md5_sha1_init :: "md_state \<Rightarrow> md_state" where
  "md5_sha1_init s = MD5_SHA1_CTX MD5_Init SHA1_Init"

fun md5_sha1_update :: "byte list \<Rightarrow> md_state \<Rightarrow> md_state" where
  "md5_sha1_update data (MD5_SHA1_CTX md5 sha1) =
     MD5_SHA1_CTX (MD5_Update md5 data (length data)) (SHA1_Update sha1 data (length data))"
| "md5_sha1_update data s = s"

text \<open>The SHA-1 digest is written right behind the sixteen bytes of the MD5 digest.\<close>

fun md5_sha1_final :: "md_state \<Rightarrow> byte list option \<times> md_state" where
  "md5_sha1_final (MD5_SHA1_CTX md5 sha1) =
     (case MD5_Final md5 of (out, md5) \<Rightarrow> (case SHA1_Final sha1 of (out', sha1) \<Rightarrow>
        (case (out, out') of (Some a, Some b) \<Rightarrow> Some (a @ b) | _ \<Rightarrow> None, MD5_SHA1_CTX md5 sha1)))"
| "md5_sha1_final s = (None, s)"

definition EVP_md5_sha1 :: EVP_MD where
  "EVP_md5_sha1 = \<lparr>md_type = 114, md_size = 16 + 20, md_flags = 0, md_init = md5_sha1_init, md_update = md5_sha1_update,
     md_final = md5_sha1_final, md_block_size = 64, md_ctx_size = 188\<rparr>"

section \<open>Contexts\<close>

text \<open>
  \<open>pctx\<close> is the opaque context of a signature operation, a number that names it; the \<open>dup\<close> method of
  its operations is a parameter of the functions that copy it. The allocator \<open>alloc\<close> returns the
  uninitialised context of a hash function, or \<open>None\<close> when memory runs out. A context without a digest
  is a NULL dereference where the code uses its digest; there the model fails.
\<close>

record EVP_MD_CTX =
  digest :: "EVP_MD option"
  md_data :: "md_state option"
  pctx :: "nat option"

type_synonym md_alloc = "EVP_MD \<Rightarrow> md_state option"

definition same_md :: "EVP_MD option \<Rightarrow> EVP_MD option \<Rightarrow> bool" where
  "same_md a b \<longleftrightarrow> map_option md_type a = map_option md_type b"

definition EVP_MD_CTX_init :: EVP_MD_CTX where
  "EVP_MD_CTX_init = \<lparr>digest = None, md_data = None, pctx = None\<rparr>"

definition EVP_MD_CTX_cleanup :: "EVP_MD_CTX \<Rightarrow> EVP_MD_CTX" where
  "EVP_MD_CTX_cleanup ctx = EVP_MD_CTX_init"

definition EVP_MD_CTX_copy_ex ::
  "md_alloc \<Rightarrow> (nat \<Rightarrow> nat option) \<Rightarrow> EVP_MD_CTX option \<Rightarrow> (EVP_MD_CTX, unit) op" where
  "EVP_MD_CTX_copy_ex alloc dup src out =
     (case src of None \<Rightarrow> (None, out) | Some i \<Rightarrow>
      (case digest i of None \<Rightarrow> (None, out) | Some d \<Rightarrow>
        (let copied = (case pctx i of None \<Rightarrow> Some None | Some p \<Rightarrow> map_option Some (dup p))
         in case copied of None \<Rightarrow> (None, out) | Some p \<Rightarrow>
           if \<not> same_md (digest out) (digest i) \<and> alloc d = None then (None, out)
           else (Some (), (EVP_MD_CTX_cleanup out)\<lparr>digest := Some d, md_data := md_data i, pctx := p\<rparr>))))"

definition EVP_MD_CTX_copy ::
  "md_alloc \<Rightarrow> (nat \<Rightarrow> nat option) \<Rightarrow> EVP_MD_CTX option \<Rightarrow> (EVP_MD_CTX, unit) op" where
  "EVP_MD_CTX_copy alloc dup src out = EVP_MD_CTX_copy_ex alloc dup src EVP_MD_CTX_init"

definition EVP_MD_CTX_reset :: "EVP_MD_CTX \<Rightarrow> EVP_MD_CTX" where
  "EVP_MD_CTX_reset ctx = (let ctx = EVP_MD_CTX_cleanup ctx in EVP_MD_CTX_init)"

definition EVP_DigestInit_ex :: "md_alloc \<Rightarrow> EVP_MD \<Rightarrow> (EVP_MD_CTX, unit) op" where
  "EVP_DigestInit_ex alloc type ctx =
     (let ready =
        (if \<not> same_md (digest ctx) (Some type)
         then (case alloc type of None \<Rightarrow> None | Some d \<Rightarrow> Some (ctx\<lparr>md_data := Some d, digest := Some type\<rparr>))
         else Some ctx)
      in case ready of None \<Rightarrow> (None, ctx)
         | Some ctx \<Rightarrow> (Some (), ctx\<lparr>md_data := map_option (md_init (the (digest ctx))) (md_data ctx)\<rparr>))"

definition EVP_DigestInit :: "md_alloc \<Rightarrow> EVP_MD \<Rightarrow> (EVP_MD_CTX, unit) op" where
  "EVP_DigestInit alloc type ctx = EVP_DigestInit_ex alloc type EVP_MD_CTX_init"

definition EVP_DigestUpdate :: "byte list \<Rightarrow> (EVP_MD_CTX, unit) op" where
  "EVP_DigestUpdate data ctx =
     (case digest ctx of None \<Rightarrow> (None, ctx)
      | Some d \<Rightarrow> (Some (), ctx\<lparr>md_data := map_option (md_update d data) (md_data ctx)\<rparr>))"

text \<open>\<open>OPENSSL_cleanse\<close> on a context writes zeros over all its fields.\<close>

definition cleanse32 :: "HASH_CTX \<Rightarrow> HASH_CTX" where
  "cleanse32 c = \<lparr>hash_h = replicate (length (hash_h c)) 0, Nl = 0, Nh = 0,
     hash_data = replicate (length (hash_data c)) 0, num = 0, md_len = 0\<rparr>"

fun md_cleanse :: "md_state \<Rightarrow> md_state" where
  "md_cleanse (MD32 c) = MD32 (cleanse32 c)"
| "md_cleanse (MD64 c) = MD64 \<lparr>s5_h = replicate (length (s5_h c)) 0, s5_Nl = 0, s5_Nh = 0,
     s5_p = replicate (length (s5_p c)) 0, s5_num = 0, s5_md_len = 0\<rparr>"
| "md_cleanse (MD5_SHA1_CTX c c') = MD5_SHA1_CTX (cleanse32 c) (cleanse32 c')"

text \<open>The digest and its size. The method's own failure (\<open>CHECK\<close>) shows as no digest.\<close>

definition EVP_DigestFinal_ex :: "(EVP_MD_CTX, byte list \<times> nat) op" where
  "EVP_DigestFinal_ex ctx =
     (case (digest ctx, md_data ctx) of
        (Some d, Some s) \<Rightarrow>
          (case md_final d s of (out, s) \<Rightarrow>
             (map_option (\<lambda>out. (out, md_size d)) out, ctx\<lparr>md_data := Some (md_cleanse s)\<rparr>))
      | _ \<Rightarrow> (None, ctx))"

definition EVP_DigestFinal :: "(EVP_MD_CTX, byte list \<times> nat) op" where
  "EVP_DigestFinal ctx = (case EVP_DigestFinal_ex ctx of (r, ctx) \<Rightarrow> (r, EVP_MD_CTX_cleanup ctx))"

definition EVP_Digest :: "md_alloc \<Rightarrow> EVP_MD \<Rightarrow> byte list \<Rightarrow> (byte list \<times> nat) option" where
  "EVP_Digest alloc type data =
     fst (andthen (EVP_DigestInit_ex alloc type) (\<lambda>_. andthen (EVP_DigestUpdate data) (\<lambda>_. EVP_DigestFinal_ex))
       EVP_MD_CTX_init)"

definition EVP_MD_CTX_md :: "EVP_MD_CTX option \<Rightarrow> EVP_MD option" where
  "EVP_MD_CTX_md ctx = (case ctx of None \<Rightarrow> None | Some c \<Rightarrow> digest c)"

section \<open>The contract of a hash function\<close>

text \<open>Uninitialised memory is only of use to a method when it has its context type.\<close>

fun md_typed :: "EVP_MD \<Rightarrow> md_state \<Rightarrow> bool" where
  "md_typed md (MD64 c) \<longleftrightarrow> length (s5_p c) = 128"
| "md_typed md s \<longleftrightarrow> md_block_size md \<noteq> 128"

definition alloc_typed :: "md_alloc \<Rightarrow> bool" where
  "alloc_typed alloc \<longleftrightarrow> (\<forall>md s. alloc md = Some s \<longrightarrow> md_typed md s)"

abbreviation md_feed :: "EVP_MD \<Rightarrow> byte list list \<Rightarrow> md_state \<Rightarrow> md_state" where
  "md_feed md pieces s \<equiv> fold (md_update md) pieces (md_init md s)"

locale digest_method =
  fixes md :: EVP_MD and H :: "byte list \<Rightarrow> byte list"
  assumes final_hash: "md_typed md s \<Longrightarrow> fst (md_final md (md_feed md pieces s)) = Some (H (concat pieces))"
    and final_typed: "md_typed md s \<Longrightarrow> md_typed md (md_cleanse (snd (md_final md (md_feed md pieces s))))"
    and feed_typed: "md_typed md s \<Longrightarrow> md_typed md (md_feed md pieces s)"
    and hash_size: "length (H msg) = md_size md"
    and sizes: "0 < md_size md" "md_size md \<le> md_block_size md" "md_size md \<le> 64" "md_block_size md \<le> 128"
begin

text \<open>A context that has been fed some pieces of a message.\<close>

definition fed :: "byte list \<Rightarrow> EVP_MD_CTX \<Rightarrow> bool" where
  "fed msg ctx \<longleftrightarrow> digest ctx = Some md \<and> pctx ctx = None \<and>
     (\<exists>s pieces. md_typed md s \<and> concat pieces = msg \<and> md_data ctx = Some (md_feed md pieces s))"

text \<open>A context that can be initialised again: unused, or of this hash function.\<close>

definition free :: "EVP_MD_CTX \<Rightarrow> bool" where
  "free ctx \<longleftrightarrow> pctx ctx = None \<and>
     (digest ctx = None \<or> digest ctx = Some md \<and> (\<exists>s. md_typed md s \<and> md_data ctx = Some s))"

lemma free_init: "free EVP_MD_CTX_init"
  by (simp add: free_def EVP_MD_CTX_init_def)

lemma fed_free: "fed msg ctx \<Longrightarrow> free ctx"
  using feed_typed by (auto simp: fed_def free_def)

lemma init_fed:
  assumes "alloc_typed alloc" and "free ctx"
  shows "(\<exists>ctx'. EVP_DigestInit_ex alloc md ctx = (Some (), ctx') \<and> fed [] ctx') \<or>
    digest ctx = None \<and> alloc md = None \<and> EVP_DigestInit_ex alloc md ctx = (None, ctx)"
proof (cases "digest ctx")
  case None
  then have n: "\<not> same_md (digest ctx) (Some md)" by (simp add: same_md_def)
  show ?thesis
  proof (cases "alloc md")
    case (Some s)
    then have "md_typed md s" using assms(1) by (simp add: alloc_typed_def)
    then have "\<exists>t pieces. md_typed md t \<and> concat pieces = [] \<and> Some (md_init md s) = Some (md_feed md pieces t)"
      by (intro exI [of _ s] exI [of _ "[]"]) simp
    then show ?thesis using n Some assms(2) by (auto simp: EVP_DigestInit_ex_def fed_def free_def)
  qed (use n None in \<open>simp add: EVP_DigestInit_ex_def\<close>)
next
  case (Some d)
  then obtain s where s: "digest ctx = Some md" "md_typed md s" "md_data ctx = Some s" "pctx ctx = None"
    using assms(2) by (auto simp: free_def)
  then have "\<exists>t pieces. md_typed md t \<and> concat pieces = [] \<and> Some (md_init md s) = Some (md_feed md pieces t)"
    by (intro exI [of _ s] exI [of _ "[]"]) simp
  then show ?thesis using s by (simp add: EVP_DigestInit_ex_def same_md_def fed_def)
qed

lemma update_fed:
  assumes "fed msg ctx"
  shows "\<exists>ctx'. EVP_DigestUpdate data ctx = (Some (), ctx') \<and> fed (msg @ data) ctx'"
proof -
  obtain s pieces where c: "md_typed md s" "concat pieces = msg" "md_data ctx = Some (md_feed md pieces s)"
    using assms by (auto simp: fed_def)
  then have "\<exists>t ps. md_typed md t \<and> concat ps = msg @ data \<and>
      Some (md_update md data (md_feed md pieces s)) = Some (md_feed md ps t)"
    by (intro exI [of _ s] exI [of _ "pieces @ [data]"]) simp
  with c show ?thesis using assms by (simp add: fed_def EVP_DigestUpdate_def)
qed

lemma final_fed:
  assumes "fed msg ctx"
  shows "\<exists>ctx'. EVP_DigestFinal_ex ctx = (Some (H msg, md_size md), ctx') \<and> free ctx' \<and> digest ctx' = Some md"
proof -
  obtain s pieces where c: "md_typed md s" "concat pieces = msg" "md_data ctx = Some (md_feed md pieces s)"
    using assms by (auto simp: fed_def)
  obtain out t where f: "md_final md (md_feed md pieces s) = (out, t)" by (cases "md_final md (md_feed md pieces s)")
  have "out = Some (H msg)" "md_typed md (md_cleanse t)"
    using final_hash [OF c(1), of pieces] final_typed [OF c(1), of pieces] c(2) by (simp_all add: f)
  with c show ?thesis using assms by (simp add: fed_def free_def EVP_DigestFinal_ex_def f)
qed

text \<open>Copying a context copies what it has been fed.\<close>

lemma copy_fed:
  assumes "fed msg src" and "free ctx"
  shows "(\<exists>ctx'. EVP_MD_CTX_copy_ex alloc dup (Some src) ctx = (Some (), ctx') \<and> fed msg ctx') \<or>
    digest ctx = None \<and> alloc md = None \<and> EVP_MD_CTX_copy_ex alloc dup (Some src) ctx = (None, ctx)"
  using assms by (auto simp: EVP_MD_CTX_copy_ex_def fed_def free_def same_md_def EVP_MD_CTX_cleanup_def EVP_MD_CTX_init_def)

lemma EVP_Digest_hash:
  assumes "alloc_typed alloc"
  shows "EVP_Digest alloc md data = (if alloc md = None then None else Some (H data, md_size md))"
proof -
  have d: "digest EVP_MD_CTX_init = None" by (simp add: EVP_MD_CTX_init_def)
  from init_fed [OF assms free_init] show ?thesis
  proof
    assume "\<exists>ctx'. EVP_DigestInit_ex alloc md EVP_MD_CTX_init = (Some (), ctx') \<and> fed [] ctx'"
    then obtain c1 where 1: "EVP_DigestInit_ex alloc md EVP_MD_CTX_init = (Some (), c1)" "fed [] c1" by blast
    then have a: "alloc md \<noteq> None"
      using d by (auto simp: EVP_DigestInit_ex_def same_md_def split: option.splits)
    obtain c2 where 2: "EVP_DigestUpdate data c1 = (Some (), c2)" "fed data c2"
      using update_fed [OF 1(2), of data] by auto
    obtain c3 where "EVP_DigestFinal_ex c2 = (Some (H data, md_size md), c3)"
      using final_fed [OF 2(2)] by blast
    then show ?thesis using a by (simp add: EVP_Digest_def andthen_def 1(1) 2(1))
  qed (auto simp: EVP_Digest_def andthen_def)
qed

end

section \<open>The hash functions of the library\<close>

lemma on_md32_fold: "fold (\<lambda>p. on_md32 (\<lambda>c. upd c p)) pieces (MD32 c) = MD32 (fold (\<lambda>p c. upd c p) pieces c)"
  by (induction pieces arbitrary: c) simp_all

lemma on_md64_fold: "fold (\<lambda>p. on_md64 (\<lambda>c. upd c p)) pieces (MD64 c) = MD64 (fold (\<lambda>p c. upd c p) pieces c)"
  by (induction pieces arbitrary: c) simp_all

lemma md5_sha1_fold:
  "fold md5_sha1_update pieces (MD5_SHA1_CTX c d) =
   MD5_SHA1_CTX (fold (\<lambda>p c. MD5_Update c p (length p)) pieces c) (fold (\<lambda>p c. SHA1_Update c p (length p)) pieces d)"
  by (induction pieces arbitrary: c d) simp_all

text \<open>A hash function over 32-bit words needs only its digest law.\<close>

lemma digest_method_32:
  assumes m: "md_init md = (\<lambda>s. MD32 c0)" "md_update md = (\<lambda>data. on_md32 (\<lambda>c. upd c data))"
      "md_final md = final_md32 fin"
    and h: "\<And>pieces. fst (fin (fold (\<lambda>p c. upd c p) pieces c0)) = Some (H (concat pieces))"
    and s: "\<And>msg. length (H msg) = md_size md" "0 < md_size md" "md_size md \<le> 64" "md_block_size md = 64"
  shows "digest_method md H"
  by unfold_locales (use s in \<open>simp_all add: m on_md32_fold h\<close>)

lemma rfc_lengths: "length (rfc1321_md5 msg) = 16" "length (rfc1320_md4 msg) = 16"
proof -
  have l: "length rfc1321_H0 = 4" by (simp add: rfc1321_H0_def)
  have "length (fst (absorb 64 (\<lambda>b. rfc1321_compress (std_words False 4 b)) rfc1321_H0 bs)) = 4" for bs
    using absorb_agree [of 64 "\<lambda>h. length h = 4" rfc1321_H0 md5_block "\<lambda>b. rfc1321_compress (std_words False 4 b)" bs]
    by (simp add: l md5_block_std)
  then show "length (rfc1321_md5 msg) = 16" by (simp add: rfc1321_md5_def)
  have "length (fst (absorb 64 (\<lambda>b. rfc1320_compress (std_words False 4 b)) rfc1321_H0 bs)) = 4" for bs
    using absorb_agree [of 64 "\<lambda>h. length h = 4" rfc1321_H0 md4_block "\<lambda>b. rfc1320_compress (std_words False 4 b)" bs]
    by (simp add: l md4_block_std)
  then show "length (rfc1320_md4 msg) = 16" by (simp add: rfc1320_md4_def)
qed

lemma fips_sha1_length: "length (fips_sha1 msg) = 20"
proof -
  have l: "length fips1_H0 = 5" by (simp add: fips1_H0_def)
  have "length (fst (absorb 64 (\<lambda>b. sha1_compress (std_words True 4 b)) fips1_H0 bs)) = 5" for bs
    using absorb_agree [of 64 "\<lambda>h. length h = 5" fips1_H0 sha1_block "\<lambda>b. sha1_compress (std_words True 4 b)" bs]
    by (simp add: l sha1_block_fips block_words_std)
  then show ?thesis by (simp add: fips_sha1_def)
qed

lemma fips_sha2_lengths: "length (fips_sha256 msg) = 32" "length (fips_sha224 msg) = 28"
proof -
  have l: "length fips256_H0 = 8" "length fips224_H0 = 8" by (simp_all add: fips256_H0_def fips224_H0_def first_primes_def)
  show "length (fips_sha256 msg) = 32" "length (fips_sha224 msg) = 28"
    by (simp_all add: fips_sha256_def fips_sha224_def length_fips_hash [OF l(1)] length_fips_hash [OF l(2)])
qed

interpretation evp_md4: digest_method EVP_md4 rfc1320_md4
  by (rule digest_method_32 [where upd = "\<lambda>c p. MD4_Update c p (length p)" and fin = MD4_Final])
    (use md4_any_pieces in \<open>simp_all add: EVP_md4_def fun_eq_iff md4_init_def md4_update_def md4_final_def rfc_lengths\<close>)

interpretation evp_md5: digest_method EVP_md5 rfc1321_md5
  by (rule digest_method_32 [where upd = "\<lambda>c p. MD5_Update c p (length p)" and fin = MD5_Final])
    (use md5_any_pieces in \<open>simp_all add: EVP_md5_def fun_eq_iff md5_init_def md5_update_def md5_final_def rfc_lengths\<close>)

interpretation evp_sha1: digest_method EVP_sha1 fips_sha1
  by (rule digest_method_32 [where upd = "\<lambda>c p. SHA1_Update c p (length p)" and fin = SHA1_Final])
    (use sha1_any_pieces in \<open>simp_all add: EVP_sha1_def fun_eq_iff sha1_init_def sha1_update_def sha1_final_def fips_sha1_length\<close>)

interpretation evp_sha224: digest_method EVP_sha224 fips_sha224
  by (rule digest_method_32 [where upd = "\<lambda>c p. SHA224_Update c p (length p)" and fin = SHA224_Final])
    (use sha2_pieces(2) in \<open>simp_all add: EVP_sha224_def fun_eq_iff sha224_init_def sha224_update_def sha224_final_def fips_sha2_lengths\<close>)

interpretation evp_sha256: digest_method EVP_sha256 fips_sha256
  by (rule digest_method_32 [where upd = "\<lambda>c p. SHA256_Update c p (length p)" and fin = SHA256_Final])
    (use sha2_pieces(1) in \<open>simp_all add: EVP_sha256_def fun_eq_iff sha256_init_def sha256_update_def sha256_final_def fips_sha2_lengths\<close>)

text \<open>SHA-512 and SHA-384 initialise the context in place, so their state must have its type.\<close>

lemma sha512_kept:
  assumes "length (s5_p c) = 128" "s5_num c < 128"
  shows "length (s5_p (fold (\<lambda>p c. SHA512_Update c p (length p)) pieces c)) = 128 \<and>
    length (s5_p (snd (SHA512_Final False (fold (\<lambda>p c. SHA512_Update c p (length p)) pieces c)))) = 128"
proof -
  let ?c = "fold (\<lambda>p c. SHA512_Update c p (length p)) pieces c"
  have "s5_ok ?c"
    using assms
  proof (induction pieces arbitrary: c)
    case (Cons p pieces)
    then have "s5_ok (SHA512_Update c p (length p))" using sha512_update_absorbs(1) [of c p] by (simp add: s5_ok_def)
    with Cons.IH show ?case by (simp add: s5_ok_def)
  qed (simp add: s5_ok_def)
  then have l: "length (s5_p ?c) = 128" "s5_num ?c < 128" by (simp_all add: s5_ok_def)
  then have "length (s5_p (snd (SHA512_Final False ?c))) = 128"
    by (simp add: SHA512_Final_def Let_def)
  with l show ?thesis by simp
qed

lemma digest_method_64:
  assumes m: "md_init md = on_md64 (\<lambda>c. ini (s5_p c))"
      "md_update md = (\<lambda>data. on_md64 (\<lambda>c. SHA512_Update c data (length data)))"
      "md_final md = final_md64 (SHA512_Final False)"
    and i: "\<And>p. s5_p (ini p) = p" "\<And>p. s5_num (ini p) = 0"
    and h: "\<And>p pieces. length p = 128 \<Longrightarrow>
      fst (SHA512_Final False (fold (\<lambda>p c. SHA512_Update c p (length p)) pieces (ini p))) = Some (H (concat pieces))"
    and s: "\<And>msg. length (H msg) = md_size md" "0 < md_size md" "md_size md \<le> 64" "md_block_size md = 128"
  shows "digest_method md H"
proof
  fix s pieces
  assume "md_typed md s"
  then obtain c where c: "s = MD64 c" "length (s5_p c) = 128" by (cases s) (simp_all add: s(4))
  then have r: "md_feed md pieces s = MD64 (fold (\<lambda>p c. SHA512_Update c p (length p)) pieces (ini (s5_p c)))"
    by (simp add: m on_md64_fold)
  have l: "length (s5_p (ini (s5_p c))) = 128" "s5_num (ini (s5_p c)) < 128" by (simp_all add: i c(2))
  show "fst (md_final md (md_feed md pieces s)) = Some (H (concat pieces))"
    by (simp add: r m(3) h [OF c(2)])
  show "md_typed md (md_cleanse (snd (md_final md (md_feed md pieces s))))" "md_typed md (md_feed md pieces s)"
    by (simp_all add: r m(3) sha512_kept [OF l])
qed (use s in simp_all)

lemma sha5_init: "s5_p (SHA384_Init p) = p" "s5_num (SHA384_Init p) = 0" "s5_p (SHA512_Init p) = p" "s5_num (SHA512_Init p) = 0"
  by (simp_all add: SHA384_Init_def SHA512_Init_def)

interpretation evp_sha384: digest_method EVP_sha384 fips_sha384
  by (rule digest_method_64 [where ini = SHA384_Init])
    (use sha5_pieces(2) in \<open>simp_all add: EVP_sha384_def fun_eq_iff sha384_init_def sha384_update_def sha384_final_def
      SHA384_Update_def SHA384_Final_def fips_sha5_lengths sha5_init\<close>)

interpretation evp_sha512: digest_method EVP_sha512 fips_sha512
  by (rule digest_method_64 [where ini = SHA512_Init])
    (use sha5_pieces(1) in \<open>simp_all add: EVP_sha512_def fun_eq_iff sha512_init_def sha512_update_def sha512_final_def
      fips_sha5_lengths sha5_init\<close>)

interpretation evp_md5_sha1: digest_method EVP_md5_sha1 "\<lambda>msg. rfc1321_md5 msg @ fips_sha1 msg"
proof
  fix s pieces
  have r: "md_feed EVP_md5_sha1 pieces s = MD5_SHA1_CTX (fold (\<lambda>p c. MD5_Update c p (length p)) pieces MD5_Init)
      (fold (\<lambda>p c. SHA1_Update c p (length p)) pieces SHA1_Init)"
    by (simp add: EVP_md5_sha1_def md5_sha1_init_def md5_sha1_fold)
  show "fst (md_final EVP_md5_sha1 (md_feed EVP_md5_sha1 pieces s)) =
      Some (rfc1321_md5 (concat pieces) @ fips_sha1 (concat pieces))"
    using md5_any_pieces [of pieces] sha1_any_pieces [of pieces]
    unfolding r by (auto simp: EVP_md5_sha1_def split: prod.split)
  show "md_typed EVP_md5_sha1 (md_cleanse (snd (md_final EVP_md5_sha1 (md_feed EVP_md5_sha1 pieces s))))"
    "md_typed EVP_md5_sha1 (md_feed EVP_md5_sha1 pieces s)"
    unfolding r by (simp_all add: EVP_md5_sha1_def split: prod.split)
qed (simp_all add: EVP_md5_sha1_def rfc_lengths fips_sha1_length)

text \<open>The hash functions with their standards.\<close>

definition evp_digests :: "(EVP_MD \<times> (byte list \<Rightarrow> byte list)) list" where
  "evp_digests = [(EVP_md4, rfc1320_md4), (EVP_md5, rfc1321_md5), (EVP_sha1, fips_sha1), (EVP_sha224, fips_sha224),
     (EVP_sha256, fips_sha256), (EVP_sha384, fips_sha384), (EVP_sha512, fips_sha512),
     (EVP_md5_sha1, \<lambda>msg. rfc1321_md5 msg @ fips_sha1 msg)]"

lemma evp_digest_method: "(md, H) \<in> set evp_digests \<Longrightarrow> digest_method md H"
  using evp_md4.digest_method_axioms evp_md5.digest_method_axioms evp_sha1.digest_method_axioms
    evp_sha224.digest_method_axioms evp_sha256.digest_method_axioms evp_sha384.digest_method_axioms
    evp_sha512.digest_method_axioms evp_md5_sha1.digest_method_axioms
  by (auto simp: evp_digests_def)

end
