(* ===== verification/Hmac.thy ===== *)
theory Hmac
  imports Digest
begin

text \<open>
  HMAC (\<open>crypto/fipsmodule/hmac/hmac.c\<close>) on top of the digest interface, and its equivalence with
  RFC 2104 for every hash function of the library. The lemmas live in the locale \<open>digest_method\<close>, so
  they hold of any hash function that keeps the contract.
\<close>

section \<open>The code\<close>

record HMAC_CTX =
  hmac_md :: "EVP_MD option"
  md_ctx :: EVP_MD_CTX
  i_ctx :: EVP_MD_CTX
  o_ctx :: EVP_MD_CTX

text \<open>An operation on one of the three digest contexts.\<close>

definition at_md :: "(EVP_MD_CTX, 'a) op \<Rightarrow> (HMAC_CTX, 'a) op" where
  "at_md m ctx = (case m (md_ctx ctx) of (r, c) \<Rightarrow> (r, ctx\<lparr>md_ctx := c\<rparr>))"

definition at_i :: "(EVP_MD_CTX, 'a) op \<Rightarrow> (HMAC_CTX, 'a) op" where
  "at_i m ctx = (case m (i_ctx ctx) of (r, c) \<Rightarrow> (r, ctx\<lparr>i_ctx := c\<rparr>))"

definition at_o :: "(EVP_MD_CTX, 'a) op \<Rightarrow> (HMAC_CTX, 'a) op" where
  "at_o m ctx = (case m (o_ctx ctx) of (r, c) \<Rightarrow> (r, ctx\<lparr>o_ctx := c\<rparr>))"

text \<open>
  One call of \<open>HMAC_Init_ex\<close> allocates at most four times; \<open>alloc k\<close> answers the \<open>k\<close>-th of these
  places in the code. The digest contexts of an \<open>HMAC_CTX\<close> have no \<open>pctx\<close> to copy.
\<close>

type_synonym hmac_alloc = "nat \<Rightarrow> md_alloc"

definition EVP_MAX_MD_BLOCK_SIZE :: nat where
  "EVP_MAX_MD_BLOCK_SIZE = 128"

definition HMAC_CTX_init :: HMAC_CTX where
  "HMAC_CTX_init = \<lparr>hmac_md = None, md_ctx = EVP_MD_CTX_init, i_ctx = EVP_MD_CTX_init, o_ctx = EVP_MD_CTX_init\<rparr>"

definition HMAC_CTX_cleanup :: "HMAC_CTX \<Rightarrow> HMAC_CTX" where
  "HMAC_CTX_cleanup ctx = \<lparr>hmac_md = None, md_ctx = EVP_MD_CTX_cleanup (md_ctx ctx),
     i_ctx = EVP_MD_CTX_cleanup (i_ctx ctx), o_ctx = EVP_MD_CTX_cleanup (o_ctx ctx)\<rparr>"

definition HMAC_CTX_reset :: "HMAC_CTX \<Rightarrow> HMAC_CTX" where
  "HMAC_CTX_reset ctx = (let ctx = HMAC_CTX_cleanup ctx in HMAC_CTX_init)"

text \<open>The key block: long keys are hashed, then the key is padded with zeros to the array's size.\<close>

definition hmac_key_block :: "md_alloc \<Rightarrow> EVP_MD \<Rightarrow> byte list option \<Rightarrow> size_t \<Rightarrow> (HMAC_CTX, byte list) op" where
  "hmac_key_block alloc md key key_len =
     (let bytes = (case key of None \<Rightarrow> [] | Some k \<Rightarrow> take key_len k);
          zeros = (\<lambda>n. replicate (EVP_MAX_MD_BLOCK_SIZE - n) 0)
      in if md_block_size md < key_len
         then andthen (at_md (EVP_DigestInit_ex alloc md)) (\<lambda>_.
              andthen (at_md (EVP_DigestUpdate bytes)) (\<lambda>_.
              andthen (at_md EVP_DigestFinal_ex) (\<lambda>(block, n). ret (take n block @ zeros n))))
         else ret (bytes @ zeros key_len))"

definition HMAC_Init_ex ::
  "hmac_alloc \<Rightarrow> byte list option \<Rightarrow> size_t \<Rightarrow> EVP_MD option \<Rightarrow> (HMAC_CTX, unit) op" where
  "HMAC_Init_ex alloc key key_len md ctx =
     (let md = (case md of None \<Rightarrow> hmac_md ctx | Some m \<Rightarrow> Some m);
          rekey =
            (if \<not> same_md md (hmac_md ctx) \<or> key \<noteq> None
             then (case md of None \<Rightarrow> fail | Some m \<Rightarrow>
               andthen (hmac_key_block (alloc 0) m key key_len) (\<lambda>block.
               andthen (at_i (EVP_DigestInit_ex (alloc 1) m)) (\<lambda>_.
               andthen (at_i (EVP_DigestUpdate (take (md_block_size m) (map (\<lambda>b. 0x36 XOR b) block)))) (\<lambda>_.
               andthen (at_o (EVP_DigestInit_ex (alloc 2) m)) (\<lambda>_.
               andthen (at_o (EVP_DigestUpdate (take (md_block_size m) (map (\<lambda>b. 0x5c XOR b) block)))) (\<lambda>_.
               \<lambda>ctx. (Some (), ctx\<lparr>hmac_md := Some m\<rparr>)))))))
             else ret ())
      in andthen rekey (\<lambda>_ ctx. at_md (EVP_MD_CTX_copy_ex (alloc 3) (\<lambda>_. None) (Some (i_ctx ctx))) ctx) ctx)"

definition HMAC_Update :: "byte list \<Rightarrow> (HMAC_CTX, unit) op" where
  "HMAC_Update data = at_md (EVP_DigestUpdate data)"

definition HMAC_Final :: "md_alloc \<Rightarrow> (HMAC_CTX, byte list \<times> nat) op" where
  "HMAC_Final alloc =
     andthen (at_md EVP_DigestFinal_ex) (\<lambda>(buf, i).
     andthen (\<lambda>ctx. at_md (EVP_MD_CTX_copy_ex alloc (\<lambda>_. None) (Some (o_ctx ctx))) ctx) (\<lambda>_.
     andthen (at_md (EVP_DigestUpdate (take i buf))) (\<lambda>_.
     at_md EVP_DigestFinal_ex)))"

definition HMAC :: "hmac_alloc \<Rightarrow> EVP_MD \<Rightarrow> byte list \<Rightarrow> byte list \<Rightarrow> (byte list \<times> nat) option" where
  "HMAC alloc md key data =
     fst (andthen (HMAC_Init_ex alloc (Some key) (length key) (Some md)) (\<lambda>_.
          andthen (HMAC_Update data) (\<lambda>_. HMAC_Final (alloc 4))) HMAC_CTX_init)"

definition HMAC_size :: "HMAC_CTX \<Rightarrow> size_t option" where
  "HMAC_size ctx = map_option md_size (hmac_md ctx)"

definition HMAC_CTX_copy_ex :: "hmac_alloc \<Rightarrow> HMAC_CTX \<Rightarrow> (HMAC_CTX, unit) op" where
  "HMAC_CTX_copy_ex alloc src =
     andthen (at_i (EVP_MD_CTX_copy_ex (alloc 0) (\<lambda>_. None) (Some (i_ctx src)))) (\<lambda>_.
     andthen (at_o (EVP_MD_CTX_copy_ex (alloc 1) (\<lambda>_. None) (Some (o_ctx src)))) (\<lambda>_.
     andthen (at_md (EVP_MD_CTX_copy_ex (alloc 2) (\<lambda>_. None) (Some (md_ctx src)))) (\<lambda>_.
     \<lambda>ctx. (Some (), ctx\<lparr>hmac_md := hmac_md src\<rparr>))))"

definition HMAC_Init :: "hmac_alloc \<Rightarrow> byte list option \<Rightarrow> size_t \<Rightarrow> EVP_MD option \<Rightarrow> (HMAC_CTX, unit) op" where
  "HMAC_Init alloc key key_len md ctx =
     HMAC_Init_ex alloc key key_len md (if key \<noteq> None \<and> md \<noteq> None then HMAC_CTX_init else ctx)"

definition HMAC_CTX_copy :: "hmac_alloc \<Rightarrow> HMAC_CTX \<Rightarrow> (HMAC_CTX, unit) op" where
  "HMAC_CTX_copy alloc src dest = HMAC_CTX_copy_ex alloc src HMAC_CTX_init"

section \<open>RFC 2104\<close>

definition rfc2104_key :: "EVP_MD \<Rightarrow> (byte list \<Rightarrow> byte list) \<Rightarrow> byte list \<Rightarrow> byte list" where
  "rfc2104_key md H key =
     (let K = (if md_block_size md < length key then H key else key)
      in K @ replicate (md_block_size md - length K) 0)"

definition rfc2104 :: "EVP_MD \<Rightarrow> (byte list \<Rightarrow> byte list) \<Rightarrow> byte list \<Rightarrow> byte list \<Rightarrow> byte list" where
  "rfc2104 md H key msg =
     (let K = rfc2104_key md H key
      in H (map (\<lambda>b. 0x5c XOR b) K @ H (map (\<lambda>b. 0x36 XOR b) K @ msg)))"

lemma at_md_eq: "m (md_ctx ctx) = (r, c) \<Longrightarrow> at_md m ctx = (r, ctx\<lparr>md_ctx := c\<rparr>)"
  by (simp add: at_md_def)

lemma at_i_eq: "m (i_ctx ctx) = (r, c) \<Longrightarrow> at_i m ctx = (r, ctx\<lparr>i_ctx := c\<rparr>)"
  by (simp add: at_i_def)

lemma at_o_eq: "m (o_ctx ctx) = (r, c) \<Longrightarrow> at_o m ctx = (r, ctx\<lparr>o_ctx := c\<rparr>)"
  by (simp add: at_o_def)

lemmas at_eqs = at_md_eq at_i_eq at_o_eq

text \<open>One message in pieces after a rewind, and a sequence of messages.\<close>

fun hmac_feed :: "byte list list \<Rightarrow> (HMAC_CTX, unit) op" where
  "hmac_feed [] = ret ()"
| "hmac_feed (p # ps) = andthen (HMAC_Update p) (\<lambda>_. hmac_feed ps)"

definition hmac_message :: "hmac_alloc \<Rightarrow> byte list list \<Rightarrow> (HMAC_CTX, byte list \<times> nat) op" where
  "hmac_message alloc pieces =
     andthen (HMAC_Init_ex alloc None 0 None) (\<lambda>_. andthen (hmac_feed pieces) (\<lambda>_. HMAC_Final (alloc 4)))"

fun hmac_messages :: "hmac_alloc \<Rightarrow> byte list list list \<Rightarrow> HMAC_CTX \<Rightarrow> (byte list \<times> nat) option list" where
  "hmac_messages alloc [] ctx = []"
| "hmac_messages alloc (m # ms) ctx =
     (case hmac_message alloc m ctx of (tag, ctx) \<Rightarrow> tag # hmac_messages alloc ms ctx)"

context digest_method begin

text \<open>The three contexts can be used for this hash function.\<close>

definition hmac_ready :: "HMAC_CTX \<Rightarrow> bool" where
  "hmac_ready ctx \<longleftrightarrow> free (md_ctx ctx) \<and> free (i_ctx ctx) \<and> free (o_ctx ctx)"

text \<open>A key is installed: the inner and the outer context have taken their padded key.\<close>

definition keyed :: "byte list \<Rightarrow> HMAC_CTX \<Rightarrow> bool" where
  "keyed key ctx \<longleftrightarrow> hmac_md ctx = Some md \<and>
     fed (map (\<lambda>b. 0x36 XOR b) (rfc2104_key md H key)) (i_ctx ctx) \<and>
     fed (map (\<lambda>b. 0x5c XOR b) (rfc2104_key md H key)) (o_ctx ctx) \<and>
     free (md_ctx ctx) \<and> digest (md_ctx ctx) = Some md"

text \<open>A message is being authenticated.\<close>

definition macing :: "byte list \<Rightarrow> byte list \<Rightarrow> HMAC_CTX \<Rightarrow> bool" where
  "macing key msg ctx \<longleftrightarrow> keyed key ctx \<and>
     fed (map (\<lambda>b. 0x36 XOR b) (rfc2104_key md H key) @ msg) (md_ctx ctx)"

lemma hmac_ready_init: "hmac_ready HMAC_CTX_init"
  by (simp add: hmac_ready_def HMAC_CTX_init_def free_init)

lemma keyed_ready: "keyed key ctx \<Longrightarrow> hmac_ready ctx"
  by (auto simp: keyed_def hmac_ready_def intro: fed_free)

lemma rfc2104_key_block:
  "map f (rfc2104_key md H key) =
   take (md_block_size md) (map f ((if md_block_size md < length key then H key else key) @
     replicate (EVP_MAX_MD_BLOCK_SIZE - length (if md_block_size md < length key then H key else key)) 0))"
  using sizes hash_size [of key] by (simp add: rfc2104_key_def EVP_MAX_MD_BLOCK_SIZE_def min_def Let_def)

text \<open>The key block is the key or its hash, padded; only the hash of a long key needs memory.\<close>

lemma key_block:
  assumes a: "alloc_typed alloc" and r: "hmac_ready ctx"
  shows "(\<exists>ctx'. hmac_key_block alloc md (Some key) (length key) ctx =
        (Some ((if md_block_size md < length key then H key else key) @
          replicate (EVP_MAX_MD_BLOCK_SIZE - length (if md_block_size md < length key then H key else key)) 0), ctx') \<and>
        hmac_ready ctx') \<or>
    (alloc md = None \<and> fst (hmac_key_block alloc md (Some key) (length key) ctx) = None)"
proof (cases "md_block_size md < length key")
  case False
  then show ?thesis using r by (simp add: hmac_key_block_def Let_def ret_def)
next
  case long: True
  have f: "free (md_ctx ctx)" "free (i_ctx ctx)" "free (o_ctx ctx)" using r by (simp_all add: hmac_ready_def)
  from init_fed [OF a f(1)] show ?thesis
  proof
    assume "\<exists>c. EVP_DigestInit_ex alloc md (md_ctx ctx) = (Some (), c) \<and> fed [] c"
    then obtain c1 where 1: "EVP_DigestInit_ex alloc md (md_ctx ctx) = (Some (), c1)" "fed [] c1" by blast
    obtain c2 where 2: "EVP_DigestUpdate key c1 = (Some (), c2)" "fed key c2"
      using update_fed [OF 1(2), of key] by auto
    obtain c3 where 3: "EVP_DigestFinal_ex c2 = (Some (H key, md_size md), c3)" "free c3"
      using final_fed [OF 2(2)] by blast
    show ?thesis
      using long f 1(1) 2(1) 3
      by (simp add: hmac_key_block_def andthen_def at_md_def ret_def hmac_ready_def hash_size)
  next
    assume "digest (md_ctx ctx) = None \<and> alloc md = None \<and> EVP_DigestInit_ex alloc md (md_ctx ctx) = (None, md_ctx ctx)"
    then show ?thesis using long by (simp add: hmac_key_block_def andthen_def at_md_def)
  qed
qed

text \<open>Installing a pad in one of the two contexts.\<close>

lemma pad_fed:
  assumes a: "alloc_typed alloc" and f: "free c"
  shows "(\<exists>c'. andthen (EVP_DigestInit_ex alloc md) (\<lambda>_. EVP_DigestUpdate data) c = (Some (), c') \<and> fed data c') \<or>
    (alloc md = None \<and> EVP_DigestInit_ex alloc md c = (None, c))"
  using init_fed [OF a f]
proof
  assume "\<exists>c'. EVP_DigestInit_ex alloc md c = (Some (), c') \<and> fed [] c'"
  then obtain c1 where 1: "EVP_DigestInit_ex alloc md c = (Some (), c1)" "fed [] c1" by blast
  with update_fed [OF 1(2), of data] show ?thesis by (auto simp: andthen_def)
qed simp

lemma init_keyed:
  assumes a: "\<And>k. alloc_typed (alloc k)" and r: "hmac_ready ctx"
  shows "(\<exists>ctx'. HMAC_Init_ex alloc (Some key) (length key) (Some md) ctx = (Some (), ctx') \<and> macing key [] ctx') \<or>
    (\<exists>k < 4. alloc k md = None) \<and> fst (HMAC_Init_ex alloc (Some key) (length key) (Some md) ctx) = None"
proof -
  define block where "block = (if md_block_size md < length key then H key else key) @
    replicate (EVP_MAX_MD_BLOCK_SIZE - length (if md_block_size md < length key then H key else key)) 0"
  let ?pad = "\<lambda>x. take (md_block_size md) (map (\<lambda>b. x XOR b) block)"
  have pad: "?pad x = map (\<lambda>b. x XOR b) (rfc2104_key md H key)" for x by (simp only: rfc2104_key_block block_def)
  from key_block [OF a r, of 0 key, folded block_def] consider
      ctx1 where "hmac_key_block (alloc 0) md (Some key) (length key) ctx = (Some block, ctx1)" "hmac_ready ctx1"
    | "alloc 0 md = None" "fst (hmac_key_block (alloc 0) md (Some key) (length key) ctx) = None"
    by auto
  then show ?thesis
  proof cases
    case 2
    then show ?thesis
      by (auto simp: HMAC_Init_ex_def Let_def andthen_def split: prod.splits intro!: exI [of _ 0])
  next
    case 1
    then have f: "free (md_ctx ctx1)" "free (i_ctx ctx1)" "free (o_ctx ctx1)" by (simp_all add: hmac_ready_def)
    from pad_fed [OF a f(2), of 1 "?pad 0x36"] consider
        ci where "andthen (EVP_DigestInit_ex (alloc 1) md) (\<lambda>_. EVP_DigestUpdate (?pad 0x36)) (i_ctx ctx1) = (Some (), ci)"
          "fed (?pad 0x36) ci"
      | "alloc 1 md = None" "EVP_DigestInit_ex (alloc 1) md (i_ctx ctx1) = (None, i_ctx ctx1)" by auto
    then show ?thesis
    proof cases
      case 2
      then show ?thesis using 1
        by (auto simp: HMAC_Init_ex_def Let_def andthen_def at_i_def split: prod.splits intro!: exI [of _ 1])
    next
      case i: 1
      from pad_fed [OF a f(3), of 2 "?pad 0x5c"] consider
          co where "andthen (EVP_DigestInit_ex (alloc 2) md) (\<lambda>_. EVP_DigestUpdate (?pad 0x5c)) (o_ctx ctx1) = (Some (), co)"
            "fed (?pad 0x5c) co"
        | "alloc 2 md = None" "EVP_DigestInit_ex (alloc 2) md (o_ctx ctx1) = (None, o_ctx ctx1)" by auto
      then show ?thesis
      proof cases
        case 2
        then show ?thesis using 1 i(1)
          by (auto simp: HMAC_Init_ex_def Let_def andthen_Some andthen_def at_i_def at_o_def split: prod.splits option.splits intro!: exI [of _ 2])
      next
        case o: 1
        let ?ctx = "ctx1\<lparr>i_ctx := ci, o_ctx := co, hmac_md := Some md\<rparr>"
        have e: "HMAC_Init_ex alloc (Some key) (length key) (Some md) ctx =
            at_md (EVP_MD_CTX_copy_ex (alloc 3) (\<lambda>_. None) (Some ci)) ?ctx"
          using 1(1) i(1) o(1)
          by (auto simp: HMAC_Init_ex_def Let_def andthen_def at_i_def at_o_def split: prod.splits option.splits)
        from copy_fed [OF i(2) f(1), of "alloc 3" "\<lambda>_. None"] show ?thesis
        proof
          assume "\<exists>c'. EVP_MD_CTX_copy_ex (alloc 3) (\<lambda>_. None) (Some ci) (md_ctx ctx1) = (Some (), c') \<and> fed (?pad 0x36) c'"
          then obtain c' where c: "EVP_MD_CTX_copy_ex (alloc 3) (\<lambda>_. None) (Some ci) (md_ctx ctx1) = (Some (), c')"
            "fed (?pad 0x36) c'" by blast
          have "macing key [] (?ctx\<lparr>md_ctx := c'\<rparr>)"
            using c(2) i(2) o(2) fed_free [OF c(2)] by (simp add: macing_def keyed_def pad) (simp add: fed_def)
          then show ?thesis using c(1) by (simp add: e at_md_def)
        next
          assume "digest (md_ctx ctx1) = None \<and> alloc 3 md = None \<and>
            EVP_MD_CTX_copy_ex (alloc 3) (\<lambda>_. None) (Some ci) (md_ctx ctx1) = (None, md_ctx ctx1)"
          then show ?thesis by (auto simp: e at_md_def intro!: exI [of _ 3])
        qed
      qed
    qed
  qed
qed

text \<open>Without a key the context is rewound to the installed one, and no memory is needed.\<close>

lemma init_rewinds:
  assumes "keyed key ctx"
  shows "\<exists>ctx'. HMAC_Init_ex alloc None 0 None ctx = (Some (), ctx') \<and> macing key [] ctx'"
proof -
  have i: "fed (map (\<lambda>b. 0x36 XOR b) (rfc2104_key md H key)) (i_ctx ctx)" "free (md_ctx ctx)" "digest (md_ctx ctx) = Some md"
    using assms by (simp_all add: keyed_def)
  from copy_fed [OF i(1,2), of "alloc 3" "\<lambda>_. None"] i(3) obtain c where
    c: "EVP_MD_CTX_copy_ex (alloc 3) (\<lambda>_. None) (Some (i_ctx ctx)) (md_ctx ctx) = (Some (), c)"
      "fed (map (\<lambda>b. 0x36 XOR b) (rfc2104_key md H key)) c" by auto
  have "macing key [] (ctx\<lparr>md_ctx := c\<rparr>)"
    using assms c(2) fed_free [OF c(2)] by (simp add: macing_def keyed_def) (simp add: fed_def)
  then show ?thesis using c(1) assms
    by (simp add: HMAC_Init_ex_def Let_def andthen_def ret_def keyed_def same_md_def at_md_def)
qed

lemma update_macing:
  assumes "macing key msg ctx"
  shows "\<exists>ctx'. HMAC_Update data ctx = (Some (), ctx') \<and> macing key (msg @ data) ctx'"
proof -
  obtain c where c: "EVP_DigestUpdate data (md_ctx ctx) = (Some (), c)"
      "fed (map (\<lambda>b. 0x36 XOR b) (rfc2104_key md H key) @ msg @ data) c"
    using update_fed [of "map (\<lambda>b. 0x36 XOR b) (rfc2104_key md H key) @ msg" "md_ctx ctx" data] assms
    by (auto simp: macing_def)
  have "macing key (msg @ data) (ctx\<lparr>md_ctx := c\<rparr>)"
    using assms c(2) fed_free [OF c(2)] by (simp add: macing_def keyed_def) (simp add: fed_def)
  then show ?thesis using c(1) by (simp add: HMAC_Update_def at_md_def)
qed

lemma final_macing:
  assumes "macing key msg ctx"
  shows "\<exists>ctx'. HMAC_Final alloc ctx = (Some (rfc2104 md H key msg, md_size md), ctx') \<and> keyed key ctx'"
proof -
  let ?K = "rfc2104_key md H key"
  have m: "keyed key ctx" "fed (map (\<lambda>b. 0x36 XOR b) ?K @ msg) (md_ctx ctx)" using assms by (simp_all add: macing_def)
  then have o: "fed (map (\<lambda>b. 0x5c XOR b) ?K) (o_ctx ctx)" by (simp add: keyed_def)
  let ?inner = "H (map (\<lambda>b. 0x36 XOR b) ?K @ msg)"
  obtain c1 where 1: "EVP_DigestFinal_ex (md_ctx ctx) = (Some (?inner, md_size md), c1)" "free c1" "digest c1 = Some md"
    using final_fed [OF m(2)] by blast
  from copy_fed [OF o 1(2), of alloc "\<lambda>_. None"] 1(3) obtain c2 where
    2: "EVP_MD_CTX_copy_ex alloc (\<lambda>_. None) (Some (o_ctx ctx)) c1 = (Some (), c2)" "fed (map (\<lambda>b. 0x5c XOR b) ?K) c2"
    by auto
  obtain c3 where 3: "EVP_DigestUpdate ?inner c2 = (Some (), c3)" "fed (map (\<lambda>b. 0x5c XOR b) ?K @ ?inner) c3"
    using update_fed [OF 2(2), of ?inner] by blast
  obtain c4 where 4: "EVP_DigestFinal_ex c3 = (Some (rfc2104 md H key msg, md_size md), c4)" "free c4" "digest c4 = Some md"
    using final_fed [OF 3(2)] by (auto simp: rfc2104_def Let_def)
  have "keyed key (ctx\<lparr>md_ctx := c4\<rparr>)" using m(1) 4(2,3) by (simp add: keyed_def)
  then show ?thesis
    using 1(1) 2(1) 3(1) 4(1) hash_size [of "map (\<lambda>b. 0x36 XOR b) ?K @ msg"]
    by (simp add: HMAC_Final_def andthen_def at_md_def)
qed

text \<open>A message in pieces, and a whole sequence of messages under one key.\<close>

lemma feed_macing:
  "macing key msg ctx \<Longrightarrow> \<exists>ctx'. hmac_feed pieces ctx = (Some (), ctx') \<and> macing key (msg @ concat pieces) ctx'"
proof (induction pieces arbitrary: msg ctx)
  case (Cons p pieces)
  obtain c where c: "HMAC_Update p ctx = (Some (), c)" "macing key (msg @ p) c"
    using update_macing [OF Cons.prems] by blast
  with Cons.IH [OF c(2)] show ?case by (simp add: andthen_def)
qed (simp add: ret_def)

lemma message_mac:
  assumes "keyed key ctx"
  shows "\<exists>ctx'. hmac_message alloc pieces ctx = (Some (rfc2104 md H key (concat pieces), md_size md), ctx') \<and> keyed key ctx'"
proof -
  obtain c1 where 1: "HMAC_Init_ex alloc None 0 None ctx = (Some (), c1)" "macing key [] c1"
    using init_rewinds [OF assms] by blast
  obtain c2 where 2: "hmac_feed pieces c1 = (Some (), c2)" "macing key (concat pieces) c2"
    using feed_macing [OF 1(2), of pieces] by auto
  obtain c3 where "HMAC_Final (alloc 4) c2 = (Some (rfc2104 md H key (concat pieces), md_size md), c3)" "keyed key c3"
    using final_macing [OF 2(2)] by blast
  with 1 2 show ?thesis by (simp add: hmac_message_def andthen_def)
qed

lemma messages_mac:
  "keyed key ctx \<Longrightarrow>
   hmac_messages alloc msgs ctx = map (\<lambda>ps. Some (rfc2104 md H key (concat ps), md_size md)) msgs"
proof (induction msgs arbitrary: ctx)
  case (Cons m msgs)
  obtain c where "hmac_message alloc m ctx = (Some (rfc2104 md H key (concat m), md_size md), c)" "keyed key c"
    using message_mac [OF Cons.prems] by blast
  with Cons.IH show ?case by simp
qed simp

lemma HMAC_mac:
  assumes a: "\<And>k. alloc_typed (alloc k)"
  shows "HMAC alloc md key data = Some (rfc2104 md H key data, md_size md) \<or>
    HMAC alloc md key data = None \<and> (\<exists>k < 4. alloc k md = None)"
  using init_keyed [where alloc = alloc and key = key, OF a hmac_ready_init]
proof
  assume "\<exists>ctx'. HMAC_Init_ex alloc (Some key) (length key) (Some md) HMAC_CTX_init = (Some (), ctx') \<and> macing key [] ctx'"
  then obtain c1 where 1: "HMAC_Init_ex alloc (Some key) (length key) (Some md) HMAC_CTX_init = (Some (), c1)"
    "macing key [] c1" by blast
  obtain c2 where 2: "HMAC_Update data c1 = (Some (), c2)" "macing key data c2"
    using update_macing [OF 1(2), of data] by auto
  obtain c3 where "HMAC_Final (alloc 4) c2 = (Some (rfc2104 md H key data, md_size md), c3)"
    using final_macing [OF 2(2)] by blast
  with 1 2 show ?thesis by (simp add: HMAC_def andthen_def)
next
  assume *: "(\<exists>k < 4. alloc k md = None) \<and> fst (HMAC_Init_ex alloc (Some key) (length key) (Some md) HMAC_CTX_init) = None"
  then obtain c where "HMAC_Init_ex alloc (Some key) (length key) (Some md) HMAC_CTX_init = (None, c)"
    by (metis prod.collapse)
  then have "HMAC alloc md key data = None" by (simp add: HMAC_def andthen_def)
  with * show ?thesis by blast
qed

end

text \<open>An allocator that serves every request.\<close>

definition zero_md :: "nat \<Rightarrow> md_alloc" where
  "zero_md k md =
     Some (if md_block_size md = 128
           then MD64 \<lparr>s5_h = replicate 8 0, s5_Nl = 0, s5_Nh = 0, s5_p = replicate 128 0, s5_num = 0, s5_md_len = 0\<rparr>
           else MD32 \<lparr>hash_h = replicate 8 0, Nl = 0, Nh = 0, hash_data = replicate 64 0, num = 0, md_len = 0\<rparr>)"

lemma zero_md_typed [simp]: "alloc_typed (zero_md k)"
  by (simp add: alloc_typed_def zero_md_def)

lemma zero_md_serves [simp]: "zero_md k md \<noteq> None"
  by (simp add: zero_md_def)

section \<open>Properties\<close>

text \<open>C2: \<open>HMAC\<close> with any hash function of the library returns the tag of RFC 2104, unless one of its
  four allocations fails; a context that has been given a key authenticates any sequence of messages, cut
  into any pieces, under that key.\<close>

theorem hmac_rfc2104:
  assumes "(md, H) \<in> set evp_digests" and "\<And>k. alloc_typed (alloc k)"
  shows "(HMAC alloc md key data = Some (rfc2104 md H key data, md_size md) \<or>
      HMAC alloc md key data = None \<and> (\<exists>k < 4. alloc k md = None)) \<and>
    (HMAC_Init_ex alloc (Some key) (length key) (Some md) HMAC_CTX_init = (Some (), ctx) \<longrightarrow>
      hmac_messages alloc msgs ctx = map (\<lambda>ps. Some (rfc2104 md H key (concat ps), md_size md)) msgs)"
proof -
  have m: "digest_method md H" by (rule evp_digest_method [OF assms(1)])
  have "hmac_messages alloc msgs ctx = map (\<lambda>ps. Some (rfc2104 md H key (concat ps), md_size md)) msgs"
    if "HMAC_Init_ex alloc (Some key) (length key) (Some md) HMAC_CTX_init = (Some (), ctx)"
  proof -
    have "digest_method.keyed md H key ctx"
      using digest_method.init_keyed [where alloc = alloc and key = key, OF m assms(2) digest_method.hmac_ready_init [OF m]] that
      by (auto simp: digest_method.macing_def [OF m])
    then show ?thesis by (rule digest_method.messages_mac [OF m])
  qed
  with digest_method.HMAC_mac [where alloc = alloc and key = key and data = data, OF m assms(2)] show ?thesis by blast
qed

theorem hmac_rfc2104_witness:
  "HMAC zero_md EVP_sha256 [1, 2] [3] = Some (rfc2104 EVP_sha256 fips_sha256 [1, 2] [3], 32)"
proof -
  have "(EVP_sha256, fips_sha256) \<in> set evp_digests" by (simp add: evp_digests_def)
  from hmac_rfc2104 [where alloc = zero_md and key = "[1, 2]" and data = "[3]", OF this zero_md_typed] show ?thesis by (simp add: EVP_sha256_def)
qed

end
