(* ===== verification/Kdf.thy ===== *)
theory Kdf
  imports Hmac
begin

text \<open>
  Key derivation over HMAC: HKDF (\<open>crypto/hkdf/hkdf.c\<close>, RFC 5869) and PBKDF2
  (\<open>crypto/evp/pbkdf.c\<close>, RFC 8018). Both drive one \<open>HMAC_CTX\<close> through many messages; the lemmas about
  it come from the locale \<open>digest_method\<close>.
\<close>

section \<open>HKDF\<close>

definition HKDF_extract :: "hmac_alloc \<Rightarrow> EVP_MD \<Rightarrow> byte list \<Rightarrow> byte list \<Rightarrow> (byte list \<times> size_t) option" where
  "HKDF_extract alloc md secret salt = HMAC alloc md salt secret"

text \<open>One turn of the expansion loop: \<open>i\<close> counts the blocks, the state beside the context is the
  previous block and the output so far (\<open>done\<close> is its length).\<close>

definition hkdf_block ::
  "hmac_alloc \<Rightarrow> nat \<Rightarrow> size_t \<Rightarrow> byte list \<Rightarrow> nat \<Rightarrow> byte list \<times> byte list \<Rightarrow> (HMAC_CTX, byte list \<times> byte list) op" where
  "hkdf_block alloc digest_len out_len info i prev_out =
     (case prev_out of (previous, out) \<Rightarrow>
        andthen (if i \<noteq> 0
                 then andthen (HMAC_Init_ex alloc None 0 None) (\<lambda>_. HMAC_Update (take digest_len previous))
                 else ret ()) (\<lambda>_.
        andthen (HMAC_Update info) (\<lambda>_.
        andthen (HMAC_Update [of_nat (i + 1)]) (\<lambda>_.
        andthen (HMAC_Final (alloc 4)) (\<lambda>(previous, _).
          let todo = (if out_len < length out + digest_len then out_len - length out else digest_len)
          in ret (previous, out @ take todo previous))))))"

fun hkdf_loop ::
  "hmac_alloc \<Rightarrow> nat \<Rightarrow> size_t \<Rightarrow> byte list \<Rightarrow> nat list \<Rightarrow> byte list \<times> byte list \<Rightarrow> (HMAC_CTX, byte list \<times> byte list) op" where
  "hkdf_loop alloc digest_len out_len info [] st = ret st"
| "hkdf_loop alloc digest_len out_len info (i # is) st =
     andthen (hkdf_block alloc digest_len out_len info i st) (hkdf_loop alloc digest_len out_len info is)"

definition HKDF_expand ::
  "hmac_alloc \<Rightarrow> EVP_MD \<Rightarrow> byte list \<Rightarrow> byte list \<Rightarrow> size_t \<Rightarrow> byte list option" where
  "HKDF_expand alloc md prk info out_len =
     (let digest_len = md_size md;
          n = size_wrap (out_len + digest_len + (2 ^ 64 - 1)) div digest_len
      in if size_wrap (out_len + digest_len) < out_len \<or> 255 < n then None
         else map_option snd (fst (andthen (HMAC_Init_ex alloc (Some prk) (length prk) (Some md))
           (\<lambda>_. hkdf_loop alloc digest_len out_len info [0 ..< n] ([], [])) HMAC_CTX_init)))"

definition HKDF ::
  "hmac_alloc \<Rightarrow> EVP_MD \<Rightarrow> byte list \<Rightarrow> byte list \<Rightarrow> byte list \<Rightarrow> size_t \<Rightarrow> byte list option" where
  "HKDF alloc md secret salt info out_len =
     (case HKDF_extract alloc md secret salt of None \<Rightarrow> None
      | Some (prk, prk_len) \<Rightarrow> HKDF_expand alloc md (take prk_len prk) info out_len)"

text \<open>RFC 5869, section 2.3.\<close>

fun rfc5869_T :: "(byte list \<Rightarrow> byte list) \<Rightarrow> byte list \<Rightarrow> nat \<Rightarrow> byte list" where
  "rfc5869_T mac info 0 = []"
| "rfc5869_T mac info (Suc i) = mac (rfc5869_T mac info i @ info @ [of_nat (Suc i)])"

definition rfc5869_expand :: "nat \<Rightarrow> (byte list \<Rightarrow> byte list) \<Rightarrow> byte list \<Rightarrow> nat \<Rightarrow> byte list option" where
  "rfc5869_expand hash_len mac info L =
     (if 255 * hash_len < L then None
      else Some (take L (concat (map (\<lambda>i. rfc5869_T mac info (Suc i)) [0 ..< (L + hash_len - 1) div hash_len]))))"

section \<open>PBKDF2\<close>

definition be32 :: "u32 \<Rightarrow> byte list" where
  "be32 i = [ucast (drop_bit 24 i AND 0xff), ucast (drop_bit 16 i AND 0xff), ucast (drop_bit 8 i AND 0xff), ucast (i AND 0xff)]"

text \<open>One MAC of two pieces after a rewind.\<close>

definition pbkdf2_prf :: "hmac_alloc \<Rightarrow> byte list list \<Rightarrow> (HMAC_CTX, byte list) op" where
  "pbkdf2_prf alloc pieces =
     andthen (HMAC_Init_ex alloc None 0 None) (\<lambda>_.
     andthen (hmac_feed pieces) (\<lambda>_.
     andthen (HMAC_Final (alloc 4)) (\<lambda>(tag, _). ret tag)))"

fun pbkdf2_rounds :: "hmac_alloc \<Rightarrow> nat \<Rightarrow> size_t \<Rightarrow> nat \<Rightarrow> byte list \<times> byte list \<Rightarrow> (HMAC_CTX, byte list \<times> byte list) op" where
  "pbkdf2_rounds alloc mdlen todo 0 st = ret st"
| "pbkdf2_rounds alloc mdlen todo (Suc j) (digest_tmp, out) =
     andthen (pbkdf2_prf alloc [take mdlen digest_tmp]) (\<lambda>digest_tmp.
       pbkdf2_rounds alloc mdlen todo j (digest_tmp, map2 (XOR) out (take todo digest_tmp)))"

text \<open>The loop over the output; \<open>j\<close> runs from 1 below \<open>iterations\<close>, which is no turn at all for 0 and 1.
  A digest has a positive size, so every turn shortens \<open>key_len\<close>.\<close>

function pbkdf2_loop ::
  "hmac_alloc \<Rightarrow> nat \<Rightarrow> byte list \<Rightarrow> nat \<Rightarrow> size_t \<Rightarrow> u32 \<Rightarrow> byte list \<Rightarrow> (HMAC_CTX, byte list) op" where
  "pbkdf2_loop alloc mdlen salt iterations key_len i out =
     (if key_len = 0 \<or> mdlen = 0 then ret out
      else
        (let todo = (if key_len < mdlen then key_len else mdlen)
         in andthen (pbkdf2_prf alloc [salt, be32 i]) (\<lambda>digest_tmp.
            andthen (pbkdf2_rounds alloc mdlen todo (iterations - 1) (digest_tmp, take todo digest_tmp)) (\<lambda>(_, block).
            pbkdf2_loop alloc mdlen salt iterations (key_len - todo) (i + 1) (out @ block)))))"
  by pat_completeness auto
termination
  by (relation "measure (\<lambda>(alloc, mdlen, salt, iterations, key_len, i, out). key_len)") (auto split: if_splits)

declare pbkdf2_loop.simps [simp del]

text \<open>The result and the derived key. The key is written, and the result 0, when \<open>iterations\<close> is 0.\<close>

definition PKCS5_PBKDF2_HMAC ::
  "hmac_alloc \<Rightarrow> byte list \<Rightarrow> byte list \<Rightarrow> nat \<Rightarrow> EVP_MD \<Rightarrow> size_t \<Rightarrow> bool \<times> byte list option" where
  "PKCS5_PBKDF2_HMAC alloc password salt iterations md key_len =
     (case fst (andthen (HMAC_Init_ex alloc (Some password) (length password) (Some md))
              (\<lambda>_. pbkdf2_loop alloc (md_size md) salt iterations key_len 1 []) HMAC_CTX_init) of
        None \<Rightarrow> (False, None)
      | Some out \<Rightarrow> (iterations \<noteq> 0, Some out))"

definition PKCS5_PBKDF2_HMAC_SHA1 :: "hmac_alloc \<Rightarrow> byte list \<Rightarrow> byte list \<Rightarrow> nat \<Rightarrow> size_t \<Rightarrow> bool \<times> byte list option" where
  "PKCS5_PBKDF2_HMAC_SHA1 alloc password salt iterations key_len =
     PKCS5_PBKDF2_HMAC alloc password salt iterations EVP_sha1 key_len"

text \<open>RFC 8018, section 5.2: the exclusive or of the iterated PRF values, block by block, with the number of
  the block in four bytes; a key longer than \<open>2 ^ 32 - 1\<close> blocks is refused.\<close>

fun rfc8018_U :: "(byte list \<Rightarrow> byte list) \<Rightarrow> byte list \<Rightarrow> nat \<Rightarrow> nat \<Rightarrow> byte list" where
  "rfc8018_U mac S i 0 = mac (S @ std_digits True 4 i)"
| "rfc8018_U mac S i (Suc j) = mac (rfc8018_U mac S i j)"

fun rfc8018_F :: "(byte list \<Rightarrow> byte list) \<Rightarrow> byte list \<Rightarrow> nat \<Rightarrow> nat \<Rightarrow> byte list" where
  "rfc8018_F mac S i 0 = rfc8018_U mac S i 0"
| "rfc8018_F mac S i (Suc j) = map2 (XOR) (rfc8018_F mac S i j) (rfc8018_U mac S i (Suc j))"

definition rfc8018_pbkdf2 :: "nat \<Rightarrow> (byte list \<Rightarrow> byte list) \<Rightarrow> byte list \<Rightarrow> nat \<Rightarrow> nat \<Rightarrow> byte list option" where
  "rfc8018_pbkdf2 hash_len mac S c dk_len =
     (if (2 ^ 32 - 1) * hash_len < dk_len then None
      else Some (take dk_len (concat (map (\<lambda>i. rfc8018_F mac S (Suc i) (c - 1)) [0 ..< (dk_len + hash_len - 1) div hash_len]))))"

lemma be32_std: "be32 i = std_digits True 4 (unat i)"
proof -
  have "(ucast (take_bit 8 w) :: byte) = ucast w" for w :: u32 by (rule bit_word_eqI) (simp add: bit_simps)
  then show ?thesis by (simp add: be32_def std_digits_4 and_FF)
qed

section \<open>The loops\<close>

context digest_method begin

lemma rfc2104_length [simp]: "length (rfc2104 md H key msg) = md_size md"
  by (simp add: rfc2104_def Let_def hash_size)

lemma hkdf_block_step:
  assumes s: "if i = 0 then macing key [] ctx \<and> previous = [] else keyed key ctx \<and> length previous = md_size md"
  shows "\<exists>ctx'. hkdf_block alloc (md_size md) out_len info i (previous, out) ctx =
      (Some (rfc2104 md H key (previous @ info @ [of_nat (Suc i)]),
        out @ take (out_len - length out) (rfc2104 md H key (previous @ info @ [of_nat (Suc i)]))), ctx') \<and> keyed key ctx'"
proof -
  have "\<exists>c. (if i \<noteq> 0 then andthen (HMAC_Init_ex alloc None 0 None) (\<lambda>_. HMAC_Update (take (md_size md) previous))
      else ret ()) ctx = (Some (), c) \<and> macing key previous c"
  proof (cases "i = 0")
    case False
    then obtain c1 where 1: "HMAC_Init_ex alloc None 0 None ctx = (Some (), c1)" "macing key [] c1"
      using init_rewinds s by (metis (full_types))
    from update_macing [OF 1(2), of previous] 1(1) False s show ?thesis by (auto simp: andthen_def)
  qed (use s in \<open>simp add: ret_def\<close>)
  then obtain c1 where 1: "(if i \<noteq> 0 then andthen (HMAC_Init_ex alloc None 0 None) (\<lambda>_. HMAC_Update (take (md_size md) previous))
      else ret ()) ctx = (Some (), c1)" "macing key previous c1" by blast
  obtain c2 where 2: "HMAC_Update info c1 = (Some (), c2)" "macing key (previous @ info) c2"
    using update_macing [OF 1(2)] by blast
  obtain c3 where 3: "HMAC_Update [of_nat (i + 1)] c2 = (Some (), c3)" "macing key (previous @ info @ [of_nat (Suc i)]) c3"
    using update_macing [OF 2(2), of "[of_nat (Suc i)]"] by auto
  let ?T = "rfc2104 md H key (previous @ info @ [of_nat (Suc i)])"
  obtain c4 where 4: "HMAC_Final (alloc 4) c3 = (Some (?T, md_size md), c4)" "keyed key c4"
    using final_macing [OF 3(2)] by blast
  have "take (if out_len < length out + md_size md then out_len - length out else md_size md) ?T = take (out_len - length out) ?T"
    by simp
  with 1(1) 2(1) 3(1) 4 show ?thesis
    by (simp add: hkdf_block_def andthen_def ret_def Let_def)
qed

lemma T_length: "length (rfc5869_T (rfc2104 md H key) info i) = (if i = 0 then 0 else md_size md)"
  by (cases i) simp_all

lemma hkdf_loop_blocks:
  fixes info key :: "byte list"
  assumes "i \<le> n" and "if i = 0 then macing key [] ctx else keyed key ctx"
  defines "T \<equiv> rfc5869_T (rfc2104 md H key) info"
  shows "\<exists>ctx' p. hkdf_loop alloc (md_size md) L info [i ..< n] (T i, take L (concat (map (\<lambda>j. T (Suc j)) [0 ..< i]))) ctx =
    (Some (p, take L (concat (map (\<lambda>j. T (Suc j)) [0 ..< n]))), ctx')"
  using assms(1,2)
proof (induction "n - i" arbitrary: i ctx)
  case 0
  then show ?case by (simp add: ret_def)
next
  case (Suc d)
  let ?out = "concat (map (\<lambda>j. T (Suc j)) [0 ..< i])"
  have s: "if i = 0 then macing key [] ctx \<and> T i = [] else keyed key ctx \<and> length (T i) = md_size md"
    using Suc.prems(2) by (cases i) (simp_all add: T_def)
  obtain c where c: "hkdf_block alloc (md_size md) L info i (T i, take L ?out) ctx =
      (Some (T (Suc i), take L ?out @ take (L - length (take L ?out)) (T (Suc i))), c)" "keyed key c"
    using hkdf_block_step [OF s, of alloc L info "take L ?out"] by (auto simp: T_def)
  have o: "take L ?out @ take (L - length (take L ?out)) (T (Suc i)) = take L (concat (map (\<lambda>j. T (Suc j)) [0 ..< Suc i]))"
    by (simp add: min_def)
  have l: "[i ..< n] = i # [Suc i ..< n]" using Suc.hyps(2) by (simp add: upt_conv_Cons)
  show ?case
    unfolding l hkdf_loop.simps(2) andthen_def c(1) o
    using Suc.hyps(1) [of "Suc i" c] Suc.hyps(2) c(2) by simp
qed

lemma expand_blocks:
  assumes "out_len < 2 ^ 64"
  shows "size_wrap (out_len + md_size md) < out_len \<or> 255 < size_wrap (out_len + md_size md + (2 ^ 64 - 1)) div md_size md
      \<longleftrightarrow> 255 * md_size md < out_len"
    "\<not> 255 * md_size md < out_len \<Longrightarrow>
      size_wrap (out_len + md_size md + (2 ^ 64 - 1)) = out_len + md_size md - 1"
proof -
  let ?h = "md_size md"
  have h: "0 < ?h" "?h \<le> 64" using sizes by simp_all
  show w: "size_wrap (out_len + ?h + (2 ^ 64 - 1)) = out_len + ?h - 1" if "\<not> 255 * ?h < out_len"
  proof -
    have "out_len + ?h + (2 ^ 64 - 1) = (out_len + ?h - 1) + 2 ^ 64" using h by simp
    moreover have "out_len + ?h - 1 < 2 ^ 64" using that h by simp
    ultimately show ?thesis unfolding size_wrap_def by (simp only: mod_add_self2) simp
  qed
  show "size_wrap (out_len + ?h) < out_len \<or> 255 < size_wrap (out_len + ?h + (2 ^ 64 - 1)) div ?h \<longleftrightarrow> 255 * ?h < out_len"
  proof (cases "255 * ?h < out_len")
    case True
    have "size_wrap (out_len + ?h) < out_len \<or> 255 < (out_len + ?h - 1) div ?h \<and> out_len + ?h < 2 ^ 64"
    proof (cases "out_len + ?h < 2 ^ 64")
      case True
      have "256 * ?h \<le> out_len + ?h - 1" using \<open>255 * ?h < out_len\<close> by simp
      then have "256 \<le> (out_len + ?h - 1) div ?h" using h(1) by (simp add: less_eq_div_iff_mult_less_eq)
      then show ?thesis using True by simp
    next
      case False
      then show ?thesis using size_wrap_overflow [OF assms, of ?h] h by simp
    qed
    moreover have "size_wrap (out_len + ?h + (2 ^ 64 - 1)) = out_len + ?h - 1" if "out_len + ?h < 2 ^ 64"
    proof -
      have "out_len + ?h + (2 ^ 64 - 1) = (out_len + ?h - 1) + 2 ^ 64" using h by simp
      then show ?thesis using that unfolding size_wrap_def by (simp only: mod_add_self2) simp
    qed
    ultimately show ?thesis using True by auto
  next
    case False
    have "(out_len + ?h - 1) div ?h < 256" using False h(1) by (simp add: div_less_iff_less_mult)
    moreover have "\<not> size_wrap (out_len + ?h) < out_len"
      using size_wrap_overflow [OF assms, of ?h] h False by simp
    ultimately show ?thesis using False w [OF False] by simp
  qed
qed

lemma HKDF_expand_rfc:
  assumes a: "\<And>k. alloc_typed (alloc k)" and s: "\<And>k. alloc k md \<noteq> None" and l: "out_len < 2 ^ 64"
  shows "HKDF_expand alloc md prk info out_len = rfc5869_expand (md_size md) (rfc2104 md H prk) info out_len"
proof (cases "255 * md_size md < out_len")
  case True
  then show ?thesis using expand_blocks(1) [OF l] by (simp add: HKDF_expand_def rfc5869_expand_def Let_def)
next
  case False
  let ?n = "(out_len + md_size md - 1) div md_size md"
  have no: "\<not> (size_wrap (out_len + md_size md) < out_len \<or>
      255 < size_wrap (out_len + md_size md + (2 ^ 64 - 1)) div md_size md)"
    using expand_blocks(1) [OF l] False by blast
  obtain c where c: "HMAC_Init_ex alloc (Some prk) (length prk) (Some md) HMAC_CTX_init = (Some (), c)" "macing prk [] c"
    using init_keyed [where alloc = alloc and key = prk, OF a hmac_ready_init] s by auto
  from hkdf_loop_blocks [where i = 0 and n = ?n and key = prk and ctx = c and info = info and alloc = alloc and L = out_len] c(2) obtain c' p where
    "hkdf_loop alloc (md_size md) out_len info [0 ..< ?n] ([], []) c =
      (Some (p, take out_len (concat (map (\<lambda>j. rfc5869_T (rfc2104 md H prk) info (Suc j)) [0 ..< ?n]))), c')"
    by auto
  then show ?thesis
    using False no unfolding HKDF_expand_def Let_def expand_blocks(2) [OF l False]
    by (simp add: rfc5869_expand_def andthen_def c(1))
qed

text \<open>PBKDF2.\<close>

lemma prf_mac:
  assumes "keyed key ctx"
  shows "\<exists>ctx'. pbkdf2_prf alloc pieces ctx = (Some (rfc2104 md H key (concat pieces)), ctx') \<and> keyed key ctx'"
  using message_mac [OF assms, of alloc pieces]
  by (auto simp: pbkdf2_prf_def hmac_message_def andthen_def ret_def split: prod.splits option.splits)

lemma U_length: "length (rfc8018_U (rfc2104 md H key) S i j) = md_size md"
  by (cases j) simp_all

lemma F_length: "length (rfc8018_F (rfc2104 md H key) S i j) = md_size md"
  by (induction j) (simp_all add: U_length del: rfc8018_U.simps)

lemma rounds_F:
  assumes "keyed key ctx"
  shows "\<exists>ctx'. pbkdf2_rounds alloc (md_size md) todo j
      (rfc8018_U (rfc2104 md H key) S i k, take todo (rfc8018_F (rfc2104 md H key) S i k)) ctx =
    (Some (rfc8018_U (rfc2104 md H key) S i (k + j), take todo (rfc8018_F (rfc2104 md H key) S i (k + j))), ctx') \<and>
    keyed key ctx'"
  using assms
proof (induction j arbitrary: k ctx)
  case (Suc j)
  let ?U = "rfc8018_U (rfc2104 md H key) S i" and ?F = "rfc8018_F (rfc2104 md H key) S i"
  obtain c where c: "pbkdf2_prf alloc [take (md_size md) (?U k)] ctx = (Some (?U (Suc k)), c)" "keyed key c"
    using prf_mac [OF Suc.prems, of alloc "[?U k]"] by (auto simp: U_length)
  have "map2 (XOR) (take todo (?F k)) (take todo (?U (Suc k))) = take todo (?F (Suc k))"
    by (simp add: take_map take_zip)
  with c Suc.IH [OF c(2), of "Suc k"] show ?case by (simp add: andthen_def del: rfc8018_U.simps rfc8018_F.simps)
qed (simp add: ret_def)

lemma pbkdf2_loop_blocks:
  assumes "keyed key ctx"
  shows "\<exists>ctx'. pbkdf2_loop alloc (md_size md) salt c key_len i out ctx =
    (Some (out @ take key_len (concat (map (\<lambda>b. rfc8018_F (rfc2104 md H key) salt (unat (i + of_nat b)) (c - 1))
      [0 ..< (key_len + md_size md - 1) div md_size md]))), ctx')"
  using assms
proof (induction key_len arbitrary: i out ctx rule: less_induct)
  case (less key_len)
  let ?h = "md_size md"
  let ?F = "\<lambda>i. rfc8018_F (rfc2104 md H key) salt (unat i) (c - 1)"
  have h: "0 < ?h" using sizes by simp
  show ?case
  proof (cases "key_len = 0")
    case True
    then show ?thesis by (simp add: pbkdf2_loop.simps ret_def)
  next
    case False
    define todo where "todo = (if key_len < ?h then key_len else ?h)"
    obtain c1 where 1: "pbkdf2_prf alloc [salt, be32 i] ctx = (Some (rfc8018_U (rfc2104 md H key) salt (unat i) 0), c1)" "keyed key c1"
      using prf_mac [OF less.prems, of alloc "[salt, be32 i]"] by (auto simp: be32_std)
    obtain c2 u where 2: "pbkdf2_rounds alloc ?h todo (c - 1)
        (rfc8018_U (rfc2104 md H key) salt (unat i) 0, take todo (rfc8018_U (rfc2104 md H key) salt (unat i) 0)) c1 =
        (Some (u, take todo (?F i)), c2)" "keyed key c2"
      using rounds_F [OF 1(2), of alloc todo "c - 1" salt "unat i" 0] by auto
    have small: "key_len - todo < key_len" using False h by (simp add: todo_def)
    obtain c3 where 3: "pbkdf2_loop alloc ?h salt c (key_len - todo) (i + 1) (out @ take todo (?F i)) c2 =
      (Some ((out @ take todo (?F i)) @ take (key_len - todo) (concat (map (\<lambda>b. ?F (i + 1 + of_nat b))
        [0 ..< (key_len - todo + ?h - 1) div ?h]))), c3)"
      using less.IH [OF small 2(2), of "i + 1" "out @ take todo (?F i)"] by blast
    let ?m = "(key_len - todo + ?h - 1) div ?h"
    have n: "(key_len + ?h - 1) div ?h = Suc ?m"
    proof (cases "key_len < ?h")
      case True
      have "(key_len + ?h - 1) div ?h = 1" using True False by (intro div_nat_eqI) simp_all
      moreover have "?m = 0" using True h by (simp add: todo_def)
      ultimately show ?thesis by simp
    next
      case False
      then have e: "key_len + ?h - 1 = (key_len - todo + ?h - 1) + ?h" using h by (simp add: todo_def)
      have "(x + ?h) div ?h = Suc (x div ?h)" for x using h div_add_self2 [of ?h x] by simp
      then show ?thesis unfolding e by simp
    qed
    have "take key_len (concat (map (\<lambda>b. ?F (i + of_nat b)) [0 ..< Suc ?m])) =
        take todo (?F i) @ take (key_len - todo) (concat (map (\<lambda>b. ?F (i + 1 + of_nat b)) [0 ..< ?m]))"
    proof -
      have "map (\<lambda>b. ?F (i + of_nat b)) [0 ..< Suc ?m] = ?F i # map (\<lambda>b. ?F (i + 1 + of_nat b)) [0 ..< ?m]"
        by (simp add: upt_conv_Cons map_Suc_upt [symmetric] o_def add.assoc [symmetric] del: upt_Suc)
      then show ?thesis by (simp add: F_length todo_def)
    qed
    then show ?thesis
      using False h 1(1) 2(1) 3 unfolding n
      by (simp add: pbkdf2_loop.simps [of _ _ _ _ key_len] Let_def todo_def [symmetric] andthen_def)
  qed
qed

end

text \<open>The number of blocks of a key.\<close>

lemma blocks_cover: "0 < h \<Longrightarrow> n \<le> (n + h - 1) div h * (h :: nat)"
proof -
  assume h: "0 < h"
  have "(n + h - 1) mod h \<le> h - 1" using h mod_less_divisor [OF h, of "n + h - 1"] by linarith
  then show ?thesis using h div_mult_mod_eq [of "n + h - 1" h] by linarith
qed

lemma blocks_bound: "0 < h \<Longrightarrow> n \<le> k * h \<Longrightarrow> (n + h - 1) div h \<le> (k :: nat)"
proof -
  assume h: "0 < h" and n: "n \<le> k * h"
  have "n + h - 1 < Suc k * h" using h n by simp
  then have "(n + h - 1) div h < Suc k" by (rule less_mult_imp_div_less)
  then show ?thesis by simp
qed

section \<open>Properties\<close>

text \<open>C22: \<open>HKDF\<close> with any hash function of the library is RFC 5869: extraction and expansion, and the
  refusal of more than 255 blocks of output.\<close>

theorem hkdf_rfc5869:
  assumes "(md, H) \<in> set evp_digests" and "\<And>k. alloc_typed (alloc k)" and "\<And>k. alloc k md \<noteq> None"
    and "out_len < 2 ^ 64"
  shows "HKDF alloc md secret salt info out_len =
    rfc5869_expand (md_size md) (rfc2104 md H (rfc2104 md H salt secret)) info out_len"
proof -
  have m: "digest_method md H" by (rule evp_digest_method [OF assms(1)])
  have "HKDF_extract alloc md secret salt = Some (rfc2104 md H salt secret, md_size md)"
    using digest_method.HMAC_mac [where alloc = alloc and key = salt and data = secret, OF m assms(2)] assms(3)
    by (auto simp: HKDF_extract_def)
  then show ?thesis
    using digest_method.HKDF_expand_rfc [where alloc = alloc, OF m assms(2,3,4)]
    by (simp add: HKDF_def digest_method.rfc2104_length [OF m])
qed

theorem hkdf_rfc5869_witness:
  "HKDF zero_md EVP_sha256 [1, 2, 3] [4] [5] 42 =
     rfc5869_expand 32 (rfc2104 EVP_sha256 fips_sha256 (rfc2104 EVP_sha256 fips_sha256 [4] [1, 2, 3])) [5] 42"
proof -
  have "(EVP_sha256, fips_sha256) \<in> set evp_digests" by (simp add: evp_digests_def)
  from hkdf_rfc5869 [where alloc = zero_md and out_len = 42 and secret = "[1, 2, 3]" and salt = "[4]" and info = "[5]",
      OF this zero_md_typed zero_md_serves]
  show ?thesis by (simp add: EVP_sha256_def)
qed

text \<open>C23: \<open>PKCS5_PBKDF2_HMAC\<close> with any hash function of the library writes a key of the length asked for,
  which is the key of RFC 8018 whenever the RFC defines one, for every password, salt and length; an
  iteration count of zero counts as one and is reported as an error. A length of more than
  \<open>2 ^ 32 - 1\<close> blocks, which the RFC refuses, is not refused.\<close>

theorem pbkdf2_rfc8018:
  assumes "(md, H) \<in> set evp_digests" and "\<And>k. alloc_typed (alloc k)" and "\<And>k. alloc k md \<noteq> None"
  shows "\<exists>dk. PKCS5_PBKDF2_HMAC alloc password salt iterations md key_len = (iterations \<noteq> 0, Some dk) \<and> length dk = key_len \<and>
    rfc8018_pbkdf2 (md_size md) (rfc2104 md H password) salt (max 1 iterations) key_len =
      (if key_len \<le> (2 ^ 32 - 1) * md_size md then Some dk else None)"
proof -
  have m: "digest_method md H" by (rule evp_digest_method [OF assms(1)])
  let ?h = "md_size md" and ?mac = "rfc2104 md H password"
  let ?n = "(key_len + ?h - 1) div ?h"
  obtain c where c: "HMAC_Init_ex alloc (Some password) (length password) (Some md) HMAC_CTX_init = (Some (), c)"
      "digest_method.macing md H password [] c"
    using digest_method.init_keyed [where alloc = alloc and key = password, OF m assms(2) digest_method.hmac_ready_init [OF m]]
      assms(3) by auto
  then have "digest_method.keyed md H password c" by (simp add: digest_method.macing_def [OF m])
  from digest_method.pbkdf2_loop_blocks [OF m this, of alloc salt iterations key_len 1 "[]"] c(1)
  have code: "PKCS5_PBKDF2_HMAC alloc password salt iterations md key_len =
      (iterations \<noteq> 0, Some (take key_len (concat (map (\<lambda>b. rfc8018_F ?mac salt (unat (1 + of_nat b :: u32)) (iterations - 1)) [0 ..< ?n]))))"
    by (auto simp: PKCS5_PBKDF2_HMAC_def andthen_def)
  have h: "0 < ?h" by (rule digest_method.sizes(1) [OF m])
  have len: "length (concat (map (\<lambda>b. rfc8018_F ?mac salt (f b) k) [0 ..< n])) = n * ?h" for f k and n :: nat
    by (induction n) (simp_all add: digest_method.F_length [OF m])
  let ?code = "map (\<lambda>b. rfc8018_F ?mac salt (unat (1 + of_nat b :: u32)) (iterations - 1)) [0 ..< ?n]"
    and ?rfc = "map (\<lambda>i. rfc8018_F ?mac salt (Suc i) (max 1 iterations - 1)) [0 ..< ?n]"
  have e: "?code = ?rfc" if l: "key_len \<le> (2 ^ 32 - 1) * ?h"
  proof (rule map_cong [OF refl])
    fix b assume "b \<in> set [0 ..< ?n]"
    then have "b < ?n" by simp
    then have "Suc b < 2 ^ 32" using blocks_bound [OF h l] by simp
    then have "unat (1 + of_nat b :: u32) = Suc b" using unat_of_nat [of "Suc b", where 'a = 32] by simp
    then show "rfc8018_F ?mac salt (unat (1 + of_nat b :: u32)) (iterations - 1) = rfc8018_F ?mac salt (Suc b) (max 1 iterations - 1)"
      by (simp add: max_def)
  qed
  have "length (take key_len (concat ?code)) = key_len" using blocks_cover [OF h, of key_len] by (simp only: length_take len min_absorb2)
  moreover have "rfc8018_pbkdf2 ?h ?mac salt (max 1 iterations) key_len =
      (if key_len \<le> (2 ^ 32 - 1) * ?h then Some (take key_len (concat ?code)) else None)"
  proof (cases "key_len \<le> (2 ^ 32 - 1) * ?h")
    case True
    show ?thesis unfolding rfc8018_pbkdf2_def if_not_P [OF not_less [THEN iffD2, OF True]] if_P [OF True] e [OF True] ..
  next
    case False
    show ?thesis unfolding rfc8018_pbkdf2_def if_P [OF not_le [THEN iffD1, OF False]] if_not_P [OF False] ..
  qed
  ultimately show ?thesis using code by blast
qed

theorem pbkdf2_rfc8018_witness:
  "\<exists>dk. PKCS5_PBKDF2_HMAC zero_md [112] [115] 2 EVP_sha1 25 = (True, Some dk) \<and> length dk = 25 \<and>
     rfc8018_pbkdf2 20 (rfc2104 EVP_sha1 fips_sha1 [112]) [115] 2 25 = Some dk"
proof -
  have "(EVP_sha1, fips_sha1) \<in> set evp_digests" by (simp add: evp_digests_def)
  from pbkdf2_rfc8018 [where alloc = zero_md and password = "[112]" and salt = "[115]" and iterations = 2 and key_len = 25,
      OF this zero_md_typed zero_md_serves]
  have "\<exists>dk. PKCS5_PBKDF2_HMAC zero_md [112] [115] 2 EVP_sha1 25 = (True, Some dk) \<and> length dk = 25 \<and>
     rfc8018_pbkdf2 (md_size EVP_sha1) (rfc2104 EVP_sha1 fips_sha1 [112]) [115] (max 1 2) 25 = Some dk"
    by (simp add: EVP_sha1_def del: One_nat_def max_def)
  moreover have "max 1 2 = (2 :: nat)" by simp
  moreover have "md_size EVP_sha1 = 20" by (simp add: EVP_sha1_def)
  ultimately show ?thesis by metis
qed

end
