(* ===== verification/Stack.thy ===== *)
theory Stack
  imports Mem "HOL-Library.Multiset"
begin

text \<open>
  BoringSSL's growable array of pointers (\<open>crypto/stack/stack.c\<close>). A pointer is a 64-bit word, NULL is
  0; the array lives in memory obtained from \<open>OPENSSL_malloc\<close>. A comparison function is named by a
  number (the code compares the pointers), and \<open>call f\<close> is what the function named \<open>f\<close> computes. The C
  library's \<open>qsort\<close> and \<open>bsearch\<close> are parameters; the locale \<open>sort_library\<close> states what the C standard
  promises of them, and an insertion sort with a binary search keeps the promise.
\<close>

section \<open>Arrays of pointers\<close>

type_synonym ptr = "64 word"
type_synonym compare = "ptr \<Rightarrow> ptr \<Rightarrow> int"

definition ptr_bytes :: "ptr list \<Rightarrow> byte list" where
  "ptr_bytes ps = concat (map (\<lambda>p. size_bytes (unat p)) ps)"

definition bytes_ptrs :: "byte list \<Rightarrow> ptr list" where
  "bytes_ptrs bs = map (\<lambda>i. of_nat (size_of_bytes (take 8 (drop (8 * i) bs)))) [0 ..< length bs div 8]"

text \<open>\<open>OPENSSL_realloc\<close> on the block that holds an array of pointers.\<close>

definition realloc_ptrs :: "(nat \<Rightarrow> byte list option) \<Rightarrow> ptr list \<Rightarrow> size_t \<Rightarrow> ptr list option" where
  "realloc_ptrs malloc data alloc_size =
     map_option (\<lambda>b. bytes_ptrs (payload b))
       (OPENSSL_realloc malloc (Some (size_bytes (8 * length data), ptr_bytes data)) alloc_size)"

section \<open>The stack\<close>

record STACK =
  sk_len :: size_t
  sk_data :: "ptr list"
  sorted_flag :: bool
  num_alloc :: size_t
  comp :: "nat option"

definition kMinSize :: size_t where
  "kMinSize = 4"

definition sk_new :: "(nat \<Rightarrow> byte list option) \<Rightarrow> nat option \<Rightarrow> STACK option" where
  "sk_new malloc cmp =
     (case OPENSSL_malloc malloc 40 of None \<Rightarrow> None
      | Some _ \<Rightarrow> (case OPENSSL_malloc malloc (8 * kMinSize) of None \<Rightarrow> None
        | Some _ \<Rightarrow> Some \<lparr>sk_len = 0, sk_data = replicate kMinSize 0, sorted_flag = False, num_alloc = kMinSize, comp = cmp\<rparr>))"

definition sk_new_null :: "(nat \<Rightarrow> byte list option) \<Rightarrow> STACK option" where
  "sk_new_null malloc = sk_new malloc None"

definition sk_num :: "STACK option \<Rightarrow> size_t" where
  "sk_num sk = (case sk of None \<Rightarrow> 0 | Some s \<Rightarrow> sk_len s)"

definition sk_zero :: "STACK \<Rightarrow> STACK" where
  "sk_zero sk =
     (if sk_len sk = 0 then sk
      else sk\<lparr>sk_data := splice 0 (replicate (sk_len sk) 0) (sk_data sk), sk_len := 0, sorted_flag := False\<rparr>)"

definition sk_value :: "STACK option \<Rightarrow> size_t \<Rightarrow> ptr" where
  "sk_value sk i = (case sk of None \<Rightarrow> 0 | Some s \<Rightarrow> if sk_len s \<le> i then 0 else sk_data s ! i)"

definition sk_set :: "STACK \<Rightarrow> size_t \<Rightarrow> ptr \<Rightarrow> ptr \<times> STACK" where
  "sk_set sk i value = (if sk_len sk \<le> i then (0, sk) else (value, sk\<lparr>sk_data := (sk_data sk)[i := value]\<rparr>))"

text \<open>The element function of \<open>sk_pop_free\<close> acts on the state \<open>h\<close> of the heap.\<close>

definition sk_pop_free :: "STACK option \<Rightarrow> (ptr \<Rightarrow> 'h \<Rightarrow> 'h) \<Rightarrow> 'h \<Rightarrow> 'h" where
  "sk_pop_free sk func h =
     (case sk of None \<Rightarrow> h
      | Some s \<Rightarrow> fold (\<lambda>i h. if sk_data s ! i \<noteq> 0 then func (sk_data s ! i) h else h) [0 ..< sk_len s] h)"

text \<open>Growing the array: double it, or take one more slot when doubling overflows.\<close>

definition sk_grow :: "(nat \<Rightarrow> byte list option) \<Rightarrow> STACK \<Rightarrow> STACK option" where
  "sk_grow malloc sk =
     (let new_alloc = size_wrap (num_alloc sk * 2);
          alloc_size = size_wrap (new_alloc * 8);
          (new_alloc, alloc_size) =
            (if new_alloc < num_alloc sk \<or> alloc_size div 8 \<noteq> new_alloc
             then (size_wrap (num_alloc sk + 1), size_wrap (size_wrap (num_alloc sk + 1) * 8))
             else (new_alloc, alloc_size))
      in if new_alloc < num_alloc sk \<or> alloc_size div 8 \<noteq> new_alloc then None
         else (case realloc_ptrs malloc (sk_data sk) alloc_size of None \<Rightarrow> None
               | Some data \<Rightarrow> Some (sk\<lparr>sk_data := data, num_alloc := new_alloc\<rparr>)))"

definition sk_insert :: "(nat \<Rightarrow> byte list option) \<Rightarrow> STACK \<Rightarrow> ptr \<Rightarrow> size_t \<Rightarrow> size_t \<times> STACK" where
  "sk_insert malloc sk p pos =
     (case (if num_alloc sk \<le> size_wrap (sk_len sk + 1) then sk_grow malloc sk else Some sk) of
        None \<Rightarrow> (0, sk)
      | Some sk \<Rightarrow>
          (let data = (if sk_len sk \<le> pos then (sk_data sk)[sk_len sk := p]
                       else (splice (pos + 1) (take (sk_len sk - pos) (drop pos (sk_data sk))) (sk_data sk))[pos := p]);
               n = size_wrap (sk_len sk + 1)
           in (n, sk\<lparr>sk_data := data, sk_len := n, sorted_flag := False\<rparr>)))"

definition sk_delete :: "STACK \<Rightarrow> size_t \<Rightarrow> ptr \<times> STACK" where
  "sk_delete sk pos =
     (if sk_len sk \<le> pos then (0, sk)
      else
        (let p = sk_data sk ! pos;
             data = (if pos \<noteq> sk_len sk - 1
                     then splice pos (take (sk_len sk - pos - 1) (drop (pos + 1) (sk_data sk))) (sk_data sk)
                     else sk_data sk)
         in (p, sk\<lparr>sk_data := data, sk_len := sk_len sk - 1\<rparr>)))"

text \<open>The first index that holds the pointer.\<close>

fun find_ptr :: "ptr list \<Rightarrow> ptr \<Rightarrow> nat \<Rightarrow> size_t \<Rightarrow> size_t option" where
  "find_ptr data p i 0 = None"
| "find_ptr data p i (Suc n) = (if data ! i = p then Some i else find_ptr data p (i + 1) n)"

definition sk_delete_ptr :: "STACK \<Rightarrow> ptr \<Rightarrow> ptr \<times> STACK" where
  "sk_delete_ptr sk p =
     (case find_ptr (sk_data sk) p 0 (sk_len sk) of None \<Rightarrow> (0, sk) | Some i \<Rightarrow> sk_delete sk i)"

definition sk_sort :: "(compare \<Rightarrow> ptr list \<Rightarrow> ptr list) \<Rightarrow> (nat \<Rightarrow> compare) \<Rightarrow> STACK \<Rightarrow> STACK" where
  "sk_sort qsort call sk =
     (case comp sk of None \<Rightarrow> sk
      | Some f \<Rightarrow>
          if sorted_flag sk then sk
          else sk\<lparr>sk_data := splice 0 (qsort (call f) (take (sk_len sk) (sk_data sk))) (sk_data sk), sorted_flag := True\<rparr>)"

text \<open>The loop that goes back to the first of the elements that compare equal.\<close>

fun first_equal :: "compare \<Rightarrow> ptr \<Rightarrow> ptr list \<Rightarrow> nat \<Rightarrow> nat" where
  "first_equal cmp p data 0 = 0"
| "first_equal cmp p data (Suc idx) = (if cmp p (data ! idx) = 0 then first_equal cmp p data idx else Suc idx)"

definition sk_find ::
  "(compare \<Rightarrow> ptr list \<Rightarrow> ptr list) \<Rightarrow> (compare \<Rightarrow> ptr \<Rightarrow> ptr list \<Rightarrow> nat option) \<Rightarrow> (nat \<Rightarrow> compare) \<Rightarrow>
   STACK \<Rightarrow> ptr \<Rightarrow> size_t option \<times> STACK" where
  "sk_find qsort bsearch call sk p =
     (case comp sk of None \<Rightarrow> (find_ptr (sk_data sk) p 0 (sk_len sk), sk)
      | Some f \<Rightarrow>
          if p = 0 then (None, sk)
          else
            (let sk = sk_sort qsort call sk
             in (case bsearch (call f) p (take (sk_len sk) (sk_data sk)) of None \<Rightarrow> (None, sk)
                 | Some idx \<Rightarrow> (Some (first_equal (call f) p (sk_data sk) idx), sk))))"

definition sk_shift :: "STACK \<Rightarrow> ptr \<times> STACK" where
  "sk_shift sk = (if sk_len sk = 0 then (0, sk) else sk_delete sk 0)"

definition sk_push :: "(nat \<Rightarrow> byte list option) \<Rightarrow> STACK \<Rightarrow> ptr \<Rightarrow> size_t \<times> STACK" where
  "sk_push malloc sk p = sk_insert malloc sk p (sk_len sk)"

definition sk_pop :: "STACK \<Rightarrow> ptr \<times> STACK" where
  "sk_pop sk = (if sk_len sk = 0 then (0, sk) else sk_delete sk (sk_len sk - 1))"

definition sk_dup :: "(nat \<Rightarrow> byte list option) \<Rightarrow> STACK \<Rightarrow> STACK option" where
  "sk_dup malloc sk =
     (case sk_new malloc (comp sk) of None \<Rightarrow> None
      | Some r \<Rightarrow>
          (case realloc_ptrs malloc (sk_data r) (size_wrap (8 * num_alloc sk)) of None \<Rightarrow> None
           | Some s \<Rightarrow> Some (r\<lparr>sk_data := splice 0 (take (sk_len sk) (sk_data sk)) s, sk_len := sk_len sk,
                               sorted_flag := sorted_flag sk, num_alloc := num_alloc sk, comp := comp sk\<rparr>)))"

definition sk_is_sorted :: "STACK option \<Rightarrow> bool" where
  "sk_is_sorted sk = (case sk of None \<Rightarrow> True | Some s \<Rightarrow> sorted_flag s)"

definition sk_set_cmp_func :: "STACK \<Rightarrow> nat option \<Rightarrow> nat option \<times> STACK" where
  "sk_set_cmp_func sk cmp =
     (comp sk, (if comp sk \<noteq> cmp then sk\<lparr>sorted_flag := False\<rparr> else sk)\<lparr>comp := cmp\<rparr>)"

text \<open>The loop of \<open>sk_deep_copy\<close> over the elements; \<open>copied\<close> are those in front. When a copy fails the
  copies made so far are freed in order.\<close>

fun deep_copy_loop ::
  "(ptr \<Rightarrow> 'h \<Rightarrow> ptr \<times> 'h) \<Rightarrow> (ptr \<Rightarrow> 'h \<Rightarrow> 'h) \<Rightarrow> ptr list \<Rightarrow> ptr list \<Rightarrow> 'h \<Rightarrow> ptr list option \<times> 'h" where
  "deep_copy_loop copy free copied [] h = (Some copied, h)"
| "deep_copy_loop copy free copied (p # ps) h =
     (if p = 0 then deep_copy_loop copy free (copied @ [0]) ps h
      else
        (case copy p h of (q, h) \<Rightarrow>
           if q = 0 then (None, fold (\<lambda>c h. if c \<noteq> 0 then free c h else h) copied h)
           else deep_copy_loop copy free (copied @ [q]) ps h))"

definition sk_deep_copy ::
  "(nat \<Rightarrow> byte list option) \<Rightarrow> STACK \<Rightarrow> (ptr \<Rightarrow> 'h \<Rightarrow> ptr \<times> 'h) \<Rightarrow> (ptr \<Rightarrow> 'h \<Rightarrow> 'h) \<Rightarrow> 'h \<Rightarrow> STACK option \<times> 'h" where
  "sk_deep_copy malloc sk copy free h =
     (case sk_dup malloc sk of None \<Rightarrow> (None, h)
      | Some r \<Rightarrow>
          (case deep_copy_loop copy free [] (take (sk_len r) (sk_data r)) h of
             (None, h) \<Rightarrow> (None, h)
           | (Some ps, h) \<Rightarrow> (Some (r\<lparr>sk_data := splice 0 ps (sk_data r)\<rparr>), h)))"

section \<open>The array behind the stack\<close>

lemma length_ptr_bytes [simp]: "length (ptr_bytes ps) = 8 * length ps"
  by (induction ps) (simp_all add: ptr_bytes_def)

lemma ptr_bytes_at: "i < length ps \<Longrightarrow> take 8 (drop (8 * i) (ptr_bytes ps)) = size_bytes (unat (ps ! i))"
proof (induction ps arbitrary: i)
  case (Cons p ps)
  show ?case
  proof (cases i)
    case (Suc j)
    then have "drop (8 * i) (ptr_bytes (p # ps)) = drop (8 * j) (ptr_bytes ps)" by (simp add: ptr_bytes_def)
    with Suc Cons show ?thesis by simp
  qed (simp add: ptr_bytes_def)
qed simp

lemma bytes_ptrs_prefix:
  assumes "take (8 * length ps) bs = ptr_bytes ps"
  shows "take (length ps) (bytes_ptrs bs) = ps"
proof (rule nth_equalityI)
  have l: "8 * length ps \<le> length bs" using arg_cong [OF assms, of length] by simp
  then have "length ps \<le> length bs div 8" by simp
  then show len: "length (take (length ps) (bytes_ptrs bs)) = length ps" by (simp add: bytes_ptrs_def)
  fix i assume "i < length (take (length ps) (bytes_ptrs bs))"
  then have i: "i < length ps" using len by simp
  have "take 8 (drop (8 * i) bs) = take 8 (drop (8 * i) (take (8 * length ps) bs))"
    using i by (simp add: drop_take)
  also have "\<dots> = size_bytes (unat (ps ! i))" using ptr_bytes_at [OF i] by (simp add: assms)
  finally show "take (length ps) (bytes_ptrs bs) ! i = ps ! i"
    using i \<open>length ps \<le> length bs div 8\<close> unsigned_less [of "ps ! i", where 'a = nat] by (simp add: bytes_ptrs_def)
qed

lemma realloc_ptrs_keeps:
  assumes a: "allocator malloc" and d: "8 * length data + 8 < 2 ^ 64" and n: "8 * n + 8 < 2 ^ 64" "length data \<le> n"
    and r: "realloc_ptrs malloc data (8 * n) = Some data'"
  shows "length data' = n" "take (length data) data' = data" "8 * n + 8 < 2 ^ 63"
proof -
  let ?b = "(size_bytes (8 * length data), ptr_bytes data)"
  obtain b where b: "OPENSSL_realloc malloc (Some ?b) (8 * n) = Some b" "data' = bytes_ptrs (payload b)"
    using r by (auto simp: realloc_ptrs_def)
  have ok: "pred_option block_ok (Some ?b)" using d by (simp add: block_ok_def)
  note rb = realloc_block [OF a n(1) ok b(1)]
  show "length data' = n" using rb(2) by (simp add: b(2) bytes_ptrs_def)
  have "take (8 * length data) (payload b) = ptr_bytes data"
    using rb(3) [OF refl] n(2) by simp
  then show "take (length data) data' = data" unfolding b(2) by (rule bytes_ptrs_prefix)
  show "8 * n + 8 < 2 ^ 63" by (rule rb(4))
qed

lemma take_prefix: "length xs = k \<Longrightarrow> take k (xs @ ys) = xs"
  by simp

text \<open>The invariant: the array is the allocated one, there is always a free slot, and the memory is one
  the allocator can have handed out. The elements are the first \<open>num\<close> pointers.\<close>

definition stack_ok :: "STACK \<Rightarrow> bool" where
  "stack_ok sk \<longleftrightarrow> sk_len sk < num_alloc sk \<and> length (sk_data sk) = num_alloc sk \<and> 8 * num_alloc sk + 8 < 2 ^ 63"

definition elems :: "STACK \<Rightarrow> ptr list" where
  "elems sk = take (sk_len sk) (sk_data sk)"

definition ascending :: "compare \<Rightarrow> ptr list \<Rightarrow> bool" where
  "ascending cmp ps \<longleftrightarrow> sorted_wrt (\<lambda>a b. cmp a b \<le> 0) ps"

text \<open>What the header says of the flag: it is set only on stacks in ascending order.\<close>

definition flag_ok :: "(nat \<Rightarrow> compare) \<Rightarrow> STACK \<Rightarrow> bool" where
  "flag_ok call sk \<longleftrightarrow> (sorted_flag sk \<longrightarrow> (\<exists>f. comp sk = Some f \<and> ascending (call f) (elems sk)))"

lemma length_elems: "stack_ok sk \<Longrightarrow> length (elems sk) = sk_len sk"
  by (simp add: stack_ok_def elems_def)

lemma elems_nth: "i < sk_len sk \<Longrightarrow> elems sk ! i = sk_data sk ! i"
  by (simp add: elems_def)

lemma new_empty:
  assumes "sk_new malloc f = Some sk"
  shows "stack_ok sk" "elems sk = []" "comp sk = f" "flag_ok call sk"
  using assms by (auto simp: sk_new_def stack_ok_def elems_def flag_ok_def kMinSize_def split: option.splits)

lemma grow_ok:
  assumes a: "allocator malloc" and ok: "stack_ok sk"
  shows "sk_grow malloc sk = None \<or>
    (\<exists>sk'. sk_grow malloc sk = Some sk' \<and> stack_ok sk' \<and> elems sk' = elems sk \<and> sk_len sk' = sk_len sk \<and>
      comp sk' = comp sk \<and> num_alloc sk' = 2 * num_alloc sk)"
proof -
  let ?n = "num_alloc sk"
  have n: "?n < 2 ^ 60" "0 < ?n" using ok by (simp_all add: stack_ok_def)
  then have w: "size_wrap (?n * 2) = 2 * ?n" "size_wrap (2 * ?n * 8) = 8 * (2 * ?n)" by simp_all
  then have g: "sk_grow malloc sk = (case realloc_ptrs malloc (sk_data sk) (8 * (2 * ?n)) of None \<Rightarrow> None
      | Some data \<Rightarrow> Some (sk\<lparr>sk_data := data, num_alloc := ?n * 2\<rparr>))"
    using n by (simp add: sk_grow_def Let_def)
  show ?thesis
  proof (cases "realloc_ptrs malloc (sk_data sk) (8 * (2 * ?n))")
    case (Some data)
    have l: "length (sk_data sk) = ?n" "sk_len sk < ?n" using ok by (simp_all add: stack_ok_def)
    have s: "8 * length (sk_data sk) + 8 < 2 ^ 64" "8 * (2 * ?n) + 8 < 2 ^ 64" "length (sk_data sk) \<le> 2 * ?n"
      using n l by simp_all
    note k = realloc_ptrs_keeps [OF a s Some]
    have "take (sk_len sk) data = take (sk_len sk) (take ?n data)" using l by (simp add: min_def)
    also have "take ?n data = sk_data sk" using k(2) l(1) by simp
    finally have "take (sk_len sk) data = take (sk_len sk) (sk_data sk)" .
    then show ?thesis using k l g Some by (simp add: stack_ok_def elems_def)
  qed (use g in simp)
qed

text \<open>The only failure: the array has to grow and its doubled size, with the prefix of an allocation, is not
  to be had.\<close>

definition grow_refused :: "(nat \<Rightarrow> byte list option) \<Rightarrow> STACK \<Rightarrow> bool" where
  "grow_refused malloc sk \<longleftrightarrow> num_alloc sk \<le> Suc (sk_len sk) \<and> malloc (16 * num_alloc sk + 8) = None"

lemma grow_fails:
  assumes ok: "stack_ok sk" shows "sk_grow malloc sk = None \<longleftrightarrow> malloc (16 * num_alloc sk + 8) = None"
proof -
  let ?n = "num_alloc sk"
  have n: "?n < 2 ^ 60" "0 < ?n" using ok by (simp_all add: stack_ok_def)
  then have w: "size_wrap (?n * 2) = 2 * ?n" "size_wrap (2 * ?n * 8) = 16 * ?n" "size_wrap (16 * ?n + 8) = 16 * ?n + 8" by simp_all
  then have "sk_grow malloc sk = None \<longleftrightarrow> realloc_ptrs malloc (sk_data sk) (16 * ?n) = None"
    using n by (simp add: sk_grow_def Let_def split: option.split)
  then show ?thesis using w(3)
    by (simp add: realloc_ptrs_def realloc_cases OPENSSL_malloc_def OPENSSL_MALLOC_PREFIX_def Let_def split: option.split)
qed

lemma insert_elems:
  assumes a: "allocator malloc" and ok: "stack_ok sk"
  shows "if grow_refused malloc sk then sk_insert malloc sk p pos = (0, sk) else
    (\<exists>sk'. sk_insert malloc sk p pos = (Suc (length (elems sk)), sk') \<and> stack_ok sk' \<and>
      elems sk' = take pos (elems sk) @ p # drop pos (elems sk) \<and> comp sk' = comp sk \<and> \<not> sorted_flag sk')"
proof -
  have n: "sk_len sk < 2 ^ 60" using ok by (simp add: stack_ok_def)
  then have w: "size_wrap (sk_len sk + 1) = Suc (sk_len sk)" by simp
  define put where "put s = s\<lparr>sk_data := (if sk_len s \<le> pos then (sk_data s)[sk_len s := p]
      else (splice (pos + 1) (take (sk_len s - pos) (drop pos (sk_data s))) (sk_data s))[pos := p]),
    sk_len := Suc (sk_len s), sorted_flag := False\<rparr>" for s :: STACK
  have ins: "sk_insert malloc sk p pos = (case (if num_alloc sk \<le> Suc (sk_len sk) then sk_grow malloc sk else Some sk) of
      None \<Rightarrow> (0, sk) | Some s \<Rightarrow> (size_wrap (sk_len s + 1), put s\<lparr>sk_len := size_wrap (sk_len s + 1)\<rparr>))"
    unfolding sk_insert_def w put_def Let_def by (simp split: option.split)
  have body: "\<exists>sk'. (Suc (sk_len s), put s) = (Suc (length (elems sk)), sk') \<and>
      stack_ok sk' \<and> elems sk' = take pos (elems sk) @ p # drop pos (elems sk) \<and> comp sk' = comp sk \<and> \<not> sorted_flag sk'"
    if s: "stack_ok s" "elems s = elems sk" "sk_len s = sk_len sk" "comp s = comp sk" "Suc (sk_len s) < num_alloc s" for s
  proof (cases "sk_len s \<le> pos")
    case True
    have "take (Suc (sk_len s)) ((sk_data s)[sk_len s := p]) = elems s @ [p]"
      using s(1,5) by (simp add: take_Suc_conv_app_nth stack_ok_def elems_def)
    then show ?thesis using s True length_elems [OF s(1)] by (simp add: stack_ok_def elems_def put_def)
  next
    case False
    let ?d = "sk_data s" and ?m = "sk_len s"
    let ?new = "(splice (pos + 1) (take (?m - pos) (drop pos ?d)) ?d)[pos := p]"
    have l: "?m < length ?d" "pos < ?m" using s(1) False by (simp_all add: stack_ok_def)
    have "(splice (pos + 1) (take (?m - pos) (drop pos ?d)) ?d)[pos := p] =
        take pos ?d @ p # take (?m - pos) (drop pos ?d) @ drop (Suc ?m) ?d"
      using l by (simp add: splice_def take_Suc_conv_app_nth list_update_append min_def)
    moreover have "take (Suc ?m) (take pos ?d @ p # take (?m - pos) (drop pos ?d) @ drop (Suc ?m) ?d) =
        take pos ?d @ p # take (?m - pos) (drop pos ?d)"
      using l by (simp add: min_def Suc_diff_le)
    moreover have "take pos (elems s) = take pos ?d" "drop pos (elems s) = take (?m - pos) (drop pos ?d)"
      using l by (simp_all add: elems_def min_def drop_take)
    moreover have "length ?new = length ?d" using l by simp
    ultimately have "stack_ok (s\<lparr>sk_data := ?new, sk_len := Suc ?m, sorted_flag := False\<rparr>) \<and>
        take (Suc ?m) ?new = take pos (elems s) @ p # drop pos (elems s)"
      using s(1,5) by (simp add: stack_ok_def)
    then show ?thesis using s(4) False length_elems [OF s(1)] unfolding s(2) by (simp add: elems_def [of "_\<lparr>sk_len := _, sorted_flag := _\<rparr>"] put_def)
  qed
  show ?thesis
  proof (cases "num_alloc sk \<le> Suc (sk_len sk)")
    case False
    then have "sk_insert malloc sk p pos = (Suc (sk_len sk), put sk)" using w by (simp add: ins) (simp add: put_def)
    then show ?thesis using body [OF ok refl refl refl] False by (simp add: grow_refused_def)
  next
    case True
    from grow_ok [OF a ok] show ?thesis
    proof
      assume g: "sk_grow malloc sk = None"
      have "malloc (16 * num_alloc sk + 8) = None" using g grow_fails [OF ok] by blast
      then show ?thesis using True g by (simp add: ins grow_refused_def)
    next
      assume "\<exists>sk'. sk_grow malloc sk = Some sk' \<and> stack_ok sk' \<and> elems sk' = elems sk \<and> sk_len sk' = sk_len sk \<and>
        comp sk' = comp sk \<and> num_alloc sk' = 2 * num_alloc sk"
      then obtain s where s: "sk_grow malloc sk = Some s" "stack_ok s" "elems s = elems sk" "sk_len s = sk_len sk"
        "comp s = comp sk" "num_alloc s = 2 * num_alloc sk" by blast
      have "Suc (sk_len s) < num_alloc s" using s(4,6) ok by (simp add: stack_ok_def)
      moreover have "sk_insert malloc sk p pos = (Suc (sk_len s), put s)"
        using True w s(1,4) by (simp add: ins) (simp add: put_def)
      moreover have "malloc (16 * num_alloc sk + 8) \<noteq> None" using s(1) grow_fails [OF ok] by (metis option.distinct(1))
      ultimately show ?thesis using body [OF s(2-5)] by (simp add: grow_refused_def)
    qed
  qed
qed

lemma delete_elems:
  assumes ok: "stack_ok sk" and i: "i < length (elems sk)"
  shows "\<exists>sk'. sk_delete sk i = (elems sk ! i, sk') \<and> stack_ok sk' \<and> comp sk' = comp sk \<and>
    elems sk' = take i (elems sk) @ drop (Suc i) (elems sk) \<and> sorted_flag sk' = sorted_flag sk"
proof -
  let ?d = "sk_data sk" and ?n = "sk_len sk"
  have l: "?n < length ?d" "i < ?n" using ok i length_elems [OF ok] by (simp_all add: stack_ok_def)
  have e: "take i (elems sk) = take i ?d" "drop (Suc i) (elems sk) = take (?n - i - 1) (drop (i + 1) ?d)"
    using l by (simp_all add: elems_def min_def drop_take)
  show ?thesis
  proof (cases "i = ?n - 1")
    case True
    then show ?thesis using l ok e by (simp add: sk_delete_def Let_def elems_nth stack_ok_def) (simp add: elems_def)
  next
    case False
    define d' where "d' = splice i (take (?n - i - 1) (drop (i + 1) ?d)) ?d"
    have "length (take i ?d @ take (?n - i - 1) (drop (i + 1) ?d)) = ?n - 1" using l by simp
    then have "take (?n - 1) d' = take i ?d @ take (?n - i - 1) (drop (i + 1) ?d)"
      unfolding d'_def splice_def append_assoc [symmetric] by (rule take_prefix)
    moreover have "length d' = length ?d" using l by (simp add: d'_def)
    moreover have "sk_delete sk i = (?d ! i, sk\<lparr>sk_data := d', sk_len := ?n - 1\<rparr>)"
      using False l by (simp add: sk_delete_def d'_def)
    moreover have "?n - 1 < num_alloc sk" using ok by (auto simp: stack_ok_def)
    ultimately show ?thesis using l ok e by (simp add: elems_nth stack_ok_def) (simp add: elems_def)
  qed
qed

section \<open>Sorting and searching\<close>

text \<open>A comparison that is usable on some pointers: a total preorder whose sign is antisymmetric.\<close>

definition consistent :: "ptr set \<Rightarrow> compare \<Rightarrow> bool" where
  "consistent A cmp \<longleftrightarrow>
     (\<forall>a\<in>A. \<forall>b\<in>A. (cmp a b < 0 \<longleftrightarrow> 0 < cmp b a) \<and> (cmp a b = 0 \<longleftrightarrow> cmp b a = 0)) \<and>
     (\<forall>a\<in>A. \<forall>b\<in>A. \<forall>c\<in>A. cmp a b \<le> 0 \<longrightarrow> cmp b c \<le> 0 \<longrightarrow> cmp a c \<le> 0)"

lemma consistentD:
  assumes "consistent A cmp" "a \<in> A" "b \<in> A"
  shows "cmp a b < 0 \<longleftrightarrow> 0 < cmp b a" "cmp a b = 0 \<longleftrightarrow> cmp b a = 0"
    "cmp a b \<le> 0 \<Longrightarrow> c \<in> A \<Longrightarrow> cmp b c \<le> 0 \<Longrightarrow> cmp a c \<le> 0"
  using assms unfolding consistent_def by blast+

lemma consistent_mono: "consistent A cmp \<Longrightarrow> B \<subseteq> A \<Longrightarrow> consistent B cmp"
  unfolding consistent_def by blast

text \<open>What the C standard says of \<open>qsort\<close> and \<open>bsearch\<close>; which of several equal elements is found, and
  in which order \<open>qsort\<close> leaves them, is open.\<close>

locale sort_library =
  fixes qsort :: "compare \<Rightarrow> ptr list \<Rightarrow> ptr list"
    and bsearch :: "compare \<Rightarrow> ptr \<Rightarrow> ptr list \<Rightarrow> nat option"
  assumes qsort_permutes: "consistent (set ps) cmp \<Longrightarrow> mset (qsort cmp ps) = mset ps"
    and qsort_sorts: "consistent (set ps) cmp \<Longrightarrow> ascending cmp (qsort cmp ps)"
    and bsearch_found: "consistent (insert p (set ps)) cmp \<Longrightarrow> ascending cmp ps \<Longrightarrow> bsearch cmp p ps = Some i \<Longrightarrow>
      i < length ps \<and> cmp p (ps ! i) = 0"
    and bsearch_absent: "consistent (insert p (set ps)) cmp \<Longrightarrow> ascending cmp ps \<Longrightarrow> bsearch cmp p ps = None \<Longrightarrow>
      q \<in> set ps \<Longrightarrow> cmp p q \<noteq> 0"
begin

lemma sort_elems:
  assumes ok: "stack_ok sk" "flag_ok call sk" and f: "comp sk = Some f" and c: "consistent (set (elems sk)) (call f)"
  defines "s \<equiv> sk_sort qsort call sk"
  shows "stack_ok s" "mset (elems s) = mset (elems sk)" "ascending (call f) (elems s)" "sorted_flag s" "comp s = Some f"
    "sk_len s = sk_len sk"
proof -
  have "stack_ok s \<and> mset (elems s) = mset (elems sk) \<and> ascending (call f) (elems s) \<and> sorted_flag s \<and> comp s = Some f \<and>
    sk_len s = sk_len sk"
  proof (cases "sorted_flag sk")
    case True
    then show ?thesis using ok f by (simp add: s_def sk_sort_def flag_ok_def)
  next
    case False
    define q where "q = qsort (call f) (elems sk)"
    have q: "mset q = mset (elems sk)" "ascending (call f) q" using qsort_permutes [OF c] qsort_sorts [OF c] by (simp_all add: q_def)
    have l: "length q = sk_len sk" using mset_eq_length [OF q(1)] length_elems [OF ok(1)] by simp
    have s: "s = sk\<lparr>sk_data := splice 0 q (sk_data sk), sorted_flag := True\<rparr>"
      using False f by (simp add: s_def sk_sort_def elems_def q_def)
    have "elems s = q" unfolding s elems_def using l by (simp add: splice_def)
    moreover have "stack_ok s" unfolding s using l ok(1) by (simp add: stack_ok_def)
    ultimately show ?thesis using q f by (simp add: s)
  qed
  then show "stack_ok s" "mset (elems s) = mset (elems sk)" "ascending (call f) (elems s)" "sorted_flag s" "comp s = Some f"
    "sk_len s = sk_len sk" by simp_all
qed

end

text \<open>Going back from a match in an ascending list ends at the first match.\<close>

lemma first_equal_first:
  assumes c: "consistent (insert p (set ps)) cmp" and a: "ascending cmp ps"
    and i: "i < length ps" "cmp p (ps ! i) = 0"
  shows "first_equal cmp p ps i \<le> i \<and> cmp p (ps ! first_equal cmp p ps i) = 0 \<and>
    (\<forall>j < first_equal cmp p ps i. cmp p (ps ! j) \<noteq> 0)"
  using i
proof (induction i)
  case (Suc i)
  show ?case
  proof (cases "cmp p (ps ! i) = 0")
    case True
    then show ?thesis using Suc by simp
  next
    case False
    have "cmp p (ps ! j) \<noteq> 0" if j: "j < Suc i" for j
    proof (cases "j = i")
      case False
      then have "cmp (ps ! j) (ps ! i) \<le> 0" "cmp (ps ! i) (ps ! Suc i) \<le> 0"
        using a j Suc.prems(1) by (simp_all add: ascending_def sorted_wrt_iff_nth_less)
      moreover have "ps ! j \<in> insert p (set ps)" "ps ! i \<in> insert p (set ps)" "ps ! Suc i \<in> insert p (set ps)" "p \<in> insert p (set ps)"
        using j Suc.prems(1) by simp_all
      ultimately show ?thesis
        using consistentD [OF c] Suc.prems(2) \<open>cmp p (ps ! i) \<noteq> 0\<close> by (smt (verit, best))
    qed (use False in simp)
    then show ?thesis using False Suc.prems(2) by simp
  qed
qed simp

lemma first_equal_take: "i < n \<Longrightarrow> first_equal cmp p (take n ps) i = first_equal cmp p ps i"
  by (induction i) simp_all

lemma find_ptr_first:
  "find_ptr data p i n = (if \<exists>j < n. data ! (i + j) = p then Some (i + (LEAST j. data ! (i + j) = p)) else None)"
proof (induction n arbitrary: i)
  case (Suc n)
  show ?case
  proof (cases "data ! i = p")
    case True
    then have "(LEAST j. data ! (i + j) = p) = 0" by (intro Least_equality) simp_all
    then show ?thesis using True by auto
  next
    case False
    have ex: "(\<exists>j < Suc n. data ! (i + j) = p) \<longleftrightarrow> (\<exists>j < n. data ! (Suc i + j) = p)"
      using False by (auto simp: less_Suc_eq_0_disj)
    show ?thesis
    proof (cases "\<exists>j < n. data ! (Suc i + j) = p")
      case True
      then obtain j where "data ! (i + Suc j) = p" by auto
      then have "(LEAST j. data ! (i + j) = p) = Suc (LEAST j. data ! (i + Suc j) = p)"
        using False by (intro Least_Suc [of _ "Suc j"]) simp_all
      then show ?thesis using False True ex Suc.IH [of "Suc i"] by simp
    next
      case no: False
      then have "find_ptr data p (Suc i) n = None" unfolding Suc.IH by (rule if_not_P)
      moreover have "\<not> (\<exists>j < Suc n. data ! (i + j) = p)" using ex no by blast
      ultimately show ?thesis using False by (simp only: find_ptr.simps Suc_eq_plus1 [symmetric] if_False)
    qed
  qed
qed simp

context sort_library begin

lemma find_first:
  assumes ok: "stack_ok sk" "flag_ok call sk" and f: "comp sk = Some f"
    and c: "consistent (insert p (set (elems sk))) (call f)" and p: "p \<noteq> 0"
  shows "\<exists>r sk'. sk_find qsort bsearch call sk p = (r, sk') \<and> stack_ok sk' \<and> flag_ok call sk' \<and> sorted_flag sk' \<and>
    mset (elems sk') = mset (elems sk) \<and> ascending (call f) (elems sk') \<and>
    (case r of None \<Rightarrow> \<forall>q \<in> set (elems sk). call f p q \<noteq> 0
     | Some i \<Rightarrow> i < length (elems sk') \<and> call f p (elems sk' ! i) = 0 \<and> (\<forall>j < i. call f p (elems sk' ! j) \<noteq> 0))"
proof -
  let ?s = "sk_sort qsort call sk"
  have c1: "consistent (set (elems sk)) (call f)" using c by (rule consistent_mono) auto
  note s = sort_elems [OF ok f c1]
  have e: "set (elems ?s) = set (elems sk)" using mset_eq_setD [OF s(2)] .
  then have c2: "consistent (insert p (set (elems ?s))) (call f)" using c by simp
  have find: "sk_find qsort bsearch call sk p = (case bsearch (call f) p (elems ?s) of None \<Rightarrow> (None, ?s)
      | Some idx \<Rightarrow> (Some (first_equal (call f) p (sk_data ?s) idx), ?s))"
    using f p by (simp add: sk_find_def Let_def elems_def)
  have fl: "flag_ok call ?s" using s(3,5) by (simp add: flag_ok_def)
  show ?thesis
  proof (cases "bsearch (call f) p (elems ?s)")
    case None
    then show ?thesis using find s fl bsearch_absent [OF c2 s(3) None] e by simp
  next
    case (Some i)
    have i: "i < length (elems ?s)" "call f p (elems ?s ! i) = 0" using bsearch_found [OF c2 s(3) Some] by simp_all
    have "first_equal (call f) p (elems ?s) i = first_equal (call f) p (sk_data ?s) i"
      using i(1) length_elems [OF s(1)] by (simp add: elems_def first_equal_take)
    with first_equal_first [OF c2 s(3) i] find Some s fl i(1) show ?thesis by simp
  qed
qed

end

section \<open>A C library that keeps the promise\<close>

fun sort_insert :: "compare \<Rightarrow> ptr \<Rightarrow> ptr list \<Rightarrow> ptr list" where
  "sort_insert cmp x [] = [x]"
| "sort_insert cmp x (y # ys) = (if cmp x y \<le> 0 then x # y # ys else y # sort_insert cmp x ys)"

definition libc_qsort :: "compare \<Rightarrow> ptr list \<Rightarrow> ptr list" where
  "libc_qsort cmp ps = foldr (sort_insert cmp) ps []"

function bsearch_loop :: "compare \<Rightarrow> ptr \<Rightarrow> ptr list \<Rightarrow> nat \<Rightarrow> nat \<Rightarrow> nat option" where
  "bsearch_loop cmp p ps l u =
     (if l < u
      then (let idx = (l + u) div 2; c = cmp p (ps ! idx)
            in if c < 0 then bsearch_loop cmp p ps l idx
               else if 0 < c then bsearch_loop cmp p ps (idx + 1) u
               else Some idx)
      else None)"
  by pat_completeness auto
termination
  by (relation "measure (\<lambda>(cmp, p, ps, l, u). u - l)") auto

declare bsearch_loop.simps [simp del]

definition libc_bsearch :: "compare \<Rightarrow> ptr \<Rightarrow> ptr list \<Rightarrow> nat option" where
  "libc_bsearch cmp p ps = bsearch_loop cmp p ps 0 (length ps)"

lemma mset_sort_insert: "mset (sort_insert cmp x ys) = add_mset x (mset ys)"
  by (induction ys) simp_all

lemma set_sort_insert: "set (sort_insert cmp x ys) = insert x (set ys)"
  by (induction ys) auto

lemma sort_insert_ascending:
  "consistent (insert x (set ys)) cmp \<Longrightarrow> ascending cmp ys \<Longrightarrow> ascending cmp (sort_insert cmp x ys)"
proof (induction ys)
  case (Cons y ys)
  let ?A = "insert x (set (y # ys))"
  have in_A: "x \<in> ?A" "y \<in> ?A" by simp_all
  have le: "\<forall>z\<in>set ys. cmp y z \<le> 0" "ascending cmp ys" using Cons.prems(2) by (simp_all add: ascending_def)
  show ?case
  proof (cases "cmp x y \<le> 0")
    case True
    have "cmp x z \<le> 0" if "z \<in> set ys" for z
    proof (rule consistentD(3) [OF Cons.prems(1) in_A True])
      show "z \<in> ?A" "cmp y z \<le> 0" using that le(1) by simp_all
    qed
    then show ?thesis using True Cons.prems(2) by (simp add: ascending_def)
  next
    case False
    then have "cmp y x \<le> 0" using consistentD(1) [OF Cons.prems(1) in_A(2,1)] by linarith
    moreover have "ascending cmp (sort_insert cmp x ys)"
      using Cons.IH consistent_mono [OF Cons.prems(1)] le(2) by (auto simp: insert_commute)
    ultimately show ?thesis using False le(1) by (auto simp: ascending_def set_sort_insert)
  qed
qed (simp add: ascending_def)

lemma qsort_sorted: "mset (libc_qsort cmp ps) = mset ps \<and> (consistent (set ps) cmp \<longrightarrow> ascending cmp (libc_qsort cmp ps))"
proof (induction ps)
  case (Cons p ps)
  have m: "mset (libc_qsort cmp (p # ps)) = mset (p # ps)" using Cons by (simp add: libc_qsort_def mset_sort_insert)
  have "set (libc_qsort cmp ps) = set ps" using Cons by (metis mset_eq_setD)
  then have "consistent (set (p # ps)) cmp \<longrightarrow> ascending cmp (libc_qsort cmp (p # ps))"
    using Cons sort_insert_ascending [of p "libc_qsort cmp ps" cmp] consistent_mono [of "set (p # ps)" cmp "set ps"]
    by (auto simp: libc_qsort_def)
  with m show ?case by simp
qed (simp add: libc_qsort_def ascending_def)

lemma bsearch_correct:
  assumes c: "consistent (insert p (set ps)) cmp" and a: "ascending cmp ps"
    and inv: "u \<le> length ps" "\<forall>j < l. cmp p (ps ! j) \<noteq> 0" "\<forall>j. u \<le> j \<and> j < length ps \<longrightarrow> cmp p (ps ! j) \<noteq> 0"
  shows "case bsearch_loop cmp p ps l u of Some i \<Rightarrow> i < length ps \<and> cmp p (ps ! i) = 0
    | None \<Rightarrow> \<forall>j < length ps. cmp p (ps ! j) \<noteq> 0"
  using inv
proof (induction "u - l" arbitrary: l u rule: less_induct)
  case less
  have order: "cmp (ps ! i) (ps ! j) \<le> 0" if "i < j" "j < length ps" for i j
    using a that by (simp add: ascending_def sorted_wrt_iff_nth_less)
  have mem: "p \<in> insert p (set ps)" "j < length ps \<Longrightarrow> ps ! j \<in> insert p (set ps)" for j by simp_all
  show ?case
  proof (cases "l < u")
    case False
    then have "\<forall>j < length ps. cmp p (ps ! j) \<noteq> 0" using less.prems by (meson linorder_not_less less_le_trans)
    then show ?thesis using False by (simp add: bsearch_loop.simps [of cmp p ps l u])
  next
    case True
    define idx where "idx = (l + u) div 2"
    have idx: "l \<le> idx" "idx < u" "idx < length ps" using True less.prems(1) by (auto simp: idx_def)
    consider (left) "cmp p (ps ! idx) < 0" | (right) "0 < cmp p (ps ! idx)" | (hit) "cmp p (ps ! idx) = 0" by linarith
    then show ?thesis
    proof cases
      case left
      have "cmp p (ps ! j) \<noteq> 0" if j: "idx \<le> j" "j < length ps" for j
      proof (cases "j = idx")
        case False
        then have o: "cmp (ps ! idx) (ps ! j) \<le> 0" using order [of idx j] j by simp
        show ?thesis
        proof
          assume z: "cmp p (ps ! j) = 0"
          then have "cmp (ps ! j) p = 0" using consistentD(2) [OF c mem(1) mem(2) [OF j(2)]] by simp
          then have "cmp (ps ! idx) p \<le> 0"
            using consistentD(3) [OF c mem(2) [OF idx(3)] mem(2) [OF j(2)] o mem(1)] by simp
          then show False using left consistentD(1) [OF c mem(1) mem(2) [OF idx(3)]] by simp
        qed
      qed (use left in simp)
      then have "case bsearch_loop cmp p ps l idx of Some i \<Rightarrow> i < length ps \<and> cmp p (ps ! i) = 0
          | None \<Rightarrow> \<forall>j < length ps. cmp p (ps ! j) \<noteq> 0"
        using less.hyps [of idx l] idx less.prems(2) by simp
      then show ?thesis using True left by (simp add: bsearch_loop.simps [of cmp p ps l u] idx_def Let_def)
    next
      case right
      have "cmp p (ps ! j) \<noteq> 0" if j: "j < idx + 1" for j
      proof (cases "j = idx")
        case False
        then have j': "j < length ps" and o: "cmp (ps ! j) (ps ! idx) \<le> 0" using order [of j idx] j idx by simp_all
        show ?thesis
        proof
          assume "cmp p (ps ! j) = 0"
          then have "cmp p (ps ! idx) \<le> 0"
            using consistentD(3) [OF c mem(1) mem(2) [OF j'] _ mem(2) [OF idx(3)] o] by simp
          with right show False by simp
        qed
      qed (use right in simp)
      then have "case bsearch_loop cmp p ps (idx + 1) u of Some i \<Rightarrow> i < length ps \<and> cmp p (ps ! i) = 0
          | None \<Rightarrow> \<forall>j < length ps. cmp p (ps ! j) \<noteq> 0"
        using less.hyps [of u "idx + 1"] idx less.prems(1,3) by simp
      then show ?thesis using True right by (simp add: bsearch_loop.simps [of cmp p ps l u] idx_def Let_def)
    next
      case hit
      then show ?thesis using True idx(3) by (simp add: bsearch_loop.simps [of cmp p ps l u] idx_def Let_def)
    qed
  qed
qed

interpretation libc: sort_library libc_qsort libc_bsearch
proof
  fix ps p cmp i q
  show "consistent (set ps) cmp \<Longrightarrow> mset (libc_qsort cmp ps) = mset ps"
    "consistent (set ps) cmp \<Longrightarrow> ascending cmp (libc_qsort cmp ps)" using qsort_sorted by blast+
  assume *: "consistent (insert p (set ps)) cmp" "ascending cmp ps"
  from bsearch_correct [OF *, of "length ps" 0]
  have r: "case libc_bsearch cmp p ps of Some i \<Rightarrow> i < length ps \<and> cmp p (ps ! i) = 0
    | None \<Rightarrow> \<forall>j < length ps. cmp p (ps ! j) \<noteq> 0" by (simp add: libc_bsearch_def)
  show "libc_bsearch cmp p ps = Some i \<Longrightarrow> i < length ps \<and> cmp p (ps ! i) = 0" using r by simp
  show "libc_bsearch cmp p ps = None \<Longrightarrow> q \<in> set ps \<Longrightarrow> cmp p q \<noteq> 0" using r by (auto simp: in_set_conv_nth)
qed

section \<open>Properties\<close>

text \<open>C25: A stack behaves as the list of its elements: \<open>sk_insert\<close> inserts at an index (or at the end)
  and \<open>sk_push\<close> at the end, unless the array has to grow and the allocation of its doubled size fails,
  when the stack is unchanged; \<open>sk_delete\<close> removes and returns an element; \<open>sk_pop\<close> and \<open>sk_shift\<close>
  remove the ends.\<close>

theorem stack_list:
  assumes "allocator malloc" and "stack_ok sk"
  shows "(if num_alloc sk \<le> Suc (length (elems sk)) \<and> malloc (16 * num_alloc sk + 8) = None
     then sk_insert malloc sk p pos = (0, sk) \<and> sk_push malloc sk p = (0, sk)
     else (\<exists>sk'. sk_insert malloc sk p pos = (Suc (length (elems sk)), sk') \<and> stack_ok sk' \<and>
             elems sk' = take pos (elems sk) @ p # drop pos (elems sk)) \<and>
          (\<exists>sk'. sk_push malloc sk p = (Suc (length (elems sk)), sk') \<and> stack_ok sk' \<and> elems sk' = elems sk @ [p])) \<and>
    (if pos < length (elems sk) then \<exists>sk'. sk_delete sk pos = (elems sk ! pos, sk') \<and> stack_ok sk' \<and>
        elems sk' = take pos (elems sk) @ drop (Suc pos) (elems sk)
     else sk_delete sk pos = (0, sk)) \<and>
    (if elems sk = [] then sk_pop sk = (0, sk) \<and> sk_shift sk = (0, sk)
     else (\<exists>sk'. sk_pop sk = (last (elems sk), sk') \<and> stack_ok sk' \<and> elems sk' = butlast (elems sk)) \<and>
          (\<exists>sk'. sk_shift sk = (hd (elems sk), sk') \<and> stack_ok sk' \<and> elems sk' = tl (elems sk)))"
proof -
  note l = length_elems [OF assms(2)]
  have ends: "(\<exists>sk'. sk_pop sk = (last (elems sk), sk') \<and> stack_ok sk' \<and> elems sk' = butlast (elems sk)) \<and>
      (\<exists>sk'. sk_shift sk = (hd (elems sk), sk') \<and> stack_ok sk' \<and> elems sk' = tl (elems sk))" if ne: "elems sk \<noteq> []"
  proof -
    have "0 < sk_len sk" using l ne by (cases "sk_len sk") simp_all
    then show ?thesis
      using delete_elems [OF assms(2), of "sk_len sk - 1"] delete_elems [OF assms(2), of 0] l ne
      by (auto simp: sk_pop_def sk_shift_def last_conv_nth hd_conv_nth butlast_conv_take drop_Suc)
  qed
  have empty: "elems sk = [] \<Longrightarrow> sk_pop sk = (0, sk) \<and> sk_shift sk = (0, sk)"
    using l by (simp add: sk_pop_def sk_shift_def)
  have r: "num_alloc sk \<le> Suc (length (elems sk)) \<and> malloc (16 * num_alloc sk + 8) = None \<longleftrightarrow> grow_refused malloc sk"
    by (simp add: grow_refused_def l)
  have ins: "if grow_refused malloc sk then sk_insert malloc sk p pos = (0, sk) \<and> sk_push malloc sk p = (0, sk)
     else (\<exists>sk'. sk_insert malloc sk p pos = (Suc (length (elems sk)), sk') \<and> stack_ok sk' \<and>
             elems sk' = take pos (elems sk) @ p # drop pos (elems sk)) \<and>
          (\<exists>sk'. sk_push malloc sk p = (Suc (length (elems sk)), sk') \<and> stack_ok sk' \<and> elems sk' = elems sk @ [p])"
    using insert_elems [OF assms, of p pos] insert_elems [OF assms, of p "sk_len sk"] l unfolding sk_push_def
    by (cases "grow_refused malloc sk") auto
  show ?thesis
    unfolding r using ins delete_elems [OF assms(2), of pos] l ends empty by (auto simp: sk_delete_def)
qed

theorem stack_list_witness:
  "let sk = \<lparr>sk_len = 2, sk_data = [6, 8, 0], sorted_flag = True, num_alloc = 3, comp = None\<rparr>
   in (\<exists>sk'. sk_insert zero_alloc sk 7 1 = (3, sk') \<and> elems sk' = [6, 7, 8]) \<and>
      (\<exists>sk'. sk_push zero_alloc sk 7 = (3, sk') \<and> elems sk' = [6, 8, 7]) \<and>
      (\<exists>sk'. sk_delete sk 1 = (8, sk') \<and> elems sk' = [6])"
proof -
  let ?sk = "\<lparr>sk_len = 2, sk_data = [6, 8, 0], sorted_flag = True, num_alloc = 3, comp = None\<rparr>"
  have "stack_ok ?sk" by (simp add: stack_ok_def)
  from stack_list [OF allocator_zero_alloc this, of 7 1] show ?thesis by (simp add: elems_def zero_alloc_def Let_def numeral_3_eq_3) blast
qed

text \<open>C24: \<open>sk_find\<close> on a stack with a comparison function sorts it and returns the index of the first
  element that compares equal, or nothing when there is none, whatever \<open>qsort\<close> and \<open>bsearch\<close> the C
  library has.\<close>

theorem stack_find:
  assumes "sort_library qsort bsearch" and "stack_ok sk" and "flag_ok call sk" and "comp sk = Some f"
    and "consistent (insert p (set (elems sk))) (call f)" and "p \<noteq> 0"
  shows "\<exists>r sk'. sk_find qsort bsearch call sk p = (r, sk') \<and> stack_ok sk' \<and> flag_ok call sk' \<and> sorted_flag sk' \<and>
    mset (elems sk') = mset (elems sk) \<and> ascending (call f) (elems sk') \<and>
    (case r of None \<Rightarrow> \<forall>q \<in> set (elems sk). call f p q \<noteq> 0
     | Some i \<Rightarrow> i < length (elems sk') \<and> call f p (elems sk' ! i) = 0 \<and> (\<forall>j < i. call f p (elems sk' ! j) \<noteq> 0))"
  using sort_library.find_first [OF assms] .

text \<open>The comparison of pointers by their value.\<close>

definition by_value :: "nat \<Rightarrow> compare" where
  "by_value f a b = int (unat a) - int (unat b)"

lemma by_value_consistent: "consistent A (by_value f)"
  by (auto simp: consistent_def by_value_def)

theorem stack_find_witness:
  "\<exists>r sk'. sk_find libc_qsort libc_bsearch by_value
      \<lparr>sk_len = 3, sk_data = [9, 5, 7, 0], sorted_flag = False, num_alloc = 4, comp = Some 0\<rparr> 5 = (r, sk') \<and>
    ascending (by_value 0) (elems sk') \<and> r \<noteq> None"
proof -
  let ?sk = "\<lparr>sk_len = 3, sk_data = [9, 5, 7, 0], sorted_flag = False, num_alloc = 4, comp = Some 0\<rparr>"
  have ok: "stack_ok ?sk" "flag_ok by_value ?sk" "comp ?sk = Some 0" "(5 :: ptr) \<noteq> 0"
    by (simp_all add: stack_ok_def flag_ok_def)
  from stack_find [OF libc.sort_library_axioms ok(1-3) by_value_consistent ok(4)] obtain r sk' where
    f: "sk_find libc_qsort libc_bsearch by_value ?sk 5 = (r, sk')" "ascending (by_value 0) (elems sk')"
      "r = None \<longrightarrow> (\<forall>q \<in> set (elems ?sk). by_value 0 5 q \<noteq> 0)" by (auto split: option.splits)
  have "5 \<in> set (elems ?sk)" "by_value 0 5 5 = 0" by (simp_all add: elems_def by_value_def)
  with f(3) have "r \<noteq> None" by blast
  with f(1,2) show ?thesis by blast
qed

text \<open>C40: \<open>sk_set\<close> leaves the sorted flag as it is. On a stack that has been sorted it can store an
  element out of order, and then \<open>sk_find\<close> reports an element that is in the stack as absent.\<close>

theorem sk_set_breaks_flag:
  "\<exists>sk sk'. stack_ok sk \<and> flag_ok by_value sk \<and> sk_set sk 0 9 = (9, sk') \<and>
    sk_is_sorted (Some sk') \<and> \<not> flag_ok by_value sk' \<and>
    9 \<in> set (elems sk') \<and> fst (sk_find libc_qsort libc_bsearch by_value sk' 9) = None"
proof -
  let ?sk = "\<lparr>sk_len = 2, sk_data = [1, 3, 0, 0], sorted_flag = True, num_alloc = 4, comp = Some 0\<rparr>"
  let ?sk' = "\<lparr>sk_len = 2, sk_data = [9, 3, 0, 0], sorted_flag = True, num_alloc = 4, comp = Some 0\<rparr>"
  have "stack_ok ?sk" "flag_ok by_value ?sk" "sk_set ?sk 0 9 = (9, ?sk')" "sk_is_sorted (Some ?sk')"
    "\<not> flag_ok by_value ?sk'" "9 \<in> set (elems ?sk')"
    by (simp_all add: stack_ok_def flag_ok_def ascending_def elems_def by_value_def sk_set_def sk_is_sorted_def)
  moreover have "fst (sk_find libc_qsort libc_bsearch by_value ?sk' 9) = None"
    by (simp add: sk_find_def sk_sort_def libc_bsearch_def bsearch_loop.simps by_value_def)
  ultimately show ?thesis by blast
qed

end
