(* ===== verification/Lhash.thy ===== *)
theory Lhash
  imports Mem "HOL-Library.Multiset"
begin

text \<open>
  BoringSSL's hash table (\<open>crypto/lhash/lhash.c\<close>). An element is a pointer into memory the table does
  not own; the hash and the comparison function are those the table was created with, and a chain is
  the list of its \<open>LHASH_ITEM\<close>s. The table promises its clients to be a dictionary: the locale
  \<open>dictionary\<close> states the promise, and a client that performs any sequence of operations gets the
  answers a finite map gives.
\<close>

section \<open>The table\<close>

record 'd LHASH_ITEM =
  item_data :: 'd
  item_hash :: u32

record 'd lhash =
  num_items :: size_t
  buckets :: "'d LHASH_ITEM list list"
  num_buckets :: size_t
  callback_depth :: u32
  lh_comp :: "'d \<Rightarrow> 'd \<Rightarrow> int"
  lh_hash :: "'d \<Rightarrow> u32"

definition kMinNumBuckets :: size_t where
  "kMinNumBuckets = 16"

definition kMaxAverageChainLength :: size_t where
  "kMaxAverageChainLength = 2"

definition kMinAverageChainLength :: size_t where
  "kMinAverageChainLength = 1"

definition lh_new :: "(nat \<Rightarrow> byte list option) \<Rightarrow> ('d \<Rightarrow> u32) \<Rightarrow> ('d \<Rightarrow> 'd \<Rightarrow> int) \<Rightarrow> 'd lhash option" where
  "lh_new malloc hash cmp =
     (case OPENSSL_malloc malloc 48 of None \<Rightarrow> None
      | Some _ \<Rightarrow> (case OPENSSL_malloc malloc (8 * kMinNumBuckets) of None \<Rightarrow> None
        | Some _ \<Rightarrow> Some \<lparr>num_items = 0, buckets = replicate kMinNumBuckets [], num_buckets = kMinNumBuckets,
            callback_depth = 0, lh_comp = cmp, lh_hash = hash\<rparr>))"

definition lh_num_items :: "'d lhash \<Rightarrow> size_t" where
  "lh_num_items lh = num_items lh"

text \<open>The place of the first item equal to \<open>data\<close> in a chain; past the end stands for the pointer to
  NULL at its end.\<close>

fun chain_pos :: "('d \<Rightarrow> 'd \<Rightarrow> int) \<Rightarrow> 'd \<Rightarrow> 'd LHASH_ITEM list \<Rightarrow> nat" where
  "chain_pos cmp data [] = 0"
| "chain_pos cmp data (cur # rest) = (if cmp (item_data cur) data = 0 then 0 else Suc (chain_pos cmp data rest))"

definition get_next_ptr_and_hash :: "'d lhash \<Rightarrow> 'd \<Rightarrow> u32 \<times> nat \<times> nat" where
  "get_next_ptr_and_hash lh data =
     (let hash = lh_hash lh data; b = unat hash mod num_buckets lh
      in (hash, b, chain_pos (lh_comp lh) data (buckets lh ! b)))"

definition lh_retrieve :: "'d lhash \<Rightarrow> 'd \<Rightarrow> 'd option" where
  "lh_retrieve lh data =
     (case get_next_ptr_and_hash lh data of (_, b, i) \<Rightarrow>
        if i = length (buckets lh ! b) then None else Some (item_data (buckets lh ! b ! i)))"

definition lh_rebucket :: "(nat \<Rightarrow> byte list option) \<Rightarrow> 'd lhash \<Rightarrow> size_t \<Rightarrow> 'd lhash" where
  "lh_rebucket malloc lh new_num_buckets =
     (let alloc_size = size_wrap (8 * new_num_buckets)
      in if alloc_size div 8 \<noteq> new_num_buckets then lh
         else (case OPENSSL_malloc malloc alloc_size of None \<Rightarrow> lh
           | Some _ \<Rightarrow>
               (let new_buckets =
                  fold (fold (\<lambda>cur nb. let b = unat (item_hash cur) mod new_num_buckets in nb[b := cur # nb ! b]))
                    (buckets lh) (replicate new_num_buckets [])
                in lh\<lparr>num_buckets := new_num_buckets, buckets := new_buckets\<rparr>)))"

definition lh_maybe_resize :: "(nat \<Rightarrow> byte list option) \<Rightarrow> 'd lhash \<Rightarrow> 'd lhash" where
  "lh_maybe_resize malloc lh =
     (if 0 < callback_depth lh then lh
      else
        (let avg_chain_length = num_items lh div num_buckets lh
         in if kMaxAverageChainLength < avg_chain_length
            then (let new_num_buckets = size_wrap (num_buckets lh * 2)
                  in if num_buckets lh < new_num_buckets then lh_rebucket malloc lh new_num_buckets else lh)
            else if avg_chain_length < kMinAverageChainLength \<and> kMinNumBuckets < num_buckets lh
            then (let new_num_buckets = num_buckets lh div 2;
                      new_num_buckets = (if new_num_buckets < kMinNumBuckets then kMinNumBuckets else new_num_buckets)
                  in lh_rebucket malloc lh new_num_buckets)
            else lh))"

text \<open>The first result is the return value, the second is \<open>*old_data\<close>.\<close>

definition lh_insert :: "(nat \<Rightarrow> byte list option) \<Rightarrow> 'd lhash \<Rightarrow> 'd \<Rightarrow> bool \<times> 'd option \<times> 'd lhash" where
  "lh_insert malloc lh data =
     (case get_next_ptr_and_hash lh data of (hash, b, i) \<Rightarrow>
        let chain = buckets lh ! b
        in if i \<noteq> length chain
           then (True, Some (item_data (chain ! i)),
                 lh\<lparr>buckets := (buckets lh)[b := chain[i := (chain ! i)\<lparr>item_data := data\<rparr>]]\<rparr>)
           else (case OPENSSL_malloc malloc 24 of None \<Rightarrow> (False, None, lh)
             | Some _ \<Rightarrow>
                 (True, None,
                  lh_maybe_resize malloc
                    (lh\<lparr>buckets := (buckets lh)[b := chain @ [\<lparr>item_data = data, item_hash = hash\<rparr>]],
                        num_items := size_wrap (num_items lh + 1)\<rparr>))))"

definition lh_delete :: "(nat \<Rightarrow> byte list option) \<Rightarrow> 'd lhash \<Rightarrow> 'd \<Rightarrow> 'd option \<times> 'd lhash" where
  "lh_delete malloc lh data =
     (case get_next_ptr_and_hash lh data of (_, b, i) \<Rightarrow>
        let chain = buckets lh ! b
        in if i = length chain then (None, lh)
           else (Some (item_data (chain ! i)),
                 lh_maybe_resize malloc
                   (lh\<lparr>buckets := (buckets lh)[b := take i chain @ drop (Suc i) chain], num_items := num_items lh - 1\<rparr>)))"

text \<open>The walk over all items. The callback acts on a state \<open>h\<close> of its own; callbacks that change the
  table during the walk are outside the model.\<close>

definition lh_doall_internal :: "(nat \<Rightarrow> byte list option) \<Rightarrow> ('d \<Rightarrow> 'h \<Rightarrow> 'h) \<Rightarrow> 'd lhash \<Rightarrow> 'h \<Rightarrow> 'd lhash \<times> 'h" where
  "lh_doall_internal malloc func lh h =
     (let depth = callback_depth lh;
          lh = (if depth < - 1 then lh\<lparr>callback_depth := depth + 1\<rparr> else lh);
          h = fold (fold (\<lambda>cur. func (item_data cur))) (buckets lh) h;
          lh = (if callback_depth lh < - 1 then lh\<lparr>callback_depth := callback_depth lh - 1\<rparr> else lh)
      in (lh_maybe_resize malloc lh, h))"

definition lh_doall :: "(nat \<Rightarrow> byte list option) \<Rightarrow> 'd lhash \<Rightarrow> ('d \<Rightarrow> 'h \<Rightarrow> 'h) \<Rightarrow> 'h \<Rightarrow> 'd lhash \<times> 'h" where
  "lh_doall malloc lh func = lh_doall_internal malloc func lh"

definition lh_doall_arg :: "(nat \<Rightarrow> byte list option) \<Rightarrow> 'd lhash \<Rightarrow> ('d \<Rightarrow> 'a \<Rightarrow> 'h \<Rightarrow> 'h) \<Rightarrow> 'a \<Rightarrow> 'h \<Rightarrow> 'd lhash \<times> 'h" where
  "lh_doall_arg malloc lh func arg = lh_doall_internal malloc (\<lambda>d. func d arg) lh"

definition lh_strhash :: "byte list option \<Rightarrow> u32" where
  "lh_strhash c = (case c of None \<Rightarrow> 0 | Some s \<Rightarrow> OPENSSL_hash32 s (strlen s))"

section \<open>The invariant\<close>

definition lh_items :: "'d lhash \<Rightarrow> 'd list" where
  "lh_items lh = map item_data (concat (buckets lh))"

text \<open>The functions a table is created with: equal elements have equal hashes.\<close>

definition keys_ok :: "('d \<Rightarrow> u32) \<Rightarrow> ('d \<Rightarrow> 'd \<Rightarrow> int) \<Rightarrow> bool" where
  "keys_ok hash cmp \<longleftrightarrow> (\<forall>a. cmp a a = 0) \<and> (\<forall>a b. cmp a b = 0 \<longrightarrow> cmp b a = 0) \<and>
     (\<forall>a b c. cmp a b = 0 \<longrightarrow> cmp b c = 0 \<longrightarrow> cmp a c = 0) \<and> (\<forall>a b. cmp a b = 0 \<longrightarrow> hash a = hash b)"

text \<open>The chains of a table with \<open>n\<close> buckets: every item is where its hash says.\<close>

definition chained :: "('d \<Rightarrow> u32) \<Rightarrow> nat \<Rightarrow> 'd LHASH_ITEM list list \<Rightarrow> bool" where
  "chained hash n bs \<longleftrightarrow> length bs = n \<and>
     (\<forall>b < n. \<forall>it \<in> set (bs ! b). item_hash it = hash (item_data it) \<and> unat (item_hash it) mod n = b)"

lemma chainedD:
  assumes "chained hash n bs"
  shows "length bs = n" "b < n \<Longrightarrow> it \<in> set (bs ! b) \<Longrightarrow> item_hash it = hash (item_data it)"
    "b < n \<Longrightarrow> it \<in> set (bs ! b) \<Longrightarrow> unat (item_hash it) mod n = b"
  using assms unfolding chained_def by blast+

lemma chained_update:
  assumes c: "chained hash n bs"
    and new: "\<And>it. it \<in> set c \<Longrightarrow> item_hash it = hash (item_data it) \<and> unat (item_hash it) mod n = b"
  shows "chained hash n (bs[b := c])"
  unfolding chained_def
proof (intro conjI allI impI ballI)
  fix a it assume a: "a < n" and it: "it \<in> set (bs[b := c] ! a)"
  show "item_hash it = hash (item_data it)" "unat (item_hash it) mod n = a"
    using chainedD [OF c] new [of it] a it by (cases "a = b"; simp)+
qed (simp add: chainedD(1) [OF c])

text \<open>The chains hold every item under its hash, no two elements are equal, and the counts are right.\<close>

definition lh_ok :: "'d lhash \<Rightarrow> bool" where
  "lh_ok lh \<longleftrightarrow> keys_ok (lh_hash lh) (lh_comp lh) \<and>
     chained (lh_hash lh) (num_buckets lh) (buckets lh) \<and> kMinNumBuckets \<le> num_buckets lh \<and> 8 * num_buckets lh < 2 ^ 63 \<and>
     num_items lh = length (lh_items lh) \<and>
     distinct (lh_items lh) \<and>
     (\<forall>x \<in> set (lh_items lh). \<forall>y \<in> set (lh_items lh). lh_comp lh x y = 0 \<longrightarrow> x = y)"

text \<open>The dictionary a table stands for: the element equal to a key.\<close>

definition lh_view :: "'d lhash \<Rightarrow> 'd \<Rightarrow> 'd option" where
  "lh_view lh k = find (\<lambda>d. lh_comp lh d k = 0) (lh_items lh)"

lemma keys_okD:
  assumes "keys_ok hash cmp"
  shows "cmp a a = 0" "cmp a b = 0 \<Longrightarrow> cmp b a = 0" "cmp a b = 0 \<Longrightarrow> cmp b c = 0 \<Longrightarrow> cmp a c = 0"
    "cmp a b = 0 \<Longrightarrow> hash a = hash b"
  using assms unfolding keys_ok_def by blast+

lemma view_iff:
  assumes "lh_ok lh"
  shows "lh_view lh k = Some d \<longleftrightarrow> d \<in> set (lh_items lh) \<and> lh_comp lh d k = 0"
proof
  assume "lh_view lh k = Some d"
  then show "d \<in> set (lh_items lh) \<and> lh_comp lh d k = 0"
    by (auto simp: lh_view_def find_Some_iff)
next
  assume d: "d \<in> set (lh_items lh) \<and> lh_comp lh d k = 0"
  have K: "keys_ok (lh_hash lh) (lh_comp lh)" using assms by (simp add: lh_ok_def)
  obtain e where e: "lh_view lh k = Some e"
    using d by (cases "lh_view lh k") (auto simp: lh_view_def find_None_iff)
  then have "e \<in> set (lh_items lh)" "lh_comp lh e k = 0" by (auto simp: lh_view_def find_Some_iff)
  moreover have "lh_comp lh d e = 0" using keys_okD(2,3) [OF K] d \<open>lh_comp lh e k = 0\<close> by blast
  ultimately have "d = e" using assms d by (auto simp: lh_ok_def)
  then show "lh_view lh k = Some d" using e by simp
qed

lemma view_same:
  assumes "lh_ok a" "lh_ok b" "lh_comp a = lh_comp b" "set (lh_items a) = set (lh_items b)"
  shows "lh_view a = lh_view b"
proof
  fix k show "lh_view a k = lh_view b k"
    using view_iff [OF assms(1), of k] view_iff [OF assms(2), of k] assms(3,4)
    by (metis option.exhaust)
qed

lemma chain_pos_le: "chain_pos cmp k c \<le> length c"
  by (induction c) simp_all

lemma chain_pos_hit: "chain_pos cmp k c < length c \<Longrightarrow> cmp (item_data (c ! chain_pos cmp k c)) k = 0"
  by (induction c) (auto split: if_splits)

lemma chain_pos_miss: "chain_pos cmp k c = length c \<longleftrightarrow> (\<forall>it \<in> set c. cmp (item_data it) k \<noteq> 0)"
  by (induction c) auto

text \<open>The chain a key hashes to holds the equal element, if there is one.\<close>

lemma bucket_less: "lh_ok lh \<Longrightarrow> unat h mod num_buckets lh < length (buckets lh)"
  by (auto simp: lh_ok_def kMinNumBuckets_def chainedD(1) intro!: mod_less_divisor)

lemma item_in_bucket:
  assumes "lh_ok lh" and "d \<in> set (lh_items lh)" and "lh_comp lh d k = 0"
  shows "\<exists>it \<in> set (buckets lh ! (unat (lh_hash lh k) mod num_buckets lh)). item_data it = d"
proof -
  have K: "keys_ok (lh_hash lh) (lh_comp lh)" using assms by (simp add: lh_ok_def)
  have C: "chained (lh_hash lh) (num_buckets lh) (buckets lh)" using assms by (simp add: lh_ok_def)
  obtain c it where "c \<in> set (buckets lh)" "it \<in> set c" "item_data it = d"
    using assms(2) by (auto simp: lh_items_def)
  then obtain b where b: "b < num_buckets lh" "it \<in> set (buckets lh ! b)" "item_data it = d"
    unfolding in_set_conv_nth [of c] chainedD(1) [OF C] by blast
  then have "unat (lh_hash lh d) mod num_buckets lh = b" using chainedD(2,3) [OF C b(1,2)] by simp
  moreover have "lh_hash lh d = lh_hash lh k" using keys_okD(4) [OF K assms(3)] .
  ultimately show ?thesis using b by auto
qed

lemma in_items: "b < length (buckets lh) \<Longrightarrow> it \<in> set (buckets lh ! b) \<Longrightarrow> item_data it \<in> set (lh_items lh)"
  unfolding lh_items_def set_map set_concat using nth_mem [of b "buckets lh"] by blast

lemma next_ptr_view:
  assumes ok: "lh_ok lh" and g: "get_next_ptr_and_hash lh k = (h, b, i)"
  shows "h = lh_hash lh k" "b = unat h mod num_buckets lh" "b < length (buckets lh)" "i \<le> length (buckets lh ! b)"
    "lh_view lh k = (if i = length (buckets lh ! b) then None else Some (item_data (buckets lh ! b ! i)))"
proof -
  show h: "h = lh_hash lh k" and b: "b = unat h mod num_buckets lh" and "b < length (buckets lh)"
    using g bucket_less [OF ok] by (auto simp: get_next_ptr_and_hash_def Let_def)
  have i: "i = chain_pos (lh_comp lh) k (buckets lh ! b)" using g by (auto simp: get_next_ptr_and_hash_def Let_def)
  then show "i \<le> length (buckets lh ! b)" by (simp add: chain_pos_le)
  show "lh_view lh k = (if i = length (buckets lh ! b) then None else Some (item_data (buckets lh ! b ! i)))"
  proof (cases "i = length (buckets lh ! b)")
    case True
    have "\<nexists>d. d \<in> set (lh_items lh) \<and> lh_comp lh d k = 0"
    proof
      assume "\<exists>d. d \<in> set (lh_items lh) \<and> lh_comp lh d k = 0"
      then obtain d where "d \<in> set (lh_items lh)" "lh_comp lh d k = 0" by blast
      from item_in_bucket [OF ok this] this(2) obtain it where "it \<in> set (buckets lh ! b)" "lh_comp lh (item_data it) k = 0"
        by (auto simp: b h)
      then show False using True i chain_pos_miss [of "lh_comp lh" k "buckets lh ! b"] by auto
    qed
    then have "lh_view lh k = None" using view_iff [OF ok, of k] by (cases "lh_view lh k") auto
    then show ?thesis using True by simp
  next
    case False
    then have l: "i < length (buckets lh ! b)" using \<open>i \<le> length (buckets lh ! b)\<close> by simp
    have "item_data (buckets lh ! b ! i) \<in> set (lh_items lh)"
      using in_items [OF \<open>b < length (buckets lh)\<close> nth_mem [OF l]] .
    moreover have "lh_comp lh (item_data (buckets lh ! b ! i)) k = 0"
      using chain_pos_hit [of "lh_comp lh" k "buckets lh ! b"] l by (simp add: i)
    ultimately show ?thesis using view_iff [OF ok] False by simp
  qed
qed

lemma retrieve_view: "lh_ok lh \<Longrightarrow> lh_retrieve lh k = lh_view lh k"
  using next_ptr_view [of lh k] by (auto simp: lh_retrieve_def split: prod.split)

lemma new_ok:
  assumes "lh_new malloc hash cmp = Some lh" and "keys_ok hash cmp"
  shows "lh_ok lh" "lh_view lh = (\<lambda>_. None)" "lh_comp lh = cmp" "num_items lh = 0"
  using assms by (auto simp: lh_new_def lh_ok_def lh_items_def lh_view_def kMinNumBuckets_def chained_def split: option.splits)

section \<open>Moving items between chains\<close>

lemma mset_concat_update:
  "b < length bs \<Longrightarrow> mset (concat (bs[b := c])) + mset (bs ! b) = mset (concat bs) + mset c"
proof (induction bs arbitrary: b)
  case (Cons x bs)
  then show ?case by (cases b) (simp_all add: add.assoc add.left_commute)
qed simp

lemma mset_items_update:
  "b < length (buckets lh) \<Longrightarrow>
   mset (lh_items (lh\<lparr>buckets := (buckets lh)[b := c]\<rparr>)) + mset (map item_data (buckets lh ! b)) =
   mset (lh_items lh) + mset (map item_data c)"
  using mset_concat_update [of b "map (map item_data) (buckets lh)" "map item_data c"]
  by (simp add: lh_items_def map_concat map_update del: mset_map)

lemma rebucket_chain:
  assumes "chained hash n nb" and "0 < n" and "\<forall>it \<in> set c. item_hash it = hash (item_data it)"
  defines "f \<equiv> \<lambda>cur nb :: 'd LHASH_ITEM list list. let b = unat (item_hash cur) mod n in nb[b := cur # nb ! b]"
  shows "chained hash n (fold f c nb) \<and> mset (concat (fold f c nb)) = mset c + mset (concat nb)"
  using assms(1,3)
proof (induction c arbitrary: nb)
  case (Cons it c)
  define b where "b = unat (item_hash it) mod n"
  have bn: "b < n" using assms(2) by (simp add: b_def)
  have b: "b < length nb" "\<forall>x \<in> set (nb ! b). item_hash x = hash (item_data x) \<and> unat (item_hash x) mod n = b"
    using bn chainedD(1) [OF Cons.prems(1)] chainedD(2,3) [OF Cons.prems(1) bn] by auto
  have fit: "f it nb = nb[b := it # nb ! b]" by (simp add: f_def b_def Let_def)
  have "chained hash n (nb[b := it # nb ! b])"
  proof (rule chained_update [OF Cons.prems(1)])
    fix x assume "x \<in> set (it # nb ! b)"
    then consider "x = it" | "x \<in> set (nb ! b)" by auto
    then show "item_hash x = hash (item_data x) \<and> unat (item_hash x) mod n = b"
    proof cases
      case 1
      then show ?thesis using Cons.prems(2) by (simp add: b_def)
    qed (use b(2) in blast)
  qed
  moreover have "mset (concat (nb[b := it # nb ! b])) = add_mset it (mset (concat nb))"
    using mset_concat_update [OF b(1), of "it # nb ! b"] by simp
  ultimately show ?case using Cons.IH [of "nb[b := it # nb ! b]"] Cons.prems(2) fit by simp
qed simp

lemma rebucket_all:
  assumes "chained hash n nb" and "0 < n" and "\<forall>it \<in> set (concat bs). item_hash it = hash (item_data it)"
  defines "f \<equiv> \<lambda>cur nb :: 'd LHASH_ITEM list list. let b = unat (item_hash cur) mod n in nb[b := cur # nb ! b]"
  shows "chained hash n (fold (fold f) bs nb) \<and> mset (concat (fold (fold f) bs nb)) = mset (concat bs) + mset (concat nb)"
  using assms(1,3)
proof (induction bs arbitrary: nb)
  case (Cons c bs)
  from rebucket_chain [OF Cons.prems(1) assms(2), of c] Cons.prems(2)
  have "chained hash n (fold f c nb)" "mset (concat (fold f c nb)) = mset c + mset (concat nb)"
    unfolding f_def by simp_all
  with Cons.IH [of "fold f c nb"] Cons.prems(2) show ?case by (simp add: ac_simps)
qed simp

text \<open>Resizing keeps the items, whether or not memory is found.\<close>

definition same_table :: "'d lhash \<Rightarrow> 'd lhash \<Rightarrow> bool" where
  "same_table lh lh' \<longleftrightarrow> mset (lh_items lh') = mset (lh_items lh) \<and> lh_comp lh' = lh_comp lh \<and> lh_hash lh' = lh_hash lh \<and>
     num_items lh' = num_items lh \<and> callback_depth lh' = callback_depth lh"

lemma same_table_refl [simp]: "same_table lh lh"
  by (simp add: same_table_def)

lemma rebucket_ok:
  assumes a: "allocator malloc" and ok: "lh_ok lh" and n: "kMinNumBuckets \<le> n" "8 * n + 8 < 2 ^ 64"
  shows "lh_ok (lh_rebucket malloc lh n) \<and> same_table lh (lh_rebucket malloc lh n)"
proof (cases "OPENSSL_malloc malloc (8 * n)")
  case None
  then show ?thesis using n ok by (simp add: lh_rebucket_def Let_def)
next
  case (Some blk)
  define nb where "nb = fold (fold (\<lambda>cur nb. let b = unat (item_hash cur) mod n in nb[b := cur # nb ! b]))
    (buckets lh) (replicate n [])"
  have re: "lh_rebucket malloc lh n = lh\<lparr>num_buckets := n, buckets := nb\<rparr>"
    using Some n by (simp add: lh_rebucket_def Let_def nb_def)
  have C: "chained (lh_hash lh) (num_buckets lh) (buckets lh)" using ok by (simp add: lh_ok_def)
  have h: "\<forall>it \<in> set (concat (buckets lh)). item_hash it = lh_hash lh (item_data it)"
  proof
    fix it assume "it \<in> set (concat (buckets lh))"
    then obtain c where "c \<in> set (buckets lh)" "it \<in> set c" by auto
    then obtain b where "b < num_buckets lh" "it \<in> set (buckets lh ! b)"
      unfolding in_set_conv_nth [of c] chainedD(1) [OF C] by blast
    then show "item_hash it = lh_hash lh (item_data it)" by (rule chainedD(2) [OF C])
  qed
  have "chained (lh_hash lh) n (replicate n [])" by (simp add: chained_def)
  moreover have "0 < n" using n by (simp add: kMinNumBuckets_def)
  ultimately have r: "chained (lh_hash lh) n nb" "mset (concat nb) = mset (concat (buckets lh))"
    using rebucket_all [of "lh_hash lh" n "replicate n []" "buckets lh"] h unfolding nb_def by simp_all
  have m: "mset (lh_items (lh\<lparr>num_buckets := n, buckets := nb\<rparr>)) = mset (lh_items lh)"
    using r(2) by (simp add: lh_items_def)
  have "8 * n < 2 ^ 63" using malloc_block(3) [OF a n(2) Some] by simp
  moreover have "set (lh_items (lh\<lparr>num_buckets := n, buckets := nb\<rparr>)) = set (lh_items lh)" "length (lh_items (lh\<lparr>num_buckets := n, buckets := nb\<rparr>)) = length (lh_items lh)"
    "distinct (lh_items (lh\<lparr>num_buckets := n, buckets := nb\<rparr>)) = distinct (lh_items lh)"
    using mset_eq_setD [OF m] mset_eq_length [OF m] mset_eq_imp_distinct_iff [OF m] by simp_all
  ultimately show ?thesis using ok n(1) r(1) m by (simp add: re lh_ok_def same_table_def)
qed

lemma maybe_resize_ok:
  assumes a: "allocator malloc" and ok: "lh_ok lh"
  shows "lh_ok (lh_maybe_resize malloc lh)" "same_table lh (lh_maybe_resize malloc lh)"
proof -
  let ?n = "num_buckets lh"
  have n: "kMinNumBuckets \<le> ?n" "8 * ?n < 2 ^ 63" using ok by (simp_all add: lh_ok_def)
  have up: "kMinNumBuckets \<le> ?n * 2" "8 * (?n * 2) + 8 < 2 ^ 64" "size_wrap (?n * 2) = ?n * 2" using n by simp_all
  let ?d = "if ?n div 2 < kMinNumBuckets then kMinNumBuckets else ?n div 2"
  have down: "kMinNumBuckets \<le> ?d" "8 * ?d + 8 < 2 ^ 64" using n by (auto simp: kMinNumBuckets_def)
  have "lh_ok (lh_maybe_resize malloc lh) \<and> same_table lh (lh_maybe_resize malloc lh)"
    using rebucket_ok [OF a ok up(1,2)] rebucket_ok [OF a ok down] ok
    unfolding lh_maybe_resize_def Let_def up(3) by (simp split: if_split)
  then show "lh_ok (lh_maybe_resize malloc lh)" "same_table lh (lh_maybe_resize malloc lh)" by simp_all
qed

section \<open>The operations as a dictionary\<close>

text \<open>Elements that may be together in a table, as a multiset.\<close>

definition apart :: "('d \<Rightarrow> 'd \<Rightarrow> int) \<Rightarrow> 'd multiset \<Rightarrow> bool" where
  "apart cmp M \<longleftrightarrow> (\<forall>x. count M x \<le> 1) \<and> (\<forall>x \<in># M. \<forall>y \<in># M. cmp x y = 0 \<longrightarrow> x = y)"

lemma lh_ok_apart:
  "lh_ok lh \<longleftrightarrow> keys_ok (lh_hash lh) (lh_comp lh) \<and> chained (lh_hash lh) (num_buckets lh) (buckets lh) \<and>
     kMinNumBuckets \<le> num_buckets lh \<and> 8 * num_buckets lh < 2 ^ 63 \<and> num_items lh = size (mset (lh_items lh)) \<and>
     apart (lh_comp lh) (mset (lh_items lh))"
proof -
  have "distinct xs \<longleftrightarrow> (\<forall>x. count (mset xs) x \<le> 1)" for xs :: "'a list"
    unfolding distinct_count_atmost_1 by (metis count_eq_zero_iff count_greater_zero_iff le_antisym less_one linorder_not_le
      nat_le_linear not_one_le_zero set_mset_mset)
  then show ?thesis by (auto simp: lh_ok_def apart_def)
qed

lemma apart_add_iff:
  "apart cmp (add_mset d R) \<longleftrightarrow> apart cmp R \<and> d \<notin># R \<and> (\<forall>x \<in># R. cmp d x \<noteq> 0 \<and> cmp x d \<noteq> 0)"
proof -
  have "(\<forall>x. count (add_mset d R) x \<le> 1) \<longleftrightarrow> (\<forall>x. count R x \<le> 1) \<and> d \<notin># R"
    by (auto simp: not_in_iff intro: le_SucI split: if_splits)
  then show ?thesis unfolding apart_def by auto
qed

lemma apart_replace:
  assumes K: "keys_ok hash cmp" and a: "apart cmp (add_mset old R)" and s: "cmp old d = 0"
  shows "apart cmp (add_mset d R)"
proof -
  have far: "x \<in># R \<Longrightarrow> cmp x old \<noteq> 0" for x using a by (simp add: apart_add_iff)
  have "x \<in># R \<Longrightarrow> cmp x d \<noteq> 0" for x using far keys_okD(2,3) [OF K] s by blast
  moreover have "x \<in># R \<Longrightarrow> cmp d x \<noteq> 0" for x using calculation keys_okD(2) [OF K] by blast
  moreover have "d \<notin># R" using far keys_okD(2) [OF K s] by blast
  ultimately show ?thesis using a by (simp add: apart_add_iff)
qed

lemma apart_add:
  assumes K: "keys_ok hash cmp" and a: "apart cmp R" and far: "\<And>x. x \<in># R \<Longrightarrow> cmp x d \<noteq> 0"
  shows "apart cmp (add_mset d R)"
proof -
  have "x \<in># R \<Longrightarrow> cmp d x \<noteq> 0" for x using far keys_okD(2) [OF K] by blast
  moreover have "d \<notin># R" using far keys_okD(1) [OF K] by blast
  ultimately show ?thesis using a far by (simp add: apart_add_iff)
qed

lemma view_at:
  assumes "lh_ok lh" "lh_ok lh'" and "\<And>e. e \<in> set (lh_items lh') \<and> lh_comp lh' e k = 0 \<longleftrightarrow> e \<in> set (lh_items lh) \<and> lh_comp lh e k = 0"
  shows "lh_view lh' k = lh_view lh k"
  using view_iff [OF assms(1), of k] view_iff [OF assms(2), of k] assms(3) by (metis option.exhaust)

lemma same_table_view:
  assumes "lh_ok lh" "lh_ok lh'" "same_table lh lh'"
  shows "lh_view lh' = lh_view lh"
  using view_same [OF assms(2,1)] assms(3) mset_eq_setD unfolding same_table_def by metis

lemma insert_present:
  assumes ok: "lh_ok lh" and g: "get_next_ptr_and_hash lh d = (h, b, i)" and i: "i \<noteq> length (buckets lh ! b)"
  defines "lh' \<equiv> lh\<lparr>buckets := (buckets lh)[b := (buckets lh ! b)[i := (buckets lh ! b ! i)\<lparr>item_data := d\<rparr>]]\<rparr>"
  shows "lh_ok lh'" "lh_view lh' = (\<lambda>k. if lh_comp lh d k = 0 then Some d else lh_view lh k)"
proof -
  note n = next_ptr_view [OF ok g]
  have K: "keys_ok (lh_hash lh) (lh_comp lh)" and C: "chained (lh_hash lh) (num_buckets lh) (buckets lh)"
    using ok by (simp_all add: lh_ok_def)
  let ?c = "buckets lh ! b" and ?old = "item_data (buckets lh ! b ! i)"
  have il: "i < length ?c" using i n(4) by simp
  have o: "?old \<in> set (lh_items lh)" "lh_comp lh ?old d = 0" using n(5) i view_iff [OF ok] by simp_all
  have bn: "b < num_buckets lh" using n(3) chainedD(1) [OF C] by simp
  have bu: "buckets lh' = (buckets lh)[b := ?c[i := (?c ! i)\<lparr>item_data := d\<rparr>]]" by (simp add: lh'_def)
  have "chained (lh_hash lh) (num_buckets lh) (buckets lh')"
    unfolding bu
  proof (rule chained_update [OF C])
    fix it assume "it \<in> set (?c[i := (?c ! i)\<lparr>item_data := d\<rparr>])"
    then consider "it \<in> set ?c" | "it = (?c ! i)\<lparr>item_data := d\<rparr>" using set_update_subset_insert by fastforce
    then show "item_hash it = lh_hash lh (item_data it) \<and> unat (item_hash it) mod num_buckets lh = b"
    proof cases
      case 1
      then show ?thesis using chainedD(2,3) [OF C bn] by blast
    next
      case 2
      then show ?thesis using chainedD(2,3) [OF C bn nth_mem [OF il]] keys_okD(4) [OF K o(2)] by simp
    qed
  qed
  moreover obtain R where R: "mset (lh_items lh) = add_mset ?old R"
    using o(1) by (metis mset_add set_mset_mset)
  have m': "mset (lh_items lh') = add_mset d R"
  proof -
    have "mset (map item_data ?c) = add_mset ?old (mset (map item_data ?c) - {#?old#})" using il by simp
    moreover have "mset (map item_data (?c[i := (?c ! i)\<lparr>item_data := d\<rparr>])) = add_mset d (mset (map item_data ?c) - {#?old#})"
      using il by (simp add: map_update mset_update)
    ultimately have "add_mset ?old (mset (lh_items lh')) = add_mset d (add_mset ?old R)"
      using mset_items_update [OF n(3), of "?c[i := (?c ! i)\<lparr>item_data := d\<rparr>]"]
      by (metis (no_types, lifting) R add_right_cancel lh'_def union_mset_add_mset_left union_mset_add_mset_right)
    then show ?thesis by (simp add: add_mset_commute)
  qed
  moreover have "apart (lh_comp lh) (add_mset ?old R)" using ok R by (simp add: lh_ok_apart)
  then have "apart (lh_comp lh) (add_mset d R)" using apart_replace [OF K _ o(2)] by blast
  ultimately show ok': "lh_ok lh'" using ok R by (simp add: lh_ok_apart lh'_def)
  have cmp: "lh_comp lh' = lh_comp lh" by (simp add: lh'_def)
  have s: "set (lh_items lh') = insert d (set_mset R)" "set (lh_items lh) = insert ?old (set_mset R)"
    using arg_cong [OF m', of set_mset] arg_cong [OF R, of set_mset] by simp_all
  show "lh_view lh' = (\<lambda>k. if lh_comp lh d k = 0 then Some d else lh_view lh k)"
  proof
    fix k
    show "lh_view lh' k = (if lh_comp lh d k = 0 then Some d else lh_view lh k)"
    proof (cases "lh_comp lh d k = 0")
      case True
      then have "lh_view lh' k = Some d" using view_iff [OF ok'] cmp s(1) by simp
      then show ?thesis using True by simp
    next
      case False
      have "lh_comp lh ?old k \<noteq> 0" using False keys_okD(2,3) [OF K] o(2) by blast
      then have "lh_view lh' k = lh_view lh k" using False by (intro view_at [OF ok ok']) (auto simp: cmp s)
      then show ?thesis using False by simp
    qed
  qed
qed

lemma insert_absent:
  assumes ok: "lh_ok lh" and g: "get_next_ptr_and_hash lh d = (h, b, i)" and i: "i = length (buckets lh ! b)"
    and room: "num_items lh + 1 < 2 ^ 64"
  defines "lh' \<equiv> lh\<lparr>buckets := (buckets lh)[b := buckets lh ! b @ [\<lparr>item_data = d, item_hash = h\<rparr>]],
    num_items := size_wrap (num_items lh + 1)\<rparr>"
  shows "lh_ok lh'" "lh_view lh' = (\<lambda>k. if lh_comp lh d k = 0 then Some d else lh_view lh k)"
proof -
  note n = next_ptr_view [OF ok g]
  have K: "keys_ok (lh_hash lh) (lh_comp lh)" and C: "chained (lh_hash lh) (num_buckets lh) (buckets lh)"
    using ok by (simp_all add: lh_ok_def)
  let ?c = "buckets lh ! b"
  have bn: "b < num_buckets lh" using n(3) chainedD(1) [OF C] by simp
  have far: "x \<in> set (lh_items lh) \<Longrightarrow> lh_comp lh x d \<noteq> 0" for x using n(5) i view_iff [OF ok, of d x] by auto
  have bu: "buckets lh' = (buckets lh)[b := ?c @ [\<lparr>item_data = d, item_hash = h\<rparr>]]" by (simp add: lh'_def)
  have ch: "chained (lh_hash lh) (num_buckets lh) (buckets lh')"
    unfolding bu
  proof (rule chained_update [OF C])
    fix it assume "it \<in> set (?c @ [\<lparr>item_data = d, item_hash = h\<rparr>])"
    then consider "it \<in> set ?c" | "it = \<lparr>item_data = d, item_hash = h\<rparr>" by auto
    then show "item_hash it = lh_hash lh (item_data it) \<and> unat (item_hash it) mod num_buckets lh = b"
    proof cases
      case 1
      then show ?thesis using chainedD(2,3) [OF C bn] by blast
    qed (simp add: n(1,2))
  qed
  have m': "mset (lh_items lh') = add_mset d (mset (lh_items lh))"
    using mset_items_update [OF n(3), of "?c @ [\<lparr>item_data = d, item_hash = h\<rparr>]"] by (simp add: lh'_def lh_items_def)
  have "apart (lh_comp lh) (mset (lh_items lh))" using ok by (simp add: lh_ok_apart)
  then have "apart (lh_comp lh) (mset (lh_items lh'))" using apart_add [OF K, of "mset (lh_items lh)" d] far m' by simp
  then show ok': "lh_ok lh'" using ok ch m' room by (simp add: lh_ok_apart) (simp add: lh'_def)
  have cmp: "lh_comp lh' = lh_comp lh" by (simp add: lh'_def)
  have s: "set (lh_items lh') = insert d (set (lh_items lh))" using arg_cong [OF m', of set_mset] by simp
  show "lh_view lh' = (\<lambda>k. if lh_comp lh d k = 0 then Some d else lh_view lh k)"
  proof
    fix k
    show "lh_view lh' k = (if lh_comp lh d k = 0 then Some d else lh_view lh k)"
    proof (cases "lh_comp lh d k = 0")
      case True
      then have "lh_view lh' k = Some d" using view_iff [OF ok'] cmp s by simp
      then show ?thesis using True by simp
    next
      case False
      then have "lh_view lh' k = lh_view lh k" by (intro view_at [OF ok ok']) (auto simp: cmp s)
      then show ?thesis using False by simp
    qed
  qed
qed

lemma delete_present:
  assumes ok: "lh_ok lh" and g: "get_next_ptr_and_hash lh d = (h, b, i)" and i: "i \<noteq> length (buckets lh ! b)"
  defines "lh' \<equiv> lh\<lparr>buckets := (buckets lh)[b := take i (buckets lh ! b) @ drop (Suc i) (buckets lh ! b)],
    num_items := num_items lh - 1\<rparr>"
  shows "lh_ok lh'" "lh_view lh' = (\<lambda>k. if lh_comp lh d k = 0 then None else lh_view lh k)"
proof -
  note n = next_ptr_view [OF ok g]
  have K: "keys_ok (lh_hash lh) (lh_comp lh)" and C: "chained (lh_hash lh) (num_buckets lh) (buckets lh)"
    using ok by (simp_all add: lh_ok_def)
  let ?c = "buckets lh ! b" and ?old = "item_data (buckets lh ! b ! i)"
  have il: "i < length ?c" using i n(4) by simp
  have o: "?old \<in> set (lh_items lh)" "lh_comp lh ?old d = 0" using n(5) i view_iff [OF ok] by simp_all
  have bn: "b < num_buckets lh" using n(3) chainedD(1) [OF C] by simp
  have bu: "buckets lh' = (buckets lh)[b := take i ?c @ drop (Suc i) ?c]" by (simp add: lh'_def)
  have ch: "chained (lh_hash lh) (num_buckets lh) (buckets lh')"
    unfolding bu
  proof (rule chained_update [OF C])
    fix it assume "it \<in> set (take i ?c @ drop (Suc i) ?c)"
    then have "it \<in> set ?c" by (auto dest: in_set_takeD in_set_dropD)
    then show "item_hash it = lh_hash lh (item_data it) \<and> unat (item_hash it) mod num_buckets lh = b"
      using chainedD(2,3) [OF C bn] by blast
  qed
  have m: "mset (lh_items lh) = add_mset ?old (mset (lh_items lh'))"
  proof -
    have "?c = take i ?c @ ?c ! i # drop (Suc i) ?c" using il by (simp add: id_take_nth_drop)
    then have "mset (map item_data ?c) = mset (map item_data (take i ?c @ ?c ! i # drop (Suc i) ?c))" by simp
    then have "mset (map item_data ?c) = add_mset ?old (mset (map item_data (take i ?c @ drop (Suc i) ?c)))" by simp
    moreover have "mset (lh_items lh') + mset (map item_data ?c) =
        mset (lh_items lh) + mset (map item_data (take i ?c @ drop (Suc i) ?c))"
      using mset_items_update [OF n(3), of "take i ?c @ drop (Suc i) ?c"] by (simp add: lh'_def lh_items_def)
    ultimately have "add_mset ?old (mset (lh_items lh')) + mset (map item_data (take i ?c @ drop (Suc i) ?c)) =
        mset (lh_items lh) + mset (map item_data (take i ?c @ drop (Suc i) ?c))"
      by (simp only: union_mset_add_mset_left union_mset_add_mset_right)
    then show ?thesis by (simp only: add_right_cancel)
  qed
  have ap: "apart (lh_comp lh) (add_mset ?old (mset (lh_items lh')))" using ok m by (simp add: lh_ok_apart)
  have cnt: "num_items lh = Suc (size (mset (lh_items lh')))" using ok m by (simp add: lh_ok_apart)
  have cmp: "lh_comp lh' = lh_comp lh" "lh_hash lh' = lh_hash lh" "num_buckets lh' = num_buckets lh"
    "num_items lh' = num_items lh - 1" by (simp_all add: lh'_def)
  have b: "kMinNumBuckets \<le> num_buckets lh \<and> 8 * num_buckets lh < 2 ^ 63" using ok by (simp add: lh_ok_def)
  show ok': "lh_ok lh'" unfolding lh_ok_apart cmp cnt using K ch b ap by (simp add: apart_add_iff)
  have s: "set (lh_items lh) = insert ?old (set (lh_items lh'))" using arg_cong [OF m, of set_mset] by simp
  show "lh_view lh' = (\<lambda>k. if lh_comp lh d k = 0 then None else lh_view lh k)"
  proof
    fix k
    show "lh_view lh' k = (if lh_comp lh d k = 0 then None else lh_view lh k)"
    proof (cases "lh_comp lh d k = 0")
      case True
      have "e \<in> set (lh_items lh') \<Longrightarrow> lh_comp lh e k \<noteq> 0" for e
      proof
        assume e: "e \<in> set (lh_items lh')" "lh_comp lh e k = 0"
        then have "lh_comp lh e ?old = 0" using True o(2) keys_okD(2,3) [OF K] by blast
        with e(1) ap show False by (simp add: apart_add_iff)
      qed
      then have "lh_view lh' k = None" using view_iff [OF ok', of k] cmp by (cases "lh_view lh' k") auto
      then show ?thesis using True by simp
    next
      case False
      have "lh_comp lh ?old k \<noteq> 0" using False keys_okD(2,3) [OF K] o(2) by blast
      then have "lh_view lh' k = lh_view lh k" using False by (intro view_at [OF ok ok']) (auto simp: cmp s)
      then show ?thesis using False by simp
    qed
  qed
qed

lemma insert_law:
  assumes a: "allocator malloc" and ok: "lh_ok lh" and room: "num_items lh + 1 < 2 ^ 64"
    and r: "lh_insert malloc lh d = (r, old, lh')"
  shows "lh_ok lh'" "lh_comp lh' = lh_comp lh" "num_items lh' \<le> num_items lh + 1"
    "r \<Longrightarrow> old = lh_view lh d \<and> lh_view lh' = (\<lambda>k. if lh_comp lh d k = 0 then Some d else lh_view lh k)"
    "\<not> r \<Longrightarrow> old = None \<and> lh_view lh d = None \<and> lh' = lh \<and> malloc 32 = None"
proof -
  obtain h b i where g: "get_next_ptr_and_hash lh d = (h, b, i)" by (cases "get_next_ptr_and_hash lh d")
  note n = next_ptr_view [OF ok g]
  have "lh_ok lh' \<and> lh_comp lh' = lh_comp lh \<and> num_items lh' \<le> num_items lh + 1 \<and>
    (r \<longrightarrow> old = lh_view lh d \<and> lh_view lh' = (\<lambda>k. if lh_comp lh d k = 0 then Some d else lh_view lh k)) \<and>
    (\<not> r \<longrightarrow> old = None \<and> lh_view lh d = None \<and> lh' = lh \<and> malloc 32 = None)"
  proof (cases "i = length (buckets lh ! b)")
    case False
    then show ?thesis using r g insert_present [OF ok g False] n(5) by (auto simp: lh_insert_def Let_def)
  next
    case True
    show ?thesis
    proof (cases "OPENSSL_malloc malloc 24")
      case None
      then have "malloc 32 = None" by (simp add: OPENSSL_malloc_def OPENSSL_MALLOC_PREFIX_def Let_def split: option.splits)
      then show ?thesis using r g True None n(5) ok by (auto simp: lh_insert_def Let_def)
    next
      case (Some blk)
      let ?l = "lh\<lparr>buckets := (buckets lh)[b := buckets lh ! b @ [\<lparr>item_data = d, item_hash = h\<rparr>]],
        num_items := size_wrap (num_items lh + 1)\<rparr>"
      have e: "r" "old = None" "lh' = lh_maybe_resize malloc ?l"
        using r g True Some by (auto simp: lh_insert_def Let_def)
      note l = insert_absent [OF ok g True room]
      note m = maybe_resize_ok [OF a l(1)]
      have "lh_view lh' = lh_view ?l" unfolding e(3) by (rule same_table_view [OF l(1) m])
      moreover have "lh_comp lh' = lh_comp lh" "num_items lh' = num_items lh + 1"
        using m(2) room unfolding e(3) same_table_def by simp_all
      ultimately show ?thesis using e(1,2) n(5) True m(1) l(2) unfolding e(3) by simp
    qed
  qed
  then show "lh_ok lh'" "lh_comp lh' = lh_comp lh" "num_items lh' \<le> num_items lh + 1"
    "r \<Longrightarrow> old = lh_view lh d \<and> lh_view lh' = (\<lambda>k. if lh_comp lh d k = 0 then Some d else lh_view lh k)"
    "\<not> r \<Longrightarrow> old = None \<and> lh_view lh d = None \<and> lh' = lh \<and> malloc 32 = None" by auto
qed

lemma delete_law:
  assumes a: "allocator malloc" and ok: "lh_ok lh" and r: "lh_delete malloc lh d = (old, lh')"
  shows "lh_ok lh'" "lh_comp lh' = lh_comp lh" "num_items lh' \<le> num_items lh" "old = lh_view lh d"
    "lh_view lh' = (\<lambda>k. if lh_comp lh d k = 0 then None else lh_view lh k)"
proof -
  obtain h b i where g: "get_next_ptr_and_hash lh d = (h, b, i)" by (cases "get_next_ptr_and_hash lh d")
  note n = next_ptr_view [OF ok g]
  have K: "keys_ok (lh_hash lh) (lh_comp lh)" using ok by (simp add: lh_ok_def)
  have "lh_ok lh' \<and> lh_comp lh' = lh_comp lh \<and> num_items lh' \<le> num_items lh \<and> old = lh_view lh d \<and>
    lh_view lh' = (\<lambda>k. if lh_comp lh d k = 0 then None else lh_view lh k)"
  proof (cases "i = length (buckets lh ! b)")
    case True
    then have e: "old = None" "lh' = lh" "lh_view lh d = None" using r g n(5) by (auto simp: lh_delete_def Let_def)
    have "lh_view lh k = None" if k: "lh_comp lh d k = 0" for k
    proof -
      have "e \<in> set (lh_items lh) \<Longrightarrow> lh_comp lh e k \<noteq> 0" for e
        using k e(3) view_iff [OF ok, of d e] keys_okD(2,3) [OF K] by (metis option.distinct(1))
      then show ?thesis using view_iff [OF ok, of k] by (cases "lh_view lh k") auto
    qed
    then show ?thesis using e ok by (auto simp: fun_eq_iff)
  next
    case False
    let ?l = "lh\<lparr>buckets := (buckets lh)[b := take i (buckets lh ! b) @ drop (Suc i) (buckets lh ! b)], num_items := num_items lh - 1\<rparr>"
    have e: "old = lh_view lh d" "lh' = lh_maybe_resize malloc ?l" using r g False n(5) by (auto simp: lh_delete_def Let_def)
    note l = delete_present [OF ok g False]
    note m = maybe_resize_ok [OF a l(1)]
    have "lh_view lh' = lh_view ?l" unfolding e(2) by (rule same_table_view [OF l(1) m])
    moreover have "lh_comp lh' = lh_comp lh" "num_items lh' \<le> num_items lh"
      using m(2) unfolding e(2) same_table_def by simp_all
    ultimately show ?thesis using e(1) m(1) l(2) unfolding e(2) by simp
  qed
  then show "lh_ok lh'" "lh_comp lh' = lh_comp lh" "num_items lh' \<le> num_items lh" "old = lh_view lh d"
    "lh_view lh' = (\<lambda>k. if lh_comp lh d k = 0 then None else lh_view lh k)" by simp_all
qed

section \<open>The contract\<close>

datatype 'd dict_op = Put 'd | Del 'd | Get 'd

text \<open>What a finite map up to \<open>same\<close> answers; \<open>b\<close> says whether the operation succeeded.\<close>

fun map_step :: "('d \<Rightarrow> 'd \<Rightarrow> bool) \<Rightarrow> 'd dict_op \<Rightarrow> bool \<Rightarrow> ('d \<Rightarrow> 'd option) \<Rightarrow> 'd option \<times> ('d \<Rightarrow> 'd option)" where
  "map_step same (Put d) b m = (if b then (m d, \<lambda>k. if same d k then Some d else m k) else (None, m))"
| "map_step same (Del d) b m = (m d, \<lambda>k. if same d k then None else m k)"
| "map_step same (Get d) b m = (m d, m)"

fun map_run :: "('d \<Rightarrow> 'd \<Rightarrow> bool) \<Rightarrow> 'd dict_op list \<Rightarrow> bool list \<Rightarrow> ('d \<Rightarrow> 'd option) \<Rightarrow> 'd option list \<times> ('d \<Rightarrow> 'd option)" where
  "map_run same (op # ops) (b # bs) m =
     (case map_step same op b m of (x, m) \<Rightarrow> case map_run same ops bs m of (xs, m) \<Rightarrow> (x # xs, m))"
| "map_run same _ _ m = ([], m)"

fun dict_step ::
  "('t \<Rightarrow> 'd \<Rightarrow> 'd option) \<Rightarrow> ('t \<Rightarrow> 'd \<Rightarrow> bool \<times> 'd option \<times> 't) \<Rightarrow> ('t \<Rightarrow> 'd \<Rightarrow> 'd option \<times> 't) \<Rightarrow>
   'd dict_op \<Rightarrow> 't \<Rightarrow> bool \<times> 'd option \<times> 't" where
  "dict_step get put del (Put d) t = put t d"
| "dict_step get put del (Del d) t = (True, del t d)"
| "dict_step get put del (Get d) t = (True, get t d, t)"

fun dict_run ::
  "('t \<Rightarrow> 'd \<Rightarrow> 'd option) \<Rightarrow> ('t \<Rightarrow> 'd \<Rightarrow> bool \<times> 'd option \<times> 't) \<Rightarrow> ('t \<Rightarrow> 'd \<Rightarrow> 'd option \<times> 't) \<Rightarrow>
   'd dict_op list \<Rightarrow> 't \<Rightarrow> bool list \<times> 'd option list \<times> 't" where
  "dict_run get put del [] t = ([], [], t)"
| "dict_run get put del (op # ops) t =
     (case dict_step get put del op t of (b, x, t) \<Rightarrow>
        case dict_run get put del ops t of (bs, xs, t) \<Rightarrow> (b # bs, x # xs, t))"

text \<open>
  The promise of a dictionary whose operations need memory: \<open>env\<close> describes the allocator, \<open>count\<close> is
  the number of elements, which must stay a \<open>size_t\<close>. Only adding a new element can fail, and then it
  changes nothing.
\<close>

locale dictionary =
  fixes env :: "'m \<Rightarrow> bool"
    and well :: "'t \<Rightarrow> bool"
    and count :: "'t \<Rightarrow> nat"
    and same :: "'t \<Rightarrow> 'd \<Rightarrow> 'd \<Rightarrow> bool"
    and view :: "'t \<Rightarrow> 'd \<Rightarrow> 'd option"
    and get :: "'t \<Rightarrow> 'd \<Rightarrow> 'd option"
    and put :: "'m \<Rightarrow> 't \<Rightarrow> 'd \<Rightarrow> bool \<times> 'd option \<times> 't"
    and del :: "'m \<Rightarrow> 't \<Rightarrow> 'd \<Rightarrow> 'd option \<times> 't"
  assumes get_view: "well t \<Longrightarrow> get t d = view t d"
    and put_well: "env e \<Longrightarrow> well t \<Longrightarrow> count t + 1 < 2 ^ 64 \<Longrightarrow> put e t d = (b, x, t') \<Longrightarrow>
      well t' \<and> same t' = same t \<and> count t' \<le> count t + 1"
    and put_view: "env e \<Longrightarrow> well t \<Longrightarrow> count t + 1 < 2 ^ 64 \<Longrightarrow> put e t d = (b, x, t') \<Longrightarrow>
      if b then x = view t d \<and> view t' = (\<lambda>k. if same t d k then Some d else view t k)
      else x = None \<and> view t d = None \<and> t' = t"
    and del_well: "env e \<Longrightarrow> well t \<Longrightarrow> del e t d = (x, t') \<Longrightarrow> well t' \<and> same t' = same t \<and> count t' \<le> count t"
    and del_view: "env e \<Longrightarrow> well t \<Longrightarrow> del e t d = (x, t') \<Longrightarrow>
      x = view t d \<and> view t' = (\<lambda>k. if same t d k then None else view t k)"
begin

lemma step_refines:
  assumes e: "env e" and w: "well t" "count t + 1 < 2 ^ 64" and s: "dict_step get (put e) (del e) op t = (b, x, t')"
  shows "well t' \<and> same t' = same t \<and> count t' \<le> count t + 1 \<and> map_step (same t) op b (view t) = (x, view t')"
proof (cases op)
  case (Put d)
  then have p: "put e t d = (b, x, t')" using s by simp
  from put_well [OF e w p] put_view [OF e w p] Put show ?thesis by (cases b) auto
next
  case (Del d)
  then have p: "del e t d = (x, t')" and "b" using s by auto
  from del_well [OF e w(1) p] del_view [OF e w(1) p] Del show ?thesis by auto
next
  case (Get d)
  then show ?thesis using s w get_view [OF w(1)] by auto
qed

lemma run_refines:
  assumes "env e" and "well t" and "count t + length ops < 2 ^ 64" and "dict_run get (put e) (del e) ops t = (bs, xs, t')"
  shows "well t' \<and> same t' = same t \<and> map_run (same t) ops bs (view t) = (xs, view t')"
  using assms(2-4)
proof (induction ops arbitrary: t bs xs t')
  case (Cons op ops)
  obtain b x t1 where s: "dict_step get (put e) (del e) op t = (b, x, t1)" by (cases "dict_step get (put e) (del e) op t")
  obtain bs1 xs1 t2 where r: "dict_run get (put e) (del e) ops t1 = (bs1, xs1, t2)" by (cases "dict_run get (put e) (del e) ops t1")
  have "count t + 1 < 2 ^ 64 \<or> ops = []" using Cons.prems(2) by (cases ops) auto
  have c: "count t + 1 < 2 ^ 64" using Cons.prems(2) by simp
  note 1 = step_refines [OF assms(1) Cons.prems(1) c s]
  have "well t2 \<and> same t2 = same t1 \<and> map_run (same t1) ops bs1 (view t1) = (xs1, view t2)"
    using Cons.IH [OF _ _ r] 1 Cons.prems(2) by simp
  then show ?case using 1 s r Cons.prems(3) by auto
qed auto

end

interpretation lh_dict: dictionary allocator lh_ok num_items "\<lambda>lh a b. lh_comp lh a b = 0" lh_view lh_retrieve lh_insert lh_delete
proof
  fix malloc :: "nat \<Rightarrow> byte list option" and lh lh' :: "'a lhash" and d b x
  show "lh_ok lh \<Longrightarrow> lh_retrieve lh d = lh_view lh d" by (rule retrieve_view)
  assume a: "allocator malloc" "lh_ok lh"
  show "lh_ok lh' \<and> (\<lambda>a b. lh_comp lh' a b = 0) = (\<lambda>a b. lh_comp lh a b = 0) \<and> num_items lh' \<le> num_items lh + 1"
    "if b then x = lh_view lh d \<and> lh_view lh' = (\<lambda>k. if lh_comp lh d k = 0 then Some d else lh_view lh k)
      else x = None \<and> lh_view lh d = None \<and> lh' = lh"
    if "num_items lh + 1 < 2 ^ 64" "lh_insert malloc lh d = (b, x, lh')"
    using insert_law [OF a that] by auto
  show "lh_ok lh' \<and> (\<lambda>a b. lh_comp lh' a b = 0) = (\<lambda>a b. lh_comp lh a b = 0) \<and> num_items lh' \<le> num_items lh"
    "x = lh_view lh d \<and> lh_view lh' = (\<lambda>k. if lh_comp lh d k = 0 then None else lh_view lh k)"
    if "lh_delete malloc lh d = (x, lh')"
    using delete_law [OF a that] by auto
qed

lemma dict_run_length: "dict_run get put del ops t = (bs, xs, t') \<Longrightarrow> length bs = length ops"
  by (induction ops arbitrary: t bs xs) (auto split: prod.splits)

text \<open>With memory for an item every operation succeeds.\<close>

lemma run_succeeds:
  assumes a: "allocator malloc" and m: "malloc 32 \<noteq> None" and ok: "lh_ok t" and n: "num_items t + length ops < 2 ^ 64"
    and r: "dict_run lh_retrieve (lh_insert malloc) (lh_delete malloc) ops t = (bs, xs, lh)"
  shows "list_all (\<lambda>b. b) bs"
  using ok n r
proof (induction ops arbitrary: t bs xs)
  case (Cons op ops)
  obtain b x t1 where s: "dict_step lh_retrieve (lh_insert malloc) (lh_delete malloc) op t = (b, x, t1)"
    by (cases "dict_step lh_retrieve (lh_insert malloc) (lh_delete malloc) op t")
  have c: "num_items t + 1 < 2 ^ 64" using Cons.prems(2) by simp
  note 1 = lh_dict.step_refines [OF a Cons.prems(1) c s]
  have b
  proof (cases op)
    case (Put d)
    then have "lh_insert malloc t d = (b, x, t1)" using s by simp
    from insert_law(5) [OF a Cons.prems(1) c this] m show ?thesis by blast
  qed (use s in auto)
  moreover obtain bs1 xs1 where r1: "dict_run lh_retrieve (lh_insert malloc) (lh_delete malloc) ops t1 = (bs1, xs1, lh)"
    "bs = b # bs1"
    using Cons.prems(3) s by (auto split: prod.splits)
  moreover have "list_all (\<lambda>b. b) bs1" using Cons.IH [OF _ _ r1(1)] 1 Cons.prems(2) by simp
  ultimately show ?case by simp
qed simp

section \<open>Properties\<close>

text \<open>C15: A fresh hash table answers every sequence of insertions, deletions and lookups as a finite map up
  to its comparison function does, through all resizings; an insertion fails only when memory for the
  item is refused.\<close>

theorem lhash_dictionary:
  assumes "allocator malloc" and "keys_ok hash cmp" and "lh_new malloc hash cmp = Some lh0" and "length ops < 2 ^ 64"
    and "dict_run lh_retrieve (lh_insert malloc) (lh_delete malloc) ops lh0 = (bs, xs, lh)"
  shows "map_run (\<lambda>a b. cmp a b = 0) ops bs (\<lambda>_. None) = (xs, lh_view lh) \<and> lh_ok lh \<and>
    lh_num_items lh = length (lh_items lh) \<and> length bs = length ops \<and> (malloc 32 \<noteq> None \<longrightarrow> list_all (\<lambda>b. b) bs)"
proof -
  note new = new_ok [OF assms(3,2)]
  from lh_dict.run_refines [OF assms(1) new(1) _ assms(5)] assms(4) new
  have r: "lh_ok lh" "map_run (\<lambda>a b. cmp a b = 0) ops bs (\<lambda>_. None) = (xs, lh_view lh)" by simp_all
  moreover have "lh_num_items lh = length (lh_items lh)" using r(1) by (simp add: lh_ok_def lh_num_items_def)
  ultimately show ?thesis
    using dict_run_length [OF assms(5)] run_succeeds [OF assms(1) _ new(1) _ assms(5)] assms(4) new(4) by simp
qed

theorem lhash_dictionary_witness:
  "\<exists>lh0 lh bs. lh_new zero_alloc (\<lambda>n :: nat. of_nat (n mod 3)) (\<lambda>a b. int a - int b) = Some lh0 \<and>
    dict_run lh_retrieve (lh_insert zero_alloc) (lh_delete zero_alloc) [Put 1, Put 4, Get 4, Del 1, Get 1] lh0 =
      (bs, [None, None, Some 4, Some 1, None], lh)"
proof -
  let ?ops = "[Put 1, Put 4, Get 4, Del 1, Get 1 :: nat dict_op]"
  have K: "keys_ok (\<lambda>n :: nat. of_nat (n mod 3)) (\<lambda>a b. int a - int b)" by (simp add: keys_ok_def)
  obtain lh0 where n: "lh_new zero_alloc (\<lambda>n :: nat. of_nat (n mod 3)) (\<lambda>a b. int a - int b) = Some lh0"
    by (simp add: lh_new_def OPENSSL_malloc_def zero_alloc_def OPENSSL_MALLOC_PREFIX_def kMinNumBuckets_def Let_def)
  obtain bs xs lh where r: "dict_run lh_retrieve (lh_insert zero_alloc) (lh_delete zero_alloc) ?ops lh0 = (bs, xs, lh)"
    by (cases "dict_run lh_retrieve (lh_insert zero_alloc) (lh_delete zero_alloc) ?ops lh0")
  from lhash_dictionary [OF allocator_zero_alloc K n _ r]
  have m: "map_run (\<lambda>a b. int a - int b = 0) ?ops bs (\<lambda>_. None) = (xs, lh_view lh)" "length bs = 5" "list_all (\<lambda>b. b) bs"
    by (simp_all add: zero_alloc_def)
  then have "bs = replicate 5 True" by (intro nth_equalityI) (simp_all add: list_all_length)
  then have "bs = [True, True, True, True, True]" by (simp add: eval_nat_numeral)
  with m(1) have "xs = [None, None, Some 4, Some 1, None]" by auto
  with n r show ?thesis by blast
qed

end
