(* ===== verification/Pool.thy ===== *)
theory Pool
  imports Lhash Cbs
begin

text \<open>
  The pool of shared byte buffers (\<open>crypto/pool/pool.c\<close>) and its reference counts
  (\<open>crypto/refcount_lock.c\<close>). A pool is a hash table of pointers to buffers; the bytes of a buffer never
  change, so a pointer is modelled together with the bytes it points to. Threads meet at the pool's
  lock: \<open>CRYPTO_BUFFER_new\<close> consists of two critical sections, and other threads may act between them.
  The step relation interleaves them, with a ghost count of the references the clients hold.
\<close>

section \<open>Reference counts\<close>

definition CRYPTO_REFCOUNT_MAX :: u32 where
  "CRYPTO_REFCOUNT_MAX = 0xffffffff"

definition CRYPTO_refcount_inc :: "u32 \<Rightarrow> u32" where
  "CRYPTO_refcount_inc n = (if n < CRYPTO_REFCOUNT_MAX then n + 1 else n)"

text \<open>\<open>None\<close> is the call of \<open>abort\<close>.\<close>

definition CRYPTO_refcount_dec_and_test_zero :: "u32 \<Rightarrow> (bool \<times> u32) option" where
  "CRYPTO_refcount_dec_and_test_zero n =
     (if n = 0 then None
      else (let n = (if n < CRYPTO_REFCOUNT_MAX then n - 1 else n) in Some (n = 0, n)))"

section \<open>Buffers and pools\<close>

record CRYPTO_BUFFER =
  cb_pool :: bool
  cb_data :: "byte list"
  cb_len :: size_t
  cb_refs :: u32

type_synonym buf_ptr = "nat \<times> byte list"

text \<open>The live buffers and the table of one pool; \<open>cb_pool\<close> says whether a buffer points to it.\<close>

record CRYPTO_BUFFER_POOL =
  pool_bufs :: "buf_ptr lhash"
  pool_heap :: "nat \<Rightarrow> CRYPTO_BUFFER option"

text \<open>\<open>memcmp\<close> of the C library, with the difference of the first two bytes that differ.\<close>

fun OPENSSL_memcmp :: "byte list \<Rightarrow> byte list \<Rightarrow> nat \<Rightarrow> int" where
  "OPENSSL_memcmp s1 s2 0 = 0"
| "OPENSSL_memcmp s1 s2 (Suc n) =
     (if hd s1 = hd s2 then OPENSSL_memcmp (tl s1) (tl s2) n else int (unat (hd s1)) - int (unat (hd s2)))"

definition CRYPTO_BUFFER_hash :: "buf_ptr \<Rightarrow> u32" where
  "CRYPTO_BUFFER_hash buf = OPENSSL_hash32 (snd buf) (length (snd buf))"

definition CRYPTO_BUFFER_cmp :: "buf_ptr \<Rightarrow> buf_ptr \<Rightarrow> int" where
  "CRYPTO_BUFFER_cmp a b =
     (if length (snd a) \<noteq> length (snd b) then 1 else OPENSSL_memcmp (snd a) (snd b) (length (snd a)))"

definition CRYPTO_BUFFER_POOL_new :: "(nat \<Rightarrow> byte list option) \<Rightarrow> (nat \<Rightarrow> CRYPTO_BUFFER option) \<Rightarrow> CRYPTO_BUFFER_POOL option" where
  "CRYPTO_BUFFER_POOL_new malloc heap =
     (case OPENSSL_malloc malloc 64 of None \<Rightarrow> None
      | Some _ \<Rightarrow> (case lh_new malloc CRYPTO_BUFFER_hash CRYPTO_BUFFER_cmp of None \<Rightarrow> None
         | Some lh \<Rightarrow> Some \<lparr>pool_bufs = lh, pool_heap = heap\<rparr>))"

text \<open>The assertion of \<open>CRYPTO_BUFFER_POOL_free\<close>.\<close>

definition CRYPTO_BUFFER_POOL_free :: "CRYPTO_BUFFER_POOL \<Rightarrow> bool" where
  "CRYPTO_BUFFER_POOL_free pool \<longleftrightarrow> lh_num_items (pool_bufs pool) = 0"

definition inc_ref :: "nat \<Rightarrow> CRYPTO_BUFFER_POOL \<Rightarrow> CRYPTO_BUFFER_POOL" where
  "inc_ref p st =
     (case pool_heap st p of None \<Rightarrow> st
      | Some b \<Rightarrow> st\<lparr>pool_heap := (pool_heap st)(p \<mapsto> b\<lparr>cb_refs := CRYPTO_refcount_inc (cb_refs b)\<rparr>)\<rparr>)"

text \<open>The first critical section of \<open>CRYPTO_BUFFER_new\<close>, under the read lock: look for a duplicate of
  \<open>tmp\<close>, which lives on the stack (its address is 0).\<close>

definition buffer_lookup :: "byte list \<Rightarrow> CRYPTO_BUFFER_POOL \<Rightarrow> nat option \<times> CRYPTO_BUFFER_POOL" where
  "buffer_lookup data st =
     (case lh_retrieve (pool_bufs st) (0, data) of None \<Rightarrow> (None, st)
      | Some (q, _) \<Rightarrow> (Some q, inc_ref q st))"

text \<open>A new buffer. The allocator decides its address \<open>p\<close>.\<close>

definition buffer_alloc :: "(nat \<Rightarrow> byte list option) \<Rightarrow> bool \<Rightarrow> byte list \<Rightarrow> CRYPTO_BUFFER option" where
  "buffer_alloc malloc pooled data =
     (case OPENSSL_malloc malloc 32 of None \<Rightarrow> None
      | Some _ \<Rightarrow>
          (let copy = BUF_memdup malloc data (length data)
           in if length data \<noteq> 0 \<and> copy = None then None
              else Some \<lparr>cb_pool = pooled, cb_data = (case copy of None \<Rightarrow> [] | Some b \<Rightarrow> payload b),
                         cb_len = length data, cb_refs = 1\<rparr>))"

text \<open>The rest of \<open>CRYPTO_BUFFER_new\<close> with a pool: the allocation and the critical section under the
  write lock. When another thread has inserted an equal buffer in the meantime, that one is returned.
  \<open>None\<close> is a failed assertion: the table held an equal buffer that the lookup had not found.\<close>

definition buffer_insert ::
  "(nat \<Rightarrow> byte list option) \<Rightarrow> nat \<Rightarrow> byte list \<Rightarrow> CRYPTO_BUFFER_POOL \<Rightarrow> (nat option \<times> CRYPTO_BUFFER_POOL) option" where
  "buffer_insert malloc p data st =
     (case buffer_alloc malloc True data of None \<Rightarrow> Some (None, st)
      | Some buf \<Rightarrow>
          (case lh_retrieve (pool_bufs st) (p, cb_data buf) of
             None \<Rightarrow>
               (case lh_insert malloc (pool_bufs st) (p, cb_data buf) of (inserted, old, lh) \<Rightarrow>
                  if old \<noteq> None then None
                  else if inserted then Some (Some p, st\<lparr>pool_bufs := lh, pool_heap := (pool_heap st)(p \<mapsto> buf)\<rparr>)
                  else Some (None, st\<lparr>pool_bufs := lh\<rparr>))
           | Some (q, _) \<Rightarrow> Some (Some q, inc_ref q st)))"

text \<open>\<open>CRYPTO_BUFFER_new\<close> without interference.\<close>

definition CRYPTO_BUFFER_new ::
  "(nat \<Rightarrow> byte list option) \<Rightarrow> nat \<Rightarrow> byte list \<Rightarrow> bool \<Rightarrow> CRYPTO_BUFFER_POOL \<Rightarrow> (nat option \<times> CRYPTO_BUFFER_POOL) option" where
  "CRYPTO_BUFFER_new malloc p data has_pool st =
     (if has_pool
      then (case buffer_lookup data st of (Some q, st) \<Rightarrow> Some (Some q, st) | (None, st) \<Rightarrow> buffer_insert malloc p data st)
      else (case buffer_alloc malloc False data of None \<Rightarrow> Some (None, st)
            | Some buf \<Rightarrow> Some (Some p, st\<lparr>pool_heap := (pool_heap st)(p \<mapsto> buf)\<rparr>)))"

definition CRYPTO_BUFFER_new_from_CBS ::
  "(nat \<Rightarrow> byte list option) \<Rightarrow> nat \<Rightarrow> cbs \<Rightarrow> bool \<Rightarrow> CRYPTO_BUFFER_POOL \<Rightarrow> (nat option \<times> CRYPTO_BUFFER_POOL) option" where
  "CRYPTO_BUFFER_new_from_CBS malloc p cbs has_pool st =
     CRYPTO_BUFFER_new malloc p (take (cbs_len cbs) (cbs_data cbs)) has_pool st"

text \<open>\<open>None\<close> stands for \<open>abort\<close>, for a failed assertion and for an access to a buffer that is not live.\<close>

definition CRYPTO_BUFFER_free :: "(nat \<Rightarrow> byte list option) \<Rightarrow> nat \<Rightarrow> CRYPTO_BUFFER_POOL \<Rightarrow> CRYPTO_BUFFER_POOL option" where
  "CRYPTO_BUFFER_free malloc p st =
     (case pool_heap st p of None \<Rightarrow> None
      | Some b \<Rightarrow>
          (case CRYPTO_refcount_dec_and_test_zero (cb_refs b) of None \<Rightarrow> None
           | Some (zero, refs) \<Rightarrow>
               if \<not> zero then Some (st\<lparr>pool_heap := (pool_heap st)(p \<mapsto> b\<lparr>cb_refs := refs\<rparr>)\<rparr>)
               else if \<not> cb_pool b then Some (st\<lparr>pool_heap := (pool_heap st)(p := None)\<rparr>)
               else (case lh_delete malloc (pool_bufs st) (p, cb_data b) of (found, lh) \<Rightarrow>
                  if found \<noteq> Some (p, cb_data b) then None
                  else Some (st\<lparr>pool_bufs := lh, pool_heap := (pool_heap st)(p := None)\<rparr>))))"

definition CRYPTO_BUFFER_up_ref :: "nat \<Rightarrow> CRYPTO_BUFFER_POOL \<Rightarrow> CRYPTO_BUFFER_POOL option" where
  "CRYPTO_BUFFER_up_ref p st = (if pool_heap st p = None then None else Some (inc_ref p st))"

definition CRYPTO_BUFFER_data :: "CRYPTO_BUFFER \<Rightarrow> byte list" where
  "CRYPTO_BUFFER_data buf = cb_data buf"

definition CRYPTO_BUFFER_len :: "CRYPTO_BUFFER \<Rightarrow> size_t" where
  "CRYPTO_BUFFER_len buf = cb_len buf"

definition CRYPTO_BUFFER_init_CBS :: "CRYPTO_BUFFER \<Rightarrow> cbs" where
  "CRYPTO_BUFFER_init_CBS buf = CBS_init (cb_data buf) (cb_len buf)"

section \<open>Threads\<close>

text \<open>
  The state of all threads: the pool, the number of references the clients hold on every buffer, and
  for every thread that is between the two critical sections of \<open>CRYPTO_BUFFER_new\<close> its data. A client
  frees or duplicates only references it holds. The address a new buffer gets is not in use, and the
  table has fewer than \<open>2 ^ 64 - 1\<close> items, since each of them takes memory.
\<close>

record world =
  w_pool :: CRYPTO_BUFFER_POOL
  w_held :: "nat \<Rightarrow> nat"
  w_waiting :: "byte list multiset"

definition hold :: "nat option \<Rightarrow> (nat \<Rightarrow> nat) \<Rightarrow> nat \<Rightarrow> nat" where
  "hold r held = (case r of None \<Rightarrow> held | Some p \<Rightarrow> held(p := held p + 1))"

inductive pool_step :: "(nat \<Rightarrow> byte list option) \<Rightarrow> world \<Rightarrow> world \<Rightarrow> bool" for malloc where
  lookup_hit: "buffer_lookup data (w_pool w) = (Some q, st) \<Longrightarrow>
    pool_step malloc w (w\<lparr>w_pool := st, w_held := hold (Some q) (w_held w)\<rparr>)"
| lookup_miss: "buffer_lookup data (w_pool w) = (None, st) \<Longrightarrow>
    pool_step malloc w (w\<lparr>w_pool := st, w_waiting := add_mset data (w_waiting w)\<rparr>)"
| insert: "data \<in># w_waiting w \<Longrightarrow> pool_heap (w_pool w) p = None \<Longrightarrow> num_items (pool_bufs (w_pool w)) + 1 < 2 ^ 64 \<Longrightarrow>
    length data < 2 ^ 63 \<Longrightarrow> buffer_insert malloc p data (w_pool w) = Some (r, st) \<Longrightarrow>
    pool_step malloc w (w\<lparr>w_pool := st, w_held := hold r (w_held w), w_waiting := w_waiting w - {#data#}\<rparr>)"
| unpooled: "pool_heap (w_pool w) p = None \<Longrightarrow> length data < 2 ^ 63 \<Longrightarrow>
    CRYPTO_BUFFER_new malloc p data False (w_pool w) = Some (r, st) \<Longrightarrow>
    pool_step malloc w (w\<lparr>w_pool := st, w_held := hold r (w_held w)\<rparr>)"
| up_ref: "0 < w_held w p \<Longrightarrow> CRYPTO_BUFFER_up_ref p (w_pool w) = Some st \<Longrightarrow>
    pool_step malloc w (w\<lparr>w_pool := st, w_held := hold (Some p) (w_held w)\<rparr>)"
| free: "0 < w_held w p \<Longrightarrow> CRYPTO_BUFFER_free malloc p (w_pool w) = Some st \<Longrightarrow>
    pool_step malloc w (w\<lparr>w_pool := st, w_held := (w_held w)(p := w_held w p - 1)\<rparr>)"

inductive pool_reachable :: "(nat \<Rightarrow> byte list option) \<Rightarrow> world \<Rightarrow> bool" for malloc where
  start: "CRYPTO_BUFFER_POOL_new malloc (\<lambda>_. None) = Some pool \<Longrightarrow>
    pool_reachable malloc \<lparr>w_pool = pool, w_held = (\<lambda>_. 0), w_waiting = {#}\<rparr>"
| step: "pool_reachable malloc w \<Longrightarrow> pool_step malloc w w' \<Longrightarrow> pool_reachable malloc w'"

section \<open>The invariant\<close>

lemma memcmp_eq: "length a = length b \<Longrightarrow> OPENSSL_memcmp a b (length a) = 0 \<longleftrightarrow> a = b"
  by (induction a b rule: list_induct2) (auto simp: word_uint_eq_iff)

lemma buffer_cmp_eq: "CRYPTO_BUFFER_cmp a b = 0 \<longleftrightarrow> snd a = snd b"
  using memcmp_eq [of "snd a" "snd b"] by (auto simp: CRYPTO_BUFFER_cmp_def)

lemma buffer_keys: "keys_ok CRYPTO_BUFFER_hash CRYPTO_BUFFER_cmp"
  by (simp add: keys_ok_def buffer_cmp_eq CRYPTO_BUFFER_hash_def)

lemma items_view: "lh_ok lh \<Longrightarrow> x \<in> set (lh_items lh) \<longleftrightarrow> lh_view lh x = Some x"
  using keys_okD(1) [of "lh_hash lh" "lh_comp lh" x] view_iff [of lh x x] by (simp add: lh_ok_def)

text \<open>The table holds exactly the live buffers of the pool; a count that is not stuck at its maximum is
  the number of references held; what is held is live.\<close>

definition pool_ok :: "CRYPTO_BUFFER_POOL \<Rightarrow> (nat \<Rightarrow> nat) \<Rightarrow> bool" where
  "pool_ok st held \<longleftrightarrow> lh_ok (pool_bufs st) \<and> lh_comp (pool_bufs st) = CRYPTO_BUFFER_cmp \<and>
     (\<forall>x. x \<in> set (lh_items (pool_bufs st)) \<longleftrightarrow>
        (\<exists>b. pool_heap st (fst x) = Some b \<and> cb_pool b \<and> cb_data b = snd x)) \<and>
     (\<forall>p b. pool_heap st p = Some b \<longrightarrow> cb_refs b \<noteq> 0 \<and> cb_len b = length (cb_data b) \<and>
        (cb_refs b = CRYPTO_REFCOUNT_MAX \<or> unat (cb_refs b) = held p)) \<and>
     (\<forall>p. 0 < held p \<longrightarrow> pool_heap st p \<noteq> None)"

lemma pool_okD:
  assumes "pool_ok st held"
  shows "lh_ok (pool_bufs st)" "lh_comp (pool_bufs st) = CRYPTO_BUFFER_cmp"
    "(p, d) \<in> set (lh_items (pool_bufs st)) \<longleftrightarrow> (\<exists>b. pool_heap st p = Some b \<and> cb_pool b \<and> cb_data b = d)"
    "pool_heap st p = Some b \<Longrightarrow> cb_refs b \<noteq> 0 \<and> cb_len b = length (cb_data b) \<and>
        (cb_refs b = CRYPTO_REFCOUNT_MAX \<or> unat (cb_refs b) = held p)"
    "0 < held p \<Longrightarrow> pool_heap st p \<noteq> None"
  using assms by (simp_all add: pool_ok_def)

text \<open>The element of the table with given bytes.\<close>

lemma pool_view:
  assumes "pool_ok st held"
  shows "lh_view (pool_bufs st) (p, d) = Some x \<longleftrightarrow>
    snd x = d \<and> (\<exists>b. pool_heap st (fst x) = Some b \<and> cb_pool b \<and> cb_data b = d)"
  using view_iff [OF pool_okD(1) [OF assms], of "(p, d)" x] pool_okD(2) [OF assms] pool_okD(3) [OF assms, of "fst x" "snd x"]
  by (auto simp: buffer_cmp_eq)

lemma refs_le: "n \<le> CRYPTO_REFCOUNT_MAX"
  using unsigned_less [of n, where 'a = nat] by (simp add: CRYPTO_REFCOUNT_MAX_def word_le_nat_alt)

lemma refs_inc:
  assumes "n \<noteq> 0" and "n = CRYPTO_REFCOUNT_MAX \<or> unat n = k"
  shows "CRYPTO_refcount_inc n \<noteq> 0"
    "CRYPTO_refcount_inc n = CRYPTO_REFCOUNT_MAX \<or> unat (CRYPTO_refcount_inc n) = k + 1"
proof -
  have "CRYPTO_refcount_inc n \<noteq> 0 \<and> (CRYPTO_refcount_inc n = CRYPTO_REFCOUNT_MAX \<or> unat (CRYPTO_refcount_inc n) = k + 1)"
  proof (cases "n < CRYPTO_REFCOUNT_MAX")
    case True
    then have l: "unat n < 4294967295" by (simp add: CRYPTO_REFCOUNT_MAX_def word_less_nat_alt)
    then have "unat (n + 1) = unat n + 1" by (simp add: unat_word_ariths)
    then show ?thesis using True assms(2) by (auto simp: CRYPTO_refcount_inc_def simp flip: unat_eq_zero)
  next
    case False
    moreover have "n \<le> CRYPTO_REFCOUNT_MAX" by (rule refs_le)
    ultimately show ?thesis using assms(1) by (simp add: CRYPTO_refcount_inc_def)
  qed
  then show "CRYPTO_refcount_inc n \<noteq> 0" "CRYPTO_refcount_inc n = CRYPTO_REFCOUNT_MAX \<or> unat (CRYPTO_refcount_inc n) = k + 1"
    by simp_all
qed

lemma refs_dec:
  assumes "n \<noteq> 0" and "n = CRYPTO_REFCOUNT_MAX \<or> unat n = k"
  obtains "unat n = 1" "k = 1" "CRYPTO_refcount_dec_and_test_zero n = Some (True, 0)"
    | n' where "CRYPTO_refcount_dec_and_test_zero n = Some (False, n')" "n' \<noteq> 0" "n' = CRYPTO_REFCOUNT_MAX \<or> unat n' = k - 1"
proof (cases "n < CRYPTO_REFCOUNT_MAX")
  case True
  then have k: "unat n = k" using assms(2) by auto
  have "unat (n - 1) = unat n - 1" using assms(1) by (simp add: unat_sub word_le_nat_alt unat_gt_0 Suc_le_eq)
  then show ?thesis
    using True assms(1) k that by (cases "n - 1 = 0") (auto simp: CRYPTO_refcount_dec_and_test_zero_def)
next
  case False
  moreover have "n \<le> CRYPTO_REFCOUNT_MAX" by (rule refs_le)
  ultimately show ?thesis using assms(1) that by (simp add: CRYPTO_refcount_dec_and_test_zero_def)
qed

text \<open>Updating the count of one live buffer.\<close>

lemma pool_ok_refs:
  assumes ok: "pool_ok st held" and b: "pool_heap st p = Some b"
    and n: "n \<noteq> 0" "n = CRYPTO_REFCOUNT_MAX \<or> unat n = k"
  shows "pool_ok (st\<lparr>pool_heap := (pool_heap st)(p \<mapsto> b\<lparr>cb_refs := n\<rparr>)\<rparr>) (held(p := k))"
  using ok b n by (auto simp: pool_ok_def)

lemma inc_ref_ok:
  assumes ok: "pool_ok st held" and b: "pool_heap st p = Some b"
  shows "pool_ok (inc_ref p st) (hold (Some p) held)"
proof -
  have "cb_refs b \<noteq> 0" "cb_refs b = CRYPTO_REFCOUNT_MAX \<or> unat (cb_refs b) = held p" using pool_okD(4) [OF ok b] by simp_all
  note r = refs_inc [OF this]
  from pool_ok_refs [OF ok b r] show ?thesis by (simp add: inc_ref_def b hold_def)
qed

section \<open>Every step keeps the invariant\<close>

lemma pool_new_ok:
  assumes "CRYPTO_BUFFER_POOL_new malloc (\<lambda>_. None) = Some st"
  shows "pool_ok st (\<lambda>_. 0)"
proof -
  obtain lh where lh: "lh_new malloc CRYPTO_BUFFER_hash CRYPTO_BUFFER_cmp = Some lh"
      "st = \<lparr>pool_bufs = lh, pool_heap = (\<lambda>_. None)\<rparr>"
    using assms by (auto simp: CRYPTO_BUFFER_POOL_new_def split: option.splits)
  note n = new_ok [OF lh(1) buffer_keys]
  have "lh_items lh = []" using items_view [OF n(1)] n(2) by (cases "lh_items lh") auto
  then show ?thesis using n by (simp add: pool_ok_def lh(2))
qed

lemma lookup_ok:
  assumes ok: "pool_ok st held" and l: "buffer_lookup data st = (r, st')"
  shows "pool_ok st' (hold r held)"
    "\<And>q. r = Some q \<Longrightarrow> \<exists>b. pool_heap st q = Some b \<and> cb_pool b \<and> cb_data b = data"
    "r = None \<Longrightarrow> st' = st"
proof -
  have "pool_ok st' (hold r held) \<and> (\<forall>q. r = Some q \<longrightarrow> (\<exists>b. pool_heap st q = Some b \<and> cb_pool b \<and> cb_data b = data)) \<and>
    (r = None \<longrightarrow> st' = st)"
  proof (cases "lh_view (pool_bufs st) (0, data)")
    case None
    then show ?thesis using l ok retrieve_view [OF pool_okD(1) [OF ok]] by (auto simp: buffer_lookup_def hold_def)
  next
    case (Some x)
    then obtain q b where x: "x = (q, data)" "pool_heap st q = Some b" "cb_pool b" "cb_data b = data"
      using pool_view [OF ok, of 0 data x] by (cases x) auto
    then have "r = Some q" "st' = inc_ref q st"
      using l Some retrieve_view [OF pool_okD(1) [OF ok]] by (auto simp: buffer_lookup_def)
    with inc_ref_ok [OF ok x(2)] x show ?thesis by simp
  qed
  then show "pool_ok st' (hold r held)"
    "\<And>q. r = Some q \<Longrightarrow> \<exists>b. pool_heap st q = Some b \<and> cb_pool b \<and> cb_data b = data"
    "r = None \<Longrightarrow> st' = st" by blast+
qed

lemma buffer_alloc_data:
  assumes "allocator malloc" and "length data < 2 ^ 63" and "buffer_alloc malloc pooled data = Some b"
  shows "b = \<lparr>cb_pool = pooled, cb_data = data, cb_len = length data, cb_refs = 1\<rparr>"
proof (cases "data = []")
  case True
  then show ?thesis using assms(3) by (auto simp: buffer_alloc_def BUF_memdup_def Let_def split: option.splits)
next
  case False
  then obtain c where c: "BUF_memdup malloc data (length data) = Some c"
      "b = \<lparr>cb_pool = pooled, cb_data = payload c, cb_len = length data, cb_refs = 1\<rparr>"
    using assms(3) by (auto simp: buffer_alloc_def Let_def split: option.splits if_splits)
  have "payload c = data" using memdup_spec [OF assms(1) _ _ c(1)] assms(2) by simp
  with c(2) show ?thesis by simp
qed

text \<open>Adding a live buffer at an unused address.\<close>

lemma fresh_ok:
  assumes ok: "pool_ok st held" and p: "pool_heap st p = None"
    and lh: "lh_ok lh" "lh_comp lh = CRYPTO_BUFFER_cmp"
    and items: "\<And>x. x \<in> set (lh_items lh) \<longleftrightarrow> x \<in> set (lh_items (pool_bufs st)) \<or> pooled \<and> x = (p, data)"
  shows "pool_ok (st\<lparr>pool_bufs := lh, pool_heap := (pool_heap st)(p \<mapsto> \<lparr>cb_pool = pooled, cb_data = data, cb_len = length data, cb_refs = 1\<rparr>)\<rparr>)
    (hold (Some p) held)"
proof -
  have "held p = 0" using pool_okD(5) [OF ok, of p] p by auto
  moreover have "x \<in> set (lh_items (pool_bufs st)) \<Longrightarrow> fst x \<noteq> p" for x
    using pool_okD(3) [OF ok, of "fst x" "snd x"] p by auto
  ultimately show ?thesis using ok lh items p unfolding pool_ok_def by (auto simp: hold_def)
qed

lemma insert_ok:
  assumes a: "allocator malloc" and ok: "pool_ok st held" and p: "pool_heap st p = None"
    and room: "num_items (pool_bufs st) + 1 < 2 ^ 64" "length data < 2 ^ 63"
    and i: "buffer_insert malloc p data st = Some (r, st')"
  shows "pool_ok st' (hold r held)" "\<And>q. r = Some q \<Longrightarrow> \<exists>b. pool_heap st' q = Some b \<and> cb_pool b \<and> cb_data b = data"
proof -
  have "pool_ok st' (hold r held) \<and> (\<forall>q. r = Some q \<longrightarrow> (\<exists>b. pool_heap st' q = Some b \<and> cb_pool b \<and> cb_data b = data))"
  proof (cases "buffer_alloc malloc True data")
    case None
    then show ?thesis using i ok by (auto simp: buffer_insert_def hold_def)
  next
    case (Some buf)
    note buf = buffer_alloc_data [OF a room(2) Some]
    let ?lh = "pool_bufs st"
    note ret = retrieve_view [OF pool_okD(1) [OF ok]]
    show ?thesis
    proof (cases "lh_view ?lh (p, data)")
      case dup: (Some x)
      then obtain q b where x: "x = (q, data)" "pool_heap st q = Some b" "cb_pool b" "cb_data b = data"
        using pool_view [OF ok, of p data x] by (cases x) auto
      then have "r = Some q" "st' = inc_ref q st" using i Some buf dup ret by (auto simp: buffer_insert_def)
      with inc_ref_ok [OF ok x(2)] x show ?thesis by (simp add: inc_ref_def)
    next
      case None
      obtain ins old lh where l: "lh_insert malloc ?lh (p, data) = (ins, old, lh)" by (cases "lh_insert malloc ?lh (p, data)")
      note law = insert_law [OF a pool_okD(1) [OF ok] room(1) l]
      have old: "old = None" using law(4,5) None by blast
      have cmp: "lh_comp lh = CRYPTO_BUFFER_cmp" using law(2) pool_okD(2) [OF ok] by simp
      show ?thesis
      proof (cases ins)
        case True
        have "x \<in> set (lh_items lh) \<longleftrightarrow> x \<in> set (lh_items ?lh) \<or> x = (p, data)" for x
        proof -
          have "snd x = data \<Longrightarrow> x \<notin> set (lh_items ?lh)"
            using None pool_view [OF ok, of p data x] pool_okD(3) [OF ok, of "fst x" "snd x"] by auto
          then show ?thesis
            using law(4) [OF True] pool_okD(2) [OF ok]
            by (auto simp: items_view [OF law(1)] items_view [OF pool_okD(1) [OF ok]] buffer_cmp_eq)
        qed
        from fresh_ok [OF ok p law(1) cmp, of True data] this
        show ?thesis using i Some buf None ret l True old by (auto simp: buffer_insert_def)
      next
        case False
        then show ?thesis using law(5) i Some buf None ret l ok old by (auto simp: buffer_insert_def hold_def)
      qed
    qed
  qed
  then show "pool_ok st' (hold r held)" "\<And>q. r = Some q \<Longrightarrow> \<exists>b. pool_heap st' q = Some b \<and> cb_pool b \<and> cb_data b = data"
    by blast+
qed

text \<open>The assertion after the insertion holds: the lookup before it, under the same lock, found nothing.\<close>

lemma insert_asserts:
  assumes a: "allocator malloc" and ok: "pool_ok st held" and room: "num_items (pool_bufs st) + 1 < 2 ^ 64"
  shows "buffer_insert malloc p data st \<noteq> None"
proof (cases "buffer_alloc malloc True data")
  case (Some buf)
  obtain ins old lh where l: "lh_insert malloc (pool_bufs st) (p, cb_data buf) = (ins, old, lh)"
    by (cases "lh_insert malloc (pool_bufs st) (p, cb_data buf)")
  note law = insert_law(4,5) [OF a pool_okD(1) [OF ok] room l]
  show ?thesis
    using retrieve_view [OF pool_okD(1) [OF ok], of "(p, cb_data buf)"] law l Some
    by (cases "lh_view (pool_bufs st) (p, cb_data buf)") (auto simp: buffer_insert_def split: prod.split)
qed (simp add: buffer_insert_def)

lemma unpooled_ok:
  assumes a: "allocator malloc" and ok: "pool_ok st held" and p: "pool_heap st p = None" and l: "length data < 2 ^ 63"
    and n: "CRYPTO_BUFFER_new malloc p data False st = Some (r, st')"
  shows "pool_ok st' (hold r held)"
proof (cases "buffer_alloc malloc False data")
  case None
  then show ?thesis using n ok by (simp add: CRYPTO_BUFFER_new_def hold_def)
next
  case (Some buf)
  have "pool_ok (st\<lparr>pool_bufs := pool_bufs st, pool_heap := (pool_heap st)(p \<mapsto> \<lparr>cb_pool = False, cb_data = data,
      cb_len = length data, cb_refs = 1\<rparr>)\<rparr>) (hold (Some p) held)"
    by (rule fresh_ok [OF ok p pool_okD(1,2) [OF ok]]) simp
  then show ?thesis using n Some buffer_alloc_data [OF a l Some] by (auto simp: CRYPTO_BUFFER_new_def)
qed

text \<open>Giving back a reference that is held neither aborts nor fails an assertion.\<close>

lemma free_ok:
  assumes a: "allocator malloc" and ok: "pool_ok st held" and h: "0 < held p"
  shows "\<exists>st'. CRYPTO_BUFFER_free malloc p st = Some st' \<and> pool_ok st' (held(p := held p - 1))"
proof -
  obtain b where b: "pool_heap st p = Some b" using pool_okD(5) [OF ok h] by auto
  note live = pool_okD(4) [OF ok b]
  then have r: "cb_refs b \<noteq> 0" "cb_refs b = CRYPTO_REFCOUNT_MAX \<or> unat (cb_refs b) = held p" by simp_all
  from r show ?thesis
  proof (cases rule: refs_dec)
    case (2 n')
    from pool_ok_refs [OF ok b 2(2,3)] 2(1) b show ?thesis by (simp add: CRYPTO_BUFFER_free_def)
  next
    case 1
    show ?thesis
    proof (cases "cb_pool b")
      case False
      have "pool_ok (st\<lparr>pool_heap := (pool_heap st)(p := None)\<rparr>) (held(p := 0))"
        using ok b False unfolding pool_ok_def by auto
      then show ?thesis using 1 b False by (simp add: CRYPTO_BUFFER_free_def)
    next
      case True
      obtain found lh where d: "lh_delete malloc (pool_bufs st) (p, cb_data b) = (found, lh)"
        by (cases "lh_delete malloc (pool_bufs st) (p, cb_data b)")
      note law = delete_law [OF a pool_okD(1) [OF ok] d]
      have mem: "(p, cb_data b) \<in> set (lh_items (pool_bufs st))" using pool_okD(3) [OF ok] b True by blast
      then have f: "found = Some (p, cb_data b)" using law(4) items_view [OF pool_okD(1) [OF ok]] by simp
      have items: "x \<in> set (lh_items lh) \<longleftrightarrow> x \<in> set (lh_items (pool_bufs st)) \<and> x \<noteq> (p, cb_data b)" for x
      proof -
        have "snd x = cb_data b \<and> x \<in> set (lh_items (pool_bufs st)) \<longrightarrow> x = (p, cb_data b)"
          using mem pool_okD(1,2) [OF ok] by (auto simp: lh_ok_def buffer_cmp_eq)
        then show ?thesis
          using law(5) pool_okD(2) [OF ok]
          by (auto simp: items_view [OF law(1)] items_view [OF pool_okD(1) [OF ok]] buffer_cmp_eq)
      qed
      have "pool_ok (st\<lparr>pool_bufs := lh, pool_heap := (pool_heap st)(p := None)\<rparr>) (held(p := 0))"
        using ok b law(1,2) items unfolding pool_ok_def by auto
      then show ?thesis using 1 b True d f by (simp add: CRYPTO_BUFFER_free_def)
    qed
  qed
qed

lemma step_ok:
  assumes "allocator malloc" and "pool_step malloc w w'" and "pool_ok (w_pool w) (w_held w)"
  shows "pool_ok (w_pool w') (w_held w')"
  using assms(2)
proof cases
  case (lookup_hit data q st)
  then show ?thesis using lookup_ok(1) [OF assms(3)] by simp
next
  case (lookup_miss data st)
  then show ?thesis using lookup_ok(3) [OF assms(3) lookup_miss(2) refl] assms(3) by simp
next
  case (insert data p r st)
  then show ?thesis using insert_ok(1) [OF assms(1,3)] by simp
next
  case (unpooled p data r st)
  then show ?thesis using unpooled_ok [OF assms(1,3)] by simp
next
  case (up_ref p st)
  then show ?thesis using inc_ref_ok [OF assms(3)] by (auto simp: CRYPTO_BUFFER_up_ref_def split: if_splits)
next
  case (free p st)
  from free_ok [OF assms(1,3) free(2)] free(1,3) show ?thesis by auto
qed

lemma reachable_ok: "pool_reachable malloc w \<Longrightarrow> allocator malloc \<Longrightarrow> pool_ok (w_pool w) (w_held w)"
  by (induction rule: pool_reachable.induct) (auto intro: pool_new_ok step_ok)

text \<open>A live buffer keeps its bytes for as long as it is live.\<close>

definition same_bytes :: "CRYPTO_BUFFER_POOL \<Rightarrow> CRYPTO_BUFFER_POOL \<Rightarrow> bool" where
  "same_bytes st st' \<longleftrightarrow> (\<forall>p b b'. pool_heap st p = Some b \<longrightarrow> pool_heap st' p = Some b' \<longrightarrow> cb_data b' = cb_data b)"

lemma same_bytes_inc: "same_bytes st (inc_ref q st)"
  by (auto simp: same_bytes_def inc_ref_def split: option.splits)

lemma step_same_bytes:
  assumes "pool_step malloc w w'"
  shows "same_bytes (w_pool w) (w_pool w')"
  using assms
proof cases
  case (lookup_hit data q st)
  then show ?thesis using same_bytes_inc by (auto simp: buffer_lookup_def split: option.splits)
next
  case (lookup_miss data st)
  then show ?thesis by (auto simp: buffer_lookup_def same_bytes_def split: option.splits)
next
  case (insert data p r st)
  then have "same_bytes (w_pool w) st" using same_bytes_inc
    by (auto simp: buffer_insert_def same_bytes_def split: option.splits prod.splits if_splits)
  then show ?thesis using insert by simp
next
  case (unpooled p data r st)
  then show ?thesis by (auto simp: CRYPTO_BUFFER_new_def same_bytes_def split: option.splits if_splits)
next
  case (up_ref p st)
  then show ?thesis using same_bytes_inc by (auto simp: CRYPTO_BUFFER_up_ref_def split: if_splits)
next
  case (free p st)
  then show ?thesis
    by (auto simp: CRYPTO_BUFFER_free_def same_bytes_def split: option.splits prod.splits if_splits)
qed

section \<open>Properties\<close>

text \<open>C3: However the critical sections of the threads interleave, a reference a client holds is to a live
  buffer, giving it back neither aborts nor fails an assertion, nor does inserting a new buffer, no two
  buffers of the pool have equal bytes, a count below its maximum is the number of references held, no step changes the bytes of a
  buffer, and the pool may be freed exactly when none of its buffers is live.\<close>

theorem pool_safe:
  assumes "allocator malloc" and "pool_reachable malloc w"
  shows "(\<forall>p. 0 < w_held w p \<longrightarrow> pool_heap (w_pool w) p \<noteq> None \<and> CRYPTO_BUFFER_free malloc p (w_pool w) \<noteq> None) \<and>
    (\<forall>p q b c. pool_heap (w_pool w) p = Some b \<and> pool_heap (w_pool w) q = Some c \<and> cb_pool b \<and> cb_pool c \<and>
       cb_data b = cb_data c \<longrightarrow> p = q) \<and>
    (\<forall>p b. pool_heap (w_pool w) p = Some b \<longrightarrow> cb_refs b = CRYPTO_REFCOUNT_MAX \<or> unat (cb_refs b) = w_held w p) \<and>
    (\<forall>w'. pool_step malloc w w' \<longrightarrow> same_bytes (w_pool w) (w_pool w')) \<and>
    (CRYPTO_BUFFER_POOL_free (w_pool w) \<longleftrightarrow> (\<forall>p b. pool_heap (w_pool w) p = Some b \<longrightarrow> \<not> cb_pool b)) \<and>
    (num_items (pool_bufs (w_pool w)) + 1 < 2 ^ 64 \<longrightarrow> (\<forall>p data. buffer_insert malloc p data (w_pool w) \<noteq> None))"
proof -
  let ?st = "w_pool w" and ?lh = "pool_bufs (w_pool w)"
  have ok: "pool_ok ?st (w_held w)" using reachable_ok assms by blast
  note D = pool_okD [OF ok]
  have held: "pool_heap ?st p \<noteq> None \<and> CRYPTO_BUFFER_free malloc p ?st \<noteq> None" if "0 < w_held w p" for p
    using D(5) [OF that] free_ok [OF assms(1) ok that] by auto
  have unique: "p = q" if "pool_heap ?st p = Some b" "pool_heap ?st q = Some c" "cb_pool b" "cb_pool c" "cb_data b = cb_data c" for p q b c
  proof -
    have "(p, cb_data b) \<in> set (lh_items ?lh)" "(q, cb_data b) \<in> set (lh_items ?lh)" using D(3) that by auto
    moreover have "lh_comp ?lh (p, cb_data b) (q, cb_data b) = 0" using D(2) by (simp add: buffer_cmp_eq)
    ultimately have "(p, cb_data b) = (q, cb_data b)" using D(1) unfolding lh_ok_def by blast
    then show "p = q" by simp
  qed
  have "CRYPTO_BUFFER_POOL_free ?st \<longleftrightarrow> (\<forall>p d. (p, d) \<notin> set (lh_items ?lh))"
    using D(1) by (cases "lh_items ?lh") (auto simp: lh_ok_def CRYPTO_BUFFER_POOL_free_def lh_num_items_def)
  then have freed: "CRYPTO_BUFFER_POOL_free ?st \<longleftrightarrow> (\<forall>p b. pool_heap ?st p = Some b \<longrightarrow> \<not> cb_pool b)"
    unfolding D(3) by blast
  have counts: "cb_refs b = CRYPTO_REFCOUNT_MAX \<or> unat (cb_refs b) = w_held w p" if "pool_heap ?st p = Some b" for p b
    using D(4) [OF that] by blast
  show ?thesis
    by (intro conjI freed)
      (use held in blast, use unique in blast, use counts in blast, use step_same_bytes in blast,
       use insert_asserts [OF assms(1) ok] in blast)
qed

theorem pool_safe_witness:
  "\<exists>w. pool_reachable zero_alloc w \<and> w_held w 1 = 1 \<and> CRYPTO_BUFFER_free zero_alloc 1 (w_pool w) \<noteq> None"
proof -
  obtain st where st: "CRYPTO_BUFFER_POOL_new zero_alloc (\<lambda>_. None) = Some st"
    by (simp add: CRYPTO_BUFFER_POOL_new_def lh_new_def OPENSSL_malloc_def zero_alloc_def OPENSSL_MALLOC_PREFIX_def
      kMinNumBuckets_def Let_def)
  then have heap: "pool_heap st = (\<lambda>_. None)" by (auto simp: CRYPTO_BUFFER_POOL_new_def split: option.splits)
  let ?w = "\<lparr>w_pool = st, w_held = (\<lambda>_. 0), w_waiting = {#}\<rparr>"
  obtain r st' where n: "CRYPTO_BUFFER_new zero_alloc 1 [7] False st = Some (r, st')"
    by (cases "buffer_alloc zero_alloc False [7]") (simp_all add: CRYPTO_BUFFER_new_def)
  then have r: "r = Some 1"
    by (auto simp: CRYPTO_BUFFER_new_def buffer_alloc_def BUF_memdup_def OPENSSL_malloc_def zero_alloc_def
      OPENSSL_MALLOC_PREFIX_def Let_def)
  have "pool_step zero_alloc ?w (?w\<lparr>w_pool := st', w_held := hold r (w_held ?w)\<rparr>)"
    using pool_step.unpooled [of ?w 1 "[7]" zero_alloc r st'] n heap by simp
  then have reach: "pool_reachable zero_alloc (?w\<lparr>w_pool := st', w_held := hold (Some 1) (\<lambda>_. 0)\<rparr>)"
    using pool_reachable.step [OF pool_reachable.start [OF st]] r by simp
  from pool_safe [OF allocator_zero_alloc reach] show ?thesis
    by (intro exI [of _ "?w\<lparr>w_pool := st', w_held := hold (Some 1) (\<lambda>_. 0)\<rparr>"]) (use reach in \<open>simp add: hold_def\<close>)
qed

end
