(* ===== verification/BnWords.thy ===== *)
theory BnWords
  imports ConstTime "HOL-Library.Multiset"
begin

text \<open>
  Arithmetic on arrays of machine words (\<open>crypto/fipsmodule/bn/generic.c\<close>), the version with 64-bit
  words and \<open>uint128_t\<close>. An array is a list, least significant word first; \<open>bn_val\<close> is the number it
  holds. Each routine is proved to compute the exact sum, difference, product or square together with
  the carry or borrow it returns. The loops of the code read a word of every operand before they write
  the word of the same index, so the results also hold when the output array is one of the operands.
\<close>

section \<open>Words and double words\<close>

type_synonym u128 = "128 word"

definition Lw :: "u128 \<Rightarrow> u64" where
  "Lw t = ucast t"

definition Hw :: "u128 \<Rightarrow> u64" where
  "Hw t = ucast (drop_bit 64 t)"

text \<open>The macros return the word they store and the new carry.\<close>

definition mul_add :: "u64 \<Rightarrow> u64 \<Rightarrow> u64 \<Rightarrow> u64 \<Rightarrow> u64 \<times> u64" where
  "mul_add r a w c = (let t = ucast w * ucast a + ucast r + ucast c :: u128 in (Lw t, Hw t))"

definition mul_word :: "u64 \<Rightarrow> u64 \<Rightarrow> u64 \<Rightarrow> u64 \<times> u64" where
  "mul_word a w c = (let t = ucast w * ucast a + ucast c :: u128 in (Lw t, Hw t))"

definition sqr_word :: "u64 \<Rightarrow> u64 \<times> u64" where
  "sqr_word a = (let t = ucast a * ucast a :: u128 in (Lw t, Hw t))"

text \<open>The shape of the loops: four words at a time while there are four, then one at a time. \<open>f\<close> is the
  body, with the carry \<open>s\<close>; \<open>xs\<close> are the operands of the body from the current pointers on.\<close>

fun unrolled :: "nat \<Rightarrow> ('s \<Rightarrow> 'x \<Rightarrow> 'w \<times> 's) \<Rightarrow> 's \<Rightarrow> 'x list \<Rightarrow> 'w list \<times> 's" where
  "unrolled (Suc (Suc (Suc (Suc n)))) f s xs =
     (case f s (xs ! 0) of (r0, s) \<Rightarrow> case f s (xs ! 1) of (r1, s) \<Rightarrow>
      case f s (xs ! 2) of (r2, s) \<Rightarrow> case f s (xs ! 3) of (r3, s) \<Rightarrow>
      case unrolled n f s (drop 4 xs) of (rs, s) \<Rightarrow> ([r0, r1, r2, r3] @ rs, s))"
| "unrolled (Suc n) f s xs =
     (case f s (xs ! 0) of (r0, s) \<Rightarrow> case unrolled n f s (drop 1 xs) of (rs, s) \<Rightarrow> (r0 # rs, s))"
| "unrolled 0 f s xs = ([], s)"

definition bn_mul_add_words :: "u64 list \<Rightarrow> u64 list \<Rightarrow> size_t \<Rightarrow> u64 \<Rightarrow> u64 list \<times> u64" where
  "bn_mul_add_words rp ap n w = unrolled n (\<lambda>c1 (r, a). mul_add r a w c1) 0 (zip rp ap)"

definition bn_mul_words :: "u64 list \<Rightarrow> size_t \<Rightarrow> u64 \<Rightarrow> u64 list \<times> u64" where
  "bn_mul_words ap n w = unrolled n (\<lambda>c1 a. mul_word a w c1) 0 ap"

definition bn_sqr_words :: "u64 list \<Rightarrow> size_t \<Rightarrow> u64 list" where
  "bn_sqr_words a n = concat (map (\<lambda>(r0, r1). [r0, r1]) (fst (unrolled n (\<lambda>s a. (sqr_word a, s)) () a)))"

definition add_step :: "u128 \<Rightarrow> u64 \<times> u64 \<Rightarrow> u64 \<times> u128" where
  "add_step ll = (\<lambda>(x, y). let ll = ll + (ucast x + ucast y) in (ucast ll, drop_bit 64 ll))"

definition bn_add_words :: "u64 list \<Rightarrow> u64 list \<Rightarrow> size_t \<Rightarrow> u64 list \<times> u64" where
  "bn_add_words a b n =
     (case unrolled n add_step 0 (zip a b) of (r, ll) \<Rightarrow> (r, ucast ll))"

definition sub_step :: "u64 \<Rightarrow> u64 \<times> u64 \<Rightarrow> u64 \<times> u64" where
  "sub_step c = (\<lambda>(t1, t2). (t1 - t2 - c, if t1 \<noteq> t2 then (if t1 < t2 then 1 else 0) else c))"

definition bn_sub_words :: "u64 list \<Rightarrow> u64 list \<Rightarrow> size_t \<Rightarrow> u64 list \<times> u64" where
  "bn_sub_words a b n =
     unrolled n sub_step 0 (zip a b)"

section \<open>Columns of products\<close>

text \<open>A three-word accumulator \<open>(c0, c1, c2)\<close>.\<close>

type_synonym acc = "u64 \<times> u64 \<times> u64"

fun mul_add_c :: "u64 \<Rightarrow> u64 \<Rightarrow> acc \<Rightarrow> acc" where
  "mul_add_c a b (c0, c1, c2) =
     (let t = ucast a * ucast b :: u128;
          t = t + ucast c0;
          c0 = Lw t;
          hi = Hw t;
          c1 = c1 + hi
      in (c0, c1, if c1 < hi then c2 + 1 else c2))"

fun mul_add_c2 :: "u64 \<Rightarrow> u64 \<Rightarrow> acc \<Rightarrow> acc" where
  "mul_add_c2 a b (c0, c1, c2) =
     (let t = ucast a * ucast b :: u128;
          tt = t + ucast c0;
          c0 = Lw tt;
          hi = Hw tt;
          c1 = c1 + hi;
          c2 = (if c1 < hi then c2 + 1 else c2);
          t = t + ucast c0;
          c0 = Lw t;
          hi = Hw t;
          c1 = c1 + hi
      in (c0, c1, if c1 < hi then c2 + 1 else c2))"

definition sqr_add_c :: "u64 list \<Rightarrow> nat \<Rightarrow> acc \<Rightarrow> acc" where
  "sqr_add_c a i = mul_add_c (a ! i) (a ! i)"

definition sqr_add_c2 :: "u64 list \<Rightarrow> nat \<Rightarrow> nat \<Rightarrow> acc \<Rightarrow> acc" where
  "sqr_add_c2 a i j = mul_add_c2 (a ! i) (a ! j)"

text \<open>The unrolled routines are lists of columns: the calls that are made between two stores. After a
  column the lowest accumulator word is stored and cleared, and the three change places.\<close>

fun comba :: "('c \<Rightarrow> acc \<Rightarrow> acc) \<Rightarrow> 'c list list \<Rightarrow> acc \<Rightarrow> u64 list" where
  "comba call [] (c0, c1, c2) = [c0]"
| "comba call (col # cols) c = (case fold call col c of (c0, c1, c2) \<Rightarrow> c0 # comba call cols (c1, c2, 0))"

definition mul_columns8 :: "(nat \<times> nat) list list" where
  "mul_columns8 =
    [[(0, 0)],
     [(0, 1), (1, 0)],
     [(2, 0), (1, 1), (0, 2)],
     [(0, 3), (1, 2), (2, 1), (3, 0)],
     [(4, 0), (3, 1), (2, 2), (1, 3), (0, 4)],
     [(0, 5), (1, 4), (2, 3), (3, 2), (4, 1), (5, 0)],
     [(6, 0), (5, 1), (4, 2), (3, 3), (2, 4), (1, 5), (0, 6)],
     [(0, 7), (1, 6), (2, 5), (3, 4), (4, 3), (5, 2), (6, 1), (7, 0)],
     [(7, 1), (6, 2), (5, 3), (4, 4), (3, 5), (2, 6), (1, 7)],
     [(2, 7), (3, 6), (4, 5), (5, 4), (6, 3), (7, 2)],
     [(7, 3), (6, 4), (5, 5), (4, 6), (3, 7)],
     [(4, 7), (5, 6), (6, 5), (7, 4)],
     [(7, 5), (6, 6), (5, 7)],
     [(6, 7), (7, 6)],
     [(7, 7)]]"

definition bn_mul_comba8 :: "u64 list \<Rightarrow> u64 list \<Rightarrow> u64 list" where
  "bn_mul_comba8 a b = comba (\<lambda>(i, j). mul_add_c (a ! i) (b ! j)) mul_columns8 (0, 0, 0)"

definition mul_columns4 :: "(nat \<times> nat) list list" where
  "mul_columns4 =
    [[(0, 0)],
     [(0, 1), (1, 0)],
     [(2, 0), (1, 1), (0, 2)],
     [(0, 3), (1, 2), (2, 1), (3, 0)],
     [(3, 1), (2, 2), (1, 3)],
     [(2, 3), (3, 2)],
     [(3, 3)]]"

definition bn_mul_comba4 :: "u64 list \<Rightarrow> u64 list \<Rightarrow> u64 list" where
  "bn_mul_comba4 a b = comba (\<lambda>(i, j). mul_add_c (a ! i) (b ! j)) mul_columns4 (0, 0, 0)"

text \<open>In the squaring routines an equal pair is a call of \<open>sqr_add_c\<close>.\<close>

definition sqr_columns8 :: "(nat \<times> nat) list list" where
  "sqr_columns8 =
    [[(0, 0)],
     [(1, 0)],
     [(1, 1), (2, 0)],
     [(3, 0), (2, 1)],
     [(2, 2), (3, 1), (4, 0)],
     [(5, 0), (4, 1), (3, 2)],
     [(3, 3), (4, 2), (5, 1), (6, 0)],
     [(7, 0), (6, 1), (5, 2), (4, 3)],
     [(4, 4), (5, 3), (6, 2), (7, 1)],
     [(7, 2), (6, 3), (5, 4)],
     [(5, 5), (6, 4), (7, 3)],
     [(7, 4), (6, 5)],
     [(6, 6), (7, 5)],
     [(7, 6)],
     [(7, 7)]]"

definition sqr_call :: "u64 list \<Rightarrow> nat \<times> nat \<Rightarrow> acc \<Rightarrow> acc" where
  "sqr_call a ij = (if fst ij = snd ij then sqr_add_c a (fst ij) else sqr_add_c2 a (fst ij) (snd ij))"

definition bn_sqr_comba8 :: "u64 list \<Rightarrow> u64 list" where
  "bn_sqr_comba8 a = comba (sqr_call a) sqr_columns8 (0, 0, 0)"

definition sqr_columns4 :: "(nat \<times> nat) list list" where
  "sqr_columns4 =
    [[(0, 0)],
     [(1, 0)],
     [(1, 1), (2, 0)],
     [(3, 0), (2, 1)],
     [(2, 2), (3, 1)],
     [(3, 2)],
     [(3, 3)]]"

definition bn_sqr_comba4 :: "u64 list \<Rightarrow> u64 list" where
  "bn_sqr_comba4 a = comba (sqr_call a) sqr_columns4 (0, 0, 0)"

section \<open>The number in an array\<close>

primrec bn_val :: "u64 list \<Rightarrow> nat" where
  "bn_val [] = 0"
| "bn_val (w # ws) = unat w + 2 ^ 64 * bn_val ws"

lemma u64_less: "unat (w :: u64) < 2 ^ 64"
  using unsigned_less [of w, where 'a = nat] by simp

lemma u64_bounds: "0 \<le> uint (w :: u64)" "uint w < 2 ^ 64"
  using unsigned_less [of w, where 'a = int] by simp_all

lemma bn_val_less: "bn_val ws < 2 ^ (64 * length ws)"
proof (induction ws)
  case (Cons w ws)
  have "bn_val (w # ws) < 2 ^ 64 * (bn_val ws + 1)" using u64_less [of w] by simp
  also have "\<dots> \<le> 2 ^ 64 * 2 ^ (64 * length ws)" using Cons by (intro mult_left_mono) simp_all
  finally show ?case by (simp add: power_add)
qed simp

lemma bn_val_append: "bn_val (us @ vs) = bn_val us + 2 ^ (64 * length us) * bn_val vs"
  by (induction us) (simp_all add: algebra_simps power_add)

lemma bn_val_zeros [simp]: "bn_val (replicate n 0) = 0"
  by (induction n) simp_all

lemma bn_val_eq_0: "bn_val ws = 0 \<longleftrightarrow> (\<forall>w \<in> set ws. w = 0)"
  by (induction ws) (auto simp: unat_eq_zero)

lemma bn_val_take_drop: "n \<le> length ws \<Longrightarrow> bn_val ws = bn_val (take n ws) + 2 ^ (64 * n) * bn_val (drop n ws)"
  using bn_val_append [of "take n ws" "drop n ws"] by simp

lemma bn_val_inj: "length us = length vs \<Longrightarrow> bn_val us = bn_val vs \<Longrightarrow> us = vs"
proof (induction us vs rule: list_induct2)
  case (Cons u us v vs)
  have "bn_val (u # us) mod 2 ^ 64 = bn_val (v # vs) mod 2 ^ 64" using Cons.prems by simp
  then have uv: "unat u = unat v" using u64_less [of u] u64_less [of v] by simp
  then have "bn_val us = bn_val vs" using Cons.prems by simp
  with uv Cons.IH show ?case by (simp add: word_unat_eq_iff)
qed simp

lemma bn_pair_less: "x < B \<Longrightarrow> y < B \<Longrightarrow> x + B * y < B * (B :: nat)"
proof -
  assume "x < B" "y < B"
  then have "x + B * y < B * Suc y" by simp
  also have "\<dots> \<le> B * B" using \<open>y < B\<close> by (intro mult_left_mono) simp_all
  finally show ?thesis .
qed

text \<open>A number of given length has exactly one array.\<close>

lemma bn_val_split: "bn_val ws = x + 2 ^ (64 * n) * y \<Longrightarrow> x < 2 ^ (64 * n) \<Longrightarrow> n \<le> length ws \<Longrightarrow>
  bn_val (take n ws) = x \<and> bn_val (drop n ws) = y"
proof -
  assume eq: "bn_val ws = x + 2 ^ (64 * n) * y" and x: "x < 2 ^ (64 * n)" and n: "n \<le> length ws"
  have t: "bn_val (take n ws) < 2 ^ (64 * n)" using bn_val_less [of "take n ws"] n by simp
  have eq': "bn_val (take n ws) + 2 ^ (64 * n) * bn_val (drop n ws) = x + 2 ^ (64 * n) * y"
    using eq bn_val_take_drop [OF n] by simp
  have "(bn_val (take n ws) + 2 ^ (64 * n) * bn_val (drop n ws)) mod 2 ^ (64 * n) = (x + 2 ^ (64 * n) * y) mod 2 ^ (64 * n)"
    using eq' by simp
  then have "bn_val (take n ws) = x" using t x by (simp only: mod_mult_self2 mod_less)
  with eq' show ?thesis by simp
qed

section \<open>Loops\<close>

text \<open>The unrolled loop is the simple one.\<close>

fun each_word :: "('s \<Rightarrow> 'x \<Rightarrow> 'w \<times> 's) \<Rightarrow> 's \<Rightarrow> 'x list \<Rightarrow> 'w list \<times> 's" where
  "each_word f s [] = ([], s)"
| "each_word f s (x # xs) = (case f s x of (r, s) \<Rightarrow> case each_word f s xs of (rs, s) \<Rightarrow> (r # rs, s))"

lemma unrolled_each: "n \<le> length xs \<Longrightarrow> unrolled n f s xs = each_word f s (take n xs)"
proof (induction n f s xs rule: unrolled.induct)
  case (1 n f s xs)
  then obtain x0 x1 x2 x3 ys where xs: "xs = x0 # x1 # x2 # x3 # ys"
    by (metis Suc_le_length_iff)
  show ?case using "1.prems" "1.IH" by (simp add: xs eval_nat_numeral split: prod.split)
qed (auto simp: Suc_le_length_iff split: prod.split)

lemma length_each [simp]: "length (fst (each_word f s xs)) = length xs"
  by (induction xs arbitrary: s) (simp_all split: prod.split, metis fst_conv)

text \<open>A body that keeps \<open>digit + 2^64 * carry = operands + carry\<close> makes a loop that computes the sum of
  the operands at their positions.\<close>

primrec place :: "('x \<Rightarrow> int) \<Rightarrow> 'x list \<Rightarrow> int" where
  "place g [] = 0"
| "place g (x # xs) = g x + 2 ^ 64 * place g xs"

lemma each_word_place:
  assumes body: "\<And>s x r s'. ok s \<Longrightarrow> f s x = (r, s') \<Longrightarrow> ok s' \<and> uint r + 2 ^ 64 * v s' = g x + v s"
    and "ok s" and "each_word f s xs = (rs, s')"
  shows "ok s' \<and> int (bn_val rs) + 2 ^ (64 * length xs) * v s' = place g xs + v s"
  using assms(2,3)
proof (induction xs arbitrary: s rs)
  case (Cons x xs)
  obtain r s1 where f: "f s x = (r, s1)" by (cases "f s x")
  obtain rs1 s2 where e: "each_word f s1 xs = (rs1, s2)" by (cases "each_word f s1 xs")
  have eqs: "rs = r # rs1" "s' = s2" using Cons.prems f e by simp_all
  have b: "ok s1" "uint r + 2 ^ 64 * v s1 = g x + v s" using body [OF Cons.prems(1) f] by simp_all
  have i: "ok s'" "int (bn_val rs1) + 2 ^ (64 * length xs) * v s' = place g xs + v s1"
    using Cons.IH [OF b(1)] e eqs by simp_all
  have "int (bn_val rs) + 2 ^ (64 * length (x # xs)) * v s' =
      uint r + 2 ^ 64 * (int (bn_val rs1) + 2 ^ (64 * length xs) * v s')"
    by (simp add: eqs algebra_simps power_add)
  also have "\<dots> = g x + 2 ^ 64 * place g xs + v s" unfolding i(2) using b(2) by (simp add: algebra_simps)
  finally show ?case using i(1) by simp
qed simp

lemma unrolled_place:
  assumes body: "\<And>s x r s'. ok s \<Longrightarrow> f s x = (r, s') \<Longrightarrow> ok s' \<and> uint r + 2 ^ 64 * v s' = g x + v s"
    and "ok s" and n: "n \<le> length xs" and "unrolled n f s xs = (rs, s')"
  shows "ok s' \<and> int (bn_val rs) + 2 ^ (64 * n) * v s' = place g (take n xs) + v s \<and> length rs = n"
proof -
  have e: "each_word f s (take n xs) = (rs, s')" using assms(4) by (simp only: unrolled_each [OF n])
  have "length rs = n" using length_each [of f s "take n xs"] e n by simp
  then show ?thesis
    using each_word_place [where ok = ok and v = v and g = g, OF body \<open>ok s\<close> e] n by simp
qed

lemma place_val: "place uint xs = int (bn_val xs)"
  by (induction xs) simp_all

lemma place_mult: "place (\<lambda>x. g x * w) xs = place g xs * w"
  by (induction xs) (simp_all add: algebra_simps)

lemma place_zip:
  "length xs = length ys \<Longrightarrow> place (\<lambda>(x, y). g x + h y) (zip xs ys) = place g xs + place h ys"
  by (induction xs ys rule: list_induct2) (simp_all add: algebra_simps)

lemma place_zip_diff:
  "length xs = length ys \<Longrightarrow> place (\<lambda>(x, y). g x - h y) (zip xs ys) = place g xs - place h ys"
  by (induction xs ys rule: list_induct2) (simp_all add: algebra_simps)

section \<open>Double-word products\<close>

lemma u128_hi_lo: "unat (Lw t) + 2 ^ 64 * unat (Hw t) = unat t"
proof -
  have l: "unat (Lw t) = unat t mod 2 ^ 64"
    unfolding Lw_def by (simp add: unsigned_ucast_eq take_bit_eq_mod)
  have "unat t < 2 ^ 128" using unsigned_less [of t, where 'a = nat] by simp
  then have "unat t div 2 ^ 64 < 2 ^ 64" by (simp add: less_mult_imp_div_less)
  moreover have "unat (drop_bit 64 t) = unat t div 2 ^ 64" unfolding unat_drop_bit_eq by (simp only: drop_bit_eq_div)
  ultimately have h: "unat (Hw t) = unat t div 2 ^ 64"
    unfolding Hw_def unsigned_ucast_eq by (simp only: len_of_numeral_defs) (simp add: take_bit_nat_eq_self)
  show ?thesis unfolding l h by simp
qed

lemma unat_u128 [simp]: "unat (ucast (a :: u64) :: u128) = unat a"
  using u64_less [of a] by (simp add: unsigned_ucast_eq take_bit_nat_eq_self)

lemma prod_bound: "unat (a :: u64) * unat (b :: u64) \<le> (2 ^ 64 - 1) * (2 ^ 64 - 1)"
  using u64_less [of a] u64_less [of b] by (intro mult_mono) simp_all

lemma unat_u128_prod: "unat (ucast (a :: u64) * ucast (b :: u64) :: u128) = unat a * unat b"
  using prod_bound [of a b] by (subst unat_mult_lem [THEN iffD1]) simp_all

lemma unat_u128_prod_add:
  "unat (ucast a * ucast b + ucast c :: u128) = unat (a :: u64) * unat (b :: u64) + unat (c :: u64)"
  using prod_bound [of a b] u64_less [of c]
  by (subst unat_add_lem [THEN iffD1]) (simp_all add: unat_u128_prod)

lemma unat_u128_prod_add2:
  "unat (ucast a * ucast b + ucast c + ucast d :: u128) = unat (a :: u64) * unat (b :: u64) + unat (c :: u64) + unat (d :: u64)"
  using prod_bound [of a b] u64_less [of c] u64_less [of d]
  by (subst unat_add_lem [THEN iffD1]) (simp_all add: unat_u128_prod_add)

lemma mul_add_val: "mul_add r a w c = (r', c') \<Longrightarrow> unat r' + 2 ^ 64 * unat c' = unat r + unat a * unat w + unat c"
  using u128_hi_lo [of "ucast w * ucast a + ucast r + ucast c"]
  unfolding unat_u128_prod_add2 by (auto simp: mul_add_def Let_def)

lemma mul_word_val: "mul_word a w c = (r', c') \<Longrightarrow> unat r' + 2 ^ 64 * unat c' = unat a * unat w + unat c"
  using u128_hi_lo [of "ucast w * ucast a + ucast c"]
  unfolding unat_u128_prod_add by (auto simp: mul_word_def Let_def)

lemma sqr_word_val: "sqr_word a = (r0, r1) \<Longrightarrow> unat r0 + 2 ^ 64 * unat r1 = unat a * unat a"
  using u128_hi_lo [of "ucast a * ucast a"] by (auto simp: sqr_word_def Let_def unat_u128_prod)

section \<open>What the word routines compute\<close>

lemma mul_add_words_val:
  assumes "bn_mul_add_words rp ap n w = (r, c)" and n: "n \<le> length rp" "n \<le> length ap"
  shows "bn_val r + 2 ^ (64 * n) * unat c = bn_val (take n rp) + bn_val (take n ap) * unat w \<and> length r = n"
proof -
  have body: "True \<and> uint r' + 2 ^ 64 * uint c' = (case x of (r, a) \<Rightarrow> uint r + uint a * uint w) + uint c"
    if "(case x of (r, a) \<Rightarrow> mul_add r a w c) = (r', c')" for c x r' c'
    using that arg_cong [OF mul_add_val [of "fst x" "snd x" w c r' c'], of int] by (cases x) simp
  have z: "take n (zip rp ap) = zip (take n rp) (take n ap)" by (rule take_zip)
  have l: "length (take n rp) = length (take n ap)" using n by simp
  from unrolled_place [where ok = "\<lambda>_. True" and v = uint and n = n and xs = "zip rp ap", OF body]
  have "int (bn_val r) + 2 ^ (64 * n) * uint c =
      place (\<lambda>(r, a). uint r + uint a * uint w) (zip (take n rp) (take n ap)) \<and> length r = n"
    using assms unfolding bn_mul_add_words_def z by simp
  then have "int (bn_val r + 2 ^ (64 * n) * unat c) = int (bn_val (take n rp) + bn_val (take n ap) * unat w)" and lr: "length r = n"
    unfolding place_zip [OF l, where g = uint and h = "\<lambda>a. uint a * uint w"]
      place_val place_mult by simp_all
  then show ?thesis unfolding of_nat_eq_iff by simp
qed

lemma mul_words_val:
  assumes "bn_mul_words ap n w = (r, c)" and n: "n \<le> length ap"
  shows "bn_val r + 2 ^ (64 * n) * unat c = bn_val (take n ap) * unat w \<and> length r = n"
proof -
  have body: "True \<and> uint r' + 2 ^ 64 * uint c' = uint a * uint w + uint c"
    if "mul_word a w c = (r', c')" for c a r' c'
    using arg_cong [OF mul_word_val [OF that], of int] by simp
  from unrolled_place [where ok = "\<lambda>_. True" and v = uint and n = n and xs = ap, OF body]
  have "int (bn_val r) + 2 ^ (64 * n) * uint c = place (\<lambda>a. uint a * uint w) (take n ap) \<and> length r = n"
    using assms unfolding bn_mul_words_def by simp
  then have "int (bn_val r + 2 ^ (64 * n) * unat c) = int (bn_val (take n ap) * unat w)" and "length r = n"
    unfolding place_mult place_val by simp_all
  then show ?thesis unfolding of_nat_eq_iff by simp
qed

lemma add_words_val:
  assumes "bn_add_words a b n = (r, c)" and n: "n \<le> length a" "n \<le> length b"
  shows "bn_val r + 2 ^ (64 * n) * unat c = bn_val (take n a) + bn_val (take n b) \<and> length r = n \<and> unat c \<le> 1"
proof -
  obtain ll where u: "unrolled n add_step 0 (zip a b) = (r, ll)" and c: "c = ucast ll"
    using assms(1) by (auto simp: bn_add_words_def split: prod.splits)
  have body: "unat ll' \<le> 1 \<and> uint r' + 2 ^ 64 * uint ll' = (case x of (x, y) \<Rightarrow> uint x + uint y) + uint ll"
    if ll: "unat ll \<le> 1" and f: "add_step ll x = (r', ll')" for ll x r' ll'
  proof -
    obtain x1 y1 where x: "x = (x1, y1)" by (cases x)
    define s where "s = ll + (ucast x1 + ucast y1)"
    have "unat (ucast x1 + ucast y1 :: u128) = unat x1 + unat y1"
      using u64_less [of x1] u64_less [of y1] by (subst unat_add_lem [THEN iffD1]) simp_all
    then have s: "unat s = unat ll + (unat x1 + unat y1)"
      unfolding s_def using u64_less [of x1] u64_less [of y1] ll by (subst unat_add_lem [THEN iffD1]) simp_all
    have r: "r' = Lw s" "ll' = drop_bit 64 s" using f by (simp_all add: x s_def add_step_def Let_def Lw_def)
    have d: "unat ll' = unat s div 2 ^ 64" unfolding r unat_drop_bit_eq by (simp only: drop_bit_eq_div)
    have "unat s < 2 * 2 ^ 64" using u64_less [of x1] u64_less [of y1] ll unfolding s by simp
    then have 1: "unat ll' \<le> 1" unfolding d by (simp add: less_mult_imp_div_less flip: less_Suc_eq_le)
    have "unat r' = unat s mod 2 ^ 64" unfolding r Lw_def by (simp add: unsigned_ucast_eq take_bit_eq_mod)
    then have "unat r' + 2 ^ 64 * unat ll' = unat s" unfolding d by simp
    then have "unat r' + 2 ^ 64 * unat ll' = unat x1 + unat y1 + unat ll" unfolding s by simp
    from arg_cong [OF this, of int] show ?thesis using 1 x by simp
  qed
  have z: "take n (zip a b) = zip (take n a) (take n b)" by (rule take_zip)
  have l: "length (take n a) = length (take n b)" using n by simp
  from unrolled_place [where ok = "\<lambda>ll. unat ll \<le> 1" and v = uint and f = add_step and s = 0 and
    g = "\<lambda>(x, y). uint x + uint y" and n = n and xs = "zip a b", OF body]
  have *: "unat ll \<le> 1" "length r = n"
    "int (bn_val r) + 2 ^ (64 * n) * uint ll = place (\<lambda>(x, y). uint x + uint y) (zip (take n a) (take n b))"
    using u n unfolding z by simp_all
  have "unat c = unat ll" using *(1) unfolding c by (simp add: unsigned_ucast_eq take_bit_nat_eq_self)
  moreover have "int (bn_val r + 2 ^ (64 * n) * unat ll) = int (bn_val (take n a) + bn_val (take n b))"
    using *(3) unfolding place_zip [OF l, where g = uint and h = uint] place_val by simp
  ultimately show ?thesis using * unfolding of_nat_eq_iff by simp
qed

lemma sub_step_val:
  assumes c: "c \<in> {0, 1}" and f: "sub_step c x = (r', c')"
  shows "c' \<in> {0, 1} \<and> uint r' + 2 ^ 64 * - uint c' = (case x of (x, y) \<Rightarrow> uint x - uint y) + - uint c"
proof -
  obtain x1 y1 where x: "x = (x1, y1)" by (cases x)
  have eqs: "r' = x1 - y1 - c" "c' = (if x1 \<noteq> y1 then (if x1 < y1 then 1 else 0) else c)" using f by (simp_all add: x sub_step_def)
  have uc: "0 \<le> uint c" "uint c \<le> 1" using c by auto
  have ci: "c' \<in> {0, 1}" using c by (simp add: eqs)
  define d where "d = uint x1 - uint y1 - uint c"
  have "uint r' = d mod 2 ^ 64"
    unfolding eqs d_def by (simp add: uint_word_ariths mod_simps flip: uint_nat)
  moreover have "- (2 ^ 64) \<le> d" "d < 2 ^ 64"
    using u64_bounds [of x1] u64_bounds [of y1] uc unfolding d_def by linarith+
  moreover have "uint c' = (if d < 0 then 1 else 0)"
  proof (cases "x1 = y1")
    case True
    then show ?thesis using c by (auto simp: eqs d_def)
  next
    case False
    then have "uint x1 \<noteq> uint y1" by (simp add: word_uint_eq_iff)
    then show ?thesis using c False by (auto simp: eqs d_def word_less_def)
  qed
  ultimately have "uint r' - 2 ^ 64 * uint c' = d"
  proof (cases "d < 0")
    case True
    have "d mod 2 ^ 64 = (d + 2 ^ 64) mod 2 ^ 64" by simp
    also have "\<dots> = d + 2 ^ 64" using True \<open>- (2 ^ 64) \<le> d\<close> by (intro mod_pos_pos_trivial) simp_all
    finally show ?thesis using True \<open>uint r' = _\<close> \<open>uint c' = _\<close> by simp
  qed (simp add: mod_pos_pos_trivial)
  then show ?thesis using ci by (simp add: x d_def)
qed

lemma sub_words_val:
  assumes "bn_sub_words a b n = (r, c)" and n: "n \<le> length a" "n \<le> length b"
  shows "int (bn_val r) - 2 ^ (64 * n) * uint c = int (bn_val (take n a)) - int (bn_val (take n b)) \<and>
    length r = n \<and> c \<in> {0, 1}"
proof -
  have z: "take n (zip a b) = zip (take n a) (take n b)" by (rule take_zip)
  have l: "length (take n a) = length (take n b)" using n by simp
  from unrolled_place [where ok = "\<lambda>c. c \<in> {0, 1}" and v = "\<lambda>c. - uint c" and f = sub_step and s = 0 and
    g = "\<lambda>(x, y). uint x - uint y" and n = n and xs = "zip a b", OF sub_step_val]
  have *: "c \<in> {0, 1}" "length r = n"
    "int (bn_val r) - 2 ^ (64 * n) * uint c = place (\<lambda>(x, y). uint x - uint y) (zip (take n a) (take n b))"
    using assms unfolding bn_sub_words_def z by simp_all
  then show ?thesis
    unfolding place_zip_diff [OF l, where g = uint and h = uint] place_val by simp
qed

lemma sqr_words_val:
  assumes "n \<le> length a"
  shows "length (bn_sqr_words a n) = 2 * n \<and>
    bn_val (bn_sqr_words a n) = (\<Sum>i<n. (unat (a ! i))\<^sup>2 * 2 ^ (128 * i))"
proof -
  have e: "each_word (\<lambda>s a. (sqr_word a, s)) () ws = (map sqr_word ws, ())" for ws by (induction ws) simp_all
  have "bn_sqr_words a n = concat (map (\<lambda>(r0, r1). [r0, r1]) (map sqr_word (take n a)))"
    unfolding bn_sqr_words_def unrolled_each [OF assms] e by simp
  moreover have "length (concat (map (\<lambda>(r0, r1). [r0, r1]) (map sqr_word ws))) = 2 * length ws \<and>
      bn_val (concat (map (\<lambda>(r0, r1). [r0, r1]) (map sqr_word ws))) = (\<Sum>i<length ws. (unat (ws ! i))\<^sup>2 * 2 ^ (128 * i))" for ws
  proof (induction ws)
    case (Cons w ws)
    obtain r0 r1 where r: "sqr_word w = (r0, r1)" by (cases "sqr_word w")
    define V where "V = bn_val (concat (map (\<lambda>(r0, r1). [r0, r1]) (map sqr_word ws)))"
    have "bn_val (concat (map (\<lambda>(r0, r1). [r0, r1]) (map sqr_word (w # ws)))) = (unat r0 + 2 ^ 64 * unat r1) + 2 ^ 128 * V"
      by (simp add: r V_def)
    also have "\<dots> = (unat w)\<^sup>2 + 2 ^ 128 * (\<Sum>i<length ws. (unat (ws ! i))\<^sup>2 * 2 ^ (128 * i))"
      unfolding sqr_word_val [OF r] using Cons by (simp add: V_def power2_eq_square)
    also have "\<dots> = (\<Sum>i<length (w # ws). (unat ((w # ws) ! i))\<^sup>2 * 2 ^ (128 * i))"
      unfolding length_Cons sum.lessThan_Suc_shift by (simp add: sum_distrib_left sum_distrib_right distrib_left power_add ac_simps)
    finally show ?case using Cons r by simp
  qed simp
  ultimately show ?thesis using assms by simp
qed

section \<open>Columns\<close>

fun acc_val :: "acc \<Rightarrow> nat" where
  "acc_val (c0, c1, c2) = unat c0 + 2 ^ 64 * unat c1 + 2 ^ 128 * unat c2"

text \<open>Adding a word with the carry into the next one, as the macros do.\<close>

lemma carry_chain:
  assumes "unat (c1 :: u64) + 2 ^ 64 * unat (c2 :: u64) + unat hi < 2 ^ 128"
  shows "unat (c1 + hi) + 2 ^ 64 * unat (if c1 + hi < hi then c2 + 1 else c2) = unat c1 + 2 ^ 64 * unat c2 + unat hi"
proof (cases "unat c1 + unat hi < 2 ^ 64")
  case True
  then have "unat (c1 + hi) = unat c1 + unat hi" by (subst unat_add_lem [THEN iffD1]) simp_all
  then show ?thesis by (simp add: word_less_nat_alt)
next
  case False
  have s: "unat (c1 + hi) = unat c1 + unat hi - 2 ^ 64"
    using False u64_less [of c1] u64_less [of hi] by (simp add: unat_word_ariths mod_if)
  have "2 ^ 64 * unat c2 + 2 ^ 64 < 2 ^ 128" using assms False by linarith
  then have c2: "unat (c2 + 1) = unat c2 + 1" by (subst unat_add_lem [THEN iffD1]) simp_all
  have "c1 + hi < hi" using s False u64_less [of c1] by (simp add: word_less_nat_alt)
  then show ?thesis using s c2 False by simp
qed

lemma mul_add_c_val:
  assumes "acc_val c + unat a * unat b < 2 ^ 192"
  shows "acc_val (mul_add_c a b c) = acc_val c + unat a * unat b"
proof -
  obtain c0 c1 c2 where c: "c = (c0, c1, c2)" by (cases c)
  define t :: u128 where "t = ucast a * ucast b + ucast c0"
  have t: "unat (Lw t) + 2 ^ 64 * unat (Hw t) = unat a * unat b + unat c0"
    unfolding u128_hi_lo t_def by (rule unat_u128_prod_add)
  have "unat c1 + 2 ^ 64 * unat c2 + unat (Hw t) < 2 ^ 128"
    using assms t unfolding c acc_val.simps by simp
  from carry_chain [OF this] show ?thesis
    using t unfolding c mul_add_c.simps Let_def acc_val.simps t_def [symmetric] by simp
qed

lemma mul_add_c2_twice: "mul_add_c2 a b c = mul_add_c a b (mul_add_c a b c)"
  by (cases c) (simp add: Let_def)

lemma mul_add_c2_val:
  assumes "acc_val c + 2 * (unat a * unat b) < 2 ^ 192"
  shows "acc_val (mul_add_c2 a b c) = acc_val c + 2 * (unat a * unat b)"
  using assms unfolding mul_add_c2_twice by (simp add: mul_add_c_val)

text \<open>A call adds its amount when there is room; a column adds up its calls.\<close>

lemma column_val:
  assumes call: "\<And>ij c. ij \<in> set col \<Longrightarrow> acc_val c + g ij < 2 ^ 192 \<Longrightarrow> acc_val (call ij c) = acc_val c + g ij"
    and "acc_val c + sum_list (map g col) < 2 ^ 192"
  shows "acc_val (fold call col c) = acc_val c + sum_list (map g col)"
  using assms
proof (induction col arbitrary: c)
  case (Cons ij col)
  have 1: "acc_val (call ij c) = acc_val c + g ij" using Cons.prems(1) [of ij c] Cons.prems(2) by simp
  have "acc_val (fold call col (call ij c)) = acc_val (call ij c) + sum_list (map g col)"
    using Cons.prems by (intro Cons.IH) (simp_all add: 1)
  then show ?case by (simp add: 1)
qed simp

text \<open>The columns at their positions.\<close>

primrec columns :: "('c \<Rightarrow> nat) \<Rightarrow> 'c list list \<Rightarrow> nat" where
  "columns g [] = 0"
| "columns g (col # cols) = sum_list (map g col) + 2 ^ 64 * columns g cols"

lemma comba_val:
  assumes call: "\<And>col ij c. col \<in> set cols \<Longrightarrow> ij \<in> set col \<Longrightarrow> acc_val c + g ij < 2 ^ 192 \<Longrightarrow>
      acc_val (call ij c) = acc_val c + g ij"
    and room: "\<And>col. col \<in> set cols \<Longrightarrow> sum_list (map g col) \<le> 8 * 2 ^ 128"
    and "acc_val c < 2 ^ 128"
  shows "bn_val (comba call cols c) = (acc_val c + columns g cols) mod 2 ^ (64 * Suc (length cols)) \<and>
    length (comba call cols c) = Suc (length cols)"
  using assms
proof (induction cols arbitrary: c)
  case Nil
  obtain c0 c1 c2 where c: "c = (c0, c1, c2)" by (cases c)
  have "acc_val c = unat c0 + 2 ^ 64 * (unat c1 + 2 ^ 64 * unat c2)" by (simp add: c)
  then have "acc_val c mod 2 ^ 64 = unat c0" using u64_less [of c0] by (simp only: mod_mult_self2 mod_less)
  then show ?case by (simp add: c)
next
  case (Cons col cols)
  obtain c0 c1 c2 where f: "fold call col c = (c0, c1, c2)" by (cases "fold call col c")
  have "sum_list (map g col) \<le> 8 * 2 ^ 128" using Cons.prems(2) by simp
  then have "acc_val c + sum_list (map g col) < 2 ^ 192" using Cons.prems(3) by simp
  then have s: "acc_val (c0, c1, c2) = acc_val c + sum_list (map g col)"
    unfolding f [symmetric] using Cons.prems(1) [of col] by (intro column_val) simp_all
  have a: "acc_val (c1, c2, 0) < 2 ^ 128" using u64_less [of c1] u64_less [of c2] by simp
  have IH: "bn_val (comba call cols (c1, c2, 0)) = (acc_val (c1, c2, 0) + columns g cols) mod 2 ^ (64 * Suc (length cols))"
    "length (comba call cols (c1, c2, 0)) = Suc (length cols)"
    using Cons.IH [OF _ _ a] Cons.prems(1) [OF list.set_intros(2)] Cons.prems(2) [OF list.set_intros(2)] by blast+
  define R where "R = acc_val (c1, c2, 0) + columns g cols"
  have sum: "acc_val c + columns g (col # cols) = unat c0 + 2 ^ 64 * R"
    using s by (simp add: R_def algebra_simps)
  have pw: "(2 :: nat) ^ (64 * Suc (length (col # cols))) = 2 ^ 64 * 2 ^ (64 * Suc (length cols))"
    by (simp add: power_add)
  have "(unat c0 + 2 ^ 64 * R) mod (2 ^ 64 * 2 ^ (64 * Suc (length cols))) = unat c0 + 2 ^ 64 * (R mod 2 ^ (64 * Suc (length cols)))"
    unfolding mod_mult2_eq using u64_less [of c0] by simp
  then have "(acc_val c + columns g (col # cols)) mod 2 ^ (64 * Suc (length (col # cols))) =
      unat c0 + 2 ^ 64 * bn_val (comba call cols (c1, c2, 0))"
    unfolding sum IH(1) R_def [symmetric] pw .
  then show ?case using IH(2) f by simp
qed

text \<open>The pairs of a table of products: every pair of positions, in the column of its sum.\<close>

definition covers :: "nat \<Rightarrow> (nat \<times> nat) list list \<Rightarrow> bool" where
  "covers n cols \<longleftrightarrow> mset (concat cols) = mset (List.product [0..<n] [0..<n]) \<and>
     list_all (\<lambda>(k, col). list_all (\<lambda>(i, j). i + j = k) col \<and> length col \<le> 8) (enumerate 0 cols)"

lemma columns_flat:
  assumes "list_all (\<lambda>(k, col). list_all (\<lambda>(i, j). i + j = k) col \<and> length col \<le> 8) (enumerate m cols)"
  shows "2 ^ (64 * m) * columns (\<lambda>(i, j). f i * h j) cols = sum_list (map (\<lambda>(i, j). (f i * 2 ^ (64 * i)) * (h j * 2 ^ (64 * j))) (concat cols))"
  using assms
proof (induction cols arbitrary: m)
  case (Cons col cols)
  have "sum_list (map (\<lambda>(i, j). (f i * 2 ^ (64 * i)) * (h j * 2 ^ (64 * j))) col) = 2 ^ (64 * m) * sum_list (map (\<lambda>(i, j). f i * h j) col)"
    if "list_all (\<lambda>(i, j). i + j = m) col" for col
    using that by (induction col) (auto simp: algebra_simps power_add)
  moreover have "2 ^ (64 * Suc m) * columns (\<lambda>(i, j). f i * h j) cols =
      sum_list (map (\<lambda>(i, j). (f i * 2 ^ (64 * i)) * (h j * 2 ^ (64 * j))) (concat cols))"
    using Cons.prems by (intro Cons.IH) simp
  ultimately have "sum_list (map (\<lambda>(i, j). (f i * 2 ^ (64 * i)) * (h j * 2 ^ (64 * j))) (concat (col # cols))) =
      2 ^ (64 * m) * sum_list (map (\<lambda>(i, j). f i * h j) col) + 2 ^ (64 * Suc m) * columns (\<lambda>(i, j). f i * h j) cols"
    using Cons.prems by simp
  then show ?case by (simp add: algebra_simps power_add)
qed simp

lemma bn_val_sum: "bn_val ws = (\<Sum>i\<leftarrow>[0..<length ws]. unat (ws ! i) * 2 ^ (64 * i))"
proof (induction ws)
  case (Cons w ws)
  have "(\<Sum>i\<leftarrow>[0..<length (w # ws)]. unat ((w # ws) ! i) * 2 ^ (64 * i)) =
      unat w + (\<Sum>i\<leftarrow>[0..<length ws]. unat (ws ! i) * 2 ^ (64 * Suc i))"
    by (simp add: upt_conv_Cons map_Suc_upt [symmetric] o_def del: upt_Suc)
  also have "\<dots> = unat w + 2 ^ 64 * (\<Sum>i\<leftarrow>[0..<length ws]. unat (ws ! i) * 2 ^ (64 * i))"
    by (simp add: sum_list_const_mult [symmetric] sum_list_mult_const [symmetric] power_add ac_simps)
  finally show ?case using Cons by simp
qed simp

lemma product_sum:
  "sum_list (map (\<lambda>(i, j). f i * h j) (List.product xs ys)) = sum_list (map f xs) * (sum_list (map h ys) :: nat)"
  by (induction xs) (simp_all add: o_def sum_list_const_mult algebra_simps)

lemma covers_product:
  assumes "covers n cols" and l: "length a = n" "length b = n"
  shows "columns (\<lambda>(i, j). unat (a ! i) * unat (b ! j)) cols = bn_val a * bn_val b"
proof -
  have "columns (\<lambda>(i, j). unat (a ! i) * unat (b ! j)) cols =
      sum_list (map (\<lambda>(i, j). (unat (a ! i) * 2 ^ (64 * i)) * (unat (b ! j) * 2 ^ (64 * j))) (concat cols))"
    using columns_flat [of 0 cols "\<lambda>i. unat (a ! i)" "\<lambda>j. unat (b ! j)"] assms(1) by (simp add: covers_def)
  also have "\<dots> = sum_list (map (\<lambda>(i, j). (unat (a ! i) * 2 ^ (64 * i)) * (unat (b ! j) * 2 ^ (64 * j))) (List.product [0..<n] [0..<n]))"
    using assms(1) by (simp only: covers_def mset_map flip: sum_mset_sum_list)
  also have "\<dots> = bn_val a * bn_val b"
    unfolding product_sum by (simp add: bn_val_sum l)
  finally show ?thesis .
qed

lemma covers_tables: "covers 8 mul_columns8" "covers 4 mul_columns4"
  unfolding covers_def mul_columns8_def mul_columns4_def by code_simp+

text \<open>A column of at most eight calls, each adding at most a square of the largest word.\<close>

lemma column_room:
  assumes "length col \<le> 8" and "\<And>ij. g ij \<le> (2 :: nat) ^ 128"
  shows "sum_list (map g col) \<le> 8 * 2 ^ 128"
proof -
  have "sum_list (map g col) \<le> sum_list (map (\<lambda>_. 2 ^ 128) col)"
    using assms(2) by (intro sum_list_mono) simp
  also have "\<dots> = length col * 2 ^ 128" by (simp add: sum_list_triv)
  also have "\<dots> \<le> 8 * 2 ^ 128" using assms(1) by (intro mult_right_mono) simp_all
  finally show ?thesis .
qed

lemma covers_length:
  assumes "covers n cols" and "col \<in> set cols"
  shows "length col \<le> 8"
proof -
  obtain k where k: "k < length cols" "cols ! k = col" using assms(2) by (auto simp: in_set_conv_nth)
  then have "(k, col) \<in> set (enumerate 0 cols)" by (simp add: in_set_enumerate_eq)
  with assms(1) show ?thesis unfolding covers_def list_all_iff by blast
qed

lemma mul_comba_val:
  assumes cov: "covers n cols" and l: "length a = n" "length b = n" and c: "Suc (length cols) = 2 * n"
  shows "bn_val (comba (\<lambda>(i, j). mul_add_c (a ! i) (b ! j)) cols (0, 0, 0)) = bn_val a * bn_val b \<and>
    length (comba (\<lambda>(i, j). mul_add_c (a ! i) (b ! j)) cols (0, 0, 0)) = 2 * n"
proof -
  define g where "g = (\<lambda>(i, j). unat (a ! i) * unat (b ! j))"
  have g: "g ij \<le> 2 ^ 128" for ij
    using prod_bound [of "a ! fst ij" "b ! snd ij"] by (simp add: g_def split_beta)
  have "bn_val (comba (\<lambda>(i, j). mul_add_c (a ! i) (b ! j)) cols (0, 0, 0)) =
      (acc_val (0, 0, 0) + columns g cols) mod 2 ^ (64 * Suc (length cols)) \<and>
      length (comba (\<lambda>(i, j). mul_add_c (a ! i) (b ! j)) cols (0, 0, 0)) = Suc (length cols)"
  proof (rule comba_val)
    show "acc_val ((\<lambda>(i, j). mul_add_c (a ! i) (b ! j)) ij c) = acc_val c + g ij"
      if "acc_val c + g ij < 2 ^ 192" for ij c
      using that mul_add_c_val [of c "a ! fst ij" "b ! snd ij"] by (simp add: g_def split_beta del: mul_add_c.simps acc_val.simps)
    show "sum_list (map g col) \<le> 8 * 2 ^ 128" if "col \<in> set cols" for col
      by (rule column_room [OF covers_length [OF cov that] g])
  qed simp
  moreover have "columns g cols = bn_val a * bn_val b" unfolding g_def by (rule covers_product [OF cov l])
  moreover have "bn_val a * bn_val b < 2 ^ (64 * n) * 2 ^ (64 * n)"
    using bn_val_less [of a] bn_val_less [of b] unfolding l by (intro mult_strict_mono) simp_all
  ultimately show ?thesis using c by (simp flip: power_add add: mult_2_right algebra_simps)
qed

text \<open>The routines look at the first words of their operands only.\<close>

lemma comba_cong:
  assumes "\<And>col ij c. col \<in> set cols \<Longrightarrow> ij \<in> set col \<Longrightarrow> call ij c = call' ij c"
  shows "comba call cols c = comba call' cols c"
  using assms
proof (induction cols arbitrary: c)
  case Nil
  then show ?case by (cases c) simp
next
  case (Cons col cols)
  have "fold call col c = fold call' col c" using Cons.prems [of col] by (intro fold_cong) auto
  moreover have "comba call cols c = comba call' cols c" for c
    using Cons.IH Cons.prems by (meson list.set_intros(2))
  ultimately show ?case by (simp split: prod.split)
qed

lemma covers_less:
  assumes "covers n cols" and "col \<in> set cols" and "(i, j) \<in> set col"
  shows "i < n \<and> j < n"
proof -
  have "(i, j) \<in># mset (concat cols)" using assms(2,3) by auto
  then show ?thesis unfolding assms(1) [unfolded covers_def, THEN conjunct1] by simp
qed

lemma mul_comba_part:
  assumes cov: "covers n cols" and l: "n \<le> length a" "n \<le> length b" and c: "Suc (length cols) = 2 * n"
  shows "bn_val (comba (\<lambda>(i, j). mul_add_c (a ! i) (b ! j)) cols (0, 0, 0)) = bn_val (take n a) * bn_val (take n b) \<and>
    length (comba (\<lambda>(i, j). mul_add_c (a ! i) (b ! j)) cols (0, 0, 0)) = 2 * n"
proof -
  have "comba (\<lambda>(i, j). mul_add_c (a ! i) (b ! j)) cols (0, 0, 0) =
      comba (\<lambda>(i, j). mul_add_c (take n a ! i) (take n b ! j)) cols (0, 0, 0)"
    by (rule comba_cong) (auto dest: covers_less [OF cov])
  then show ?thesis using mul_comba_val [OF cov _ _ c, of "take n a" "take n b"] l by simp
qed

lemma mul_comba8_val:
  "8 \<le> length a \<Longrightarrow> 8 \<le> length b \<Longrightarrow>
   bn_val (bn_mul_comba8 a b) = bn_val (take 8 a) * bn_val (take 8 b) \<and> length (bn_mul_comba8 a b) = 16"
  using mul_comba_part [OF covers_tables(1)] by (simp add: bn_mul_comba8_def mul_columns8_def)

lemma mul_comba4_val:
  "4 \<le> length a \<Longrightarrow> 4 \<le> length b \<Longrightarrow>
   bn_val (bn_mul_comba4 a b) = bn_val (take 4 a) * bn_val (take 4 b) \<and> length (bn_mul_comba4 a b) = 8"
  using mul_comba_part [OF covers_tables(2)] by (simp add: bn_mul_comba4_def mul_columns4_def)

text \<open>A squaring column stands for the product column in which every unequal pair occurs both ways.\<close>

definition both_ways :: "(nat \<times> nat) list \<Rightarrow> (nat \<times> nat) list" where
  "both_ways col = concat (map (\<lambda>(i, j). if i = j then [(i, j)] else [(i, j), (j, i)]) col)"

lemma covers_squares: "covers 8 (map both_ways sqr_columns8)" "covers 4 (map both_ways sqr_columns4)"
  unfolding covers_def sqr_columns8_def sqr_columns4_def both_ways_def by code_simp+

lemma sqr_call_both: "fold (\<lambda>(i, j). mul_add_c (a ! i) (a ! j)) (both_ways col) c = fold (sqr_call a) col c"
proof (induction col arbitrary: c)
  case (Cons ij col)
  have m: "mul_add_c y x = mul_add_c x y" for x y by (rule ext) (auto simp: Let_def mult.commute)
  show ?case using Cons m [of "a ! snd ij" "a ! fst ij"]
    by (cases ij) (simp add: both_ways_def sqr_call_def sqr_add_c_def sqr_add_c2_def mul_add_c2_twice)
qed (simp add: both_ways_def)

lemma comba_both: "comba (\<lambda>(i, j). mul_add_c (a ! i) (a ! j)) (map both_ways cols) c = comba (sqr_call a) cols c"
  by (induction cols arbitrary: c) (auto simp: sqr_call_both split: prod.split)

lemma sqr_comba_val:
  "8 \<le> length a \<Longrightarrow> bn_val (bn_sqr_comba8 a) = (bn_val (take 8 a))\<^sup>2 \<and> length (bn_sqr_comba8 a) = 16"
  "4 \<le> length a \<Longrightarrow> bn_val (bn_sqr_comba4 a) = (bn_val (take 4 a))\<^sup>2 \<and> length (bn_sqr_comba4 a) = 8"
  using mul_comba_part [OF covers_squares(1), of a a] mul_comba_part [OF covers_squares(2), of a a]
  unfolding comba_both bn_sqr_comba8_def bn_sqr_comba4_def power2_eq_square
  by (simp_all add: sqr_columns8_def sqr_columns4_def)

end
