(* ===== verification/BnMul.thy ===== *)
theory BnMul
  imports BnWords
begin

text \<open>
  Multiplication and squaring of word arrays (\<open>crypto/fipsmodule/bn/mul.c\<close>): the schoolbook loops, the
  subtraction of arrays of different lengths, and Karatsuba's recursion with its carry handling. A
  pointer into an array is the list of the words from it on. The scratch array \<open>t\<close> of the recursive
  routines is written before it is read; its parts \<open>t0,t1\<close> and \<open>t2,t3\<close> are values of their own here.
  Every routine is proved to compute the exact product, so the assertions that the last carry is zero
  hold.
\<close>

section \<open>Schoolbook multiplication\<close>

definition bn_select_words :: "u64 \<Rightarrow> u64 list \<Rightarrow> u64 list \<Rightarrow> size_t \<Rightarrow> u64 list" where
  "bn_select_words msk a b n = map (\<lambda>i. constant_time_select_w msk (a ! i) (b ! i)) [0 ..< n]"

definition bn_abs_sub_words :: "u64 list \<Rightarrow> u64 list \<Rightarrow> size_t \<Rightarrow> u64 list" where
  "bn_abs_sub_words a b n =
     (case bn_sub_words a b n of (tmp, borrow) \<Rightarrow>
        bn_select_words (0 - borrow) (fst (bn_sub_words b a n)) tmp n)"

text \<open>The rows after the first: row \<open>k\<close> is added at position \<open>k\<close>, its carry becomes the next word.\<close>

function mul_rows :: "size_t \<Rightarrow> u64 list \<Rightarrow> u64 list \<Rightarrow> size_t \<Rightarrow> nat \<Rightarrow> u64 list \<Rightarrow> u64 list" where
  "mul_rows na a b nb k r =
     (if k < nb
      then (case bn_mul_add_words (drop k r) a na (b ! k) of (s, c) \<Rightarrow> mul_rows na a b nb (Suc k) (take k r @ s @ [c]))
      else r)"
  by pat_completeness auto
termination by (relation "measure (\<lambda>(na, a, b, nb, k, r). nb - k)") auto

declare mul_rows.simps [simp del]

definition bn_mul_normal :: "u64 list \<Rightarrow> size_t \<Rightarrow> u64 list \<Rightarrow> size_t \<Rightarrow> u64 list" where
  "bn_mul_normal a na b nb =
     (let (a, na, b, nb) = (if na < nb then (b, nb, a, na) else (a, na, b, nb))
      in if nb = 0 then replicate na 0
         else (case bn_mul_words a na (b ! 0) of (r, c) \<Rightarrow> mul_rows na a b nb 1 (r @ [c])))"

section \<open>Subtraction of arrays of different lengths\<close>

definition borrow_from_zero :: "u64 \<Rightarrow> u64 \<Rightarrow> u64 \<times> u64" where
  "borrow_from_zero c t = (0 - t - c, if t \<noteq> 0 then 1 else c)"

definition borrow_from :: "u64 \<Rightarrow> u64 \<Rightarrow> u64 \<times> u64" where
  "borrow_from c t = (t - c, if t \<noteq> 0 then 0 else c)"

text \<open>The loop \<open>while (c)\<close> handles four words before it looks at the borrow again; the words after it are
  copied. (The \<open>switch\<close> between the two loops never copies anything: the first loop ends early only when
  no word is left.)\<close>

function sub_part_rest :: "u64 list \<Rightarrow> u64 \<Rightarrow> u64 list \<times> u64" where
  "sub_part_rest a c =
     (if c = 0 \<or> a = [] then (a, c)
      else (case each_word borrow_from c (take 4 a) of (r, c) \<Rightarrow>
            case sub_part_rest (drop 4 a) c of (rs, c) \<Rightarrow> (r @ rs, c)))"
  by pat_completeness auto
termination by (relation "measure (\<lambda>(a, c). length a)") auto

declare sub_part_rest.simps [simp del]

definition bn_sub_part_words :: "u64 list \<Rightarrow> u64 list \<Rightarrow> nat \<Rightarrow> int \<Rightarrow> u64 list \<times> u64" where
  "bn_sub_part_words a b cl dl =
     (case bn_sub_words a b cl of (r, c) \<Rightarrow>
        if dl = 0 then (r, c)
        else if dl < 0
        then (case each_word borrow_from_zero c (take (nat (- dl)) (drop cl b)) of (rs, c) \<Rightarrow> (r @ rs, c))
        else (case sub_part_rest (take (nat dl) (drop cl a)) c of (rs, c) \<Rightarrow> (r @ rs, c)))"

definition bn_abs_sub_part_words :: "u64 list \<Rightarrow> u64 list \<Rightarrow> nat \<Rightarrow> int \<Rightarrow> u64 list \<times> u64" where
  "bn_abs_sub_part_words a b cl dl =
     (case bn_sub_part_words a b cl dl of (tmp, borrow) \<Rightarrow>
        let r = fst (bn_sub_part_words b a cl (- dl));
            r_len = nat (int cl + (if dl < 0 then - dl else dl));
            borrow = 0 - borrow
        in (bn_select_words borrow r tmp r_len, borrow))"

section \<open>Karatsuba multiplication\<close>

definition carry_step :: "u64 \<Rightarrow> u64 \<Rightarrow> u64 \<times> u64" where
  "carry_step c old = (old + c, if old + c < old then 1 else 0)"

text \<open>The second half of the recursive routines: \<open>r\<close> holds \<open>a0*b0\<close> and \<open>a1*b1\<close>, \<open>t23\<close> the absolute
  value of \<open>(a0 - a1)*(b1 - b0)\<close> and \<open>neg\<close> the mask of its sign.\<close>

definition karatsuba_combine :: "nat \<Rightarrow> u64 \<Rightarrow> u64 list \<Rightarrow> u64 list \<Rightarrow> u64 list" where
  "karatsuba_combine n neg r t23 =
     (let n2 = 2 * n in
      case bn_add_words r (drop n2 r) n2 of (t01, c) \<Rightarrow>
      case bn_sub_words t01 t23 n2 of (t_neg, borrow) \<Rightarrow>
      case bn_add_words t01 t23 n2 of (t_pos, carry) \<Rightarrow>
      let t23 = bn_select_words neg t_neg t_pos n2;
          c = constant_time_select_w neg (c - borrow) (c + carry)
      in case bn_add_words (drop n r) t23 n2 of (mid, carry) \<Rightarrow>
         take n r @ mid @ fst (each_word carry_step (c + carry) (drop (n + n2) r)))"

function bn_mul_recursive :: "u64 list \<Rightarrow> u64 list \<Rightarrow> nat \<Rightarrow> int \<Rightarrow> int \<Rightarrow> u64 list" where
  "bn_mul_recursive a b n2 dna dnb =
     (if n2 = 8 \<and> dna = 0 \<and> dnb = 0 then bn_mul_comba8 a b
      else if n2 < 16
      then bn_mul_normal a (nat (int n2 + dna)) b (nat (int n2 + dnb)) @ replicate (nat (- (dna + dnb))) 0
      else
        (let n = n2 div 2; tna = int n + dna; tnb = int n + dnb
         in case bn_abs_sub_part_words a (drop n a) (nat tna) (int n - tna) of (t0, neg) \<Rightarrow>
            case bn_abs_sub_part_words (drop n b) b (nat tnb) (tnb - int n) of (t1, neg1) \<Rightarrow>
            let neg = neg XOR neg1;
                (t23, r) =
                  (if n = 4 \<and> dna = 0 \<and> dnb = 0
                   then (bn_mul_comba4 t0 t1, bn_mul_comba4 a b @ bn_mul_comba4 (drop n a) (drop n b))
                   else if n = 8 \<and> dna = 0 \<and> dnb = 0
                   then (bn_mul_comba8 t0 t1, bn_mul_comba8 a b @ bn_mul_comba8 (drop n a) (drop n b))
                   else (bn_mul_recursive t0 t1 n 0 0,
                         bn_mul_recursive a b n 0 0 @ bn_mul_recursive (drop n a) (drop n b) n dna dnb))
            in karatsuba_combine n neg r t23))"
  by pat_completeness auto
termination by (relation "measure (\<lambda>(a, b, n2, dna, dnb). n2)") auto

declare bn_mul_recursive.simps [simp del]

text \<open>The loop that halves \<open>i\<close> until the upper parts are split.\<close>

function split_size :: "nat \<Rightarrow> nat \<Rightarrow> nat \<Rightarrow> nat" where
  "split_size i tna tnb =
     (let i = i div 2
      in if i < tna \<or> i < tnb \<or> i = tna \<or> i = tnb then i else split_size i tna tnb)"
  by pat_completeness auto
termination by (relation "measure (\<lambda>(i, tna, tnb). i)") auto

declare split_size.simps [simp del]

text \<open>\<open>memset\<close> of \<open>k\<close> bytes of an array of words.\<close>

definition memset_words :: "nat \<Rightarrow> u64 list \<Rightarrow> u64 list" where
  "memset_words k ws =
     replicate (k div 8) 0 @
     (case drop (k div 8) ws of [] \<Rightarrow> []
      | w # ws \<Rightarrow> push_bit (8 * (k mod 8)) (drop_bit (8 * (k mod 8)) w) # ws)"

lemma split_size_less: "0 < i \<Longrightarrow> split_size i tna tnb < i"
proof (induction i tna tnb rule: split_size.induct)
  case (1 i tna tnb)
  show ?case
  proof (cases "i div 2 = 0")
    case True
    then show ?thesis using "1.prems" by (subst split_size.simps) (auto simp: Let_def)
  next
    case False
    then show ?thesis using "1.IH" [OF refl] by (subst split_size.simps) (auto simp: Let_def)
  qed
qed

text \<open>\<open>old\<close> is what the output array holds before the call. In the first branch the code clears the words
  behind the product with a byte count that forgets the word size.\<close>

function bn_mul_part_recursive :: "u64 list \<Rightarrow> u64 list \<Rightarrow> u64 list \<Rightarrow> nat \<Rightarrow> nat \<Rightarrow> nat \<Rightarrow> u64 list" where
  "bn_mul_part_recursive old a b n tna tnb =
     (let n2 = n * 2
      in if n < 8
         then bn_mul_normal a (n + tna) b (n + tnb) @ memset_words (n2 - tna - tnb) (drop (n2 + tna + tnb) old)
         else
           (case bn_abs_sub_part_words a (drop n a) tna (int n - int tna) of (t0, neg) \<Rightarrow>
            case bn_abs_sub_part_words (drop n b) b tnb (int tnb - int n) of (t1, neg1) \<Rightarrow>
            let neg = neg XOR neg1;
                (t23, r) =
                  (if n = 8
                   then (bn_mul_comba8 t0 t1,
                         bn_mul_comba8 a b @ bn_mul_normal (drop n a) tna (drop n b) tnb @ replicate (n2 - tna - tnb) 0)
                   else (bn_mul_recursive t0 t1 n 0 0,
                         bn_mul_recursive a b n 0 0 @
                         (if tna < 16 \<and> tnb < 16
                          then splice 0 (bn_mul_normal (drop n a) tna (drop n b) tnb) (replicate n2 0)
                          else
                            (let i = split_size n tna tnb
                             in splice 0
                                  (if i < tna \<or> i < tnb
                                   then bn_mul_part_recursive (replicate n2 0) (drop n a) (drop n b) i (tna - i) (tnb - i)
                                   else bn_mul_recursive (drop n a) (drop n b) i (int tna - int i) (int tnb - int i))
                                  (replicate n2 0)))))
            in karatsuba_combine n neg r t23))"
  by pat_completeness auto
termination by (relation "measure (\<lambda>(old, a, b, n, tna, tnb). n)") (auto intro: split_size_less)

declare bn_mul_part_recursive.simps [simp del]

definition bn_mul_small :: "size_t \<Rightarrow> u64 list \<Rightarrow> size_t \<Rightarrow> u64 list \<Rightarrow> size_t \<Rightarrow> u64 list option" where
  "bn_mul_small num_r a num_a b num_b =
     (if num_r \<noteq> num_a + num_b then None
      else if num_a = 8 \<and> num_b = 8 then Some (bn_mul_comba8 a b)
      else Some (bn_mul_normal a num_a b num_b))"

section \<open>Squaring\<close>

text \<open>\<open>rp\<close> points to \<open>r[2i+1]\<close> in row \<open>i\<close>; the row has \<open>n - 1 - i\<close> words.\<close>

function sqr_rows :: "u64 list \<Rightarrow> size_t \<Rightarrow> nat \<Rightarrow> u64 list \<Rightarrow> u64 list" where
  "sqr_rows a n i r =
     (if i < n - 1
      then (case bn_mul_add_words (drop (2 * i + 1) r) (drop (i + 1) a) (n - 1 - i) (a ! i) of
              (s, c) \<Rightarrow> sqr_rows a n (Suc i) (splice (2 * i + 1) (s @ [c]) r))
      else r)"
  by pat_completeness auto
termination by (relation "measure (\<lambda>(a, n, i, r). n - i)") auto

declare sqr_rows.simps [simp del]

definition bn_sqr_normal :: "u64 list \<Rightarrow> u64 list \<Rightarrow> size_t \<Rightarrow> u64 list" where
  "bn_sqr_normal old a n =
     (if n = 0 then []
      else
        (let mx = n * 2;
             r = (take mx old)[mx - 1 := 0, 0 := 0];
             r = (if 1 < n
                  then (case bn_mul_words (drop 1 a) (n - 1) (a ! 0) of (s, c) \<Rightarrow> splice 1 (s @ [c]) r)
                  else r);
             r = sqr_rows a n 1 r;
             r = fst (bn_add_words r r mx);
             tmp = bn_sqr_words a n
         in fst (bn_add_words r tmp mx)))"

function bn_sqr_recursive :: "u64 list \<Rightarrow> u64 list \<Rightarrow> size_t \<Rightarrow> u64 list" where
  "bn_sqr_recursive old a n2 =
     (if n2 = 4 then bn_sqr_comba4 a
      else if n2 = 8 then bn_sqr_comba8 a
      else if n2 < 16 then bn_sqr_normal old a n2
      else
        (let n = n2 div 2;
             t0 = bn_abs_sub_words a (drop n a) n;
             t23 = bn_sqr_recursive old t0 n;
             r = bn_sqr_recursive old a n @ bn_sqr_recursive (drop n2 old) (drop n a) n
         in case bn_add_words r (drop n2 r) n2 of (t01, c) \<Rightarrow>
            case bn_sub_words t01 t23 n2 of (t23, borrow) \<Rightarrow>
            case bn_add_words (drop n r) t23 n2 of (mid, carry) \<Rightarrow>
              take n r @ mid @ fst (each_word carry_step (c - borrow + carry) (drop (n + n2) r))))"
  by pat_completeness auto
termination by (relation "measure (\<lambda>(old, a, n2). n2)") auto

declare bn_sqr_recursive.simps [simp del]

definition BN_SMALL_MAX_WORDS :: nat where
  "BN_SMALL_MAX_WORDS = 9"

definition bn_sqr_small :: "u64 list \<Rightarrow> size_t \<Rightarrow> u64 list \<Rightarrow> size_t \<Rightarrow> u64 list option" where
  "bn_sqr_small old num_r a num_a =
     (if num_r \<noteq> 2 * num_a \<or> BN_SMALL_MAX_WORDS < num_a then None
      else if num_a = 4 then Some (bn_sqr_comba4 a)
      else if num_a = 8 then Some (bn_sqr_comba8 a)
      else Some (bn_sqr_normal old a num_a))"

section \<open>The schoolbook loops multiply\<close>

lemma mul_rows_val:
  assumes "na \<le> length a" "nb \<le> length b" "k \<le> nb" "length r = na + k"
    and "bn_val r = bn_val (take na a) * bn_val (take k b)"
  shows "bn_val (mul_rows na a b nb k r) = bn_val (take na a) * bn_val (take nb b) \<and> length (mul_rows na a b nb k r) = na + nb"
  using assms
proof (induction na a b nb k r rule: mul_rows.induct)
  case (1 na a b nb k r)
  show ?case
  proof (cases "k < nb")
    case False
    then show ?thesis using "1.prems" by (simp add: mul_rows.simps)
  next
    case True
    obtain s c where sc: "bn_mul_add_words (drop k r) a na (b ! k) = (s, c)"
      by (cases "bn_mul_add_words (drop k r) a na (b ! k)")
    have v: "bn_val s + 2 ^ (64 * na) * unat c = bn_val (drop k r) + bn_val (take na a) * unat (b ! k)" "length s = na"
      using mul_add_words_val [OF sc] "1.prems" by simp_all
    have kb: "take (Suc k) b = take k b @ [b ! k]" using True "1.prems"(2) by (simp add: take_Suc_conv_app_nth)
    have "bn_val (take k r @ s @ [c]) = bn_val (take k r) + 2 ^ (64 * k) * (bn_val s + 2 ^ (64 * na) * unat c)"
      using "1.prems" v(2) by (simp add: bn_val_append)
    also have "\<dots> = bn_val r + 2 ^ (64 * k) * (bn_val (take na a) * unat (b ! k))"
      unfolding v(1) using bn_val_take_drop [of k r] "1.prems" by (simp add: algebra_simps)
    also have "\<dots> = bn_val (take na a) * bn_val (take (Suc k) b)"
      unfolding "1.prems"(5) kb using True "1.prems"(2) by (simp add: bn_val_append algebra_simps)
    finally have nv: "bn_val (take k r @ s @ [c]) = bn_val (take na a) * bn_val (take (Suc k) b)" .
    have "mul_rows na a b nb k r = mul_rows na a b nb (Suc k) (take k r @ s @ [c])"
      using True sc by (subst mul_rows.simps) simp
    moreover have "bn_val (mul_rows na a b nb (Suc k) (take k r @ s @ [c])) = bn_val (take na a) * bn_val (take nb b) \<and>
        length (mul_rows na a b nb (Suc k) (take k r @ s @ [c])) = na + nb"
      using "1.prems" True v(2) nv by (intro "1.IH" [OF True sc [symmetric]]) simp_all
    ultimately show ?thesis by simp
  qed
qed

text \<open>The number in the first \<open>n\<close> words.\<close>

abbreviation bn_part :: "nat \<Rightarrow> u64 list \<Rightarrow> nat" where
  "bn_part n ws \<equiv> bn_val (take n ws)"

lemma mul_normal_val:
  assumes "na \<le> length a" "nb \<le> length b"
  shows "bn_val (bn_mul_normal a na b nb) = bn_part na a * bn_part nb b \<and> length (bn_mul_normal a na b nb) = na + nb"
proof -
  have ordered: "bn_val (if nb = 0 then replicate na 0
         else (case bn_mul_words a na (b ! 0) of (r, c) \<Rightarrow> mul_rows na a b nb 1 (r @ [c]))) = bn_part na a * bn_part nb b \<and>
      length (if nb = 0 then replicate na 0
         else (case bn_mul_words a na (b ! 0) of (r, c) \<Rightarrow> mul_rows na a b nb 1 (r @ [c]))) = na + nb"
    if l: "na \<le> length a" "nb \<le> length b" for na nb a b
  proof (cases "nb = 0")
    case False
    obtain r c where rc: "bn_mul_words a na (b ! 0) = (r, c)" by (cases "bn_mul_words a na (b ! 0)")
    have v: "bn_val r + 2 ^ (64 * na) * unat c = bn_part na a * unat (b ! 0)" "length r = na"
      using mul_words_val [OF rc l(1)] by simp_all
    have b1: "take (Suc 0) b = [b ! 0]" using False l(2) by (cases b) simp_all
    have "bn_val (r @ [c]) = bn_part na a * bn_part (Suc 0) b" using v by (simp add: bn_val_append b1)
    then show ?thesis using mul_rows_val [OF l, of 1 "r @ [c]"] False v(2) rc by simp
  qed simp
  show ?thesis
  proof (cases "na < nb")
    case True
    then show ?thesis using ordered [of nb b na a] assms by (simp add: bn_mul_normal_def ac_simps)
  next
    case False
    then show ?thesis using ordered [of na a nb b] assms by (simp add: bn_mul_normal_def)
  qed
qed

section \<open>Subtraction\<close>

lemma select_words:
  "n \<le> length a \<Longrightarrow> n \<le> length b \<Longrightarrow> bn_select_words (if p then NOT 0 else 0) a b n = (if p then take n a else take n b)"
  by (auto simp: bn_select_words_def ct_masks list_eq_iff_nth_eq)

lemma mask_of_borrow: "c \<in> {0, 1} \<Longrightarrow> 0 - c = (if c = (1 :: u64) then NOT 0 else 0)"
  by auto

lemma borrow_from_zero_val:
  assumes "c \<in> {0, 1}" and "borrow_from_zero c t = (r, c')"
  shows "c' \<in> {0, 1} \<and> uint r + 2 ^ 64 * - uint c' = - uint t + - uint c"
proof -
  have "sub_step c (0, t) = (r, c')"
    using assms by (auto simp: borrow_from_zero_def sub_step_def word_gt_0)
  then show ?thesis using sub_step_val [OF assms(1), of "(0, t)"] by simp
qed

lemma borrow_from_val:
  assumes "c \<in> {0, 1}" and "borrow_from c t = (r, c')"
  shows "c' \<in> {0, 1} \<and> uint r + 2 ^ 64 * - uint c' = uint t + - uint c"
proof -
  have "sub_step c (t, 0) = (r, c')" using assms by (auto simp: borrow_from_def sub_step_def)
  then show ?thesis using sub_step_val [OF assms(1), of "(t, 0)"] by simp
qed

lemma place_minus: "place (\<lambda>x. - g x) xs = - place g xs"
  by (induction xs) simp_all

lemma each_borrow_from_zero:
  assumes "c \<in> {0, 1}" and "each_word borrow_from_zero c ts = (rs, c')"
  shows "c' \<in> {0, 1} \<and> int (bn_val rs) - 2 ^ (64 * length ts) * uint c' = - int (bn_val ts) - uint c \<and> length rs = length ts"
  using each_word_place [where ok = "\<lambda>c. c \<in> {0, 1}" and v = "\<lambda>c. - uint c" and g = "\<lambda>t. - uint t", OF borrow_from_zero_val assms]
    length_each [of borrow_from_zero c ts] assms(2) by (simp add: place_minus place_val)

lemma each_borrow_from:
  assumes "c \<in> {0, 1}" and "each_word borrow_from c ts = (rs, c')"
  shows "c' \<in> {0, 1} \<and> int (bn_val rs) - 2 ^ (64 * length ts) * uint c' = int (bn_val ts) - uint c \<and> length rs = length ts"
  using each_word_place [where ok = "\<lambda>c. c \<in> {0, 1}" and v = "\<lambda>c. - uint c" and g = uint, OF borrow_from_val assms]
    length_each [of borrow_from c ts] assms(2) by (simp add: place_val)

lemma sub_part_rest_val:
  assumes "c \<in> {0, 1}" and "sub_part_rest a c = (rs, c')"
  shows "c' \<in> {0, 1} \<and> int (bn_val rs) - 2 ^ (64 * length a) * uint c' = int (bn_val a) - uint c \<and> length rs = length a"
  using assms
proof (induction a c arbitrary: rs rule: sub_part_rest.induct)
  case (1 a c)
  show ?case
  proof (cases "c = 0 \<or> a = []")
    case True
    then show ?thesis using "1.prems" by (auto simp: sub_part_rest.simps)
  next
    case False
    obtain r c1 where g: "each_word borrow_from c (take 4 a) = (r, c1)" by (cases "each_word borrow_from c (take 4 a)")
    obtain rs1 c2 where s: "sub_part_rest (drop 4 a) c1 = (rs1, c2)" by (cases "sub_part_rest (drop 4 a) c1")
    have eqs: "rs = r @ rs1" "c' = c2" using "1.prems"(2) False g s by (simp_all add: sub_part_rest.simps [of a c])
    have v1: "c1 \<in> {0, 1}" "length r = length (take 4 a)"
      "int (bn_val r) = int (bn_part 4 a) - uint c + 2 ^ (64 * length (take 4 a)) * uint c1"
      using each_borrow_from [OF "1.prems"(1) g] by simp_all
    have v2: "c' \<in> {0, 1}" "length rs1 = length (drop 4 a)"
      "int (bn_val rs1) = int (bn_val (drop 4 a)) - uint c1 + 2 ^ (64 * length (drop 4 a)) * uint c'"
      using "1.IH" [OF False g [symmetric] v1(1)] s eqs by simp_all
    have a: "bn_val a = bn_part 4 a + 2 ^ (64 * length (take 4 a)) * bn_val (drop 4 a)"
      using bn_val_append [of "take 4 a" "drop 4 a"] by simp
    have l: "length (take 4 a) + length (drop 4 a) = length a" by simp
    have "int (bn_val rs) = int (bn_val r) + 2 ^ (64 * length (take 4 a)) * int (bn_val rs1)"
      unfolding eqs bn_val_append v1(2) by simp
    also have "\<dots> = int (bn_val a) - uint c + 2 ^ (64 * (length (take 4 a) + length (drop 4 a))) * uint c'"
      unfolding v1(3) v2(3) a distrib_left power_add by (simp add: algebra_simps del: length_take length_drop)
    finally show ?thesis unfolding l using v1(2) v2(1,2) by (simp add: eqs)
  qed
qed

lemma sub_part_words_val:
  assumes "bn_sub_part_words a b cl dl = (r, c)"
    and l: "cl + nat dl \<le> length a" "cl + nat (- dl) \<le> length b"
  shows "int (bn_val r) - 2 ^ (64 * length r) * uint c = int (bn_part (cl + nat dl) a) - int (bn_part (cl + nat (- dl)) b) \<and>
    length r = cl + nat \<bar>dl\<bar> \<and> c \<in> {0, 1}"
proof -
  obtain r0 c0 where s: "bn_sub_words a b cl = (r0, c0)" by (cases "bn_sub_words a b cl")
  have v0: "int (bn_val r0) = int (bn_part cl a) - int (bn_part cl b) + 2 ^ (64 * cl) * uint c0" "length r0 = cl" "c0 \<in> {0, 1}"
    using sub_words_val [OF s] l by simp_all
  have part: "bn_part (cl + m) ws = bn_part cl ws + 2 ^ (64 * cl) * bn_part m (drop cl ws)" if "cl \<le> length ws" for m ws
    using that bn_val_append [of "take cl ws" "take m (drop cl ws)"] by (simp add: take_add)
  consider "dl = 0" | "dl < 0" | "0 < dl" by linarith
  then show ?thesis
  proof cases
    case 1
    then show ?thesis using assms(1) s v0 by (simp add: bn_sub_part_words_def)
  next
    case 2
    obtain rs where e: "each_word borrow_from_zero c0 (take (nat (- dl)) (drop cl b)) = (rs, c)" and r: "r = r0 @ rs"
      using assms(1) 2 s by (auto simp: bn_sub_part_words_def split: prod.splits)
    have v: "c \<in> {0, 1}" "length rs = nat (- dl)"
      "int (bn_val rs) = - int (bn_part (nat (- dl)) (drop cl b)) - uint c0 + 2 ^ (64 * nat (- dl)) * uint c"
      using each_borrow_from_zero [OF v0(3) e] l by simp_all
    show ?thesis using 2 v(1,2) v0(2) part [of b "nat (- dl)"] l(2)
      unfolding r bn_val_append length_append of_nat_add of_nat_mult v0(1,2) v(3)
      by (simp add: algebra_simps power_add)
  next
    case 3
    obtain rs where e: "sub_part_rest (take (nat dl) (drop cl a)) c0 = (rs, c)" and r: "r = r0 @ rs"
      using assms(1) 3 s by (auto simp: bn_sub_part_words_def split: prod.splits)
    have v: "c \<in> {0, 1}" "length rs = nat dl"
      "int (bn_val rs) = int (bn_part (nat dl) (drop cl a)) - uint c0 + 2 ^ (64 * nat dl) * uint c"
      using sub_part_rest_val [OF v0(3) e] l by simp_all
    show ?thesis using 3 v(1,2) v0(2) part [of a "nat dl"] l(1)
      unfolding r bn_val_append length_append of_nat_add of_nat_mult v0(1,2) v(3)
      by (simp add: algebra_simps power_add)
  qed
qed

text \<open>An exact difference fits its words and does not borrow.\<close>

lemma borrow_iff:
  assumes "int x - 2 ^ k * uint c = d" and "x < 2 ^ k" and "c \<in> {0, 1 :: u64}"
  shows "c = 1 \<longleftrightarrow> d < 0"
  using assms by auto

lemma abs_sub_part_words_val:
  assumes "bn_abs_sub_part_words a b cl dl = (r, msk)"
    and l: "cl + nat dl \<le> length a" "cl + nat (- dl) \<le> length b"
  defines "d \<equiv> int (bn_part (cl + nat dl) a) - int (bn_part (cl + nat (- dl)) b)"
  shows "int (bn_val r) = \<bar>d\<bar> \<and> length r = cl + nat \<bar>dl\<bar> \<and> msk = (if d < 0 then NOT 0 else 0)"
proof -
  obtain tmp c where t: "bn_sub_part_words a b cl dl = (tmp, c)" by (cases "bn_sub_part_words a b cl dl")
  obtain r0 c0 where s: "bn_sub_part_words b a cl (- dl) = (r0, c0)" by (cases "bn_sub_part_words b a cl (- dl)")
  have vt: "int (bn_val tmp) - 2 ^ (64 * length tmp) * uint c = d" "length tmp = cl + nat \<bar>dl\<bar>" "c \<in> {0, 1}"
    using sub_part_words_val [OF t l] unfolding d_def by blast+
  have vs: "int (bn_val r0) - 2 ^ (64 * length r0) * uint c0 = - d" "length r0 = cl + nat \<bar>dl\<bar>" "c0 \<in> {0, 1}"
    using sub_part_words_val [OF s] l unfolding d_def minus_minus abs_minus_cancel minus_diff_eq by blast+
  have c: "c = 1 \<longleftrightarrow> d < 0" using borrow_iff [OF vt(1) bn_val_less vt(3)] .
  have c0: "c0 = 1 \<longleftrightarrow> 0 < d" using borrow_iff [OF vs(1) bn_val_less vs(3)] by simp
  have n: "nat (int cl + (if dl < 0 then - dl else dl)) = cl + nat \<bar>dl\<bar>" by (simp add: nat_add_distrib)
  have "r = bn_select_words (0 - c) r0 tmp (cl + nat \<bar>dl\<bar>)" and m: "msk = 0 - c"
    using assms(1) t s n by (auto simp: bn_abs_sub_part_words_def Let_def)
  then have "r = (if d < 0 then r0 else tmp)"
    unfolding mask_of_borrow [OF vt(3)] using vt(2) vs(2) c by (simp add: select_words)
  moreover have "d < 0 \<Longrightarrow> int (bn_val r0) = - d" using vs c0 by auto
  moreover have "\<not> d < 0 \<Longrightarrow> int (bn_val tmp) = d" using vt c by auto
  ultimately show ?thesis using vt(2) vs(2) m mask_of_borrow [OF vt(3)] c by auto
qed

section \<open>Karatsuba\<close>

lemma carry_step_val: "carry_step c t = (r, c') \<Longrightarrow> True \<and> uint r + 2 ^ 64 * uint c' = uint t + uint c"
proof -
  assume s: "carry_step c t = (r, c')"
  have "unat (t + c) + 2 ^ 64 * unat c' = unat t + unat c"
  proof (cases "unat t + unat c < 2 ^ 64")
    case True
    then have "unat (t + c) = unat t + unat c" by (subst unat_add_lem [THEN iffD1]) simp_all
    then show ?thesis using s by (auto simp: carry_step_def word_less_nat_alt)
  next
    case False
    then have "unat (t + c) = unat t + unat c - 2 ^ 64"
      using u64_less [of t] u64_less [of c] by (simp add: unat_word_ariths mod_if)
    moreover have "c' = 1" using s False calculation u64_less [of c] by (auto simp: carry_step_def word_less_nat_alt)
    ultimately show ?thesis using False by simp
  qed
  from arg_cong [OF this, of int] show ?thesis using s by (simp add: carry_step_def)
qed

lemma each_carry:
  assumes "each_word carry_step c ts = (rs, c')"
  shows "bn_val rs + 2 ^ (64 * length ts) * unat c' = bn_val ts + unat c \<and> length rs = length ts"
proof -
  have "int (bn_val rs) + 2 ^ (64 * length ts) * uint c' = int (bn_val ts) + uint c"
    using each_word_place [where ok = "\<lambda>_. True" and v = uint and g = uint, OF carry_step_val TrueI assms] by (simp add: place_val)
  then have "int (bn_val rs + 2 ^ (64 * length ts) * unat c') = int (bn_val ts + unat c)" by simp
  then show ?thesis using length_each [of carry_step c ts] assms unfolding of_nat_eq_iff by simp
qed

text \<open>Adding the middle term, which has a word above its \<open>2n\<close> words, into the outer terms.\<close>

lemma add_middle:
  assumes r: "length r = 4 * n" and m: "length m = 2 * n" and c: "unat c \<le> 2"
    and add: "bn_add_words (drop n r) m (2 * n) = (mid, carry)"
    and fits: "bn_val r + 2 ^ (64 * n) * (bn_val m + 2 ^ (64 * (2 * n)) * unat c) < 2 ^ (64 * (4 * n))"
  defines "res \<equiv> take n r @ mid @ fst (each_word carry_step (c + carry) (drop (n + 2 * n) r))"
  shows "bn_val res = bn_val r + 2 ^ (64 * n) * (bn_val m + 2 ^ (64 * (2 * n)) * unat c) \<and> length res = 4 * n"
proof -
  let ?B = "2 ^ (64 * n) :: nat"
  define lo md hi where "lo = take n r" and "md = take (2 * n) (drop n r)" and "hi = drop (n + 2 * n) r"
  have rs: "r = lo @ md @ hi" unfolding lo_def md_def hi_def by (metis append_take_drop_id drop_drop add.commute)
  have ls: "length lo = n" "length md = 2 * n" "length hi = n" using r by (simp_all add: lo_def md_def hi_def)
  have av: "bn_val mid + 2 ^ (64 * (2 * n)) * unat carry = bn_val md + bn_val m" "length mid = 2 * n" "unat carry \<le> 1"
    using add_words_val [OF add] r m by (simp_all add: md_def)
  obtain top c' where e: "each_word carry_step (c + carry) hi = (top, c')" by (cases "each_word carry_step (c + carry) hi")
  have cc: "unat (c + carry) = unat c + unat carry"
    using c av(3) by (subst unat_add_lem [THEN iffD1]) simp_all
  have ev: "bn_val top + ?B * unat c' = bn_val hi + (unat c + unat carry)" "length top = n"
    using each_carry [OF e] ls cc by simp_all
  have res: "res = lo @ mid @ top" unfolding res_def hi_def [symmetric] lo_def [symmetric] e by simp
  have B2: "2 ^ (64 * (2 * n)) = ?B * ?B" by (simp add: power_add [symmetric])
  define T where "T = bn_val r + ?B * (bn_val m + ?B * ?B * unat c)"
  have "bn_val res + ?B * ?B * ?B * (?B * unat c') = bn_val lo + ?B * (bn_val mid + ?B * ?B * (bn_val top + ?B * unat c'))"
    unfolding res bn_val_append ls av(2) B2 by (simp add: algebra_simps)
  also have "\<dots> = bn_val lo + ?B * ((bn_val mid + ?B * ?B * unat carry) + ?B * ?B * (bn_val hi + unat c))"
    unfolding ev(1) by (simp add: algebra_simps)
  also have "\<dots> = T" unfolding av(1) [unfolded B2] T_def rs bn_val_append ls B2 by (simp add: algebra_simps)
  finally have T: "bn_val res + ?B * ?B * ?B * (?B * unat c') = T" .
  define P where "P = ?B * ?B * ?B * ?B"
  have "T < P" using fits unfolding T_def B2 P_def by (simp add: power_add [symmetric])
  moreover have "P * unat c' \<le> T" unfolding T [symmetric] P_def by (simp add: ac_simps)
  ultimately have "P * unat c' < P" by (rule le_less_trans [rotated])
  then have "unat c' = 0" by (cases "unat c'") simp_all
  then show ?thesis using T unfolding T_def B2 res using ls av(2) ev(2) by simp
qed

lemma combine_val:
  assumes r: "length r = 4 * n" and t: "length t23 = 2 * n"
    and P: "M = int (bn_part (2 * n) r) + int (bn_val (drop (2 * n) r)) + (if neg then - int (bn_val t23) else int (bn_val t23))"
    and M: "0 \<le> M" and T: "int (bn_val r) + 2 ^ (64 * n) * M < 2 ^ (64 * (4 * n))"
  shows "int (bn_val (karatsuba_combine n (if neg then NOT 0 else 0) r t23)) = int (bn_val r) + 2 ^ (64 * n) * M \<and>
    length (karatsuba_combine n (if neg then NOT 0 else 0) r t23) = 4 * n"
proof -
  let ?B2 = "2 ^ (64 * (2 * n))"
  obtain t01 c where a: "bn_add_words r (drop (2 * n) r) (2 * n) = (t01, c)" by (cases "bn_add_words r (drop (2 * n) r) (2 * n)")
  obtain tn b where s: "bn_sub_words t01 t23 (2 * n) = (tn, b)" by (cases "bn_sub_words t01 t23 (2 * n)")
  obtain tp k where p: "bn_add_words t01 t23 (2 * n) = (tp, k)" by (cases "bn_add_words t01 t23 (2 * n)")
  have va: "bn_val t01 + ?B2 * unat c = bn_part (2 * n) r + bn_val (drop (2 * n) r)" "length t01 = 2 * n" "unat c \<le> 1"
    using add_words_val [OF a] r by simp_all
  have vs: "int (bn_val tn) - ?B2 * uint b = int (bn_val t01) - int (bn_val t23)" "length tn = 2 * n" "b \<in> {0, 1}"
    using sub_words_val [OF s] va(2) t by simp_all
  have vp: "bn_val tp + ?B2 * unat k = bn_val t01 + bn_val t23" "length tp = 2 * n" "unat k \<le> 1"
    using add_words_val [OF p] va(2) t by simp_all
  define m where "m = (if neg then tn else tp)"
  define e where "e = (if neg then c - b else c + k)"
  have lm: "length m = 2 * n" using vs(2) vp(2) by (simp add: m_def)
  have vm: "int (bn_val m) + ?B2 * int (unat e) = M \<and> unat e \<le> 2"
  proof (cases neg)
    case False
    have "unat (c + k) = unat c + unat k" using va(3) vp(3) by (subst unat_add_lem [THEN iffD1]) simp_all
    then have e: "unat e = unat c + unat k" using False by (simp add: e_def)
    have "int (bn_val tp + ?B2 * unat k) + int (?B2 * unat c) = int (bn_val t23) + int (bn_val t01 + ?B2 * unat c)"
      unfolding vp(1) by simp
    then have "int (bn_val m) + ?B2 * int (unat e) = M"
      unfolding va(1) P e m_def using False by (simp add: algebra_simps)
    then show ?thesis using va(3) vp(3) e by simp
  next
    case True
    have "int (bn_val tn) - ?B2 * uint b + ?B2 * int (unat c) = int (bn_val t01 + ?B2 * unat c) - int (bn_val t23)"
      unfolding vs(1) by simp
    then have *: "int (bn_val tn) + ?B2 * (int (unat c) - uint b) = M"
      unfolding va(1) P using True by (simp add: algebra_simps)
    have "int (bn_val tn) < ?B2" using bn_val_less [of tn] vs(2) by (metis of_nat_less_iff of_nat_numeral of_nat_power)
    then have "- ?B2 < ?B2 * (int (unat c) - uint b)" using * M by linarith
    then have "?B2 * (-1) < ?B2 * (int (unat c) - uint b)" by simp
    then have "-1 < int (unat c) - uint b" by (simp only: mult_less_cancel_left_pos zero_less_power zero_less_numeral)
    then have bc: "b \<le> c" by (simp add: word_le_def)
    then have "unat (c - b) = unat c - unat b" by (rule unat_sub)
    then have e: "int (unat e) = int (unat c) - uint b" using True bc by (simp add: e_def word_le_nat_alt)
    have "unat e \<le> 2" using e va(3) u64_bounds(1) [of b] by linarith
    then show ?thesis using * True unfolding e by (simp add: m_def)
  qed
  obtain mid carry where ad: "bn_add_words (drop n r) m (2 * n) = (mid, carry)" by (cases "bn_add_words (drop n r) m (2 * n)")
  have sel: "bn_select_words (if neg then NOT 0 else 0) tn tp (2 * n) = m"
    using vs(2) vp(2) by (simp add: select_words m_def)
  have kc: "karatsuba_combine n (if neg then NOT 0 else 0) r t23 = take n r @ mid @ fst (each_word carry_step (e + carry) (drop (n + 2 * n) r))"
    unfolding karatsuba_combine_def Let_def a s p prod.case sel ad select_w_mask e_def by simp
  have v: "int (bn_val r + 2 ^ (64 * n) * (bn_val m + ?B2 * unat e)) = int (bn_val r) + 2 ^ (64 * n) * M"
    using vm by simp
  have "int (bn_val r + 2 ^ (64 * n) * (bn_val m + ?B2 * unat e)) < int (2 ^ (64 * (4 * n)))" unfolding v using T by simp
  then have "bn_val r + 2 ^ (64 * n) * (bn_val m + ?B2 * unat e) < 2 ^ (64 * (4 * n))" unfolding of_nat_less_iff .
  from add_middle [OF r lm _ ad this] vm show ?thesis unfolding kc v [symmetric] by simp
qed

text \<open>The two halves of the operands and the absolute differences give the middle term.\<close>

lemma karatsuba_algebra:
  fixes a0 a1 b0 b1 :: int
  shows "a0 * b0 + a1 * b1 + (a0 - a1) * (b1 - b0) = a0 * b1 + a1 * b0"
  by (simp add: algebra_simps)

lemma karatsuba_val:
  assumes r: "length r = 4 * n" "length t23 = 2 * n"
    and r01: "bn_part (2 * n) r = a0 * b0" and r23: "bn_val (drop (2 * n) r) = a1 * b1"
    and t23: "int (bn_val t23) = \<bar>int a0 - int a1\<bar> * \<bar>int b1 - int b0\<bar>"
    and small: "a0 < 2 ^ (64 * n)" "a1 < 2 ^ (64 * n)" "b0 < 2 ^ (64 * n)" "b1 < 2 ^ (64 * n)"
    and msk: "msk = (if int a0 - int a1 < 0 then NOT 0 else 0) XOR (if int b1 - int b0 < 0 then NOT 0 else 0)"
  shows "bn_val (karatsuba_combine n msk r t23) = (a0 + 2 ^ (64 * n) * a1) * (b0 + 2 ^ (64 * n) * b1) \<and>
    length (karatsuba_combine n msk r t23) = 4 * n"
proof -
  let ?B = "2 ^ (64 * n) :: nat"
  define neg where "neg = ((int a0 - int a1 < 0) \<noteq> (int b1 - int b0 < 0))"
  have m: "msk = (if neg then NOT 0 else 0)" unfolding msk neg_def by auto
  define M where "M = int (bn_part (2 * n) r) + int (bn_val (drop (2 * n) r)) + (if neg then - int (bn_val t23) else int (bn_val t23))"
  have "(if neg then - int (bn_val t23) else int (bn_val t23)) = (int a0 - int a1) * (int b1 - int b0)"
    unfolding t23 neg_def by (auto simp: abs_if algebra_simps)
  then have M: "M = int (a0 * b1 + a1 * b0)"
    unfolding M_def r01 r23 using karatsuba_algebra [of "int a0" "int b0" "int a1" "int b1"] by simp
  have "bn_val r = bn_part (2 * n) r + 2 ^ (64 * (2 * n)) * bn_val (drop (2 * n) r)"
    using bn_val_take_drop [of "2 * n" r] r by simp
  then have vr: "bn_val r = a0 * b0 + ?B * ?B * (a1 * b1)" unfolding r01 r23 by (simp add: power_add [symmetric])
  have T: "int (bn_val r) + 2 ^ (64 * n) * M = int ((a0 + ?B * a1) * (b0 + ?B * b1))"
    unfolding vr M by (simp add: algebra_simps)
  have "a0 + ?B * a1 < ?B * ?B" "b0 + ?B * b1 < ?B * ?B"
    using small by (simp_all add: bn_pair_less)
  then have "(a0 + ?B * a1) * (b0 + ?B * b1) < (?B * ?B) * (?B * ?B)" by (rule mult_strict_mono) simp_all
  then have "int ((a0 + ?B * a1) * (b0 + ?B * b1)) < int ((?B * ?B) * (?B * ?B))" by (simp only: of_nat_less_iff)
  also have "int ((?B * ?B) * (?B * ?B)) = 2 ^ (64 * (4 * n))" by (simp add: power_add [symmetric])
  finally have lt: "int (bn_val r) + 2 ^ (64 * n) * M < 2 ^ (64 * (4 * n))" unfolding T .
  have "0 \<le> M" unfolding M by simp
  from combine_val [OF r(1,2) M_def this lt] show ?thesis unfolding m T of_nat_eq_iff .
qed

text \<open>The lengths of the operands of the recursive routine.\<close>

definition rec_ok :: "u64 list \<Rightarrow> nat \<Rightarrow> int \<Rightarrow> bool" where
  "rec_ok a n2 dna \<longleftrightarrow> - 8 \<le> dna \<and> dna \<le> 0 \<and> 0 \<le> int n2 + dna \<and> nat (int n2 + dna) \<le> length a"

lemma drop_halves:
  assumes "rec_ok a (2 * n) dna" and "8 \<le> n"
  shows "nat (int (2 * n) + dna) = n + nat (int n + dna)" "rec_ok (drop n a) n dna" "n \<le> length a"
  using assms by (auto simp: rec_ok_def)

lemma part_halves: "n \<le> length a \<Longrightarrow> bn_part (n + m) a = bn_part n a + 2 ^ (64 * n) * bn_part m (drop n a)"
  using bn_val_append [of "take n a" "take m (drop n a)"] by (simp add: take_add)

lemma bn_part_less: "bn_part n a < 2 ^ (64 * n)"
proof -
  have "bn_part n a < 2 ^ (64 * length (take n a))" by (rule bn_val_less)
  also have "\<dots> \<le> 2 ^ (64 * n)" by (intro power_increasing) simp_all
  finally show ?thesis .
qed

lemma part_all [simp]: "length a = n \<Longrightarrow> bn_part n a = bn_val a"
  by simp

text \<open>One level of the recursion, however the three products are computed.\<close>

lemma karatsuba_level:
  assumes a: "n \<le> length a" "la \<le> n" "n + la \<le> length a" and b: "n \<le> length b" "lb \<le> n" "n + lb \<le> length b"
    and s0: "bn_abs_sub_part_words a (drop n a) la (int n - int la) = (t0, neg)"
    and s1: "bn_abs_sub_part_words (drop n b) b lb (int lb - int n) = (t1, neg1)"
    and t: "length t0 = n \<Longrightarrow> length t1 = n \<Longrightarrow> bn_val t23 = bn_val t0 * bn_val t1 \<and> length t23 = 2 * n"
    and r01: "bn_val r01 = bn_part n a * bn_part n b" "length r01 = 2 * n"
    and r23: "bn_val r23 = bn_part la (drop n a) * bn_part lb (drop n b)" "length r23 = 2 * n"
  shows "bn_val (karatsuba_combine n (neg XOR neg1) (r01 @ r23) t23) = bn_part (n + la) a * bn_part (n + lb) b \<and>
    length (karatsuba_combine n (neg XOR neg1) (r01 @ r23) t23) = 4 * n"
proof -
  have d0: "la + nat (int n - int la) = n" "la + nat (- (int n - int la)) = la" "la + nat \<bar>int n - int la\<bar> = n"
    using a(2) by simp_all
  have d1: "lb + nat (int lb - int n) = lb" "lb + nat (- (int lb - int n)) = n" "lb + nat \<bar>int lb - int n\<bar> = n"
    using b(2) by simp_all
  have v0: "int (bn_val t0) = \<bar>int (bn_part n a) - int (bn_part la (drop n a))\<bar>" "length t0 = n"
    "neg = (if int (bn_part n a) - int (bn_part la (drop n a)) < 0 then NOT 0 else 0)"
    using abs_sub_part_words_val [OF s0, unfolded d0] a by simp_all
  have v1: "int (bn_val t1) = \<bar>int (bn_part lb (drop n b)) - int (bn_part n b)\<bar>" "length t1 = n"
    "neg1 = (if int (bn_part lb (drop n b)) - int (bn_part n b) < 0 then NOT 0 else 0)"
    using abs_sub_part_words_val [OF s1, unfolded d1] b by simp_all
  have t': "bn_val t23 = bn_val t0 * bn_val t1" "length t23 = 2 * n" using t v0(2) v1(2) by simp_all
  have less: "bn_part la (drop n a) < 2 ^ (64 * n)" "bn_part lb (drop n b) < 2 ^ (64 * n)"
    using bn_part_less [of la "drop n a"] bn_part_less [of lb "drop n b"] a(2) b(2)
    by (meson less_le_trans mult_le_mono2 one_le_numeral power_increasing)+
  have "bn_val (karatsuba_combine n (neg XOR neg1) (r01 @ r23) t23) =
      (bn_part n a + 2 ^ (64 * n) * bn_part la (drop n a)) * (bn_part n b + 2 ^ (64 * n) * bn_part lb (drop n b)) \<and>
    length (karatsuba_combine n (neg XOR neg1) (r01 @ r23) t23) = 4 * n"
    by (rule karatsuba_val) (use r01 r23 t' v0 v1 less bn_part_less in simp_all)
  then show ?thesis using part_halves [OF a(1), of la] part_halves [OF b(1), of lb] by simp
qed

lemma power2_halves: "16 \<le> (2 :: nat) ^ k \<Longrightarrow> \<exists>j. k = Suc j \<and> 2 ^ k = 2 * (2 :: nat) ^ j \<and> 8 \<le> (2 :: nat) ^ j"
  by (cases k) simp_all

lemma power2_twice: "(2 :: nat) ^ j < 2 ^ k \<Longrightarrow> 2 * (2 :: nat) ^ j \<le> 2 ^ k"
proof -
  assume "(2 :: nat) ^ j < 2 ^ k"
  then have "Suc j \<le> k" by simp
  then have "(2 :: nat) ^ Suc j \<le> 2 ^ k" by (rule power_increasing) simp
  then show ?thesis by simp
qed

lemma mul_recursive_val:
  assumes "rec_ok a n2 dna" "rec_ok b n2 dnb" and "n2 = 2 ^ k" "8 \<le> n2"
  shows "bn_val (bn_mul_recursive a b n2 dna dnb) = bn_part (nat (int n2 + dna)) a * bn_part (nat (int n2 + dnb)) b \<and>
    length (bn_mul_recursive a b n2 dna dnb) = 2 * n2"
  using assms
proof (induction n2 arbitrary: a b dna dnb k rule: less_induct)
  case (less n2)
  consider "n2 = 8 \<and> dna = 0 \<and> dnb = 0" | "\<not> (n2 = 8 \<and> dna = 0 \<and> dnb = 0)" "n2 < 16" | "16 \<le> n2" by linarith
  then show ?case
  proof cases
    case 1
    then show ?thesis using mul_comba8_val [of a b] less.prems by (simp add: bn_mul_recursive.simps rec_ok_def)
  next
    case 2
    have l: "nat (int n2 + dna) \<le> length a" "nat (int n2 + dnb) \<le> length b" using less.prems by (simp_all add: rec_ok_def)
    have "nat (int n2 + dna) + nat (int n2 + dnb) + nat (- (dna + dnb)) = 2 * n2"
      using less.prems(1,2) unfolding rec_ok_def by linarith
    then show ?thesis using mul_normal_val [OF l] 2 by (subst (1 2) bn_mul_recursive.simps) (auto simp: bn_val_append)
  next
    case 3
    obtain j where j: "n2 = 2 * 2 ^ j" "8 \<le> (2 :: nat) ^ j" using power2_halves 3 less.prems(3) by blast
    define n where "n = (2 :: nat) ^ j"
    have n: "n2 = 2 * n" "8 \<le> n" "n < n2" "n2 div 2 = n" using j by (simp_all add: n_def)
    have ha: "nat (int n2 + dna) = n + nat (int n + dna)" "rec_ok (drop n a) n dna" "n \<le> length a" "n + nat (int n + dna) \<le> length a"
      using drop_halves [of a n dna] less.prems(1) n by (simp_all add: rec_ok_def)
    have hb: "nat (int n2 + dnb) = n + nat (int n + dnb)" "rec_ok (drop n b) n dnb" "n \<le> length b" "n + nat (int n + dnb) \<le> length b"
      using drop_halves [of b n dnb] less.prems(2) n by (simp_all add: rec_ok_def)
    define la lb where "la = nat (int n + dna)" and "lb = nat (int n + dnb)"
    have l: "la \<le> n" "lb \<le> n" "int n + dna = int la" "int n + dnb = int lb"
      using ha(2) hb(2) unfolding la_def lb_def rec_ok_def by linarith+
    obtain t0 neg where s0: "bn_abs_sub_part_words a (drop n a) la (int n - int la) = (t0, neg)"
      by (cases "bn_abs_sub_part_words a (drop n a) la (int n - int la)")
    obtain t1 neg1 where s1: "bn_abs_sub_part_words (drop n b) b lb (int lb - int n) = (t1, neg1)"
      by (cases "bn_abs_sub_part_words (drop n b) b lb (int lb - int n)")
    have dn: "int n - int la = - dna" "int lb - int n = dnb" using l by linarith+
    define t23 r01 r23 where
      "t23 = (if n = 8 \<and> dna = 0 \<and> dnb = 0 then bn_mul_comba8 t0 t1 else bn_mul_recursive t0 t1 n 0 0)" and
      "r01 = (if n = 8 \<and> dna = 0 \<and> dnb = 0 then bn_mul_comba8 a b else bn_mul_recursive a b n 0 0)" and
      "r23 = (if n = 8 \<and> dna = 0 \<and> dnb = 0 then bn_mul_comba8 (drop n a) (drop n b)
              else bn_mul_recursive (drop n a) (drop n b) n dna dnb)"
    have eq: "bn_mul_recursive a b n2 dna dnb = karatsuba_combine n (neg XOR neg1) (r01 @ r23) t23"
      using 3 n s0 s1 s0 [unfolded dn] s1 [unfolded dn] l unfolding t23_def r01_def r23_def
      by (subst bn_mul_recursive.simps) (simp add: Let_def)
    have full: "rec_ok x n 0" if "n \<le> length x" for x using that by (simp add: rec_ok_def)
    have rec: "bn_val (bn_mul_recursive x y n 0 0) = bn_part n x * bn_part n y \<and> length (bn_mul_recursive x y n 0 0) = 2 * n"
      if "n \<le> length x" "n \<le> length y" for x y
      using less.IH [OF n(3) full [OF that(1)] full [OF that(2)] n_def n(2)] by simp
    have c8: "n = 8 \<Longrightarrow> n \<le> length x \<Longrightarrow> n \<le> length y \<Longrightarrow> bn_val (bn_mul_comba8 x y) = bn_part n x * bn_part n y \<and> length (bn_mul_comba8 x y) = 2 * n" for x y
      using mul_comba8_val [of x y] by simp
    have f1: "bn_val t23 = bn_val t0 * bn_val t1 \<and> length t23 = 2 * n" if "length t0 = n" "length t1 = n"
      using that rec [of t0 t1] c8 [of t0 t1] by (simp add: t23_def)
    have f2: "bn_val r01 = bn_part n a * bn_part n b" "length r01 = 2 * n"
      using rec [of a b] c8 [of a b] ha(3) hb(3) by (simp_all add: r01_def)
    have f3: "bn_val r23 = bn_part la (drop n a) * bn_part lb (drop n b) \<and> length r23 = 2 * n"
    proof (cases "n = 8 \<and> dna = 0 \<and> dnb = 0")
      case True
      then show ?thesis using c8 [of "drop n a" "drop n b"] ha(2) hb(2) by (simp add: r23_def la_def lb_def rec_ok_def)
    next
      case False
      then show ?thesis using less.IH [OF n(3) ha(2) hb(2) n_def n(2)] unfolding r23_def la_def lb_def if_not_P [OF False] by simp
    qed
    have f4: "n + la \<le> length a" "n + lb \<le> length b" using ha(4) hb(4) by (simp_all add: la_def lb_def)
    from karatsuba_level [OF ha(3) l(1) f4(1) hb(3) l(2) f4(2) s0 s1 f1 f2 f3 [THEN conjunct1] f3 [THEN conjunct2]]
    have "bn_val (karatsuba_combine n (neg XOR neg1) (r01 @ r23) t23) = bn_part (n + la) a * bn_part (n + lb) b \<and>
        length (karatsuba_combine n (neg XOR neg1) (r01 @ r23) t23) = 4 * n" .
    then show ?thesis unfolding eq ha(1) hb(1) la_def lb_def using n(1) by simp
  qed
qed

lemma split_size_ok:
  assumes "i = 2 ^ k" "max tna tnb < i" "16 \<le> max tna tnb"
  shows "\<exists>j. split_size i tna tnb = 2 ^ j \<and> 8 < split_size i tna tnb \<and> split_size i tna tnb \<le> max tna tnb \<and>
    max tna tnb < 2 * split_size i tna tnb"
  using assms
proof (induction i tna tnb arbitrary: k rule: split_size.induct)
  case (1 i tna tnb)
  have "16 \<le> (2 :: nat) ^ k" using "1.prems" by linarith
  then obtain j where j: "i = 2 * 2 ^ j" using power2_halves "1.prems"(1) by blast
  then have h: "i div 2 = 2 ^ j" by simp
  show ?case
  proof (cases "2 ^ j \<le> max tna tnb")
    case True
    then have "split_size i tna tnb = 2 ^ j" by (subst split_size.simps) (auto simp: h Let_def le_max_iff_disj)
    then show ?thesis using True "1.prems" j by auto
  next
    case False
    then have "split_size i tna tnb = split_size (2 ^ j) tna tnb" by (subst split_size.simps) (auto simp: h Let_def)
    moreover have "\<exists>m. split_size (2 ^ j) tna tnb = 2 ^ m \<and> 8 < split_size (2 ^ j) tna tnb \<and>
        split_size (2 ^ j) tna tnb \<le> max tna tnb \<and> max tna tnb < 2 * split_size (2 ^ j) tna tnb"
      using "1.IH" [OF h [symmetric] _ refl] False "1.prems"(3) by (auto simp: not_le)
    ultimately show ?thesis by simp
  qed
qed

lemma splice_zeros:
  "bn_val (splice 0 ws (replicate n 0)) = bn_val ws"
  "length ws \<le> n \<Longrightarrow> length (splice 0 ws (replicate n 0)) = n"
  by (simp_all add: splice_def bn_val_append)

text \<open>The sizes \<open>bn_mul_impl\<close> passes: the operands differ by at most one word.\<close>

definition part_ok :: "u64 list \<Rightarrow> u64 list \<Rightarrow> nat \<Rightarrow> nat \<Rightarrow> nat \<Rightarrow> bool" where
  "part_ok a b n tna tnb \<longleftrightarrow> tna < n \<and> tnb < n \<and> tna \<le> tnb + 1 \<and> tnb \<le> tna + 1 \<and>
     n + tna \<le> length a \<and> n + tnb \<le> length b"

lemma mul_part_recursive_val:
  assumes "part_ok a b n tna tnb" and "n = 2 ^ k" "8 \<le> n"
  shows "bn_val (bn_mul_part_recursive old a b n tna tnb) = bn_part (n + tna) a * bn_part (n + tnb) b \<and>
    length (bn_mul_part_recursive old a b n tna tnb) = 4 * n"
  using assms
proof (induction n arbitrary: a b tna tnb k old rule: less_induct)
  case (less n)
  have p: "tna < n" "tnb < n" "tna \<le> tnb + 1" "tnb \<le> tna + 1" "n + tna \<le> length a" "n + tnb \<le> length b"
    using less.prems(1) by (simp_all add: part_ok_def)
  obtain t0 neg where s0: "bn_abs_sub_part_words a (drop n a) tna (int n - int tna) = (t0, neg)"
    by (cases "bn_abs_sub_part_words a (drop n a) tna (int n - int tna)")
  obtain t1 neg1 where s1: "bn_abs_sub_part_words (drop n b) b tnb (int tnb - int n) = (t1, neg1)"
    by (cases "bn_abs_sub_part_words (drop n b) b tnb (int tnb - int n)")
  have normal: "bn_val (bn_mul_normal (drop n a) tna (drop n b) tnb) = bn_part tna (drop n a) * bn_part tnb (drop n b)"
    "length (bn_mul_normal (drop n a) tna (drop n b) tnb) = tna + tnb"
    using mul_normal_val [of tna "drop n a" tnb "drop n b"] p by simp_all
  define i where "i = split_size n tna tnb"
  define upper where "upper =
     (if tna < 16 \<and> tnb < 16 then bn_mul_normal (drop n a) tna (drop n b) tnb
      else if i < tna \<or> i < tnb then bn_mul_part_recursive (replicate (n * 2) 0) (drop n a) (drop n b) i (tna - i) (tnb - i)
      else bn_mul_recursive (drop n a) (drop n b) i (int tna - int i) (int tnb - int i))"
  define t23 r01 r23 where
    "t23 = (if n = 8 then bn_mul_comba8 t0 t1 else bn_mul_recursive t0 t1 n 0 0)" and
    "r01 = (if n = 8 then bn_mul_comba8 a b else bn_mul_recursive a b n 0 0)" and
    "r23 = (if n = 8 then bn_mul_normal (drop n a) tna (drop n b) tnb @ replicate (n * 2 - tna - tnb) 0
            else splice 0 upper (replicate (n * 2) 0))"
  have eq: "bn_mul_part_recursive old a b n tna tnb = karatsuba_combine n (neg XOR neg1) (r01 @ r23) t23"
    using less.prems(3) s0 s1 unfolding t23_def r01_def r23_def upper_def i_def
    by (subst bn_mul_part_recursive.simps) (simp add: Let_def)
  have prod: "bn_val (if n = 8 then bn_mul_comba8 x y else bn_mul_recursive x y n 0 0) = bn_part n x * bn_part n y \<and>
      length (if n = 8 then bn_mul_comba8 x y else bn_mul_recursive x y n 0 0) = 2 * n"
    if "n \<le> length x" "n \<le> length y" for x y
  proof (cases "n = 8")
    case True
    then show ?thesis using that mul_comba8_val [of x y] by simp
  next
    case False
    have "rec_ok x n 0" "rec_ok y n 0" using that by (simp_all add: rec_ok_def)
    from mul_recursive_val [OF this less.prems(2,3)] False show ?thesis by simp
  qed
  have up: "bn_val upper = bn_part tna (drop n a) * bn_part tnb (drop n b) \<and> length upper \<le> n * 2"
  proof (cases "tna < 16 \<and> tnb < 16")
    case True
    then show ?thesis using normal p by (simp add: upper_def)
  next
    case False
    then obtain j where j: "i = 2 ^ j" "8 < i" "i \<le> max tna tnb" "max tna tnb < 2 * i"
      using split_size_ok [of n k tna tnb] less.prems(2) p unfolding i_def by fastforce
    have i: "i < n" "2 * i \<le> n"
      using split_size_less [of n tna tnb] p j less.prems(2) power2_twice [of j k] by (simp_all add: i_def)
    show ?thesis
    proof (cases "i < tna \<or> i < tnb")
      case True
      have "part_ok (drop n a) (drop n b) i (tna - i) (tnb - i)" using True p j by (auto simp: part_ok_def)
      from less.IH [OF i(1) this j(1)] j(2) show ?thesis
        using True False p i(2) unfolding upper_def by auto
    next
      case no: False
      have e: "rec_ok (drop n a) i (int tna - int i)" "rec_ok (drop n b) i (int tnb - int i)"
        using no p j(2-4) by (auto simp: rec_ok_def)
      then show ?thesis using mul_recursive_val [OF e j(1)] j(2) no False p i(2) unfolding upper_def by auto
    qed
  qed
  have "bn_val r23 = bn_part tna (drop n a) * bn_part tnb (drop n b)" "length r23 = 2 * n"
    using normal up splice_zeros [of upper "n * 2"] p unfolding r23_def by (auto simp: bn_val_append)
  then have "bn_val (karatsuba_combine n (neg XOR neg1) (r01 @ r23) t23) = bn_part (n + tna) a * bn_part (n + tnb) b \<and>
      length (karatsuba_combine n (neg XOR neg1) (r01 @ r23) t23) = 4 * n"
    using p prod [of t0 t1] prod [of a b] unfolding t23_def r01_def
    by (intro karatsuba_level [OF _ _ _ _ _ _ s0 s1]) simp_all
  then show ?case unfolding eq .
qed

section \<open>Squaring\<close>

lemma abs_sub_words_val:
  assumes "n \<le> length a" "n \<le> length b"
  shows "int (bn_val (bn_abs_sub_words a b n)) = \<bar>int (bn_part n a) - int (bn_part n b)\<bar> \<and> length (bn_abs_sub_words a b n) = n"
proof -
  obtain tmp c where t: "bn_sub_words a b n = (tmp, c)" by (cases "bn_sub_words a b n")
  obtain r0 c0 where s: "bn_sub_words b a n = (r0, c0)" by (cases "bn_sub_words b a n")
  have v: "int (bn_val tmp) - 2 ^ (64 * length tmp) * uint c = int (bn_part n a) - int (bn_part n b)" "length tmp = n" "c \<in> {0, 1}"
    "int (bn_val r0) - 2 ^ (64 * length r0) * uint c0 = int (bn_part n b) - int (bn_part n a)" "length r0 = n" "c0 \<in> {0, 1}"
    using sub_words_val [OF t assms] sub_words_val [OF s assms(2,1)] by simp_all
  note c = borrow_iff [OF v(1) bn_val_less v(3)] borrow_iff [OF v(4) bn_val_less v(6)]
  have "bn_abs_sub_words a b n = (if c = 1 then r0 else tmp)"
    using v(2,5) unfolding bn_abs_sub_words_def t s prod.case mask_of_borrow [OF v(3)] by (simp add: select_words)
  then show ?thesis using v c by auto
qed

text \<open>The unequal products below a row, as the rows add them up.\<close>

definition row_sum :: "u64 list \<Rightarrow> nat \<Rightarrow> nat \<Rightarrow> nat" where
  "row_sum a n i = (\<Sum>k<i. 2 ^ (64 * (2 * k + 1)) * (unat (a ! k) * bn_part (n - 1 - k) (drop (k + 1) a)))"

text \<open>After \<open>i\<close> rows the words from \<open>n + i\<close> on are still what they were, except the last, which is zero.\<close>

lemma sqr_rows_val:
  assumes "n \<le> length a" "length r = 2 * n" "1 \<le> i" "i \<le> n - 1"
    and "bn_part (n + i) r = row_sum a n i" and "r ! (2 * n - 1) = 0"
  shows "bn_part (2 * n - 1) (sqr_rows a n i r) = row_sum a n (n - 1) \<and>
    length (sqr_rows a n i r) = 2 * n \<and> sqr_rows a n i r ! (2 * n - 1) = 0"
  using assms
proof (induction a n i r rule: sqr_rows.induct)
  case (1 a n i r)
  show ?case
  proof (cases "i < n - 1")
    case False
    then have "i = n - 1" using "1.prems" by simp
    moreover have "n + (n - 1) = 2 * n - 1" by simp
    ultimately show ?thesis using False "1.prems" by (simp add: sqr_rows.simps)
  next
    case True
    define off m where "off = 2 * i + 1" and "m = n - 1 - i"
    obtain s c where sc: "bn_mul_add_words (drop off r) (drop (i + 1) a) m (a ! i) = (s, c)"
      by (cases "bn_mul_add_words (drop off r) (drop (i + 1) a) m (a ! i)")
    have om: "off + m = n + i" "off + Suc m = n + Suc i" "n + Suc i < 2 * n" using True by (simp_all add: off_def m_def)
    have v: "bn_val s + 2 ^ (64 * m) * unat c = bn_part m (drop off r) + bn_part m (drop (i + 1) a) * unat (a ! i)" "length s = m"
      using mul_add_words_val [OF sc] "1.prems"(1,2) om by (simp_all add: m_def off_def)
    define r' where "r' = splice off (s @ [c]) r"
    have low: "bn_part (n + i) r = bn_part off r + 2 ^ (64 * off) * bn_part m (drop off r)"
      using part_halves [of off r m] om "1.prems"(2) by simp
    have "take (n + Suc i) r' = take off r @ s @ [c]"
      using take_splice_end [of off r "s @ [c]"] om "1.prems"(2) v(2) unfolding r'_def om(2) [symmetric] by simp
    then have "bn_part (n + Suc i) r' = bn_part off r + 2 ^ (64 * off) * (bn_val s + 2 ^ (64 * m) * unat c)"
      using om "1.prems"(2) v(2) by (simp add: bn_val_append)
    also have "\<dots> = bn_part (n + i) r + 2 ^ (64 * off) * (unat (a ! i) * bn_part m (drop (i + 1) a))"
      unfolding v(1) low by (simp add: algebra_simps)
    also have "\<dots> = row_sum a n (Suc i)" unfolding "1.prems"(5) by (simp add: row_sum_def off_def m_def)
    finally have p: "bn_part (n + Suc i) r' = row_sum a n (Suc i)" .
    have l: "length r' = 2 * n" using om "1.prems"(2) v(2) by (simp add: r'_def)
    have "drop (n + Suc i) r' = drop (n + Suc i) r"
      unfolding r'_def using om "1.prems"(2) v(2) by (intro drop_splice_after) simp_all
    moreover have "2 * n - 1 = n + Suc i + (n - 2 - i)" using True by simp
    ultimately have z: "r' ! (2 * n - 1) = 0"
      using "1.prems"(2,6) l om(3) by (metis le_add1 less_imp_le_nat nth_drop)
    have "sqr_rows a n i r = sqr_rows a n (Suc i) r'"
      using True sc by (subst sqr_rows.simps) (simp add: r'_def off_def m_def)
    moreover have "bn_part (2 * n - 1) (sqr_rows a n (Suc i) r') = row_sum a n (n - 1) \<and>
        length (sqr_rows a n (Suc i) r') = 2 * n \<and> sqr_rows a n (Suc i) r' ! (2 * n - 1) = 0"
      using "1.IH" [OF True sc [unfolded off_def m_def, symmetric]] "1.prems"(1) True l p z
      unfolding r'_def off_def m_def by simp
    ultimately show ?thesis by simp
  qed
qed

lemma square_sum:
  "length ws = n \<Longrightarrow> (bn_val ws)\<^sup>2 = (\<Sum>i<n. (unat (ws ! i))\<^sup>2 * 2 ^ (128 * i)) + 2 * row_sum ws n (n - 1)"
proof (induction ws arbitrary: n)
  case Nil
  then show ?case by (simp add: row_sum_def)
next
  case (Cons w ws)
  define m where "m = length ws"
  have n: "n = Suc m" using Cons.prems by (simp add: m_def)
  have q: "(\<Sum>i<n. (unat ((w # ws) ! i))\<^sup>2 * 2 ^ (128 * i)) = (unat w)\<^sup>2 + 2 ^ 128 * (\<Sum>i<m. (unat (ws ! i))\<^sup>2 * 2 ^ (128 * i))"
    unfolding n sum.lessThan_Suc_shift by (simp add: sum_distrib_left sum_distrib_right power_add ac_simps)
  have r: "row_sum (w # ws) n (n - 1) = 2 ^ 64 * (unat w * bn_val ws) + 2 ^ 128 * row_sum ws m (m - 1)"
  proof (cases m)
    case 0
    then show ?thesis by (simp add: row_sum_def n m_def)
  next
    case (Suc j)
    have "row_sum (w # ws) n (n - 1) = 2 ^ 64 * (unat w * bn_val ws) +
        (\<Sum>k<j. 2 ^ (64 * (2 * Suc k + 1)) * (unat (ws ! k) * bn_part (n - 1 - Suc k) (drop (Suc k) ws)))"
      unfolding row_sum_def n Suc diff_Suc_1 sum.lessThan_Suc_shift using Suc by (simp add: m_def)
    also have "(\<Sum>k<j. 2 ^ (64 * (2 * Suc k + 1)) * (unat (ws ! k) * bn_part (n - 1 - Suc k) (drop (Suc k) ws))) = 2 ^ 128 * row_sum ws m (m - 1)"
      unfolding row_sum_def Suc diff_Suc_1 sum_distrib_left n by (intro sum.cong) (simp_all add: power_add ac_simps)
    finally show ?thesis .
  qed
  have IH: "(bn_val ws)\<^sup>2 = (\<Sum>i<m. (unat (ws ! i))\<^sup>2 * 2 ^ (128 * i)) + 2 * row_sum ws m (m - 1)"
    using Cons.IH m_def by simp
  have "(bn_val (w # ws))\<^sup>2 = (unat w)\<^sup>2 + 2 * (2 ^ 64 * (unat w * bn_val ws)) + 2 ^ 128 * (bn_val ws)\<^sup>2"
    by (simp add: power2_eq_square algebra_simps)
  then show ?case unfolding q r IH by (simp add: algebra_simps)
qed

lemma row_sum_take: "n \<le> length a \<Longrightarrow> i < n \<Longrightarrow> row_sum (take n a) n i = row_sum a n i"
  unfolding row_sum_def by (intro sum.cong) (simp_all add: drop_take min_def)

lemma sum_fits:
  assumes "bn_add_words x y n = (r, c)" and "n \<le> length x" "n \<le> length y" and "bn_part n x + bn_part n y < 2 ^ (64 * n)"
  shows "bn_val r = bn_part n x + bn_part n y \<and> length r = n"
proof -
  have v: "bn_val r + 2 ^ (64 * n) * unat c = bn_part n x + bn_part n y" "length r = n" "unat c \<le> 1"
    using add_words_val [OF assms(1-3)] by simp_all
  have "unat c = 0" using v(1,3) assms(4) by (cases "unat c") simp_all
  then show ?thesis using v by simp
qed

lemma sqr_normal_val:
  assumes n: "n \<le> length a" and old: "2 * n \<le> length old"
  shows "bn_val (bn_sqr_normal old a n) = (bn_part n a)\<^sup>2 \<and> length (bn_sqr_normal old a n) = 2 * n"
proof (cases "n = 0")
  case True
  then show ?thesis by (simp add: bn_sqr_normal_def)
next
  case False
  define z where "z = (take (n * 2) old)[n * 2 - 1 := 0, 0 := 0]"
  have z: "length z = 2 * n" "z ! 0 = 0" "z ! (2 * n - 1) = 0"
    using False old by (auto simp: z_def nth_list_update mult.commute)
  obtain s c where sc: "bn_mul_words (drop 1 a) (n - 1) (a ! 0) = (s, c)" by (cases "bn_mul_words (drop 1 a) (n - 1) (a ! 0)")
  have v: "bn_val s + 2 ^ (64 * (n - 1)) * unat c = bn_part (n - 1) (drop 1 a) * unat (a ! 0)" "length s = n - 1"
    using mul_words_val [OF sc] n by simp_all
  define r1 where "r1 = (if 1 < n then splice 1 (s @ [c]) z else z)"
  define R where "R = sqr_rows a n 1 r1"
  have R: "bn_part (2 * n - 1) R = row_sum a n (n - 1) \<and> length R = 2 * n \<and> R ! (2 * n - 1) = 0"
  proof (cases "1 < n")
    case True
    have z0: "take 1 z = [0]" using z False by (cases z) simp_all
    have "take (n + 1) r1 = take 1 z @ s @ [c]"
      using take_splice_end [of 1 z "s @ [c]"] True z(1) v(2) by (simp add: r1_def)
    then have "bn_part (n + 1) r1 = row_sum a n 1"
      using v by (simp add: z0 [simplified] bn_val_append row_sum_def)
    moreover have "length r1 = 2 * n" using True z(1) v(2) by (simp add: r1_def)
    moreover have "r1 ! (2 * n - 1) = 0"
    proof -
      have "drop (n + 1) r1 = drop (n + 1) z"
        using drop_splice_after [of 1 "s @ [c]" z "n + 1"] True z(1) v(2) by (simp add: r1_def)
      then have "drop (n + 1) r1 ! (n - 2) = drop (n + 1) z ! (n - 2)" by simp
      moreover have "n + 1 + (n - 2) = 2 * n - 1" using True by simp
      ultimately show ?thesis using z True \<open>length r1 = 2 * n\<close> by (simp add: nth_drop del: drop_drop)
    qed
    ultimately show ?thesis using sqr_rows_val [OF n, of r1 1] True unfolding R_def by simp
  next
    case False
    then have "n = 1" using \<open>n \<noteq> 0\<close> by simp
    moreover have "R = z" using False by (simp add: R_def r1_def sqr_rows.simps)
    moreover have "take 1 z = [0]" if "n = 1" using z that by (cases z) simp_all
    ultimately show ?thesis using z by (simp add: row_sum_def)
  qed
  have "R = take (2 * n - 1) R @ [0]" using R False by (metis Suc_diff_1 lessI mult_pos_pos neq0_conv take_Suc_conv_app_nth take_all_iff order_refl zero_less_numeral)
  then have vR: "bn_val R = row_sum a n (n - 1)" using R by (metis bn_val_append bn_val.simps mult_0_right add_0_right unsigned_0)
  have sq: "(bn_part n a)\<^sup>2 = (\<Sum>i<n. (unat (take n a ! i))\<^sup>2 * 2 ^ (128 * i)) + 2 * row_sum a n (n - 1)"
    using square_sum [of "take n a" n] n row_sum_take [OF n, of "n - 1"] False by simp
  have sw: "length (bn_sqr_words a n) = 2 * n" "bn_val (bn_sqr_words a n) = (\<Sum>i<n. (unat (take n a ! i))\<^sup>2 * 2 ^ (128 * i))"
    using sqr_words_val [OF n] by simp_all
  have "(bn_part n a)\<^sup>2 < 2 ^ (64 * n) * 2 ^ (64 * n)"
    unfolding power2_eq_square by (intro mult_strict_mono bn_part_less) simp_all
  then have fit: "(bn_part n a)\<^sup>2 < 2 ^ (64 * (2 * n))" by (simp flip: power_add)
  obtain D k where D: "bn_add_words R R (2 * n) = (D, k)" by (cases "bn_add_words R R (2 * n)")
  obtain Q l where Q: "bn_add_words D (bn_sqr_words a n) (2 * n) = (Q, l)" by (cases "bn_add_words D (bn_sqr_words a n) (2 * n)")
  have vD: "bn_val D = 2 * row_sum a n (n - 1) \<and> length D = 2 * n"
    using sum_fits [OF D] R vR sq fit by simp
  have "bn_val Q = (bn_part n a)\<^sup>2 \<and> length Q = 2 * n"
    using sum_fits [OF Q] vD sw sq fit by simp
  moreover have "bn_sqr_normal old a n = Q"
    unfolding bn_sqr_normal_def Let_def if_not_P [OF False] z_def [symmetric] sc prod.case r1_def [symmetric] R_def [symmetric]
    using D Q by (simp add: mult.commute)
  ultimately show ?thesis by simp
qed

lemma sqr_recursive_val:
  assumes "n2 \<le> length a" and "n2 = 2 ^ k" "4 \<le> n2"
  shows "bn_val (bn_sqr_recursive old a n2) = (bn_part n2 a)\<^sup>2 \<and> length (bn_sqr_recursive old a n2) = 2 * n2"
  using assms
proof (induction n2 arbitrary: old a k rule: less_induct)
  case (less n2)
  have "n2 = 4 \<or> n2 = 8 \<or> 16 \<le> n2"
  proof -
    have "k = 0 \<or> k = 1 \<or> k = 2 \<or> k = 3 \<or> 4 \<le> k" by linarith
    then show ?thesis using less.prems(2,3) power_increasing [of 4 k "2 :: nat"] by auto
  qed
  then consider "n2 = 4" | "n2 = 8" | "16 \<le> n2" by blast
  then show ?case
  proof cases
    case 1
    then show ?thesis using sqr_comba_val(2) [of a] less.prems by (simp add: bn_sqr_recursive.simps)
  next
    case 2
    then show ?thesis using sqr_comba_val(1) [of a] less.prems by (simp add: bn_sqr_recursive.simps)
  next
    case 3
    obtain j where j: "n2 = 2 * 2 ^ j" "8 \<le> (2 :: nat) ^ j" using power2_halves 3 less.prems(2) by blast
    define n where "n = (2 :: nat) ^ j"
    have n: "n2 = 2 * n" "8 \<le> n" "n < n2" "n2 div 2 = n" "n \<le> length a" "n \<le> length (drop n a)"
      using j less.prems by (simp_all add: n_def)
    let ?B = "2 ^ (64 * n) :: nat"
    define a0 a1 where "a0 = bn_part n a" and "a1 = bn_part n (drop n a)"
    define t0 where "t0 = bn_abs_sub_words a (drop n a) n"
    define t23 r where "t23 = bn_sqr_recursive old t0 n"
      and "r = bn_sqr_recursive old a n @ bn_sqr_recursive (drop n2 old) (drop n a) n"
    have t0: "int (bn_val t0) = \<bar>int a0 - int a1\<bar>" "length t0 = n"
      using abs_sub_words_val [OF n(5,6)] by (simp_all add: t0_def a0_def a1_def)
    have rec: "bn_val (bn_sqr_recursive o' x n) = (bn_part n x)\<^sup>2 \<and> length (bn_sqr_recursive o' x n) = 2 * n" if "n \<le> length x" for o' x
      using less.IH [OF n(3) that n_def] n(2) by simp
    have t23: "int (bn_val t23) = (int a0 - int a1)\<^sup>2" "length t23 = 2 * n"
      using rec [of t0 old] t0 by (simp_all add: t23_def)
    have r: "length r = 4 * n" "bn_part (2 * n) r = a0\<^sup>2" "bn_val (drop (2 * n) r) = a1\<^sup>2" "bn_val r = a0\<^sup>2 + ?B * ?B * a1\<^sup>2"
      using rec [OF n(5)] rec [OF n(6)] by (simp_all add: r_def a0_def a1_def bn_val_append flip: power_add)
    obtain t01 c where A: "bn_add_words r (drop n2 r) n2 = (t01, c)" by (cases "bn_add_words r (drop n2 r) n2")
    obtain m b where S: "bn_sub_words t01 t23 n2 = (m, b)" by (cases "bn_sub_words t01 t23 n2")
    obtain mid carry where M: "bn_add_words (drop n r) m n2 = (mid, carry)" by (cases "bn_add_words (drop n r) m n2")
    have va: "bn_val t01 + 2 ^ (64 * n2) * unat c = a0\<^sup>2 + a1\<^sup>2" "length t01 = n2" "unat c \<le> 1"
      using add_words_val [OF A] r n by simp_all
    have vs: "int (bn_val m) - 2 ^ (64 * n2) * uint b = int (bn_val t01) - int (bn_val t23)" "length m = n2" "b \<in> {0, 1}"
      using sub_words_val [OF S] va(2) t23 n by simp_all
    have "int (bn_val m) - 2 ^ (64 * n2) * uint b + 2 ^ (64 * n2) * int (unat c) = int (bn_val t01 + 2 ^ (64 * n2) * unat c) - (int a0 - int a1)\<^sup>2"
      unfolding vs(1) t23(1) by simp
    also have "\<dots> = 2 * int a0 * int a1" unfolding va(1) by (simp add: power2_eq_square algebra_simps)
    finally have mid: "int (bn_val m) + 2 ^ (64 * n2) * (int (unat c) - uint b) = 2 * int a0 * int a1"
      by (simp add: algebra_simps)
    have "int (bn_val m) < 2 ^ (64 * n2)" using bn_val_less [of m] vs(2) by (metis of_nat_less_iff of_nat_numeral of_nat_power)
    moreover have "0 \<le> 2 * int a0 * int a1" by simp
    ultimately have "2 ^ (64 * n2) * (-1) < 2 ^ (64 * n2) * (int (unat c) - uint b)" using mid by linarith
    then have "-1 < int (unat c) - uint b" by (simp only: mult_less_cancel_left_pos zero_less_power zero_less_numeral)
    then have bc: "b \<le> c" by (simp add: word_le_def)
    then have e: "int (unat (c - b)) = int (unat c) - uint b" by (simp add: unat_sub word_le_nat_alt)
    have "int (bn_val m + 2 ^ (64 * n2) * unat (c - b)) = int (2 * a0 * a1)" using mid e by simp
    then have vm: "bn_val m + 2 ^ (64 * (2 * n)) * unat (c - b) = 2 * a0 * a1" unfolding of_nat_eq_iff n(1) .
    have hv: "bn_part n2 a = a0 + ?B * a1" using part_halves [OF n(5), of n] n(1) by (simp add: a0_def a1_def mult_2)
    have T: "bn_val r + ?B * (2 * a0 * a1) = (bn_part n2 a)\<^sup>2"
      unfolding r(4) hv by (simp add: power2_eq_square algebra_simps)
    have "(bn_part n2 a)\<^sup>2 < 2 ^ (64 * n2) * 2 ^ (64 * n2)"
      unfolding power2_eq_square by (intro mult_strict_mono bn_part_less) simp_all
    then have fit: "(bn_part n2 a)\<^sup>2 < 2 ^ (64 * (4 * n))" by (simp add: n(1) flip: power_add)
    have e2: "unat (c - b) \<le> 2" using e va(3) u64_bounds(1) [of b] by linarith
    from add_middle [of r n m "c - b" mid carry, OF r(1) _ e2] M fit T vs(2) n(1) vm
    have "bn_val (take n r @ mid @ fst (each_word carry_step (c - b + carry) (drop (n + 2 * n) r))) = (bn_part n2 a)\<^sup>2 \<and>
        length (take n r @ mid @ fst (each_word carry_step (c - b + carry) (drop (n + 2 * n) r))) = 2 * n2"
      by simp
    moreover have "bn_sqr_recursive old a n2 = take n r @ mid @ fst (each_word carry_step (c - b + carry) (drop (n + 2 * n) r))"
      unfolding bn_sqr_recursive.simps [of old a n2] Let_def n(4) t0_def [symmetric] t23_def [symmetric] r_def [symmetric] A prod.case
        S M using 3 n(1) by simp
    ultimately show ?thesis by simp
  qed
qed

lemma mul_small_val:
  assumes "num_a \<le> length a" "num_b \<le> length b" "num_r = num_a + num_b"
  shows "\<exists>r. bn_mul_small num_r a num_a b num_b = Some r \<and> bn_val r = bn_part num_a a * bn_part num_b b \<and> length r = num_r"
  using mul_normal_val [OF assms(1,2)] mul_comba8_val [of a b] assms by (auto simp: bn_mul_small_def)

lemma sqr_small_val:
  assumes "num_a \<le> length a" "2 * num_a \<le> length old" "num_r = 2 * num_a" "num_a \<le> BN_SMALL_MAX_WORDS"
  shows "\<exists>r. bn_sqr_small old num_r a num_a = Some r \<and> bn_val r = (bn_part num_a a)\<^sup>2 \<and> length r = num_r"
  using sqr_normal_val [OF assms(1,2)] sqr_comba_val [of a] assms by (auto simp: bn_sqr_small_def)

text \<open>C5: Karatsuba's recursion computes the exact product for every input. For \<open>n\<close> a power of two, at
  least 8, \<open>bn_mul_recursive\<close> multiplies arrays of \<open>n + dna\<close> and \<open>n + dnb\<close> words (up to eight fewer than
  \<open>n\<close>) and \<open>bn_mul_part_recursive\<close> arrays of \<open>n + tna\<close> and \<open>n + tnb\<close> words whose lengths differ by at
  most one; the result fills the output array and no carry is lost. \<open>bn_sqr_recursive\<close> squares likewise.\<close>

theorem karatsuba_exact:
  assumes "n = 2 ^ k" "8 \<le> n"
  shows "(rec_ok a n dna \<and> rec_ok b n dnb \<longrightarrow>
      bn_val (bn_mul_recursive a b n dna dnb) = bn_part (nat (int n + dna)) a * bn_part (nat (int n + dnb)) b \<and>
      length (bn_mul_recursive a b n dna dnb) = 2 * n) \<and>
    (part_ok a b n tna tnb \<longrightarrow>
      bn_val (bn_mul_part_recursive old a b n tna tnb) = bn_part (n + tna) a * bn_part (n + tnb) b \<and>
      length (bn_mul_part_recursive old a b n tna tnb) = 4 * n) \<and>
    (n \<le> length a \<longrightarrow>
      bn_val (bn_sqr_recursive old a n) = (bn_part n a)\<^sup>2 \<and> length (bn_sqr_recursive old a n) = 2 * n)"
  using mul_recursive_val [OF _ _ assms] mul_part_recursive_val [OF _ assms] sqr_recursive_val [OF _ assms(1)] assms(2)
  by simp

theorem karatsuba_exact_witness:
  "bn_val (bn_mul_recursive (replicate 16 7) (replicate 16 (NOT 0)) 16 0 0)
   = bn_part 16 (replicate 16 7) * bn_part 16 (replicate 16 (NOT 0))"
  using karatsuba_exact [of 16 4 "replicate 16 7" 0 "replicate 16 (NOT 0)" 0] by (simp add: rec_ok_def)

end
