(* ===== verification/Bn.thy ===== *)
theory Bn
  imports BnMul Cbs
begin

text \<open>
  BoringSSL's big numbers (\<open>crypto/fipsmodule/bn\<close>): the structure and its storage (\<open>bn.c\<close>), comparison
  (\<open>cmp.c\<close>), addition and subtraction (\<open>add.c\<close>). \<open>bn_int\<close> is the integer a \<open>BIGNUM\<close> stands for;
  \<open>bn_ok\<close> is the invariant of its storage. An operation on a result \<open>r\<close> takes the structure \<open>r\<close> points to
  as its state and the operands as values. The code reads a word of an operand before it writes the word
  of \<open>r\<close> at the same index, and the widths before it changes them, so \<open>r\<close> may be one of the operands.
\<close>

section \<open>The structure\<close>

text \<open>\<open>bn_d\<close> are the \<open>dmax\<close> words of the array \<open>d\<close>; \<open>bn_static\<close> is \<open>BN_FLG_STATIC_DATA\<close>.\<close>

record BIGNUM =
  bn_d :: "u64 list"
  bn_width :: nat
  dmax :: nat
  neg :: bool
  bn_static :: bool

definition BN_init :: BIGNUM where
  "BN_init = \<lparr>bn_d = [], bn_width = 0, dmax = 0, neg = False, bn_static = False\<rparr>"

definition BN_new :: "(nat \<Rightarrow> byte list option) \<Rightarrow> BIGNUM option" where
  "BN_new malloc = (case OPENSSL_malloc malloc 24 of None \<Rightarrow> None | Some _ \<Rightarrow> Some BN_init)"

text \<open>The words in a block of memory, least significant byte first.\<close>

definition word_bytes :: "u64 \<Rightarrow> byte list" where
  "word_bytes w = map (\<lambda>k. ucast (drop_bit (8 * k) w)) [0, 1, 2, 3, 4, 5, 6, 7]"

definition words_bytes :: "u64 list \<Rightarrow> byte list" where
  "words_bytes ws = concat (map word_bytes ws)"

definition bytes_words :: "byte list \<Rightarrow> u64 list" where
  "bytes_words bs = map (\<lambda>i. of_nat (size_of_bytes (take 8 (drop (8 * i) bs)))) [0 ..< length bs div 8]"

definition bn_wexpand :: "(nat \<Rightarrow> byte list option) \<Rightarrow> size_t \<Rightarrow> (BIGNUM, unit) op" where
  "bn_wexpand malloc words bn =
     (if words \<le> dmax bn then (Some (), bn)
      else if INT_MAX div (4 * 64) < words then (None, bn)
      else if bn_static bn then (None, bn)
      else (case OPENSSL_malloc malloc (8 * words) of None \<Rightarrow> (None, bn)
        | Some a \<Rightarrow>
            (Some (), bn\<lparr>bn_d := splice 0 (take (bn_width bn) (bn_d bn)) (bytes_words (payload a)), dmax := words\<rparr>)))"

definition bn_expand :: "(nat \<Rightarrow> byte list option) \<Rightarrow> size_t \<Rightarrow> (BIGNUM, unit) op" where
  "bn_expand malloc bits bn =
     (if size_wrap (bits + 64 - 1) < bits then (None, bn)
      else bn_wexpand malloc (size_wrap (bits + 64 - 1) div 64) bn)"

definition BN_zero :: "BIGNUM \<Rightarrow> BIGNUM" where
  "BN_zero bn = bn\<lparr>bn_width := 0, neg := False\<rparr>"

definition BN_copy :: "(nat \<Rightarrow> byte list option) \<Rightarrow> BIGNUM \<Rightarrow> (BIGNUM, unit) op" where
  "BN_copy malloc src =
     andthen (bn_wexpand malloc (bn_width src)) (\<lambda>_ dest.
       (Some (), dest\<lparr>bn_d := splice 0 (take (bn_width src) (bn_d src)) (bn_d dest), bn_width := bn_width src, neg := neg src\<rparr>))"

definition BN_dup :: "(nat \<Rightarrow> byte list option) \<Rightarrow> BIGNUM \<Rightarrow> BIGNUM option" where
  "BN_dup malloc src =
     (case BN_new malloc of None \<Rightarrow> None
      | Some copy \<Rightarrow> (case BN_copy malloc src copy of (None, _) \<Rightarrow> None | (Some _, copy) \<Rightarrow> Some copy))"

definition BN_clear :: "BIGNUM \<Rightarrow> BIGNUM" where
  "BN_clear bn = bn\<lparr>bn_d := replicate (dmax bn) 0, bn_width := 0, neg := False\<rparr>"

definition BN_value_one :: BIGNUM where
  "BN_value_one = \<lparr>bn_d = [1], bn_width = 1, dmax = 1, neg = False, bn_static = True\<rparr>"

text \<open>One of the bisecting blocks of \<open>BN_num_bits_word\<close>.\<close>

definition num_bits_block :: "nat \<Rightarrow> u64 \<times> u64 \<Rightarrow> u64 \<times> u64" where
  "num_bits_block s = (\<lambda>(bits, l).
     let x = drop_bit s l;
         msk = 0 - x;
         msk = 0 - drop_bit (64 - 1) msk
     in (bits + (of_nat s AND msk), l XOR ((x XOR l) AND msk)))"

definition BN_num_bits_word :: "u64 \<Rightarrow> nat" where
  "BN_num_bits_word l =
     unat (fst (fold num_bits_block [32, 16, 8, 4, 2, 1] (if l \<noteq> 0 then 1 else 0, l)))"

function minimal_width :: "u64 list \<Rightarrow> nat \<Rightarrow> nat" where
  "minimal_width d n = (if 0 < n \<and> d ! (n - 1) = 0 then minimal_width d (n - 1) else n)"
  by pat_completeness auto
termination by (relation "measure snd") auto

declare minimal_width.simps [simp del]

definition bn_minimal_width :: "BIGNUM \<Rightarrow> nat" where
  "bn_minimal_width bn = minimal_width (bn_d bn) (bn_width bn)"

definition bn_set_minimal_width :: "BIGNUM \<Rightarrow> BIGNUM" where
  "bn_set_minimal_width bn =
     (let bn = bn\<lparr>bn_width := bn_minimal_width bn\<rparr>
      in if bn_width bn = 0 then bn\<lparr>neg := False\<rparr> else bn)"

definition BN_num_bits :: "BIGNUM \<Rightarrow> nat" where
  "BN_num_bits bn =
     (let width = bn_minimal_width bn
      in if width = 0 then 0 else (width - 1) * 64 + BN_num_bits_word (bn_d bn ! (width - 1)))"

definition BN_num_bytes :: "BIGNUM \<Rightarrow> nat" where
  "BN_num_bytes bn = (BN_num_bits bn + 7) div 8"

definition BN_set_word :: "(nat \<Rightarrow> byte list option) \<Rightarrow> u64 \<Rightarrow> (BIGNUM, unit) op" where
  "BN_set_word malloc value bn =
     (if value = 0 then (Some (), BN_zero bn)
      else andthen (bn_wexpand malloc 1) (\<lambda>_ bn.
        (Some (), bn\<lparr>neg := False, bn_d := (bn_d bn)[0 := value], bn_width := 1\<rparr>)) bn)"

definition BN_set_u64 :: "(nat \<Rightarrow> byte list option) \<Rightarrow> u64 \<Rightarrow> (BIGNUM, unit) op" where
  "BN_set_u64 = BN_set_word"

definition BN_one :: "(nat \<Rightarrow> byte list option) \<Rightarrow> (BIGNUM, unit) op" where
  "BN_one malloc = BN_set_word malloc 1"

definition bn_set_words :: "(nat \<Rightarrow> byte list option) \<Rightarrow> u64 list \<Rightarrow> size_t \<Rightarrow> (BIGNUM, unit) op" where
  "bn_set_words malloc words n =
     andthen (bn_wexpand malloc n) (\<lambda>_ bn.
       (Some (), bn\<lparr>bn_d := splice 0 (take n words) (bn_d bn), bn_width := n, neg := False\<rparr>))"

text \<open>The bitwise or of a range of words.\<close>

definition or_words :: "u64 list \<Rightarrow> u64" where
  "or_words ws = fold (\<lambda>w msk. msk OR w) ws 0"

definition bn_fits_in_words :: "BIGNUM \<Rightarrow> size_t \<Rightarrow> bool" where
  "bn_fits_in_words bn n \<longleftrightarrow> or_words (drop n (take (bn_width bn) (bn_d bn))) = 0"

text \<open>The \<open>n\<close> words written to \<open>out\<close>, or \<open>None\<close> when the call fails.\<close>

definition bn_copy_words :: "size_t \<Rightarrow> BIGNUM \<Rightarrow> u64 list option" where
  "bn_copy_words n bn =
     (if neg bn then None
      else if n < bn_width bn
      then (if \<not> bn_fits_in_words bn n then None else Some (take n (bn_d bn)))
      else Some (splice 0 (take (bn_width bn) (bn_d bn)) (replicate n 0)))"

definition BN_is_negative :: "BIGNUM \<Rightarrow> bool" where
  "BN_is_negative bn \<longleftrightarrow> neg bn"

definition BN_is_zero :: "BIGNUM \<Rightarrow> bool" where
  "BN_is_zero bn \<longleftrightarrow> bn_fits_in_words bn 0"

definition BN_set_negative :: "bool \<Rightarrow> BIGNUM \<Rightarrow> BIGNUM" where
  "BN_set_negative sign bn = bn\<lparr>neg := sign \<and> \<not> BN_is_zero bn\<rparr>"

definition bn_resize_words :: "(nat \<Rightarrow> byte list option) \<Rightarrow> size_t \<Rightarrow> (BIGNUM, unit) op" where
  "bn_resize_words malloc words bn =
     (if bn_width bn \<le> words
      then andthen (bn_wexpand malloc words) (\<lambda>_ bn.
             (Some (), bn\<lparr>bn_d := splice (bn_width bn) (replicate (words - bn_width bn) 0) (bn_d bn), bn_width := words\<rparr>)) bn
      else if \<not> bn_fits_in_words bn words then (None, bn)
      else (Some (), bn\<lparr>bn_width := words\<rparr>))"

section \<open>Comparison\<close>

text \<open>The loop over the common words; an \<open>int\<close> is -1, 0 or 1 here, selected by masks.\<close>

definition cmp_word :: "u64 \<times> u64 \<Rightarrow> u32 \<Rightarrow> u32" where
  "cmp_word = (\<lambda>(x, y) r.
     constant_time_select_int (constant_time_eq_w x y) r (constant_time_select_int (constant_time_lt_w x y) (- 1) 1))"

definition bn_cmp_words_consttime :: "u64 list \<Rightarrow> size_t \<Rightarrow> u64 list \<Rightarrow> size_t \<Rightarrow> u32" where
  "bn_cmp_words_consttime a a_len b b_len =
     (let mn = (if a_len < b_len then a_len else b_len);
          r = fold cmp_word (zip (take mn a) (take mn b)) 0
      in if a_len < b_len
         then constant_time_select_int (constant_time_is_zero_w (or_words (drop a_len (take b_len b)))) r (- 1)
         else if b_len < a_len
         then constant_time_select_int (constant_time_is_zero_w (or_words (drop b_len (take a_len a)))) r 1
         else r)"

definition BN_ucmp :: "BIGNUM \<Rightarrow> BIGNUM \<Rightarrow> u32" where
  "BN_ucmp a b = bn_cmp_words_consttime (bn_d a) (bn_width a) (bn_d b) (bn_width b)"

text \<open>\<open>None\<close> is a null pointer.\<close>

definition BN_cmp :: "BIGNUM option \<Rightarrow> BIGNUM option \<Rightarrow> u32" where
  "BN_cmp a b =
     (case (a, b) of
        (Some _, None) \<Rightarrow> - 1
      | (None, Some _) \<Rightarrow> 1
      | (None, None) \<Rightarrow> 0
      | (Some a, Some b) \<Rightarrow>
          if neg a \<noteq> neg b then (if neg a then - 1 else 1)
          else (if neg a then - BN_ucmp a b else BN_ucmp a b))"

definition bn_less_than_words :: "u64 list \<Rightarrow> u64 list \<Rightarrow> size_t \<Rightarrow> bool" where
  "bn_less_than_words a b len \<longleftrightarrow> bn_cmp_words_consttime a len b len <s 0"

definition BN_abs_is_word :: "BIGNUM \<Rightarrow> u64 \<Rightarrow> bool" where
  "BN_abs_is_word bn w \<longleftrightarrow>
     (if bn_width bn = 0 then w = 0
      else fold (\<lambda>x msk. msk OR x) (drop 1 (take (bn_width bn) (bn_d bn))) (bn_d bn ! 0 XOR w) = 0)"

definition BN_cmp_word :: "BIGNUM \<Rightarrow> u64 \<Rightarrow> u32" where
  "BN_cmp_word a b =
     BN_cmp (Some a) (Some \<lparr>bn_d = [b], bn_width = (if 0 < b then 1 else 0), dmax = 1, neg = False, bn_static = True\<rparr>)"

definition BN_is_one :: "BIGNUM \<Rightarrow> bool" where
  "BN_is_one bn \<longleftrightarrow> \<not> neg bn \<and> BN_abs_is_word bn 1"

definition BN_is_word :: "BIGNUM \<Rightarrow> u64 \<Rightarrow> bool" where
  "BN_is_word bn w \<longleftrightarrow> BN_abs_is_word bn w \<and> (w = 0 \<or> \<not> neg bn)"

definition BN_is_odd :: "BIGNUM \<Rightarrow> bool" where
  "BN_is_odd bn \<longleftrightarrow> 0 < bn_width bn \<and> bn_d bn ! 0 AND 1 = 1"

definition BN_is_pow2 :: "BIGNUM \<Rightarrow> bool" where
  "BN_is_pow2 bn \<longleftrightarrow>
     (let width = bn_minimal_width bn
      in if width = 0 \<or> neg bn then False
         else if list_ex (\<lambda>i. bn_d bn ! i \<noteq> 0) [0 ..< width - 1] then False
         else bn_d bn ! (width - 1) AND (bn_d bn ! (width - 1) - 1) = 0)"

definition BN_equal_consttime :: "BIGNUM \<Rightarrow> BIGNUM \<Rightarrow> bool" where
  "BN_equal_consttime a b \<longleftrightarrow>
     (let mn = (if bn_width a < bn_width b then bn_width a else bn_width b);
          msk = or_words (drop (bn_width a) (take (bn_width b) (bn_d b)) @ drop (bn_width b) (take (bn_width a) (bn_d a)) @
                  map (\<lambda>i. bn_d a ! i XOR bn_d b ! i) [0 ..< mn])
      in msk OR (if neg a \<noteq> neg b then 1 else 0) = 0)"

section \<open>Addition and subtraction\<close>

definition bn_uadd_consttime :: "(nat \<Rightarrow> byte list option) \<Rightarrow> BIGNUM \<Rightarrow> BIGNUM \<Rightarrow> (BIGNUM, unit) op" where
  "bn_uadd_consttime malloc a b =
     (let (a, b) = (if bn_width a < bn_width b then (b, a) else (a, b));
          mx = bn_width a; mn = bn_width b
      in andthen (bn_wexpand malloc (mx + 1)) (\<lambda>_ r.
           case bn_add_words (bn_d a) (bn_d b) mn of (lo, carry) \<Rightarrow>
           case each_word carry_step carry (drop mn (take mx (bn_d a))) of (hi, carry) \<Rightarrow>
             (Some (), r\<lparr>bn_width := mx + 1, bn_d := splice 0 (lo @ hi @ [carry]) (bn_d r)\<rparr>)))"

definition BN_uadd :: "(nat \<Rightarrow> byte list option) \<Rightarrow> BIGNUM \<Rightarrow> BIGNUM \<Rightarrow> (BIGNUM, unit) op" where
  "BN_uadd malloc a b = andthen (bn_uadd_consttime malloc a b) (\<lambda>_ r. (Some (), bn_set_minimal_width r))"

definition borrow_step :: "u64 \<Rightarrow> u64 \<Rightarrow> u64 \<times> u64" where
  "borrow_step borrow tmp = (tmp - borrow, if tmp < tmp - borrow then 1 else 0)"

definition bn_usub_consttime :: "(nat \<Rightarrow> byte list option) \<Rightarrow> BIGNUM \<Rightarrow> BIGNUM \<Rightarrow> (BIGNUM, unit) op" where
  "bn_usub_consttime malloc a b =
     (if bn_width a < bn_width b \<and> \<not> bn_fits_in_words b (bn_width a) then fail
      else
        (let b_width = (if bn_width a < bn_width b then bn_width a else bn_width b)
         in andthen (bn_wexpand malloc (bn_width a)) (\<lambda>_ r.
              case bn_sub_words (bn_d a) (bn_d b) b_width of (lo, borrow) \<Rightarrow>
              case each_word borrow_step borrow (drop b_width (take (bn_width a) (bn_d a))) of (hi, borrow) \<Rightarrow>
              let r = r\<lparr>bn_d := splice 0 (lo @ hi) (bn_d r)\<rparr>
              in if borrow \<noteq> 0 then (None, r)
                 else (Some (), r\<lparr>bn_width := bn_width a, neg := False\<rparr>))))"

definition BN_usub :: "(nat \<Rightarrow> byte list option) \<Rightarrow> BIGNUM \<Rightarrow> BIGNUM \<Rightarrow> (BIGNUM, unit) op" where
  "BN_usub malloc a b = andthen (bn_usub_consttime malloc a b) (\<lambda>_ r. (Some (), bn_set_minimal_width r))"

text \<open>\<open>r = |a| - |b|\<close> with its sign, as \<open>BN_add\<close> and \<open>BN_sub\<close> do it.\<close>

definition signed_usub :: "(nat \<Rightarrow> byte list option) \<Rightarrow> BIGNUM \<Rightarrow> BIGNUM \<Rightarrow> (BIGNUM, unit) op" where
  "signed_usub malloc a b =
     (if BN_ucmp a b <s 0
      then andthen (BN_usub malloc b a) (\<lambda>_ r. (Some (), r\<lparr>neg := True\<rparr>))
      else andthen (BN_usub malloc a b) (\<lambda>_ r. (Some (), r\<lparr>neg := False\<rparr>)))"

definition BN_add :: "(nat \<Rightarrow> byte list option) \<Rightarrow> BIGNUM \<Rightarrow> BIGNUM \<Rightarrow> (BIGNUM, unit) op" where
  "BN_add malloc a b r =
     (let a_neg = neg a
      in if a_neg \<noteq> neg b
         then (let (a, b) = (if a_neg then (b, a) else (a, b)) in signed_usub malloc a b r)
         else (case BN_uadd malloc a b r of (res, r) \<Rightarrow> (res, r\<lparr>neg := a_neg\<rparr>)))"

definition BN_sub :: "(nat \<Rightarrow> byte list option) \<Rightarrow> BIGNUM \<Rightarrow> BIGNUM \<Rightarrow> (BIGNUM, unit) op" where
  "BN_sub malloc a b =
     (let (a, b, add, ng) =
        (if neg a then (if neg b then (b, a, False, False) else (a, b, True, True))
         else (if neg b then (a, b, True, False) else (a, b, False, False)))
      in if add then andthen (BN_uadd malloc a b) (\<lambda>_ r. (Some (), r\<lparr>neg := ng\<rparr>))
         else signed_usub malloc a b)"

text \<open>The last parts of \<open>BN_add_word\<close> and \<open>BN_sub_word\<close>, for a number that is neither zero nor negative
  and a word that is not zero. Each calls the other on a number whose sign it has just cleared, which
  goes straight to this part.\<close>

function add_word_loop :: "nat \<Rightarrow> u64 list \<Rightarrow> nat \<Rightarrow> u64 \<Rightarrow> u64 list \<times> nat \<times> u64" where
  "add_word_loop width d i w =
     (if w \<noteq> 0 \<and> i < width
      then (let l = d ! i + w in add_word_loop width (d[i := l]) (Suc i) (if l < w then 1 else 0))
      else (d, i, w))"
  by pat_completeness auto
termination by (relation "measure (\<lambda>(width, d, i, w). width - i)") auto

declare add_word_loop.simps [simp del]

definition add_word_last :: "(nat \<Rightarrow> byte list option) \<Rightarrow> u64 \<Rightarrow> (BIGNUM, unit) op" where
  "add_word_last malloc w a =
     (case add_word_loop (bn_width a) (bn_d a) 0 w of (d, i, w) \<Rightarrow>
        let a = a\<lparr>bn_d := d\<rparr>
        in if w \<noteq> 0 \<and> i = bn_width a
           then andthen (bn_wexpand malloc (bn_width a + 1)) (\<lambda>_ a.
                  (Some (), a\<lparr>bn_width := bn_width a + 1, bn_d := (bn_d a)[i := w]\<rparr>)) a
           else (Some (), a))"

text \<open>The loop stops before the end of the array because the number is at least \<open>w\<close>.\<close>

function sub_word_loop :: "u64 list \<Rightarrow> nat \<Rightarrow> u64 \<Rightarrow> u64 list \<times> nat" where
  "sub_word_loop d i w =
     (if length d \<le> i then (d, i)
      else if w \<le> d ! i then (d[i := d ! i - w], i)
      else sub_word_loop (d[i := d ! i - w]) (Suc i) 1)"
  by pat_completeness auto
termination by (relation "measure (\<lambda>(d, i, w). length d - i)") auto

declare sub_word_loop.simps [simp del]

definition sub_word_last :: "u64 \<Rightarrow> BIGNUM \<Rightarrow> BIGNUM" where
  "sub_word_last w a =
     (if bn_minimal_width a = 1 \<and> bn_d a ! 0 < w
      then a\<lparr>bn_d := (bn_d a)[0 := w - bn_d a ! 0], neg := True\<rparr>
      else (case sub_word_loop (bn_d a) 0 w of (d, i) \<Rightarrow>
              let a = a\<lparr>bn_d := d\<rparr>
              in if d ! i = 0 \<and> i = bn_width a - 1 then a\<lparr>bn_width := bn_width a - 1\<rparr> else a))"

definition BN_add_word :: "(nat \<Rightarrow> byte list option) \<Rightarrow> u64 \<Rightarrow> (BIGNUM, unit) op" where
  "BN_add_word malloc w a =
     (if w = 0 then (Some (), a)
      else if BN_is_zero a then BN_set_word malloc w a
      else if neg a
      then (let a = sub_word_last w (a\<lparr>neg := False\<rparr>)
            in (Some (), if \<not> BN_is_zero a then a\<lparr>neg := \<not> neg a\<rparr> else a))
      else add_word_last malloc w a)"

definition BN_sub_word :: "(nat \<Rightarrow> byte list option) \<Rightarrow> u64 \<Rightarrow> (BIGNUM, unit) op" where
  "BN_sub_word malloc w a =
     (if w = 0 then (Some (), a)
      else if BN_is_zero a
      then (case BN_set_word malloc w a of (Some _, a) \<Rightarrow> (Some (), BN_set_negative True a) | (None, a) \<Rightarrow> (None, a))
      else if neg a
      then (case add_word_last malloc w (a\<lparr>neg := False\<rparr>) of (res, a) \<Rightarrow> (res, a\<lparr>neg := True\<rparr>))
      else (Some (), sub_word_last w a))"

section \<open>The integer and the invariant\<close>

definition bn_mag :: "BIGNUM \<Rightarrow> nat" where
  "bn_mag bn = bn_part (bn_width bn) (bn_d bn)"

definition bn_int :: "BIGNUM \<Rightarrow> int" where
  "bn_int bn = (if neg bn then - int (bn_mag bn) else int (bn_mag bn))"

definition bn_ok :: "BIGNUM \<Rightarrow> bool" where
  "bn_ok bn \<longleftrightarrow> length (bn_d bn) = dmax bn \<and> bn_width bn \<le> dmax bn \<and> dmax bn \<le> INT_MAX div 256"

text \<open>Zero has no sign.\<close>

definition bn_canonical :: "BIGNUM \<Rightarrow> bool" where
  "bn_canonical bn \<longleftrightarrow> (neg bn \<longrightarrow> bn_mag bn \<noteq> 0)"

lemma bn_okD: "bn_ok bn \<Longrightarrow> bn_width bn \<le> length (bn_d bn)" "bn_ok bn \<Longrightarrow> length (bn_d bn) = dmax bn"
  by (simp_all add: bn_ok_def)

lemma length_bytes_words [simp]: "length (bytes_words bs) = length bs div 8"
  by (simp add: bytes_words_def)

text \<open>Growing keeps the number and the sign, and gives room; a failure changes nothing.\<close>

lemma wexpand_ok:
  assumes "allocator malloc" and ok: "bn_ok bn" and w: "bn_wexpand malloc n bn = (res, bn')"
  shows "(case res of None \<Rightarrow> bn' = bn | Some _ \<Rightarrow> bn_ok bn' \<and> n \<le> dmax bn') \<and>
    bn_width bn' = bn_width bn \<and> neg bn' = neg bn \<and> bn_ok bn' \<and>
    take (bn_width bn) (bn_d bn') = take (bn_width bn) (bn_d bn)"
proof (cases "n \<le> dmax bn")
  case True
  then show ?thesis using w ok by (auto simp: bn_wexpand_def)
next
  case False
  show ?thesis
  proof (cases res)
    case None
    then show ?thesis using w False ok by (auto simp: bn_wexpand_def split: if_splits option.splits)
  next
    case (Some u)
    obtain a where a: "OPENSSL_malloc malloc (8 * n) = Some a" and n: "n \<le> INT_MAX div 256"
      and bn': "bn' = bn\<lparr>bn_d := splice 0 (take (bn_width bn) (bn_d bn)) (bytes_words (payload a)), dmax := n\<rparr>"
      using w False Some by (auto simp: bn_wexpand_def split: if_splits option.splits)
    have "length (payload a) = 8 * n"
      using malloc_block [OF assms(1) _ a] n by (simp add: INT_MAX_def)
    then have l: "length (bytes_words (payload a)) = n" by simp
    have b: "bn_width bn \<le> length (bn_d bn)" "bn_width bn \<le> n" using ok False by (auto simp: bn_ok_def)
    have "length (splice 0 (take (bn_width bn) (bn_d bn)) (bytes_words (payload a))) = n"
      using l b by simp
    moreover have "take (bn_width bn) (splice 0 (take (bn_width bn) (bn_d bn)) (bytes_words (payload a))) = take (bn_width bn) (bn_d bn)"
      using b by (simp add: splice_def)
    ultimately show ?thesis using Some b n unfolding bn' by (simp add: bn_ok_def)
  qed
qed

lemma write_words:
  "length ws \<le> length d \<Longrightarrow> bn_part (length ws) (splice 0 ws d) = bn_val ws \<and> length (splice 0 ws d) = length d"
  by (simp add: splice_def)

lemma take_last_word: "0 < n \<Longrightarrow> n \<le> length d \<Longrightarrow> take n d = take (n - 1) d @ [d ! (n - 1)]"
  using take_Suc_conv_app_nth [of "n - 1" d] by simp

text \<open>The words from \<open>m\<close> on, below \<open>n\<close>.\<close>

lemma part_split:
  assumes "m \<le> n" "n \<le> length d"
  shows "bn_part n d = bn_part m d + 2 ^ (64 * m) * bn_val (drop m (take n d))"
proof -
  have "take n d = take m d @ drop m (take n d)" using assms(1) by (metis append_take_drop_id min.absorb1 take_take)
  from arg_cong [OF this, of bn_val] show ?thesis using assms unfolding bn_val_append by simp
qed

lemma minimal_width_val:
  assumes "n \<le> length d"
  shows "minimal_width d n \<le> n \<and> bn_part (minimal_width d n) d = bn_part n d \<and>
    (minimal_width d n = 0 \<or> d ! (minimal_width d n - 1) \<noteq> 0)"
  using assms
proof (induction d n rule: minimal_width.induct)
  case (1 d n)
  show ?case
  proof (cases "0 < n \<and> d ! (n - 1) = 0")
    case True
    then have t: "take n d = take (n - 1) d @ [0]"
      using "1.prems" take_last_word [of n d] by simp
    have "minimal_width d n = minimal_width d (n - 1)" using True by (simp add: minimal_width.simps [of d n])
    then show ?thesis using "1.IH" [OF True] "1.prems" by (simp add: t bn_val_append) linarith
  next
    case False
    then show ?thesis by (subst (1 2 3 4) minimal_width.simps) auto
  qed
qed

lemma bn_mag_less: "bn_mag bn < 2 ^ (64 * bn_width bn)"
  unfolding bn_mag_def by (rule bn_part_less)

lemma top_word_bound:
  assumes "0 < n" "n \<le> length d" "d ! (n - 1) \<noteq> 0"
  shows "2 ^ (64 * (n - 1)) \<le> bn_part n d"
proof -
  have t: "take n d = take (n - 1) d @ [d ! (n - 1)]"
    using assms take_last_word [of n d] by simp
  have "1 \<le> unat (d ! (n - 1))" using assms(3) by (simp add: unat_gt_0 Suc_le_eq)
  then have "2 ^ (64 * (n - 1)) * 1 \<le> 2 ^ (64 * (n - 1)) * unat (d ! (n - 1))" by (intro mult_left_mono) simp_all
  also have "\<dots> \<le> bn_part n d" using assms(2) by (simp add: t bn_val_append)
  finally show ?thesis by simp
qed

lemma minimal_width_0: "n \<le> length d \<Longrightarrow> minimal_width d n = 0 \<longleftrightarrow> bn_part n d = 0"
  using minimal_width_val [of n d] top_word_bound [of "minimal_width d n" d] by force

lemma set_minimal_width:
  assumes "bn_ok bn"
  shows "bn_ok (bn_set_minimal_width bn) \<and> bn_mag (bn_set_minimal_width bn) = bn_mag bn \<and>
    neg (bn_set_minimal_width bn) = (neg bn \<and> bn_mag bn \<noteq> 0) \<and> bn_d (bn_set_minimal_width bn) = bn_d bn \<and>
    bn_width (bn_set_minimal_width bn) \<le> bn_width bn"
  using minimal_width_val [OF bn_okD(1) [OF assms]] minimal_width_0 [OF bn_okD(1) [OF assms]] assms
  by (auto simp: bn_set_minimal_width_def bn_minimal_width_def bn_ok_def bn_mag_def Let_def)

lemma or_words_0: "or_words ws = 0 \<longleftrightarrow> (\<forall>w \<in> set ws. w = 0)"
proof -
  have "fold (\<lambda>w msk. msk OR w) ws m = 0 \<longleftrightarrow> m = 0 \<and> (\<forall>w \<in> set ws. w = 0)" for m
    by (induction ws arbitrary: m) (auto simp: or_eq_0_iff)
  then show ?thesis by (simp add: or_words_def)
qed

lemma fits_in_words:
  assumes "bn_ok bn"
  shows "bn_fits_in_words bn n \<longleftrightarrow> bn_mag bn = bn_part (min n (bn_width bn)) (bn_d bn)"
    and "bn_fits_in_words bn n \<longleftrightarrow> bn_mag bn < 2 ^ (64 * n)"
proof -
  define ws where "ws = take (bn_width bn) (bn_d bn)"
  have l: "length ws = bn_width bn" using assms by (simp add: ws_def bn_ok_def)
  have f: "bn_fits_in_words bn n \<longleftrightarrow> bn_val (drop n ws) = 0"
    by (simp add: bn_fits_in_words_def or_words_0 bn_val_eq_0 ws_def)
  have m: "bn_mag bn = bn_val (take n ws) + 2 ^ (64 * min n (bn_width bn)) * bn_val (drop n ws)"
    using bn_val_append [of "take n ws" "drop n ws"] l unfolding append_take_drop_id by (simp add: bn_mag_def ws_def)
  have t: "take n ws = take (min n (bn_width bn)) (bn_d bn)" by (simp add: ws_def min_def)
  show "bn_fits_in_words bn n \<longleftrightarrow> bn_mag bn = bn_part (min n (bn_width bn)) (bn_d bn)"
    unfolding f m t by simp
  show "bn_fits_in_words bn n \<longleftrightarrow> bn_mag bn < 2 ^ (64 * n)"
  proof (cases "n \<le> bn_width bn")
    case True
    have "bn_val (take n ws) < 2 ^ (64 * n)" using bn_val_less [of "take n ws"] l True by simp
    moreover have "2 ^ (64 * n) \<le> bn_val (take n ws) + 2 ^ (64 * n) * bn_val (drop n ws)" if "bn_val (drop n ws) \<noteq> 0"
    proof -
      have "2 ^ (64 * n) * 1 \<le> 2 ^ (64 * n) * bn_val (drop n ws)" using that by (intro mult_left_mono) simp_all
      then show ?thesis unfolding mult_1_right by (rule trans_le_add2)
    qed
    ultimately show ?thesis unfolding f m using True by (cases "bn_val (drop n ws) = 0") (auto simp: not_less)
  next
    case False
    have "bn_mag bn < 2 ^ (64 * n)"
      using bn_mag_less [of bn] False by (meson less_le_trans less_or_eq_imp_le mult_le_mono2 not_le one_le_numeral power_increasing)
    then show ?thesis using False l unfolding f by simp
  qed
qed

lemma is_zero_mag: "bn_ok bn \<Longrightarrow> BN_is_zero bn \<longleftrightarrow> bn_mag bn = 0"
  by (simp add: BN_is_zero_def fits_in_words(2))

lemma uadd_spec:
  assumes al: "allocator malloc" and ok: "bn_ok a" "bn_ok b" "bn_ok r"
    and u: "bn_uadd_consttime malloc a b r = (res, r')"
  defines "n \<equiv> max (bn_width a) (bn_width b) + 1"
  shows "case res of None \<Rightarrow> r' = r \<and> bn_wexpand malloc n r = (None, r)
    | Some _ \<Rightarrow> bn_ok r' \<and> bn_mag r' = bn_mag a + bn_mag b \<and> neg r' = neg r \<and> bn_width r' = n"
proof -
  define x y where "x = (if bn_width a < bn_width b then b else a)" and "y = (if bn_width a < bn_width b then a else b)"
  have xy: "bn_ok x" "bn_ok y" "bn_width y \<le> bn_width x" "n = bn_width x + 1" "bn_mag a + bn_mag b = bn_mag x + bn_mag y"
    using ok by (auto simp: x_def y_def n_def)
  have sw: "(if bn_width a < bn_width b then (b, a) else (a, b)) = (x, y)" by (simp add: x_def y_def)
  obtain e r1 where w: "bn_wexpand malloc n r = (e, r1)" by (cases "bn_wexpand malloc n r")
  show ?thesis
  proof (cases e)
    case None
    then have "r1 = r" using wexpand_ok [OF al ok(3) w] by simp
    then show ?thesis using u w None sw unfolding bn_uadd_consttime_def Let_def xy(4) by (simp add: andthen_def)
  next
    case (Some un)
    have r1: "bn_ok r1" "n \<le> dmax r1" "neg r1 = neg r" using wexpand_ok [OF al ok(3) w] Some by simp_all
    obtain lo c where lo: "bn_add_words (bn_d x) (bn_d y) (bn_width y) = (lo, c)"
      by (cases "bn_add_words (bn_d x) (bn_d y) (bn_width y)")
    obtain hi c' where hi: "each_word carry_step c (drop (bn_width y) (take (bn_width x) (bn_d x))) = (hi, c')"
      by (cases "each_word carry_step c (drop (bn_width y) (take (bn_width x) (bn_d x)))")
    have lx: "bn_width x \<le> length (bn_d x)" "bn_width y \<le> length (bn_d y)" "bn_width y \<le> length (bn_d x)"
      using xy by (auto simp: bn_ok_def)
    have vlo: "bn_val lo + 2 ^ (64 * bn_width y) * unat c = bn_part (bn_width y) (bn_d x) + bn_mag y" "length lo = bn_width y"
      using add_words_val [OF lo] lx by (simp_all add: bn_mag_def)
    have vhi: "bn_val hi + 2 ^ (64 * (bn_width x - bn_width y)) * unat c' =
        bn_val (drop (bn_width y) (take (bn_width x) (bn_d x))) + unat c" "length hi = bn_width x - bn_width y"
      using each_carry [OF hi] lx by simp_all
    have mx: "bn_mag x = bn_part (bn_width y) (bn_d x) + 2 ^ (64 * bn_width y) * bn_val (drop (bn_width y) (take (bn_width x) (bn_d x)))"
      unfolding bn_mag_def by (rule part_split [OF xy(3) lx(1)])
    define ws where "ws = lo @ hi @ [c']"
    have lw: "length ws = n" using vlo(2) vhi(2) xy(3,4) by (simp add: ws_def)
    have "bn_val ws = bn_val lo + 2 ^ (64 * bn_width y) * (bn_val hi + 2 ^ (64 * (bn_width x - bn_width y)) * unat c')"
      by (simp add: ws_def bn_val_append vlo(2) vhi(2))
    also have "\<dots> = (bn_val lo + 2 ^ (64 * bn_width y) * unat c) + 2 ^ (64 * bn_width y) * bn_val (drop (bn_width y) (take (bn_width x) (bn_d x)))"
      unfolding vhi(1) by (simp add: algebra_simps)
    also have "\<dots> = bn_mag x + bn_mag y" unfolding vlo(1) mx by simp
    finally have vw: "bn_val ws = bn_mag a + bn_mag b" unfolding xy(5) .
    have "r' = r1\<lparr>bn_width := n, bn_d := splice 0 ws (bn_d r1)\<rparr>" "res = Some ()"
      using u w Some sw lo hi unfolding bn_uadd_consttime_def Let_def xy(4) ws_def by (auto simp: andthen_def)
    then show ?thesis
      using write_words [of ws "bn_d r1"] r1 lw vw by (simp add: bn_ok_def bn_mag_def)
  qed
qed

lemma borrow_step_val:
  assumes "c \<in> {0, 1}" and "borrow_step c t = (r, c')"
  shows "c' \<in> {0, 1} \<and> uint r + 2 ^ 64 * - uint c' = uint t + - uint c"
proof -
  have "borrow_from c t = (r, c')"
    using assms by (cases "t = 0") (auto simp: borrow_step_def borrow_from_def word_less_nat_alt unat_minus_one unat_gt_0)
  then show ?thesis using borrow_from_val [OF assms(1)] by simp
qed

lemma each_borrow_step:
  assumes "c \<in> {0, 1}" and "each_word borrow_step c ts = (rs, c')"
  shows "c' \<in> {0, 1} \<and> int (bn_val rs) - 2 ^ (64 * length ts) * uint c' = int (bn_val ts) - uint c \<and> length rs = length ts"
  using each_word_place [where ok = "\<lambda>c. c \<in> {0, 1}" and v = "\<lambda>c. - uint c" and g = uint, OF borrow_step_val assms]
    length_each [of borrow_step c ts] assms(2) by (simp add: place_val)

lemma usub_spec:
  assumes al: "allocator malloc" and ok: "bn_ok a" "bn_ok b" "bn_ok r"
    and u: "bn_usub_consttime malloc a b r = (res, r')"
  shows "case res of
      None \<Rightarrow> bn_mag a < bn_mag b \<and> bn_ok r' \<or> r' = r \<and> bn_wexpand malloc (bn_width a) r = (None, r)
    | Some _ \<Rightarrow> bn_ok r' \<and> bn_mag b \<le> bn_mag a \<and> bn_mag r' = bn_mag a - bn_mag b \<and> \<not> neg r' \<and> bn_width r' = bn_width a"
proof (cases "bn_width a < bn_width b \<and> \<not> bn_fits_in_words b (bn_width a)")
  case True
  then have "2 ^ (64 * bn_width a) \<le> bn_mag b" using fits_in_words(2) [OF ok(2)] by simp
  then have "bn_mag a < bn_mag b" using bn_mag_less [of a] by simp
  then show ?thesis using u True ok by (auto simp: bn_usub_consttime_def fail_def)
next
  case False
  define n bw where "n = bn_width a" and "bw = min (bn_width a) (bn_width b)"
  have mb: "bn_mag b = bn_part bw (bn_d b)" using False fits_in_words(1) [OF ok(2), of n] by (auto simp: bw_def n_def bn_mag_def min_def)
  have bw: "bw \<le> n" "bw \<le> length (bn_d b)" "n \<le> length (bn_d a)" "(if n < bn_width b then n else bn_width b) = bw"
    using ok by (auto simp: bw_def n_def bn_ok_def)
  obtain e r1 where w: "bn_wexpand malloc n r = (e, r1)" by (cases "bn_wexpand malloc n r")
  show ?thesis
  proof (cases e)
    case None
    then have "r1 = r" using wexpand_ok [OF al ok(3) w] by simp
    then show ?thesis using u w None False unfolding bn_usub_consttime_def Let_def n_def by (auto simp: andthen_def)
  next
    case (Some un)
    have r1: "bn_ok r1" "n \<le> dmax r1" using wexpand_ok [OF al ok(3) w] Some by simp_all
    obtain lo c where lo: "bn_sub_words (bn_d a) (bn_d b) bw = (lo, c)" by (cases "bn_sub_words (bn_d a) (bn_d b) bw")
    obtain hi c' where hi: "each_word borrow_step c (drop bw (take n (bn_d a))) = (hi, c')"
      by (cases "each_word borrow_step c (drop bw (take n (bn_d a)))")
    have vlo: "int (bn_val lo) - 2 ^ (64 * bw) * uint c = int (bn_part bw (bn_d a)) - int (bn_mag b)" "length lo = bw" "c \<in> {0, 1}"
      using sub_words_val [OF lo] bw by (simp_all add: mb)
    have vhi: "int (bn_val hi) - 2 ^ (64 * (n - bw)) * uint c' = int (bn_val (drop bw (take n (bn_d a)))) - uint c"
      "length hi = n - bw" "c' \<in> {0, 1}"
      using each_borrow_step [OF vlo(3) hi] bw by simp_all
    have ma: "bn_mag a = bn_part bw (bn_d a) + 2 ^ (64 * bw) * bn_val (drop bw (take n (bn_d a)))"
      unfolding bn_mag_def n_def [symmetric] by (rule part_split [OF bw(1,3)])
    define ws where "ws = lo @ hi"
    have lw: "length ws = n" using vlo(2) vhi(2) bw(1) by (simp add: ws_def)
    have "int (bn_val ws) - 2 ^ (64 * n) * uint c' =
        int (bn_val lo) + 2 ^ (64 * bw) * (int (bn_val hi) - 2 ^ (64 * (n - bw)) * uint c')"
      using bw(1) by (simp add: ws_def bn_val_append vlo(2) algebra_simps flip: power_add)
    also have "\<dots> = int (bn_mag a) - int (bn_mag b)"
      unfolding vhi(1) ma using vlo(1) by (simp add: algebra_simps)
    finally have vw: "int (bn_val ws) - 2 ^ (64 * n) * uint c' = int (bn_mag a) - int (bn_mag b)" .
    have "bn_val ws < 2 ^ (64 * n)" using bn_val_less [of ws] lw by simp
    from borrow_iff [OF vw this vhi(3)] have c': "c' \<noteq> 0 \<longleftrightarrow> bn_mag a < bn_mag b" using vhi(3) by auto
    have run: "(res, r') = (let r2 = r1\<lparr>bn_d := splice 0 ws (bn_d r1)\<rparr>
        in if c' \<noteq> 0 then (None, r2) else (Some (), r2\<lparr>bn_width := n, neg := False\<rparr>))"
      using u False w Some lo hi unfolding bn_usub_consttime_def n_def [symmetric] bw(4) ws_def by (simp add: andthen_def Let_def)
    have sp: "length (splice 0 ws (bn_d r1)) = length (bn_d r1)" "bn_part n (splice 0 ws (bn_d r1)) = bn_val ws"
      using write_words [of ws "bn_d r1"] r1 lw by (simp_all add: bn_ok_def)
    show ?thesis
    proof (cases "bn_mag a < bn_mag b")
      case True
      then show ?thesis using run c' sp r1 by (simp add: bn_ok_def Let_def)
    next
      case le: False
      have "int (bn_val ws) = int (bn_mag a) - int (bn_mag b)" using vw c' le by simp
      then have "bn_val ws = bn_mag a - bn_mag b" using le by linarith
      then show ?thesis using run c' sp r1 le by (simp add: bn_ok_def bn_mag_def [where bn = "bn_d_update f x" for f x] bn_mag_def [where bn = "bn_width_update f x" for f x] bn_mag_def [where bn = "neg_update f x" for f x] n_def Let_def)
    qed
  qed
qed

text \<open>The comparison of two arrays: the most significant difference decides.\<close>

definition sign_of :: "int \<Rightarrow> u32" where
  "sign_of x = (if x < 0 then - 1 else if x = 0 then 0 else 1)"

lemma sign_of_simps [simp]: "sign_of 0 = 0" "sign_of x <s 0 \<longleftrightarrow> x < 0" "- sign_of x = sign_of (- x)"
  by (auto simp: sign_of_def negative_bit bit_simps)

lemma cmp_words_val:
  assumes "length xs = length ys"
  shows "fold cmp_word (zip xs ys) 0 = sign_of (int (bn_val xs) - int (bn_val ys))"
  using assms
proof (induction xs arbitrary: ys rule: rev_induct)
  case (snoc x xs zs)
  then obtain y ys where zs: "zs = ys @ [y]" by (cases zs rule: rev_cases) auto
  have "length xs = length ys" using snoc.prems zs by simp
  note IH = snoc.IH [OF this]
  define B where "B = (2 :: int) ^ (64 * length xs)"
  have b: "int (bn_val xs) < B" "int (bn_val ys) < B" "0 \<le> int (bn_val xs)" "0 \<le> int (bn_val ys)"
    using bn_val_less [of xs] bn_val_less [of ys] \<open>length xs = length ys\<close> unfolding B_def
    by (metis of_nat_less_iff of_nat_numeral of_nat_power, metis of_nat_less_iff of_nat_numeral of_nat_power, simp_all)
  have d: "int (bn_val (xs @ [x])) - int (bn_val (ys @ [y])) = int (bn_val xs) - int (bn_val ys) + B * (uint x - uint y)"
    using \<open>length xs = length ys\<close> by (simp add: bn_val_append B_def algebra_simps)
  have c: "fold cmp_word (zip (xs @ [x]) (ys @ [y])) 0 =
      (if x = y then sign_of (int (bn_val xs) - int (bn_val ys)) else if x < y then - 1 else 1)"
    using \<open>length xs = length ys\<close> IH by (simp add: cmp_word_def eq_w_mask lt_w_mask select_int_mask)
  consider "x = y" | "uint x < uint y" | "uint y < uint x" by (metis linorder_cases word_uint_eqI)
  then show ?case
  proof cases
    case 1
    then show ?thesis unfolding zs c d by simp
  next
    case 2
    then have "B * (uint x - uint y) \<le> B * (-1)" unfolding B_def by (intro mult_left_mono) simp_all
    then have "int (bn_val xs) - int (bn_val ys) + B * (uint x - uint y) < 0" using b by linarith
    then show ?thesis using 2 unfolding zs c d by (auto simp: sign_of_def word_less_def)
  next
    case 3
    then have "B * 1 \<le> B * (uint x - uint y)" unfolding B_def by (intro mult_left_mono) simp_all
    then have "0 < int (bn_val xs) - int (bn_val ys) + B * (uint x - uint y)" using b by linarith
    then show ?thesis using 3 unfolding zs c d by (auto simp: sign_of_def word_less_def)
  qed
qed simp

lemma cmp_longer:
  assumes "la < lb" "la \<le> length a" "lb \<le> length b"
  shows "(if or_words (drop la (take lb b)) = 0 then sign_of (int (bn_part la a) - int (bn_part la b)) else - 1) =
    sign_of (int (bn_part la a) - int (bn_part lb b))"
proof -
  have p: "bn_part lb b = bn_part la b + 2 ^ (64 * la) * bn_val (drop la (take lb b))"
    using assms by (intro part_split) simp_all
  have z: "or_words (drop la (take lb b)) = 0 \<longleftrightarrow> bn_val (drop la (take lb b)) = 0"
    by (simp add: or_words_0 bn_val_eq_0)
  show ?thesis
  proof (cases "bn_val (drop la (take lb b)) = 0")
    case True
    then show ?thesis using z p by simp
  next
    case False
    then have "2 ^ (64 * la) * 1 \<le> 2 ^ (64 * la) * bn_val (drop la (take lb b))" by (intro mult_left_mono) simp_all
    then have "2 ^ (64 * la) \<le> bn_part lb b" unfolding p mult_1_right by (rule trans_le_add2)
    then have "bn_part la a < bn_part lb b" using bn_part_less [of la a] by simp
    then show ?thesis using z False by (simp add: sign_of_def)
  qed
qed

lemma cmp_words_consttime:
  assumes "la \<le> length a" "lb \<le> length b"
  shows "bn_cmp_words_consttime a la b lb = sign_of (int (bn_part la a) - int (bn_part lb b))"
proof -
  define mn where "mn = (if la < lb then la else lb)"
  have r: "fold cmp_word (zip (take mn a) (take mn b)) 0 = sign_of (int (bn_part mn a) - int (bn_part mn b))"
    using assms by (intro cmp_words_val) (simp add: mn_def)
  consider "la < lb" | "lb < la" | "la = lb" by linarith
  then show ?thesis
  proof cases
    case 1
    then have "bn_cmp_words_consttime a la b lb =
        (if or_words (drop la (take lb b)) = 0 then sign_of (int (bn_part la a) - int (bn_part la b)) else - 1)"
      using r by (simp add: bn_cmp_words_consttime_def Let_def mn_def is_zero_w_mask select_int_mask)
    then show ?thesis unfolding cmp_longer [OF 1 assms] .
  next
    case 2
    have *: "(if or_words (drop lb (take la a)) = 0 then sign_of (int (bn_part lb a) - int (bn_part lb b)) else 1) =
        sign_of (int (bn_part la a) - int (bn_part lb b))"
      using arg_cong [OF cmp_longer [OF 2 assms(2,1)], of uminus] by (simp split: if_splits)
    have "bn_cmp_words_consttime a la b lb =
        (if or_words (drop lb (take la a)) = 0 then sign_of (int (bn_part lb a) - int (bn_part lb b)) else 1)"
      using r 2 by (simp add: bn_cmp_words_consttime_def Let_def mn_def is_zero_w_mask select_int_mask)
    then show ?thesis unfolding * .
  next
    case 3
    then show ?thesis using r by (simp add: bn_cmp_words_consttime_def Let_def mn_def)
  qed
qed

lemma ucmp_val: "bn_ok a \<Longrightarrow> bn_ok b \<Longrightarrow> BN_ucmp a b = sign_of (int (bn_mag a) - int (bn_mag b))"
  by (simp add: BN_ucmp_def bn_mag_def cmp_words_consttime [OF bn_okD(1) bn_okD(1)])

text \<open>\<open>BN_cmp\<close> orders by value; only a negative zero is told from zero.\<close>

lemma bn_cmp_val:
  assumes "bn_ok a" "bn_ok b" "bn_canonical a" "bn_canonical b"
  shows "BN_cmp (Some a) (Some b) = sign_of (bn_int a - bn_int b)"
proof (cases "neg a = neg b")
  case True
  then show ?thesis using ucmp_val [OF assms(1,2)] by (simp add: BN_cmp_def bn_int_def)
next
  case False
  then show ?thesis using assms(3,4) by (auto simp: BN_cmp_def bn_int_def bn_canonical_def sign_of_def)
qed

lemma uadd_min_spec:
  assumes al: "allocator malloc" and ok: "bn_ok a" "bn_ok b" "bn_ok r" and u: "BN_uadd malloc a b r = (res, r')"
  shows "case res of None \<Rightarrow> r' = r \<and> bn_wexpand malloc (max (bn_width a) (bn_width b) + 1) r = (None, r)
    | Some _ \<Rightarrow> bn_ok r' \<and> bn_mag r' = bn_mag a + bn_mag b \<and> neg r' = (neg r \<and> bn_mag a + bn_mag b \<noteq> 0)"
proof -
  obtain e r1 where c: "bn_uadd_consttime malloc a b r = (e, r1)" by (cases "bn_uadd_consttime malloc a b r")
  note s = uadd_spec [OF al ok c]
  show ?thesis
    using s u c set_minimal_width [of r1] by (cases e) (auto simp: BN_uadd_def andthen_def)
qed

lemma usub_min_spec:
  assumes al: "allocator malloc" and ok: "bn_ok a" "bn_ok b" "bn_ok r" and u: "BN_usub malloc a b r = (res, r')"
    and le: "bn_mag b \<le> bn_mag a"
  shows "case res of None \<Rightarrow> r' = r \<and> bn_wexpand malloc (bn_width a) r = (None, r)
    | Some _ \<Rightarrow> bn_ok r' \<and> bn_mag r' = bn_mag a - bn_mag b \<and> \<not> neg r'"
proof -
  obtain e r1 where c: "bn_usub_consttime malloc a b r = (e, r1)" by (cases "bn_usub_consttime malloc a b r")
  note s = usub_spec [OF al ok c]
  show ?thesis
    using s u c le set_minimal_width [of r1] by (cases e) (auto simp: BN_usub_def andthen_def)
qed

lemma neg_update_ok [simp]: "bn_ok (bn\<lparr>neg := s\<rparr>) = bn_ok bn" "bn_mag (bn\<lparr>neg := s\<rparr>) = bn_mag bn"
  by (simp_all add: bn_ok_def bn_mag_def)

definition bn_grow_fails :: "(nat \<Rightarrow> byte list option) \<Rightarrow> BIGNUM \<Rightarrow> BIGNUM \<Rightarrow> BIGNUM \<Rightarrow> bool" where
  "bn_grow_fails malloc a b r \<longleftrightarrow>
     (\<exists>n \<le> max (bn_width a) (bn_width b) + 1. dmax r < n \<and> fst (bn_wexpand malloc n r) = None)"

lemma grow_failsI:
  assumes "bn_wexpand malloc n r = (None, r)" and "n \<le> max (bn_width a) (bn_width b) + 1"
  shows "bn_grow_fails malloc a b r"
proof -
  have "dmax r < n" using assms(1) by (auto simp: bn_wexpand_def split: if_splits)
  then show ?thesis using assms unfolding bn_grow_fails_def by auto
qed

lemma signed_usub_spec:
  assumes al: "allocator malloc" and ok: "bn_ok a" "bn_ok b" "bn_ok r" and u: "signed_usub malloc a b r = (res, r')"
  shows "case res of None \<Rightarrow> r' = r \<and> bn_grow_fails malloc a b r
    | Some _ \<Rightarrow> bn_ok r' \<and> bn_canonical r' \<and> bn_int r' = int (bn_mag a) - int (bn_mag b)"
proof (cases "bn_mag a < bn_mag b")
  case True
  obtain e r1 where c: "BN_usub malloc b a r = (e, r1)" by (cases "BN_usub malloc b a r")
  have "signed_usub malloc a b r = andthen (BN_usub malloc b a) (\<lambda>_ r. (Some (), r\<lparr>neg := True\<rparr>)) r"
    using True ucmp_val [OF ok(1,2)] by (simp add: signed_usub_def)
  then show ?thesis
    using u c usub_min_spec [OF al ok(2,1,3) c] True grow_failsI [of malloc "bn_width b" r a b]
    by (cases e) (auto simp: andthen_def bn_int_def bn_canonical_def)
next
  case False
  obtain e r1 where c: "BN_usub malloc a b r = (e, r1)" by (cases "BN_usub malloc a b r")
  have "signed_usub malloc a b r = andthen (BN_usub malloc a b) (\<lambda>_ r. (Some (), r\<lparr>neg := False\<rparr>)) r"
    using False ucmp_val [OF ok(1,2)] by (simp add: signed_usub_def)
  then show ?thesis
    using u c usub_min_spec [OF al ok c] False grow_failsI [of malloc "bn_width a" r a b]
    by (cases e) (auto simp: andthen_def bn_int_def bn_canonical_def)
qed

lemma bn_add_spec:
  assumes al: "allocator malloc" and ok: "bn_ok a" "bn_ok b" "bn_ok r" and can: "bn_canonical a" "bn_canonical b"
    and u: "BN_add malloc a b r = (res, r')"
  shows "case res of None \<Rightarrow> bn_grow_fails malloc a b r
    | Some _ \<Rightarrow> bn_ok r' \<and> bn_canonical r' \<and> bn_int r' = bn_int a + bn_int b"
proof (cases "neg a = neg b")
  case True
  obtain e r1 where c: "BN_uadd malloc a b r = (e, r1)" by (cases "BN_uadd malloc a b r")
  then show ?thesis
    using u uadd_min_spec [OF al ok c] True can grow_failsI [of malloc "max (bn_width a) (bn_width b) + 1" r a b]
    by (cases e) (auto simp: BN_add_def bn_int_def bn_canonical_def)
next
  case False
  have sym: "bn_grow_fails malloc b a r = bn_grow_fails malloc a b r" by (simp add: bn_grow_fails_def max.commute)
  show ?thesis
  proof (cases "neg a")
    case True
    then show ?thesis using signed_usub_spec [OF al ok(2,1,3), of res r'] u False sym
      by (auto simp: BN_add_def bn_int_def split: option.splits)
  next
    case no: False
    then show ?thesis using signed_usub_spec [OF al ok, of res r'] u False
      by (auto simp: BN_add_def bn_int_def split: option.splits)
  qed
qed

lemma bn_sub_spec:
  assumes al: "allocator malloc" and ok: "bn_ok a" "bn_ok b" "bn_ok r" and can: "bn_canonical a" "bn_canonical b"
    and u: "BN_sub malloc a b r = (res, r')"
  shows "case res of None \<Rightarrow> bn_grow_fails malloc a b r
    | Some _ \<Rightarrow> bn_ok r' \<and> bn_canonical r' \<and> bn_int r' = bn_int a - bn_int b"
proof (cases "neg a = neg b")
  case False
  obtain e r1 where c: "BN_uadd malloc a b r = (e, r1)" by (cases "BN_uadd malloc a b r")
  then show ?thesis
    using u uadd_min_spec [OF al ok c] False can grow_failsI [of malloc "max (bn_width a) (bn_width b) + 1" r a b]
    by (cases e) (auto simp: BN_sub_def bn_int_def bn_canonical_def andthen_def)
next
  case True
  have sym: "bn_grow_fails malloc b a r = bn_grow_fails malloc a b r" by (simp add: bn_grow_fails_def max.commute)
  show ?thesis
  proof (cases "neg a")
    case yes: True
    then show ?thesis using signed_usub_spec [OF al ok(2,1,3), of res r'] u True sym
      by (auto simp: BN_sub_def bn_int_def split: option.splits)
  next
    case no: False
    then show ?thesis using signed_usub_spec [OF al ok, of res r'] u True
      by (auto simp: BN_sub_def bn_int_def split: option.splits)
  qed
qed

section \<open>Adding and subtracting a word\<close>

lemma part_update:
  assumes "i < n" "n \<le> length d"
  shows "int (bn_part n (d[i := x])) = int (bn_part n d) + 2 ^ (64 * i) * (uint x - uint (d ! i))"
proof -
  have t: "take n d = take i d @ d ! i # drop (Suc i) (take n d)"
    using id_take_nth_drop [of i "take n d"] assms by (simp add: min_def)
  have u: "take n (d[i := x]) = take i d @ x # drop (Suc i) (take n d)"
    using upd_conv_take_nth_drop [of i "take n d" x] assms by (simp add: take_update_swap min_def)
  have l: "length (take i d) = i" using assms by simp
  have "bn_part n d = bn_val (take i d) + 2 ^ (64 * i) * (unat (d ! i) + 2 ^ 64 * bn_val (drop (Suc i) (take n d)))"
    using arg_cong [OF t, of bn_val] unfolding bn_val_append l by simp
  moreover have "bn_part n (d[i := x]) = bn_val (take i d) + 2 ^ (64 * i) * (unat x + 2 ^ 64 * bn_val (drop (Suc i) (take n d)))"
    unfolding u bn_val_append l by simp
  ultimately show ?thesis by (simp add: algebra_simps)
qed

lemma add_word_loop_val:
  assumes "i \<le> n" "n \<le> length d" and "add_word_loop n d i w = (d', i', w')"
  shows "length d' = length d \<and> i' \<le> n \<and> (w' \<noteq> 0 \<longrightarrow> i' = n) \<and>
    bn_part n d' + 2 ^ (64 * n) * unat w' = bn_part n d + 2 ^ (64 * i) * unat w"
  using assms
proof (induction n d i w rule: add_word_loop.induct)
  case (1 n d i w)
  show ?case
  proof (cases "w \<noteq> 0 \<and> i < n")
    case False
    then have "d' = d" "i' = i" "w' = w" using "1.prems"(3) by (auto simp: add_word_loop.simps [of n d])
    then show ?thesis using False "1.prems" by (cases "w = 0") auto
  next
    case True
    define l c where "l = d ! i + w" and "c = (if l < w then 1 else 0 :: u64)"
    have e: "add_word_loop n (d[i := l]) (Suc i) c = (d', i', w')"
      using "1.prems"(3) True by (simp add: add_word_loop.simps [of n d i] l_def c_def Let_def)
    have "carry_step (d ! i) w = (l, c)" by (simp add: carry_step_def l_def c_def add.commute)
    then have s: "uint l + 2 ^ 64 * uint c = uint w + uint (d ! i)" using carry_step_val by blast
    have IH: "length d' = length d" "i' \<le> n" "w' \<noteq> 0 \<longrightarrow> i' = n"
      "bn_part n d' + 2 ^ (64 * n) * unat w' = bn_part n (d[i := l]) + 2 ^ (64 * Suc i) * unat c"
      using "1.IH" [OF True refl] e True "1.prems"(2) unfolding l_def [symmetric] c_def [symmetric] by simp_all
    have "int (bn_part n (d[i := l]) + 2 ^ (64 * Suc i) * unat c) = int (bn_part n d) + 2 ^ (64 * i) * (uint l + 2 ^ 64 * uint c - uint (d ! i))"
      using part_update [of i n d l] True "1.prems"(2) by (simp add: algebra_simps power_add)
    also have "\<dots> = int (bn_part n d + 2 ^ (64 * i) * unat w)" unfolding s by simp
    finally have "bn_part n (d[i := l]) + 2 ^ (64 * Suc i) * unat c = bn_part n d + 2 ^ (64 * i) * unat w"
      unfolding of_nat_eq_iff .
    then show ?thesis using IH by simp
  qed
qed

lemma sub_word_loop_val:
  assumes "n \<le> length d" "w \<noteq> 0" "unat w \<le> bn_val (drop i (take n d))"
  shows "\<exists>d' j. sub_word_loop d i w = (d', j) \<and> j < n \<and> length d' = length d \<and>
    bn_part n d' + 2 ^ (64 * i) * unat w = bn_part n d"
  using assms
proof (induction d i w rule: sub_word_loop.induct)
  case (1 d i w)
  have i: "i < n" using "1.prems" by (cases "i < n") (auto simp: unat_eq_zero)
  have dr: "drop i (take n d) = d ! i # drop (Suc i) (take n d)"
    using Cons_nth_drop_Suc [of i "take n d"] i "1.prems"(1) by simp
  have nl: "\<not> length d \<le> i" using i "1.prems"(1) by simp
  define x where "x = d ! i - w"
  have u: "int (bn_part n (d[i := x])) = int (bn_part n d) + 2 ^ (64 * i) * (uint x - uint (d ! i))"
    using part_update i "1.prems"(1) by blast
  show ?case
  proof (cases "w \<le> d ! i")
    case True
    then have xv: "uint x - uint (d ! i) = - uint w" by (simp add: x_def uint_sub_if' word_le_def)
    have "int (bn_part n (d[i := x]) + 2 ^ (64 * i) * unat w) = int (bn_part n d)"
      using u unfolding xv by simp
    then have "bn_part n (d[i := x]) + 2 ^ (64 * i) * unat w = bn_part n d" unfolding of_nat_eq_iff .
    then show ?thesis using True nl i by (subst sub_word_loop.simps) (simp add: x_def)
  next
    case False
    then have lt: "d ! i < w" by simp
    have xv: "uint x = uint (d ! i) - uint w + 2 ^ 64"
      using lt unfolding x_def by (simp add: uint_sub_if' word_less_def)
    have "1 \<le> bn_val (drop (Suc i) (take n d))"
    proof (rule ccontr)
      assume "\<not> ?thesis"
      then have "unat w \<le> unat (d ! i)" using "1.prems"(3) unfolding dr by simp
      then show False using lt by (simp add: word_less_nat_alt)
    qed
    then have c: "unat (1 :: u64) \<le> bn_val (drop (Suc i) (take n (d[i := x])))"
      using i "1.prems"(1) by (simp add: take_update_swap drop_update_cancel)
    obtain d' j where IH: "sub_word_loop (d[i := x]) (Suc i) 1 = (d', j)" "j < n" "length d' = length d"
      "bn_part n d' + 2 ^ (64 * Suc i) * unat (1 :: u64) = bn_part n (d[i := x])"
      using "1.IH" [OF nl False] "1.prems"(1) c unfolding x_def [symmetric] by fastforce
    have "int (bn_part n d' + 2 ^ (64 * i) * unat w) = int (bn_part n (d[i := x])) - 2 ^ (64 * Suc i) + 2 ^ (64 * i) * uint w"
      unfolding IH(4) [symmetric] by simp
    also have "\<dots> = int (bn_part n d)" unfolding u xv by (simp add: algebra_simps power_add)
    finally have "bn_part n d' + 2 ^ (64 * i) * unat w = bn_part n d" unfolding of_nat_eq_iff .
    then show ?thesis using IH nl False by (subst sub_word_loop.simps) (simp add: x_def)
  qed
qed

lemma sub_word_last_spec:
  assumes ok: "bn_ok a" and nn: "\<not> neg a" "bn_mag a \<noteq> 0" and w: "w \<noteq> 0"
  shows "bn_ok (sub_word_last w a) \<and> bn_canonical (sub_word_last w a) \<and> bn_int (sub_word_last w a) = bn_int a - uint w"
proof -
  define n d m where "n = bn_width a" and "d = bn_d a" and "m = minimal_width d n"
  have l: "n \<le> length d" using ok by (simp add: n_def d_def bn_ok_def)
  have m: "m \<le> n" "bn_part m d = bn_mag a" "m \<noteq> 0" "d ! (m - 1) \<noteq> 0"
    using minimal_width_val [OF l] minimal_width_0 [OF l] nn(2) by (auto simp: m_def bn_mag_def n_def d_def)
  show ?thesis
  proof (cases "m = 1 \<and> d ! 0 < w")
    case True
    have "bn_part 1 d = unat (d ! 0)" using l m by (cases d) auto
    then have mag: "bn_mag a = unat (d ! 0)" using m(2) True by simp
    have "uint (w - d ! 0) = uint w - uint (d ! 0)" using True by (simp add: uint_sub_if' word_less_def)
    then have "int (bn_part n (d[0 := w - d ! 0])) = uint w - uint (d ! 0)"
      using part_update [of 0 n d "w - d ! 0"] m l mag by (simp add: bn_mag_def n_def d_def)
    moreover have "uint (d ! 0) < uint w" using True by (simp add: word_less_def)
    moreover have "sub_word_last w a = a\<lparr>bn_d := d[0 := w - d ! 0], neg := True\<rparr>"
      using True by (simp add: sub_word_last_def bn_minimal_width_def n_def d_def m_def)
    ultimately show ?thesis using ok nn mag by (simp add: bn_ok_def bn_canonical_def bn_int_def bn_mag_def [of "a\<lparr>bn_d := x\<rparr>" for x] n_def [symmetric] d_def)
  next
    case False
    have "unat w \<le> bn_mag a"
    proof (cases "m = 1")
      case True
      have "bn_part 1 d = unat (d ! 0)" using l m by (cases d) auto
      then show ?thesis using False True m(2) by (simp add: word_le_nat_alt not_less)
    next
      case more: False
      have "(2 :: nat) ^ 64 \<le> 2 ^ (64 * (m - 1))" using more m(3) by (intro power_increasing) simp_all
      also have "\<dots> \<le> bn_mag a" using top_word_bound [of m d] m l by simp
      finally show ?thesis using u64_less [of w] by simp
    qed
    then have "unat w \<le> bn_val (drop 0 (take n d))" by (simp add: bn_mag_def n_def d_def)
    from sub_word_loop_val [OF l w this] obtain d' j where
      d': "sub_word_loop d 0 w = (d', j)" "j < n" "length d' = length d" "bn_part n d' + unat w = bn_mag a"
      by (auto simp: bn_mag_def n_def d_def)
    have "sub_word_last w a = (if d' ! j = 0 \<and> j = n - 1 then a\<lparr>bn_d := d', bn_width := n - 1\<rparr> else a\<lparr>bn_d := d'\<rparr>)"
      unfolding sub_word_last_def bn_minimal_width_def n_def [symmetric] d_def [symmetric] m_def [symmetric]
        if_not_P [OF False] d'(1) prod.case Let_def by (auto simp: n_def)
    moreover have "bn_part (n - 1) d' = bn_part n d'" if "d' ! j = 0 \<and> j = n - 1"
      using that d'(2,3) l take_last_word [of n d'] by (auto simp: bn_val_append)
    moreover have "int (bn_part n d') = int (bn_mag a) - uint w" using arg_cong [OF d'(4), of int] by simp
    ultimately show ?thesis using ok nn d'
      by (auto simp: bn_ok_def bn_canonical_def bn_int_def bn_mag_def [of "a\<lparr>bn_d := x, bn_width := y\<rparr>" for x y]
          bn_mag_def [of "a\<lparr>bn_d := x\<rparr>" for x] n_def d_def)
  qed
qed

lemma add_word_last_spec:
  assumes al: "allocator malloc" and ok: "bn_ok a" and nn: "\<not> neg a" and u: "add_word_last malloc w a = (res, a')"
  shows "neg a' = neg a \<and> (case res of None \<Rightarrow> dmax a = bn_width a \<and> fst (bn_wexpand malloc (bn_width a + 1) a) = None
    | Some _ \<Rightarrow> bn_ok a' \<and> bn_mag a' = bn_mag a + unat w)"
proof -
  define n where "n = bn_width a"
  obtain d i c where lp: "add_word_loop n (bn_d a) 0 w = (d, i, c)" by (cases "add_word_loop n (bn_d a) 0 w")
  have l: "n \<le> length (bn_d a)" using ok by (simp add: n_def bn_ok_def)
  have v: "length d = length (bn_d a)" "c \<noteq> 0 \<longrightarrow> i = n" "bn_part n d + 2 ^ (64 * n) * unat c = bn_mag a + unat w"
    using add_word_loop_val [OF _ l lp] by (simp_all add: bn_mag_def n_def)
  define a1 where "a1 = a\<lparr>bn_d := d\<rparr>"
  have ok1: "bn_ok a1" using ok v(1) by (simp add: a1_def bn_ok_def)
  show ?thesis
  proof (cases "c \<noteq> 0 \<and> i = n")
    case False
    then have "res = Some ()" "a' = a1" using u lp v(2) by (auto simp: add_word_last_def Let_def n_def a1_def)
    moreover have "bn_mag a1 = bn_mag a + unat w" using v False by (auto simp: a1_def bn_mag_def n_def)
    ultimately show ?thesis using ok1 by (simp add: a1_def)
  next
    case True
    obtain e a2 where w: "bn_wexpand malloc (n + 1) a1 = (e, a2)" by (cases "bn_wexpand malloc (n + 1) a1")
    note x = wexpand_ok [OF al ok1 w]
    have width1: "bn_width a1 = n" by (simp add: a1_def n_def)
    have width2: "bn_width a2 = n" using x width1 by (simp split: option.splits)
    have r: "(res, a') = (case e of None \<Rightarrow> (None, a2) | Some _ \<Rightarrow> (Some (), a2\<lparr>bn_width := bn_width a2 + 1, bn_d := (bn_d a2)[n := c]\<rparr>))"
      using u True unfolding add_word_last_def n_def [symmetric] lp prod.case Let_def a1_def [symmetric] width1 andthen_def w
      by (auto simp: width2 split: option.splits)
    show ?thesis
    proof (cases e)
      case None
      have "fst (bn_wexpand malloc (n + 1) a) = None \<and> dmax a < n + 1"
        using w None by (auto simp: bn_wexpand_def a1_def split: if_splits option.splits)
      then show ?thesis using r None x ok by (simp add: a1_def n_def bn_ok_def)
    next
      case (Some un)
      have l2: "n < length (bn_d a2)" "take n (bn_d a2) = take n d" "bn_width a2 = n"
        using x Some by (simp_all add: bn_ok_def a1_def n_def)
      have "take (n + 1) ((bn_d a2)[n := c]) = take n d @ [c]"
        using l2 by (simp add: take_Suc_conv_app_nth)
      then have "bn_part (n + 1) ((bn_d a2)[n := c]) = bn_mag a + unat w"
        using v l2(1,2) l by (simp add: bn_val_append)
      then show ?thesis using r Some x l2
        by (simp add: bn_ok_def bn_mag_def [of "a2\<lparr>bn_d := x, bn_width := y\<rparr>" for x y] bn_mag_def [of "a2\<lparr>bn_width := x, bn_d := y\<rparr>" for x y] a1_def n_def)
    qed
  qed
qed

lemma set_word_spec:
  assumes al: "allocator malloc" and ok: "bn_ok a" and w: "w \<noteq> 0" and u: "BN_set_word malloc w a = (res, a')"
  shows "case res of None \<Rightarrow> fst (bn_wexpand malloc 1 a) = None
    | Some _ \<Rightarrow> bn_ok a' \<and> bn_mag a' = unat w \<and> \<not> neg a'"
proof -
  obtain e a1 where x: "bn_wexpand malloc 1 a = (e, a1)" by (cases "bn_wexpand malloc 1 a")
  have t: "bn_part (Suc 0) (bs[0 := w]) = unat w" if "1 \<le> length bs" for bs using that by (cases bs) auto
  show ?thesis using wexpand_ok [OF al ok x] u w x t [of "bn_d a1"]
    by (cases e) (auto simp: BN_set_word_def andthen_def bn_ok_def bn_mag_def)
qed

lemma sub_word_last_neg:
  assumes ok: "bn_ok a" and nn: "neg a" "bn_mag a \<noteq> 0" and w: "w \<noteq> 0"
  defines "b \<equiv> sub_word_last w (a\<lparr>neg := False\<rparr>)"
  shows "bn_ok b \<and> bn_int (if \<not> BN_is_zero b then b\<lparr>neg := \<not> neg b\<rparr> else b) = bn_int a + uint w"
proof -
  have s: "bn_ok b \<and> bn_canonical b \<and> bn_int b = int (bn_mag a) - uint w"
    using sub_word_last_spec [of "a\<lparr>neg := False\<rparr>" w] ok nn w by (simp add: b_def bn_int_def)
  then show ?thesis using nn is_zero_mag [of b] by (auto simp: bn_int_def bn_canonical_def)
qed

lemma add_word_spec:
  assumes al: "allocator malloc" and ok: "bn_ok a" "bn_canonical a" and u: "BN_add_word malloc w a = (res, a')"
  shows "case res of None \<Rightarrow> fst (bn_wexpand malloc (bn_width a + 1) a) = None \<or> fst (bn_wexpand malloc 1 a) = None
    | Some _ \<Rightarrow> bn_ok a' \<and> bn_canonical a' \<and> bn_int a' = bn_int a + uint w"
proof (cases "w = 0 \<or> BN_is_zero a")
  case True
  then show ?thesis
  proof (cases "w = 0")
    case False
    then have z: "bn_mag a = 0" "BN_set_word malloc w a = (res, a')"
      using True u is_zero_mag [OF ok(1)] by (simp_all add: BN_add_word_def)
    show ?thesis using set_word_spec [OF al ok(1) False z(2)] z(1)
      by (auto simp: bn_int_def bn_canonical_def split: option.splits)
  qed (use u ok in \<open>auto simp: BN_add_word_def\<close>)
next
  case False
  then have nz: "w \<noteq> 0" "bn_mag a \<noteq> 0" using is_zero_mag [OF ok(1)] by auto
  show ?thesis
  proof (cases "neg a")
    case True
    define b where "b = sub_word_last w (a\<lparr>neg := False\<rparr>)"
    have "res = Some ()" "a' = (if \<not> BN_is_zero b then b\<lparr>neg := \<not> neg b\<rparr> else b)"
      using u False True by (auto simp: BN_add_word_def Let_def b_def)
    moreover have "bn_canonical a'" using calculation(2) sub_word_last_spec [of "a\<lparr>neg := False\<rparr>" w] ok nz is_zero_mag [of b]
      by (auto simp: b_def bn_canonical_def)
    ultimately show ?thesis using sub_word_last_neg [OF ok(1) True nz(2,1)] unfolding b_def [symmetric] by (auto simp: b_def)
  next
    case nn: False
    then have "add_word_last malloc w a = (res, a')" using u False by (simp add: BN_add_word_def)
    from add_word_last_spec [OF al ok(1) nn this] show ?thesis using nn
      by (auto simp: bn_int_def bn_canonical_def split: option.splits)
  qed
qed

lemma bn_sub_word_spec:
  assumes al: "allocator malloc" and ok: "bn_ok a" "bn_canonical a" and u: "BN_sub_word malloc w a = (res, a')"
  shows "case res of None \<Rightarrow> fst (bn_wexpand malloc (bn_width a + 1) (a\<lparr>neg := False\<rparr>)) = None \<or> fst (bn_wexpand malloc 1 a) = None
    | Some _ \<Rightarrow> bn_ok a' \<and> bn_canonical a' \<and> bn_int a' = bn_int a - uint w"
proof (cases "w = 0 \<or> BN_is_zero a")
  case True
  then show ?thesis
  proof (cases "w = 0")
    case False
    obtain e b where z: "bn_mag a = 0" "BN_set_word malloc w a = (e, b)"
      using True False is_zero_mag [OF ok(1)] by (cases "BN_set_word malloc w a") auto
    have r: "res = e" "a' = (case e of None \<Rightarrow> b | Some _ \<Rightarrow> BN_set_negative True b)"
      using u True False z(2) by (auto simp: BN_sub_word_def split: option.splits)
    show ?thesis using set_word_spec [OF al ok(1) False z(2)] z(1) r is_zero_mag [of b] False
      by (auto simp: bn_int_def bn_canonical_def BN_set_negative_def unat_gt_0 dest: iffD1 [OF unat_eq_zero] split: option.splits)
  qed (use u ok in \<open>auto simp: BN_sub_word_def\<close>)
next
  case False
  then have nz: "w \<noteq> 0" "bn_mag a \<noteq> 0" using is_zero_mag [OF ok(1)] by auto
  show ?thesis
  proof (cases "neg a")
    case True
    obtain e b where x: "add_word_last malloc w (a\<lparr>neg := False\<rparr>) = (e, b)"
      by (cases "add_word_last malloc w (a\<lparr>neg := False\<rparr>)")
    have r: "res = e" "a' = b\<lparr>neg := True\<rparr>" using u False True x by (auto simp: BN_sub_word_def)
    show ?thesis using add_word_last_spec [OF al _ _ x] ok(1) True nz r
      by (auto simp: bn_int_def bn_canonical_def split: option.splits)
  next
    case nn: False
    then have "res = Some ()" "a' = sub_word_last w a" using u False by (auto simp: BN_sub_word_def)
    then show ?thesis using sub_word_last_spec [OF ok(1) nn nz(2,1)] by simp
  qed
qed

text \<open>What an operation on \<open>a\<close> with a word reports: an exact result, or that the number could not grow.\<close>

definition word_result :: "(nat \<Rightarrow> byte list option) \<Rightarrow> BIGNUM \<Rightarrow> int \<Rightarrow> unit option \<times> BIGNUM \<Rightarrow> bool" where
  "word_result malloc a v x \<longleftrightarrow> (case fst x of
       None \<Rightarrow> fst (bn_wexpand malloc (bn_width a + 1) (a\<lparr>neg := False\<rparr>)) = None \<or> fst (bn_wexpand malloc 1 a) = None
     | Some _ \<Rightarrow> bn_ok (snd x) \<and> bn_canonical (snd x) \<and> bn_int (snd x) = v)"

definition sum_result :: "(nat \<Rightarrow> byte list option) \<Rightarrow> BIGNUM \<Rightarrow> BIGNUM \<Rightarrow> BIGNUM \<Rightarrow> int \<Rightarrow> unit option \<times> BIGNUM \<Rightarrow> bool" where
  "sum_result malloc a b r v x \<longleftrightarrow> (case fst x of
       None \<Rightarrow> bn_grow_fails malloc a b r
     | Some _ \<Rightarrow> bn_ok (snd x) \<and> bn_canonical (snd x) \<and> bn_int (snd x) = v)"

lemma wexpand_neg: "fst (bn_wexpand malloc n (a\<lparr>neg := s\<rparr>)) = fst (bn_wexpand malloc n a)"
  by (simp add: bn_wexpand_def split: option.splits)

lemma add_word_result:
  assumes "allocator malloc" "bn_ok a" "bn_canonical a"
  shows "word_result malloc a (bn_int a + uint w) (BN_add_word malloc w a)"
  using add_word_spec [OF assms prod.collapse [symmetric], of w] unfolding word_result_def wexpand_neg by simp

lemma sub_word_result:
  assumes "allocator malloc" "bn_ok a" "bn_canonical a"
  shows "word_result malloc a (bn_int a - uint w) (BN_sub_word malloc w a)"
  using bn_sub_word_spec [OF assms prod.collapse [symmetric], of w] by (simp add: word_result_def)

lemma add_result:
  assumes "allocator malloc" "bn_ok a" "bn_ok b" "bn_ok r" "bn_canonical a" "bn_canonical b"
  shows "sum_result malloc a b r (bn_int a + bn_int b) (BN_add malloc a b r)"
  using bn_add_spec [OF assms prod.collapse [symmetric]] by (simp add: sum_result_def)

lemma sub_result:
  assumes "allocator malloc" "bn_ok a" "bn_ok b" "bn_ok r" "bn_canonical a" "bn_canonical b"
  shows "sum_result malloc a b r (bn_int a - bn_int b) (BN_sub malloc a b r)"
  using bn_sub_spec [OF assms prod.collapse [symmetric]] by (simp add: sum_result_def)

lemma wexpand_zero_alloc:
  assumes "n \<le> INT_MAX div 256" "\<not> bn_static r"
  shows "fst (bn_wexpand zero_alloc n r) = Some ()"
proof -
  have "size_wrap (8 * n + 8) < 2 ^ 63" using assms(1) unfolding INT_MAX_def by (simp add: size_wrap_def)
  then show ?thesis using assms
    by (auto simp: bn_wexpand_def OPENSSL_malloc_def zero_alloc_def OPENSSL_MALLOC_PREFIX_def Let_def)
qed

text \<open>C4: Addition, subtraction and comparison of big numbers are those of the integers the numbers stand
  for, whatever the sign and width of the operands and the previous contents of the result: \<open>BN_add\<close> and
  \<open>BN_sub\<close> give the exact sum and difference with no negative zero, \<open>BN_add_word\<close> and \<open>BN_sub_word\<close>
  likewise in place, \<open>BN_cmp\<close> the sign of the difference; an operation fails only when the array of its
  result cannot grow.\<close>

theorem bn_signed_arithmetic:
  assumes "allocator malloc" "bn_ok a" "bn_ok b" "bn_ok r" "bn_canonical a" "bn_canonical b"
  shows "sum_result malloc a b r (bn_int a + bn_int b) (BN_add malloc a b r) \<and>
    sum_result malloc a b r (bn_int a - bn_int b) (BN_sub malloc a b r) \<and>
    word_result malloc a (bn_int a + uint w) (BN_add_word malloc w a) \<and>
    word_result malloc a (bn_int a - uint w) (BN_sub_word malloc w a) \<and>
    BN_cmp (Some a) (Some b) = sign_of (bn_int a - bn_int b)"
  using add_result [OF assms] sub_result [OF assms] add_word_result [OF assms(1,2,5)]
    sub_word_result [OF assms(1,2,5)] bn_cmp_val [OF assms(2,3,5,6)] by blast

theorem bn_signed_arithmetic_witness:
  "let a = \<lparr>bn_d = [3, 1], bn_width = 2, dmax = 2, neg = True, bn_static = False\<rparr>;
       b = \<lparr>bn_d = [5, 0, 9], bn_width = 1, dmax = 3, neg = False, bn_static = False\<rparr>;
       x = BN_add zero_alloc a b BN_init
   in fst x = Some () \<and> bn_int (snd x) = 2 - 2 ^ 64"
proof -
  let ?a = "\<lparr>bn_d = [3, 1], bn_width = 2, dmax = 2, neg = True, bn_static = False\<rparr>"
  let ?b = "\<lparr>bn_d = [5, 0, 9], bn_width = 1, dmax = 3, neg = False, bn_static = False\<rparr>"
  have v: "bn_int ?a = - 3 - 2 ^ 64" "bn_int ?b = 5" "bn_mag ?a = 3 + 2 ^ 64" by (simp_all add: bn_int_def bn_mag_def)
  have "\<not> bn_grow_fails zero_alloc ?a ?b BN_init"
    using wexpand_zero_alloc [of _ BN_init] by (auto simp: bn_grow_fails_def BN_init_def INT_MAX_def)
  moreover have "sum_result zero_alloc ?a ?b BN_init (bn_int ?a + bn_int ?b) (BN_add zero_alloc ?a ?b BN_init)"
    using bn_signed_arithmetic [of zero_alloc ?a ?b BN_init 0] v(3)
    by (simp add: bn_ok_def bn_canonical_def BN_init_def INT_MAX_def)
  ultimately show ?thesis unfolding v by (simp add: sum_result_def Let_def split: option.splits)
qed

end
