(* ===== verification/BnShift.thy ===== *)
theory BnShift
  imports Bn
begin

text \<open>
  Shifts, single bits and byte strings of big numbers (\<open>crypto/fipsmodule/bn/shift.c\<close>, \<open>bytes.c\<close>).
  The shifts read \<open>a\<close> and write \<open>r\<close>; where the caller passes one number for both, the loops read a
  word before they overwrite it, so the model takes \<open>a\<close> by value and the case is \<open>r = a\<close>. Bit \<open>k\<close>
  of an array is bit \<open>k mod 64\<close> of word \<open>k div 64\<close>, and the operations are those of the natural
  number.
\<close>

section \<open>Shifts (shift.c)\<close>

text \<open>The loop of \<open>BN_lshift\<close>, from the top word down; \<open>i\<close> words are left.\<close>

primrec lshift_loop :: "nat \<Rightarrow> nat \<Rightarrow> u64 list \<Rightarrow> nat \<Rightarrow> u64 list \<Rightarrow> u64 list" where
  "lshift_loop nw lb f 0 t = t"
| "lshift_loop nw lb f (Suc i) t =
     (let l = f ! i
      in if lb = 0 then lshift_loop nw lb f i (t[nw + i := l])
         else (let t = t[nw + i + 1 := t ! (nw + i + 1) OR drop_bit (64 - lb) l]
               in lshift_loop nw lb f i (t[nw + i := push_bit lb l])))"

definition BN_lshift :: "(nat \<Rightarrow> byte list option) \<Rightarrow> BIGNUM \<Rightarrow> int \<Rightarrow> (BIGNUM, unit) op" where
  "BN_lshift malloc a n r =
     (if n < 0 then (None, r)
      else (let nw = nat n div 64; lb = nat n mod 64; r = r\<lparr>neg := neg a\<rparr>
            in andthen (bn_wexpand malloc (bn_width a + nw + 1)) (\<lambda>_ r.
                 (let t = lshift_loop nw lb (bn_d a) (bn_width a) ((bn_d r)[bn_width a + nw := 0]);
                      t = splice 0 (replicate nw 0) t
                  in (Some (), bn_set_minimal_width (r\<lparr>bn_d := t, bn_width := bn_width a + nw + 1\<rparr>)))) r))"

definition lshift1_step :: "u64 \<Rightarrow> u64 \<Rightarrow> u64 \<times> u64" where
  "lshift1_step c t = (push_bit 1 t OR c, drop_bit 63 t)"

text \<open>When \<open>r\<close> is \<open>a\<close> the sign and width it assigns are those \<open>r\<close> has.\<close>

definition BN_lshift1 :: "(nat \<Rightarrow> byte list option) \<Rightarrow> BIGNUM \<Rightarrow> (BIGNUM, unit) op" where
  "BN_lshift1 malloc a r =
     andthen (bn_wexpand malloc (bn_width a + 1)) (\<lambda>_ r.
       (case each_word lshift1_step 0 (take (bn_width a) (bn_d a)) of (ws, c) \<Rightarrow>
          let r = r\<lparr>bn_width := bn_width a, bn_d := splice 0 ws (bn_d r)\<rparr>
          in (Some (), if c \<noteq> 0 then r\<lparr>bn_d := (bn_d r)[bn_width a := 1], bn_width := bn_width a + 1\<rparr> else r)))
     (r\<lparr>neg := neg a\<rparr>)"

definition bn_rshift_words :: "u64 list \<Rightarrow> nat \<Rightarrow> size_t \<Rightarrow> u64 list" where
  "bn_rshift_words a shift n =
     (let shift_bits = shift mod 64; shift_words = shift div 64
      in if n \<le> shift_words then replicate n 0
         else (if shift_bits = 0 then take (n - shift_words) (drop shift_words a)
               else map (\<lambda>i. drop_bit shift_bits (a ! i) OR push_bit (64 - shift_bits) (a ! (i + 1))) [shift_words ..< n - 1]
                    @ [drop_bit shift_bits (a ! (n - 1))])
              @ replicate shift_words 0)"

definition BN_rshift :: "(nat \<Rightarrow> byte list option) \<Rightarrow> BIGNUM \<Rightarrow> int \<Rightarrow> (BIGNUM, unit) op" where
  "BN_rshift malloc a n r =
     (if n < 0 then (None, r)
      else andthen (bn_wexpand malloc (bn_width a)) (\<lambda>_ r.
             (Some (), bn_set_minimal_width (r\<lparr>bn_d := splice 0 (bn_rshift_words (bn_d a) (nat n) (bn_width a)) (bn_d r),
                neg := neg a, bn_width := bn_width a\<rparr>))) r)"

definition bn_rshift1_words :: "u64 list \<Rightarrow> size_t \<Rightarrow> u64 list" where
  "bn_rshift1_words a n =
     (if n = 0 then []
      else map (\<lambda>i. drop_bit 1 (a ! i) OR push_bit 63 (a ! (i + 1))) [0 ..< n - 1] @ [drop_bit 1 (a ! (n - 1))])"

definition BN_rshift1 :: "(nat \<Rightarrow> byte list option) \<Rightarrow> BIGNUM \<Rightarrow> (BIGNUM, unit) op" where
  "BN_rshift1 malloc a =
     andthen (bn_wexpand malloc (bn_width a)) (\<lambda>_ r.
       (Some (), bn_set_minimal_width (r\<lparr>bn_d := splice 0 (bn_rshift1_words (bn_d a) (bn_width a)) (bn_d r),
          bn_width := bn_width a, neg := neg a\<rparr>)))"

section \<open>Single bits (shift.c)\<close>

definition BN_set_bit :: "(nat \<Rightarrow> byte list option) \<Rightarrow> int \<Rightarrow> (BIGNUM, unit) op" where
  "BN_set_bit malloc n a =
     (if n < 0 then (None, a)
      else (let i = nat n div 64; j = nat n mod 64
            in andthen
                 (if bn_width a \<le> i
                  then andthen (bn_wexpand malloc (i + 1)) (\<lambda>_ a.
                         (Some (), a\<lparr>bn_d := splice (bn_width a) (replicate (i + 1 - bn_width a) 0) (bn_d a), bn_width := i + 1\<rparr>))
                  else ret ())
                 (\<lambda>_ a. (Some (), a\<lparr>bn_d := (bn_d a)[i := bn_d a ! i OR push_bit j 1]\<rparr>)) a))"

definition BN_clear_bit :: "int \<Rightarrow> (BIGNUM, unit) op" where
  "BN_clear_bit n a =
     (if n < 0 then (None, a)
      else (let i = nat n div 64; j = nat n mod 64
            in if bn_width a \<le> i then (None, a)
               else (Some (), bn_set_minimal_width (a\<lparr>bn_d := (bn_d a)[i := bn_d a ! i AND NOT (push_bit j 1)]\<rparr>))))"

definition bn_is_bit_set_words :: "u64 list \<Rightarrow> size_t \<Rightarrow> nat \<Rightarrow> bool" where
  "bn_is_bit_set_words a n k =
     (let i = k div 64; j = k mod 64 in if n \<le> i then False else drop_bit j (a ! i) AND 1 \<noteq> 0)"

definition BN_is_bit_set :: "BIGNUM \<Rightarrow> int \<Rightarrow> bool" where
  "BN_is_bit_set a n = (if n < 0 then False else bn_is_bit_set_words (bn_d a) (bn_width a) (nat n))"

definition BN_mask_bits :: "int \<Rightarrow> (BIGNUM, unit) op" where
  "BN_mask_bits n a =
     (if n < 0 then (None, a)
      else (let w = nat n div 64; b = nat n mod 64
            in if bn_width a \<le> w then (Some (), a)
               else (Some (), bn_set_minimal_width
                      (if b = 0 then a\<lparr>bn_width := w\<rparr>
                       else a\<lparr>bn_width := w + 1, bn_d := (bn_d a)[w := bn_d a ! w AND NOT (push_bit b (NOT 0))]\<rparr>))))"

definition low_zero_block :: "nat \<Rightarrow> u64 \<times> u64 \<Rightarrow> u64 \<times> u64" where
  "low_zero_block s = (\<lambda>(bits, l).
     let msk = constant_time_is_zero_w (push_bit (64 - s) l)
     in (bits + (of_nat s AND msk), constant_time_select_w msk (drop_bit s l) l))"

definition bn_count_low_zero_bits_word :: "u64 \<Rightarrow> u64" where
  "bn_count_low_zero_bits_word l =
     (case fold low_zero_block [32, 16, 8, 4, 2] (0, l) of (bits, l) \<Rightarrow>
        bits + (1 AND constant_time_is_zero_w (push_bit 63 l)))"

text \<open>The result is an \<open>int\<close>; the words are 64 bits wide.\<close>

definition low_zero_word :: "u64 list \<Rightarrow> nat \<Rightarrow> u32 \<times> u64 \<Rightarrow> u32 \<times> u64" where
  "low_zero_word d i = (\<lambda>(res, saw_nonzero).
     let nonzero = NOT (constant_time_is_zero_w (d ! i));
         first_nonzero = NOT saw_nonzero AND nonzero;
         bits = bn_count_low_zero_bits_word (d ! i)
     in (res OR ucast (first_nonzero AND (of_nat (i * 64) + bits)), saw_nonzero OR nonzero))"

definition BN_count_low_zero_bits :: "BIGNUM \<Rightarrow> nat" where
  "BN_count_low_zero_bits bn = unat (fst (fold (low_zero_word (bn_d bn)) [0 ..< bn_width bn] (0, 0)))"

section \<open>Bits of an array\<close>

lemma bit_bn_val: "bit (bn_val ws) k \<longleftrightarrow> k div 64 < length ws \<and> bit (ws ! (k div 64)) (k mod 64)"
proof (induction ws arbitrary: k)
  case (Cons w ws)
  have "bn_val (w # ws) = push_bit 64 (bn_val ws) OR unat w"
  proof -
    have "push_bit 64 (bn_val ws) AND unat w = 0"
      by (rule bit_eqI) (auto simp: bit_simps dest: bit_imp_le_length)
    then have "push_bit 64 (bn_val ws) + unat w = push_bit 64 (bn_val ws) OR unat w"
      by (rule disjunctive_add_eq_or)
    then show ?thesis by (simp add: push_bit_eq_mult)
  qed
  then have b: "bit (bn_val (w # ws)) k \<longleftrightarrow> (64 \<le> k \<and> bit (bn_val ws) (k - 64)) \<or> bit (unat w) k"
    by (simp add: bit_or_iff bit_push_bit_iff)
  show ?case
  proof (cases "k < 64")
    case True
    then show ?thesis unfolding b by (simp add: bit_unsigned_iff)
  next
    case False
    then have "\<not> bit (unat w) k" by (auto simp: bit_unsigned_iff dest: bit_imp_le_length)
    moreover have "k div 64 = Suc ((k - 64) div 64)" "(k - 64) mod 64 = k mod 64"
      using False le_div_geq [of 64 k] le_mod_geq [of 64 k] by simp_all
    ultimately show ?thesis using False Cons.IH [of "k - 64"] unfolding b by simp
  qed
qed simp

lemma bit_part: "n \<le> length d \<Longrightarrow> bit (bn_part n d) k \<longleftrightarrow> k div 64 < n \<and> bit (d ! (k div 64)) (k mod 64)"
  by (auto simp: bit_bn_val)

text \<open>Numbers that agree on every bit of every word are equal.\<close>

lemma part_eqI:
  assumes "n \<le> length d" and "\<And>q m. m < 64 \<Longrightarrow> q < n \<and> bit (d ! q) m \<longleftrightarrow> bit x (64 * q + m)"
  shows "bn_part n d = (x :: nat)"
proof (rule bit_eqI)
  fix k :: nat
  have k: "64 * (k div 64) + k mod 64 = k" by simp
  show "bit (bn_part n d) k \<longleftrightarrow> bit x k" using assms(2) [of "k mod 64" "k div 64"] unfolding k bit_part [OF assms(1)] by simp
qed

lemma bit_part_at: "n \<le> length d \<Longrightarrow> m < 64 \<Longrightarrow> bit (bn_part n d) (64 * q + m) \<longleftrightarrow> q < n \<and> bit (d ! q) m"
  by (simp add: bit_part)

section \<open>The shifts are shifts\<close>

lemma lshift_loop_nth:
  fixes f t :: "u64 list"
  assumes "nw + i < length t" "lb < 64"
  defines "high \<equiv> \<lambda>k. if k = 0 then 0 else drop_bit (64 - lb) (f ! (k - 1))"
  shows "length (lshift_loop nw lb f i t) = length t \<and>
    (\<forall>j < length t. lshift_loop nw lb f i t ! j =
       (if j < nw \<or> nw + i < j then t ! j
        else if j = nw + i then t ! j OR high i else push_bit lb (f ! (j - nw)) OR high (j - nw)))"
  using assms(1)
proof (induction i arbitrary: t)
  case 0
  then show ?case by (auto simp: high_def)
next
  case (Suc i)
  define t1 where "t1 = t[nw + i + 1 := t ! (nw + i + 1) OR high (Suc i), nw + i := push_bit lb (f ! i)]"
  have h0: "high k = 0" if "lb = 0" for k using that drop_all_bits [where v = "f ! (k - 1)" and k = 64] by (simp add: high_def)
  have e: "lshift_loop nw lb f (Suc i) t = lshift_loop nw lb f i t1"
    using h0 [of "Suc i"] by (simp add: t1_def high_def Let_def)
  have IH: "length (lshift_loop nw lb f i t1) = length t"
    "\<And>j. j < length t \<Longrightarrow> lshift_loop nw lb f i t1 ! j =
       (if j < nw \<or> nw + i < j then t1 ! j
        else if j = nw + i then t1 ! j OR high i else push_bit lb (f ! (j - nw)) OR high (j - nw))"
    using Suc.IH [of t1] Suc.prems by (simp_all add: t1_def)
  show ?case unfolding e using IH Suc.prems by (auto simp: t1_def nth_list_update)
qed

lemma lshift_words:
  assumes "w + nw < length t" "w \<le> length f" "lb < 64"
  defines "u \<equiv> splice 0 (replicate nw 0) (lshift_loop nw lb f w (t[w + nw := 0]))"
  shows "length u = length t \<and> bn_part (w + nw + 1) u = push_bit (64 * nw + lb) (bn_part w f)"
proof -
  let ?t = "t[w + nw := 0]"
  define high where "high k = (if k = 0 then 0 else drop_bit (64 - lb) (f ! (k - 1)))" for k
  have l: "nw + w < length ?t" using assms(1) by (simp add: add.commute)
  note L = lshift_loop_nth [OF l assms(3), of f, folded high_def]
  have len: "length u = length t" using L assms(1) by (simp add: u_def)
  have nth: "u ! q = (if q < nw then 0 else if q = nw + w then high w else push_bit lb (f ! (q - nw)) OR high (q - nw))"
    if "q < w + nw + 1" for q
  proof (cases "q < nw")
    case True
    then show ?thesis using L assms(1) by (simp add: u_def splice_def nth_append)
  next
    case False
    then have "u ! q = lshift_loop nw lb f w ?t ! q" using L assms(1) that by (simp add: u_def splice_def nth_append)
    then show ?thesis using L False that assms(1) by (auto simp: add.commute)
  qed
  have "bn_part (w + nw + 1) u = push_bit (64 * nw + lb) (bn_part w f)"
  proof (rule part_eqI)
    show "w + nw + 1 \<le> length u" using len assms(1) by simp
    fix q m :: nat
    assume m: "m < 64"
    show "q < w + nw + 1 \<and> bit (u ! q) m \<longleftrightarrow> bit (push_bit (64 * nw + lb) (bn_part w f)) (64 * q + m)"
    proof (cases "q < nw")
      case True
      then have "64 * q + m < 64 * nw + lb" using m by simp
      then show ?thesis using True nth [of q] by (simp add: bit_push_bit_iff)
    next
      case ge: False
      define p where "p = q - nw"
      have q: "q = nw + p" using ge by (simp add: p_def)
      show ?thesis
      proof (cases "lb \<le> m")
        case True
        have "64 * q + m - (64 * nw + lb) = 64 * p + (m - lb)" using True by (simp add: q)
        then have "bit (push_bit (64 * nw + lb) (bn_part w f)) (64 * q + m) \<longleftrightarrow> p < w \<and> bit (f ! p) (m - lb)"
          using True m bit_part_at [OF assms(2), of "m - lb" p] by (simp add: bit_push_bit_iff q)
        moreover have "\<not> bit (high p) m" for p
          using True by (auto simp: high_def bit_drop_bit_eq dest: bit_imp_le_length)
        ultimately show ?thesis using True m nth [of q] by (auto simp: q bit_or_iff bit_push_bit_iff split: if_splits)
      next
        case lo: False
        show ?thesis
        proof (cases p)
          case 0
          then show ?thesis using lo m nth [of q] by (auto simp: q bit_or_iff bit_push_bit_iff high_def)
        next
          case (Suc r)
          have "64 * q + m - (64 * nw + lb) = 64 * r + (m + (64 - lb))" using lo assms(3) by (simp add: q Suc)
          then have "bit (push_bit (64 * nw + lb) (bn_part w f)) (64 * q + m) \<longleftrightarrow> r < w \<and> bit (f ! r) (m + (64 - lb))"
            using lo m assms(3) bit_part_at [OF assms(2), of "m + (64 - lb)" r] by (simp add: bit_push_bit_iff q Suc)
          moreover have "bit (high p) m \<longleftrightarrow> bit (f ! r) (m + (64 - lb))"
            by (simp add: high_def Suc bit_drop_bit_eq add.commute)
          moreover have "p = w \<or> p < w \<longleftrightarrow> r < w" using Suc by auto
          ultimately show ?thesis using lo nth [of q] by (auto simp: q bit_or_iff bit_push_bit_iff split: if_splits)
        qed
      qed
    qed
  qed
  with len show ?thesis by simp
qed

lemma lshift_spec:
  assumes al: "allocator malloc" and ok: "bn_ok a" "bn_ok r" and u: "BN_lshift malloc a n r = (res, r')"
  shows "case res of None \<Rightarrow> n < 0 \<or> fst (bn_wexpand malloc (bn_width a + nat n div 64 + 1) r) = None
    | Some _ \<Rightarrow> 0 \<le> n \<and> bn_ok r' \<and> bn_mag r' = push_bit (nat n) (bn_mag a) \<and> neg r' = (neg a \<and> bn_mag a \<noteq> 0)"
proof (cases "n < 0")
  case True
  then show ?thesis using u by (simp add: BN_lshift_def)
next
  case False
  define nw lb where "nw = nat n div 64" and "lb = nat n mod 64"
  have n: "64 * nw + lb = nat n" "lb < 64" by (simp_all add: nw_def lb_def)
  obtain e r1 where x: "bn_wexpand malloc (bn_width a + nw + 1) (r\<lparr>neg := neg a\<rparr>) = (e, r1)"
    by (cases "bn_wexpand malloc (bn_width a + nw + 1) (r\<lparr>neg := neg a\<rparr>)")
  note w = wexpand_ok [OF al _ x]
  show ?thesis
  proof (cases e)
    case None
    then have "fst (bn_wexpand malloc (bn_width a + nw + 1) r) = None" using x wexpand_neg by (metis fst_conv)
    moreover have "res = None" using u False x None by (simp add: BN_lshift_def Let_def andthen_def nw_def)
    ultimately show ?thesis by (simp add: nw_def)
  next
    case (Some y)
    define t where "t = splice 0 (replicate nw 0) (lshift_loop nw lb (bn_d a) (bn_width a) ((bn_d r1)[bn_width a + nw := 0]))"
    define r2 where "r2 = r1\<lparr>bn_d := t, bn_width := bn_width a + nw + 1\<rparr>"
    have r: "res = Some ()" "r' = bn_set_minimal_width r2"
      using u False x Some by (simp_all add: BN_lshift_def Let_def andthen_def nw_def lb_def t_def r2_def)
    have w1: "bn_ok r1" "bn_width a + nw + 1 \<le> dmax r1" "neg r1 = neg a" using w ok(2) Some by simp_all
    have T: "length t = length (bn_d r1)" "bn_part (bn_width a + nw + 1) t = push_bit (nat n) (bn_mag a)"
      using lshift_words [of "bn_width a" nw "bn_d r1" "bn_d a" lb] w1 bn_okD [OF ok(1)] n
      by (simp_all add: t_def bn_ok_def bn_mag_def)
    have "bn_ok r2" "bn_mag r2 = push_bit (nat n) (bn_mag a)" "neg r2 = neg a"
      using T w1 by (simp_all add: r2_def bn_ok_def bn_mag_def)
    then show ?thesis using set_minimal_width [of r2] r False by (simp add: push_bit_eq_mult)
  qed
qed

lemma lshift1_step_val: "c \<in> {0, 1} \<Longrightarrow> lshift1_step c t = (x, c') \<Longrightarrow> c' \<in> {0, 1} \<and> uint x + 2 ^ 64 * uint c' = 2 * uint t + uint c"
proof -
  assume c: "c \<in> {0, 1}" and s: "lshift1_step c t = (x, c')"
  have x: "x = push_bit 1 t OR c" and c': "c' = drop_bit 63 t" using s by (simp_all add: lshift1_step_def)
  have "unat c' = unat t div 2 ^ 63" unfolding c' unat_drop_bit_eq by (simp add: drop_bit_eq_div)
  moreover have "unat x = 2 * (unat t mod 2 ^ 63) + unat c"
  proof -
    have "unat (push_bit 1 t OR c) = (2 * unat t mod 2 ^ 64) OR unat c"
      unfolding unsigned_or_eq unsigned_push_bit_eq by (simp add: push_bit_eq_mult take_bit_eq_mod mult.commute)
    also have "2 * unat t mod 2 ^ 64 = 2 * (unat t mod 2 ^ 63)"
      using mult_mod_right [of 2 "unat t" "2 ^ 63"] by simp
    also have "2 * (unat t mod 2 ^ 63) OR unat c = 2 * (unat t mod 2 ^ 63) + unat c"
    proof (rule disjunctive_add_eq_or [symmetric])
      show "2 * (unat t mod 2 ^ 63) AND unat c = 0" using c by (auto simp: and_one_eq)
    qed
    finally show ?thesis by (simp add: x)
  qed
  moreover define q r where "q = unat t div 2 ^ 63" and "r = unat t mod 2 ^ 63"
  moreover have "q < 2" using u64_less [of t] by (simp add: q_def less_mult_imp_div_less)
  moreover have "2 ^ 63 * q + r = unat t" unfolding q_def r_def by (rule mult_div_mod_eq)
  ultimately have "unat c' = q" "unat x = 2 * r + unat c" "q < 2" "2 ^ 63 * q + r = unat t" by simp_all
  then have n: "unat c' < 2" "unat x + 2 ^ 64 * unat c' = 2 * unat t + unat c" by simp_all
  have "unat c' = 0 \<or> unat c' = 1" using n(1) by linarith
  then have "c' = 0 \<or> c' = 1" by (simp add: word_unat_eq_iff)
  moreover have "int (unat x + 2 ^ 64 * unat c') = int (2 * unat t + unat c)" unfolding n(2) ..
  ultimately show ?thesis by simp
qed

lemma lshift1_words:
  assumes "each_word lshift1_step 0 ws = (rs, c)"
  shows "c \<in> {0, 1} \<and> bn_val rs + 2 ^ (64 * length ws) * unat c = 2 * bn_val ws \<and> length rs = length ws"
proof -
  have e: "c \<in> {0, 1} \<and> int (bn_val rs) + 2 ^ (64 * length ws) * uint c = place (\<lambda>t. 2 * uint t) ws + uint (0 :: u64)"
    by (rule each_word_place [where f = lshift1_step and ok = "\<lambda>c. c \<in> {0, 1}" and v = uint and s = 0 and xs = ws])
      (use lshift1_step_val assms in auto)
  have "place (\<lambda>t. 2 * uint t) ws = 2 * int (bn_val ws)" by (induction ws) (simp_all add: algebra_simps)
  then have "int (bn_val rs + 2 ^ (64 * length ws) * unat c) = int (2 * bn_val ws)" using e by simp
  then show ?thesis using e arg_cong [OF assms, of "\<lambda>p. length (fst p)"] unfolding of_nat_eq_iff by simp
qed

lemma lshift1_spec:
  assumes al: "allocator malloc" and ok: "bn_ok a" "bn_ok r" and u: "BN_lshift1 malloc a r = (res, r')"
  shows "case res of None \<Rightarrow> fst (bn_wexpand malloc (bn_width a + 1) r) = None
    | Some _ \<Rightarrow> bn_ok r' \<and> bn_mag r' = 2 * bn_mag a \<and> neg r' = neg a"
proof -
  define w where "w = bn_width a"
  obtain e r1 where x: "bn_wexpand malloc (w + 1) (r\<lparr>neg := neg a\<rparr>) = (e, r1)"
    by (cases "bn_wexpand malloc (w + 1) (r\<lparr>neg := neg a\<rparr>)")
  obtain ws c where s: "each_word lshift1_step 0 (take w (bn_d a)) = (ws, c)"
    by (cases "each_word lshift1_step 0 (take w (bn_d a))")
  have lw: "w \<le> length (bn_d a)" using bn_okD [OF ok(1)] by (simp add: w_def)
  have S: "c \<in> {0, 1}" "bn_val ws + 2 ^ (64 * w) * unat c = 2 * bn_mag a" "length ws = w"
    using lshift1_words [OF s] lw by (simp_all add: w_def bn_mag_def)
  show ?thesis
  proof (cases e)
    case None
    then have "fst (bn_wexpand malloc (w + 1) r) = None" using x wexpand_neg by (metis fst_conv)
    moreover have "res = None" using u x None unfolding BN_lshift1_def w_def [symmetric] andthen_def by simp
    ultimately show ?thesis by (simp add: w_def)
  next
    case (Some y)
    have w1: "bn_ok r1" "w + 1 \<le> dmax r1" "neg r1 = neg a" using wexpand_ok [OF al _ x] ok(2) Some by simp_all
    define d where "d = splice 0 ws (bn_d r1)"
    have D: "length d = length (bn_d r1)" "take w d = ws" "w < length d"
      using w1 S(3) by (auto simp: d_def bn_ok_def splice_def)
    have r: "res = Some ()" "r' = (if c \<noteq> 0 then r1\<lparr>bn_width := w + 1, bn_d := d[w := 1]\<rparr> else r1\<lparr>bn_width := w, bn_d := d\<rparr>)"
      using u x Some s unfolding BN_lshift1_def w_def [symmetric] andthen_def by (auto simp: Let_def d_def)
    have "take (w + 1) (d[w := 1]) = ws @ [1]" using D by (simp add: take_Suc_conv_app_nth)
    then have "bn_part (w + 1) (d[w := 1]) = 2 * bn_mag a" if "c \<noteq> 0" using S that by (auto simp: bn_val_append)
    then show ?thesis using r S w1 D
      by (cases "c = 0") (simp_all add: bn_ok_def bn_mag_def [of "r1\<lparr>bn_width := x, bn_d := y\<rparr>" for x y])
  qed
qed

lemma rshift_words:
  assumes "n \<le> length a"
  shows "length (bn_rshift_words a s n) = n \<and> bn_val (bn_rshift_words a s n) = drop_bit s (bn_part n a)"
proof -
  define sb sw where "sb = s mod 64" and "sw = s div 64"
  have s: "s = 64 * sw + sb" "sb < 64" by (simp_all add: sb_def sw_def)
  let ?r = "bn_rshift_words a s n"
  have len: "length ?r = n"
    using assms by (auto simp: bn_rshift_words_def Let_def sb_def [symmetric] sw_def [symmetric])
  have nth: "?r ! q = (if q + sw < n then drop_bit sb (a ! (q + sw)) OR
      (if q + sw + 1 < n then push_bit (64 - sb) (a ! (q + sw + 1)) else 0) else 0)" if "q < n" for q
  proof -
    have p0: "push_bit 64 w = (0 :: u64)" for w by (rule bit_word_eqI) (auto simp: bit_push_bit_iff)
    have last: "n - Suc 0 = q + sw" if "n \<le> Suc (q + sw)" "q + sw < n" using that by simp
    show ?thesis using that assms p0
      by (auto simp: last bn_rshift_words_def Let_def sb_def [symmetric] sw_def [symmetric] nth_append add.commute not_less)
  qed
  have "bn_part n ?r = drop_bit s (bn_part n a)"
  proof (rule part_eqI)
    fix q m :: nat
    assume m: "m < 64"
    show "q < n \<and> bit (?r ! q) m \<longleftrightarrow> bit (drop_bit s (bn_part n a)) (64 * q + m)"
    proof (cases "m + sb < 64")
      case True
      have "s + (64 * q + m) = 64 * (q + sw) + (m + sb)" by (simp add: s)
      then have "bit (drop_bit s (bn_part n a)) (64 * q + m) \<longleftrightarrow> q + sw < n \<and> bit (a ! (q + sw)) (m + sb)"
        using bit_part_at [OF assms True, of "q + sw"] unfolding bit_drop_bit_eq o_apply by (simp only:)
      moreover have "\<not> bit (push_bit (64 - sb) w) m" for w :: u64 using True by (auto simp: bit_push_bit_iff)
      ultimately show ?thesis using nth [of q] by (auto simp: bit_or_iff bit_drop_bit_eq add.commute split: if_splits)
    next
      case False
      have idx: "s + (64 * q + m) = 64 * (q + sw + 1) + (m + sb - 64)" using False by (simp add: s)
      have "m + sb - 64 < 64" using m s(2) by linarith
      then have "bit (drop_bit s (bn_part n a)) (64 * q + m) \<longleftrightarrow> q + sw + 1 < n \<and> bit (a ! (q + sw + 1)) (m + sb - 64)"
        unfolding bit_drop_bit_eq o_apply idx by (rule bit_part_at [OF assms])
      moreover have "\<not> bit (drop_bit sb w) m" for w :: u64
        using False by (auto simp: bit_drop_bit_eq dest: bit_imp_le_length)
      moreover have "bit (push_bit (64 - sb) w) m \<longleftrightarrow> bit w (m + sb - 64)" for w :: u64
        using False m s(2) by (auto simp: bit_push_bit_iff)
      ultimately show ?thesis using nth [of q] by (auto simp: bit_or_iff split: if_splits)
    qed
  qed (simp add: len)
  with len show ?thesis by simp
qed

lemma rshift1_words: "n \<le> length a \<Longrightarrow> bn_rshift1_words a n = bn_rshift_words a 1 n"
  by (simp add: bn_rshift1_words_def bn_rshift_words_def)

text \<open>Writing an array of the number's width and then dropping the leading zeros.\<close>

lemma write_minimal:
  fixes s :: bool
  assumes "bn_ok r" "length ws \<le> dmax r"
  defines "r' \<equiv> bn_set_minimal_width (r\<lparr>bn_d := splice 0 ws (bn_d r), neg := s, bn_width := length ws\<rparr>)"
  shows "bn_ok r' \<and> bn_mag r' = bn_val ws \<and> neg r' = (s \<and> bn_val ws \<noteq> 0)"
proof -
  let ?r = "r\<lparr>bn_d := splice 0 ws (bn_d r), neg := s, bn_width := length ws\<rparr>"
  have "bn_part (length ws) (splice 0 ws (bn_d r)) = bn_val ws \<and> length (splice 0 ws (bn_d r)) = length (bn_d r)"
    using assms(1,2) by (intro write_words) (simp add: bn_ok_def)
  then have "bn_ok ?r" "bn_mag ?r = bn_val ws" "neg ?r = s"
    using assms(1,2) by (simp_all add: bn_ok_def bn_mag_def)
  then show ?thesis using set_minimal_width [of ?r] unfolding r'_def by simp
qed

lemma rshift_spec:
  assumes al: "allocator malloc" and ok: "bn_ok a" "bn_ok r" and u: "BN_rshift malloc a n r = (res, r')"
  shows "case res of None \<Rightarrow> n < 0 \<or> fst (bn_wexpand malloc (bn_width a) r) = None
    | Some _ \<Rightarrow> 0 \<le> n \<and> bn_ok r' \<and> bn_mag r' = drop_bit (nat n) (bn_mag a) \<and> neg r' = (neg a \<and> bn_mag r' \<noteq> 0)"
proof (cases "n < 0")
  case True
  then show ?thesis using u by (simp add: BN_rshift_def)
next
  case False
  obtain e r1 where x: "bn_wexpand malloc (bn_width a) r = (e, r1)" by (cases "bn_wexpand malloc (bn_width a) r")
  note W = rshift_words [OF bn_okD(1) [OF ok(1)], of "nat n"]
  show ?thesis using wexpand_ok [OF al ok(2) x] u x False W
      write_minimal [of r1 "bn_rshift_words (bn_d a) (nat n) (bn_width a)" "neg a"]
    by (cases e) (auto simp: BN_rshift_def andthen_def bn_mag_def [of a])
qed

lemma rshift1_spec:
  assumes al: "allocator malloc" and ok: "bn_ok a" "bn_ok r" and u: "BN_rshift1 malloc a r = (res, r')"
  shows "case res of None \<Rightarrow> fst (bn_wexpand malloc (bn_width a) r) = None
    | Some _ \<Rightarrow> bn_ok r' \<and> bn_mag r' = bn_mag a div 2 \<and> neg r' = (neg a \<and> bn_mag r' \<noteq> 0)"
proof -
  obtain e r1 where x: "bn_wexpand malloc (bn_width a) r = (e, r1)" by (cases "bn_wexpand malloc (bn_width a) r")
  define ws where "ws = bn_rshift1_words (bn_d a) (bn_width a)"
  have W: "length ws = bn_width a" "bn_val ws = bn_mag a div 2"
    using rshift_words [OF bn_okD(1) [OF ok(1)], of 1] rshift1_words [OF bn_okD(1) [OF ok(1)]]
    by (simp_all add: ws_def drop_bit_eq_div bn_mag_def)
  have swap: "b\<lparr>bn_d := d, bn_width := w, neg := s\<rparr> = b\<lparr>bn_d := d, neg := s, bn_width := w\<rparr>" for b :: BIGNUM and d w s
    by simp
  show ?thesis using wexpand_ok [OF al ok(2) x] u x W write_minimal [of r1 ws "neg a"]
    unfolding BN_rshift1_def ws_def [symmetric] swap by (cases e) (auto simp: andthen_def)
qed

section \<open>The bit operations are those of the number\<close>

text \<open>Changing one word changes the bits of that word.\<close>

lemma part_change_word:
  assumes "n \<le> length d" "i < n"
    and "\<And>m. m < 64 \<Longrightarrow> bit w m \<longleftrightarrow> bit x (64 * i + m)"
    and "\<And>q m. m < 64 \<Longrightarrow> q \<noteq> i \<Longrightarrow> bit x (64 * q + m) \<longleftrightarrow> bit (bn_part n d) (64 * q + m)"
  shows "bn_part n (d[i := w]) = (x :: nat)"
proof (rule part_eqI)
  fix q m :: nat
  assume m: "m < 64"
  show "q < n \<and> bit (d[i := w] ! q) m \<longleftrightarrow> bit x (64 * q + m)"
  proof (cases "q = i")
    case False
    then show ?thesis using assms(1,2) m assms(4) [OF m False] bit_part_at [OF assms(1) m, of q] by simp
  qed (use assms(1,2,3) m in simp)
qed (use assms(1) in simp)

lemma words_apart: "m < 64 \<Longrightarrow> j < 64 \<Longrightarrow> 64 * q + m = 64 * i + j \<longleftrightarrow> q = i \<and> m = (j :: nat)"
proof
  assume m: "m < 64" "j < 64" and e: "64 * q + m = 64 * i + j"
  have "q = i" using arg_cong [OF e, of "\<lambda>x. x div 64"] m by simp
  with e show "q = i \<and> m = j" by simp
qed simp

lemma part_zeros:
  assumes "n \<le> k" "k \<le> length d" "\<And>i. n \<le> i \<Longrightarrow> i < k \<Longrightarrow> d ! i = 0"
  shows "bn_part k d = bn_part n d"
proof -
  have "bn_val (drop n (take k d)) = 0" using assms by (auto simp: bn_val_eq_0 in_set_conv_nth)
  then show ?thesis using part_split [OF assms(1,2)] by simp
qed

lemma set_bit_spec:
  assumes al: "allocator malloc" and ok: "bn_ok a" and u: "BN_set_bit malloc n a = (res, a')"
  shows "case res of None \<Rightarrow> n < 0 \<or> fst (bn_wexpand malloc (nat n div 64 + 1) a) = None
    | Some _ \<Rightarrow> 0 \<le> n \<and> bn_ok a' \<and> bn_mag a' = set_bit (nat n) (bn_mag a) \<and> neg a' = neg a"
proof (cases "n < 0")
  case True
  then show ?thesis using u by (simp add: BN_set_bit_def)
next
  case False
  define i j where "i = nat n div 64" and "j = nat n mod 64"
  have n: "64 * i + j = nat n" "j < 64" by (simp_all add: i_def j_def)
  have set: "bn_part w (d[i := d ! i OR push_bit j 1]) = set_bit (nat n) (bn_part w d)" if "w \<le> length d" "i < w" for w and d :: "u64 list"
  proof (rule part_change_word [OF that])
    fix m :: nat
    assume m: "m < 64"
    then show "bit (d ! i OR push_bit j 1) m = bit (set_bit (nat n) (bn_part w d)) (64 * i + m)"
      using words_apart [of m j i i] n(2) bit_part_at [OF that(1) m, of i] that(2)
      by (auto simp: bit_set_bit_iff bit_or_iff bit_exp_iff n(1) [symmetric])
  next
    fix q m :: nat
    assume "m < 64" "q \<noteq> i"
    then show "bit (set_bit (nat n) (bn_part w d)) (64 * q + m) = bit (bn_part w d) (64 * q + m)"
      using words_apart [of m j q i] n(2) by (auto simp: bit_set_bit_iff n(1) [symmetric])
  qed
  show ?thesis
  proof (cases "bn_width a \<le> i")
    case no: False
    then have "res = Some ()" "a' = a\<lparr>bn_d := (bn_d a)[i := bn_d a ! i OR push_bit j 1]\<rparr>"
      using u False by (auto simp: BN_set_bit_def Let_def i_def [symmetric] j_def [symmetric] andthen_def ret_def)
    then show ?thesis using set [of "bn_width a" "bn_d a"] no ok False by (simp add: bn_ok_def bn_mag_def)
  next
    case grow: True
    obtain e b where x: "bn_wexpand malloc (i + 1) a = (e, b)" by (cases "bn_wexpand malloc (i + 1) a")
    note w = wexpand_ok [OF al ok x]
    define d where "d = splice (bn_width b) (replicate (i + 1 - bn_width b) 0) (bn_d b)"
    show ?thesis
    proof (cases e)
      case None
      then show ?thesis using u False x grow by (auto simp: BN_set_bit_def Let_def i_def [symmetric] j_def [symmetric] andthen_def)
    next
      case (Some y)
      have r: "res = Some ()" "a' = b\<lparr>bn_width := i + 1, bn_d := d[i := d ! i OR push_bit j 1]\<rparr>"
        using u False x Some grow
        by (simp_all add: BN_set_bit_def Let_def i_def [symmetric] j_def [symmetric] andthen_def d_def)
      have b: "bn_ok b" "i + 1 \<le> dmax b" "bn_width b = bn_width a" "neg b = neg a"
        "bn_part (bn_width a) (bn_d b) = bn_mag a"
        using w Some by (simp_all add: bn_mag_def)
      have D: "length d = length (bn_d b)" "take (bn_width a) d = take (bn_width a) (bn_d b)"
        "\<And>k. bn_width a \<le> k \<Longrightarrow> k < i + 1 \<Longrightarrow> d ! k = 0"
        using b grow by (auto simp: d_def bn_ok_def splice_def nth_append)
      have l: "i + 1 \<le> length d" using D b by (simp add: bn_ok_def)
      have "bn_part (i + 1) d = bn_part (bn_width a) d" using part_zeros [OF _ l D(3)] grow by simp
      then have "bn_part (i + 1) (d[i := d ! i OR push_bit j 1]) = set_bit (nat n) (bn_mag a)"
        using set [OF l] D(2) b(5) by simp
      then show ?thesis using r b D l False by (simp add: bn_ok_def bn_mag_def [of "b\<lparr>bn_width := x, bn_d := y\<rparr>" for x y])
    qed
  qed
qed

lemma clear_bit_spec:
  assumes ok: "bn_ok a" and u: "BN_clear_bit n a = (res, a')"
  shows "case res of None \<Rightarrow> a' = a \<and> (n < 0 \<or> 64 * bn_width a \<le> nat n)
    | Some _ \<Rightarrow> 0 \<le> n \<and> bn_ok a' \<and> bn_mag a' = unset_bit (nat n) (bn_mag a) \<and> neg a' = (neg a \<and> bn_mag a' \<noteq> 0)"
proof (cases "n < 0 \<or> bn_width a \<le> nat n div 64")
  case True
  then have "res = None" "a' = a" using u by (auto simp: BN_clear_bit_def Let_def split: if_splits)
  moreover have "64 * bn_width a \<le> nat n" if "bn_width a \<le> nat n div 64"
    using mult_le_mono2 [OF that, of 64] div_times_less_eq_dividend [of "nat n" 64] by (simp add: mult.commute)
  ultimately show ?thesis using True by auto
next
  case False
  define i j where "i = nat n div 64" and "j = nat n mod 64"
  have n: "64 * i + j = nat n" "j < 64" by (simp_all add: i_def j_def)
  have w: "bn_width a \<le> length (bn_d a)" "i < bn_width a" using bn_okD [OF ok] False by (simp_all add: i_def)
  define b where "b = a\<lparr>bn_d := (bn_d a)[i := bn_d a ! i AND NOT (push_bit j 1)]\<rparr>"
  have r: "res = Some ()" "a' = bn_set_minimal_width b"
    using u False by (auto simp: BN_clear_bit_def Let_def b_def i_def j_def)
  have "bn_part (bn_width a) ((bn_d a)[i := bn_d a ! i AND NOT (push_bit j 1)]) = unset_bit (nat n) (bn_mag a)"
  proof (rule part_change_word [OF w])
    fix m :: nat
    assume m: "m < 64"
    then show "bit (bn_d a ! i AND NOT (push_bit j 1)) m = bit (unset_bit (nat n) (bn_mag a)) (64 * i + m)"
      using words_apart [of m j i i] n(2) bit_part_at [OF w(1) m, of i] w(2)
      by (auto simp: bit_unset_bit_iff bit_and_iff bit_not_iff bit_exp_iff n(1) [symmetric] bn_mag_def)
  next
    fix q m :: nat
    assume "m < 64" "q \<noteq> i"
    then show "bit (unset_bit (nat n) (bn_mag a)) (64 * q + m) = bit (bn_part (bn_width a) (bn_d a)) (64 * q + m)"
      using words_apart [of m j q i] n(2) by (auto simp: bit_unset_bit_iff n(1) [symmetric] bn_mag_def)
  qed
  then have "bn_ok b" "bn_mag b = unset_bit (nat n) (bn_mag a)" "neg b = neg a"
    using ok by (simp_all add: b_def bn_ok_def bn_mag_def)
  then show ?thesis using set_minimal_width [of b] r False by simp
qed

lemma is_bit_set_spec: "bn_ok a \<Longrightarrow> 0 \<le> n \<Longrightarrow> BN_is_bit_set a n \<longleftrightarrow> bit (bn_mag a) (nat n)"
  using bit_part [of "bn_width a" "bn_d a" "nat n"]
  by (auto simp: BN_is_bit_set_def bn_is_bit_set_words_def Let_def bn_mag_def bn_ok_def and_1 bit_drop_bit_eq)

lemma mask_bits_spec:
  assumes ok: "bn_ok a" and u: "BN_mask_bits n a = (res, a')"
  shows "case res of None \<Rightarrow> n < 0 | Some _ \<Rightarrow> 0 \<le> n \<and> bn_ok a' \<and> bn_mag a' = take_bit (nat n) (bn_mag a) \<and>
    (neg a' \<longrightarrow> neg a) \<and> (bn_canonical a \<longrightarrow> neg a' = (neg a \<and> bn_mag a' \<noteq> 0))"
proof (cases "n < 0")
  case True
  then show ?thesis using u by (simp add: BN_mask_bits_def)
next
  case False
  define w b where "w = nat n div 64" and "b = nat n mod 64"
  have n: "64 * w + b = nat n" "b < 64" by (simp_all add: w_def b_def)
  have l: "bn_width a \<le> length (bn_d a)" using bn_okD [OF ok] by simp
  show ?thesis
  proof (cases "bn_width a \<le> w")
    case True
    then have r: "res = Some ()" "a' = a" using u False by (auto simp: BN_mask_bits_def Let_def w_def)
    have "64 * bn_width a \<le> nat n" using mult_le_mono2 [OF True, of 64] n(1) by linarith
    then have "bn_mag a < 2 ^ nat n" by (intro order.strict_trans2 [OF bn_mag_less] power_increasing) simp_all
    then show ?thesis using r ok False by (auto simp: take_bit_nat_eq_self bn_canonical_def)
  next
    case inside: False
    define c where "c = (if b = 0 then a\<lparr>bn_width := w\<rparr> else a\<lparr>bn_width := w + 1, bn_d := (bn_d a)[w := bn_d a ! w AND NOT (push_bit b (NOT 0))]\<rparr>)"
    have r: "res = Some ()" "a' = bn_set_minimal_width c"
      using u False inside by (auto simp: BN_mask_bits_def Let_def c_def w_def b_def)
    have "bn_mag c = take_bit (nat n) (bn_mag a)"
    proof (cases "b = 0")
      case True
      have "bn_part w (bn_d a) = take_bit (nat n) (bn_mag a)"
      proof (rule part_eqI)
        fix q m :: nat
        assume m: "m < 64"
        have "64 * q + m < 64 * w \<longleftrightarrow> q < w" using m by linarith
        then show "q < w \<and> bit (bn_d a ! q) m \<longleftrightarrow> bit (take_bit (nat n) (bn_mag a)) (64 * q + m)"
          using n(1) True bit_part_at [OF l m, of q] inside by (auto simp: bit_take_bit_iff bn_mag_def)
      qed (use l inside in simp)
      then show ?thesis using True by (simp add: c_def bn_mag_def)
    next
      case nz: False
      let ?w = "bn_d a ! w AND NOT (push_bit b (NOT 0))"
      have "bn_part (w + 1) ((bn_d a)[w := ?w]) = take_bit (nat n) (bn_mag a)"
      proof (rule part_eqI)
        fix q m :: nat
        assume m: "m < 64"
        have "64 * q + m < nat n \<longleftrightarrow> q < w \<or> q = w \<and> m < b" using m n by linarith
        then show "q < w + 1 \<and> bit ((bn_d a)[w := ?w] ! q) m \<longleftrightarrow> bit (take_bit (nat n) (bn_mag a)) (64 * q + m)"
          using bit_part_at [OF l m, of q] inside l m
          by (auto simp: bit_take_bit_iff bn_mag_def bit_and_iff bit_not_iff bit_mask_iff nth_list_update)
      qed (use l inside in simp)
      then show ?thesis using nz by (simp add: c_def bn_mag_def)
    qed
    moreover have "bn_ok c" "neg c = neg a" using ok inside by (auto simp: c_def bn_ok_def)
    ultimately show ?thesis using set_minimal_width [of c] r False by simp
  qed
qed

section \<open>Counting the trailing zeros\<close>

lemma push_zero: "s \<le> 64 \<Longrightarrow> push_bit (64 - s) (l :: u64) = 0 \<longleftrightarrow> take_bit s l = 0"
proof -
  assume s: "s \<le> 64"
  have "push_bit (64 - s) l = 0 \<longleftrightarrow> (\<forall>m < 64. \<not> (64 - s \<le> m \<and> bit l (m - (64 - s))))"
    by (auto simp: bit_eq_iff bit_push_bit_iff)
  also have "\<dots> \<longleftrightarrow> (\<forall>k < s. \<not> bit l k)"
  proof (intro iffI allI impI)
    fix k
    assume a: "\<forall>m < 64. \<not> (64 - s \<le> m \<and> bit l (m - (64 - s)))" and k: "k < s"
    show "\<not> bit l k" using a [rule_format, of "k + (64 - s)"] s k by simp
  qed (use s in auto)
  also have "\<dots> \<longleftrightarrow> take_bit s l = 0" using s by (auto simp: bit_eq_iff bit_take_bit_iff)
  finally show ?thesis .
qed

text \<open>After the blocks down to width \<open>s\<close>, \<open>bits\<close> low zeros are removed and a bit among the next \<open>s\<close> is set.\<close>

definition low_zero_inv :: "u64 \<Rightarrow> nat \<Rightarrow> u64 \<times> u64 \<Rightarrow> bool" where
  "low_zero_inv l0 s = (\<lambda>(bits, l). l = drop_bit (unat bits) l0 \<and> take_bit (unat bits) l0 = 0 \<and>
     take_bit s l \<noteq> 0 \<and> unat bits + s \<le> 64)"

lemma low_zero_block_inv:
  assumes inv: "low_zero_inv l0 (2 * s) x" and "0 < s" "s \<le> 32"
  shows "low_zero_inv l0 s (low_zero_block s x)"
proof -
  obtain bits l where x: "x = (bits, l)" by (cases x)
  have i: "l = drop_bit (unat bits) l0" "take_bit (unat bits) l0 = 0" "take_bit (2 * s) l \<noteq> 0" "unat bits + 2 * s \<le> 64"
    using inv unfolding low_zero_inv_def x prod.case by blast+
  show ?thesis
  proof (cases "take_bit s l = 0")
    case False
    then have "low_zero_block s x = (bits, l)"
      using push_zero [of s l] assms(3) by (simp add: low_zero_block_def x ct_masks constant_time_select_w_def Let_def)
    then show ?thesis using i False by (simp add: low_zero_inv_def)
  next
    case True
    then have e: "low_zero_block s x = (bits + of_nat s, drop_bit s l)"
      using push_zero [of s l] assms(3) by (simp add: low_zero_block_def x ct_masks constant_time_select_w_def Let_def)
    have u: "unat (bits + of_nat s) = unat bits + s"
      using i(4) assms(2,3) by (simp add: unat_word_ariths unat_of_nat)
    have "take_bit (unat bits + s) l0 = 0"
    proof (rule bit_word_eqI)
      fix n :: nat
      show "bit (take_bit (unat bits + s) l0) n = bit 0 n"
      proof (cases "n < unat bits")
        case True
        then show ?thesis using arg_cong [OF i(2), of "\<lambda>w. bit w n"] by (simp add: bit_take_bit_iff)
      next
        case False
        then show ?thesis using arg_cong [OF \<open>take_bit s l = 0\<close>, of "\<lambda>w. bit w (n - unat bits)"] i(1)
          by (simp add: bit_take_bit_iff bit_drop_bit_eq)
      qed
    qed
    moreover have "take_bit s (drop_bit s l) \<noteq> 0"
    proof
      assume z: "take_bit s (drop_bit s l) = 0"
      have "take_bit (2 * s) l = 0"
      proof (rule bit_word_eqI)
        fix n :: nat
        show "bit (take_bit (2 * s) l) n = bit 0 n"
        proof (cases "n < s")
          case True
          then show ?thesis using arg_cong [OF \<open>take_bit s l = 0\<close>, of "\<lambda>w. bit w n"] by (simp add: bit_take_bit_iff)
        next
          case False
          then show ?thesis using arg_cong [OF z, of "\<lambda>w. bit w (n - s)"]
            by (simp add: bit_take_bit_iff bit_drop_bit_eq)
        qed
      qed
      with i(3) show False by simp
    qed
    ultimately show ?thesis using i(1,4) by (simp add: e low_zero_inv_def u drop_bit_drop_bit add.commute)
  qed
qed

lemma count_low_word:
  assumes "l \<noteq> 0"
  defines "b \<equiv> unat (bn_count_low_zero_bits_word l)"
  shows "take_bit b l = 0 \<and> bit l b \<and> b < 64"
proof -
  have a: "low_zero_inv l 64 (0, l)" using assms(1) by (simp add: low_zero_inv_def take_bit_word_eq_self)
  have i: "low_zero_inv l 2 (fold low_zero_block [32, 16, 8, 4, 2] (0, l))"
    using low_zero_block_inv [of l 2] low_zero_block_inv [of l 4] low_zero_block_inv [of l 8]
      low_zero_block_inv [of l 16] low_zero_block_inv [of l 32] a by simp
  obtain bits l1 where f: "fold low_zero_block [32, 16, 8, 4, 2] (0, l) = (bits, l1)"
    by (cases "fold low_zero_block [32, 16, 8, 4, 2] (0, l)")
  define b' where "b' = fst (low_zero_block 1 (bits, l1))"
  have "low_zero_inv l 1 (low_zero_block 1 (bits, l1))" using low_zero_block_inv [of l 1 "(bits, l1)"] i f by simp
  then have r: "take_bit (unat b') l = 0" "take_bit 1 (drop_bit (unat b') l) \<noteq> 0" "unat b' + 1 \<le> 64"
    by (auto simp: low_zero_inv_def b'_def split: prod.splits)
  have "bn_count_low_zero_bits_word l = b'"
    unfolding bn_count_low_zero_bits_word_def f b'_def by (simp add: low_zero_block_def Let_def)
  moreover have "bit l (unat b')" using r(2) by (auto simp: bit_iff_odd_drop_bit even_iff_mod_2_eq_zero)
  ultimately show ?thesis using r by (simp add: b_def)
qed

text \<open>Only the first word that is not zero contributes to the count.\<close>

lemma low_zero_word_step:
  "low_zero_word d i (res, NOT 0) = (res, NOT 0)"
  "d ! i = 0 \<Longrightarrow> low_zero_word d i (res, 0) = (res, 0)"
  "d ! i \<noteq> 0 \<Longrightarrow> low_zero_word d i (0, 0) = (ucast (of_nat (i * 64) + bn_count_low_zero_bits_word (d ! i)), NOT 0)"
  by (simp_all add: low_zero_word_def ct_masks Let_def)

lemma low_zero_fold:
  assumes "n \<le> length d"
  shows "(bn_part n d = 0 \<longrightarrow> fold (low_zero_word d) [0 ..< n] (0, 0) = (0, 0)) \<and>
    (bn_part n d \<noteq> 0 \<longrightarrow> (\<exists>i < n. bn_part i d = 0 \<and> d ! i \<noteq> 0 \<and>
       fold (low_zero_word d) [0 ..< n] (0, 0) = (ucast (of_nat (i * 64) + bn_count_low_zero_bits_word (d ! i)), NOT 0)))"
  using assms
proof (induction n)
  case (Suc n)
  have t: "take (Suc n) d = take n d @ [d ! n]" using Suc.prems by (simp add: take_Suc_conv_app_nth)
  have z: "bn_part (Suc n) d = 0 \<longleftrightarrow> bn_part n d = 0 \<and> d ! n = 0" unfolding t by (auto simp: bn_val_append unat_eq_zero)
  show ?case
  proof (cases "bn_part n d = 0")
    case True
    then have f: "fold (low_zero_word d) [0 ..< n] (0, 0) = (0, 0)" using Suc by simp
    show ?thesis
    proof (cases "d ! n = 0")
      case False
      have "n < Suc n" by simp
      moreover have "fold (low_zero_word d) [0 ..< Suc n] (0, 0) =
          (ucast (of_nat (n * 64) + bn_count_low_zero_bits_word (d ! n)), NOT 0)"
        using low_zero_word_step(3) [OF False] f by simp
      ultimately show ?thesis using True False z by blast
    qed (use f z True low_zero_word_step(2) in simp)
  next
    case False
    then obtain i where i: "i < n" "bn_part i d = 0" "d ! i \<noteq> 0"
      "fold (low_zero_word d) [0 ..< n] (0, 0) = (ucast (of_nat (i * 64) + bn_count_low_zero_bits_word (d ! i)), NOT 0)"
      using Suc by auto
    then have "fold (low_zero_word d) [0 ..< Suc n] (0, 0) = (ucast (of_nat (i * 64) + bn_count_low_zero_bits_word (d ! i)), NOT 0)"
      using low_zero_word_step(1) by simp
    moreover have "i < Suc n" using i(1) by simp
    ultimately show ?thesis using i(2,3) z False by blast
  qed
qed simp

lemma count_low_zero_bits:
  assumes ok: "bn_ok a" and nz: "bn_mag a \<noteq> 0"
  shows "bit (bn_mag a) (BN_count_low_zero_bits a) \<and> (\<forall>k < BN_count_low_zero_bits a. \<not> bit (bn_mag a) k)"
proof -
  have l: "bn_width a \<le> length (bn_d a)" using bn_okD [OF ok] by simp
  obtain i where i: "i < bn_width a" "bn_part i (bn_d a) = 0" "bn_d a ! i \<noteq> 0"
    "fold (low_zero_word (bn_d a)) [0 ..< bn_width a] (0, 0) =
       (ucast (of_nat (i * 64) + bn_count_low_zero_bits_word (bn_d a ! i)), NOT 0)"
    using low_zero_fold [OF l] nz by (auto simp: bn_mag_def)
  define b where "b = unat (bn_count_low_zero_bits_word (bn_d a ! i))"
  have b: "take_bit b (bn_d a ! i) = 0" "bit (bn_d a ! i) b" "b < 64"
    using count_low_word [OF i(3)] by (simp_all add: b_def)
  have small: "i * 64 + b < 2 ^ 32" using i(1) b(3) ok by (simp add: bn_ok_def INT_MAX_def)
  then have u: "unat (of_nat (i * 64 + b) :: u64) = i * 64 + b" unfolding unat_of_nat by simp
  have "BN_count_low_zero_bits a = unat (ucast (of_nat (i * 64 + b) :: u64) :: u32)"
    by (simp add: BN_count_low_zero_bits_def i(4) b_def)
  also have "\<dots> = take_bit 32 (i * 64 + b)" unfolding unsigned_ucast_eq u by simp
  also have "\<dots> = 64 * i + b" using small by (simp add: take_bit_nat_eq_self)
  finally have c: "BN_count_low_zero_bits a = 64 * i + b" .
  have "bit (bn_mag a) (64 * i + b)" using bit_part_at [OF l b(3), of i] i(1) b(2) by (simp add: bn_mag_def)
  moreover have "\<not> bit (bn_mag a) k" if k: "k < 64 * i + b" for k
  proof
    assume t: "bit (bn_mag a) k"
    then have q: "k div 64 < bn_width a" "bit (bn_d a ! (k div 64)) (k mod 64)"
      using bit_part [OF l, of k] by (simp_all add: bn_mag_def)
    show False
    proof (cases "k div 64 < i")
      case True
      then have "bn_d a ! (k div 64) = 0"
        using i(1,2) l nth_mem [of "k div 64" "take i (bn_d a)"] by (auto simp: bn_val_eq_0)
      then show False using q(2) by simp
    next
      case False
      have "k div 64 < Suc i" using k b(3) by (intro less_mult_imp_div_less) simp
      then have "k div 64 = i" using False by simp
      moreover from this have "k mod 64 < b" using k mult_div_mod_eq [of 64 k] by linarith
      ultimately have "k div 64 = i" "k mod 64 < b" by simp_all
      then show False using q(2) arg_cong [OF b(1), of "\<lambda>w. bit w (k mod 64)"] by (simp add: bit_take_bit_iff)
    qed
  qed
  ultimately show ?thesis unfolding c by blast
qed

text \<open>What the operations of this theory promise: the magnitude of the result, and its sign.\<close>

definition mag_result :: "nat \<Rightarrow> bool \<Rightarrow> bool \<Rightarrow> unit option \<times> BIGNUM \<Rightarrow> bool" where
  "mag_result v s failed x \<longleftrightarrow> (case fst x of None \<Rightarrow> failed
     | Some _ \<Rightarrow> \<not> failed \<and> bn_ok (snd x) \<and> bn_mag (snd x) = v \<and> neg (snd x) = (s \<and> v \<noteq> 0))"

lemma andthen_fails: "fst (andthen m (\<lambda>_ s. (Some (), f s)) s) = None \<longleftrightarrow> fst (m s) = None"
  by (simp add: andthen_def split: prod.split option.split)

lemma shift_fails:
  "fst (BN_lshift malloc a n r) = None \<longleftrightarrow> n < 0 \<or> fst (bn_wexpand malloc (bn_width a + nat n div 64 + 1) r) = None"
  "fst (BN_rshift malloc a n r) = None \<longleftrightarrow> n < 0 \<or> fst (bn_wexpand malloc (bn_width a) r) = None"
  "fst (BN_rshift1 malloc a r) = None \<longleftrightarrow> fst (bn_wexpand malloc (bn_width a) r) = None"
  unfolding BN_lshift_def BN_rshift_def BN_rshift1_def Let_def
  by (simp_all only: andthen_fails wexpand_neg fst_conv split: if_split) simp_all

lemma lshift_result:
  assumes "allocator malloc" "bn_ok a" "bn_ok r"
  shows "mag_result (push_bit (nat n) (bn_mag a)) (neg a)
    (n < 0 \<or> fst (bn_wexpand malloc (bn_width a + nat n div 64 + 1) r) = None) (BN_lshift malloc a n r)"
  using lshift_spec [OF assms prod.collapse [symmetric], of n] shift_fails(1) [of malloc a n r]
  by (cases "fst (BN_lshift malloc a n r)") (auto simp: mag_result_def)

lemma rshift_result:
  assumes "allocator malloc" "bn_ok a" "bn_ok r"
  shows "mag_result (drop_bit (nat n) (bn_mag a)) (neg a)
    (n < 0 \<or> fst (bn_wexpand malloc (bn_width a) r) = None) (BN_rshift malloc a n r)"
  using rshift_spec [OF assms prod.collapse [symmetric], of n] shift_fails(2) [of malloc a n r]
  by (cases "fst (BN_rshift malloc a n r)") (auto simp: mag_result_def)

lemma rshift1_result:
  assumes "allocator malloc" "bn_ok a" "bn_ok r"
  shows "mag_result (bn_mag a div 2) (neg a) (fst (bn_wexpand malloc (bn_width a) r) = None) (BN_rshift1 malloc a r)"
  using rshift1_spec [OF assms prod.collapse [symmetric]] shift_fails(3) [of malloc a r]
  by (cases "fst (BN_rshift1 malloc a r)") (auto simp: mag_result_def)

lemma clear_bit_result:
  assumes "bn_ok a"
  shows "mag_result (unset_bit (nat n) (bn_mag a)) (neg a) (n < 0 \<or> 64 * bn_width a \<le> nat n) (BN_clear_bit n a)"
proof -
  have "64 * bn_width a \<le> nat n \<longleftrightarrow> bn_width a \<le> nat n div 64"
    by (simp add: less_eq_div_iff_mult_less_eq mult.commute)
  then have "fst (BN_clear_bit n a) = None \<longleftrightarrow> n < 0 \<or> 64 * bn_width a \<le> nat n"
    by (simp add: BN_clear_bit_def Let_def)
  then show ?thesis using clear_bit_spec [OF assms prod.collapse [symmetric], of n]
    by (cases "fst (BN_clear_bit n a)") (auto simp: mag_result_def)
qed

lemma lowest_bit: "bn_ok a \<Longrightarrow> bn_mag a \<noteq> 0 \<Longrightarrow> BN_count_low_zero_bits a = (LEAST k. bit (bn_mag a) k)"
  using count_low_zero_bits [of a] by (metis (mono_tags, lifting) LeastI Least_le linorder_not_le nle_le)

lemma lshift1_result:
  assumes "allocator malloc" "bn_ok a" "bn_ok r" "bn_canonical a"
  shows "mag_result (2 * bn_mag a) (neg a) (fst (bn_wexpand malloc (bn_width a + 1) r) = None) (BN_lshift1 malloc a r)"
proof -
  obtain ws c where "each_word lshift1_step 0 (take (bn_width a) (bn_d a)) = (ws, c)" by (rule prod.exhaust)
  then have "fst (BN_lshift1 malloc a r) = None \<longleftrightarrow> fst (bn_wexpand malloc (bn_width a + 1) r) = None"
    by (simp add: BN_lshift1_def Let_def andthen_fails wexpand_neg)
  then show ?thesis using lshift1_spec [OF assms(1-3) prod.collapse [symmetric]] assms(4)
    by (cases "fst (BN_lshift1 malloc a r)") (auto simp: mag_result_def bn_canonical_def)
qed

lemma set_bit_result:
  assumes "allocator malloc" "bn_ok a" "bn_canonical a"
  shows "mag_result (set_bit (nat n) (bn_mag a)) (neg a)
    (n < 0 \<or> bn_width a \<le> nat n div 64 \<and> fst (bn_wexpand malloc (nat n div 64 + 1) a) = None) (BN_set_bit malloc n a)"
proof -
  have "fst (BN_set_bit malloc n a) = None \<longleftrightarrow>
      n < 0 \<or> bn_width a \<le> nat n div 64 \<and> fst (bn_wexpand malloc (nat n div 64 + 1) a) = None"
    by (simp add: BN_set_bit_def Let_def andthen_fails ret_def)
  moreover have "set_bit (nat n) (bn_mag a) \<noteq> 0"
    using bit_set_bit_iff [of "nat n" "bn_mag a" "nat n"] by (metis bit_0_eq bot_apply bot_bool_def possible_bit_nat)
  ultimately show ?thesis using set_bit_spec [OF assms(1,2) prod.collapse [symmetric], of n] assms(3)
    by (cases "fst (BN_set_bit malloc n a)") (auto simp: mag_result_def)
qed

lemma mask_bits_result:
  assumes "bn_ok a" "bn_canonical a"
  shows "mag_result (take_bit (nat n) (bn_mag a)) (neg a) (n < 0) (BN_mask_bits n a)"
proof -
  have "fst (BN_mask_bits n a) = None \<longleftrightarrow> n < 0" by (simp add: BN_mask_bits_def Let_def)
  then show ?thesis using mask_bits_spec [OF assms(1) prod.collapse [symmetric], of n] assms(2)
    by (cases "fst (BN_mask_bits n a)") (auto simp: mag_result_def)
qed

text \<open>C27: The shifts and bit operations of a big number are those of the natural number it holds, for every
  distance and position, sign kept and zero never negative: \<open>BN_lshift\<close> and \<open>BN_rshift\<close> by \<open>n\<close> bits,
  \<open>BN_lshift1\<close> and \<open>BN_rshift1\<close> by one, \<open>BN_set_bit\<close>, \<open>BN_clear_bit\<close> and \<open>BN_is_bit_set\<close> of bit
  \<open>n\<close>, \<open>BN_mask_bits\<close> keeps the low \<open>n\<close>, and \<open>BN_count_low_zero_bits\<close> is the position of the lowest
  bit set. The operand of \<open>BN_lshift1\<close>, \<open>BN_set_bit\<close> and \<open>BN_mask_bits\<close>, which write no sign, is not a
  negative zero. The operations with a distance or a position fail when it is negative, those that grow the
  result exactly when it cannot grow, and \<open>BN_clear_bit\<close> also for a bit beyond the width, which bn.h does
  not say.\<close>

theorem bn_shift_bits_exact:
  assumes "allocator malloc" "bn_ok a" "bn_ok r"
  shows "mag_result (push_bit (nat n) (bn_mag a)) (neg a)
      (n < 0 \<or> fst (bn_wexpand malloc (bn_width a + nat n div 64 + 1) r) = None) (BN_lshift malloc a n r) \<and>
    mag_result (drop_bit (nat n) (bn_mag a)) (neg a) (n < 0 \<or> fst (bn_wexpand malloc (bn_width a) r) = None)
      (BN_rshift malloc a n r) \<and>
    mag_result (bn_mag a div 2) (neg a) (fst (bn_wexpand malloc (bn_width a) r) = None) (BN_rshift1 malloc a r) \<and>
    mag_result (unset_bit (nat n) (bn_mag a)) (neg a) (n < 0 \<or> 64 * bn_width a \<le> nat n) (BN_clear_bit n a) \<and>
    (bn_canonical a \<longrightarrow>
      mag_result (2 * bn_mag a) (neg a) (fst (bn_wexpand malloc (bn_width a + 1) r) = None) (BN_lshift1 malloc a r) \<and>
      mag_result (set_bit (nat n) (bn_mag a)) (neg a)
        (n < 0 \<or> bn_width a \<le> nat n div 64 \<and> fst (bn_wexpand malloc (nat n div 64 + 1) a) = None)
        (BN_set_bit malloc n a) \<and>
      mag_result (take_bit (nat n) (bn_mag a)) (neg a) (n < 0) (BN_mask_bits n a)) \<and>
    (BN_is_bit_set a n \<longleftrightarrow> 0 \<le> n \<and> bit (bn_mag a) (nat n)) \<and>
    (bn_mag a \<noteq> 0 \<longrightarrow> BN_count_low_zero_bits a = (LEAST k. bit (bn_mag a) k))"
  using lshift_result [OF assms] rshift_result [OF assms] rshift1_result [OF assms] clear_bit_result [OF assms(2)]
    lshift1_result [OF assms] set_bit_result [OF assms(1,2)] mask_bits_result [OF assms(2)]
    is_bit_set_spec [OF assms(2)] lowest_bit [OF assms(2)] by (auto simp: BN_is_bit_set_def)

theorem bn_shift_bits_exact_witness:
  "let a = \<lparr>bn_d = [0, 5], bn_width = 2, dmax = 2, neg = True, bn_static = False\<rparr>;
       x = BN_lshift zero_alloc a 70 BN_init
   in fst x = Some () \<and> bn_mag (snd x) = 5 * 2 ^ 134 \<and> neg (snd x)"
proof -
  let ?a = "\<lparr>bn_d = [0, 5], bn_width = 2, dmax = 2, neg = True, bn_static = False\<rparr>"
  have v: "bn_mag ?a = 5 * 2 ^ 64" by (simp add: bn_mag_def)
  have "mag_result (push_bit (nat 70) (bn_mag ?a)) (neg ?a)
      (70 < (0 :: int) \<or> fst (bn_wexpand zero_alloc (bn_width ?a + nat 70 div 64 + 1) BN_init) = None)
      (BN_lshift zero_alloc ?a 70 BN_init)"
    using bn_shift_bits_exact [of zero_alloc ?a BN_init 70] by (simp add: bn_ok_def BN_init_def INT_MAX_def)
  moreover have "fst (bn_wexpand zero_alloc (bn_width ?a + nat 70 div 64 + 1) BN_init) = Some ()"
    by (rule wexpand_zero_alloc) (simp_all add: BN_init_def INT_MAX_def)
  ultimately show ?thesis unfolding v by (simp add: mag_result_def Let_def push_bit_eq_mult split: option.splits)
qed

end
