(* ===== verification/BnBytes.thy ===== *)
theory BnBytes
  imports BnShift
begin

text \<open>
  Big numbers as byte strings (\<open>crypto/fipsmodule/bn/bytes.c\<close>): reading big- and little-endian bytes,
  writing the minimal big-endian bytes or a given number of bytes, and reading a single word. The code
  accesses the words as bytes in memory, least significant first (\<open>words_bytes\<close>). \<open>be_bytes\<close>,
  \<open>be_val\<close> and \<open>byte_count\<close> are the big-endian notation of the DER theories.
\<close>

text \<open>The loop of \<open>BN_bin2bn\<close>; \<open>m\<close> bytes of the current word are still to come after the next one.\<close>

primrec bin2bn_loop :: "byte list \<Rightarrow> nat \<Rightarrow> nat \<Rightarrow> u64 \<Rightarrow> u64 list \<Rightarrow> u64 list" where
  "bin2bn_loop [] m num_words word d = d"
| "bin2bn_loop (b # bs) m num_words word d =
     (let word = push_bit 8 word OR ucast b
      in if m = 0 then bin2bn_loop bs 7 (num_words - 1) 0 (d[num_words - 1 := word])
         else bin2bn_loop bs (m - 1) num_words word d)"

definition BN_bin2bn :: "(nat \<Rightarrow> byte list option) \<Rightarrow> byte list \<Rightarrow> (BIGNUM, unit) op" where
  "BN_bin2bn malloc bs bn =
     (let len = length bs
      in if len = 0 then (Some (), bn\<lparr>bn_width := 0\<rparr>)
         else (let num_words = (len - 1) div 8 + 1; m = (len - 1) mod 8
               in andthen (bn_wexpand malloc num_words) (\<lambda>_ bn.
                    (Some (), bn\<lparr>bn_width := num_words, neg := False, bn_d := bin2bn_loop bs m num_words 0 (bn_d bn)\<rparr>)) bn))"

text \<open>With a null result pointer the functions allocate the number, and free it if they fail.\<close>

definition into_new :: "(nat \<Rightarrow> byte list option) \<Rightarrow> (BIGNUM, unit) op \<Rightarrow> BIGNUM option" where
  "into_new malloc f =
     (case BN_new malloc of None \<Rightarrow> None
      | Some bn \<Rightarrow> (case f bn of (None, _) \<Rightarrow> None | (Some _, bn) \<Rightarrow> Some bn))"

definition BN_le2bn :: "(nat \<Rightarrow> byte list option) \<Rightarrow> byte list \<Rightarrow> (BIGNUM, unit) op" where
  "BN_le2bn malloc bs bn =
     (let len = length bs
      in if len = 0 then (Some (), bn\<lparr>bn_width := 0, neg := False\<rparr>)
         else (let num_words = (len - 1) div 8 + 1
               in andthen (bn_wexpand malloc num_words) (\<lambda>_ bn.
                    (Some (), bn\<lparr>bn_width := num_words,
                       bn_d := bytes_words (splice 0 bs (words_bytes ((bn_d bn)[num_words - 1 := 0])))\<rparr>)) bn))"

definition BN_bn2bin :: "BIGNUM \<Rightarrow> byte list" where
  "BN_bn2bin bn = map (\<lambda>i. ucast (drop_bit (8 * (i mod 8)) (bn_d bn ! (i div 8)) AND 0xFF)) (rev [0 ..< BN_num_bytes bn])"

definition fits_in_bytes :: "byte list \<Rightarrow> size_t \<Rightarrow> size_t \<Rightarrow> bool" where
  "fits_in_bytes bytes num_bytes len = (fold (\<lambda>b msk. msk OR b) (drop len (take num_bytes bytes)) 0 = 0)"

definition BN_bn2le_padded :: "size_t \<Rightarrow> BIGNUM \<Rightarrow> byte list option" where
  "BN_bn2le_padded len bn =
     (let bytes = words_bytes (bn_d bn); num_bytes = bn_width bn * 8
      in if len < num_bytes \<and> \<not> fits_in_bytes bytes num_bytes len then None
         else (let num_bytes = (if len < num_bytes then len else num_bytes)
               in Some (take num_bytes bytes @ replicate (len - num_bytes) 0)))"

definition BN_bn2bin_padded :: "size_t \<Rightarrow> BIGNUM \<Rightarrow> byte list option" where
  "BN_bn2bin_padded len bn =
     (let bytes = words_bytes (bn_d bn); num_bytes = bn_width bn * 8
      in if len < num_bytes \<and> \<not> fits_in_bytes bytes num_bytes len then None
         else (let num_bytes = (if len < num_bytes then len else num_bytes)
               in Some (replicate (len - num_bytes) 0 @ rev (map (\<lambda>i. bytes ! i) [0 ..< num_bytes]))))"

definition BN_get_word :: "BIGNUM \<Rightarrow> u64" where
  "BN_get_word bn = (case bn_minimal_width bn of 0 \<Rightarrow> 0 | Suc 0 \<Rightarrow> bn_d bn ! 0 | _ \<Rightarrow> NOT 0)"

definition BN_get_u64 :: "BIGNUM \<Rightarrow> u64 option" where
  "BN_get_u64 bn = (case bn_minimal_width bn of 0 \<Rightarrow> Some 0 | Suc 0 \<Rightarrow> Some (bn_d bn ! 0) | _ \<Rightarrow> None)"

section \<open>Bytes of the array\<close>

lemma length_words_bytes [simp]: "length (words_bytes ws) = 8 * length ws"
  by (induction ws) (simp_all add: words_bytes_def word_bytes_def)

lemma words_bytes_nth: "i < 8 * length ws \<Longrightarrow> words_bytes ws ! i = ucast (drop_bit (8 * (i mod 8)) (ws ! (i div 8)))"
proof (induction ws arbitrary: i)
  case (Cons w ws)
  have e: "words_bytes (w # ws) = word_bytes w @ words_bytes ws" and l: "length (word_bytes w) = 8"
    by (simp_all add: words_bytes_def word_bytes_def)
  show ?case
  proof (cases "i < 8")
    case True
    have "[0, 1, 2, 3, 4, 5, 6, 7] = [0 ..< 8 :: nat]" by (simp add: upt_rec)
    then have "word_bytes w = map (\<lambda>k. ucast (drop_bit (8 * k) w)) [0 ..< 8]" by (simp add: word_bytes_def)
    then show ?thesis using True by (simp add: e nth_append l)
  next
    case False
    then have "i div 8 = Suc ((i - 8) div 8)" "(i - 8) mod 8 = i mod 8"
      using le_div_geq [of 8 i] le_mod_geq [of 8 i] by simp_all
    then show ?thesis using False Cons.IH [of "i - 8"] Cons.prems by (simp add: e nth_append l)
  qed
qed simp

lemma byte_of_part:
  assumes "i < 8 * w" "w \<le> length d"
  shows "(ucast (drop_bit (8 * (i mod 8)) (d ! (i div 8))) :: byte) = of_nat (bn_part w d div 256 ^ i)"
proof (rule bit_word_eqI)
  fix m :: nat
  assume "m < LENGTH(8)"
  then have m: "m < 8" by simp
  have i: "i div 8 < w" "8 * (i mod 8) + m < 64" using assms(1) m by (simp_all add: less_mult_imp_div_less mult.commute)
  have k: "8 * i + m = 64 * (i div 8) + (8 * (i mod 8) + m)" using mult_div_mod_eq [of 8 i] by linarith
  have "(256 :: nat) ^ i = 2 ^ (8 * i)" by (simp add: power_mult)
  then have "bit (of_nat (bn_part w d div 256 ^ i) :: byte) m \<longleftrightarrow> bit (bn_part w d) (8 * i + m)"
    using m by (simp add: bit_of_nat_iff bit_drop_bit_eq flip: drop_bit_eq_div)
  then show "bit (ucast (drop_bit (8 * (i mod 8)) (d ! (i div 8))) :: byte) m \<longleftrightarrow> bit (of_nat (bn_part w d div 256 ^ i) :: byte) m"
    unfolding k using bit_part_at [OF assms(2) i(2), of "i div 8"] i(1) m by (simp add: bit_simps)
qed

lemma be_bytes_digits: "be_bytes k n = map (\<lambda>i. of_nat (n div 256 ^ i)) (rev [0 ..< k])"
proof (induction k arbitrary: n)
  case (Suc k)
  have "[0 ..< Suc k] = 0 # map Suc [0 ..< k]" by (simp add: map_Suc_upt upt_conv_Cons del: upt_Suc)
  then show ?case by (simp add: Suc.IH rev_map div_mult2_eq o_def del: upt_Suc)
qed simp

lemma words_bytes_part:
  "i < 8 * w \<Longrightarrow> w \<le> length d \<Longrightarrow> words_bytes d ! i = of_nat (bn_part w d div 256 ^ i)"
  using byte_of_part [of i w d] words_bytes_nth [of i d] by simp

section \<open>Writing\<close>

lemma part_less_bytes: "8 * w \<le> len \<Longrightarrow> bn_part w d < 256 ^ len"
proof -
  assume "8 * w \<le> len"
  have "bn_part w d < 2 ^ (64 * w)" by (rule bn_part_less)
  also have "\<dots> \<le> 2 ^ (8 * len)" using \<open>8 * w \<le> len\<close> by (intro power_increasing) simp_all
  also have "\<dots> = 256 ^ len" by (simp add: power_mult)
  finally show ?thesis .
qed

lemma small_mag_fits:
  assumes "w \<le> length d"
  shows "fits_in_bytes (words_bytes d) (w * 8) len \<longleftrightarrow> 8 * w \<le> len \<or> bn_part w d < 256 ^ len"
proof -
  let ?V = "bn_part w d"
  have f: "fold (\<lambda>b msk. msk OR b) bs m = 0 \<longleftrightarrow> m = 0 \<and> (\<forall>b \<in> set bs. b = 0)" for m :: byte and bs
    by (induction bs arbitrary: m) (auto simp: or_eq_0_iff)
  have "fits_in_bytes (words_bytes d) (w * 8) len \<longleftrightarrow> (\<forall>i. len \<le> i \<and> i < 8 * w \<longrightarrow> words_bytes d ! i = 0)"
  proof
    assume "fits_in_bytes (words_bytes d) (w * 8) len"
    then have z: "\<forall>b \<in> set (drop len (take (w * 8) (words_bytes d))). b = 0" by (simp add: fits_in_bytes_def f)
    show "\<forall>i. len \<le> i \<and> i < 8 * w \<longrightarrow> words_bytes d ! i = 0"
    proof (intro allI impI)
      fix i
      assume i: "len \<le> i \<and> i < 8 * w"
      then have "drop len (take (w * 8) (words_bytes d)) ! (i - len) = words_bytes d ! i" using assms by simp
      moreover have "i - len < length (drop len (take (w * 8) (words_bytes d)))" using i assms by auto
      ultimately show "words_bytes d ! i = 0" using z nth_mem by metis
    qed
  next
    assume "\<forall>i. len \<le> i \<and> i < 8 * w \<longrightarrow> words_bytes d ! i = 0"
    then show "fits_in_bytes (words_bytes d) (w * 8) len"
      using assms by (auto simp: fits_in_bytes_def f in_set_conv_nth)
  qed
  also have "\<dots> \<longleftrightarrow> (\<forall>i. len \<le> i \<and> i < 8 * w \<longrightarrow> (of_nat (?V div 256 ^ i) :: byte) = 0)"
    using assms words_bytes_part [of _ w d] by auto
  also have "\<dots> \<longleftrightarrow> (\<forall>k < 64 * w. 8 * len \<le> k \<longrightarrow> \<not> bit ?V k)"
  proof -
    have b: "bit (of_nat (?V div 256 ^ i) :: byte) m \<longleftrightarrow> m < 8 \<and> bit ?V (8 * i + m)" for i m
    proof -
      have "(256 :: nat) ^ i = 2 ^ (8 * i)" by (simp add: power_mult)
      then show ?thesis by (simp add: bit_of_nat_iff bit_drop_bit_eq flip: drop_bit_eq_div)
    qed
    show ?thesis
    proof (intro iffI allI impI)
      fix k
      assume a: "\<forall>i. len \<le> i \<and> i < 8 * w \<longrightarrow> (of_nat (?V div 256 ^ i) :: byte) = 0" and k: "k < 64 * w" "8 * len \<le> k"
      have "len \<le> k div 8" "k div 8 < 8 * w" using k by (simp_all add: less_eq_div_iff_mult_less_eq less_mult_imp_div_less mult.commute)
      then have "(of_nat (?V div 256 ^ (k div 8)) :: byte) = 0" using a by blast
      then show "\<not> bit ?V k" using b [of "k div 8" "k mod 8"] by simp
    next
      fix i
      assume a: "\<forall>k < 64 * w. 8 * len \<le> k \<longrightarrow> \<not> bit ?V k" and i: "len \<le> i \<and> i < 8 * w"
      show "(of_nat (?V div 256 ^ i) :: byte) = 0"
        using a i by (intro bit_word_eqI) (simp add: b)
    qed
  qed
  also have "\<dots> \<longleftrightarrow> ?V < 256 ^ len \<or> 8 * w \<le> len"
  proof -
    have p: "(256 :: nat) ^ len = 2 ^ (8 * len)" by (simp add: power_mult)
    have "(\<forall>k < 64 * w. 8 * len \<le> k \<longrightarrow> \<not> bit ?V k) \<longleftrightarrow> (\<forall>k. 8 * len \<le> k \<longrightarrow> \<not> bit ?V k)"
      using nat_bit_less [OF bn_part_less [of w d]] by auto
    also have "\<dots> \<longleftrightarrow> drop_bit (8 * len) ?V = 0" by (auto simp: bit_eq_iff bit_drop_bit_eq) (metis le_add_diff_inverse)
    also have "\<dots> \<longleftrightarrow> ?V < 256 ^ len" unfolding p by (simp add: drop_bit_eq_div div_eq_0_iff)
    finally have e: "(\<forall>k < 64 * w. 8 * len \<le> k \<longrightarrow> \<not> bit ?V k) \<longleftrightarrow> ?V < 256 ^ len" .
    with part_less_bytes [of w len d] show ?thesis by blast
  qed
  finally show ?thesis by blast
qed

text \<open>The first \<open>len\<close> little-endian bytes of the number.\<close>

lemma padded_bytes:
  fixes len :: nat
  assumes "w \<le> length d"
  defines "n \<equiv> if len < w * 8 then len else w * 8"
  shows "take n (words_bytes d) @ replicate (len - n) 0 = rev (be_bytes len (bn_part w d))"
proof (rule nth_equalityI)
  have n: "n \<le> 8 * length d" "n \<le> len" using assms(1) by (auto simp: n_def)
  then show "length (take n (words_bytes d) @ replicate (len - n) 0) = length (rev (be_bytes len (bn_part w d)))" by simp
  fix i
  assume "i < length (take n (words_bytes d) @ replicate (len - n) 0)"
  then have i: "i < len" using n by simp
  have r: "rev (be_bytes len (bn_part w d)) ! i = of_nat (bn_part w d div 256 ^ i)"
    using i by (simp add: be_bytes_digits flip: rev_map)
  show "(take n (words_bytes d) @ replicate (len - n) 0) ! i = rev (be_bytes len (bn_part w d)) ! i"
  proof (cases "i < n")
    case True
    then have "i < 8 * w" by (auto simp: n_def split: if_splits)
    then show ?thesis using True n words_bytes_part [OF _ assms(1), of i] by (simp add: r nth_append)
  next
    case False
    then have "8 * w \<le> i" using i by (auto simp: n_def split: if_splits)
    then have "(2 :: nat) ^ (64 * w) \<le> 2 ^ (8 * i)" by (intro power_increasing) simp_all
    also have "\<dots> = 256 ^ i" by (simp add: power_mult)
    finally have "bn_part w d < 256 ^ i" using bn_part_less [of w d] by simp
    then show ?thesis using False i n by (simp add: r nth_append)
  qed
qed

lemma bn2le_padded_spec:
  assumes "bn_ok a"
  shows "BN_bn2le_padded len a = (if bn_mag a < 256 ^ len then Some (rev (be_bytes len (bn_mag a))) else None)"
  using small_mag_fits [OF bn_okD(1) [OF assms], of len] padded_bytes [OF bn_okD(1) [OF assms], of len]
    part_less_bytes [of "bn_width a" len "bn_d a"]
  unfolding BN_bn2le_padded_def Let_def bn_mag_def by (auto simp: mult.commute not_less split: if_splits)

lemma rev_nth_map: "n \<le> length bs \<Longrightarrow> rev (map (\<lambda>i. bs ! i) [0 ..< n]) = rev (take n bs)"
proof -
  assume "n \<le> length bs"
  then have "map (\<lambda>i. bs ! i) [0 ..< n] = take n bs" by (intro nth_equalityI) simp_all
  then show ?thesis by simp
qed

lemma bn2bin_padded_le: "BN_bn2bin_padded len a = map_option rev (BN_bn2le_padded len a)" if "bn_ok a"
proof -
  have "min (bn_width a * 8) (8 * length (bn_d a)) = bn_width a * 8" using bn_okD [OF that] by simp
  then show ?thesis using bn_okD [OF that] rev_nth_map [of _ "words_bytes (bn_d a)"]
    by (simp add: BN_bn2bin_padded_def BN_bn2le_padded_def Let_def)
qed

lemma bn2bin_padded_spec:
  "bn_ok a \<Longrightarrow> BN_bn2bin_padded len a = (if bn_mag a < 256 ^ len then Some (be_bytes len (bn_mag a)) else None)"
  by (simp add: bn2bin_padded_le bn2le_padded_spec)

section \<open>The number of bits\<close>

text \<open>After the blocks down to width \<open>s\<close> the remaining word is the number shifted by \<open>bits - 1\<close> and is
  below \<open>2 ^ s\<close>.\<close>

definition num_bits_inv :: "u64 \<Rightarrow> nat \<Rightarrow> u64 \<times> u64 \<Rightarrow> bool" where
  "num_bits_inv l0 s = (\<lambda>(bits, l). 0 < unat bits \<and> l = drop_bit (unat bits - 1) l0 \<and> l \<noteq> 0 \<and> drop_bit s l = 0 \<and>
     unat bits - 1 + s \<le> 64)"

lemma nonzero_mask: "unat (x :: u64) < 2 ^ 63 \<Longrightarrow> 0 - drop_bit 63 (0 - x) = (if x = 0 then 0 else NOT 0)"
proof (cases "x = 0")
  case False
  assume "unat x < 2 ^ 63"
  moreover have "0 < unat x" using False by (simp add: unat_gt_0)
  ultimately have "2 ^ 63 \<le> unat (0 - x)" by (simp only: unat_sub_if') simp
  then have "drop_bit 63 (0 - x) = 1" unfolding drop_63 top_bit by simp
  then show ?thesis using False by simp
qed simp

lemma num_bits_block_inv:
  assumes inv: "num_bits_inv l0 (2 * s) x" and s: "0 < s" "s \<le> 32"
  shows "num_bits_inv l0 s (num_bits_block s x)"
proof -
  obtain bits l where x: "x = (bits, l)" by (cases x)
  have i: "0 < unat bits" "l = drop_bit (unat bits - 1) l0" "l \<noteq> 0" "drop_bit (2 * s) l = 0" "unat bits - 1 + 2 * s \<le> 64"
    using inv unfolding num_bits_inv_def x prod.case by blast+
  define y where "y = drop_bit s l"
  have "unat y = unat l div 2 ^ s" by (simp only: y_def unat_drop_bit_eq) (simp only: drop_bit_eq_div)
  also have "\<dots> \<le> unat l div 2 ^ 1" using s(1) by (intro div_le_mono2 power_increasing) simp_all
  also have "\<dots> < 2 ^ 63" using u64_less [of l] by simp
  finally have m: "0 - drop_bit 63 (0 - y) = (if y = 0 then 0 else NOT 0)" by (rule nonzero_mask)
  show ?thesis
  proof (cases "y = 0")
    case True
    then have "num_bits_block s x = (bits, l)" using m by (simp add: num_bits_block_def x y_def Let_def)
    then show ?thesis using i True by (simp add: num_bits_inv_def y_def)
  next
    case False
    have "num_bits_block s x = (bits + (of_nat s AND (if y = 0 then 0 else NOT 0)), l XOR ((y XOR l) AND (if y = 0 then 0 else NOT 0)))"
      unfolding m [symmetric] by (simp add: num_bits_block_def x y_def Let_def)
    also have "\<dots> = (bits + of_nat s, y)" using False by (simp add: xor.commute xor.left_commute)
    finally have e: "num_bits_block s x = (bits + of_nat s, y)" .
    have u: "unat (bits + of_nat s) = unat bits + s" using i(1,5) s by (simp add: unat_word_ariths unat_of_nat)
    have "y = drop_bit (unat bits + s - 1) l0" using i(1) by (simp add: y_def i(2) drop_bit_drop_bit add.commute)
    moreover have "drop_bit s y = 0" using i(4) by (simp add: y_def drop_bit_drop_bit mult_2)
    ultimately show ?thesis using i False by (simp add: e num_bits_inv_def u)
  qed
qed

lemma num_bits_word: "l \<noteq> 0 \<Longrightarrow> 0 < BN_num_bits_word l \<and> 2 ^ (BN_num_bits_word l - 1) \<le> unat l \<and> unat l < 2 ^ BN_num_bits_word l"
proof -
  assume l: "l \<noteq> 0"
  have a: "num_bits_inv l 64 (1, l)" using l drop_all_bits [of 64 64 l] by (simp add: num_bits_inv_def)
  have i: "num_bits_inv l 1 (fold num_bits_block [32, 16, 8, 4, 2, 1] (1, l))"
    using num_bits_block_inv [of l 1] num_bits_block_inv [of l 2] num_bits_block_inv [of l 4] num_bits_block_inv [of l 8]
      num_bits_block_inv [of l 16] num_bits_block_inv [of l 32] a by simp
  obtain bits r where f: "fold num_bits_block [32, 16, 8, 4, 2, 1] (1, l) = (bits, r)"
    by (cases "fold num_bits_block [32, 16, 8, 4, 2, 1] (1, l)")
  have v: "0 < unat bits" "r = drop_bit (unat bits - 1) l" "r \<noteq> 0" "drop_bit 1 r = 0"
    using i unfolding f num_bits_inv_def prod.case by blast+
  have n: "BN_num_bits_word l = unat bits" unfolding BN_num_bits_word_def using l f by simp
  have r: "unat r = unat l div 2 ^ (unat bits - 1)" by (simp only: v(2) unat_drop_bit_eq) (simp only: drop_bit_eq_div)
  have "unat r < 2" using v(4) drop_bit_0_iff [of 1 r] by simp
  then have "unat l < 2 ^ (unat bits - 1) * 2" unfolding r by (simp add: div_less_iff_less_mult mult.commute)
  also have "\<dots> = 2 ^ unat bits" using v(1) by (cases "unat bits") simp_all
  finally have "unat l < 2 ^ unat bits" .
  moreover have "2 ^ (unat bits - 1) \<le> unat l"
  proof (rule ccontr)
    assume "\<not> ?thesis"
    then have "unat r = 0" unfolding r by simp
    then show False using v(3) by (simp add: unat_eq_zero)
  qed
  ultimately show ?thesis using v(1) n by simp
qed

lemma num_bits_spec:
  assumes ok: "bn_ok a"
  shows "bn_mag a < 2 ^ BN_num_bits a \<and> (bn_mag a \<noteq> 0 \<longrightarrow> 0 < BN_num_bits a \<and> 2 ^ (BN_num_bits a - 1) \<le> bn_mag a) \<and>
    (bn_mag a = 0 \<longrightarrow> BN_num_bits a = 0)"
proof -
  define m where "m = bn_minimal_width a"
  have l: "bn_width a \<le> length (bn_d a)" using bn_okD [OF ok] by simp
  have m: "m \<le> bn_width a" "bn_part m (bn_d a) = bn_mag a" "m = 0 \<or> bn_d a ! (m - 1) \<noteq> 0" "m = 0 \<longleftrightarrow> bn_mag a = 0"
    using minimal_width_val [OF l] minimal_width_0 [OF l] by (simp_all add: m_def bn_minimal_width_def bn_mag_def)
  show ?thesis
  proof (cases "m = 0")
    case True
    then show ?thesis using m(4) by (simp add: BN_num_bits_def m_def [symmetric])
  next
    case False
    define w k where "w = bn_d a ! (m - 1)" and "k = BN_num_bits_word w"
    have n: "BN_num_bits a = 64 * (m - 1) + k" using False by (simp add: BN_num_bits_def m_def [symmetric] w_def k_def)
    have k: "0 < k" "2 ^ (k - 1) \<le> unat w" "unat w < 2 ^ k" using num_bits_word [of w] m(3) False by (simp_all add: w_def k_def)
    have t: "take m (bn_d a) = take (m - 1) (bn_d a) @ [w]"
      using take_last_word [of m "bn_d a"] m(1) l False by (simp add: w_def)
    have lo: "bn_part (m - 1) (bn_d a) < 2 ^ (64 * (m - 1))" by (rule bn_part_less)
    have len: "length (take (m - 1) (bn_d a)) = m - 1" using m(1) l by simp
    have v: "bn_mag a = bn_part (m - 1) (bn_d a) + 2 ^ (64 * (m - 1)) * unat w"
      unfolding m(2) [symmetric] t bn_val_append len by simp
    have "bn_mag a < 2 ^ (64 * (m - 1)) * (unat w + 1)" using lo unfolding v by simp
    also have "\<dots> \<le> 2 ^ (64 * (m - 1)) * 2 ^ k" using k(3) by (intro mult_left_mono) simp_all
    finally have hi: "bn_mag a < 2 ^ (64 * (m - 1) + k)" by (simp add: power_add)
    have "(2 :: nat) ^ (64 * (m - 1) + k - 1) = 2 ^ (64 * (m - 1)) * 2 ^ (k - 1)" using k(1) by (simp flip: power_add)
    also have "\<dots> \<le> 2 ^ (64 * (m - 1)) * unat w" using k(2) by (intro mult_left_mono) simp_all
    finally have "2 ^ (64 * (m - 1) + k - 1) \<le> bn_mag a" unfolding v by simp
    with hi k(1) n m(4) False show ?thesis by simp
  qed
qed

lemma num_bytes_spec: "bn_ok a \<Longrightarrow> BN_num_bytes a = byte_count (bn_mag a)"
proof -
  assume ok: "bn_ok a"
  note b = num_bits_spec [OF ok]
  define n k where "n = BN_num_bits a" and "k = BN_num_bytes a"
  have k: "k = (n + 7) div 8" by (simp add: k_def n_def BN_num_bytes_def)
  have p: "(256 :: nat) ^ j = 2 ^ (8 * j)" for j by (simp add: power_mult)
  show ?thesis
  proof (cases "bn_mag a = 0")
    case True
    then show ?thesis using b by (simp add: BN_num_bytes_def byte_count.simps)
  next
    case False
    then have n: "0 < n" "2 ^ (n - 1) \<le> bn_mag a" "bn_mag a < 2 ^ n" using b by (simp_all add: n_def)
    have kn: "0 < k" "8 * (k - 1) \<le> n - 1" "n \<le> 8 * k" using n(1) unfolding k by presburger+
    have "(2 :: nat) ^ (8 * (k - 1)) \<le> 2 ^ (n - 1)" using kn(2) by (intro power_increasing) simp_all
    moreover have "(2 :: nat) ^ n \<le> 2 ^ (8 * k)" using kn(3) by (intro power_increasing) simp_all
    ultimately have "256 ^ (k - 1) \<le> bn_mag a \<and> bn_mag a < 256 ^ k" using n unfolding p by linarith
    then show ?thesis using byte_count_iff [OF kn(1), of "bn_mag a"] by (simp add: k_def)
  qed
qed

lemma bn2bin_spec: "bn_ok a \<Longrightarrow> BN_bn2bin a = be_bytes (byte_count (bn_mag a)) (bn_mag a)"
proof -
  assume ok: "bn_ok a"
  let ?n = "BN_num_bytes a"
  have "drop_bit (8 * (i mod 8)) (bn_d a ! (i div 8)) AND 0xFF = take_bit 8 (drop_bit (8 * (i mod 8)) (bn_d a ! (i div 8)))" for i
    by (rule and_FF)
  moreover have "(ucast (take_bit 8 x) :: byte) = ucast x" for x :: u64
    by (rule bit_word_eqI) (simp add: bit_simps)
  moreover have "(ucast (drop_bit (8 * (i mod 8)) (bn_d a ! (i div 8))) :: byte) = of_nat (bn_mag a div 256 ^ i)" if "i < ?n" for i
  proof (cases "i < 8 * bn_width a")
    case True
    then show ?thesis using byte_of_part [OF True bn_okD(1) [OF ok]] by (simp add: bn_mag_def)
  next
    case False
    have "0 < ?n" using that by simp
    then have "256 ^ (?n - 1) \<le> bn_mag a" using byte_count_iff [of ?n "bn_mag a"] num_bytes_spec [OF ok] by simp
    moreover have "bn_mag a < 256 ^ i" using part_less_bytes [of "bn_width a" i "bn_d a"] False by (simp add: bn_mag_def)
    moreover have "(256 :: nat) ^ i \<le> 256 ^ (?n - 1)" using that by (intro power_increasing) simp_all
    ultimately have False by linarith
    then show ?thesis ..
  qed
  ultimately have "BN_bn2bin a = map (\<lambda>i. of_nat (bn_mag a div 256 ^ i)) (rev [0 ..< ?n])"
    unfolding BN_bn2bin_def by (intro map_cong) auto
  then show ?thesis by (simp add: be_bytes_digits num_bytes_spec [OF ok])
qed

section \<open>Reading\<close>

lemma bin2bn_loop_val:
  assumes "length bs = 8 * k + m + 1" "m \<le> 7" "unat w < 256 ^ (7 - m)" "k < length d"
  shows "length (bin2bn_loop bs m (Suc k) w d) = length d \<and>
    bn_part (Suc k) (bin2bn_loop bs m (Suc k) w d) = be_val bs + unat w * 256 ^ length bs \<and>
    drop (Suc k) (bin2bn_loop bs m (Suc k) w d) = drop (Suc k) d"
  using assms
proof (induction bs arbitrary: m k w d)
  case (Cons b bs)
  define w' :: u64 where "w' = push_bit 8 w OR ucast b"
  have b: "unat b < 256" using unsigned_less [of b, where 'a = nat] by simp
  have "(256 :: nat) ^ (7 - m) * 256 \<le> 256 ^ 7 * 256" by (intro mult_right_mono power_increasing) simp_all
  then have "unat w * 2 ^ 8 < 2 ^ 64" using Cons.prems(3) by simp
  then have w': "unat w' = unat w * 256 + unat b" unfolding w'_def using b by (subst unat_push_or) simp_all
  have bound: "unat w' < 256 ^ (8 - m)"
  proof -
    have "(unat w + 1) * 256 \<le> 256 ^ (7 - m) * 256" using Cons.prems(3) by (intro mult_right_mono) simp_all
    moreover have "(256 :: nat) ^ (7 - m) * 256 = 256 ^ Suc (7 - m)" by (rule power_Suc2 [symmetric])
    moreover have "Suc (7 - m) = 8 - m" using Cons.prems(2) by simp
    ultimately show ?thesis using b unfolding w' by simp
  qed
  have goal: "be_val (b # bs) + unat w * 256 ^ length (b # bs) = be_val bs + unat w' * 256 ^ length bs"
    unfolding be_val_Cons w' by (simp add: algebra_simps)
  show ?case
  proof (cases "m = 0")
    case False
    then obtain j where j: "m = Suc j" by (cases m) auto
    have e: "bin2bn_loop (b # bs) m (Suc k) w d = bin2bn_loop bs j (Suc k) w' d" by (simp add: j w'_def Let_def)
    show ?thesis unfolding e goal using Cons.IH [of k j w' d] Cons.prems bound by (simp add: j)
  next
    case True
    define d1 where "d1 = d[k := w']"
    have e: "bin2bn_loop (b # bs) m (Suc k) w d = bin2bn_loop bs 7 k 0 d1" by (simp add: True w'_def d1_def Let_def)
    have l: "length bs = 8 * k" using Cons.prems(1) True by simp
    have p: "(256 :: nat) ^ length bs = 2 ^ (64 * k)" unfolding l by (simp add: power_mult)
    have t: "take (Suc k) x = take k x @ [x ! k]" if "k < length x" for x :: "u64 list" using that by (rule take_Suc_conv_app_nth)
    show ?thesis
    proof (cases k)
      case 0
      then show ?thesis unfolding e goal using l Cons.prems(4) t [of d1] by (simp add: d1_def)
    next
      case (Suc j)
      define d' where "d' = bin2bn_loop bs 7 k 0 d1"
      have IH: "length d' = length d1" "bn_part k d' = be_val bs" "drop k d' = drop k d1"
        using Cons.IH [of j 7 0 d1] l Cons.prems(4) Suc by (simp_all add: d'_def d1_def)
      have k: "k < length d'" "k < length d1" using IH Cons.prems(4) by (simp_all add: d1_def)
      have "d' ! k # drop (Suc k) d' = d1 ! k # drop (Suc k) d1"
        using IH(3) k by (simp add: Cons_nth_drop_Suc)
      then have n: "d' ! k = w'" "drop (Suc k) d' = drop (Suc k) d" using Cons.prems(4) by (simp_all add: d1_def)
      have "bn_part (Suc k) d' = be_val bs + unat w' * 2 ^ (64 * k)"
        using t [OF k(1)] IH(2) k(1) n(1) by (simp add: bn_val_append)
      then show ?thesis unfolding e goal d'_def [symmetric] p using IH n by (simp add: d1_def)
    qed
  qed
qed simp

lemma bin2bn_spec:
  assumes al: "allocator malloc" and ok: "bn_ok r" and u: "BN_bin2bn malloc bs r = (res, r')"
  shows "case res of None \<Rightarrow> r' = r \<and> fst (bn_wexpand malloc ((length bs - 1) div 8 + 1) r) = None
    | Some _ \<Rightarrow> bn_ok r' \<and> bn_mag r' = be_val bs \<and> neg r' = (bs = [] \<and> neg r)"
proof (cases "bs = []")
  case True
  then show ?thesis using u ok by (auto simp: BN_bin2bn_def bn_ok_def bn_mag_def)
next
  case False
  define k m where "k = (length bs - 1) div 8" and "m = (length bs - 1) mod 8"
  have km: "length bs = 8 * k + m + 1" "m \<le> 7" using False by (simp_all add: k_def m_def)
  obtain e b where x: "bn_wexpand malloc (Suc k) r = (e, b)" by (cases "bn_wexpand malloc (Suc k) r")
  note w = wexpand_ok [OF al ok x]
  have r: "(res, r') = (case e of None \<Rightarrow> (None, b)
      | Some _ \<Rightarrow> (Some (), b\<lparr>bn_width := Suc k, neg := False, bn_d := bin2bn_loop bs m (Suc k) 0 (bn_d b)\<rparr>))"
    using u False x unfolding k_def m_def by (auto simp: BN_bin2bn_def Let_def andthen_def split: option.splits)
  show ?thesis
  proof (cases e)
    case None
    then show ?thesis using r w x by (simp add: k_def)
  next
    case (Some y)
    have "k < length (bn_d b)" using w Some by (simp add: bn_ok_def)
    then show ?thesis using bin2bn_loop_val [OF km, of 0 "bn_d b"] r w Some False
      by (simp add: bn_ok_def bn_mag_def [of "b\<lparr>bn_width := x, neg := y, bn_d := z\<rparr>" for x y z])
  qed
qed

lemma size_of_bytes_append: "size_of_bytes (xs @ ys) = size_of_bytes xs + 256 ^ length xs * size_of_bytes ys"
  by (induction xs) (simp_all add: algebra_simps)

lemma size_of_bytes_be: "size_of_bytes bs = be_val (rev bs)"
  by (induction bs) simp_all

lemma size_of_bytes_zeros [simp]: "size_of_bytes (replicate n 0) = 0"
  by (induction n) simp_all

lemma bytes_words_part: "8 * n \<le> length bs \<Longrightarrow> bn_part n (bytes_words bs) = size_of_bytes (take (8 * n) bs)"
proof (induction n)
  case (Suc n)
  let ?w = "take 8 (drop (8 * n) bs)"
  have n: "n < length bs div 8" using Suc.prems by simp
  then have nth: "bytes_words bs ! n = of_nat (size_of_bytes ?w)" by (simp add: bytes_words_def)
  have "size_of_bytes ?w < 256 ^ 8"
  proof -
    have "length (rev ?w) = 8" using Suc.prems by simp
    then show ?thesis using be_val_bound [of "rev ?w"] by (simp only: size_of_bytes_be)
  qed
  then have u: "unat (of_nat (size_of_bytes ?w) :: u64) = size_of_bytes ?w" unfolding unat_of_nat by simp
  have "take (8 * Suc n) bs = take (8 * n) bs @ ?w" using take_add [of "8 * n" 8 bs] by (simp add: add.commute)
  moreover have "take (Suc n) (bytes_words bs) = take n (bytes_words bs) @ [of_nat (size_of_bytes ?w)]"
    using n nth by (simp add: take_Suc_conv_app_nth)
  moreover have "(2 :: nat) ^ (64 * n) = 256 ^ (8 * n)" by (simp add: power_mult)
  ultimately show ?case using Suc n u by (simp add: bn_val_append size_of_bytes_append)
qed simp

lemma le2bn_spec:
  assumes al: "allocator malloc" and ok: "bn_ok r" and u: "BN_le2bn malloc bs r = (res, r')"
  shows "case res of None \<Rightarrow> r' = r \<and> fst (bn_wexpand malloc ((length bs - 1) div 8 + 1) r) = None
    | Some _ \<Rightarrow> bn_ok r' \<and> bn_mag r' = be_val (rev bs) \<and> neg r' = (bs \<noteq> [] \<and> neg r)"
proof (cases "bs = []")
  case True
  then show ?thesis using u ok by (auto simp: BN_le2bn_def bn_ok_def bn_mag_def)
next
  case False
  define k where "k = (length bs - 1) div 8"
  have l: "8 * k < length bs" "length bs \<le> 8 * Suc k"
    using False times_div_less_eq_dividend [of 8 "length bs - 1"] dividend_less_times_div [of 8 "length bs - 1"]
    by (cases bs; simp add: k_def)+
  obtain e b where x: "bn_wexpand malloc (Suc k) r = (e, b)" by (cases "bn_wexpand malloc (Suc k) r")
  note w = wexpand_ok [OF al ok x]
  define bytes where "bytes = splice 0 bs (words_bytes ((bn_d b)[k := 0]))"
  have r: "(res, r') = (case e of None \<Rightarrow> (None, b) | Some _ \<Rightarrow> (Some (), b\<lparr>bn_width := Suc k, bn_d := bytes_words bytes\<rparr>))"
    using u False x unfolding k_def bytes_def by (auto simp: BN_le2bn_def Let_def andthen_def split: option.splits)
  show ?thesis
  proof (cases e)
    case None
    then show ?thesis using r w x by (simp add: k_def)
  next
    case (Some y)
    have d: "Suc k \<le> length (bn_d b)" "length (bn_d b) = dmax b" using w Some by (simp_all add: bn_ok_def)
    have len: "length bytes = 8 * length (bn_d b)" using d l by (simp add: bytes_def)
    have "take (8 * Suc k) bytes = bs @ replicate (8 * Suc k - length bs) 0"
    proof (rule nth_equalityI)
      show "length (take (8 * Suc k) bytes) = length (bs @ replicate (8 * Suc k - length bs) 0)" using len d l by simp
      fix i
      assume "i < length (take (8 * Suc k) bytes)"
      then have i: "i < 8 * Suc k" by simp
      show "take (8 * Suc k) bytes ! i = (bs @ replicate (8 * Suc k - length bs) 0) ! i"
      proof (cases "i < length bs")
        case True
        then show ?thesis using i by (simp add: bytes_def splice_def nth_append)
      next
        case no: False
        then have q: "i div 8 = k" using i l by (intro div_nat_eqI) simp_all
        have "words_bytes ((bn_d b)[k := 0]) ! i = 0" using i d q words_bytes_nth [of i "(bn_d b)[k := 0]"] by simp
        then show ?thesis using no i d l by (simp add: bytes_def splice_def nth_append)
      qed
    qed
    then have "bn_part (Suc k) (bytes_words bytes) = be_val (rev bs)"
      using bytes_words_part [of "Suc k" bytes] len d by (simp add: size_of_bytes_append size_of_bytes_be [of bs])
    then show ?thesis using r w Some False d len
      by (simp add: bn_ok_def bn_mag_def [of "b\<lparr>bn_width := x, bn_d := z\<rparr>" for x z])
  qed
qed

lemma get_word_spec:
  assumes ok: "bn_ok a"
  shows "BN_get_u64 a = (if bn_mag a < 2 ^ 64 then Some (of_nat (bn_mag a)) else None) \<and>
    BN_get_word a = (if bn_mag a < 2 ^ 64 then of_nat (bn_mag a) else NOT 0)"
proof -
  define m where "m = bn_minimal_width a"
  have l: "bn_width a \<le> length (bn_d a)" using bn_okD [OF ok] by simp
  have m: "m \<le> bn_width a" "bn_part m (bn_d a) = bn_mag a" "m = 0 \<or> bn_d a ! (m - 1) \<noteq> 0"
    using minimal_width_val [OF l] by (simp_all add: m_def bn_minimal_width_def bn_mag_def)
  consider "m = 0" | "m = 1" | n where "m = Suc (Suc n)" by (metis One_nat_def not0_implies_Suc)
  then show ?thesis
  proof cases
    case 1
    then show ?thesis using m(2) by (simp add: BN_get_u64_def BN_get_word_def m_def [symmetric])
  next
    case 2
    then obtain w ws where d: "bn_d a = w # ws" using l m(1) by (cases "bn_d a") auto
    then have "bn_mag a = unat w" using m(2) 2 by simp
    then show ?thesis using 2 d u64_less [of w] by (simp add: BN_get_u64_def BN_get_word_def m_def [symmetric])
  next
    case 3
    have "(2 :: nat) ^ 64 \<le> 2 ^ (64 * (m - 1))" using 3 by (intro power_increasing) simp_all
    also have "\<dots> \<le> bn_mag a" using top_word_bound [of m "bn_d a"] m l 3 by simp
    finally show ?thesis using 3 by (simp add: BN_get_u64_def BN_get_word_def m_def [symmetric])
  qed
qed

section \<open>What the conversions promise\<close>

text \<open>Reading \<open>bs\<close> into \<open>r\<close> gives the integer \<open>v\<close>, or fails because the array cannot grow to the bytes.\<close>

definition reads :: "(nat \<Rightarrow> byte list option) \<Rightarrow> BIGNUM \<Rightarrow> (byte list \<Rightarrow> (BIGNUM, unit) op) \<Rightarrow> byte list \<Rightarrow> int \<Rightarrow> bool" where
  "reads malloc r f bs v \<longleftrightarrow> (case fst (f bs r) of
      None \<Rightarrow> snd (f bs r) = r \<and> fst (bn_wexpand malloc ((length bs - 1) div 8 + 1) r) = None
    | Some _ \<Rightarrow> bn_ok (snd (f bs r)) \<and> bn_int (snd (f bs r)) = v)"

lemma reads_be: "allocator malloc \<Longrightarrow> bn_ok r \<Longrightarrow> reads malloc r (BN_bin2bn malloc) bs (int (be_val bs))"
  using bin2bn_spec [OF _ _ prod.collapse [symmetric], of malloc r bs] unfolding reads_def
  by (auto simp: bn_int_def be_val_def split: option.splits)

lemma reads_le: "allocator malloc \<Longrightarrow> bn_ok r \<Longrightarrow>
    reads malloc r (BN_le2bn malloc) bs (if neg r then - int (be_val (rev bs)) else int (be_val (rev bs)))"
  using le2bn_spec [OF _ _ prod.collapse [symmetric], of malloc r bs] unfolding reads_def
  by (auto simp: bn_int_def be_val_def split: option.splits)

lemma be_val_minimal: "be_val (be_bytes (byte_count n) n) = n"
proof (cases "byte_count n")
  case 0
  then show ?thesis by (cases "n = 0") (simp_all add: byte_count.simps [of n])
next
  case (Suc k)
  then show ?thesis using byte_count_iff [of "Suc k" n] by (simp add: be_val_be_bytes del: be_bytes.simps)
qed

text \<open>C26: Writing a number as bytes gives its digits and reading them gives the number back. \<open>BN_bn2bin\<close> writes
  the minimal big-endian bytes; \<open>BN_bn2bin_padded\<close> and \<open>BN_bn2le_padded\<close> write exactly \<open>len\<close> bytes and
  fail precisely when the number does not fit in them; \<open>BN_bin2bn\<close> reads them back as a non-negative number
  into any number, \<open>BN_le2bn\<close> with the sign of the number it reads into, which it does not write;
  \<open>BN_get_u64\<close> succeeds exactly below \<open>2^64\<close>.\<close>

theorem bn_bytes_roundtrip:
  assumes "allocator malloc" "bn_ok a" "bn_ok r"
  shows "BN_bn2bin a = be_bytes (byte_count (bn_mag a)) (bn_mag a) \<and>
    BN_bn2bin_padded len a = (if bn_mag a < 256 ^ len then Some (be_bytes len (bn_mag a)) else None) \<and>
    BN_bn2le_padded len a = (if bn_mag a < 256 ^ len then Some (rev (be_bytes len (bn_mag a))) else None) \<and>
    BN_get_u64 a = (if bn_mag a < 2 ^ 64 then Some (of_nat (bn_mag a)) else None) \<and>
    reads malloc r (BN_bin2bn malloc) (BN_bn2bin a) (int (bn_mag a)) \<and>
    pred_option (\<lambda>bs. reads malloc r (BN_bin2bn malloc) bs (int (bn_mag a))) (BN_bn2bin_padded len a) \<and>
    pred_option (\<lambda>bs. reads malloc r (BN_le2bn malloc) bs (if neg r then - int (bn_mag a) else int (bn_mag a))) (BN_bn2le_padded len a)"
  using bn2bin_spec [OF assms(2)] bn2bin_padded_spec [OF assms(2), of len] bn2le_padded_spec [OF assms(2), of len]
    get_word_spec [OF assms(2)] reads_be [OF assms(1,3), of "be_bytes (byte_count (bn_mag a)) (bn_mag a)", unfolded be_val_minimal]
    reads_be [OF assms(1,3), of "be_bytes len (bn_mag a)"] reads_le [OF assms(1,3), of "rev (be_bytes len (bn_mag a))"]
  by (auto simp: be_val_be_bytes)

theorem bn_bytes_roundtrip_witness:
  "let a = \<lparr>bn_d = [0x0102, 0], bn_width = 2, dmax = 2, neg = False, bn_static = False\<rparr>;
       r = \<lparr>bn_d = [7, 0], bn_width = 1, dmax = 2, neg = True, bn_static = False\<rparr>
   in BN_bn2bin_padded 1 a = None \<and> BN_bn2bin_padded 3 a = Some [0, 1, 2] \<and> BN_bn2bin a = [1, 2] \<and>
      bn_int (snd (BN_bin2bn zero_alloc [1, 2] r)) = 258 \<and> bn_int (snd (BN_bin2bn zero_alloc [0, 1, 2] r)) = 258 \<and>
      bn_int (snd (BN_le2bn zero_alloc [2, 1, 0] r)) = - 258"
proof -
  let ?a = "\<lparr>bn_d = [0x0102, 0], bn_width = 2, dmax = 2, neg = False, bn_static = False\<rparr>"
  let ?r = "\<lparr>bn_d = [7, 0], bn_width = 1, dmax = 2, neg = True, bn_static = False\<rparr>"
  have m: "bn_mag ?a = 258" by (simp add: bn_mag_def)
  have s: "fst (BN_bin2bn zero_alloc [1, 2] ?r) = Some ()" "fst (BN_bin2bn zero_alloc [0, 1, 2] ?r) = Some ()"
    "fst (BN_le2bn zero_alloc [2, 1, 0] ?r) = Some ()"
    by (simp_all add: BN_bin2bn_def BN_le2bn_def bn_wexpand_def andthen_def Let_def)
  have c: "byte_count 258 = 2" by (simp add: byte_count.simps)
  have ok: "bn_ok ?a" "bn_ok ?r" by (simp_all add: bn_ok_def INT_MAX_def)
  have n: "\<not> neg ?a" "neg ?r" by simp_all
  have E2: "(2 :: nat) = Suc (Suc 0)" and E3: "(3 :: nat) = Suc (Suc (Suc 0))" by simp_all
  have q: "be_bytes (Suc (Suc 0)) 258 = [1, 2]" "be_bytes (Suc (Suc (Suc 0))) 258 = [0, 1, 2]" by simp_all
  have b: "be_bytes 2 258 = [1, 2]" "be_bytes 3 258 = [0, 1, 2]" "rev [0, 1, 2 :: byte] = [2, 1, 0]" using q E2 E3 by (metis, metis, simp)
  have p: "(258 :: nat) < 256 ^ 3" "\<not> (258 :: nat) < 256 ^ 1" by simp_all
  have T: "BN_bn2bin_padded 1 ?a = None"
    using bn_bytes_roundtrip [OF allocator_zero_alloc ok, of 1] unfolding m if_not_P [OF p(2)] by (elim conjE)
  note B = bn_bytes_roundtrip [OF allocator_zero_alloc ok, of 3, unfolded m c if_P [OF p(1)] b if_P [OF n(2)]]
  have W: "BN_bn2bin ?a = [1, 2]" "BN_bn2bin_padded 3 ?a = Some [0, 1, 2]" "BN_bn2le_padded 3 ?a = Some [2, 1, 0]"
    using B by blast+
  note R = B [unfolded W option.pred_inject reads_def s option.case]
  show ?thesis unfolding Let_def using T W(1,2) R by simp
qed

lemma le2bn_sign: "allocator malloc \<Longrightarrow> bn_ok r \<Longrightarrow> fst (BN_le2bn malloc bs r) = Some () \<Longrightarrow>
    bn_mag (snd (BN_le2bn malloc bs r)) = be_val (rev bs) \<and> neg (snd (BN_le2bn malloc bs r)) = (bs \<noteq> [] \<and> neg r)"
  using le2bn_spec [OF _ _ prod.collapse [symmetric], of malloc r bs] by simp

lemma uadd_sign: "allocator malloc \<Longrightarrow> bn_ok a \<Longrightarrow> bn_ok b \<Longrightarrow> bn_ok r \<Longrightarrow> fst (BN_uadd malloc a b r) = Some () \<Longrightarrow>
    bn_mag (snd (BN_uadd malloc a b r)) = bn_mag a + bn_mag b \<and>
    neg (snd (BN_uadd malloc a b r)) = (neg r \<and> bn_mag a + bn_mag b \<noteq> 0)"
  using uadd_min_spec [OF _ _ _ _ prod.collapse [symmetric], of malloc a b r] by simp

text \<open>Three functions leave the sign of the number they write: into a number that was negative, \<open>BN_le2bn\<close>
  reads any non-empty input as a negative number, \<open>BN_uadd\<close> gives the negated sum of the magnitudes, and
  \<open>BN_bin2bn\<close> turns the empty input into a negative zero.\<close>

theorem bn_stale_sign:
  assumes "allocator malloc" "bn_ok a" "bn_ok b" "bn_ok r" "neg r"
  shows "(fst (BN_le2bn malloc bs r) = Some () \<longrightarrow> bn_int (snd (BN_le2bn malloc bs r)) = - int (be_val (rev bs))) \<and>
    (fst (BN_uadd malloc a b r) = Some () \<longrightarrow> bn_int (snd (BN_uadd malloc a b r)) = - int (bn_mag a + bn_mag b)) \<and>
    BN_bin2bn malloc [] r = (Some (), r\<lparr>bn_width := 0\<rparr>) \<and> \<not> bn_canonical (r\<lparr>bn_width := 0\<rparr>)"
  using le2bn_sign [OF assms(1,4)] uadd_sign [OF assms(1,2,3,4)] assms(5)
  by (auto simp: bn_int_def BN_bin2bn_def bn_canonical_def bn_mag_def [of "r\<lparr>bn_width := 0\<rparr>"])

theorem bn_stale_sign_witness:
  "let r = \<lparr>bn_d = [7, 0], bn_width = 1, dmax = 2, neg = True, bn_static = False\<rparr>
   in bn_int (snd (BN_le2bn zero_alloc [5] r)) = - 5 \<and> bn_int (snd (BN_uadd zero_alloc BN_value_one BN_value_one r)) = - 2"
proof -
  let ?r = "\<lparr>bn_d = [7, 0], bn_width = 1, dmax = 2, neg = True, bn_static = False\<rparr>"
  have s: "fst (BN_le2bn zero_alloc [5] ?r) = Some ()" "fst (BN_uadd zero_alloc BN_value_one BN_value_one ?r) = Some ()"
    by (simp_all add: BN_le2bn_def BN_uadd_def bn_uadd_consttime_def bn_wexpand_def andthen_def BN_value_one_def Let_def split: prod.split)
  have "bn_mag BN_value_one = 1" by (simp add: bn_mag_def BN_value_one_def)
  then show ?thesis using bn_stale_sign [of zero_alloc BN_value_one BN_value_one ?r "[5]"] s
    by (simp add: bn_ok_def BN_value_one_def INT_MAX_def be_val_def)
qed

end
