(* ===== verification/BnCtx.thy ===== *)
theory BnCtx
  imports BnBytes
begin

text \<open>
  The stack of temporary numbers (\<open>crypto/fipsmodule/bn/ctx.c\<close>). A \<open>BN_CTX\<close> owns bundles of 16 numbers
  in a linked list; \<open>vals\<close> is the concatenation of the bundles in list order and the pointer to a number
  is its position in \<open>vals\<close>. \<open>current\<close> is the position of the current bundle, \<open>-1\<close> for the null pointer.
  \<open>indexes\<close> is the array of frame starts, of which the first \<open>depth\<close> entries are in use.
\<close>

section \<open>The operations\<close>

record BN_POOL =
  vals :: "BIGNUM list"
  current :: int
  pool_used :: nat
  pool_size :: nat

record BN_STACK =
  indexes :: "nat list"
  depth :: nat
  stack_size :: nat

record BN_CTX =
  pool :: BN_POOL
  frames :: BN_STACK
  ctx_used :: nat
  err_stack :: nat
  too_many :: bool

definition BN_CTX_POOL_SIZE :: nat where
  "BN_CTX_POOL_SIZE = 16"

definition BN_CTX_START_FRAMES :: nat where
  "BN_CTX_START_FRAMES = 32"

definition BN_CTX_init :: BN_CTX where
  "BN_CTX_init = \<lparr>pool = \<lparr>vals = [], current = - 1, pool_used = 0, pool_size = 0\<rparr>,
     frames = \<lparr>indexes = [], depth = 0, stack_size = 0\<rparr>, ctx_used = 0, err_stack = 0, too_many = False\<rparr>"

definition BN_CTX_new :: "(nat \<Rightarrow> byte list option) \<Rightarrow> BN_CTX option" where
  "BN_CTX_new malloc = (case OPENSSL_malloc malloc 64 of None \<Rightarrow> None | Some _ \<Rightarrow> Some BN_CTX_init)"

text \<open>The fresh array holds whatever the block holds; the size is an \<open>unsigned int\<close>.\<close>

definition bytes_uints :: "byte list \<Rightarrow> nat list" where
  "bytes_uints bs = map (\<lambda>i. size_of_bytes (take 4 (drop (4 * i) bs))) [0 ..< length bs div 4]"

definition BN_STACK_push :: "(nat \<Rightarrow> byte list option) \<Rightarrow> nat \<Rightarrow> (BN_STACK, unit) op" where
  "BN_STACK_push malloc idx st =
     andthen
       (if depth st = stack_size st
        then (let newsize = (if stack_size st \<noteq> 0 then stack_size st * 3 mod 2 ^ 32 div 2 else BN_CTX_START_FRAMES)
              in case OPENSSL_malloc malloc (newsize * 4) of None \<Rightarrow> fail
                 | Some a \<Rightarrow> (\<lambda>st. (Some (), st\<lparr>indexes := splice 0 (take (depth st) (indexes st)) (bytes_uints (payload a)),
                     stack_size := newsize\<rparr>)))
        else ret ())
       (\<lambda>_ st. (Some (), st\<lparr>indexes := (indexes st)[depth st := idx], depth := depth st + 1\<rparr>)) st"

text \<open>Popping needs an open frame; the code does not check it.\<close>

definition BN_STACK_pop :: "BN_STACK \<Rightarrow> nat \<times> BN_STACK" where
  "BN_STACK_pop st = (indexes st ! (depth st - 1), st\<lparr>depth := depth st - 1\<rparr>)"

definition BN_POOL_get :: "(nat \<Rightarrow> byte list option) \<Rightarrow> (BN_POOL, nat) op" where
  "BN_POOL_get malloc p =
     (if pool_used p = pool_size p
      then (case OPENSSL_malloc malloc (16 * 24 + 16) of None \<Rightarrow> (None, p)
            | Some _ \<Rightarrow>
                (Some (length (vals p)),
                 p\<lparr>vals := vals p @ replicate BN_CTX_POOL_SIZE BN_init,
                   current := int (length (vals p) div BN_CTX_POOL_SIZE),
                   pool_size := pool_size p + BN_CTX_POOL_SIZE, pool_used := pool_used p + 1\<rparr>))
      else
        (let cur = (if pool_used p = 0 then 0
                    else if pool_used p mod BN_CTX_POOL_SIZE = 0 then current p + 1 else current p)
         in (Some (nat cur * BN_CTX_POOL_SIZE + pool_used p mod BN_CTX_POOL_SIZE),
             p\<lparr>current := cur, pool_used := pool_used p + 1\<rparr>)))"

primrec release_loop :: "nat \<Rightarrow> nat \<Rightarrow> int \<Rightarrow> int" where
  "release_loop 0 offset cur = cur"
| "release_loop (Suc n) offset cur =
     (if offset = 0 then release_loop n (BN_CTX_POOL_SIZE - 1) (cur - 1) else release_loop n (offset - 1) cur)"

definition BN_POOL_release :: "nat \<Rightarrow> BN_POOL \<Rightarrow> BN_POOL" where
  "BN_POOL_release n p =
     (let offset = (pool_used p - 1) mod BN_CTX_POOL_SIZE
      in p\<lparr>pool_used := pool_used p - n, current := release_loop n offset (current p)\<rparr>)"

definition BN_CTX_start :: "(nat \<Rightarrow> byte list option) \<Rightarrow> BN_CTX \<Rightarrow> BN_CTX" where
  "BN_CTX_start malloc ctx =
     (if err_stack ctx \<noteq> 0 \<or> too_many ctx then ctx\<lparr>err_stack := err_stack ctx + 1\<rparr>
      else (case BN_STACK_push malloc (ctx_used ctx) (frames ctx) of
              (None, st) \<Rightarrow> ctx\<lparr>frames := st, err_stack := err_stack ctx + 1\<rparr>
            | (Some _, st) \<Rightarrow> ctx\<lparr>frames := st\<rparr>))"

definition BN_CTX_get :: "(nat \<Rightarrow> byte list option) \<Rightarrow> (BN_CTX, nat) op" where
  "BN_CTX_get malloc ctx =
     (if err_stack ctx \<noteq> 0 \<or> too_many ctx then (None, ctx)
      else (case BN_POOL_get malloc (pool ctx) of
              (None, p) \<Rightarrow> (None, ctx\<lparr>pool := p, too_many := True\<rparr>)
            | (Some k, p) \<Rightarrow> (Some k, ctx\<lparr>pool := p\<lparr>vals := (vals p)[k := BN_zero (vals p ! k)]\<rparr>, ctx_used := ctx_used ctx + 1\<rparr>)))"

definition BN_CTX_end :: "BN_CTX \<Rightarrow> BN_CTX" where
  "BN_CTX_end ctx =
     (if err_stack ctx \<noteq> 0 then ctx\<lparr>err_stack := err_stack ctx - 1\<rparr>
      else (case BN_STACK_pop (frames ctx) of (fp, st) \<Rightarrow>
              ctx\<lparr>frames := st,
                pool := (if fp < ctx_used ctx then BN_POOL_release (ctx_used ctx - fp) (pool ctx) else pool ctx),
                ctx_used := fp, too_many := False\<rparr>))"

text \<open>The number behind a pointer into the pool.\<close>

definition ctx_val :: "BN_CTX \<Rightarrow> nat \<Rightarrow> BIGNUM" where
  "ctx_val ctx k = vals (pool ctx) ! k"

definition ctx_put :: "nat \<Rightarrow> BIGNUM \<Rightarrow> BN_CTX \<Rightarrow> BN_CTX" where
  "ctx_put k bn ctx = ctx\<lparr>pool := (pool ctx)\<lparr>vals := (vals (pool ctx))[k := bn]\<rparr>\<rparr>"

section \<open>The invariant\<close>

text \<open>The list of open frames, and what a context guarantees. \<open>n\<close> bounds how often a frame has been opened;
  below \<open>2^30\<close> the size of the index array cannot wrap.\<close>

definition ctx_frames :: "BN_CTX \<Rightarrow> nat list" where
  "ctx_frames ctx = take (depth (frames ctx)) (indexes (frames ctx))"

definition bn_dynamic :: "BIGNUM \<Rightarrow> bool" where
  "bn_dynamic bn \<longleftrightarrow> bn_ok bn \<and> \<not> bn_static bn"

definition pool_ok :: "BN_POOL \<Rightarrow> bool" where
  "pool_ok p \<longleftrightarrow> length (vals p) = pool_size p \<and> 16 dvd pool_size p \<and> pool_used p \<le> pool_size p \<and>
     list_all bn_dynamic (vals p) \<and> (0 < pool_used p \<longrightarrow> current p = int ((pool_used p - 1) div 16))"

definition stack_ok :: "nat \<Rightarrow> BN_STACK \<Rightarrow> bool" where
  "stack_ok n st \<longleftrightarrow> length (indexes st) = stack_size st \<and> depth st \<le> stack_size st \<and> depth st \<le> n \<and>
     stack_size st \<le> max 32 (n * 3 div 2) \<and> (stack_size st = 0 \<or> 32 \<le> stack_size st)"

definition ctx_ok :: "nat \<Rightarrow> BN_CTX \<Rightarrow> bool" where
  "ctx_ok n ctx \<longleftrightarrow> pool_ok (pool ctx) \<and> stack_ok n (frames ctx) \<and> pool_used (pool ctx) = ctx_used ctx \<and>
     sorted (ctx_frames ctx @ [ctx_used ctx])"

section \<open>What the operations keep\<close>

lemma BN_init_ok [simp]: "bn_ok BN_init" "bn_dynamic BN_init"
  by (simp_all add: BN_init_def bn_ok_def bn_dynamic_def)

lemma BN_zero_ok [simp]: "bn_ok bn \<Longrightarrow> bn_ok (BN_zero bn)" "bn_dynamic bn \<Longrightarrow> bn_dynamic (BN_zero bn)"
  by (simp_all add: BN_zero_def bn_ok_def bn_dynamic_def)

lemma bn_dynamicD: "bn_dynamic bn \<Longrightarrow> bn_ok bn" "bn_dynamic bn \<Longrightarrow> \<not> bn_static bn"
  by (simp_all add: bn_dynamic_def)

lemma push_spec:
  assumes al: "allocator malloc" and ok: "stack_ok n st" and n: "depth st < n" "n < 2 ^ 30"
    and u: "BN_STACK_push malloc idx st = (res, st')"
  shows "case res of None \<Rightarrow> st' = st
    | Some _ \<Rightarrow> stack_ok n st' \<and> depth st' = depth st + 1 \<and> take (depth st') (indexes st') = take (depth st) (indexes st) @ [idx]"
proof (cases "depth st = stack_size st")
  case False
  then have "res = Some ()" "st' = st\<lparr>indexes := (indexes st)[depth st := idx], depth := depth st + 1\<rparr>"
    using u by (simp_all add: BN_STACK_push_def andthen_def ret_def)
  then show ?thesis using ok n False by (auto simp: stack_ok_def take_Suc_conv_app_nth)
next
  case True
  define newsize where "newsize = (if stack_size st \<noteq> 0 then stack_size st * 3 mod 2 ^ 32 div 2 else BN_CTX_START_FRAMES)"
  have s: "stack_size st < n" using True n by simp
  have ns: "newsize = (if stack_size st \<noteq> 0 then stack_size st * 3 div 2 else 32)"
    using s n(2) by (simp add: newsize_def BN_CTX_START_FRAMES_def)
  have size: "stack_size st < newsize" "newsize \<le> max 32 (n * 3 div 2)" "32 \<le> newsize"
    using ok s by (auto simp: ns stack_ok_def max_def)
  have "newsize < 2 ^ 31"
  proof -
    have "n * 3 div 2 < 2 ^ 31" using n(2) by simp
    then show ?thesis using size(2) by (simp add: max_def split: if_splits)
  qed
  show ?thesis
  proof (cases "OPENSSL_malloc malloc (newsize * 4)")
    case None
    then show ?thesis using u True by (auto simp: BN_STACK_push_def andthen_def fail_def newsize_def Let_def)
  next
    case (Some a)
    have "length (payload a) = newsize * 4" using malloc_block [OF al _ Some] \<open>newsize < 2 ^ 31\<close> by simp
    then have l: "length (bytes_uints (payload a)) = newsize" by (simp add: bytes_uints_def)
    define ixs where "ixs = splice 0 (take (depth st) (indexes st)) (bytes_uints (payload a))"
    have r: "res = Some ()" "st' = st\<lparr>indexes := ixs[depth st := idx], stack_size := newsize, depth := depth st + 1\<rparr>"
      using u True Some by (auto simp: BN_STACK_push_def andthen_def newsize_def Let_def ixs_def)
    have d: "depth st \<le> length (indexes st)" using ok by (simp add: stack_ok_def)
    have "length ixs = newsize" "take (depth st) ixs = take (depth st) (indexes st)"
      using l d size True by (simp_all add: ixs_def splice_def)
    then show ?thesis using r ok n size True by (auto simp: stack_ok_def take_Suc_conv_app_nth)
  qed
qed

lemma pool_get_spec:
  assumes ok: "pool_ok p" and u: "BN_POOL_get malloc p = (res, p')"
  shows "case res of None \<Rightarrow> p' = p
    | Some k \<Rightarrow> pool_ok p' \<and> k = pool_used p \<and> k < length (vals p') \<and> pool_used p' = pool_used p + 1 \<and>
        take (pool_used p) (vals p') = take (pool_used p) (vals p)"
proof (cases "pool_used p = pool_size p")
  case True
  show ?thesis
  proof (cases "OPENSSL_malloc malloc (16 * 24 + 16)")
    case None
    then show ?thesis using u True by (simp add: BN_POOL_get_def)
  next
    case (Some a)
    have r: "res = Some (length (vals p))" "p' = p\<lparr>vals := vals p @ replicate 16 BN_init, current := int (length (vals p) div 16),
        pool_size := pool_size p + 16, pool_used := pool_used p + 1\<rparr>"
      using u True Some by (simp_all add: BN_POOL_get_def BN_CTX_POOL_SIZE_def)
    show ?thesis using ok True by (auto simp: r pool_ok_def list_all_iff)
  qed
next
  case False
  define cur where "cur = (if pool_used p = 0 then 0 else if pool_used p mod 16 = 0 then current p + 1 else current p)"
  have "cur = int (pool_used p div 16)"
  proof (cases "pool_used p")
    case (Suc v)
    have "Suc v div 16 = (if Suc v mod 16 = 0 then Suc (v div 16) else v div 16)" by (rule div_Suc)
    then show ?thesis using ok Suc by (simp add: cur_def pool_ok_def)
  qed (simp add: cur_def)
  moreover have "res = Some (nat cur * 16 + pool_used p mod 16)" "p' = p\<lparr>current := cur, pool_used := pool_used p + 1\<rparr>"
    using u unfolding BN_POOL_get_def if_not_P [OF False] Let_def BN_CTX_POOL_SIZE_def cur_def by simp_all
  ultimately have r: "res = Some (pool_used p)" "p' = p\<lparr>current := int (pool_used p div 16), pool_used := pool_used p + 1\<rparr>"
    by simp_all
  show ?thesis using ok False by (auto simp: r pool_ok_def)
qed

lemma release_loop_val:
  "n \<le> x \<Longrightarrow> release_loop n (x mod 16) (int (x div 16)) = int ((x - n) div 16)"
proof (induction n arbitrary: x)
  case (Suc n)
  then obtain y where y: "x = Suc y" by (cases x) auto
  have q: "Suc y div 16 = (if Suc y mod 16 = 0 then Suc (y div 16) else y div 16)" by (rule div_Suc)
  have m: "Suc y mod 16 = (if Suc (y mod 16) = 16 then 0 else Suc (y mod 16))" by (rule mod_Suc)
  have IH: "release_loop n (y mod 16) (int (y div 16)) = int ((y - n) div 16)" using Suc y by simp
  show ?case
  proof (cases "Suc (y mod 16) = 16")
    case True
    then have "release_loop (Suc n) (x mod 16) (int (x div 16)) = release_loop n 15 (int (y div 16))"
      using q m by (simp add: y BN_CTX_POOL_SIZE_def)
    moreover have "y mod 16 = 15" using True by simp
    ultimately show ?thesis using IH by (simp add: y)
  next
    case False
    then have "release_loop (Suc n) (x mod 16) (int (x div 16)) = release_loop n (y mod 16) (int (y div 16))"
      using q m by (simp add: y)
    then show ?thesis using IH by (simp add: y)
  qed
qed simp

lemma release_spec:
  assumes ok: "pool_ok p" and n: "0 < n" "n \<le> pool_used p"
  shows "pool_ok (BN_POOL_release n p) \<and> pool_used (BN_POOL_release n p) = pool_used p - n \<and> vals (BN_POOL_release n p) = vals p"
proof -
  have c: "current p = int ((pool_used p - 1) div 16)" using ok n by (simp add: pool_ok_def)
  have "release_loop n ((pool_used p - 1) mod 16) (current p) = int ((pool_used p - n - 1) div 16)" if "n < pool_used p"
    using release_loop_val [of n "pool_used p - 1"] that unfolding c by (simp add: diff_commute)
  then show ?thesis using ok n by (auto simp: pool_ok_def BN_POOL_release_def Let_def BN_CTX_POOL_SIZE_def)
qed

text \<open>The state a frame must restore.\<close>

definition ctx_shape :: "BN_CTX \<Rightarrow> nat list \<times> nat \<times> nat \<times> bool" where
  "ctx_shape ctx = (ctx_frames ctx, ctx_used ctx, err_stack ctx, too_many ctx)"

lemma length_ctx_frames: "ctx_ok n ctx \<Longrightarrow> length (ctx_frames ctx) = depth (frames ctx)"
  by (simp add: ctx_ok_def stack_ok_def ctx_frames_def)

lemma get_spec:
  assumes ok: "ctx_ok n ctx" and u: "BN_CTX_get malloc ctx = (res, ctx')"
  shows "ctx_ok n ctx' \<and> ctx_frames ctx' = ctx_frames ctx \<and> err_stack ctx' = err_stack ctx \<and>
    (case res of None \<Rightarrow> ctx_used ctx' = ctx_used ctx \<and> vals (pool ctx') = vals (pool ctx) \<and> (err_stack ctx \<noteq> 0 \<or> too_many ctx')
     | Some k \<Rightarrow> k = ctx_used ctx \<and> ctx_used ctx' = ctx_used ctx + 1 \<and> k < length (vals (pool ctx')) \<and>
         too_many ctx' = too_many ctx \<and> take (ctx_used ctx) (vals (pool ctx')) = take (ctx_used ctx) (vals (pool ctx)) \<and>
         bn_width (ctx_val ctx' k) = 0 \<and> \<not> neg (ctx_val ctx' k) \<and> bn_dynamic (ctx_val ctx' k))"
proof (cases "err_stack ctx \<noteq> 0 \<or> too_many ctx")
  case True
  then show ?thesis using u ok by (auto simp: BN_CTX_get_def)
next
  case False
  obtain e p where g: "BN_POOL_get malloc (pool ctx) = (e, p)" by (cases "BN_POOL_get malloc (pool ctx)")
  have pok: "pool_ok (pool ctx)" using ok by (simp add: ctx_ok_def)
  note P = pool_get_spec [OF pok g]
  show ?thesis
  proof (cases e)
    case None
    then have "res = None" "ctx' = ctx\<lparr>pool := p, too_many := True\<rparr>" using u False g by (auto simp: BN_CTX_get_def)
    then show ?thesis using P None ok by (auto simp: ctx_ok_def ctx_frames_def)
  next
    case (Some k)
    have r: "res = Some k" "ctx' = ctx\<lparr>pool := p\<lparr>vals := (vals p)[k := BN_zero (vals p ! k)]\<rparr>, ctx_used := ctx_used ctx + 1\<rparr>"
      using u False g Some by (auto simp: BN_CTX_get_def)
    have K: "pool_ok p" "k = ctx_used ctx" "k < length (vals p)" "pool_used p = ctx_used ctx + 1"
      "take k (vals p) = take k (vals (pool ctx))"
      using P Some ok by (simp_all add: ctx_ok_def)
    have v: "bn_dynamic (vals p ! k)" using K(1,3) by (simp add: pool_ok_def list_all_length)
    have "pool_ok (p\<lparr>vals := (vals p)[k := BN_zero (vals p ! k)]\<rparr>)"
      using K(1,3) v by (auto simp: pool_ok_def list_all_length nth_list_update)
    then show ?thesis using K ok v r
      by (auto simp: ctx_ok_def ctx_frames_def ctx_val_def BN_zero_def bn_dynamic_def bn_ok_def sorted_append)
  qed
qed

lemma put_spec:
  assumes "ctx_ok n ctx" "bn_dynamic bn"
  shows "ctx_ok n (ctx_put k bn ctx) \<and> ctx_shape (ctx_put k bn ctx) = ctx_shape ctx \<and>
    (k < length (vals (pool ctx)) \<longrightarrow> ctx_val (ctx_put k bn ctx) k = bn) \<and>
    (\<forall>j. j \<noteq> k \<longrightarrow> ctx_val (ctx_put k bn ctx) j = ctx_val ctx j)"
  using assms set_update_subset_insert [of "vals (pool ctx)" k bn]
  by (auto simp: ctx_put_def ctx_ok_def ctx_shape_def ctx_frames_def pool_ok_def ctx_val_def list_all_iff)

text \<open>What holds inside a frame: either it was opened, or \<open>err_stack\<close> counts it.\<close>

lemma start_spec:
  assumes al: "allocator malloc" and ok: "ctx_ok n ctx" and n: "depth (frames ctx) < n" "n < 2 ^ 30"
  defines "ctx' \<equiv> BN_CTX_start malloc ctx"
  shows "ctx_ok n ctx' \<and> ctx_used ctx' = ctx_used ctx \<and> too_many ctx' = too_many ctx \<and> pool ctx' = pool ctx \<and>
    (ctx_frames ctx' = ctx_frames ctx \<and> err_stack ctx' = err_stack ctx + 1 \<or>
     ctx_frames ctx' = ctx_frames ctx @ [ctx_used ctx] \<and> err_stack ctx' = 0 \<and> err_stack ctx = 0 \<and> \<not> too_many ctx)"
proof (cases "err_stack ctx \<noteq> 0 \<or> too_many ctx")
  case True
  then show ?thesis using ok by (auto simp: ctx'_def BN_CTX_start_def ctx_ok_def ctx_frames_def)
next
  case False
  obtain e st where p: "BN_STACK_push malloc (ctx_used ctx) (frames ctx) = (e, st)"
    by (cases "BN_STACK_push malloc (ctx_used ctx) (frames ctx)")
  have sok: "stack_ok n (frames ctx)" using ok by (simp add: ctx_ok_def)
  note P = push_spec [OF al sok n p]
  show ?thesis
  proof (cases e)
    case None
    then have "ctx' = ctx\<lparr>frames := st, err_stack := err_stack ctx + 1\<rparr>" using False p by (simp add: ctx'_def BN_CTX_start_def)
    then show ?thesis using P None ok by (simp add: ctx_ok_def ctx_frames_def)
  next
    case (Some y)
    then have c: "ctx' = ctx\<lparr>frames := st\<rparr>" using False p by (simp add: ctx'_def BN_CTX_start_def)
    have f: "ctx_frames ctx' = ctx_frames ctx @ [ctx_used ctx]" using P Some c by (auto simp: ctx_frames_def)
    have "sorted (ctx_frames ctx @ [ctx_used ctx] @ [ctx_used ctx])" using ok by (auto simp: ctx_ok_def sorted_append)
    then show ?thesis using P Some c f ok False by (simp add: ctx_ok_def)
  qed
qed

lemma end_spec:
  assumes ok: "ctx_ok n ctx" and open_frame: "err_stack ctx = 0 \<Longrightarrow> ctx_frames ctx = fs @ [fp]"
  defines "ctx' \<equiv> BN_CTX_end ctx"
  shows "ctx_ok n ctx' \<and> vals (pool ctx') = vals (pool ctx) \<and>
    (if err_stack ctx = 0 then ctx_shape ctx' = (fs, fp, 0, False)
     else ctx_shape ctx' = (ctx_frames ctx, ctx_used ctx, err_stack ctx - 1, too_many ctx))"
proof (cases "err_stack ctx = 0")
  case False
  then show ?thesis using ok by (simp add: ctx'_def BN_CTX_end_def ctx_shape_def ctx_ok_def ctx_frames_def)
next
  case True
  define st where "st = (frames ctx)\<lparr>depth := depth (frames ctx) - 1\<rparr>"
  have f: "ctx_frames ctx = fs @ [fp]" using open_frame True by simp
  have d: "depth (frames ctx) = Suc (length fs)" "depth (frames ctx) \<le> length (indexes (frames ctx))"
    using length_ctx_frames [OF ok] ok f by (simp_all add: ctx_ok_def stack_ok_def)
  have nth: "indexes (frames ctx) ! (depth (frames ctx) - 1) = fp"
    using arg_cong [OF f, of "\<lambda>l. l ! length fs"] d by (simp add: ctx_frames_def)
  have t: "take (length fs) (indexes (frames ctx)) = fs"
    using arg_cong [OF f, of "take (length fs)"] d by (simp add: ctx_frames_def)
  have c: "ctx' = ctx\<lparr>frames := st,
      pool := (if fp < ctx_used ctx then BN_POOL_release (ctx_used ctx - fp) (pool ctx) else pool ctx),
      ctx_used := fp, too_many := False\<rparr>"
    using True nth by (simp add: ctx'_def BN_CTX_end_def BN_STACK_pop_def st_def)
  have le: "fp \<le> ctx_used ctx" and srt: "sorted (fs @ [fp])" using ok f by (auto simp: ctx_ok_def sorted_append)
  have pok: "pool_ok (pool ctx)" "pool_used (pool ctx) = ctx_used ctx" using ok by (simp_all add: ctx_ok_def)
  have "pool_ok (pool ctx') \<and> pool_used (pool ctx') = fp \<and> vals (pool ctx') = vals (pool ctx)"
    using release_spec [OF pok(1), of "ctx_used ctx - fp"] pok le by (auto simp: c)
  moreover have "stack_ok n st" using ok d by (auto simp: st_def stack_ok_def ctx_ok_def)
  moreover have "ctx_frames ctx' = fs" using t d by (simp add: c st_def ctx_frames_def)
  ultimately show ?thesis using srt True by (simp add: c ctx_ok_def ctx_shape_def)
qed

section \<open>Well-bracketed use\<close>

text \<open>What callers do with a context: get a number, write to a number they hold, and call something that
  opens a frame, does the same and closes it.\<close>

datatype ctx_step = Get_number | Write_number nat BIGNUM | In_frame "ctx_step list"

fun ctx_run :: "(nat \<Rightarrow> byte list option) \<Rightarrow> ctx_step \<Rightarrow> BN_CTX \<Rightarrow> BN_CTX" where
  "ctx_run malloc Get_number ctx = snd (BN_CTX_get malloc ctx)"
| "ctx_run malloc (Write_number k bn) ctx = (if k < ctx_used ctx then ctx_put k bn ctx else ctx)"
| "ctx_run malloc (In_frame ps) ctx = BN_CTX_end (fold (ctx_run malloc) ps (BN_CTX_start malloc ctx))"

fun ctx_depth :: "ctx_step \<Rightarrow> nat" where
  "ctx_depth (In_frame ps) = Suc (Max (insert 0 (set (map ctx_depth ps))))"
| "ctx_depth _ = 0"

fun writes_ok :: "ctx_step \<Rightarrow> bool" where
  "writes_ok (Write_number k bn) = bn_dynamic bn"
| "writes_ok (In_frame ps) = list_all writes_ok ps"
| "writes_ok Get_number = True"

text \<open>Whether a number is one that the steps write to.\<close>

fun writes_to :: "nat \<Rightarrow> ctx_step \<Rightarrow> bool" where
  "writes_to j (Write_number k bn) \<longleftrightarrow> k = j"
| "writes_to j (In_frame ps) \<longleftrightarrow> list_ex (writes_to j) ps"
| "writes_to j Get_number \<longleftrightarrow> False"

text \<open>Inside a frame nothing but \<open>ctx_used\<close> grows and \<open>too_many\<close> may be set.\<close>

definition ctx_grows :: "BN_CTX \<Rightarrow> BN_CTX \<Rightarrow> bool" where
  "ctx_grows ctx ctx' \<longleftrightarrow> ctx_frames ctx' = ctx_frames ctx \<and> err_stack ctx' = err_stack ctx \<and> ctx_used ctx \<le> ctx_used ctx' \<and>
     (err_stack ctx \<noteq> 0 \<longrightarrow> ctx_used ctx' = ctx_used ctx \<and> too_many ctx' = too_many ctx) \<and>
     (too_many ctx \<longrightarrow> too_many ctx')"

lemma ctx_grows_trans: "ctx_grows a b \<Longrightarrow> ctx_grows b c \<Longrightarrow> ctx_grows a c"
  by (auto simp: ctx_grows_def)

lemma ctx_grows_refl: "ctx_grows a a"
  by (simp add: ctx_grows_def)

lemma frame_spec:
  assumes al: "allocator malloc" and ok: "ctx_ok n ctx" and n: "depth (frames ctx) < n" "n < 2 ^ 30"
    and body: "\<And>c. ctx_ok n c \<Longrightarrow> depth (frames c) \<le> depth (frames ctx) + 1 \<Longrightarrow> ctx_ok n (body c) \<and> ctx_grows c (body c)"
  defines "ctx' \<equiv> BN_CTX_end (body (BN_CTX_start malloc ctx))"
  shows "ctx_ok n ctx' \<and> ctx_shape ctx' = ctx_shape ctx"
proof -
  define c1 c2 where "c1 = BN_CTX_start malloc ctx" and "c2 = body c1"
  have c': "ctx' = BN_CTX_end c2" by (simp add: ctx'_def c1_def c2_def)
  note S = start_spec [OF al ok n, folded c1_def]
  have ok1: "ctx_ok n c1" using S by blast
  have "depth (frames c1) \<le> depth (frames ctx) + 1"
    using S length_ctx_frames [OF ok] length_ctx_frames [OF ok1] by auto
  then have B: "ctx_ok n c2" "ctx_grows c1 c2" using body [OF ok1] by (simp_all add: c2_def)
  have f: "\<exists>fs fp. ctx_frames c2 = fs @ [fp] \<and> fs = ctx_frames ctx \<and> fp = ctx_used ctx \<and> \<not> too_many ctx \<and> err_stack ctx = 0"
    if "err_stack c2 = 0" using S B(2) that by (auto simp: ctx_grows_def)
  show ?thesis
  proof (cases "err_stack c2 = 0")
    case True
    then obtain fs fp where F: "ctx_frames c2 = fs @ [fp]" "fs = ctx_frames ctx" "fp = ctx_used ctx" "\<not> too_many ctx" "err_stack ctx = 0"
      using f by blast
    show ?thesis using end_spec [OF B(1), of fs fp] F True unfolding c' by (simp add: ctx_shape_def)
  next
    case False
    then have "ctx_frames c2 = ctx_frames ctx" "ctx_used c2 = ctx_used ctx" "err_stack c2 = err_stack ctx + 1" "too_many c2 = too_many ctx"
      using S B(2) by (auto simp: ctx_grows_def)
    then show ?thesis using end_spec [OF B(1)] False unfolding c' by (simp add: ctx_shape_def)
  qed
qed

lemma get_grows: "ctx_ok n ctx \<Longrightarrow> ctx_ok n (snd (BN_CTX_get malloc ctx)) \<and> ctx_grows ctx (snd (BN_CTX_get malloc ctx))"
proof -
  assume ok: "ctx_ok n ctx"
  obtain e c where u: "BN_CTX_get malloc ctx = (e, c)" by (cases "BN_CTX_get malloc ctx")
  have same: "c = ctx" if "err_stack ctx \<noteq> 0 \<or> too_many ctx" using u that by (auto simp: BN_CTX_get_def)
  note G = get_spec [OF ok u]
  have "ctx_grows ctx c"
  proof (cases e)
    case None
    then show ?thesis using G same by (auto simp: ctx_grows_def)
  next
    case (Some k)
    then have "\<not> (err_stack ctx \<noteq> 0 \<or> too_many ctx)" using u by (auto simp: BN_CTX_get_def split: if_splits)
    then show ?thesis using G Some by (simp add: ctx_grows_def)
  qed
  then show ?thesis using G u by simp
qed

lemma put_grows: "ctx_ok n ctx \<Longrightarrow> bn_dynamic bn \<Longrightarrow> ctx_ok n (ctx_put k bn ctx) \<and> ctx_grows ctx (ctx_put k bn ctx)"
  using put_spec [of n ctx bn k] by (simp add: ctx_grows_def ctx_shape_def)

lemma shape_grows: "ctx_shape c' = ctx_shape c \<Longrightarrow> ctx_grows c c'"
  by (simp add: ctx_grows_def ctx_shape_def)

lemma grows_depth: "ctx_ok n c \<Longrightarrow> ctx_ok m c' \<Longrightarrow> ctx_grows c c' \<Longrightarrow> depth (frames c') = depth (frames c)"
  using length_ctx_frames [of n c] length_ctx_frames [of m c'] by (simp add: ctx_grows_def)

lemma fold_run:
  assumes "\<And>p c. p \<in> set ps \<Longrightarrow> ctx_ok n c \<Longrightarrow> depth (frames c) = d \<Longrightarrow> ctx_ok n (f p c) \<and> ctx_grows c (f p c)"
    and "ctx_ok n c" "depth (frames c) = d"
  shows "ctx_ok n (fold f ps c) \<and> ctx_grows c (fold f ps c)"
  using assms
proof (induction ps arbitrary: c)
  case (Cons p ps)
  have p: "ctx_ok n (f p c)" "ctx_grows c (f p c)" using Cons.prems(1) [of p c] Cons.prems(2,3) by simp_all
  then have "depth (frames (f p c)) = d" using grows_depth [OF Cons.prems(2)] Cons.prems(3) by simp
  then have "ctx_ok n (fold f ps (f p c)) \<and> ctx_grows (f p c) (fold f ps (f p c))"
    using Cons.prems(1) p(1) by (intro Cons.IH) simp_all
  then show ?case using ctx_grows_trans [OF p(2)] by simp
qed (simp add: ctx_grows_refl)

lemma run_spec:
  assumes al: "allocator malloc" and n: "n < 2 ^ 30"
  shows "ctx_ok n ctx \<Longrightarrow> depth (frames ctx) + ctx_depth p \<le> n \<Longrightarrow> writes_ok p \<Longrightarrow>
    ctx_ok n (ctx_run malloc p ctx) \<and> ctx_grows ctx (ctx_run malloc p ctx) \<and>
    (\<forall>ps. p = In_frame ps \<longrightarrow> ctx_shape (ctx_run malloc p ctx) = ctx_shape ctx)"
proof (induction p arbitrary: ctx)
  case (In_frame ps)
  define d where "d = Max (insert 0 (set (map ctx_depth ps)))"
  have dp: "ctx_depth p \<le> d" if "p \<in> set ps" for p using that by (auto simp: d_def)
  have dn: "depth (frames ctx) + 1 + d \<le> n" using In_frame.prems(2) by (simp add: d_def)
  have "ctx_ok n (BN_CTX_end (fold (ctx_run malloc) ps (BN_CTX_start malloc ctx))) \<and>
      ctx_shape (BN_CTX_end (fold (ctx_run malloc) ps (BN_CTX_start malloc ctx))) = ctx_shape ctx"
  proof (rule frame_spec [OF al In_frame.prems(1) _ n])
    show "depth (frames ctx) < n" using dn by simp
    fix c
    assume c: "ctx_ok n c" "depth (frames c) \<le> depth (frames ctx) + 1"
    show "ctx_ok n (fold (ctx_run malloc) ps c) \<and> ctx_grows c (fold (ctx_run malloc) ps c)"
    proof (rule fold_run [OF _ c(1) refl])
      fix p b
      assume p: "p \<in> set ps" and b: "ctx_ok n b" "depth (frames b) = depth (frames c)"
      have "writes_ok p" using In_frame.prems(3) p by (simp add: list_all_iff)
      moreover have "depth (frames b) + ctx_depth p \<le> n" using dp [OF p] dn b(2) c(2) by linarith
      ultimately show "ctx_ok n (ctx_run malloc p b) \<and> ctx_grows b (ctx_run malloc p b)"
        using In_frame.IH [OF p b(1)] by blast
    qed
  qed
  then show ?case using shape_grows by simp
qed (use get_grows put_grows ctx_grows_refl in auto)

lemma new_ctx_ok: "ctx_ok n BN_CTX_init"
  by (simp add: ctx_ok_def BN_CTX_init_def pool_ok_def stack_ok_def ctx_frames_def)

text \<open>Ending a frame touches no number; getting one touches none in use; so a number in use changes only by
  being written.\<close>

lemma end_keeps: "ctx_val (BN_CTX_end ctx) j = ctx_val ctx j"
  by (simp add: BN_CTX_end_def BN_POOL_release_def ctx_val_def Let_def split: prod.split)

lemma get_keeps: "ctx_ok n ctx \<Longrightarrow> j < ctx_used ctx \<Longrightarrow> ctx_val (snd (BN_CTX_get malloc ctx)) j = ctx_val ctx j"
proof -
  assume ok: "ctx_ok n ctx" and j: "j < ctx_used ctx"
  obtain e c where u: "BN_CTX_get malloc ctx = (e, c)" by (cases "BN_CTX_get malloc ctx")
  have "take (ctx_used ctx) (vals (pool c)) = take (ctx_used ctx) (vals (pool ctx))"
    using get_spec [OF ok u] by (cases e) simp_all
  from arg_cong [OF this, of "\<lambda>l. l ! j"] show ?thesis using j u by (simp add: ctx_val_def)
qed

lemma run_keeps:
  assumes al: "allocator malloc" and n: "n < 2 ^ 30"
  shows "ctx_ok n ctx \<Longrightarrow> depth (frames ctx) + ctx_depth p \<le> n \<Longrightarrow> writes_ok p \<Longrightarrow> j < ctx_used ctx \<Longrightarrow> \<not> writes_to j p \<Longrightarrow>
    ctx_val (ctx_run malloc p ctx) j = ctx_val ctx j"
proof (induction p arbitrary: ctx)
  case (In_frame ps)
  define d where "d = Max (insert 0 (set (map ctx_depth ps)))"
  have dp: "ctx_depth p \<le> d" if "p \<in> set ps" for p using that by (auto simp: d_def)
  have dn: "depth (frames ctx) + 1 + d \<le> n" using In_frame.prems(2) by (simp add: d_def)
  note S = start_spec [OF al In_frame.prems(1) _ n] length_ctx_frames
  define c1 where "c1 = BN_CTX_start malloc ctx"
  have c1: "ctx_ok n c1" "ctx_used c1 = ctx_used ctx" "pool c1 = pool ctx" "depth (frames c1) \<le> depth (frames ctx) + 1"
    using start_spec [OF al In_frame.prems(1) _ n] dn length_ctx_frames [of n c1] length_ctx_frames [OF In_frame.prems(1)]
    unfolding c1_def by auto
  have "ctx_val (fold (ctx_run malloc) qs c) j = ctx_val c j"
    if "set qs \<subseteq> set ps" "ctx_ok n c" "depth (frames c) + d \<le> n" "j < ctx_used c" for qs c
    using that
  proof (induction qs arbitrary: c)
    case (Cons q qs)
    have q: "q \<in> set ps" "writes_ok q" "\<not> writes_to j q" "depth (frames c) + ctx_depth q \<le> n"
      using Cons.prems(1,3) In_frame.prems(3,5) dp [of q] by (auto simp: list_all_iff list_ex_iff)
    have r: "ctx_ok n (ctx_run malloc q c)" "ctx_grows c (ctx_run malloc q c)"
      using run_spec [OF al n Cons.prems(2) q(4,2)] by simp_all
    have "depth (frames (ctx_run malloc q c)) = depth (frames c)" by (rule grows_depth [OF Cons.prems(2) r])
    moreover have "j < ctx_used (ctx_run malloc q c)" using r(2) Cons.prems(4) by (simp add: ctx_grows_def)
    ultimately have "ctx_val (fold (ctx_run malloc) qs (ctx_run malloc q c)) j = ctx_val (ctx_run malloc q c) j"
      using Cons.IH [OF _ r(1)] Cons.prems(1,3) by simp
    then show ?case using In_frame.IH [OF q(1) Cons.prems(2) q(4,2) Cons.prems(4) q(3)] by simp
  qed simp
  from this [OF subset_refl c1(1)] show ?case
    using c1(2,3,4) dn In_frame.prems(4) by (simp add: end_keeps c1_def [symmetric]) (simp add: ctx_val_def)
qed (use get_keeps in \<open>auto simp: ctx_put_def ctx_val_def\<close>)

text \<open>C14: The context of temporaries keeps its data structure invariant (bundles of well-formed numbers, the
  current bundle where the last number in use lies, an array of increasing frame starts that is never
  indexed out of bounds) under every well-bracketed use, whether allocations succeed or fail. A frame
  restores the frames, the count of numbers in use and the error counters it found. No sequence of gets,
  writes and nested frames changes a number in use except by writing to that number, and \<open>BN_CTX_end\<close> changes
  none at all; a number handed out is zero and is none of those in use. Nesting below \<open>2^30\<close> keeps the size
  of the index array from wrapping.\<close>

theorem ctx_well_formed:
  assumes "allocator malloc" "n < 2 ^ 30" "ctx_ok n ctx" "depth (frames ctx) + ctx_depth p \<le> n" "writes_ok p"
  shows "ctx_ok n (ctx_run malloc p ctx) \<and>
    (\<forall>ps. p = In_frame ps \<longrightarrow> ctx_shape (ctx_run malloc p ctx) = ctx_shape ctx) \<and>
    (\<forall>j < ctx_used ctx. \<not> writes_to j p \<longrightarrow> ctx_val (ctx_run malloc p ctx) j = ctx_val ctx j) \<and>
    (\<forall>j. ctx_val (BN_CTX_end ctx) j = ctx_val ctx j) \<and>
    (\<forall>k ctx'. BN_CTX_get malloc ctx = (Some k, ctx') \<longrightarrow> k = ctx_used ctx \<and> bn_int (ctx_val ctx' k) = 0 \<and>
       (\<forall>j < ctx_used ctx. ctx_val ctx' j = ctx_val ctx j))"
proof -
  have "k = ctx_used ctx \<and> bn_int (ctx_val ctx' k) = 0 \<and> (\<forall>j < ctx_used ctx. ctx_val ctx' j = ctx_val ctx j)"
    if u: "BN_CTX_get malloc ctx = (Some k, ctx')" for k ctx'
    using get_spec [OF assms(3) u] get_keeps [OF assms(3), of _ malloc] u by (auto simp: bn_int_def bn_mag_def)
  then show ?thesis using run_spec [OF assms(1-5)] run_keeps [OF assms(1-5)] end_keeps by blast
qed

theorem ctx_well_formed_witness:
  "let five = BN_init\<lparr>bn_d := [5], bn_width := 1, dmax := 1\<rparr>;
       ctx = fold (ctx_run zero_alloc) [Get_number, Write_number 0 five] BN_CTX_init;
       p = In_frame [Get_number, Write_number 1 (BN_init\<lparr>neg := True\<rparr>), In_frame [Get_number]]
   in ctx_ok 5 (ctx_run zero_alloc p ctx) \<and> ctx_val (ctx_run zero_alloc p ctx) 0 = five"
proof -
  let ?five = "BN_init\<lparr>bn_d := [5], bn_width := 1, dmax := 1\<rparr>"
  let ?c1 = "ctx_run zero_alloc Get_number BN_CTX_init"
  let ?c2 = "ctx_run zero_alloc (Write_number 0 ?five) ?c1"
  let ?p = "In_frame [Get_number, Write_number 1 (BN_init\<lparr>neg := True\<rparr>), In_frame [Get_number]]"
  have w: "writes_ok Get_number" "writes_ok (Write_number 0 ?five)" "writes_ok ?p" "\<not> writes_to 0 ?p"
    by (simp_all add: bn_dynamic_def BN_init_def bn_ok_def INT_MAX_def)
  obtain x where "OPENSSL_malloc zero_alloc 400 = Some x" using malloc_serves [OF serves_zero_alloc, of 400] by auto
  then have get: "\<exists>k. BN_CTX_get zero_alloc BN_CTX_init = (Some k, ?c1)"
    by (simp add: BN_CTX_get_def BN_POOL_get_def BN_CTX_init_def)
  then have u: "ctx_used ?c1 = 1" "0 < length (vals (pool ?c1))" "depth (frames ?c1) = 0"
    using get_spec [OF new_ctx_ok [of 5]] grows_depth [OF new_ctx_ok [of 5], of 5 ?c1] get_grows [OF new_ctx_ok [of 5], of zero_alloc]
    by (fastforce simp: BN_CTX_init_def)+
  then have f: "frames ?c2 = frames ?c1" "ctx_used ?c2 = 1" "ctx_val ?c2 0 = ?five" by (simp_all add: ctx_put_def ctx_val_def)
  have c1: "ctx_ok 5 ?c1"
    using ctx_well_formed [of zero_alloc 5 BN_CTX_init Get_number] new_ctx_ok [of 5] w by (simp add: BN_CTX_init_def)
  have c2: "ctx_ok 5 ?c2" using ctx_well_formed [of zero_alloc 5 ?c1 "Write_number 0 ?five"] c1 w(2) u(3) by simp
  have "depth (frames ?c2) + ctx_depth ?p \<le> 5" unfolding f(1) u(3) by simp
  then show ?thesis
    using ctx_well_formed [OF allocator_zero_alloc _ c2 _ w(3)] w(4) f(2,3) by (simp add: Let_def)
qed

end
