(* ===== verification/BnOps.thy ===== *)
theory BnOps
  imports BnCtx
begin

text \<open>
  Multiplication and squaring of big numbers (\<open>crypto/fipsmodule/bn/mul.c\<close>), the absolute difference and
  the shift by a secret distance (\<open>mul.c\<close>, \<open>shift.c\<close>): operations that take temporaries from a
  \<open>BN_CTX\<close>. The result is a number of its own (\<open>inplace\<close> false) or one of the operands. \<open>None\<close> stands
  for a dereference of the null pointer. A temporary that only serves as scratch memory of a word-array
  routine keeps its words in the model: no code reads what the routine leaves there, and the next
  \<open>BN_CTX_get\<close> empties it.
\<close>

section \<open>Multiplication\<close>

text \<open>The body of \<open>bn_mul_impl\<close> up to the label \<open>end\<close>; \<open>rr\<close> is the number the product is written to.\<close>

definition expand_temp :: "(nat \<Rightarrow> byte list option) \<Rightarrow> size_t \<Rightarrow> nat \<Rightarrow> (BN_CTX, unit) op" where
  "expand_temp malloc words k ctx =
     (case bn_wexpand malloc words (ctx_val ctx k) of (e, t) \<Rightarrow> (e, ctx_put k t ctx))"

definition write_product :: "(nat \<Rightarrow> byte list option) \<Rightarrow> size_t \<Rightarrow> (u64 list \<Rightarrow> u64 list) \<Rightarrow> nat \<Rightarrow> (BIGNUM, unit) op" where
  "write_product malloc words f width =
     andthen (bn_wexpand malloc words) (\<lambda>_ rr.
       (Some (), rr\<lparr>bn_d := splice 0 (f (bn_d rr)) (bn_d rr), bn_width := width\<rparr>))"

definition mul_into :: "(nat \<Rightarrow> byte list option) \<Rightarrow> BIGNUM \<Rightarrow> BIGNUM \<Rightarrow> BIGNUM \<Rightarrow> BN_CTX \<Rightarrow> unit option \<times> BIGNUM \<times> BN_CTX" where
  "mul_into malloc a b rr ctx =
     (let al = bn_width a; bl = bn_width b; rr = rr\<lparr>neg := (neg a \<noteq> neg b)\<rparr>; top = al + bl
      in if al = bl \<and> al = 8
         then (case write_product malloc 16 (\<lambda>_. bn_mul_comba8 (bn_d a) (bn_d b)) 16 rr of (e, rr) \<Rightarrow> (e, rr, ctx))
         else if 16 \<le> al \<and> 16 \<le> bl \<and> al \<le> bl + 1 \<and> bl \<le> al + 1
         then (let j = (if bl \<le> al then BN_num_bits_word (of_nat al) else BN_num_bits_word (of_nat bl));
                   j = 2 ^ (j - 1)
               in case BN_CTX_get malloc ctx of
                    (None, ctx) \<Rightarrow> (None, rr, ctx)
                  | (Some t, ctx) \<Rightarrow>
                      if j < al \<or> j < bl
                      then (case expand_temp malloc (j * 8) t ctx of
                              (None, ctx) \<Rightarrow> (None, rr, ctx)
                            | (Some _, ctx) \<Rightarrow>
                                (case write_product malloc (j * 4)
                                   (\<lambda>old. bn_mul_part_recursive old (bn_d a) (bn_d b) j (al - j) (bl - j)) top rr of
                                   (e, rr) \<Rightarrow> (e, rr, ctx)))
                      else (case expand_temp malloc (j * 4) t ctx of
                              (None, ctx) \<Rightarrow> (None, rr, ctx)
                            | (Some _, ctx) \<Rightarrow>
                                (case write_product malloc (j * 2)
                                   (\<lambda>_. bn_mul_recursive (bn_d a) (bn_d b) j (int al - int j) (int bl - int j)) top rr of
                                   (e, rr) \<Rightarrow> (e, rr, ctx))))
         else (case write_product malloc top (\<lambda>_. bn_mul_normal (bn_d a) al (bn_d b) bl) top rr of (e, rr) \<Rightarrow> (e, rr, ctx)))"

text \<open>When the result is one of the operands the code takes a temporary for it but then tests \<open>r\<close>, not
  \<open>rr\<close>, for the null pointer.\<close>

definition bn_mul_impl :: "(nat \<Rightarrow> byte list option) \<Rightarrow> bool \<Rightarrow> BIGNUM \<Rightarrow> BIGNUM \<Rightarrow> BIGNUM \<Rightarrow> BN_CTX \<Rightarrow> (unit option \<times> BIGNUM \<times> BN_CTX) option" where
  "bn_mul_impl malloc inplace a b r ctx =
     (if bn_width a = 0 \<or> bn_width b = 0 then Some (Some (), BN_zero r, ctx)
      else
        (let ctx = BN_CTX_start malloc ctx
         in if inplace
            then (case BN_CTX_get malloc ctx of
                    (None, ctx) \<Rightarrow> None
                  | (Some k, ctx) \<Rightarrow>
                      (case mul_into malloc a b (ctx_val ctx k) ctx of (e, rr, ctx) \<Rightarrow>
                         let ctx = ctx_put k rr ctx
                         in case e of
                              None \<Rightarrow> Some (None, r, BN_CTX_end ctx)
                            | Some _ \<Rightarrow> (case BN_copy malloc rr r of (e, r) \<Rightarrow> Some (e, r, BN_CTX_end ctx))))
            else (case mul_into malloc a b r ctx of (e, r, ctx) \<Rightarrow> Some (e, r, BN_CTX_end ctx))))"

definition BN_mul :: "(nat \<Rightarrow> byte list option) \<Rightarrow> bool \<Rightarrow> BIGNUM \<Rightarrow> BIGNUM \<Rightarrow> BIGNUM \<Rightarrow> BN_CTX \<Rightarrow> (unit option \<times> BIGNUM \<times> BN_CTX) option" where
  "BN_mul malloc inplace a b r ctx =
     map_option (\<lambda>(e, r, ctx). case e of None \<Rightarrow> (None, r, ctx) | Some _ \<Rightarrow> (Some (), bn_set_minimal_width r, ctx))
       (bn_mul_impl malloc inplace a b r ctx)"

definition bn_mul_consttime :: "(nat \<Rightarrow> byte list option) \<Rightarrow> bool \<Rightarrow> BIGNUM \<Rightarrow> BIGNUM \<Rightarrow> BIGNUM \<Rightarrow> BN_CTX \<Rightarrow> (unit option \<times> BIGNUM \<times> BN_CTX) option" where
  "bn_mul_consttime malloc inplace a b r ctx =
     (if neg a \<or> neg b then Some (None, r, ctx) else bn_mul_impl malloc inplace a b r ctx)"

definition BN_mul_word :: "(nat \<Rightarrow> byte list option) \<Rightarrow> u64 \<Rightarrow> (BIGNUM, unit) op" where
  "BN_mul_word malloc w bn =
     (if bn_width bn = 0 then (Some (), bn)
      else if w = 0 then (Some (), BN_zero bn)
      else (case bn_mul_words (bn_d bn) (bn_width bn) w of (ws, ll) \<Rightarrow>
              let bn = bn\<lparr>bn_d := splice 0 ws (bn_d bn)\<rparr>
              in if ll \<noteq> 0
                 then andthen (bn_wexpand malloc (bn_width bn + 1)) (\<lambda>_ bn.
                        (Some (), bn\<lparr>bn_d := (bn_d bn)[bn_width bn := ll], bn_width := bn_width bn + 1\<rparr>)) bn
                 else (Some (), bn)))"

section \<open>Squaring\<close>

definition sqr_into :: "(nat \<Rightarrow> byte list option) \<Rightarrow> BIGNUM \<Rightarrow> nat \<Rightarrow> BIGNUM \<Rightarrow> BN_CTX \<Rightarrow> unit option \<times> BIGNUM \<times> BN_CTX" where
  "sqr_into malloc a tmp rr ctx =
     (let al = bn_width a; mx = 2 * al
      in case bn_wexpand malloc mx rr of
           (None, rr) \<Rightarrow> (None, rr, ctx)
         | (Some _, rr) \<Rightarrow>
             let finish = (\<lambda>ws. rr\<lparr>bn_d := splice 0 ws (bn_d rr), neg := False, bn_width := mx\<rparr>)
             in if al = 4 then (Some (), finish (bn_sqr_comba4 (bn_d a)), ctx)
                else if al = 8 then (Some (), finish (bn_sqr_comba8 (bn_d a)), ctx)
                else if al < 16 then (Some (), finish (bn_sqr_normal (bn_d rr) (bn_d a) al), ctx)
                else if (of_nat al :: u32) AND (of_nat al - 1) = 0
                then (case expand_temp malloc (al * 4) tmp ctx of
                        (None, ctx) \<Rightarrow> (None, rr, ctx)
                      | (Some _, ctx) \<Rightarrow> (Some (), finish (bn_sqr_recursive (bn_d rr) (bn_d a) al), ctx))
                else (case expand_temp malloc mx tmp ctx of
                        (None, ctx) \<Rightarrow> (None, rr, ctx)
                      | (Some _, ctx) \<Rightarrow> (Some (), finish (bn_sqr_normal (bn_d rr) (bn_d a) al), ctx)))"

definition bn_sqr_consttime :: "(nat \<Rightarrow> byte list option) \<Rightarrow> bool \<Rightarrow> BIGNUM \<Rightarrow> BIGNUM \<Rightarrow> BN_CTX \<Rightarrow> unit option \<times> BIGNUM \<times> BN_CTX" where
  "bn_sqr_consttime malloc inplace a r ctx =
     (if bn_width a = 0 then (Some (), r\<lparr>bn_width := 0, neg := False\<rparr>, ctx)
      else
        (let ctx = BN_CTX_start malloc ctx
         in if inplace
            then (case BN_CTX_get malloc ctx of (rr, ctx) \<Rightarrow> case BN_CTX_get malloc ctx of (tmp, ctx) \<Rightarrow>
                    case (rr, tmp) of
                      (Some k, Some t) \<Rightarrow>
                        (case sqr_into malloc a t (ctx_val ctx k) ctx of (e, rr, ctx) \<Rightarrow>
                           let ctx = ctx_put k rr ctx
                           in case e of
                                None \<Rightarrow> (None, r, BN_CTX_end ctx)
                              | Some _ \<Rightarrow> (case BN_copy malloc rr r of (e, r) \<Rightarrow> (e, r, BN_CTX_end ctx)))
                    | _ \<Rightarrow> (None, r, BN_CTX_end ctx))
            else (case BN_CTX_get malloc ctx of
                    (None, ctx) \<Rightarrow> (None, r, BN_CTX_end ctx)
                  | (Some t, ctx) \<Rightarrow> (case sqr_into malloc a t r ctx of (e, r, ctx) \<Rightarrow> (e, r, BN_CTX_end ctx)))))"

definition BN_sqr :: "(nat \<Rightarrow> byte list option) \<Rightarrow> bool \<Rightarrow> BIGNUM \<Rightarrow> BIGNUM \<Rightarrow> BN_CTX \<Rightarrow> unit option \<times> BIGNUM \<times> BN_CTX" where
  "BN_sqr malloc inplace a r ctx =
     (case bn_sqr_consttime malloc inplace a r ctx of
        (None, r, ctx) \<Rightarrow> (None, r, ctx)
      | (Some _, r, ctx) \<Rightarrow> (Some (), bn_set_minimal_width r, ctx))"

section \<open>Absolute difference and secret shift\<close>

definition bn_abs_sub_consttime :: "(nat \<Rightarrow> byte list option) \<Rightarrow> BIGNUM \<Rightarrow> BIGNUM \<Rightarrow> BIGNUM \<Rightarrow> BN_CTX \<Rightarrow> unit option \<times> BIGNUM \<times> BN_CTX" where
  "bn_abs_sub_consttime malloc a b r ctx =
     (let cl = min (bn_width a) (bn_width b); dl = int (bn_width a) - int (bn_width b);
          r_len = max (bn_width a) (bn_width b); ctx = BN_CTX_start malloc ctx
      in case BN_CTX_get malloc ctx of
           (None, ctx) \<Rightarrow> (None, r, BN_CTX_end ctx)
         | (Some t, ctx) \<Rightarrow>
             (case bn_wexpand malloc r_len r of
                (None, r) \<Rightarrow> (None, r, BN_CTX_end ctx)
              | (Some _, r) \<Rightarrow>
                  (case expand_temp malloc r_len t ctx of
                     (None, ctx) \<Rightarrow> (None, r, BN_CTX_end ctx)
                   | (Some _, ctx) \<Rightarrow>
                       (Some (), r\<lparr>bn_d := splice 0 (fst (bn_abs_sub_part_words (bn_d a) (bn_d b) cl dl)) (bn_d r), bn_width := r_len\<rparr>,
                        BN_CTX_end ctx))))"

text \<open>The loop runs over the bits of the number of bits of the array, an \<open>unsigned\<close>.\<close>

function secret_shift_loop :: "nat \<Rightarrow> nat \<Rightarrow> nat \<Rightarrow> nat \<Rightarrow> u64 list \<Rightarrow> u64 list" where
  "secret_shift_loop max_bits n i w d =
     (if max_bits div 2 ^ i = 0 then d
      else (let msk = 0 - (of_nat (n div 2 ^ i mod 2) :: u64);
                tmp = bn_rshift_words d (2 ^ i) w
            in secret_shift_loop max_bits n (Suc i) w (splice 0 (bn_select_words msk tmp d w) d)))"
  by pat_completeness auto
termination
proof (relation "measure (\<lambda>(max_bits, n, i, w, d). max_bits - i)")
  fix max_bits n i w :: nat and d :: "u64 list" and msk tmp
  assume "max_bits div 2 ^ i \<noteq> 0"
  then have "(2 :: nat) ^ i \<le> max_bits" by (simp add: div_eq_0_iff not_less)
  then have "i < max_bits" using less_exp [of i] by linarith
  then show "((max_bits, n, Suc i, w, splice 0 (bn_select_words msk tmp d w) d), max_bits, n, i, w, d) \<in> measure (\<lambda>(max_bits, n, i, w, d). max_bits - i)"
    by simp
qed simp

declare secret_shift_loop.simps [simp del]

definition bn_rshift_secret_shift :: "(nat \<Rightarrow> byte list option) \<Rightarrow> BIGNUM \<Rightarrow> nat \<Rightarrow> BIGNUM \<Rightarrow> BN_CTX \<Rightarrow> unit option \<times> BIGNUM \<times> BN_CTX" where
  "bn_rshift_secret_shift malloc a n r ctx =
     (let ctx = BN_CTX_start malloc ctx
      in case BN_CTX_get malloc ctx of
           (None, ctx) \<Rightarrow> (None, r, BN_CTX_end ctx)
         | (Some t, ctx) \<Rightarrow>
             (case BN_copy malloc a r of
                (None, r) \<Rightarrow> (None, r, BN_CTX_end ctx)
              | (Some _, r) \<Rightarrow>
                  (case expand_temp malloc (bn_width r) t ctx of
                     (None, ctx) \<Rightarrow> (None, r, BN_CTX_end ctx)
                   | (Some _, ctx) \<Rightarrow>
                       (Some (), r\<lparr>bn_d := secret_shift_loop (64 * bn_width r) n 0 (bn_width r) (bn_d r)\<rparr>, BN_CTX_end ctx))))"

section \<open>Multiplication is exact\<close>

text \<open>What the routines leave of the context: the invariant, and the frames and counters they found.\<close>

definition ctx_same :: "nat \<Rightarrow> BN_CTX \<Rightarrow> BN_CTX \<Rightarrow> bool" where
  "ctx_same n ctx ctx' \<longleftrightarrow> ctx_ok n ctx' \<and> ctx_shape ctx' = ctx_shape ctx"

text \<open>Between start and end the contexts are related by \<open>ctx_grows\<close>.\<close>

lemma frame_same:
  assumes al: "allocator malloc" and ok: "ctx_ok n ctx" and n: "depth (frames ctx) < n" "n < 2 ^ 30"
    and c: "ctx_ok n c" "ctx_grows (BN_CTX_start malloc ctx) c"
  shows "ctx_same n ctx (BN_CTX_end c)"
proof -
  define body where "body = (\<lambda>x. if x = BN_CTX_start malloc ctx then c else x)"
  have "ctx_ok n (BN_CTX_end (body (BN_CTX_start malloc ctx))) \<and>
      ctx_shape (BN_CTX_end (body (BN_CTX_start malloc ctx))) = ctx_shape ctx"
    by (rule frame_spec [OF al ok n]) (use c in \<open>auto simp: body_def ctx_grows_refl\<close>)
  then show ?thesis by (simp add: body_def ctx_same_def)
qed

lemma start_ok: "allocator malloc \<Longrightarrow> ctx_ok n ctx \<Longrightarrow> depth (frames ctx) < n \<Longrightarrow> n < 2 ^ 30 \<Longrightarrow> ctx_ok n (BN_CTX_start malloc ctx)"
  using start_spec by blast

text \<open>A step inside the frame of \<open>ctx\<close>.\<close>

definition ctx_inside :: "nat \<Rightarrow> BN_CTX \<Rightarrow> BN_CTX \<Rightarrow> bool" where
  "ctx_inside n c c' \<longleftrightarrow> ctx_ok n c' \<and> ctx_grows c c'"

lemma inside_trans: "ctx_inside n a b \<Longrightarrow> ctx_inside n b c \<Longrightarrow> ctx_inside n a c"
  using ctx_grows_trans unfolding ctx_inside_def by blast

lemma inside_refl: "ctx_ok n c \<Longrightarrow> ctx_inside n c c"
  by (simp add: ctx_inside_def ctx_grows_refl)

lemma inside_get: "ctx_ok n c \<Longrightarrow> BN_CTX_get malloc c = (e, c') \<Longrightarrow> ctx_inside n c c'"
  using get_grows [of n c malloc] by (simp add: ctx_inside_def)

lemma inside_put: "ctx_ok n c \<Longrightarrow> bn_dynamic bn \<Longrightarrow> ctx_inside n c (ctx_put k bn c)"
  using put_grows by (simp add: ctx_inside_def)

lemma val_ok: "ctx_ok n c \<Longrightarrow> k < length (vals (pool c)) \<Longrightarrow> bn_dynamic (ctx_val c k)"
  by (simp add: ctx_ok_def pool_ok_def ctx_val_def list_all_length)

lemma static_wexpand: "bn_wexpand malloc n bn = (e, b) \<Longrightarrow> bn_static b = bn_static bn"
  by (auto simp: bn_wexpand_def split: if_splits option.splits)

lemma inside_expand:
  assumes "allocator malloc" "ctx_ok n c" "k < length (vals (pool c))" "expand_temp malloc words k c = (e, c')"
  shows "ctx_inside n c c' \<and> (e = None \<longrightarrow> fst (bn_wexpand malloc words (ctx_val c k)) = None)"
proof -
  obtain e1 t where w: "bn_wexpand malloc words (ctx_val c k) = (e1, t)" by (cases "bn_wexpand malloc words (ctx_val c k)")
  have "bn_dynamic t"
    using wexpand_ok [OF assms(1) bn_dynamicD(1) [OF val_ok [OF assms(2,3)]] w] static_wexpand [OF w] val_ok [OF assms(2,3)]
    by (simp add: bn_dynamic_def)
  then show ?thesis using assms(2,4) w inside_put [of n c t k] by (simp add: expand_temp_def)
qed

lemma write_product_spec:
  assumes al: "allocator malloc" and ok: "bn_ok rr" and u: "write_product malloc words f width rr = (e, rr')"
    and f: "\<And>old. words \<le> length old \<Longrightarrow> length (f old) = words \<and> bn_val (f old) = v"
    and w: "width \<le> words" "v < 2 ^ (64 * width)"
  shows "bn_static rr' = bn_static rr \<and> (case e of None \<Rightarrow> rr' = rr \<and> fst (bn_wexpand malloc words rr) = None
    | Some _ \<Rightarrow> bn_ok rr' \<and> bn_mag rr' = v \<and> neg rr' = neg rr \<and> bn_width rr' = width)"
proof -
  obtain e1 b where x: "bn_wexpand malloc words rr = (e1, b)" by (cases "bn_wexpand malloc words rr")
  note W = wexpand_ok [OF al ok x]
  show ?thesis
  proof (cases e1)
    case None
    then show ?thesis using u x W by (simp add: write_product_def andthen_def)
  next
    case (Some y)
    define ws where "ws = f (bn_d b)"
    have b: "bn_ok b" "words \<le> length (bn_d b)" "neg b = neg rr" using W Some by (simp_all add: bn_ok_def)
    have F: "length ws = words" "bn_val ws = v" using f [OF b(2)] by (simp_all add: ws_def)
    have r: "e = Some ()" "rr' = b\<lparr>bn_d := splice 0 ws (bn_d b), bn_width := width\<rparr>"
      using u x Some by (simp_all add: write_product_def andthen_def ws_def)
    have "take width (splice 0 ws (bn_d b)) = take width ws" using F(1) w(1) b(2) by (simp add: splice_def)
    moreover have "bn_val (take width ws) = v"
      using bn_val_take_drop [of width ws] F w bn_val_split [of ws v width 0] by simp
    ultimately show ?thesis using r b F(1) w(1) static_wexpand [OF x]
      by (simp add: bn_ok_def bn_mag_def [of "b\<lparr>bn_d := x, bn_width := y\<rparr>" for x y])
  qed
qed

text \<open>The larger power of two below the longer operand.\<close>

lemma split_power:
  assumes "16 \<le> m" "m < 2 ^ 32"
  defines "k \<equiv> BN_num_bits_word (of_nat m) - 1"
  shows "8 \<le> (2 :: nat) ^ k" "2 ^ k \<le> m" "m < 2 * 2 ^ k"
proof -
  have u: "unat (of_nat m :: u64) = m" unfolding unat_of_nat using assms(2) by simp
  have nz: "(of_nat m :: u64) \<noteq> 0"
  proof
    assume "(of_nat m :: u64) = 0"
    then have "unat (of_nat m :: u64) = 0" by simp
    then show False using u assms(1) by simp
  qed
  note b = num_bits_word [OF nz]
  have s: "BN_num_bits_word (of_nat m) = Suc k" using b by (simp add: k_def)
  show "2 ^ k \<le> m" "m < 2 * 2 ^ k" using b unfolding u s by simp_all
  then show "8 \<le> (2 :: nat) ^ k" using assms(1) by linarith
qed

lemma product_less: "bn_mag a * bn_mag b < 2 ^ (64 * (bn_width a + bn_width b))"
  unfolding distrib_left power_add using bn_mag_less [of a] bn_mag_less [of b] by (intro mult_strict_mono) simp_all

lemma neg_set: "bn_ok (rr\<lparr>neg := s\<rparr>) = bn_ok rr" "neg (rr\<lparr>neg := s\<rparr>) = s"
  by (simp_all add: bn_ok_def)

lemma mul_into_spec:
  assumes al: "allocator malloc" and ok: "bn_ok a" "bn_ok b" "bn_ok rr" and c: "ctx_ok n c"
    and u: "mul_into malloc a b rr c = (e, rr', c')"
  shows "ctx_inside n c c' \<and> bn_ok rr' \<and> bn_static rr' = bn_static rr \<and>
    (e \<noteq> None \<longrightarrow> bn_mag rr' = bn_mag a * bn_mag b \<and> neg rr' = (neg a \<noteq> neg b))"
proof -
  define A B r0 where "A = bn_width a" and "B = bn_width b" and "r0 = rr\<lparr>neg := (neg a \<noteq> neg b)\<rparr>"
  have l: "A \<le> length (bn_d a)" "B \<le> length (bn_d b)" using bn_okD [OF ok(1)] bn_okD [OF ok(2)] by (simp_all add: A_def B_def)
  have r0: "bn_ok r0" "neg r0 = (neg a \<noteq> neg b)" "bn_static r0 = bn_static rr" using ok(3) by (simp_all add: r0_def neg_set)
  have v: "bn_mag a * bn_mag b < 2 ^ (64 * (A + B))" unfolding A_def B_def by (rule product_less)
  have small: "A < 2 ^ 31" "B < 2 ^ 31" using ok(1,2) by (simp_all add: A_def B_def bn_ok_def INT_MAX_def)
  have part: "bn_mag a = bn_part A (bn_d a)" "bn_mag b = bn_part B (bn_d b)" by (simp_all add: bn_mag_def A_def B_def)
  have wp: "bn_ok r1 \<and> bn_static r1 = bn_static rr \<and> (e1 \<noteq> None \<longrightarrow> bn_mag r1 = bn_mag a * bn_mag b \<and> neg r1 = (neg a \<noteq> neg b))"
    if "write_product malloc words f (A + B) r0 = (e1, r1)" "A + B \<le> words"
      "\<And>old. words \<le> length old \<Longrightarrow> length (f old) = words \<and> bn_val (f old) = bn_mag a * bn_mag b" for words f e1 r1
    using write_product_spec [OF al r0(1) that(1,3,2) v] r0 by (cases e1) auto
  consider (comba) "A = B \<and> A = 8" | (rec) "\<not> (A = B \<and> A = 8)" "16 \<le> A \<and> 16 \<le> B \<and> A \<le> B + 1 \<and> B \<le> A + 1"
    | (normal) "\<not> (A = B \<and> A = 8)" "\<not> (16 \<le> A \<and> 16 \<le> B \<and> A \<le> B + 1 \<and> B \<le> A + 1)" by blast
  then show ?thesis
  proof cases
    case comba
    obtain e1 r1 where w: "write_product malloc 16 (\<lambda>_. bn_mul_comba8 (bn_d a) (bn_d b)) 16 r0 = (e1, r1)"
      by (cases "write_product malloc 16 (\<lambda>_. bn_mul_comba8 (bn_d a) (bn_d b)) 16 r0")
    have r: "e = e1" "rr' = r1" "c' = c"
      using u comba w unfolding mul_into_def Let_def A_def [symmetric] B_def [symmetric] r0_def [symmetric] by simp_all
    have s: "A + B = 16" "A = 8" "B = 8" using comba by simp_all
    have "bn_val (bn_mul_comba8 (bn_d a) (bn_d b)) = bn_mag a * bn_mag b \<and> length (bn_mul_comba8 (bn_d a) (bn_d b)) = 16"
      using mul_comba8_val [of "bn_d a" "bn_d b"] l unfolding part s by simp
    then show ?thesis using wp [unfolded s(1), OF w] inside_refl [OF c] r by simp
  next
    case normal
    obtain e1 r1 where w: "write_product malloc (A + B) (\<lambda>_. bn_mul_normal (bn_d a) A (bn_d b) B) (A + B) r0 = (e1, r1)"
      by (cases "write_product malloc (A + B) (\<lambda>_. bn_mul_normal (bn_d a) A (bn_d b) B) (A + B) r0")
    have r: "e = e1" "rr' = r1" "c' = c"
      using u w unfolding mul_into_def Let_def A_def [symmetric] B_def [symmetric] r0_def [symmetric]
        if_not_P [OF normal(1)] if_not_P [OF normal(2)] by simp_all
    show ?thesis using wp [OF w] mul_normal_val [OF l] part inside_refl [OF c] r by simp
  next
    case rec
    define k where "k = BN_num_bits_word (of_nat (max A B)) - 1"
    define j :: nat where "j = 2 ^ k"
    have m: "16 \<le> max A B" "max A B < 2 ^ 32" using rec(2) small by auto
    have j: "8 \<le> j" "j \<le> max A B" "max A B < 2 * j" using split_power [OF m] by (simp_all add: j_def k_def)
    have je: "2 ^ ((if B \<le> A then BN_num_bits_word (of_nat A) else BN_num_bits_word (of_nat B)) - 1) = j"
      by (simp add: j_def k_def max_def)
    obtain g c1 where g: "BN_CTX_get malloc c = (g, c1)" by (cases "BN_CTX_get malloc c")
    have i1: "ctx_inside n c c1" by (rule inside_get [OF c g])
    then have c1: "ctx_ok n c1" by (simp add: ctx_inside_def)
    note U = u [unfolded mul_into_def Let_def, folded A_def B_def r0_def, unfolded if_not_P [OF rec(1)] if_P [OF rec(2)] je g prod.case]
    show ?thesis
    proof (cases g)
      case None
      then show ?thesis using U i1 r0 by auto
    next
      case (Some t)
      have t: "t < length (vals (pool c1))" using get_spec [OF c g] Some by simp
      show ?thesis
      proof (cases "j < A \<or> j < B")
        case True
        then have le: "j \<le> A" "j \<le> B" using rec(2) by auto
        obtain e1 c2 where x: "expand_temp malloc (j * 8) t c1 = (e1, c2)" by (cases "expand_temp malloc (j * 8) t c1")
        have i2: "ctx_inside n c c2" using inside_trans [OF i1] inside_expand [OF al c1 t x] by blast
        let ?f = "\<lambda>old. bn_mul_part_recursive old (bn_d a) (bn_d b) j (A - j) (B - j)"
        obtain e2 r1 where w: "write_product malloc (j * 4) ?f (A + B) r0 = (e2, r1)" by (cases "write_product malloc (j * 4) ?f (A + B) r0")
        have "part_ok (bn_d a) (bn_d b) j (A - j) (B - j)" using le rec(2) j(3) l by (auto simp: part_ok_def)
        then have "length (?f old) = j * 4 \<and> bn_val (?f old) = bn_mag a * bn_mag b" for old
          using mul_part_recursive_val [OF _ j_def j(1), of "bn_d a" "bn_d b" "A - j" "B - j" old] le part by simp
        then have "bn_ok r1 \<and> bn_static r1 = bn_static rr \<and> (e2 \<noteq> None \<longrightarrow> bn_mag r1 = bn_mag a * bn_mag b \<and> neg r1 = (neg a \<noteq> neg b))"
          using j(3) by (intro wp [OF w]) auto
        then show ?thesis using U Some True x w i2 r0 by (cases e1) auto
      next
        case False
        obtain e1 c2 where x: "expand_temp malloc (j * 4) t c1 = (e1, c2)" by (cases "expand_temp malloc (j * 4) t c1")
        have i2: "ctx_inside n c c2" using inside_trans [OF i1] inside_expand [OF al c1 t x] by blast
        let ?f = "\<lambda>_ :: u64 list. bn_mul_recursive (bn_d a) (bn_d b) j (int A - int j) (int B - int j)"
        obtain e2 r1 where w: "write_product malloc (j * 2) ?f (A + B) r0 = (e2, r1)" by (cases "write_product malloc (j * 2) ?f (A + B) r0")
        have "rec_ok (bn_d a) j (int A - int j)" "rec_ok (bn_d b) j (int B - int j)"
          using False rec(2) j(2) l by (auto simp: rec_ok_def max_def split: if_splits)
        then have "length (?f old) = j * 2 \<and> bn_val (?f old) = bn_mag a * bn_mag b" for old
          using mul_recursive_val [OF _ _ j_def j(1), of "bn_d a" "int A - int j" "bn_d b" "int B - int j"] part by simp
        then have "bn_ok r1 \<and> bn_static r1 = bn_static rr \<and> (e2 \<noteq> None \<longrightarrow> bn_mag r1 = bn_mag a * bn_mag b \<and> neg r1 = (neg a \<noteq> neg b))"
          using False by (intro wp [OF w]) auto
        then show ?thesis using U Some False x w i2 r0 by (cases e1) auto
      qed
    qed
  qed
qed

lemma copy_spec:
  assumes al: "allocator malloc" and ok: "bn_ok src" "bn_ok r" and u: "BN_copy malloc src r = (e, r')"
  shows "case e of None \<Rightarrow> r' = r \<and> fst (bn_wexpand malloc (bn_width src) r) = None
    | Some _ \<Rightarrow> bn_ok r' \<and> bn_mag r' = bn_mag src \<and> neg r' = neg src \<and> bn_width r' = bn_width src"
proof -
  obtain e1 b where x: "bn_wexpand malloc (bn_width src) r = (e1, b)" by (cases "bn_wexpand malloc (bn_width src) r")
  note w = wexpand_ok [OF al ok(2) x]
  show ?thesis
  proof (cases e1)
    case None
    then show ?thesis using u x w by (simp add: BN_copy_def andthen_def)
  next
    case (Some y)
    let ?ws = "take (bn_width src) (bn_d src)"
    have l: "length ?ws = bn_width src" using bn_okD [OF ok(1)] by simp
    have r: "e = Some ()" "r' = b\<lparr>bn_d := splice 0 ?ws (bn_d b), bn_width := bn_width src, neg := neg src\<rparr>"
      using u x Some by (simp_all add: BN_copy_def andthen_def)
    have "bn_part (bn_width src) (splice 0 ?ws (bn_d b)) = bn_val ?ws \<and> length (splice 0 ?ws (bn_d b)) = length (bn_d b)"
      using write_words [of ?ws "bn_d b"] w Some l by (simp add: bn_ok_def)
    then show ?thesis using r w Some
      by (simp add: bn_ok_def bn_mag_def bn_mag_def [of "b\<lparr>bn_d := x, bn_width := y, neg := z\<rparr>" for x y z])
  qed
qed

lemma mul_impl_spec:
  assumes al: "allocator malloc" and ok: "bn_ok a" "bn_ok b" "bn_ok r" and c: "ctx_ok n ctx" "depth (frames ctx) < n" "n < 2 ^ 30"
  shows "case bn_mul_impl malloc inplace a b r ctx of
      None \<Rightarrow> inplace \<and> fst (BN_CTX_get malloc (BN_CTX_start malloc ctx)) = None
    | Some (e, r', ctx') \<Rightarrow> ctx_same n ctx ctx' \<and> bn_ok r' \<and>
        (e \<noteq> None \<longrightarrow> bn_mag r' = bn_mag a * bn_mag b \<and> (bn_mag r' \<noteq> 0 \<longrightarrow> neg r' = (neg a \<noteq> neg b)))"
proof (cases "bn_width a = 0 \<or> bn_width b = 0")
  case True
  then have "bn_mag a * bn_mag b = 0" by (auto simp: bn_mag_def)
  moreover have "bn_mag (BN_zero r) = 0" by (simp add: BN_zero_def bn_mag_def)
  moreover have "bn_mul_impl malloc inplace a b r ctx = Some (Some (), BN_zero r, ctx)" using True by (simp add: bn_mul_impl_def)
  ultimately show ?thesis using ok(3) c by (simp add: ctx_same_def)
next
  case False
  define c0 where "c0 = BN_CTX_start malloc ctx"
  have c0: "ctx_ok n c0" unfolding c0_def using start_ok [OF al c] .
  have fin: "ctx_same n ctx (BN_CTX_end x)" if "ctx_inside n c0 x" for x
    using frame_same [OF al c] that by (simp add: ctx_inside_def c0_def)
  note D = bn_mul_impl_def [of malloc inplace a b r ctx, unfolded if_not_P [OF False] Let_def, folded c0_def]
  show ?thesis
  proof (cases inplace)
    case no: False
    obtain e r1 c1 where m: "mul_into malloc a b r c0 = (e, r1, c1)" by (cases "mul_into malloc a b r c0") auto
    note M = mul_into_spec [OF al ok c0 m]
    have "bn_mul_impl malloc inplace a b r ctx = Some (e, r1, BN_CTX_end c1)" unfolding D using no m by simp
    then show ?thesis using M fin [of c1] by auto
  next
    case yes: True
    obtain g c1 where g: "BN_CTX_get malloc c0 = (g, c1)" by (cases "BN_CTX_get malloc c0")
    have i1: "ctx_inside n c0 c1" by (rule inside_get [OF c0 g])
    then have c1: "ctx_ok n c1" by (simp add: ctx_inside_def)
    show ?thesis
    proof (cases g)
      case None
      then have "bn_mul_impl malloc inplace a b r ctx = None" unfolding D using yes g by simp
      then show ?thesis using yes g None by (simp add: c0_def)
    next
      case (Some k)
      have k: "k < length (vals (pool c1))" "bn_dynamic (ctx_val c1 k)" using get_spec [OF c0 g] Some by auto
      obtain e rr c2 where m: "mul_into malloc a b (ctx_val c1 k) c1 = (e, rr, c2)" by (cases "mul_into malloc a b (ctx_val c1 k) c1") auto
      note M = mul_into_spec [OF al ok(1,2) bn_dynamicD(1) [OF k(2)] c1 m]
      have "ctx_ok n c2" "bn_dynamic rr" using M k(2) by (simp_all add: ctx_inside_def bn_dynamic_def)
      then have i3: "ctx_inside n c0 (ctx_put k rr c2)" using M inside_trans [OF i1] inside_trans inside_put by blast
      show ?thesis
      proof (cases e)
        case None
        then have "bn_mul_impl malloc inplace a b r ctx = Some (None, r, BN_CTX_end (ctx_put k rr c2))"
          unfolding D using yes g Some m by simp
        then show ?thesis using fin [OF i3] ok(3) by simp
      next
        case e: (Some y)
        obtain e2 r2 where cp: "BN_copy malloc rr r = (e2, r2)" by (cases "BN_copy malloc rr r")
        have "bn_mul_impl malloc inplace a b r ctx = Some (e2, r2, BN_CTX_end (ctx_put k rr c2))"
          unfolding D using yes g Some m e cp by simp
        then show ?thesis using fin [OF i3] copy_spec [OF al _ ok(3) cp] M e ok(3) by (cases e2) auto
      qed
    qed
  qed
qed

section \<open>When the operations cannot fail\<close>

text \<open>With an allocator that serves, a context without a pending failure and arrays below the limit, nothing
  fails.\<close>

definition ctx_calm :: "BN_CTX \<Rightarrow> bool" where
  "ctx_calm c \<longleftrightarrow> err_stack c = 0 \<and> \<not> too_many c"

lemma wexpand_serves: "serves malloc \<Longrightarrow> n \<le> INT_MAX div 256 \<Longrightarrow> \<not> bn_static bn \<Longrightarrow> \<exists>b. bn_wexpand malloc n bn = (Some (), b)"
proof -
  assume m: "serves malloc" and n: "n \<le> INT_MAX div 256" and s: "\<not> bn_static bn"
  have "8 * n + 8 < 2 ^ 63" using n by (simp add: INT_MAX_def)
  then obtain x where "OPENSSL_malloc malloc (8 * n) = Some x" using malloc_serves [OF m] by blast
  then show ?thesis using n s by (simp add: bn_wexpand_def)
qed

lemma start_calm: "serves malloc \<Longrightarrow> ctx_ok n ctx \<Longrightarrow> n < 2 ^ 30 \<Longrightarrow> ctx_calm ctx \<Longrightarrow> ctx_calm (BN_CTX_start malloc ctx)"
proof -
  assume m: "serves malloc" and ok: "ctx_ok n ctx" "n < 2 ^ 30" and c: "ctx_calm ctx"
  let ?st = "frames ctx"
  have "stack_size ?st \<le> max 32 (n * 3 div 2)" using ok(1) by (simp add: ctx_ok_def stack_ok_def)
  then have "(if stack_size ?st \<noteq> 0 then stack_size ?st * 3 mod 2 ^ 32 div 2 else 32) * 4 + 8 < 2 ^ 63"
    using mod_less_divisor [of "2 ^ 32" "stack_size ?st * 3"] by (auto intro: le_less_trans [OF div_le_dividend])
  then obtain x where "OPENSSL_malloc malloc ((if stack_size ?st \<noteq> 0 then stack_size ?st * 3 mod 2 ^ 32 div 2 else 32) * 4) = Some x"
    using malloc_serves [OF m] by blast
  then have "fst (BN_STACK_push malloc (ctx_used ctx) ?st) = Some ()"
    by (auto simp: BN_STACK_push_def andthen_def ret_def Let_def BN_CTX_START_FRAMES_def)
  then show ?thesis using c by (auto simp: ctx_calm_def BN_CTX_start_def split: prod.splits)
qed

lemma get_calm: "serves malloc \<Longrightarrow> ctx_calm c \<Longrightarrow> \<exists>k c'. BN_CTX_get malloc c = (Some k, c') \<and> ctx_calm c'"
proof -
  assume m: "serves malloc" and c: "ctx_calm c"
  obtain x where "OPENSSL_malloc malloc 400 = Some x" using malloc_serves [OF m, of 400] by auto
  then have "\<exists>k p. BN_POOL_get malloc (pool c) = (Some k, p)" by (simp add: BN_POOL_get_def Let_def)
  then show ?thesis using c by (auto simp: BN_CTX_get_def ctx_calm_def)
qed

lemma expand_calm:
  assumes "serves malloc" "ctx_ok n c" "k < length (vals (pool c))" "ctx_calm c" "words \<le> INT_MAX div 256"
  shows "\<exists>c'. expand_temp malloc words k c = (Some (), c') \<and> ctx_calm c'"
proof -
  obtain b where "bn_wexpand malloc words (ctx_val c k) = (Some (), b)"
    using wexpand_serves [OF assms(1,5) bn_dynamicD(2) [OF val_ok [OF assms(2,3)]]] by blast
  then show ?thesis using assms(4) by (simp add: expand_temp_def ctx_calm_def ctx_put_def)
qed

lemma product_calm:
  assumes "serves malloc" "\<not> bn_static rr" "words \<le> INT_MAX div 256"
  shows "\<exists>rr'. write_product malloc words f width rr = (Some (), rr')"
  using wexpand_serves [OF assms(1,3,2)] by (auto simp: write_product_def andthen_def)

lemma mul_into_calm:
  assumes m: "serves malloc" and c: "ctx_ok n c" "ctx_calm c" and rr: "\<not> bn_static rr"
    and small: "8 * (bn_width a + bn_width b) \<le> INT_MAX div 256"
  shows "\<exists>rr' c'. mul_into malloc a b rr c = (Some (), rr', c')"
proof -
  define A B r0 where "A = bn_width a" and "B = bn_width b" and "r0 = rr\<lparr>neg := (neg a \<noteq> neg b)\<rparr>"
  have r0: "\<not> bn_static r0" using rr by (simp add: r0_def)
  have AB: "8 * (A + B) \<le> INT_MAX div 256" using small by (simp add: A_def B_def)
  consider (comba) "A = B \<and> A = 8" | (rec) "\<not> (A = B \<and> A = 8)" "16 \<le> A \<and> 16 \<le> B \<and> A \<le> B + 1 \<and> B \<le> A + 1"
    | (normal) "\<not> (A = B \<and> A = 8)" "\<not> (16 \<le> A \<and> 16 \<le> B \<and> A \<le> B + 1 \<and> B \<le> A + 1)" by blast
  then show ?thesis
  proof cases
    case comba
    then show ?thesis using product_calm [OF m r0, of 16 "\<lambda>_. bn_mul_comba8 (bn_d a) (bn_d b)" 16] AB
      unfolding mul_into_def Let_def A_def [symmetric] B_def [symmetric] r0_def [symmetric] by auto
  next
    case normal
    then show ?thesis using product_calm [OF m r0, of "A + B" "\<lambda>_. bn_mul_normal (bn_d a) A (bn_d b) B" "A + B"] AB
      unfolding mul_into_def Let_def A_def [symmetric] B_def [symmetric] r0_def [symmetric] if_not_P [OF normal(1)] if_not_P [OF normal(2)]
      by auto
  next
    case rec
    define j :: nat where "j = 2 ^ ((if B \<le> A then BN_num_bits_word (of_nat A) else BN_num_bits_word (of_nat B)) - 1)"
    have "j \<le> max A B"
      using split_power(2) [of "max A B"] rec(2) AB by (auto simp: j_def max_def INT_MAX_def)
    then have j: "j * 8 \<le> INT_MAX div 256" "j * 4 \<le> INT_MAX div 256" "j * 2 \<le> INT_MAX div 256" using AB by auto
    obtain t c1 where g: "BN_CTX_get malloc c = (Some t, c1)" "ctx_calm c1" using get_calm [OF m c(2)] by blast
    have c1: "ctx_ok n c1" "t < length (vals (pool c1))" using get_spec [OF c(1) g(1)] by auto
    obtain c2 where x8: "expand_temp malloc (j * 8) t c1 = (Some (), c2)" using expand_calm [OF m c1 g(2) j(1)] by blast
    obtain c3 where x4: "expand_temp malloc (j * 4) t c1 = (Some (), c3)" using expand_calm [OF m c1 g(2) j(2)] by blast
    obtain p where p: "write_product malloc (j * 4) (\<lambda>old. bn_mul_part_recursive old (bn_d a) (bn_d b) j (A - j) (B - j)) (A + B) r0 = (Some (), p)"
      using product_calm [OF m r0 j(2)] by blast
    obtain q where q: "write_product malloc (j * 2) (\<lambda>_. bn_mul_recursive (bn_d a) (bn_d b) j (int A - int j) (int B - int j)) (A + B) r0 = (Some (), q)"
      using product_calm [OF m r0 j(3)] by blast
    show ?thesis
      unfolding mul_into_def Let_def A_def [symmetric] B_def [symmetric] r0_def [symmetric] if_not_P [OF rec(1)] if_P [OF rec(2)]
        j_def [symmetric] g prod.case option.case x8 x4 p q by auto
  qed
qed

lemma copy_calm: "serves malloc \<Longrightarrow> \<not> bn_static r \<Longrightarrow> bn_width src \<le> INT_MAX div 256 \<Longrightarrow> \<exists>r'. BN_copy malloc src r = (Some (), r')"
  using wexpand_serves [of malloc "bn_width src" r] by (auto simp: BN_copy_def andthen_def)

lemma mul_impl_calm:
  assumes m: "serves malloc" and ok: "bn_ok a" "bn_ok b" and c: "ctx_ok n ctx" "depth (frames ctx) < n" "n < 2 ^ 30" "ctx_calm ctx"
    and r: "\<not> bn_static r" and small: "8 * (bn_width a + bn_width b) \<le> INT_MAX div 256"
  shows "\<exists>r' ctx'. bn_mul_impl malloc inplace a b r ctx = Some (Some (), r', ctx')"
proof (cases "bn_width a = 0 \<or> bn_width b = 0")
  case True
  then show ?thesis by (simp add: bn_mul_impl_def)
next
  case False
  define c0 where "c0 = BN_CTX_start malloc ctx"
  have c0: "ctx_ok n c0" "ctx_calm c0"
    using start_ok [OF serves_allocator [OF m] c(1-3)] start_calm [OF m c(1,3,4)] by (simp_all add: c0_def)
  note D = bn_mul_impl_def [of malloc inplace a b r ctx, unfolded if_not_P [OF False] Let_def, folded c0_def]
  show ?thesis
  proof (cases inplace)
    case no: False
    obtain r1 c1 where "mul_into malloc a b r c0 = (Some (), r1, c1)" using mul_into_calm [OF m c0 r small] by blast
    then show ?thesis unfolding D using no by simp
  next
    case yes: True
    obtain k c1 where g: "BN_CTX_get malloc c0 = (Some k, c1)" "ctx_calm c1" using get_calm [OF m c0(2)] by blast
    have c1: "ctx_ok n c1" "bn_dynamic (ctx_val c1 k)" using get_spec [OF c0(1) g(1)] by auto
    obtain rr c2 where mi: "mul_into malloc a b (ctx_val c1 k) c1 = (Some (), rr, c2)"
      using mul_into_calm [OF m c1(1) g(2) bn_dynamicD(2) [OF c1(2)] small] by blast
    have "bn_ok rr" using mul_into_spec [OF serves_allocator [OF m] ok bn_dynamicD(1) [OF c1(2)] c1(1) mi] by simp
    then have "bn_width rr \<le> INT_MAX div 256" by (simp add: bn_ok_def)
    then obtain r2 where "BN_copy malloc rr r = (Some (), r2)" using copy_calm [OF m r] by blast
    then show ?thesis unfolding D using yes g mi by simp
  qed
qed

lemma mul_spec:
  assumes "allocator malloc" "bn_ok a" "bn_ok b" "bn_ok r" "ctx_ok n ctx" "depth (frames ctx) < n" "n < 2 ^ 30"
  shows "case BN_mul malloc inplace a b r ctx of
      None \<Rightarrow> inplace \<and> fst (BN_CTX_get malloc (BN_CTX_start malloc ctx)) = None
    | Some (e, r', ctx') \<Rightarrow> ctx_same n ctx ctx' \<and> bn_ok r' \<and>
        (e \<noteq> None \<longrightarrow> bn_canonical r' \<and> bn_int r' = bn_int a * bn_int b)"
proof (cases "bn_mul_impl malloc inplace a b r ctx")
  case None
  then show ?thesis using mul_impl_spec [OF assms, of inplace] by (simp add: BN_mul_def)
next
  case (Some x)
  obtain e r1 c1 where x: "x = (e, r1, c1)" by (cases x) auto
  note M = mul_impl_spec [OF assms, of inplace, unfolded Some x option.case prod.case]
  show ?thesis
  proof (cases e)
    case None
    then show ?thesis using M by (simp add: BN_mul_def Some x)
  next
    case e: (Some y)
    have r1: "bn_ok r1" "bn_mag r1 = bn_mag a * bn_mag b" "bn_mag r1 \<noteq> 0 \<longrightarrow> neg r1 = (neg a \<noteq> neg b)" using M e by simp_all
    note s = set_minimal_width [OF r1(1)]
    have "bn_int (bn_set_minimal_width r1) = bn_int a * bn_int b"
      using s r1 by (auto simp: bn_int_def)
    then show ?thesis using M e s by (auto simp: BN_mul_def Some x bn_canonical_def)
  qed
qed

text \<open>C6: \<open>BN_mul\<close> gives the exact product of the integers, with no negative zero, for operands of every width
  and sign (through the Comba, Karatsuba and schoolbook routines it chooses between), written to a number
  of its own or to an operand, and leaves the context as it found it. It succeeds whenever the allocator
  serves, the product is below the size limit and the context has no failure pending, and it dereferences
  the null pointer only when the result is an operand and no temporary can be had.\<close>

theorem bn_mul_exact:
  assumes "allocator malloc" "bn_ok a" "bn_ok b" "bn_ok r" "ctx_ok n ctx" "depth (frames ctx) < n" "n < 2 ^ 30"
  shows "(case BN_mul malloc inplace a b r ctx of
      None \<Rightarrow> inplace \<and> fst (BN_CTX_get malloc (BN_CTX_start malloc ctx)) = None
    | Some (e, r', ctx') \<Rightarrow> ctx_same n ctx ctx' \<and> bn_ok r' \<and>
        (e \<noteq> None \<longrightarrow> bn_canonical r' \<and> bn_int r' = bn_int a * bn_int b)) \<and>
    (serves malloc \<and> ctx_calm ctx \<and> \<not> bn_static r \<and> 8 * (bn_width a + bn_width b) \<le> INT_MAX div 256 \<longrightarrow>
      (\<exists>r' ctx'. BN_mul malloc inplace a b r ctx = Some (Some (), r', ctx')))"
proof (intro conjI impI)
  assume s: "serves malloc \<and> ctx_calm ctx \<and> \<not> bn_static r \<and> 8 * (bn_width a + bn_width b) \<le> INT_MAX div 256"
  then obtain r1 c1 where "bn_mul_impl malloc inplace a b r ctx = Some (Some (), r1, c1)"
    using mul_impl_calm [OF _ assms(2,3,5,6,7), of malloc r inplace] by blast
  then show "\<exists>r' ctx'. BN_mul malloc inplace a b r ctx = Some (Some (), r', ctx')" by (simp add: BN_mul_def)
qed (rule mul_spec [OF assms])

theorem bn_mul_exact_witness:
  "\<exists>r ctx. BN_mul zero_alloc False \<lparr>bn_d = [3], bn_width = 1, dmax = 1, neg = True, bn_static = False\<rparr>
      \<lparr>bn_d = [5, 1], bn_width = 2, dmax = 2, neg = False, bn_static = False\<rparr> BN_init BN_CTX_init = Some (Some (), r, ctx) \<and>
    bn_int r = - 15 - 3 * 2 ^ 64"
proof -
  let ?a = "\<lparr>bn_d = [3], bn_width = 1, dmax = 1, neg = True, bn_static = False\<rparr>"
  let ?b = "\<lparr>bn_d = [5, 1], bn_width = 2, dmax = 2, neg = False, bn_static = False\<rparr>"
  have v: "bn_int ?a = - 3" "bn_int ?b = 5 + 2 ^ 64" by (simp_all add: bn_int_def bn_mag_def)
  have e: "(case BN_mul zero_alloc False ?a ?b BN_init BN_CTX_init of None \<Rightarrow> False
      | Some (e, r', ctx') \<Rightarrow> e \<noteq> None \<longrightarrow> bn_int r' = bn_int ?a * bn_int ?b) \<and>
    (\<exists>r' ctx'. BN_mul zero_alloc False ?a ?b BN_init BN_CTX_init = Some (Some (), r', ctx'))"
    using bn_mul_exact [of zero_alloc ?a ?b BN_init 1 BN_CTX_init False] new_ctx_ok [of 1]
    by (auto simp: BN_CTX_init_def ctx_calm_def bn_ok_def INT_MAX_def BN_init_def)
  then obtain r' ctx' where r: "BN_mul zero_alloc False ?a ?b BN_init BN_CTX_init = Some (Some (), r', ctx')" by blast
  then have "bn_int r' = bn_int ?a * bn_int ?b" using e by simp
  then show ?thesis using r unfolding v by simp
qed

text \<open>C37: When the result is one of the operands and no temporary can be had, \<open>BN_mul\<close> and \<open>bn_mul_consttime\<close>
  dereference the null pointer instead of failing.\<close>

theorem bn_mul_null_deref:
  assumes "0 < bn_width a" "0 < bn_width b" "fst (BN_CTX_get malloc (BN_CTX_start malloc ctx)) = None"
  shows "BN_mul malloc True a b a ctx = None \<and> (\<not> neg a \<and> \<not> neg b \<longrightarrow> bn_mul_consttime malloc True a b a ctx = None)"
proof -
  have "bn_mul_impl malloc True a b a ctx = None"
    using assms by (auto simp: bn_mul_impl_def Let_def split: option.splits prod.splits)
  then show ?thesis by (simp add: BN_mul_def bn_mul_consttime_def)
qed

theorem bn_mul_null_deref_witness:
  "BN_mul (\<lambda>_. None) True BN_value_one BN_value_one BN_value_one BN_CTX_init = None"
  using bn_mul_null_deref [of BN_value_one BN_value_one "\<lambda>_. None" BN_CTX_init]
  by (simp add: BN_value_one_def BN_CTX_init_def BN_CTX_start_def BN_CTX_get_def BN_STACK_push_def OPENSSL_malloc_def
      andthen_def fail_def Let_def split: if_splits)

section \<open>The other operations\<close>

lemma mul_word_spec:
  assumes al: "allocator malloc" and ok: "bn_ok a" and u: "BN_mul_word malloc w a = (res, a')"
  shows "case res of None \<Rightarrow> fst (bn_wexpand malloc (bn_width a + 1) a) = None
    | Some _ \<Rightarrow> bn_ok a' \<and> bn_mag a' = bn_mag a * unat w \<and> (bn_mag a' \<noteq> 0 \<longrightarrow> neg a' = neg a)"
proof (cases "bn_width a = 0 \<or> w = 0")
  case True
  then show ?thesis using u ok by (auto simp: BN_mul_word_def BN_zero_def bn_ok_def bn_mag_def split: if_splits)
next
  case False
  define n where "n = bn_width a"
  obtain ws ll where m: "bn_mul_words (bn_d a) n w = (ws, ll)" by (cases "bn_mul_words (bn_d a) n w")
  have l: "n \<le> length (bn_d a)" using bn_okD [OF ok] by (simp add: n_def)
  have M: "bn_val ws + 2 ^ (64 * n) * unat ll = bn_mag a * unat w" "length ws = n"
    using mul_words_val [OF m l] by (simp_all add: bn_mag_def n_def)
  define b where "b = a\<lparr>bn_d := splice 0 ws (bn_d a)\<rparr>"
  have b: "bn_ok b" "take n (bn_d b) = ws" "bn_width b = n" "neg b = neg a" "bn_mag b = bn_val ws"
    using ok M(2) l by (auto simp: b_def bn_ok_def bn_mag_def n_def splice_def)
  show ?thesis
  proof (cases "ll = 0")
    case True
    then have "res = Some ()" "a' = b" using u False m by (auto simp: BN_mul_word_def b_def n_def)
    then show ?thesis using b M(1) True by simp
  next
    case ll: False
    obtain e c where x: "bn_wexpand malloc (n + 1) b = (e, c)" by (cases "bn_wexpand malloc (n + 1) b")
    note W = wexpand_ok [OF al b(1) x]
    show ?thesis
    proof (cases e)
      case None
      have "fst (bn_wexpand malloc (n + 1) a) = None" using x None by (auto simp: bn_wexpand_def b_def split: if_splits option.splits)
      moreover have "res = None" using u False m ll x None by (simp add: BN_mul_word_def b_def n_def Let_def andthen_def)
      ultimately show ?thesis by (simp add: n_def)
    next
      case (Some y)
      have c: "bn_ok c" "n < length (bn_d c)" "bn_width c = n" "neg c = neg a" "take n (bn_d c) = ws"
        using W Some b by (simp_all add: bn_ok_def)
      have r: "res = Some ()" "a' = c\<lparr>bn_d := (bn_d c)[n := ll], bn_width := n + 1\<rparr>"
        using u False m ll x Some c(3) b(3) by (auto simp: BN_mul_word_def b_def n_def Let_def andthen_def)
      have "take (n + 1) ((bn_d c)[n := ll]) = ws @ [ll]" using c by (simp add: take_Suc_conv_app_nth)
      then have "bn_part (n + 1) ((bn_d c)[n := ll]) = bn_mag a * unat w" using M by (simp add: bn_val_append)
      then show ?thesis using r c by (simp add: bn_ok_def bn_mag_def [of "c\<lparr>bn_d := x, bn_width := y\<rparr>" for x y])
    qed
  qed
qed

lemma power_of_two_nat: "n AND (n - 1) = 0 \<Longrightarrow> 0 < n \<Longrightarrow> \<exists>k. n = (2 :: nat) ^ k"
proof (induction n rule: less_induct)
  case (less n)
  have r: "n AND (n - 1) = of_bool (odd n \<and> odd (n - 1)) + 2 * ((n div 2) AND ((n - 1) div 2))" by (rule and_rec)
  show ?case
  proof (cases "odd n")
    case True
    then have "(n - 1) div 2 = n div 2" using less.prems(2) by (auto elim!: oddE)
    then have "n div 2 = 0" using r less.prems(1) by simp
    then have "n = 2 ^ 0" using less.prems(2) by (simp add: div_eq_0_iff)
    then show ?thesis by blast
  next
    case False
    then obtain m where m: "n = 2 * m" by (auto elim: evenE)
    have "m AND (m - 1) = 0" using r less.prems False by (cases m) (simp_all add: m)
    then obtain k where "m = 2 ^ k" using less.IH [of m] less.prems(2) m by auto
    then have "n = 2 ^ Suc k" by (simp add: m)
    then show ?thesis by blast
  qed
qed

lemma power_of_two_word: "(of_nat n :: u32) AND (of_nat n - 1) = 0 \<Longrightarrow> 0 < n \<Longrightarrow> n < 2 ^ 32 \<Longrightarrow> \<exists>k. n = 2 ^ k"
proof -
  assume a: "(of_nat n :: u32) AND (of_nat n - 1) = 0" and n: "0 < n" "n < 2 ^ 32"
  have u: "unat (of_nat n :: u32) = n" unfolding unat_of_nat using n(2) by simp
  have "unat (of_nat n - 1 :: u32) = n - 1" using n by (simp only: unat_sub_if' u) simp
  then have "n AND (n - 1) = unat ((of_nat n :: u32) AND (of_nat n - 1))" unfolding unsigned_and_eq u by simp
  also have "\<dots> = 0" unfolding a by simp
  finally show ?thesis using power_of_two_nat n(1) by blast
qed

lemma sqr_into_spec:
  assumes al: "allocator malloc" and ok: "bn_ok a" "bn_ok rr" "0 < bn_width a" and c: "ctx_ok n c" "t < length (vals (pool c))"
    and u: "sqr_into malloc a t rr c = (e, rr', c')"
  shows "ctx_inside n c c' \<and> bn_ok rr' \<and> bn_static rr' = bn_static rr \<and>
    (e \<noteq> None \<longrightarrow> bn_mag rr' = (bn_mag a)\<^sup>2 \<and> \<not> neg rr')"
proof -
  define A where "A = bn_width a"
  have l: "A \<le> length (bn_d a)" using bn_okD [OF ok(1)] by (simp add: A_def)
  have A: "0 < A" "A < 2 ^ 31" using ok by (simp_all add: A_def bn_ok_def INT_MAX_def)
  have part: "bn_mag a = bn_part A (bn_d a)" by (simp add: bn_mag_def A_def)
  obtain e1 b where x: "bn_wexpand malloc (2 * A) rr = (e1, b)" by (cases "bn_wexpand malloc (2 * A) rr")
  note W = wexpand_ok [OF al ok(2) x] and S = static_wexpand [OF x]
  show ?thesis
  proof (cases e1)
    case None
    then show ?thesis using u x W S inside_refl [OF c(1)] by (auto simp: sqr_into_def Let_def A_def)
  next
    case (Some y)
    define finish where "finish = (\<lambda>ws. b\<lparr>bn_d := splice 0 ws (bn_d b), neg := False, bn_width := 2 * A\<rparr>)"
    have b: "bn_ok b" "2 * A \<le> length (bn_d b)" using W Some by (simp_all add: bn_ok_def)
    have fin: "bn_ok (finish ws) \<and> bn_static (finish ws) = bn_static rr \<and> bn_mag (finish ws) = (bn_mag a)\<^sup>2 \<and> \<not> neg (finish ws)"
      if "length ws = 2 * A \<and> bn_val ws = (bn_mag a)\<^sup>2" for ws
      using write_words [of ws "bn_d b"] that b S
      by (simp add: finish_def bn_ok_def bn_mag_def [of "b\<lparr>bn_d := x, neg := z, bn_width := y\<rparr>" for x y z])
    have U: "(if A = 4 then (Some (), finish (bn_sqr_comba4 (bn_d a)), c)
        else if A = 8 then (Some (), finish (bn_sqr_comba8 (bn_d a)), c)
        else if A < 16 then (Some (), finish (bn_sqr_normal (bn_d b) (bn_d a) A), c)
        else if (of_nat A :: u32) AND (of_nat A - 1) = 0
        then (case expand_temp malloc (A * 4) t c of (None, ctx) \<Rightarrow> (None, b, ctx)
              | (Some _, ctx) \<Rightarrow> (Some (), finish (bn_sqr_recursive (bn_d b) (bn_d a) A), ctx))
        else (case expand_temp malloc (2 * A) t c of (None, ctx) \<Rightarrow> (None, b, ctx)
              | (Some _, ctx) \<Rightarrow> (Some (), finish (bn_sqr_normal (bn_d b) (bn_d a) A), ctx))) = (e, rr', c')"
      using u x Some unfolding sqr_into_def Let_def A_def [symmetric] finish_def by simp
    have normal: "length (bn_sqr_normal (bn_d b) (bn_d a) A) = 2 * A \<and> bn_val (bn_sqr_normal (bn_d b) (bn_d a) A) = (bn_mag a)\<^sup>2"
      using sqr_normal_val [of A "bn_d a" "bn_d b"] l b(2) part by simp
    consider "A = 4" | "A = 8" | "A \<noteq> 4" "A \<noteq> 8" "A < 16" | (pow) "16 \<le> A" "(of_nat A :: u32) AND (of_nat A - 1) = 0"
      | (long) "16 \<le> A" "(of_nat A :: u32) AND (of_nat A - 1) \<noteq> 0" by linarith
    then show ?thesis
    proof cases
      case 1
      then show ?thesis using U fin [of "bn_sqr_comba4 (bn_d a)"] sqr_comba_val(2) [of "bn_d a"] l part inside_refl [OF c(1)] by simp
    next
      case 2
      then show ?thesis using U fin [of "bn_sqr_comba8 (bn_d a)"] sqr_comba_val(1) [of "bn_d a"] l part inside_refl [OF c(1)] by simp
    next
      case 3
      then show ?thesis using U fin [OF normal] inside_refl [OF c(1)] by simp
    next
      case pow
      obtain k where k: "A = 2 ^ k" using power_of_two_word [OF pow(2) A(1)] A(2) by auto
      obtain e2 c2 where p: "expand_temp malloc (A * 4) t c = (e2, c2)" by (cases "expand_temp malloc (A * 4) t c")
      have "length (bn_sqr_recursive (bn_d b) (bn_d a) A) = 2 * A \<and> bn_val (bn_sqr_recursive (bn_d b) (bn_d a) A) = (bn_mag a)\<^sup>2"
        using sqr_recursive_val [OF l k] pow(1) part by simp
      from fin [OF this] show ?thesis using U pow p inside_expand [OF al c p] b(1) S by (cases e2) auto
    next
      case long
      obtain e2 c2 where p: "expand_temp malloc (2 * A) t c = (e2, c2)" by (cases "expand_temp malloc (2 * A) t c")
      from fin [OF normal] show ?thesis using U long p inside_expand [OF al c p] b(1) S by (cases e2) auto
    qed
  qed
qed

lemma sqr_consttime_spec:
  assumes al: "allocator malloc" and ok: "bn_ok a" "bn_ok r" and c: "ctx_ok n ctx" "depth (frames ctx) < n" "n < 2 ^ 30"
    and u: "bn_sqr_consttime malloc inplace a r ctx = (e, r', ctx')"
  shows "ctx_same n ctx ctx' \<and> bn_ok r' \<and> (e \<noteq> None \<longrightarrow> bn_mag r' = (bn_mag a)\<^sup>2 \<and> \<not> neg r')"
proof (cases "bn_width a = 0")
  case True
  then have "bn_mag a = 0" by (simp add: bn_mag_def)
  then show ?thesis using True u ok(2) c(1) by (auto simp: bn_sqr_consttime_def ctx_same_def bn_ok_def bn_mag_def)
next
  case False
  define c0 where "c0 = BN_CTX_start malloc ctx"
  have c0: "ctx_ok n c0" unfolding c0_def using start_ok [OF al c] .
  have fin: "ctx_same n ctx (BN_CTX_end x)" if "ctx_inside n c0 x" for x
    using frame_same [OF al c] that by (simp add: ctx_inside_def c0_def)
  note U = u [unfolded bn_sqr_consttime_def if_not_P [OF False] Let_def, folded c0_def]
  obtain g c1 where g: "BN_CTX_get malloc c0 = (g, c1)" by (cases "BN_CTX_get malloc c0")
  have i1: "ctx_inside n c0 c1" by (rule inside_get [OF c0 g])
  then have c1: "ctx_ok n c1" by (simp add: ctx_inside_def)
  have pos: "0 < bn_width a" using False by simp
  show ?thesis
  proof (cases inplace)
    case no: False
    show ?thesis
    proof (cases g)
      case None
      then show ?thesis using U no g fin [OF i1] ok(2) by auto
    next
      case (Some t)
      have t: "t < length (vals (pool c1))" using get_spec [OF c0 g] Some by auto
      obtain e1 r1 c2 where m: "sqr_into malloc a t r c1 = (e1, r1, c2)" by (cases "sqr_into malloc a t r c1") auto
      note M = sqr_into_spec [OF al ok pos c1 t m]
      have "e = e1" "r' = r1" "ctx' = BN_CTX_end c2" using U no g Some m by auto
      then show ?thesis using M fin [of c2] inside_trans [OF i1] by blast
    qed
  next
    case yes: True
    obtain h c2 where h: "BN_CTX_get malloc c1 = (h, c2)" by (cases "BN_CTX_get malloc c1")
    have i2: "ctx_inside n c0 c2" using inside_trans [OF i1] inside_get [OF c1 h] by blast
    then have c2: "ctx_ok n c2" by (simp add: ctx_inside_def)
    show ?thesis
    proof (cases "g = None \<or> h = None")
      case True
      then have "e = None" "r' = r" "ctx' = BN_CTX_end c2" using U yes g h by (auto split: option.splits)
      then show ?thesis using fin [OF i2] ok(2) by simp
    next
      case False
      then obtain k t where kt: "g = Some k" "h = Some t" by auto
      have K: "k < length (vals (pool c2))" "t < length (vals (pool c2))"
        using get_spec [OF c0 g] get_spec [OF c1 h] kt by auto
      have kv: "bn_dynamic (ctx_val c2 k)" by (rule val_ok [OF c2 K(1)])
      obtain e1 rr c3 where m: "sqr_into malloc a t (ctx_val c2 k) c2 = (e1, rr, c3)"
        by (cases "sqr_into malloc a t (ctx_val c2 k) c2") auto
      note M = sqr_into_spec [OF al ok(1) bn_dynamicD(1) [OF kv] pos c2 K(2) m]
      have "ctx_ok n c3" "bn_dynamic rr" using M kv by (simp_all add: ctx_inside_def bn_dynamic_def)
      then have i3: "ctx_inside n c0 (ctx_put k rr c3)" using M inside_trans [OF i2] inside_trans inside_put by blast
      show ?thesis
      proof (cases e1)
        case None
        then have "e = None" "r' = r" "ctx' = BN_CTX_end (ctx_put k rr c3)" using U yes g h kt m by auto
        then show ?thesis using fin [OF i3] ok(2) by simp
      next
        case (Some y)
        obtain e2 r2 where cp: "BN_copy malloc rr r = (e2, r2)" by (cases "BN_copy malloc rr r")
        have "e = e2" "r' = r2" "ctx' = BN_CTX_end (ctx_put k rr c3)" using U yes g h kt m Some cp by auto
        then show ?thesis using fin [OF i3] copy_spec [OF al _ ok(2) cp] M Some ok(2) by (cases e2) auto
      qed
    qed
  qed
qed

lemma sqr_spec:
  assumes "allocator malloc" "bn_ok a" "bn_ok r" "ctx_ok n ctx" "depth (frames ctx) < n" "n < 2 ^ 30"
    and u: "BN_sqr malloc inplace a r ctx = (e, r', ctx')"
  shows "ctx_same n ctx ctx' \<and> bn_ok r' \<and> (e \<noteq> None \<longrightarrow> bn_int r' = (bn_int a)\<^sup>2 \<and> bn_canonical r')"
proof -
  obtain e1 r1 c1 where s: "bn_sqr_consttime malloc inplace a r ctx = (e1, r1, c1)"
    by (cases "bn_sqr_consttime malloc inplace a r ctx") auto
  note S = sqr_consttime_spec [OF assms(1-6) s]
  have "(e, r', ctx') = (case e1 of None \<Rightarrow> (None, r1, c1) | Some _ \<Rightarrow> (Some (), bn_set_minimal_width r1, c1))"
    using u s by (auto simp: BN_sqr_def split: option.splits)
  then show ?thesis using S set_minimal_width [of r1]
    by (cases e1) (auto simp: bn_int_def bn_canonical_def)
qed

lemma abs_sub_spec:
  assumes al: "allocator malloc" and ok: "bn_ok a" "bn_ok b" "bn_ok r" and c: "ctx_ok n ctx" "depth (frames ctx) < n" "n < 2 ^ 30"
    and u: "bn_abs_sub_consttime malloc a b r ctx = (e, r', ctx')"
  shows "ctx_same n ctx ctx' \<and> bn_ok r' \<and> neg r' = neg r \<and>
    (e \<noteq> None \<longrightarrow> int (bn_mag r') = \<bar>int (bn_mag a) - int (bn_mag b)\<bar>)"
proof -
  define c0 where "c0 = BN_CTX_start malloc ctx"
  define A B where "A = bn_width a" and "B = bn_width b"
  have c0: "ctx_ok n c0" unfolding c0_def using start_ok [OF al c] .
  have fin: "ctx_same n ctx (BN_CTX_end x)" if "ctx_inside n c0 x" for x
    using frame_same [OF al c] that by (simp add: ctx_inside_def c0_def)
  note U = u [unfolded bn_abs_sub_consttime_def Let_def, folded c0_def A_def B_def]
  obtain g c1 where g: "BN_CTX_get malloc c0 = (g, c1)" by (cases "BN_CTX_get malloc c0")
  have i1: "ctx_inside n c0 c1" by (rule inside_get [OF c0 g])
  then have c1: "ctx_ok n c1" by (simp add: ctx_inside_def)
  show ?thesis
  proof (cases g)
    case None
    then show ?thesis using U g fin [OF i1] ok(3) by auto
  next
    case (Some t)
    have t: "t < length (vals (pool c1))" using get_spec [OF c0 g] Some by auto
    obtain e1 r1 where x: "bn_wexpand malloc (max A B) r = (e1, r1)" by (cases "bn_wexpand malloc (max A B) r")
    note W = wexpand_ok [OF al ok(3) x]
    show ?thesis
    proof (cases e1)
      case None
      then show ?thesis using U g Some x fin [OF i1] W by auto
    next
      case e1: (Some y)
      obtain e2 c2 where p: "expand_temp malloc (max A B) t c1 = (e2, c2)" by (cases "expand_temp malloc (max A B) t c1")
      have i2: "ctx_inside n c0 c2" using inside_trans [OF i1] inside_expand [OF al c1 t p] by blast
      show ?thesis
      proof (cases e2)
        case None
        then show ?thesis using U g Some x e1 p fin [OF i2] W by auto
      next
        case e2: (Some z)
        obtain ws msk where s: "bn_abs_sub_part_words (bn_d a) (bn_d b) (min A B) (int A - int B) = (ws, msk)"
          by (cases "bn_abs_sub_part_words (bn_d a) (bn_d b) (min A B) (int A - int B)")
        have r: "e = Some ()" "r' = r1\<lparr>bn_d := splice 0 ws (bn_d r1), bn_width := max A B\<rparr>" "ctx' = BN_CTX_end c2"
          using U g Some x e1 p e2 s by auto
        have n: "min A B + nat (int A - int B) = A" "min A B + nat (int B - int A) = B" "min A B + nat \<bar>int A - int B\<bar> = max A B"
          by auto
        have S: "int (bn_val ws) = \<bar>int (bn_mag a) - int (bn_mag b)\<bar>" "length ws = max A B"
          using abs_sub_part_words_val [OF s] bn_okD [OF ok(1)] bn_okD [OF ok(2)]
          by (simp_all add: n A_def [symmetric] B_def [symmetric] bn_mag_def)
        have "bn_part (max A B) (splice 0 ws (bn_d r1)) = bn_val ws \<and> length (splice 0 ws (bn_d r1)) = length (bn_d r1)"
          using write_words [of ws "bn_d r1"] W e1 S(2) by (simp add: bn_ok_def)
        then show ?thesis using r fin [OF i2] W e1 S
          by (simp add: bn_ok_def bn_mag_def [of "r1\<lparr>bn_d := x, bn_width := y\<rparr>" for x y])
      qed
    qed
  qed
qed

text \<open>Bit \<open>i\<close> of the distance shifts by \<open>2^i\<close>; \<open>L\<close> is the number of rounds.\<close>

lemma secret_shift_loop_val:
  assumes L: "\<And>j. mb div 2 ^ j = 0 \<longleftrightarrow> L \<le> j" and "w \<le> length d"
  shows "length (secret_shift_loop mb n i w d) = length d \<and>
    bn_part w (secret_shift_loop mb n i w d) = drop_bit (2 ^ i * (n div 2 ^ i mod 2 ^ (L - i))) (bn_part w d)"
  using assms
proof (induction mb n i w d rule: secret_shift_loop.induct)
  case (1 mb n i w d)
  note L = "1.prems"(1) and w = "1.prems"(2)
  show ?case
    proof (cases "mb div 2 ^ i = 0")
      case True
      then show ?thesis using L [of i] by (subst (1 2) secret_shift_loop.simps) simp
    next
      case False
      define x where "x = n div 2 ^ i"
      define msk :: u64 where "msk = 0 - of_nat (n div 2 ^ i mod 2)"
      define tmp where "tmp = bn_rshift_words d (2 ^ i) w"
      define d1 where "d1 = splice 0 (bn_select_words msk tmp d w) d"
      have bit: "x mod 2 = 0 \<or> x mod 2 = 1" by auto
      have m: "msk = (if x mod 2 = 0 then 0 else NOT 0)" using bit by (auto simp: msk_def x_def [symmetric])
      have T: "length tmp = w" "bn_val tmp = drop_bit (2 ^ i) (bn_part w d)" using rshift_words [OF w] by (simp_all add: tmp_def)
      have s: "bn_select_words msk tmp d w = (if x mod 2 = 0 then take w d else tmp)"
        using select_words [of w tmp d "x mod 2 \<noteq> 0"] m w T(1) by (auto split: if_splits)
      have D: "length d1 = length d" "bn_part w d1 = drop_bit (2 ^ i * (x mod 2)) (bn_part w d)"
        using write_words [of "bn_select_words msk tmp d w" d] s w T bit unfolding d1_def [symmetric] by auto
      have step: "secret_shift_loop mb n i w d = secret_shift_loop mb n (Suc i) w d1"
        using False by (subst secret_shift_loop.simps) (simp add: Let_def msk_def tmp_def d1_def)
      have IH: "length (secret_shift_loop mb n (Suc i) w d1) = length d1 \<and>
          bn_part w (secret_shift_loop mb n (Suc i) w d1) = drop_bit (2 ^ Suc i * (n div 2 ^ Suc i mod 2 ^ (L - Suc i))) (bn_part w d1)"
        using "1.IH" [OF False msk_def tmp_def] L w D(1) unfolding d1_def by simp
      have "L - i = Suc (L - Suc i)" using False L [of i] by simp
      then have "x mod 2 ^ (L - i) = x mod 2 + 2 * (x div 2 mod 2 ^ (L - Suc i))"
        using mod_mult2_eq [of x 2 "2 ^ (L - Suc i)"] by simp
      moreover have "n div 2 ^ Suc i = x div 2" unfolding x_def by (simp only: div_mult2_eq [symmetric] power_Suc2)
      ultimately have "2 ^ i * (x mod 2 ^ (L - i)) = 2 ^ i * (x mod 2) + 2 ^ Suc i * (n div 2 ^ Suc i mod 2 ^ (L - Suc i))"
        by (simp add: algebra_simps)
      then show ?thesis using IH D unfolding step x_def [symmetric] by (simp add: drop_bit_drop_bit add.commute)
    qed
qed

text \<open>The number of bits of a width; the loop makes as many rounds.\<close>

definition shift_rounds :: "nat \<Rightarrow> nat" where
  "shift_rounds w = (LEAST L. 64 * w < 2 ^ L)"

lemma shift_rounds: "64 * w div 2 ^ j = 0 \<longleftrightarrow> shift_rounds w \<le> j"
proof -
  have ex: "64 * w < 2 ^ shift_rounds w" unfolding shift_rounds_def by (rule LeastI [of _ "64 * w"]) (rule less_exp)
  have "64 * w < 2 ^ j \<longleftrightarrow> shift_rounds w \<le> j"
  proof
    assume "64 * w < 2 ^ j"
    then show "shift_rounds w \<le> j" unfolding shift_rounds_def by (rule Least_le)
  next
    assume "shift_rounds w \<le> j"
    then have "(2 :: nat) ^ shift_rounds w \<le> 2 ^ j" by (intro power_increasing) simp_all
    with ex show "64 * w < 2 ^ j" by linarith
  qed
  then show ?thesis by (simp add: div_eq_0_iff)
qed

lemma secret_shift_spec:
  assumes al: "allocator malloc" and ok: "bn_ok a" "bn_ok r" and c: "ctx_ok m ctx" "depth (frames ctx) < m" "m < 2 ^ 30"
    and u: "bn_rshift_secret_shift malloc a n r ctx = (e, r', ctx')"
  shows "ctx_same m ctx ctx' \<and> bn_ok r' \<and>
    (e \<noteq> None \<longrightarrow> bn_mag r' = drop_bit (n mod 2 ^ shift_rounds (bn_width a)) (bn_mag a) \<and> neg r' = neg a)"
proof -
  define c0 where "c0 = BN_CTX_start malloc ctx"
  have c0: "ctx_ok m c0" unfolding c0_def using start_ok [OF al c] .
  have fin: "ctx_same m ctx (BN_CTX_end x)" if "ctx_inside m c0 x" for x
    using frame_same [OF al c] that by (simp add: ctx_inside_def c0_def)
  note U = u [unfolded bn_rshift_secret_shift_def Let_def, folded c0_def]
  obtain g c1 where g: "BN_CTX_get malloc c0 = (g, c1)" by (cases "BN_CTX_get malloc c0")
  have i1: "ctx_inside m c0 c1" by (rule inside_get [OF c0 g])
  then have c1: "ctx_ok m c1" by (simp add: ctx_inside_def)
  show ?thesis
  proof (cases g)
    case None
    then show ?thesis using U g fin [OF i1] ok(2) by auto
  next
    case (Some t)
    have t: "t < length (vals (pool c1))" using get_spec [OF c0 g] Some by auto
    obtain e1 r1 where x: "BN_copy malloc a r = (e1, r1)" by (cases "BN_copy malloc a r")
    note C = copy_spec [OF al ok x]
    show ?thesis
    proof (cases e1)
      case None
      then show ?thesis using U g Some x fin [OF i1] C ok(2) by auto
    next
      case e1: (Some y)
      obtain e2 c2 where p: "expand_temp malloc (bn_width r1) t c1 = (e2, c2)" by (cases "expand_temp malloc (bn_width r1) t c1")
      have i2: "ctx_inside m c0 c2" using inside_trans [OF i1] inside_expand [OF al c1 t p] by blast
      have r1: "bn_ok r1" "bn_mag r1 = bn_mag a" "neg r1 = neg a" "bn_width r1 = bn_width a" using C e1 by simp_all
      show ?thesis
      proof (cases e2)
        case None
        then show ?thesis using U g Some x e1 p fin [OF i2] r1 by auto
      next
        case e2: (Some z)
        define w d where "w = bn_width a" and "d = secret_shift_loop (64 * bn_width a) n 0 (bn_width a) (bn_d r1)"
        have r: "e = Some ()" "r' = r1\<lparr>bn_d := d\<rparr>" "ctx' = BN_CTX_end c2"
          using U g Some x e1 p e2 r1(4) by (auto simp: d_def)
        have "w \<le> length (bn_d r1)" using bn_okD [OF r1(1)] r1(4) by (simp add: w_def)
        then have "length d = length (bn_d r1) \<and> bn_part w d = drop_bit (n mod 2 ^ shift_rounds w) (bn_part w (bn_d r1))"
          using secret_shift_loop_val [of "64 * w" "shift_rounds w" w "bn_d r1" n 0] shift_rounds unfolding w_def d_def by simp
        then show ?thesis using r fin [OF i2] r1 unfolding w_def by (simp add: bn_ok_def bn_mag_def)
      qed
    qed
  qed
qed

lemma short_shift: "n \<le> 64 * w \<Longrightarrow> n mod 2 ^ shift_rounds w = n"
proof -
  assume "n \<le> 64 * w"
  moreover have "64 * w < 2 ^ shift_rounds w" unfolding shift_rounds_def by (rule LeastI [of _ "64 * w"]) (rule less_exp)
  ultimately show ?thesis by simp
qed

section \<open>The remaining operations in calm conditions\<close>

lemma sqr_into_calm:
  assumes m: "serves malloc" and c: "ctx_ok n c" "ctx_calm c" "t < length (vals (pool c))" and rr: "\<not> bn_static rr"
    and small: "4 * bn_width a \<le> INT_MAX div 256"
  shows "\<exists>rr' c'. sqr_into malloc a t rr c = (Some (), rr', c')"
proof -
  have s: "bn_width a * 4 \<le> INT_MAX div 256" "2 * bn_width a \<le> INT_MAX div 256" using small by auto
  obtain b where "bn_wexpand malloc (2 * bn_width a) rr = (Some (), b)" using wexpand_serves [OF m s(2) rr] by blast
  moreover obtain c1 where "expand_temp malloc (bn_width a * 4) t c = (Some (), c1)" using expand_calm [OF m c(1,3,2) s(1)] by blast
  moreover obtain c2 where "expand_temp malloc (2 * bn_width a) t c = (Some (), c2)" using expand_calm [OF m c(1,3,2) s(2)] by blast
  ultimately show ?thesis by (simp add: sqr_into_def Let_def)
qed

lemma frame_calm:
  assumes "serves malloc" "ctx_ok n ctx" "depth (frames ctx) < n" "n < 2 ^ 30" "ctx_calm ctx"
  shows "\<exists>k c. BN_CTX_get malloc (BN_CTX_start malloc ctx) = (Some k, c) \<and> ctx_ok n c \<and> ctx_calm c \<and>
    k < length (vals (pool c)) \<and> bn_dynamic (ctx_val c k)"
proof -
  have c0: "ctx_ok n (BN_CTX_start malloc ctx)" "ctx_calm (BN_CTX_start malloc ctx)"
    using start_ok [OF serves_allocator [OF assms(1)] assms(2-4)] start_calm [OF assms(1,2,4,5)] by simp_all
  obtain k c where g: "BN_CTX_get malloc (BN_CTX_start malloc ctx) = (Some k, c)" "ctx_calm c" using get_calm [OF assms(1) c0(2)] by blast
  then show ?thesis using get_spec [OF c0(1) g(1)] by auto
qed

lemma sqr_calm:
  assumes m: "serves malloc" and ok: "bn_ok a" and c: "ctx_ok n ctx" "depth (frames ctx) < n" "n < 2 ^ 30" "ctx_calm ctx"
    and r: "\<not> bn_static r" and small: "4 * bn_width a \<le> INT_MAX div 256"
  shows "\<exists>r' ctx'. BN_sqr malloc inplace a r ctx = (Some (), r', ctx')"
proof (cases "bn_width a = 0")
  case True
  then show ?thesis by (simp add: BN_sqr_def bn_sqr_consttime_def)
next
  case False
  obtain k c1 where g: "BN_CTX_get malloc (BN_CTX_start malloc ctx) = (Some k, c1)" "ctx_ok n c1" "ctx_calm c1" "k < length (vals (pool c1))"
    using frame_calm [OF m c] by blast
  note D = bn_sqr_consttime_def [of malloc inplace a r ctx, unfolded if_not_P [OF False] Let_def g(1) prod.case option.case]
  have "\<exists>r' ctx'. bn_sqr_consttime malloc inplace a r ctx = (Some (), r', ctx')"
  proof (cases inplace)
    case no: False
    show ?thesis unfolding D using no sqr_into_calm [OF m g(2,3,4) r small] by auto
  next
    case yes: True
    obtain t c2 where h: "BN_CTX_get malloc c1 = (Some t, c2)" "ctx_calm c2" using get_calm [OF m g(3)] by blast
    have h2: "ctx_ok n c2" "t < length (vals (pool c2))" "k < length (vals (pool c2))"
      using get_spec [OF g(2) h(1)] get_spec [OF start_ok [OF serves_allocator [OF m] c(1-3)] g(1)] by auto
    have kv: "bn_dynamic (ctx_val c2 k)" by (rule val_ok [OF h2(1,3)])
    obtain rr c3 where s: "sqr_into malloc a t (ctx_val c2 k) c2 = (Some (), rr, c3)"
      using sqr_into_calm [OF m h2(1) h(2) h2(2) bn_dynamicD(2) [OF kv] small] by blast
    have "bn_ok rr" using sqr_into_spec [OF serves_allocator [OF m] ok bn_dynamicD(1) [OF kv] _ h2(1,2) s] False by simp
    then have "bn_width rr \<le> INT_MAX div 256" by (simp add: bn_ok_def)
    then obtain r2 where "BN_copy malloc rr r = (Some (), r2)" using copy_calm [OF m r] by blast
    then show ?thesis unfolding D using yes h s by simp
  qed
  then show ?thesis by (auto simp: BN_sqr_def)
qed

lemma abs_sub_calm:
  assumes m: "serves malloc" and c: "ctx_ok n ctx" "depth (frames ctx) < n" "n < 2 ^ 30" "ctx_calm ctx"
    and r: "\<not> bn_static r" and small: "max (bn_width a) (bn_width b) \<le> INT_MAX div 256"
  shows "\<exists>r' ctx'. bn_abs_sub_consttime malloc a b r ctx = (Some (), r', ctx')"
proof -
  obtain t c1 where g: "BN_CTX_get malloc (BN_CTX_start malloc ctx) = (Some t, c1)" "ctx_ok n c1" "ctx_calm c1" "t < length (vals (pool c1))"
    using frame_calm [OF m c] by blast
  obtain r1 where "bn_wexpand malloc (max (bn_width a) (bn_width b)) r = (Some (), r1)" using wexpand_serves [OF m small r] by blast
  moreover obtain c2 where "expand_temp malloc (max (bn_width a) (bn_width b)) t c1 = (Some (), c2)"
    using expand_calm [OF m g(2,4,3) small] by blast
  ultimately show ?thesis unfolding bn_abs_sub_consttime_def Let_def g(1) by simp
qed

lemma secret_shift_calm:
  assumes m: "serves malloc" and ok: "bn_ok a" "bn_ok r" and c: "ctx_ok n ctx" "depth (frames ctx) < n" "n < 2 ^ 30" "ctx_calm ctx"
    and r: "\<not> bn_static r"
  shows "\<exists>r' ctx'. bn_rshift_secret_shift malloc a k r ctx = (Some (), r', ctx')"
proof -
  obtain t c1 where g: "BN_CTX_get malloc (BN_CTX_start malloc ctx) = (Some t, c1)" "ctx_ok n c1" "ctx_calm c1" "t < length (vals (pool c1))"
    using frame_calm [OF m c] by blast
  have w: "bn_width a \<le> INT_MAX div 256" using ok(1) by (simp add: bn_ok_def)
  obtain r1 where r1: "BN_copy malloc a r = (Some (), r1)" using copy_calm [OF m r w] by blast
  have "bn_width r1 = bn_width a" using copy_spec [OF serves_allocator [OF m] ok r1] by simp
  then obtain c2 where "expand_temp malloc (bn_width r1) t c1 = (Some (), c2)" using expand_calm [OF m g(2,4,3)] w by metis
  then show ?thesis unfolding bn_rshift_secret_shift_def Let_def g(1) using r1 by simp
qed

lemma mul_word_calm:
  assumes "serves malloc" "\<not> bn_static a" "bn_width a + 1 \<le> INT_MAX div 256"
  shows "\<exists>a'. BN_mul_word malloc w a = (Some (), a')"
proof -
  obtain ws ll where "bn_mul_words (bn_d a) (bn_width a) w = (ws, ll)" by (cases "bn_mul_words (bn_d a) (bn_width a) w")
  moreover obtain b where "bn_wexpand malloc (bn_width a + 1) (a\<lparr>bn_d := splice 0 ws (bn_d a)\<rparr>) = (Some (), b)"
    using wexpand_serves [OF assms(1,3)] assms(2) by fastforce
  ultimately show ?thesis by (simp add: BN_mul_word_def Let_def andthen_def)
qed

text \<open>C36: The operations with temporaries compute what they say and leave the frames and counters of the
  context as they found them: \<open>BN_sqr\<close> the square without a negative zero, in place or not;
  \<open>BN_mul_word\<close> the product with a word; \<open>bn_abs_sub_consttime\<close> the absolute difference of the magnitudes,
  in a number that was not negative (the sign is not written, so a negative one becomes the negated
  difference); \<open>bn_rshift_secret_shift\<close> the right shift with the sign of the operand, by the bits of the
  distance that the number of bits of the array has: the whole distance when it is at most the number of bits
  of the array, and not what \<open>BN_rshift\<close> gives beyond that. With an allocator that serves, within the size
  limit and without a failure pending in the context, all of them succeed.\<close>

theorem bn_ctx_ops_exact:
  assumes "allocator malloc" "bn_ok a" "bn_ok b" "bn_ok r" "ctx_ok m ctx" "depth (frames ctx) < m" "m < 2 ^ 30"
  defines "calm \<equiv> serves malloc \<and> ctx_calm ctx \<and> \<not> bn_static r \<and> \<not> bn_static a \<and> 4 * bn_width a + 1 \<le> INT_MAX div 256"
    and "bits \<equiv> LEAST l. 64 * bn_width a < 2 ^ l"
  shows "(case BN_sqr malloc inplace a r ctx of (e, r', ctx') \<Rightarrow> (calm \<longrightarrow> e \<noteq> None) \<and>
        ctx_same m ctx ctx' \<and> bn_ok r' \<and> (e \<noteq> None \<longrightarrow> bn_int r' = (bn_int a)\<^sup>2 \<and> bn_canonical r')) \<and>
    (case BN_mul_word malloc w a of (e, a') \<Rightarrow> (calm \<longrightarrow> e \<noteq> None) \<and> (e \<noteq> None \<longrightarrow> bn_ok a' \<and> bn_int a' = bn_int a * uint w)) \<and>
    (case bn_abs_sub_consttime malloc a b r ctx of (e, r', ctx') \<Rightarrow> (calm \<longrightarrow> e \<noteq> None) \<and>
        ctx_same m ctx ctx' \<and> bn_ok r' \<and> (e \<noteq> None \<longrightarrow>
          bn_int r' = (if neg r then - \<bar>int (bn_mag a) - int (bn_mag b)\<bar> else \<bar>int (bn_mag a) - int (bn_mag b)\<bar>))) \<and>
    (case bn_rshift_secret_shift malloc a n r ctx of (e, r', ctx') \<Rightarrow> (calm \<longrightarrow> e \<noteq> None) \<and>
        ctx_same m ctx ctx' \<and> bn_ok r' \<and> (e \<noteq> None \<longrightarrow> neg r' = neg a \<and>
          bn_mag r' = bn_mag a div 2 ^ (n mod 2 ^ bits) \<and> (n \<le> 64 * bn_width a \<longrightarrow> bn_mag r' = bn_mag a div 2 ^ n)))"
proof -
  have w: "bn_ok a' \<and> bn_int a' = bn_int a * uint w" if "BN_mul_word malloc w a = (Some (), a')" for a'
  proof -
    have s: "bn_ok a'" "bn_mag a' = bn_mag a * unat w" "bn_mag a' \<noteq> 0 \<longrightarrow> neg a' = neg a"
      using mul_word_spec [OF assms(1,2) that] by simp_all
    have i: "int (bn_mag a') = int (bn_mag a) * uint w" unfolding s(2) by simp
    show ?thesis
    proof (cases "bn_mag a' = 0")
      case True
      then have "int (bn_mag a) * uint w = 0" using i by simp
      then show ?thesis using s(1) True by (auto simp: bn_int_def)
    qed (use s(1,3) i in \<open>simp add: bn_int_def\<close>)
  qed
  have mx: "max (bn_width a) (bn_width b) \<le> INT_MAX div 256" using assms(2,3) by (simp add: bn_ok_def)
  have c: "calm \<Longrightarrow> (\<exists>r' ctx'. BN_sqr malloc inplace a r ctx = (Some (), r', ctx')) \<and> (\<exists>a'. BN_mul_word malloc w a = (Some (), a')) \<and>
      (\<exists>r' ctx'. bn_abs_sub_consttime malloc a b r ctx = (Some (), r', ctx')) \<and>
      (\<exists>r' ctx'. bn_rshift_secret_shift malloc a n r ctx = (Some (), r', ctx'))"
    using sqr_calm [OF _ assms(2,5,6,7), of malloc r inplace] mul_word_calm [of malloc a w]
      abs_sub_calm [OF _ assms(5,6,7) _ _ mx, of malloc r] secret_shift_calm [OF _ assms(2,4,5,6,7), of malloc n]
    by (simp add: calm_def)
  obtain e1 r1 c1 where p1: "BN_sqr malloc inplace a r ctx = (e1, r1, c1)" by (rule prod_cases3)
  obtain e2 a2 where p2: "BN_mul_word malloc w a = (e2, a2)" by (cases "BN_mul_word malloc w a")
  obtain e3 r3 c3 where p3: "bn_abs_sub_consttime malloc a b r ctx = (e3, r3, c3)" by (rule prod_cases3)
  obtain e4 r4 c4 where p4: "bn_rshift_secret_shift malloc a n r ctx = (e4, r4, c4)" by (rule prod_cases3)
  have some: "calm \<Longrightarrow> e1 \<noteq> None \<and> e2 \<noteq> None \<and> e3 \<noteq> None \<and> e4 \<noteq> None" using c unfolding p1 p2 p3 p4 by auto
  have "e2 \<noteq> None \<longrightarrow> bn_ok a2 \<and> bn_int a2 = bn_int a * uint w" using w [of a2] p2 by auto
  moreover have "e4 \<noteq> None \<longrightarrow> neg r4 = neg a \<and>
      bn_mag r4 = bn_mag a div 2 ^ (n mod 2 ^ bits) \<and> (n \<le> 64 * bn_width a \<longrightarrow> bn_mag r4 = bn_mag a div 2 ^ n)"
    using secret_shift_spec [OF assms(1,2,4,5,6,7) p4] short_shift [of n "bn_width a"]
    by (simp add: drop_bit_eq_div bits_def shift_rounds_def)
  moreover have "e3 \<noteq> None \<longrightarrow>
      bn_int r3 = (if neg r then - \<bar>int (bn_mag a) - int (bn_mag b)\<bar> else \<bar>int (bn_mag a) - int (bn_mag b)\<bar>)"
    using abs_sub_spec [OF assms(1-7) p3] by (simp add: bn_int_def)
  ultimately show ?thesis
    using sqr_spec [OF assms(1,2,4,5,6,7) p1] abs_sub_spec [OF assms(1-7) p3] secret_shift_spec [OF assms(1,2,4,5,6,7) p4] some
    unfolding p1 p2 p3 p4 prod.case by blast
qed

theorem bn_ctx_ops_exact_witness:
  "let a = \<lparr>bn_d = [0, 8], bn_width = 2, dmax = 2, neg = False, bn_static = False\<rparr>;
       x = bn_rshift_secret_shift zero_alloc a 66 a BN_CTX_init;
       y = bn_abs_sub_consttime zero_alloc a a a BN_CTX_init
   in fst x = Some () \<and> bn_int (fst (snd x)) = 2 \<and> fst y = Some () \<and> bn_int (fst (snd y)) = 0"
proof -
  let ?a = "\<lparr>bn_d = [0, 8], bn_width = 2, dmax = 2, neg = False, bn_static = False\<rparr>"
  have v: "bn_mag ?a = 2 * 2 ^ 66" by (simp add: bn_mag_def)
  have "case bn_rshift_secret_shift zero_alloc ?a 66 ?a BN_CTX_init of (e, r', ctx') \<Rightarrow>
      e \<noteq> None \<and> neg r' = neg ?a \<and> (66 \<le> 64 * bn_width ?a \<longrightarrow> bn_mag r' = bn_mag ?a div 2 ^ 66)"
    "case bn_abs_sub_consttime zero_alloc ?a ?a ?a BN_CTX_init of (e, r', ctx') \<Rightarrow>
      e \<noteq> None \<and> bn_int r' = (if neg ?a then - \<bar>int (bn_mag ?a) - int (bn_mag ?a)\<bar> else \<bar>int (bn_mag ?a) - int (bn_mag ?a)\<bar>)"
    using bn_ctx_ops_exact [of zero_alloc ?a ?a ?a 1 BN_CTX_init True 0 66] new_ctx_ok [of 1]
    by (auto simp: bn_ok_def INT_MAX_def BN_CTX_init_def ctx_calm_def split: prod.splits)
  then show ?thesis unfolding v by (auto simp: Let_def bn_int_def split: prod.splits if_splits)
qed

text \<open>\<open>bn_rshift_secret_shift\<close>, said to behave like \<open>BN_rshift\<close>, reads only as many bits of the distance as
  the number of bits of the array has: a distance that is a multiple of the next power of two leaves the
  number as it is.\<close>

theorem secret_shift_ignores_high_bits:
  assumes "allocator malloc" "bn_ok a" "bn_ok r" "ctx_ok m ctx" "depth (frames ctx) < m" "m < 2 ^ 30"
    and "bn_rshift_secret_shift malloc a (2 ^ shift_rounds (bn_width a) * q) r ctx = (Some (), r', ctx')"
  shows "bn_mag r' = bn_mag a"
  using secret_shift_spec [OF assms] by simp

theorem secret_shift_ignores_high_bits_witness:
  "\<exists>r ctx. bn_rshift_secret_shift zero_alloc BN_value_one 128 BN_init BN_CTX_init = (Some (), r, ctx) \<and> bn_mag r = 1"
proof -
  have "(LEAST L. 64 * (1 :: nat) < 2 ^ L) = 7"
  proof (rule Least_equality)
    fix L
    assume "64 * (1 :: nat) < 2 ^ L"
    then have "(2 :: nat) ^ 6 < 2 ^ L" by simp
    then have "6 < L" by (rule power_less_imp_less_exp [rotated]) simp
    then show "7 \<le> L" by simp
  qed simp
  then have s: "2 ^ shift_rounds (bn_width BN_value_one) * 1 = (128 :: nat)" by (simp add: shift_rounds_def BN_value_one_def)
  have ok: "bn_ok BN_value_one" "bn_mag BN_value_one = 1" by (simp_all add: BN_value_one_def bn_ok_def INT_MAX_def bn_mag_def)
  have c: "ctx_ok 1 BN_CTX_init" "depth (frames BN_CTX_init) < 1" "ctx_calm BN_CTX_init" "\<not> bn_static BN_init"
    using new_ctx_ok by (simp_all add: BN_CTX_init_def ctx_calm_def BN_init_def)
  obtain r ctx where r: "bn_rshift_secret_shift zero_alloc BN_value_one 128 BN_init BN_CTX_init = (Some (), r, ctx)"
    using secret_shift_calm [OF serves_zero_alloc ok(1) BN_init_ok(1) c(1,2) _ c(3,4), of 128] by auto
  have "bn_mag r = bn_mag BN_value_one"
    by (rule secret_shift_ignores_high_bits [OF allocator_zero_alloc ok(1) BN_init_ok(1) c(1,2) _ r [folded s]]) simp
  then show ?thesis using r ok(2) by simp
qed

end
