(* ===== verification/BnMod.thy ===== *)
theory BnMod
  imports BnOps
begin

text \<open>
  The constant-time modular operations of \<open>crypto/fipsmodule/bn/div.c\<close>: addition, subtraction and doubling of
  reduced numbers at the width of the modulus. An operand that is shorter than the modulus is copied to a
  temporary of that width. The result may be one of the operands: it is written after they are read.
\<close>

section \<open>Arrays\<close>

definition bn_mod_sub_words :: "u64 list \<Rightarrow> u64 list \<Rightarrow> u64 list \<Rightarrow> size_t \<Rightarrow> u64 list" where
  "bn_mod_sub_words a b m num =
     (case bn_sub_words a b num of (r, borrow) \<Rightarrow>
      case bn_add_words r m num of (tmp, _) \<Rightarrow>
        bn_select_words (0 - borrow) tmp r num)"

definition bn_mod_add_words :: "u64 list \<Rightarrow> u64 list \<Rightarrow> u64 list \<Rightarrow> size_t \<Rightarrow> u64 list" where
  "bn_mod_add_words a b m num =
     (case bn_add_words a b num of (tmp, carry) \<Rightarrow>
      case bn_sub_words tmp m num of (r, borrow) \<Rightarrow>
        bn_select_words (carry - borrow) tmp r num)"

section \<open>Operands of the width of the modulus\<close>

text \<open>The pointer to a temporary of the given width.\<close>

definition bn_scratch_space_from_ctx :: "(nat \<Rightarrow> byte list option) \<Rightarrow> size_t \<Rightarrow> (BN_CTX, nat) op" where
  "bn_scratch_space_from_ctx malloc width ctx =
     (case BN_CTX_get malloc ctx of
        (None, ctx) \<Rightarrow> (None, ctx)
      | (Some k, ctx) \<Rightarrow>
          (case expand_temp malloc width k ctx of
             (None, ctx) \<Rightarrow> (None, ctx)
           | (Some _, ctx) \<Rightarrow> (Some k, ctx_put k ((ctx_val ctx k)\<lparr>neg := False, bn_width := width\<rparr>) ctx)))"

text \<open>The code returns a pointer to a constant number; the model returns the number.\<close>

definition bn_resized_from_ctx :: "(nat \<Rightarrow> byte list option) \<Rightarrow> BIGNUM \<Rightarrow> size_t \<Rightarrow> (BN_CTX, BIGNUM) op" where
  "bn_resized_from_ctx malloc bn width ctx =
     (if width \<le> bn_width bn then (Some bn, ctx)
      else (case bn_scratch_space_from_ctx malloc width ctx of
              (None, ctx) \<Rightarrow> (None, ctx)
            | (Some k, ctx) \<Rightarrow>
                (case BN_copy malloc bn (ctx_val ctx k) of
                   (None, t) \<Rightarrow> (None, ctx_put k t ctx)
                 | (Some _, t) \<Rightarrow>
                     (case bn_resize_words malloc width t of
                        (None, t) \<Rightarrow> (None, ctx_put k t ctx)
                      | (Some _, t) \<Rightarrow> (Some t, ctx_put k t ctx)))))"

text \<open>What \<open>bn_mod_add_consttime\<close> and \<open>bn_mod_sub_consttime\<close> have in common; \<open>f\<close> is the operation on arrays.
  Neither sets the sign of the result.\<close>

definition mod_consttime :: "(u64 list \<Rightarrow> u64 list \<Rightarrow> u64 list \<Rightarrow> size_t \<Rightarrow> u64 list) \<Rightarrow> (nat \<Rightarrow> byte list option) \<Rightarrow>
    BIGNUM \<Rightarrow> BIGNUM \<Rightarrow> BIGNUM \<Rightarrow> BIGNUM \<Rightarrow> BN_CTX \<Rightarrow> unit option \<times> BIGNUM \<times> BN_CTX" where
  "mod_consttime f malloc a b m r ctx =
     (let ctx = BN_CTX_start malloc ctx
      in case bn_resized_from_ctx malloc a (bn_width m) ctx of (a, ctx) \<Rightarrow>
         case bn_resized_from_ctx malloc b (bn_width m) ctx of (b, ctx) \<Rightarrow>
         case bn_scratch_space_from_ctx malloc (bn_width m) ctx of (tmp, ctx) \<Rightarrow>
         case (a, b, tmp) of
           (Some a, Some b, Some _) \<Rightarrow>
             (case bn_wexpand malloc (bn_width m) r of
                (None, r) \<Rightarrow> (None, r, BN_CTX_end ctx)
              | (Some _, r) \<Rightarrow>
                  (Some (), r\<lparr>bn_d := splice 0 (f (bn_d a) (bn_d b) (bn_d m) (bn_width m)) (bn_d r), bn_width := bn_width m\<rparr>,
                   BN_CTX_end ctx))
         | _ \<Rightarrow> (None, r, BN_CTX_end ctx))"

definition bn_mod_add_consttime :: "(nat \<Rightarrow> byte list option) \<Rightarrow> BIGNUM \<Rightarrow> BIGNUM \<Rightarrow> BIGNUM \<Rightarrow> BIGNUM \<Rightarrow> BN_CTX \<Rightarrow> unit option \<times> BIGNUM \<times> BN_CTX" where
  "bn_mod_add_consttime = mod_consttime bn_mod_add_words"

definition bn_mod_sub_consttime :: "(nat \<Rightarrow> byte list option) \<Rightarrow> BIGNUM \<Rightarrow> BIGNUM \<Rightarrow> BIGNUM \<Rightarrow> BIGNUM \<Rightarrow> BN_CTX \<Rightarrow> unit option \<times> BIGNUM \<times> BN_CTX" where
  "bn_mod_sub_consttime = mod_consttime bn_mod_sub_words"

definition bn_mod_lshift1_consttime :: "(nat \<Rightarrow> byte list option) \<Rightarrow> BIGNUM \<Rightarrow> BIGNUM \<Rightarrow> BIGNUM \<Rightarrow> BN_CTX \<Rightarrow> unit option \<times> BIGNUM \<times> BN_CTX" where
  "bn_mod_lshift1_consttime malloc a m r ctx = bn_mod_add_consttime malloc a a m r ctx"

primrec mod_lshift_loop :: "nat \<Rightarrow> (nat \<Rightarrow> byte list option) \<Rightarrow> BIGNUM \<Rightarrow> BIGNUM \<Rightarrow> BN_CTX \<Rightarrow> unit option \<times> BIGNUM \<times> BN_CTX" where
  "mod_lshift_loop 0 malloc m r ctx = (Some (), r, ctx)"
| "mod_lshift_loop (Suc n) malloc m r ctx =
     (case bn_mod_lshift1_consttime malloc r m r ctx of
        (None, r, ctx) \<Rightarrow> (None, r, ctx)
      | (Some _, r, ctx) \<Rightarrow> mod_lshift_loop n malloc m r ctx)"

definition bn_mod_lshift_consttime :: "(nat \<Rightarrow> byte list option) \<Rightarrow> BIGNUM \<Rightarrow> int \<Rightarrow> BIGNUM \<Rightarrow> BIGNUM \<Rightarrow> BN_CTX \<Rightarrow> unit option \<times> BIGNUM \<times> BN_CTX" where
  "bn_mod_lshift_consttime malloc a n m r ctx =
     (case BN_copy malloc a r of
        (None, r) \<Rightarrow> (None, r, ctx)
      | (Some _, r) \<Rightarrow> mod_lshift_loop (nat n) malloc m r ctx)"

text \<open>The public functions make a context of their own.\<close>

definition with_new_ctx :: "(nat \<Rightarrow> byte list option) \<Rightarrow> (BIGNUM \<Rightarrow> BN_CTX \<Rightarrow> unit option \<times> BIGNUM \<times> BN_CTX) \<Rightarrow> (BIGNUM, unit) op" where
  "with_new_ctx malloc f r =
     (case BN_CTX_new malloc of
        None \<Rightarrow> (None, r)
      | Some ctx \<Rightarrow> (case f r ctx of (e, r, _) \<Rightarrow> (e, r)))"

definition BN_mod_add_quick :: "(nat \<Rightarrow> byte list option) \<Rightarrow> BIGNUM \<Rightarrow> BIGNUM \<Rightarrow> BIGNUM \<Rightarrow> (BIGNUM, unit) op" where
  "BN_mod_add_quick malloc a b m = with_new_ctx malloc (bn_mod_add_consttime malloc a b m)"

definition BN_mod_sub_quick :: "(nat \<Rightarrow> byte list option) \<Rightarrow> BIGNUM \<Rightarrow> BIGNUM \<Rightarrow> BIGNUM \<Rightarrow> (BIGNUM, unit) op" where
  "BN_mod_sub_quick malloc a b m = with_new_ctx malloc (bn_mod_sub_consttime malloc a b m)"

definition BN_mod_lshift_quick :: "(nat \<Rightarrow> byte list option) \<Rightarrow> BIGNUM \<Rightarrow> int \<Rightarrow> BIGNUM \<Rightarrow> (BIGNUM, unit) op" where
  "BN_mod_lshift_quick malloc a n m = with_new_ctx malloc (bn_mod_lshift_consttime malloc a n m)"

definition BN_mod_lshift1_quick :: "(nat \<Rightarrow> byte list option) \<Rightarrow> BIGNUM \<Rightarrow> BIGNUM \<Rightarrow> (BIGNUM, unit) op" where
  "BN_mod_lshift1_quick malloc a m = with_new_ctx malloc (bn_mod_lshift1_consttime malloc a m)"

section \<open>The operations on arrays are exact\<close>

lemma mod_sub_words_val:
  assumes n: "n \<le> length a" "n \<le> length b" "n \<le> length m" and lt: "bn_part n a < bn_part n m" "bn_part n b < bn_part n m"
  shows "length (bn_mod_sub_words a b m n) = n \<and>
    int (bn_val (bn_mod_sub_words a b m n)) = (int (bn_part n a) - int (bn_part n b)) mod int (bn_part n m)"
proof -
  obtain r c where s: "bn_sub_words a b n = (r, c)" by (cases "bn_sub_words a b n")
  note S = sub_words_val [OF s n(1,2)]
  obtain tmp d where t: "bn_add_words r m n = (tmp, d)" by (cases "bn_add_words r m n")
  have T: "bn_val tmp + 2 ^ (64 * n) * unat d = bn_val r + bn_part n m \<and> length tmp = n"
    using add_words_val [OF t _ n(3)] S by simp
  define A B M where "A = bn_part n a" and "B = bn_part n b" and "M = bn_part n m"
  have M: "M < 2 ^ (64 * n)" unfolding M_def by (rule bn_part_less)
  have v: "bn_mod_sub_words a b m n = (if c = 1 then tmp else r)"
  proof -
    have "bn_mod_sub_words a b m n = bn_select_words (0 - c) tmp r n" by (simp add: bn_mod_sub_words_def s t)
    also have "\<dots> = bn_select_words (if c = 1 then NOT 0 else 0) tmp r n" using mask_of_borrow [of c] S by (intro arg_cong [of _ _ "\<lambda>m. bn_select_words m tmp r n"]) blast
    also have "\<dots> = (if c = 1 then take n tmp else take n r)" using S T by (intro select_words) simp_all
    also have "\<dots> = (if c = 1 then tmp else r)" using S T by auto
    finally show ?thesis .
  qed
  show ?thesis
  proof (cases "c = 1")
    case True
    have r: "int (bn_val r) = int A - int B + 2 ^ (64 * n)" using S True by (simp add: A_def B_def)
    have "int (bn_val tmp) + 2 ^ (64 * n) * int (unat d) = int (bn_val r) + int M" using T unfolding M_def by (metis of_nat_add of_nat_mult of_nat_numeral of_nat_power)
    then have e: "int (bn_val tmp) + 2 ^ (64 * n) * int (unat d) = int A - int B + int M + 2 ^ (64 * n)" using r by simp
    have neg: "int A - int B < 0" using r bn_val_less [of r] S by (simp add: of_nat_less_iff [symmetric, where 'a = int] del: of_nat_less_iff)
    have lo: "0 \<le> int A - int B + int M" "int A - int B + int M < int M" using lt neg by (simp_all add: A_def B_def M_def)
    have "int (bn_val tmp) = int A - int B + int M"
    proof -
      have "int (bn_val tmp) < 2 ^ (64 * n)" using bn_val_less [of tmp] T by (metis of_nat_less_iff of_nat_numeral of_nat_power)
      moreover have "int M < 2 ^ (64 * n)" using M by (metis of_nat_less_iff of_nat_numeral of_nat_power)
      ultimately have m: "int (bn_val tmp) mod 2 ^ (64 * n) = int (bn_val tmp)"
        "(int A - int B + int M) mod 2 ^ (64 * n) = int A - int B + int M"
        using lo by (simp, intro mod_pos_pos_trivial) linarith+
      have "int (bn_val tmp) mod 2 ^ (64 * n) = (int A - int B + int M) mod 2 ^ (64 * n)"
        using arg_cong [OF e, of "\<lambda>x. x mod 2 ^ (64 * n)"] by simp
      then show ?thesis unfolding m .
    qed
    moreover have "(int A - int B) mod int M = (int A - int B + int M) mod int M" by simp
    moreover have "\<dots> = int A - int B + int M" using lo by (intro mod_pos_pos_trivial)
    ultimately have "int (bn_val tmp) = (int A - int B) mod int M" by simp
    moreover have "bn_mod_sub_words a b m n = tmp" using v True by simp
    ultimately show ?thesis using T by (simp only: A_def B_def M_def)
  next
    case False
    then have "int (bn_val r) = int A - int B" using S by (auto simp: A_def B_def)
    moreover have "\<dots> = (int A - int B) mod int M" using calculation lt by (intro mod_pos_pos_trivial [symmetric]) (simp_all add: A_def B_def M_def)
    moreover have "bn_mod_sub_words a b m n = r" using v False by simp
    ultimately show ?thesis using S by (simp only: A_def B_def M_def)
  qed
qed

text \<open>The selection by carry minus borrow, shared with the long division.\<close>

lemma select_reduced:
  assumes s: "bn_sub_words t m n = (r, borrow)" and n: "n \<le> length m" "length t = n" and c: "unat carry \<le> 1"
    and v: "bn_val t + 2 ^ (64 * n) * unat carry = X" "X < 2 * bn_part n m"
  shows "carry - borrow = (if X < bn_part n m then NOT 0 else 0)"
    and "length (bn_select_words (carry - borrow) t r n) = n \<and> bn_val (bn_select_words (carry - borrow) t r n) = X mod bn_part n m"
proof -
  define M where "M = bn_part n m"
  have M: "M < 2 ^ (64 * n)" unfolding M_def by (rule bn_part_less)
  have S: "int (bn_val r) - 2 ^ (64 * n) * uint borrow = int (bn_val t) - int M" "length r = n" "borrow \<in> {0, 1}"
    using sub_words_val [OF s _ n(1)] n(2) by (simp_all add: M_def)
  have b: "bn_val r < 2 ^ (64 * n)" "bn_val t < 2 ^ (64 * n)" using bn_val_less [of r] bn_val_less [of t] S(2) n(2) by simp_all
  have bi: "int (bn_val r) < 2 ^ (64 * n)" "int (bn_val t) < 2 ^ (64 * n)" "int M < 2 ^ (64 * n)"
    using b M by (metis of_nat_less_iff of_nat_numeral of_nat_power)+
  have "carry = 0 \<or> carry = 1" using c by (metis le_Suc_eq One_nat_def le_zero_eq unsigned_1 unsigned_0 word_unat_eq_iff)
  then consider (00) "carry = 0" "borrow = 0" | (01) "carry = 0" "borrow = 1" | (11) "carry = 1" "borrow = 1" | (10) "carry = 1" "borrow = 0"
    using S(3) by blast
  then have *: "carry - borrow = (if X < M then NOT 0 else 0) \<and> (if X < M then bn_val t = X else bn_val r = X - M)"
  proof cases
    case 00
    then have "int (bn_val r) = int X - int M" using S(1) v(1) by simp
    then show ?thesis using 00 by simp
  next
    case 01
    then have "X = bn_val t" using v(1) by simp
    moreover have "int (bn_val t) - int M = int (bn_val r) - 2 ^ (64 * n)" using S(1) 01 by simp
    then have "bn_val t < M" using bi(1) by linarith
    ultimately show ?thesis using 01 by simp
  next
    case 11
    have "int X = int (bn_val t) + 2 ^ (64 * n)" using v(1) 11 by (simp flip: v(1))
    then have "int (bn_val r) = int X - int M" "int M < int X" using S(1) 11 bi by (simp, linarith)
    then show ?thesis using 11 by simp
  next
    case 10
    have "int X = int (bn_val t) + 2 ^ (64 * n)" using v(1) 10 by (simp flip: v(1))
    then have "int X = int (bn_val r) + int M + 2 ^ (64 * n)" using S(1) 10 by simp
    moreover have "int X < 2 * int M" using v(2) by (simp add: M_def)
    ultimately show ?thesis using bi by linarith
  qed
  then show "carry - borrow = (if X < bn_part n m then NOT 0 else 0)" unfolding M_def by blast
  have "X mod M = (if X < M then X else X - M)" using v(2) by (simp add: M_def le_mod_geq)
  moreover have "bn_select_words (carry - borrow) t r n = (if X < M then t else r)"
    using * select_words [of n t r "X < M"] S(2) n(2) by (auto split: if_splits)
  ultimately show "length (bn_select_words (carry - borrow) t r n) = n \<and> bn_val (bn_select_words (carry - borrow) t r n) = X mod bn_part n m"
    using * S(2) n(2) unfolding M_def [symmetric] by (auto split: if_splits)
qed

lemma mod_add_words_val:
  assumes n: "n \<le> length a" "n \<le> length b" "n \<le> length m" and lt: "bn_part n a < bn_part n m" "bn_part n b < bn_part n m"
  shows "length (bn_mod_add_words a b m n) = n \<and>
    bn_val (bn_mod_add_words a b m n) = (bn_part n a + bn_part n b) mod bn_part n m"
proof -
  obtain t carry where s: "bn_add_words a b n = (t, carry)" by (cases "bn_add_words a b n")
  note S = add_words_val [OF s n(1,2)]
  obtain r borrow where u: "bn_sub_words t m n = (r, borrow)" by (cases "bn_sub_words t m n")
  show ?thesis
    using select_reduced(2) [OF u n(3), of carry "bn_part n a + bn_part n b"] S lt unfolding bn_mod_add_words_def s u prod.case by simp
qed

section \<open>Temporaries of a given width\<close>

lemma static_copy: "BN_copy malloc src r = (e, r') \<Longrightarrow> bn_static r' = bn_static r"
  using static_wexpand by (fastforce simp: BN_copy_def andthen_def split: option.splits prod.splits)

lemma resize_words_spec:
  assumes al: "allocator malloc" and ok: "bn_ok bn" and u: "bn_resize_words malloc words bn = (e, bn')"
  shows "bn_ok bn' \<and> bn_static bn' = bn_static bn \<and> neg bn' = neg bn \<and>
    (e \<noteq> None \<longrightarrow> bn_width bn' = words \<and> bn_mag bn' = bn_mag bn)"
proof (cases "bn_width bn \<le> words")
  case True
  obtain e1 b where x: "bn_wexpand malloc words bn = (e1, b)" by (cases "bn_wexpand malloc words bn")
  note W = wexpand_ok [OF al ok x] and S = static_wexpand [OF x]
  show ?thesis
  proof (cases e1)
    case None
    then show ?thesis using u True x W S by (auto simp: bn_resize_words_def andthen_def)
  next
    case (Some y)
    define z where "z = replicate (words - bn_width bn) (0 :: u64)"
    have b: "bn_ok b" "words \<le> length (bn_d b)" "bn_width b = bn_width bn" "neg b = neg bn" "bn_mag b = bn_mag bn"
      using W Some by (simp_all add: bn_ok_def bn_mag_def)
    have r: "e = Some ()" "bn' = b\<lparr>bn_d := splice (bn_width bn) z (bn_d b), bn_width := words\<rparr>"
      using u True x Some b(3) by (simp_all add: bn_resize_words_def andthen_def z_def)
    have "take words (splice (bn_width bn) z (bn_d b)) = take (bn_width bn) (bn_d b) @ z"
      using True b(2) by (simp add: splice_def z_def)
    then have "bn_part words (splice (bn_width bn) z (bn_d b)) = bn_mag bn"
      using b(3,5) by (simp add: bn_val_append z_def bn_mag_def)
    moreover have "length (splice (bn_width bn) z (bn_d b)) = length (bn_d b)"
      using True b(2) by (simp add: z_def)
    ultimately show ?thesis using r b S by (simp add: bn_ok_def bn_mag_def [of "b\<lparr>bn_d := x, bn_width := y\<rparr>" for x y])
  qed
next
  case False
  then show ?thesis using u ok fits_in_words(1) [OF ok, of words]
    by (auto simp: bn_resize_words_def bn_ok_def bn_mag_def split: if_splits)
qed

lemma scratch_spec:
  assumes al: "allocator malloc" and c: "ctx_ok n c" and u: "bn_scratch_space_from_ctx malloc width c = (e, c')"
  shows "ctx_inside n c c' \<and> (case e of None \<Rightarrow> True
    | Some k \<Rightarrow> k < length (vals (pool c')) \<and> bn_dynamic (ctx_val c' k) \<and> bn_width (ctx_val c' k) = width \<and> \<not> neg (ctx_val c' k))"
proof -
  obtain g c1 where g: "BN_CTX_get malloc c = (g, c1)" by (cases "BN_CTX_get malloc c")
  have i1: "ctx_inside n c c1" by (rule inside_get [OF c g])
  then have c1: "ctx_ok n c1" by (simp add: ctx_inside_def)
  show ?thesis
  proof (cases g)
    case None
    then show ?thesis using u g i1 by (auto simp: bn_scratch_space_from_ctx_def)
  next
    case (Some k)
    have k: "k < length (vals (pool c1))" using get_spec [OF c g] Some by auto
    obtain e2 t where w: "bn_wexpand malloc width (ctx_val c1 k) = (e2, t)" by (cases "bn_wexpand malloc width (ctx_val c1 k)")
    note W = wexpand_ok [OF al bn_dynamicD(1) [OF val_ok [OF c1 k]] w]
    have t: "bn_dynamic t" using W static_wexpand [OF w] val_ok [OF c1 k] by (simp add: bn_dynamic_def)
    have p: "ctx_inside n c (ctx_put k t c1)" using inside_trans [OF i1 inside_put [OF c1 t]] .
    have v: "ctx_val (ctx_put k t c1) k = t" using put_spec [OF c1 t] k by blast
    show ?thesis
    proof (cases e2)
      case None
      then show ?thesis using u g Some w p by (auto simp: bn_scratch_space_from_ctx_def expand_temp_def)
    next
      case e2: (Some y)
      define t2 where "t2 = t\<lparr>neg := False, bn_width := width\<rparr>"
      have t2: "bn_dynamic t2" using t W e2 by (simp add: t2_def bn_dynamic_def bn_ok_def)
      have r: "e = Some k" "c' = ctx_put k t2 (ctx_put k t c1)"
        using u g Some w e2 v by (auto simp: bn_scratch_space_from_ctx_def expand_temp_def t2_def)
      have "ctx_ok n (ctx_put k t c1)" using p by (simp add: ctx_inside_def)
      note q = this inside_put [OF this t2, of k] put_spec [OF this t2, of k]
      have "k < length (vals (pool (ctx_put k t c1)))" using k by (simp add: ctx_put_def)
      then show ?thesis using r q inside_trans [OF p q(2)] t2 by (simp add: t2_def) (simp add: ctx_put_def)
    qed
  qed
qed

lemma resized_spec:
  assumes al: "allocator malloc" and c: "ctx_ok n c" and ok: "bn_ok bn" "bn_mag bn < 2 ^ (64 * width)"
    and u: "bn_resized_from_ctx malloc bn width c = (e, c')"
  shows "ctx_inside n c c' \<and> (case e of None \<Rightarrow> True
    | Some b \<Rightarrow> bn_ok b \<and> width \<le> length (bn_d b) \<and> bn_part width (bn_d b) = bn_mag bn)"
proof (cases "width \<le> bn_width bn")
  case True
  then have r: "e = Some bn" "c' = c" using u by (simp_all add: bn_resized_from_ctx_def)
  have "bn_mag bn = bn_part width (bn_d bn)" using fits_in_words [OF ok(1), of width] ok(2) True by (simp add: min_def)
  then show ?thesis using r inside_refl [OF c] ok(1) bn_okD [OF ok(1)] True by simp
next
  case False
  obtain g c1 where g: "bn_scratch_space_from_ctx malloc width c = (g, c1)" by (cases "bn_scratch_space_from_ctx malloc width c")
  note G = scratch_spec [OF al c g]
  have c1: "ctx_ok n c1" using G by (simp add: ctx_inside_def)
  show ?thesis
  proof (cases g)
    case None
    then show ?thesis using u False g G by (auto simp: bn_resized_from_ctx_def)
  next
    case (Some k)
    have k: "bn_dynamic (ctx_val c1 k)" using G Some by simp
    obtain e1 t where x: "BN_copy malloc bn (ctx_val c1 k) = (e1, t)" by (cases "BN_copy malloc bn (ctx_val c1 k)")
    note C = copy_spec [OF al ok(1) bn_dynamicD(1) [OF k] x]
    have t: "bn_dynamic t" using C static_copy [OF x] k by (cases e1) (auto simp: bn_dynamic_def)
    have i: "ctx_inside n c (ctx_put k s c1)" if "bn_dynamic s" for s
      using inside_trans [OF _ inside_put [OF c1 that]] G by blast
    show ?thesis
    proof (cases e1)
      case None
      then show ?thesis using u False g Some x i [OF t] by (auto simp: bn_resized_from_ctx_def)
    next
      case e1: (Some y)
      obtain e2 s where z: "bn_resize_words malloc width t = (e2, s)" by (cases "bn_resize_words malloc width t")
      note R = resize_words_spec [OF al bn_dynamicD(1) [OF t] z]
      have s: "bn_dynamic s" using R t by (simp add: bn_dynamic_def)
      have r: "e = (case e2 of None \<Rightarrow> None | Some _ \<Rightarrow> Some s)" "c' = ctx_put k s c1"
        using u False g Some x e1 z by (auto simp: bn_resized_from_ctx_def split: option.splits)
      show ?thesis using r i [OF s] R C e1 bn_okD [of s] by (cases e2) (auto simp: bn_mag_def)
    qed
  qed
qed

section \<open>The operations\<close>

lemma mod_consttime_spec:
  assumes al: "allocator malloc" and ok: "bn_ok a" "bn_ok b" "bn_ok m" "bn_ok r" and lt: "bn_mag a < bn_mag m" "bn_mag b < bn_mag m"
    and c: "ctx_ok n ctx" "depth (frames ctx) < n" "n < 2 ^ 30"
    and f: "\<And>x y. bn_width m \<le> length x \<Longrightarrow> bn_width m \<le> length y \<Longrightarrow> bn_part (bn_width m) x = bn_mag a \<Longrightarrow>
      bn_part (bn_width m) y = bn_mag b \<Longrightarrow>
      length (f x y (bn_d m) (bn_width m)) = bn_width m \<and> bn_val (f x y (bn_d m) (bn_width m)) = v"
    and u: "mod_consttime f malloc a b m r ctx = (e, r', ctx')"
  shows "ctx_same n ctx ctx' \<and> bn_ok r' \<and> neg r' = neg r \<and> bn_static r' = bn_static r \<and>
    (e \<noteq> None \<longrightarrow> bn_mag r' = v \<and> bn_width r' = bn_width m)"
proof -
  define c0 N where "c0 = BN_CTX_start malloc ctx" and "N = bn_width m"
  have c0: "ctx_ok n c0" unfolding c0_def using start_ok [OF al c] .
  have fin: "ctx_same n ctx (BN_CTX_end x)" if "ctx_inside n c0 x" for x
    using frame_same [OF al c] that by (simp add: ctx_inside_def c0_def)
  have M: "bn_mag m < 2 ^ (64 * N)" using bn_mag_less [of m] by (simp add: N_def)
  have fit: "bn_mag a < 2 ^ (64 * N)" "bn_mag b < 2 ^ (64 * N)" using lt M by simp_all
  obtain ra c1 where a: "bn_resized_from_ctx malloc a N c0 = (ra, c1)" by (cases "bn_resized_from_ctx malloc a N c0")
  note A = resized_spec [OF al c0 ok(1) fit(1) a]
  have c1: "ctx_ok n c1" using A by (simp add: ctx_inside_def)
  obtain rb c2 where b: "bn_resized_from_ctx malloc b N c1 = (rb, c2)" by (cases "bn_resized_from_ctx malloc b N c1")
  note B = resized_spec [OF al c1 ok(2) fit(2) b]
  have c2: "ctx_ok n c2" using B by (simp add: ctx_inside_def)
  obtain tmp c3 where s: "bn_scratch_space_from_ctx malloc N c2 = (tmp, c3)" by (cases "bn_scratch_space_from_ctx malloc N c2")
  note S = scratch_spec [OF al c2 s]
  have i: "ctx_inside n c0 c3" using inside_trans A B S by blast
  note U = u [unfolded mod_consttime_def Let_def, folded c0_def N_def, unfolded a b s prod.case]
  show ?thesis
  proof (cases "ra = None \<or> rb = None \<or> tmp = None")
    case True
    then have "e = None" "r' = r" "ctx' = BN_CTX_end c3" using U by (auto split: option.splits)
    then show ?thesis using fin [OF i] ok(4) by simp
  next
    case False
    then obtain a1 b1 t1 where S1: "ra = Some a1" "rb = Some b1" "tmp = Some t1" by auto
    obtain e1 r1 where w: "bn_wexpand malloc N r = (e1, r1)" by (cases "bn_wexpand malloc N r")
    note W = wexpand_ok [OF al ok(4) w] and St = static_wexpand [OF w]
    show ?thesis
    proof (cases e1)
      case None
      then have "e = None" "r' = r1" "ctx' = BN_CTX_end c3" using U S1 w by auto
      then show ?thesis using fin [OF i] W St by simp
    next
      case (Some y)
      define ws where "ws = f (bn_d a1) (bn_d b1) (bn_d m) N"
      have F: "length ws = N \<and> bn_val ws = v" using f [of "bn_d a1" "bn_d b1"] A B S1 by (simp add: ws_def N_def)
      have r: "e = Some ()" "r' = r1\<lparr>bn_d := splice 0 ws (bn_d r1), bn_width := N\<rparr>" "ctx' = BN_CTX_end c3"
        using U S1 w Some by (auto simp: ws_def)
      have "N \<le> length (bn_d r1)" "bn_ok r1" "neg r1 = neg r" using W Some by (simp_all add: bn_ok_def)
      then show ?thesis using r F fin [OF i] St write_words [of ws "bn_d r1"]
        by (simp add: bn_ok_def N_def bn_mag_def [of "r1\<lparr>bn_d := x, bn_width := y\<rparr>" for x y])
    qed
  qed
qed

lemma scratch_calm:
  assumes m: "serves malloc" and c: "ctx_ok n c" "ctx_calm c" and w: "width \<le> INT_MAX div 256"
  shows "\<exists>k c'. bn_scratch_space_from_ctx malloc width c = (Some k, c') \<and> ctx_calm c'"
proof -
  obtain k c1 where g: "BN_CTX_get malloc c = (Some k, c1)" "ctx_calm c1" using get_calm [OF m c(2)] by blast
  have "ctx_ok n c1" "k < length (vals (pool c1))" using get_spec [OF c(1) g(1)] by auto
  then obtain c2 where "expand_temp malloc width k c1 = (Some (), c2)" "ctx_calm c2"
    using expand_calm [OF m _ _ g(2) w] by blast
  then show ?thesis using g(1) by (simp add: bn_scratch_space_from_ctx_def ctx_calm_def ctx_put_def)
qed

lemma resize_calm:
  "serves malloc \<Longrightarrow> \<not> bn_static t \<Longrightarrow> bn_width t \<le> width \<Longrightarrow> width \<le> INT_MAX div 256 \<Longrightarrow>
    \<exists>s. bn_resize_words malloc width t = (Some (), s)"
  using wexpand_serves [of malloc width t] by (auto simp: bn_resize_words_def andthen_def)

lemma resized_calm:
  assumes m: "serves malloc" and c: "ctx_ok n c" "ctx_calm c" and ok: "bn_ok bn" and w: "width \<le> INT_MAX div 256"
  shows "\<exists>b c'. bn_resized_from_ctx malloc bn width c = (Some b, c') \<and> ctx_calm c'"
proof (cases "width \<le> bn_width bn")
  case False
  obtain k c1 where s: "bn_scratch_space_from_ctx malloc width c = (Some k, c1)" "ctx_calm c1" using scratch_calm [OF m c w] by blast
  have k: "bn_dynamic (ctx_val c1 k)" using scratch_spec [OF serves_allocator [OF m] c(1) s(1)] by simp
  have wb: "bn_width bn \<le> INT_MAX div 256" using ok by (simp add: bn_ok_def)
  obtain t where x: "BN_copy malloc bn (ctx_val c1 k) = (Some (), t)" using copy_calm [OF m bn_dynamicD(2) [OF k] wb] by blast
  have t: "\<not> bn_static t" "bn_width t = bn_width bn"
    using static_copy [OF x] k copy_spec [OF serves_allocator [OF m] ok bn_dynamicD(1) [OF k] x] by (simp_all add: bn_dynamic_def)
  obtain z where "bn_resize_words malloc width t = (Some (), z)" using resize_calm [OF m t(1) _ w] t(2) False by auto
  then show ?thesis using False s x by (simp add: bn_resized_from_ctx_def ctx_calm_def ctx_put_def)
qed (use c in \<open>simp add: bn_resized_from_ctx_def\<close>)

lemma mod_consttime_calm:
  assumes m: "serves malloc" and ok: "bn_ok a" "bn_ok b" "bn_ok md" "bn_mag a < bn_mag md" "bn_mag b < bn_mag md"
    and c: "ctx_ok n ctx" "depth (frames ctx) < n" "n < 2 ^ 30" "ctx_calm ctx" and r: "\<not> bn_static r"
  shows "\<exists>r' ctx'. mod_consttime f malloc a b md r ctx = (Some (), r', ctx')"
proof -
  note al = serves_allocator [OF m]
  have w: "bn_width md \<le> INT_MAX div 256" using ok(3) by (simp add: bn_ok_def)
  have fit: "bn_mag a < 2 ^ (64 * bn_width md)" "bn_mag b < 2 ^ (64 * bn_width md)" using ok(4,5) bn_mag_less [of md] by simp_all
  have c0: "ctx_ok n (BN_CTX_start malloc ctx)" "ctx_calm (BN_CTX_start malloc ctx)"
    using start_ok [OF al c(1-3)] start_calm [OF m c(1,3,4)] by simp_all
  obtain a1 c1 where A: "bn_resized_from_ctx malloc a (bn_width md) (BN_CTX_start malloc ctx) = (Some a1, c1)" "ctx_calm c1"
    using resized_calm [OF m c0 ok(1) w] by blast
  have c1: "ctx_ok n c1" using resized_spec [OF al c0(1) ok(1) fit(1) A(1)] by (simp add: ctx_inside_def)
  obtain b1 c2 where B: "bn_resized_from_ctx malloc b (bn_width md) c1 = (Some b1, c2)" "ctx_calm c2"
    using resized_calm [OF m c1 A(2) ok(2) w] by blast
  have c2: "ctx_ok n c2" using resized_spec [OF al c1 ok(2) fit(2) B(1)] by (simp add: ctx_inside_def)
  obtain k c3 where S: "bn_scratch_space_from_ctx malloc (bn_width md) c2 = (Some k, c3)" using scratch_calm [OF m c2 B(2) w] by blast
  obtain r1 where "bn_wexpand malloc (bn_width md) r = (Some (), r1)" using wexpand_serves [OF m w r] by blast
  then show ?thesis unfolding mod_consttime_def Let_def A(1) prod.case B(1) S by simp
qed

lemmas mod_add_spec = mod_consttime_spec [where f = bn_mod_add_words, folded bn_mod_add_consttime_def]
lemmas mod_sub_spec = mod_consttime_spec [where f = bn_mod_sub_words, folded bn_mod_sub_consttime_def]

lemma mod_add_consttime_spec:
  assumes al: "allocator malloc" and ok: "bn_ok a" "bn_ok b" "bn_ok m" "bn_ok r" and lt: "bn_mag a < bn_mag m" "bn_mag b < bn_mag m"
    and c: "ctx_ok n ctx" "depth (frames ctx) < n" "n < 2 ^ 30"
    and u: "bn_mod_add_consttime malloc a b m r ctx = (e, r', ctx')"
  shows "ctx_same n ctx ctx' \<and> bn_ok r' \<and> neg r' = neg r \<and> bn_static r' = bn_static r \<and>
    (e \<noteq> None \<longrightarrow> bn_mag r' = (bn_mag a + bn_mag b) mod bn_mag m \<and> bn_width r' = bn_width m)"
proof (rule mod_add_spec [OF al ok lt c _ u])
  fix x y
  assume "bn_width m \<le> length x" "bn_width m \<le> length y" "bn_part (bn_width m) x = bn_mag a" "bn_part (bn_width m) y = bn_mag b"
  then show "length (bn_mod_add_words x y (bn_d m) (bn_width m)) = bn_width m \<and>
      bn_val (bn_mod_add_words x y (bn_d m) (bn_width m)) = (bn_mag a + bn_mag b) mod bn_mag m"
    using mod_add_words_val [of "bn_width m" x y "bn_d m"] bn_okD(1) [OF ok(3)] lt by (simp add: bn_mag_def)
qed

lemma mod_sub_consttime_spec:
  assumes al: "allocator malloc" and ok: "bn_ok a" "bn_ok b" "bn_ok m" "bn_ok r" and lt: "bn_mag a < bn_mag m" "bn_mag b < bn_mag m"
    and c: "ctx_ok n ctx" "depth (frames ctx) < n" "n < 2 ^ 30"
    and u: "bn_mod_sub_consttime malloc a b m r ctx = (e, r', ctx')"
  shows "ctx_same n ctx ctx' \<and> bn_ok r' \<and> neg r' = neg r \<and> bn_static r' = bn_static r \<and>
    (e \<noteq> None \<longrightarrow> int (bn_mag r') = (int (bn_mag a) - int (bn_mag b)) mod int (bn_mag m) \<and> bn_width r' = bn_width m)"
proof -
  define v where "v = nat ((int (bn_mag a) - int (bn_mag b)) mod int (bn_mag m))"
  have v: "int v = (int (bn_mag a) - int (bn_mag b)) mod int (bn_mag m)" using lt by (simp add: v_def)
  have "ctx_same n ctx ctx' \<and> bn_ok r' \<and> neg r' = neg r \<and> bn_static r' = bn_static r \<and>
    (e \<noteq> None \<longrightarrow> bn_mag r' = v \<and> bn_width r' = bn_width m)"
  proof (rule mod_sub_spec [OF al ok lt c _ u])
    fix x y
    assume "bn_width m \<le> length x" "bn_width m \<le> length y" "bn_part (bn_width m) x = bn_mag a" "bn_part (bn_width m) y = bn_mag b"
    then show "length (bn_mod_sub_words x y (bn_d m) (bn_width m)) = bn_width m \<and>
        bn_val (bn_mod_sub_words x y (bn_d m) (bn_width m)) = v"
      using mod_sub_words_val [of "bn_width m" x y "bn_d m"] bn_okD(1) [OF ok(3)] lt v by (simp add: bn_mag_def)
  qed
  then show ?thesis unfolding v [symmetric] by simp
qed

lemma same_trans: "ctx_same n a b \<Longrightarrow> ctx_same n b c \<Longrightarrow> ctx_same n a c"
  by (simp add: ctx_same_def)

lemma same_ctx: "ctx_same n a b \<Longrightarrow> ctx_ok n a \<Longrightarrow> ctx_ok n b \<and> depth (frames b) = depth (frames a)"
  using length_ctx_frames [of n a] length_ctx_frames [of n b] by (simp add: ctx_same_def ctx_shape_def)

lemma same_calm: "ctx_same n a b \<Longrightarrow> ctx_calm b = ctx_calm a"
  by (simp add: ctx_same_def ctx_shape_def ctx_calm_def)

lemma same_refl: "ctx_ok n a \<Longrightarrow> ctx_same n a a"
  by (simp add: ctx_same_def)

lemma mod_lshift_loop_spec:
  assumes al: "allocator malloc" and m: "bn_ok m"
  shows "bn_ok r \<Longrightarrow> bn_mag r < bn_mag m \<Longrightarrow> ctx_ok n ctx \<Longrightarrow> depth (frames ctx) < n \<Longrightarrow> n < 2 ^ 30 \<Longrightarrow>
    mod_lshift_loop k malloc m r ctx = (e, r', ctx') \<Longrightarrow>
    ctx_same n ctx ctx' \<and> bn_ok r' \<and> neg r' = neg r \<and> bn_static r' = bn_static r \<and>
    (e \<noteq> None \<longrightarrow> bn_mag r' = bn_mag r * 2 ^ k mod bn_mag m \<and> (0 < k \<longrightarrow> bn_width r' = bn_width m)) \<and>
    (serves malloc \<and> ctx_calm ctx \<and> \<not> bn_static r \<longrightarrow> e \<noteq> None)"
proof (induction k arbitrary: r ctx)
  case 0
  then show ?case by (simp add: same_refl)
next
  case (Suc k)
  note p = Suc.prems
  obtain e1 r1 c1 where s: "bn_mod_add_consttime malloc r r m r ctx = (e1, r1, c1)" by (rule prod_cases3)
  note S = mod_add_consttime_spec [OF al p(1) p(1) m p(1) p(2) p(2) p(3-5) s]
  have calm: "e1 \<noteq> None" if "serves malloc \<and> ctx_calm ctx \<and> \<not> bn_static r"
    using mod_consttime_calm [of malloc r r m n ctx r bn_mod_add_words, folded bn_mod_add_consttime_def] that p m s by auto
  show ?case
  proof (cases e1)
    case None
    then have "e = None" "r' = r1" "ctx' = c1" using p(6) s by (simp_all add: bn_mod_lshift1_consttime_def)
    then show ?thesis using S calm None by blast
  next
    case (Some y)
    have l: "mod_lshift_loop k malloc m r1 c1 = (e, r', ctx')" using p(6) s Some by (simp add: bn_mod_lshift1_consttime_def)
    have r1: "bn_ok r1" "bn_mag r1 = (bn_mag r + bn_mag r) mod bn_mag m" "bn_width r1 = bn_width m" using S Some by simp_all
    have lt: "bn_mag r1 < bn_mag m" using r1(2) p(2) by simp
    have c1: "ctx_ok n c1" "depth (frames c1) < n" using same_ctx [of n ctx c1] S p by simp_all
    note I = Suc.IH [OF r1(1) lt c1 p(5) l]
    have "bn_mag r1 * 2 ^ k mod bn_mag m = bn_mag r * 2 ^ Suc k mod bn_mag m"
      unfolding r1(2) mod_mult_left_eq by (simp add: mult_2 [symmetric] mult_ac)
    moreover have "k = 0 \<longrightarrow> e = Some () \<and> r' = r1" using l by auto
    ultimately show ?thesis using I S same_trans [of n ctx c1 ctx'] same_calm [of n ctx c1] r1(3) by auto
  qed
qed

lemma mod_lshift_spec:
  assumes al: "allocator malloc" and ok: "bn_ok a" "bn_ok m" "bn_ok r" and lt: "bn_mag a < bn_mag m"
    and c: "ctx_ok n ctx" "depth (frames ctx) < n" "n < 2 ^ 30"
    and u: "bn_mod_lshift_consttime malloc a k m r ctx = (e, r', ctx')"
  shows "ctx_same n ctx ctx' \<and> bn_ok r' \<and> bn_static r' = bn_static r \<and>
    (e \<noteq> None \<longrightarrow> bn_mag r' = bn_mag a * 2 ^ nat k mod bn_mag m \<and> neg r' = neg a \<and> (0 < k \<longrightarrow> bn_width r' = bn_width m)) \<and>
    (serves malloc \<and> ctx_calm ctx \<and> \<not> bn_static r \<longrightarrow> e \<noteq> None)"
proof -
  obtain e1 r1 where x: "BN_copy malloc a r = (e1, r1)" by (cases "BN_copy malloc a r")
  note C = copy_spec [OF al ok(1,3) x] and St = static_copy [OF x]
  have wa: "bn_width a \<le> INT_MAX div 256" using ok(1) by (simp add: bn_ok_def)
  have calm: "serves malloc \<and> \<not> bn_static r \<Longrightarrow> e1 \<noteq> None" using copy_calm [of malloc r a] wa x by auto
  show ?thesis
  proof (cases e1)
    case None
    then have "e = None" "r' = r1" "ctx' = ctx" using u x by (simp_all add: bn_mod_lshift_consttime_def)
    then show ?thesis using C St None ok(3) calm same_refl [OF c(1)] by auto
  next
    case (Some y)
    have r1: "bn_ok r1" "bn_mag r1 = bn_mag a" "neg r1 = neg a" "bn_mag r1 < bn_mag m" using C Some lt by simp_all
    have l: "mod_lshift_loop (nat k) malloc m r1 ctx = (e, r', ctx')" using u x Some by (simp add: bn_mod_lshift_consttime_def)
    show ?thesis using mod_lshift_loop_spec [OF al ok(2) r1(1,4) c l] r1 St by auto
  qed
qed

lemma new_ctx: "serves malloc \<Longrightarrow> BN_CTX_new malloc = Some BN_CTX_init" "BN_CTX_new malloc = Some c \<Longrightarrow> c = BN_CTX_init"
  using malloc_serves [of malloc 64] by (auto simp: BN_CTX_new_def split: option.splits)

lemma with_new_ctx_spec:
  assumes f: "\<And>e r' ctx'. f r BN_CTX_init = (e, r', ctx') \<Longrightarrow> (serves malloc \<and> s \<longrightarrow> e \<noteq> None) \<and> (e \<noteq> None \<longrightarrow> P r')"
    and u: "with_new_ctx malloc f r = (e, r')"
  shows "(serves malloc \<and> s \<longrightarrow> e \<noteq> None) \<and> (e \<noteq> None \<longrightarrow> P r')"
proof (cases "BN_CTX_new malloc")
  case None
  then show ?thesis using u new_ctx(1) [of malloc] by (auto simp: with_new_ctx_def)
next
  case (Some c)
  obtain e1 r1 c1 where x: "f r BN_CTX_init = (e1, r1, c1)" by (rule prod_cases3)
  then have "e = e1" "r' = r1" using u Some new_ctx(2) [OF Some] by (simp_all add: with_new_ctx_def)
  then show ?thesis using f [OF x] by simp
qed

lemma case_triple: "(\<And>a b c. x = (a, b, c) \<Longrightarrow> P a b c) \<Longrightarrow> case x of (a, b, c) \<Rightarrow> P a b c"
  by (cases x) simp

text \<open>What the modular operations leave: the residue of \<open>v\<close>, negated when the sign \<open>s\<close> that no one has
  written is set, at the width of the modulus.\<close>

definition mod_result :: "bool \<Rightarrow> int \<Rightarrow> BIGNUM \<Rightarrow> BIGNUM \<Rightarrow> bool" where
  "mod_result s v m r \<longleftrightarrow> bn_ok r \<and> bn_width r = bn_width m \<and>
     bn_int r = (if s then - (v mod int (bn_mag m)) else v mod int (bn_mag m))"

lemma mod_resultI: "bn_ok r \<Longrightarrow> bn_width r = bn_width m \<Longrightarrow> int (bn_mag r) = v mod int (bn_mag m) \<Longrightarrow> neg r = s \<Longrightarrow> mod_result s v m r"
  by (simp add: mod_result_def bn_int_def)

text \<open>C28: On reduced operands \<open>bn_mod_add_consttime\<close>, \<open>bn_mod_sub_consttime\<close> and \<open>bn_mod_lshift_consttime\<close> give
  the residue of the sum, the difference and the product with a power of two modulo \<open>m\<close>, at the width of the
  modulus, when the number they write was not negative (for the shift: when the operand is not negative); so
  do \<open>BN_mod_add_quick\<close>, \<open>BN_mod_sub_quick\<close> and \<open>BN_mod_lshift_quick\<close>, which make their own context. None of
  them writes the sign: in a result number that was negative the sum and the difference are the negated
  residue, against bn.h, and so is the shift of a negative operand. A shift by nothing is a copy. The
  operations keep the frames and counters of the context, and they succeed whenever the allocator serves and
  no failure is pending.\<close>

theorem bn_mod_consttime_exact:
  assumes "allocator malloc" "bn_ok a" "bn_ok b" "bn_ok m" "bn_ok r" "bn_mag a < bn_mag m" "bn_mag b < bn_mag m"
    "ctx_ok n ctx" "depth (frames ctx) < n" "n < 2 ^ 30"
  defines "calm \<equiv> serves malloc \<and> ctx_calm ctx \<and> \<not> bn_static r"
    and "x \<equiv> int (bn_mag a)" and "y \<equiv> int (bn_mag b)"
  shows "(case bn_mod_add_consttime malloc a b m r ctx of (e, r', ctx') \<Rightarrow> (calm \<longrightarrow> e \<noteq> None) \<and> ctx_same n ctx ctx' \<and> bn_ok r' \<and>
        (e \<noteq> None \<longrightarrow> mod_result (neg r) (x + y) m r')) \<and>
    (case bn_mod_sub_consttime malloc a b m r ctx of (e, r', ctx') \<Rightarrow> (calm \<longrightarrow> e \<noteq> None) \<and> ctx_same n ctx ctx' \<and> bn_ok r' \<and>
        (e \<noteq> None \<longrightarrow> mod_result (neg r) (x - y) m r')) \<and>
    (case bn_mod_lshift_consttime malloc a k m r ctx of (e, r', ctx') \<Rightarrow> (calm \<longrightarrow> e \<noteq> None) \<and> ctx_same n ctx ctx' \<and> bn_ok r' \<and>
        (e \<noteq> None \<longrightarrow> (if 0 < k then mod_result (neg a) (x * 2 ^ nat k) m r' else bn_int r' = bn_int a))) \<and>
    (case BN_mod_add_quick malloc a b m r of (e, r') \<Rightarrow> (calm \<longrightarrow> e \<noteq> None) \<and> (e \<noteq> None \<longrightarrow> mod_result (neg r) (x + y) m r')) \<and>
    (case BN_mod_sub_quick malloc a b m r of (e, r') \<Rightarrow> (calm \<longrightarrow> e \<noteq> None) \<and> (e \<noteq> None \<longrightarrow> mod_result (neg r) (x - y) m r')) \<and>
    (case BN_mod_lshift_quick malloc a k m r of (e, r') \<Rightarrow> (calm \<longrightarrow> e \<noteq> None) \<and>
        (e \<noteq> None \<longrightarrow> (if 0 < k then mod_result (neg a) (x * 2 ^ nat k) m r' else bn_int r' = bn_int a)))"
proof -
  note al = assms(1) and ok = assms(2-5) and lt = assms(6,7) and c = assms(8-10)
  define L where "L r' \<longleftrightarrow> (if 0 < k then mod_result (neg a) (x * 2 ^ nat k) m r' else bn_int r' = bn_int a)" for r'
  have add: "ctx_same i z ctx' \<and> bn_ok r' \<and> (serves malloc \<and> ctx_calm z \<and> \<not> bn_static r \<longrightarrow> e \<noteq> None) \<and>
      (e \<noteq> None \<longrightarrow> mod_result (neg r) (x + y) m r')"
    if "bn_mod_add_consttime malloc a b m r z = (e, r', ctx')" "ctx_ok i z" "depth (frames z) < i" "i < 2 ^ 30" for e r' ctx' i z
    using mod_add_consttime_spec [OF al ok lt that(2-4,1)]
      mod_consttime_calm [of malloc a b m i z r bn_mod_add_words, folded bn_mod_add_consttime_def] ok lt that
    by (auto intro!: mod_resultI simp: x_def y_def zmod_int)
  have sub: "ctx_same i z ctx' \<and> bn_ok r' \<and> (serves malloc \<and> ctx_calm z \<and> \<not> bn_static r \<longrightarrow> e \<noteq> None) \<and>
      (e \<noteq> None \<longrightarrow> mod_result (neg r) (x - y) m r')"
    if "bn_mod_sub_consttime malloc a b m r z = (e, r', ctx')" "ctx_ok i z" "depth (frames z) < i" "i < 2 ^ 30" for e r' ctx' i z
    using mod_sub_consttime_spec [OF al ok lt that(2-4,1)]
      mod_consttime_calm [of malloc a b m i z r bn_mod_sub_words, folded bn_mod_sub_consttime_def] ok lt that
    by (auto intro!: mod_resultI simp: x_def y_def)
  have shift: "ctx_same i z ctx' \<and> bn_ok r' \<and> (serves malloc \<and> ctx_calm z \<and> \<not> bn_static r \<longrightarrow> e \<noteq> None) \<and> (e \<noteq> None \<longrightarrow> L r')"
    if "bn_mod_lshift_consttime malloc a k m r z = (e, r', ctx')" "ctx_ok i z" "depth (frames z) < i" "i < 2 ^ 30" for e r' ctx' i z
    using mod_lshift_spec [OF al ok(1,3,4) lt(1) that(2-4,1)] lt(1)
    by (auto intro!: mod_resultI simp: L_def x_def zmod_int bn_int_def)
  have new: "ctx_ok 1 BN_CTX_init" "depth (frames BN_CTX_init) < 1" "(1 :: nat) < 2 ^ 30" "ctx_calm BN_CTX_init"
    using new_ctx_ok [of 1] by (simp_all add: BN_CTX_init_def ctx_calm_def)
  have quick: "case with_new_ctx malloc f r of (e, r') \<Rightarrow> (calm \<longrightarrow> e \<noteq> None) \<and> (e \<noteq> None \<longrightarrow> P r')"
    if "\<And>e r' ctx'. f r BN_CTX_init = (e, r', ctx') \<Longrightarrow> (serves malloc \<and> \<not> bn_static r \<longrightarrow> e \<noteq> None) \<and> (e \<noteq> None \<longrightarrow> P r')" for f P
    using with_new_ctx_spec [of f r malloc "\<not> bn_static r" P, OF that] by (auto simp: calm_def)
  have time: "case f r ctx of (e, r', ctx') \<Rightarrow> (calm \<longrightarrow> e \<noteq> None) \<and> ctx_same n ctx ctx' \<and> bn_ok r' \<and> (e \<noteq> None \<longrightarrow> P r')"
    if "\<And>e r' ctx'. f r ctx = (e, r', ctx') \<Longrightarrow> ctx_same n ctx ctx' \<and> bn_ok r' \<and>
      (serves malloc \<and> ctx_calm ctx \<and> \<not> bn_static r \<longrightarrow> e \<noteq> None) \<and> (e \<noteq> None \<longrightarrow> P r')" for f :: "BIGNUM \<Rightarrow> BN_CTX \<Rightarrow> unit option \<times> BIGNUM \<times> BN_CTX" and P
    by (rule case_triple) (use that in \<open>auto simp: calm_def\<close>)
  note T = time [OF add [OF _ c]] time [OF sub [OF _ c]] time [OF shift [OF _ c]]
  have Q: "case BN_mod_add_quick malloc a b m r of (e, r') \<Rightarrow> (calm \<longrightarrow> e \<noteq> None) \<and> (e \<noteq> None \<longrightarrow> mod_result (neg r) (x + y) m r')"
    "case BN_mod_sub_quick malloc a b m r of (e, r') \<Rightarrow> (calm \<longrightarrow> e \<noteq> None) \<and> (e \<noteq> None \<longrightarrow> mod_result (neg r) (x - y) m r')"
    "case BN_mod_lshift_quick malloc a k m r of (e, r') \<Rightarrow> (calm \<longrightarrow> e \<noteq> None) \<and> (e \<noteq> None \<longrightarrow> L r')"
    unfolding BN_mod_add_quick_def BN_mod_sub_quick_def BN_mod_lshift_quick_def
    by (rule quick, use add [OF _ new(1-3)] sub [OF _ new(1-3)] shift [OF _ new(1-3)] new(4) in blast)+
  show ?thesis using T Q unfolding L_def by (intro conjI) assumption+
qed

theorem bn_mod_consttime_exact_witness:
  "let num = (\<lambda>x s. \<lparr>bn_d = [x], bn_width = 1, dmax = 1, neg = s, bn_static = False\<rparr>);
       x = BN_mod_sub_quick zero_alloc (num 3 False) (num 5 False) (num 7 False) (num 9 False);
       y = BN_mod_sub_quick zero_alloc (num 3 False) (num 5 False) (num 7 False) (num 9 True);
       z = BN_mod_lshift_quick zero_alloc (num 3 False) 3 (num 7 False) (num 9 True)
   in fst x = Some () \<and> bn_int (snd x) = 5 \<and> fst y = Some () \<and> bn_int (snd y) = - 5 \<and> fst z = Some () \<and> bn_int (snd z) = 3"
proof -
  let ?num = "\<lambda>x s. \<lparr>bn_d = [x], bn_width = 1, dmax = 1, neg = s, bn_static = False\<rparr>"
  have v: "bn_mag (?num 3 False) = 3" "bn_mag (?num 5 False) = 5" "bn_mag (?num 7 False) = 7" by (simp_all add: bn_mag_def)
  have ok: "bn_ok (?num 3 False)" "bn_ok (?num 5 False)" "bn_ok (?num 7 False)" "bn_ok (?num 9 s)" for s
    by (simp_all add: bn_ok_def INT_MAX_def)
  have lt: "bn_mag (?num 3 False) < bn_mag (?num 7 False)" "bn_mag (?num 5 False) < bn_mag (?num 7 False)" unfolding v by simp_all
  have c: "ctx_ok 1 BN_CTX_init" "depth (frames BN_CTX_init) < 1" "(1 :: nat) < 2 ^ 30"
    and calm: "serves zero_alloc \<and> ctx_calm BN_CTX_init \<and> \<not> bn_static (?num 9 s)" for s
    using new_ctx_ok [of 1] by (simp_all add: BN_CTX_init_def ctx_calm_def)
  have sgn: "neg (?num 9 s) = s" "neg (?num 3 False) = False" for s by simp_all
  have sub: "case BN_mod_sub_quick zero_alloc (?num 3 False) (?num 5 False) (?num 7 False) (?num 9 s) of (e, r') \<Rightarrow>
      e \<noteq> None \<and> (e \<noteq> None \<longrightarrow> mod_result s (int 3 - int 5) (?num 7 False) r')" for s
    using bn_mod_consttime_exact [OF allocator_zero_alloc ok(1-3) ok(4) [of s] lt c, of 0]
    unfolding eqTrueI [OF calm] simp_thms v sgn by (elim conjE)
  have shift: "case BN_mod_lshift_quick zero_alloc (?num 3 False) 3 (?num 7 False) (?num 9 True) of (e, r') \<Rightarrow>
      e \<noteq> None \<and> (e \<noteq> None \<longrightarrow> (if 0 < (3 :: int) then mod_result False (int 3 * 2 ^ nat 3) (?num 7 False) r' else bn_int r' = bn_int (?num 3 False)))"
    using bn_mod_consttime_exact [OF allocator_zero_alloc ok(1-3) ok(4) [of True] lt c, of 3]
    unfolding eqTrueI [OF calm] simp_thms v sgn by (elim conjE)
  show ?thesis using sub [of False] sub [of True] shift unfolding mod_result_def v Let_def
    by (simp only: case_prod_unfold if_True if_False) simp
qed

end
