(* ===== verification/BnDiv.thy ===== *)
theory BnDiv
  imports BnMod
begin

text \<open>
  Division of big numbers (\<open>crypto/fipsmodule/bn/div.c\<close>): the schoolbook division \<open>BN_div\<close> with its estimate of
  each quotient word, the modular functions on top of it, the binary division \<open>bn_div_consttime\<close>, division by a
  word and by a power of two.
\<close>

section \<open>Quotient words\<close>

definition bn_div_rem_words :: "u64 \<Rightarrow> u64 \<Rightarrow> u64 \<Rightarrow> u64 \<times> u64" where
  "bn_div_rem_words n0 n1 d0 =
     (let n = push_bit 64 (ucast n0) OR ucast n1 :: u128; q = ucast (n div ucast d0) in (q, n1 - q * d0))"

text \<open>The loop that lowers the estimate. A divisor \<open>d0 = 0\<close> does not get here (dividing by it before is
  undefined): the model stops there, for the recursion to end on all arguments.\<close>

function div_adjust :: "u64 \<Rightarrow> u64 \<Rightarrow> u64 \<Rightarrow> u64 \<Rightarrow> u64 \<Rightarrow> u128 \<Rightarrow> u64" where
  "div_adjust d0 d1 n2 q rm t2 =
     (if t2 \<le> (push_bit 64 (ucast rm) OR ucast n2) then q
      else if rm + d0 < d0 \<or> d0 = 0 then q - 1
      else div_adjust d0 d1 n2 (q - 1) (rm + d0) (t2 - ucast d1))"
  by pat_completeness auto
termination
proof (relation "measure (\<lambda>(d0, d1, n2, q, rm, t2). 2 ^ 64 - unat rm)")
  fix d0 d1 n2 q rm :: u64 and t2 :: u128
  assume "\<not> (rm + d0 < d0 \<or> d0 = 0)"
  then have "unat (rm + d0) = unat rm + unat d0" "0 < unat d0"
    using no_olen_add_nat unat_plus_simple [of d0 rm] by (auto simp: not_less add.commute unat_gt_0)
  moreover have "unat (rm + d0) < 2 ^ 64" by (rule u64_less)
  ultimately show "((d0, d1, n2, q - 1, rm + d0, t2 - ucast d1), d0, d1, n2, q, rm, t2) \<in> measure (\<lambda>(d0, d1, n2, q, rm, t2). 2 ^ 64 - unat rm)"
    by simp
qed simp

declare div_adjust.simps [simp del]

text \<open>The body of the loop of \<open>BN_div\<close>: the window of \<open>div_n + 1\<close> words of the dividend starts at \<open>off\<close>.\<close>

definition div_estimate :: "u64 list \<Rightarrow> nat \<Rightarrow> nat \<Rightarrow> u64 list \<Rightarrow> u64" where
  "div_estimate sdiv div_n off snum =
     (let d0 = sdiv ! (div_n - 1); d1 = (if div_n = 1 then 0 else sdiv ! (div_n - 2));
          n0 = snum ! (off + div_n); n1 = snum ! (off + div_n - 1); n2 = snum ! (off + div_n - 2)
      in if n0 = d0 then - 1
         else (case bn_div_rem_words n0 n1 d0 of (q, rm) \<Rightarrow> div_adjust d0 d1 n2 q rm (ucast d1 * ucast q)))"

definition div_step :: "u64 list \<Rightarrow> nat \<Rightarrow> nat \<Rightarrow> u64 list \<Rightarrow> u64 \<times> u64 list" where
  "div_step sdiv div_n off snum =
     (let q = div_estimate sdiv div_n off snum
      in case bn_mul_words sdiv div_n q of (tmp, l0) \<Rightarrow>
         case bn_sub_words (drop off snum) (tmp @ [l0]) (div_n + 1) of (w, borrow) \<Rightarrow>
           let snum = splice off w snum
           in if borrow \<noteq> 0
              then (case bn_add_words (drop off snum) sdiv div_n of (w, carry) \<Rightarrow>
                      let snum = splice off w snum
                      in (q - 1, if carry \<noteq> 0 then snum[off + div_n := snum ! (off + div_n) + 1] else snum))
              else (q, snum))"

text \<open>\<open>n\<close> words of the quotient are still to be found; \<open>res\<close> are its words from position \<open>n\<close> on.\<close>

primrec div_loop :: "nat \<Rightarrow> u64 list \<Rightarrow> nat \<Rightarrow> u64 list \<Rightarrow> u64 list \<Rightarrow> u64 list \<times> u64 list" where
  "div_loop 0 sdiv div_n snum res = (snum, res)"
| "div_loop (Suc n) sdiv div_n snum res =
     (case div_step sdiv div_n (Suc n) snum of (q, snum) \<Rightarrow> div_loop n sdiv div_n snum (q # res))"

section \<open>BN\_div\<close>

text \<open>Both numbers shifted so that the top bit of the divisor is set, the dividend by one word more, with a
  zero word on top of it.\<close>

definition div_normalise :: "(nat \<Rightarrow> byte list option) \<Rightarrow> nat \<Rightarrow> BIGNUM \<Rightarrow> BIGNUM \<Rightarrow> BIGNUM \<Rightarrow> BIGNUM \<Rightarrow> unit option \<times> BIGNUM \<times> BIGNUM" where
  "div_normalise malloc norm_shift numerator divisor snum sdiv =
     (case BN_lshift malloc divisor (int norm_shift) sdiv of
        (None, sdiv) \<Rightarrow> (None, snum, sdiv)
      | (Some _, sdiv) \<Rightarrow>
          let sdiv = (bn_set_minimal_width sdiv)\<lparr>neg := False\<rparr>
          in case BN_lshift malloc numerator (int (norm_shift + 64)) snum of
               (None, snum) \<Rightarrow> (None, snum, sdiv)
             | (Some _, snum) \<Rightarrow>
                 let snum = (bn_set_minimal_width snum)\<lparr>neg := False\<rparr>
                 in if bn_width snum \<le> bn_width sdiv + 1
                    then (case bn_wexpand malloc (bn_width sdiv + 2) snum of
                            (None, snum) \<Rightarrow> (None, snum, sdiv)
                          | (Some _, snum) \<Rightarrow>
                              (Some (), snum\<lparr>bn_d := splice (bn_width snum) (replicate (bn_width sdiv + 2 - bn_width snum) 0) (bn_d snum),
                                 bn_width := bn_width sdiv + 2\<rparr>, sdiv))
                    else (case bn_wexpand malloc (bn_width snum + 1) snum of
                            (None, snum) \<Rightarrow> (None, snum, sdiv)
                          | (Some _, snum) \<Rightarrow>
                              (Some (), snum\<lparr>bn_d := (bn_d snum)[bn_width snum := 0], bn_width := bn_width snum + 1\<rparr>, sdiv)))"

text \<open>The quotient and, left in \<open>snum\<close>, the remainder; \<open>tmp\<close> is only made large enough.\<close>

definition div_words :: "(nat \<Rightarrow> byte list option) \<Rightarrow> bool \<Rightarrow> BIGNUM \<Rightarrow> BIGNUM \<Rightarrow> BIGNUM \<Rightarrow> BIGNUM \<Rightarrow> unit option \<times> BIGNUM \<times> BIGNUM \<times> BIGNUM" where
  "div_words malloc sign snum sdiv res tmp =
     (let div_n = bn_width sdiv; num_n = bn_width snum; loop = num_n - div_n; res = res\<lparr>neg := sign\<rparr>
      in case bn_wexpand malloc (loop + 1) res of
           (None, res) \<Rightarrow> (None, snum, res, tmp)
         | (Some _, res) \<Rightarrow>
             let res = res\<lparr>bn_width := loop - 1\<rparr>
             in case bn_wexpand malloc (div_n + 1) tmp of
                  (None, tmp) \<Rightarrow> (None, snum, res, tmp)
                | (Some _, tmp) \<Rightarrow>
                    let res = (if bn_width res = 0 then res\<lparr>neg := False\<rparr> else res)
                    in case div_loop (loop - 1) (bn_d sdiv) div_n (take num_n (bn_d snum)) [] of (ws, qs) \<Rightarrow>
                         (Some (), bn_set_minimal_width (snum\<lparr>bn_d := splice 0 ws (bn_d snum)\<rparr>),
                          res\<lparr>bn_d := splice 0 qs (bn_d res)\<rparr>, tmp))"

text \<open>\<open>None\<close> is a null pointer given for the quotient or the remainder; \<open>in_num\<close> says that the quotient is
  written to the numerator, whose sign is read again after that of the quotient has been written.\<close>

definition div_finish :: "(nat \<Rightarrow> byte list option) \<Rightarrow> nat \<Rightarrow> bool \<Rightarrow> BIGNUM \<Rightarrow> BIGNUM option \<Rightarrow> BIGNUM \<Rightarrow> unit option \<times> BIGNUM option \<times> BIGNUM" where
  "div_finish malloc norm_shift num_neg snum rem res =
     (case rem of
        None \<Rightarrow> (Some (), None, bn_set_minimal_width res)
      | Some r \<Rightarrow>
          (case BN_rshift malloc snum (int norm_shift) r of
             (None, r) \<Rightarrow> (None, Some r, res)
           | (Some _, r) \<Rightarrow> (Some (), Some (if BN_is_zero r then r else r\<lparr>neg := num_neg\<rparr>), bn_set_minimal_width res)))"

definition div_body :: "(nat \<Rightarrow> byte list option) \<Rightarrow> bool \<Rightarrow> BIGNUM option \<Rightarrow> BIGNUM \<Rightarrow> BIGNUM \<Rightarrow> BIGNUM \<Rightarrow> BIGNUM \<Rightarrow> BIGNUM \<Rightarrow> BIGNUM \<Rightarrow>
    unit option \<times> BIGNUM option \<times> BIGNUM \<times> BIGNUM \<times> BIGNUM \<times> BIGNUM" where
  "div_body malloc in_num rem numerator divisor res tmp snum sdiv =
     (let norm_shift = 64 - BN_num_bits divisor mod 64
      in case div_normalise malloc norm_shift numerator divisor snum sdiv of
           (None, snum, sdiv) \<Rightarrow> (None, rem, res, tmp, snum, sdiv)
         | (Some _, snum, sdiv) \<Rightarrow>
             (case div_words malloc (neg numerator \<noteq> neg divisor) snum sdiv res tmp of
                (None, snum, res, tmp) \<Rightarrow> (None, rem, res, tmp, snum, sdiv)
              | (Some _, snum, res, tmp) \<Rightarrow>
                  (case div_finish malloc (norm_shift + 64) (neg (if in_num then res else numerator)) snum rem res of
                     (e, rem, res) \<Rightarrow> (e, rem, res, tmp, snum, sdiv))))"

definition BN_div :: "(nat \<Rightarrow> byte list option) \<Rightarrow> bool \<Rightarrow> BIGNUM option \<Rightarrow> BIGNUM option \<Rightarrow> BIGNUM \<Rightarrow> BIGNUM \<Rightarrow> BN_CTX \<Rightarrow>
    unit option \<times> BIGNUM option \<times> BIGNUM option \<times> BN_CTX" where
  "BN_div malloc in_num quot rem numerator divisor ctx =
     (let nw = bn_minimal_width numerator; dw = bn_minimal_width divisor
      in if 0 < nw \<and> bn_d numerator ! (nw - 1) = 0 \<or> 0 < dw \<and> bn_d divisor ! (dw - 1) = 0 then (None, quot, rem, ctx)
         else if BN_is_zero divisor then (None, quot, rem, ctx)
         else
           (case BN_CTX_get malloc (BN_CTX_start malloc ctx) of (tmp, ctx) \<Rightarrow>
            case BN_CTX_get malloc ctx of (snum, ctx) \<Rightarrow>
            case BN_CTX_get malloc ctx of (sdiv, ctx) \<Rightarrow>
            case (case quot of None \<Rightarrow> BN_CTX_get malloc ctx | Some _ \<Rightarrow> (None, ctx)) of (k, ctx) \<Rightarrow>
            case (tmp, snum, sdiv, case quot of None \<Rightarrow> map_option (ctx_val ctx) k | Some q \<Rightarrow> Some q) of
              (Some t, Some sn, Some sd, Some res) \<Rightarrow>
                (case div_body malloc in_num rem numerator divisor res (ctx_val ctx t) (ctx_val ctx sn) (ctx_val ctx sd) of
                   (e, rem, res, tv, snv, sdv) \<Rightarrow>
                     let ctx = ctx_put t tv (ctx_put sn snv (ctx_put sd sdv ctx));
                         ctx = (case k of None \<Rightarrow> ctx | Some k \<Rightarrow> ctx_put k res ctx)
                     in (e, map_option (\<lambda>_. res) quot, rem, BN_CTX_end ctx))
            | _ \<Rightarrow> (None, quot, rem, BN_CTX_end ctx)))"

text \<open>\<open>BN_mod\<close> is a macro for \<open>BN_div\<close> without a quotient; \<open>BN_nnmod\<close> makes the remainder non-negative.\<close>

definition BN_mod :: "(nat \<Rightarrow> byte list option) \<Rightarrow> BIGNUM \<Rightarrow> BIGNUM \<Rightarrow> BIGNUM \<Rightarrow> BN_CTX \<Rightarrow> unit option \<times> BIGNUM \<times> BN_CTX" where
  "BN_mod malloc numerator divisor r ctx =
     (case BN_div malloc False None (Some r) numerator divisor ctx of (e, _, r', ctx) \<Rightarrow> (e, the r', ctx))"

definition BN_nnmod :: "(nat \<Rightarrow> byte list option) \<Rightarrow> BIGNUM \<Rightarrow> BIGNUM \<Rightarrow> BIGNUM \<Rightarrow> BN_CTX \<Rightarrow> unit option \<times> BIGNUM \<times> BN_CTX" where
  "BN_nnmod malloc m d r ctx =
     (case BN_mod malloc m d r ctx of
        (None, r, ctx) \<Rightarrow> (None, r, ctx)
      | (Some _, r, ctx) \<Rightarrow>
          if \<not> neg r then (Some (), r, ctx)
          else (case (if neg d then BN_sub malloc r d r else BN_add malloc r d r) of (e, r) \<Rightarrow> (e, r, ctx)))"

section \<open>The estimate is at most one too large\<close>

lemma join_words: "unat (push_bit 64 (ucast (h :: u64)) OR ucast (l :: u64) :: u128) = unat h * 2 ^ 64 + unat l"
proof -
  have "(push_bit 64 (ucast h) OR ucast l :: u128) = push_bit 64 (ucast h) + ucast l"
    by (rule disjunctive_add [symmetric]) (auto simp: bit_simps dest: bit_imp_le_length)
  moreover have "unat (push_bit 64 (ucast h :: u128)) = unat h * 2 ^ 64"
    using unat_push_bit [of "ucast h :: u128" 64] u64_less [of h] by simp
  moreover have "unat h * 2 ^ 64 + unat l < 2 ^ 128"
  proof -
    have "unat h + 1 \<le> 2 ^ 64" using u64_less [of h] by simp
    from mult_le_mono1 [OF this, of "2 ^ 64"] show ?thesis using u64_less [of l] by simp
  qed
  ultimately show ?thesis by (simp add: unat_word_ariths unsigned_ucast_eq)
qed

lemma div_rem_words:
  assumes "n0 < d0" and "bn_div_rem_words n0 n1 d0 = (q, rm)"
  shows "unat n0 * 2 ^ 64 + unat n1 = unat q * unat d0 + unat rm \<and> unat rm < unat d0"
proof -
  define n :: u128 where "n = push_bit 64 (ucast n0) OR ucast n1"
  define N where "N = unat n0 * 2 ^ 64 + unat n1"
  have lt: "unat n0 < unat d0" using assms(1) by (simp add: word_less_nat_alt)
  have n: "unat n = N" unfolding n_def N_def by (rule join_words)
  have "unat n0 + 1 \<le> unat d0" using lt by simp
  from mult_le_mono1 [OF this, of "2 ^ 64"] have "N < unat d0 * 2 ^ 64" using u64_less [of n1] by (simp add: N_def)
  then have q: "N div unat d0 < 2 ^ 64" by (simp add: less_mult_imp_div_less mult.commute)
  have qv: "unat q = N div unat d0"
  proof -
    have "unat (n div ucast d0) = N div unat d0" by (simp add: unat_div n)
    then show ?thesis using assms(2) q by (auto simp: bn_div_rem_words_def n_def [symmetric] Let_def unsigned_ucast_eq take_bit_nat_eq_self)
  qed
  have "rm = n1 - q * d0" using assms(2) by (auto simp: bn_div_rem_words_def Let_def)
  moreover have "unat d0 < 2 ^ 64" by (rule u64_less)
  then have r: "N mod unat d0 < 2 ^ 64" using lt mod_less_divisor [of "unat d0" N] by linarith
  have z: "(2 ^ 64 :: u64) = 0" by (simp add: exp_eq_zero_iff)
  have "of_nat N = n0 * 2 ^ 64 + n1" by (simp only: N_def of_nat_add of_nat_mult of_nat_power of_nat_numeral) simp
  then have "of_nat N = n1" by (simp only: z mult_zero_right add_0)
  then have "n1 - q * d0 = of_nat (N mod unat d0)"
  proof -
    have "(of_nat N :: u64) = of_nat (N div unat d0 * unat d0 + N mod unat d0)" by simp
    also have "\<dots> = of_nat (unat q) * of_nat (unat d0) + of_nat (N mod unat d0)" unfolding qv by (simp only: of_nat_add of_nat_mult)
    also have "\<dots> = q * d0 + of_nat (N mod unat d0)" by simp
    finally show ?thesis unfolding \<open>of_nat N = n1\<close> by simp
  qed
  ultimately have "unat rm = N mod unat d0" using r by (simp add: unat_of_nat take_bit_nat_eq_self)
  then show ?thesis using qv lt unfolding N_def [symmetric] by simp
qed

lemma div_adjust_val:
  assumes "0 < unat d0" and "unat t2 = unat d1 * unat q" and "N = unat q * unat d0 + unat rm"
    and "N * 2 ^ 64 + unat n2 < (unat q + 1) * (unat d0 * 2 ^ 64 + unat d1)"
  shows "unat (div_adjust d0 d1 n2 q rm t2) * (unat d0 * 2 ^ 64 + unat d1) \<le> N * 2 ^ 64 + unat n2 \<and>
    N * 2 ^ 64 + unat n2 < (unat (div_adjust d0 d1 n2 q rm t2) + 1) * (unat d0 * 2 ^ 64 + unat d1)"
  using assms
proof (induction d0 d1 n2 q rm t2 rule: div_adjust.induct)
  case (1 d0 d1 n2 q rm t2)
  define k B D2 where "k = unat q - 1" and "B = (2 ^ 64 :: nat)" and "D2 = unat d0 * B + unat d1"
  have N: "N * B = unat q * unat d0 * B + unat rm * B" unfolding "1.prems"(3) by (simp add: distrib_right)
  have qD: "unat q * D2 = unat q * unat d0 * B + unat t2" unfolding D2_def "1.prems"(2) by (simp add: algebra_simps)
  have le: "t2 \<le> (push_bit 64 (ucast rm) OR ucast n2) \<longleftrightarrow> unat t2 \<le> unat rm * B + unat n2"
    unfolding word_le_nat_alt join_words B_def ..
  define j where "j = unat (div_adjust d0 d1 n2 q rm t2)"
  have "j * D2 \<le> N * B + unat n2 \<and> N * B + unat n2 < (j + 1) * D2"
  proof (cases "t2 \<le> (push_bit 64 (ucast rm) OR ucast n2)")
    case True
    have "unat q * D2 \<le> N * B + unat n2" using True le unfolding qD N by simp
    moreover have "j = unat q" using True unfolding j_def by (subst div_adjust.simps) simp
    ultimately show ?thesis using "1.prems"(4) unfolding B_def [symmetric] D2_def [symmetric] by simp
  next
    case False
    then have gt: "unat rm * B + unat n2 < unat t2" using le by simp
    then have up: "N * B + unat n2 < unat q * D2" unfolding qD N by simp
    have "unat q \<noteq> 0"
    proof
      assume "unat q = 0"
      then have "unat t2 = 0" unfolding "1.prems"(2) by simp
      then show False using gt by simp
    qed
    then have "q \<noteq> 0" by auto
    then have q: "unat q = k + 1" "unat (q - 1) = k"
      using \<open>unat q \<noteq> 0\<close> by (simp_all add: k_def unat_minus_one)
    have d1: "unat t2 = unat d1 * k + unat d1" using "1.prems"(2) q(1) by simp
    show ?thesis
    proof (cases "rm + d0 < d0 \<or> d0 = 0")
      case True
      then have "rm + d0 < d0" using "1.prems"(1) by auto
      then have over: "B \<le> unat d0 + unat rm"
        using unat_add_lem [of rm d0] unfolding B_def word_less_nat_alt by (cases "unat rm + unat d0 < 2 ^ 64") simp_all
      have "k * unat d1 \<le> B * B"
        using u64_less [of q] u64_less [of d1] q(1) unfolding B_def by (intro mult_le_mono) simp_all
      also have "\<dots> \<le> (unat d0 + unat rm) * B" using over by simp
      finally have "k * D2 \<le> N * B" unfolding N q(1) D2_def by (simp add: algebra_simps)
      then have "k * D2 \<le> N * B + unat n2" by simp
      moreover have "div_adjust d0 d1 n2 q rm t2 = q - 1" using True False by (subst div_adjust.simps) simp
      ultimately show ?thesis using up q unfolding j_def by simp
    next
      case no: False
      have "d0 \<le> d0 + rm" using no by (simp add: not_less add.commute)
      then have "unat (rm + d0) = unat rm + unat d0" using unat_plus_simple [of d0 rm] by (simp only: add.commute)
      then have N': "N = unat (q - 1) * unat d0 + unat (rm + d0)" unfolding "1.prems"(3) q by simp
      have "unat (ucast d1 :: u128) \<le> unat t2" unfolding d1 by simp
      then have "unat (t2 - ucast d1) = unat t2 - unat d1" by (simp add: unat_sub word_le_nat_alt)
      then have t': "unat (t2 - ucast d1) = unat d1 * unat (q - 1)" unfolding d1 q by simp
      have u': "N * B + unat n2 < (unat (q - 1) + 1) * D2" using up q by simp
      have "div_adjust d0 d1 n2 q rm t2 = div_adjust d0 d1 n2 (q - 1) (rm + d0) (t2 - ucast d1)"
        using False no by (subst div_adjust.simps) simp
      then show ?thesis
        using "1.IH" [OF False no "1.prems"(1) t' N' u' [unfolded D2_def B_def]] unfolding D2_def B_def j_def by simp
    qed
  qed
  then show ?case unfolding B_def D2_def j_def .
qed

text \<open>A quotient of leading parts.\<close>

lemma leading_quotient:
  fixes q N D2 R w d B :: nat
  assumes q: "q * D2 \<le> N" "N < (q + 1) * D2" "q < B" "B \<le> D2" and w: "w < R" and d: "d < R"
  defines "W \<equiv> N * R + w" and "D \<equiv> D2 * R + d"
  shows "W div D \<le> q \<and> q \<le> W div D + 1"
proof
  have D: "0 < D" using w q by (simp add: D_def)
  have "(N + 1) * R \<le> (q + 1) * D2 * R" using q(2) by (intro mult_le_mono1) simp
  also have "\<dots> \<le> (q + 1) * D" unfolding D_def by (simp add: algebra_simps)
  finally have "W < (q + 1) * D" unfolding W_def using w by (simp add: algebra_simps)
  then have "W div D < q + 1" by (rule less_mult_imp_div_less)
  then show "W div D \<le> q" by simp
  show "q \<le> W div D + 1"
  proof (cases q)
    case (Suc k)
    have "Suc k * d \<le> B * R" using q(3) d Suc by (intro mult_le_mono) simp_all
    also have "\<dots> \<le> D2 * R" using q(4) by simp
    finally have 1: "Suc k * d \<le> D2 * R" .
    have "Suc k * D2 * R \<le> N * R" using q(1) Suc by (intro mult_le_mono1) simp
    then have "Suc k * D2 * R + Suc k * d \<le> N * R + D2 * R" using 1 by (intro add_mono)
    then have "k * D \<le> W" unfolding W_def D_def by (simp add: algebra_simps)
    then have "k \<le> W div D" using D by (simp add: less_eq_div_iff_mult_less_eq)
    then show ?thesis using Suc by simp
  qed simp
qed

lemma part_Suc: "m < length d \<Longrightarrow> bn_part (Suc m) d = bn_part m d + 2 ^ (64 * m) * unat (d ! m)"
  by (simp add: take_Suc_conv_app_nth bn_val_append)

lemma window_top:
  assumes "0 < n" "off + n < length snum"
  shows "bn_part (n + 1) (drop off snum) =
    bn_part (n - 1) (drop off snum) + 2 ^ (64 * (n - 1)) * (unat (snum ! (off + n)) * 2 ^ 64 + unat (snum ! (off + n - 1)))"
proof -
  obtain m where n: "n = Suc m" using assms(1) by (cases n) auto
  have "bn_part (Suc (Suc m)) (drop off snum) = bn_part m (drop off snum) + 2 ^ (64 * m) * unat (snum ! (off + m)) +
      2 ^ (64 * Suc m) * unat (snum ! (off + Suc m))"
    using assms(2) n by (subst part_Suc, simp, subst part_Suc) simp_all
  moreover have "(2 :: nat) ^ (64 * Suc m) = 2 ^ (64 * m) * 2 ^ 64" by (simp add: power_add)
  ultimately show ?thesis unfolding n by (simp add: distrib_left algebra_simps)
qed

lemma div_estimate_val:
  assumes n: "0 < n" "n \<le> length sdiv" "0 < off" "off + n < length snum" and msb: "2 ^ 63 \<le> unat (sdiv ! (n - 1))"
  defines "D \<equiv> bn_part n sdiv" and "W \<equiv> bn_part (n + 1) (drop off snum)"
  assumes lt: "W < D * 2 ^ 64"
  shows "W div D \<le> unat (div_estimate sdiv n off snum) \<and> unat (div_estimate sdiv n off snum) \<le> W div D + 1"
proof -
  define B :: nat where "B = 2 ^ 64"
  define d0 d1 n0 n1 n2 where "d0 = sdiv ! (n - 1)" and "d1 = (if n = 1 then 0 else sdiv ! (n - 2))"
    and "n0 = snum ! (off + n)" and "n1 = snum ! (off + n - 1)" and "n2 = snum ! (off + n - 2)"
  define N D2 R d w where "N = unat n0 * B + unat n1" and "D2 = unat d0 * B + unat d1"
    and "R = (2 :: nat) ^ (64 * (n - 2))" and "d = bn_part (n - 2) sdiv" and "w = bn_part (n - 2) (drop off snum)"
  have b: "unat (x :: u64) < B" for x unfolding B_def by (rule u64_less)
  have dR: "d < R" "w < R" unfolding d_def w_def R_def by (rule bn_part_less)+
  have msb': "B \<le> 2 * unat d0" using msb by (simp add: B_def d0_def)
  have one: "D = unat d0 \<and> W = N \<and> d1 = 0" if "n = 1"
    using that window_top [OF n(1,4)] part_Suc [of 0 sdiv, OF less_le_trans [OF n(1,2)]] n
    by (simp add: D_def W_def d0_def d1_def N_def n0_def n1_def B_def)
  have more: "D = D2 * R + d \<and> W = (N * B + unat n2) * R + w" if "n \<noteq> 1"
  proof -
    have "n = Suc (Suc (n - 2))" using n(1) that by simp
    then obtain m where m: "n = Suc (Suc m)" by blast
    have p: "(2 :: nat) ^ (64 * Suc m) = 2 ^ (64 * m) * 2 ^ 64" by (simp add: power_add)
    have "D = bn_part m sdiv + 2 ^ (64 * m) * unat (sdiv ! m) + 2 ^ (64 * Suc m) * unat (sdiv ! Suc m)"
      using n(2) unfolding D_def m by (subst part_Suc, simp, subst part_Suc) simp_all
    moreover have "W = bn_part (Suc m) (drop off snum) + 2 ^ (64 * Suc m) * N"
      using window_top [OF n(1,4)] unfolding W_def N_def n0_def n1_def m B_def by simp
    moreover have "bn_part (Suc m) (drop off snum) = bn_part m (drop off snum) + 2 ^ (64 * m) * unat (snum ! (off + m))"
      using n(4) m by (subst part_Suc) simp_all
    ultimately show ?thesis unfolding D2_def R_def d_def w_def d0_def d1_def n2_def m p B_def by (simp add: algebra_simps)
  qed
  have Ddef: "div_estimate sdiv n off snum = (if n0 = d0 then - 1
      else (case bn_div_rem_words n0 n1 d0 of (q, rm) \<Rightarrow> div_adjust d0 d1 n2 q rm (ucast d1 * ucast q)))"
    by (simp add: div_estimate_def Let_def n0_def n1_def n2_def d0_def d1_def)
  have le: "unat n0 \<le> unat d0 \<and> (n = 1 \<longrightarrow> unat n0 < unat d0)"
  proof (cases "n = 1")
    case True
    have "unat n0 * B + unat n1 < unat d0 * B" using lt one [OF True] unfolding B_def [symmetric] N_def by simp
    then have "unat n0 * B < unat d0 * B" by linarith
    then show ?thesis by simp
  next
    case False
    have "unat n0 * B * B * R \<le> W" unfolding conjunct2 [OF more [OF False]] N_def by (simp add: algebra_simps)
    also have "W < D * B" using lt unfolding B_def .
    also have "D \<le> (unat d0 + 1) * B * R"
    proof -
      have "D \<le> (D2 + 1) * R" unfolding conjunct1 [OF more [OF False]] using dR by simp
      also have "\<dots> \<le> (unat d0 + 1) * B * R" unfolding D2_def using b [of d1] by (intro mult_le_mono1) simp
      finally show ?thesis .
    qed
    finally have "unat n0 * B * B * R < (unat d0 + 1) * B * R * B" by simp
    then have "unat n0 * (B * B * R) < (unat d0 + 1) * (B * B * R)" by (simp only: mult_ac)
    then have "unat n0 < unat d0 + 1" by (meson mult_le_mono1 leD leI)
    then show ?thesis using False by simp
  qed
  show ?thesis
  proof (cases "n0 = d0")
    case True
    then have n1: "n \<noteq> 1" using le by auto
    have "unat (- 1 :: u64) = B - 1" by (simp add: B_def unsigned_minus_1_eq_mask mask_eq_exp_minus_1)
    then have q: "unat (div_estimate sdiv n off snum) = B - 1" unfolding Ddef using True by simp
    have "D > 0" using lt by (cases D) auto
    have "W div D < B" using lt unfolding B_def by (simp add: less_mult_imp_div_less mult.commute)
    moreover have "(B - 2) * D \<le> W"
    proof -
      have "(B - 2) * (unat d0 + 1) \<le> unat d0 * B"
        using msb' by (simp add: B_def algebra_simps diff_mult_distrib)
      then have "(B - 2) * ((unat d0 + 1) * B * R) \<le> unat d0 * B * B * R"
        using mult_le_mono1 [of "(B - 2) * (unat d0 + 1)" "unat d0 * B" "B * R"] by (simp only: mult_ac)
      moreover have "D \<le> (unat d0 + 1) * B * R"
      proof -
        have "D \<le> (D2 + 1) * R" unfolding conjunct1 [OF more [OF n1]] using dR by simp
        also have "\<dots> \<le> (unat d0 + 1) * B * R" unfolding D2_def using b [of d1] by (intro mult_le_mono1) simp
        finally show ?thesis .
      qed
      then have "(B - 2) * D \<le> (B - 2) * ((unat d0 + 1) * B * R)" by (intro mult_le_mono2)
      moreover have "unat d0 * B * B * R \<le> W" using True unfolding conjunct2 [OF more [OF n1]] N_def by (simp add: algebra_simps)
      ultimately show ?thesis by linarith
    qed
    then have "B - 2 \<le> W div D" using \<open>D > 0\<close> by (simp add: less_eq_div_iff_mult_less_eq)
    ultimately show ?thesis unfolding q by (auto simp: B_def)
  next
    case False
    then have lt0: "n0 < d0" using le by (metis word_less_nat_alt le_neq_implies_less word_unat_eq_iff)
    obtain q rm where qr: "bn_div_rem_words n0 n1 d0 = (q, rm)" by (cases "bn_div_rem_words n0 n1 d0")
    have Q: "N = unat q * unat d0 + unat rm" "unat rm < unat d0" using div_rem_words [OF lt0 qr] unfolding N_def B_def by simp_all
    define e where "e = div_adjust d0 d1 n2 q rm (ucast d1 * ucast q)"
    have up: "N * 2 ^ 64 + unat n2 < (unat q + 1) * (unat d0 * 2 ^ 64 + unat d1)"
    proof -
      have "N + 1 \<le> (unat q + 1) * unat d0" using Q by simp
      from mult_le_mono1 [OF this, of B] have "N * B + unat n2 < (unat q + 1) * unat d0 * B" using b [of n2] by simp
      also have "\<dots> \<le> (unat q + 1) * (unat d0 * B + unat d1)" by (simp add: algebra_simps)
      finally show ?thesis unfolding B_def .
    qed
    have "0 < unat d0" using Q(2) by simp
    from div_adjust_val [OF this _ Q(1) up, of "ucast d1 * ucast q"]
    have E: "unat e * D2 \<le> N * B + unat n2" "N * B + unat n2 < (unat e + 1) * D2"
      unfolding e_def D2_def B_def unat_u128_prod by simp_all
    have r: "div_estimate sdiv n off snum = e" unfolding Ddef if_not_P [OF False] qr prod.case e_def ..
    show ?thesis
    proof (cases "n = 1")
      case True
      note o = one [OF True]
      have D2: "D2 = unat d0 * B" unfolding D2_def using o by simp
      have "unat e * unat d0 * B < (N + 1) * B" using E(1) b [of n2] unfolding D2 by (simp add: mult.assoc)
      then have "unat e * unat d0 < N + 1" by (rule mult_right_less_imp_less) simp
      then have "unat e * unat d0 \<le> N" by simp
      moreover have "N * B < (unat e + 1) * unat d0 * B" using E(2) unfolding D2 mult.assoc by linarith
      then have "N < (unat e + 1) * unat d0" by (rule mult_right_less_imp_less) simp
      ultimately have "N div unat d0 = unat e" by (intro div_nat_eqI) (simp_all add: mult.commute)
      then show ?thesis unfolding r using o by simp
    next
      case m: False
      have "B \<le> D2" using msb' b [of d0] unfolding D2_def by (cases "unat d0") (simp_all add: B_def)
      from leading_quotient [OF E b this dR(2,1)] show ?thesis unfolding r conjunct1 [OF more [OF m]] conjunct2 [OF more [OF m]] .
    qed
  qed
qed

section \<open>A step of the division\<close>

lemma splice_window:
  assumes "off + length w \<le> length s"
  shows "take off (splice off w s) = take off s" "take (length w) (drop off (splice off w s)) = w"
    "drop (off + length w) (splice off w s) = drop (off + length w) s" "length (splice off w s) = length s"
  using assms by (cases w, auto simp: splice_def min_def)+

text \<open>Adding the divisor back after a borrow.\<close>

lemma add_back:
  fixes K B D r x y z c :: nat
  assumes "x + K * y + (D - r) = K * B" "x < K" "r < D" "D < K" "y < B" and "z + K * c = x + D" "z < K"
  shows "y = B - 1 \<and> c = 1 \<and> z = r"
proof -
  have y: "y = B - 1"
  proof (rule ccontr)
    assume "y \<noteq> B - 1"
    then have "y + 2 \<le> B" using assms(5) by simp
    from mult_le_mono2 [OF this, of K] have "K * y + 2 * K \<le> K * B" by (simp add: algebra_simps)
    then show False using assms(1-4) by linarith
  qed
  then have "K * B = K * y + K" using assms(5) by (cases B) simp_all
  then have x: "x + D = K + r" using assms(1,3) by linarith
  have "c = 1"
  proof (rule ccontr)
    assume "c \<noteq> 1"
    then consider "c = 0" | "2 \<le> c" by linarith
    then show False
    proof cases
      case 2
      from mult_le_mono2 [OF this, of K] show False using assms(6,2,4) by linarith
    qed (use assms(6,7) x in simp)
  qed
  then show ?thesis using y x assms(6) by simp
qed

lemma div_step_val:
  assumes n: "0 < n" "n \<le> length sdiv" "0 < off" "off + n < length snum" and msb: "2 ^ 63 \<le> unat (sdiv ! (n - 1))"
  defines "D \<equiv> bn_part n sdiv" and "W \<equiv> bn_part (n + 1) (drop off snum)"
  assumes lt: "W < D * 2 ^ 64" and u: "div_step sdiv n off snum = (q, s')"
  shows "length s' = length snum \<and> unat q = W div D \<and> take off s' = take off snum \<and>
    bn_part (n + 1) (drop off s') = W mod D \<and> drop (off + (n + 1)) s' = drop (off + (n + 1)) snum"
proof -
  define q0 K where "q0 = div_estimate sdiv n off snum" and "K = (2 :: nat) ^ (64 * n)"
  have q0: "W div D \<le> unat q0" "unat q0 \<le> W div D + 1"
    using div_estimate_val [OF n msb] lt unfolding q0_def D_def W_def by blast+
  have D: "0 < D" "D < K" using lt bn_part_less [of n sdiv] by (cases "D = 0", simp_all add: D_def K_def)
  obtain tmp l0 where m: "bn_mul_words sdiv n q0 = (tmp, l0)" by (cases "bn_mul_words sdiv n q0")
  have T: "bn_val (tmp @ [l0]) = D * unat q0" "length tmp = n"
    using mul_words_val [OF m n(2)] by (simp_all add: bn_val_append D_def)
  obtain w borrow where s: "bn_sub_words (drop off snum) (tmp @ [l0]) (n + 1) = (w, borrow)"
    by (cases "bn_sub_words (drop off snum) (tmp @ [l0]) (n + 1)")
  have S: "int (bn_val w) - 2 ^ (64 * (n + 1)) * uint borrow = int W - int (D * unat q0)" "length w = n + 1" "borrow \<in> {0, 1}"
    using sub_words_val [OF s] n(4) T by (simp_all add: W_def)
  have KB: "(2 :: nat) ^ (64 * (n + 1)) = K * 2 ^ 64" by (simp add: K_def power_add)
  have fits: "off + length w \<le> length snum" using n(4) S(2) by simp
  note sp = splice_window [OF fits, unfolded S(2)]
  have dm: "D * (W div D) + W mod D = W" by simp
  note U = u [unfolded div_step_def Let_def, folded q0_def, unfolded m s prod.case]
  show ?thesis
  proof (cases "borrow = 0")
    case True
    have "int (bn_val w) = int W - int (D * unat q0)" using S(1) True by simp
    then have w: "bn_val w + D * unat q0 = W" by linarith
    then have "unat q0 = W div D"
    proof -
      have "unat q0 * D \<le> W" using w by (simp add: mult.commute)
      then have "unat q0 \<le> W div D" using D(1) by (simp add: less_eq_div_iff_mult_less_eq)
      then show ?thesis using q0 by simp
    qed
    moreover from this have "D * unat q0 = D * (W div D)" by simp
    then have "bn_val w = W mod D" using w dm by linarith
    moreover have "q = q0" "s' = splice off w snum" using U True by simp_all
    ultimately show ?thesis using sp by simp
  next
    case False
    then have b: "borrow = 1" using S(3) by blast
    have "int (bn_val w) + int (D * unat q0) = int W + 2 ^ (64 * (n + 1))" using S(1) unfolding b by simp
    then have w: "bn_val w + D * unat q0 = W + K * 2 ^ 64" unfolding KB [symmetric] by (simp flip: of_nat_eq_iff [where 'a = int])
    have "bn_val w < K * 2 ^ 64" using bn_val_less [of w] unfolding S(2) KB .
    then have "W < D * unat q0" using w by linarith
    then have "unat q0 \<noteq> W div D" using dm by (metis add_leD1 le_refl not_less)
    then have q: "unat q0 = W div D + 1" using q0 by simp
    define s1 where "s1 = splice off w snum"
    obtain w2 carry where a: "bn_add_words (drop off s1) sdiv n = (w2, carry)" by (cases "bn_add_words (drop off s1) sdiv n")
    have t1: "take n (drop off s1) = take n w" using arg_cong [OF sp(2), of "take n"] unfolding s1_def [symmetric] by (simp add: min_def)
    have A: "bn_val w2 + K * unat carry = bn_part n w + D" "length w2 = n"
      using add_words_val [OF a _ n(2)] n(4) sp(4) t1 unfolding s1_def [symmetric] D_def K_def by simp_all
    have "bn_part n w + K * unat (w ! n) = bn_val w" using part_Suc [of n w] S(2) by (simp add: K_def)
    moreover have "D * unat q0 = D * (W div D) + D" unfolding q by simp
    ultimately have "bn_part n w + K * unat (w ! n) + (D - W mod D) = K * 2 ^ 64"
      using w dm mod_less_divisor [OF D(1), of W] by linarith
    from add_back [OF this _ mod_less_divisor [OF D(1)] D(2) u64_less A(1)]
    have R: "unat (w ! n) = 2 ^ 64 - 1" "unat carry = 1" "bn_val w2 = W mod D"
      using bn_part_less [of n w] bn_val_less [of w2] A(2) unfolding K_def by simp_all
    have wn: "w ! n + 1 = 0" using R(1) by (simp add: word_unat_eq_iff unat_word_ariths)
    have c: "carry \<noteq> 0" using R(2) by auto
    have qv: "unat (q0 - 1) = W div D"
    proof -
      have "q0 \<noteq> 0" using q by auto
      then show ?thesis using q by (simp add: unat_minus_one)
    qed
    define s2 where "s2 = splice off w2 s1"
    have r: "q = q0 - 1" "s' = s2[off + n := s2 ! (off + n) + 1]"
      using U b a c unfolding s1_def [symmetric] by (simp_all add: s2_def)
    have s1: "s1 = take off snum @ w @ drop (off + (n + 1)) snum" using S(2) by (simp add: s1_def splice_def)
    have s2: "s2 = take off snum @ w2 @ w ! n # drop (off + (n + 1)) snum"
    proof -
      have "w = take n w @ [w ! n]" using S(2) take_Suc_conv_app_nth [of n w] by simp
      then obtain v where "w = v @ [w ! n]" "length v = n" using S(2) by (metis add_diff_cancel_right' length_butlast append_butlast_last_id length_append_singleton add_left_imp_eq add.commute Suc_eq_plus1)
      then have "s1 = take off snum @ v @ w ! n # drop (off + (n + 1)) snum" unfolding s1 by (metis append_Cons append_Nil append_assoc)
      then show ?thesis using A(2) \<open>length v = n\<close> n(4) by (simp add: s2_def splice_def min_def)
    qed
    have "s' = take off snum @ w2 @ 0 # drop (off + (n + 1)) snum"
      unfolding r s2 using A(2) n(4) wn by (simp add: nth_append min_def list_update_append)
    then show ?thesis using qv r(1) R(3) A(2) n(4) by (simp add: min_def bn_val_append)
  qed
qed

text \<open>What a window stands for when the words above it are zero.\<close>

lemma window_split:
  assumes "off + (n + 1) \<le> length s"
  shows "bn_val s = bn_part off s + 2 ^ (64 * off) * (bn_part (n + 1) (drop off s) + 2 ^ (64 * (n + 1)) * bn_val (drop (off + (n + 1)) s))"
proof -
  have "bn_val s = bn_part off s + 2 ^ (64 * off) * bn_val (drop off s)" using assms by (intro bn_val_take_drop) simp
  moreover have "bn_val (drop off s) = bn_part (n + 1) (drop off s) + 2 ^ (64 * (n + 1)) * bn_val (drop (off + (n + 1)) s)"
    using bn_val_take_drop [of "n + 1" "drop off s"] assms by (simp add: add.commute)
  ultimately show ?thesis by simp
qed

lemma div_loop_val:
  assumes n: "0 < n" "n \<le> length sdiv" and msb: "2 ^ 63 \<le> unat (sdiv ! (n - 1))"
  defines "D \<equiv> bn_part n sdiv"
  shows "m + n < length snum \<Longrightarrow> bn_val snum < D * 2 ^ (64 * (m + 1)) \<Longrightarrow> div_loop m sdiv n snum res = (s', res') \<Longrightarrow>
    length s' = length snum \<and> bn_val s' < D * 2 ^ 64 \<and>
    (\<exists>qs. res' = qs @ res \<and> length qs = m \<and> bn_val snum = bn_val qs * D * 2 ^ 64 + bn_val s')"
proof (induction m arbitrary: snum res)
  case (Suc m)
  define off B K where "off = Suc m" and "B = (2 :: nat) ^ 64" and "K = (2 :: nat) ^ (64 * off)"
  define W where "W = bn_part (n + 1) (drop off snum)"
  obtain q s1 where u: "div_step sdiv n off snum = (q, s1)" by (cases "div_step sdiv n off snum")
  have len: "off + (n + 1) \<le> length snum" "off + n < length snum" using Suc.prems(1) by (simp_all add: off_def)
  define hi where "hi = bn_val (drop (off + (n + 1)) snum)"
  have S: "bn_val snum = bn_part off snum + K * (W + 2 ^ (64 * (n + 1)) * hi)"
    using window_split [OF len(1)] unfolding K_def W_def hi_def .
  have KB: "(2 :: nat) ^ (64 * (Suc m + 1)) = K * B" by (simp add: K_def B_def off_def power_add)
  have "K * (W + 2 ^ (64 * (n + 1)) * hi) \<le> bn_val snum" unfolding S by (rule le_add2)
  also have "\<dots> < K * (D * B)" using Suc.prems(2) unfolding KB by (simp only: mult_ac)
  finally have W: "W + 2 ^ (64 * (n + 1)) * hi < D * B" by (rule mult_left_less_imp_less) simp
  have "D * B < 2 ^ (64 * (n + 1))" using bn_part_less [of n sdiv] by (simp add: D_def B_def power_add)
  then have "2 ^ (64 * (n + 1)) * hi < 2 ^ (64 * (n + 1)) * 1" using W by linarith
  then have hi: "hi = 0" by simp
  have lt: "W < D * 2 ^ 64" using W by (simp add: B_def)
  have off: "0 < off" by (simp add: off_def)
  have st: "length s1 = length snum" "unat q = W div D" "take off s1 = take off snum"
    "bn_part (n + 1) (drop off s1) = W mod D" "drop (off + (n + 1)) s1 = drop (off + (n + 1)) snum"
    using div_step_val [OF n off len(2) msb lt [unfolded W_def D_def] u] unfolding W_def D_def by blast+
  have len1: "off + (n + 1) \<le> length s1" using len st(1) by simp
  have S1: "bn_val s1 = bn_part off snum + K * (W mod D)"
    using window_split [OF len1] hi unfolding st(3,4,5) K_def hi_def by simp
  have D: "0 < D" using lt by (cases "D = 0") simp_all
  have "bn_part off snum < K" unfolding K_def by (rule bn_part_less)
  moreover have "K * (W mod D + 1) \<le> K * D" using D by (intro mult_le_mono2) (simp add: Suc_leI)
  ultimately have b: "bn_val s1 < D * 2 ^ (64 * (m + 1))" unfolding S1 by (simp add: K_def off_def mult.commute)
  have l: "div_loop m sdiv n s1 (q # res) = (s', res')" using Suc.prems(3) u by (simp add: off_def)
  have l1: "m + n < length s1" using len(2) st(1) by (simp add: off_def)
  obtain qs where I: "length s' = length s1" "bn_val s' < D * 2 ^ 64" "res' = qs @ q # res" "length qs = m"
    "bn_val s1 = bn_val qs * D * 2 ^ 64 + bn_val s'"
    using Suc.IH [OF l1 b l] by blast
  have K2: "K = 2 ^ (64 * m) * 2 ^ 64" by (simp add: K_def off_def power_add)
  have "bn_val snum = bn_val s1 + K * (D * unat q)"
  proof -
    have "W = W mod D + D * unat q" unfolding st(2) by simp
    then show ?thesis unfolding S S1 hi by (metis add.assoc add.right_neutral distrib_left mult_0_right)
  qed
  also have "\<dots> = bn_val (qs @ [q]) * D * 2 ^ 64 + bn_val s'"
    unfolding I(5) K2 by (simp add: bn_val_append I(4) algebra_simps)
  finally show ?case using I st(1) by (intro conjI exI [of _ "qs @ [q]"]) simp_all
qed simp

section \<open>The division of numbers\<close>

lemma static_minimal: "bn_static (bn_set_minimal_width bn) = bn_static bn"
  by (simp add: bn_set_minimal_width_def Let_def)

lemma static_andthen:
  assumes "andthen (bn_wexpand malloc n) (\<lambda>_ r. (Some (), f r)) r = (e, r')" "\<And>r. bn_static (f r) = bn_static r"
  shows "bn_static r' = bn_static r"
proof -
  obtain e1 b where x: "bn_wexpand malloc n r = (e1, b)" by (cases "bn_wexpand malloc n r")
  then show ?thesis using assms static_wexpand [OF x] by (cases e1) (auto simp: andthen_def)
qed

lemma static_lshift: "BN_lshift malloc a n r = (e, r') \<Longrightarrow> bn_static r' = bn_static r"
proof (cases "n < 0")
  case False
  assume "BN_lshift malloc a n r = (e, r')"
  then have "bn_static r' = bn_static (r\<lparr>neg := neg a\<rparr>)"
    unfolding BN_lshift_def if_not_P [OF False] Let_def by (rule static_andthen) (simp add: static_minimal)
  then show ?thesis by simp
qed (simp add: BN_lshift_def)

lemma static_rshift: "BN_rshift malloc a n r = (e, r') \<Longrightarrow> bn_static r' = bn_static r"
proof (cases "n < 0")
  case False
  assume "BN_rshift malloc a n r = (e, r')"
  then show "bn_static r' = bn_static r"
    unfolding BN_rshift_def if_not_P [OF False] by (rule static_andthen) (simp add: static_minimal)
qed (simp add: BN_rshift_def)

lemma wexpand_dynamic: "allocator malloc \<Longrightarrow> bn_dynamic bn \<Longrightarrow> bn_wexpand malloc n bn = (e, b) \<Longrightarrow> bn_dynamic b"
  using wexpand_ok [of malloc bn n e b] static_wexpand [of malloc n bn e b] by (simp add: bn_dynamic_def)

lemma expand_fails_ok:
  assumes "allocator malloc" "bn_ok r" "andthen (bn_wexpand malloc n) (\<lambda>_ r. (Some (), f r)) r = (None, r')"
  shows "bn_ok r'"
proof -
  obtain e1 b where x: "bn_wexpand malloc n r = (e1, b)" by (cases "bn_wexpand malloc n r")
  then show ?thesis using assms(3) wexpand_ok [OF assms(1,2) x] by (cases e1) (auto simp: andthen_def)
qed

lemma lshift_ok:
  assumes "allocator malloc" "bn_ok a" "bn_ok r" "BN_lshift malloc a n r = (e, r')"
  shows "bn_ok r'"
proof (cases e)
  case None
  show ?thesis
  proof (cases "n < 0")
    case False
    show ?thesis
      using assms(3,4) expand_fails_ok [OF assms(1), of "r\<lparr>neg := neg a\<rparr>"]
      unfolding None BN_lshift_def if_not_P [OF False] Let_def by auto
  qed (use assms in \<open>simp add: BN_lshift_def\<close>)
next
  case (Some y)
  then show ?thesis using lshift_spec [OF assms] by simp
qed

lemma rshift_ok:
  assumes "allocator malloc" "bn_ok a" "bn_ok r" "BN_rshift malloc a n r = (e, r')"
  shows "bn_ok r'"
proof (cases e)
  case None
  show ?thesis
  proof (cases "n < 0")
    case False
    show ?thesis
      using assms(4) expand_fails_ok [OF assms(1,3)] unfolding None BN_rshift_def if_not_P [OF False] by auto
  qed (use assms in \<open>simp add: BN_rshift_def\<close>)
next
  case (Some y)
  then show ?thesis using rshift_spec [OF assms] by simp
qed

text \<open>The width of a number without leading zero words.\<close>

lemma minimal_top:
  assumes "bn_ok bn" "bn_mag bn \<noteq> 0"
  defines "b \<equiv> bn_set_minimal_width bn"
  shows "0 < bn_width b \<and> bn_d b ! (bn_width b - 1) \<noteq> 0 \<and> 2 ^ (64 * (bn_width b - 1)) \<le> bn_mag b"
proof -
  have l: "bn_width bn \<le> length (bn_d bn)" using bn_okD [OF assms(1)] by simp
  have w: "bn_width b = minimal_width (bn_d bn) (bn_width bn)" "bn_d b = bn_d bn"
    by (simp_all add: b_def bn_set_minimal_width_def bn_minimal_width_def Let_def)
  note m = minimal_width_val [OF l] minimal_width_0 [OF l]
  have pos: "0 < bn_width b" using m(2) assms(2) w by (simp add: bn_mag_def)
  then have top: "bn_d b ! (bn_width b - 1) \<noteq> 0" using m(1) w by auto
  have "bn_width b \<le> length (bn_d b)" using m(1) l w by simp
  from top_word_bound [OF pos this top] show ?thesis using pos top by (simp add: bn_mag_def)
qed

lemma normalised_width:
  assumes ok: "bn_ok bn" and v: "2 ^ (64 * k - 1) \<le> bn_mag bn" "bn_mag bn < 2 ^ (64 * k)" "0 < k"
  defines "b \<equiv> bn_set_minimal_width bn"
  shows "bn_width b = k \<and> 2 ^ 63 \<le> unat (bn_d b ! (k - 1))"
proof -
  note s = set_minimal_width [OF ok, folded b_def]
  have nz: "bn_mag bn \<noteq> 0" using v(1) by (metis le_zero_eq power_not_zero zero_neq_numeral)
  note m = minimal_top [OF ok nz, folded b_def]
  have "2 ^ (64 * (bn_width b - 1)) \<le> bn_mag bn" using m s by metis
  then have "2 ^ (64 * (bn_width b - 1)) < (2 :: nat) ^ (64 * k)" using v(2) by (rule le_less_trans)
  from power_less_imp_less_exp [OF _ this] have "bn_width b - 1 < k" by simp
  have "bn_mag bn < 2 ^ (64 * bn_width b)" using bn_mag_less [of b] s by metis
  with v(1) have "2 ^ (64 * k - 1) < (2 :: nat) ^ (64 * bn_width b)" by (rule le_less_trans)
  from power_less_imp_less_exp [OF _ this] have "64 * k - 1 < 64 * bn_width b" by simp
  with \<open>bn_width b - 1 < k\<close> have w: "bn_width b = k" using v(3) by linarith
  then obtain j where k: "k = Suc j" "bn_width b = Suc j" using v(3) by (cases k) auto
  have "j < length (bn_d b)" using s k bn_okD [of b] by auto
  then have "bn_mag b = bn_part j (bn_d b) + 2 ^ (64 * j) * unat (bn_d b ! j)" unfolding bn_mag_def k(2) by (rule part_Suc)
  moreover have "bn_part j (bn_d b) < 2 ^ (64 * j)" by (rule bn_part_less)
  moreover have "(2 :: nat) ^ (64 * k - 1) = 2 ^ (64 * j) * 2 ^ 63" unfolding k(1) by (simp add: power_add)
  moreover have "2 ^ (64 * k - 1) \<le> bn_mag b" using v(1) s by metis
  ultimately have "2 ^ (64 * j) * 2 ^ 63 < 2 ^ (64 * j) * (unat (bn_d b ! j) + 1)" unfolding distrib_left mult_1_right by linarith
  then have "2 ^ 63 < unat (bn_d b ! j) + 1" by (rule mult_left_less_imp_less) simp
  then show ?thesis using w k by simp
qed

lemma div_normalise_spec:
  assumes al: "allocator malloc" and ok: "bn_ok num" "bn_ok dv" "bn_ok snum" "bn_ok sdiv" and nz: "bn_mag dv \<noteq> 0"
    and u: "div_normalise malloc ns num dv snum sdiv = (e, snum', sdiv')" and ns: "ns = 64 - BN_num_bits dv mod 64"
  shows "bn_ok snum' \<and> bn_ok sdiv' \<and> bn_static snum' = bn_static snum \<and> bn_static sdiv' = bn_static sdiv \<and>
    (e \<noteq> None \<longrightarrow> bn_mag sdiv' = bn_mag dv * 2 ^ ns \<and> bn_mag snum' = bn_mag num * 2 ^ (ns + 64) \<and> \<not> neg snum' \<and> 0 < bn_width sdiv' \<and>
       2 ^ 63 \<le> unat (bn_d sdiv' ! (bn_width sdiv' - 1)) \<and> bn_width sdiv' + 2 \<le> bn_width snum' \<and>
       bn_mag snum' < 2 ^ (64 * (bn_width snum' - 1)))"
proof -
  obtain e1 s1 where x: "BN_lshift malloc dv (int ns) sdiv = (e1, s1)" by (cases "BN_lshift malloc dv (int ns) sdiv")
  note s1 = lshift_ok [OF al ok(2,4) x] static_lshift [OF x]
  define s2 where "s2 = (bn_set_minimal_width s1)\<lparr>neg := False\<rparr>"
  have s2: "bn_ok s2" "bn_static s2 = bn_static sdiv" "bn_mag s2 = bn_mag s1"
    using set_minimal_width [OF s1(1)] s1(2) by (simp_all add: s2_def static_minimal)
  obtain e3 n1 where y: "BN_lshift malloc num (int (ns + 64)) snum = (e3, n1)" by (cases "BN_lshift malloc num (int (ns + 64)) snum")
  note n1 = lshift_ok [OF al ok(1,3) y] static_lshift [OF y]
  define n2 where "n2 = (bn_set_minimal_width n1)\<lparr>neg := False\<rparr>"
  have n2: "bn_ok n2" "bn_static n2 = bn_static snum" "bn_mag n2 = bn_mag n1" "\<not> neg n2"
    using set_minimal_width [OF n1(1)] n1(2) by (simp_all add: n2_def static_minimal)
  show ?thesis
  proof (cases "e1 = None \<or> e3 = None")
    case True
    then show ?thesis using u x y ok s1 s2 n1
      by (auto simp: div_normalise_def Let_def s2_def [symmetric] split: option.splits)
  next
    case False
    then have E: "e1 = Some ()" "e3 = Some ()" by auto
    have m: "bn_mag s1 = bn_mag dv * 2 ^ ns" "bn_mag n1 = bn_mag num * 2 ^ (ns + 64)"
      using lshift_spec [OF al ok(2,4) x] lshift_spec [OF al ok(1,3) y] E by (simp_all add: push_bit_eq_mult nat_add_distrib)
    define bits k where "bits = BN_num_bits dv" and "k = bits div 64 + 1"
    have b: "0 < bits" "2 ^ (bits - 1) \<le> bn_mag dv" "bn_mag dv < 2 ^ bits" using num_bits_spec [OF ok(2)] nz by (simp_all add: bits_def)
    define Q r where "Q = bits div 64" and "r = bits mod 64"
    have "64 * Q + r = bits" "r < 64" by (simp_all add: Q_def r_def)
    then have bk: "bits + ns = 64 * k" unfolding ns k_def bits_def [symmetric] Q_def [symmetric] r_def [symmetric] by simp
    then have bk': "bits - 1 + ns = 64 * k - 1" using b(1) by linarith
    have "2 ^ (bits - 1) * 2 ^ ns \<le> bn_mag dv * 2 ^ ns" using b(2) by (rule mult_le_mono1)
    moreover have "bn_mag dv * 2 ^ ns < 2 ^ bits * 2 ^ ns" using b(3) by simp
    ultimately have "2 ^ (64 * k - 1) \<le> bn_mag s1" "bn_mag s1 < 2 ^ (64 * k)" unfolding m power_add [symmetric] bk bk' by simp_all
    from normalised_width [OF s1(1) this] have w: "bn_width s2 = k" "2 ^ 63 \<le> unat (bn_d s2 ! (k - 1))" by (simp_all add: k_def s2_def)
    have k: "0 < k" by (simp add: k_def)
    have U: "(if bn_width n2 \<le> k + 1
        then (case bn_wexpand malloc (k + 2) n2 of (None, snum) \<Rightarrow> (None, snum, s2)
              | (Some _, snum) \<Rightarrow> (Some (), snum\<lparr>bn_d := splice (bn_width snum) (replicate (k + 2 - bn_width snum) 0) (bn_d snum),
                                 bn_width := k + 2\<rparr>, s2))
        else (case bn_wexpand malloc (bn_width n2 + 1) n2 of (None, snum) \<Rightarrow> (None, snum, s2)
              | (Some _, snum) \<Rightarrow> (Some (), snum\<lparr>bn_d := (bn_d snum)[bn_width snum := 0], bn_width := bn_width snum + 1\<rparr>, s2))) = (e, snum', sdiv')"
      using u unfolding div_normalise_def x [unfolded E] y [unfolded E] prod.case option.case Let_def s2_def [symmetric] n2_def [symmetric] w(1) .
    show ?thesis
    proof (cases "bn_width n2 \<le> k + 1")
      case True
      obtain e4 b4 where z: "bn_wexpand malloc (k + 2) n2 = (e4, b4)" by (cases "bn_wexpand malloc (k + 2) n2")
      note W = wexpand_ok [OF al n2(1) z] static_wexpand [OF z]
      show ?thesis
      proof (cases e4)
        case None
        then show ?thesis using U True z W n2 s2 by simp
      next
        case (Some v)
        have r: "e = Some ()" "sdiv' = s2" "snum' = b4\<lparr>bn_d := splice (bn_width b4) (replicate (k + 2 - bn_width b4) 0) (bn_d b4), bn_width := k + 2\<rparr>"
          using U True z Some by simp_all
        have b4: "bn_ok b4" "k + 2 \<le> length (bn_d b4)" "bn_width b4 = bn_width n2" "neg b4 = neg n2" "bn_mag b4 = bn_mag n2"
          using W Some by (simp_all add: bn_ok_def bn_mag_def)
        have "take (k + 2) (splice (bn_width b4) (replicate (k + 2 - bn_width b4) 0) (bn_d b4)) =
            take (bn_width b4) (bn_d b4) @ replicate (k + 2 - bn_width b4) 0"
          using True b4 by (simp add: splice_def)
        then have "bn_mag snum' = bn_mag n2" using b4(5) by (simp add: r bn_mag_def [of "b4\<lparr>bn_d := x, bn_width := y\<rparr>" for x y] bn_val_append) (simp add: bn_mag_def)
        moreover have "bn_mag n2 < 2 ^ (64 * (k + 1))"
          using True by (intro less_le_trans [OF bn_mag_less] power_increasing) simp_all
        moreover have "bn_ok snum'" using b4 True by (simp add: r bn_ok_def)
        ultimately show ?thesis using r W(2) s2 n2 m w k b4(4) by simp
      qed
    next
      case False
      obtain e4 b4 where z: "bn_wexpand malloc (bn_width n2 + 1) n2 = (e4, b4)" by (cases "bn_wexpand malloc (bn_width n2 + 1) n2")
      note W = wexpand_ok [OF al n2(1) z] static_wexpand [OF z]
      show ?thesis
      proof (cases e4)
        case None
        then show ?thesis using U False z W n2 s2 by simp
      next
        case (Some v)
        have r: "e = Some ()" "sdiv' = s2" "snum' = b4\<lparr>bn_d := (bn_d b4)[bn_width b4 := 0], bn_width := bn_width b4 + 1\<rparr>"
          using U False z Some by simp_all
        have b4: "bn_ok b4" "bn_width n2 + 1 \<le> length (bn_d b4)" "bn_width b4 = bn_width n2" "neg b4 = neg n2" "bn_mag b4 = bn_mag n2"
          using W Some by (simp_all add: bn_ok_def bn_mag_def)
        have "take (bn_width b4 + 1) ((bn_d b4)[bn_width b4 := 0]) = take (bn_width b4) (bn_d b4) @ [0]"
          using b4 by (simp add: take_Suc_conv_app_nth)
        then have "bn_mag snum' = bn_mag n2" using b4(5) by (simp add: r bn_mag_def [of "b4\<lparr>bn_d := x, bn_width := y\<rparr>" for x y] bn_val_append) (simp add: bn_mag_def)
        moreover have "bn_ok snum'" using b4 by (simp add: r bn_ok_def)
        ultimately show ?thesis using r W(2) s2 n2 m w k b4 False bn_mag_less [of n2] by simp
      qed
    qed
  qed
qed

lemma div_words_spec:
  assumes al: "allocator malloc" and ok: "bn_ok snum" "bn_ok sdiv" "bn_ok res" "bn_ok tmp"
    and w: "0 < bn_width sdiv" "bn_width sdiv + 2 \<le> bn_width snum" "2 ^ 63 \<le> unat (bn_d sdiv ! (bn_width sdiv - 1))"
      "bn_mag snum < 2 ^ (64 * (bn_width snum - 1))"
    and u: "div_words malloc sign snum sdiv res tmp = (e, snum', res', tmp')"
  shows "bn_ok snum' \<and> bn_ok res' \<and> bn_ok tmp' \<and> bn_static snum' = bn_static snum \<and> bn_static res' = bn_static res \<and> bn_static tmp' = bn_static tmp \<and>
    (e \<noteq> None \<longrightarrow> bn_mag snum' < bn_mag sdiv * 2 ^ 64 \<and> bn_mag snum = bn_mag res' * bn_mag sdiv * 2 ^ 64 + bn_mag snum' \<and>
       neg res' = sign \<and> (\<not> neg snum \<longrightarrow> \<not> neg snum'))"
proof -
  define n N m where "n = bn_width sdiv" and "N = bn_width snum" and "m = N - n - 1"
  obtain e1 r1 where x: "bn_wexpand malloc (N - n + 1) (res\<lparr>neg := sign\<rparr>) = (e1, r1)" by (cases "bn_wexpand malloc (N - n + 1) (res\<lparr>neg := sign\<rparr>)")
  have res: "bn_ok (res\<lparr>neg := sign\<rparr>)" using ok(3) by (simp add: neg_set)
  note X = wexpand_ok [OF al res x] static_wexpand [OF x]
  obtain e2 t1 where y: "bn_wexpand malloc (n + 1) tmp = (e2, t1)" by (cases "bn_wexpand malloc (n + 1) tmp")
  note Y = wexpand_ok [OF al ok(4) y] static_wexpand [OF y]
  note U = u [unfolded div_words_def Let_def, folded n_def N_def, unfolded x y prod.case]
  have m: "N - n - 1 = m" "0 < m" "m + n < N" "m + n + 1 = N" using w(2) by (simp_all add: m_def n_def N_def)
  show ?thesis
  proof (cases "e1 = None \<or> e2 = None")
    case True
    show ?thesis
    proof (cases e1)
      case None
      then have "e = None" "snum' = snum" "res' = r1" "tmp' = tmp" using U by simp_all
      then show ?thesis using X ok by simp
    next
      case (Some y)
      then have "e2 = None" using True by simp
      then have r: "e = None" "snum' = snum" "res' = r1\<lparr>bn_width := N - n - 1\<rparr>" "tmp' = t1" using U Some by simp_all
      have "bn_ok (r1\<lparr>bn_width := N - n - 1\<rparr>)" using X Some by (auto simp: bn_ok_def)
      then show ?thesis using X Y ok unfolding r by simp
    qed
  next
    case False
    then have E: "e1 = Some ()" "e2 = Some ()" by auto
    define s where "s = take N (bn_d snum)"
    have len: "length s = N" using bn_okD(1) [OF ok(1)] by (simp add: s_def N_def)
    have S: "bn_val s = bn_mag snum" by (simp add: s_def N_def bn_mag_def)
    have nl: "n \<le> length (bn_d sdiv)" using bn_okD(1) [OF ok(2)] by (simp add: n_def)
    have D: "bn_part n (bn_d sdiv) = bn_mag sdiv" by (simp add: n_def bn_mag_def)
    have top: "bn_d sdiv ! (n - 1) \<noteq> 0" using w(3) unfolding n_def by auto
    have n: "0 < n" using w(1) by (simp add: n_def)
    have "bn_mag snum < 2 ^ (64 * (N - 1))" using w(4) by (simp add: N_def)
    also have "(2 :: nat) ^ (64 * (N - 1)) = 2 ^ (64 * (n - 1)) * 2 ^ (64 * (m + 1))"
    proof -
      have "N - 1 = (n - 1) + (m + 1)" using m(4) n by simp
      then show ?thesis by (simp only: distrib_left power_add)
    qed
    also have "\<dots> \<le> bn_mag sdiv * 2 ^ (64 * (m + 1))"
      using top_word_bound [OF n nl top] unfolding D by (rule mult_le_mono1)
    finally have lt: "bn_val s < bn_part n (bn_d sdiv) * 2 ^ (64 * (m + 1))" unfolding S D .
    obtain ws qs where l: "div_loop m (bn_d sdiv) n s [] = (ws, qs)" by (cases "div_loop m (bn_d sdiv) n s []")
    have L: "length ws = N" "bn_val ws < bn_mag sdiv * 2 ^ 64" "length qs = m" "bn_mag snum = bn_val qs * bn_mag sdiv * 2 ^ 64 + bn_val ws"
      using div_loop_val [OF n nl w(3) [folded n_def] _ lt l] m(3) len unfolding D S by auto
    define s2 r2 where "s2 = snum\<lparr>bn_d := splice 0 ws (bn_d snum)\<rparr>" and "r2 = r1\<lparr>bn_width := m, bn_d := splice 0 qs (bn_d r1)\<rparr>"
    have r: "e = Some ()" "snum' = bn_set_minimal_width s2" "res' = r2" "tmp' = t1"
      using U [unfolded E option.case, unfolded m(1) l [unfolded s_def] prod.case] m(2) unfolding s2_def r2_def by simp_all
    have Nl: "N \<le> length (bn_d snum)" using bn_okD(1) [OF ok(1)] by (simp add: N_def)
    have s2: "bn_ok s2" "bn_mag s2 = bn_val ws" "bn_static s2 = bn_static snum"
      using ok(1) L(1) Nl write_words [of ws "bn_d snum"] by (simp_all add: s2_def bn_ok_def N_def bn_mag_def)
    have r1: "bn_ok r1" "m \<le> length (bn_d r1)" "neg r1 = sign" using X E m by (auto simp: bn_ok_def)
    then have r2: "bn_ok r2" "bn_mag r2 = bn_val qs" "neg r2 = sign" "bn_static r2 = bn_static r1"
      using L(3) write_words [of qs "bn_d r1"] by (simp_all add: r2_def bn_ok_def bn_mag_def)
    show ?thesis using r set_minimal_width [OF s2(1)] s2 r2 L X(2) Y E by (auto simp: static_minimal s2_def)
  qed
qed

lemma div_finish_spec:
  assumes al: "allocator malloc" and ok: "bn_ok snum" "bn_ok res" "\<And>r. rem = Some r \<Longrightarrow> bn_ok r" and n: "\<not> neg snum"
    and u: "div_finish malloc ns num_neg snum rem res = (e, rem', res')"
  shows "(rem' = None \<longleftrightarrow> rem = None) \<and> bn_ok res' \<and> bn_static res' = bn_static res \<and> (\<forall>r'. rem' = Some r' \<longrightarrow> bn_ok r') \<and>
    (e \<noteq> None \<longrightarrow> bn_mag res' = bn_mag res \<and> neg res' = (neg res \<and> bn_mag res \<noteq> 0) \<and>
       (\<forall>r'. rem' = Some r' \<longrightarrow> bn_mag r' = bn_mag snum div 2 ^ ns \<and> neg r' = (num_neg \<and> bn_mag r' \<noteq> 0)))"
proof (cases rem)
  case None
  then show ?thesis using u set_minimal_width [OF ok(2)] by (auto simp: div_finish_def static_minimal)
next
  case (Some r)
  obtain e1 r1 where x: "BN_rshift malloc snum (int ns) r = (e1, r1)" by (cases "BN_rshift malloc snum (int ns) r")
  have r1: "bn_ok r1" by (rule rshift_ok [OF al ok(1) ok(3) [OF Some] x])
  show ?thesis
  proof (cases e1)
    case None
    then show ?thesis using u Some x r1 ok(2) by (auto simp: div_finish_def)
  next
    case e1: (Some y)
    have R: "bn_mag r1 = bn_mag snum div 2 ^ ns" "\<not> neg r1"
      using rshift_spec [OF al ok(1) ok(3) [OF Some] x] e1 n by (simp_all add: drop_bit_eq_div)
    show ?thesis using u Some x e1 r1 R set_minimal_width [OF ok(2)] is_zero_mag [OF r1]
      by (auto simp: div_finish_def static_minimal neg_set)
  qed
qed

lemma division_unscaled:
  fixes N D Q S :: nat
  assumes "N * 2 ^ (s + 64) = Q * (D * 2 ^ s) * 2 ^ 64 + S" "S < D * 2 ^ s * 2 ^ 64"
  shows "Q = N div D \<and> S div 2 ^ (s + 64) = N mod D"
proof -
  define K :: nat where "K = 2 ^ (s + 64)"
  have e: "N * K = Q * D * K + S" "S < D * K" using assms by (simp_all add: K_def power_add mult_ac)
  have K: "0 < K" by (simp add: K_def)
  have "Q * D * K \<le> N * K" using e by simp
  then have le: "Q * D \<le> N" using K by simp
  have "S = (N - Q * D) * K" using e(1) by (simp add: diff_mult_distrib)
  moreover from this have "N - Q * D < D" using e(2) by (metis K mult_less_cancel2)
  ultimately have "Q = N div D" "N - Q * D = N mod D"
    using le by (simp_all add: div_nat_eqI modulo_nat_def mult.commute)
  then show ?thesis using \<open>S = _\<close> K unfolding K_def [symmetric] by simp
qed

text \<open>Numbers handed out stay valid while the frame grows.\<close>

lemma used_ok: "ctx_ok n c \<Longrightarrow> k < ctx_used c \<Longrightarrow> bn_dynamic (ctx_val c k)"
  using val_ok [of n c k] by (simp add: ctx_ok_def pool_ok_def)

lemma get_inside:
  assumes "ctx_ok n c" "BN_CTX_get malloc c = (e, c')"
  shows "ctx_inside n c c'" "ctx_ok n c'" "ctx_used c \<le> ctx_used c'" "e = Some k \<Longrightarrow> k < ctx_used c'"
  using inside_get [OF assms] get_spec [OF assms] by (auto simp: ctx_inside_def ctx_grows_def)

lemma inside_put_trans: "ctx_inside n a c \<Longrightarrow> bn_dynamic bn \<Longrightarrow> ctx_inside n a (ctx_put k bn c)"
  using inside_trans inside_put unfolding ctx_inside_def by blast

lemma div_body_spec:
  assumes al: "allocator malloc" and ok: "bn_ok num" "bn_ok dv" "bn_ok res" "\<And>r. rem = Some r \<Longrightarrow> bn_ok r"
    and t: "bn_dynamic tmp" "bn_dynamic snum" "bn_dynamic sdiv" and nz: "bn_mag dv \<noteq> 0"
    and u: "div_body malloc in_num rem num dv res tmp snum sdiv = (e, rem', res', tmp', snum', sdiv')"
  shows "(rem' = None \<longleftrightarrow> rem = None) \<and> bn_ok res' \<and> bn_static res' = bn_static res \<and> (\<forall>r'. rem' = Some r' \<longrightarrow> bn_ok r') \<and>
    bn_dynamic tmp' \<and> bn_dynamic snum' \<and> bn_dynamic sdiv' \<and>
    (e \<noteq> None \<longrightarrow> bn_mag res' = bn_mag num div bn_mag dv \<and> neg res' = (neg num \<noteq> neg dv \<and> bn_mag res' \<noteq> 0) \<and>
       (\<forall>r'. rem' = Some r' \<longrightarrow> bn_mag r' = bn_mag num mod bn_mag dv \<and>
          neg r' = ((if in_num then neg num \<noteq> neg dv else neg num) \<and> bn_mag r' \<noteq> 0)))"
proof -
  define ns where "ns = 64 - BN_num_bits dv mod 64"
  have d: "bn_ok tmp" "bn_ok snum" "bn_ok sdiv" "\<not> bn_static tmp" "\<not> bn_static snum" "\<not> bn_static sdiv"
    using t by (simp_all add: bn_dynamic_def)
  obtain e1 s1 v1 where x: "div_normalise malloc ns num dv snum sdiv = (e1, s1, v1)" by (rule prod_cases3)
  note X = div_normalise_spec [OF al ok(1,2) d(2,3) nz x ns_def]
  note U = u [unfolded div_body_def Let_def, folded ns_def, unfolded x prod.case]
  show ?thesis
  proof (cases e1)
    case None
    then have "e = None" "rem' = rem" "res' = res" "tmp' = tmp" "snum' = s1" "sdiv' = v1" using U by simp_all
    then show ?thesis using X d ok(3,4) by (auto simp: bn_dynamic_def)
  next
    case (Some y)
    obtain e2 s2 r2 t2 where w: "div_words malloc (neg num \<noteq> neg dv) s1 v1 res tmp = (e2, s2, r2, t2)" by (rule prod_cases4)
    have W: "bn_ok s2 \<and> bn_ok r2 \<and> bn_ok t2 \<and> bn_static s2 = bn_static s1 \<and> bn_static r2 = bn_static res \<and> bn_static t2 = bn_static tmp \<and>
        (e2 \<noteq> None \<longrightarrow> bn_mag s2 < bn_mag v1 * 2 ^ 64 \<and> bn_mag s1 = bn_mag r2 * bn_mag v1 * 2 ^ 64 + bn_mag s2 \<and>
          neg r2 = (neg num \<noteq> neg dv) \<and> (\<not> neg s1 \<longrightarrow> \<not> neg s2))"
      using X Some by (intro div_words_spec [OF al _ _ ok(3) d(1) _ _ _ _ w]) simp_all
    show ?thesis
    proof (cases e2)
      case None
      then have "e = None" "rem' = rem" "res' = r2" "tmp' = t2" "snum' = s2" "sdiv' = v1" using U Some w by simp_all
      then show ?thesis using X W d ok(4) by (auto simp: bn_dynamic_def)
    next
      case e2: (Some z)
      define sg where "sg = neg (if in_num then r2 else num)"
      obtain e3 rm3 r3 where f: "div_finish malloc (ns + 64) sg s2 rem r2 = (e3, rm3, r3)" by (rule prod_cases3)
      have s2: "\<not> neg s2" "bn_ok s2" "bn_ok r2" using X W Some e2 by auto
      note F = div_finish_spec [OF al s2(2,3) ok(4) s2(1) f]
      have r: "e = e3" "rem' = rm3" "res' = r3" "tmp' = t2" "snum' = s2" "sdiv' = v1"
        using U Some w e2 f unfolding sg_def by simp_all
      have "bn_mag num * 2 ^ (ns + 64) = bn_mag r2 * (bn_mag dv * 2 ^ ns) * 2 ^ 64 + bn_mag s2" "bn_mag s2 < bn_mag dv * 2 ^ ns * 2 ^ 64"
      proof -
        have a: "bn_mag v1 = bn_mag dv * 2 ^ ns" "bn_mag s1 = bn_mag num * 2 ^ (ns + 64)" using X Some by blast+
        have b: "bn_mag s2 < bn_mag v1 * 2 ^ 64" "bn_mag s1 = bn_mag r2 * bn_mag v1 * 2 ^ 64 + bn_mag s2" using W e2 by blast+
        show "bn_mag num * 2 ^ (ns + 64) = bn_mag r2 * (bn_mag dv * 2 ^ ns) * 2 ^ 64 + bn_mag s2" using b(2) unfolding a .
        show "bn_mag s2 < bn_mag dv * 2 ^ ns * 2 ^ 64" using b(1) unfolding a .
      qed
      from division_unscaled [OF this] have q: "bn_mag r2 = bn_mag num div bn_mag dv" "bn_mag s2 div 2 ^ (ns + 64) = bn_mag num mod bn_mag dv"
        by simp_all
      have sg: "sg = (if in_num then neg num \<noteq> neg dv else neg num)" using W e2 by (simp add: sg_def)
      show ?thesis using F X W d q e2 unfolding r sg by (auto simp: bn_dynamic_def)
    qed
  qed
qed

definition opt_ok :: "BIGNUM option \<Rightarrow> bool" where
  "opt_ok x \<longleftrightarrow> (case x of None \<Rightarrow> True | Some bn \<Rightarrow> bn_ok bn)"

text \<open>What a successful division returns: magnitudes and signs.\<close>

definition div_result :: "bool \<Rightarrow> BIGNUM \<Rightarrow> BIGNUM \<Rightarrow> BIGNUM option \<Rightarrow> BIGNUM option \<Rightarrow> bool" where
  "div_result in_num num dv quot rem \<longleftrightarrow>
     (case quot of None \<Rightarrow> True
      | Some q \<Rightarrow> bn_mag q = bn_mag num div bn_mag dv \<and> neg q = (neg num \<noteq> neg dv \<and> bn_mag q \<noteq> 0)) \<and>
     (case rem of None \<Rightarrow> True
      | Some r \<Rightarrow> bn_mag r = bn_mag num mod bn_mag dv \<and>
          neg r = ((if in_num then neg num \<noteq> neg dv else neg num) \<and> bn_mag r \<noteq> 0))"

lemma bn_div_spec:
  assumes al: "allocator malloc" and ok: "bn_ok num" "bn_ok dv" "opt_ok quot" "opt_ok rem"
    and c: "ctx_ok n ctx" "depth (frames ctx) < n" "n < 2 ^ 30"
    and u: "BN_div malloc in_num quot rem num dv ctx = (e, quot', rem', ctx')"
  shows "ctx_same n ctx ctx' \<and> opt_ok quot' \<and> opt_ok rem' \<and> (quot' = None \<longleftrightarrow> quot = None) \<and> (rem' = None \<longleftrightarrow> rem = None) \<and>
    (e \<noteq> None \<longrightarrow> bn_mag dv \<noteq> 0 \<and> div_result in_num num dv quot' rem')"
proof (cases "BN_is_zero dv \<or> 0 < bn_minimal_width num \<and> bn_d num ! (bn_minimal_width num - 1) = 0 \<or>
    0 < bn_minimal_width dv \<and> bn_d dv ! (bn_minimal_width dv - 1) = 0")
  case True
  then have "e = None" "quot' = quot" "rem' = rem" "ctx' = ctx" using u by (auto simp: BN_div_def Let_def split: if_splits)
  then show ?thesis using ok same_refl [OF c(1)] by simp
next
  case False
  have nz: "bn_mag dv \<noteq> 0" using False is_zero_mag [OF ok(2)] by simp
  have f: "\<not> (0 < bn_minimal_width num \<and> bn_d num ! (bn_minimal_width num - 1) = 0 \<or>
      0 < bn_minimal_width dv \<and> bn_d dv ! (bn_minimal_width dv - 1) = 0)" "\<not> BN_is_zero dv" using False by blast+
  define c0 where "c0 = BN_CTX_start malloc ctx"
  have c0: "ctx_ok n c0" unfolding c0_def using start_ok [OF al c] .
  have fin: "ctx_same n ctx (BN_CTX_end x)" if "ctx_inside n c0 x" for x
    using frame_same [OF al c] that by (simp add: ctx_inside_def c0_def)
  obtain t c1 where g1: "BN_CTX_get malloc c0 = (t, c1)" by (cases "BN_CTX_get malloc c0")
  note i1 = get_inside [OF c0 g1]
  obtain sn c2 where g2: "BN_CTX_get malloc c1 = (sn, c2)" by (cases "BN_CTX_get malloc c1")
  note i2 = get_inside [OF i1(2) g2]
  obtain sd c3 where g3: "BN_CTX_get malloc c2 = (sd, c3)" by (cases "BN_CTX_get malloc c2")
  note i3 = get_inside [OF i2(2) g3]
  define get where "get = (case quot of None \<Rightarrow> BN_CTX_get malloc c3 | Some _ \<Rightarrow> (None, c3))"
  obtain k c4 where g4: "get = (k, c4)" by (cases get)
  have i4: "ctx_inside n c3 c4" "ctx_ok n c4" "ctx_used c3 \<le> ctx_used c4" "\<And>j. k = Some j \<Longrightarrow> quot = None \<and> j < ctx_used c4"
    using get_inside [OF i3(2), of malloc k c4] g4 inside_refl [OF i3(2)] i3(2) by (auto simp: get_def split: option.splits)
  have ins: "ctx_inside n c0 c4" using inside_trans i1(1) i2(1) i3(1) i4(1) by blast
  have U: "(case (t, sn, sd, case quot of None \<Rightarrow> map_option (ctx_val c4) k | Some q \<Rightarrow> Some q) of
              (Some t, Some sn, Some sd, Some res) \<Rightarrow>
                (case div_body malloc in_num rem num dv res (ctx_val c4 t) (ctx_val c4 sn) (ctx_val c4 sd) of
                   (e, rem, res, tv, snv, sdv) \<Rightarrow>
                     let ctx = ctx_put t tv (ctx_put sn snv (ctx_put sd sdv c4));
                         ctx = (case k of None \<Rightarrow> ctx | Some k \<Rightarrow> ctx_put k res ctx)
                     in (e, map_option (\<lambda>_. res) quot, rem, BN_CTX_end ctx))
            | _ \<Rightarrow> (None, quot, rem, BN_CTX_end c4)) = (e, quot', rem', ctx')"
    using u unfolding BN_div_def Let_def if_not_P [OF f(1)] if_not_P [OF f(2)] c0_def [symmetric] g1 prod.case g2 g3 get_def [symmetric] g4 .
  show ?thesis
  proof (cases "t \<noteq> None \<and> sn \<noteq> None \<and> sd \<noteq> None \<and> (quot = None \<longrightarrow> k \<noteq> None)")
    case no: False
    then have "e = None" "quot' = quot" "rem' = rem" "ctx' = BN_CTX_end c4" using U by (auto split: option.splits)
    then show ?thesis using ok fin [OF ins] by simp
  next
    case yes: True
    then obtain t1 sn1 sd1 where S: "t = Some t1" "sn = Some sn1" "sd = Some sd1" by auto
    define res where "res = (case quot of None \<Rightarrow> ctx_val c4 (the k) | Some q \<Rightarrow> q)"
    have us: "t1 < ctx_used c4" "sn1 < ctx_used c4" "sd1 < ctx_used c4"
      using i1(4) i2(3,4) i3(3,4) i4(3) S by (auto intro: less_le_trans)
    note dyn = used_ok [OF i4(2) us(1)] used_ok [OF i4(2) us(2)] used_ok [OF i4(2) us(3)]
    have kdyn: "quot = None \<Longrightarrow> bn_dynamic res" using yes i4(4) used_ok [OF i4(2)] by (auto simp: res_def)
    have res: "bn_ok res" using kdyn ok(3) by (cases quot) (auto simp: bn_dynamic_def opt_ok_def res_def)
    obtain e1 rm r1 tv snv sdv where b: "div_body malloc in_num rem num dv res (ctx_val c4 t1) (ctx_val c4 sn1) (ctx_val c4 sd1) = (e1, rm, r1, tv, snv, sdv)"
      by (rule prod_cases6)
    have B: "(rm = None \<longleftrightarrow> rem = None) \<and> bn_ok r1 \<and> bn_static r1 = bn_static res \<and> (\<forall>r'. rm = Some r' \<longrightarrow> bn_ok r') \<and>
        bn_dynamic tv \<and> bn_dynamic snv \<and> bn_dynamic sdv \<and>
        (e1 \<noteq> None \<longrightarrow> bn_mag r1 = bn_mag num div bn_mag dv \<and> neg r1 = (neg num \<noteq> neg dv \<and> bn_mag r1 \<noteq> 0) \<and>
           (\<forall>r'. rm = Some r' \<longrightarrow> bn_mag r' = bn_mag num mod bn_mag dv \<and>
              neg r' = ((if in_num then neg num \<noteq> neg dv else neg num) \<and> bn_mag r' \<noteq> 0)))"
      by (rule div_body_spec [OF al ok(1,2) res _ dyn nz b]) (use ok(4) in \<open>simp add: opt_ok_def\<close>)
    define c5 where "c5 = ctx_put t1 tv (ctx_put sn1 snv (ctx_put sd1 sdv c4))"
    have p5: "ctx_inside n c4 c5" unfolding c5_def using B inside_refl [OF i4(2)] by (intro inside_put_trans) simp_all
    define c6 where "c6 = (case k of None \<Rightarrow> c5 | Some k \<Rightarrow> ctx_put k r1 c5)"
    have "ctx_inside n c4 c6"
    proof (cases k)
      case (Some j)
      then have "bn_dynamic r1" using i4(4) kdyn B by (auto simp: bn_dynamic_def)
      then show ?thesis using inside_put_trans [OF p5] Some by (simp add: c6_def)
    qed (use p5 in \<open>simp add: c6_def\<close>)
    then have i6: "ctx_inside n c0 c6" using inside_trans [OF ins] by blast
    have "(case quot of None \<Rightarrow> map_option (ctx_val c4) k | Some q \<Rightarrow> Some q) = Some res"
      using yes by (cases quot) (auto simp: res_def)
    from U [unfolded S this prod.case option.case b Let_def, folded c5_def, folded c6_def]
    have r: "e = e1" "quot' = map_option (\<lambda>_. r1) quot" "rem' = rm" "ctx' = BN_CTX_end c6" by simp_all
    show ?thesis using fin [OF i6] B nz unfolding r by (auto simp: opt_ok_def div_result_def split: option.splits)
  qed
qed

section \<open>When the division cannot fail\<close>

lemma minimal_width_le: "minimal_width d n \<le> n"
proof (induction d n rule: minimal_width.induct)
  case (1 d n)
  then show ?case by (subst minimal_width.simps) (auto intro: le_trans [where j = "n - 1"])
qed

lemma set_minimal_le: "bn_width (bn_set_minimal_width bn) \<le> bn_width bn"
  using minimal_width_le by (simp add: bn_set_minimal_width_def bn_minimal_width_def Let_def)

lemma lshift_calm:
  assumes "serves malloc" "\<not> bn_static r" "bn_width a + k div 64 + 1 \<le> INT_MAX div 256"
  shows "\<exists>r'. BN_lshift malloc a (int k) r = (Some (), r') \<and> \<not> bn_static r' \<and> bn_width r' \<le> bn_width a + k div 64 + 1"
proof -
  obtain b where x: "bn_wexpand malloc (bn_width a + k div 64 + 1) (r\<lparr>neg := neg a\<rparr>) = (Some (), b)"
    using wexpand_serves [OF assms(1,3), of "r\<lparr>neg := neg a\<rparr>"] assms(2) by auto
  have "BN_lshift malloc a (int k) r = (Some (), bn_set_minimal_width (b\<lparr>bn_d := splice 0 (replicate (k div 64) 0)
      (lshift_loop (k div 64) (k mod 64) (bn_d a) (bn_width a) ((bn_d b)[bn_width a + k div 64 := 0])), bn_width := bn_width a + k div 64 + 1\<rparr>))"
    using x by (simp add: BN_lshift_def Let_def andthen_def)
  moreover have "\<not> bn_static b" using static_wexpand [OF x] assms(2) by simp
  ultimately show ?thesis using set_minimal_le [of "b\<lparr>bn_d := x, bn_width := bn_width a + k div 64 + 1\<rparr>" for x] by (simp add: static_minimal)
qed

lemma rshift_calm:
  assumes "serves malloc" "\<not> bn_static r" "bn_width a \<le> INT_MAX div 256"
  shows "\<exists>r'. BN_rshift malloc a (int k) r = (Some (), r')"
  using wexpand_serves [OF assms(1,3,2)] by (auto simp: BN_rshift_def andthen_def)

lemma div_body_calm:
  assumes m: "serves malloc" and st: "\<not> bn_static res" "\<not> bn_static tmp" "\<not> bn_static snum" "\<not> bn_static sdiv"
    "\<And>r. rem = Some r \<Longrightarrow> \<not> bn_static r" and small: "max (bn_width num) (bn_width dv) + 5 \<le> INT_MAX div 256"
  shows "fst (div_body malloc in_num rem num dv res tmp snum sdiv) = Some ()"
proof -
  define L where "L = INT_MAX div 256"
  define ns where "ns = 64 - BN_num_bits dv mod 64"
  have ns: "ns div 64 \<le> 1" "(ns + 64) div 64 \<le> 2" by (simp_all add: ns_def)
  have sm: "bn_width num + 5 \<le> L" "bn_width dv + 5 \<le> L" using small by (simp_all add: L_def)
  obtain s1 where x: "BN_lshift malloc dv (int ns) sdiv = (Some (), s1)" "\<not> bn_static s1" "bn_width s1 \<le> bn_width dv + ns div 64 + 1"
    using lshift_calm [OF m st(4), of dv ns] sm ns unfolding L_def [symmetric] by auto
  define s2 where "s2 = (bn_set_minimal_width s1)\<lparr>neg := False\<rparr>"
  have s2: "bn_width s2 \<le> bn_width dv + 2" using set_minimal_le [of s1] x(3) ns(1) by (simp add: s2_def)
  obtain n1 where y: "BN_lshift malloc num (int (ns + 64)) snum = (Some (), n1)" "\<not> bn_static n1" "bn_width n1 \<le> bn_width num + (ns + 64) div 64 + 1"
    using lshift_calm [OF m st(3), of num "ns + 64"] sm ns unfolding L_def [symmetric] by auto
  define n2 where "n2 = (bn_set_minimal_width n1)\<lparr>neg := False\<rparr>"
  have n2: "bn_width n2 \<le> bn_width num + 3" "\<not> bn_static n2" using set_minimal_le [of n1] y(2,3) ns(2) by (simp_all add: n2_def static_minimal)
  have "\<exists>n3. div_normalise malloc ns num dv snum sdiv = (Some (), n3, s2) \<and> \<not> bn_static n3 \<and> bn_width n3 \<le> max (bn_width num) (bn_width dv) + 4"
  proof (cases "bn_width n2 \<le> bn_width s2 + 1")
    case True
    have "bn_width s2 + 2 \<le> L" using s2 sm by linarith
    then obtain b where z: "bn_wexpand malloc (bn_width s2 + 2) n2 = (Some (), b)" using wexpand_serves [OF m _ n2(2)] unfolding L_def by blast
    have "\<not> bn_static b" using static_wexpand [OF z] n2(2) by simp
    then show ?thesis using True s2 unfolding div_normalise_def x(1) y(1) prod.case option.case Let_def s2_def [symmetric] n2_def [symmetric] z by simp
  next
    case False
    have "bn_width n2 + 1 \<le> L" using n2 sm by linarith
    then obtain b where z: "bn_wexpand malloc (bn_width n2 + 1) n2 = (Some (), b)" using wexpand_serves [OF m _ n2(2)] unfolding L_def by blast
    have b: "\<not> bn_static b" "bn_width b = bn_width n2" using static_wexpand [OF z] n2(2) z by (auto simp: bn_wexpand_def split: if_splits option.splits)
    then show ?thesis using False n2(1) unfolding div_normalise_def x(1) y(1) prod.case option.case Let_def s2_def [symmetric] n2_def [symmetric] z by simp
  qed
  then obtain n3 where n3: "div_normalise malloc ns num dv snum sdiv = (Some (), n3, s2)" "\<not> bn_static n3"
    "bn_width n3 \<le> max (bn_width num) (bn_width dv) + 4" by blast
  have "bn_width n3 - bn_width s2 + 1 \<le> INT_MAX div 256" using n3(3) small by linarith
  then obtain r1 where r1: "bn_wexpand malloc (bn_width n3 - bn_width s2 + 1) (res\<lparr>neg := neg num \<noteq> neg dv\<rparr>) = (Some (), r1)"
    using wexpand_serves [OF m, of _ "res\<lparr>neg := neg num \<noteq> neg dv\<rparr>"] st(1) by auto
  have "bn_width s2 + 1 \<le> INT_MAX div 256" using s2 sm unfolding L_def by linarith
  then obtain t1 where t1: "bn_wexpand malloc (bn_width s2 + 1) tmp = (Some (), t1)" using wexpand_serves [OF m _ st(2)] by blast
  obtain n4 r4 where w: "div_words malloc (neg num \<noteq> neg dv) n3 s2 res tmp = (Some (), n4, r4, t1)" "bn_width n4 \<le> bn_width n3"
  proof -
    obtain ws qs where l: "div_loop (bn_width n3 - bn_width s2 - 1) (bn_d s2) (bn_width s2) (take (bn_width n3) (bn_d n3)) [] = (ws, qs)"
      by (cases "div_loop (bn_width n3 - bn_width s2 - 1) (bn_d s2) (bn_width s2) (take (bn_width n3) (bn_d n3)) []")
    show ?thesis
      by (rule that [OF _ set_minimal_le [of "n3\<lparr>bn_d := splice 0 ws (bn_d n3)\<rparr>", simplified]])
        (simp add: div_words_def Let_def r1 [simplified] t1 [simplified] l [simplified])
  qed
  have wn: "bn_width n4 \<le> INT_MAX div 256" using w(2) n3(3) small by linarith
  have "fst (div_finish malloc (ns + 64) sg n4 rem r4) = Some ()" for sg
  proof (cases rem)
    case (Some r)
    then obtain r' where "BN_rshift malloc n4 (int (ns + 64)) r = (Some (), r')" using rshift_calm [OF m st(5) wn] by blast
    then show ?thesis using Some by (simp add: div_finish_def)
  qed (simp add: div_finish_def)
  then show ?thesis unfolding div_body_def Let_def ns_def [symmetric] n3(1) prod.case option.case w(1) by (simp split: prod.splits) (metis fst_conv)
qed

lemma bn_div_calm:
  assumes m: "serves malloc" and ok: "bn_ok num" "bn_ok dv" and nz: "bn_mag dv \<noteq> 0"
    and c: "ctx_ok n ctx" "depth (frames ctx) < n" "n < 2 ^ 30" "ctx_calm ctx"
    and st: "\<And>q. quot = Some q \<Longrightarrow> \<not> bn_static q" "\<And>r. rem = Some r \<Longrightarrow> \<not> bn_static r"
    and small: "max (bn_width num) (bn_width dv) + 5 \<le> INT_MAX div 256"
  shows "fst (BN_div malloc in_num quot rem num dv ctx) = Some ()"
proof -
  have top: "0 < bn_minimal_width b \<longrightarrow> bn_d b ! (bn_minimal_width b - 1) \<noteq> 0" if "bn_ok b" for b
    using minimal_width_val [OF bn_okD(1) [OF that]] by (auto simp: bn_minimal_width_def)
  have f: "\<not> (0 < bn_minimal_width num \<and> bn_d num ! (bn_minimal_width num - 1) = 0 \<or>
      0 < bn_minimal_width dv \<and> bn_d dv ! (bn_minimal_width dv - 1) = 0)" "\<not> BN_is_zero dv"
    using top [OF ok(1)] top [OF ok(2)] nz is_zero_mag [OF ok(2)] by auto
  have c0: "ctx_ok n (BN_CTX_start malloc ctx)" "ctx_calm (BN_CTX_start malloc ctx)"
    using start_ok [OF serves_allocator [OF m] c(1-3)] start_calm [OF m c(1,3,4)] by simp_all
  obtain t c1 where g1: "BN_CTX_get malloc (BN_CTX_start malloc ctx) = (Some t, c1)" "ctx_calm c1" using get_calm [OF m c0(2)] by blast
  note i1 = get_inside [OF c0(1) g1(1)]
  obtain sn c2 where g2: "BN_CTX_get malloc c1 = (Some sn, c2)" "ctx_calm c2" using get_calm [OF m g1(2)] by blast
  note i2 = get_inside [OF i1(2) g2(1)]
  obtain sd c3 where g3: "BN_CTX_get malloc c2 = (Some sd, c3)" "ctx_calm c3" using get_calm [OF m g2(2)] by blast
  note i3 = get_inside [OF i2(2) g3(1)]
  obtain j c4 where g4: "BN_CTX_get malloc c3 = (Some j, c4)" using get_calm [OF m g3(2)] by blast
  note i4 = get_inside [OF i3(2) g4]
  note D = BN_div_def [of malloc in_num quot rem num dv ctx, unfolded Let_def if_not_P [OF f(1)] if_not_P [OF f(2)] g1(1) prod.case g2(1) g3(1)]
  show ?thesis
  proof (cases quot)
    case None
    have "t < ctx_used c4" "sn < ctx_used c4" "sd < ctx_used c4" "j < ctx_used c4"
      using i1(4) i2(3,4) i3(3,4) i4(3,4) by auto
    then have dyn: "\<not> bn_static (ctx_val c4 t)" "\<not> bn_static (ctx_val c4 sn)" "\<not> bn_static (ctx_val c4 sd)" "\<not> bn_static (ctx_val c4 j)"
      using used_ok [OF i4(2)] by (auto simp: bn_dynamic_def)
    have "fst (div_body malloc in_num rem num dv (ctx_val c4 j) (ctx_val c4 t) (ctx_val c4 sn) (ctx_val c4 sd)) = Some ()"
      by (rule div_body_calm [OF m dyn(4,1,2,3) st(2) small])
    then show ?thesis unfolding D unfolding None option.case g4 prod.case option.map by (auto split: prod.splits)
  next
    case (Some q)
    have "t < ctx_used c3" "sn < ctx_used c3" "sd < ctx_used c3" using i1(4) i2(3,4) i3(3,4) by auto
    then have dyn: "\<not> bn_static (ctx_val c3 t)" "\<not> bn_static (ctx_val c3 sn)" "\<not> bn_static (ctx_val c3 sd)"
      using used_ok [OF i3(2)] by (auto simp: bn_dynamic_def)
    have "fst (div_body malloc in_num rem num dv q (ctx_val c3 t) (ctx_val c3 sn) (ctx_val c3 sd)) = Some ()"
      by (rule div_body_calm [OF m st(1) [OF Some] dyn(1,2,3) st(2) small])
    then show ?thesis unfolding D unfolding Some option.case prod.case by (auto split: prod.splits)
  qed
qed

text \<open>Division of integers rounding towards zero.\<close>

lemma truncated: "sgn a * sgn b * (\<bar>a\<bar> div \<bar>b\<bar>) * b + sgn a * (\<bar>a\<bar> mod \<bar>b\<bar>) = (a :: int)"
proof -
  have "sgn a * sgn b * (\<bar>a\<bar> div \<bar>b\<bar>) * b + sgn a * (\<bar>a\<bar> mod \<bar>b\<bar>) = sgn a * (\<bar>a\<bar> div \<bar>b\<bar> * \<bar>b\<bar> + \<bar>a\<bar> mod \<bar>b\<bar>)"
    by (simp add: abs_sgn algebra_simps)
  also have "\<dots> = sgn a * \<bar>a\<bar>" by simp
  also have "\<dots> = a" by (rule sgn_mult_abs)
  finally show ?thesis .
qed

lemma mag_abs: "bn_mag a = nat \<bar>bn_int a\<bar>" "bn_mag a \<noteq> 0 \<Longrightarrow> neg a = (bn_int a < 0)" "bn_mag a = 0 \<longleftrightarrow> bn_int a = 0"
  by (simp_all add: bn_int_def)

lemma quotient_int:
  assumes nz: "bn_mag dv \<noteq> 0" and q: "bn_mag q = bn_mag num div bn_mag dv" "neg q = (neg num \<noteq> neg dv \<and> bn_mag q \<noteq> 0)"
  shows "bn_canonical q \<and> bn_int q = sgn (bn_int num) * sgn (bn_int dv) * (\<bar>bn_int num\<bar> div \<bar>bn_int dv\<bar>)"
proof -
  have "\<bar>bn_int num\<bar> div \<bar>bn_int dv\<bar> = int (bn_mag q)" using q(1) by (simp add: bn_int_def zdiv_int)
  moreover have "bn_mag q \<noteq> 0 \<Longrightarrow> bn_mag num \<noteq> 0" using q(1) by (cases "bn_mag num = 0") simp_all
  ultimately show ?thesis using nz q by (auto simp: bn_canonical_def bn_int_def sgn_if)
qed

lemma remainder_int:
  assumes r: "bn_mag r = bn_mag num mod bn_mag dv" "neg r = (neg num \<and> bn_mag r \<noteq> 0)"
  shows "bn_canonical r \<and> bn_int r = sgn (bn_int num) * (\<bar>bn_int num\<bar> mod \<bar>bn_int dv\<bar>)"
proof -
  have "\<bar>bn_int num\<bar> mod \<bar>bn_int dv\<bar> = int (bn_mag r)" using r(1) by (simp add: bn_int_def zmod_int)
  then show ?thesis using r by (auto simp: bn_canonical_def bn_int_def sgn_if)
qed

text \<open>C7: \<open>BN_div\<close> divides integers rounding towards zero, for operands of every width and sign: the quotient
  words it estimates and corrects are those of the quotient, the remainder has the sign of the numerator,
  and neither is a negative zero. It leaves the context as it was. It fails on a zero divisor and, with an
  allocator that serves, below the size limit and with no failure pending, on nothing else.\<close>

theorem bn_div_exact:
  assumes "allocator malloc" "bn_ok num" "bn_ok dv" "opt_ok quot" "opt_ok rem" "ctx_ok n ctx" "depth (frames ctx) < n" "n < 2 ^ 30"
  shows "case BN_div malloc False quot rem num dv ctx of (e, quot', rem', ctx') \<Rightarrow>
    ctx_same n ctx ctx' \<and> opt_ok quot' \<and> opt_ok rem' \<and> (quot' = None \<longleftrightarrow> quot = None) \<and> (rem' = None \<longleftrightarrow> rem = None) \<and>
    (e \<noteq> None \<longrightarrow> bn_int dv \<noteq> 0 \<and>
      (\<forall>q. quot' = Some q \<longrightarrow> bn_canonical q \<and> bn_int q = sgn (bn_int num) * sgn (bn_int dv) * (\<bar>bn_int num\<bar> div \<bar>bn_int dv\<bar>)) \<and>
      (\<forall>r. rem' = Some r \<longrightarrow> bn_canonical r \<and> bn_int r = sgn (bn_int num) * (\<bar>bn_int num\<bar> mod \<bar>bn_int dv\<bar>)) \<and>
      (\<forall>q r. quot' = Some q \<and> rem' = Some r \<longrightarrow> bn_int q * bn_int dv + bn_int r = bn_int num)) \<and>
    (serves malloc \<and> ctx_calm ctx \<and> (\<forall>q. quot = Some q \<longrightarrow> \<not> bn_static q) \<and> (\<forall>r. rem = Some r \<longrightarrow> \<not> bn_static r) \<and>
       max (bn_width num) (bn_width dv) + 5 \<le> INT_MAX div 256 \<and> bn_int dv \<noteq> 0 \<longrightarrow> e \<noteq> None)"
proof -
  obtain e q' r' c' where u: "BN_div malloc False quot rem num dv ctx = (e, q', r', c')" by (rule prod_cases4)
  note S = bn_div_spec [OF assms u]
  have d: "bn_int dv \<noteq> 0 \<and> (\<forall>q. q' = Some q \<longrightarrow> bn_canonical q \<and> bn_int q = sgn (bn_int num) * sgn (bn_int dv) * (\<bar>bn_int num\<bar> div \<bar>bn_int dv\<bar>)) \<and>
      (\<forall>r. r' = Some r \<longrightarrow> bn_canonical r \<and> bn_int r = sgn (bn_int num) * (\<bar>bn_int num\<bar> mod \<bar>bn_int dv\<bar>)) \<and>
      (\<forall>q r. q' = Some q \<and> r' = Some r \<longrightarrow> bn_int q * bn_int dv + bn_int r = bn_int num)" if "e \<noteq> None"
  proof -
    have nz: "bn_mag dv \<noteq> 0" and R: "div_result False num dv q' r'" using S that by blast+
    have Q: "bn_canonical q \<and> bn_int q = sgn (bn_int num) * sgn (bn_int dv) * (\<bar>bn_int num\<bar> div \<bar>bn_int dv\<bar>)" if "q' = Some q" for q
      using R that quotient_int [OF nz] by (simp add: div_result_def)
    have M: "bn_canonical r \<and> bn_int r = sgn (bn_int num) * (\<bar>bn_int num\<bar> mod \<bar>bn_int dv\<bar>)" if "r' = Some r" for r
      using R that remainder_int by (simp add: div_result_def)
    have "bn_int q * bn_int dv + bn_int r = bn_int num" if "q' = Some q" "r' = Some r" for q r
      using Q [OF that(1)] M [OF that(2)] truncated by simp
    moreover have "bn_int dv \<noteq> 0" using nz mag_abs(3) [of dv] by simp
    ultimately show ?thesis using Q M by blast
  qed
  have "e \<noteq> None" if "serves malloc \<and> ctx_calm ctx \<and> (\<forall>q. quot = Some q \<longrightarrow> \<not> bn_static q) \<and> (\<forall>r. rem = Some r \<longrightarrow> \<not> bn_static r) \<and>
       max (bn_width num) (bn_width dv) + 5 \<le> INT_MAX div 256 \<and> bn_int dv \<noteq> 0"
    using bn_div_calm [of malloc num dv n ctx quot rem False] that assms u mag_abs(3) by auto
  then show ?thesis unfolding u prod.case using S d by blast
qed

theorem bn_div_exact_witness:
  "let num = (\<lambda>ws s. \<lparr>bn_d = ws, bn_width = length ws, dmax = length ws, neg = s, bn_static = False\<rparr>);
       x = BN_div zero_alloc False (Some BN_init) (Some BN_init) (num [5, 1, 9] True) (num [3, 2] False) BN_CTX_init
   in fst x = Some () \<and> (\<forall>q r. fst (snd x) = Some q \<and> fst (snd (snd x)) = Some r \<longrightarrow>
        bn_int q = - ((5 + 2 ^ 64 + 9 * 2 ^ 128) div (3 + 2 * 2 ^ 64)) \<and> bn_int q * (3 + 2 * 2 ^ 64) + bn_int r = - (5 + 2 ^ 64 + 9 * 2 ^ 128))"
proof -
  let ?num = "\<lambda>ws s. \<lparr>bn_d = ws, bn_width = length ws, dmax = length ws, neg = s, bn_static = False\<rparr>"
  let ?a = "?num [5, 1, 9] True" and ?b = "?num [3, 2] False"
  have v: "bn_int ?a = - (5 + 2 ^ 64 + 9 * 2 ^ 128)" "bn_int ?b = 3 + 2 * 2 ^ 64" by (simp_all add: bn_int_def bn_mag_def)
  obtain e q' r' c' where u: "BN_div zero_alloc False (Some BN_init) (Some BN_init) ?a ?b BN_CTX_init = (e, q', r', c')" by (rule prod_cases4)
  have ok: "bn_ok ?a" "bn_ok ?b" "opt_ok (Some BN_init)" "depth (frames BN_CTX_init) < 1" "ctx_calm BN_CTX_init" "\<not> bn_static BN_init"
    "max (bn_width ?a) (bn_width ?b) + 5 \<le> INT_MAX div 256" "(1 :: nat) < 2 ^ 30"
    by (simp_all add: bn_ok_def INT_MAX_def opt_ok_def BN_CTX_init_def ctx_calm_def BN_init_def)
  have "bn_int ?b \<noteq> 0" unfolding v by simp
  then have "e \<noteq> None \<and> (\<forall>q r. q' = Some q \<and> r' = Some r \<longrightarrow>
      bn_int q = sgn (bn_int ?a) * sgn (bn_int ?b) * (\<bar>bn_int ?a\<bar> div \<bar>bn_int ?b\<bar>) \<and> bn_int q * bn_int ?b + bn_int r = bn_int ?a)"
    using bn_div_exact [OF allocator_zero_alloc ok(1-3,3) new_ctx_ok ok(4,8)] ok(5-7) serves_zero_alloc unfolding u prod.case by blast
  then show ?thesis unfolding v Let_def u fst_conv snd_conv by auto
qed

text \<open>C38: The sign of the numerator is read after that of the quotient is written: when the quotient is written
  to the numerator and the divisor is negative, the remainder gets the wrong sign, and quotient times divisor
  plus remainder is not the numerator.\<close>

theorem bn_div_alias_remainder:
  assumes "allocator malloc" "bn_ok num" "bn_ok dv" "bn_ok r" "ctx_ok n ctx" "depth (frames ctx) < n" "n < 2 ^ 30"
    and "bn_int dv < 0" "\<not> bn_int dv dvd bn_int num"
    and "BN_div malloc True (Some num) (Some r) num dv ctx = (Some (), Some q, Some r', ctx')"
  shows "bn_int r' = - (sgn (bn_int num) * (\<bar>bn_int num\<bar> mod \<bar>bn_int dv\<bar>)) \<and> bn_int q * bn_int dv + bn_int r' \<noteq> bn_int num"
proof -
  have o: "opt_ok (Some num)" "opt_ok (Some r)" using assms(2,4) by (simp_all add: opt_ok_def)
  have nz: "bn_mag dv \<noteq> 0" and R: "div_result True num dv (Some q) (Some r')"
    using bn_div_spec [OF assms(1-3) o assms(5-7,10)] by simp_all
  note Q = quotient_int [OF nz, of q num]
  have m: "bn_mag r' = bn_mag num mod bn_mag dv" "neg r' = (neg num \<noteq> neg dv \<and> bn_mag r' \<noteq> 0)" using R by (simp_all add: div_result_def)
  have M: "int (bn_mag r') = \<bar>bn_int num\<bar> mod \<bar>bn_int dv\<bar>" unfolding m(1) by (simp add: bn_int_def zmod_int)
  have "\<bar>bn_int num\<bar> mod \<bar>bn_int dv\<bar> \<noteq> 0" using assms(9) by (simp add: dvd_eq_mod_eq_0 [symmetric])
  then have nz2: "bn_mag r' \<noteq> 0" using M by linarith
  then have "bn_mag num \<noteq> 0" using m(1) by (cases "bn_mag num = 0") simp_all
  then have sg: "sgn (bn_int num) = (if neg num then - 1 else 1)" by (simp add: bn_int_def)
  have "neg dv" using assms(8) by (simp add: bn_int_def split: if_splits)
  then have r: "bn_int r' = - (sgn (bn_int num) * (\<bar>bn_int num\<bar> mod \<bar>bn_int dv\<bar>))"
    unfolding sg bn_int_def [of r'] M [symmetric] using m(2) nz2 by simp
  define k where "k = sgn (bn_int num) * (\<bar>bn_int num\<bar> mod \<bar>bn_int dv\<bar>)"
  have k: "k \<noteq> 0" unfolding k_def sg M [symmetric] using nz2 by simp
  have q: "bn_int q = sgn (bn_int num) * sgn (bn_int dv) * (\<bar>bn_int num\<bar> div \<bar>bn_int dv\<bar>)" using Q R by (simp add: div_result_def)
  have "bn_int q * bn_int dv + k = bn_int num" unfolding q k_def by (rule truncated)
  then have "bn_int q * bn_int dv + bn_int r' \<noteq> bn_int num" using r k unfolding k_def [symmetric] by linarith
  then show ?thesis using r by simp
qed

theorem bn_div_alias_remainder_witness:
  "let num = (\<lambda>x s. \<lparr>bn_d = [x], bn_width = 1, dmax = 1, neg = s, bn_static = False\<rparr>);
       x = BN_div zero_alloc True (Some (num 7 False)) (Some BN_init) (num 7 False) (num 2 True) BN_CTX_init
   in \<exists>r. fst (snd (snd x)) = Some r \<and> bn_int r = - 1"
proof -
  let ?num = "\<lambda>x s. \<lparr>bn_d = [x], bn_width = 1, dmax = 1, neg = s, bn_static = False\<rparr>"
  let ?a = "?num 7 False" and ?b = "?num 2 True"
  have v: "bn_int ?a = 7" "bn_int ?b = - 2" by (simp_all add: bn_int_def bn_mag_def)
  obtain e q' r' c' where u: "BN_div zero_alloc True (Some ?a) (Some BN_init) ?a ?b BN_CTX_init = (e, q', r', c')" by (rule prod_cases4)
  have ok: "bn_ok ?a" "bn_ok ?b" "opt_ok (Some ?a)" "opt_ok (Some BN_init)" "depth (frames BN_CTX_init) < 1" "ctx_calm BN_CTX_init"
    "max (bn_width ?a) (bn_width ?b) + 5 \<le> INT_MAX div 256" "(1 :: nat) < 2 ^ 30" "bn_mag ?b \<noteq> 0"
    by (simp_all add: bn_ok_def INT_MAX_def opt_ok_def BN_CTX_init_def ctx_calm_def BN_init_def bn_mag_def)
  have "fst (BN_div zero_alloc True (Some ?a) (Some BN_init) ?a ?b BN_CTX_init) = Some ()"
    by (rule bn_div_calm [OF serves_zero_alloc ok(1,2,9) new_ctx_ok ok(5,8,6) _ _ ok(7)]) (auto simp: BN_init_def)
  then have e: "e = Some ()" using u by simp
  have "q' \<noteq> None \<and> r' \<noteq> None" using bn_div_spec [OF allocator_zero_alloc ok(1-4) new_ctx_ok ok(5,8) u] by simp
  then obtain q r where qr: "q' = Some q" "r' = Some r" by auto
  have "bn_int r = - (sgn (bn_int ?a) * (\<bar>bn_int ?a\<bar> mod \<bar>bn_int ?b\<bar>))"
    using bn_div_alias_remainder [OF allocator_zero_alloc ok(1,2) BN_init_ok(1) new_ctx_ok ok(5,8) _ _ u [unfolded e qr]] unfolding v by simp
  then have "bn_int r = - 1" unfolding v by simp
  then show ?thesis unfolding Let_def u qr by simp
qed

end
