(* ===== verification/BnModular.thy ===== *)
theory BnModular
  imports BnDiv
begin

text \<open>
  Modular arithmetic on top of the division (\<open>crypto/fipsmodule/bn/div.c\<close>): \<open>BN_mod_add\<close>, \<open>BN_mod_sub\<close>,
  \<open>BN_mod_mul\<close>, \<open>BN_mod_sqr\<close>, \<open>BN_mod_lshift\<close> and \<open>BN_mod_lshift1\<close>, on operands of any size and sign.
  The result may be an operand (its old value is then passed twice); it is not the modulus.
\<close>

section \<open>The functions\<close>

definition nnmod_after :: "(nat \<Rightarrow> byte list option) \<Rightarrow> BIGNUM \<Rightarrow> unit option \<times> BIGNUM \<Rightarrow> BN_CTX \<Rightarrow> unit option \<times> BIGNUM \<times> BN_CTX" where
  "nnmod_after malloc m res ctx =
     (case res of (None, r) \<Rightarrow> (None, r, ctx) | (Some _, r) \<Rightarrow> BN_nnmod malloc r m r ctx)"

definition BN_mod_add :: "(nat \<Rightarrow> byte list option) \<Rightarrow> BIGNUM \<Rightarrow> BIGNUM \<Rightarrow> BIGNUM \<Rightarrow> BIGNUM \<Rightarrow> BN_CTX \<Rightarrow> unit option \<times> BIGNUM \<times> BN_CTX" where
  "BN_mod_add malloc a b m r ctx = nnmod_after malloc m (BN_add malloc a b r) ctx"

definition BN_mod_sub :: "(nat \<Rightarrow> byte list option) \<Rightarrow> BIGNUM \<Rightarrow> BIGNUM \<Rightarrow> BIGNUM \<Rightarrow> BIGNUM \<Rightarrow> BN_CTX \<Rightarrow> unit option \<times> BIGNUM \<times> BN_CTX" where
  "BN_mod_sub malloc a b m r ctx = nnmod_after malloc m (BN_sub malloc a b r) ctx"

definition BN_mod_lshift1 :: "(nat \<Rightarrow> byte list option) \<Rightarrow> BIGNUM \<Rightarrow> BIGNUM \<Rightarrow> BIGNUM \<Rightarrow> BN_CTX \<Rightarrow> unit option \<times> BIGNUM \<times> BN_CTX" where
  "BN_mod_lshift1 malloc a m r ctx = nnmod_after malloc m (BN_lshift1 malloc a r) ctx"

text \<open>\<open>same\<close> says that the two factors are one object; \<open>None\<close> would be a crash in \<open>BN_mul\<close>, whose result is
  a number of its own here.\<close>

definition mod_product :: "(nat \<Rightarrow> byte list option) \<Rightarrow> bool \<Rightarrow> BIGNUM \<Rightarrow> BIGNUM \<Rightarrow> BIGNUM \<Rightarrow> BN_CTX \<Rightarrow> (unit option \<times> BIGNUM \<times> BN_CTX) option" where
  "mod_product malloc same a b t ctx =
     (if same then Some (BN_sqr malloc False a t ctx) else BN_mul malloc False a b t ctx)"

definition BN_mod_mul :: "(nat \<Rightarrow> byte list option) \<Rightarrow> bool \<Rightarrow> BIGNUM \<Rightarrow> BIGNUM \<Rightarrow> BIGNUM \<Rightarrow> BIGNUM \<Rightarrow> BN_CTX \<Rightarrow> (unit option \<times> BIGNUM \<times> BN_CTX) option" where
  "BN_mod_mul malloc same a b m r ctx =
     (case BN_CTX_get malloc (BN_CTX_start malloc ctx) of
        (None, ctx) \<Rightarrow> Some (None, r, BN_CTX_end ctx)
      | (Some k, ctx) \<Rightarrow>
          (case mod_product malloc same a b (ctx_val ctx k) ctx of
             None \<Rightarrow> None
           | Some (e, t, ctx) \<Rightarrow>
               let ctx = ctx_put k t ctx
               in case e of
                    None \<Rightarrow> Some (None, r, BN_CTX_end ctx)
                  | Some _ \<Rightarrow> (case BN_nnmod malloc t m r ctx of (e, r, ctx) \<Rightarrow> Some (e, r, BN_CTX_end ctx))))"

text \<open>\<open>inplace\<close>: the result is the operand.\<close>

definition BN_mod_sqr :: "(nat \<Rightarrow> byte list option) \<Rightarrow> bool \<Rightarrow> BIGNUM \<Rightarrow> BIGNUM \<Rightarrow> BIGNUM \<Rightarrow> BN_CTX \<Rightarrow> unit option \<times> BIGNUM \<times> BN_CTX" where
  "BN_mod_sqr malloc inplace a m r ctx =
     (case BN_sqr malloc inplace a r ctx of
        (None, r, ctx) \<Rightarrow> (None, r, ctx)
      | (Some _, r, ctx) \<Rightarrow> BN_mod malloc r m r ctx)"

definition BN_mod_lshift :: "(nat \<Rightarrow> byte list option) \<Rightarrow> BIGNUM \<Rightarrow> int \<Rightarrow> BIGNUM \<Rightarrow> BIGNUM \<Rightarrow> BN_CTX \<Rightarrow> unit option \<times> BIGNUM \<times> BN_CTX" where
  "BN_mod_lshift malloc a n m r ctx =
     (case BN_nnmod malloc a m r ctx of
        (None, r, ctx) \<Rightarrow> (None, r, ctx)
      | (Some _, r, ctx) \<Rightarrow>
          if neg m
          then (case BN_dup malloc m of
                  None \<Rightarrow> (None, r, ctx)
                | Some abs_m \<Rightarrow> bn_mod_lshift_consttime malloc r n (abs_m\<lparr>neg := False\<rparr>) r ctx)
          else bn_mod_lshift_consttime malloc r n m r ctx)"

section \<open>Minimal widths\<close>

text \<open>The results of the public functions have no zero word on top.\<close>

definition bn_tight :: "BIGNUM \<Rightarrow> bool" where
  "bn_tight bn \<longleftrightarrow> bn_minimal_width bn = bn_width bn"

lemma tight_width:
  assumes "bn_ok bn" "bn_tight bn" "bn_mag bn < 2 ^ (64 * k)"
  shows "bn_width bn \<le> k"
proof (rule ccontr)
  assume "\<not> bn_width bn \<le> k"
  then have w: "0 < bn_width bn" "k \<le> bn_width bn - 1" by simp_all
  have "bn_d bn ! (bn_width bn - 1) \<noteq> 0"
    using minimal_width_val [OF bn_okD(1) [OF assms(1)]] assms(2) w(1) by (auto simp: bn_tight_def bn_minimal_width_def)
  then have "2 ^ (64 * (bn_width bn - 1)) \<le> bn_mag bn"
    using top_word_bound [OF w(1) bn_okD(1) [OF assms(1)]] by (simp add: bn_mag_def)
  moreover have "(2 :: nat) ^ (64 * k) \<le> 2 ^ (64 * (bn_width bn - 1))" using w(2) by (intro power_increasing) simp_all
  ultimately show False using assms(3) by linarith
qed

lemma minimal_width_idem: "minimal_width d (minimal_width d n) = minimal_width d n"
proof (induction d n rule: minimal_width.induct)
  case (1 d n)
  then show ?case by (subst (2) minimal_width.simps, subst (3) minimal_width.simps) (auto simp: minimal_width.simps [of d n])
qed

lemma tight_set_minimal [simp]: "bn_tight (bn_set_minimal_width bn)"
  by (simp add: bn_tight_def bn_set_minimal_width_def bn_minimal_width_def Let_def minimal_width_idem minimal_width.simps [of _ 0])

lemma tight_neg [simp]: "bn_tight (bn\<lparr>neg := s\<rparr>) = bn_tight bn"
  by (simp add: bn_tight_def bn_minimal_width_def)

lemma tight_zero [simp]: "bn_tight (BN_zero bn)"
  by (simp add: bn_tight_def bn_minimal_width_def BN_zero_def minimal_width.simps)

lemma tight_init [simp]: "bn_tight BN_init"
  by (simp add: bn_tight_def bn_minimal_width_def BN_init_def minimal_width.simps)


section \<open>Sums, doubles and remainders, with their widths\<close>

text \<open>What an operation writing to \<open>r\<close> gives: the value \<open>v\<close>, in at most \<open>w\<close> words.\<close>

definition op_gives :: "(nat \<Rightarrow> byte list option) \<Rightarrow> BIGNUM \<Rightarrow> nat \<Rightarrow> int \<Rightarrow> unit option \<times> BIGNUM \<Rightarrow> bool" where
  "op_gives malloc r w v res \<longleftrightarrow> (case res of (e, r') \<Rightarrow>
     bn_ok r' \<and> bn_static r' = bn_static r \<and> (e \<noteq> None \<longrightarrow> bn_int r' = v \<and> bn_canonical r' \<and> bn_width r' \<le> w) \<and>
     (serves malloc \<and> \<not> bn_static r \<and> w \<le> INT_MAX div 256 \<longrightarrow> e \<noteq> None))"

lemma uadd_shape:
  assumes "allocator malloc" "bn_ok a" "bn_ok b" "bn_ok r" "BN_uadd malloc a b r = (e, r')"
  shows "bn_ok r' \<and> bn_static r' = bn_static r \<and> (e \<noteq> None \<longrightarrow> bn_width r' \<le> max (bn_width a) (bn_width b) + 1)"
proof -
  obtain e1 r1 where u: "bn_uadd_consttime malloc a b r = (e1, r1)" by (cases "bn_uadd_consttime malloc a b r")
  note S = uadd_spec [OF assms(1-4) u]
  have st: "bn_static r1 = bn_static r"
    using u static_wexpand by (fastforce simp: bn_uadd_consttime_def andthen_def Let_def split: option.splits prod.splits if_splits)
  have r1: "bn_ok r1" using S assms(4) by (auto split: option.splits)
  have "e1 \<noteq> None \<Longrightarrow> bn_width r1 = max (bn_width a) (bn_width b) + 1" using S by (auto split: option.splits)
  then show ?thesis using u assms(5) st r1 set_minimal_width [OF r1]
    by (cases e1) (auto simp: BN_uadd_def andthen_def static_minimal)
qed

lemma usub_shape:
  assumes "allocator malloc" "bn_ok a" "bn_ok b" "bn_ok r" "BN_usub malloc a b r = (e, r')"
  shows "bn_ok r' \<and> bn_static r' = bn_static r \<and> (e \<noteq> None \<longrightarrow> bn_width r' \<le> bn_width a)"
proof -
  obtain e1 r1 where u: "bn_usub_consttime malloc a b r = (e1, r1)" by (cases "bn_usub_consttime malloc a b r")
  note S = usub_spec [OF assms(1-4) u]
  have st: "bn_static r1 = bn_static r"
    using u static_wexpand by (fastforce simp: bn_usub_consttime_def fail_def andthen_def Let_def split: option.splits prod.splits if_splits)
  have r1: "bn_ok r1" using S assms(4) by (auto split: option.splits)
  have "e1 \<noteq> None \<Longrightarrow> bn_width r1 = bn_width a" using S by (auto split: option.splits)
  then show ?thesis using u assms(5) st r1 set_minimal_width [OF r1]
    by (cases e1) (auto simp: BN_usub_def andthen_def static_minimal)
qed

lemma signed_usub_shape:
  assumes al: "allocator malloc" and ok: "bn_ok a" "bn_ok b" "bn_ok r" and u: "signed_usub malloc a b r = (e, r')"
  shows "bn_ok r' \<and> bn_static r' = bn_static r \<and> (e \<noteq> None \<longrightarrow> bn_width r' \<le> max (bn_width a) (bn_width b) + 1)"
proof -
  obtain e1 r1 e2 r2 where s: "BN_usub malloc b a r = (e1, r1)" "BN_usub malloc a b r = (e2, r2)"
    by (cases "BN_usub malloc b a r", cases "BN_usub malloc a b r")
  show ?thesis using usub_shape [OF al ok(2,1,3) s(1)] usub_shape [OF al ok s(2)] u s
    by (cases e1; cases e2) (auto simp: signed_usub_def andthen_def split: if_splits)
qed

lemma grow_serves: "serves malloc \<Longrightarrow> \<not> bn_static r \<Longrightarrow> max (bn_width a) (bn_width b) + 1 \<le> INT_MAX div 256 \<Longrightarrow> \<not> bn_grow_fails malloc a b r"
  using wexpand_serves [of malloc _ r] unfolding bn_grow_fails_def by (metis fst_conv le_trans option.distinct(1))

lemma add_gives:
  assumes al: "allocator malloc" and ok: "bn_ok a" "bn_ok b" "bn_ok r" and can: "bn_canonical a" "bn_canonical b"
  shows "op_gives malloc r (max (bn_width a) (bn_width b) + 1) (bn_int a + bn_int b) (BN_add malloc a b r)"
proof -
  obtain e r' where u: "BN_add malloc a b r = (e, r')" by (cases "BN_add malloc a b r")
  obtain e1 r1 where s: "BN_uadd malloc a b r = (e1, r1)" by (cases "BN_uadd malloc a b r")
  have "bn_ok r' \<and> bn_static r' = bn_static r \<and> (e \<noteq> None \<longrightarrow> bn_width r' \<le> max (bn_width a) (bn_width b) + 1)"
    using u uadd_shape [OF al ok s] signed_usub_shape [OF al ok(1,2,3), of e r'] signed_usub_shape [OF al ok(2,1,3), of e r'] s
    by (auto simp: BN_add_def Let_def max.commute split: if_splits)
  then show ?thesis using bn_add_spec [OF al ok can u] grow_serves [of malloc r a b] unfolding u op_gives_def by (cases e) auto
qed

lemma sub_gives:
  assumes al: "allocator malloc" and ok: "bn_ok a" "bn_ok b" "bn_ok r" and can: "bn_canonical a" "bn_canonical b"
  shows "op_gives malloc r (max (bn_width a) (bn_width b) + 1) (bn_int a - bn_int b) (BN_sub malloc a b r)"
proof -
  obtain e r' where u: "BN_sub malloc a b r = (e, r')" by (cases "BN_sub malloc a b r")
  obtain e1 r1 where s: "BN_uadd malloc a b r = (e1, r1)" by (cases "BN_uadd malloc a b r")
  have "bn_ok r' \<and> bn_static r' = bn_static r \<and> (e \<noteq> None \<longrightarrow> bn_width r' \<le> max (bn_width a) (bn_width b) + 1)"
    using u uadd_shape [OF al ok s] signed_usub_shape [OF al ok(1,2,3), of e r'] signed_usub_shape [OF al ok(2,1,3), of e r'] s
    by (cases e1) (auto simp: BN_sub_def Let_def andthen_def max.commute split: if_splits)
  then show ?thesis using bn_sub_spec [OF al ok can u] grow_serves [of malloc r a b] unfolding u op_gives_def by (cases e) auto
qed

lemma lshift1_gives:
  assumes al: "allocator malloc" and ok: "bn_ok a" "bn_ok r" and can: "bn_canonical a"
  shows "op_gives malloc r (bn_width a + 1) (2 * bn_int a) (BN_lshift1 malloc a r)"
proof -
  obtain e r' where u: "BN_lshift1 malloc a r = (e, r')" by (cases "BN_lshift1 malloc a r")
  obtain e1 r1 where x: "bn_wexpand malloc (bn_width a + 1) (r\<lparr>neg := neg a\<rparr>) = (e1, r1)" by (cases "bn_wexpand malloc (bn_width a + 1) (r\<lparr>neg := neg a\<rparr>)")
  have W: "bn_ok r1" "bn_static r1 = bn_static r" using wexpand_ok [OF al _ x] static_wexpand [OF x] ok(2) by simp_all
  have "bn_static r' = bn_static r \<and> (e = None \<longrightarrow> r' = r1) \<and> (e \<noteq> None \<longrightarrow> bn_width r' \<le> bn_width a + 1) \<and> (e = None \<longleftrightarrow> e1 = None)"
    using u x W by (cases e1) (auto simp: BN_lshift1_def andthen_def Let_def split: prod.splits if_splits)
  moreover have "serves malloc \<and> \<not> bn_static r \<and> bn_width a + 1 \<le> INT_MAX div 256 \<Longrightarrow> e1 \<noteq> None"
    using wexpand_serves [of malloc "bn_width a + 1" "r\<lparr>neg := neg a\<rparr>"] x by auto
  ultimately show ?thesis using lshift1_spec [OF al ok u] W can unfolding u op_gives_def
    by (cases e) (auto simp: bn_int_def bn_canonical_def)
qed


lemma rshift_tight: "BN_rshift malloc a n r = (Some u, r') \<Longrightarrow> bn_tight r'"
  by (auto simp: BN_rshift_def fail_def andthen_def split: if_splits option.splits prod.splits)

lemma div_rem_shape:
  assumes "BN_div malloc in_num quot (Some r) num dv ctx = (e, quot', Some r', ctx')"
  shows "bn_static r' = bn_static r \<and> (e \<noteq> None \<longrightarrow> bn_tight r')"
proof -
  define P where "P = (\<lambda>(e :: unit option) rem. \<forall>r'. rem = Some r' \<longrightarrow> bn_static r' = bn_static r \<and> (e \<noteq> None \<longrightarrow> bn_tight r'))"
  have "P e1 rem1" if "div_finish malloc ns sg sn (Some r) res = (e1, rem1, res1)" for ns sg sn res e1 rem1 res1
    using that static_rshift [of malloc sn "int ns" r] rshift_tight [of malloc sn "int ns" r]
    by (fastforce simp: div_finish_def P_def split: option.splits prod.splits if_splits)
  then have "P e1 rem1" if "div_body malloc in_num (Some r) num dv res t sn sd = (e1, rem1, res1, t1, sn1, sd1)" for res t sn sd e1 rem1 res1 t1 sn1 sd1
    using that by (fastforce simp: div_body_def Let_def P_def split: option.splits prod.splits)
  note B = this
  have no: "P None (Some r)" by (simp add: P_def)
  obtain t c1 where g1: "BN_CTX_get malloc (BN_CTX_start malloc ctx) = (t, c1)" by (cases "BN_CTX_get malloc (BN_CTX_start malloc ctx)")
  obtain sn c2 where g2: "BN_CTX_get malloc c1 = (sn, c2)" by (cases "BN_CTX_get malloc c1")
  obtain sd c3 where g3: "BN_CTX_get malloc c2 = (sd, c3)" by (cases "BN_CTX_get malloc c2")
  obtain k c4 where g4: "(case quot of None \<Rightarrow> BN_CTX_get malloc c3 | Some _ \<Rightarrow> (None, c3)) = (k, c4)"
    by (cases "case quot of None \<Rightarrow> BN_CTX_get malloc c3 | Some _ \<Rightarrow> (None, c3)")
  define q where "q = (case quot of None \<Rightarrow> map_option (ctx_val c4) k | Some q \<Rightarrow> Some q)"
  note D = assms [unfolded BN_div_def Let_def g1 prod.case g2 g3 g4, folded q_def]
  have "P e (Some r')"
  proof (cases "t = None \<or> sn = None \<or> sd = None \<or> q = None")
    case True
    then have "e = None" "r' = r" using D by (auto split: if_splits option.splits)
    then show ?thesis using no by simp
  next
    case False
    then obtain t1 sn1 sd1 q1 where S: "t = Some t1" "sn = Some sn1" "sd = Some sd1" "q = Some q1" by auto
    obtain e1 rm r1 tv snv sdv where b: "div_body malloc in_num (Some r) num dv q1 (ctx_val c4 t1) (ctx_val c4 sn1) (ctx_val c4 sd1) = (e1, rm, r1, tv, snv, sdv)"
      by (rule prod_cases6)
    have "e = None \<and> r' = r \<or> e = e1 \<and> Some r' = rm"
      using D unfolding S option.case prod.case b by (auto split: if_splits)
    then show ?thesis using B [OF b] no by auto
  qed
  then show ?thesis by (simp add: P_def)
qed

text \<open>The remainder is no wider than the divisor.\<close>

lemma nnmod_gives:
  assumes al: "allocator malloc" and ok: "bn_ok m" "bn_ok d" "bn_ok r" and c: "ctx_ok n ctx" "depth (frames ctx) < n" "n < 2 ^ 30"
  shows "(case BN_mod malloc m d r ctx of (e, r', ctx') \<Rightarrow> ctx_same n ctx ctx' \<and> bn_ok r' \<and> bn_static r' = bn_static r \<and>
      (e \<noteq> None \<longrightarrow> bn_int d \<noteq> 0 \<and> bn_canonical r' \<and> bn_width r' \<le> bn_width d \<and>
        bn_int r' = sgn (bn_int m) * (\<bar>bn_int m\<bar> mod \<bar>bn_int d\<bar>)) \<and>
      (serves malloc \<and> ctx_calm ctx \<and> \<not> bn_static r \<and> max (bn_width m) (bn_width d) + 5 \<le> INT_MAX div 256 \<and> bn_int d \<noteq> 0 \<longrightarrow> e \<noteq> None))"
    "(case BN_nnmod malloc m d r ctx of (e, r', ctx') \<Rightarrow> ctx_same n ctx ctx' \<and> bn_ok r' \<and> bn_static r' = bn_static r \<and>
      (e \<noteq> None \<longrightarrow> bn_int d \<noteq> 0 \<and> bn_canonical r' \<and> bn_int r' = bn_int m mod \<bar>bn_int d\<bar>) \<and>
      (serves malloc \<and> ctx_calm ctx \<and> \<not> bn_static r \<and> max (bn_width m) (bn_width d) + 5 \<le> INT_MAX div 256 \<and> bn_int d \<noteq> 0 \<longrightarrow> e \<noteq> None))"
proof -
  obtain e q x c' where u: "BN_div malloc False None (Some r) m d ctx = (e, q, x, c')" by (rule prod_cases4)
  have o: "opt_ok None" "opt_ok (Some r)" using ok(3) by (simp_all add: opt_ok_def)
  note S = bn_div_spec [OF al ok(1,2) o c u]
  then obtain r1 where x: "x = Some r1" by auto
  have r1: "bn_ok r1" "bn_static r1 = bn_static r" "ctx_same n ctx c'"
    using S div_rem_shape [OF u [unfolded x]] by (simp_all add: x opt_ok_def)
  have v: "bn_int d \<noteq> 0 \<and> bn_canonical r1 \<and> bn_width r1 \<le> bn_width d \<and> bn_int r1 = sgn (bn_int m) * (\<bar>bn_int m\<bar> mod \<bar>bn_int d\<bar>)" if "e \<noteq> None"
  proof -
    have nz: "bn_mag d \<noteq> 0" and R: "bn_mag r1 = bn_mag m mod bn_mag d" "neg r1 = (neg m \<and> bn_mag r1 \<noteq> 0)"
      using S that by (simp_all add: x div_result_def)
    have "bn_mag r1 < bn_mag d" using R(1) nz by simp
    then have "bn_mag r1 < 2 ^ (64 * bn_width d)" using bn_mag_less [of d] by (rule less_trans)
    then have "bn_width r1 \<le> bn_width d" using tight_width r1(1) div_rem_shape [OF u [unfolded x]] that by simp
    then show ?thesis using remainder_int [OF R] nz mag_abs(3) [of d] by simp
  qed
  have calm: "e \<noteq> None" if "serves malloc \<and> ctx_calm ctx \<and> \<not> bn_static r \<and> max (bn_width m) (bn_width d) + 5 \<le> INT_MAX div 256 \<and> bn_int d \<noteq> 0"
    using bn_div_calm [of malloc m d n ctx None "Some r" False] that ok c u mag_abs(3) [of d] by auto
  have M: "BN_mod malloc m d r ctx = (e, r1, c')" by (simp add: BN_mod_def u x)
  show "case BN_mod malloc m d r ctx of (e, r', ctx') \<Rightarrow> ctx_same n ctx ctx' \<and> bn_ok r' \<and> bn_static r' = bn_static r \<and>
      (e \<noteq> None \<longrightarrow> bn_int d \<noteq> 0 \<and> bn_canonical r' \<and> bn_width r' \<le> bn_width d \<and>
        bn_int r' = sgn (bn_int m) * (\<bar>bn_int m\<bar> mod \<bar>bn_int d\<bar>)) \<and>
      (serves malloc \<and> ctx_calm ctx \<and> \<not> bn_static r \<and> max (bn_width m) (bn_width d) + 5 \<le> INT_MAX div 256 \<and> bn_int d \<noteq> 0 \<longrightarrow> e \<noteq> None)"
    using r1 v calm by (simp add: M)
  show "case BN_nnmod malloc m d r ctx of (e, r', ctx') \<Rightarrow> ctx_same n ctx ctx' \<and> bn_ok r' \<and> bn_static r' = bn_static r \<and>
      (e \<noteq> None \<longrightarrow> bn_int d \<noteq> 0 \<and> bn_canonical r' \<and> bn_int r' = bn_int m mod \<bar>bn_int d\<bar>) \<and>
      (serves malloc \<and> ctx_calm ctx \<and> \<not> bn_static r \<and> max (bn_width m) (bn_width d) + 5 \<le> INT_MAX div 256 \<and> bn_int d \<noteq> 0 \<longrightarrow> e \<noteq> None)"
  proof (cases "e = None \<or> \<not> neg r1")
    case True
    then have N: "BN_nnmod malloc m d r ctx = (e, r1, c')" by (cases e) (auto simp: BN_nnmod_def M)
    have "bn_int r1 = bn_int m mod \<bar>bn_int d\<bar>" if e: "e \<noteq> None"
    proof -
      have nn: "0 \<le> bn_int r1" using True e by (simp add: bn_int_def)
      note V = v [OF e]
      show ?thesis
      proof (cases "bn_int m < 0")
        case True
        then have "bn_int r1 = - (- bn_int m mod \<bar>bn_int d\<bar>)" using V by simp
        moreover have "0 \<le> - bn_int m mod \<bar>bn_int d\<bar>" using V by simp
        ultimately have z: "- bn_int m mod \<bar>bn_int d\<bar> = 0" "bn_int r1 = 0" using nn by simp_all
        then show ?thesis by (metis dvd_eq_mod_eq_0 dvd_minus_iff)
      qed (use V in \<open>auto simp: sgn_if\<close>)
    qed
    then show ?thesis using r1 v calm by (simp add: N)
  next
    case False
    then have e: "e \<noteq> None" and ng: "neg r1" by simp_all
    note V = v [OF e]
    have cd: "bn_canonical d" using V mag_abs(3) [of d] by (simp add: bn_canonical_def)
    have neg1: "bn_int r1 < 0" using ng V by (auto simp: bn_int_def bn_canonical_def)
    have mneg: "bn_int m < 0"
    proof (rule ccontr)
      assume "\<not> bn_int m < 0"
      then have "0 \<le> bn_int r1" using V by (simp add: sgn_if)
      then show False using neg1 by simp
    qed
    have r1v: "bn_int r1 = - (- bn_int m mod \<bar>bn_int d\<bar>)" using V mneg by simp
    define res where "res = (if neg d then BN_sub malloc r1 d r1 else BN_add malloc r1 d r1)"
    obtain e2 r2 where res2: "res = (e2, r2)" by (cases res)
    have N: "BN_nnmod malloc m d r ctx = (e2, r2, c')" using e ng res2 by (cases e) (auto simp: BN_nnmod_def M res_def)
    have val: "bn_int r1 + \<bar>bn_int d\<bar> = bn_int m mod \<bar>bn_int d\<bar>"
      using neg1 V unfolding r1v by (simp add: zmod_zminus1_eq_if [of "- bn_int m", simplified] split: if_splits)
    have "op_gives malloc r1 (max (bn_width r1) (bn_width d) + 1) (bn_int r1 + \<bar>bn_int d\<bar>) res"
      using add_gives [OF al r1(1) ok(2) r1(1) _ cd] sub_gives [OF al r1(1) ok(2) r1(1) _ cd] V
      by (auto simp: res_def bn_int_def [of d])
    then have "bn_ok r2 \<and> bn_static r2 = bn_static r1 \<and> (e2 \<noteq> None \<longrightarrow> bn_int r2 = bn_int m mod \<bar>bn_int d\<bar> \<and> bn_canonical r2) \<and>
        (serves malloc \<and> \<not> bn_static r1 \<and> max (bn_width r1) (bn_width d) + 1 \<le> INT_MAX div 256 \<longrightarrow> e2 \<noteq> None)"
      unfolding op_gives_def val res2 by auto
    moreover have "max (bn_width r1) (bn_width d) + 1 \<le> max (bn_width m) (bn_width d) + 5" "bn_int d \<noteq> 0" using V by auto
    ultimately show ?thesis using r1 unfolding N prod.case by auto
  qed
qed


section \<open>Products, with their widths\<close>

lemma frame_get:
  assumes al: "allocator malloc" and c: "ctx_ok n ctx" "depth (frames ctx) < n" "n < 2 ^ 30"
    and g: "BN_CTX_get malloc (BN_CTX_start malloc ctx) = (res, c1)"
  shows "ctx_ok n c1" "ctx_inside n (BN_CTX_start malloc ctx) c1" "depth (frames c1) \<le> depth (frames ctx) + 1"
    "ctx_inside n (BN_CTX_start malloc ctx) c2 \<Longrightarrow> ctx_same n ctx (BN_CTX_end c2)"
    "res = Some k \<Longrightarrow> k < length (vals (pool c1)) \<and> bn_dynamic (ctx_val c1 k)"
    "serves malloc \<Longrightarrow> ctx_calm ctx \<Longrightarrow> res \<noteq> None \<and> ctx_calm c1"
proof -
  have c0: "ctx_ok n (BN_CTX_start malloc ctx)" by (rule start_ok [OF al c])
  note G = get_spec [OF c0 g]
  then show ok1: "ctx_ok n c1" "ctx_inside n (BN_CTX_start malloc ctx) c1" using inside_get [OF c0 g] by simp_all
  have "length (ctx_frames c1) \<le> length (ctx_frames ctx) + 1" using G start_spec [OF al c] by auto
  then show "depth (frames c1) \<le> depth (frames ctx) + 1" using length_ctx_frames [OF ok1(1)] length_ctx_frames [OF c(1)] by simp
  show "ctx_inside n (BN_CTX_start malloc ctx) c2 \<Longrightarrow> ctx_same n ctx (BN_CTX_end c2)"
    using frame_same [OF al c] by (simp add: ctx_inside_def)
  show "res = Some k \<Longrightarrow> k < length (vals (pool c1)) \<and> bn_dynamic (ctx_val c1 k)" using G by auto
  show "serves malloc \<Longrightarrow> ctx_calm ctx \<Longrightarrow> res \<noteq> None \<and> ctx_calm c1"
    using get_calm [of malloc "BN_CTX_start malloc ctx"] start_calm [of malloc n ctx] c g by auto
qed

lemma same_inside: "ctx_same n a b \<Longrightarrow> ctx_inside n a b"
  by (simp add: ctx_same_def ctx_inside_def shape_grows)

lemma product_width:
  assumes "bn_ok r" "bn_tight r" "bn_mag r = bn_mag a * bn_mag b"
  shows "bn_width r \<le> bn_width a + bn_width b"
  using tight_width [OF assms(1,2)] product_less [of a b] assms(3) by metis

lemma mul_impl_fresh:
  assumes al: "allocator malloc" and ok: "bn_ok a" "bn_ok b" "bn_ok r" and c: "ctx_ok n ctx" "depth (frames ctx) < n" "n < 2 ^ 30"
    and m: "bn_mul_impl malloc False a b r ctx = Some (e1, r1, c1)"
  shows "bn_static r1 = bn_static r \<and> (e1 \<noteq> None \<and> neg a = neg b \<longrightarrow> \<not> neg r1)"
proof (cases "bn_width a = 0 \<or> bn_width b = 0")
  case True
  then show ?thesis using m by (auto simp: bn_mul_impl_def BN_zero_def)
next
  case False
  obtain e2 r2 c2 where x: "mul_into malloc a b r (BN_CTX_start malloc ctx) = (e2, r2, c2)" by (rule prod_cases3)
  then have "r1 = r2" "e1 = e2" using m unfolding bn_mul_impl_def if_not_P [OF False] Let_def by simp_all
  then show ?thesis using mul_into_spec [OF al ok start_ok [OF al c] x] by simp
qed

lemma mul_gives:
  assumes al: "allocator malloc" and ok: "bn_ok a" "bn_ok b" "bn_ok r" and c: "ctx_ok n ctx" "depth (frames ctx) < n" "n < 2 ^ 30"
  shows "\<exists>e r' ctx'. BN_mul malloc False a b r ctx = Some (e, r', ctx') \<and> ctx_same n ctx ctx' \<and> bn_ok r' \<and> bn_static r' = bn_static r \<and>
    (e \<noteq> None \<longrightarrow> bn_canonical r' \<and> bn_int r' = bn_int a * bn_int b \<and> bn_width r' \<le> bn_width a + bn_width b) \<and>
    (serves malloc \<and> ctx_calm ctx \<and> \<not> bn_static r \<and> 8 * (bn_width a + bn_width b) \<le> INT_MAX div 256 \<longrightarrow> e \<noteq> None)"
proof -
  obtain e r' ctx' where u: "BN_mul malloc False a b r ctx = Some (e, r', ctx')"
    and S: "ctx_same n ctx ctx' \<and> bn_ok r' \<and> (e \<noteq> None \<longrightarrow> bn_canonical r' \<and> bn_int r' = bn_int a * bn_int b)"
    using mul_spec [OF al ok c, of False] by (auto split: option.splits)
  obtain e1 r1 c1 where m: "bn_mul_impl malloc False a b r ctx = Some (e1, r1, c1)"
    using u by (cases "bn_mul_impl malloc False a b r ctx") (auto simp: BN_mul_def)
  have r': "r' = (if e = None then r1 else bn_set_minimal_width r1)" "e = e1" using u m by (auto simp: BN_mul_def split: option.splits)
  have "bn_static r1 = bn_static r" using mul_impl_fresh [OF al ok c m] by simp
  then have st: "bn_static r' = bn_static r" using r' by (simp add: static_minimal)
  have w: "bn_width r' \<le> bn_width a + bn_width b" if "e \<noteq> None"
  proof (rule product_width)
    show "bn_ok r'" using S by simp
    show "bn_tight r'" using that r' by simp
    have "bn_int r' = bn_int a * bn_int b" using S that by simp
    then show "bn_mag r' = bn_mag a * bn_mag b" by (simp only: mag_abs(1) abs_mult nat_mult_distrib abs_ge_zero)
  qed
  have "e \<noteq> None" if "serves malloc \<and> ctx_calm ctx \<and> \<not> bn_static r \<and> 8 * (bn_width a + bn_width b) \<le> INT_MAX div 256"
    using mul_impl_calm [of malloc a b n ctx r False] that ok c m r'(2) by auto
  then show ?thesis using u S st w by blast
qed

lemma sqr_consttime_static:
  assumes al: "allocator malloc" and ok: "bn_ok a" "bn_ok r" and c: "ctx_ok n ctx" "depth (frames ctx) < n" "n < 2 ^ 30"
    and m: "bn_sqr_consttime malloc inplace a r ctx = (e1, r1, c1)"
  shows "bn_static r1 = bn_static r"
proof (cases "bn_width a = 0")
  case True
  then show ?thesis using m by (auto simp: bn_sqr_consttime_def)
next
  case False
  obtain g c2 where g: "BN_CTX_get malloc (BN_CTX_start malloc ctx) = (g, c2)" by (cases "BN_CTX_get malloc (BN_CTX_start malloc ctx)")
  note F = frame_get [OF al c g]
  note D = m [unfolded bn_sqr_consttime_def if_not_P [OF False] Let_def g prod.case]
  show ?thesis
  proof (cases inplace)
    case True
    then show ?thesis using D static_copy [of malloc _ r] by (auto split: option.splits prod.splits)
  next
    case no: False
    show ?thesis
    proof (cases g)
      case None
      then show ?thesis using D no by simp
    next
      case (Some t)
      obtain e3 r3 c3 where x: "sqr_into malloc a t r c2 = (e3, r3, c3)" by (rule prod_cases3)
      then have "r1 = r3" using D no Some by simp
      then show ?thesis using sqr_into_spec [OF al ok _ F(1) _ x] F(5) Some False by simp
    qed
  qed
qed

lemma sqr_gives:
  assumes al: "allocator malloc" and ok: "bn_ok a" "bn_ok r" and c: "ctx_ok n ctx" "depth (frames ctx) < n" "n < 2 ^ 30"
    and u: "BN_sqr malloc inplace a r ctx = (e, r', ctx')"
  shows "ctx_same n ctx ctx' \<and> bn_ok r' \<and> bn_static r' = bn_static r \<and>
    (e \<noteq> None \<longrightarrow> bn_canonical r' \<and> bn_int r' = (bn_int a)\<^sup>2 \<and> bn_width r' \<le> 2 * bn_width a) \<and>
    (serves malloc \<and> ctx_calm ctx \<and> \<not> bn_static r \<and> 4 * bn_width a \<le> INT_MAX div 256 \<longrightarrow> e \<noteq> None)"
proof -
  note S = sqr_spec [OF al ok c u]
  obtain e1 r1 c1 where m: "bn_sqr_consttime malloc inplace a r ctx = (e1, r1, c1)" by (rule prod_cases3)
  have r': "r' = (if e = None then r1 else bn_set_minimal_width r1)" "e = e1" using u m by (auto simp: BN_sqr_def split: option.splits)
  have "bn_static r1 = bn_static r" by (rule sqr_consttime_static [OF al ok c m])
  then have st: "bn_static r' = bn_static r" using r' by (simp add: static_minimal)
  have w: "bn_width r' \<le> bn_width a + bn_width a" if "e \<noteq> None"
  proof (rule product_width)
    show "bn_ok r'" using S by simp
    show "bn_tight r'" using that r' by simp
    have "bn_int r' = bn_int a * bn_int a" using S that by (simp add: power2_eq_square)
    then show "bn_mag r' = bn_mag a * bn_mag a" by (simp only: mag_abs(1) abs_mult nat_mult_distrib abs_ge_zero)
  qed
  have "e \<noteq> None" if "serves malloc \<and> ctx_calm ctx \<and> \<not> bn_static r \<and> 4 * bn_width a \<le> INT_MAX div 256"
    using sqr_calm [of malloc a n ctx r inplace] that ok c u by auto
  then show ?thesis using S st w by auto
qed


section \<open>Modular arithmetic\<close>

definition mod_gives :: "nat \<Rightarrow> BN_CTX \<Rightarrow> BIGNUM \<Rightarrow> bool \<Rightarrow> int \<Rightarrow> unit option \<times> BIGNUM \<times> BN_CTX \<Rightarrow> bool" where
  "mod_gives n ctx m calm v res \<longleftrightarrow> (case res of (e, r', ctx') \<Rightarrow>
     ctx_same n ctx ctx' \<and> bn_ok r' \<and> (e \<noteq> None \<longrightarrow> bn_int m \<noteq> 0 \<and> bn_canonical r' \<and> bn_int r' = v mod \<bar>bn_int m\<bar>) \<and>
     (calm \<and> bn_int m \<noteq> 0 \<longrightarrow> e \<noteq> None))"

lemma nnmod_after_gives:
  assumes al: "allocator malloc" and m: "bn_ok m" and c: "ctx_ok n ctx" "depth (frames ctx) < n" "n < 2 ^ 30"
    and g: "op_gives malloc r w v res" and small: "calm \<Longrightarrow> serves malloc \<and> ctx_calm ctx \<and> \<not> bn_static r \<and> max w (bn_width m) + 5 \<le> INT_MAX div 256"
  shows "mod_gives n ctx m calm v (nnmod_after malloc m res ctx)"
proof -
  obtain e1 r1 where r: "res = (e1, r1)" by (cases res)
  have G: "bn_ok r1" "bn_static r1 = bn_static r" "e1 \<noteq> None \<longrightarrow> bn_int r1 = v \<and> bn_canonical r1 \<and> bn_width r1 \<le> w"
    "calm \<longrightarrow> e1 \<noteq> None" using g small unfolding r op_gives_def by auto
  show ?thesis
  proof (cases e1)
    case None
    then show ?thesis using G same_refl [OF c(1)] by (simp add: nnmod_after_def r mod_gives_def)
  next
    case (Some y)
    obtain e2 r2 c2 where u: "BN_nnmod malloc r1 m r1 ctx = (e2, r2, c2)" by (rule prod_cases3)
    have "max (bn_width r1) (bn_width m) \<le> max w (bn_width m)" using G(3) Some by auto
    then have "calm \<Longrightarrow> max (bn_width r1) (bn_width m) + 5 \<le> INT_MAX div 256" using small by linarith
    then show ?thesis using nnmod_gives(2) [OF al G(1) m G(1) c] u G Some small
      by (auto simp: nnmod_after_def r mod_gives_def)
  qed
qed

lemma mod_product_gives:
  assumes al: "allocator malloc" and ok: "bn_ok a" "bn_ok b" "bn_ok r" and c: "ctx_ok n ctx" "depth (frames ctx) < n" "n < 2 ^ 30"
    and same: "same \<Longrightarrow> b = a"
  shows "\<exists>e r' ctx'. mod_product malloc same a b r ctx = Some (e, r', ctx') \<and> ctx_same n ctx ctx' \<and> bn_ok r' \<and> bn_static r' = bn_static r \<and>
    (e \<noteq> None \<longrightarrow> bn_canonical r' \<and> bn_int r' = bn_int a * bn_int b \<and> bn_width r' \<le> bn_width a + bn_width b) \<and>
    (serves malloc \<and> ctx_calm ctx \<and> \<not> bn_static r \<and> 8 * (bn_width a + bn_width b) \<le> INT_MAX div 256 \<longrightarrow> e \<noteq> None)"
proof (cases same)
  case True
  obtain e r' ctx' where u: "BN_sqr malloc False a r ctx = (e, r', ctx')" by (rule prod_cases3)
  show ?thesis using sqr_gives [OF al ok(1,3) c u] True same [OF True] u by (auto simp: mod_product_def power2_eq_square)
next
  case False
  then show ?thesis using mul_gives [OF al ok c] by (simp add: mod_product_def)
qed

lemma calm_put: "ctx_calm (ctx_put k x c) = ctx_calm c"
  by (simp add: ctx_calm_def ctx_put_def)

lemma mod_mul_gives:
  assumes al: "allocator malloc" and ok: "bn_ok a" "bn_ok b" "bn_ok m" "bn_ok r" and c: "ctx_ok n ctx" "depth (frames ctx) + 1 < n" "n < 2 ^ 30"
    and same: "same \<Longrightarrow> b = a"
    and small: "calm \<Longrightarrow> serves malloc \<and> ctx_calm ctx \<and> \<not> bn_static r \<and> 8 * (bn_width a + bn_width b + bn_width m) + 5 \<le> INT_MAX div 256"
  shows "\<exists>x. BN_mod_mul malloc same a b m r ctx = Some x \<and> mod_gives n ctx m calm (bn_int a * bn_int b) x"
proof -
  have d: "depth (frames ctx) < n" using c(2) by simp
  obtain g c1 where g: "BN_CTX_get malloc (BN_CTX_start malloc ctx) = (g, c1)" by (cases "BN_CTX_get malloc (BN_CTX_start malloc ctx)")
  note F = frame_get [OF al c(1) d c(3) g]
  show ?thesis
  proof (cases g)
    case None
    then show ?thesis using F(4) [OF F(2)] F(6) ok(4) small by (auto simp: BN_mod_mul_def g mod_gives_def)
  next
    case (Some k)
    have k: "k < length (vals (pool c1))" "bn_dynamic (ctx_val c1 k)" using F(5) [OF Some] by simp_all
    note tv = bn_dynamicD [OF k(2)]
    have d1: "depth (frames c1) < n" using F(3) c(2) by simp
    obtain e1 t c2 where p: "mod_product malloc same a b (ctx_val c1 k) c1 = Some (e1, t, c2)" "ctx_same n c1 c2" "bn_ok t" "\<not> bn_static t"
      "e1 \<noteq> None \<longrightarrow> bn_canonical t \<and> bn_int t = bn_int a * bn_int b \<and> bn_width t \<le> bn_width a + bn_width b"
      "serves malloc \<and> ctx_calm c1 \<and> 8 * (bn_width a + bn_width b) \<le> INT_MAX div 256 \<longrightarrow> e1 \<noteq> None"
      using mod_product_gives [OF al ok(1,2) tv(1) F(1) d1 c(3), where same = same] same tv(2) by blast
    define c3 where "c3 = ctx_put k t c2"
    have td: "bn_dynamic t" using p(3,4) by (simp add: bn_dynamic_def)
    have i3: "ctx_inside n c1 c3" unfolding c3_def by (rule inside_put_trans [OF same_inside [OF p(2)] td])
    have c3: "ctx_ok n c3" "depth (frames c3) < n"
      using i3 grows_depth [of n c1 n c3] F(1) d1 by (simp_all add: ctx_inside_def)
    have cc: "calm \<Longrightarrow> serves malloc \<and> ctx_calm c1 \<and> ctx_calm c3" using F(6) small same_calm [OF p(2)] by (simp add: c3_def calm_put)
    have e1: "calm \<Longrightarrow> e1 \<noteq> None" using p(6) cc small by simp
    have D: "BN_mod_mul malloc same a b m r ctx = (case e1 of None \<Rightarrow> Some (None, r, BN_CTX_end c3)
        | Some _ \<Rightarrow> (case BN_nnmod malloc t m r c3 of (e, r, ctx) \<Rightarrow> Some (e, r, BN_CTX_end ctx)))"
      unfolding BN_mod_mul_def g Some p(1) Let_def c3_def prod.case option.case ..
    show ?thesis
    proof (cases e1)
      case None
      then show ?thesis using F(4) [OF inside_trans [OF F(2) i3]] ok(4) e1 by (auto simp: D mod_gives_def)
    next
      case s: (Some y)
      obtain e2 r2 c4 where u: "BN_nnmod malloc t m r c3 = (e2, r2, c4)" by (rule prod_cases3)
      note N = nnmod_gives(2) [OF al p(3) ok(3,4) c3 c(3), unfolded u prod.case]
      have "max (bn_width t) (bn_width m) \<le> bn_width a + bn_width b + bn_width m" using p(5) s by auto
      then have "max (bn_width t) (bn_width m) + 5 \<le> 8 * (bn_width a + bn_width b + bn_width m) + 5" by simp
      then have "calm \<Longrightarrow> max (bn_width t) (bn_width m) + 5 \<le> INT_MAX div 256" using small le_trans by blast
      moreover have "ctx_same n ctx (BN_CTX_end c4)"
        using F(4) inside_trans [OF inside_trans [OF F(2) i3] same_inside] N by blast
      ultimately show ?thesis using N p(5) s cc small u by (auto simp: D mod_gives_def)
    qed
  qed
qed


lemma mod_sqr_gives:
  assumes al: "allocator malloc" and ok: "bn_ok a" "bn_ok m" "bn_ok r" and c: "ctx_ok n ctx" "depth (frames ctx) < n" "n < 2 ^ 30"
    and small: "calm \<Longrightarrow> serves malloc \<and> ctx_calm ctx \<and> \<not> bn_static r \<and> 4 * bn_width a + bn_width m + 5 \<le> INT_MAX div 256"
  shows "mod_gives n ctx m calm ((bn_int a)\<^sup>2) (BN_mod_sqr malloc inplace a m r ctx)"
proof -
  obtain e1 r1 c1 where s: "BN_sqr malloc inplace a r ctx = (e1, r1, c1)" by (rule prod_cases3)
  note S = sqr_gives [OF al ok(1,3) c s]
  have e1: "calm \<Longrightarrow> e1 \<noteq> None" using S small by auto
  show ?thesis
  proof (cases e1)
    case None
    then show ?thesis using S e1 by (auto simp: BN_mod_sqr_def s mod_gives_def)
  next
    case (Some y)
    have ok1: "bn_ok r1" and c1: "ctx_ok n c1" "depth (frames c1) < n" using S same_ctx [of n ctx c1] c by auto
    obtain e2 r2 c2 where u: "BN_mod malloc r1 m r1 c1 = (e2, r2, c2)" by (rule prod_cases3)
    note N = nnmod_gives(1) [OF al ok1 ok(2) ok1 c1 c(3), unfolded u prod.case]
    have "0 \<le> bn_int r1" using S Some by simp
    then have v: "sgn (bn_int r1) * (\<bar>bn_int r1\<bar> mod \<bar>bn_int m\<bar>) = (bn_int a)\<^sup>2 mod \<bar>bn_int m\<bar>"
      using S Some by (auto simp: sgn_if)
    have "max (bn_width r1) (bn_width m) \<le> 4 * bn_width a + bn_width m" using S Some by auto
    then have "calm \<Longrightarrow> max (bn_width r1) (bn_width m) + 5 \<le> INT_MAX div 256" using small by linarith
    moreover have "ctx_calm c1 = ctx_calm ctx" using S same_calm by blast
    ultimately have "calm \<and> bn_int m \<noteq> 0 \<Longrightarrow> e2 \<noteq> None" using N S small by auto
    moreover have "ctx_same n ctx c2" using same_trans S N by blast
    moreover have "bn_ok r2" "e2 \<noteq> None \<longrightarrow> bn_int m \<noteq> 0 \<and> bn_canonical r2 \<and> bn_int r2 = (bn_int a)\<^sup>2 mod \<bar>bn_int m\<bar>"
      using N unfolding v by blast+
    ultimately show ?thesis by (simp add: BN_mod_sqr_def mod_gives_def s Some u)
  qed
qed

lemma dup_spec:
  assumes "allocator malloc" "bn_ok m"
  shows "case BN_dup malloc m of None \<Rightarrow> \<not> serves malloc
    | Some c \<Rightarrow> bn_ok c \<and> bn_mag c = bn_mag m \<and> bn_width c = bn_width m"
proof (cases "BN_new malloc")
  case None
  then have "\<not> serves malloc" using malloc_serves [of malloc 24] by (auto simp: BN_new_def split: option.splits)
  then show ?thesis using None by (simp add: BN_dup_def)
next
  case (Some b)
  then have b: "b = BN_init" by (auto simp: BN_new_def split: option.splits)
  obtain e r where x: "BN_copy malloc m BN_init = (e, r)" by (cases "BN_copy malloc m BN_init")
  show ?thesis
  proof (cases e)
    case None
    then have "\<not> serves malloc" using copy_calm [of malloc BN_init m] x assms(2) by (auto simp: bn_ok_def BN_init_def)
    then show ?thesis using None Some x by (simp add: BN_dup_def b)
  next
    case s: (Some y)
    then show ?thesis using copy_spec [OF assms(1,2) BN_init_ok(1) x] Some x by (simp add: BN_dup_def b)
  qed
qed

lemma nonneg_sign: "bn_canonical r \<Longrightarrow> 0 \<le> bn_int r \<Longrightarrow> \<not> neg r \<and> int (bn_mag r) = bn_int r"
  by (auto simp: bn_int_def bn_canonical_def split: if_splits)

lemma mod_lshift_gives:
  assumes al: "allocator malloc" and ok: "bn_ok a" "bn_ok m" "bn_ok r" and c: "ctx_ok n ctx" "depth (frames ctx) < n" "n < 2 ^ 30"
    and small: "calm \<Longrightarrow> serves malloc \<and> ctx_calm ctx \<and> \<not> bn_static r \<and> max (bn_width a) (bn_width m) + 5 \<le> INT_MAX div 256"
  shows "mod_gives n ctx m calm (bn_int a * 2 ^ nat k) (BN_mod_lshift malloc a k m r ctx)"
proof -
  obtain e1 r1 c1 where s: "BN_nnmod malloc a m r ctx = (e1, r1, c1)" by (rule prod_cases3)
  note S = nnmod_gives(2) [OF al ok c, unfolded s prod.case]
  have e1: "calm \<and> bn_int m \<noteq> 0 \<Longrightarrow> e1 \<noteq> None" using S small by simp
  show ?thesis
  proof (cases e1)
    case None
    have "ctx_same n ctx c1" "bn_ok r1" "\<not> (calm \<and> bn_int m \<noteq> 0)" using S e1 None by blast+
    then show ?thesis by (simp add: BN_mod_lshift_def s mod_gives_def None)
  next
    case (Some y)
    have ok1: "bn_ok r1" and c1: "ctx_ok n c1" "depth (frames c1) < n" using S same_ctx [of n ctx c1] c by auto
    have nz: "bn_int m \<noteq> 0" and v: "bn_int r1 = bn_int a mod \<bar>bn_int m\<bar>" using S Some by simp_all
    have nn: "0 \<le> bn_int r1" "bn_int r1 < \<bar>bn_int m\<bar>" unfolding v using nz by simp_all
    have r1: "\<not> neg r1" "int (bn_mag r1) = bn_int r1" using nonneg_sign nn(1) S Some by blast+
    have lt: "bn_mag r1 < bn_mag m" using nn r1(2) mag_abs(1) [of m] by (metis nat_int zless_nat_eq_int_zless)
    define md where "md = (if neg m then map_option (\<lambda>x. x\<lparr>neg := False\<rparr>) (BN_dup malloc m) else Some m)"
    have D: "BN_mod_lshift malloc a k m r ctx = (case md of None \<Rightarrow> (None, r1, c1) | Some x \<Rightarrow> bn_mod_lshift_consttime malloc r1 k x r1 c1)"
      by (simp add: BN_mod_lshift_def s Some md_def split: option.splits)
    have md: "case md of None \<Rightarrow> \<not> calm | Some x \<Rightarrow> bn_ok x \<and> bn_mag x = bn_mag m"
      using dup_spec [OF al ok(2)] ok(2) small by (auto simp: md_def split: option.splits)
    show ?thesis
    proof (cases md)
      case None
      then show ?thesis using md S by (auto simp: D mod_gives_def)
    next
      case m2: (Some x)
      obtain e2 r2 c2 where u: "bn_mod_lshift_consttime malloc r1 k x r1 c1 = (e2, r2, c2)" by (rule prod_cases3)
      have x: "bn_ok x" "bn_mag x = bn_mag m" using md m2 by simp_all
      note L = mod_lshift_spec [OF al ok1 x(1) ok1 lt [folded x(2)] c1 c(3) u]
      have "bn_int r2 = bn_int a * 2 ^ nat k mod \<bar>bn_int m\<bar>" if "e2 \<noteq> None"
      proof -
        have g: "bn_mag r2 = bn_mag r1 * 2 ^ nat k mod bn_mag m" "\<not> neg r2" using L that r1(1) x(2) by auto
        have "int (bn_mag r2) = bn_int r1 * 2 ^ nat k mod int (bn_mag m)" unfolding g(1) r1(2) [symmetric] by (simp add: zmod_int)
        also have "int (bn_mag m) = \<bar>bn_int m\<bar>" by (simp add: mag_abs(1) [of m])
        also have "bn_int r1 * 2 ^ nat k mod \<bar>bn_int m\<bar> = bn_int a * 2 ^ nat k mod \<bar>bn_int m\<bar>" unfolding v by (rule mod_mult_left_eq)
        finally show ?thesis using g(2) by (simp add: bn_int_def)
      qed
      moreover have "e2 \<noteq> None \<Longrightarrow> bn_canonical r2" using L r1(1) by (auto simp: bn_canonical_def)
      moreover have "ctx_same n ctx c2" using same_trans S L by blast
      moreover have "calm \<Longrightarrow> e2 \<noteq> None" using L small S same_calm [of n ctx c1] by auto
      ultimately show ?thesis using L nz by (simp add: D m2 u mod_gives_def)
    qed
  qed
qed

text \<open>C8: \<open>BN_mod_add\<close>, \<open>BN_mod_sub\<close>, \<open>BN_mod_mul\<close>, \<open>BN_mod_sqr\<close>, \<open>BN_mod_lshift1\<close> and \<open>BN_mod_lshift\<close> compute the
  sum, difference, product, square, double and product with a power of two modulo the absolute value of the
  modulus, in the range from zero up to it, for operands of every size and sign, and with no negative zero.
  They leave the context as it was; with a non-zero modulus below the size limit, an allocator that serves and
  no failure pending they succeed, and the multiplication never meets the null pointer.\<close>

theorem bn_mod_arithmetic:
  assumes "allocator malloc" "bn_ok a" "bn_ok b" "bn_ok m" "bn_ok r" "bn_canonical a" "bn_canonical b"
    "ctx_ok n ctx" "depth (frames ctx) + 1 < n" "n < 2 ^ 30"
  defines "gives \<equiv> mod_gives n ctx m (serves malloc \<and> ctx_calm ctx \<and> \<not> bn_static r \<and>
    8 * (bn_width a + bn_width a + bn_width b + bn_width m) + 8 \<le> INT_MAX div 256)"
  shows "gives (bn_int a + bn_int b) (BN_mod_add malloc a b m r ctx) \<and>
    gives (bn_int a - bn_int b) (BN_mod_sub malloc a b m r ctx) \<and>
    (\<exists>x. BN_mod_mul malloc False a b m r ctx = Some x \<and> gives (bn_int a * bn_int b) x) \<and>
    (\<exists>x. BN_mod_mul malloc True a a m r ctx = Some x \<and> gives (bn_int a * bn_int a) x) \<and>
    gives ((bn_int a)\<^sup>2) (BN_mod_sqr malloc inplace a m r ctx) \<and>
    gives (2 * bn_int a) (BN_mod_lshift1 malloc a m r ctx) \<and>
    gives (bn_int a * 2 ^ nat k) (BN_mod_lshift malloc a k m r ctx)"
proof -
  note al = assms(1) and ok = assms(2-5) and can = assms(6,7) and c = assms(8-10)
  have d: "depth (frames ctx) < n" using c(2) by simp
  show ?thesis
    unfolding gives_def BN_mod_add_def BN_mod_sub_def BN_mod_lshift1_def
    by (intro conjI nnmod_after_gives [OF al ok(3) c(1) d c(3) add_gives [OF al ok(1,2,4) can]]
        nnmod_after_gives [OF al ok(3) c(1) d c(3) sub_gives [OF al ok(1,2,4) can]]
        nnmod_after_gives [OF al ok(3) c(1) d c(3) lshift1_gives [OF al ok(1,4) can(1)]]
        mod_mul_gives [OF al ok c] mod_mul_gives [OF al ok(1,1,3,4) c] mod_sqr_gives [OF al ok(1,3,4) c(1) d c(3)]
        mod_lshift_gives [OF al ok(1,3,4) c(1) d c(3)]) auto
qed

theorem bn_mod_arithmetic_witness:
  "let num = (\<lambda>x s. \<lparr>bn_d = [x], bn_width = 1, dmax = 1, neg = s, bn_static = False\<rparr>);
       x = BN_mod_mul zero_alloc False (num 3 True) (num 5 False) (num 7 True) BN_init BN_CTX_init
   in \<exists>r ctx. x = Some (Some (), r, ctx) \<and> bn_int r = 6"
proof -
  let ?num = "\<lambda>x s. \<lparr>bn_d = [x], bn_width = 1, dmax = 1, neg = s, bn_static = False\<rparr>"
  let ?a = "?num 3 True" and ?b = "?num 5 False" and ?m = "?num 7 True"
  have v: "bn_int ?a = - 3" "bn_int ?b = 5" "bn_int ?m = - 7" by (simp_all add: bn_int_def bn_mag_def)
  have ok: "bn_ok ?a" "bn_ok ?b" "bn_ok ?m" "bn_canonical ?a" "bn_canonical ?b" "depth (frames BN_CTX_init) + 1 < 2" "ctx_calm BN_CTX_init"
    "\<not> bn_static BN_init" "8 * (bn_width ?a + bn_width ?a + bn_width ?b + bn_width ?m) + 8 \<le> INT_MAX div 256" "(2 :: nat) < 2 ^ 30"
    by (simp_all add: bn_ok_def INT_MAX_def BN_CTX_init_def ctx_calm_def BN_init_def bn_canonical_def bn_mag_def)
  obtain x where x: "BN_mod_mul zero_alloc False ?a ?b ?m BN_init BN_CTX_init = Some x"
    and g: "mod_gives 2 BN_CTX_init ?m (serves zero_alloc \<and> ctx_calm BN_CTX_init \<and> \<not> bn_static BN_init \<and>
      8 * (bn_width ?a + bn_width ?a + bn_width ?b + bn_width ?m) + 8 \<le> INT_MAX div 256) (bn_int ?a * bn_int ?b) x"
    using bn_mod_arithmetic [OF allocator_zero_alloc ok(1-3) BN_init_ok(1) ok(4,5) new_ctx_ok ok(6,10)] by blast
  obtain e r c where y: "x = (e, r, c)" by (rule prod_cases3)
  have "e \<noteq> None \<and> bn_int r = (- 3 * 5) mod \<bar>- 7\<bar>" using g ok(7-9) serves_zero_alloc unfolding mod_gives_def y prod.case v by auto
  then have "e = Some () \<and> bn_int r = 6" by simp
  then show ?thesis using x y by simp
qed

end
