(* ===== verification/BnPow2.thy ===== *)
theory BnPow2
  imports BnModular
begin

text \<open>
  The rest of \<open>crypto/fipsmodule/bn/div.c\<close>: division and remainder by a word (\<open>BN_div_word\<close>, \<open>BN_mod_word\<close>), by
  a power of two (\<open>BN_mod_pow2\<close>, \<open>BN_nnmod_pow2\<close>), and the binary long division \<open>bn_div_consttime\<close>.
\<close>

section \<open>Words\<close>

text \<open>\<open>i\<close> words from the bottom are still to be divided.\<close>

primrec div_word_loop :: "nat \<Rightarrow> u64 \<Rightarrow> u64 list \<Rightarrow> u64 \<Rightarrow> u64 \<times> u64 list" where
  "div_word_loop 0 w d acc = (acc, d)"
| "div_word_loop (Suc i) w d acc =
     (let l = d ! i; q = fst (bn_div_rem_words acc l w) in div_word_loop i w (d[i := q]) (l - q * w))"

definition BN_div_word :: "(nat \<Rightarrow> byte list option) \<Rightarrow> BIGNUM \<Rightarrow> u64 \<Rightarrow> u64 \<times> BIGNUM" where
  "BN_div_word malloc a w =
     (if w = 0 then (- 1, a)
      else if bn_width a = 0 then (0, a)
      else
        (let j = 64 - BN_num_bits_word w; w = push_bit j w
         in case BN_lshift malloc a (int j) a of
              (None, a) \<Rightarrow> (- 1, a)
            | (Some _, a) \<Rightarrow>
                (case div_word_loop (bn_width a) w (bn_d a) 0 of
                   (r, d) \<Rightarrow> (drop_bit j r, bn_set_minimal_width (a\<lparr>bn_d := d\<rparr>)))))"

definition mod_word_step :: "u64 \<Rightarrow> u64 \<Rightarrow> u128 \<Rightarrow> u128" where
  "mod_word_step w l r = (push_bit 64 r OR ucast l) mod ucast w"

definition BN_mod_word :: "BIGNUM \<Rightarrow> u64 \<Rightarrow> u64" where
  "BN_mod_word a w =
     (if w = 0 then - 1 else ucast (fold (mod_word_step w) (rev (take (bn_width a) (bn_d a))) 0))"

section \<open>Powers of two\<close>

text \<open>The bits of the last of \<open>n\<close> words above those of a number of \<open>e\<close> bits are cleared.\<close>

definition mask_top :: "size_t \<Rightarrow> size_t \<Rightarrow> u64 list \<Rightarrow> u64 list" where
  "mask_top e n d = (if e mod 64 \<noteq> 0 then d[n - 1 := d ! (n - 1) AND (push_bit (e mod 64) 1 - 1)] else d)"

definition BN_mod_pow2 :: "(nat \<Rightarrow> byte list option) \<Rightarrow> BIGNUM \<Rightarrow> size_t \<Rightarrow> (BIGNUM, unit) op" where
  "BN_mod_pow2 malloc a e r =
     (if e = 0 \<or> bn_width a = 0 then (Some (), BN_zero r)
      else
        (let num_words = 1 + (e - 1) div 64
         in if bn_width a < num_words then BN_copy malloc a r
            else andthen (bn_wexpand malloc num_words) (\<lambda>_ r.
                   (Some (), bn_set_minimal_width
                      (r\<lparr>bn_d := mask_top e num_words (splice 0 (take num_words (bn_d a)) (bn_d r)),
                         neg := neg a, bn_width := num_words\<rparr>))) r))"

definition BN_nnmod_pow2 :: "(nat \<Rightarrow> byte list option) \<Rightarrow> BIGNUM \<Rightarrow> size_t \<Rightarrow> (BIGNUM, unit) op" where
  "BN_nnmod_pow2 malloc a e =
     andthen (BN_mod_pow2 malloc a e) (\<lambda>_ r.
       if BN_is_zero r \<or> \<not> neg r then (Some (), r)
       else
         (let num_words = 1 + (e - 1) div 64
          in andthen (bn_wexpand malloc num_words) (\<lambda>_ r.
               let d = splice (bn_width r) (replicate (num_words - bn_width r) 0) (bn_d r);
                   d = splice 0 (map NOT (take num_words d)) d;
                   r = bn_set_minimal_width (r\<lparr>neg := False, bn_width := num_words, bn_d := mask_top e num_words d\<rparr>)
               in BN_add malloc r BN_value_one r) r))"

section \<open>Binary long division\<close>

text \<open>One bit of the numerator: bit \<open>bit\<close> of word \<open>i\<close>. The remainder has \<open>n\<close> words.\<close>

definition div_bit_step :: "u64 list \<Rightarrow> u64 list \<Rightarrow> size_t \<Rightarrow> nat \<Rightarrow> nat \<Rightarrow> u64 list \<times> u64 list \<Rightarrow> u64 list \<times> u64 list" where
  "div_bit_step num dv n i bit_no = (\<lambda>(q, r).
     (case bn_add_words r r n of (r, carry) \<Rightarrow>
        let r = r[0 := r ! 0 OR (drop_bit bit_no (num ! i) AND 1)]
        in case bn_sub_words r dv n of (tmp, borrow) \<Rightarrow>
             let carry = carry - borrow
             in (q[i := q ! i OR push_bit bit_no (NOT carry AND 1)], bn_select_words carry r tmp n)))"

definition div_bits :: "u64 list \<Rightarrow> u64 list \<Rightarrow> size_t \<Rightarrow> size_t \<Rightarrow> u64 list \<times> u64 list" where
  "div_bits num dv w n =
     fold (\<lambda>i. fold (div_bit_step num dv n i) (rev [0 ..< 64])) (rev [0 ..< w]) (replicate w 0, replicate n 0)"

text \<open>The number a result is written to: \<open>own\<close> says that the result is given and is not an operand, otherwise
  a temporary is taken.\<close>

definition div_target :: "(nat \<Rightarrow> byte list option) \<Rightarrow> bool \<Rightarrow> BIGNUM option \<Rightarrow> BN_CTX \<Rightarrow> (BIGNUM \<times> nat option) option \<times> BN_CTX" where
  "div_target malloc own res ctx =
     (case res of
        Some r \<Rightarrow>
          if own then (Some (r, None), ctx)
          else (case BN_CTX_get malloc ctx of (None, ctx) \<Rightarrow> (None, ctx) | (Some k, ctx) \<Rightarrow> (Some (ctx_val ctx k, Some k), ctx))
      | None \<Rightarrow> (case BN_CTX_get malloc ctx of (None, ctx) \<Rightarrow> (None, ctx) | (Some k, ctx) \<Rightarrow> (Some (ctx_val ctx k, Some k), ctx)))"

definition keep_target :: "nat option \<Rightarrow> BIGNUM \<Rightarrow> BIGNUM option \<Rightarrow> BN_CTX \<Rightarrow> BIGNUM option \<times> BN_CTX" where
  "keep_target k x res ctx = (case k of None \<Rightarrow> (Some x, ctx) | Some k \<Rightarrow> (res, ctx_put k x ctx))"

definition copy_result :: "(nat \<Rightarrow> byte list option) \<Rightarrow> nat option \<Rightarrow> BIGNUM \<Rightarrow> BIGNUM option \<Rightarrow> unit option \<times> BIGNUM option" where
  "copy_result malloc k x res =
     (case res of
        None \<Rightarrow> (Some (), None)
      | Some r \<Rightarrow> (case k of None \<Rightarrow> (Some (), Some r) | Some _ \<Rightarrow> (case BN_copy malloc x r of (e, r) \<Rightarrow> (e, Some r))))"

definition div_consttime_body :: "(nat \<Rightarrow> byte list option) \<Rightarrow> BIGNUM \<Rightarrow> BIGNUM \<Rightarrow> BIGNUM \<Rightarrow> BIGNUM \<Rightarrow> BIGNUM \<Rightarrow> unit option \<times> BIGNUM \<times> BIGNUM \<times> BIGNUM" where
  "div_consttime_body malloc num dv q r tmp =
     (case bn_wexpand malloc (bn_width num) q of
        (None, q) \<Rightarrow> (None, q, r, tmp)
      | (Some _, q) \<Rightarrow>
          (case bn_wexpand malloc (bn_width dv) r of
             (None, r) \<Rightarrow> (None, q, r, tmp)
           | (Some _, r) \<Rightarrow>
               (case bn_wexpand malloc (bn_width dv) tmp of
                  (None, tmp) \<Rightarrow> (None, q, r, tmp)
                | (Some _, tmp) \<Rightarrow>
                    (case div_bits (bn_d num) (bn_d dv) (bn_width num) (bn_width dv) of
                       (qs, rs) \<Rightarrow>
                         (Some (), q\<lparr>bn_d := splice 0 qs (bn_d q), bn_width := bn_width num, neg := False\<rparr>,
                          r\<lparr>bn_d := splice 0 rs (bn_d r), bn_width := bn_width dv, neg := False\<rparr>, tmp)))))"

definition bn_div_consttime :: "(nat \<Rightarrow> byte list option) \<Rightarrow> bool \<Rightarrow> bool \<Rightarrow> BIGNUM option \<Rightarrow> BIGNUM option \<Rightarrow> BIGNUM \<Rightarrow> BIGNUM \<Rightarrow> BN_CTX \<Rightarrow>
    unit option \<times> BIGNUM option \<times> BIGNUM option \<times> BN_CTX" where
  "bn_div_consttime malloc q_own r_own quot rem num dv ctx =
     (if neg num \<or> neg dv then (None, quot, rem, ctx)
      else if BN_is_zero dv then (None, quot, rem, ctx)
      else
        (case div_target malloc q_own quot (BN_CTX_start malloc ctx) of (q, ctx) \<Rightarrow>
         case div_target malloc r_own rem ctx of (r, ctx) \<Rightarrow>
         case BN_CTX_get malloc ctx of (tmp, ctx) \<Rightarrow>
         case (q, r, tmp) of
           (Some (qv, qk), Some (rv, rk), Some t) \<Rightarrow>
             (case div_consttime_body malloc num dv qv rv (ctx_val ctx t) of
                (e, qv, rv, tv) \<Rightarrow>
                  (case keep_target qk qv quot (ctx_put t tv ctx) of (quot, ctx) \<Rightarrow>
                   case keep_target rk rv rem ctx of (rem, ctx) \<Rightarrow>
                   case e of
                     None \<Rightarrow> (None, quot, rem, BN_CTX_end ctx)
                   | Some _ \<Rightarrow>
                       (case copy_result malloc qk qv quot of
                          (None, quot) \<Rightarrow> (None, quot, rem, BN_CTX_end ctx)
                        | (Some _, quot) \<Rightarrow> (case copy_result malloc rk rv rem of (e, rem) \<Rightarrow> (e, quot, rem, BN_CTX_end ctx)))))
         | _ \<Rightarrow> (None, quot, rem, BN_CTX_end ctx)))"

section \<open>Words: correctness\<close>

lemma div_word_loop_val:
  "unat acc < unat w \<Longrightarrow> i \<le> length d \<Longrightarrow> div_word_loop i w d acc = (r, d') \<Longrightarrow>
    unat r < unat w \<and> length d' = length d \<and> drop i d' = drop i d \<and>
    unat acc * 2 ^ (64 * i) + bn_part i d = bn_part i d' * unat w + unat r"
proof (induction i arbitrary: d acc)
  case 0
  then show ?case by simp
next
  case (Suc i)
  define l where "l = d ! i"
  obtain q rm where q: "bn_div_rem_words acc l w = (q, rm)" by (cases "bn_div_rem_words acc l w")
  have D: "unat acc * 2 ^ 64 + unat l = unat q * unat w + unat rm" "unat rm < unat w"
    using div_rem_words [OF _ q] Suc.prems(1) by (simp_all add: word_less_nat_alt)
  have rm: "rm = l - q * w" using q by (auto simp: bn_div_rem_words_def Let_def)
  have u: "div_word_loop i w (d[i := q]) rm = (r, d')" using Suc.prems(3) by (simp add: Let_def l_def [symmetric] q rm)
  have il: "i \<le> length (d[i := q])" "i < length d" using Suc.prems(2) by simp_all
  note IH = Suc.IH [OF D(2) il(1) u]
  have dd: "drop i d' = q # drop (Suc i) d" using IH il(2) by (simp add: Cons_nth_drop_Suc [symmetric])
  have "d' ! i = q" using dd il(2) IH by (metis hd_drop_conv_nth length_list_update list.sel(1))
  moreover have "drop (Suc i) d' = drop (Suc i) d" using dd by (metis drop_Suc list.sel(3) tl_drop)
  ultimately have tail: "drop (Suc i) d' = drop (Suc i) d" "bn_part (Suc i) d' = bn_part i d' + 2 ^ (64 * i) * unat q"
    using part_Suc [of i d'] IH il(2) by simp_all
  have pd: "bn_part (Suc i) d = bn_part i d + 2 ^ (64 * i) * unat l" using part_Suc [of i d] il(2) by (simp add: l_def)
  have pi: "bn_part i (d[i := q]) = bn_part i d" by simp
  have pw: "(2 :: nat) ^ (64 * Suc i) = 2 ^ (64 * i) * 2 ^ 64" by (simp add: power_add)
  have "unat acc * 2 ^ (64 * Suc i) + bn_part (Suc i) d = 2 ^ (64 * i) * (unat acc * 2 ^ 64 + unat l) + bn_part i d"
    unfolding pd pw by (simp only: distrib_left mult_ac add_ac)
  also have "\<dots> = 2 ^ (64 * i) * (unat q * unat w) + (unat rm * 2 ^ (64 * i) + bn_part i d)"
    unfolding D(1) by (simp only: distrib_left distrib_right mult_ac add_ac)
  also have "unat rm * 2 ^ (64 * i) + bn_part i d = bn_part i d' * unat w + unat r" using IH unfolding pi by blast
  finally have "unat acc * 2 ^ (64 * Suc i) + bn_part (Suc i) d = bn_part (Suc i) d' * unat w + unat r"
    unfolding tail(2) by (simp only: distrib_right distrib_left mult_ac add_ac)
  then show ?case using IH tail(1) by simp
qed


lemma divided_scaled:
  fixes N D Q S K :: nat
  assumes "N * K = Q * (D * K) + S" "S < D * K"
  shows "Q = N div D \<and> S = N mod D * K"
proof -
  have K: "0 < K" using assms(2) by (cases K) simp_all
  have "N * K div (D * K) = Q" "N * K mod (D * K) = S" using assms by (simp_all add: div_nat_eqI mod_nat_eqI mult.commute [of Q])
  then show ?thesis using K by (simp_all add: mult_mod_left)
qed

lemma div_word_spec:
  assumes al: "allocator malloc" and ok: "bn_ok a" and w: "w \<noteq> 0" and u: "BN_div_word malloc a w = (r, a')"
  shows "bn_ok a' \<and> (r \<noteq> - 1 \<longrightarrow> unat r = bn_mag a mod unat w \<and> bn_mag a' = bn_mag a div unat w \<and> neg a' = (neg a \<and> (bn_width a = 0 \<or> bn_mag a' \<noteq> 0))) \<and>
    (serves malloc \<and> \<not> bn_static a \<and> bn_width a + 1 \<le> INT_MAX div 256 \<longrightarrow> r \<noteq> - 1)"
proof (cases "bn_width a = 0")
  case True
  then have "r = 0" "a' = a" using u w by (simp_all add: BN_div_word_def)
  moreover have "bn_mag a = 0" using True by (simp add: bn_mag_def)
  ultimately show ?thesis using ok True by simp
next
  case False
  define k where "k = BN_num_bits_word w"
  have k: "0 < k" "2 ^ (k - 1) \<le> unat w" "unat w < 2 ^ k" using num_bits_word [OF w] by (simp_all add: k_def)
  have "(2 :: nat) ^ (k - 1) < 2 ^ 64" using k(2) u64_less [of w] by (rule le_less_trans)
  then have k64: "k \<le> 64" using power_less_imp_less_exp [of "2 :: nat" "k - 1" 64] by linarith
  define j where "j = 64 - k"
  have j: "j < 64" using k(1) by (simp add: j_def)
  have "unat w * 2 ^ j < 2 ^ k * 2 ^ j" using k(3) by simp
  also have "(2 :: nat) ^ k * 2 ^ j = 2 ^ 64" using k64 by (simp add: j_def power_add [symmetric])
  finally have lt: "unat w * 2 ^ j < 2 ^ 64" .
  have "unat (push_bit j w) = take_bit 64 (push_bit j (unat w))" by (simp add: unsigned_push_bit_eq)
  then have wj: "unat (push_bit j w) = unat w * 2 ^ j" using lt by (simp add: push_bit_eq_mult [of j "unat w"] take_bit_nat_eq_self)
  obtain e b where x: "BN_lshift malloc a (int j) a = (e, b)" by (cases "BN_lshift malloc a (int j) a")
  have b: "bn_ok b" by (rule lshift_ok [OF al ok ok x])
  note L = lshift_spec [OF al ok ok x]
  have j0: "j div 64 = 0" using j by simp
  have calm: "serves malloc \<and> \<not> bn_static a \<and> bn_width a + 1 \<le> INT_MAX div 256 \<longrightarrow> e \<noteq> None"
    using lshift_calm [of malloc a a j] x unfolding j0 by auto
  note U = u [unfolded BN_div_word_def if_not_P [OF w] if_not_P [OF False] Let_def, folded k_def, folded j_def, unfolded x prod.case]
  show ?thesis
  proof (cases e)
    case None
    then show ?thesis using U b calm by auto
  next
    case (Some y)
    obtain r1 d where l: "div_word_loop (bn_width b) (push_bit j w) (bn_d b) 0 = (r1, d)" by (cases "div_word_loop (bn_width b) (push_bit j w) (bn_d b) 0")
    have r: "r = drop_bit j r1" "a' = bn_set_minimal_width (b\<lparr>bn_d := d\<rparr>)" using U Some l by simp_all
    have pos: "unat (0 :: u64) < unat (push_bit j w)" unfolding wj using w by (simp add: unat_gt_0)
    note V = div_word_loop_val [OF pos bn_okD(1) [OF b] l]
    have bm: "bn_mag b = bn_mag a * 2 ^ j" "neg b = (neg a \<and> bn_mag a \<noteq> 0)" using L Some by (simp_all add: push_bit_eq_mult)
    have "bn_mag a * 2 ^ j = bn_part (bn_width b) d * (unat w * 2 ^ j) + unat r1" "unat r1 < unat w * 2 ^ j"
      using V unfolding wj bm(1) [symmetric] by (simp_all add: bn_mag_def)
    note Q = divided_scaled [OF this]
    have b2: "bn_ok (b\<lparr>bn_d := d\<rparr>)" "bn_mag (b\<lparr>bn_d := d\<rparr>) = bn_mag a div unat w" "neg (b\<lparr>bn_d := d\<rparr>) = neg b"
      using V b Q by (simp_all add: bn_ok_def bn_mag_def)
    note M = set_minimal_width [OF b2(1)]
    have rv: "unat r = bn_mag a mod unat w" unfolding r(1) unat_drop_bit_eq using Q by (simp add: drop_bit_eq_div)
    have "bn_mag a mod unat w < unat w" using w by (simp add: unat_gt_0)
    then have "unat r < 2 ^ 64 - 1" unfolding rv using u64_less [of w] by simp
    moreover have "unat (- 1 :: u64) = 2 ^ 64 - 1" by (simp add: unsigned_minus_1_eq_mask mask_eq_exp_minus_1)
    ultimately have "r \<noteq> - 1" by (metis less_irrefl)
    moreover have "bn_mag a' \<noteq> 0 \<Longrightarrow> bn_mag a \<noteq> 0" using M b2(2) unfolding r(2) [symmetric] by (cases "bn_mag a = 0") simp_all
    ultimately show ?thesis using M b2 bm(2) rv False unfolding r(2) [symmetric] by auto
  qed
qed

lemma mod_word_step_val:
  assumes "unat acc < unat w"
  shows "unat (mod_word_step w l acc) = (unat acc * 2 ^ 64 + unat l) mod unat w"
proof -
  have "unat acc < 2 ^ 64" using assms u64_less [of w] by simp
  then have "acc = ucast (ucast acc :: u64)"
    by (intro word_unat_eq_iff [THEN iffD2]) (simp add: unsigned_ucast_eq unsigned_take_bit_eq take_bit_nat_eq_self)
  moreover from \<open>unat acc < 2 ^ 64\<close> have "unat (ucast acc :: u64) = unat acc" by (simp add: unsigned_ucast_eq take_bit_nat_eq_self)
  ultimately show ?thesis using join_words [of "ucast acc" l] by (simp add: mod_word_step_def unat_mod)
qed

lemma mod_word_fold:
  assumes "w \<noteq> 0"
  shows "unat (fold (mod_word_step w) (rev ws) 0) = bn_val ws mod unat w"
proof (induction ws)
  case (Cons l ws)
  define acc where "acc = fold (mod_word_step w) (rev ws) 0"
  have a: "unat acc = bn_val ws mod unat w" using Cons.IH by (simp add: acc_def)
  have "unat acc < unat w" unfolding a using assms by (simp add: unat_gt_0)
  then have "unat (mod_word_step w l acc) = (bn_val ws mod unat w * 2 ^ 64 + unat l) mod unat w"
    using mod_word_step_val a by simp
  also have "\<dots> = (bn_val ws * 2 ^ 64 + unat l) mod unat w" by (metis mod_add_left_eq mod_mult_left_eq)
  finally show ?case by (simp add: acc_def mult.commute add.commute)
qed simp

lemma mod_word_val: "w \<noteq> 0 \<Longrightarrow> unat (BN_mod_word a w) = bn_mag a mod unat w"
proof -
  assume w: "w \<noteq> 0"
  have "bn_mag a mod unat w < 2 ^ 64" using w u64_less [of w] by (intro less_trans [OF mod_less_divisor]) (simp_all add: unat_gt_0)
  then show ?thesis using w mod_word_fold [OF w, of "take (bn_width a) (bn_d a)"]
    by (simp add: BN_mod_word_def bn_mag_def unsigned_ucast_eq take_bit_nat_eq_self)
qed

section \<open>Powers of two: correctness\<close>

lemma mask_top_val:
  assumes "0 < e" "n = 1 + (e - 1) div 64" "n \<le> length d"
  shows "bn_part n (mask_top e n d) = take_bit e (bn_part n d)" "length (mask_top e n d) = length d"
proof -
  show "length (mask_top e n d) = length d" by (simp add: mask_top_def)
  define b where "b = e mod 64"
  show "bn_part n (mask_top e n d) = take_bit e (bn_part n d)"
  proof (cases "b = 0")
    case True
    then obtain m where m: "e = 64 * m" unfolding b_def by (metis mod_0_imp_dvd dvd_def)
    then have "e - 1 = 63 + 64 * (m - 1)" using assms(1) by simp
    then have "(e - 1) div 64 = m - 1" by simp
    then have "e = 64 * n" using m assms(1,2) by simp
    then have "bn_part n d < 2 ^ e" using bn_part_less [of n d] by simp
    then show ?thesis using True by (simp add: mask_top_def b_def take_bit_nat_eq_self)
  next
    case False
    have b: "b < 64" "0 < b" using False by (simp_all add: b_def)
    have "e = b + 64 * (e div 64)" by (simp add: b_def)
    then have "e - 1 = (b - 1) + 64 * (e div 64)" using b(2) by linarith
    then have "(e - 1) div 64 = e div 64" using b by simp
    then have e: "e = 64 * (n - 1) + b" using assms(2) by (simp add: b_def)
    have "bn_part n (d[n - 1 := d ! (n - 1) AND (push_bit b 1 - 1)]) = take_bit e (bn_part n d)"
    proof (rule part_change_word)
      fix m :: nat
      assume m: "m < 64"
      have "64 * (n - 1) + m < e \<longleftrightarrow> m < b" using e by simp
      moreover have "push_bit b 1 - 1 = (mask b :: u64)" by (simp add: push_bit_eq_mult mask_eq_exp_minus_1)
      ultimately show "bit (d ! (n - 1) AND (push_bit b 1 - 1)) m \<longleftrightarrow> bit (take_bit e (bn_part n d)) (64 * (n - 1) + m)"
        using bit_part_at [OF assms(3) m, of "n - 1"] assms(2) m by (auto simp: bit_take_bit_iff bit_and_iff bit_mask_iff)
    next
      fix q m :: nat
      assume m: "m < 64" "q \<noteq> n - 1"
      show "bit (take_bit e (bn_part n d)) (64 * q + m) \<longleftrightarrow> bit (bn_part n d) (64 * q + m)"
      proof (cases "q < n")
        case True
        then have "q + 1 \<le> n - 1" using m(2) by simp
        then have "64 * q + m < e" using m(1) e by linarith
        then show ?thesis by (simp add: bit_take_bit_iff)
      next
        case False
        then have "\<not> bit (bn_part n d) (64 * q + m)" using bit_part_at [OF assms(3) m(1)] by simp
        then show ?thesis by (simp add: bit_take_bit_iff)
      qed
    qed (use assms in simp_all)
    then show ?thesis using False by (simp add: mask_top_def b_def)
  qed
qed

lemma not_words_val: "bn_val (map NOT ws) + bn_val ws + 1 = 2 ^ (64 * length ws)"
proof (induction ws)
  case (Cons w ws)
  have "unat (NOT w) + unat w + 1 = 2 ^ 64"
  proof -
    have "uint (NOT w) = 2 ^ 64 - 1 - uint w"
      using u64_bounds [of w] by (simp add: unsigned_not_eq take_bit_not_eq_mask_diff mask_eq_exp_minus_1 take_bit_int_eq_self)
    then have "int (unat (NOT w) + unat w + 1) = int (2 ^ 64)" by simp
    then show ?thesis by (simp only: of_nat_eq_iff)
  qed
  moreover have "(2 :: nat) ^ 64 * (bn_val (map NOT ws) + bn_val ws + 1) = 2 ^ 64 * 2 ^ (64 * length ws)" using Cons.IH by (rule arg_cong)
  moreover have "(2 :: nat) ^ (64 * length (w # ws)) = 2 ^ 64 * 2 ^ (64 * length ws)" by (simp add: power_add)
  ultimately show ?case by (simp only: list.map bn_val.simps distrib_left)
qed simp


lemma mod_pow2_spec:
  assumes al: "allocator malloc" and ok: "bn_ok a" "bn_ok r" and can: "bn_canonical a" and u: "BN_mod_pow2 malloc a e r = (res, r')"
  shows "bn_ok r' \<and> bn_static r' = bn_static r \<and>
    (res \<noteq> None \<longrightarrow> bn_mag r' = bn_mag a mod 2 ^ e \<and> neg r' = (neg a \<and> bn_mag r' \<noteq> 0) \<and> bn_width r' \<le> 1 + (e - 1) div 64) \<and>
    (serves malloc \<and> \<not> bn_static r \<longrightarrow> res \<noteq> None)"
proof (cases "e = 0 \<or> bn_width a = 0")
  case True
  then have r: "res = Some ()" "r' = BN_zero r" using u by (simp_all add: BN_mod_pow2_def)
  have "bn_mag a mod 2 ^ e = 0" using True by (auto simp: bn_mag_def)
  then show ?thesis unfolding r using ok(2) by (simp add: BN_zero_def bn_ok_def bn_mag_def)
next
  case False
  define n where "n = 1 + (e - 1) div 64"
  have e: "0 < e" using False by simp
  have lim: "bn_width a \<le> INT_MAX div 256" using ok(1) by (simp add: bn_ok_def)
  note U = u [unfolded BN_mod_pow2_def if_not_P [OF False] Let_def, folded n_def]
  show ?thesis
  proof (cases "bn_width a < n")
    case True
    have c: "BN_copy malloc a r = (res, r')" using U True by simp
    have "64 * bn_width a \<le> e"
    proof -
      have "bn_width a \<le> (e - 1) div 64" using True by (simp add: n_def)
      then have "64 * bn_width a \<le> 64 * ((e - 1) div 64)" by simp
      then show ?thesis using e by linarith
    qed
    then have "bn_mag a < 2 ^ e" using less_le_trans [OF bn_mag_less power_increasing [of _ e "2 :: nat"]] by simp
    then show ?thesis using copy_spec [OF al ok c] static_copy [OF c] ok(2) can True copy_calm [of malloc r a] lim c
      by (cases res) (auto simp: bn_canonical_def n_def)
  next
    case wide: False
    obtain e1 b where x: "bn_wexpand malloc n r = (e1, b)" by (cases "bn_wexpand malloc n r")
    note W = wexpand_ok [OF al ok(2) x] and S = static_wexpand [OF x]
    have calm: "serves malloc \<and> \<not> bn_static r \<longrightarrow> e1 \<noteq> None" using wexpand_serves [of malloc n r] x wide lim by auto
    show ?thesis
    proof (cases e1)
      case None
      then have "res = None" "r' = b" using U wide x by (simp_all add: andthen_def)
      then show ?thesis using W S calm None by auto
    next
      case (Some y)
      define d where "d = splice 0 (take n (bn_d a)) (bn_d b)"
      define c where "c = b\<lparr>bn_d := mask_top e n d, neg := neg a, bn_width := n\<rparr>"
      have r: "res = Some ()" "r' = bn_set_minimal_width c" using U wide x Some by (simp_all add: andthen_def c_def d_def)
      have nl: "n \<le> length (bn_d b)" "n \<le> length (bn_d a)" using W Some bn_okD [OF ok(1)] wide by (simp_all add: bn_ok_def)
      have d: "length d = length (bn_d b)" "take n d = take n (bn_d a)"
        using nl by (simp_all add: d_def splice_def)
      note M = mask_top_val [OF e n_def, of d]
      have "bn_ok c" "neg c = neg a" using W Some d(1) M(2) nl by (simp_all add: c_def bn_ok_def)
      moreover have "bn_mag c = bn_mag a mod 2 ^ e"
      proof -
        have "bn_mag c = take_bit e (bn_part n (bn_d a))" using M(1) nl d by (simp add: c_def bn_mag_def)
        also have "\<dots> = take_bit e (bn_part (bn_width a) (bn_d a))"
        proof -
          have "bn_part (bn_width a) (bn_d a) = bn_part n (bn_d a) + 2 ^ (64 * n) * bn_val (drop n (take (bn_width a) (bn_d a)))"
            using part_split [of n "bn_width a" "bn_d a"] wide bn_okD [OF ok(1)] by simp
          moreover have "e \<le> 64 * n" using e by (simp add: n_def)
          then have "(2 :: nat) ^ e dvd 2 ^ (64 * n)" by (rule le_imp_power_dvd)
          then have "2 ^ (64 * n) * bn_val (drop n (take (bn_width a) (bn_d a))) mod 2 ^ e = 0" by simp
          ultimately show ?thesis unfolding take_bit_eq_mod by (metis add_0_right mod_add_right_eq)
        qed
        finally show ?thesis by (simp add: bn_mag_def take_bit_eq_mod)
      qed
      moreover have "bn_width c = n" "bn_static c = bn_static r" using S by (simp_all add: c_def)
      ultimately show ?thesis using set_minimal_width [of c] static_minimal [of c] unfolding r n_def [symmetric] by simp
    qed
  qed
qed


lemma complement_pow2:
  assumes "0 < x" "x < 2 ^ e" "e \<le> k"
  shows "take_bit e (2 ^ k - 1 - x :: nat) = 2 ^ e - 1 - x"
proof -
  have "(2 :: nat) ^ k = 2 ^ e * 2 ^ (k - e)" using assms(3) by (simp add: power_add [symmetric])
  moreover define c :: nat where "c = 2 ^ (k - e) - 1"
  then have "2 ^ (k - e) = c + 1" by simp
  ultimately have "2 ^ k - 1 - x = 2 ^ e * c + (2 ^ e - 1 - x)" using assms(2) by simp
  moreover have "2 ^ e - 1 - x < 2 ^ e" by simp
  ultimately show ?thesis by (simp add: take_bit_eq_mod)
qed

lemma value_one: "bn_ok BN_value_one" "bn_canonical BN_value_one" "bn_int BN_value_one = 1" "bn_width BN_value_one = 1"
  by (simp_all add: BN_value_one_def bn_ok_def bn_canonical_def bn_int_def bn_mag_def INT_MAX_def)

lemma nnmod_pow2_gives:
  assumes al: "allocator malloc" and ok: "bn_ok a" "bn_ok r" and can: "bn_canonical a"
  shows "op_gives malloc r (3 + (e - 1) div 64) (bn_int a mod 2 ^ e) (BN_nnmod_pow2 malloc a e r)"
proof -
  define n where "n = 1 + (e - 1) div 64"
  obtain e1 r1 where x: "BN_mod_pow2 malloc a e r = (e1, r1)" by (cases "BN_mod_pow2 malloc a e r")
  note P = mod_pow2_spec [OF al ok can x]
  have r1: "bn_ok r1" "bn_static r1 = bn_static r" using P by simp_all
  show ?thesis
  proof (cases "e1 = None \<or> BN_is_zero r1 \<or> \<not> neg r1")
    case True
    have u: "BN_nnmod_pow2 malloc a e r = (e1, r1)"
    proof (cases e1)
      case (Some y)
      then have z: "BN_is_zero r1 \<or> \<not> neg r1" using True by simp
      show ?thesis unfolding BN_nnmod_pow2_def andthen_def [of "BN_mod_pow2 malloc a e"] x prod.case Some option.case if_P [OF z] by simp
    qed (simp add: BN_nnmod_pow2_def andthen_def [of "BN_mod_pow2 malloc a e"] x)
    have "bn_int r1 = bn_int a mod 2 ^ e" if "e1 \<noteq> None"
    proof (cases "bn_mag r1 = 0")
      case True
      then have "bn_mag a mod 2 ^ e = 0" using P that by simp
      then have "int (bn_mag a mod 2 ^ e) = 0" by simp
      then have "int (bn_mag a) mod 2 ^ e = 0" by (simp add: zmod_int)
      then have "bn_int a mod 2 ^ e = 0" by (simp add: bn_int_def zmod_zminus1_eq_if)
      then show ?thesis using True by (simp add: bn_int_def)
    next
      case False
      have m: "bn_mag r1 = bn_mag a mod 2 ^ e" "neg r1 = neg a" using P that False by auto
      have "\<not> neg r1" using True that False is_zero_mag [OF r1(1)] by simp
      then show ?thesis using m by (simp add: bn_int_def zmod_int)
    qed
    then show ?thesis using P by (auto simp: u op_gives_def bn_canonical_def)
  next
    case False
    then have e1: "e1 = Some ()" and nz: "bn_mag r1 \<noteq> 0" and ng: "neg r1" using is_zero_mag [OF r1(1)] by auto
    define X where "X = bn_mag r1"
    have X: "X = bn_mag a mod 2 ^ e" "0 < X" "X < 2 ^ e" "neg a" using P e1 nz ng by (auto simp: X_def)
    have e: "0 < e" using X by (cases e) simp_all
    have en: "e \<le> 64 * n" using e by (simp add: n_def)
    have w1: "bn_width r1 \<le> n" using P e1 by (simp add: n_def)
    obtain e2 r2 where y: "bn_wexpand malloc n r1 = (e2, r2)" by (cases "bn_wexpand malloc n r1")
    note W = wexpand_ok [OF al r1(1) y] and S = static_wexpand [OF y]
    define d1 where "d1 = splice (bn_width r2) (replicate (n - bn_width r2) 0) (bn_d r2)"
    define d2 where "d2 = splice 0 (map NOT (take n d1)) d1"
    define r3 where "r3 = r2\<lparr>neg := False, bn_width := n, bn_d := mask_top e n d2\<rparr>"
    define r4 where "r4 = bn_set_minimal_width r3"
    have D: "BN_nnmod_pow2 malloc a e r = (case e2 of None \<Rightarrow> (None, r2) | Some _ \<Rightarrow> BN_add malloc r4 BN_value_one r4)"
    proof -
      have z: "\<not> (BN_is_zero r1 \<or> \<not> neg r1)" using False by blast
      show ?thesis unfolding r4_def r3_def d2_def d1_def BN_nnmod_pow2_def andthen_def x prod.case e1 option.case if_not_P [OF z] Let_def n_def [symmetric] y ..
    qed
    have goal: "bn_int a mod 2 ^ e = 2 ^ e - int X"
    proof -
      have "int (bn_mag a) mod 2 ^ e = int X" unfolding X(1) by (simp add: zmod_int)
      then show ?thesis using X(2,4) by (simp add: bn_int_def zmod_zminus1_eq_if)
    qed
    show ?thesis
    proof (cases e2)
      case None
      then have "\<not> (serves malloc \<and> \<not> bn_static r \<and> 3 + (e - 1) div 64 \<le> INT_MAX div 256)"
        using wexpand_serves [of malloc n r1] y r1(2) by (auto simp: n_def)
      then show ?thesis using W S None r1(2) by (auto simp: D op_gives_def)
    next
      case (Some z)
      have r2: "bn_ok r2" "n \<le> length (bn_d r2)" "bn_width r2 = bn_width r1" "take (bn_width r1) (bn_d r2) = take (bn_width r1) (bn_d r1)"
        using W Some by (auto simp: bn_ok_def)
      have d1: "length d1 = length (bn_d r2)" "bn_part n d1 = X"
      proof -
        have t: "take n d1 = take (bn_width r1) (bn_d r2) @ replicate (n - bn_width r1) 0"
          using w1 r2(2,3) by (simp add: d1_def splice_def)
        show "length d1 = length (bn_d r2)" using w1 r2(2,3) by (simp add: d1_def splice_def)
        show "bn_part n d1 = X" unfolding t bn_val_append by (simp add: r2(4) X_def bn_mag_def)
      qed
      have l: "length (map NOT (take n d1)) = n" using d1(1) r2(2) by simp
      have d2: "length d2 = length d1" "bn_part n d2 = bn_val (map NOT (take n d1))"
        using write_words [of "map NOT (take n d1)" d1] l d1(1) r2(2) unfolding d2_def by simp_all
      have "bn_val (map NOT (take n d1)) + X + 1 = 2 ^ (64 * n)" using not_words_val [of "take n d1"] l d1(2) by simp
      then have v2: "bn_part n d2 = 2 ^ (64 * n) - 1 - X" unfolding d2(2) by linarith
      note M = mask_top_val [OF e n_def, of d2]
      have r3: "bn_ok r3" "bn_mag r3 = 2 ^ e - 1 - X" "\<not> neg r3" "bn_static r3 = bn_static r"
      proof -
        show "bn_ok r3" "\<not> neg r3" "bn_static r3 = bn_static r" using r2 d1(1) d2(1) M(2) S r1(2) by (simp_all add: r3_def bn_ok_def)
        have "bn_mag r3 = take_bit e (2 ^ (64 * n) - 1 - X)" using M(1) r2(2) d1(1) d2(1) by (simp add: r3_def bn_mag_def v2)
        then show "bn_mag r3 = 2 ^ e - 1 - X" unfolding complement_pow2 [OF X(2,3) en] .
      qed
      have r4: "bn_ok r4" "bn_int r4 = 2 ^ e - 1 - int X" "bn_canonical r4" "bn_static r4 = bn_static r" "bn_width r4 \<le> n"
        using set_minimal_width [OF r3(1)] r3 X(3) static_minimal [of r3]
        by (simp_all add: r4_def bn_int_def bn_canonical_def of_nat_diff) (simp add: r3_def)
      have "op_gives malloc r4 (max (bn_width r4) 1 + 1) (2 ^ e - int X) (BN_add malloc r4 BN_value_one r4)"
        using add_gives [OF al r4(1) value_one(1) r4(1,3) value_one(2)] by (simp add: value_one(3,4) r4(2))
      moreover have "max (bn_width r4) 1 + 1 \<le> 3 + (e - 1) div 64" using r4(5) by (simp add: n_def)
      ultimately show ?thesis using r4(4) Some by (auto simp: D goal op_gives_def)
    qed
  qed
qed


section \<open>Binary long division: correctness\<close>

text \<open>The bits of the numerator from \<open>k\<close> on have been divided.\<close>

definition div_inv :: "nat \<Rightarrow> nat \<Rightarrow> nat \<Rightarrow> nat \<Rightarrow> nat \<Rightarrow> u64 list \<times> u64 list \<Rightarrow> bool" where
  "div_inv w n N D k = (\<lambda>(q, r). length q = w \<and> length r = n \<and> bn_val r = N div 2 ^ k mod D \<and> bn_val q = 2 ^ k * (N div 2 ^ k div D))"

lemma or_low_bit:
  assumes "even (bn_val (s # ss))" "unat x \<le> 1"
  shows "bn_val ((s OR x) # ss) = bn_val (s # ss) + unat x"
proof -
  have "even (unat s)" using assms(1) by simp
  then have "\<not> bit (unat s) 0" by (simp add: bit_0)
  then have b: "\<not> bit s 0" by (simp add: bit_unsigned_iff)
  have "\<not> bit x m" if "0 < m" for m
  proof -
    have "unat x = 0 \<or> unat x = 1" using assms(2) by linarith
    then have "x = 0 \<or> x = 1" by (auto simp: word_unat_eq_iff)
    then show ?thesis using that by (auto simp: bit_1_iff)
  qed
  then have "s AND x = 0" using b by (intro bit_word_eqI) (metis bit_0_eq bit_and_iff gr0I bot_apply bot_bool_def)
  then have "s OR x = s + x" by (rule disjunctive_add_eq_or [symmetric])
  moreover have "unat (s + x) = unat s + unat x"
  proof -
    have "unat s \<noteq> 2 ^ 64 - 1" using \<open>even (unat s)\<close> by auto
    then have "unat s + unat x < 2 ^ 64" using u64_less [of s] assms(2) by linarith
    then show ?thesis by (simp add: unat_add_lem [symmetric])
  qed
  ultimately show ?thesis by simp
qed

lemma or_clear_bit:
  assumes "i < length q" "b < 64" "bn_val q = 2 ^ Suc (64 * i + b) * c" "x \<in> {0, 1 :: u64}"
  shows "bn_val (q[i := q ! i OR push_bit b x]) = bn_val q + 2 ^ (64 * i + b) * unat x"
proof -
  define k where "k = 64 * i + b"
  have "push_bit (Suc k) c AND push_bit k (unat x) = 0"
    using assms(4) by (intro bit_eqI) (auto simp: bit_and_iff bit_push_bit_iff bit_1_iff bit_Suc_0_iff bit_0)
  then have "bn_val q + 2 ^ k * unat x = bn_val q OR push_bit k (unat x)"
    using disjunctive_add_eq_or [of "push_bit (Suc k) c" "push_bit k (unat x)"] assms(3)
    by (simp add: push_bit_eq_mult mult.commute k_def)
  moreover have "bn_part (length q) (q[i := q ! i OR push_bit b x]) = bn_val q OR push_bit k (unat x)"
  proof (rule part_change_word)
    fix m :: nat
    assume m: "m < 64"
    show "bit (q ! i OR push_bit b x) m \<longleftrightarrow> bit (bn_val q OR push_bit k (unat x)) (64 * i + m)"
      using bit_part_at [of "length q" q m i] m assms(1,2,4) by (auto simp: bit_or_iff bit_push_bit_iff bit_1_iff bit_Suc_0_iff k_def)
  next
    fix p m :: nat
    assume m: "m < 64" "p \<noteq> i"
    then have "64 * p + m \<noteq> k" using words_apart [of m b p i] assms(2) by (simp add: k_def)
    then show "bit (bn_val q OR push_bit k (unat x)) (64 * p + m) \<longleftrightarrow> bit (bn_part (length q) q) (64 * p + m)"
      using assms(4) by (auto simp: bit_or_iff bit_push_bit_iff bit_1_iff bit_Suc_0_iff)
  qed (use assms(1) in simp_all)
  ultimately show ?thesis by (simp add: k_def)
qed

lemma halve: "N div 2 ^ k = 2 * (N div 2 ^ Suc k) + (N div 2 ^ k) mod (2 :: nat)"
proof -
  have "N div 2 ^ Suc k = N div 2 ^ k div 2" by (simp only: power_Suc2 div_mult2_eq)
  then show ?thesis by simp
qed

lemma double_div:
  fixes A b D :: nat
  assumes "0 < D"
  shows "(2 * A + b) mod D = (2 * (A mod D) + b) mod D" "(2 * A + b) div D = 2 * (A div D) + (2 * (A mod D) + b) div D"
proof -
  have "A = D * (A div D) + A mod D" by simp
  then have "2 * A + b = 2 * (D * (A div D) + A mod D) + b" by (rule arg_cong [where f = "\<lambda>x. 2 * x + b"])
  also have "\<dots> = (2 * (A mod D) + b) + D * (2 * (A div D))" by (simp only: distrib_left mult_ac add_ac)
  finally have e: "2 * A + b = (2 * (A mod D) + b) + D * (2 * (A div D))" .
  have D: "D \<noteq> 0" using assms by simp
  show "(2 * A + b) mod D = (2 * (A mod D) + b) mod D" unfolding e by (rule mod_mult_self2)
  show "(2 * A + b) div D = 2 * (A div D) + (2 * (A mod D) + b) div D" unfolding e by (rule div_mult_self2 [OF D])
qed


lemma div_bit_step_inv:
  assumes inv: "div_inv w n N D (Suc (64 * i + b)) (q, r)" and b: "b < 64" and i: "i < w" and D: "0 < D" and n: "0 < n"
    and num: "N = bn_part w num" "w \<le> length num" and dv: "D = bn_part n dv" "n \<le> length dv"
  shows "div_inv w n N D (64 * i + b) (div_bit_step num dv n i b (q, r))"
proof -
  define k where "k = 64 * i + b"
  define A where "A = N div 2 ^ Suc k"
  have I: "length q = w" "length r = n" "bn_val r = A mod D" "bn_val q = 2 ^ Suc k * (A div D)"
    using inv by (simp_all add: div_inv_def A_def k_def)
  obtain s carry where s: "bn_add_words r r n = (s, carry)" by (cases "bn_add_words r r n")
  have S: "bn_val s + 2 ^ (64 * n) * unat carry = 2 * (A mod D)" "length s = n" "unat carry \<le> 1"
    using add_words_val [OF s] I(2,3) by simp_all
  obtain s0 ss where ss: "s = s0 # ss" using S(2) n by (cases s) simp_all
  define x where "x = drop_bit b (num ! i) AND 1"
  have xv: "unat x = N div 2 ^ k mod 2"
  proof -
    have "x = of_bool (bit (num ! i) b)" by (simp add: x_def and_one_eq odd_iff_mod_2_eq_one [symmetric] bit_iff_odd_drop_bit mod2_eq_if)
    moreover have "bit N k \<longleftrightarrow> bit (num ! i) b" using bit_part_at [OF num(2) b, of i] i by (simp add: num(1) k_def)
    ultimately show ?thesis by (simp add: bit_iff_odd mod2_eq_if)
  qed
  define t where "t = s[0 := s ! 0 OR x]"
  have "even (bn_val s)"
  proof -
    have "even (2 * (A mod D))" by simp
    then have "even (bn_val s + 2 ^ (64 * n) * unat carry)" unfolding S(1) .
    then show ?thesis using n by simp
  qed
  then have "bn_val t = bn_val s + unat x" using or_low_bit [of s0 ss x] xv by (simp add: t_def ss)
  then have T: "bn_val t + 2 ^ (64 * n) * unat carry = 2 * (A mod D) + N div 2 ^ k mod 2" "length t = n"
    using S(1,2) by (simp_all add: xv t_def)
  obtain tmp borrow where u: "bn_sub_words t dv n = (tmp, borrow)" by (cases "bn_sub_words t dv n")
  define X where "X = 2 * (A mod D) + N div 2 ^ k mod 2"
  have "A mod D \<le> D - 1" using D by (simp add: Suc_le_eq less_Suc_eq_le [symmetric])
  then have XD: "X < 2 * D" using D unfolding X_def by linarith
  note R = select_reduced [OF u dv(2) T(2) S(3) T(1) [folded X_def] XD [unfolded dv(1)], folded dv(1)]
  have step: "div_bit_step num dv n i b (q, r) = (q[i := q ! i OR push_bit b (NOT (carry - borrow) AND 1)], bn_select_words (carry - borrow) t tmp n)"
    unfolding div_bit_step_def prod.case s Let_def x_def [symmetric] t_def [symmetric] u ..
  have qb: "NOT (carry - borrow) AND 1 = (if X < D then 0 else 1)" unfolding R(1) by simp
  have Nk: "N div 2 ^ k = 2 * A + N div 2 ^ k mod 2" unfolding A_def by (rule halve)
  have XQ: "N div 2 ^ k mod D = X mod D" "N div 2 ^ k div D = 2 * (A div D) + X div D"
    unfolding X_def using double_div [OF D, of A "N div 2 ^ k mod 2"] Nk by simp_all
  have Xd: "X div D = unat (if X < D then 0 else 1 :: u64)" using XD D by (simp add: div_nat_eqI)
  have "bn_val (q[i := q ! i OR push_bit b (if X < D then 0 else 1)]) = bn_val q + 2 ^ k * unat (if X < D then 0 else 1 :: u64)"
    using or_clear_bit [OF _ b I(4) [unfolded k_def], of "if X < D then 0 else 1"] i I(1) by (simp add: k_def)
  also have "\<dots> = 2 ^ k * (N div 2 ^ k div D)" unfolding I(4) XQ(2) Xd by (simp add: distrib_left)
  finally show ?thesis using R(2) I(1) unfolding step qb div_inv_def k_def [symmetric] by (simp add: XQ(1))
qed

lemma div_bits_val:
  assumes D: "0 < bn_part n dv" and w: "w \<le> length num" and n: "n \<le> length dv"
  shows "case div_bits num dv w n of (q, r) \<Rightarrow> length q = w \<and> length r = n \<and>
    bn_val q = bn_part w num div bn_part n dv \<and> bn_val r = bn_part w num mod bn_part n dv"
proof -
  define N D where "N = bn_part w num" and "D = bn_part n dv"
  have n0: "0 < n" using D by (cases n) simp_all
  have inner: "div_inv w n N D (64 * i + j) s \<Longrightarrow> j \<le> 64 \<Longrightarrow> i < w \<Longrightarrow> div_inv w n N D (64 * i) (fold (div_bit_step num dv n i) (rev [0 ..< j]) s)" for i j s
  proof (induction j arbitrary: s)
    case (Suc j)
    obtain q r where s: "s = (q, r)" by (cases s)
    have "div_inv w n N D (64 * i + j) (div_bit_step num dv n i j s)"
      unfolding s by (rule div_bit_step_inv [OF _ _ Suc.prems(3) _ n0 N_def w D_def n]) (use Suc.prems D in \<open>simp_all add: s D_def\<close>)
    then show ?case using Suc.IH Suc.prems by simp
  qed simp
  have outer: "div_inv w n N D (64 * j) s \<Longrightarrow> j \<le> w \<Longrightarrow> div_inv w n N D 0 (fold (\<lambda>i. fold (div_bit_step num dv n i) (rev [0 ..< 64])) (rev [0 ..< j]) s)" for j s
  proof (induction j arbitrary: s)
    case (Suc j)
    have "div_inv w n N D (64 * j + 64) s" using Suc.prems(1) by (simp add: add.commute)
    then have "div_inv w n N D (64 * j) (fold (div_bit_step num dv n j) (rev [0 ..< 64]) s)" by (rule inner) (use Suc.prems in simp_all)
    then show ?case using Suc.IH Suc.prems(2) by simp
  qed simp
  have "N < 2 ^ (64 * w)" unfolding N_def by (rule bn_part_less)
  then have "div_inv w n N D (64 * w) (replicate w 0, replicate n 0)" by (simp add: div_inv_def)
  then have "div_inv w n N D 0 (div_bits num dv w n)" unfolding div_bits_def by (rule outer) simp
  then show ?thesis by (auto simp: div_inv_def N_def D_def split: prod.splits)
qed


lemma div_consttime_body_spec:
  assumes al: "allocator malloc" and ok: "bn_ok num" "bn_ok dv" "bn_ok q" "bn_ok r" "bn_ok tmp" and nz: "bn_mag dv \<noteq> 0"
    and u: "div_consttime_body malloc num dv q r tmp = (e, q', r', tmp')"
  shows "bn_ok q' \<and> bn_ok r' \<and> bn_ok tmp' \<and> bn_static q' = bn_static q \<and> bn_static r' = bn_static r \<and> bn_static tmp' = bn_static tmp \<and>
    (e \<noteq> None \<longrightarrow> bn_mag q' = bn_mag num div bn_mag dv \<and> bn_mag r' = bn_mag num mod bn_mag dv \<and> \<not> neg q' \<and> \<not> neg r' \<and>
      bn_width q' = bn_width num \<and> bn_width r' = bn_width dv) \<and>
    (serves malloc \<and> \<not> bn_static q \<and> \<not> bn_static r \<and> \<not> bn_static tmp \<longrightarrow> e \<noteq> None)"
proof -
  obtain e1 q1 where x: "bn_wexpand malloc (bn_width num) q = (e1, q1)" by (cases "bn_wexpand malloc (bn_width num) q")
  obtain e2 r1 where y: "bn_wexpand malloc (bn_width dv) r = (e2, r1)" by (cases "bn_wexpand malloc (bn_width dv) r")
  obtain e3 t1 where z: "bn_wexpand malloc (bn_width dv) tmp = (e3, t1)" by (cases "bn_wexpand malloc (bn_width dv) tmp")
  note W = wexpand_ok [OF al ok(3) x] wexpand_ok [OF al ok(4) y] wexpand_ok [OF al ok(5) z]
  note S = static_wexpand [OF x] static_wexpand [OF y] static_wexpand [OF z]
  have lim: "bn_width num \<le> INT_MAX div 256" "bn_width dv \<le> INT_MAX div 256" using ok(1,2) by (simp_all add: bn_ok_def)
  have calm: "e1 \<noteq> None \<and> e2 \<noteq> None \<and> e3 \<noteq> None" if "serves malloc \<and> \<not> bn_static q \<and> \<not> bn_static r \<and> \<not> bn_static tmp"
    using that wexpand_serves [of malloc _ q] wexpand_serves [of malloc _ r] wexpand_serves [of malloc _ tmp] lim x y z by fastforce
  obtain qs rs where d: "div_bits (bn_d num) (bn_d dv) (bn_width num) (bn_width dv) = (qs, rs)"
    by (cases "div_bits (bn_d num) (bn_d dv) (bn_width num) (bn_width dv)")
  have V: "length qs = bn_width num" "length rs = bn_width dv" "bn_val qs = bn_mag num div bn_mag dv" "bn_val rs = bn_mag num mod bn_mag dv"
    using div_bits_val [of "bn_width dv" "bn_d dv" "bn_width num" "bn_d num"] nz bn_okD(1) [OF ok(1)] bn_okD(1) [OF ok(2)] d
    by (simp_all add: bn_mag_def)
  note U = u [unfolded div_consttime_body_def x prod.case y z d]
  show ?thesis
  proof (cases "e1 = None \<or> e2 = None \<or> e3 = None")
    case True
    then have "e = None" "q' = q1" "r' = r \<or> r' = r1" "tmp' = tmp \<or> tmp' = t1" using U by (auto split: option.splits)
    then show ?thesis using W S ok calm True by auto
  next
    case False
    define q2 where "q2 = q1\<lparr>bn_d := splice 0 qs (bn_d q1), bn_width := bn_width num, neg := False\<rparr>"
    define r2 where "r2 = r1\<lparr>bn_d := splice 0 rs (bn_d r1), bn_width := bn_width dv, neg := False\<rparr>"
    have r: "e = Some ()" "q' = q2" "r' = r2" "tmp' = t1" using U False by (auto simp: q2_def r2_def)
    have l: "bn_ok q1" "length qs \<le> length (bn_d q1)" "bn_ok r1" "length rs \<le> length (bn_d r1)" "bn_ok t1"
      using W False V(1,2) by (auto simp: bn_ok_def)
    have "bn_ok q2 \<and> bn_static q2 = bn_static q1 \<and> bn_mag q2 = bn_val qs" "bn_ok r2 \<and> bn_static r2 = bn_static r1 \<and> bn_mag r2 = bn_val rs"
      using l write_words [OF l(2)] write_words [OF l(4)] V(1,2) by (simp_all add: q2_def r2_def bn_ok_def bn_mag_def)
    then show ?thesis unfolding r using V l(5) S by (simp add: q2_def r2_def)
  qed
qed

text \<open>A target is the caller's number or a number of the frame.\<close>

definition target_ok :: "bool \<Rightarrow> BIGNUM option \<Rightarrow> BN_CTX \<Rightarrow> BIGNUM \<Rightarrow> nat option \<Rightarrow> bool" where
  "target_ok own res ctx x k \<longleftrightarrow> bn_ok x \<and>
     (case k of None \<Rightarrow> own \<and> res = Some x | Some j \<Rightarrow> j < ctx_used ctx \<and> \<not> bn_static x \<and> (res = None \<or> \<not> own))"

lemma div_target_spec:
  assumes "ctx_ok n c" "opt_ok res" "div_target malloc own res c = (t, c')"
  shows "ctx_inside n c c' \<and> ctx_ok n c' \<and> ctx_used c \<le> ctx_used c' \<and> (\<forall>x k. t = Some (x, k) \<longrightarrow> target_ok own res c' x k) \<and>
    (serves malloc \<and> ctx_calm c \<longrightarrow> t \<noteq> None \<and> ctx_calm c')"
proof (cases "res \<noteq> None \<and> own")
  case True
  then show ?thesis using assms inside_refl [OF assms(1)] by (auto simp: div_target_def target_ok_def opt_ok_def)
next
  case False
  obtain k c1 where g: "BN_CTX_get malloc c = (k, c1)" by (cases "BN_CTX_get malloc c")
  have r: "t = map_option (\<lambda>k. (ctx_val c1 k, Some k)) k" "c' = c1" using assms(3) False g by (auto simp: div_target_def split: option.splits if_splits)
  have "target_ok own res c1 (ctx_val c1 j) (Some j)" if "k = Some j" for j
    using get_inside(4) [OF assms(1) g that] used_ok [OF get_inside(2) [OF assms(1) g]] False
    by (auto simp: target_ok_def bn_dynamic_def)
  moreover have "serves malloc \<and> ctx_calm c \<longrightarrow> k \<noteq> None \<and> ctx_calm c1" using get_calm [of malloc c] g by auto
  ultimately show ?thesis using get_inside [OF assms(1) g] unfolding r by auto
qed


lemma keep_target_spec:
  assumes "ctx_inside n a c" "target_ok own res c0 x k" "bn_ok x'" "bn_static x' = bn_static x" "keep_target k x' res c = (res', c')"
  shows "ctx_inside n a c' \<and> (res' = None \<longleftrightarrow> res = None) \<and> (case k of None \<Rightarrow> res' = Some x' | Some _ \<Rightarrow> res' = res)"
proof (cases k)
  case None
  then show ?thesis using assms by (auto simp: keep_target_def target_ok_def)
next
  case (Some j)
  then have "bn_dynamic x'" using assms(2-4) by (simp add: target_ok_def bn_dynamic_def)
  then show ?thesis using inside_put_trans [OF assms(1), of x' j] assms(5) Some by (auto simp: keep_target_def)
qed

lemma copy_result_spec:
  assumes al: "allocator malloc" and x: "bn_ok x" and res: "opt_ok res" "k = None \<Longrightarrow> res = Some x" and u: "copy_result malloc k x res = (e, res')"
  shows "opt_ok res' \<and> (res' = None \<longleftrightarrow> res = None) \<and>
    (e \<noteq> None \<longrightarrow> (\<forall>y. res' = Some y \<longrightarrow> bn_mag y = bn_mag x \<and> neg y = neg x \<and> bn_width y = bn_width x)) \<and>
    (serves malloc \<and> (\<forall>y. res = Some y \<longrightarrow> \<not> bn_static y) \<longrightarrow> e \<noteq> None)"
proof (cases "res = None \<or> k = None")
  case True
  then show ?thesis using u res x by (auto simp: copy_result_def opt_ok_def)
next
  case False
  then obtain y j where s: "res = Some y" "k = Some j" by auto
  obtain e1 y1 where c: "BN_copy malloc x y = (e1, y1)" by (cases "BN_copy malloc x y")
  have y: "bn_ok y" using res(1) s by (simp add: opt_ok_def)
  have "bn_width x \<le> INT_MAX div 256" using x by (simp add: bn_ok_def)
  then show ?thesis using copy_spec [OF al x y c] copy_calm [of malloc y x] u s c y
    by (cases e1) (auto simp: copy_result_def opt_ok_def)
qed

lemma div_consttime_spec:
  assumes al: "allocator malloc" and ok: "bn_ok num" "bn_ok dv" "opt_ok quot" "opt_ok rem"
    and c: "ctx_ok n ctx" "depth (frames ctx) < n" "n < 2 ^ 30"
    and u: "bn_div_consttime malloc q_own r_own quot rem num dv ctx = (e, quot', rem', ctx')"
  shows "ctx_same n ctx ctx' \<and> opt_ok quot' \<and> opt_ok rem' \<and> (quot' = None \<longleftrightarrow> quot = None) \<and> (rem' = None \<longleftrightarrow> rem = None) \<and>
    (e \<noteq> None \<longrightarrow> \<not> neg num \<and> \<not> neg dv \<and> bn_mag dv \<noteq> 0 \<and>
      (\<forall>q. quot' = Some q \<longrightarrow> bn_mag q = bn_mag num div bn_mag dv \<and> \<not> neg q \<and> bn_width q = bn_width num) \<and>
      (\<forall>r. rem' = Some r \<longrightarrow> bn_mag r = bn_mag num mod bn_mag dv \<and> \<not> neg r \<and> bn_width r = bn_width dv)) \<and>
    (serves malloc \<and> ctx_calm ctx \<and> (\<forall>x. quot = Some x \<or> rem = Some x \<longrightarrow> \<not> bn_static x) \<and> \<not> neg num \<and> \<not> neg dv \<and> bn_mag dv \<noteq> 0 \<longrightarrow> e \<noteq> None)"
proof (cases "neg num \<or> neg dv \<or> BN_is_zero dv")
  case True
  then have "e = None" "quot' = quot" "rem' = rem" "ctx' = ctx" using u by (auto simp: bn_div_consttime_def split: if_splits)
  then show ?thesis using True ok same_refl [OF c(1)] is_zero_mag [OF ok(2)] by auto
next
  case False
  then have f: "\<not> (neg num \<or> neg dv)" "\<not> BN_is_zero dv" and nz: "bn_mag dv \<noteq> 0" using is_zero_mag [OF ok(2)] by auto
  define c0 where "c0 = BN_CTX_start malloc ctx"
  have c0: "ctx_ok n c0" unfolding c0_def by (rule start_ok [OF al c])
  have fin: "ctx_same n ctx (BN_CTX_end x)" if "ctx_inside n c0 x" for x
    using frame_same [OF al c] that by (simp add: ctx_inside_def c0_def)
  obtain q c1 where g1: "div_target malloc q_own quot c0 = (q, c1)" by (cases "div_target malloc q_own quot c0")
  note i1 = div_target_spec [OF c0 ok(3) g1]
  then have c1: "ctx_ok n c1" by blast
  obtain r c2 where g2: "div_target malloc r_own rem c1 = (r, c2)" by (cases "div_target malloc r_own rem c1")
  note i2 = div_target_spec [OF c1 ok(4) g2]
  then have c2: "ctx_ok n c2" by blast
  obtain t c3 where g3: "BN_CTX_get malloc c2 = (t, c3)" by (cases "BN_CTX_get malloc c2")
  note i3 = get_inside [OF c2 g3]
  have ins: "ctx_inside n c0 c3" using inside_trans i1 i2 i3(1) by blast
  have calm: "q \<noteq> None \<and> r \<noteq> None \<and> t \<noteq> None" if "serves malloc" "ctx_calm ctx"
    using start_calm [OF that(1) c(1,3) that(2), folded c0_def] i1 i2 get_calm [of malloc c2] that(1) g3 by auto
  note U = u [unfolded bn_div_consttime_def if_not_P [OF f(1)] if_not_P [OF f(2)], folded c0_def, unfolded g1 prod.case g2 g3]
  show ?thesis
  proof (cases "q = None \<or> r = None \<or> t = None")
    case True
    then have "e = None" "quot' = quot" "rem' = rem" "ctx' = BN_CTX_end c3" using U by (auto split: option.splits)
    then show ?thesis using ok fin [OF ins] calm True by auto
  next
    case yes: False
    then obtain qv qk rv rk t1 where S: "q = Some (qv, qk)" "r = Some (rv, rk)" "t = Some t1" by auto
    have tq: "target_ok q_own quot c1 qv qk" and tr: "target_ok r_own rem c2 rv rk" using i1 i2 S by auto
    have tv0: "bn_dynamic (ctx_val c3 t1)" using used_ok [OF i3(2)] i3(4) S(3) by blast
    obtain e1 q1 r1 tv where b: "div_consttime_body malloc num dv qv rv (ctx_val c3 t1) = (e1, q1, r1, tv)" by (rule prod_cases4)
    have okv: "bn_ok qv" "bn_ok rv" "bn_ok (ctx_val c3 t1)" using tq tr bn_dynamicD(1) [OF tv0] by (simp_all add: target_ok_def)
    note B = div_consttime_body_spec [OF al ok(1,2) okv nz b]
    define c4 where "c4 = ctx_put t1 tv c3"
    have "bn_dynamic tv" using B bn_dynamicD(2) [OF tv0] by (simp add: bn_dynamic_def)
    then have i4: "ctx_inside n c0 c4" unfolding c4_def by (rule inside_put_trans [OF ins])
    obtain quot1 c5 where k1: "keep_target qk q1 quot c4 = (quot1, c5)" by (cases "keep_target qk q1 quot c4")
    have K1: "ctx_inside n c0 c5 \<and> (quot1 = None \<longleftrightarrow> quot = None) \<and> (case qk of None \<Rightarrow> quot1 = Some q1 | Some _ \<Rightarrow> quot1 = quot)"
      using keep_target_spec [OF i4 tq _ _ k1] B by blast
    obtain rem1 c6 where k2: "keep_target rk r1 rem c5 = (rem1, c6)" by (cases "keep_target rk r1 rem c5")
    have K2: "ctx_inside n c0 c6 \<and> (rem1 = None \<longleftrightarrow> rem = None) \<and> (case rk of None \<Rightarrow> rem1 = Some r1 | Some _ \<Rightarrow> rem1 = rem)"
      using keep_target_spec [OF _ tr _ _ k2] K1 B by blast
    have o: "opt_ok quot1" "opt_ok rem1" "qk = None \<Longrightarrow> quot1 = Some q1" "rk = None \<Longrightarrow> rem1 = Some r1"
      using K1 K2 B ok(3,4) by (auto simp: opt_ok_def split: option.splits)
    have end6: "ctx_same n ctx (BN_CTX_end c6)" using fin K2 by blast
    note V = U [unfolded S option.case prod.case b, folded c4_def, unfolded k1 prod.case k2]
    have nstat: "serves malloc \<and> (\<forall>x. quot = Some x \<or> rem = Some x \<longrightarrow> \<not> bn_static x) \<Longrightarrow> e1 \<noteq> None \<and>
        (\<forall>x. quot1 = Some x \<longrightarrow> \<not> bn_static x) \<and> (\<forall>x. rem1 = Some x \<longrightarrow> \<not> bn_static x)"
    proof -
      assume a: "serves malloc \<and> (\<forall>x. quot = Some x \<or> rem = Some x \<longrightarrow> \<not> bn_static x)"
      have "\<not> bn_static qv" "\<not> bn_static rv" using tq tr a by (auto simp: target_ok_def split: option.splits)
      then show ?thesis using a B K1 K2 bn_dynamicD(2) [OF tv0] by (auto split: option.splits)
    qed
    show ?thesis
    proof (cases e1)
      case None
      then have "e = None" "quot' = quot1" "rem' = rem1" "ctx' = BN_CTX_end c6" using V by simp_all
      then show ?thesis using end6 o K1 K2 nstat None by auto
    next
      case (Some y)
      have Q: "bn_ok q1" "bn_ok r1" using B by simp_all
      obtain e2 quot2 where p1: "copy_result malloc qk q1 quot1 = (e2, quot2)" by (cases "copy_result malloc qk q1 quot1")
      note P1 = copy_result_spec [OF al Q(1) o(1,3) p1]
      obtain e3 rem2 where p2: "copy_result malloc rk r1 rem1 = (e3, rem2)" by (cases "copy_result malloc rk r1 rem1")
      note P2 = copy_result_spec [OF al Q(2) o(2,4) p2]
      show ?thesis
      proof (cases e2)
        case n2: None
        have r: "e = None" "quot' = quot2" "rem' = rem1" "ctx' = BN_CTX_end c6"
          using V unfolding Some n2 p1 option.case prod.case by simp_all
        have "opt_ok quot2" "quot2 = None \<longleftrightarrow> quot = None" "rem1 = None \<longleftrightarrow> rem = None" using P1 K1 K2 by blast+
        moreover have "\<not> (serves malloc \<and> (\<forall>x. quot = Some x \<or> rem = Some x \<longrightarrow> \<not> bn_static x))" using P1 nstat n2 by blast
        ultimately show ?thesis using end6 o(2) unfolding r by blast
      next
        case s2: (Some z)
        have r: "e = e3" "quot' = quot2" "rem' = rem2" "ctx' = BN_CTX_end c6"
          using V unfolding Some s2 p1 p2 option.case prod.case by simp_all
        have v: "\<forall>q. quot2 = Some q \<longrightarrow> bn_mag q = bn_mag num div bn_mag dv \<and> \<not> neg q \<and> bn_width q = bn_width num"
          using P1 s2 B Some by auto
        have w: "\<forall>q. rem2 = Some q \<longrightarrow> bn_mag q = bn_mag num mod bn_mag dv \<and> \<not> neg q \<and> bn_width q = bn_width dv" if "e3 \<noteq> None"
          using P2 that B Some by auto
        have "opt_ok quot2" "quot2 = None \<longleftrightarrow> quot = None" "opt_ok rem2" "rem2 = None \<longleftrightarrow> rem = None" using P1 P2 K1 K2 by blast+
        moreover have "serves malloc \<and> (\<forall>x. quot = Some x \<or> rem = Some x \<longrightarrow> \<not> bn_static x) \<Longrightarrow> e3 \<noteq> None" using P2 nstat by blast
        ultimately show ?thesis unfolding r using end6 v w f(1) nz by (intro conjI impI) blast+
      qed
    qed
  qed
qed


text \<open>C29: Division by words, by powers of two and without branches on secrets is division: \<open>BN_div_word\<close> leaves
  the quotient and returns the remainder, and its error value is no remainder; \<open>BN_mod_word\<close> returns the
  remainder; \<open>BN_nnmod_pow2\<close> gives the residue modulo a power of two of a number of any sign; and
  \<open>bn_div_consttime\<close>, one bit at a time, gives quotient and remainder at the widths of the numerator and of the
  divisor, whether its results are operands or not. They succeed when the allocator serves, the numbers are
  below the size limit and, for the last, the operands are not negative and the divisor is not zero.\<close>

theorem bn_div_special:
  assumes "allocator malloc" "bn_ok a" "bn_ok r" "bn_canonical a" "bn_ok num" "bn_ok dv" "opt_ok quot" "opt_ok rem"
    "ctx_ok n ctx" "depth (frames ctx) < n" "n < 2 ^ 30" "w \<noteq> 0"
  shows "(case BN_div_word malloc a w of (m, a') \<Rightarrow>
      (m \<noteq> - 1 \<longrightarrow> unat m = bn_mag a mod unat w \<and> bn_mag a' = bn_mag a div unat w \<and> (bn_mag a' \<noteq> 0 \<longrightarrow> neg a' = neg a)) \<and>
      (serves malloc \<and> \<not> bn_static a \<and> bn_width a + 1 \<le> INT_MAX div 256 \<longrightarrow> m \<noteq> - 1)) \<and>
    unat (BN_mod_word a w) = bn_mag a mod unat w \<and>
    op_gives malloc r (3 + (e - 1) div 64) (bn_int a mod 2 ^ e) (BN_nnmod_pow2 malloc a e r) \<and>
    (case bn_div_consttime malloc q_own r_own quot rem num dv ctx of (ok, quot', rem', ctx') \<Rightarrow> ctx_same n ctx ctx' \<and>
      (ok \<noteq> None \<longrightarrow> \<not> neg num \<and> \<not> neg dv \<and> bn_mag dv \<noteq> 0 \<and>
        (\<forall>q. quot' = Some q \<longrightarrow> bn_mag q = bn_mag num div bn_mag dv \<and> \<not> neg q \<and> bn_width q = bn_width num) \<and>
        (\<forall>r. rem' = Some r \<longrightarrow> bn_mag r = bn_mag num mod bn_mag dv \<and> \<not> neg r \<and> bn_width r = bn_width dv)) \<and>
      (serves malloc \<and> ctx_calm ctx \<and> (\<forall>x. quot = Some x \<or> rem = Some x \<longrightarrow> \<not> bn_static x) \<and>
        \<not> neg num \<and> \<not> neg dv \<and> bn_mag dv \<noteq> 0 \<longrightarrow> ok \<noteq> None))"
proof (intro conjI)
  obtain m a' where u: "BN_div_word malloc a w = (m, a')" by (cases "BN_div_word malloc a w")
  note D = div_word_spec [OF assms(1,2,12) u]
  have "bn_mag a' \<noteq> 0 \<and> bn_mag a' = bn_mag a div unat w \<Longrightarrow> bn_width a \<noteq> 0"
    by (cases "bn_width a = 0") (auto simp: bn_mag_def [of a])
  then show "case BN_div_word malloc a w of (m, a') \<Rightarrow>
      (m \<noteq> - 1 \<longrightarrow> unat m = bn_mag a mod unat w \<and> bn_mag a' = bn_mag a div unat w \<and> (bn_mag a' \<noteq> 0 \<longrightarrow> neg a' = neg a)) \<and>
      (serves malloc \<and> \<not> bn_static a \<and> bn_width a + 1 \<le> INT_MAX div 256 \<longrightarrow> m \<noteq> - 1)"
    using D unfolding u prod.case by blast
  show "unat (BN_mod_word a w) = bn_mag a mod unat w" by (rule mod_word_val [OF assms(12)])
  show "op_gives malloc r (3 + (e - 1) div 64) (bn_int a mod 2 ^ e) (BN_nnmod_pow2 malloc a e r)"
    by (rule nnmod_pow2_gives [OF assms(1-4)])
  obtain ok quot' rem' ctx' where v: "bn_div_consttime malloc q_own r_own quot rem num dv ctx = (ok, quot', rem', ctx')" by (rule prod_cases4)
  show "case bn_div_consttime malloc q_own r_own quot rem num dv ctx of (ok, quot', rem', ctx') \<Rightarrow> ctx_same n ctx ctx' \<and>
      (ok \<noteq> None \<longrightarrow> \<not> neg num \<and> \<not> neg dv \<and> bn_mag dv \<noteq> 0 \<and>
        (\<forall>q. quot' = Some q \<longrightarrow> bn_mag q = bn_mag num div bn_mag dv \<and> \<not> neg q \<and> bn_width q = bn_width num) \<and>
        (\<forall>r. rem' = Some r \<longrightarrow> bn_mag r = bn_mag num mod bn_mag dv \<and> \<not> neg r \<and> bn_width r = bn_width dv)) \<and>
      (serves malloc \<and> ctx_calm ctx \<and> (\<forall>x. quot = Some x \<or> rem = Some x \<longrightarrow> \<not> bn_static x) \<and>
        \<not> neg num \<and> \<not> neg dv \<and> bn_mag dv \<noteq> 0 \<longrightarrow> ok \<noteq> None)"
    using div_consttime_spec [OF assms(1,5-11) v] unfolding v prod.case by blast
qed

theorem bn_div_special_witness:
  "let num = (\<lambda>ws s. \<lparr>bn_d = ws, bn_width = length ws, dmax = length ws, neg = s, bn_static = False\<rparr>);
       x = BN_nnmod_pow2 zero_alloc (num [3, 1] True) 70 BN_init;
       y = bn_div_consttime zero_alloc False True (Some (num [5, 1, 9] False)) (Some BN_init) (num [5, 1, 9] False) (num [3, 2] False) BN_CTX_init
   in fst x = Some () \<and> bn_int (snd x) = 2 ^ 70 - 2 ^ 64 - 3 \<and> fst y = Some () \<and>
      (\<forall>q. fst (snd y) = Some q \<longrightarrow> bn_mag q = (5 + 2 ^ 64 + 9 * 2 ^ 128) div (3 + 2 * 2 ^ 64))"
proof -
  let ?num = "\<lambda>ws s. \<lparr>bn_d = ws, bn_width = length ws, dmax = length ws, neg = s, bn_static = False\<rparr>"
  let ?a = "?num [3, 1] True" and ?n = "?num [5, 1, 9] False" and ?d = "?num [3, 2] False"
  have v: "bn_int ?a = - (3 + 2 ^ 64)" "bn_mag ?n = 5 + 2 ^ 64 + 9 * 2 ^ 128" "bn_mag ?d = 3 + 2 * 2 ^ 64" "bn_mag ?a = 3 + 2 ^ 64"
    by (simp_all add: bn_int_def bn_mag_def)
  have ok: "bn_ok ?a" "bn_canonical ?a" "bn_ok ?n" "bn_ok ?d" "opt_ok (Some ?n)" "opt_ok (Some BN_init)" "depth (frames BN_CTX_init) < 1"
    "ctx_calm BN_CTX_init" "\<not> bn_static BN_init" "\<not> bn_static ?n" "(1 :: nat) < 2 ^ 30" "\<not> neg ?n" "\<not> neg ?d" "3 + (70 - 1) div 64 \<le> INT_MAX div 256"
    by (simp_all add: bn_ok_def INT_MAX_def opt_ok_def BN_CTX_init_def ctx_calm_def BN_init_def bn_canonical_def bn_mag_def)
  obtain e x where x: "BN_nnmod_pow2 zero_alloc ?a 70 BN_init = (e, x)" by (cases "BN_nnmod_pow2 zero_alloc ?a 70 BN_init")
  obtain e2 q r c where y: "bn_div_consttime zero_alloc False True (Some ?n) (Some BN_init) ?n ?d BN_CTX_init = (e2, q, r, c)" by (rule prod_cases4)
  note T = bn_div_special [OF allocator_zero_alloc ok(1) BN_init_ok(1) ok(2-6) new_ctx_ok ok(7,11), of 1 70 False True, unfolded x y prod.case op_gives_def]
  have "e \<noteq> None \<and> bn_int x = - (3 + 2 ^ 64) mod 2 ^ 70" using T serves_zero_alloc ok(9,14) unfolding v by simp
  moreover have "(- (3 + 2 ^ 64)) mod 2 ^ 70 = (2 ^ 70 - 2 ^ 64 - 3 :: int)" by simp
  moreover have "e2 \<noteq> None \<and> (\<forall>z. q = Some z \<longrightarrow> bn_mag z = (5 + 2 ^ 64 + 9 * 2 ^ 128) div (3 + 2 * 2 ^ 64))"
    using T serves_zero_alloc ok(8-10,12,13) unfolding v by auto
  ultimately show ?thesis unfolding Let_def x y fst_conv snd_conv by auto
qed

end
