(* ===== verification/BnMont.thy ===== *)
theory BnMont
  imports BnPow2
begin

text \<open>
  Montgomery arithmetic (\<open>crypto/fipsmodule/bn/montgomery.c\<close>, \<open>montgomery_inv.c\<close>): the negated inverse of the
  modulus modulo the word size, the reduction in place, conversion into and out of Montgomery form, and
  multiplication in it, for numbers and for small word arrays. In the build without assembly there is one
  implementation of each. The context's second word \<open>n0[1]\<close> is always zero with 64-bit words.
\<close>

section \<open>The constant n0\<close>

definition neg_inv_step :: "u64 \<Rightarrow> u64 \<times> u64 \<Rightarrow> u64 \<times> u64" where
  "neg_inv_step beta = (\<lambda>(u, v).
     let u_is_odd = 0 - (u AND 1);
         beta_if_u_is_odd = beta AND u_is_odd;
         alpha_if_u_is_odd = push_bit 63 1 AND u_is_odd
     in (drop_bit 1 (u XOR beta_if_u_is_odd) + (u AND beta_if_u_is_odd), drop_bit 1 v + alpha_if_u_is_odd))"

definition bn_neg_inv_mod_r_u64 :: "u64 \<Rightarrow> u64" where
  "bn_neg_inv_mod_r_u64 n = snd ((neg_inv_step n ^^ 64) (1, 0))"

definition bn_mont_n0 :: "BIGNUM \<Rightarrow> u64" where
  "bn_mont_n0 n = bn_neg_inv_mod_r_u64 (bn_d n ! 0)"

definition bn_mod_exp_base_2_consttime :: "(nat \<Rightarrow> byte list option) \<Rightarrow> nat \<Rightarrow> BIGNUM \<Rightarrow> BIGNUM \<Rightarrow> BN_CTX \<Rightarrow> unit option \<times> BIGNUM \<times> BN_CTX" where
  "bn_mod_exp_base_2_consttime malloc p n r ctx =
     (let r = BN_zero r; n_bits = BN_num_bits n
      in if n_bits = 1 then (Some (), r, ctx)
         else
           (case BN_set_bit malloc (int (n_bits - 1)) r of
              (None, r) \<Rightarrow> (None, r, ctx)
            | (Some _, r) \<Rightarrow> bn_mod_lshift_consttime malloc r (int (p - (n_bits - 1))) n r ctx))"

section \<open>Contexts\<close>

record BN_MONT_CTX =
  mont_RR :: BIGNUM
  mont_N :: BIGNUM
  mont_n0 :: "u64 \<times> u64"

definition BN_MONT_CTX_new :: "(nat \<Rightarrow> byte list option) \<Rightarrow> BN_MONT_CTX option" where
  "BN_MONT_CTX_new malloc =
     (case OPENSSL_malloc malloc 64 of
        None \<Rightarrow> None
      | Some _ \<Rightarrow> Some \<lparr>mont_RR = BN_init, mont_N = BN_init, mont_n0 = (0, 0)\<rparr>)"

definition BN_MONT_CTX_copy :: "(nat \<Rightarrow> byte list option) \<Rightarrow> BN_MONT_CTX \<Rightarrow> (BN_MONT_CTX, unit) op" where
  "BN_MONT_CTX_copy malloc from_ctx to_ctx =
     (case BN_copy malloc (mont_RR from_ctx) (mont_RR to_ctx) of
        (None, x) \<Rightarrow> (None, to_ctx\<lparr>mont_RR := x\<rparr>)
      | (Some _, x) \<Rightarrow>
          (case BN_copy malloc (mont_N from_ctx) (mont_N to_ctx) of
             (None, y) \<Rightarrow> (None, to_ctx\<lparr>mont_RR := x, mont_N := y\<rparr>)
           | (Some _, y) \<Rightarrow> (Some (), to_ctx\<lparr>mont_RR := x, mont_N := y, mont_n0 := mont_n0 from_ctx\<rparr>)))"

text \<open>\<open>None\<close> for the context of temporaries is the null pointer: the function makes one for itself.\<close>

definition mont_set_rr :: "(nat \<Rightarrow> byte list option) \<Rightarrow> BN_MONT_CTX \<Rightarrow> BN_CTX \<Rightarrow> unit option \<times> BN_MONT_CTX \<times> BN_CTX" where
  "mont_set_rr malloc mont ctx =
     (case bn_mod_exp_base_2_consttime malloc (bn_width (mont_N mont) * 64 * 2) (mont_N mont) (mont_RR mont) ctx of
        (e, rr, ctx) \<Rightarrow> (e, mont\<lparr>mont_RR := rr\<rparr>, ctx))"

definition BN_MONT_CTX_set :: "(nat \<Rightarrow> byte list option) \<Rightarrow> BIGNUM \<Rightarrow> BN_MONT_CTX \<Rightarrow> BN_CTX option \<Rightarrow> unit option \<times> BN_MONT_CTX \<times> BN_CTX option" where
  "BN_MONT_CTX_set malloc md mont ctx =
     (if BN_is_zero md then (None, mont, ctx)
      else if \<not> BN_is_odd md then (None, mont, ctx)
      else if BN_is_negative md then (None, mont, ctx)
      else
        (case BN_copy malloc md (mont_N mont) of
           (None, n) \<Rightarrow> (None, mont\<lparr>mont_N := n\<rparr>, ctx)
         | (Some _, n) \<Rightarrow>
             let n = bn_set_minimal_width n;
                 mont = mont\<lparr>mont_N := n, mont_n0 := (bn_mont_n0 n, 0)\<rparr>
             in case ctx of
                  Some c \<Rightarrow> (case mont_set_rr malloc mont c of (e, mont, c) \<Rightarrow> (e, mont, Some c))
                | None \<Rightarrow>
                    (case BN_CTX_new malloc of
                       None \<Rightarrow> (None, mont, None)
                     | Some c \<Rightarrow> (case mont_set_rr malloc mont c of (e, mont, _) \<Rightarrow> (e, mont, None)))))"

definition BN_MONT_CTX_new_for_modulus :: "(nat \<Rightarrow> byte list option) \<Rightarrow> BIGNUM \<Rightarrow> BN_CTX option \<Rightarrow> BN_MONT_CTX option \<times> BN_CTX option" where
  "BN_MONT_CTX_new_for_modulus malloc md ctx =
     (case BN_MONT_CTX_new malloc of
        None \<Rightarrow> (None, ctx)
      | Some mont \<Rightarrow>
          (case BN_MONT_CTX_set malloc md mont ctx of
             (None, _, ctx) \<Rightarrow> (None, ctx)
           | (Some _, mont, ctx) \<Rightarrow> (Some mont, ctx)))"

text \<open>\<open>seen\<close> and \<open>now\<close> are the values of \<open>*pmont\<close> in the two critical sections; another thread may have set it in
  between. The new value of \<open>*pmont\<close> is returned.\<close>

definition BN_MONT_CTX_set_locked :: "(nat \<Rightarrow> byte list option) \<Rightarrow> BN_MONT_CTX option \<Rightarrow> BN_MONT_CTX option \<Rightarrow> BIGNUM \<Rightarrow> BN_CTX option \<Rightarrow>
    bool \<times> BN_MONT_CTX option \<times> BN_CTX option" where
  "BN_MONT_CTX_set_locked malloc seen now md ctx =
     (if seen \<noteq> None then (True, now, ctx)
      else
        (case (if now = None then BN_MONT_CTX_new_for_modulus malloc md ctx else (now, ctx)) of
           (pmont, ctx) \<Rightarrow> (pmont \<noteq> None, pmont, ctx)))"

section \<open>Reduction\<close>

definition mont_step :: "u64 list \<Rightarrow> size_t \<Rightarrow> u64 \<Rightarrow> nat \<Rightarrow> u64 list \<times> u64 \<Rightarrow> u64 list \<times> u64" where
  "mont_step n num_n n0 i = (\<lambda>(a, carry).
     case bn_mul_add_words (drop i a) n num_n (a ! i * n0) of
       (ws, v) \<Rightarrow>
         let a = splice i ws a;
             v = v + (carry + a ! (i + num_n));
             carry = carry OR (if v \<noteq> a ! (i + num_n) then 1 else 0);
             carry = carry AND (if v \<le> a ! (i + num_n) then 1 else 0)
         in (a[i + num_n := v], carry))"

text \<open>The words of the result, and those left in \<open>a\<close>, an array of \<open>num_a\<close> words.\<close>

definition bn_from_montgomery_in_place :: "size_t \<Rightarrow> u64 list \<Rightarrow> size_t \<Rightarrow> BN_MONT_CTX \<Rightarrow> (u64 list \<times> u64 list) option" where
  "bn_from_montgomery_in_place num_r a num_a mont =
     (let n = bn_d (mont_N mont); num_n = bn_width (mont_N mont)
      in if num_r \<noteq> num_n \<or> num_a \<noteq> 2 * num_n then None
         else
           (case fold (mont_step n num_n (fst (mont_n0 mont))) [0 ..< num_n] (a, 0) of
              (a, carry) \<Rightarrow>
                case bn_sub_words (drop num_n a) n num_n of
                  (r, borrow) \<Rightarrow>
                    let v = 0 - (borrow - carry)
                    in Some (map (\<lambda>i. constant_time_select_w v (a ! (num_n + i)) (r ! i)) [0 ..< num_n],
                             take num_n a @ replicate num_n 0)))"

text \<open>The number to be reduced is a temporary that is written to as well.\<close>

definition BN_from_montgomery_word :: "(nat \<Rightarrow> byte list option) \<Rightarrow> BIGNUM \<Rightarrow> BN_MONT_CTX \<Rightarrow> BIGNUM \<Rightarrow> unit option \<times> BIGNUM \<times> BIGNUM" where
  "BN_from_montgomery_word malloc r mont result =
     (if neg r then (None, result, r)
      else if bn_width (mont_N mont) = 0 then (Some (), result\<lparr>bn_width := 0\<rparr>, r)
      else
        (let n = mont_N mont; mx = 2 * bn_width n
         in case bn_resize_words malloc mx r of
              (None, r) \<Rightarrow> (None, result, r)
            | (Some _, r) \<Rightarrow>
                (case bn_wexpand malloc (bn_width n) result of
                   (None, result) \<Rightarrow> (None, result, r)
                 | (Some _, result) \<Rightarrow>
                     let result = result\<lparr>bn_width := bn_width n, neg := False\<rparr>
                     in case bn_from_montgomery_in_place (bn_width result) (take (bn_width r) (bn_d r)) (bn_width r) mont of
                          None \<Rightarrow> (None, result, r)
                        | Some (ws, as) \<Rightarrow>
                            (Some (), result\<lparr>bn_d := splice 0 ws (bn_d result)\<rparr>, r\<lparr>bn_d := splice 0 as (bn_d r)\<rparr>))))"

definition BN_from_montgomery :: "(nat \<Rightarrow> byte list option) \<Rightarrow> BIGNUM \<Rightarrow> BN_MONT_CTX \<Rightarrow> BIGNUM \<Rightarrow> BN_CTX \<Rightarrow> unit option \<times> BIGNUM \<times> BN_CTX" where
  "BN_from_montgomery malloc a mont r ctx =
     (case BN_CTX_get malloc (BN_CTX_start malloc ctx) of
        (None, ctx) \<Rightarrow> (None, r, BN_CTX_end ctx)
      | (Some k, ctx) \<Rightarrow>
          (case BN_copy malloc a (ctx_val ctx k) of
             (None, t) \<Rightarrow> (None, r, BN_CTX_end (ctx_put k t ctx))
           | (Some _, t) \<Rightarrow>
               (case BN_from_montgomery_word malloc t mont r of (e, r, t) \<Rightarrow> (e, r, BN_CTX_end (ctx_put k t ctx)))))"

section \<open>Conversion and multiplication\<close>

definition mont_minus :: "u64 list \<Rightarrow> size_t \<Rightarrow> u64 list" where
  "mont_minus n num_n = (0 - n ! 0) # map (\<lambda>i. NOT (n ! i)) [1 ..< num_n]"

definition bn_one_to_montgomery :: "(nat \<Rightarrow> byte list option) \<Rightarrow> BN_MONT_CTX \<Rightarrow> BIGNUM \<Rightarrow> BN_CTX \<Rightarrow> unit option \<times> BIGNUM \<times> BN_CTX" where
  "bn_one_to_montgomery malloc mont r ctx =
     (let n = mont_N mont
      in if 0 < bn_width n \<and> drop_bit 63 (bn_d n ! (bn_width n - 1)) \<noteq> 0
         then (case bn_wexpand malloc (bn_width n) r of
                 (None, r) \<Rightarrow> (None, r, ctx)
               | (Some _, r) \<Rightarrow>
                   (Some (), r\<lparr>bn_d := splice 0 (mont_minus (bn_d n) (bn_width n)) (bn_d r), bn_width := bn_width n, neg := False\<rparr>, ctx))
         else BN_from_montgomery malloc (mont_RR mont) mont r ctx)"

text \<open>\<open>same\<close>: the factors are one object. \<open>None\<close> would be a crash in \<open>bn_mul_consttime\<close>.\<close>

definition bn_mod_mul_montgomery_fallback :: "(nat \<Rightarrow> byte list option) \<Rightarrow> bool \<Rightarrow> BIGNUM \<Rightarrow> BIGNUM \<Rightarrow> BN_MONT_CTX \<Rightarrow> BIGNUM \<Rightarrow> BN_CTX \<Rightarrow>
    (unit option \<times> BIGNUM \<times> BN_CTX) option" where
  "bn_mod_mul_montgomery_fallback malloc same a b mont r ctx =
     (case BN_CTX_get malloc (BN_CTX_start malloc ctx) of
        (None, ctx) \<Rightarrow> Some (None, r, BN_CTX_end ctx)
      | (Some k, ctx) \<Rightarrow>
          (case (if same then Some (bn_sqr_consttime malloc False a (ctx_val ctx k) ctx)
                 else bn_mul_consttime malloc False a b (ctx_val ctx k) ctx) of
             None \<Rightarrow> None
           | Some (None, t, ctx) \<Rightarrow> Some (None, r, BN_CTX_end (ctx_put k t ctx))
           | Some (Some _, t, ctx) \<Rightarrow>
               (case BN_from_montgomery_word malloc t mont r of (e, r, t) \<Rightarrow> Some (e, r, BN_CTX_end (ctx_put k t ctx)))))"

definition BN_mod_mul_montgomery :: "(nat \<Rightarrow> byte list option) \<Rightarrow> bool \<Rightarrow> BIGNUM \<Rightarrow> BIGNUM \<Rightarrow> BN_MONT_CTX \<Rightarrow> BIGNUM \<Rightarrow> BN_CTX \<Rightarrow>
    (unit option \<times> BIGNUM \<times> BN_CTX) option" where
  "BN_mod_mul_montgomery malloc same a b mont r ctx =
     (if neg a \<or> neg b then Some (None, r, ctx) else bn_mod_mul_montgomery_fallback malloc same a b mont r ctx)"

definition BN_to_montgomery :: "(nat \<Rightarrow> byte list option) \<Rightarrow> BIGNUM \<Rightarrow> BN_MONT_CTX \<Rightarrow> BIGNUM \<Rightarrow> BN_CTX \<Rightarrow> (unit option \<times> BIGNUM \<times> BN_CTX) option" where
  "BN_to_montgomery malloc a mont r ctx = BN_mod_mul_montgomery malloc False a (mont_RR mont) mont r ctx"

definition bn_less_than_montgomery_R :: "BIGNUM \<Rightarrow> BN_MONT_CTX \<Rightarrow> bool" where
  "bn_less_than_montgomery_R bn mont \<longleftrightarrow> \<not> BN_is_negative bn \<and> bn_fits_in_words bn (bn_width (mont_N mont))"

section \<open>Small arrays\<close>

definition bn_from_montgomery_small :: "size_t \<Rightarrow> u64 list \<Rightarrow> size_t \<Rightarrow> BN_MONT_CTX \<Rightarrow> u64 list option" where
  "bn_from_montgomery_small num_r a num_a mont =
     (let num_n = bn_width (mont_N mont)
      in if 2 * num_n < num_a \<or> num_r \<noteq> num_n \<or> BN_SMALL_MAX_WORDS < num_n then None
         else map_option fst (bn_from_montgomery_in_place num_r (take num_a a @ replicate (2 * num_n - num_a) 0) (2 * num_n) mont))"

definition bn_one_to_montgomery_small :: "size_t \<Rightarrow> BN_MONT_CTX \<Rightarrow> u64 list option" where
  "bn_one_to_montgomery_small num_r mont =
     (let n = bn_d (mont_N mont); num_n = bn_width (mont_N mont)
      in if num_n = 0 \<or> num_r \<noteq> num_n then None
         else if 0 < num_n \<and> drop_bit 63 (n ! (num_n - 1)) \<noteq> 0 then Some (mont_minus n num_n)
         else bn_from_montgomery_small num_r (bn_d (mont_RR mont)) (bn_width (mont_RR mont)) mont)"

text \<open>\<open>old\<close> stands for the uninitialised words of the array on the stack.\<close>

definition bn_mod_mul_montgomery_small :: "u64 list \<Rightarrow> bool \<Rightarrow> size_t \<Rightarrow> u64 list \<Rightarrow> size_t \<Rightarrow> u64 list \<Rightarrow> size_t \<Rightarrow> BN_MONT_CTX \<Rightarrow> u64 list option" where
  "bn_mod_mul_montgomery_small old same num_r a num_a b num_b mont =
     (let num_n = bn_width (mont_N mont)
      in if num_r \<noteq> num_n \<or> 2 * num_n < num_a + num_b \<or> BN_SMALL_MAX_WORDS < num_n then None
         else
           (case (if same \<and> num_a = num_b then bn_sqr_small old (num_a + num_b) a num_a
                  else bn_mul_small (num_a + num_b) a num_a b num_b) of
              None \<Rightarrow> None
            | Some ws \<Rightarrow>
                map_option fst (bn_from_montgomery_in_place num_r (ws @ replicate (2 * num_n - (num_a + num_b)) 0) (2 * num_n) mont)))"

definition bn_to_montgomery_small :: "u64 list \<Rightarrow> size_t \<Rightarrow> u64 list \<Rightarrow> size_t \<Rightarrow> BN_MONT_CTX \<Rightarrow> u64 list option" where
  "bn_to_montgomery_small old num_r a num_a mont =
     bn_mod_mul_montgomery_small old False num_r a num_a (bn_d (mont_RR mont)) (bn_width (mont_RR mont)) mont"


section \<open>The inverse\<close>

lemma u64_add: "unat (a :: u64) + unat b < 2 ^ 64 \<Longrightarrow> unat (a + b) = unat a + unat b"
  by (simp add: unat_add_lem [symmetric])

lemma dietz_average: "unat (drop_bit 1 (x XOR y) + (x AND y) :: u64) = (unat x + unat y) div 2"
proof -
  have xo: "x XOR y = (x OR y) XOR (x AND y)" by (rule bit_word_eqI) (auto simp: bit_simps)
  have d: "(x XOR y) AND (x AND y) = 0" by (rule bit_word_eqI) (auto simp: bit_simps)
  have o: "x OR y = (x XOR y) OR (x AND y)" by (rule bit_word_eqI) (auto simp: bit_simps)
  have "unat (x XOR y) + unat (x AND y) = unat (x OR y)"
  proof -
    have "unat (x XOR y) AND unat (x AND y) = unat ((x XOR y) AND (x AND y))" by (simp add: unsigned_and_eq)
    then have "unat (x XOR y) AND unat (x AND y) = 0" unfolding d by simp
    then have "unat (x XOR y) + unat (x AND y) = unat (x XOR y) OR unat (x AND y)" by (rule disjunctive_add_eq_or)
    then show ?thesis unfolding o by (simp add: unsigned_or_eq)
  qed
  moreover have "unat (x AND y) + unat (x OR y) = unat x + unat y"
  proof -
    have "uint (x AND y) + uint (x OR y) = uint x + uint y" by (simp add: unsigned_and_eq unsigned_or_eq plus_and_or)
    then have "int (unat (x AND y) + unat (x OR y)) = int (unat x + unat y)" by simp
    then show ?thesis by (simp only: of_nat_eq_iff)
  qed
  ultimately have s: "unat x + unat y = unat (x XOR y) + 2 * unat (x AND y)" by linarith
  have "unat (drop_bit 1 (x XOR y)) = unat (x XOR y) div 2" unfolding unat_drop_bit_eq by (simp add: drop_bit_eq_div)
  moreover have "unat (x XOR y) div 2 + unat (x AND y) < 2 ^ 64" using s u64_less [of x] u64_less [of y] by linarith
  ultimately have "unat (drop_bit 1 (x XOR y) + (x AND y)) = unat (x XOR y) div 2 + unat (x AND y)"
    using u64_add [of "drop_bit 1 (x XOR y)" "x AND y"] by metis
  then show ?thesis using s by simp
qed

lemma neg_inv_step_val:
  assumes "neg_inv_step beta (u, v) = (u', v')" "odd (unat beta)" "i < 64"
    and inv: "2 ^ (64 - i) + unat v * unat beta = unat u * 2 ^ 64"
  shows "2 ^ (64 - Suc i) + unat v' * unat beta = unat u' * 2 ^ 64"
proof -
  define b where "b = (if odd (unat u) then unat beta else 0)"
  have "odd (unat u) \<longleftrightarrow> odd u" using bit_unsigned_iff [of u 0, where 'a = nat] by (simp add: bit_0)
  then have m: "0 - (u AND 1) = (if odd (unat u) then NOT 0 else 0)" by (simp add: and_one_eq mod2_eq_if)
  have u': "unat u' = (unat u + b) div 2"
    using assms(1) dietz_average [of u "beta AND (0 - (u AND 1))"] unfolding neg_inv_step_def Let_def prod.case m
    by (auto simp: b_def)
  have "v' = drop_bit 1 v + (if odd (unat u) then push_bit 63 1 else 0)"
    using assms(1) unfolding neg_inv_step_def Let_def prod.case m by auto
  moreover have "unat (drop_bit 1 v) = unat v div 2" unfolding unat_drop_bit_eq by (simp add: drop_bit_eq_div)
  moreover have "unat v div 2 < 2 ^ 63" using u64_less [of v] by (intro less_mult_imp_div_less) simp
  then have "unat v div 2 + 2 ^ 63 < 2 ^ 64" by simp
  ultimately have v': "unat v' = unat v div 2 + (if odd (unat u) then 2 ^ 63 else 0)"
    using u64_add [of "drop_bit 1 v" "push_bit 63 1"] by auto
  have "even (2 ^ (64 - i) + unat v * unat beta)" unfolding inv by simp
  then have "even (unat v)" using assms(2,3) by simp
  then obtain w where w: "unat v = 2 * w" by blast
  have "even (unat u + b)" using assms(2) by (simp add: b_def)
  then have "2 * unat u' = unat u + b" unfolding u' by simp
  then have "2 * (unat u' * 2 ^ 64) = 2 ^ (64 - i) + 2 * w * unat beta + b * 2 ^ 64"
    using inv unfolding w by (metis add_mult_distrib mult.assoc)
  moreover have "(2 :: nat) ^ (64 - i) = 2 * 2 ^ (64 - Suc i)" using assms(3) by (simp add: Suc_diff_Suc power_Suc [symmetric] del: power_Suc)
  moreover have "unat v' * unat beta * 2 = 2 * w * unat beta + b * 2 ^ 64"
    unfolding v' w b_def by (simp add: add_mult_distrib)
  ultimately show ?thesis by linarith
qed

lemma neg_inv:
  assumes "odd (unat n)"
  shows "(bn_neg_inv_mod_r_u64 n) * n = - 1"
proof -
  have inv: "i \<le> 64 \<Longrightarrow> case (neg_inv_step n ^^ i) (1, 0) of (u, v) \<Rightarrow> 2 ^ (64 - i) + unat v * unat n = unat u * 2 ^ 64" for i
  proof (induction i)
    case (Suc i)
    obtain u v where uv: "(neg_inv_step n ^^ i) (1, 0) = (u, v)" by (cases "(neg_inv_step n ^^ i) (1, 0)")
    obtain u' v' where uv': "neg_inv_step n (u, v) = (u', v')" by (cases "neg_inv_step n (u, v)")
    show ?case using neg_inv_step_val [OF uv' assms, of i] Suc uv uv' by simp
  qed simp
  obtain u v where uv: "(neg_inv_step n ^^ 64) (1, 0) = (u, v)" by (cases "(neg_inv_step n ^^ 64) (1, 0)")
  have e: "1 + unat v * unat n = unat u * 2 ^ 64" using inv [of 64] uv by simp
  have "(of_nat (1 + unat v * unat n) :: u64) = of_nat (unat u * 2 ^ 64)" unfolding e ..
  then have "1 + v * n = u * 2 ^ 64" by (simp only: of_nat_add of_nat_mult of_nat_1 of_nat_power of_nat_numeral) simp
  moreover have "(2 ^ 64 :: u64) = 0" by (simp add: exp_eq_zero_iff)
  ultimately have "1 + v * n = 0" by (simp only: mult_zero_right)
  then have "v * n = - 1" by (simp add: eq_neg_iff_add_eq_0 add.commute)
  then show ?thesis by (simp add: bn_neg_inv_mod_r_u64_def uv)
qed


section \<open>The reduction\<close>

lemma mont_carry:
  fixes v x :: u64
  assumes c: "unat carry \<le> 1"
  defines "w \<equiv> v + (carry + x)"
  defines "c' \<equiv> (carry OR (if w \<noteq> x then 1 else 0)) AND (if w \<le> x then 1 else 0)"
  shows "unat w + 2 ^ 64 * unat c' = unat v + unat carry + unat x \<and> unat c' \<le> 1"
proof -
  define s where "s = unat v + unat carry"
  have s: "s \<le> 2 ^ 64" using u64_less [of v] c by (simp add: s_def)
  have "of_nat (s + unat x) = w" by (simp add: s_def w_def add_ac)
  then have w: "unat w = (s + unat x) mod 2 ^ 64" using unat_of_nat [of "s + unat x", where 'a = 64] by simp
  have cc: "carry = 0 \<or> carry = 1"
  proof -
    have "unat carry = 0 \<or> unat carry = 1" using c by linarith
    then show ?thesis by (auto simp: word_unat_eq_iff)
  qed
  have x: "unat x < 2 ^ 64" by (rule u64_less)
  consider "s = 0" | "0 < s" "s + unat x < 2 ^ 64" | "s < 2 ^ 64" "2 ^ 64 \<le> s + unat x" | "s = 2 ^ 64" using s by linarith
  then show ?thesis
  proof cases
    case 1
    then have "carry = 0" "w = x" using cc by (auto simp: s_def w_def unat_eq_0)
    then show ?thesis using 1 by (simp add: c'_def s_def)
  next
    case 2
    then have "unat w = s + unat x" using w by simp
    then have "\<not> w \<le> x" using 2(1) by (simp add: word_le_nat_alt)
    then show ?thesis using \<open>unat w = s + unat x\<close> by (simp add: c'_def s_def)
  next
    case 3
    have "s + unat x - 2 ^ 64 < 2 ^ 64" using 3 x by linarith
    then have ws: "unat w + 2 ^ 64 = s + unat x" using w 3(2) le_mod_geq [of "2 ^ 64" "s + unat x"] by simp
    then have "unat w < unat x" using 3 by linarith
    then have "w \<noteq> x" "w \<le> x" by (auto simp: word_le_nat_alt)
    then have "c' = 1" using cc by (auto simp: c'_def)
    then show ?thesis using ws by (simp add: s_def)
  next
    case 4
    then have c1: "carry = 1" using cc u64_less [of v] by (auto simp: s_def)
    have "unat w = unat x" using w x 4 by simp
    then have "w = x" by (simp add: word_unat_eq_iff)
    then have "c' = 1" using c1 by (simp add: c'_def)
    then show ?thesis using \<open>unat w = unat x\<close> 4 by (simp add: s_def)
  qed
qed

text \<open>After \<open>i\<close> words: the low \<open>i\<close> words are zero and a multiple of the modulus below \<open>2 ^ (64 i)\<close> times it has
  been added; the carry belongs above word \<open>i + num_n - 1\<close>.\<close>

definition mont_inv :: "nat \<Rightarrow> nat \<Rightarrow> nat \<Rightarrow> nat \<Rightarrow> nat \<Rightarrow> u64 list \<times> u64 \<Rightarrow> bool" where
  "mont_inv n N T len i = (\<lambda>(a, carry). length a = len \<and> unat carry \<le> 1 \<and> (\<forall>j < i. a ! j = 0) \<and>
     (\<exists>K < 2 ^ (64 * i). bn_val a + 2 ^ (64 * (n + i)) * unat carry = T + K * N))"

lemma splice_val:
  assumes "i + length ws \<le> length d"
  shows "bn_val (splice i ws d) + 2 ^ (64 * i) * bn_part (length ws) (drop i d) = bn_val d + 2 ^ (64 * i) * bn_val ws"
proof -
  define m where "m = length ws"
  have d: "bn_val d = bn_part i d + 2 ^ (64 * i) * (bn_part m (drop i d) + 2 ^ (64 * m) * bn_val (drop (i + m) d))"
    using bn_val_take_drop [of i d] bn_val_take_drop [of m "drop i d"] assms by (simp add: m_def add.commute)
  have "bn_val (splice i ws d) = bn_part i d + 2 ^ (64 * i) * (bn_val ws + 2 ^ (64 * m) * bn_val (drop (i + m) d))"
    using assms by (simp add: splice_def bn_val_append m_def min_def)
  then show ?thesis unfolding d m_def [symmetric] by (simp only: distrib_left add_ac)
qed

lemma update_val:
  assumes "i < length d"
  shows "bn_val (d[i := w]) + 2 ^ (64 * i) * unat (d ! i) = bn_val d + 2 ^ (64 * i) * unat w"
proof -
  have "d[i := w] = splice i [w] d" using assms by (simp add: splice_def upd_conv_take_nth_drop)
  moreover have "bn_part (Suc 0) (drop i d) = unat (d ! i)" using assms by (simp add: take_Suc_conv_app_nth)
  ultimately show ?thesis using splice_val [of i "[w]" d] assms by simp
qed


lemma of_nat_unat_self: "of_nat (unat (w :: u64)) = w"
  by simp

lemma val_low_word: "ws \<noteq> [] \<Longrightarrow> (of_nat (bn_val ws) :: u64) = ws ! 0"
proof -
  assume "ws \<noteq> []"
  then obtain w us where "ws = w # us" by (cases ws) simp_all
  moreover have "(2 ^ 64 :: u64) = 0" by (simp add: exp_eq_zero_iff)
  then have "(of_nat (unat w + 2 ^ 64 * bn_val us) :: u64) = w"
    by (simp only: of_nat_add of_nat_mult of_nat_power of_nat_numeral mult_zero_left of_nat_unat_self add_0_right)
  ultimately show ?thesis by simp
qed

lemma mont_step_inv:
  assumes inv: "mont_inv n N T (2 * n) i (a, carry)" and i: "i < n" and nn: "n \<le> length nn" "N = bn_part n nn" "n0 * nn ! 0 = - 1"
  shows "mont_inv n N T (2 * n) (Suc i) (mont_step nn n n0 i (a, carry))"
proof -
  obtain K where I: "length a = 2 * n" "unat carry \<le> 1" "\<forall>j < i. a ! j = 0" "K < 2 ^ (64 * i)"
    "bn_val a + 2 ^ (64 * (n + i)) * unat carry = T + K * N"
    using inv by (auto simp: mont_inv_def)
  define w where "w = a ! i * n0"
  obtain ws v where m: "bn_mul_add_words (drop i a) nn n w = (ws, v)" by (cases "bn_mul_add_words (drop i a) nn n w")
  have M: "bn_val ws + 2 ^ (64 * n) * unat v = bn_part n (drop i a) + N * unat w" "length ws = n"
    using mul_add_words_val [OF m] I(1) i nn(1,2) by simp_all
  define a1 where "a1 = splice i ws a"
  have l1: "length a1 = 2 * n" using I(1) M(2) i by (simp add: a1_def splice_def)
  define x where "x = a1 ! (i + n)"
  define v' where "v' = v + (carry + x)"
  define c' where "c' = (carry OR (if v' \<noteq> x then 1 else 0)) AND (if v' \<le> x then 1 else 0)"
  have C: "unat v' + 2 ^ 64 * unat c' = unat v + unat carry + unat x" "unat c' \<le> 1"
    using mont_carry [OF I(2), of v x] unfolding v'_def [symmetric] c'_def [symmetric] by simp_all
  define a2 where "a2 = a1[i + n := v']"
  have step: "mont_step nn n n0 i (a, carry) = (a2, c')"
    unfolding mont_step_def prod.case w_def [symmetric] m Let_def a1_def [symmetric] x_def [symmetric] v'_def [symmetric] a2_def c'_def ..
  define P where "P = (2 :: nat) ^ (64 * (n + i))"
  have pw: "2 ^ (64 * i) * 2 ^ (64 * n) = P" "(2 :: nat) ^ (64 * (n + Suc i)) = P * 2 ^ 64"
  proof -
    have "64 * (n + Suc i) = 64 * (n + i) + 64" "64 * i + 64 * n = 64 * (n + i)" by simp_all
    then show "2 ^ (64 * i) * 2 ^ (64 * n) = P" "(2 :: nat) ^ (64 * (n + Suc i)) = P * 2 ^ 64"
      by (simp_all only: P_def power_add [symmetric])
  qed
  have v1: "bn_val a1 + P * unat v = bn_val a + 2 ^ (64 * i) * (N * unat w)"
  proof -
    have "bn_val a1 + 2 ^ (64 * i) * bn_part n (drop i a) = bn_val a + 2 ^ (64 * i) * bn_val ws"
      using splice_val [of i ws a] M(2) I(1) i by (simp add: a1_def)
    moreover have "2 ^ (64 * i) * bn_val ws + P * unat v = 2 ^ (64 * i) * bn_part n (drop i a) + 2 ^ (64 * i) * (N * unat w)"
      using arg_cong [OF M(1), of "\<lambda>z. 2 ^ (64 * i) * z"] unfolding pw(1) [symmetric] by (simp only: distrib_left mult.assoc)
    ultimately show ?thesis by linarith
  qed
  have v2: "bn_val a2 + P * unat x = bn_val a1 + P * unat v'"
    using update_val [of "i + n" a1 v'] l1 i by (simp add: a2_def x_def P_def add.commute)
  have "P * unat v' + P * 2 ^ 64 * unat c' = P * unat v + P * unat carry + P * unat x"
    using arg_cong [OF C(1), of "\<lambda>z. P * z"] by (simp only: distrib_left mult.assoc)
  then have "bn_val a2 + P * 2 ^ 64 * unat c' = T + K * N + 2 ^ (64 * i) * (N * unat w)"
    using v1 v2 I(5) unfolding P_def [symmetric] by linarith
  also have "\<dots> = T + (K + 2 ^ (64 * i) * unat w) * N" by (simp only: distrib_right distrib_left mult_ac add_ac)
  finally have val: "bn_val a2 + 2 ^ (64 * (n + Suc i)) * unat c' = T + (K + 2 ^ (64 * i) * unat w) * N" unfolding pw(2) .
  have "K + 2 ^ (64 * i) * unat w < 2 ^ (64 * Suc i)"
  proof -
    have "2 ^ (64 * i) * unat w \<le> 2 ^ (64 * i) * (2 ^ 64 - 1)" using u64_less [of w] by (intro mult_le_mono2) linarith
    moreover have "(2 :: nat) ^ (64 * i) * (2 ^ 64 - 1) + 2 ^ (64 * i) = 2 ^ (64 * Suc i)" by (simp add: power_add)
    ultimately show ?thesis using I(4) by linarith
  qed
  moreover have "\<forall>j < Suc i. a2 ! j = 0"
  proof (intro allI impI)
    fix j
    assume "j < Suc i"
    then consider "j < i" | "j = i" by linarith
    then show "a2 ! j = 0"
    proof cases
      case 1
      then have "a2 ! j = a ! j" using i I(1) by (simp add: a2_def a1_def splice_def nth_append)
      then show ?thesis using I(3) 1 by simp
    next
      case 2
      have ne: "ws \<noteq> []" "drop i a \<noteq> []" "take n nn \<noteq> []" "take n (drop i a) \<noteq> []" using M(2) i I(1) nn(1) by auto
      have "(of_nat (bn_val ws + 2 ^ (64 * n) * unat v) :: u64) = of_nat (bn_part n (drop i a) + N * unat w)" unfolding M(1) ..
      moreover have "(of_nat (2 ^ (64 * n)) :: u64) = 0" using i by (simp add: exp_eq_zero_iff)
      ultimately have "ws ! 0 = take n (drop i a) ! 0 + take n nn ! 0 * w"
        unfolding nn(2) by (simp only: of_nat_add of_nat_mult val_low_word [OF ne(1)] val_low_word [OF ne(3)] val_low_word [OF ne(4)] of_nat_unat_self mult_zero_left add_0_right)
      also have "\<dots> = a ! i + nn ! 0 * (a ! i * n0)" using i I(1) nn(1) by (simp add: w_def)
      also have "\<dots> = a ! i + a ! i * (n0 * nn ! 0)" by (simp add: mult_ac)
      also have "\<dots> = 0" unfolding nn(3) by simp
      finally have "ws ! 0 = 0" .
      moreover have "a2 ! i = ws ! 0" using i I(1) M(2) ne(1) by (simp add: a2_def a1_def splice_def nth_append)
      ultimately show ?thesis using 2 by simp
    qed
  qed
  ultimately show ?thesis unfolding step mont_inv_def prod.case using val C(2) l1 by (auto simp: a2_def)
qed


text \<open>The context invariant: what \<open>BN_MONT_CTX_set\<close> establishes.\<close>

definition mont_ok :: "BN_MONT_CTX \<Rightarrow> bool" where
  "mont_ok mont \<longleftrightarrow> bn_ok (mont_N mont) \<and> \<not> neg (mont_N mont) \<and> bn_tight (mont_N mont) \<and> odd (bn_mag (mont_N mont)) \<and>
     fst (mont_n0 mont) * bn_d (mont_N mont) ! 0 = - 1 \<and> bn_ok (mont_RR mont) \<and> \<not> neg (mont_RR mont) \<and>
     bn_width (mont_RR mont) \<le> bn_width (mont_N mont) \<and>
     bn_mag (mont_RR mont) = 2 ^ (64 * bn_width (mont_N mont)) * 2 ^ (64 * bn_width (mont_N mont)) mod bn_mag (mont_N mont)"

abbreviation mont_R :: "BN_MONT_CTX \<Rightarrow> nat" where
  "mont_R mont \<equiv> 2 ^ (64 * bn_width (mont_N mont))"

lemma mont_okD:
  assumes "mont_ok mont"
  shows "0 < bn_width (mont_N mont)" "0 < bn_mag (mont_N mont)" "bn_mag (mont_N mont) < mont_R mont" "coprime (mont_R mont) (bn_mag (mont_N mont))"
proof -
  have o: "odd (bn_mag (mont_N mont))" using assms by (simp add: mont_ok_def)
  then show "0 < bn_mag (mont_N mont)" by (cases "bn_mag (mont_N mont)") simp_all
  then show "0 < bn_width (mont_N mont)" by (cases "bn_width (mont_N mont)") (simp_all add: bn_mag_def)
  show "bn_mag (mont_N mont) < mont_R mont" by (rule bn_mag_less)
  show "coprime (mont_R mont) (bn_mag (mont_N mont))" using o by (simp add: coprime_power_left_iff)
qed

lemma in_place_spec:
  assumes ok: "mont_ok mont" and a: "length a = 2 * bn_width (mont_N mont)" "bn_val a < bn_mag (mont_N mont) * mont_R mont"
  shows "\<exists>ws as. bn_from_montgomery_in_place (bn_width (mont_N mont)) a (2 * bn_width (mont_N mont)) mont = Some (ws, as) \<and>
    length ws = bn_width (mont_N mont) \<and> length as = length a \<and> bn_val ws < bn_mag (mont_N mont) \<and>
    bn_val ws * mont_R mont mod bn_mag (mont_N mont) = bn_val a mod bn_mag (mont_N mont)"
proof -
  define n nn N R T where "n = bn_width (mont_N mont)" and "nn = bn_d (mont_N mont)" and "N = bn_mag (mont_N mont)"
    and "R = mont_R mont" and "T = bn_val a"
  have Np: "N = bn_part n nn" by (simp add: N_def n_def nn_def bn_mag_def)
  have nl: "n \<le> length nn" using ok bn_okD(1) by (simp add: mont_ok_def n_def nn_def)
  have n0: "fst (mont_n0 mont) * nn ! 0 = - 1" using ok by (simp add: mont_ok_def nn_def)
  have len: "length a = 2 * n" using a(1) by (simp add: n_def)
  have R: "R = 2 ^ (64 * n)" by (simp add: R_def n_def)
  have lt: "T < N * R" using a(2) by (simp add: T_def N_def R_def)
  have N0: "0 < N" using mont_okD(2) [OF ok] by (simp add: N_def)
  have loop: "k \<le> n \<Longrightarrow> mont_inv n N T (2 * n) k (fold (mont_step nn n (fst (mont_n0 mont))) [0 ..< k] (a, 0))" for k
  proof (induction k)
    case 0
    then show ?case using len by (simp add: mont_inv_def T_def)
  next
    case (Suc k)
    obtain b c where "fold (mont_step nn n (fst (mont_n0 mont))) [0 ..< k] (a, 0) = (b, c)"
      by (cases "fold (mont_step nn n (fst (mont_n0 mont))) [0 ..< k] (a, 0)")
    then show ?case using mont_step_inv [OF _ _ nl Np n0, of T k b c] Suc by simp
  qed
  obtain b carry where f: "fold (mont_step nn n (fst (mont_n0 mont))) [0 ..< n] (a, 0) = (b, carry)"
    by (cases "fold (mont_step nn n (fst (mont_n0 mont))) [0 ..< n] (a, 0)")
  obtain K where B: "length b = 2 * n" "unat carry \<le> 1" "\<forall>j < n. b ! j = 0" "K < R" "bn_val b + 2 ^ (64 * (n + n)) * unat carry = T + K * N"
    using loop [of n] unfolding f mont_inv_def R by auto
  define hi where "hi = drop n b"
  have hl: "length hi = n" using B(1) by (simp add: hi_def)
  have "bn_part n b = 0" using B(1,3) by (auto simp: bn_val_eq_0 in_set_conv_nth)
  then have vb: "bn_val b = R * bn_val hi" using bn_val_take_drop [of n b] B(1) by (simp add: R hi_def)
  define V where "V = bn_val hi + 2 ^ (64 * n) * unat carry"
  have RV: "R * V = T + K * N"
  proof -
    have "(2 :: nat) ^ (64 * (n + n)) = R * 2 ^ (64 * n)" by (simp only: R power_add [symmetric] distrib_left)
    then show ?thesis using B(5) unfolding vb V_def by (simp only: distrib_left mult.assoc)
  qed
  have "K * N \<le> R * N" using B(4) by (intro mult_le_mono1) simp
  moreover have "R * (2 * N) = N * R + R * N" by simp
  ultimately have "R * V < R * (2 * N)" using lt RV by linarith
  then have V2: "V < 2 * N" by (rule mult_less_cancel1 [THEN iffD1, THEN conjunct2])
  obtain r borrow where s: "bn_sub_words hi nn n = (r, borrow)" by (cases "bn_sub_words hi nn n")
  note S = select_reduced [OF s nl hl B(2) V_def [symmetric] V2 [unfolded Np], folded Np]
  have d: "bn_from_montgomery_in_place n a (2 * n) mont = Some (bn_select_words (carry - borrow) hi r n, take n b @ replicate n 0)"
    unfolding bn_from_montgomery_in_place_def Let_def n_def [symmetric] nn_def [symmetric] f hi_def [symmetric] prod.case s
    using B(1) by (simp add: bn_select_words_def hi_def)
  have "V mod N * R mod N = V * R mod N" by (rule mod_mult_left_eq)
  also have "\<dots> = T mod N" using RV by (simp add: mult.commute)
  finally have "V mod N * R mod N = T mod N" .
  moreover have "V mod N < N" using N0 by simp
  ultimately show ?thesis using d S(2) B(1) len unfolding n_def [symmetric] N_def [symmetric] R [symmetric] T_def [symmetric] by auto
qed


text \<open>The Montgomery reduction of \<open>t\<close>: \<open>x R = t\<close> modulo the modulus.\<close>

definition mont_reduced :: "BN_MONT_CTX \<Rightarrow> nat \<Rightarrow> nat \<Rightarrow> bool" where
  "mont_reduced mont t x \<longleftrightarrow> x < bn_mag (mont_N mont) \<and> x * mont_R mont mod bn_mag (mont_N mont) = t mod bn_mag (mont_N mont)"

lemma from_word_spec:
  assumes al: "allocator malloc" and ok: "mont_ok mont" "bn_ok r" "bn_ok result" and r: "\<not> neg r" "bn_mag r < bn_mag (mont_N mont) * mont_R mont"
    and u: "BN_from_montgomery_word malloc r mont result = (e, result', r')"
  shows "bn_ok result' \<and> bn_static result' = bn_static result \<and> bn_ok r' \<and> bn_static r' = bn_static r \<and>
    (e \<noteq> None \<longrightarrow> mont_reduced mont (bn_mag r) (bn_mag result') \<and> \<not> neg result' \<and> bn_width result' = bn_width (mont_N mont)) \<and>
    (serves malloc \<and> \<not> bn_static result \<and> \<not> bn_static r \<and> 2 * bn_width (mont_N mont) \<le> INT_MAX div 256 \<longrightarrow> e \<noteq> None)"
proof -
  define n where "n = bn_width (mont_N mont)"
  have n0: "n \<noteq> 0" using mont_okD(1) [OF ok(1)] by (simp add: n_def)
  obtain e1 r1 where x: "bn_resize_words malloc (2 * n) r = (e1, r1)" by (cases "bn_resize_words malloc (2 * n) r")
  note X = resize_words_spec [OF al ok(2) x]
  obtain e2 t where y: "bn_wexpand malloc n result = (e2, t)" by (cases "bn_wexpand malloc n result")
  note Y = wexpand_ok [OF al ok(3) y] static_wexpand [OF y]
  have ncalm: "n \<le> INT_MAX div 256" using ok(1) by (simp add: mont_ok_def bn_ok_def n_def)
  have lim: "bn_mag r < 2 ^ (64 * (2 * n))"
  proof -
    have "bn_mag (mont_N mont) * mont_R mont \<le> mont_R mont * mont_R mont" using mont_okD(3) [OF ok(1)] by simp
    also have "\<dots> = 2 ^ (64 * (2 * n))" by (simp add: n_def power_add [symmetric])
    finally show ?thesis using r(2) by simp
  qed
  have calm: "e1 \<noteq> None \<and> e2 \<noteq> None" if "serves malloc" "\<not> bn_static result" "\<not> bn_static r" "2 * n \<le> INT_MAX div 256"
  proof -
    have "e1 \<noteq> None"
    proof (cases "bn_width r \<le> 2 * n")
      case True
      then show ?thesis using resize_calm [OF that(1,3) _ that(4)] x by auto
    next
      case False
      then show ?thesis using x fits_in_words(2) [OF ok(2), of "2 * n"] lim by (auto simp: bn_resize_words_def)
    qed
    then show ?thesis using wexpand_serves [OF that(1) ncalm that(2)] y by auto
  qed
  have ng: "\<not> neg r" by (rule r(1))
  note U = u [unfolded BN_from_montgomery_word_def if_not_P [OF ng] Let_def, folded n_def, unfolded if_not_P [OF n0] x y prod.case]
  show ?thesis
  proof (cases "e1 = None \<or> e2 = None")
    case True
    then have "e = None" "result' = result \<or> result' = t" "r' = r1" using U by (auto split: option.splits)
    then show ?thesis using X Y ok calm True by (auto simp: n_def)
  next
    case False
    have X2: "bn_ok r1" "bn_static r1 = bn_static r" "bn_width r1 = 2 * n" "bn_mag r1 = bn_mag r" "neg r1 = neg r" using X False by auto
    define a where "a = take (bn_width r1) (bn_d r1)"
    have a: "length a = 2 * n" "bn_val a = bn_mag r" using X2 bn_okD(1) [OF X2(1)] by (simp_all add: a_def bn_mag_def)
    obtain ws as where P: "bn_from_montgomery_in_place n a (2 * n) mont = Some (ws, as)" "length ws = n" "length as = 2 * n"
      "mont_reduced mont (bn_mag r) (bn_val ws)"
      using in_place_spec [OF ok(1), of a] a r(2) unfolding n_def [symmetric] mont_reduced_def by auto
    define t2 where "t2 = t\<lparr>bn_width := n, neg := False\<rparr>"
    have R: "e = Some ()" "result' = t2\<lparr>bn_d := splice 0 ws (bn_d t2)\<rparr>" "r' = r1\<lparr>bn_d := splice 0 as (bn_d r1)\<rparr>"
      using U False P(1) [unfolded a_def X2(3)] X2(3) by (auto simp: t2_def)
    have t: "bn_ok t" "n \<le> length (bn_d t)" using Y False by (auto simp: bn_ok_def)
    have l: "length ws \<le> length (bn_d t)" "length as \<le> length (bn_d r1)" using t(2) P(2,3) X2(1,3) by (simp_all add: bn_ok_def)
    have "bn_ok result'" "bn_mag result' = bn_val ws" "\<not> neg result'" "bn_width result' = n" "bn_static result' = bn_static t"
      using t write_words [OF l(1)] P(2) by (simp_all add: R t2_def bn_ok_def bn_mag_def)
    moreover have "bn_ok r'" "bn_static r' = bn_static r1" using X2(1) write_words [OF l(2)] by (simp_all add: R bn_ok_def)
    ultimately show ?thesis using Y X2 P(4) R(1) by (simp add: n_def)
  qed
qed

lemma from_montgomery_spec:
  assumes al: "allocator malloc" and ok: "mont_ok mont" "bn_ok a" "bn_ok r" and a: "\<not> neg a" "bn_mag a < bn_mag (mont_N mont) * mont_R mont"
    and c: "ctx_ok n ctx" "depth (frames ctx) < n" "n < 2 ^ 30"
    and u: "BN_from_montgomery malloc a mont r ctx = (e, r', ctx')"
  shows "ctx_same n ctx ctx' \<and> bn_ok r' \<and> bn_static r' = bn_static r \<and>
    (e \<noteq> None \<longrightarrow> mont_reduced mont (bn_mag a) (bn_mag r') \<and> \<not> neg r' \<and> bn_width r' = bn_width (mont_N mont)) \<and>
    (serves malloc \<and> ctx_calm ctx \<and> \<not> bn_static r \<and> 2 * bn_width (mont_N mont) \<le> INT_MAX div 256 \<longrightarrow> e \<noteq> None)"
proof -
  obtain g c1 where g: "BN_CTX_get malloc (BN_CTX_start malloc ctx) = (g, c1)" by (cases "BN_CTX_get malloc (BN_CTX_start malloc ctx)")
  note F = frame_get [OF al c g]
  show ?thesis
  proof (cases g)
    case None
    then show ?thesis using u F(4) [OF F(2)] F(6) ok(3) by (auto simp: BN_from_montgomery_def g)
  next
    case (Some k)
    have kv: "bn_dynamic (ctx_val c1 k)" using F(5) [OF Some] by simp
    obtain e1 t where x: "BN_copy malloc a (ctx_val c1 k) = (e1, t)" by (cases "BN_copy malloc a (ctx_val c1 k)")
    note C = copy_spec [OF al ok(2) bn_dynamicD(1) [OF kv] x]
    have st: "\<not> bn_static t" using static_copy [OF x] bn_dynamicD(2) [OF kv] by simp
    have tok: "bn_ok t" using C bn_dynamicD(1) [OF kv] by (auto split: option.splits)
    have put: "ctx_same n ctx (BN_CTX_end (ctx_put k z c1))" if "bn_ok z" "\<not> bn_static z" for z
      by (rule F(4) [OF inside_put_trans [OF F(2)]]) (use that in \<open>simp add: bn_dynamic_def\<close>)
    show ?thesis
    proof (cases e1)
      case n1: None
      have "\<not> serves malloc" using copy_calm [OF _ bn_dynamicD(2) [OF kv], of malloc a] x n1 ok(2) by (auto simp: bn_ok_def)
      then show ?thesis using u n1 x Some put [OF tok st] ok(3) by (auto simp: BN_from_montgomery_def g)
    next
      case s1: (Some y)
      have t: "\<not> neg t" "bn_mag t = bn_mag a" using C s1 a(1) by simp_all
      obtain e2 r2 t2 where w: "BN_from_montgomery_word malloc t mont r = (e2, r2, t2)" by (rule prod_cases3)
      note W = from_word_spec [OF al ok(1) tok ok(3) t(1) _ w, unfolded t(2), OF a(2)]
      have "e = e2" "r' = r2" "ctx' = BN_CTX_end (ctx_put k t2 c1)" using u x s1 Some w by (auto simp: BN_from_montgomery_def g)
      then show ?thesis using W put [of t2] st by auto
    qed
  qed
qed


lemma mul_consttime_spec:
  assumes al: "allocator malloc" and ok: "bn_ok a" "bn_ok b" "bn_ok r" and ng: "\<not> neg a" "\<not> neg b"
    and c: "ctx_ok n ctx" "depth (frames ctx) < n" "n < 2 ^ 30"
  shows "\<exists>e r' ctx'. bn_mul_consttime malloc False a b r ctx = Some (e, r', ctx') \<and> ctx_same n ctx ctx' \<and> bn_ok r' \<and> bn_static r' = bn_static r \<and>
    (e \<noteq> None \<longrightarrow> bn_mag r' = bn_mag a * bn_mag b \<and> \<not> neg r') \<and>
    (serves malloc \<and> ctx_calm ctx \<and> \<not> bn_static r \<and> 8 * (bn_width a + bn_width b) \<le> INT_MAX div 256 \<longrightarrow> e \<noteq> None)"
proof -
  obtain e1 r1 c1 where m: "bn_mul_impl malloc False a b r ctx = Some (e1, r1, c1)"
    and S: "ctx_same n ctx c1 \<and> bn_ok r1 \<and> (e1 \<noteq> None \<longrightarrow> bn_mag r1 = bn_mag a * bn_mag b \<and> (bn_mag r1 \<noteq> 0 \<longrightarrow> neg r1 = (neg a \<noteq> neg b)))"
    using mul_impl_spec [OF al ok c, of False] by (auto split: option.splits)
  have "bn_static r1 = bn_static r \<and> (e1 \<noteq> None \<longrightarrow> \<not> neg r1)" using mul_impl_fresh [OF al ok c m] ng by simp
  moreover have "e1 \<noteq> None" if "serves malloc \<and> ctx_calm ctx \<and> \<not> bn_static r \<and> 8 * (bn_width a + bn_width b) \<le> INT_MAX div 256"
    using mul_impl_calm [of malloc a b n ctx r False] that ok c m by auto
  ultimately show ?thesis using S m ng by (simp add: bn_mul_consttime_def)
qed


section \<open>Setting up a context\<close>

lemma set_bit_shape:
  assumes al: "allocator malloc" and ok: "bn_ok a" and u: "BN_set_bit malloc n a = (res, a')"
  shows "bn_ok a' \<and> bn_static a' = bn_static a"
proof -
  have "bn_static a' = bn_static a \<and> (res = None \<longrightarrow> bn_ok a')"
  proof (cases "n < 0 \<or> \<not> bn_width a \<le> nat n div 64")
    case True
    then show ?thesis using u ok unfolding BN_set_bit_def andthen_def ret_def Let_def by (auto split: if_splits)
  next
    case False
    obtain e b where w: "bn_wexpand malloc (nat n div 64 + 1) a = (e, b)" by (cases "bn_wexpand malloc (nat n div 64 + 1) a")
    show ?thesis using u False w wexpand_ok [OF al ok w] static_wexpand [OF w]
      by (cases e) (auto simp: BN_set_bit_def andthen_def ret_def Let_def)
  qed
  then show ?thesis using set_bit_spec [OF al ok u] by (cases res) auto
qed

lemma odd_low_word:
  assumes "bn_ok a" shows "BN_is_odd a \<longleftrightarrow> odd (bn_mag a)" "odd (bn_mag a) \<Longrightarrow> odd (unat (bn_d a ! 0))"
proof -
  have b: "bit (bn_mag a) 0 \<longleftrightarrow> 0 < bn_width a \<and> bit (bn_d a ! 0) 0"
    using bit_part_at [of "bn_width a" "bn_d a" 0 0] bn_okD(1) [OF assms] by (simp add: bn_mag_def)
  then show "BN_is_odd a \<longleftrightarrow> odd (bn_mag a)" by (simp add: BN_is_odd_def bit_0 and_one_eq odd_iff_mod_2_eq_one)
  show "odd (bn_mag a) \<Longrightarrow> odd (unat (bn_d a ! 0))" using b bit_unsigned_iff [of "bn_d a ! 0" 0, where 'a = nat] by (simp add: bit_0)
qed

lemma exp_base_2_spec:
  assumes al: "allocator malloc" and ok: "bn_ok m" "bn_ok r" and m: "odd (bn_mag m)" "BN_num_bits m \<le> p"
    and c: "ctx_ok n ctx" "depth (frames ctx) < n" "n < 2 ^ 30"
    and u: "bn_mod_exp_base_2_consttime malloc p m r ctx = (e, r', ctx')"
  shows "ctx_same n ctx ctx' \<and> bn_ok r' \<and> bn_static r' = bn_static r \<and>
    (e \<noteq> None \<longrightarrow> bn_mag r' = 2 ^ p mod bn_mag m \<and> \<not> neg r' \<and> bn_width r' \<le> bn_width m) \<and>
    (serves malloc \<and> ctx_calm ctx \<and> \<not> bn_static r \<longrightarrow> e \<noteq> None)"
proof -
  define k where "k = BN_num_bits m"
  have nz: "bn_mag m \<noteq> 0" using m(1) by (cases "bn_mag m") simp_all
  have k: "0 < k" "2 ^ (k - 1) \<le> bn_mag m" "bn_mag m < 2 ^ k" using num_bits_spec [OF ok(1)] nz by (simp_all add: k_def)
  have z: "bn_ok (BN_zero r)" "bn_mag (BN_zero r) = 0" "bn_width (BN_zero r) = 0" "\<not> neg (BN_zero r)" "bn_static (BN_zero r) = bn_static r"
    using ok(2) by (simp_all add: BN_zero_def bn_mag_def bn_ok_def)
  show ?thesis
  proof (cases "k = 1")
    case True
    then have "e = Some ()" "r' = BN_zero r" "ctx' = ctx" using u by (simp_all add: bn_mod_exp_base_2_consttime_def k_def)
    moreover have "bn_mag m = 1" using k nz True by simp
    ultimately show ?thesis using z same_refl [OF c(1)] by simp
  next
    case False
    obtain e1 b where x: "BN_set_bit malloc (int (k - 1)) (BN_zero r) = (e1, b)" by (cases "BN_set_bit malloc (int (k - 1)) (BN_zero r)")
    note X = set_bit_shape [OF al z(1) x] set_bit_spec [OF al z(1) x]
    note U = u [unfolded bn_mod_exp_base_2_consttime_def Let_def, folded k_def, unfolded if_not_P [OF False] x prod.case]
    have calm: "e1 \<noteq> None" if "serves malloc" "\<not> bn_static r"
    proof -
      have "2 ^ (k - 1) < (2 :: nat) ^ (64 * bn_width m)" using k(2) bn_mag_less [of m] by (rule le_less_trans)
      then have "k - 1 < 64 * bn_width m" by simp
      then have "(k - 1) div 64 < bn_width m" by (simp add: less_mult_imp_div_less mult.commute)
      then have "(k - 1) div 64 + 1 \<le> INT_MAX div 256" using ok(1) by (simp add: bn_ok_def)
      then show ?thesis using X(2) wexpand_serves [OF that(1), of "(k - 1) div 64 + 1" "BN_zero r"] that(2) z(5) by (auto split: option.splits)
    qed
    show ?thesis
    proof (cases e1)
      case None
      then have "e = None" "r' = b" "ctx' = ctx" using U by simp_all
      then show ?thesis using X(1) z(5) same_refl [OF c(1)] calm None by auto
    next
      case (Some y)
      have b: "bn_ok b" "bn_mag b = 2 ^ (k - 1)" "\<not> neg b" "bn_static b = bn_static r"
        using X Some z by (simp_all add: set_bit_eq)
      have "even ((2 :: nat) ^ (k - 1))" using False k(1) by simp
      then have "2 ^ (k - 1) \<noteq> bn_mag m" using m(1) by metis
      then have lt: "bn_mag b < bn_mag m" using k(2) b(2) by linarith
      define q where "q = p - (k - 1)"
      have l: "bn_mod_lshift_consttime malloc b (int q) m b ctx = (e, r', ctx')" using U Some by (simp add: q_def)
      note L = mod_lshift_spec [OF al b(1) ok(1) b(1) lt c l, unfolded nat_int]
      have "bn_mag b * 2 ^ q = 2 ^ p" using m(2) k(1) unfolding b(2) by (simp add: q_def k_def power_add [symmetric])
      moreover have "0 < int q" using m(2) k(1) by (simp add: q_def k_def)
      ultimately show ?thesis using L b(3,4) by auto
    qed
  qed
qed

lemma mont_set_spec:
  assumes al: "allocator malloc" and ok: "bn_ok md" "bn_ok (mont_N mont)" "bn_ok (mont_RR mont)"
    and c: "\<And>x. ctx = Some x \<Longrightarrow> ctx_ok n x \<and> depth (frames x) < n" "n < 2 ^ 30"
    and u: "BN_MONT_CTX_set malloc md mont ctx = (e, mont', ctx')"
  shows "(e \<noteq> None \<longrightarrow> odd (bn_mag md) \<and> \<not> neg md \<and> mont_ok mont' \<and> bn_mag (mont_N mont') = bn_mag md) \<and>
    (case ctx of None \<Rightarrow> ctx' = None | Some x \<Rightarrow> \<exists>y. ctx' = Some y \<and> ctx_same n x y) \<and>
    (serves malloc \<and> (\<forall>x. ctx = Some x \<longrightarrow> ctx_calm x) \<and> \<not> bn_static (mont_N mont) \<and> \<not> bn_static (mont_RR mont) \<and>
      odd (bn_mag md) \<and> \<not> neg md \<longrightarrow> e \<noteq> None)"
proof (cases "BN_is_zero md \<or> \<not> BN_is_odd md \<or> BN_is_negative md")
  case True
  have "\<not> (odd (bn_mag md) \<and> \<not> neg md)" using True is_zero_mag [OF ok(1)] odd_low_word(1) [OF ok(1)] by (auto simp: BN_is_negative_def)
  moreover have "e = None" "ctx' = ctx" using True u by (auto simp: BN_MONT_CTX_set_def split: if_splits)
  ultimately show ?thesis using same_refl c(1) by (auto split: option.splits)
next
  case False
  have f: "\<not> BN_is_zero md" "\<not> \<not> BN_is_odd md" "\<not> BN_is_negative md" using False by auto
  have od: "odd (bn_mag md)" "\<not> neg md" using f odd_low_word(1) [OF ok(1)] by (auto simp: BN_is_negative_def)
  obtain e1 x where x: "BN_copy malloc md (mont_N mont) = (e1, x)" by (cases "BN_copy malloc md (mont_N mont)")
  note C = copy_spec [OF al ok(1,2) x]
  note U = u [unfolded BN_MONT_CTX_set_def if_not_P [OF f(1)] if_not_P [OF f(2)] if_not_P [OF f(3)] x prod.case]
  show ?thesis
  proof (cases e1)
    case None
    have "e = None" "ctx' = ctx" using U None by simp_all
    moreover have "\<not> (serves malloc \<and> \<not> bn_static (mont_N mont))" using copy_calm [of malloc "mont_N mont" md] x None ok(1) by (auto simp: bn_ok_def)
    ultimately show ?thesis using same_refl c(1) by (auto split: option.splits)
  next
    case (Some y)
    define nn where "nn = bn_set_minimal_width x"
    have xk: "bn_ok x" "bn_mag x = bn_mag md" "\<not> neg x" using C Some od by simp_all
    have N: "bn_ok nn" "bn_mag nn = bn_mag md" "\<not> neg nn" "bn_tight nn" using set_minimal_width [OF xk(1)] xk by (simp_all add: nn_def)
    define m1 where "m1 = mont\<lparr>mont_N := nn, mont_n0 := (bn_mont_n0 nn, 0)\<rparr>"
    have D: "(e, mont', ctx') = (case ctx of
                  Some c \<Rightarrow> (case mont_set_rr malloc m1 c of (e, mont, c) \<Rightarrow> (e, mont, Some c))
                | None \<Rightarrow>
                    (case BN_CTX_new malloc of
                       None \<Rightarrow> (None, m1, None)
                     | Some c \<Rightarrow> (case mont_set_rr malloc m1 c of (e, mont, _) \<Rightarrow> (e, mont, None))))"
      using U [symmetric] Some unfolding Let_def nn_def m1_def by simp
    have rr: "ctx_same i c0 c2 \<and> (e2 \<noteq> None \<longrightarrow> mont_ok m2 \<and> bn_mag (mont_N m2) = bn_mag md) \<and>
        (serves malloc \<and> ctx_calm c0 \<and> \<not> bn_static (mont_RR mont) \<longrightarrow> e2 \<noteq> None)"
      if a: "mont_set_rr malloc m1 c0 = (e2, m2, c2)" "ctx_ok i c0" "depth (frames c0) < i" "i < 2 ^ 30" for i c0 e2 m2 c2
    proof -
      define p where "p = bn_width nn * 64 * 2"
      obtain r2 where b: "bn_mod_exp_base_2_consttime malloc p nn (mont_RR mont) c0 = (e2, r2, c2)" "m2 = m1\<lparr>mont_RR := r2\<rparr>"
        using a(1) by (auto simp: mont_set_rr_def m1_def p_def split: prod.splits)
      have o2: "odd (bn_mag nn)" using od N by simp
      have nz: "bn_mag nn \<noteq> 0" using o2 by (cases "bn_mag nn") simp_all
      have "2 ^ (BN_num_bits nn - 1) < (2 :: nat) ^ (64 * bn_width nn)"
        using num_bits_spec [OF N(1)] nz le_less_trans [OF _ bn_mag_less [of nn]] by blast
      then have "BN_num_bits nn - 1 < 64 * bn_width nn" by simp
      then have le: "BN_num_bits nn \<le> p" by (simp add: p_def)
      note E = exp_base_2_spec [OF al N(1) ok(3) o2 le a(2,3,4) b(1)]
      have "(2 :: nat) ^ p = 2 ^ (64 * bn_width nn) * 2 ^ (64 * bn_width nn)" by (simp add: p_def power_add [symmetric])
      moreover have "bn_mont_n0 nn * bn_d nn ! 0 = - 1" unfolding bn_mont_n0_def by (rule neg_inv [OF odd_low_word(2) [OF N(1) o2]])
      ultimately have "e2 \<noteq> None \<longrightarrow> mont_ok m2 \<and> bn_mag (mont_N m2) = bn_mag md"
        using E N o2 unfolding b(2) by (auto simp: mont_ok_def m1_def)
      then show ?thesis using E by blast
    qed
    show ?thesis
    proof (cases ctx)
      case none: None
      show ?thesis
      proof (cases "BN_CTX_new malloc")
        case None
        then show ?thesis using D none new_ctx(1) [of malloc] by auto
      next
        case (Some c0)
        obtain e2 m2 c2 where a: "mont_set_rr malloc m1 c0 = (e2, m2, c2)" by (rule prod_cases3)
        have c0: "c0 = BN_CTX_init" using Some by (rule new_ctx(2))
        have i: "ctx_ok 1 c0" "depth (frames c0) < 1" "ctx_calm c0" unfolding c0 using new_ctx_ok [of 1] by (simp_all add: BN_CTX_init_def ctx_calm_def)
        show ?thesis using D none Some a rr [OF a i(1,2)] i(3) od by auto
      qed
    next
      case (Some c0)
      obtain e2 m2 c2 where a: "mont_set_rr malloc m1 c0 = (e2, m2, c2)" by (rule prod_cases3)
      show ?thesis using D Some a rr [OF a _ _ c(2)] c(1) od by auto
    qed
  qed
qed


section \<open>Multiplication and conversion\<close>

lemma mont_product:
  assumes al: "allocator malloc" and ok: "bn_ok a" "bn_ok b" "bn_ok r" and ng: "\<not> neg a" "\<not> neg b"
    and c: "ctx_ok n ctx" "depth (frames ctx) < n" "n < 2 ^ 30" and same: "same \<Longrightarrow> b = a"
  shows "\<exists>e r' ctx'. (if same then Some (bn_sqr_consttime malloc False a r ctx) else bn_mul_consttime malloc False a b r ctx) = Some (e, r', ctx') \<and>
    ctx_same n ctx ctx' \<and> bn_ok r' \<and> bn_static r' = bn_static r \<and> (e \<noteq> None \<longrightarrow> bn_mag r' = bn_mag a * bn_mag b \<and> \<not> neg r') \<and>
    (serves malloc \<and> ctx_calm ctx \<and> \<not> bn_static r \<and> 8 * (bn_width a + bn_width b) \<le> INT_MAX div 256 \<longrightarrow> e \<noteq> None)"
proof (cases same)
  case True
  obtain e r' ctx' where u: "bn_sqr_consttime malloc False a r ctx = (e, r', ctx')" by (rule prod_cases3)
  have "e \<noteq> None" if "serves malloc \<and> ctx_calm ctx \<and> \<not> bn_static r \<and> 8 * (bn_width a + bn_width b) \<le> INT_MAX div 256"
    using sqr_calm [of malloc a n ctx r False] that ok c u by (auto simp: BN_sqr_def split: option.splits)
  then show ?thesis
    using sqr_consttime_spec [OF al ok(1,3) c u] sqr_consttime_static [OF al ok(1,3) c u] same [OF True] True u by (simp add: power2_eq_square)
next
  case False
  then show ?thesis using mul_consttime_spec [OF al ok ng c] by simp
qed

lemma mod_mul_montgomery_spec:
  assumes al: "allocator malloc" and ok: "mont_ok mont" "bn_ok a" "bn_ok b" "bn_ok r" and ng: "\<not> neg a" "\<not> neg b"
    and lt: "bn_mag a * bn_mag b < bn_mag (mont_N mont) * mont_R mont"
    and c: "ctx_ok n ctx" "depth (frames ctx) + 1 < n" "n < 2 ^ 30" and same: "same \<Longrightarrow> b = a"
  shows "\<exists>e r' ctx'. BN_mod_mul_montgomery malloc same a b mont r ctx = Some (e, r', ctx') \<and> ctx_same n ctx ctx' \<and>
    bn_ok r' \<and> bn_static r' = bn_static r \<and>
    (e \<noteq> None \<longrightarrow> mont_reduced mont (bn_mag a * bn_mag b) (bn_mag r') \<and> \<not> neg r' \<and> bn_width r' = bn_width (mont_N mont)) \<and>
    (serves malloc \<and> ctx_calm ctx \<and> \<not> bn_static r \<and> 8 * (bn_width a + bn_width b + bn_width (mont_N mont)) \<le> INT_MAX div 256 \<longrightarrow> e \<noteq> None)"
proof -
  have d: "depth (frames ctx) < n" using c(2) by simp
  have sg: "\<not> (neg a \<or> neg b)" using ng by simp
  obtain g c1 where g: "BN_CTX_get malloc (BN_CTX_start malloc ctx) = (g, c1)" by (cases "BN_CTX_get malloc (BN_CTX_start malloc ctx)")
  note F = frame_get [OF al c(1) d c(3) g]
  note D = BN_mod_mul_montgomery_def [of malloc same a b mont r ctx, unfolded if_not_P [OF sg] bn_mod_mul_montgomery_fallback_def g prod.case]
  show ?thesis
  proof (cases g)
    case None
    then show ?thesis using F(4) [OF F(2)] F(6) ok(4) by (auto simp: D)
  next
    case (Some k)
    have kv: "bn_dynamic (ctx_val c1 k)" using F(5) [OF Some] by simp
    have d1: "depth (frames c1) < n" using F(3) c(2) by simp
    obtain e1 t c2 where p: "(if same then Some (bn_sqr_consttime malloc False a (ctx_val c1 k) c1) else bn_mul_consttime malloc False a b (ctx_val c1 k) c1) = Some (e1, t, c2)"
      and P: "ctx_same n c1 c2" "bn_ok t" "bn_static t = bn_static (ctx_val c1 k)" "e1 \<noteq> None \<longrightarrow> bn_mag t = bn_mag a * bn_mag b \<and> \<not> neg t"
        "serves malloc \<and> ctx_calm c1 \<and> \<not> bn_static (ctx_val c1 k) \<and> 8 * (bn_width a + bn_width b) \<le> INT_MAX div 256 \<longrightarrow> e1 \<noteq> None"
      using mont_product [OF al ok(2,3) bn_dynamicD(1) [OF kv] ng F(1) d1 c(3), where same = same] same by blast
    have st: "\<not> bn_static t" using P(3) bn_dynamicD(2) [OF kv] by simp
    have put: "ctx_same n ctx (BN_CTX_end (ctx_put k z c2))" if "bn_ok z" "\<not> bn_static z" for z
      by (rule F(4) [OF inside_put_trans [OF inside_trans [OF F(2) same_inside [OF P(1)]]]]) (use that in \<open>simp add: bn_dynamic_def\<close>)
    have e1: "e1 \<noteq> None" if "serves malloc" "ctx_calm ctx" "8 * (bn_width a + bn_width b + bn_width (mont_N mont)) \<le> INT_MAX div 256"
      using P(5) F(6) [OF that(1,2)] that(1,3) bn_dynamicD(2) [OF kv] by simp
    note E = D [unfolded Some option.case p]
    show ?thesis
    proof (cases e1)
      case None
      have "BN_mod_mul_montgomery malloc same a b mont r ctx = Some (None, r, BN_CTX_end (ctx_put k t c2))"
        unfolding E None option.case prod.case ..
      then show ?thesis using put [OF P(2) st] ok(4) e1 None by auto
    next
      case s1: (Some y)
      have tv: "bn_mag t = bn_mag a * bn_mag b" "\<not> neg t" using P(4) s1 by simp_all
      obtain e2 r2 t2 where w: "BN_from_montgomery_word malloc t mont r = (e2, r2, t2)" by (rule prod_cases3)
      note W = from_word_spec [OF al ok(1) P(2) ok(4) tv(2) _ w, unfolded tv(1), OF lt]
      have "BN_mod_mul_montgomery malloc same a b mont r ctx = Some (e2, r2, BN_CTX_end (ctx_put k t2 c2))"
        unfolding E s1 option.case prod.case w ..
      then show ?thesis using W put [of t2] st by auto
    qed
  qed
qed


lemma mont_cancel:
  assumes ok: "mont_ok mont" and e: "x * mont_R mont mod bn_mag (mont_N mont) = y * mont_R mont mod bn_mag (mont_N mont)"
  shows "x mod bn_mag (mont_N mont) = y mod bn_mag (mont_N mont)"
proof -
  define N R where "N = bn_mag (mont_N mont)" and "R = mont_R mont"
  have "coprime R N" unfolding N_def R_def by (rule mont_okD(4) [OF ok])
  then have co: "coprime (int R) (int N)" by (rule coprime_int_iff [THEN iffD2])
  have "int (x * R mod N) = int (y * R mod N)" using e by (simp add: N_def R_def)
  then have "(int x * int R) mod int N = (int y * int R) mod int N" by (simp add: zmod_int)
  then have "int N dvd int x * int R - int y * int R" by (simp add: mod_eq_dvd_iff)
  then have "int N dvd (int x - int y) * int R" by (simp add: left_diff_distrib)
  then have "int N dvd int x - int y" using co by (simp add: coprime_dvd_mult_left_iff coprime_commute)
  then have "int x mod int N = int y mod int N" by (simp add: mod_eq_dvd_iff)
  then have "int (x mod N) = int (y mod N)" by (simp add: zmod_int)
  then show ?thesis by (simp add: N_def)
qed

text \<open>The one of the Montgomery form is \<open>R\<close> modulo the modulus.\<close>

lemma mont_one_reduced:
  assumes ok: "mont_ok mont" and r: "mont_reduced mont (bn_mag (mont_RR mont)) x"
  shows "x = mont_R mont mod bn_mag (mont_N mont)"
proof -
  have "x * mont_R mont mod bn_mag (mont_N mont) = mont_R mont * mont_R mont mod bn_mag (mont_N mont)"
    using r ok by (simp add: mont_reduced_def mont_ok_def)
  then have "x mod bn_mag (mont_N mont) = mont_R mont mod bn_mag (mont_N mont)" by (rule mont_cancel [OF ok])
  then show ?thesis using r by (simp add: mont_reduced_def)
qed

lemma mont_minus_val:
  assumes ok: "mont_ok mont" and top: "drop_bit 63 (bn_d (mont_N mont) ! (bn_width (mont_N mont) - 1)) \<noteq> 0"
  defines "ws \<equiv> mont_minus (bn_d (mont_N mont)) (bn_width (mont_N mont))"
  shows "length ws = bn_width (mont_N mont) \<and> bn_val ws = mont_R mont mod bn_mag (mont_N mont)"
proof -
  define n nn N where "n = bn_width (mont_N mont)" and "nn = bn_d (mont_N mont)" and "N = bn_mag (mont_N mont)"
  have n: "0 < n" "n \<le> length nn" "N = bn_part n nn" "odd N" "bn_ok (mont_N mont)"
    using mont_okD(1) [OF ok] ok bn_okD(1) by (simp_all add: mont_ok_def n_def nn_def N_def bn_mag_def)
  obtain w us where t: "take n nn = w # us" using n(1,2) by (cases "take n nn") auto
  have wu: "w = nn ! 0" "us = map (\<lambda>i. nn ! i) [1 ..< n]"
  proof -
    have e: "take n nn = map (\<lambda>i. nn ! i) [0 ..< n]" using n(2) by (intro nth_equalityI) simp_all
    have "[0 ..< n] = 0 # [1 ..< n]" using n(1) by (simp add: upt_conv_Cons)
    then show "w = nn ! 0" "us = map (\<lambda>i. nn ! i) [1 ..< n]" using t unfolding e by simp_all
  qed
  have ws: "ws = (- w) # map NOT us" by (simp add: ws_def mont_minus_def n_def [symmetric] nn_def [symmetric] wu comp_def)
  have len: "length us + 1 = n" using arg_cong [OF t, of length] n(2) by simp
  have "odd (unat w)" using odd_low_word(2) [OF n(5)] n(4) by (simp add: wu N_def nn_def)
  then have w0: "unat w \<noteq> 0" by (metis even_zero)
  have "unat (NOT w) + unat w + 1 = 2 ^ 64" using not_words_val [of "[w]"] by simp
  then have "unat (NOT w + 1) + unat w = 2 ^ 64" using w0 u64_add [of "NOT w" 1] by simp
  then have "unat (- w) + unat w = 2 ^ 64" unfolding minus_eq_not_plus_1 .
  moreover have "2 ^ 64 * (bn_val (map NOT us) + bn_val us + 1) = 2 ^ 64 * (2 :: nat) ^ (64 * length us)"
    unfolding not_words_val ..
  moreover have "2 ^ 64 * (2 :: nat) ^ (64 * length us) = 2 ^ (64 * n)" unfolding len [symmetric] by (simp add: power_add)
  moreover have "N = unat w + 2 ^ 64 * bn_val us" using n(3) t by simp
  ultimately have V: "bn_val ws + N = 2 ^ (64 * n)" unfolding ws bn_val.simps distrib_left by linarith
  have "2 ^ 63 \<le> unat (nn ! (n - 1))"
  proof (rule ccontr)
    assume "\<not> 2 ^ 63 \<le> unat (nn ! (n - 1))"
    then have "unat (drop_bit 63 (nn ! (n - 1))) = 0" unfolding unat_drop_bit_eq by (simp add: drop_bit_eq_div)
    then show False using top by (simp add: n_def nn_def unat_eq_0)
  qed
  then have "2 ^ (64 * (n - 1)) * 2 ^ 63 \<le> 2 ^ (64 * (n - 1)) * unat (nn ! (n - 1))" by simp
  also have "\<dots> \<le> N" using part_Suc [of "n - 1" nn] n(1,2,3) by simp
  finally have "2 ^ (64 * (n - 1)) * 2 ^ 63 \<le> N" .
  moreover have "(2 :: nat) ^ (64 * n) = 2 * (2 ^ (64 * (n - 1)) * 2 ^ 63)"
  proof -
    have "64 * n = Suc (64 * (n - 1) + 63)" using n(1) by simp
    then show ?thesis by (simp only: power_Suc power_add)
  qed
  ultimately have "2 ^ (64 * n) \<le> 2 * N" by linarith
  moreover have "2 ^ (64 * n) \<noteq> 2 * N"
  proof
    assume "2 ^ (64 * n) = 2 * N"
    then have "N = 2 ^ (64 * (n - 1)) * 2 ^ 63" using \<open>2 ^ (64 * n) = 2 * (2 ^ (64 * (n - 1)) * 2 ^ 63)\<close> by linarith
    then show False using n(4) by simp
  qed
  ultimately have "bn_val ws < N" using V by linarith
  then have "bn_val ws = 2 ^ (64 * n) mod N" unfolding V [symmetric] by simp
  then show ?thesis using len by (simp add: ws n_def [symmetric] N_def [symmetric])
qed

lemma one_to_montgomery_spec:
  assumes al: "allocator malloc" and ok: "mont_ok mont" "bn_ok r" and c: "ctx_ok n ctx" "depth (frames ctx) < n" "n < 2 ^ 30"
    and u: "bn_one_to_montgomery malloc mont r ctx = (e, r', ctx')"
  shows "ctx_same n ctx ctx' \<and> bn_ok r' \<and> bn_static r' = bn_static r \<and>
    (e \<noteq> None \<longrightarrow> bn_mag r' = mont_R mont mod bn_mag (mont_N mont) \<and> \<not> neg r' \<and> bn_width r' = bn_width (mont_N mont)) \<and>
    (serves malloc \<and> ctx_calm ctx \<and> \<not> bn_static r \<and> 2 * bn_width (mont_N mont) \<le> INT_MAX div 256 \<longrightarrow> e \<noteq> None)"
proof (cases "0 < bn_width (mont_N mont) \<and> drop_bit 63 (bn_d (mont_N mont) ! (bn_width (mont_N mont) - 1)) \<noteq> 0")
  case True
  note M = mont_minus_val [OF ok(1)]
  obtain e1 b where x: "bn_wexpand malloc (bn_width (mont_N mont)) r = (e1, b)" by (cases "bn_wexpand malloc (bn_width (mont_N mont)) r")
  note W = wexpand_ok [OF al ok(2) x] static_wexpand [OF x]
  have calm: "serves malloc \<and> \<not> bn_static r \<longrightarrow> e1 \<noteq> None"
    using wexpand_serves [of malloc "bn_width (mont_N mont)" r] x ok(1) by (auto simp: mont_ok_def bn_ok_def)
  note U = u [unfolded bn_one_to_montgomery_def Let_def if_P [OF True] x prod.case]
  show ?thesis
  proof (cases e1)
    case None
    then have "e = None" "r' = b" "ctx' = ctx" using U by simp_all
    then show ?thesis using W calm None same_refl [OF c(1)] by auto
  next
    case (Some y)
    define ws where "ws = mont_minus (bn_d (mont_N mont)) (bn_width (mont_N mont))"
    have r: "e = Some ()" "r' = b\<lparr>bn_d := splice 0 ws (bn_d b), bn_width := bn_width (mont_N mont), neg := False\<rparr>" "ctx' = ctx"
      using U Some by (simp_all add: ws_def)
    have l: "length ws \<le> length (bn_d b)" using M True W Some by (simp add: ws_def bn_ok_def)
    have "bn_ok r'" "bn_mag r' = bn_val ws" using W Some M True write_words [OF l]
      by (simp_all add: r bn_ok_def bn_mag_def) (simp_all add: ws_def)
    then show ?thesis using M True W(2) same_refl [OF c(1)] by (simp add: r ws_def)
  qed
next
  case False
  have f: "BN_from_montgomery malloc (mont_RR mont) mont r ctx = (e, r', ctx')"
    using u unfolding bn_one_to_montgomery_def Let_def if_not_P [OF False] .
  have RR: "bn_ok (mont_RR mont)" "\<not> neg (mont_RR mont)" "bn_mag (mont_RR mont) < bn_mag (mont_N mont)"
    using ok(1) mont_okD(2) [OF ok(1)] by (simp_all add: mont_ok_def)
  have lt: "bn_mag (mont_RR mont) < bn_mag (mont_N mont) * mont_R mont"
    using RR(3) by (rule less_le_trans) simp
  show ?thesis using from_montgomery_spec [OF al ok(1) RR(1) ok(2) RR(2) lt c f] mont_one_reduced [OF ok(1)] by auto
qed


section \<open>Small arrays: correctness\<close>

lemma small_reduce:
  assumes "mont_ok mont" "length a = 2 * bn_width (mont_N mont)" "bn_val a < bn_mag (mont_N mont) * mont_R mont"
  shows "\<exists>ws. map_option fst (bn_from_montgomery_in_place (bn_width (mont_N mont)) a (2 * bn_width (mont_N mont)) mont) = Some ws \<and>
    length ws = bn_width (mont_N mont) \<and> mont_reduced mont (bn_val a) (bn_val ws)"
  using in_place_spec [OF assms] by (auto simp: mont_reduced_def)

lemma from_small_spec:
  assumes ok: "mont_ok mont" and n: "bn_width (mont_N mont) \<le> BN_SMALL_MAX_WORDS" and a: "num_a \<le> length a" "num_a \<le> 2 * bn_width (mont_N mont)"
    and lt: "bn_part num_a a < bn_mag (mont_N mont) * mont_R mont"
  shows "\<exists>ws. bn_from_montgomery_small (bn_width (mont_N mont)) a num_a mont = Some ws \<and> length ws = bn_width (mont_N mont) \<and>
    mont_reduced mont (bn_part num_a a) (bn_val ws)"
proof -
  define b where "b = take num_a a @ replicate (2 * bn_width (mont_N mont) - num_a) 0"
  have "length b = 2 * bn_width (mont_N mont)" "bn_val b = bn_part num_a a" using a by (simp_all add: b_def bn_val_append)
  then show ?thesis using small_reduce [OF ok, of b] lt n a(2) by (simp add: bn_from_montgomery_small_def Let_def b_def [symmetric])
qed

lemma mul_small_spec:
  assumes ok: "mont_ok mont" and n: "bn_width (mont_N mont) \<le> BN_SMALL_MAX_WORDS"
    and l: "num_a \<le> length a" "num_b \<le> length b" "num_a + num_b \<le> 2 * bn_width (mont_N mont)" "2 * BN_SMALL_MAX_WORDS \<le> length old"
    and lt: "bn_part num_a a * bn_part num_b b < bn_mag (mont_N mont) * mont_R mont" and same: "same \<Longrightarrow> b = a"
  shows "\<exists>ws. bn_mod_mul_montgomery_small old same (bn_width (mont_N mont)) a num_a b num_b mont = Some ws \<and>
    length ws = bn_width (mont_N mont) \<and> mont_reduced mont (bn_part num_a a * bn_part num_b b) (bn_val ws)"
proof -
  obtain p where p: "(if same \<and> num_a = num_b then bn_sqr_small old (num_a + num_b) a num_a else bn_mul_small (num_a + num_b) a num_a b num_b) = Some p"
    "bn_val p = bn_part num_a a * bn_part num_b b" "length p = num_a + num_b"
  proof (cases "same \<and> num_a = num_b")
    case True
    have "num_a \<le> BN_SMALL_MAX_WORDS" using True l(3) n by simp
    then show ?thesis using that sqr_small_val [of num_a a old "num_a + num_b"] True l(1,4) same by (auto simp: power2_eq_square)
  next
    case False
    then show ?thesis using that mul_small_val [OF l(1,2), of "num_a + num_b"] by auto
  qed
  define q where "q = p @ replicate (2 * bn_width (mont_N mont) - (num_a + num_b)) 0"
  have q: "length q = 2 * bn_width (mont_N mont)" "bn_val q = bn_part num_a a * bn_part num_b b" using l(3) p by (simp_all add: q_def bn_val_append)
  have f: "\<not> (bn_width (mont_N mont) \<noteq> bn_width (mont_N mont) \<or> 2 * bn_width (mont_N mont) < num_a + num_b \<or> BN_SMALL_MAX_WORDS < bn_width (mont_N mont))"
    using l(3) n by simp
  have "bn_mod_mul_montgomery_small old same (bn_width (mont_N mont)) a num_a b num_b mont =
      map_option fst (bn_from_montgomery_in_place (bn_width (mont_N mont)) q (2 * bn_width (mont_N mont)) mont)"
    unfolding bn_mod_mul_montgomery_small_def Let_def if_not_P [OF f] p(1) option.case q_def ..
  then show ?thesis using small_reduce [OF ok q(1)] lt unfolding q(2) by simp
qed

lemma one_small_spec:
  assumes ok: "mont_ok mont" and n: "bn_width (mont_N mont) \<le> BN_SMALL_MAX_WORDS"
  shows "\<exists>ws. bn_one_to_montgomery_small (bn_width (mont_N mont)) mont = Some ws \<and> length ws = bn_width (mont_N mont) \<and>
    bn_val ws = mont_R mont mod bn_mag (mont_N mont)"
proof (cases "drop_bit 63 (bn_d (mont_N mont) ! (bn_width (mont_N mont) - 1)) = 0")
  case True
  have RR: "bn_width (mont_RR mont) \<le> length (bn_d (mont_RR mont))" "bn_width (mont_RR mont) \<le> 2 * bn_width (mont_N mont)"
    "bn_mag (mont_RR mont) < bn_mag (mont_N mont)"
    using ok bn_okD(1) mont_okD(2) [OF ok] by (simp_all add: mont_ok_def)
  have "bn_mag (mont_RR mont) < bn_mag (mont_N mont) * mont_R mont" using RR(3) by (rule less_le_trans) simp
  then show ?thesis
    using from_small_spec [OF ok n RR(1,2)] mont_one_reduced [OF ok] mont_okD(1) [OF ok] True
    by (auto simp: bn_one_to_montgomery_small_def Let_def bn_mag_def [of "mont_RR mont", symmetric])
next
  case False
  then show ?thesis using mont_minus_val [OF ok False] mont_okD(1) [OF ok] by (simp add: bn_one_to_montgomery_small_def)
qed

section \<open>The theorems\<close>

lemma new_for_modulus_spec:
  assumes al: "allocator malloc" and md: "bn_ok md"
  shows "case fst (BN_MONT_CTX_new_for_modulus malloc md None) of
      None \<Rightarrow> \<not> (serves malloc \<and> odd (bn_mag md) \<and> \<not> neg md)
    | Some mont \<Rightarrow> odd (bn_mag md) \<and> \<not> neg md \<and> mont_ok mont \<and> bn_mag (mont_N mont) = bn_mag md"
proof (cases "BN_MONT_CTX_new malloc")
  case None
  then have "\<not> serves malloc" using malloc_serves [of malloc 64] by (auto simp: BN_MONT_CTX_new_def split: option.splits)
  then show ?thesis using None by (simp add: BN_MONT_CTX_new_for_modulus_def)
next
  case (Some m)
  then have m: "bn_ok (mont_N m)" "bn_ok (mont_RR m)" "\<not> bn_static (mont_N m)" "\<not> bn_static (mont_RR m)"
    by (auto simp: BN_MONT_CTX_new_def BN_init_def bn_ok_def split: option.splits)
  obtain e mont c where u: "BN_MONT_CTX_set malloc md m None = (e, mont, c)" by (rule prod_cases3)
  have "(e \<noteq> None \<longrightarrow> odd (bn_mag md) \<and> \<not> neg md \<and> mont_ok mont \<and> bn_mag (mont_N mont) = bn_mag md) \<and>
      (serves malloc \<and> odd (bn_mag md) \<and> \<not> neg md \<longrightarrow> e \<noteq> None)"
  proof -
    have x: "ctx_ok 1 x \<and> depth (frames x) < 1" if "None = Some x" for x using that by simp
    have "(1 :: nat) < 2 ^ 30" by simp
    from mont_set_spec [OF al md m(1,2) x this u] show ?thesis using m(3,4) by blast
  qed
  moreover have "fst (BN_MONT_CTX_new_for_modulus malloc md None) = (if e = None then None else Some mont)"
    by (cases e) (simp_all add: BN_MONT_CTX_new_for_modulus_def Some u)
  ultimately show ?thesis by (cases e) simp_all
qed

text \<open>C9: Montgomery arithmetic, from the modulus on: \<open>BN_MONT_CTX_new_for_modulus\<close> succeeds on exactly the odd
  non-negative moduli when the allocator serves, and with the context it returns \<open>BN_mod_mul_montgomery\<close> gives
  the reduced number \<open>x\<close> with \<open>x R\<close> congruent to the product, \<open>bn_one_to_montgomery\<close> gives \<open>R\<close> modulo the
  modulus, and the functions on small arrays give the same numbers. Here \<open>R\<close> is two to the number of bits of
  the modulus' words, and the product must be below \<open>R\<close> times the modulus, as it is for reduced factors.\<close>

theorem mont_arithmetic:
  assumes "allocator malloc" "bn_ok md" "bn_ok a" "bn_ok b" "bn_ok r" "\<not> neg a" "\<not> neg b"
    "ctx_ok n ctx" "depth (frames ctx) + 1 < n" "n < 2 ^ 30" "num_a \<le> length xs" "num_b \<le> length ys" "2 * BN_SMALL_MAX_WORDS \<le> length old"
  defines "calm \<equiv> \<lambda>w. serves malloc \<and> ctx_calm ctx \<and> \<not> bn_static r \<and> 8 * (bn_width a + bn_width b + w) \<le> INT_MAX div 256"
  shows "case fst (BN_MONT_CTX_new_for_modulus malloc md None) of
      None \<Rightarrow> \<not> (serves malloc \<and> odd (bn_mag md) \<and> \<not> neg md)
    | Some mont \<Rightarrow>
        let N = bn_mag md; w = bn_width (mont_N mont); R = 2 ^ (64 * w)
        in odd N \<and> \<not> neg md \<and> N < R \<and>
          (bn_mag a * bn_mag b < N * R \<longrightarrow>
            (\<exists>e r' ctx'. BN_mod_mul_montgomery malloc False a b mont r ctx = Some (e, r', ctx') \<and> ctx_same n ctx ctx' \<and> bn_ok r' \<and>
              (e \<noteq> None \<longrightarrow> bn_mag r' < N \<and> bn_mag r' * R mod N = bn_mag a * bn_mag b mod N \<and> \<not> neg r' \<and> bn_width r' = w) \<and>
              (calm w \<longrightarrow> e \<noteq> None))) \<and>
          (case bn_one_to_montgomery malloc mont r ctx of (e, r', ctx') \<Rightarrow> ctx_same n ctx ctx' \<and>
            (e \<noteq> None \<longrightarrow> bn_mag r' = R mod N \<and> \<not> neg r' \<and> bn_width r' = w) \<and> (calm w \<longrightarrow> e \<noteq> None)) \<and>
          (w \<le> BN_SMALL_MAX_WORDS \<and> num_a + num_b \<le> 2 * w \<and> bn_part num_a xs * bn_part num_b ys < N * R \<longrightarrow>
            (\<exists>ws. bn_mod_mul_montgomery_small old False w xs num_a ys num_b mont = Some ws \<and> length ws = w \<and> bn_val ws < N \<and>
              bn_val ws * R mod N = bn_part num_a xs * bn_part num_b ys mod N)) \<and>
          (w \<le> BN_SMALL_MAX_WORDS \<longrightarrow> (\<exists>ws. bn_one_to_montgomery_small w mont = Some ws \<and> length ws = w \<and> bn_val ws = R mod N))"
proof (cases "fst (BN_MONT_CTX_new_for_modulus malloc md None)")
  case None
  then show ?thesis using new_for_modulus_spec [OF assms(1,2)] by simp
next
  case (Some mont)
  then have M: "odd (bn_mag md)" "\<not> neg md" "mont_ok mont" "bn_mag (mont_N mont) = bn_mag md"
    using new_for_modulus_spec [OF assms(1,2)] by simp_all
  have d: "depth (frames ctx) < n" using assms(9) by simp
  obtain e1 r1 c1 where u: "bn_one_to_montgomery malloc mont r ctx = (e1, r1, c1)" by (rule prod_cases3)
  have one: "ctx_same n ctx c1 \<and> (e1 \<noteq> None \<longrightarrow> bn_mag r1 = mont_R mont mod bn_mag md \<and> \<not> neg r1 \<and> bn_width r1 = bn_width (mont_N mont)) \<and>
      (calm (bn_width (mont_N mont)) \<longrightarrow> e1 \<noteq> None)"
    using one_to_montgomery_spec [OF assms(1) M(3) assms(5,8) d assms(10) u] unfolding M(4) calm_def by auto
  have mul: "bn_mag a * bn_mag b < bn_mag md * mont_R mont \<Longrightarrow>
      \<exists>e r' ctx'. BN_mod_mul_montgomery malloc False a b mont r ctx = Some (e, r', ctx') \<and> ctx_same n ctx ctx' \<and> bn_ok r' \<and>
        (e \<noteq> None \<longrightarrow> bn_mag r' < bn_mag md \<and> bn_mag r' * mont_R mont mod bn_mag md = bn_mag a * bn_mag b mod bn_mag md \<and> \<not> neg r' \<and>
          bn_width r' = bn_width (mont_N mont)) \<and> (calm (bn_width (mont_N mont)) \<longrightarrow> e \<noteq> None)"
    using mod_mul_montgomery_spec [OF assms(1) M(3) assms(3-7) _ assms(8-10), of False] unfolding M(4) calm_def mont_reduced_def by blast
  show ?thesis
    unfolding Some option.case Let_def u prod.case
    using M(1,2) one mul mont_okD(3) [OF M(3)] mul_small_spec [OF M(3) _ assms(11,12) _ assms(13), where same = False] one_small_spec [OF M(3)]
    unfolding M(4) mont_reduced_def by simp
qed


theorem mont_arithmetic_witness:
  "let num = (\<lambda>x. \<lparr>bn_d = [x], bn_width = 1, dmax = 1, neg = False, bn_static = False\<rparr>)
   in \<exists>mont x c. fst (BN_MONT_CTX_new_for_modulus zero_alloc (num 101) None) = Some mont \<and>
        BN_mod_mul_montgomery zero_alloc False (num 7) (num 9) mont BN_init BN_CTX_init = Some (Some (), x, c) \<and>
        bn_mag x < 101 \<and> bn_mag x * mont_R mont mod 101 = 63"
proof -
  let ?num = "\<lambda>x. \<lparr>bn_d = [x], bn_width = 1, dmax = 1, neg = False, bn_static = False\<rparr>"
  have ok: "bn_ok (?num x)" "\<not> neg (?num x)" for x by (simp_all add: bn_ok_def INT_MAX_def)
  have v: "bn_mag (?num 101) = 101" "bn_mag (?num 7) = 7" "bn_mag (?num 9) = 9" by (simp_all add: bn_mag_def)
  have c: "depth (frames BN_CTX_init) + 1 < 2" "ctx_calm BN_CTX_init" "\<not> bn_static BN_init" "(2 :: nat) < 2 ^ 30"
    by (simp_all add: BN_CTX_init_def ctx_calm_def BN_init_def)
  note T = mont_arithmetic [OF allocator_zero_alloc ok(1) ok(1) ok(1) BN_init_ok(1) ok(2) ok(2) new_ctx_ok c(1,4), of 0 "[]" 0 "[]" "replicate 18 0" 101 7 9,
      unfolded v]
  obtain mont where mont: "fst (BN_MONT_CTX_new_for_modulus zero_alloc (?num 101) None) = Some mont"
    using T serves_zero_alloc by (cases "fst (BN_MONT_CTX_new_for_modulus zero_alloc (?num 101) None)") (simp_all add: BN_SMALL_MAX_WORDS_def)
  have w: "bn_width (mont_N mont) = 1"
  proof -
    have m: "mont_ok mont" "bn_mag (mont_N mont) = 101" using new_for_modulus_spec [OF allocator_zero_alloc ok(1), of 101] unfolding mont v by simp_all
    have "bn_width (mont_N mont) \<le> 1" by (rule tight_width) (use m in \<open>simp_all add: mont_ok_def\<close>)
    then show ?thesis using mont_okD(1) [OF m(1)] by simp
  qed
  have "\<exists>e x c. BN_mod_mul_montgomery zero_alloc False (?num 7) (?num 9) mont BN_init BN_CTX_init = Some (e, x, c) \<and>
      (e \<noteq> None \<longrightarrow> bn_mag x < 101 \<and> bn_mag x * 2 ^ (64 * 1) mod 101 = 7 * 9 mod 101) \<and> e \<noteq> None"
    using T serves_zero_alloc c(2,3) unfolding mont option.case Let_def w by (auto simp: BN_SMALL_MAX_WORDS_def INT_MAX_def)
  then obtain x c where "BN_mod_mul_montgomery zero_alloc False (?num 7) (?num 9) mont BN_init BN_CTX_init = Some (Some (), x, c)"
    "bn_mag x < 101" "bn_mag x * mont_R mont mod 101 = 63" unfolding w by auto
  then show ?thesis unfolding Let_def using mont by blast
qed

text \<open>C10: Montgomery form and back: for every non-negative number below \<open>R\<close>, \<open>BN_to_montgomery\<close> followed by
  \<open>BN_from_montgomery\<close> succeeds when the allocator serves and no failure is pending and gives the number
  reduced modulo the modulus, in a context of temporaries that is as it was.\<close>

theorem mont_roundtrip:
  assumes "serves malloc" "mont_ok mont" "bn_ok a" "bn_less_than_montgomery_R a mont" "bn_ok r" "bn_ok r2" "\<not> bn_static r" "\<not> bn_static r2"
    "ctx_ok n ctx" "depth (frames ctx) + 1 < n" "n < 2 ^ 30" "ctx_calm ctx" "8 * (bn_width a + 2 * bn_width (mont_N mont)) \<le> INT_MAX div 256"
  shows "\<exists>x c1 y c2. BN_to_montgomery malloc a mont r ctx = Some (Some (), x, c1) \<and> BN_from_montgomery malloc x mont r2 c1 = (Some (), y, c2) \<and>
    ctx_same n ctx c2 \<and> bn_int y = bn_int a mod bn_int (mont_N mont)"
proof -
  note al = serves_allocator [OF assms(1)]
  define N R where "N = bn_mag (mont_N mont)" and "R = mont_R mont"
  have a: "\<not> neg a" "bn_mag a < R" using assms(4) fits_in_words(2) [OF assms(3)] by (simp_all add: bn_less_than_montgomery_R_def BN_is_negative_def R_def)
  have RR: "bn_ok (mont_RR mont)" "\<not> neg (mont_RR mont)" "bn_width (mont_RR mont) \<le> bn_width (mont_N mont)" "bn_mag (mont_RR mont) = R * R mod N" "\<not> neg (mont_N mont)"
    using assms(2) by (simp_all add: mont_ok_def R_def N_def)
  have pos: "0 < N" using mont_okD(2) [OF assms(2)] by (simp add: N_def)
  have "bn_mag a * bn_mag (mont_RR mont) < N * R"
  proof -
    have "R * R mod N < N" using pos by simp
    then have "bn_mag a * (R * R mod N) \<le> bn_mag a * N" by simp
    also have "\<dots> < R * N" using a(2) pos by simp
    finally show ?thesis by (simp add: RR(4) mult.commute)
  qed
  then obtain e x c1 where u: "BN_mod_mul_montgomery malloc False a (mont_RR mont) mont r ctx = Some (e, x, c1)" "ctx_same n ctx c1" "bn_ok x"
    "e \<noteq> None \<longrightarrow> mont_reduced mont (bn_mag a * bn_mag (mont_RR mont)) (bn_mag x) \<and> \<not> neg x"
    "serves malloc \<and> ctx_calm ctx \<and> \<not> bn_static r \<and> 8 * (bn_width a + bn_width (mont_RR mont) + bn_width (mont_N mont)) \<le> INT_MAX div 256 \<longrightarrow> e \<noteq> None"
    using mod_mul_montgomery_spec [OF al assms(2,3) RR(1) assms(5) a(1) RR(2) _ assms(9-11), of False] unfolding N_def R_def by blast
  have "8 * (bn_width a + bn_width (mont_RR mont) + bn_width (mont_N mont)) \<le> INT_MAX div 256"
    by (rule le_trans [OF _ assms(13)]) (use RR(3) in simp)
  then have e: "e = Some ()" using u(5) assms(1,7,12) by auto
  have x: "bn_mag x < N" "bn_mag x * R mod N = bn_mag a * (R * R mod N) mod N" "\<not> neg x"
    using u(4) e by (simp_all add: mont_reduced_def N_def R_def RR(4) [unfolded N_def R_def])
  have "bn_mag x * R mod N = bn_mag a * R * R mod N" unfolding x(2) by (simp add: mod_mult_right_eq mult.assoc)
  then have "bn_mag x mod N = bn_mag a * R mod N" unfolding N_def R_def by (rule mont_cancel [OF assms(2)])
  then have xv: "bn_mag x = bn_mag a * R mod N" using x(1) by simp
  have c1: "ctx_ok n c1" "depth (frames c1) < n" "ctx_calm c1" using same_ctx [OF u(2) assms(9)] assms(10,12) same_calm [OF u(2)] by auto
  have lt: "bn_mag x < bn_mag (mont_N mont) * mont_R mont" using x(1) unfolding N_def by (rule less_le_trans) simp
  obtain e2 y c2 where w: "BN_from_montgomery malloc x mont r2 c1 = (e2, y, c2)" by (rule prod_cases3)
  note F = from_montgomery_spec [OF al assms(2) u(3) assms(6) x(3) lt c1(1,2) assms(11) w]
  have e2: "e2 = Some ()" using F assms(1,8,13) c1(3) by auto
  have y: "bn_mag y < N" "bn_mag y * R mod N = bn_mag x mod N" "\<not> neg y" using F e2 by (simp_all add: mont_reduced_def N_def R_def)
  have "bn_mag y * R mod N = bn_mag a * R mod N" unfolding y(2) xv by simp
  then have "bn_mag y mod N = bn_mag a mod N" unfolding N_def R_def by (rule mont_cancel [OF assms(2)])
  then have "bn_mag y = bn_mag a mod N" using y(1) by simp
  then have "bn_int y = bn_int a mod bn_int (mont_N mont)" using y(3) a(1) RR(5) by (simp add: bn_int_def N_def zmod_int)
  moreover have "ctx_same n ctx c2" using same_trans u(2) F by blast
  ultimately show ?thesis using u(1) e w e2 by (simp add: BN_to_montgomery_def)
qed

theorem mont_roundtrip_witness:
  "let num = (\<lambda>x. \<lparr>bn_d = [x], bn_width = 1, dmax = 1, neg = False, bn_static = False\<rparr>)
   in \<exists>mont x c1 y c2. fst (BN_MONT_CTX_new_for_modulus zero_alloc (num 101) None) = Some mont \<and>
        BN_to_montgomery zero_alloc (num 1000) mont BN_init BN_CTX_init = Some (Some (), x, c1) \<and>
        BN_from_montgomery zero_alloc x mont BN_init c1 = (Some (), y, c2) \<and> bn_int y = 91"
proof -
  let ?num = "\<lambda>x. \<lparr>bn_d = [x], bn_width = 1, dmax = 1, neg = False, bn_static = False\<rparr>"
  have ok: "bn_ok (?num x)" "\<not> neg (?num x)" "bn_width (?num x) = 1" "bn_int (?num x) = uint x" for x by (simp_all add: bn_ok_def INT_MAX_def bn_int_def bn_mag_def)
  have c: "depth (frames BN_CTX_init) + 1 < 2" "ctx_calm BN_CTX_init" "\<not> bn_static BN_init" "(2 :: nat) < 2 ^ 30"
    by (simp_all add: BN_CTX_init_def ctx_calm_def BN_init_def)
  have v: "bn_mag (?num 101) = 101" by (simp add: bn_mag_def)
  obtain mont where mont: "fst (BN_MONT_CTX_new_for_modulus zero_alloc (?num 101) None) = Some mont"
    using new_for_modulus_spec [OF allocator_zero_alloc ok(1), of 101] serves_zero_alloc unfolding v by (auto split: option.splits)
  have m: "mont_ok mont" "bn_mag (mont_N mont) = 101" using new_for_modulus_spec [OF allocator_zero_alloc ok(1), of 101] unfolding mont v by simp_all
  have "bn_width (mont_N mont) \<le> 1" by (rule tight_width) (use m in \<open>simp_all add: mont_ok_def\<close>)
  then have w: "bn_width (mont_N mont) = 1" using mont_okD(1) [OF m(1)] by simp
  have "bn_less_than_montgomery_R (?num 1000) mont"
    using fits_in_words(2) [OF ok(1), of 1000 1] by (simp add: bn_less_than_montgomery_R_def BN_is_negative_def w bn_mag_def)
  moreover have "8 * (bn_width (?num 1000) + 2 * bn_width (mont_N mont)) \<le> INT_MAX div 256" by (simp add: w INT_MAX_def)
  moreover have "bn_int (mont_N mont) = 101" using m by (simp add: bn_int_def mont_ok_def)
  ultimately have "\<exists>x c1 y c2. BN_to_montgomery zero_alloc (?num 1000) mont BN_init BN_CTX_init = Some (Some (), x, c1) \<and>
      BN_from_montgomery zero_alloc x mont BN_init c1 = (Some (), y, c2) \<and> bn_int y = bn_int (?num 1000) mod 101"
    using mont_roundtrip [OF serves_zero_alloc m(1) ok(1) _ BN_init_ok(1) BN_init_ok(1) c(3,3) new_ctx_ok c(1,4,2), of 1000] by metis
  then show ?thesis unfolding Let_def ok(4) mont by auto
qed

end
