(* ===== verification/Spec2Isabelle.thy ===== *)
theory Spec2Isabelle
  imports CbbTotal PbWire Base64 Kdf Stack Pool BnMont
begin

text \<open>
  Verification of the C code under \<open>src/Xcode/Pods\<close>, the libraries the Education Network app is
  linked against. The app itself is Swift and storyboards; what it stores and fetches goes through the
  Firestore client, whose messages are encoded by nanopb, over gRPC, whose transport security is
  BoringSSL. The development models C code of nanopb (\<open>Pods/nanopb\<close>) and of BoringSSL
  (\<open>Pods/BoringSSL/crypto\<close>), the 64-bit build with the portable C implementations (the pods are built
  without assembly).

  \<^bold>\<open>Conventions.\<close> A byte is \<open>8 word\<close>, \<open>uint32_t\<close> and \<open>uint64_t\<close> are words of their width,
  \<open>size_t\<close> is \<open>nat\<close> with \<open>size_wrap\<close> written where the code can wrap. A function that may fail and
  changes a state is an \<open>op\<close>: a function from the state to an optional result and the new state, also
  when it fails. \<open>ret\<close>, \<open>fail\<close>, \<open>andthen\<close> are its return, failure and sequencing. The allocator is
  a parameter \<open>malloc\<close>, from the requested size to the (uninitialised) bytes of a block or \<open>None\<close>;
  its contract \<open>allocator\<close> says a block has the requested size, and \<open>serves\<close> that no request below
  \<open>PTRDIFF_MAX\<close> fails. It is one function for a whole run, so requests of one size fail all or never.
  An output written through a pointer is
  a returned byte list. Loops over arrays are recursions over indices or lists; every one of them is a
  total function, so no fuel occurs in the development.

  \<^bold>\<open>Theories and code.\<close>
  \<^item> \<open>Prelude\<close>: the integer types, \<open>size_wrap\<close>, big- and little-endian bytes, \<open>splice\<close> (a
    \<open>memcpy\<close> into a buffer), the \<open>op\<close> monad.
  \<^item> \<open>PbStream\<close>, \<open>PbWire\<close>: \<open>nanopb/pb_encode.c\<close> and \<open>pb_decode.c\<close>, streams and wire
    primitives (varint, zigzag, fixed width, tags, strings, skipping, substreams). Locales
    \<open>consuming\<close> and \<open>strictly_consuming\<close> state what a reader may do to its stream; every reader of
    the code is an interpretation.
  \<^item> \<open>Mem\<close> (\<open>crypto/mem.c\<close>), \<open>Buf\<close> (\<open>crypto/buf/buf.c\<close>).
  \<^item> \<open>Cbs\<close>, \<open>CbsFields\<close> (\<open>crypto/bytestring/cbs.c\<close>): the DER parser. Its functions are compared
    with the set of distinguished encodings.
  \<^item> \<open>Cbb\<close>, \<open>CbbSpec\<close>, \<open>DerRoundtrip\<close>, \<open>CbbTotal\<close> (\<open>crypto/bytestring/cbb.c\<close>,
    \<open>asn1_compat.c\<close>): the DER builder with its chain of open children, the abstraction \<open>view\<close> of the
    bytes it will produce, contracts of every operation over it, when it cannot fail, and that the parser
    reads back what it built.
  \<^item> \<open>ConstTime\<close> (\<open>crypto/internal.h\<close>), \<open>Blocks\<close> (locale \<open>block_stream\<close>, the shape shared by
    everything that buffers input to blocks), \<open>Base64\<close> (\<open>crypto/base64/base64.c\<close>).
  \<^item> \<open>Standards\<close>: what the standards publish, apart from the code: numbers as bytes and words of either
    order, the padding, the round constants and initial values of FIPS 180-4 as bits of the roots of the
    first primes, the sine table of RFC 1321.
  \<^item> \<open>Md32\<close> (\<open>crypto/fipsmodule/digest/md32_common.h\<close>, locale \<open>md_hash\<close>), \<open>Sha1\<close>, \<open>Sha256\<close>,
    \<open>Sha512\<close> (\<open>crypto/fipsmodule/sha\<close>), \<open>Md45\<close> (\<open>md4\<close>, \<open>md5\<close>): the hash functions, against
    definitions of the standards that use nothing of the code: its tables, initial values, byte order and
    padding are proved to be those of \<open>Standards\<close>. For platforms that read only aligned words, the copying
    loop of \<open>SHA512_Update\<close> is shown to give the same state.
  \<^item> \<open>Digest\<close> (\<open>crypto/fipsmodule/digest\<close>, locale \<open>digest_method\<close> interpreted on the eight method
    tables), \<open>Hmac\<close> (\<open>crypto/fipsmodule/hmac\<close>), \<open>Kdf\<close> (\<open>crypto/hkdf\<close>, \<open>crypto/evp/pbkdf.c\<close>): the
    digest interface and what is built on it, proved from the locale alone.
  \<^item> \<open>Stack\<close> (\<open>crypto/stack\<close>, locale \<open>sort_library\<close> for the C library's sorting and searching),
    \<open>Lhash\<close> (\<open>crypto/lhash\<close>, locale \<open>dictionary\<close>), \<open>Pool\<close> (\<open>crypto/pool\<close>,
    \<open>crypto/refcount_lock.c\<close>): containers, and the shared buffers with an inductive relation over the
    critical sections of concurrent threads.
  \<^item> \<open>BnWords\<close>, \<open>BnMul\<close>, \<open>Bn\<close> (\<open>crypto/fipsmodule/bn\<close>): big numbers. The word-array routines
    of \<open>generic.c\<close> and \<open>mul.c\<close>, Comba and Karatsuba included, with \<open>bn_val\<close> the number an array
    stands for; then \<open>BIGNUM\<close> with its capacity and sign, \<open>bn_int\<close> the integer it stands for.
  \<^item> \<open>BnShift\<close> (\<open>shift.c\<close>), \<open>BnBytes\<close> (\<open>bytes.c\<close>), \<open>BnCtx\<close> (\<open>ctx.c\<close>, the pool of temporaries;
    its counters are naturals; \<open>ctx_run\<close> is any well-bracketed use of it), \<open>BnOps\<close> (the routines of \<open>mul.c\<close> and \<open>shift.c\<close> that take their
    temporaries from a context; \<open>None\<close> is the use of a null pointer).
  \<^item> \<open>BnMod\<close>, \<open>BnDiv\<close>, \<open>BnModular\<close>, \<open>BnPow2\<close> (\<open>div.c\<close>): modular addition, subtraction and doubling
    at the width of the modulus; the schoolbook division with its estimated quotient words; modular
    arithmetic on operands of any size; division by words, by powers of two and bit by bit.
  \<^item> \<open>BnMont\<close> (\<open>montgomery.c\<close>, \<open>montgomery_inv.c\<close>): contexts of an odd modulus, the reduction with its
    separate carry, products and conversions of numbers and of short word arrays.

  \<^bold>\<open>What the theorems show.\<close> Parsers accept exactly the distinguished encodings and consume exactly
  them; builders produce them and cannot fail within stated sizes; writers never touch bytes outside
  their buffers; streaming interfaces give the result of the one-shot specification however the input is
  cut; hash functions, HMAC, HKDF and PBKDF2 compute the published definitions wherever these define a result;
  containers refine lists
  and finite maps through growth and failed allocations;
  big-number routines compute exact integer results; reference counts keep buffers alive under every
  interleaving. Where a routine does not write the sign of its result, its theorem states the sign that
  stays. Theorems of kind error document where the code does not do what it means to.

  \<^bold>\<open>Not modelled.\<close> Swift, Python, C++ and Objective-C code; TLS, X.509 and public-key code;
  operating-system layers; assembly. Memory is not a global address space: two pointers alias only
  where a definition says so.
\<close>

end
